(* ===== verification/Prelude.thy ===== *)
theory Prelude
  imports Main "HOL-Library.Word"
begin

text \<open>
  Shared vocabulary of the development: the C integer types of the target (a 32-bit
  Cortex-M4, little endian), the error codes of \<^verbatim>\<open>include/rtdef.h\<close>, the result type
  of code that may fault, bounds-checked accesses to byte arrays, and the generic lemmas the
  components share.
\<close>

unbundle bit_operations_syntax

section \<open>Machine types\<close>

type_synonym u8 = "8 word"
type_synonym u16 = "16 word"
type_synonym u32 = "32 word"
type_synonym u64 = "64 word"

type_synonym bytes = "u8 list"

section \<open>Faults\<close>

text \<open>
  What C leaves undefined, or what stops the system, is a value here:
  \<open>Assert_failed\<close> is a failed \<^verbatim>\<open>RT_ASSERT\<close> (\<^verbatim>\<open>rt_assert_handler\<close> never returns),
  \<open>Out_of_bounds\<close> an access outside of the array it names, \<open>Null_pointer\<close> a dereference
  of \<^verbatim>\<open>RT_NULL\<close>, \<open>Stack_overflow\<close> a recursion deeper than the stack of its thread allows.
\<close>

datatype fault = Assert_failed | Out_of_bounds | Null_pointer | Stack_overflow

type_synonym 'a res = "fault + 'a"

definition rbind :: "'a res \<Rightarrow> ('a \<Rightarrow> 'b res) \<Rightarrow> 'b res" where
  "rbind m f = (case m of Inl e \<Rightarrow> Inl e | Inr x \<Rightarrow> f x)"

definition rassert :: "bool \<Rightarrow> 'b res \<Rightarrow> 'b res" where
  "rassert b m = (if b then m else Inl Assert_failed)"

lemma rbind_simps [simp]:
  "rbind (Inl e) f = Inl e"
  "rbind (Inr x) f = f x"
  by (simp_all add: rbind_def)

lemma rbind_eq_Inr: "rbind m f = Inr y \<longleftrightarrow> (\<exists>x. m = Inr x \<and> f x = Inr y)"
  by (cases m) auto

lemma rassert_simps [simp]:
  "rassert True m = m"
  "rassert False m = Inl Assert_failed"
  by (simp_all add: rassert_def)

lemma rassert_eq_Inr: "rassert b m = Inr y \<longleftrightarrow> b \<and> m = Inr y"
  by (simp add: rassert_def)

section \<open>Byte arrays\<close>

definition load8 :: "bytes \<Rightarrow> nat \<Rightarrow> u8 res" where
  "load8 p i = (if i < length p then Inr (p ! i) else Inl Out_of_bounds)"

definition store8 :: "bytes \<Rightarrow> nat \<Rightarrow> u8 \<Rightarrow> bytes res" where
  "store8 p i b = (if i < length p then Inr (p[i := b]) else Inl Out_of_bounds)"

lemma load8_simps [simp]:
  "i < length p \<Longrightarrow> load8 p i = Inr (p ! i)"
  "length p \<le> i \<Longrightarrow> load8 p i = Inl Out_of_bounds"
  by (simp_all add: load8_def)

lemma store8_simps [simp]:
  "i < length p \<Longrightarrow> store8 p i b = Inr (p[i := b])"
  "length p \<le> i \<Longrightarrow> store8 p i b = Inl Out_of_bounds"
  by (simp_all add: store8_def)

text \<open>\<^verbatim>\<open>memcpy(&dst[off], src, n)\<close> inside one array, the two ranges in different arrays.\<close>

definition blit :: "'a list \<Rightarrow> nat \<Rightarrow> 'a list \<Rightarrow> 'a list" where
  "blit dst off src = take off dst @ src @ drop (off + length src) dst"

lemma length_blit [simp]:
  "off + length src \<le> length dst \<Longrightarrow> length (blit dst off src) = length dst"
  by (simp add: blit_def)

lemma nth_blit:
  "off + length src \<le> length dst \<Longrightarrow> i < length dst \<Longrightarrow>
   blit dst off src ! i = (if off \<le> i \<and> i < off + length src then src ! (i - off) else dst ! i)"
  by (auto simp: blit_def nth_append min_def not_less)

lemma blit_Nil [simp]: "blit dst off [] = dst"
  by (simp add: blit_def)

text \<open>\<^verbatim>\<open>memcpy(&dst[off], &src[soff], n)\<close>; the count is what the C expression computes, so a
  negative one would be a huge \<^verbatim>\<open>size_t\<close>.\<close>

definition memcpy :: "bytes \<Rightarrow> nat \<Rightarrow> bytes \<Rightarrow> nat \<Rightarrow> int \<Rightarrow> bytes res" where
  "memcpy dst off src soff n =
     (if 0 \<le> n \<and> off + nat n \<le> length dst \<and> soff + nat n \<le> length src
      then Inr (blit dst off (take (nat n) (drop soff src)))
      else Inl Out_of_bounds)"

lemma memcpy_ok:
  "0 \<le> n \<Longrightarrow> off + nat n \<le> length dst \<Longrightarrow> soff + nat n \<le> length src \<Longrightarrow>
   memcpy dst off src soff n = Inr (blit dst off (take (nat n) (drop soff src)))"
  by (simp add: memcpy_def)

section \<open>Words and naturals\<close>

lemma unat_small: "n < 2 ^ LENGTH('a) \<Longrightarrow> unat (of_nat n :: 'a::len word) = n"
  by (simp add: unat_of_nat)

lemma unat_ucast_up:
  "LENGTH('a::len) \<le> LENGTH('b::len) \<Longrightarrow> unat (ucast (x :: 'a word) :: 'b word) = unat x"
  by (simp add: unsigned_ucast_eq take_bit_nat_eq_self_iff)
    (meson less_le_trans power_increasing_iff one_less_numeral_iff semiring_norm(76) unsigned_less)

lemma unat_ucast_16_32 [simp]: "unat (ucast (x :: u16) :: u32) = unat x"
  by (rule unat_ucast_up) simp

lemma unat_ucast_8_16 [simp]: "unat (ucast (x :: u8) :: u16) = unat x"
  by (rule unat_ucast_up) simp

lemma unat_ucast_8_32 [simp]: "unat (ucast (x :: u8) :: u32) = unat x"
  by (rule unat_ucast_up) simp

lemma unat_u8_less: "unat (x :: u8) < 256"
  using unsigned_less [of x] by simp

lemma unat_u16_less: "unat (x :: u16) < 65536"
  using unsigned_less [of x] by simp

lemma unat_u32_less: "unat (x :: u32) < 4294967296"
  using unsigned_less [of x] by simp

lemma unat_add_small:
  "unat x + unat y < 2 ^ LENGTH('a) \<Longrightarrow> unat (x + y :: 'a::len word) = unat x + unat y"
  by (simp add: unat_word_ariths)

section \<open>Error codes\<close>

text \<open>\<^verbatim>\<open>rt_err_t\<close> is a C long; functions return the negated codes below.\<close>

type_synonym rt_err = int

abbreviation (input) RT_EOK :: rt_err where "RT_EOK \<equiv> 0"
abbreviation (input) RT_ERROR :: rt_err where "RT_ERROR \<equiv> 1"
abbreviation (input) RT_ETIMEOUT :: rt_err where "RT_ETIMEOUT \<equiv> 2"
abbreviation (input) RT_EFULL :: rt_err where "RT_EFULL \<equiv> 3"
abbreviation (input) RT_EEMPTY :: rt_err where "RT_EEMPTY \<equiv> 4"
abbreviation (input) RT_ENOMEM :: rt_err where "RT_ENOMEM \<equiv> 5"
abbreviation (input) RT_ENOSYS :: rt_err where "RT_ENOSYS \<equiv> 6"
abbreviation (input) RT_EBUSY :: rt_err where "RT_EBUSY \<equiv> 7"
abbreviation (input) RT_EIO :: rt_err where "RT_EIO \<equiv> 8"
abbreviation (input) RT_EINTR :: rt_err where "RT_EINTR \<equiv> 9"
abbreviation (input) RT_EINVAL :: rt_err where "RT_EINVAL \<equiv> 10"

section \<open>Alignment macros\<close>

definition rt_align :: "u32 \<Rightarrow> u32 \<Rightarrow> u32" where
  "rt_align sz align = (sz + align - 1) AND NOT (align - 1)"

definition rt_align_down :: "u32 \<Rightarrow> u32 \<Rightarrow> u32" where
  "rt_align_down sz align = sz AND NOT (align - 1)"

lemma and_not_mask_word: "(x :: 'a::len word) AND NOT (mask n) = push_bit n (drop_bit n x)"
  by (rule bit_word_eqI) (auto simp: bit_simps)

lemma unat_and_not_3:
  assumes "2 < LENGTH('a)"
  shows "unat (x AND NOT 3 :: 'a::len word) = 4 * (unat x div 4)"
proof -
  have m: "(3 :: 'a word) = mask 2" by (simp add: mask_eq_exp_minus_1)
  have lt: "4 * (unat x div 4) < 2 ^ LENGTH('a)"
    using unsigned_less [of x] by (meson le_less_trans times_div_less_eq_dividend)
  have "unat (x AND NOT 3) = take_bit LENGTH('a) (push_bit 2 (drop_bit 2 (unat x)))"
    unfolding m and_not_mask_word by (simp add: unsigned_push_bit_eq unsigned_drop_bit_eq take_bit_nat_eq_self)
  also have "\<dots> = take_bit LENGTH('a) (4 * (unat x div 4))"
    by (simp add: push_bit_eq_mult drop_bit_eq_div mult.commute)
  also have "\<dots> = 4 * (unat x div 4)"
    using lt by (simp add: take_bit_nat_eq_self)
  finally show ?thesis .
qed

lemma unat_align_down_4: "unat (rt_align_down x 4) = 4 * (unat x div 4)"
proof -
  have "rt_align_down x 4 = x AND NOT 3" by (simp add: rt_align_down_def)
  moreover have "2 < LENGTH(32)" by simp
  ultimately show ?thesis using unat_and_not_3 [where 'a = 32, of x] by (simp only:)
qed

lemma unat_align_4:
  assumes "unat x + 3 < 2 ^ 32"
  shows "unat (rt_align x 4) = 4 * ((unat x + 3) div 4)"
proof -
  have "rt_align x 4 = (x + 3) AND NOT 3" by (simp add: rt_align_def algebra_simps)
  moreover have "unat (x + 3) = unat x + 3"
    using assms by (simp add: unat_word_ariths)
  moreover have "2 < LENGTH(32)" by simp
  ultimately show ?thesis using unat_and_not_3 [where 'a = 32, of "x + 3"] by (simp only:)
qed

end
