(* ===== verification/ByteCodec.thy ===== *)
theory ByteCodec
  imports Prelude
begin

text \<open>
  \<^verbatim>\<open>applications/usr_util.h\<close>: the fixed-width little- and big-endian integer codecs the
  serial protocol uses, the CR2032 battery gauge and the alignment test. An encoder writes
  \<open>width\<close> octets at the start of the caller's buffer and returns how many it wrote; a write or a
  read past the buffer is \<open>Out_of_bounds\<close>.

  The interface all codecs share is the locale \<open>byte_codec\<close> (what an encoder stores, what a
  decoder reads back), extended by \<open>tight_codec\<close> where decoding loses nothing.
\<close>

section \<open>Octets of a word\<close>

definition octet :: "nat \<Rightarrow> 'a::len word \<Rightarrow> u8" where
  "octet i v = ucast (drop_bit (8 * i) v)"

definition octets_le :: "nat \<Rightarrow> 'a::len word \<Rightarrow> bytes" where
  "octets_le n v = map (\<lambda>i. octet i v) [0..<n]"

definition octets_be :: "nat \<Rightarrow> 'a::len word \<Rightarrow> bytes" where
  "octets_be n v = rev (octets_le n v)"

lemma length_octets_le [simp]: "length (octets_le n v) = n"
  by (simp add: octets_le_def)

lemma length_octets_be [simp]: "length (octets_be n v) = n"
  by (simp add: octets_be_def)

lemma octets_le_simps [simp]:
  "octets_le 2 v = [octet 0 v, octet 1 v]"
  "octets_le 3 v = [octet 0 v, octet 1 v, octet 2 v]"
  "octets_le 4 v = [octet 0 v, octet 1 v, octet 2 v, octet 3 v]"
  "octets_le 6 v = [octet 0 v, octet 1 v, octet 2 v, octet 3 v, octet 4 v, octet 5 v]"
  by (simp_all add: octets_le_def upt_rec numeral_eq_Suc)

lemma bit_octet: "bit (octet i v) n \<longleftrightarrow> n < 8 \<and> bit v (8 * i + n)"
  by (auto simp: octet_def bit_simps dest: bit_imp_le_length)

section \<open>The codecs\<close>

definition uint16_encode :: "u16 \<Rightarrow> bytes \<Rightarrow> (u8 \<times> bytes) res" where
  "uint16_encode value p =
     rbind (store8 p 0 (ucast (drop_bit 0 (value AND 0x00FF)))) (\<lambda>p.
     rbind (store8 p 1 (ucast (drop_bit 8 (value AND 0xFF00)))) (\<lambda>p.
     Inr (2, p)))"

definition uint24_encode :: "u32 \<Rightarrow> bytes \<Rightarrow> (u8 \<times> bytes) res" where
  "uint24_encode value p =
     rbind (store8 p 0 (ucast (drop_bit 0 (value AND 0x000000FF)))) (\<lambda>p.
     rbind (store8 p 1 (ucast (drop_bit 8 (value AND 0x0000FF00)))) (\<lambda>p.
     rbind (store8 p 2 (ucast (drop_bit 16 (value AND 0x00FF0000)))) (\<lambda>p.
     Inr (3, p))))"

definition uint32_encode :: "u32 \<Rightarrow> bytes \<Rightarrow> (u8 \<times> bytes) res" where
  "uint32_encode value p =
     rbind (store8 p 0 (ucast (drop_bit 0 (value AND 0x000000FF)))) (\<lambda>p.
     rbind (store8 p 1 (ucast (drop_bit 8 (value AND 0x0000FF00)))) (\<lambda>p.
     rbind (store8 p 2 (ucast (drop_bit 16 (value AND 0x00FF0000)))) (\<lambda>p.
     rbind (store8 p 3 (ucast (drop_bit 24 (value AND 0xFF000000)))) (\<lambda>p.
     Inr (4, p)))))"

definition uint48_encode :: "u64 \<Rightarrow> bytes \<Rightarrow> (u8 \<times> bytes) res" where
  "uint48_encode value p =
     rbind (store8 p 0 (ucast (drop_bit 0 (value AND 0x0000000000FF)))) (\<lambda>p.
     rbind (store8 p 1 (ucast (drop_bit 8 (value AND 0x00000000FF00)))) (\<lambda>p.
     rbind (store8 p 2 (ucast (drop_bit 16 (value AND 0x000000FF0000)))) (\<lambda>p.
     rbind (store8 p 3 (ucast (drop_bit 24 (value AND 0x0000FF000000)))) (\<lambda>p.
     rbind (store8 p 4 (ucast (drop_bit 32 (value AND 0x00FF00000000)))) (\<lambda>p.
     rbind (store8 p 5 (ucast (drop_bit 40 (value AND 0xFF0000000000)))) (\<lambda>p.
     Inr (6, p)))))))"

definition uint16_decode :: "bytes \<Rightarrow> u16 res" where
  "uint16_decode p =
     rbind (load8 p 0) (\<lambda>b0. rbind (load8 p 1) (\<lambda>b1.
     Inr (ucast b0 OR push_bit 8 (ucast b1))))"

definition uint16_big_decode :: "bytes \<Rightarrow> u16 res" where
  "uint16_big_decode p =
     rbind (load8 p 0) (\<lambda>b0. rbind (load8 p 1) (\<lambda>b1.
     Inr (push_bit 8 (ucast b0) OR ucast b1)))"

definition uint24_decode :: "bytes \<Rightarrow> u32 res" where
  "uint24_decode p =
     rbind (load8 p 0) (\<lambda>b0. rbind (load8 p 1) (\<lambda>b1. rbind (load8 p 2) (\<lambda>b2.
     Inr (push_bit 0 (ucast b0) OR push_bit 8 (ucast b1) OR push_bit 16 (ucast b2)))))"

definition uint24_big_decode :: "bytes \<Rightarrow> u32 res" where
  "uint24_big_decode p =
     rbind (load8 p 0) (\<lambda>b0. rbind (load8 p 1) (\<lambda>b1. rbind (load8 p 2) (\<lambda>b2.
     Inr (push_bit 16 (ucast b0) OR push_bit 8 (ucast b1) OR push_bit 0 (ucast b2)))))"

definition uint32_decode :: "bytes \<Rightarrow> u32 res" where
  "uint32_decode p =
     rbind (load8 p 0) (\<lambda>b0. rbind (load8 p 1) (\<lambda>b1.
     rbind (load8 p 2) (\<lambda>b2. rbind (load8 p 3) (\<lambda>b3.
     Inr (push_bit 0 (ucast b0) OR push_bit 8 (ucast b1) OR
          push_bit 16 (ucast b2) OR push_bit 24 (ucast b3))))))"

definition uint32_big_decode :: "bytes \<Rightarrow> u32 res" where
  "uint32_big_decode p =
     rbind (load8 p 0) (\<lambda>b0. rbind (load8 p 1) (\<lambda>b1.
     rbind (load8 p 2) (\<lambda>b2. rbind (load8 p 3) (\<lambda>b3.
     Inr (push_bit 24 (ucast b0) OR push_bit 16 (ucast b1) OR
          push_bit 8 (ucast b2) OR push_bit 0 (ucast b3))))))"

definition uint48_decode :: "bytes \<Rightarrow> u64 res" where
  "uint48_decode p =
     rbind (load8 p 0) (\<lambda>b0. rbind (load8 p 1) (\<lambda>b1.
     rbind (load8 p 2) (\<lambda>b2. rbind (load8 p 3) (\<lambda>b3.
     rbind (load8 p 4) (\<lambda>b4. rbind (load8 p 5) (\<lambda>b5.
     Inr (push_bit 0 (ucast b0) OR push_bit 8 (ucast b1) OR push_bit 16 (ucast b2) OR
          push_bit 24 (ucast b3) OR push_bit 32 (ucast b4) OR push_bit 40 (ucast b5))))))))"

text \<open>
  The body of \<^verbatim>\<open>uint32_big_encode\<close> is chosen by the preprocessor symbols \<^verbatim>\<open>NRF51\<close> and
  \<^verbatim>\<open>NRF52\<close>, so the symbol that is defined is an argument of the model. On \<^verbatim>\<open>NRF52\<close> it stores
  \<^verbatim>\<open>__REV(value)\<close>, the byte-reversed word, with a little-endian word store.
\<close>

datatype nrf_symbol = NRF51 | NRF52 | NRF_undefined

definition rev32 :: "u32 \<Rightarrow> u32" where
  "rev32 v = ucast (octet 3 v) OR push_bit 8 (ucast (octet 2 v)) OR
             push_bit 16 (ucast (octet 1 v)) OR push_bit 24 (ucast (octet 0 v))"

definition uint32_big_encode :: "nrf_symbol \<Rightarrow> u32 \<Rightarrow> bytes \<Rightarrow> (u8 \<times> bytes) res" where
  "uint32_big_encode symbol value p =
     (case symbol of
        NRF51 \<Rightarrow>
          rbind (store8 p 0 (ucast (drop_bit 24 (value AND 0xFF000000)))) (\<lambda>p.
          rbind (store8 p 1 (ucast (drop_bit 16 (value AND 0x00FF0000)))) (\<lambda>p.
          rbind (store8 p 2 (ucast (drop_bit 8 (value AND 0x0000FF00)))) (\<lambda>p.
          rbind (store8 p 3 (ucast (drop_bit 0 (value AND 0x000000FF)))) (\<lambda>p.
          Inr (4, p)))))
      | NRF52 \<Rightarrow> rbind (uint32_encode (rev32 value) p) (\<lambda>(_, p). Inr (4, p))
      | NRF_undefined \<Rightarrow> Inr (4, p))"

section \<open>The battery gauge and the alignment test\<close>

definition battery_level_in_percent :: "u16 \<Rightarrow> u8" where
  "battery_level_in_percent mvolts =
     (let mv = uint mvolts in
      if mv \<ge> 3000 then 100
      else if mv > 2900 then word_of_int (100 - ((3000 - mv) * 58) div 100)
      else if mv > 2740 then word_of_int (42 - ((2900 - mv) * 24) div 160)
      else if mv > 2440 then word_of_int (18 - ((2740 - mv) * 12) div 300)
      else if mv > 2100 then word_of_int (6 - ((2440 - mv) * 6) div 340)
      else 0)"

definition is_word_aligned :: "u32 \<Rightarrow> bool" where
  "is_word_aligned p \<longleftrightarrow> p AND 0x03 = 0"

section \<open>The interface of a codec\<close>

locale byte_codec =
  fixes enc :: "'v \<Rightarrow> bytes \<Rightarrow> (u8 \<times> bytes) res"
    and dec :: "bytes \<Rightarrow> 'v res"
    and width :: nat
    and octets :: "'v \<Rightarrow> bytes"
    and norm :: "'v \<Rightarrow> 'v"
  assumes length_octets: "length (octets v) = width"
    and enc_stores: "width \<le> length p \<Longrightarrow> enc v p = Inr (of_nat width, octets v @ drop width p)"
    and enc_short: "length p < width \<Longrightarrow> enc v p = Inl Out_of_bounds"
    and dec_octets: "dec (octets v @ q) = Inr (norm v)"
    and dec_short: "length p < width \<Longrightarrow> dec p = Inl Out_of_bounds"
begin

lemma enc_ok_iff: "(\<exists>n p'. enc v p = Inr (n, p')) \<longleftrightarrow> width \<le> length p"
  by (cases "width \<le> length p") (auto simp: enc_stores enc_short)

lemma round_trip:
  assumes "enc v p = Inr (n, p')"
  shows "dec p' = Inr (norm v) \<and> n = of_nat width \<and>
         length p' = length p \<and> drop width p' = drop width p"
proof -
  from assms have "width \<le> length p" by (meson enc_ok_iff)
  with assms have "n = of_nat width" and p': "p' = octets v @ drop width p"
    by (simp_all add: enc_stores)
  moreover from p' have "dec p' = Inr (norm v)" by (simp add: dec_octets)
  ultimately show ?thesis
    using \<open>width \<le> length p\<close> by (simp add: length_octets)
qed

lemma stored_round_trip:
  "width \<le> length p \<Longrightarrow>
   \<exists>p'. enc v p = Inr (of_nat width, p') \<and> dec p' = Inr (norm v) \<and> drop width p' = drop width p"
  using enc_stores [of p v] round_trip [of v p] by blast

lemma octets_eq_norm: "octets v = octets w \<Longrightarrow> norm v = norm w"
  using dec_octets [of v "[]"] dec_octets [of w "[]"] by simp

end

locale tight_codec = byte_codec +
  assumes octets_dec: "dec p = Inr v \<Longrightarrow> octets v = take width p"
begin

lemma round_trip_back:
  assumes "dec p = Inr v"
  shows "enc v p = Inr (of_nat width, p)"
proof -
  have "width \<le> length p"
    using assms dec_short [of p] by (cases "length p < width") auto
  then show ?thesis
    using assms by (simp add: enc_stores octets_dec)
qed

end

section \<open>Splitting and gluing octets\<close>

lemma ucast_and_255: "(ucast (w AND 255 :: 'a::len word) :: u8) = ucast w"
proof -
  have "(w AND 255 :: 'a word) = take_bit 8 w" by (simp add: take_bit_eq_mask mask_eq_exp_minus_1)
  then show ?thesis by (auto simp: bit_simps intro: bit_word_eqI)
qed

lemmas octet_simps = ucast_and_255 octet_def

lemma glue_16: "ucast (octet 0 v) OR push_bit 8 (ucast (octet 1 v)) = (v :: u16)"
  by (rule bit_word_eqI) (auto simp: bit_simps bit_octet)

lemma glue_24:
  "ucast (octet 0 v) OR push_bit 8 (ucast (octet 1 v)) OR push_bit 16 (ucast (octet 2 v)) =
   take_bit 24 (v :: u32)"
  by (rule bit_word_eqI, rename_tac n, case_tac "n < 8"; case_tac "n < 16")
    (auto simp: bit_simps bit_octet)

lemma glue_32:
  "ucast (octet 0 v) OR push_bit 8 (ucast (octet 1 v)) OR push_bit 16 (ucast (octet 2 v)) OR
   push_bit 24 (ucast (octet 3 v)) = (v :: u32)"
  by (rule bit_word_eqI, rename_tac n, case_tac "n < 8"; case_tac "n < 16"; case_tac "n < 24")
    (auto simp: bit_simps bit_octet)

lemma glue_48:
  "ucast (octet 0 v) OR push_bit 8 (ucast (octet 1 v)) OR push_bit 16 (ucast (octet 2 v)) OR
   push_bit 24 (ucast (octet 3 v)) OR push_bit 32 (ucast (octet 4 v)) OR
   push_bit 40 (ucast (octet 5 v)) = take_bit 48 (v :: u64)"
  by (rule bit_word_eqI, rename_tac n, case_tac "n < 8"; case_tac "n < 16"; case_tac "n < 24";
      case_tac "n < 32"; case_tac "n < 40") (auto simp: bit_simps bit_octet)

lemma octet_glue_16:
  fixes a b :: u8
  defines "v \<equiv> ucast a OR push_bit 8 (ucast b) :: u16"
  shows "octet 0 v = a" "octet 1 v = b"
  unfolding v_def by (rule bit_word_eqI, auto simp: bit_simps bit_octet dest: bit_imp_le_length)+

lemma octet_glue_32:
  fixes a b c d :: u8
  defines "v \<equiv> ucast a OR push_bit 8 (ucast b) OR push_bit 16 (ucast c) OR push_bit 24 (ucast d) :: u32"
  shows "octet 0 v = a" "octet 1 v = b" "octet 2 v = c" "octet 3 v = d"
  unfolding v_def by (rule bit_word_eqI, auto simp: bit_simps bit_octet dest: bit_imp_le_length)+

lemma split_list_numeral:
  "2 \<le> length p \<longleftrightarrow> (\<exists>a b q. p = a # b # q)"
  "3 \<le> length p \<longleftrightarrow> (\<exists>a b c q. p = a # b # c # q)"
  "4 \<le> length p \<longleftrightarrow> (\<exists>a b c d q. p = a # b # c # d # q)"
  "6 \<le> length p \<longleftrightarrow> (\<exists>a b c d e f q. p = a # b # c # d # e # f # q)"
  by (auto simp: numeral_eq_Suc Suc_le_length_iff)

section \<open>The codecs keep the interface\<close>

interpretation le16: tight_codec uint16_encode uint16_decode 2 "octets_le 2" "\<lambda>v. v"
proof
  fix v :: u16 and p q :: bytes
  show "length (octets_le 2 v) = 2" by simp
  show "2 \<le> length p \<Longrightarrow> uint16_encode v p = Inr (of_nat 2, octets_le 2 v @ drop 2 p)"
    by (auto simp: uint16_encode_def split_list_numeral octet_simps)
  show "length p < 2 \<Longrightarrow> uint16_encode v p = Inl Out_of_bounds"
    by (auto simp: uint16_encode_def store8_def rbind_def)
  show "uint16_decode (octets_le 2 v @ q) = Inr v"
    by (simp add: uint16_decode_def glue_16 del: One_nat_def)
  show "length p < 2 \<Longrightarrow> uint16_decode p = Inl Out_of_bounds"
    by (auto simp: uint16_decode_def load8_def rbind_def)
  show "uint16_decode p = Inr v \<Longrightarrow> octets_le 2 v = take 2 p"
    by (cases "2 \<le> length p")
      (auto simp: uint16_decode_def split_list_numeral rbind_eq_Inr load8_def octet_glue_16 simp del: One_nat_def)
qed

interpretation le24: byte_codec uint24_encode uint24_decode 3 "octets_le 3" "take_bit 24"
proof
  fix v :: u32 and p q :: bytes
  show "length (octets_le 3 v) = 3" by simp
  show "3 \<le> length p \<Longrightarrow> uint24_encode v p = Inr (of_nat 3, octets_le 3 v @ drop 3 p)"
    by (auto simp: uint24_encode_def split_list_numeral octet_simps)
  show "length p < 3 \<Longrightarrow> uint24_encode v p = Inl Out_of_bounds"
    by (auto simp: uint24_encode_def store8_def rbind_def)
  show "uint24_decode (octets_le 3 v @ q) = Inr (take_bit 24 v)"
    by (simp add: uint24_decode_def glue_24 del: One_nat_def)
  show "length p < 3 \<Longrightarrow> uint24_decode p = Inl Out_of_bounds"
    by (auto simp: uint24_decode_def load8_def rbind_def)
qed

interpretation le32: tight_codec uint32_encode uint32_decode 4 "octets_le 4" "\<lambda>v. v"
proof
  fix v :: u32 and p q :: bytes
  show "length (octets_le 4 v) = 4" by simp
  show "4 \<le> length p \<Longrightarrow> uint32_encode v p = Inr (of_nat 4, octets_le 4 v @ drop 4 p)"
    by (auto simp: uint32_encode_def split_list_numeral octet_simps)
  show "length p < 4 \<Longrightarrow> uint32_encode v p = Inl Out_of_bounds"
    by (auto simp: uint32_encode_def store8_def rbind_def)
  show "uint32_decode (octets_le 4 v @ q) = Inr v"
    by (simp add: uint32_decode_def glue_32 del: One_nat_def)
  show "length p < 4 \<Longrightarrow> uint32_decode p = Inl Out_of_bounds"
    by (auto simp: uint32_decode_def load8_def rbind_def)
  show "uint32_decode p = Inr v \<Longrightarrow> octets_le 4 v = take 4 p"
    by (cases "4 \<le> length p")
      (auto simp: uint32_decode_def split_list_numeral rbind_eq_Inr load8_def octet_glue_32 simp del: One_nat_def)
qed

interpretation le48: byte_codec uint48_encode uint48_decode 6 "octets_le 6" "take_bit 48"
proof
  fix v :: u64 and p q :: bytes
  show "length (octets_le 6 v) = 6" by simp
  show "6 \<le> length p \<Longrightarrow> uint48_encode v p = Inr (of_nat 6, octets_le 6 v @ drop 6 p)"
    by (auto simp: uint48_encode_def split_list_numeral octet_simps)
  show "length p < 6 \<Longrightarrow> uint48_encode v p = Inl Out_of_bounds"
    by (auto simp: uint48_encode_def store8_def rbind_def)
  show "uint48_decode (octets_le 6 v @ q) = Inr (take_bit 48 v)"
    by (simp add: uint48_decode_def glue_48 del: One_nat_def)
  show "length p < 6 \<Longrightarrow> uint48_decode p = Inl Out_of_bounds"
    by (auto simp: uint48_decode_def load8_def rbind_def)
qed

lemma rev32_octets: "octets_le 4 (rev32 v) = octets_be 4 v"
  by (simp add: octets_be_def rev32_def octet_glue_32 del: One_nat_def)

lemma glue_be_32:
  "push_bit 24 (ucast (octet 3 v)) OR push_bit 16 (ucast (octet 2 v)) OR
   push_bit 8 (ucast (octet 1 v)) OR ucast (octet 0 v) = (v :: u32)"
  using glue_32 [of v] by (simp add: ac_simps)

interpretation be32: byte_codec "uint32_big_encode NRF51" uint32_big_decode 4 "octets_be 4" "\<lambda>v. v"
proof
  fix v :: u32 and p q :: bytes
  show "length (octets_be 4 v) = 4" by simp
  show "4 \<le> length p \<Longrightarrow> uint32_big_encode NRF51 v p = Inr (of_nat 4, octets_be 4 v @ drop 4 p)"
    by (auto simp: uint32_big_encode_def split_list_numeral octet_simps octets_be_def)
  show "length p < 4 \<Longrightarrow> uint32_big_encode NRF51 v p = Inl Out_of_bounds"
    by (auto simp: uint32_big_encode_def store8_def rbind_def)
  show "uint32_big_decode (octets_be 4 v @ q) = Inr v"
    by (simp add: uint32_big_decode_def octets_be_def glue_be_32 del: One_nat_def)
  show "length p < 4 \<Longrightarrow> uint32_big_decode p = Inl Out_of_bounds"
    by (auto simp: uint32_big_decode_def load8_def rbind_def)
qed

interpretation be32r: byte_codec "uint32_big_encode NRF52" uint32_big_decode 4 "octets_be 4" "\<lambda>v. v"
proof
  fix v :: u32 and p q :: bytes
  show "4 \<le> length p \<Longrightarrow> uint32_big_encode NRF52 v p = Inr (of_nat 4, octets_be 4 v @ drop 4 p)"
    by (simp add: uint32_big_encode_def le32.enc_stores rev32_octets del: octets_le_simps)
  show "length p < 4 \<Longrightarrow> uint32_big_encode NRF52 v p = Inl Out_of_bounds"
    by (simp add: uint32_big_encode_def le32.enc_short)
qed (simp_all add: be32.dec_octets be32.dec_short)

lemma uint32_big_encode_undefined: "uint32_big_encode NRF_undefined v p = Inr (4, p)"
  by (simp add: uint32_big_encode_def)

section \<open>The battery gauge\<close>

lemma uint_battery:
  "uint (battery_level_in_percent v) =
     (let mv = uint v in
      if mv \<ge> 3000 then 100
      else if mv > 2900 then 100 - ((3000 - mv) * 58) div 100
      else if mv > 2740 then 42 - ((2900 - mv) * 24) div 160
      else if mv > 2440 then 18 - ((2740 - mv) * 12) div 300
      else if mv > 2100 then 6 - ((2440 - mv) * 6) div 340
      else 0)"
proof -
  have "uint (word_of_int k :: u8) = k" if "0 \<le> k" "k < 256" for k
    using that by (simp add: uint_word_of_int mod_pos_pos_trivial)
  then show ?thesis
    by (auto simp: battery_level_in_percent_def Let_def not_le not_less simp del: of_int_diff)
qed

lemma battery_bounded: "uint (battery_level_in_percent v) \<le> 100"
  by (auto simp: uint_battery Let_def not_le not_less)

lemma battery_mono: "v \<le> w \<Longrightarrow> battery_level_in_percent v \<le> battery_level_in_percent w"
  by (auto simp: word_le_def uint_battery Let_def not_le not_less)

lemma is_word_aligned_iff: "is_word_aligned p \<longleftrightarrow> unat p mod 4 = 0"
proof -
  have "p AND 3 = take_bit 2 p" by (simp add: take_bit_eq_mask mask_eq_exp_minus_1)
  then have "unat (p AND 3) = unat p mod 4"
    by (simp add: take_bit_eq_mod unat_mod_distrib)
  then show ?thesis by (metis is_word_aligned_def unsigned_0 unsigned_eq_0_iff)
qed

section \<open>Properties\<close>

text \<open>The little-endian codecs round-trip: writing a 16-, 24-, 32- or 48-bit value at the
  start of a large enough buffer reports the width, leaves the rest of the buffer alone, and the
  matching decoder reads the value back (its low 24 or 48 bits for the two odd widths).\<close>

theorem little_endian_round_trip:
  "6 \<le> length p \<Longrightarrow>
   (\<exists>p'. uint16_encode a p = Inr (2, p') \<and> uint16_decode p' = Inr a \<and> drop 2 p' = drop 2 p) \<and>
   (\<exists>p'. uint24_encode b p = Inr (3, p') \<and> uint24_decode p' = Inr (take_bit 24 b) \<and>
         drop 3 p' = drop 3 p) \<and>
   (\<exists>p'. uint32_encode c p = Inr (4, p') \<and> uint32_decode p' = Inr c \<and> drop 4 p' = drop 4 p) \<and>
   (\<exists>p'. uint48_encode d p = Inr (6, p') \<and> uint48_decode p' = Inr (take_bit 48 d) \<and>
         drop 6 p' = drop 6 p)"
  using le16.stored_round_trip [of p a] le24.stored_round_trip [of p b]
    le32.stored_round_trip [of p c] le48.stored_round_trip [of p d]
  by (simp only: of_nat_numeral)

text \<open>Decoding inverts encoding the other way round as well: if the bytes at the start of a
  buffer decode to a 16- or 32-bit value, encoding that value leaves the buffer exactly as it is.\<close>

theorem little_endian_reencode:
  "uint16_decode p = Inr v \<Longrightarrow> uint32_decode q = Inr w \<Longrightarrow>
   uint16_encode v p = Inr (2, p) \<and> uint32_encode w q = Inr (4, q)"
  using le16.round_trip_back [of p v] le32.round_trip_back [of q w] by simp

text \<open>Big-endian encoding round-trips with \<^verbatim>\<open>uint32_big_decode\<close> when \<^verbatim>\<open>NRF51\<close> or
  \<^verbatim>\<open>NRF52\<close> is defined; with neither symbol defined (as in this STM32 build) the function
  reports four bytes written and stores nothing, so the decoder reads whatever was there.\<close>

theorem uint32_big_encode_behaviour:
  "4 \<le> length p \<Longrightarrow>
   (\<exists>p'. uint32_big_encode NRF51 v p = Inr (4, p') \<and> uint32_big_decode p' = Inr v) \<and>
   (\<exists>p'. uint32_big_encode NRF52 v p = Inr (4, p') \<and> uint32_big_decode p' = Inr v) \<and>
   uint32_big_encode NRF_undefined v p = Inr (4, p)"
  using be32.stored_round_trip [of p v] be32r.stored_round_trip [of p v]
  by (auto simp: uint32_big_encode_undefined)

text \<open>The battery gauge is a percentage and never falls as the voltage rises, across all
  five segments and their joints.\<close>

theorem battery_level_monotone:
  "v \<le> w \<Longrightarrow> battery_level_in_percent v \<le> battery_level_in_percent w \<and>
               battery_level_in_percent w \<le> 100"
  using battery_mono [of v w] battery_bounded [of w] by (simp add: word_le_def)

end
