(* ===== verification/AlphaPacket.thy ===== *)
theory AlphaPacket
  imports ByteCodec
begin

text \<open>
  \<^verbatim>\<open>fun_handler/alpha_task\<close>: the command packets for the alpha (LoRa) chip. The packet
  encoders of \<^verbatim>\<open>ser_alpha_data_handler.c\<close> fill a packed header that ends in a pointer to the
  parameter block; the tasks of \<^verbatim>\<open>alpha_tasks.c\<close> walk over header and block with one pointer
  and write byte after byte to the serial device. The bytes given to \<^verbatim>\<open>rt_device_write\<close> are
  the observable result.
\<close>

section \<open>Data\<close>

definition SER_PKT_TYPE_CMD :: u8 where "SER_PKT_TYPE_CMD = 0"

definition ALPHA_ALIVE_ACCESS :: u8 where "ALPHA_ALIVE_ACCESS = 1"
definition ALPHA_CMD_LORA_OPEN_RX :: u8 where "ALPHA_CMD_LORA_OPEN_RX = 3"
definition ALPHA_CMD_LORA_OPEN_TX :: u8 where "ALPHA_CMD_LORA_OPEN_TX = 4"

text \<open>The pointer \<^verbatim>\<open>data_buff\<close> is modelled by the array it points to; the four octets of the
  address itself, which lie in the packed header as well, are an argument of the send loop.\<close>

record ser_pkg_to_alpha =
  tx_pkg_len :: u16
  command_type :: u8
  items_index :: u8
  data_buff :: bytes

record open_rx_param =
  rx_freq :: u32
  rx_bandwidth :: u32
  rx_daterate :: u32
  rx_crcon :: u8
  rx_iqinverted :: u8

record open_tx_param =
  tx_freq :: u32
  tx_power :: u8
  tx_bandwidth :: u32
  tx_daterate :: u32
  tx_crcon :: u8
  tx_iqinverted :: u8
  tx_data_len :: u8
  tx_data :: bytes

text \<open>The memory images of the packed structures, little endian.\<close>

definition open_rx_bytes :: "open_rx_param \<Rightarrow> bytes" where
  "open_rx_bytes q = octets_le 4 (rx_freq q) @ octets_le 4 (rx_bandwidth q) @
     octets_le 4 (rx_daterate q) @ [rx_crcon q, rx_iqinverted q]"

definition open_tx_bytes :: "open_tx_param \<Rightarrow> bytes" where
  "open_tx_bytes q = octets_le 4 (tx_freq q) @ [tx_power q] @ octets_le 4 (tx_bandwidth q) @
     octets_le 4 (tx_daterate q) @ [tx_crcon q, tx_iqinverted q, tx_data_len q] @ tx_data q"

definition pkg_bytes :: "u32 \<Rightarrow> ser_pkg_to_alpha \<Rightarrow> bytes" where
  "pkg_bytes addr k = octets_le 2 (tx_pkg_len k) @ [command_type k, items_index k] @ octets_le 4 addr"

lemma length_open_rx_bytes [simp]: "length (open_rx_bytes q) = 14"
  by (simp add: open_rx_bytes_def)

lemma length_open_tx_bytes [simp]: "length (open_tx_bytes q) = 16 + length (tx_data q)"
  by (simp add: open_tx_bytes_def)

section \<open>Encoders\<close>

definition open_lora_rx_pkg_enc :: "open_rx_param \<Rightarrow> ser_pkg_to_alpha" where
  "open_lora_rx_pkg_enc q =
     \<lparr> tx_pkg_len = 14 + 1 + 1,
       command_type = SER_PKT_TYPE_CMD,
       items_index = ALPHA_CMD_LORA_OPEN_RX,
       data_buff = open_rx_bytes q \<rparr>"

definition open_lora_tx_pkg_enc :: "open_tx_param \<Rightarrow> ser_pkg_to_alpha" where
  "open_lora_tx_pkg_enc q =
     (let param_len = 4 + 1 + 4 + 4 + 1 + 1 + 1 + ucast (tx_data_len q) :: u16 in
      \<lparr> tx_pkg_len = param_len + 1 + 1,
        command_type = SER_PKT_TYPE_CMD,
        items_index = ALPHA_CMD_LORA_OPEN_TX,
        data_buff = open_tx_bytes q \<rparr>)"

section \<open>The send loop\<close>

text \<open>
  \<^verbatim>\<open>for (rt_uint8_t i = 0; i < tx_pkg_len + sizeof(rt_uint16_t); i++)\<close>: the counter is eight
  bits wide while the bound is computed at 32 bits. The pointer starts at the header and is set to
  the parameter block after the fourth byte. The loop may run forever, so it takes fuel; \<open>None\<close>
  says the fuel did not suffice.
\<close>

datatype pkg_ptr = At_pkg nat | At_data nat

fun ptr_next :: "pkg_ptr \<Rightarrow> pkg_ptr" where
  "ptr_next (At_pkg n) = At_pkg (Suc n)"
| "ptr_next (At_data n) = At_data (Suc n)"

fun ptr_read :: "u32 \<Rightarrow> ser_pkg_to_alpha \<Rightarrow> pkg_ptr \<Rightarrow> u8 res" where
  "ptr_read addr k (At_pkg n) = load8 (pkg_bytes addr k) n"
| "ptr_read addr k (At_data n) = load8 (data_buff k) n"

definition more_to_send :: "ser_pkg_to_alpha \<Rightarrow> u8 \<Rightarrow> bool" where
  "more_to_send k i \<longleftrightarrow> (ucast i :: u32) < ucast (tx_pkg_len k) + 2"

fun send_loop :: "nat \<Rightarrow> u32 \<Rightarrow> ser_pkg_to_alpha \<Rightarrow> u8 \<Rightarrow> pkg_ptr \<Rightarrow> bytes \<Rightarrow> bytes res option" where
  "send_loop 0 addr k i p out = None"
| "send_loop (Suc n) addr k i p out =
     (if more_to_send k i
      then (case ptr_read addr k p of
              Inl e \<Rightarrow> Some (Inl e)
            | Inr b \<Rightarrow> send_loop n addr k (i + 1) (if i = 3 then At_data 0 else ptr_next p) (out @ [b]))
      else Some (Inr out))"

definition send_pkg :: "nat \<Rightarrow> u32 \<Rightarrow> ser_pkg_to_alpha \<Rightarrow> bytes res option" where
  "send_pkg n addr k = send_loop n addr k 0 (At_pkg 0) []"

definition open_lora_rx_entry :: "nat \<Rightarrow> u32 \<Rightarrow> open_rx_param \<Rightarrow> bytes res option" where
  "open_lora_rx_entry n addr q = send_pkg n addr (open_lora_rx_pkg_enc q)"

definition open_lora_tx_entry :: "nat \<Rightarrow> u32 \<Rightarrow> open_tx_param \<Rightarrow> bytes res option" where
  "open_lora_tx_entry n addr q = send_pkg n addr (open_lora_tx_pkg_enc q)"

text \<open>The two shell commands send fixed parameters; \<open>junk\<close> is what the uninitialised stack array
  \<^verbatim>\<open>tx_data\<close> holds before \<^verbatim>\<open>memcpy\<close> writes its first ten bytes.\<close>

definition open_lora_rx :: "nat \<Rightarrow> u32 \<Rightarrow> bytes res option" where
  "open_lora_rx n addr = send_pkg n addr (open_lora_rx_pkg_enc
     \<lparr> rx_freq = 433000000, rx_bandwidth = 0, rx_daterate = 11, rx_crcon = 0, rx_iqinverted = 0 \<rparr>)"

definition open_lora_tx :: "nat \<Rightarrow> u32 \<Rightarrow> bytes \<Rightarrow> bytes res option" where
  "open_lora_tx n addr junk =
     (let tx_buf = [1, 2, 3, 4, 5, 6, 7, 8, 9, 10] in
      send_pkg n addr (open_lora_tx_pkg_enc
        \<lparr> tx_freq = 433000000, tx_power = 14, tx_bandwidth = 0, tx_daterate = 11,
          tx_crcon = 0, tx_iqinverted = 0, tx_data_len = of_nat (length tx_buf),
          tx_data = blit junk 0 tx_buf \<rparr>))"

section \<open>What the loop sends\<close>

definition pkg_wire :: "ser_pkg_to_alpha \<Rightarrow> bytes" where
  "pkg_wire k = octets_le 2 (tx_pkg_len k) @ [command_type k, items_index k] @
     take (unat (tx_pkg_len k) - 2) (data_buff k)"

lemma more_to_send_iff: "more_to_send k i \<longleftrightarrow> unat i < unat (tx_pkg_len k) + 2"
  using unat_u16_less [of "tx_pkg_len k"]
  by (simp add: more_to_send_def word_less_nat_alt unat_add_small)

lemma send_data:
  assumes "i = of_nat (4 + j)" "4 + j \<le> unat (tx_pkg_len k) + 2" "unat (tx_pkg_len k) + 2 \<le> 255"
    and "unat (tx_pkg_len k) - 2 \<le> length (data_buff k)"
    and "unat (tx_pkg_len k) - (2 + j) < n"
  shows "send_loop n addr k i (At_data j) out =
    Some (Inr (out @ drop j (take (unat (tx_pkg_len k) - 2) (data_buff k))))"
  using assms
proof (induction n arbitrary: i j out)
  case (Suc n)
  let ?L = "unat (tx_pkg_len k)"
  have i: "unat i = 4 + j" unfolding Suc.prems(1) by (rule unat_small) (use Suc.prems in simp)
  show ?case
  proof (cases "4 + j < ?L + 2")
    case True
    then have j: "j < length (data_buff k)" using Suc.prems by simp
    have "i \<noteq> 3" using i by auto
    moreover have "send_loop n addr k (i + 1) (At_data (Suc j)) (out @ [data_buff k ! j]) =
      Some (Inr ((out @ [data_buff k ! j]) @ drop (Suc j) (take (?L - 2) (data_buff k))))"
      by (rule Suc.IH) (use Suc.prems True in auto)
    moreover have "drop j (take (?L - 2) (data_buff k)) =
      data_buff k ! j # drop (Suc j) (take (?L - 2) (data_buff k))"
      using True j by (subst Cons_nth_drop_Suc [symmetric]) auto
    ultimately show ?thesis using True i j by (simp add: more_to_send_iff)
  next
    case False
    then show ?thesis using Suc.prems i by (simp add: more_to_send_iff)
  qed
qed simp

lemma send_pkg_wire:
  assumes len: "2 \<le> unat (tx_pkg_len k)" "unat (tx_pkg_len k) + 2 \<le> 255"
    and data: "unat (tx_pkg_len k) - 2 \<le> length (data_buff k)"
    and fuel: "unat (tx_pkg_len k) + 2 < n"
  shows "send_pkg n addr k = Some (Inr (pkg_wire k))"
proof -
  obtain m where n: "n = Suc (Suc (Suc (Suc m)))" and m: "unat (tx_pkg_len k) - 2 < m"
    using fuel len by (intro that [of "n - 4"]) auto
  have d: "send_loop m addr k 4 (At_data 0) out =
      Some (Inr (out @ drop 0 (take (unat (tx_pkg_len k) - 2) (data_buff k))))" for out
    by (rule send_data) (use len data m in auto)
  show ?thesis
    using len d by (simp add: send_pkg_def n more_to_send_iff pkg_bytes_def pkg_wire_def del: One_nat_def)
qed

text \<open>Past 253 bytes the eight-bit counter never reaches the bound.\<close>

definition loop_state :: "u8 \<Rightarrow> pkg_ptr \<Rightarrow> bool" where
  "loop_state i p \<longleftrightarrow> (case p of At_pkg j \<Rightarrow> j \<le> 3 \<and> i = of_nat j
                              | At_data j \<Rightarrow> j < 256 \<and> i = of_nat (4 + j))"

lemma loop_state_step:
  assumes "loop_state i p"
  shows "loop_state (i + 1) (if i = 3 then At_data 0 else ptr_next p)"
proof (cases p)
  case (At_pkg j)
  with assms have "j = 0 \<or> j = 1 \<or> j = 2 \<or> j = 3" and "i = of_nat j" by (auto simp: loop_state_def)
  then show ?thesis using At_pkg by (elim disjE) (auto simp: loop_state_def)
next
  case (At_data j)
  with assms have j: "j < 256" and i: "i = of_nat (4 + j)" by (auto simp: loop_state_def)
  show ?thesis
  proof (cases "i = 3")
    case True
    then show ?thesis by (simp add: loop_state_def)
  next
    case False
    have "j \<noteq> 255" using False i by auto
    then show ?thesis using At_data False i j by (simp add: loop_state_def)
  qed
qed

lemma loop_state_reads:
  assumes "loop_state i p" "256 \<le> length (data_buff k)"
  obtains b where "ptr_read addr k p = Inr b"
  using assms by (cases p) (auto simp: loop_state_def pkg_bytes_def)

lemma send_loop_diverges:
  assumes "254 \<le> unat (tx_pkg_len k)" "256 \<le> length (data_buff k)" "loop_state i p"
  shows "send_loop n addr k i p out = None"
  using assms(3)
proof (induction n arbitrary: i p out)
  case (Suc n)
  from Suc.prems assms(2) obtain b where "ptr_read addr k p = Inr b" by (rule loop_state_reads)
  moreover have "more_to_send k i"
    using assms(1) unat_u8_less [of i] by (simp add: more_to_send_iff)
  ultimately show ?case using Suc.IH [OF loop_state_step [OF Suc.prems]] by simp
qed simp

section \<open>The four senders\<close>

lemma unat_rx_len [simp]: "unat (tx_pkg_len (open_lora_rx_pkg_enc q)) = 16"
  by (simp add: open_lora_rx_pkg_enc_def)

lemma unat_tx_len [simp]: "unat (tx_pkg_len (open_lora_tx_pkg_enc q)) = 18 + unat (tx_data_len q)"
  using unat_u8_less [of "tx_data_len q"]
  by (simp add: open_lora_tx_pkg_enc_def Let_def unat_add_small)

lemma data_buff_enc [simp]:
  "data_buff (open_lora_rx_pkg_enc q) = open_rx_bytes q"
  "data_buff (open_lora_tx_pkg_enc r) = open_tx_bytes r"
  by (simp_all add: open_lora_rx_pkg_enc_def open_lora_tx_pkg_enc_def Let_def)

lemma open_rx_sends: "19 \<le> n \<Longrightarrow> open_lora_rx_entry n addr q = Some (Inr ([16, 0, 0, 3] @ open_rx_bytes q))"
proof -
  have "octets_le 2 (16 :: u16) = [16, 0]" by (simp add: octet_def)
  then show "19 \<le> n \<Longrightarrow> ?thesis"
    using send_pkg_wire [of "open_lora_rx_pkg_enc q" n addr]
    by (simp add: open_lora_rx_entry_def pkg_wire_def)
      (simp add: open_lora_rx_pkg_enc_def SER_PKT_TYPE_CMD_def ALPHA_CMD_LORA_OPEN_RX_def)
qed

text \<open>The sixteen bytes before the data array.\<close>

definition open_tx_head :: "open_tx_param \<Rightarrow> bytes" where
  "open_tx_head q = octets_le 4 (tx_freq q) @ [tx_power q] @ octets_le 4 (tx_bandwidth q) @
     octets_le 4 (tx_daterate q) @ [tx_crcon q, tx_iqinverted q, tx_data_len q]"

lemma take_open_tx_bytes: "take (16 + m) (open_tx_bytes q) = open_tx_head q @ take m (tx_data q)"
proof -
  have "open_tx_bytes q = open_tx_head q @ tx_data q" by (simp add: open_tx_bytes_def open_tx_head_def)
  moreover have "length (open_tx_head q) = 16" by (simp add: open_tx_head_def)
  ultimately show ?thesis by simp
qed

section \<open>Properties\<close>

text \<open>Opening LoRa transmission sends exactly one well-formed frame and returns: the
  little-endian packet length, command type 0, item 4, the sixteen bytes of fixed parameters
  (frequency, power, bandwidth, data rate, CRC, IQ, data length), then the \<open>tx_data_len\<close> data
  bytes and nothing of the rest of the 255-byte array, as long as there are at most 235 of them.\<close>

theorem open_lora_tx_sends_frame:
  "length (tx_data q) = 255 \<Longrightarrow> unat (tx_data_len q) \<le> 235 \<Longrightarrow> 21 + unat (tx_data_len q) \<le> n \<Longrightarrow>
   open_lora_tx_entry n addr q =
     Some (Inr (octets_le 2 (18 + ucast (tx_data_len q) :: u16) @ [0, 4] @
       octets_le 4 (tx_freq q) @ [tx_power q] @ octets_le 4 (tx_bandwidth q) @
       octets_le 4 (tx_daterate q) @ [tx_crcon q, tx_iqinverted q, tx_data_len q] @
       take (unat (tx_data_len q)) (tx_data q)))"
  using send_pkg_wire [of "open_lora_tx_pkg_enc q" n addr]
    take_open_tx_bytes [of "unat (tx_data_len q)" q]
  by (simp add: open_lora_tx_entry_def pkg_wire_def open_tx_head_def del: octets_le_simps)
    (simp add: open_lora_tx_pkg_enc_def Let_def SER_PKT_TYPE_CMD_def ALPHA_CMD_LORA_OPEN_TX_def del: octets_le_simps)

definition sample_tx :: "u8 \<Rightarrow> open_tx_param" where
  "sample_tx len = \<lparr> tx_freq = 433000000, tx_power = 14, tx_bandwidth = 0, tx_daterate = 11,
     tx_crcon = 0, tx_iqinverted = 0, tx_data_len = len, tx_data = replicate 255 7 \<rparr>"

text \<open>With 236 or more data bytes, which the eight-bit length field and the 255-byte data array
  both allow, the byte counter of the send loop wraps before it reaches the packet length: however
  long the task runs, it never finishes sending.\<close>

theorem open_lora_tx_never_returns:
  "length (tx_data q) = 255 \<Longrightarrow> 236 \<le> unat (tx_data_len q) \<Longrightarrow> open_lora_tx_entry n addr q = None"
  using send_loop_diverges [of "open_lora_tx_pkg_enc q" 0 "At_pkg 0" n addr "[]"]
  by (simp add: open_lora_tx_entry_def send_pkg_def loop_state_def)

end
