(* ===== verification/AlphaFramer.thy ===== *)
theory AlphaFramer
  imports AlphaPacket
begin

text \<open>
  \<^verbatim>\<open>fun_handler/alpha_handler.c\<close>: the receive thread of uart3. It collects the bytes of one
  frame (a little-endian 16-bit length, then that many payload bytes) in a 128-byte stack array
  and posts the payload to the message queue. A step of the model is one byte that
  \<^verbatim>\<open>rt_device_read\<close> delivered; its result is the new state of the thread's locals and the
  payload given to \<^verbatim>\<open>rt_mq_send\<close>, if any.
\<close>

section \<open>The receiver\<close>

record framer =
  fr_done :: bool
  fr_buf :: bytes
  fr_idx :: u8
  fr_len :: u16

definition framer_byte :: "u8 \<Rightarrow> framer \<Rightarrow> (framer \<times> bytes option) res" where
  "framer_byte ch s =
     (let s = (if fr_done s then s\<lparr>fr_done := False, fr_idx := 0, fr_len := 0\<rparr> else s) in
      rbind (store8 (fr_buf s) (unat (fr_idx s)) ch) (\<lambda>buf.
      rbind (if fr_idx s = 2 then uint16_decode buf else Inr (fr_len s)) (\<lambda>len.
      let s = s\<lparr>fr_buf := buf, fr_len := len, fr_idx := fr_idx s + 1\<rparr> in
      if len \<noteq> 0 \<and> (ucast len :: u32) = ucast (fr_idx s) - 2
      then Inr (s\<lparr>fr_done := True\<rparr>, Some (take (unat len) (drop 2 buf)))
      else Inr (s, None))))"

text \<open>\<^verbatim>\<open>uart3_rx_thread_entry\<close>: its locals at the start (the array is uninitialised), and the
  loop over the bytes that arrive.\<close>

definition framer_start :: "bytes \<Rightarrow> framer" where
  "framer_start junk = \<lparr> fr_done = True, fr_buf = junk, fr_idx = 0, fr_len = 0 \<rparr>"

fun uart3_rx :: "bytes \<Rightarrow> framer \<Rightarrow> (framer \<times> bytes list) res" where
  "uart3_rx [] s = Inr (s, [])"
| "uart3_rx (ch # cs) s =
     rbind (framer_byte ch s) (\<lambda>(s, m).
     rbind (uart3_rx cs s) (\<lambda>(s', ms).
     Inr (s', (case m of None \<Rightarrow> ms | Some x \<Rightarrow> x # ms))))"

lemma uart3_rx_append:
  "uart3_rx (xs @ ys) s =
   rbind (uart3_rx xs s) (\<lambda>(s1, ms1). rbind (uart3_rx ys s1) (\<lambda>(s2, ms2). Inr (s2, ms1 @ ms2)))"
proof (induction xs arbitrary: s)
  case Nil
  then show ?case by (cases "uart3_rx ys s") auto
next
  case (Cons x xs)
  show ?case
  proof (cases "framer_byte x s")
    case (Inr r)
    obtain s1 m where r: "r = (s1, m)" by (cases r)
    show ?thesis
      using Inr r Cons.IH [of s1]
      by (cases "uart3_rx xs s1"; simp split: prod.splits option.splits)
        (auto simp: rbind_def split: sum.splits prod.splits)
  qed simp
qed

section \<open>Framing\<close>

text \<open>
  The contract of a framing: starting from an idle receiver, the encoding of an admissible message
  is received as exactly that message and leaves the receiver idle. Streams then work as well.
\<close>

locale framing =
  fixes run :: "'b list \<Rightarrow> 's \<Rightarrow> ('s \<times> 'm list) res"
    and idle :: "'s \<Rightarrow> bool"
    and encode :: "'m \<Rightarrow> 'b list"
    and admissible :: "'m \<Rightarrow> bool"
  assumes run_Nil: "run [] s = Inr (s, [])"
    and run_append: "run (xs @ ys) s =
      rbind (run xs s) (\<lambda>(s1, ms1). rbind (run ys s1) (\<lambda>(s2, ms2). Inr (s2, ms1 @ ms2)))"
    and run_encode: "idle s \<Longrightarrow> admissible m \<Longrightarrow> \<exists>s'. run (encode m) s = Inr (s', [m]) \<and> idle s'"
begin

lemma run_stream:
  "idle s \<Longrightarrow> (\<forall>m \<in> set ms. admissible m) \<Longrightarrow>
   \<exists>s'. run (concat (map encode ms)) s = Inr (s', ms) \<and> idle s'"
proof (induction ms arbitrary: s)
  case Nil
  then show ?case by (simp add: run_Nil)
next
  case (Cons m ms)
  from Cons.prems obtain s1 where s1: "run (encode m) s = Inr (s1, [m])" "idle s1"
    using run_encode [of s m] by auto
  with Cons.IH [of s1] Cons.prems obtain s2 where
    "run (concat (map encode ms)) s1 = Inr (s2, ms)" "idle s2" by auto
  with s1 show ?case by (simp add: run_append)
qed

lemma encode_stream_inj:
  assumes s: "idle s" and ms: "\<forall>m \<in> set ms. admissible m" and ns: "\<forall>m \<in> set ns. admissible m"
    and eq: "concat (map encode ms) = concat (map encode ns)"
  shows "ms = ns"
  using run_stream [OF s ms] run_stream [OF s ns] unfolding eq by fastforce

end

section \<open>Inside a frame\<close>

definition declared_len :: "bytes \<Rightarrow> u16" where
  "declared_len bs = ucast (bs ! 0) OR push_bit 8 (ucast (bs ! 1))"

text \<open>The locals after the bytes \<open>bs\<close> of an unfinished frame.\<close>

definition mid_frame :: "bytes \<Rightarrow> bytes \<Rightarrow> framer" where
  "mid_frame buf0 bs = \<lparr> fr_done = False, fr_buf = blit buf0 0 bs, fr_idx = of_nat (length bs),
     fr_len = (if 3 \<le> length bs then declared_len bs else 0) \<rparr>"

lemma blit_snoc:
  "length bs < length buf \<Longrightarrow> (blit buf 0 bs)[length bs := b] = blit buf 0 (bs @ [b])"
  by (rule nth_equalityI) (auto simp: nth_blit nth_list_update nth_append)

lemma decode_blit:
  "2 \<le> length bs \<Longrightarrow> length bs \<le> length buf \<Longrightarrow> uint16_decode (blit buf 0 bs) = Inr (declared_len bs)"
proof -
  assume bs: "2 \<le> length bs" and buf: "length bs \<le> length buf"
  then have "0 < length bs" "1 < length bs" "0 < length buf" "1 < length buf" by linarith+
  with buf have "0 < length (blit buf 0 bs)" "1 < length (blit buf 0 bs)"
    "blit buf 0 bs ! 0 = bs ! 0" "blit buf 0 bs ! 1 = bs ! 1"
    by (simp_all add: nth_blit del: length_greater_0_conv)
  then show ?thesis by (simp only: uint16_decode_def declared_len_def load8_simps rbind_simps)
qed

lemma declared_len_snoc: "2 \<le> length bs \<Longrightarrow> declared_len (bs @ [b]) = declared_len bs"
  by (cases bs; cases "tl bs") (simp_all add: declared_len_def nth_append)

lemma take_drop_blit:
  "off + n \<le> length bs \<Longrightarrow> length bs \<le> length buf \<Longrightarrow>
   take n (drop off (blit buf 0 bs)) = take n (drop off bs)"
  by (rule nth_equalityI) (auto simp: nth_blit)

lemma first_byte:
  assumes "fr_done s" "length (fr_buf s) = 128"
  shows "framer_byte b s = Inr (mid_frame (fr_buf s) [b], None)"
  using assms blit_snoc [of "[]" "fr_buf s" b]
  by (simp add: framer_byte_def mid_frame_def Let_def)

lemma index_matches:
  assumes "1 \<le> k" "k < 256"
  shows "(ucast len :: u32) = ucast (of_nat k :: u8) - 2 \<longleftrightarrow> unat (len :: u16) + 2 = k"
proof -
  have "(ucast len :: u32) = ucast (of_nat k :: u8) - 2 \<longleftrightarrow> ucast len + 2 = (ucast (of_nat k :: u8) :: u32)"
    by (auto simp: algebra_simps)
  also have "\<dots> \<longleftrightarrow> unat (ucast len + 2 :: u32) = unat (ucast (of_nat k :: u8) :: u32)"
    by (metis word_unat_eq_iff)
  also have "\<dots> \<longleftrightarrow> unat len + 2 = k"
    using assms unat_u16_less [of len] by (simp add: unat_add_small unat_of_nat)
  finally show ?thesis .
qed

lemma next_byte:
  assumes n: "1 \<le> length bs" "length bs < 128" and buf: "length buf = 128"
  shows "framer_byte b (mid_frame buf bs) =
    (if 2 \<le> length bs \<and> declared_len bs \<noteq> 0 \<and> unat (declared_len bs) + 1 = length bs
     then Inr ((mid_frame buf (bs @ [b]))\<lparr>fr_done := True\<rparr>, Some (drop 2 (bs @ [b])))
     else Inr (mid_frame buf (bs @ [b]), None))"
proof -
  have idx: "unat (of_nat (length bs) :: u8) = length bs" using n by (simp add: unat_of_nat)
  have is2: "(of_nat (length bs) :: u8) = 2 \<longleftrightarrow> length bs = 2"
  proof -
    have "(of_nat (length bs) :: u8) = 2 \<longleftrightarrow> unat (of_nat (length bs) :: u8) = unat (2 :: u8)"
      by (metis word_unat_eq_iff)
    then show ?thesis by (simp add: idx)
  qed
  let ?len = "if 3 \<le> length (bs @ [b]) then declared_len (bs @ [b]) else 0"
  have len: "(if (of_nat (length bs) :: u8) = 2 then uint16_decode (blit buf 0 (bs @ [b]))
      else Inr (if 3 \<le> length bs then declared_len bs else 0)) = Inr ?len"
    using n buf by (auto simp: is2 decode_blit declared_len_snoc)
  have match: "(ucast ?len :: u32) = ucast ((of_nat (length bs) :: u8) + 1) - 2 \<longleftrightarrow> unat ?len + 1 = length bs"
    using index_matches [of "length bs + 1" ?len] n by (simp add: add.commute)
  show ?thesis
    using n buf len match
    by (auto simp: framer_byte_def mid_frame_def idx blit_snoc declared_len_snoc Let_def
        take_drop_blit split: if_splits)
qed

lemma overflow_byte:
  assumes "length bs = 128" "length buf = 128"
  shows "framer_byte b (mid_frame buf bs) = Inl Out_of_bounds"
  using assms by (simp add: framer_byte_def mid_frame_def)

section \<open>Frames\<close>

definition alpha_frame :: "bytes \<Rightarrow> bytes" where
  "alpha_frame p = octets_le 2 (of_nat (length p) :: u16) @ p"

definition idle_rx :: "framer \<Rightarrow> bool" where
  "idle_rx s \<longleftrightarrow> fr_done s \<and> length (fr_buf s) = 128"

lemma unfinished:
  assumes "idle_rx s" "1 \<le> length bs" "length bs \<le> 128"
    and "declared_len bs = 0 \<or> length bs < 2 \<or> length bs < unat (declared_len bs) + 2"
  shows "uart3_rx bs s = Inr (mid_frame (fr_buf s) bs, [])"
  using assms(2-)
proof (induction bs rule: rev_induct)
  case (snoc b bs)
  show ?case
  proof (cases "bs = []")
    case True
    then show ?thesis using assms(1) by (simp add: first_byte idle_rx_def)
  next
    case False
    then have n: "1 \<le> length bs" "length bs < 128" using snoc.prems by (cases bs; simp)+
    have "uart3_rx bs s = Inr (mid_frame (fr_buf s) bs, [])"
      by (rule snoc.IH) (use n snoc.prems declared_len_snoc [of bs b] in \<open>auto simp: not_less\<close>)
    moreover have "\<not> (2 \<le> length bs \<and> declared_len bs \<noteq> 0 \<and> unat (declared_len bs) + 1 = length bs)"
      using snoc.prems declared_len_snoc [of bs b] by auto
    ultimately show ?thesis
      using assms(1) by (simp add: uart3_rx_append idle_rx_def next_byte [OF n])
  qed
qed simp

lemma declared_len_frame: "declared_len (octets_le 2 (l :: u16) @ q) = l"
  by (simp add: declared_len_def glue_16 del: One_nat_def)

lemma rx_alpha_frame:
  assumes s: "idle_rx s" and p: "1 \<le> length p" "length p \<le> 126"
  shows "\<exists>s'. uart3_rx (alpha_frame p) s = Inr (s', [p]) \<and> idle_rx s'"
proof -
  let ?l = "of_nat (length p) :: u16"
  obtain q b where q: "p = q @ [b]" using p by (cases p rule: rev_cases) auto
  define bs where "bs = octets_le 2 ?l @ q"
  have l: "unat ?l = length p" using p by (simp add: unat_of_nat)
  have d: "declared_len bs = ?l" by (simp only: bs_def declared_len_frame)
  have n: "length bs = length p + 1" using q by (simp add: bs_def)
  have "uart3_rx bs s = Inr (mid_frame (fr_buf s) bs, [])"
    by (rule unfinished) (use s p n d l in auto)
  moreover have "alpha_frame p = bs @ [b]" by (simp add: alpha_frame_def bs_def q)
  moreover have "?l \<noteq> 0" using p l by auto
  moreover have "drop 2 (bs @ [b]) = p" by (simp add: bs_def q)
  ultimately have "uart3_rx (alpha_frame p) s = Inr ((mid_frame (fr_buf s) (bs @ [b]))\<lparr>fr_done := True\<rparr>, [p])"
    using s p n d l next_byte [of bs "fr_buf s" b] by (simp add: uart3_rx_append idle_rx_def)
  moreover have "idle_rx ((mid_frame (fr_buf s) (bs @ [b]))\<lparr>fr_done := True\<rparr>)"
    using s p n by (simp add: idle_rx_def mid_frame_def)
  ultimately show ?thesis by blast
qed

interpretation alpha_rx: framing uart3_rx idle_rx alpha_frame "\<lambda>p. 1 \<le> length p \<and> length p \<le> 126"
proof
  show "uart3_rx [] s = Inr (s, [])" for s by simp
qed (use uart3_rx_append rx_alpha_frame in auto)

lemma rx_overflow:
  assumes s: "idle_rx s" and n: "129 \<le> length bs" and d: "declared_len bs = 0 \<or> 126 < unat (declared_len bs)"
  shows "uart3_rx bs s = Inl Out_of_bounds"
proof -
  define pre where "pre = take 128 bs"
  obtain b post where bs: "bs = pre @ b # post"
    using n by (metis pre_def append_take_drop_id drop_eq_Nil neq_Nil_conv not_less_eq_eq
        numeral_plus_one semiring_norm(5) Suc_eq_plus1 add_One_commute semiring_norm(2) semiring_norm(4))
  have pre: "length pre = 128" using n by (simp add: pre_def)
  have "declared_len pre = declared_len bs" using n by (simp add: pre_def declared_len_def)
  then have "uart3_rx pre s = Inr (mid_frame (fr_buf s) pre, [])"
    using s pre d by (intro unfinished) auto
  then show ?thesis
    using s pre by (simp add: bs uart3_rx_append overflow_byte idle_rx_def)
qed

section \<open>Properties\<close>

text \<open>C30: From its start state, or whenever it is between two frames, the uart3 receive thread turns
  any stream of well-formed frames (payloads of 1 to 126 bytes) into exactly those payloads, posted
  to the message queue in order, and is between two frames again at the end.\<close>

theorem uart3_rx_stream:
  "fr_done s \<Longrightarrow> length (fr_buf s) = 128 \<Longrightarrow> (\<forall>p \<in> set ps. 1 \<le> length p \<and> length p \<le> 126) \<Longrightarrow>
   \<exists>s'. uart3_rx (concat (map alpha_frame ps)) s = Inr (s', ps) \<and> fr_done s'"
  using alpha_rx.run_stream [of s ps] by (auto simp: idle_rx_def)

theorem uart3_rx_stream_witness:
  "\<exists>s'. uart3_rx [2, 0, 9, 8, 1, 0, 7] (framer_start (replicate 128 0)) = Inr (s', [[9, 8], [7]]) \<and> fr_done s'"
proof -
  have "\<exists>s'. uart3_rx (concat (map alpha_frame [[9, 8], [7]])) (framer_start (replicate 128 0)) =
    Inr (s', [[9, 8], [7]]) \<and> fr_done s'"
    by (rule uart3_rx_stream) (auto simp: framer_start_def)
  then show ?thesis by (simp add: alpha_frame_def octet_def)
qed

text \<open>A frame whose length field is zero or exceeds the 126 payload bytes the array has room for
  is never finished: the receive thread stores its 129th byte outside of the array.\<close>

theorem uart3_rx_overflow:
  "fr_done s \<Longrightarrow> length (fr_buf s) = 128 \<Longrightarrow> 129 \<le> length bs \<Longrightarrow>
   declared_len bs = 0 \<or> 126 < unat (declared_len bs) \<Longrightarrow> uart3_rx bs s = Inl Out_of_bounds"
  using rx_overflow [of s bs] by (simp add: idle_rx_def)

text \<open>C32: What the send task for LoRa reception puts on the wire is one frame in the format that the
  receive thread expects: fed to a receiver, it is delivered as command type 0, item 3 and the
  fourteen parameter bytes, and nothing else.\<close>

theorem open_lora_rx_frame_received:
  "fr_done s \<Longrightarrow> length (fr_buf s) = 128 \<Longrightarrow> 19 \<le> n \<Longrightarrow>
   \<exists>wire s'. open_lora_rx_entry n addr q = Some (Inr wire) \<and>
     uart3_rx wire s = Inr (s', [[0, 3] @ open_rx_bytes q]) \<and> fr_done s'"
proof -
  assume s: "fr_done s" "length (fr_buf s) = 128" and n: "19 \<le> n"
  have "alpha_frame ([0, 3] @ open_rx_bytes q) = [16, 0, 0, 3] @ open_rx_bytes q"
    by (simp add: alpha_frame_def octet_def)
  moreover have "\<exists>s'. uart3_rx (alpha_frame ([0, 3] @ open_rx_bytes q)) s =
      Inr (s', [[0, 3] @ open_rx_bytes q]) \<and> idle_rx s'"
    by (rule rx_alpha_frame) (use s in \<open>auto simp: idle_rx_def\<close>)
  ultimately show ?thesis using open_rx_sends [OF n] by (auto simp: idle_rx_def)
qed

theorem open_lora_rx_frame_received_witness:
  "\<exists>wire s'. open_lora_rx_entry 25 0 \<lparr> rx_freq = 433000000, rx_bandwidth = 0, rx_daterate = 11,
       rx_crcon = 0, rx_iqinverted = 0 \<rparr> = Some (Inr wire) \<and>
     uart3_rx wire (framer_start (replicate 128 0)) =
       Inr (s', [[0, 3] @ open_rx_bytes \<lparr> rx_freq = 433000000, rx_bandwidth = 0, rx_daterate = 11,
                          rx_crcon = 0, rx_iqinverted = 0 \<rparr>]) \<and> fr_done s'"
  by (rule open_lora_rx_frame_received) (simp_all add: framer_start_def)

end
