(* ===== verification/AlphaShell.thy ===== *)
theory AlphaShell
  imports ByteCodec
begin

text \<open>
  Two shell commands of \<^verbatim>\<open>fun_handler/alpha_handler.c\<close>: \<^verbatim>\<open>alpha_hexdata\<close> sends bytes given in hexadecimal to the radio
  chip, \<^verbatim>\<open>alpha_reset\<close> drives its reset pin (\<^verbatim>\<open>alpha_cmd\<close> is in theory \<^verbatim>\<open>AlphaLink\<close>). The arguments
  are those after the name of the command, each the bytes of a C string without its final 0; the stack array
  \<^verbatim>\<open>send_buff\<close> is not initialised, its bytes are an argument. A command gives the bytes it hands to \<^verbatim>\<open>rt_device_write\<close>.
\<close>

section \<open>Hexadecimal\<close>

definition hex_value :: "u8 \<Rightarrow> u32 option" where
  "hex_value c = (if 48 \<le> c \<and> c \<le> 57 then Some (ucast (c - 48))
     else if 97 \<le> c \<and> c \<le> 102 then Some (ucast (c - 87))
     else if 65 \<le> c \<and> c \<le> 70 then Some (ucast (c - 55)) else None)"

definition is_space :: "u8 \<Rightarrow> bool" where
  "is_space c \<longleftrightarrow> c = 32 \<or> 9 \<le> c \<and> c \<le> 13"

text \<open>The conversion \<^verbatim>\<open>%02x\<close> of \<^verbatim>\<open>sscanf\<close>: blanks are skipped, then at most two characters make a number
  with an optional sign; the prefix \<^verbatim>\<open>0x\<close> uses both of them and is no number.\<close>

definition scan_02x :: "bytes \<Rightarrow> u32 option" where
  "scan_02x s = (case dropWhile is_space s of [] \<Rightarrow> None
     | c # r \<Rightarrow>
         if c = 43 \<or> c = 45
         then (case r of [] \<Rightarrow> None | d # _ \<Rightarrow> map_option (\<lambda>v. if c = 45 then - v else v) (hex_value d))
         else (case hex_value c of None \<Rightarrow> None
           | Some v \<Rightarrow> (case r of [] \<Rightarrow> Some v
               | d # _ \<Rightarrow> if c = 48 \<and> (d = 120 \<or> d = 88) then None
                   else (case hex_value d of None \<Rightarrow> Some v | Some w \<Rightarrow> Some (16 * v + w)))))"

text \<open>The conversion stores an \<^verbatim>\<open>unsigned int\<close>, 4 bytes, at the place of one byte.\<close>

definition store_hex :: "bytes \<Rightarrow> nat \<Rightarrow> bytes \<Rightarrow> bytes res" where
  "store_hex a i buf = (case scan_02x a of None \<Rightarrow> Inr buf
     | Some v \<Rightarrow> memcpy buf i (octets_le 4 v) 0 4)"

fun scan_args :: "bytes list \<Rightarrow> nat \<Rightarrow> bytes \<Rightarrow> bytes res" where
  "scan_args [] i buf = Inr buf"
| "scan_args (a # as) i buf = rbind (store_hex a i buf) (scan_args as (Suc i))"

text \<open>\<open>None\<close>: the command only prints how to use it.\<close>

definition alpha_hexdata_test :: "bytes \<Rightarrow> bytes list \<Rightarrow> bytes option res" where
  "alpha_hexdata_test send_buff args =
     (if args = [] then Inr None else rbind (scan_args args 0 send_buff) (\<lambda>buf. Inr (Some (take (length args) buf))))"

section \<open>Reset\<close>

datatype reset_event = Pin_output | Pin_low | Delay nat | Pin_high | Pin_deinit | Print_finish

definition alpha_reset :: "reset_event list" where
  "alpha_reset = [Pin_output, Pin_low, Delay 100, Pin_high, Pin_deinit, Print_finish]"

section \<open>The bytes sent\<close>

text \<open>The digits of a byte as text.\<close>

definition hex_digit :: "nat \<Rightarrow> u8" where
  "hex_digit n = of_nat (if n < 10 then 48 + n else 87 + n)"

definition hex_text :: "u8 \<Rightarrow> bytes" where
  "hex_text b = [hex_digit (unat b div 16), hex_digit (unat b mod 16)]"

lemma all_hex_digits:
  "\<forall>n \<in> set [0..<16]. hex_value (hex_digit n) = Some (of_nat n) \<and> \<not> is_space (hex_digit n) \<and> hex_digit n \<notin> {43, 45, 120, 88}"
  by code_simp

lemma hex_digit_value:
  assumes "n < 16"
  shows "hex_value (hex_digit n) = Some (of_nat n)" "\<not> is_space (hex_digit n)" "hex_digit n \<notin> {43, 45, 120, 88}"
  using all_hex_digits assms by auto

lemma scan_hex_text: "scan_02x (hex_text b) = Some (ucast b)"
proof -
  have l: "unat b div 16 < 16" "unat b mod 16 < 16" using unat_u8_less [of b] by auto
  have "(16 :: u32) * of_nat (unat b div 16) + of_nat (unat b mod 16) = of_nat (16 * (unat b div 16) + unat b mod 16)"
    by (simp only: of_nat_add of_nat_mult of_nat_numeral)
  also have "\<dots> = of_nat (unat b)" by simp
  also have "\<dots> = ucast b" by simp
  finally show ?thesis using hex_digit_value [OF l(1)] hex_digit_value [OF l(2)]
    by (simp add: scan_02x_def hex_text_def)
qed

lemma scan_args_ok:
  assumes "i + length bs + 3 \<le> length buf"
  shows "\<exists>buf'. scan_args (map hex_text bs) i buf = Inr buf' \<and> length buf' = length buf \<and> take (i + length bs) buf' = take i buf @ bs"
  using assms
proof (induction bs arbitrary: i buf)
  case Nil
  then show ?case by simp
next
  case (Cons b bs)
  define b1 where "b1 = blit buf i (octets_le 4 (ucast b :: u32))"
  have s: "store_hex (hex_text b) i buf = Inr b1" "length b1 = length buf"
    using Cons.prems by (simp_all add: store_hex_def scan_hex_text memcpy_def b1_def)
  have "(ucast (ucast b :: u32) :: u8) = b" by (rule bit_word_eqI) (auto simp: bit_simps)
  then have "octets_le 4 (ucast b :: u32) ! 0 = b" by (simp add: octets_le_def octet_def)
  then have t: "take (Suc i) b1 = take i buf @ [b]"
    using Cons.prems s(2) by (simp add: take_Suc_conv_app_nth b1_def nth_blit) (simp add: blit_def)
  obtain buf' where "scan_args (map hex_text bs) (Suc i) b1 = Inr buf'" "length buf' = length b1"
      "take (Suc i + length bs) buf' = take (Suc i) b1 @ bs"
    using Cons.IH [of "Suc i" b1] Cons.prems s(2) by auto
  then show ?case using s t by simp
qed

text \<open>\<^verbatim>\<open>alpha_hexdata\<close> with the two-digit texts of 1 to 125 bytes sends exactly these bytes, although every conversion
  stores 4 bytes.\<close>

theorem alpha_hexdata_sends_bytes:
  assumes "length send_buff = 128" and "bs \<noteq> []" and "length bs \<le> 125"
  shows "alpha_hexdata_test send_buff (map hex_text bs) = Inr (Some bs)"
proof -
  obtain buf where "scan_args (map hex_text bs) 0 send_buff = Inr buf" "take (length bs) buf = bs"
    using scan_args_ok [of 0 bs send_buff] assms by auto
  then show ?thesis using assms(2) by (simp add: alpha_hexdata_test_def)
qed

text \<open>A value whose place is one of the last three is stored behind the buffer.\<close>

lemma hexdata_overrun: "125 \<le> i \<Longrightarrow> length buf = 128 \<Longrightarrow> store_hex (hex_text b) i buf = Inl Out_of_bounds"
  by (simp add: store_hex_def scan_hex_text memcpy_def)

end
