(* ===== verification/Fifo.thy ===== *)
theory Fifo
  imports Prelude
begin

text \<open>
  The contract of a bounded first-in first-out container that never blocks: \<open>enq\<close> gives \<open>None\<close>
  when the container is full, \<open>deq\<close> when it is empty; the ring buffer of the device drivers is an instance.
  The second contract is that of a queue of the kernel that threads wait for: the mailbox and the data queue.
\<close>

datatype 'a fifo_op = Enq 'a | Deq

fun fifo_run :: "('a \<Rightarrow> 's \<Rightarrow> 's option) \<Rightarrow> ('s \<Rightarrow> ('a \<times> 's) option) \<Rightarrow>
    'a fifo_op list \<Rightarrow> 's \<Rightarrow> 'a list \<times> 'a list \<times> 's" where
  "fifo_run enq deq [] s = ([], [], s)"
| "fifo_run enq deq (Enq x # ops) s =
     (case enq x s of
        None \<Rightarrow> fifo_run enq deq ops s
      | Some s' \<Rightarrow> (case fifo_run enq deq ops s' of (ins, outs, t) \<Rightarrow> (x # ins, outs, t)))"
| "fifo_run enq deq (Deq # ops) s =
     (case deq s of
        None \<Rightarrow> fifo_run enq deq ops s
      | Some (y, s') \<Rightarrow> (case fifo_run enq deq ops s' of (ins, outs, t) \<Rightarrow> (ins, y # outs, t)))"

locale bounded_fifo =
  fixes inv :: "'s \<Rightarrow> bool"
    and contents :: "'s \<Rightarrow> 'a list"
    and capacity :: "'s \<Rightarrow> nat"
    and enq :: "'a \<Rightarrow> 's \<Rightarrow> 's option"
    and deq :: "'s \<Rightarrow> ('a \<times> 's) option"
  assumes within: "inv s \<Longrightarrow> length (contents s) \<le> capacity s"
    and enq_room: "inv s \<Longrightarrow> length (contents s) < capacity s \<Longrightarrow>
      \<exists>s'. enq x s = Some s' \<and> inv s' \<and> contents s' = contents s @ [x] \<and> capacity s' = capacity s"
    and enq_full: "inv s \<Longrightarrow> length (contents s) = capacity s \<Longrightarrow> enq x s = None"
    and deq_some: "inv s \<Longrightarrow> contents s = y # ys \<Longrightarrow>
      \<exists>s'. deq s = Some (y, s') \<and> inv s' \<and> contents s' = ys \<and> capacity s' = capacity s"
    and deq_none: "inv s \<Longrightarrow> contents s = [] \<Longrightarrow> deq s = None"
begin

lemma enq_Some:
  assumes "inv s" "enq x s = Some s'"
  shows "inv s' \<and> contents s' = contents s @ [x] \<and> capacity s' = capacity s"
proof -
  have "length (contents s) < capacity s"
    using assms within [of s] enq_full [of s x] by (auto simp: le_less)
  with assms enq_room [of s x] show ?thesis by auto
qed

lemma deq_Some:
  assumes "inv s" "deq s = Some (y, s')"
  shows "inv s' \<and> contents s = y # contents s' \<and> capacity s' = capacity s"
proof (cases "contents s")
  case Nil
  then show ?thesis using assms deq_none by simp
next
  case (Cons z zs)
  then show ?thesis using assms deq_some [of s z zs] by auto
qed

text \<open>Whatever the order of operations, what came out followed by what is left is what was there
  followed by what was accepted; the capacity never changes.\<close>

lemma run_order:
  "inv s \<Longrightarrow> fifo_run enq deq ops s = (ins, outs, t) \<Longrightarrow>
   inv t \<and> contents s @ ins = outs @ contents t \<and> capacity t = capacity s"
proof (induction ops arbitrary: s ins outs)
  case (Cons a ops)
  show ?case
  proof (cases a)
    case (Enq x)
    show ?thesis
    proof (cases "enq x s")
      case None
      then show ?thesis using Cons Enq by auto
    next
      case (Some s')
      obtain ins' outs' t' where r: "fifo_run enq deq ops s' = (ins', outs', t')"
        by (cases "fifo_run enq deq ops s'") auto
      from Cons.prems(2) have eqs: "ins = x # ins'" "outs = outs'" "t = t'"
        by (simp_all add: Enq Some r)
      note e = enq_Some [OF Cons.prems(1) Some]
      show ?thesis using Cons.IH [of s'] e r eqs by auto
    qed
  next
    case Deq
    show ?thesis
    proof (cases "deq s")
      case None
      then show ?thesis using Cons Deq by auto
    next
      case (Some p)
      obtain y s' where p: "p = (y, s')" by (cases p)
      obtain ins' outs' t' where r: "fifo_run enq deq ops s' = (ins', outs', t')"
        by (cases "fifo_run enq deq ops s'") auto
      from Cons.prems(2) have eqs: "ins = ins'" "outs = y # outs'" "t = t'"
        by (simp_all add: Deq Some p r)
      note e = deq_Some [OF Cons.prems(1) Some [unfolded p]]
      show ?thesis using Cons.IH [of s'] e r eqs by auto
    qed
  qed
qed simp

end

section \<open>A queue that threads wait for\<close>

text \<open>
  The contract of a kernel queue: besides its contents it has the threads that wait for an element and those that wait for
  room. An accepted element wakes the first thread that waits for one; a removed element wakes the first thread that
  waits for room once at most \<open>low\<close> elements are left. \<open>ok\<close>, \<open>full\<close> and \<open>drained\<close> are what a call returns.
\<close>

fun queue_step :: "nat \<Rightarrow> nat \<Rightarrow> 'r \<Rightarrow> 'r \<Rightarrow> 'r \<Rightarrow> 'a fifo_op \<Rightarrow> 'a list \<times> 'w list \<times> 'w list \<Rightarrow>
    ('a option \<times> 'r) \<times> 'a list \<times> 'w list \<times> 'w list" where
  "queue_step cap low ok full drained (Enq x) (xs, rs, ss) =
     (if length xs < cap then ((None, ok), xs @ [x], tl rs, ss) else ((None, full), xs, rs, ss))"
| "queue_step cap low ok full drained Deq (xs, rs, ss) =
     (case xs of [] \<Rightarrow> ((None, drained), [], rs, ss)
      | y # ys \<Rightarrow> ((Some y, ok), ys, rs, if length ys \<le> low then tl ss else ss))"

fun queue_run :: "nat \<Rightarrow> nat \<Rightarrow> 'r \<Rightarrow> 'r \<Rightarrow> 'r \<Rightarrow> 'a fifo_op list \<Rightarrow> 'a list \<times> 'w list \<times> 'w list \<Rightarrow>
    ('a option \<times> 'r) list \<times> 'a list \<times> 'w list \<times> 'w list" where
  "queue_run cap low ok full drained [] v = ([], v)"
| "queue_run cap low ok full drained (a # ops) v =
     (case queue_step cap low ok full drained a v of (r, v1) \<Rightarrow>
        (case queue_run cap low ok full drained ops v1 of (rs, v2) \<Rightarrow> (r # rs, v2)))"

text \<open>Calls one after another, with the result of each; a fault stops the run.\<close>

fun call_run :: "('a fifo_op \<Rightarrow> 's \<Rightarrow> (('a option \<times> 'r) \<times> 's) res) \<Rightarrow> 'a fifo_op list \<Rightarrow> 's \<Rightarrow> (('a option \<times> 'r) list \<times> 's) res" where
  "call_run call [] s = Inr ([], s)"
| "call_run call (a # ops) s = rbind (call a s) (\<lambda>(r, s1). rbind (call_run call ops s1) (\<lambda>(rs, s2). Inr (r # rs, s2)))"

text \<open>\<open>inv n\<close> holds of a state that has \<open>n\<close> calls ahead of it.\<close>

locale kernel_queue =
  fixes inv :: "nat \<Rightarrow> 's \<Rightarrow> bool"
    and view :: "'s \<Rightarrow> 'a list \<times> 'w list \<times> 'w list"
    and cap :: "'s \<Rightarrow> nat" and low :: "'s \<Rightarrow> nat"
    and ok :: 'r and full :: 'r and drained :: 'r
    and call :: "'a fifo_op \<Rightarrow> 's \<Rightarrow> (('a option \<times> 'r) \<times> 's) res"
  assumes within: "inv n s \<Longrightarrow> length (fst (view s)) \<le> cap s"
    and call_ok: "inv (Suc n) s \<Longrightarrow>
      \<exists>s'. call a s = Inr (fst (queue_step (cap s) (low s) ok full drained a (view s)), s') \<and> inv n s' \<and>
        view s' = snd (queue_step (cap s) (low s) ok full drained a (view s)) \<and> cap s' = cap s \<and> low s' = low s"
begin

lemma run_refines:
  "inv (length ops) s \<Longrightarrow>
   \<exists>s'. call_run call ops s = Inr (fst (queue_run (cap s) (low s) ok full drained ops (view s)), s') \<and> inv 0 s' \<and>
     view s' = snd (queue_run (cap s) (low s) ok full drained ops (view s)) \<and> cap s' = cap s \<and> low s' = low s"
proof (induction ops arbitrary: s)
  case (Cons a ops)
  have "inv (Suc (length ops)) s" using Cons.prems by simp
  then obtain s1 where s1: "call a s = Inr (fst (queue_step (cap s) (low s) ok full drained a (view s)), s1)" "inv (length ops) s1"
      "view s1 = snd (queue_step (cap s) (low s) ok full drained a (view s))" "cap s1 = cap s" "low s1 = low s"
    using call_ok [of "length ops" s a] by blast
  obtain s2 where s2: "call_run call ops s1 = Inr (fst (queue_run (cap s) (low s) ok full drained ops (view s1)), s2)" "inv 0 s2"
      "view s2 = snd (queue_run (cap s) (low s) ok full drained ops (view s1))" "cap s2 = cap s" "low s2 = low s"
    using Cons.IH [OF s1(2)] s1(4,5) by auto
  show ?case
    by (rule exI [of _ s2]) (use s1 s2 in \<open>simp add: split_def\<close>)
qed simp

end

text \<open>What came out followed by what is left is what was there followed by what was accepted.\<close>

fun accepted_in :: "'r \<Rightarrow> 'a fifo_op list \<Rightarrow> ('a option \<times> 'r) list \<Rightarrow> 'a list" where
  "accepted_in ok (Enq x # ops) ((_, r) # rs) = (if r = ok then [x] else []) @ accepted_in ok ops rs"
| "accepted_in ok (Deq # ops) (_ # rs) = accepted_in ok ops rs"
| "accepted_in ok _ _ = []"

lemma queue_run_order:
  assumes "full \<noteq> ok" "queue_run cap low ok full drained ops (xs, rw, sw) = (rs, xs', rw', sw')"
  shows "xs @ accepted_in ok ops rs = List.map_filter fst rs @ xs'"
  using assms(2)
proof (induction ops arbitrary: xs rw sw rs)
  case (Cons a ops)
  obtain r v1 where st: "queue_step cap low ok full drained a (xs, rw, sw) = (r, v1)" by (rule prod.exhaust)
  obtain x1 r1 w1 where v1: "v1 = (x1, r1, w1)" by (cases v1)
  obtain rs1 where rs1: "queue_run cap low ok full drained ops (x1, r1, w1) = (rs1, xs', rw', sw')" "rs = r # rs1"
    using Cons.prems by (simp add: st v1 split: prod.splits)
  note IH = Cons.IH [OF rs1(1)]
  show ?case
  proof (cases a)
    case (Enq x)
    then show ?thesis using st v1 IH rs1(2) assms(1) by (auto simp: map_filter_simps split: if_splits)
  next
    case Deq
    then show ?thesis using st v1 IH rs1(2) by (auto simp: map_filter_simps split: list.splits)
  qed
qed (simp add: map_filter_simps)

end
