(* ===== verification/Ring.thy ===== *)
theory Ring
  imports Prelude
begin

text \<open>
  Circular arrays, as the device ring buffer and the serial driver use them: the \<open>n\<close> elements from an index on,
  and the array after a list of elements was written from an index on.
\<close>

section \<open>Circular arrays\<close>

definition ring_view :: "'a list \<Rightarrow> nat \<Rightarrow> nat \<Rightarrow> 'a list" where
  "ring_view pool r n = map (\<lambda>i. pool ! ((r + i) mod length pool)) [0..<n]"

definition ring_write :: "'a list \<Rightarrow> nat \<Rightarrow> 'a list \<Rightarrow> 'a list" where
  "ring_write pool w d =
     (let room = length pool - w in
      if length d < room then blit pool w d
      else blit (blit pool w (take room d)) 0 (drop room d))"

lemma length_ring_view [simp]: "length (ring_view pool r n) = n"
  by (simp add: ring_view_def)

lemma nth_ring_view [simp]: "i < n \<Longrightarrow> ring_view pool r n ! i = pool ! ((r + i) mod length pool)"
  by (simp add: ring_view_def)

lemma mod_once: "a < 2 * b \<Longrightarrow> a mod b = (if a < b then a else a - b)" for a b :: nat
  by (metis add.commute add_less_imp_less_left le_add_diff_inverse linorder_not_less mod_add_self2
      mod_less mult_2)

lemma length_ring_write [simp]:
  "w < length pool \<Longrightarrow> length d \<le> length pool \<Longrightarrow> length (ring_write pool w d) = length pool"
  by (auto simp: ring_write_def Let_def)

lemma nth_ring_write:
  assumes "w < length pool" "length d \<le> length pool" "i < length pool"
  shows "ring_write pool w d ! i =
    (let k = (if w \<le> i then i - w else i + length pool - w) in
     if k < length d then d ! k else pool ! i)"
  using assms by (auto simp: ring_write_def Let_def nth_blit min_def not_less add.commute)

lemma nth_ring_write_mod:
  assumes "w < length pool" "length d \<le> length pool" "j < length pool"
  shows "ring_write pool w d ! ((w + j) mod length pool) =
    (if j < length d then d ! j else pool ! ((w + j) mod length pool))"
  using assms by (auto simp: nth_ring_write mod_once Let_def)

lemma ring_view_write:
  assumes r: "r < length pool" and n: "n + length d \<le> length pool" and w: "w = (r + n) mod length pool"
  shows "ring_view (ring_write pool w d) r (n + length d) = ring_view pool r n @ d"
proof (rule nth_equalityI)
  fix i assume "i < length (ring_view (ring_write pool w d) r (n + length d))"
  then have i: "i < n + length d" by simp
  have wL: "w < length pool" unfolding w by (rule mod_less_divisor) (use r in linarith)
  have v: "ring_view (ring_write pool w d) r (n + length d) ! i =
      ring_write pool w d ! ((r + i) mod length pool)" using i wL n by simp
  show "ring_view (ring_write pool w d) r (n + length d) ! i = (ring_view pool r n @ d) ! i"
  proof (cases "i < n")
    case True
    have "(r + i) mod length pool = (r + i + length pool) mod length pool" by simp
    also have "\<dots> = (r + n + (length pool - n + i)) mod length pool"
      by (rule arg_cong [where f = "\<lambda>a. a mod length pool"]) (use n in linarith)
    also have "\<dots> = (w + (length pool - n + i)) mod length pool" by (simp only: w mod_add_left_eq)
    finally have pos: "(r + i) mod length pool = (w + (length pool - n + i)) mod length pool" .
    have dL: "length d \<le> length pool" and jL: "length pool - n + i < length pool"
      and jd: "\<not> length pool - n + i < length d" using n True by linarith+
    show ?thesis
      unfolding v pos nth_ring_write_mod [OF wL dL jL] if_not_P [OF jd]
      unfolding pos [symmetric] using True by (simp add: nth_append)
  next
    case False
    then have "r + i = r + n + (i - n)" by simp
    then have pos: "(r + i) mod length pool = (w + (i - n)) mod length pool"
      by (simp only: w mod_add_left_eq)
    have dL: "length d \<le> length pool" and jL: "i - n < length pool" and jd: "i - n < length d"
      using n i False by linarith+
    show ?thesis
      unfolding v pos nth_ring_write_mod [OF wL dL jL] if_P [OF jd] using False by (simp add: nth_append)
  qed
qed simp

lemma ring_view_force:
  assumes r: "r < length pool" and n: "n \<le> length pool" "length d \<le> length pool"
    and over: "length pool \<le> n + length d"
    and w: "w = (r + n) mod length pool" and w': "w' = (w + length d) mod length pool"
  shows "ring_view (ring_write pool w d) w' (length pool) =
    drop (n + length d - length pool) (ring_view pool r n @ d)"
proof (rule nth_equalityI)
  let ?L = "length pool"
  fix i assume "i < length (ring_view (ring_write pool w d) w' ?L)"
  then have i: "i < ?L" by simp
  have wL: "w < ?L" unfolding w by (rule mod_less_divisor) (use r in linarith)
  have v: "ring_view (ring_write pool w d) w' ?L ! i = ring_write pool w d ! ((w + (length d + i)) mod ?L)"
    using i wL n by (simp add: w' mod_add_left_eq add.assoc)
  have u: "drop (n + length d - ?L) (ring_view pool r n @ d) ! i =
      (ring_view pool r n @ d) ! (n + length d - ?L + i)"
    by (rule nth_drop) (use over in simp)
  show "ring_view (ring_write pool w d) w' ?L ! i = drop (n + length d - ?L) (ring_view pool r n @ d) ! i"
  proof (cases "length d + i < ?L")
    case True
    have "(w + (length d + i)) mod ?L = (r + (n + length d + i)) mod ?L"
      by (simp add: w mod_add_left_eq add.assoc)
    also have "\<dots> = (r + (n + length d - ?L + i) + ?L) mod ?L" using over by (simp add: add.assoc)
    also have "\<dots> = (r + (n + length d - ?L + i)) mod ?L" by simp
    finally have pos: "(w + (length d + i)) mod ?L = (r + (n + length d - ?L + i)) mod ?L" .
    have lt: "n + length d - ?L + i < n" using True over by linarith
    show ?thesis
      using nth_ring_write_mod [of w pool d "length d + i"] wL n True
      unfolding u v nth_append length_ring_view if_P [OF lt] nth_ring_view [OF lt] pos by simp
  next
    case False
    define j where "j = length d + i - ?L"
    have j: "length d + i = j + ?L" "j < length d" using False i by (auto simp: j_def)
    have "(w + (length d + i)) mod ?L = (w + j) mod ?L"
      unfolding j(1) by (simp flip: add.assoc)
    moreover have "n + length d - ?L + i = n + j" using j over by simp
    ultimately show ?thesis
      using nth_ring_write_mod [of w pool d j] wL n j(2) unfolding u v by (simp add: nth_append)
  qed
qed (use over in auto)

lemma update_ring_write: "w < length pool \<Longrightarrow> pool[w := b] = ring_write pool w [b]"
  by (auto simp: ring_write_def Let_def blit_def upd_conv_take_nth_drop)

lemma ring_view_drop: "ring_view pool ((r + j) mod length pool) k = drop j (ring_view pool r (j + k))"
  by (rule nth_equalityI) (simp_all add: mod_add_left_eq add.assoc)

lemma ring_view_take: "k \<le> n \<Longrightarrow> ring_view pool r k = take k (ring_view pool r n)"
  by (rule nth_equalityI) simp_all

lemma ring_view_slice:
  "r + n \<le> length pool \<Longrightarrow> ring_view pool r n = take n (drop r pool)"
  "r < length pool \<Longrightarrow> n \<le> length pool \<Longrightarrow> length pool \<le> r + n \<Longrightarrow> ring_view pool r n = drop r pool @ take (r + n - length pool) pool"
  by (rule nth_equalityI; auto simp: nth_append mod_once add.commute)+

end
