(* ===== verification/RingBuffer.thy ===== *)
theory RingBuffer
  imports Fifo Ring
begin

text \<open>
  \<^verbatim>\<open>components/drivers/src/ringbuffer.c\<close> and \<^verbatim>\<open>include/ipc/ringbuffer.h\<close>: the byte ring buffer
  with mirror bits. The model keeps the code's state; \<open>rb_contents\<close> is the abstraction to the
  queue of bytes it promises to be.
\<close>

section \<open>State and operations\<close>

text \<open>\<^verbatim>\<open>rt_int16_t buffer_size\<close> and the arithmetic on it are signed, hence \<open>int\<close>; the indices are
  15-bit fields and a store to one keeps the value modulo \<open>2^15\<close>; \<^verbatim>\<open>rt_size_t\<close> is modulo \<open>2^32\<close>.\<close>

record ringbuffer =
  rb_pool :: bytes
  read_mirror :: bool
  read_index :: nat
  write_mirror :: bool
  write_index :: nat
  buffer_size :: int

datatype ringbuffer_state = RT_RINGBUFFER_EMPTY | RT_RINGBUFFER_FULL | RT_RINGBUFFER_HALFFULL

definition index15 :: "int \<Rightarrow> nat" where
  "index15 i = nat (i mod 2 ^ 15)"

definition size32 :: "int \<Rightarrow> nat" where
  "size32 i = nat (i mod 2 ^ 32)"

definition rt_ringbuffer_status :: "ringbuffer \<Rightarrow> ringbuffer_state" where
  "rt_ringbuffer_status rb =
     (if read_index rb = write_index rb
      then if read_mirror rb = write_mirror rb then RT_RINGBUFFER_EMPTY else RT_RINGBUFFER_FULL
      else RT_RINGBUFFER_HALFFULL)"

text \<open>The array \<open>pool\<close> has \<open>sz\<close> bytes; the buffer uses the first \<^verbatim>\<open>RT_ALIGN_DOWN(sz, 4)\<close>.\<close>

definition rt_ringbuffer_init :: "bytes \<Rightarrow> int \<Rightarrow> ringbuffer res" where
  "rt_ringbuffer_init pool sz =
     rassert (sz > 0)
       (Inr \<lparr> rb_pool = take (nat (4 * (sz div 4))) pool, read_mirror = False, read_index = 0,
              write_mirror = False, write_index = 0, buffer_size = 4 * (sz div 4) \<rparr>)"

definition rt_ringbuffer_reset :: "ringbuffer \<Rightarrow> ringbuffer" where
  "rt_ringbuffer_reset rb =
     rb\<lparr> read_mirror := False, read_index := 0, write_mirror := False, write_index := 0 \<rparr>"

definition rt_ringbuffer_data_len :: "ringbuffer \<Rightarrow> nat" where
  "rt_ringbuffer_data_len rb =
     (case rt_ringbuffer_status rb of
        RT_RINGBUFFER_EMPTY \<Rightarrow> 0
      | RT_RINGBUFFER_FULL \<Rightarrow> size32 (buffer_size rb)
      | RT_RINGBUFFER_HALFFULL \<Rightarrow>
          if write_index rb > read_index rb then write_index rb - read_index rb
          else size32 (buffer_size rb - (int (read_index rb) - int (write_index rb))))"

definition rt_ringbuffer_space_len :: "ringbuffer \<Rightarrow> nat" where
  "rt_ringbuffer_space_len rb = size32 (buffer_size rb - int (rt_ringbuffer_data_len rb))"

text \<open>\<open>len\<close> is the argument \<^verbatim>\<open>rt_uint16_t length\<close>, \<open>n\<close> that variable after it was cut.\<close>

definition rt_ringbuffer_put :: "ringbuffer \<Rightarrow> bytes \<Rightarrow> u16 \<Rightarrow> (ringbuffer \<times> nat) res" where
  "rt_ringbuffer_put rb ptr len =
     (let sz = rt_ringbuffer_space_len rb mod 2 ^ 16 in
      if sz = 0 then Inr (rb, 0)
      else
        let n = (if sz < unat len then sz else unat len);
            w = write_index rb;
            room = buffer_size rb - int w in
        if room > int n
        then rbind (memcpy (rb_pool rb) w ptr 0 (int n)) (\<lambda>pool.
             Inr (rb\<lparr> rb_pool := pool, write_index := index15 (int w + int n) \<rparr>, n))
        else rbind (memcpy (rb_pool rb) w ptr 0 room) (\<lambda>pool.
             rbind (memcpy pool 0 ptr (nat room) (int n - room)) (\<lambda>pool.
             Inr (rb\<lparr> rb_pool := pool, write_mirror := \<not> write_mirror rb,
                      write_index := index15 (int n - room) \<rparr>, n))))"

definition rt_ringbuffer_put_force :: "ringbuffer \<Rightarrow> bytes \<Rightarrow> u16 \<Rightarrow> (ringbuffer \<times> nat) res" where
  "rt_ringbuffer_put_force rb ptr0 len =
     (let space_length = rt_ringbuffer_space_len rb mod 2 ^ 16;
          cut = int (unat len) > buffer_size rb;
          ptr = (if cut then drop (nat (int (unat len) - buffer_size rb)) ptr0 else ptr0);
          n = (if cut then nat (buffer_size rb mod 2 ^ 16) else unat len);
          w = write_index rb;
          room = buffer_size rb - int w in
      if room > int n
      then rbind (memcpy (rb_pool rb) w ptr 0 (int n)) (\<lambda>pool.
           let rb = rb\<lparr> rb_pool := pool, write_index := index15 (int w + int n) \<rparr>;
               rb = (if n > space_length then rb\<lparr> read_index := write_index rb \<rparr> else rb) in
           Inr (rb, n))
      else rbind (memcpy (rb_pool rb) w ptr 0 room) (\<lambda>pool.
           rbind (memcpy pool 0 ptr (nat room) (int n - room)) (\<lambda>pool.
           let rb = rb\<lparr> rb_pool := pool, write_mirror := \<not> write_mirror rb,
                        write_index := index15 (int n - room) \<rparr>;
               rb = (if n > space_length
                     then rb\<lparr> read_mirror := \<not> read_mirror rb, read_index := write_index rb \<rparr> else rb) in
           Inr (rb, n))))"

text \<open>\<open>dst\<close> is the caller's array.\<close>

definition rt_ringbuffer_get :: "ringbuffer \<Rightarrow> bytes \<Rightarrow> u16 \<Rightarrow> (ringbuffer \<times> bytes \<times> nat) res" where
  "rt_ringbuffer_get rb dst len =
     (let sz = rt_ringbuffer_data_len rb in
      if sz = 0 then Inr (rb, dst, 0)
      else
        let n = (if sz < unat len then sz mod 2 ^ 16 else unat len);
            r = read_index rb;
            room = buffer_size rb - int r in
        if room > int n
        then rbind (memcpy dst 0 (rb_pool rb) r (int n)) (\<lambda>dst.
             Inr (rb\<lparr> read_index := index15 (int r + int n) \<rparr>, dst, n))
        else rbind (memcpy dst 0 (rb_pool rb) r room) (\<lambda>dst.
             rbind (memcpy dst (nat room) (rb_pool rb) 0 (int n - room)) (\<lambda>dst.
             Inr (rb\<lparr> read_mirror := \<not> read_mirror rb, read_index := index15 (int n - room) \<rparr>, dst, n))))"

definition rt_ringbuffer_putchar :: "ringbuffer \<Rightarrow> u8 \<Rightarrow> (ringbuffer \<times> nat) res" where
  "rt_ringbuffer_putchar rb ch =
     (if rt_ringbuffer_space_len rb = 0 then Inr (rb, 0)
      else rbind (store8 (rb_pool rb) (write_index rb) ch) (\<lambda>pool.
        let rb = rb\<lparr> rb_pool := pool \<rparr> in
        if int (write_index rb) = buffer_size rb - 1
        then Inr (rb\<lparr> write_mirror := \<not> write_mirror rb, write_index := 0 \<rparr>, 1)
        else Inr (rb\<lparr> write_index := index15 (int (write_index rb) + 1) \<rparr>, 1)))"

definition rt_ringbuffer_putchar_force :: "ringbuffer \<Rightarrow> u8 \<Rightarrow> (ringbuffer \<times> nat) res" where
  "rt_ringbuffer_putchar_force rb ch =
     (let old_state = rt_ringbuffer_status rb in
      rbind (store8 (rb_pool rb) (write_index rb) ch) (\<lambda>pool.
        let rb = rb\<lparr> rb_pool := pool \<rparr> in
        if int (write_index rb) = buffer_size rb - 1
        then let rb = rb\<lparr> write_mirror := \<not> write_mirror rb, write_index := 0 \<rparr> in
             Inr (if old_state = RT_RINGBUFFER_FULL
                  then rb\<lparr> read_mirror := \<not> read_mirror rb, read_index := write_index rb \<rparr> else rb, 1)
        else let rb = rb\<lparr> write_index := index15 (int (write_index rb) + 1) \<rparr> in
             Inr (if old_state = RT_RINGBUFFER_FULL then rb\<lparr> read_index := write_index rb \<rparr> else rb, 1)))"

definition rt_ringbuffer_getchar :: "ringbuffer \<Rightarrow> (ringbuffer \<times> u8 option) res" where
  "rt_ringbuffer_getchar rb =
     (if rt_ringbuffer_data_len rb = 0 then Inr (rb, None)
      else rbind (load8 (rb_pool rb) (read_index rb)) (\<lambda>ch.
        if int (read_index rb) = buffer_size rb - 1
        then Inr (rb\<lparr> read_mirror := \<not> read_mirror rb, read_index := 0 \<rparr>, Some ch)
        else Inr (rb\<lparr> read_index := index15 (int (read_index rb) + 1) \<rparr>, Some ch)))"

section \<open>Invariant and abstraction\<close>

definition rb_ok :: "ringbuffer \<Rightarrow> bool" where
  "rb_ok rb \<longleftrightarrow> 0 < buffer_size rb \<and> buffer_size rb < 2 ^ 15 \<and>
     length (rb_pool rb) = nat (buffer_size rb) \<and>
     read_index rb < length (rb_pool rb) \<and> write_index rb < length (rb_pool rb) \<and>
     (if read_mirror rb = write_mirror rb then read_index rb \<le> write_index rb
      else write_index rb \<le> read_index rb)"

definition rb_count :: "ringbuffer \<Rightarrow> nat" where
  "rb_count rb =
     (if read_mirror rb = write_mirror rb then write_index rb - read_index rb
      else length (rb_pool rb) - read_index rb + write_index rb)"

definition rb_contents :: "ringbuffer \<Rightarrow> bytes" where
  "rb_contents rb = ring_view (rb_pool rb) (read_index rb) (rb_count rb)"

lemma length_rb_contents [simp]: "length (rb_contents rb) = rb_count rb"
  by (simp add: rb_contents_def)

lemma rb_ok_size:
  "rb_ok rb \<Longrightarrow> buffer_size rb = int (length (rb_pool rb)) \<and> length (rb_pool rb) < 2 ^ 15"
  by (auto simp: rb_ok_def nat_less_iff)

lemma rb_count_le: "rb_ok rb \<Longrightarrow> rb_count rb \<le> length (rb_pool rb)"
  by (auto simp: rb_ok_def rb_count_def split: if_splits)

lemma data_len_count: "rb_ok rb \<Longrightarrow> rt_ringbuffer_data_len rb = rb_count rb"
  by (auto simp: rb_ok_def rb_count_def rt_ringbuffer_data_len_def rt_ringbuffer_status_def size32_def
      mod_pos_pos_trivial split: if_splits)

lemma space_len_count: "rb_ok rb \<Longrightarrow> rt_ringbuffer_space_len rb = length (rb_pool rb) - rb_count rb"
  using rb_count_le [of rb] rb_ok_size [of rb]
  by (simp add: rt_ringbuffer_space_len_def data_len_count size32_def mod_pos_pos_trivial)

lemma status_full_iff: "rb_ok rb \<Longrightarrow> rt_ringbuffer_status rb = RT_RINGBUFFER_FULL \<longleftrightarrow> rb_count rb = length (rb_pool rb)"
  by (auto simp: rb_ok_def rb_count_def rt_ringbuffer_status_def split: if_splits)

lemma write_index_count: "rb_ok rb \<Longrightarrow> write_index rb = (read_index rb + rb_count rb) mod length (rb_pool rb)"
  by (auto simp: rb_ok_def rb_count_def mod_once split: if_splits)

section \<open>Moving the indices\<close>

definition push_bytes :: "bytes \<Rightarrow> ringbuffer \<Rightarrow> ringbuffer" where
  "push_bytes d rb =
     (let w = write_index rb + length d; L = length (rb_pool rb);
          rb = rb\<lparr> rb_pool := ring_write (rb_pool rb) (write_index rb) d \<rparr> in
      if w < L then rb\<lparr> write_index := w \<rparr>
      else rb\<lparr> write_mirror := \<not> write_mirror rb, write_index := w - L \<rparr>)"

definition pop_bytes :: "nat \<Rightarrow> ringbuffer \<Rightarrow> ringbuffer" where
  "pop_bytes n rb =
     (let r = read_index rb + n; L = length (rb_pool rb) in
      if r < L then rb\<lparr> read_index := r \<rparr>
      else rb\<lparr> read_mirror := \<not> read_mirror rb, read_index := r - L \<rparr>)"

lemma push_ok:
  assumes ok: "rb_ok rb" and d: "rb_count rb + length d \<le> length (rb_pool rb)"
  shows "rb_ok (push_bytes d rb) \<and> rb_contents (push_bytes d rb) = rb_contents rb @ d \<and>
         length (rb_pool (push_bytes d rb)) = length (rb_pool rb)"
proof -
  have count: "rb_count (push_bytes d rb) = rb_count rb + length d"
    and okp: "rb_ok (push_bytes d rb)"
    using ok d by (auto simp: rb_ok_def rb_count_def push_bytes_def Let_def split: if_splits) arith+
  have "rb_contents (push_bytes d rb) =
      ring_view (ring_write (rb_pool rb) (write_index rb) d) (read_index rb) (rb_count rb + length d)"
    unfolding rb_contents_def count by (simp add: push_bytes_def Let_def)
  also have "\<dots> = rb_contents rb @ d"
    unfolding rb_contents_def
    by (rule ring_view_write) (use ok d write_index_count [OF ok] in \<open>auto simp: rb_ok_def\<close>)
  finally show ?thesis using ok okp d
    by (auto simp: rb_ok_def rb_count_def push_bytes_def Let_def split: if_splits)
qed

lemma pop_ok:
  assumes ok: "rb_ok rb" and n: "n \<le> rb_count rb"
  shows "rb_ok (pop_bytes n rb) \<and> rb_contents (pop_bytes n rb) = drop n (rb_contents rb) \<and>
         rb_pool (pop_bytes n rb) = rb_pool rb"
proof -
  have count: "rb_count (pop_bytes n rb) = rb_count rb - n"
    and okp: "rb_ok (pop_bytes n rb)" and pool: "rb_pool (pop_bytes n rb) = rb_pool rb"
    and ri: "(read_index (pop_bytes n rb) + i) mod length (rb_pool rb) =
             (read_index rb + n + i) mod length (rb_pool rb)" for i
    using ok n by (auto simp: rb_ok_def rb_count_def pop_bytes_def Let_def mod_if [of "_ - _"]
        le_mod_geq split: if_splits)
  have "rb_contents (pop_bytes n rb) = drop n (rb_contents rb)"
    by (rule nth_equalityI) (use n in \<open>auto simp: rb_contents_def count pool ri add.assoc\<close>)
  then show ?thesis using okp pool by simp
qed

section \<open>What the operations compute\<close>

lemma blit_ring_write:
  assumes "w < length pool" "n \<le> length pool" "n \<le> length ptr"
  shows "n < length pool - w \<Longrightarrow> blit pool w (take n ptr) = ring_write pool w (take n ptr)"
    and "length pool - w \<le> n \<Longrightarrow>
      blit (blit pool w (take (length pool - w) ptr)) 0 (take (n - (length pool - w)) (drop (length pool - w) ptr)) =
      ring_write pool w (take n ptr)"
  using assms by (auto simp: ring_write_def Let_def min_def drop_take)

lemma index15_small: "0 \<le> i \<Longrightarrow> i < 2 ^ 15 \<Longrightarrow> index15 i = nat i"
  by (simp add: index15_def mod_pos_pos_trivial)

text \<open>The two branches of a block write, as one step; \<open>n\<close> bytes fit into the array.\<close>

lemma block_write:
  assumes ok: "rb_ok rb" and n: "n \<le> length (rb_pool rb)" "n \<le> length ptr"
  defines "w \<equiv> write_index rb" and "room \<equiv> buffer_size rb - int (write_index rb)"
  shows "room > int n \<Longrightarrow>
      rbind (memcpy (rb_pool rb) w ptr 0 (int n)) (\<lambda>pool.
        f (rb\<lparr> rb_pool := pool, write_index := index15 (int w + int n) \<rparr>)) = f (push_bytes (take n ptr) rb)"
    and "\<not> room > int n \<Longrightarrow>
      rbind (memcpy (rb_pool rb) w ptr 0 room) (\<lambda>pool.
      rbind (memcpy pool 0 ptr (nat room) (int n - room)) (\<lambda>pool.
        f (rb\<lparr> rb_pool := pool, write_mirror := \<not> write_mirror rb,
                 write_index := index15 (int n - room) \<rparr>))) = f (push_bytes (take n ptr) rb)"
proof -
  let ?L = "length (rb_pool rb)"
  have L: "buffer_size rb = int ?L" "?L < 2 ^ 15" and w: "w < ?L"
    using ok rb_ok_size [OF ok] by (auto simp: rb_ok_def w_def)
  have room: "room = int (?L - w)" using L w by (simp add: room_def w_def)
  have nr: "nat room = ?L - w" "0 \<le> room" by (simp_all only: room nat_int of_nat_0_le_iff)
  note bw = blit_ring_write [OF w n]
  {
    assume "room > int n"
    then have lt: "n < ?L - w" by (simp add: room)
    then have sum: "write_index rb + n < ?L" using w by (simp add: w_def)
    from lt show "rbind (memcpy (rb_pool rb) w ptr 0 (int n)) (\<lambda>pool.
        f (rb\<lparr> rb_pool := pool, write_index := index15 (int w + int n) \<rparr>)) = f (push_bytes (take n ptr) rb)"
      using bw(1) [OF lt] n L w sum
      by (simp add: memcpy_ok push_bytes_def Let_def w_def index15_small min_absorb2 nat_int_add)
  next
    assume "\<not> room > int n"
    then have ge: "?L - w \<le> n" by (simp add: room)
    have idx: "index15 (int n - room) = w + n - ?L"
      using ge w n L by (simp add: room index15_small nat_diff_distrib')
    have c1: "memcpy (rb_pool rb) w ptr 0 room = Inr (blit (rb_pool rb) w (take (?L - w) ptr))"
      using ge w n nr by (simp add: memcpy_def)
    have rest: "nat (int n - room) = n - (?L - w)" "0 \<le> int n - room"
      using ge w by (simp_all add: room nat_diff_distrib')
    have c2: "memcpy (blit (rb_pool rb) w (take (?L - w) ptr)) 0 ptr (nat room) (int n - room) =
        Inr (ring_write (rb_pool rb) w (take n ptr))"
      using ge w n bw(2) [OF ge] nr rest by (simp add: memcpy_def min_absorb2)
    show "rbind (memcpy (rb_pool rb) w ptr 0 room) (\<lambda>pool.
      rbind (memcpy pool 0 ptr (nat room) (int n - room)) (\<lambda>pool.
        f (rb\<lparr> rb_pool := pool, write_mirror := \<not> write_mirror rb,
                 write_index := index15 (int n - room) \<rparr>))) = f (push_bytes (take n ptr) rb)"
      unfolding c1 rbind_simps c2 idx using ge w n
      by (auto simp: push_bytes_def Let_def w_def min_absorb2)
  }
qed

lemma rb_free_mod: "rb_ok rb \<Longrightarrow> (length (rb_pool rb) - rb_count rb) mod 2 ^ 16 = length (rb_pool rb) - rb_count rb"
  using rb_ok_size [of rb] by (intro mod_less) auto

lemma push_Nil: "rb_ok rb \<Longrightarrow> push_bytes [] rb = rb"
  by (auto simp: push_bytes_def Let_def ring_write_def rb_ok_def)

lemma put_eq:
  assumes ok: "rb_ok rb" and len: "unat len \<le> length ptr"
  defines "n \<equiv> min (unat len) (length (rb_pool rb) - rb_count rb)"
  shows "rt_ringbuffer_put rb ptr len = Inr (push_bytes (take n ptr) rb, n)"
proof (cases "length (rb_pool rb) - rb_count rb = 0")
  case True
  then show ?thesis using ok by (simp add: rt_ringbuffer_put_def space_len_count n_def push_Nil)
next
  case False
  have sz: "rt_ringbuffer_space_len rb mod 2 ^ 16 = length (rb_pool rb) - rb_count rb"
    by (simp only: space_len_count [OF ok] rb_free_mod [OF ok])
  have n: "(if length (rb_pool rb) - rb_count rb < unat len then length (rb_pool rb) - rb_count rb
            else unat len) = n" by (auto simp: n_def)
  have b: "n \<le> length (rb_pool rb)" "n \<le> length ptr" using len by (auto simp: n_def)
  show ?thesis
    unfolding rt_ringbuffer_put_def Let_def sz n if_not_P [OF False]
    using block_write [OF ok b, where f = "\<lambda>rb. Inr (rb, n)"] by (simp split: if_split)
qed

text \<open>What is left of the block that \<^verbatim>\<open>put_force\<close> is given: its last \<open>buffer_size\<close> bytes.\<close>

definition kept :: "ringbuffer \<Rightarrow> bytes \<Rightarrow> bytes" where
  "kept rb d = drop (length d - length (rb_pool rb)) d"

lemma put_force_eq:
  assumes ok: "rb_ok rb" and len: "length d = unat len"
  defines "d' \<equiv> kept rb d" and "wraps \<equiv> length (rb_pool rb) - write_index rb \<le> length (kept rb d)"
  shows "rt_ringbuffer_put_force rb d len =
    Inr (let rb' = push_bytes d' rb in
         if length d' > length (rb_pool rb) - rb_count rb
         then rb'\<lparr> read_mirror := (if wraps then \<not> read_mirror rb else read_mirror rb),
                   read_index := write_index rb' \<rparr>
         else rb', length d')"
proof -
  let ?L = "length (rb_pool rb)"
  have L: "buffer_size rb = int ?L" "?L < 2 ^ 15" and w: "write_index rb < ?L"
    using ok rb_ok_size [OF ok] by (auto simp: rb_ok_def)
  have sz: "rt_ringbuffer_space_len rb mod 2 ^ 16 = ?L - rb_count rb"
    by (simp only: space_len_count [OF ok] rb_free_mod [OF ok])
  have cut: "int (unat len) > buffer_size rb \<longleftrightarrow> unat len > ?L" unfolding L of_nat_less_iff ..
  have over: "nat (int (unat len) - buffer_size rb) = unat len - ?L"
    unfolding L by (metis nat_int of_nat_0_le_iff nat_diff_distrib' )
  have d': "(if int (unat len) > buffer_size rb then drop (nat (int (unat len) - buffer_size rb)) d else d) = d'"
    unfolding cut over using len by (auto simp: d'_def kept_def)
  have n: "(if int (unat len) > buffer_size rb then nat (buffer_size rb mod 2 ^ 16) else unat len) = length d'"
    unfolding cut using len L by (auto simp: d'_def kept_def mod_pos_pos_trivial)
  have b: "length d' \<le> ?L" "length d' \<le> length d'" by (auto simp: d'_def kept_def)
  have wraps: "\<not> buffer_size rb - int (write_index rb) > int (length d') \<longleftrightarrow> wraps"
    using w by (auto simp: wraps_def L d'_def of_nat_diff)
  have same: "read_mirror (push_bytes x rb) = read_mirror rb" for x
    by (simp add: push_bytes_def Let_def)
  show ?thesis
    unfolding rt_ringbuffer_put_force_def Let_def sz d' n
    using block_write(1) [OF ok b, where f = "\<lambda>r. Inr (if length d' > ?L - rb_count rb
        then r\<lparr> read_index := write_index r \<rparr> else r, length d')"]
      block_write(2) [OF ok b, where f = "\<lambda>r. Inr (if length d' > ?L - rb_count rb
        then r\<lparr> read_mirror := \<not> read_mirror r, read_index := write_index r \<rparr> else r, length d')"]
    by (cases wraps) (simp_all add: wraps [symmetric] same)
qed

lemma putchar_eq:
  assumes ok: "rb_ok rb"
  shows "rt_ringbuffer_putchar rb ch =
    Inr (if rb_count rb = length (rb_pool rb) then (rb, 0) else (push_bytes [ch] rb, 1))"
proof -
  have w: "write_index rb < length (rb_pool rb)" using ok by (simp add: rb_ok_def)
  show ?thesis
    using rb_count_le [OF ok] rb_ok_size [OF ok] w
    by (auto simp: rt_ringbuffer_putchar_def space_len_count [OF ok] Let_def
        update_ring_write push_bytes_def index15_small nat_add_distrib)
qed

lemma getchar_eq:
  assumes ok: "rb_ok rb"
  shows "rt_ringbuffer_getchar rb =
    Inr (case rb_contents rb of [] \<Rightarrow> (rb, None) | ch # _ \<Rightarrow> (pop_bytes 1 rb, Some ch))"
proof (cases "rb_contents rb")
  case Nil
  then have "rb_count rb = 0" using length_rb_contents [of rb] by simp
  then show ?thesis using Nil by (simp add: rt_ringbuffer_getchar_def data_len_count [OF ok])
next
  case (Cons ch cs)
  then have c: "0 < rb_count rb" using length_rb_contents [of rb] by simp
  have r: "read_index rb < length (rb_pool rb)" using ok by (simp add: rb_ok_def)
  have "rb_contents rb ! 0 = rb_pool rb ! read_index rb" using c r by (simp add: rb_contents_def)
  then have ch: "rb_pool rb ! read_index rb = ch" using Cons by simp
  have L: "buffer_size rb = int (length (rb_pool rb))" "length (rb_pool rb) < 2 ^ 15"
    using rb_ok_size [OF ok] by auto
  have last: "int (read_index rb) = buffer_size rb - 1 \<longleftrightarrow> \<not> read_index rb + 1 < length (rb_pool rb)"
    using r L by auto
  have idx: "index15 (int (read_index rb) + 1) = read_index rb + 1"
    using r L by (simp add: index15_small nat_add_distrib)
  have wrap: "\<not> read_index rb + 1 < length (rb_pool rb) \<Longrightarrow> read_index rb + 1 - length (rb_pool rb) = 0"
    using r by simp
  show ?thesis
    unfolding rt_ringbuffer_getchar_def data_len_count [OF ok] load8_simps(1) [OF r] ch rbind_simps
      last idx pop_bytes_def Let_def Cons list.case
    using c wrap by (cases "read_index rb + 1 < length (rb_pool rb)") simp_all
qed

lemma take_contents:
  assumes ok: "rb_ok rb" and n: "n \<le> rb_count rb"
  defines "room \<equiv> length (rb_pool rb) - read_index rb"
  shows "n \<le> room \<Longrightarrow> take n (rb_contents rb) = take n (drop (read_index rb) (rb_pool rb))"
    and "room \<le> n \<Longrightarrow> take n (rb_contents rb) =
      take room (drop (read_index rb) (rb_pool rb)) @ take (n - room) (rb_pool rb)"
proof -
  have r: "read_index rb < length (rb_pool rb)" using ok by (simp add: rb_ok_def)
  have c: "rb_count rb \<le> length (rb_pool rb)" by (rule rb_count_le [OF ok])
  show "take n (rb_contents rb) = take n (drop (read_index rb) (rb_pool rb))" if "n \<le> room"
    by (rule nth_equalityI) (use that n r c in \<open>auto simp: rb_contents_def room_def mod_once\<close>)
  show "take n (rb_contents rb) =
      take room (drop (read_index rb) (rb_pool rb)) @ take (n - room) (rb_pool rb)" if ge: "room \<le> n"
  proof (rule nth_equalityI)
    show "length (take n (rb_contents rb)) =
        length (take room (drop (read_index rb) (rb_pool rb)) @ take (n - room) (rb_pool rb))"
      using ge n r c by (auto simp: room_def)
    fix i assume "i < length (take n (rb_contents rb))"
    then have i: "i < n" by simp
    show "take n (rb_contents rb) ! i =
        (take room (drop (read_index rb) (rb_pool rb)) @ take (n - room) (rb_pool rb)) ! i"
    proof (cases "i < room")
      case True
      then show ?thesis using i n r by (simp add: rb_contents_def room_def nth_append)
    next
      case False
      then have sum: "read_index rb + i = i - room + length (rb_pool rb)" and lt: "i - room < length (rb_pool rb)"
        using i n r c by (auto simp: room_def)
      have "(read_index rb + i) mod length (rb_pool rb) = i - room"
        unfolding sum using lt by simp
      then show ?thesis using False i n r c by (simp add: rb_contents_def room_def nth_append)
    qed
  qed
qed

lemma blit_blit: "length xs + length ys \<le> length dst \<Longrightarrow>
  blit (blit dst 0 xs) (length xs) ys = blit dst 0 (xs @ ys)"
  by (simp add: blit_def add.commute)

lemma get_eq:
  assumes ok: "rb_ok rb" and len: "unat len \<le> length dst"
  defines "n \<equiv> min (unat len) (rb_count rb)"
  shows "rt_ringbuffer_get rb dst len = Inr (pop_bytes n rb, blit dst 0 (take n (rb_contents rb)), n)"
proof (cases "rb_count rb = 0")
  case True
  have "read_index rb < length (rb_pool rb)" using ok by (simp add: rb_ok_def)
  with True show ?thesis
    by (simp add: rt_ringbuffer_get_def data_len_count [OF ok] n_def pop_bytes_def)
next
  case False
  let ?r = "read_index rb" and ?L = "length (rb_pool rb)"
  have L: "buffer_size rb = int ?L" "?L < 2 ^ 15" and r: "?r < ?L" and c: "rb_count rb \<le> ?L"
    using ok rb_ok_size [OF ok] rb_count_le [OF ok] by (auto simp: rb_ok_def)
  have n: "(if rb_count rb < unat len then rb_count rb mod 2 ^ 16 else unat len) = n"
    using c L by (auto simp: n_def)
  have nb: "n \<le> rb_count rb" "n \<le> length dst" using len by (auto simp: n_def)
  have room: "buffer_size rb - int ?r = int (?L - ?r)" using L r by simp
  show ?thesis
  proof (cases "n < ?L - ?r")
    case True
    then have sum: "?r + n < ?L" by simp
    have "memcpy dst 0 (rb_pool rb) ?r (int n) = Inr (blit dst 0 (take n (rb_contents rb)))"
      using take_contents(1) [OF ok nb(1)] True nb c sum by (simp add: memcpy_def)
    then show ?thesis
      unfolding rt_ringbuffer_get_def data_len_count [OF ok] Let_def if_not_P [OF False] n room
      using True sum L by (simp add: pop_bytes_def index15_small nat_int_add)
  next
    case ge: False
    let ?x = "take (?L - ?r) (drop ?r (rb_pool rb))" and ?y = "take (n - (?L - ?r)) (rb_pool rb)"
    have xy: "take n (rb_contents rb) = ?x @ ?y"
      using take_contents(2) [OF ok nb(1)] ge by simp
    have x: "memcpy dst 0 (rb_pool rb) ?r (int (?L - ?r)) = Inr (blit dst 0 ?x)"
      using ge nb c r by (simp add: memcpy_def del: of_nat_diff)
    have "blit (blit dst 0 ?x) (length ?x) ?y = blit dst 0 (?x @ ?y)"
      using nb ge c by (intro blit_blit) auto
    moreover have "length ?x = ?L - ?r" by simp
    ultimately have b: "blit (blit dst 0 ?x) (?L - ?r) ?y = blit dst 0 (take n (rb_contents rb))"
      by (simp only: xy)
    have rest: "nat (int n - int (?L - ?r)) = n - (?L - ?r)" "0 \<le> int n - int (?L - ?r)"
      using ge by (simp_all add: nat_diff_distrib')
    have y: "memcpy (blit dst 0 ?x) (nat (int (?L - ?r))) (rb_pool rb) 0 (int n - int (?L - ?r)) =
        Inr (blit dst 0 (take n (rb_contents rb)))"
      using ge nb c r rest b by (simp add: memcpy_def del: of_nat_diff)
    have idx: "index15 (int n - int (?L - ?r)) = ?r + n - ?L"
      using rest ge nb c r L by (simp add: index15_small del: of_nat_diff)
    have "\<not> ?r + n < ?L" using ge by simp
    then show ?thesis
      unfolding rt_ringbuffer_get_def data_len_count [OF ok] Let_def if_not_P [OF False] n room x
        rbind_simps y idx
      using ge by (simp add: pop_bytes_def del: of_nat_diff)
  qed
qed

lemma init_ok:
  assumes sz: "4 \<le> sz" "sz < 2 ^ 15" and pool: "length pool = nat sz"
  shows "\<exists>rb. rt_ringbuffer_init pool sz = Inr rb \<and> rb_ok rb \<and> rb_contents rb = [] \<and>
              length (rb_pool rb) = nat (4 * (sz div 4))"
proof -
  have "0 < 4 * (sz div 4)" "4 * (sz div 4) < 2 ^ 15" "nat (4 * (sz div 4)) \<le> length pool"
    using sz pool by auto
  then show ?thesis
    using sz by (simp add: rt_ringbuffer_init_def rb_ok_def rb_contents_def rb_count_def ring_view_def)
qed

section \<open>The character operations are a bounded queue\<close>

definition rb_enq :: "u8 \<Rightarrow> ringbuffer \<Rightarrow> ringbuffer option" where
  "rb_enq ch rb = (case rt_ringbuffer_putchar rb ch of Inr (rb', n) \<Rightarrow> if n = 1 then Some rb' else None
                                                    | Inl e \<Rightarrow> None)"

definition rb_deq :: "ringbuffer \<Rightarrow> (u8 \<times> ringbuffer) option" where
  "rb_deq rb = (case rt_ringbuffer_getchar rb of Inr (rb', Some ch) \<Rightarrow> Some (ch, rb') | _ \<Rightarrow> None)"

interpretation rbq: bounded_fifo rb_ok rb_contents "\<lambda>rb. length (rb_pool rb)" rb_enq rb_deq
proof
  fix s :: ringbuffer and x y :: u8 and ys :: bytes
  assume ok: "rb_ok s"
  show "length (rb_contents s) \<le> length (rb_pool s)" using rb_count_le [OF ok] by simp
  show "length (rb_contents s) < length (rb_pool s) \<Longrightarrow> \<exists>s'. rb_enq x s = Some s' \<and> rb_ok s' \<and>
      rb_contents s' = rb_contents s @ [x] \<and> length (rb_pool s') = length (rb_pool s)"
    using push_ok [OF ok, of "[x]"] by (simp add: rb_enq_def putchar_eq [OF ok])
  show "length (rb_contents s) = length (rb_pool s) \<Longrightarrow> rb_enq x s = None"
    by (simp add: rb_enq_def putchar_eq [OF ok])
  show "rb_contents s = [] \<Longrightarrow> rb_deq s = None"
    by (simp add: rb_deq_def getchar_eq [OF ok])
  assume c: "rb_contents s = y # ys"
  then have "1 \<le> rb_count s" using length_rb_contents [of s] by simp
  then show "\<exists>s'. rb_deq s = Some (y, s') \<and> rb_ok s' \<and> rb_contents s' = ys \<and>
      length (rb_pool s') = length (rb_pool s)"
    using c pop_ok [OF ok, of 1] by (simp add: rb_deq_def getchar_eq [OF ok])
qed

section \<open>Forced writes\<close>

lemma push_force_overrun:
  assumes ok: "rb_ok rb" and d: "length d \<le> length (rb_pool rb)" "length (rb_pool rb) < rb_count rb + length d"
  defines "wraps \<equiv> length (rb_pool rb) - write_index rb \<le> length d"
  defines "rb' \<equiv> (push_bytes d rb)\<lparr> read_mirror := (if wraps then \<not> read_mirror rb else read_mirror rb),
                   read_index := write_index (push_bytes d rb) \<rparr>"
  shows "rb_ok rb' \<and> rb_contents rb' =
    (if read_mirror rb = write_mirror rb then []
     else drop (rb_count rb + length d - length (rb_pool rb)) (rb_contents rb @ d))"
proof -
  let ?L = "length (rb_pool rb)"
  have w: "write_index rb < ?L" using ok by (simp add: rb_ok_def)
  have w': "write_index (push_bytes d rb) = (write_index rb + length d) mod ?L"
    using w d by (auto simp: push_bytes_def Let_def mod_once)
  have pool: "rb_pool (push_bytes d rb) = ring_write (rb_pool rb) (write_index rb) d"
    by (simp add: push_bytes_def Let_def)
  have ix: "write_index (push_bytes d rb) < ?L" using w d by (auto simp: push_bytes_def Let_def)
  have wm: "write_mirror (push_bytes d rb) = (if wraps then \<not> write_mirror rb else write_mirror rb)"
    using w by (auto simp: push_bytes_def Let_def wraps_def)
  have size: "buffer_size (push_bytes d rb) = buffer_size rb" by (simp add: push_bytes_def Let_def)
  have ok': "rb_ok rb'"
    using ok ix w d by (auto simp: rb_ok_def rb'_def pool size)
  have "wraps" if "read_mirror rb = write_mirror rb"
    using that ok d by (auto simp: wraps_def rb_ok_def rb_count_def)
  then have c: "rb_count rb' = (if read_mirror rb = write_mirror rb then 0 else ?L)"
    using ix w d by (auto simp: rb'_def rb_count_def pool wm)
  have "ring_view (ring_write (rb_pool rb) (write_index rb) d) (write_index (push_bytes d rb)) ?L =
      drop (rb_count rb + length d - ?L) (ring_view (rb_pool rb) (read_index rb) (rb_count rb) @ d)"
    by (rule ring_view_force)
      (use ok d w' write_index_count [OF ok] rb_count_le [OF ok] in \<open>auto simp: rb_ok_def\<close>)
  then show ?thesis
    using ok' by (auto simp: rb_contents_def c) (simp_all add: rb'_def pool ring_view_def)
qed

lemma putchar_force_eq:
  assumes ok: "rb_ok rb"
  shows "rt_ringbuffer_putchar_force rb ch = Inr (
    if rb_count rb = length (rb_pool rb)
    then (push_bytes [ch] rb)\<lparr> read_mirror := (if length (rb_pool rb) - write_index rb \<le> 1
                                             then \<not> read_mirror rb else read_mirror rb),
            read_index := write_index (push_bytes [ch] rb) \<rparr>
    else push_bytes [ch] rb, 1)"
proof -
  have w: "write_index rb < length (rb_pool rb)" using ok by (simp add: rb_ok_def)
  have L: "buffer_size rb = int (length (rb_pool rb))" "length (rb_pool rb) < 2 ^ 15"
    using rb_ok_size [OF ok] by auto
  have st: "rt_ringbuffer_status rb = RT_RINGBUFFER_FULL \<longleftrightarrow> rb_count rb = length (rb_pool rb)"
    by (rule status_full_iff [OF ok])
  have last: "int (write_index rb) = buffer_size rb - 1 \<longleftrightarrow> \<not> write_index rb + 1 < length (rb_pool rb)"
    using w L by auto
  have idx: "index15 (int (write_index rb) + 1) = write_index rb + 1"
    using w L by (simp add: index15_small nat_add_distrib)
  show ?thesis
    using w unfolding rt_ringbuffer_putchar_force_def Let_def store8_simps(1) [OF w] rbind_simps st
      update_ring_write [OF w]
    by (cases "write_index rb + 1 < length (rb_pool rb)")
      (auto simp: last idx push_bytes_def Let_def)
qed

section \<open>Properties\<close>

text \<open>C34: Writing a block appends to the buffered bytes as much of its front as there is room for,
  reports that many, and keeps the indices and mirror bits consistent, whether or not the write
  wraps around the end of the array.\<close>

theorem rt_ringbuffer_put_appends:
  "rb_ok rb \<Longrightarrow> unat len \<le> length ptr \<Longrightarrow>
   \<exists>rb' n. rt_ringbuffer_put rb ptr len = Inr (rb', n) \<and>
     n = min (unat len) (length (rb_pool rb) - length (rb_contents rb)) \<and>
     rb_ok rb' \<and> rb_contents rb' = rb_contents rb @ take n ptr"
  using put_eq [of rb len ptr] rb_count_le [of rb]
    push_ok [of rb "take (min (unat len) (length (rb_pool rb) - rb_count rb)) ptr"] by simp

definition sample_rb :: ringbuffer where
  "sample_rb = \<lparr> rb_pool = [0, 0, 0, 0, 1, 2, 3, 4], read_mirror = False, read_index = 4,
     write_mirror = True, write_index = 0, buffer_size = 8 \<rparr>"

lemma sample_rb_ok: "rb_ok sample_rb" "rb_contents sample_rb = [1, 2, 3, 4]" "length (rb_pool sample_rb) = 8"
  by (simp_all add: sample_rb_def rb_ok_def rb_contents_def rb_count_def ring_view_def upt_rec)

theorem rt_ringbuffer_put_appends_witness:
  "\<exists>rb' n. rt_ringbuffer_put sample_rb [7, 8] 2 = Inr (rb', n) \<and> n = 2 \<and>
     rb_contents rb' = [1, 2, 3, 4, 7, 8]"
proof -
  have "unat (2 :: u16) \<le> length [7, 8 :: u8]" by simp
  from rt_ringbuffer_put_appends [OF sample_rb_ok(1) this] show ?thesis
    by (auto simp: sample_rb_ok simp del: length_rb_contents)
qed

text \<open>C35: Reading a block copies the oldest buffered bytes to the front of the caller's array, as many
  as were asked for or are there, removes exactly these from the buffer and leaves the rest of
  the caller's array alone.\<close>

theorem rt_ringbuffer_get_takes:
  "rb_ok rb \<Longrightarrow> unat len \<le> length dst \<Longrightarrow>
   \<exists>rb' dst' n. rt_ringbuffer_get rb dst len = Inr (rb', dst', n) \<and>
     n = min (unat len) (length (rb_contents rb)) \<and> rb_ok rb' \<and>
     dst' = take n (rb_contents rb) @ drop n dst \<and> rb_contents rb' = drop n (rb_contents rb)"
  using get_eq [of rb len dst] pop_ok [of rb "min (unat len) (rb_count rb)"]
  by (simp add: blit_def min_absorb2)

theorem rt_ringbuffer_get_takes_witness:
  "\<exists>rb' dst' n. rt_ringbuffer_get sample_rb [9, 9, 9, 9, 9] 3 = Inr (rb', dst', n) \<and>
     dst' = [1, 2, 3, 9, 9] \<and> rb_contents rb' = [4]"
proof -
  have "unat (3 :: u16) \<le> length [9, 9, 9, 9, 9 :: u8]" by simp
  from rt_ringbuffer_get_takes [OF sample_rb_ok(1) this] show ?thesis
    by (auto simp: sample_rb_ok simp del: length_rb_contents)
qed

text \<open>The single-character operations are a bounded FIFO queue: for any interleaving of
  \<^verbatim>\<open>putchar\<close> and \<^verbatim>\<open>getchar\<close> on a fresh buffer, the characters read, followed by those still
  buffered, are exactly the accepted characters in order, and never more than the capacity are
  buffered.\<close>

theorem rt_ringbuffer_chars_in_order:
  "4 \<le> sz \<Longrightarrow> sz < 2 ^ 15 \<Longrightarrow> length pool = nat sz \<Longrightarrow> rt_ringbuffer_init pool sz = Inr rb \<Longrightarrow>
   fifo_run rb_enq rb_deq ops rb = (accepted, got, rb') \<Longrightarrow>
   got @ rb_contents rb' = accepted \<and> length (rb_contents rb') \<le> nat (4 * (sz div 4))"
proof -
  assume "4 \<le> sz" "sz < 2 ^ 15" "length pool = nat sz" "rt_ringbuffer_init pool sz = Inr rb"
    and run: "fifo_run rb_enq rb_deq ops rb = (accepted, got, rb')"
  then have rb: "rb_ok rb" "rb_contents rb = []" "length (rb_pool rb) = nat (4 * (sz div 4))"
    using init_ok [of sz pool] by auto
  from rbq.run_order [OF rb(1) run] rbq.within [of rb'] rb(2,3) show ?thesis by auto
qed

text \<open>\<^verbatim>\<open>putchar_force\<close> always stores the character and drops the oldest one if the buffer was
  full: the buffer then holds the last \<open>buffer_size\<close> characters.\<close>

theorem rt_ringbuffer_putchar_force_keeps_last:
  "rb_ok rb \<Longrightarrow>
   \<exists>rb'. rt_ringbuffer_putchar_force rb ch = Inr (rb', 1) \<and> rb_ok rb' \<and>
     rb_contents rb' = drop (length (rb_contents rb) + 1 - length (rb_pool rb)) (rb_contents rb @ [ch])"
proof -
  assume ok: "rb_ok rb"
  show ?thesis
  proof (cases "rb_count rb = length (rb_pool rb)")
    case True
    have "read_mirror rb \<noteq> write_mirror rb"
      using True ok by (auto simp: rb_ok_def rb_count_def split: if_splits)
    moreover have "1 \<le> length (rb_pool rb)" using ok by (auto simp: rb_ok_def)
    ultimately show ?thesis
      using push_force_overrun [OF ok, of "[ch]"] True by (simp add: putchar_force_eq [OF ok])
  next
    case False
    then show ?thesis
      using push_ok [OF ok, of "[ch]"] rb_count_le [OF ok] by (simp add: putchar_force_eq [OF ok])
  qed
qed

text \<open>\<^verbatim>\<open>put_force\<close> keeps the last \<open>buffer_size\<close> bytes of the old contents and the new block, except
  in one situation: when the block does not fit and the write index has not yet wrapped ahead of
  the read index (equal mirror bits), both mirror bits flip and the buffer comes out empty, although
  the call reports the bytes as stored.\<close>

theorem rt_ringbuffer_put_force_result:
  "rb_ok rb \<Longrightarrow> length d = unat len \<Longrightarrow>
   \<exists>rb' n. rt_ringbuffer_put_force rb d len = Inr (rb', n) \<and> rb_ok rb' \<and>
     n = min (unat len) (length (rb_pool rb)) \<and>
     rb_contents rb' =
       (if length (rb_contents rb) + n > length (rb_pool rb) \<and> read_mirror rb = write_mirror rb
        then []
        else drop (length (rb_contents rb) + length d - length (rb_pool rb)) (rb_contents rb @ d))"
proof -
  assume ok: "rb_ok rb" and len: "length d = unat len"
  let ?L = "length (rb_pool rb)" and ?k = "kept rb d"
  have k: "length ?k = min (unat len) ?L" using len by (auto simp: kept_def)
  have c: "rb_count rb \<le> ?L" by (rule rb_count_le [OF ok])
  show ?thesis
  proof (cases "?L < rb_count rb + length ?k")
    case True
    have same: "drop (rb_count rb + length ?k - ?L) (rb_contents rb @ ?k) =
        drop (rb_count rb + length d - ?L) (rb_contents rb @ d)"
      using c len k by (cases "length d \<le> ?L") (auto simp: kept_def)
    have "length ?k > ?L - rb_count rb" "length ?k \<le> ?L" using True c k by linarith+
    then show ?thesis
      using push_force_overrun [OF ok _ True] True same
      unfolding put_force_eq [OF ok len] Let_def k [symmetric]
      by (simp only: if_True length_rb_contents) auto
  next
    case False
    have "rb_contents rb @ ?k = drop (rb_count rb + length d - ?L) (rb_contents rb @ d)"
      using False k len c by (cases "length d \<le> ?L") (auto simp: kept_def rb_contents_def ring_view_def)
    moreover have le: "\<not> length ?k > ?L - rb_count rb" "rb_count rb + length ?k \<le> ?L"
      using False c by linarith+
    ultimately show ?thesis
      using push_ok [OF ok le(2)] False
      unfolding put_force_eq [OF ok len] Let_def k [symmetric] if_not_P [OF le(1)]
      by (simp only: length_rb_contents) auto
  qed
qed

end
