(* ===== verification/Voice.thy ===== *)
theory Voice
  imports Prelude
begin

text \<open>
  \<^verbatim>\<open>fun_handler/voice_handler.c\<close> with \<^verbatim>\<open>w25qxx_read\<close> and the start/stop part of \<^verbatim>\<open>i2s_dma.c\<close>: a
  voice is brought from the serial flash to the I2S peripheral through two 1 KiB buffers that the
  DMA controller plays in turn. \<open>play_voice_start\<close> fills both, the transfer-complete interrupt
  refills the one that was just played. The state holds the file's static variables; what the code
  does to the outside (flash reads, DMA length register, amplifier, DMA on and off) is the list of
  events a step produces. \<^verbatim>\<open>sfud_read\<close>, a vendored flash driver, is an argument: it gives a status
  and the bytes it stored.
\<close>

section \<open>State\<close>

record voice_info =
  vi_start_addr :: u32
  vi_size :: u32

record voice =
  voice_count :: u32
  voice_table :: "voice_info list"
  vp_index :: u16
  vp_start_addr :: u32
  vp_total_size :: u32
  vp_remain_size :: u32
  i2s_buffer0 :: bytes
  i2s_buffer1 :: bytes
  using_mem_buff :: u8
  send_dual_byte :: u32
  transmit_data_length :: u32
  i2s_stop_flag :: bool

datatype voice_event =
    Flash_read nat u32 u32
  | Dma_length u32
  | Speaker bool
  | Dma_on
  | Dma_off

type_synonym sfud = "u32 \<Rightarrow> u32 \<Rightarrow> bool \<times> bytes"

type_synonym voice_step = "(voice \<times> voice_event list) res"

definition I2S_BUFF_SIZE :: u32 where "I2S_BUFF_SIZE = 1024"
definition MAX_VOICE_COUNT :: nat where "MAX_VOICE_COUNT = 16"

section \<open>Operations\<close>

definition w25qxx_read :: "sfud \<Rightarrow> u32 \<Rightarrow> u32 \<Rightarrow> rt_err \<times> bytes" where
  "w25qxx_read sfud addr n = (case sfud addr n of (ok, bs) \<Rightarrow> (if ok then RT_EOK else - RT_ERROR, bs))"

text \<open>A read into one of the two arrays; the callers look at the error code only to print it.\<close>

definition read_into :: "sfud \<Rightarrow> nat \<Rightarrow> u32 \<Rightarrow> u32 \<Rightarrow> voice \<Rightarrow> voice res" where
  "read_into sfud b addr n s =
     (let bs = snd (w25qxx_read sfud addr n) in
      if b = 0
      then rbind (memcpy (i2s_buffer0 s) 0 bs 0 (int (length bs))) (\<lambda>m. Inr (s\<lparr> i2s_buffer0 := m \<rparr>))
      else rbind (memcpy (i2s_buffer1 s) 0 bs 0 (int (length bs))) (\<lambda>m. Inr (s\<lparr> i2s_buffer1 := m \<rparr>)))"

definition dma_transmit_datalength :: "u32 \<Rightarrow> voice \<Rightarrow> voice" where
  "dma_transmit_datalength n s = s\<lparr> transmit_data_length := n \<rparr>"

definition i2s_play_start :: "voice \<Rightarrow> voice" where
  "i2s_play_start s = s\<lparr> i2s_stop_flag := False \<rparr>"

definition i2s_play_stop :: "voice \<Rightarrow> voice" where
  "i2s_play_stop s = s\<lparr> i2s_stop_flag := True \<rparr>"

text \<open>The address of the next byte to read; it is the start address itself while nothing has been
  taken off the remaining size.\<close>

definition next_addr :: "voice \<Rightarrow> u32" where
  "next_addr s = vp_start_addr s + (vp_total_size s - vp_remain_size s)"

text \<open>Read \<open>n\<close> bytes of the current voice into a buffer, count the halfwords and take them off the
  remaining size; every branch of both functions below does this.\<close>

definition load_chunk :: "sfud \<Rightarrow> nat \<Rightarrow> u32 \<Rightarrow> voice \<Rightarrow> voice_step" where
  "load_chunk sfud b n s =
     rbind (read_into sfud b (next_addr s) n s) (\<lambda>t.
     Inr (t\<lparr> send_dual_byte := send_dual_byte t + n div 2, vp_remain_size := vp_remain_size t - n \<rparr>,
          [Flash_read b (next_addr s) n]))"

definition play_voice_start :: "sfud \<Rightarrow> u16 \<Rightarrow> voice \<Rightarrow> voice_step" where
  "play_voice_start sfud voice_index s =
     (if unat voice_index \<ge> length (voice_table s) then Inl Out_of_bounds
      else
        let info = voice_table s ! unat voice_index;
            s = s\<lparr> vp_index := voice_index, vp_start_addr := vi_start_addr info,
                   vp_total_size := vi_size info, vp_remain_size := vi_size info,
                   send_dual_byte := 0, using_mem_buff := 0 \<rparr> in
        rbind
          (if vp_total_size s \<ge> I2S_BUFF_SIZE
           then let s = dma_transmit_datalength (I2S_BUFF_SIZE div 2) s in
                rbind (load_chunk sfud 0 I2S_BUFF_SIZE s) (\<lambda>(s, e0).
                rbind (if vp_remain_size s > I2S_BUFF_SIZE
                       then load_chunk sfud 1 I2S_BUFF_SIZE s
                       else load_chunk sfud 1 (vp_remain_size s) s) (\<lambda>(s, e1).
                Inr (s, [Dma_length (I2S_BUFF_SIZE div 2)] @ e0 @ e1)))
           else rbind (load_chunk sfud 0 (vp_total_size s) s) (\<lambda>(s, e0).
                let n = vp_total_size s div 2; s = dma_transmit_datalength n s in
                Inr (s\<lparr> using_mem_buff := 2 \<rparr>, e0 @ [Dma_length n])))
          (\<lambda>(s, e). Inr (i2s_play_start s, e @ [Speaker True, Dma_on])))"

text \<open>The two refill branches of the handler are the same but for the buffer (\<open>b\<close>) and the flag
  value for the other one.\<close>

definition refill :: "sfud \<Rightarrow> nat \<Rightarrow> u8 \<Rightarrow> voice \<Rightarrow> voice_step" where
  "refill sfud b other s =
     rbind
       (if vp_remain_size s \<ge> I2S_BUFF_SIZE
        then load_chunk sfud b I2S_BUFF_SIZE s
        else let n = vp_remain_size s in
             rbind (load_chunk sfud b n s) (\<lambda>(s, e).
             Inr (dma_transmit_datalength (n div 2) s, e @ [Dma_length (n div 2)])))
       (\<lambda>(s, e). Inr (s\<lparr> using_mem_buff := (if vp_remain_size s = 0 then 2 else other) \<rparr>, e))"

definition i2s_dma_finish_handler :: "sfud \<Rightarrow> voice \<Rightarrow> voice_step" where
  "i2s_dma_finish_handler sfud s =
     (if using_mem_buff s = 0 then refill sfud 0 1 s
      else if using_mem_buff s = 1 then refill sfud 1 0 s
      else let s = i2s_play_stop s in
           Inr (s\<lparr> i2s_buffer0 := replicate (length (i2s_buffer0 s)) 0,
                   i2s_buffer1 := replicate (length (i2s_buffer1 s)) 0 \<rparr>,
                [Dma_off, Speaker False]))"

text \<open>\<^verbatim>\<open>DMA1_Stream4_IRQHandler\<close> with the transfer-complete flag set.\<close>

definition DMA1_Stream4_IRQHandler :: "sfud \<Rightarrow> voice \<Rightarrow> voice_step" where
  "DMA1_Stream4_IRQHandler sfud s =
     (if \<not> i2s_stop_flag s then i2s_dma_finish_handler sfud s else Inr (s, []))"

text \<open>\<open>n\<close> transfer-complete interrupts in a row.\<close>

fun interrupts :: "nat \<Rightarrow> sfud \<Rightarrow> voice \<Rightarrow> voice_step" where
  "interrupts 0 sfud s = Inr (s, [])"
| "interrupts (Suc n) sfud s =
     rbind (DMA1_Stream4_IRQHandler sfud s) (\<lambda>(s1, e1).
     rbind (interrupts n sfud s1) (\<lambda>(s2, e2). Inr (s2, e1 @ e2)))"

section \<open>What is read\<close>

definition flash_bytes :: "(u32 \<Rightarrow> u8) \<Rightarrow> u32 \<Rightarrow> nat \<Rightarrow> bytes" where
  "flash_bytes flash a n = map (\<lambda>i. flash (a + of_nat i)) [0..<n]"

text \<open>A flash driver that works: the bytes at the address, as many as were asked for.\<close>

definition serves :: "sfud \<Rightarrow> (u32 \<Rightarrow> u8) \<Rightarrow> bool" where
  "serves sfud flash \<longleftrightarrow> (\<forall>a n. sfud a n = (True, flash_bytes flash a (unat n)))"

text \<open>The bytes that a step has read from the flash.\<close>

fun loaded :: "(u32 \<Rightarrow> u8) \<Rightarrow> voice_event list \<Rightarrow> bytes" where
  "loaded flash [] = []"
| "loaded flash (Flash_read b a n # es) = flash_bytes flash a (unat n) @ loaded flash es"
| "loaded flash (_ # es) = loaded flash es"

fun buffers_used :: "voice_event list \<Rightarrow> nat list" where
  "buffers_used [] = []"
| "buffers_used (Flash_read b a n # es) = b # buffers_used es"
| "buffers_used (_ # es) = buffers_used es"

fun alternates :: "nat \<Rightarrow> nat list \<Rightarrow> bool" where
  "alternates b [] = True"
| "alternates b (c # cs) \<longleftrightarrow> c = b \<and> alternates (1 - b) cs"

lemma loaded_append [simp]: "loaded flash (es @ fs) = loaded flash es @ loaded flash fs"
  by (induction flash es rule: loaded.induct) auto

lemma buffers_used_append [simp]: "buffers_used (es @ fs) = buffers_used es @ buffers_used fs"
  by (induction es rule: buffers_used.induct) auto

lemma length_flash_bytes [simp]: "length (flash_bytes flash a n) = n"
  by (simp add: flash_bytes_def)

lemma flash_bytes_append:
  "flash_bytes flash a n @ flash_bytes flash (a + of_nat n) m = flash_bytes flash a (n + m)"
  by (rule nth_equalityI) (auto simp: flash_bytes_def nth_append algebra_simps)

lemma flash_bytes_0 [simp]: "flash_bytes flash a 0 = []"
  by (simp add: flash_bytes_def)

section \<open>The invariant of the loading\<close>

definition dma_buffer :: "nat \<Rightarrow> voice \<Rightarrow> bytes" where
  "dma_buffer b s = (if b = 0 then i2s_buffer0 s else i2s_buffer1 s)"

lemma dma_buffer_simps [simp]: "dma_buffer 0 s = i2s_buffer0 s" "dma_buffer (Suc b) s = i2s_buffer1 s"
  by (simp_all add: dma_buffer_def)

definition voice_ok :: "voice \<Rightarrow> bool" where
  "voice_ok s \<longleftrightarrow> length (i2s_buffer0 s) = 1024 \<and> length (i2s_buffer1 s) = 1024 \<and>
     vp_remain_size s \<le> vp_total_size s"

text \<open>\<open>done\<close> bytes of the voice are read so far.\<close>

definition loaded_size :: "voice \<Rightarrow> nat" where
  "loaded_size s = unat (vp_total_size s) - unat (vp_remain_size s)"

lemma next_addr_eq:
  "voice_ok s \<Longrightarrow> next_addr s = vp_start_addr s + of_nat (loaded_size s)"
  by (simp add: next_addr_def loaded_size_def voice_ok_def word_le_nat_alt of_nat_diff)

lemma load_chunk_ok:
  assumes ok: "voice_ok s" and n: "n \<le> vp_remain_size s" "unat n \<le> 1024" and sv: "serves sfud flash"
  shows "\<exists>t. load_chunk sfud b n s = Inr (t, [Flash_read b (next_addr s) n]) \<and> voice_ok t \<and>
    vp_remain_size t = vp_remain_size s - n \<and> send_dual_byte t = send_dual_byte s + n div 2 \<and>
    vp_total_size t = vp_total_size s \<and> vp_start_addr t = vp_start_addr s \<and>
    using_mem_buff t = using_mem_buff s \<and> i2s_stop_flag t = i2s_stop_flag s \<and>
    loaded_size t = loaded_size s + unat n \<and> transmit_data_length t = transmit_data_length s \<and>
    dma_buffer b t = flash_bytes flash (next_addr s) (unat n) @ drop (unat n) (dma_buffer b s) \<and>
    (\<forall>c. (c = 0) \<noteq> (b = 0) \<longrightarrow> dma_buffer c t = dma_buffer c s)"
proof -
  have r: "vp_remain_size s - n \<le> vp_total_size s"
    using ok n by (simp add: voice_ok_def) (meson order_trans word_le_sub1 word_le_minus_mono_left word_sub_le)
  have u: "unat (vp_remain_size s - n) = unat (vp_remain_size s) - unat n"
    using n by (simp add: unat_sub)
  have k: "unat n \<le> unat (vp_remain_size s)" "unat (vp_remain_size s) \<le> unat (vp_total_size s)"
    using n ok by (auto simp: word_le_nat_alt voice_ok_def)
  show ?thesis
    using ok n sv r u k
    by (auto simp: load_chunk_def read_into_def w25qxx_read_def serves_def voice_ok_def memcpy_def
        loaded_size_def Let_def blit_def dma_buffer_def)
qed

lemma refill_ok:
  assumes ok: "voice_ok s" and sv: "serves sfud flash"
  defines "n \<equiv> min 1024 (unat (vp_remain_size s))"
  shows "\<exists>t e. refill sfud b other s = Inr (t, e) \<and> voice_ok t \<and> buffers_used e = [b] \<and>
    loaded flash e = flash_bytes flash (next_addr s) n \<and>
    unat (vp_remain_size t) = unat (vp_remain_size s) - n \<and>
    send_dual_byte t = send_dual_byte s + of_nat (n div 2) \<and>
    using_mem_buff t = (if vp_remain_size t = 0 then 2 else other) \<and>
    vp_total_size t = vp_total_size s \<and> vp_start_addr t = vp_start_addr s \<and>
    i2s_stop_flag t = i2s_stop_flag s \<and> loaded_size t = loaded_size s + n \<and>
    dma_buffer b t = flash_bytes flash (next_addr s) n @ drop n (dma_buffer b s) \<and>
    (\<forall>c. (c = 0) \<noteq> (b = 0) \<longrightarrow> dma_buffer c t = dma_buffer c s)"
proof (cases "vp_remain_size s \<ge> I2S_BUFF_SIZE")
  case True
  then have n: "n = 1024" and le: "1024 \<le> vp_remain_size s"
    by (auto simp: n_def I2S_BUFF_SIZE_def word_le_nat_alt)
  from load_chunk_ok [OF ok le _ sv, of b] obtain t where
    "load_chunk sfud b 1024 s = Inr (t, [Flash_read b (next_addr s) 1024])" "voice_ok t"
    "vp_remain_size t = vp_remain_size s - 1024" "send_dual_byte t = send_dual_byte s + 1024 div 2"
    "vp_total_size t = vp_total_size s" "vp_start_addr t = vp_start_addr s"
    "i2s_stop_flag t = i2s_stop_flag s" "loaded_size t = loaded_size s + 1024"
    "dma_buffer b t = flash_bytes flash (next_addr s) 1024 @ drop 1024 (dma_buffer b s)"
    "\<forall>c. (c = 0) \<noteq> (b = 0) \<longrightarrow> dma_buffer c t = dma_buffer c s" by auto
  then show ?thesis
    using True n le
    by (auto simp: refill_def I2S_BUFF_SIZE_def voice_ok_def loaded_size_def unat_sub dma_buffer_def)
next
  case False
  then have n: "n = unat (vp_remain_size s)" and lt: "unat (vp_remain_size s) \<le> 1024"
    by (auto simp: n_def I2S_BUFF_SIZE_def word_le_nat_alt)
  have half: "vp_remain_size s div 2 = of_nat (n div 2)"
    unfolding n by (rule word_unat_eq_iff [THEN iffD2]) (use lt in \<open>simp add: unat_div unat_of_nat\<close>)
  from load_chunk_ok [OF ok order_refl lt sv, of b] obtain t where
    "load_chunk sfud b (vp_remain_size s) s = Inr (t, [Flash_read b (next_addr s) (vp_remain_size s)])"
    "voice_ok t" "vp_remain_size t = 0" "send_dual_byte t = send_dual_byte s + vp_remain_size s div 2"
    "vp_total_size t = vp_total_size s" "vp_start_addr t = vp_start_addr s"
    "i2s_stop_flag t = i2s_stop_flag s"
    "loaded_size t = loaded_size s + unat (vp_remain_size s)"
    "dma_buffer b t = flash_bytes flash (next_addr s) (unat (vp_remain_size s)) @
       drop (unat (vp_remain_size s)) (dma_buffer b s)"
    "\<forall>c. (c = 0) \<noteq> (b = 0) \<longrightarrow> dma_buffer c t = dma_buffer c s" by auto
  then show ?thesis
    using False n half
    by (auto simp: refill_def Let_def voice_ok_def loaded_size_def dma_transmit_datalength_def dma_buffer_def)
qed

lemma handler_refills:
  "\<not> i2s_stop_flag s \<Longrightarrow> using_mem_buff s = of_nat b \<Longrightarrow> b < 2 \<Longrightarrow>
   DMA1_Stream4_IRQHandler sfud s = refill sfud b (of_nat (1 - b)) s"
  by (cases "b = 0") (auto simp: DMA1_Stream4_IRQHandler_def i2s_dma_finish_handler_def less_2_cases_iff)

lemma load_rest:
  assumes sv: "serves sfud flash"
  shows "voice_ok s \<Longrightarrow> \<not> i2s_stop_flag s \<Longrightarrow> using_mem_buff s = of_nat b \<Longrightarrow> b < 2 \<Longrightarrow>
    \<exists>k t e. k \<le> unat (vp_remain_size s) div 1024 + 1 \<and> interrupts k sfud s = Inr (t, e) \<and>
      using_mem_buff t = 2 \<and> vp_remain_size t = 0 \<and> \<not> i2s_stop_flag t \<and> voice_ok t \<and>
      loaded flash e = flash_bytes flash (next_addr s) (unat (vp_remain_size s)) \<and>
      alternates b (buffers_used e) \<and>
      send_dual_byte t = send_dual_byte s + of_nat (unat (vp_remain_size s) div 2)"
proof (induction "unat (vp_remain_size s)" arbitrary: s b rule: less_induct)
  case less
  let ?R = "unat (vp_remain_size s)"
  obtain t e where t: "refill sfud b (of_nat (1 - b)) s = Inr (t, e)" "voice_ok t" "buffers_used e = [b]"
    "loaded flash e = flash_bytes flash (next_addr s) (min 1024 ?R)"
    "unat (vp_remain_size t) = ?R - min 1024 ?R"
    "send_dual_byte t = send_dual_byte s + of_nat (min 1024 ?R div 2)"
    "using_mem_buff t = (if vp_remain_size t = 0 then 2 else of_nat (1 - b))"
    "vp_start_addr t = vp_start_addr s"
    "i2s_stop_flag t = i2s_stop_flag s" "loaded_size t = loaded_size s + min 1024 ?R"
    using refill_ok [OF less.prems(1) sv, of b "of_nat (1 - b)"] by blast
  have irq: "DMA1_Stream4_IRQHandler sfud s = Inr (t, e)"
    using handler_refills [OF less.prems(2-4)] t(1) by simp
  show ?case
  proof (cases "?R \<le> 1024")
    case True
    then have "vp_remain_size t = 0" using t(5) by (simp add: unat_eq_zero)
    with True t less.prems show ?thesis
      by (intro exI [of _ 1] exI [of _ t] exI [of _ e]) (auto simp: irq)
  next
    case False
    have nz: "vp_remain_size t \<noteq> 0" using False t(5) by auto
    have lt: "unat (vp_remain_size t) < ?R" using False t(5) by auto
    have b1: "1 - b < 2" "\<not> i2s_stop_flag t" "using_mem_buff t = of_nat (1 - b)"
      using nz t less.prems by auto
    obtain k u f where u: "k \<le> unat (vp_remain_size t) div 1024 + 1" "interrupts k sfud t = Inr (u, f)"
      "using_mem_buff u = 2" "vp_remain_size u = 0" "\<not> i2s_stop_flag u" "voice_ok u"
      "loaded flash f = flash_bytes flash (next_addr t) (unat (vp_remain_size t))"
      "alternates (1 - b) (buffers_used f)"
      "send_dual_byte u = send_dual_byte t + of_nat (unat (vp_remain_size t) div 2)"
      using less.hyps [OF lt t(2) b1(2,3,1)] by blast
    have addr: "next_addr t = next_addr s + of_nat 1024"
      using False t by (simp add: next_addr_eq [OF t(2)] next_addr_eq [OF less.prems(1)])
    have R: "?R = 1024 + unat (vp_remain_size t)" using False t(5) by simp
    have "loaded flash (e @ f) = flash_bytes flash (next_addr s) ?R"
      using False t(4) u(7) flash_bytes_append [of flash "next_addr s" 1024 "unat (vp_remain_size t)"]
      by (simp add: addr R)
    moreover have "alternates b (buffers_used (e @ f))" using t(3) u(8) by simp
    moreover have "send_dual_byte u = send_dual_byte s + of_nat (?R div 2)"
    proof -
      have "?R div 2 = 512 + unat (vp_remain_size t) div 2" unfolding R by presburger
      then show ?thesis using False t(6) u(9) by (simp add: min_absorb1)
    qed
    moreover have "interrupts (Suc k) sfud s = Inr (u, e @ f)" by (simp add: irq u(2))
    moreover have "Suc k \<le> ?R div 1024 + 1" using u(1) R by simp
    ultimately show ?thesis using u by blast
  qed
qed

lemma start_loads:
  assumes sv: "serves sfud flash" and i: "unat idx < length (voice_table s)"
    and buf: "length (i2s_buffer0 s) = 1024" "length (i2s_buffer1 s) = 1024"
  defines "info \<equiv> voice_table s ! unat idx"
  shows "\<exists>t e. play_voice_start sfud idx s = Inr (t, e) \<and> voice_ok t \<and> \<not> i2s_stop_flag t \<and>
    using_mem_buff t = (if 1024 \<le> unat (vi_size info) then 0 else 2) \<and>
    vp_start_addr t = vi_start_addr info \<and> vp_total_size t = vi_size info \<and>
    unat (vp_remain_size t) = unat (vi_size info) - 2048 \<and>
    loaded flash e = flash_bytes flash (vi_start_addr info) (min 2048 (unat (vi_size info))) \<and>
    buffers_used e = (if 1024 \<le> unat (vi_size info) then [0, 1] else [0]) \<and>
    send_dual_byte t = of_nat (min 2048 (unat (vi_size info)) div 2) \<and>
    transmit_data_length t = (if 1024 \<le> unat (vi_size info) then 512 else vi_size info div 2) \<and>
    i2s_buffer0 t = flash_bytes flash (vi_start_addr info) (min 1024 (unat (vi_size info))) @ drop (unat (vi_size info)) (i2s_buffer0 s) \<and>
    i2s_buffer1 t = (if 1024 \<le> unat (vi_size info) then flash_bytes flash (vi_start_addr info + 1024) (min 1024 (unat (vi_size info) - 1024)) @
        drop (unat (vi_size info) - 1024) (i2s_buffer1 s) else i2s_buffer1 s)"
proof -
  define s0 where "s0 = s\<lparr> vp_index := idx, vp_start_addr := vi_start_addr info,
    vp_total_size := vi_size info, vp_remain_size := vi_size info,
    send_dual_byte := 0, using_mem_buff := 0 \<rparr>"
  have ok0: "voice_ok s0" using buf by (simp add: s0_def voice_ok_def)
  show ?thesis
  proof (cases "1024 \<le> unat (vi_size info)")
    case False
    then have le: "unat (vp_remain_size s0) \<le> 1024" by (simp add: s0_def)
    have half: "vi_size info div 2 = of_nat (min 2048 (unat (vi_size info)) div 2)"
      by (rule word_unat_eq_iff [THEN iffD2]) (use False in \<open>simp add: unat_div unat_of_nat\<close>)
    obtain t where t: "load_chunk sfud 0 (vi_size info) s0 =
        Inr (t, [Flash_read 0 (next_addr s0) (vi_size info)])" "voice_ok t"
      "vp_remain_size t = 0" "send_dual_byte t = vi_size info div 2" "vp_total_size t = vi_size info"
      "vp_start_addr t = vi_start_addr info" "i2s_stop_flag t = i2s_stop_flag s"
      "i2s_buffer0 t = flash_bytes flash (next_addr s0) (unat (vi_size info)) @ drop (unat (vi_size info)) (i2s_buffer0 s)"
      "i2s_buffer1 t = i2s_buffer1 s"
      using load_chunk_ok [OF ok0 order_refl le sv, of 0] by (auto simp: s0_def dma_buffer_def split: if_splits)
    have "\<not> vi_size info \<ge> I2S_BUFF_SIZE" using False by (simp add: I2S_BUFF_SIZE_def word_le_nat_alt)
    then have "play_voice_start sfud idx s =
      Inr (t\<lparr> transmit_data_length := vi_size info div 2, using_mem_buff := 2, i2s_stop_flag := False \<rparr>,
           [Flash_read 0 (next_addr s0) (vi_size info), Dma_length (vi_size info div 2), Speaker True, Dma_on])"
      using i t(1,5) unfolding s0_def info_def
      by (simp add: play_voice_start_def Let_def dma_transmit_datalength_def i2s_play_start_def)
    then show ?thesis
      using False t half by (simp add: voice_ok_def s0_def next_addr_def min_absorb2)
  next
    case True
    define s1 where "s1 = dma_transmit_datalength (I2S_BUFF_SIZE div 2) s0"
    have s1: "voice_ok s1" "vp_remain_size s1 = vi_size info" "next_addr s1 = vi_start_addr info"
      using ok0 by (auto simp: s1_def s0_def dma_transmit_datalength_def voice_ok_def next_addr_def)
    have le: "1024 \<le> vp_remain_size s1" using True s1 by (simp add: word_le_nat_alt)
    obtain t where t: "load_chunk sfud 0 I2S_BUFF_SIZE s1 = Inr (t, [Flash_read 0 (vi_start_addr info) 1024])"
      "voice_ok t" "vp_remain_size t = vi_size info - 1024" "send_dual_byte t = 512"
      "vp_total_size t = vi_size info" "vp_start_addr t = vi_start_addr info"
      "using_mem_buff t = 0" "loaded_size t = 1024" "transmit_data_length t = 512"
      "i2s_buffer0 t = flash_bytes flash (vi_start_addr info) 1024 @ drop 1024 (i2s_buffer0 s)"
      "i2s_buffer1 t = i2s_buffer1 s"
      using load_chunk_ok [OF s1(1) le _ sv, of 0]
      by (auto simp: s1 I2S_BUFF_SIZE_def)
        (auto simp: s1_def s0_def dma_transmit_datalength_def loaded_size_def dma_buffer_def I2S_BUFF_SIZE_def
          split: if_splits)
    define n where "n = (if vp_remain_size t > I2S_BUFF_SIZE then I2S_BUFF_SIZE else vp_remain_size t)"
    have un: "unat n = min 1024 (unat (vi_size info) - 1024)" and nle: "n \<le> vp_remain_size t"
      using t(3) True by (auto simp: n_def I2S_BUFF_SIZE_def word_less_nat_alt word_le_nat_alt unat_sub)
    have "unat n \<le> 1024" using un by simp
    from load_chunk_ok [OF t(2) nle this sv, of 1] obtain u where
      u: "load_chunk sfud 1 n t = Inr (u, [Flash_read 1 (next_addr t) n])" "voice_ok u"
      "vp_remain_size u = vp_remain_size t - n" "send_dual_byte u = 512 + n div 2"
      "vp_total_size u = vi_size info" "vp_start_addr u = vi_start_addr info"
      "using_mem_buff u = 0" "transmit_data_length u = 512" "i2s_buffer0 u = i2s_buffer0 t"
      "i2s_buffer1 u = flash_bytes flash (next_addr t) (unat n) @ drop (unat n) (i2s_buffer1 s)"
      using t by (auto simp: dma_buffer_def split: if_splits)
    have "vi_size info \<ge> I2S_BUFF_SIZE" using True by (simp add: I2S_BUFF_SIZE_def word_le_nat_alt)
    then have start: "play_voice_start sfud idx s = Inr (i2s_play_start u,
        [Dma_length (I2S_BUFF_SIZE div 2), Flash_read 0 (vi_start_addr info) 1024,
         Flash_read 1 (next_addr t) n, Speaker True, Dma_on])"
      using i t(1) u(1) unfolding s1_def s0_def info_def n_def
      by (simp add: play_voice_start_def Let_def split: if_splits)
    have addr: "next_addr t = vi_start_addr info + of_nat 1024"
      using t by (simp add: next_addr_eq [OF t(2)])
    have m: "min 2048 (unat (vi_size info)) = 1024 + unat n" using un True by auto
    have "unat (vp_remain_size u) = unat (vi_size info) - 2048"
      using u(3) t(3) un True nle by (auto simp: unat_sub word_le_nat_alt)
    moreover have "send_dual_byte u = of_nat (min 2048 (unat (vi_size info)) div 2)"
    proof -
      have "(1024 + unat n) div 2 = 512 + unat n div 2" by presburger
      moreover have "n div 2 = of_nat (unat n div 2)"
        by (rule word_unat_eq_iff [THEN iffD2]) (use un in \<open>simp add: unat_div unat_of_nat\<close>)
      ultimately show ?thesis using u(4) by (simp add: m)
    qed
    moreover have "flash_bytes flash (vi_start_addr info) 1024 @ flash_bytes flash (next_addr t) (unat n) =
        flash_bytes flash (vi_start_addr info) (min 2048 (unat (vi_size info)))"
      unfolding addr m by (rule flash_bytes_append)
    moreover have "drop (unat (vi_size info) - 1024) (i2s_buffer1 s) = drop (unat n) (i2s_buffer1 s)"
      using un buf(2) by (cases "unat (vi_size info) - 1024 \<le> 1024") simp_all
    moreover have "drop 1024 (i2s_buffer0 s) = []" "drop (unat (vi_size info)) (i2s_buffer0 s) = []" using buf(1) True by simp_all
    ultimately show ?thesis
      using start u t True addr un by (simp add: i2s_play_start_def voice_ok_def min_absorb1)
  qed
qed

section \<open>What is loaded\<close>

text \<open>A voice is loaded completely: with a working flash, some number of
  transfer-complete interrupts after the start (at most one per KiB, plus one) everything is
  read. Start and interrupts together have then read precisely the bytes from the start address
  on, each once and in order, alternating between the two buffers and never past their end; the
  halfword counter is half the size, and the next interrupt stops the DMA and the amplifier.\<close>

lemma play_voice_loads_voice:
  "serves sfud flash \<Longrightarrow> unat idx < length (voice_table s) \<Longrightarrow>
   length (i2s_buffer0 s) = 1024 \<Longrightarrow> length (i2s_buffer1 s) = 1024 \<Longrightarrow>
   voice_table s ! unat idx = \<lparr> vi_start_addr = a, vi_size = n \<rparr> \<Longrightarrow>
   \<exists>s1 e1 k s2 e2. play_voice_start sfud idx s = Inr (s1, e1) \<and>
     interrupts k sfud s1 = Inr (s2, e2) \<and> k \<le> unat n div 1024 + 1 \<and>
     loaded flash (e1 @ e2) = flash_bytes flash a (unat n) \<and>
     alternates 0 (buffers_used (e1 @ e2)) \<and> vp_remain_size s2 = 0 \<and>
     send_dual_byte s2 = of_nat (unat n div 2) \<and>
     (\<exists>s3. DMA1_Stream4_IRQHandler sfud s2 = Inr (s3, [Dma_off, Speaker False]) \<and> i2s_stop_flag s3)"
proof -
  assume sv: "serves sfud flash" and idx: "unat idx < length (voice_table s)"
    and buf: "length (i2s_buffer0 s) = 1024" "length (i2s_buffer1 s) = 1024"
    and info: "voice_table s ! unat idx = \<lparr> vi_start_addr = a, vi_size = n \<rparr>"
  obtain s1 e1 where s1: "play_voice_start sfud idx s = Inr (s1, e1)" "voice_ok s1" "\<not> i2s_stop_flag s1"
    "using_mem_buff s1 = (if 1024 \<le> unat n then 0 else 2)" "vp_start_addr s1 = a" "vp_total_size s1 = n"
    "unat (vp_remain_size s1) = unat n - 2048"
    "loaded flash e1 = flash_bytes flash a (min 2048 (unat n))"
    "buffers_used e1 = (if 1024 \<le> unat n then [0, 1] else [0])"
    "send_dual_byte s1 = of_nat (min 2048 (unat n) div 2)"
    using start_loads [OF sv idx buf] by (auto simp: info)
  have stop: "\<exists>s3. DMA1_Stream4_IRQHandler sfud s2 = Inr (s3, [Dma_off, Speaker False]) \<and> i2s_stop_flag s3"
    if "using_mem_buff s2 = 2" "\<not> i2s_stop_flag s2" for s2
    using that by (simp add: DMA1_Stream4_IRQHandler_def i2s_dma_finish_handler_def i2s_play_stop_def Let_def)
  show ?thesis
  proof (cases "1024 \<le> unat n")
    case False
    then have "vp_remain_size s1 = 0" using s1(7) by (simp add: unat_eq_zero)
    moreover have "interrupts 0 sfud s1 = Inr (s1, [])" by simp
    moreover have "0 \<le> unat n div 1024 + 1" by simp
    moreover have "loaded flash (e1 @ []) = flash_bytes flash a (unat n)"
      "alternates 0 (buffers_used (e1 @ []))" "send_dual_byte s1 = of_nat (unat n div 2)"
      "using_mem_buff s1 = 2" using s1 False by auto
    ultimately show ?thesis using s1(1,3) stop [of s1] by blast
  next
    case True
    then have "using_mem_buff s1 = of_nat 0" using s1 by simp
    from load_rest [OF sv s1(2,3) this] obtain k s2 e2 where
      r: "k \<le> unat (vp_remain_size s1) div 1024 + 1" "interrupts k sfud s1 = Inr (s2, e2)"
      "using_mem_buff s2 = 2" "vp_remain_size s2 = 0" "\<not> i2s_stop_flag s2"
      "loaded flash e2 = flash_bytes flash (next_addr s1) (unat (vp_remain_size s1))"
      "alternates 0 (buffers_used e2)"
      "send_dual_byte s2 = send_dual_byte s1 + of_nat (unat (vp_remain_size s1) div 2)" by auto
    define m where "m = min 2048 (unat n)"
    have mn: "m + (unat n - 2048) = unat n" by (simp add: m_def)
    have "next_addr s1 = a + of_nat m"
      using s1 by (simp add: next_addr_eq [OF s1(2)] loaded_size_def m_def min_def)
    then have "loaded flash (e1 @ e2) = flash_bytes flash a (unat n)"
      using s1(7,8) r(6) flash_bytes_append [of flash a m "unat n - 2048"] by (simp add: mn flip: m_def)
    moreover have "send_dual_byte s2 = of_nat (unat n div 2)"
    proof -
      have "m div 2 + (unat n - 2048) div 2 = unat n div 2" unfolding m_def by (simp add: min_def) presburger
      then show ?thesis using r(8) s1(7,10) by (simp flip: m_def of_nat_add)
    qed
    moreover have "alternates 0 (buffers_used (e1 @ e2))" using s1(9) r(7) True by simp
    moreover have "k \<le> unat n div 1024 + 1" using r(1) s1(7) div_le_mono [of "unat n - 2048" "unat n" 1024] by simp
    ultimately show ?thesis using s1(1) r stop [OF r(3,5)] by blast
  qed
qed

section \<open>What is played\<close>

text \<open>The DMA controller in double-buffer mode, as its manual describes it: it sends the halfwords of the
  current target (\<open>ct\<close>), as many as were programmed when it was enabled (\<open>len\<close>; a write to the length register
  of an enabled stream is ignored), switches to the other target and raises the transfer-complete
  interrupt, whose handler is done before the DMA is through with that other target. It goes on until the
  handler disables it; with a length of 0 it never starts. \<open>dma_play k\<close> follows it for up to \<open>k\<close>
  transfers and gives the bytes it sent.\<close>

primrec dma_play :: "nat \<Rightarrow> sfud \<Rightarrow> nat \<Rightarrow> u32 \<Rightarrow> voice \<Rightarrow> (voice \<times> bytes) res" where
  "dma_play 0 sfud ct len s = Inr (s, [])"
| "dma_play (Suc k) sfud ct len s =
     (if i2s_stop_flag s \<or> len = 0 then Inr (s, [])
      else rbind (DMA1_Stream4_IRQHandler sfud s) (\<lambda>(t, e).
           rbind (dma_play k sfud (1 - ct) len t) (\<lambda>(u, bs).
           Inr (u, take (2 * unat len) (dma_buffer ct s) @ bs))))"

lemma dma_play_stopped: "i2s_stop_flag s \<Longrightarrow> dma_play k sfud ct len s = Inr (s, [])"
  by (cases k) simp_all

lemma dma_play_more:
  "dma_play k sfud ct len s = Inr (u, bs) \<Longrightarrow> i2s_stop_flag u \<Longrightarrow> k \<le> j \<Longrightarrow>
   dma_play j sfud ct len s = Inr (u, bs)"
proof (induction k arbitrary: j ct s bs)
  case 0
  then show ?case by (simp add: dma_play_stopped)
next
  case (Suc k)
  then obtain i where j: "j = Suc i" "k \<le> i" by (cases j) auto
  show ?case
  proof (cases "i2s_stop_flag s \<or> len = 0")
    case True
    with Suc.prems j show ?thesis by auto
  next
    case False
    with Suc.prems(1) obtain t e ds where t: "DMA1_Stream4_IRQHandler sfud s = Inr (t, e)"
      "dma_play k sfud (1 - ct) len t = Inr (u, ds)" "bs = take (2 * unat len) (dma_buffer ct s) @ ds"
      by (auto simp: rbind_eq_Inr)
    show ?thesis using False j(1) t Suc.IH [OF t(2) Suc.prems(2) j(2)] by simp
  qed
qed

text \<open>Once nothing is left to refill, the next interrupt ends the playing.\<close>

lemma handler_stops:
  assumes "using_mem_buff s = 2" "\<not> i2s_stop_flag s"
  shows "\<exists>t. DMA1_Stream4_IRQHandler sfud s = Inr (t, [Dma_off, Speaker False]) \<and> i2s_stop_flag t"
  using assms by (simp add: DMA1_Stream4_IRQHandler_def i2s_dma_finish_handler_def i2s_play_stop_def Let_def)

lemma play_final:
  assumes "using_mem_buff s = 2" "\<not> i2s_stop_flag s" "len \<noteq> 0"
  shows "\<exists>t. dma_play 1 sfud ct len s = Inr (t, take (2 * unat len) (dma_buffer ct s)) \<and> i2s_stop_flag t"
proof -
  obtain t where "DMA1_Stream4_IRQHandler sfud s = Inr (t, [Dma_off, Speaker False])" "i2s_stop_flag t"
    using handler_stops [OF assms(1,2)] by blast
  then show ?thesis using assms by simp
qed

lemma div_add_blocks: "(x + c * 1024) div 1024 = c + x div (1024 :: nat)"
  by simp

lemma length_dma_buffer: "voice_ok s \<Longrightarrow> length (dma_buffer b s) = 1024"
  by (simp add: dma_buffer_def voice_ok_def)

text \<open>With full transfers the two buffers are played as they are, then every refill but the one that
  empties the remaining size.\<close>

lemma play_rest:
  assumes sv: "serves sfud flash"
  shows "voice_ok s \<Longrightarrow> \<not> i2s_stop_flag s \<Longrightarrow> using_mem_buff s = of_nat b \<Longrightarrow> b < 2 \<Longrightarrow>
    \<exists>k t. k \<le> unat (vp_remain_size s) div 1024 + 2 \<and> i2s_stop_flag t \<and>
      dma_play k sfud b 512 s = Inr (t, dma_buffer b s @ dma_buffer (1 - b) s @
        flash_bytes flash (next_addr s) (1024 * ((unat (vp_remain_size s) - 1) div 1024)))"
proof (induction "unat (vp_remain_size s)" arbitrary: s b rule: less_induct)
  case less
  let ?R = "unat (vp_remain_size s)"
  obtain t e where t: "refill sfud b (of_nat (1 - b)) s = Inr (t, e)" "voice_ok t"
    "unat (vp_remain_size t) = ?R - min 1024 ?R"
    "using_mem_buff t = (if vp_remain_size t = 0 then 2 else of_nat (1 - b))"
    "vp_start_addr t = vp_start_addr s" "i2s_stop_flag t = i2s_stop_flag s"
    "loaded_size t = loaded_size s + min 1024 ?R"
    "dma_buffer b t = flash_bytes flash (next_addr s) (min 1024 ?R) @ drop (min 1024 ?R) (dma_buffer b s)"
    "\<forall>c. (c = 0) \<noteq> (b = 0) \<longrightarrow> dma_buffer c t = dma_buffer c s"
    using refill_ok [OF less.prems(1) sv, of b "of_nat (1 - b)"] by blast
  have irq: "DMA1_Stream4_IRQHandler sfud s = Inr (t, e)"
    using handler_refills [OF less.prems(2-4)] t(1) by simp
  have other: "dma_buffer (1 - b) t = dma_buffer (1 - b) s" using t(9) [rule_format, of "1 - b"] less.prems(4) by (auto simp: Suc_le_eq)
  have len: "length (dma_buffer b s) = 1024" "length (dma_buffer (1 - b) s) = 1024"
    using less.prems(1) by (simp_all add: length_dma_buffer)
  show ?case
  proof (cases "?R \<le> 1024")
    case True
    then have "using_mem_buff t = 2" "\<not> i2s_stop_flag t" "(?R - 1) div 1024 = 0"
      using t less.prems by (simp_all add: unat_eq_zero)
    moreover have "take (2 * unat (512 :: u32)) (dma_buffer (1 - b) t) = dma_buffer (1 - b) s"
      unfolding other using len by simp
    moreover have "(512 :: u32) \<noteq> 0" by simp
    moreover obtain u where "dma_play 1 sfud (1 - b) 512 t = Inr (u, dma_buffer (1 - b) s)" "i2s_stop_flag u"
      using play_final [OF calculation(1,2,5), of sfud "1 - b"] unfolding calculation(4) by blast
    ultimately show ?thesis
      using less.prems(2) len by (intro exI [of _ "Suc 1"] exI [of _ u]) (simp add: irq)
  next
    case False
    have nz: "vp_remain_size t \<noteq> 0" and lt: "unat (vp_remain_size t) < ?R" using False t(3) by auto
    have b1: "1 - b < 2" "\<not> i2s_stop_flag t" "using_mem_buff t = of_nat (1 - b)" "1 - (1 - b) = b"
      using nz t less.prems by auto
    obtain k u where u: "k \<le> unat (vp_remain_size t) div 1024 + 2" "i2s_stop_flag u"
      "dma_play k sfud (1 - b) 512 t = Inr (u, dma_buffer (1 - b) t @ dma_buffer b t @
        flash_bytes flash (next_addr t) (1024 * ((unat (vp_remain_size t) - 1) div 1024)))"
      using less.hyps [OF lt t(2) b1(2,3,1)] unfolding b1(4) by blast
    have R: "?R = 1024 + unat (vp_remain_size t)" "0 < unat (vp_remain_size t)"
      using False t(3) by simp_all
    have addr: "next_addr t = next_addr s + of_nat 1024"
      using False t by (simp add: next_addr_eq [OF t(2)] next_addr_eq [OF less.prems(1)])
    have fresh: "dma_buffer b t = flash_bytes flash (next_addr s) 1024" using t(8) False len by simp
    have split: "?R - 1 = unat (vp_remain_size t) - 1 + 1 * 1024" using R by simp
    have "(?R - 1) div 1024 = 1 + (unat (vp_remain_size t) - 1) div 1024"
      unfolding split div_add_blocks ..
    then have "flash_bytes flash (next_addr s) (1024 * ((?R - 1) div 1024)) = dma_buffer b t @
        flash_bytes flash (next_addr t) (1024 * ((unat (vp_remain_size t) - 1) div 1024))"
      unfolding fresh addr flash_bytes_append by simp
    moreover have "dma_play (Suc k) sfud b 512 s = Inr (u, dma_buffer b s @ dma_buffer (1 - b) t @ dma_buffer b t @
        flash_bytes flash (next_addr t) (1024 * ((unat (vp_remain_size t) - 1) div 1024)))"
      using u(3) less.prems(2) len by (simp add: irq)
    moreover have "Suc k \<le> ?R div 1024 + 2" using u(1) R by simp
    ultimately show ?thesis using u(2) unfolding other by metis
  qed
qed

text \<open>How much of a voice of \<open>n\<close> bytes is played: up to 2048 bytes, all of it (but for an odd last byte of
  a voice below 1024); above that, the chunk that the last refill loads is cut off, because the next
  interrupt finds nothing left to refill and stops the DMA.\<close>

definition played_size :: "nat \<Rightarrow> nat" where
  "played_size n = (if n < 1024 then 2 * (n div 2) else if n \<le> 2048 then n else 1024 * ((n - 1) div 1024))"

text \<open>The second buffer is always played in full, so a voice of 1024 to 2048 bytes is followed by
  what that buffer held before.\<close>

definition played_tail :: "nat \<Rightarrow> bytes \<Rightarrow> bytes" where
  "played_tail n old = (if 1024 \<le> n \<and> n \<le> 2048 then drop (n - 1024) old else [])"

theorem play_voice_plays:
  assumes sv: "serves sfud flash" and idx: "unat idx < length (voice_table s)"
    and buf: "length (i2s_buffer0 s) = 1024" "length (i2s_buffer1 s) = 1024"
    and info: "voice_table s ! unat idx = \<lparr> vi_start_addr = a, vi_size = n \<rparr>" and n: "2 \<le> unat n"
  shows "\<exists>s1 e1 s2. play_voice_start sfud idx s = Inr (s1, e1) \<and> i2s_stop_flag s2 \<and>
    (\<forall>k \<ge> unat n div 1024 + 2. dma_play k sfud 0 (transmit_data_length s1) s1 =
       Inr (s2, flash_bytes flash a (played_size (unat n)) @ played_tail (unat n) (i2s_buffer1 s)))"
proof -
  obtain s1 e1 where s1: "play_voice_start sfud idx s = Inr (s1, e1)" "voice_ok s1" "\<not> i2s_stop_flag s1"
    "using_mem_buff s1 = (if 1024 \<le> unat n then 0 else 2)" "vp_start_addr s1 = a" "vp_total_size s1 = n"
    "unat (vp_remain_size s1) = unat n - 2048"
    "transmit_data_length s1 = (if 1024 \<le> unat n then 512 else n div 2)"
    "i2s_buffer0 s1 = flash_bytes flash a (min 1024 (unat n)) @ drop (unat n) (i2s_buffer0 s)"
    "i2s_buffer1 s1 = (if 1024 \<le> unat n then flash_bytes flash (a + 1024) (min 1024 (unat n - 1024)) @
        drop (unat n - 1024) (i2s_buffer1 s) else i2s_buffer1 s)"
    using start_loads [OF sv idx buf] unfolding info voice_info.select_convs by blast
  have "\<exists>k s2. k \<le> unat n div 1024 + 2 \<and> i2s_stop_flag s2 \<and> dma_play k sfud 0 (transmit_data_length s1) s1 =
       Inr (s2, flash_bytes flash a (played_size (unat n)) @ played_tail (unat n) (i2s_buffer1 s))"
  proof (cases "1024 \<le> unat n")
    case False
    have half: "unat (n div 2) = unat n div 2" by (simp add: unat_div)
    then have "n div 2 \<noteq> 0" using n by (auto simp flip: unat_eq_0)
    moreover have "take (2 * (unat n div 2)) (i2s_buffer0 s1) = flash_bytes flash a (played_size (unat n))"
      using False s1(9) by (simp add: played_size_def flash_bytes_def take_map min_def)
    moreover have "played_tail (unat n) (i2s_buffer1 s) = []" using False by (simp add: played_tail_def)
    ultimately show ?thesis
      using play_final [of s1 "n div 2" sfud 0] s1(3,4,8) False half
      by (intro exI [of _ 1]) auto
  next
    case True
    then have "using_mem_buff s1 = of_nat 0" using s1(4) by simp
    from play_rest [OF sv s1(2,3) this] obtain k s2 where k: "k \<le> (unat n - 2048) div 1024 + 2" "i2s_stop_flag s2"
      "dma_play k sfud 0 512 s1 = Inr (s2, i2s_buffer0 s1 @ i2s_buffer1 s1 @
        flash_bytes flash (next_addr s1) (1024 * ((unat n - 2048 - 1) div 1024)))"
      by (auto simp: s1(7))
    have "k \<le> unat n div 1024 + 2" using k(1) div_le_mono [of "unat n - 2048" "unat n" 1024] by simp
    moreover have "i2s_buffer0 s1 @ i2s_buffer1 s1 @
        flash_bytes flash (next_addr s1) (1024 * ((unat n - 2048 - 1) div 1024)) =
        flash_bytes flash a (played_size (unat n)) @ played_tail (unat n) (i2s_buffer1 s)"
    proof (cases "unat n \<le> 2048")
      case le: True
      then show ?thesis
        using True s1(9,10) buf(1) flash_bytes_append [of flash a 1024 "unat n - 1024"]
        by (simp add: played_size_def played_tail_def flip: append_assoc)
    next
      case gt: False
      have addr: "next_addr s1 = a + of_nat 2048"
        using s1 gt by (simp add: next_addr_eq [OF s1(2)] loaded_size_def)
      have split: "unat n - 1 = (unat n - 2048 - 1) + 2 * 1024" using gt by simp
      have "2048 + 1024 * ((unat n - 2048 - 1) div 1024) = 1024 * ((unat n - 1) div 1024)"
        unfolding split by (simp only: div_add_blocks distrib_left)
      moreover have "i2s_buffer0 s1 @ i2s_buffer1 s1 = flash_bytes flash a 2048"
        using True gt s1(9,10) buf flash_bytes_append [of flash a 1024 1024] by simp
      ultimately show ?thesis
        using True gt flash_bytes_append [of flash a 2048 "1024 * ((unat n - 2048 - 1) div 1024)"]
        by (simp add: played_size_def played_tail_def addr flip: append_assoc)
    qed
    ultimately show ?thesis using k(2,3) True s1(8) by auto
  qed
  then show ?thesis using s1(1) dma_play_more by meson
qed

text \<open>The code assumes that the DMA starts with memory 0, but the current target is not reset when the DMA is
  stopped. A voice of less than 1024 bytes makes one transfer, so it leaves memory 1 as the target, and a
  second such voice is not heard: its bytes are in memory 0, while memory 1, which the stop has
  cleared, is played.\<close>

lemma second_short_voice_is_silent:
  assumes sv: "serves sfud flash" and idx: "unat idx < length (voice_table s)"
    and buf: "i2s_buffer0 s = replicate 1024 0" "i2s_buffer1 s = replicate 1024 0"
    and info: "voice_table s ! unat idx = \<lparr> vi_start_addr = a, vi_size = n \<rparr>" and n: "2 \<le> unat n" "unat n < 1024"
  shows "\<exists>s1 e1 s2. play_voice_start sfud idx s = Inr (s1, e1) \<and> i2s_stop_flag s2 \<and>
    dma_play 1 sfud 1 (transmit_data_length s1) s1 = Inr (s2, replicate (2 * (unat n div 2)) 0)"
proof -
  obtain s1 e1 where s1: "play_voice_start sfud idx s = Inr (s1, e1)" "\<not> i2s_stop_flag s1"
    "using_mem_buff s1 = (if 1024 \<le> unat n then 0 else 2)"
    "transmit_data_length s1 = (if 1024 \<le> unat n then 512 else n div 2)"
    "i2s_buffer1 s1 = (if 1024 \<le> unat n then flash_bytes flash (a + 1024) (min 1024 (unat n - 1024)) @
        drop (unat n - 1024) (i2s_buffer1 s) else i2s_buffer1 s)"
    using start_loads [OF sv idx, unfolded buf length_replicate, OF refl refl] unfolding info voice_info.select_convs buf
    by blast
  have half: "unat (n div 2) = unat n div 2" by (simp add: unat_div)
  then have "n div 2 \<noteq> 0" using n by (auto simp flip: unat_eq_0)
  moreover have "take (2 * (unat n div 2)) (replicate 1024 (0 :: u8)) = replicate (2 * (unat n div 2)) 0"
    using n by (simp add: min_def)
  ultimately show ?thesis
    using play_final [of s1 "n div 2" sfud 1] s1 n(2) half buf(2) by (simp add: dma_buffer_def) metis
qed

definition sample_voice :: voice where
  "sample_voice = \<lparr> voice_count = 1, voice_table = [\<lparr> vi_start_addr = 0x2000, vi_size = 5000 \<rparr>],
     vp_index = 0, vp_start_addr = 0, vp_total_size = 0, vp_remain_size = 0,
     i2s_buffer0 = replicate 1024 0, i2s_buffer1 = replicate 1024 0, using_mem_buff = 0,
     send_dual_byte = 0, transmit_data_length = 0, i2s_stop_flag = False \<rparr>"

end
