(* ===== verification/Tas2505.thy ===== *)
theory Tas2505
  imports Prelude
begin

text \<open>
  \<^verbatim>\<open>hw_Periph/tas2505.c\<close>: the audio amplifier behind an I2C bus, and the sample-rate table of
  \<^verbatim>\<open>i2s_dma.c\<close>. Each configuration routine of the amplifier writes a list of registers and gives
  up at the first transfer that fails. The I2C bus driver is an argument: the number of messages
  \<^verbatim>\<open>rt_i2c_transfer\<close> reports as transferred may depend on everything that happened on the pins and
  the bus before.
\<close>

section \<open>Bus and registers\<close>

datatype tas_event =
    Reg_write u8 u8
  | Reg_address u8
  | Reg_read u8
  | Reset_pin_output
  | Reset_pin bool
  | Delay_ms nat

text \<open>The history, latest event last, up to the transfer in question.\<close>

type_synonym i2c_bus = "tas_event list \<Rightarrow> nat"

definition TAS2505_REG_PAGE_SELECT :: u8 where "TAS2505_REG_PAGE_SELECT = 0"
definition TAS2505_REG_SOFTRESET :: u8 where "TAS2505_REG_SOFTRESET = 0x01"
definition TAS2505_REG_LDO_CTL :: u8 where "TAS2505_REG_LDO_CTL = 0x02"
definition TAS2505_REG_CLOCK_1 :: u8 where "TAS2505_REG_CLOCK_1 = 0x04"
definition TAS2505_REG_CLOCK_2 :: u8 where "TAS2505_REG_CLOCK_2 = 0x05"
definition TAS2505_REG_CLOCK_3 :: u8 where "TAS2505_REG_CLOCK_3 = 0x06"
definition TAS2505_REG_CLOCK_4 :: u8 where "TAS2505_REG_CLOCK_4 = 0x07"
definition TAS2505_REG_CLOCK_5 :: u8 where "TAS2505_REG_CLOCK_5 = 0x08"
definition TAS2505_REG_CLOCK_6 :: u8 where "TAS2505_REG_CLOCK_6 = 0x0B"
definition TAS2505_REG_CLOCK_7 :: u8 where "TAS2505_REG_CLOCK_7 = 0x0C"
definition TAS2505_REG_DAC_OSR_1 :: u8 where "TAS2505_REG_DAC_OSR_1 = 0x0D"
definition TAS2505_REG_DAC_OSR_2 :: u8 where "TAS2505_REG_DAC_OSR_2 = 0x0E"
definition TAS2505_REG_AUDIO_1 :: u8 where "TAS2505_REG_AUDIO_1 = 0x1B"
definition TAS2505_REG_AUDIO_2 :: u8 where "TAS2505_REG_AUDIO_2 = 0x1C"
definition TAS2505_REG_DAC_INSTRUCTION :: u8 where "TAS2505_REG_DAC_INSTRUCTION = 0x3C"
definition TAS2505_REG_DAC_CHN_SET_1 :: u8 where "TAS2505_REG_DAC_CHN_SET_1 = 0x3F"
definition TAS2505_REG_DAC_CHN_SET_2 :: u8 where "TAS2505_REG_DAC_CHN_SET_2 = 0x40"
definition TAS2505_REG_DAC_CHN_VOL_CTL :: u8 where "TAS2505_REG_DAC_CHN_VOL_CTL = 0x41"
definition TAS2505_REG_SPEAKER_AMP_CTL_1 :: u8 where "TAS2505_REG_SPEAKER_AMP_CTL_1 = 0x2D"
definition TAS2505_REG_SPEAKER_AMP_CTL_2 :: u8 where "TAS2505_REG_SPEAKER_AMP_CTL_2 = 0x30"
definition TAS2505_REG_SPEAKER_VOL_CTL_1 :: u8 where "TAS2505_REG_SPEAKER_VOL_CTL_1 = 0x2E"
definition TAS2505_REG_RFL_BGAP_CTL :: u8 where "TAS2505_REG_RFL_BGAP_CTL = 0x01"
definition TAS2505_REG_COMM_MODE_CTL :: u8 where "TAS2505_REG_COMM_MODE_CTL = 0x0A"

lemmas tas_regs =
  TAS2505_REG_PAGE_SELECT_def TAS2505_REG_SOFTRESET_def TAS2505_REG_LDO_CTL_def
  TAS2505_REG_CLOCK_1_def TAS2505_REG_CLOCK_2_def TAS2505_REG_CLOCK_3_def TAS2505_REG_CLOCK_4_def
  TAS2505_REG_CLOCK_5_def TAS2505_REG_CLOCK_6_def TAS2505_REG_CLOCK_7_def
  TAS2505_REG_DAC_OSR_1_def TAS2505_REG_DAC_OSR_2_def TAS2505_REG_AUDIO_1_def TAS2505_REG_AUDIO_2_def
  TAS2505_REG_DAC_INSTRUCTION_def TAS2505_REG_DAC_CHN_SET_1_def TAS2505_REG_DAC_CHN_SET_2_def
  TAS2505_REG_DAC_CHN_VOL_CTL_def TAS2505_REG_SPEAKER_AMP_CTL_1_def TAS2505_REG_SPEAKER_AMP_CTL_2_def
  TAS2505_REG_SPEAKER_VOL_CTL_1_def TAS2505_REG_RFL_BGAP_CTL_def TAS2505_REG_COMM_MODE_CTL_def

section \<open>Operations\<close>

type_synonym tas_log = "tas_event list"

definition tas2505_reg_write :: "i2c_bus \<Rightarrow> u8 \<Rightarrow> u8 \<Rightarrow> tas_log \<Rightarrow> tas_log \<times> rt_err" where
  "tas2505_reg_write bus reg v log =
     (let log = log @ [Reg_write reg v] in (log, if bus log = 1 then RT_EOK else - RT_ERROR))"

text \<open>\<open>rx\<close> is the byte the chip answers with, given the history.\<close>

definition tas2505_reg_read ::
    "i2c_bus \<Rightarrow> (tas_log \<Rightarrow> u8) \<Rightarrow> u8 \<Rightarrow> tas_log \<Rightarrow> tas_log \<times> rt_err \<times> u8 option" where
  "tas2505_reg_read bus rx reg log =
     (let log = log @ [Reg_address reg] in
      if bus log \<noteq> 1 then (log, - RT_ERROR, None)
      else let log = log @ [Reg_read reg] in
           if bus log = 1 then (log, RT_EOK, Some (rx log)) else (log, - RT_ERROR, None))"

definition tas2505_hw_rst :: "tas_log \<Rightarrow> tas_log" where
  "tas2505_hw_rst log =
     log @ [Reset_pin_output, Reset_pin False, Delay_ms 50, Reset_pin True, Delay_ms 100]"

text \<open>The soft reset ignores the results of its writes.\<close>

definition tas2505_soft_rst :: "i2c_bus \<Rightarrow> tas_log \<Rightarrow> tas_log" where
  "tas2505_soft_rst bus log =
     fst (tas2505_reg_write bus TAS2505_REG_LDO_CTL 0
       (fst (tas2505_reg_write bus TAS2505_REG_PAGE_SELECT 1
         (fst (tas2505_reg_write bus TAS2505_REG_SOFTRESET 1
           (fst (tas2505_reg_write bus TAS2505_REG_PAGE_SELECT 0 log)))))))"

text \<open>
  The idiom \<^verbatim>\<open>err = tas2505_reg_write(..); if ((-RT_ERROR) == err) return err;\<close> repeated over a list
  of writes and pauses.
\<close>

fun tas_script :: "i2c_bus \<Rightarrow> tas_event list \<Rightarrow> tas_log \<Rightarrow> tas_log \<times> rt_err" where
  "tas_script bus [] log = (log, RT_EOK)"
| "tas_script bus (Reg_write reg v # es) log =
     (case tas2505_reg_write bus reg v log of
        (log, err) \<Rightarrow> if err = - RT_ERROR then (log, err) else tas_script bus es log)"
| "tas_script bus (e # es) log = tas_script bus es (log @ [e])"

definition tas2505_samplerate_set ::
    "i2c_bus \<Rightarrow> u8 \<Rightarrow> u8 \<Rightarrow> u16 \<Rightarrow> tas_log \<Rightarrow> tas_log \<times> rt_err" where
  "tas2505_samplerate_set bus ndac mdac dsor =
     (let dsor_lsb = ucast (dsor AND 0xff); dsor_msb = ucast (drop_bit 8 dsor AND 0x03) in
      tas_script bus
       [Reg_write TAS2505_REG_PAGE_SELECT 0,
        Reg_write TAS2505_REG_CLOCK_1 0,
        Reg_write TAS2505_REG_CLOCK_6 ndac,
        Reg_write TAS2505_REG_CLOCK_7 mdac,
        Reg_write TAS2505_REG_DAC_OSR_1 dsor_msb,
        Reg_write TAS2505_REG_DAC_OSR_2 dsor_lsb])"

definition codec_config_script :: "tas_event list" where
  "codec_config_script =
     [Reg_write TAS2505_REG_PAGE_SELECT 0,
      Reg_write TAS2505_REG_CLOCK_1 0x03,
      Reg_write TAS2505_REG_CLOCK_2 0x94,
      Reg_write TAS2505_REG_CLOCK_3 0x0e,
      Reg_write TAS2505_REG_CLOCK_4 0x0,
      Reg_write TAS2505_REG_CLOCK_5 0x70,
      Delay_ms 100,
      Reg_write TAS2505_REG_CLOCK_6 0x82,
      Reg_write TAS2505_REG_CLOCK_7 0x87,
      Reg_write TAS2505_REG_DAC_OSR_1 0,
      Reg_write TAS2505_REG_DAC_OSR_2 0x80,
      Reg_write TAS2505_REG_AUDIO_1 0x0,
      Reg_write TAS2505_REG_AUDIO_2 0x0,
      Reg_write TAS2505_REG_DAC_INSTRUCTION 0x02,
      Reg_write TAS2505_REG_PAGE_SELECT 1,
      Reg_write TAS2505_REG_RFL_BGAP_CTL 0x10,
      Reg_write TAS2505_REG_COMM_MODE_CTL 0,
      Reg_write TAS2505_REG_SPEAKER_VOL_CTL_1 0,
      Reg_write TAS2505_REG_SPEAKER_AMP_CTL_2 0x10,
      Reg_write TAS2505_REG_SPEAKER_AMP_CTL_1 0x02]"

definition tas2505_codec_config :: "i2c_bus \<Rightarrow> tas_log \<Rightarrow> tas_log \<times> rt_err" where
  "tas2505_codec_config bus = tas_script bus codec_config_script"

definition codec_enable_script :: "tas_event list" where
  "codec_enable_script =
     [Reg_write TAS2505_REG_PAGE_SELECT 0,
      Reg_write TAS2505_REG_DAC_CHN_SET_1 0x90,
      Reg_write TAS2505_REG_DAC_CHN_VOL_CTL 0x20,
      Reg_write TAS2505_REG_DAC_CHN_SET_2 0x04]"

definition tas2505_codec_enable :: "i2c_bus \<Rightarrow> tas_log \<Rightarrow> tas_log \<times> rt_err" where
  "tas2505_codec_enable bus = tas_script bus codec_enable_script"

definition tas2505_volume_config :: "i2c_bus \<Rightarrow> u8 \<Rightarrow> tas_log \<Rightarrow> tas_log \<times> rt_err" where
  "tas2505_volume_config bus volume =
     tas_script bus [Reg_write TAS2505_REG_PAGE_SELECT 1, Reg_write TAS2505_REG_SPEAKER_VOL_CTL_1 volume]"

definition tas2505_analog_set :: "i2c_bus \<Rightarrow> u8 \<Rightarrow> tas_log \<Rightarrow> tas_log \<times> rt_err" where
  "tas2505_analog_set bus volume =
     tas_script bus
       [Reg_write TAS2505_REG_PAGE_SELECT 1,
        Reg_write TAS2505_REG_RFL_BGAP_CTL 0x10,
        Reg_write TAS2505_REG_COMM_MODE_CTL 0x00,
        Reg_write TAS2505_REG_SPEAKER_VOL_CTL_1 0x00,
        Reg_write TAS2505_REG_SPEAKER_AMP_CTL_2 0x10,
        Reg_write TAS2505_REG_SPEAKER_AMP_CTL_1 0x02]"

definition tas2505_output_set :: "i2c_bus \<Rightarrow> bool \<Rightarrow> tas_log \<Rightarrow> tas_log \<times> rt_err" where
  "tas2505_output_set bus mode =
     tas_script bus
       [Reg_write TAS2505_REG_PAGE_SELECT 1,
        Reg_write TAS2505_REG_SPEAKER_AMP_CTL_1 (if mode then 0x02 else 0x00)]"

definition tas2505_init :: "i2c_bus \<Rightarrow> tas_log \<Rightarrow> tas_log \<times> rt_err" where
  "tas2505_init bus log =
     (case tas2505_codec_config bus (tas2505_soft_rst bus (tas2505_hw_rst log)) of
        (log, err) \<Rightarrow> if err = - RT_ERROR then (log, err) else tas2505_codec_enable bus log)"

section \<open>Scripts stop at the first failure\<close>

text \<open>The bus takes every write of \<open>es\<close>, done one after the other after the history \<open>log\<close>.\<close>

fun accepted :: "i2c_bus \<Rightarrow> tas_log \<Rightarrow> tas_event list \<Rightarrow> bool" where
  "accepted bus log [] = True"
| "accepted bus log (Reg_write r v # es) \<longleftrightarrow>
     bus (log @ [Reg_write r v]) = 1 \<and> accepted bus (log @ [Reg_write r v]) es"
| "accepted bus log (e # es) \<longleftrightarrow> accepted bus (log @ [e]) es"

lemma tas_script_accepted: "accepted bus log es \<Longrightarrow> tas_script bus es log = (log @ es, 0)"
  by (induction bus log es rule: accepted.induct) (auto simp: tas2505_reg_write_def)

lemma tas_script_step:
  obtains (go) "tas_script bus (e # es) log = tas_script bus es (log @ [e])"
      "\<And>pre. accepted bus log (e # pre) \<longleftrightarrow> accepted bus (log @ [e]) pre"
  | (stop) r v where "e = Reg_write r v" "bus (log @ [e]) \<noteq> 1"
      "tas_script bus (e # es) log = (log @ [e], -1)"
      "\<And>pre. \<not> accepted bus log (e # pre)"
  by (cases e; cases "bus (log @ [e]) = 1") (auto simp: tas2505_reg_write_def Let_def)

lemma tas_script_append:
  "tas_script bus (es @ fs) log =
     (case tas_script bus es log of (log', err) \<Rightarrow> if err = 0 then tas_script bus fs log' else (log', err))"
proof (induction es arbitrary: log)
  case (Cons e es)
  show ?case
    by (cases e; cases "bus (log @ [e]) = 1") (auto simp: tas2505_reg_write_def Let_def Cons.IH)
qed simp

text \<open>The complete description of a routine of this shape: all or everything up to the first refusal.\<close>

definition stopped :: "i2c_bus \<Rightarrow> tas_event list \<Rightarrow> tas_log \<Rightarrow> tas_log \<Rightarrow> bool" where
  "stopped bus es log log' \<longleftrightarrow>
     (\<exists>pre r v post. es = pre @ Reg_write r v # post \<and> accepted bus log pre \<and>
        log' = log @ pre @ [Reg_write r v] \<and> bus log' \<noteq> 1)"

lemma stopped_Cons:
  assumes "stopped bus es (log @ [e]) log'"
    and acc: "\<And>pre. accepted bus log (e # pre) \<longleftrightarrow> accepted bus (log @ [e]) pre"
  shows "stopped bus (e # es) log log'"
proof -
  from assms(1) obtain pre r v post where p: "es = pre @ Reg_write r v # post"
    "accepted bus (log @ [e]) pre" "log' = (log @ [e]) @ pre @ [Reg_write r v]" "bus log' \<noteq> 1"
    by (auto simp: stopped_def)
  then have "e # es = (e # pre) @ Reg_write r v # post" "accepted bus log (e # pre)"
    "log' = log @ (e # pre) @ [Reg_write r v]" by (simp_all only: acc) simp_all
  with p(4) show ?thesis unfolding stopped_def by blast
qed

lemma tas_script_outcome:
  "tas_script bus es log = (log', err) \<Longrightarrow>
   (err = 0 \<and> log' = log @ es \<and> accepted bus log es) \<or> (err = -1 \<and> stopped bus es log log')"
proof (induction es arbitrary: log)
  case (Cons e es)
  show ?case
  proof (rule tas_script_step [of bus e es log])
    assume go: "tas_script bus (e # es) log = tas_script bus es (log @ [e])"
      and acc: "\<And>pre. accepted bus log (e # pre) \<longleftrightarrow> accepted bus (log @ [e]) pre"
    from Cons.IH [of "log @ [e]"] Cons.prems go stopped_Cons [OF _ acc, of es log'] show ?thesis
      by (auto simp: acc)
  next
    fix r v assume e: "e = Reg_write r v" "bus (log @ [e]) \<noteq> 1"
      and stop: "tas_script bus (e # es) log = (log @ [e], -1)"
    have "stopped bus (e # es) log (log @ [e])"
      unfolding stopped_def using e by (intro exI [of _ "[]"] exI [of _ r] exI [of _ v] exI [of _ es]) simp
    then show ?thesis using stop Cons.prems by simp
  qed
qed simp

section \<open>The register file of the chip\<close>

text \<open>What the writes mean to the chip: register 0 selects the page, the other registers live in the
  selected page.\<close>

fun chip_after :: "tas_event list \<Rightarrow> u8 \<times> (u8 \<times> u8 \<Rightarrow> u8 option) \<Rightarrow> u8 \<times> (u8 \<times> u8 \<Rightarrow> u8 option)" where
  "chip_after [] c = c"
| "chip_after (Reg_write r v # es) (page, regs) =
     chip_after es (if r = 0 then (v, regs) else (page, regs((page, r) := Some v)))"
| "chip_after (_ # es) c = chip_after es c"

lemma chip_after_append: "chip_after (es @ fs) c = chip_after fs (chip_after es c)"
  by (induction es c rule: chip_after.induct) auto

lemma tas_init_accepted:
  assumes "\<And>l. bus l = 1"
  shows "tas2505_init bus log = (tas2505_soft_rst bus (tas2505_hw_rst log) @ codec_config_script @ codec_enable_script, 0)"
proof -
  have "accepted bus log es" for log es
  proof (induction es arbitrary: log)
    case (Cons e es)
    then show ?case by (cases e) (simp_all add: assms)
  qed simp
  then show ?thesis
    by (simp add: tas2505_init_def tas2505_codec_config_def tas2505_codec_enable_def tas_script_accepted)
qed

section \<open>Properties\<close>

text \<open>C40: Initialising the amplifier either reports success, and then the bus has taken the whole
  configuration and enable sequence in order, or reports an error, and then the last event is
  the first write of that sequence the bus refused: nothing is written after a failure.\<close>

theorem tas2505_init_stops_at_failure:
  "tas2505_init bus log = (log', err) \<Longrightarrow>
   let start = tas2505_soft_rst bus (tas2505_hw_rst log);
       script = codec_config_script @ codec_enable_script in
   (err = 0 \<and> log' = start @ script \<and> accepted bus start script) \<or>
   (err = -1 \<and> (\<exists>pre r v post. script = pre @ Reg_write r v # post \<and> accepted bus start pre \<and>
      log' = start @ pre @ [Reg_write r v] \<and> bus log' \<noteq> 1))"
proof -
  assume init: "tas2505_init bus log = (log', err)"
  let ?start = "tas2505_soft_rst bus (tas2505_hw_rst log)"
  have "snd (tas_script bus codec_config_script ?start) = 0 \<or> snd (tas_script bus codec_config_script ?start) = -1"
    using tas_script_outcome [of bus codec_config_script ?start] by (cases "tas_script bus codec_config_script ?start") auto
  then have "tas_script bus (codec_config_script @ codec_enable_script) ?start = (log', err)"
    using init unfolding tas_script_append
    by (auto simp: tas2505_init_def tas2505_codec_config_def tas2505_codec_enable_def split: prod.splits)
  from tas_script_outcome [OF this] show ?thesis by (simp add: Let_def stopped_def)
qed

theorem tas2505_init_stops_at_failure_witness:
  "\<exists>log' err. tas2505_init (\<lambda>l. if length l < 12 then 1 else 0) [] = (log', err) \<and>
     (err = 0 \<or> err = -1)"
proof -
  obtain log' err where "tas2505_init (\<lambda>l. if length l < 12 then 1 else 0) [] = (log', err)"
    by (cases "tas2505_init (\<lambda>l. if length l < 12 then 1 else 0) []")
  with tas2505_init_stops_at_failure [OF this] show ?thesis by (auto simp: Let_def)
qed

text \<open>On a working bus the initialisation succeeds and leaves the chip, whatever state it was in,
  with the PLL as codec clock (P1 R4, J14, D112), dividers 2 and 7, the channel unmuted, the speaker
  amplifier on, and page 0 selected; switching the output off or on afterwards then only changes
  the speaker amplifier register of page 1.\<close>

theorem tas2505_init_configures:
  "(\<And>l. bus l = 1) \<Longrightarrow> tas2505_init bus log = (log', err) \<Longrightarrow> chip_after log' c = (page, regs) \<Longrightarrow>
   err = 0 \<and> page = 0 \<and> regs (0, 0x04) = Some 0x03 \<and> regs (0, 0x05) = Some 0x94 \<and>
   regs (0, 0x06) = Some 0x0e \<and> regs (0, 0x07) = Some 0 \<and> regs (0, 0x08) = Some 0x70 \<and>
   regs (0, 0x0B) = Some 0x82 \<and> regs (0, 0x0C) = Some 0x87 \<and> regs (0, 0x40) = Some 0x04 \<and>
   regs (1, 0x2D) = Some 0x02 \<and>
   chip_after (fst (tas2505_output_set bus m log')) c =
     (1, regs((1, 0x2D) := Some (if m then 0x02 else 0)))"
proof -
  assume bus: "\<And>l. bus l = 1" and init: "tas2505_init bus log = (log', err)"
    and chip: "chip_after log' c = (page, regs)"
  have log': "log' = tas2505_soft_rst bus (tas2505_hw_rst log) @ codec_config_script @ codec_enable_script"
    and err: "err = 0"
    using tas_init_accepted [of bus log] bus init by simp_all
  obtain p0 r0 where c0: "chip_after (tas2505_soft_rst bus (tas2505_hw_rst log)) c = (p0, r0)"
    by (cases "chip_after (tas2505_soft_rst bus (tas2505_hw_rst log)) c")
  have regs: "(page, regs) = chip_after (codec_config_script @ codec_enable_script) (p0, r0)"
    using chip c0 by (simp add: log' chip_after_append)
  have out: "fst (tas2505_output_set bus m log') = log' @ [Reg_write TAS2505_REG_PAGE_SELECT 1,
      Reg_write TAS2505_REG_SPEAKER_AMP_CTL_1 (if m then 0x02 else 0)]"
    by (simp add: tas2505_output_set_def tas2505_reg_write_def bus)
  show ?thesis
    using regs chip unfolding out
    by (simp add: err chip_after_append codec_config_script_def codec_enable_script_def tas_regs)
qed

end
