(* ===== verification/I2sClock.thy ===== *)
theory I2sClock
  imports Prelude
begin

text \<open>
  \<^verbatim>\<open>i2s_dma.c\<close>: the sample-rate table and \<^verbatim>\<open>i2s2_samplerate_set\<close>. The registers the function
  writes are the state; whether the PLL ever reports ready is an argument, because the code polls
  the ready bit without a bound.
\<close>

record samplerate_member =
  samplerate_div_10 :: u16
  plli2sn :: u16
  plli2sr :: u16
  i2sdiv :: u16
  i2s_odd :: u16

definition sr :: "u16 \<Rightarrow> u16 \<Rightarrow> u16 \<Rightarrow> u16 \<Rightarrow> u16 \<Rightarrow> samplerate_member" where
  "sr s n r d od = \<lparr> samplerate_div_10 = s, plli2sn = n, plli2sr = r, i2sdiv = d, i2s_odd = od \<rparr>"

definition i2s_psc_tbl :: "samplerate_member list" where
  "i2s_psc_tbl =
     [sr 800 256 5 12 1, sr 1102 429 4 19 0, sr 1600 213 2 13 0, sr 2205 429 4 9 1,
      sr 3200 213 2 6 1, sr 4410 271 2 6 0, sr 4800 258 3 3 1, sr 8820 316 2 3 1,
      sr 9600 344 2 3 1, sr 17640 361 2 2 0, sr 19200 393 2 2 0]"

record i2s_regs =
  pll_n :: u32
  pll_r :: u32
  rcc_cr :: u32
  spi_i2spr :: u32

text \<open>The search loop: the index of the first match, or the number of rows.\<close>

fun find_rate :: "samplerate_member list \<Rightarrow> u32 \<Rightarrow> nat" where
  "find_rate [] rate = 0"
| "find_rate (m # ms) rate =
     (if ucast (samplerate_div_10 m) = rate div 10 then 0 else Suc (find_rate ms rate))"

definition i2s2_samplerate_set :: "bool \<Rightarrow> u32 \<Rightarrow> i2s_regs \<Rightarrow> (i2s_regs \<times> u8) option" where
  "i2s2_samplerate_set pll_ready samplerate g =
     (let i = find_rate i2s_psc_tbl samplerate in
      if i = length i2s_psc_tbl then Some (g, 1)
      else
        let m = i2s_psc_tbl ! i;
            g = g\<lparr> pll_n := ucast (plli2sn m), pll_r := ucast (plli2sr m) \<rparr>;
            g = g\<lparr> rcc_cr := rcc_cr g OR push_bit 26 1 \<rparr> in
        if \<not> pll_ready then None
        else Some (g\<lparr> spi_i2spr := push_bit 0 (ucast (i2sdiv m)) OR push_bit 8 (ucast (i2s_odd m)) OR
                                   push_bit 9 1 \<rparr>, 0))"

section \<open>Rates\<close>

text \<open>With the 1 MHz reference of the board (\<^verbatim>\<open>HSE/pllm\<close>) the bit clock gives the rate
  \<open>10^6 * N / (R * 256 * (2 * DIV + ODD))\<close>. A row is accurate to one part in \<open>k\<close> when the generated
  rate deviates from \<open>hz\<close> by at most \<open>hz / k\<close>.\<close>

definition rate_num :: "samplerate_member \<Rightarrow> int" where
  "rate_num m = 10 ^ 6 * uint (plli2sn m)"

definition rate_den :: "samplerate_member \<Rightarrow> int" where
  "rate_den m = uint (plli2sr m) * 256 * (2 * uint (i2sdiv m) + uint (i2s_odd m))"

definition accurate :: "int \<Rightarrow> int \<Rightarrow> samplerate_member \<Rightarrow> bool" where
  "accurate k hz m \<longleftrightarrow> k * abs (rate_num m - hz * rate_den m) \<le> hz * rate_den m"

lemma table_accurate:
  "\<forall>m \<in> set i2s_psc_tbl. accurate 500 (10 * uint (samplerate_div_10 m)) m \<and>
     192 \<le> plli2sn m \<and> plli2sn m \<le> 432 \<and> 2 \<le> plli2sr m \<and> plli2sr m \<le> 7 \<and>
     2 \<le> i2sdiv m \<and> i2sdiv m \<le> 255 \<and> i2s_odd m \<le> 1"
  by (simp add: i2s_psc_tbl_def sr_def accurate_def rate_num_def rate_den_def word_le_nat_alt)

lemma find_rate_le: "find_rate ms rate \<le> length ms"
  by (induction ms) auto

lemma find_rate_match:
  "find_rate ms rate < length ms \<Longrightarrow> ucast (samplerate_div_10 (ms ! find_rate ms rate)) = rate div 10"
  by (induction ms) (auto split: if_splits)

lemma find_rate_absent:
  "find_rate ms rate = length ms \<longleftrightarrow> (\<forall>m \<in> set ms. ucast (samplerate_div_10 m) \<noteq> rate div 10)"
  by (induction ms) auto

section \<open>Accuracy\<close>

text \<open>A rate that is not in the table (the comparison ignores the last decimal digit) is refused
  with 1 and no register is touched. A rate in the table programs the PLL and the prescaler within the
  limits of the data sheet, so that the generated rate is within 0.2 percent of the table's rate, with
  the master clock output enabled, and returns 0 once the PLL is ready.\<close>

theorem i2s2_samplerate_set_accurate:
  "(if rate div 10 \<notin> (\<lambda>m. ucast (samplerate_div_10 m)) ` set i2s_psc_tbl
    then i2s2_samplerate_set True rate g = Some (g, 1)
    else \<exists>m g'. m \<in> set i2s_psc_tbl \<and> ucast (samplerate_div_10 m) = rate div 10 \<and>
      i2s2_samplerate_set True rate g = Some (g', 0) \<and>
      pll_n g' = ucast (plli2sn m) \<and> pll_r g' = ucast (plli2sr m) \<and>
      spi_i2spr g' = ucast (i2sdiv m) OR push_bit 8 (ucast (i2s_odd m)) OR 0x200 \<and>
      accurate 500 (10 * uint (samplerate_div_10 m)) m \<and>
      192 \<le> plli2sn m \<and> plli2sn m \<le> 432 \<and> 2 \<le> plli2sr m \<and> plli2sr m \<le> 7 \<and>
      2 \<le> i2sdiv m \<and> i2sdiv m \<le> 255)"
proof (cases "find_rate i2s_psc_tbl rate = length i2s_psc_tbl")
  case True
  then show ?thesis using find_rate_absent [of i2s_psc_tbl rate]
    by (auto simp: i2s2_samplerate_set_def Let_def)
next
  case False
  then have lt: "find_rate i2s_psc_tbl rate < length i2s_psc_tbl"
    using find_rate_le [of i2s_psc_tbl rate] by simp
  define m where "m = i2s_psc_tbl ! find_rate i2s_psc_tbl rate"
  have m: "m \<in> set i2s_psc_tbl" "ucast (samplerate_div_10 m) = rate div 10"
    using lt find_rate_match [OF lt] by (auto simp: m_def)
  have "rate div 10 \<in> (\<lambda>m. ucast (samplerate_div_10 m)) ` set i2s_psc_tbl"
    unfolding m(2) [symmetric] using m(1) by (rule imageI)
  moreover have "push_bit 9 (1 :: u32) = 0x200" by (simp add: push_bit_eq_mult)
  ultimately show ?thesis
    using m False table_accurate
    by (auto simp: i2s2_samplerate_set_def Let_def or.assoc simp flip: m_def)
qed

end
