(* ===== verification/VoiceInit.thy ===== *)
theory VoiceInit
  imports Voice Tas2505 I2sClock ByteCodec
begin

text \<open>
  The set-up of the voice playback, \<^verbatim>\<open>voice_handler_init\<close> of \<^verbatim>\<open>fun_handler/voice_handler.c\<close>: the header
  of the voice area is read from the flash, the amplifier, the I2S peripheral, its clock and the DMA stream are
  configured. The functions of \<^verbatim>\<open>i2s_dma.c\<close> that only configure the peripherals are the list of events
  they hand to the hardware library. Together with theory \<^verbatim>\<open>Voice\<close> this gives the way from the flash
  image to the bytes that are played.
\<close>

section \<open>State\<close>

datatype i2s_option =
    I2S_MODE_MASTER_TX | I2S_STANDARD_PHILIPS | I2S_DATAFORMAT_16B | I2S_MCLKOUTPUT_ENABLE
  | I2S_AUDIOFREQ_DEFAULT | I2S_CPOL_LOW | I2S_CLOCK_PLL

datatype dma_option =
    DMA_CHANNEL_0 | DMA_MEMORY_TO_PERIPH | DMA_PINC_DISABLE | DMA_MINC_ENABLE | DMA_PDATAALIGN_HALFWORD
  | DMA_MDATAALIGN_HALFWORD | DMA_CIRCULAR | DMA_PRIORITY_HIGH | DMA_FIFOMODE_DISABLE | DMA_MBURST_SINGLE | DMA_PBURST_SINGLE

datatype setup_event =
    Hal_i2s_init "i2s_option list" | Spi_tx_dma_request | I2s_enable | Dma_clock_enable | Link_dma
  | Hal_dma_deinit | Hal_dma_init "dma_option list" | Multi_buffer_start u32 | Dma_disable | Enable_tc_interrupt
  | Clear_tc_flag | Set_irq_priority nat nat | Enable_irq | Write_ndtr u32

text \<open>\<open>dma_instance\<close> says whether \<^verbatim>\<open>m_dma_handler.Instance\<close> points to the stream; it is \<^verbatim>\<open>NULL\<close> at first.\<close>

record voice_system =
  vs_voice :: voice
  vs_regs :: i2s_regs
  vs_codec :: tas_log
  vs_setup :: "setup_event list"
  dma_instance :: bool
  finish_callback :: bool

section \<open>The header of the voice area\<close>

text \<open>The structure \<^verbatim>\<open>voice_header_t\<close> as its bytes, and back; a table of 16 entries makes 132 bytes.\<close>

definition info_bytes :: "voice_info \<Rightarrow> bytes" where
  "info_bytes v = octets_le 4 (vi_start_addr v) @ octets_le 4 (vi_size v)"

definition header_bytes :: "voice \<Rightarrow> bytes" where
  "header_bytes s = octets_le 4 (voice_count s) @ concat (map info_bytes (voice_table s))"

definition word_at :: "bytes \<Rightarrow> nat \<Rightarrow> u32" where
  "word_at bs i = (case uint32_decode (drop i bs) of Inl e \<Rightarrow> 0 | Inr v \<Rightarrow> v)"

definition set_header :: "bytes \<Rightarrow> voice \<Rightarrow> voice" where
  "set_header bs s = s\<lparr> voice_count := word_at bs 0,
     voice_table := map (\<lambda>i. \<lparr> vi_start_addr = word_at bs (4 + 8 * i), vi_size = word_at bs (8 + 8 * i) \<rparr>)
       [0..<length (voice_table s)] \<rparr>"

text \<open>The results of the two reads are dropped by the code.\<close>

definition voice_header_get :: "sfud \<Rightarrow> voice \<Rightarrow> voice res" where
  "voice_header_get sfud s =
     (let bs = snd (w25qxx_read sfud 0 4) in
      rbind (memcpy [0, 0, 0, 0] 0 bs 0 (int (length bs))) (\<lambda>count.
      let bs = snd (w25qxx_read sfud 0 (4 + word_at count 0 * 8)) in
      rbind (memcpy (header_bytes s) 0 bs 0 (int (length bs))) (\<lambda>m. Inr (set_header m s))))"

section \<open>The peripherals\<close>

definition i2s2_init :: "setup_event list" where
  "i2s2_init = [Hal_i2s_init [I2S_MODE_MASTER_TX, I2S_STANDARD_PHILIPS, I2S_DATAFORMAT_16B, I2S_MCLKOUTPUT_ENABLE,
     I2S_AUDIOFREQ_DEFAULT, I2S_CPOL_LOW, I2S_CLOCK_PLL], Spi_tx_dma_request, I2s_enable]"

definition i2s2_tx_dma_init :: "voice_system \<Rightarrow> voice_system" where
  "i2s2_tx_dma_init s = s\<lparr> dma_instance := True, vs_setup := vs_setup s @
     [Dma_clock_enable, Link_dma, Hal_dma_deinit,
      Hal_dma_init [DMA_CHANNEL_0, DMA_MEMORY_TO_PERIPH, DMA_PINC_DISABLE, DMA_MINC_ENABLE, DMA_PDATAALIGN_HALFWORD,
        DMA_MDATAALIGN_HALFWORD, DMA_CIRCULAR, DMA_PRIORITY_HIGH, DMA_FIFOMODE_DISABLE, DMA_MBURST_SINGLE, DMA_PBURST_SINGLE],
      Multi_buffer_start (transmit_data_length (vs_voice s)), Dma_disable, Enable_tc_interrupt, Clear_tc_flag,
      Set_irq_priority 0 0, Enable_irq] \<rparr>"

text \<open>\<^verbatim>\<open>dma_transmit_datalength\<close> with its write through \<^verbatim>\<open>m_dma_handler.Instance\<close>. A write through a
  null pointer is a fault, unless \<open>lenient\<close> says that the platform ignores it.\<close>

definition set_datalength :: "bool \<Rightarrow> u32 \<Rightarrow> voice_system \<Rightarrow> voice_system res" where
  "set_datalength lenient n s =
     (let s = s\<lparr> vs_voice := dma_transmit_datalength n (vs_voice s) \<rparr> in
      if dma_instance s then Inr (s\<lparr> vs_setup := vs_setup s @ [Write_ndtr n] \<rparr>)
      else if lenient then Inr s else Inl Null_pointer)"

text \<open>The result is \<open>None\<close> when the clock never reports ready, where the code waits forever.\<close>

definition voice_handler_init :: "bool \<Rightarrow> i2c_bus \<Rightarrow> bool \<Rightarrow> sfud \<Rightarrow> voice_system \<Rightarrow> voice_system res option" where
  "voice_handler_init lenient bus pll_ready sfud s =
     (case voice_header_get sfud (vs_voice s) of Inl e \<Rightarrow> Some (Inl e)
      | Inr v \<Rightarrow>
          let s = s\<lparr> vs_voice := v, vs_codec := fst (tas2505_init bus (vs_codec s)), vs_setup := vs_setup s @ i2s2_init \<rparr> in
          (case i2s2_samplerate_set pll_ready 11020 (vs_regs s) of None \<Rightarrow> None
           | Some (g, r) \<Rightarrow> Some (rbind (set_datalength lenient (I2S_BUFF_SIZE div 2) (s\<lparr> vs_regs := g \<rparr>)) (\<lambda>s.
               Inr ((i2s2_tx_dma_init s)\<lparr> finish_callback := True \<rparr>)))))"

section \<open>Reading the header\<close>

lemma length_header: "length (header_bytes s) = 4 + 8 * length (voice_table s)"
proof -
  have "length (concat (map info_bytes xs)) = 8 * length xs" for xs
    by (induction xs) (simp_all add: info_bytes_def)
  then show ?thesis by (simp add: header_bytes_def)
qed

lemma length_set_header [simp]: "length (voice_table (set_header bs s)) = length (voice_table s)"
  by (simp add: set_header_def)

definition flash_word :: "(u32 \<Rightarrow> u8) \<Rightarrow> u32 \<Rightarrow> u32" where
  "flash_word flash a = word_at (flash_bytes flash a 4) 0"

lemma decode_take: "4 \<le> length p \<Longrightarrow> uint32_decode p = uint32_decode (take 4 p)"
  by (cases "p = []") (simp_all add: uint32_decode_def load8_def)

lemma flash_slice: "i + 4 \<le> n \<Longrightarrow> take 4 (drop i (flash_bytes flash a n)) = flash_bytes flash (a + of_nat i) 4"
  by (rule nth_equalityI) (simp_all add: flash_bytes_def add.assoc)

lemma word_at_flash:
  assumes "i + 4 \<le> n"
  shows "word_at (flash_bytes flash a n @ r) i = flash_word flash (a + of_nat i)"
proof -
  have "take 4 (drop i (flash_bytes flash a n @ r)) = take 4 (drop i (flash_bytes flash a n))" using assms by simp
  then have "take 4 (drop i (flash_bytes flash a n @ r)) = flash_bytes flash (a + of_nat i) 4"
    unfolding flash_slice [OF assms] .
  moreover have "uint32_decode (drop i (flash_bytes flash a n @ r)) = uint32_decode (take 4 (drop i (flash_bytes flash a n @ r)))"
    by (rule decode_take) (use assms in simp)
  ultimately show ?thesis by (simp add: word_at_def flash_word_def)
qed

text \<open>The size of the second read; the table has 16 entries.\<close>

lemma header_size:
  assumes "unat c \<le> 16"
  shows "unat (4 + c * 8 :: u32) = 4 + 8 * unat c"
proof -
  have "unat (c * 8) = unat c * 8" using assms by (simp add: unat_word_ariths)
  then show ?thesis using assms by (simp add: unat_word_ariths)
qed

lemma header_get_count:
  assumes sv: "serves sfud flash"
  shows "voice_header_get sfud s = (let bs = flash_bytes flash 0 (unat (4 + flash_word flash 0 * 8)) in
    rbind (memcpy (header_bytes s) 0 bs 0 (int (length bs))) (\<lambda>m. Inr (set_header m s)))"
proof -
  have m: "memcpy [0, 0, 0, 0] 0 (flash_bytes flash 0 4) 0 4 = Inr (flash_bytes flash 0 4)"
    by (simp add: memcpy_def blit_def)
  have r: "snd (w25qxx_read sfud a n) = flash_bytes flash a (unat n)" for a n
    using sv by (simp add: w25qxx_read_def serves_def)
  show ?thesis by (simp add: voice_header_get_def r m flash_word_def Let_def)
qed

lemma header_get:
  assumes "serves sfud flash" and t: "length (voice_table s) = 16" and c: "unat (flash_word flash 0) \<le> 16"
  shows "voice_header_get sfud s = Inr (set_header
    (flash_bytes flash 0 (4 + 8 * unat (flash_word flash 0)) @ drop (4 + 8 * unat (flash_word flash 0)) (header_bytes s)) s)"
proof -
  have n: "nat (int k) = k" for k by simp
  show ?thesis using c
    unfolding header_get_count [OF assms(1)] Let_def header_size [OF c] memcpy_def length_flash_bytes n
    by (simp add: length_header t blit_def)
qed

lemma header_get_entry:
  assumes "serves sfud flash" and "length (voice_table s) = 16" and "unat (flash_word flash 0) \<le> 16" and i: "i < unat (flash_word flash 0)"
  obtains v where "voice_header_get sfud s = Inr v" "length (voice_table v) = 16"
    "voice_table v ! i = \<lparr> vi_start_addr = flash_word flash (4 + 8 * of_nat i), vi_size = flash_word flash (8 + 8 * of_nat i) \<rparr>"
    "i2s_buffer0 v = i2s_buffer0 s" "i2s_buffer1 v = i2s_buffer1 s"
proof (rule that [OF header_get [OF assms(1-3)]])
  show "voice_table (set_header (flash_bytes flash 0 (4 + 8 * unat (flash_word flash 0)) @ drop (4 + 8 * unat (flash_word flash 0)) (header_bytes s)) s) ! i =
      \<lparr> vi_start_addr = flash_word flash (4 + 8 * of_nat i), vi_size = flash_word flash (8 + 8 * of_nat i) \<rparr>"
    using i assms(2,3) by (simp add: set_header_def word_at_flash)
qed (simp_all add: set_header_def assms(2))

text \<open>A count above the capacity of the table writes past it.\<close>

lemma header_overrun:
  assumes "serves sfud flash" and t: "length (voice_table s) = 16" and c: "16 < unat (flash_word flash 0)" "unat (flash_word flash 0) < 2 ^ 28"
  shows "voice_header_get sfud s = Inl Out_of_bounds"
proof -
  have "unat (flash_word flash 0 * 8) = unat (flash_word flash 0) * 8" using c(2) by (simp add: unat_word_ariths)
  then have "unat (4 + flash_word flash 0 * 8) = 4 + 8 * unat (flash_word flash 0)" using c(2) by (simp add: unat_word_ariths)
  then show ?thesis using c(1) by (simp add: header_get_count [OF assms(1)] Let_def memcpy_def length_header t)
qed

section \<open>The set-up\<close>

text \<open>The rate the code asks for is in the table.\<close>

lemma samplerate_11020:
  "i2s2_samplerate_set True 11020 g = Some (g\<lparr> pll_n := 429, pll_r := 4, rcc_cr := rcc_cr g OR push_bit 26 1,
     spi_i2spr := 0x213 \<rparr>, 0)"
proof -
  have "find_rate i2s_psc_tbl 11020 = 1" by (simp add: i2s_psc_tbl_def sr_def)
  then show ?thesis by (simp add: i2s2_samplerate_set_def i2s_psc_tbl_def sr_def push_bit_eq_mult)
qed

lemma init_runs:
  assumes v: "voice_header_get sfud (vs_voice s) = Inr v" and n: "dma_instance s \<or> lenient"
  obtains s' where "voice_handler_init lenient bus True sfud s = Some (Inr s')" "finish_callback s'" "dma_instance s'"
    "vs_voice s' = dma_transmit_datalength 512 v" "pll_n (vs_regs s') = 429" "pll_r (vs_regs s') = 4"
    "spi_i2spr (vs_regs s') = 0x213" "vs_codec s' = fst (tas2505_init bus (vs_codec s))" "Multi_buffer_start 512 \<in> set (vs_setup s')"
proof -
  have "\<exists>s'. voice_handler_init lenient bus True sfud s = Some (Inr s') \<and> finish_callback s' \<and> dma_instance s' \<and>
    vs_voice s' = dma_transmit_datalength 512 v \<and> pll_n (vs_regs s') = 429 \<and> pll_r (vs_regs s') = 4 \<and>
    spi_i2spr (vs_regs s') = 0x213 \<and> vs_codec s' = fst (tas2505_init bus (vs_codec s)) \<and> Multi_buffer_start 512 \<in> set (vs_setup s')"
    using n by (auto simp: voice_handler_init_def v samplerate_11020 set_datalength_def I2S_BUFF_SIZE_def Let_def
      i2s2_tx_dma_init_def dma_transmit_datalength_def)
  then show thesis using that by blast
qed

text \<open>The code sets the length of a transfer before it sets the stream of the DMA handle.\<close>

lemma init_null_pointer:
  assumes v: "voice_header_get sfud (vs_voice s) = Inr v" and n: "\<not> dma_instance s"
  shows "voice_handler_init False bus True sfud s = Some (Inl Null_pointer)"
  using n by (simp add: voice_handler_init_def v samplerate_11020 set_datalength_def Let_def)

text \<open>C31: From the flash image to the bytes that the DMA sends. If the flash works, the image holds at most 16 voices and the
  write to the length register through the still unset stream of the DMA handle does no harm (\<open>lenient\<close>; or the
  handle is set, as in a second call), \<^verbatim>\<open>voice_handler_init\<close> returns, whatever the amplifier answers, with the clock
  programmed for 11025 Hz, transfers of 512 halfwords and the completion handler registered. Playing a voice of at least
  two bytes of the image after it, on a DMA that starts with memory 0, then sends from the address that the
  image's header gives: all bytes of a voice of up to 2048 bytes (without an odd last byte below 1024; with the old rest of the second
  buffer after them from 1024 on), and of a longer one all full KiB before its last byte, in order and once each.
  The last chunk of such a voice is loaded but never sent (\<open>played_size\<close>). The DMA has then been stopped.\<close>

theorem voice_plays_from_flash:
  assumes "serves sfud flash" and "unat (flash_word flash 0) \<le> 16" and "unat idx < unat (flash_word flash 0)"
    and "length (voice_table (vs_voice s)) = 16" and "length (i2s_buffer0 (vs_voice s)) = 1024" and "length (i2s_buffer1 (vs_voice s)) = 1024"
    and "dma_instance s \<or> lenient" and "2 \<le> unat (flash_word flash (8 + 8 * of_nat (unat idx)))"
  shows "\<exists>s'. voice_handler_init lenient bus True sfud s = Some (Inr s') \<and> finish_callback s' \<and>
    Multi_buffer_start 512 \<in> set (vs_setup s') \<and>
    pll_n (vs_regs s') = 429 \<and> pll_r (vs_regs s') = 4 \<and> spi_i2spr (vs_regs s') = 0x213 \<and>
    (let a = flash_word flash (4 + 8 * of_nat (unat idx)); n = unat (flash_word flash (8 + 8 * of_nat (unat idx))) in
     \<exists>s1 e1 s2. play_voice_start sfud idx (vs_voice s') = Inr (s1, e1) \<and> i2s_stop_flag s2 \<and>
       (\<forall>k \<ge> n div 1024 + 2. dma_play k sfud 0 (transmit_data_length s1) s1 =
          Inr (s2, flash_bytes flash a (played_size n) @ played_tail n (i2s_buffer1 (vs_voice s)))))"
proof -
  obtain v where v: "voice_header_get sfud (vs_voice s) = Inr v" "length (voice_table v) = 16"
      "voice_table v ! unat idx = \<lparr> vi_start_addr = flash_word flash (4 + 8 * of_nat (unat idx)),
         vi_size = flash_word flash (8 + 8 * of_nat (unat idx)) \<rparr>"
      "i2s_buffer0 v = i2s_buffer0 (vs_voice s)" "i2s_buffer1 v = i2s_buffer1 (vs_voice s)"
    by (rule header_get_entry [OF assms(1,4,2,3)])
  obtain s' where s': "voice_handler_init lenient bus True sfud s = Some (Inr s')" "finish_callback s'"
      "vs_voice s' = dma_transmit_datalength 512 v" "pll_n (vs_regs s') = 429" "pll_r (vs_regs s') = 4"
      "spi_i2spr (vs_regs s') = 0x213" "Multi_buffer_start 512 \<in> set (vs_setup s')"
    by (rule init_runs [OF v(1) assms(7), of bus])
  have "unat idx < length (voice_table (vs_voice s'))" "length (i2s_buffer0 (vs_voice s')) = 1024"
    "length (i2s_buffer1 (vs_voice s')) = 1024"
    using assms(2,3,5,6) v s'(3) by (simp_all add: dma_transmit_datalength_def)
  moreover have "voice_table (vs_voice s') ! unat idx = \<lparr> vi_start_addr = flash_word flash (4 + 8 * of_nat (unat idx)),
      vi_size = flash_word flash (8 + 8 * of_nat (unat idx)) \<rparr>"
    using v(3) s'(3) by (simp add: dma_transmit_datalength_def)
  moreover have "i2s_buffer1 (vs_voice s') = i2s_buffer1 (vs_voice s)"
    using v(5) s'(3) by (simp add: dma_transmit_datalength_def)
  ultimately show ?thesis
    using play_voice_plays [OF assms(1), of idx "vs_voice s'"] assms(8) s' unfolding Let_def by metis
qed

definition sample_image :: "u32 \<Rightarrow> u8" where
  "sample_image a = (if a = 0 then 2 else if a = 13 then 0x20 else if a = 17 then 0x10 else 0)"

definition sample_system :: voice_system where
  "sample_system = \<lparr> vs_voice = sample_voice\<lparr> voice_table := replicate 16 \<lparr> vi_start_addr = 0, vi_size = 0 \<rparr> \<rparr>,
     vs_regs = \<lparr> pll_n = 0, pll_r = 0, rcc_cr = 0, spi_i2spr = 0 \<rparr>, vs_codec = [], vs_setup = [], dma_instance = False,
     finish_callback = False \<rparr>"

lemma flash_word_bytes:
  "flash_word flash a = ucast (flash a) OR push_bit 8 (ucast (flash (a + 1))) OR push_bit 16 (ucast (flash (a + 2))) OR
     push_bit 24 (ucast (flash (a + 3)))"
  by (simp add: flash_word_def word_at_def flash_bytes_def uint32_decode_def upt_rec numeral_eq_Suc)

theorem voice_plays_from_flash_witness:
  "\<exists>s' s1 e1 s2. voice_handler_init True (\<lambda>_. 1) True (\<lambda>a n. (True, flash_bytes sample_image a (unat n))) sample_system = Some (Inr s') \<and>
     play_voice_start (\<lambda>a n. (True, flash_bytes sample_image a (unat n))) 1 (vs_voice s') = Inr (s1, e1) \<and>
     dma_play 6 (\<lambda>a n. (True, flash_bytes sample_image a (unat n))) 0 (transmit_data_length s1) s1 =
       Inr (s2, flash_bytes sample_image 0x2000 3072)"
proof -
  have sv: "serves (\<lambda>a n. (True, flash_bytes sample_image a (unat n))) sample_image" by (simp add: serves_def)
  have w: "flash_word sample_image 0 = 2" "flash_word sample_image (4 + 8 * of_nat (unat (1 :: u16))) = 0x2000"
    "flash_word sample_image (8 + 8 * of_nat (unat (1 :: u16))) = 4096"
    by (simp_all add: flash_word_bytes sample_image_def push_bit_eq_mult)
  have n: "unat (4096 :: u32) = 4096" "2 \<le> unat (4096 :: u32)" by simp_all
  have p: "played_size 4096 = 3072" "played_tail 4096 bs = []" "(4096 :: nat) div 1024 + 2 = 6" for bs
    by (simp_all add: played_size_def played_tail_def)
  have "unat (flash_word sample_image 0) \<le> 16" "unat (1 :: u16) < unat (flash_word sample_image 0)"
    "length (voice_table (vs_voice sample_system)) = 16" "length (i2s_buffer0 (vs_voice sample_system)) = 1024"
    "length (i2s_buffer1 (vs_voice sample_system)) = 1024" "dma_instance sample_system \<or> True"
    by (simp_all add: w sample_system_def sample_voice_def)
  then show ?thesis
    using voice_plays_from_flash [OF sv, of 1 sample_system True "\<lambda>_. 1"] n(2)
    unfolding w Let_def n(1) p append_Nil2 by blast
qed

end
