(* ===== verification/Timer.thy ===== *)
theory Timer
  imports Prelude
begin

text \<open>
  \<^verbatim>\<open>src/timer.c\<close> and the tick counter of \<^verbatim>\<open>src/clock.c\<close>: the hard timer list. The build sets
  \<^verbatim>\<open>RT_TIMER_SKIP_LIST_LEVEL\<close> to 1, so the skip list is one doubly linked list, modelled as the
  list of its nodes. Ticks are 32-bit and wrap; deadlines are compared by half-range differences.
  The state record is extended by the scheduler. A timer object that was never initialised, was detached or
  deleted is \<open>None\<close>, and the type assertion at the head of each function fails on it. The memory of a
  detached timer stays, and with it the flags, which \<open>detached_flag\<close> keeps.
\<close>

section \<open>State\<close>

text \<open>A thread carries its own timer; the others belong to applications.\<close>

datatype timer_id = Thread_timer nat | User_timer nat

record timer =
  tm_flag :: u8
  tm_init_tick :: u32
  tm_timeout_tick :: u32
  tm_static :: bool

record tsys =
  rt_tick :: u32
  timers :: "timer_id \<Rightarrow> timer option"
  detached_flag :: "timer_id \<Rightarrow> u8 option"
  timer_list :: "timer_id list"

definition RT_TICK_MAX :: u32 where "RT_TICK_MAX = 0xffffffff"

abbreviation (input) RT_TIMER_FLAG_ACTIVATED :: u8 where "RT_TIMER_FLAG_ACTIVATED \<equiv> 1"
abbreviation (input) RT_TIMER_FLAG_PERIODIC :: u8 where "RT_TIMER_FLAG_PERIODIC \<equiv> 2"

text \<open>\<^verbatim>\<open>RT_ASSERT(timer != RT_NULL); RT_ASSERT(rt_object_get_type(..) == RT_Object_Class_Timer)\<close>\<close>

definition with_timer ::
    "timer_id \<Rightarrow> ('a) tsys_scheme \<Rightarrow> (timer \<Rightarrow> 'b res) \<Rightarrow> 'b res" where
  "with_timer t s f = (case timers s t of None \<Rightarrow> Inl Assert_failed | Some tm \<Rightarrow> f tm)"

definition set_timer :: "timer_id \<Rightarrow> timer \<Rightarrow> ('a) tsys_scheme \<Rightarrow> ('a) tsys_scheme" where
  "set_timer t tm s = s\<lparr> timers := (timers s)(t := Some tm) \<rparr>"

section \<open>Clock\<close>

definition rt_tick_get :: "('a) tsys_scheme \<Rightarrow> u32" where
  "rt_tick_get s = rt_tick s"

definition rt_tick_set :: "u32 \<Rightarrow> ('a) tsys_scheme \<Rightarrow> ('a) tsys_scheme" where
  "rt_tick_set n s = s\<lparr> rt_tick := n \<rparr>"

text \<open>\<^verbatim>\<open>RT_TICK_PER_SECOND\<close> is 1000; the argument is a signed 32-bit count of milliseconds.\<close>

definition RT_TICK_PER_SECOND :: int where "RT_TICK_PER_SECOND = 1000"

definition rt_tick_from_millisecond :: "int \<Rightarrow> u32" where
  "rt_tick_from_millisecond ms =
     (if ms < 0 then word_of_int (- 1)
      else word_of_int (RT_TICK_PER_SECOND * (ms div 1000)) +
           word_of_int ((RT_TICK_PER_SECOND * (ms mod 1000) + 999) div 1000))"

section \<open>Operations\<close>

definition rt_timer_remove :: "timer_id \<Rightarrow> ('a) tsys_scheme \<Rightarrow> ('a) tsys_scheme" where
  "rt_timer_remove t s = s\<lparr> timer_list := remove1 t (timer_list s) \<rparr>"

text \<open>\<^verbatim>\<open>rt_object_init\<close> asserts that the object is not registered already.\<close>

definition rt_timer_init :: "timer_id \<Rightarrow> u32 \<Rightarrow> u8 \<Rightarrow> ('a) tsys_scheme \<Rightarrow> ('a) tsys_scheme res" where
  "rt_timer_init t time flag s = rassert (timers s t = None)
     (Inr (set_timer t \<lparr> tm_flag = flag AND NOT RT_TIMER_FLAG_ACTIVATED, tm_init_tick = time,
                         tm_timeout_tick = 0, tm_static = True \<rparr> s))"

text \<open>\<open>alloc\<close> says whether \<^verbatim>\<open>rt_object_allocate\<close> found memory for the object.\<close>

definition rt_timer_create ::
    "bool \<Rightarrow> timer_id \<Rightarrow> u32 \<Rightarrow> u8 \<Rightarrow> ('a) tsys_scheme \<Rightarrow> ('a) tsys_scheme \<times> timer_id option" where
  "rt_timer_create alloc t time flag s =
     (if \<not> alloc then (s, None)
      else (set_timer t \<lparr> tm_flag = flag AND NOT RT_TIMER_FLAG_ACTIVATED, tm_init_tick = time,
                          tm_timeout_tick = 0, tm_static = False \<rparr> s, Some t))"

definition rt_timer_detach :: "timer_id \<Rightarrow> ('a) tsys_scheme \<Rightarrow> (('a) tsys_scheme \<times> rt_err) res" where
  "rt_timer_detach t s = with_timer t s (\<lambda>tm. rassert (tm_static tm)
     (let s = rt_timer_remove t s in
      Inr (s\<lparr> timers := (timers s)(t := None), detached_flag := (detached_flag s)(t := Some (tm_flag tm)) \<rparr>, RT_EOK)))"

definition rt_timer_delete :: "timer_id \<Rightarrow> ('a) tsys_scheme \<Rightarrow> (('a) tsys_scheme \<times> rt_err) res" where
  "rt_timer_delete t s = with_timer t s (\<lambda>tm. rassert (\<not> tm_static tm)
     (let s = rt_timer_remove t s in
      Inr (s\<lparr> timers := (timers s)(t := None), detached_flag := (detached_flag s)(t := None) \<rparr>, RT_EOK)))"

definition timeout_of :: "('a) tsys_scheme \<Rightarrow> timer_id \<Rightarrow> u32" where
  "timeout_of s t = (case timers s t of None \<Rightarrow> 0 | Some tm \<Rightarrow> tm_timeout_tick tm)"

text \<open>The walk of \<^verbatim>\<open>rt_timer_start\<close> to the node after which the timer goes, and the insertion.\<close>

fun timer_insert :: "(timer_id \<Rightarrow> u32) \<Rightarrow> u32 \<Rightarrow> timer_id \<Rightarrow> timer_id list \<Rightarrow> timer_id list" where
  "timer_insert at new t [] = [t]"
| "timer_insert at new t (p # ps) =
     (if at p - new = 0 then p # timer_insert at new t ps
      else if at p - new < RT_TICK_MAX div 2 then t # p # ps
      else p # timer_insert at new t ps)"

definition rt_timer_start :: "timer_id \<Rightarrow> ('a) tsys_scheme \<Rightarrow> (('a) tsys_scheme \<times> rt_err) res" where
  "rt_timer_start t s = with_timer t s (\<lambda>tm.
     let s = rt_timer_remove t s;
         tm = tm\<lparr> tm_flag := tm_flag tm AND NOT RT_TIMER_FLAG_ACTIVATED \<rparr> in
     rassert (tm_init_tick tm < RT_TICK_MAX div 2)
       (let tm = tm\<lparr> tm_timeout_tick := rt_tick_get s + tm_init_tick tm \<rparr>;
            s = s\<lparr> timer_list := timer_insert (timeout_of s) (tm_timeout_tick tm) t (timer_list s) \<rparr>;
            tm = tm\<lparr> tm_flag := tm_flag tm OR RT_TIMER_FLAG_ACTIVATED \<rparr> in
        Inr (set_timer t tm s, RT_EOK)))"

definition rt_timer_stop :: "timer_id \<Rightarrow> ('a) tsys_scheme \<Rightarrow> (('a) tsys_scheme \<times> rt_err) res" where
  "rt_timer_stop t s = with_timer t s (\<lambda>tm.
     if tm_flag tm AND RT_TIMER_FLAG_ACTIVATED = 0 then Inr (s, - RT_ERROR)
     else Inr (set_timer t (tm\<lparr> tm_flag := tm_flag tm AND NOT RT_TIMER_FLAG_ACTIVATED \<rparr>)
                 (rt_timer_remove t s), RT_EOK))"

datatype timer_cmd = Timer_get_time | Timer_set_time u32 | Timer_set_oneshot | Timer_set_periodic | Timer_other_cmd

text \<open>The second result is what \<^verbatim>\<open>RT_TIMER_CTRL_GET_TIME\<close> stores through its argument.\<close>

definition rt_timer_control ::
    "timer_id \<Rightarrow> timer_cmd \<Rightarrow> ('a) tsys_scheme \<Rightarrow> (('a) tsys_scheme \<times> u32 option \<times> rt_err) res" where
  "rt_timer_control t cmd s = with_timer t s (\<lambda>tm. Inr (case cmd of
       Timer_get_time \<Rightarrow> (s, Some (tm_init_tick tm), RT_EOK)
     | Timer_set_time n \<Rightarrow> (set_timer t (tm\<lparr> tm_init_tick := n \<rparr>) s, None, RT_EOK)
     | Timer_set_oneshot \<Rightarrow>
         (set_timer t (tm\<lparr> tm_flag := tm_flag tm AND NOT RT_TIMER_FLAG_PERIODIC \<rparr>) s, None, RT_EOK)
     | Timer_set_periodic \<Rightarrow>
         (set_timer t (tm\<lparr> tm_flag := tm_flag tm OR RT_TIMER_FLAG_PERIODIC \<rparr>) s, None, RT_EOK)
     | Timer_other_cmd \<Rightarrow> (s, None, RT_EOK)))"

definition rt_timer_next_timeout_tick :: "('a) tsys_scheme \<Rightarrow> u32" where
  "rt_timer_next_timeout_tick s =
     (case timer_list s of [] \<Rightarrow> RT_TICK_MAX | t # _ \<Rightarrow> timeout_of s t)"

text \<open>
  What \<^verbatim>\<open>rt_timer_check\<close> does with a timer after its timeout function. The function may have detached the
  timer: its flags can still be read and written, only \<^verbatim>\<open>rt_timer_start\<close> asserts that it is a timer. A timer
  that its timeout function deleted has no memory any more; the access to it is the fault \<open>Out_of_bounds\<close>.
\<close>

definition timer_fired :: "timer_id \<Rightarrow> ('a) tsys_scheme \<Rightarrow> ('a) tsys_scheme res" where
  "timer_fired t s = (case timers s t of
     Some tm \<Rightarrow>
       let s' = set_timer t (tm\<lparr> tm_flag := tm_flag tm AND NOT RT_TIMER_FLAG_ACTIVATED \<rparr>) s in
       if tm_flag tm AND RT_TIMER_FLAG_PERIODIC \<noteq> 0 \<and> tm_flag tm AND RT_TIMER_FLAG_ACTIVATED \<noteq> 0
       then rbind (rt_timer_start t s') (\<lambda>(s, _). Inr s)
       else Inr s'
   | None \<Rightarrow> (case detached_flag s t of
       None \<Rightarrow> Inl Out_of_bounds
     | Some flag \<Rightarrow>
         rassert (\<not> (flag AND RT_TIMER_FLAG_PERIODIC \<noteq> 0 \<and> flag AND RT_TIMER_FLAG_ACTIVATED \<noteq> 0))
           (Inr (s\<lparr> detached_flag := (detached_flag s)(t := Some (flag AND NOT RT_TIMER_FLAG_ACTIVATED)) \<rparr>))))"

text \<open>
  The loop of \<^verbatim>\<open>rt_timer_check\<close>. What a timeout function does is an argument; it may start and
  stop timers, so the loop need not end, and \<open>None\<close> says that the fuel did not suffice.
\<close>

fun timer_check_loop ::
    "nat \<Rightarrow> (timer_id \<Rightarrow> ('a) tsys_scheme \<Rightarrow> ('a) tsys_scheme res) \<Rightarrow> u32 \<Rightarrow> ('a) tsys_scheme \<Rightarrow>
     ('a) tsys_scheme res option" where
  "timer_check_loop 0 timeout_func current_tick s = None"
| "timer_check_loop (Suc n) timeout_func current_tick s =
     (case timer_list s of
        [] \<Rightarrow> Some (Inr s)
      | t # _ \<Rightarrow>
        if current_tick - timeout_of s t < RT_TICK_MAX div 2
        then
          case timeout_func t (rt_timer_remove t s) of
            Inl e \<Rightarrow> Some (Inl e)
          | Inr s \<Rightarrow>
            (let current_tick = rt_tick_get s in
             case timer_fired t s of Inl e \<Rightarrow> Some (Inl e) | Inr s \<Rightarrow> timer_check_loop n timeout_func current_tick s)
        else Some (Inr s))"

definition rt_timer_check ::
    "nat \<Rightarrow> (timer_id \<Rightarrow> ('a) tsys_scheme \<Rightarrow> ('a) tsys_scheme res) \<Rightarrow> ('a) tsys_scheme \<Rightarrow>
     ('a) tsys_scheme res option" where
  "rt_timer_check n timeout_func s = timer_check_loop n timeout_func (rt_tick_get s) s"

section \<open>The list is ordered by deadline\<close>

text \<open>
  Deadlines are read relative to a base tick \<open>b\<close> that no linked deadline has passed by more than the
  half range; it moves up when the due timers have been taken out.
\<close>

definition ahead :: "u32 \<Rightarrow> ('a) tsys_scheme \<Rightarrow> timer_id \<Rightarrow> nat" where
  "ahead b s t = unat (timeout_of s t - b)"

definition timers_ok :: "u32 \<Rightarrow> ('a) tsys_scheme \<Rightarrow> bool" where
  "timers_ok b s \<longleftrightarrow> distinct (timer_list s) \<and>
     (\<forall>t \<in> set (timer_list s). timers s t \<noteq> None \<and> timeout_of s t - b < RT_TICK_MAX div 2) \<and>
     sorted (map (ahead b s) (timer_list s))"

definition due :: "('a) tsys_scheme \<Rightarrow> timer_id \<Rightarrow> bool" where
  "due s t \<longleftrightarrow> rt_tick s - timeout_of s t < RT_TICK_MAX div 2"

lemma half_max: "RT_TICK_MAX div 2 = 0x7fffffff"
  by (simp add: RT_TICK_MAX_def)

text \<open>Half-range comparison of two deadlines agrees with the comparison of what remains.\<close>

lemma half_range:
  fixes a b n :: u32
  assumes "a - n < RT_TICK_MAX div 2" "b - n < RT_TICK_MAX div 2"
  shows "a - b = 0 \<longleftrightarrow> unat (a - n) = unat (b - n)"
    and "a - b \<noteq> 0 \<Longrightarrow> a - b < RT_TICK_MAX div 2 \<longleftrightarrow> unat (b - n) < unat (a - n)"
proof -
  define x y where "x = a - n" and "y = b - n"
  have ab: "a - b = x - y" by (simp add: x_def y_def)
  have lt: "unat x < 2147483647" "unat y < 2147483647"
    using assms by (auto simp: half_max x_def y_def word_less_nat_alt)
  show "a - b = 0 \<longleftrightarrow> unat (a - n) = unat (b - n)"
    by (metis ab eq_iff_diff_eq_0 word_unat_eq_iff x_def y_def)
  assume ne: "a - b \<noteq> 0"
  then have "unat x \<noteq> unat y" using ab by (metis eq_iff_diff_eq_0 word_unat_eq_iff)
  moreover have "unat (x - y) = (if unat y \<le> unat x then unat x - unat y else 4294967296 + unat x - unat y)"
    using lt by (auto simp: unat_sub_if')
  ultimately show "a - b < RT_TICK_MAX div 2 \<longleftrightarrow> unat (b - n) < unat (a - n)"
    using lt unfolding half_max ab x_def [symmetric] y_def [symmetric]
    by (auto simp: word_less_nat_alt)
qed

lemma set_timer_insert: "set (timer_insert at new t ps) = insert t (set ps)"
  by (induction ps) auto

lemma distinct_timer_insert: "distinct (timer_insert at new t ps) \<longleftrightarrow> t \<notin> set ps \<and> distinct ps"
  by (induction ps) (auto simp: set_timer_insert)

lemma length_timer_insert: "length (timer_insert at new t ps) = Suc (length ps)"
  by (induction ps) auto

text \<open>The list with the deadlines that remain: the insertion is the stable one.\<close>

lemma timer_insert_sorted:
  assumes "sorted (map (\<lambda>p. unat (at p - now)) ps)" "\<forall>p \<in> set ps. at p - now < RT_TICK_MAX div 2"
    and new: "new - now < RT_TICK_MAX div 2" "at t = new"
  shows "sorted (map (\<lambda>p. unat (at p - now)) (timer_insert at new t ps))"
  using assms(1,2)
proof (induction ps)
  case (Cons p ps)
  have p: "at p - now < RT_TICK_MAX div 2" using Cons.prems by simp
  note hr = half_range [OF p new(1)]
  have IH: "sorted (map (\<lambda>p. unat (at p - now)) (timer_insert at new t ps))"
    using Cons by simp
  show ?case
  proof (cases "at p - new \<noteq> 0 \<and> at p - new < RT_TICK_MAX div 2")
    case True
    then have "unat (new - now) < unat (at p - now)" using hr(2) by blast
    then show ?thesis using True Cons.prems new by (auto simp: less_imp_le)
  next
    case False
    then have "unat (at p - now) \<le> unat (new - now)" using hr by auto
    then show ?thesis using False IH Cons.prems new by (auto simp: set_timer_insert)
  qed
qed (use new in simp)

lemma due_iff:
  assumes "timeout_of s t - b < RT_TICK_MAX div 2" "rt_tick s - b < RT_TICK_MAX div 2"
  shows "due s t \<longleftrightarrow> ahead b s t \<le> unat (rt_tick s - b)"
  using half_range [OF assms(2,1)] by (cases "rt_tick s - timeout_of s t = 0") (auto simp: due_def ahead_def half_max)

lemma timers_ok_remove:
  assumes "timers_ok b s"
  shows "timers_ok b (rt_timer_remove t s)"
proof -
  have "sorted (map (ahead b s) (remove1 t (timer_list s)))"
    using assms sorted_map_remove1 [of "ahead b s"] by (simp add: timers_ok_def)
  moreover have "ahead b (rt_timer_remove t s) = ahead b s"
    by (rule ext) (simp add: ahead_def rt_timer_remove_def timeout_of_def)
  ultimately show ?thesis
    using assms set_remove1_subset [of t "timer_list s"]
    by (auto simp: timers_ok_def rt_timer_remove_def timeout_of_def)
qed

lemma unat_add_base:
  fixes x y b :: u32
  assumes "unat (x - b) + unat y < 0x7fffffff"
  shows "unat (x + y - b) = unat (x - b) + unat y"
proof -
  have "x + y - b = (x - b) + y" by simp
  moreover have "unat (x - b + y) = unat (x - b) + unat y"
    by (rule unat_add_small) (use assms in simp)
  ultimately show ?thesis by metis
qed

text \<open>Starting a timer: where it lands, and that the order survives.\<close>

lemma timer_start_ok:
  assumes ok: "timers_ok b s" and t: "timers s t = Some tm"
    and room: "unat (rt_tick s - b) + unat (tm_init_tick tm) < 0x7fffffff"
  shows "\<exists>s'. rt_timer_start t s = Inr (s', 0) \<and> timers_ok b s' \<and>
    timer_list s' = timer_insert (timeout_of s) (rt_tick s + tm_init_tick tm) t (remove1 t (timer_list s)) \<and>
    timers s' = (timers s)(t := Some (tm\<lparr> tm_timeout_tick := rt_tick s + tm_init_tick tm,
      tm_flag := tm_flag tm AND NOT 1 OR 1 \<rparr>)) \<and>
    rt_tick s' = rt_tick s \<and> tsys.more s' = tsys.more s"
proof -
  define new where "new = rt_tick s + tm_init_tick tm"
  define l where "l = remove1 t (timer_list s)"
  have nb: "new - b < RT_TICK_MAX div 2"
    using room unat_add_base [OF room] by (simp add: half_max new_def word_less_nat_alt)
  have init: "tm_init_tick tm < RT_TICK_MAX div 2"
    using room by (simp add: half_max word_less_nat_alt)
  have l: "distinct l" "t \<notin> set l" "set l \<subseteq> set (timer_list s)"
    using ok by (auto simp: timers_ok_def l_def dest: notin_set_remove1)
  define at where "at = (timeout_of s)(t := new)"
  have key: "sorted (map (\<lambda>p. unat (at p - b)) (timer_insert at new t l))"
  proof (rule timer_insert_sorted)
    have "map (\<lambda>p. unat (at p - b)) l = map (ahead b s) l"
      using l(2) by (auto simp: ahead_def at_def)
    moreover have "sorted (map (ahead b s) l)"
      using ok sorted_map_remove1 [of "ahead b s"] by (simp add: timers_ok_def l_def)
    ultimately show "sorted (map (\<lambda>p. unat (at p - b)) l)" by (simp only:)
    show "\<forall>p\<in>set l. at p - b < RT_TICK_MAX div 2"
      using ok l by (auto simp: timers_ok_def at_def)
  qed (use nb in \<open>auto simp: at_def\<close>)
  have ins: "timer_insert at new t l = timer_insert (timeout_of s) new t l"
    using l(2) by (induction l) (auto simp: at_def)
  define s' where "s' = set_timer t (tm\<lparr> tm_timeout_tick := new, tm_flag := tm_flag tm AND NOT 1 OR 1 \<rparr>)
    ((rt_timer_remove t s)\<lparr> timer_list := timer_insert (timeout_of s) new t l \<rparr>)"
  have same: "timeout_of (rt_timer_remove t s) = timeout_of s"
    by (rule ext) (simp add: timeout_of_def rt_timer_remove_def)
  have start: "rt_timer_start t s = Inr (s', 0)"
    using t init same
    by (simp add: rt_timer_start_def with_timer_def Let_def s'_def new_def l_def rt_tick_get_def)
      (simp add: rt_timer_remove_def set_timer_def)
  have to: "timeout_of s' = at"
    by (rule ext) (simp add: at_def s'_def timeout_of_def set_timer_def rt_timer_remove_def)
  have "timers_ok b s'"
    unfolding timers_ok_def
  proof (intro conjI ballI)
    have tl: "timer_list s' = timer_insert (timeout_of s) new t l" by (simp add: s'_def set_timer_def)
    show "distinct (timer_list s')" using l by (simp add: tl distinct_timer_insert)
    show "sorted (map (ahead b s') (timer_list s'))"
      using key by (simp add: ahead_def [abs_def] to tl ins)
    fix p assume "p \<in> set (timer_list s')"
    then have p: "p = t \<or> p \<in> set (timer_list s)" using l by (auto simp: tl set_timer_insert)
    then show "timers s' p \<noteq> None" "timeout_of s' p - b < RT_TICK_MAX div 2"
      using ok nb by (auto simp: timers_ok_def to at_def) (auto simp: s'_def set_timer_def rt_timer_remove_def)
  qed
  then show ?thesis
    using start by (auto simp: s'_def set_timer_def rt_timer_remove_def l_def new_def)
qed

section \<open>Firing\<close>

text \<open>A timeout function that only records its timer, to observe what \<^verbatim>\<open>rt_timer_check\<close> calls.\<close>

definition record_timeout ::
    "timer_id \<Rightarrow> (timer_id list) tsys_scheme \<Rightarrow> (timer_id list) tsys_scheme res" where
  "record_timeout t s = Inr (tsys.more_update (\<lambda>l. l @ [t]) s)"

lemma record_timeout_fields [simp]:
  "timers (tsys.more_update f s) = timers s"
  "timer_list (tsys.more_update f s) = timer_list s"
  "rt_tick (tsys.more_update f s) = rt_tick s"
  "tsys.more (tsys.more_update f s) = f (tsys.more s)"
  by (cases s; simp)+

lemma due_after_insert:
  assumes "\<forall>p \<in> set ps. at p - b < RT_TICK_MAX div 2" "new - b < RT_TICK_MAX div 2"
    and "\<And>p. p \<in> set ps \<Longrightarrow> P p \<longleftrightarrow> unat (at p - b) \<le> k" "k < unat (new - b)" "\<not> P t"
  shows "takeWhile P (timer_insert at new t ps) = takeWhile P ps"
  using assms(1,3)
proof (induction ps)
  case (Cons p ps)
  have p: "at p - b < RT_TICK_MAX div 2" using Cons.prems by simp
  note hr = half_range [OF p assms(2)]
  show ?case
  proof (cases "P p")
    case True
    then have "unat (at p - b) < unat (new - b)" using Cons.prems(2) [of p] assms(4) by simp
    then have "at p - new \<noteq> 0 \<and> \<not> at p - new < RT_TICK_MAX div 2" using hr by auto
    then show ?thesis using Cons True by simp
  qed (use assms(5) in simp)
qed (use assms(5) in simp)

lemma tsys_eq_more: "tsys.more (s\<lparr> timer_list := x \<rparr>) = tsys.more s" "tsys.more (s\<lparr> timers := y \<rparr>) = tsys.more s"
  by (cases s; simp)+

text \<open>What firing makes of a timer: a periodic one that is still active is due again after its period, any other is
  no longer active.\<close>

definition rearms :: "timer \<Rightarrow> bool" where
  "rearms tm \<longleftrightarrow> bit (tm_flag tm) 1 \<and> bit (tm_flag tm) 0"

definition fired_timer :: "u32 \<Rightarrow> timer \<Rightarrow> timer" where
  "fired_timer now tm =
     (if rearms tm then tm\<lparr> tm_timeout_tick := now + tm_init_tick tm \<rparr> else tm\<lparr> tm_flag := tm_flag tm AND NOT 1 \<rparr>)"

definition after_firing :: "timer_id set \<Rightarrow> ('a) tsys_scheme \<Rightarrow> timer_id \<Rightarrow> timer option" where
  "after_firing F s t = (if t \<in> F then map_option (fired_timer (rt_tick s)) (timers s t) else timers s t)"

lemma rearms_flags: "rearms tm \<longleftrightarrow> tm_flag tm AND 2 \<noteq> 0 \<and> tm_flag tm AND 1 \<noteq> 0"
  using and_exp_eq_0_iff_not_bit [of "tm_flag tm" 1] and_exp_eq_0_iff_not_bit [of "tm_flag tm" 0]
  by (simp add: rearms_def)

lemma reactivate: "bit (x :: u8) 0 \<Longrightarrow> x AND NOT 1 AND NOT 1 OR 1 = x"
  by (rule bit_word_eqI) (auto simp: bit_simps)

text \<open>One round of the loop for a due timer.\<close>

lemma fire_one:
  assumes ok: "timers_ok b s" and late: "rt_tick s - b < RT_TICK_MAX div 2"
    and l: "timer_list s = t # ts" and d: "due s t"
    and tm: "timers s t = Some tm"
    and per: "tm_flag tm AND 2 \<noteq> 0 \<Longrightarrow> tm_flag tm AND 1 \<noteq> 0 \<Longrightarrow>
      tm_init_tick tm \<noteq> 0 \<and> unat (rt_tick s - b) + unat (tm_init_tick tm) < 0x7fffffff"
  shows "\<exists>s'. timer_check_loop (Suc n) record_timeout (rt_tick s) s =
        timer_check_loop n record_timeout (rt_tick s') s' \<and>
      timers_ok b s' \<and> rt_tick s' = rt_tick s \<and> tsys.more s' = tsys.more s @ [t] \<and>
      takeWhile (due s') (timer_list s') = takeWhile (due s) ts \<and>
      set (timer_list s') = set ts \<union> (if rearms tm then {t} else {}) \<and>
      timers s' = (timers s)(t \<mapsto> fired_timer (rt_tick s) tm)"
proof -
  define s1 where "s1 = tsys.more_update (\<lambda>l. l @ [t]) (rt_timer_remove t s)"
  define s2 where "s2 = set_timer t (tm\<lparr> tm_flag := tm_flag tm AND NOT 1 \<rparr>) s1"
  have ts: "t \<notin> set ts" using ok l by (auto simp: timers_ok_def)
  have to2: "timeout_of s2 = timeout_of s"
    using tm by (intro ext) (simp add: s2_def s1_def timeout_of_def set_timer_def rt_timer_remove_def)
  have l2: "timer_list s2 = ts" "rt_tick s2 = rt_tick s" "tsys.more s2 = tsys.more s @ [t]"
    using l by (auto simp: s2_def s1_def set_timer_def rt_timer_remove_def tsys_eq_more)
  have t2: "timers s2 t = Some (tm\<lparr> tm_flag := tm_flag tm AND NOT 1 \<rparr>)"
    "\<And>p. p \<noteq> t \<Longrightarrow> timers s2 p = timers s p"
    "timers s2 = (timers s)(t := Some (tm\<lparr> tm_flag := tm_flag tm AND NOT 1 \<rparr>))"
    by (auto simp: s2_def s1_def set_timer_def rt_timer_remove_def)
  have "timers s2 p = timers s p" if "p \<in> set ts" for p
    by (rule t2(2)) (use that ts in blast)
  then have ok2: "timers_ok b s2"
    using ok l unfolding timers_ok_def ahead_def [abs_def] to2 l2 by auto
  have due2: "due s2 = due s"
    by (rule ext) (simp add: due_def to2 l2)
  have unfold: "timer_check_loop (Suc n) record_timeout (rt_tick s) s =
    (case (if tm_flag tm AND 2 \<noteq> 0 \<and> tm_flag tm AND 1 \<noteq> 0
           then rbind (rt_timer_start t s2) (\<lambda>(s, _). Inr s) else Inr s2) of
       Inl e \<Rightarrow> Some (Inl e)
     | Inr s' \<Rightarrow> timer_check_loop n record_timeout (rt_tick s) s')"
    using l d tm
    by (simp add: due_def record_timeout_def timer_fired_def rt_timer_remove_def rt_tick_get_def Let_def
        s2_def s1_def)
  show ?thesis
  proof (cases "tm_flag tm AND 2 \<noteq> 0 \<and> tm_flag tm AND 1 \<noteq> 0")
    case False
    then have "\<not> rearms tm" by (simp add: rearms_flags)
    then show ?thesis using unfold ok2 l2 t2(3) due2 False
      by (intro exI [of _ s2]) (auto simp: if_not_P fired_timer_def)
  next
    case True
    then have r: "rearms tm" by (simp add: rearms_flags)
    have pos: "tm_init_tick tm \<noteq> 0" and room: "unat (rt_tick s - b) + unat (tm_init_tick tm) < 0x7fffffff"
      using per True by auto
    let ?new = "rt_tick s + tm_init_tick tm"
    have room2: "unat (rt_tick s2 - b) + unat (tm_init_tick (tm\<lparr> tm_flag := tm_flag tm AND NOT 1 \<rparr>)) < 0x7fffffff"
      using room l2 by simp
    from timer_start_ok [OF ok2 t2(1) room2] obtain s3 where
      s3: "rt_timer_start t s2 = Inr (s3, 0)" "timers_ok b s3"
        "timer_list s3 = timer_insert (timeout_of s) ?new t ts"
        "timers s3 = (timers s2)(t := Some (tm\<lparr> tm_timeout_tick := ?new, tm_flag := tm_flag tm AND NOT 1 AND NOT 1 OR 1 \<rparr>))"
        "rt_tick s3 = rt_tick s" "tsys.more s3 = tsys.more s @ [t]"
      using ts l2 to2 by (auto simp: remove1_idem)
    have f3: "timers s3 = (timers s)(t \<mapsto> fired_timer (rt_tick s) tm)"
    proof -
      have "tm_flag tm AND NOT 1 AND NOT 1 OR 1 = tm_flag tm" by (rule reactivate) (use r in \<open>simp add: rearms_def\<close>)
      moreover have "tm\<lparr> tm_timeout_tick := ?new, tm_flag := tm_flag tm \<rparr> = tm\<lparr> tm_timeout_tick := ?new \<rparr>" by (cases tm) simp
      ultimately show ?thesis using r by (simp only: s3(4) t2(3) fired_timer_def if_True fun_upd_upd)
    qed
    have to3: "timeout_of s3 p = (if p = t then ?new else timeout_of s p)" for p
      using t2 by (simp add: timeout_of_def s3(4))
    have nb: "?new - b < RT_TICK_MAX div 2" and nu: "unat (?new - b) = unat (rt_tick s - b) + unat (tm_init_tick tm)"
      using room unat_add_base [OF room] by (simp_all add: half_max word_less_nat_alt)
    have kn: "unat (rt_tick s - b) < unat (?new - b)" using nu pos by (simp add: unat_gt_0)
    have nd: "\<not> due s3 t"
      using due_iff [of s3 t b] nb late kn by (simp add: to3 s3(5) ahead_def)
    have eq: "due s3 p = due s p" if "p \<noteq> t" for p using that by (simp add: due_def to3 s3(5))
    have "takeWhile (due s3) (timer_list s3) = takeWhile (due s3) ts"
      unfolding s3(3)
    proof (rule due_after_insert [where k = "unat (rt_tick s - b)" and b = b])
      show "?new - b < RT_TICK_MAX div 2" "unat (rt_tick s - b) < unat (?new - b)" "\<not> due s3 t"
        by (rule nb kn nd)+
      show "\<forall>p\<in>set ts. timeout_of s p - b < RT_TICK_MAX div 2" using ok l by (auto simp: timers_ok_def)
      fix p assume p: "p \<in> set ts"
      then have "due s3 p = due s p" using ts by (intro eq) auto
      also have "\<dots> \<longleftrightarrow> ahead b s p \<le> unat (rt_tick s - b)"
        by (rule due_iff) (use p ok l late in \<open>auto simp: timers_ok_def\<close>)
      finally show "due s3 p \<longleftrightarrow> unat (timeout_of s p - b) \<le> unat (rt_tick s - b)" by (simp add: ahead_def)
    qed
    also have "\<dots> = takeWhile (due s) ts"
    proof (rule takeWhile_cong)
      fix x assume "x \<in> set ts"
      then have "x \<noteq> t" using ts by blast
      then show "due s3 x = due s x" by (rule eq)
    qed simp
    finally show ?thesis
      using unfold True s3(1-3,5,6) f3 r by (intro exI [of _ s3]) (auto simp: set_timer_insert)
  qed
qed

lemma after_firing_step:
  assumes "timers s' = (timers s)(t \<mapsto> fired_timer (rt_tick s) tm)" "timers s t = Some tm" "t \<notin> F" "rt_tick s' = rt_tick s"
  shows "after_firing F s' = after_firing (insert t F) s"
  using assms by (auto simp: after_firing_def fun_eq_iff)

lemma fire_all:
  assumes "timers_ok b s" and late: "rt_tick s - b < RT_TICK_MAX div 2"
    and per: "\<And>t tm. t \<in> set (takeWhile (due s) (timer_list s)) \<Longrightarrow> timers s t = Some tm \<Longrightarrow>
      tm_flag tm AND 2 \<noteq> 0 \<Longrightarrow> tm_flag tm AND 1 \<noteq> 0 \<Longrightarrow>
      tm_init_tick tm \<noteq> 0 \<and> unat (rt_tick s - b) + unat (tm_init_tick tm) < 0x7fffffff"
    and "length (takeWhile (due s) (timer_list s)) < n"
  shows "\<exists>s'. timer_check_loop n record_timeout (rt_tick s) s = Some (Inr s') \<and> timers_ok b s' \<and>
    tsys.more s' = tsys.more s @ takeWhile (due s) (timer_list s) \<and>
    takeWhile (due s') (timer_list s') = [] \<and> rt_tick s' = rt_tick s \<and>
    timers s' = after_firing (set (takeWhile (due s) (timer_list s))) s \<and>
    set (timer_list s') = {t \<in> set (timer_list s). t \<in> set (takeWhile (due s) (timer_list s)) \<longrightarrow> rearms (the (timers s t))}"
  using assms
proof (induction n arbitrary: s)
  case (Suc n)
  show ?case
  proof (cases "takeWhile (due s) (timer_list s)")
    case Nil
    then have "timer_check_loop (Suc n) record_timeout (rt_tick s) s = Some (Inr s)"
      by (cases "timer_list s") (auto simp: due_def split: if_splits)
    then show ?thesis using Nil Suc.prems by (auto simp: after_firing_def fun_eq_iff)
  next
    case (Cons t us)
    then obtain ts where l: "timer_list s = t # ts" and d: "due s t" and us: "us = takeWhile (due s) ts"
      by (cases "timer_list s") (auto split: if_splits)
    obtain tm where tm: "timers s t = Some tm" using Suc.prems(1) l by (auto simp: timers_ok_def)
    have "t \<in> set (takeWhile (due s) (timer_list s))" by (simp add: Cons)
    then obtain s' where s': "timer_check_loop (Suc n) record_timeout (rt_tick s) s =
        timer_check_loop n record_timeout (rt_tick s') s'"
      "timers_ok b s'" "rt_tick s' = rt_tick s" "tsys.more s' = tsys.more s @ [t]"
      "takeWhile (due s') (timer_list s') = us" "set (timer_list s') = set ts \<union> (if rearms tm then {t} else {})"
      "timers s' = (timers s)(t \<mapsto> fired_timer (rt_tick s) tm)"
      using fire_one [OF Suc.prems(1,2) l d tm, of n] Suc.prems(3) [OF _ tm] us by blast
    have ts: "t \<notin> set ts" using Suc.prems(1) l by (simp add: timers_ok_def)
    have nt: "t \<notin> set us" using ts us set_takeWhileD [of t "due s" ts] by auto
    have "\<exists>s''. timer_check_loop n record_timeout (rt_tick s') s' = Some (Inr s'') \<and> timers_ok b s'' \<and>
      tsys.more s'' = tsys.more s' @ takeWhile (due s') (timer_list s') \<and>
      takeWhile (due s'') (timer_list s'') = [] \<and> rt_tick s'' = rt_tick s' \<and>
      timers s'' = after_firing (set (takeWhile (due s') (timer_list s'))) s' \<and>
      set (timer_list s'') = {t \<in> set (timer_list s'). t \<in> set (takeWhile (due s') (timer_list s')) \<longrightarrow> rearms (the (timers s' t))}"
    proof (rule Suc.IH)
      show "length (takeWhile (due s') (timer_list s')) < n" using Suc.prems(4) Cons s'(5) by simp
      fix p tm' assume p: "p \<in> set (takeWhile (due s') (timer_list s'))" and q: "timers s' p = Some tm'"
        "tm_flag tm' AND 2 \<noteq> 0" "tm_flag tm' AND 1 \<noteq> 0"
      have "p \<in> set us" using p s'(5) by simp
      then have "p \<noteq> t" using nt by blast
      moreover have "p \<in> set (takeWhile (due s) (timer_list s))" using \<open>p \<in> set us\<close> Cons by simp
      ultimately show "tm_init_tick tm' \<noteq> 0 \<and> unat (rt_tick s' - b) + unat (tm_init_tick tm') < 0x7fffffff"
        using Suc.prems(3) [of p tm'] q s'(3,7) by simp
    qed (use s' Suc.prems in auto)
    then obtain s'' where s'': "timer_check_loop n record_timeout (rt_tick s') s' = Some (Inr s'')" "timers_ok b s''"
        "tsys.more s'' = tsys.more s' @ us" "takeWhile (due s'') (timer_list s'') = []" "rt_tick s'' = rt_tick s'"
        "timers s'' = after_firing (set us) s'"
        "set (timer_list s'') = {x \<in> set (timer_list s'). x \<in> set us \<longrightarrow> rearms (the (timers s' x))}"
      unfolding s'(5) by blast
    have "timers s'' = after_firing (set (takeWhile (due s) (timer_list s))) s"
      using after_firing_step [OF s'(7) tm nt s'(3)] s''(6) by (simp add: Cons)
    moreover have "set (timer_list s'') = {x \<in> set (timer_list s). x \<in> set (t # us) \<longrightarrow> rearms (the (timers s x))}"
      using nt ts tm by (auto simp: s''(7) s'(6,7) l)
    ultimately show ?thesis using s' s'' Cons by auto
  qed
qed simp

lemma none_due:
  assumes "timers_ok b s" "rt_tick s - b < RT_TICK_MAX div 2" "takeWhile (due s) (timer_list s) = []"
    and "t \<in> set (timer_list s)"
  shows "\<not> due s t"
proof -
  obtain h ts where l: "timer_list s = h # ts" using assms(4) by (cases "timer_list s") auto
  have "\<not> due s h" using assms(3) l by (auto split: if_splits)
  moreover have "ahead b s h \<le> ahead b s t" using assms(1,4) l by (auto simp: timers_ok_def)
  ultimately show ?thesis
    using due_iff [of s h b] due_iff [of s t b] assms l by (auto simp: timers_ok_def)
qed

lemma due_prefix:
  assumes "timers_ok b s" and late: "rt_tick s - b < RT_TICK_MAX div 2"
  shows "filter (due s) (timer_list s) = takeWhile (due s) (timer_list s)"
proof -
  have "filter (due s) ps = takeWhile (due s) ps"
    if "sorted (map (ahead b s) ps)" "\<forall>p \<in> set ps. timeout_of s p - b < RT_TICK_MAX div 2" for ps
    using that
  proof (induction ps)
    case (Cons p ps)
    show ?case
    proof (cases "due s p")
      case False
      have "\<not> due s q" if "q \<in> set ps" for q
        using that Cons.prems False due_iff [of s p b] due_iff [of s q b] late by fastforce
      then show ?thesis using False by (simp add: filter_empty_conv)
    qed (use Cons in simp)
  qed simp
  then show ?thesis using assms(1) by (simp add: timers_ok_def)
qed

section \<open>Properties\<close>

text \<open>C9: One pass of \<^verbatim>\<open>rt_timer_check\<close> calls the timeout functions of exactly the timers whose
  deadline has come, in the order of their deadlines (first started first among equals), and returns. A periodic timer
  that fired is back in the list, due one period after the current tick, and still active; every other timer that fired is
  out of the list and no longer active; no other timer changes. No due timer is left and the list is ordered again. The periodic
  timers that are due need a period that is neither zero nor so long that its deadline leaves the half
  range; the timeout functions only record that they are called.\<close>

theorem rt_timer_check_fires_due:
  assumes ok: "timers_ok b s" and late: "rt_tick s - b < RT_TICK_MAX div 2"
    and per: "\<And>t tm. due s t \<Longrightarrow> timers s t = Some tm \<Longrightarrow> tm_flag tm AND 2 \<noteq> 0 \<Longrightarrow>
      tm_init_tick tm \<noteq> 0 \<and> unat (rt_tick s - b) + unat (tm_init_tick tm) < 0x7fffffff"
    and n: "length (timer_list s) < n"
  shows "\<exists>s'. rt_timer_check n record_timeout s = Some (Inr s') \<and>
     tsys.more s' = tsys.more s @ filter (due s) (timer_list s) \<and>
     set (timer_list s') = {t \<in> set (timer_list s). due s t \<longrightarrow> rearms (the (timers s t))} \<and>
     (\<forall>t tm. timers s t = Some tm \<longrightarrow> t \<in> set (timer_list s) \<longrightarrow> due s t \<longrightarrow>
        timers s' t = Some (if bit (tm_flag tm) 1 \<and> bit (tm_flag tm) 0
          then tm\<lparr> tm_timeout_tick := rt_tick s + tm_init_tick tm \<rparr> else tm\<lparr> tm_flag := tm_flag tm AND NOT 1 \<rparr>)) \<and>
     (\<forall>t. \<not> (t \<in> set (timer_list s) \<and> due s t) \<longrightarrow> timers s' t = timers s t) \<and>
     (\<forall>t \<in> set (timer_list s'). \<not> due s' t) \<and> timers_ok b s' \<and> rt_tick s' = rt_tick s"
proof -
  have fl: "filter (due s) (timer_list s) = takeWhile (due s) (timer_list s)"
    by (rule due_prefix [OF ok late])
  have fs: "t \<in> set (takeWhile (due s) (timer_list s)) \<longleftrightarrow> t \<in> set (timer_list s) \<and> due s t" for t
    by (simp add: fl [symmetric])
  have "length (takeWhile (due s) (timer_list s)) < n"
    using n length_takeWhile_le [of "due s" "timer_list s"] by (rule le_less_trans [rotated])
  moreover have "due s t" if "t \<in> set (takeWhile (due s) (timer_list s))" for t
    using that by (rule set_takeWhileD [THEN conjunct2])
  ultimately have "\<exists>s'. timer_check_loop n record_timeout (rt_tick s) s = Some (Inr s') \<and> timers_ok b s' \<and>
    tsys.more s' = tsys.more s @ takeWhile (due s) (timer_list s) \<and>
    takeWhile (due s') (timer_list s') = [] \<and> rt_tick s' = rt_tick s \<and>
    timers s' = after_firing (set (takeWhile (due s) (timer_list s))) s \<and>
    set (timer_list s') = {t \<in> set (timer_list s). t \<in> set (takeWhile (due s) (timer_list s)) \<longrightarrow> rearms (the (timers s t))}"
    by (intro fire_all [OF ok late]) (rule per; assumption | blast)+
  then obtain s' where s': "timer_check_loop n record_timeout (rt_tick s) s = Some (Inr s')"
    "timers_ok b s'" "tsys.more s' = tsys.more s @ filter (due s) (timer_list s)"
    "takeWhile (due s') (timer_list s') = []" "rt_tick s' = rt_tick s"
    "timers s' = after_firing (set (takeWhile (due s) (timer_list s))) s"
    "set (timer_list s') = {t \<in> set (timer_list s). t \<in> set (takeWhile (due s) (timer_list s)) \<longrightarrow> rearms (the (timers s t))}"
    unfolding fl by blast
  have "\<forall>t \<in> set (timer_list s'). \<not> due s' t"
    using none_due [OF s'(2) _ s'(4)] late s'(5) by simp
  then show ?thesis using s'(1-3,5-7)
    unfolding rt_timer_check_def rt_tick_get_def
    by (intro exI [of _ s']) (auto simp: after_firing_def fs fired_timer_def rearms_def)
qed

definition sample_timers :: "(timer_id list) tsys_scheme" where
  "sample_timers = \<lparr> rt_tick = 1,
     timers = (\<lambda>_. None)(User_timer 1 := Some \<lparr> tm_flag = 1, tm_init_tick = 5, tm_timeout_tick = 1, tm_static = True \<rparr>,
                         User_timer 2 := Some \<lparr> tm_flag = 3, tm_init_tick = 4, tm_timeout_tick = 1, tm_static = True \<rparr>,
                         User_timer 3 := Some \<lparr> tm_flag = 1, tm_init_tick = 9, tm_timeout_tick = 4, tm_static = True \<rparr>),
     detached_flag = (\<lambda>_. None), timer_list = [User_timer 1, User_timer 2, User_timer 3], \<dots> = [] \<rparr>"

theorem rt_timer_check_fires_due_witness:
  "\<exists>s'. rt_timer_check 4 record_timeout sample_timers = Some (Inr s') \<and>
     tsys.more s' = [User_timer 1, User_timer 2] \<and> set (timer_list s') = {User_timer 2, User_timer 3} \<and>
     timeout_of s' (User_timer 2) = 5 \<and> timers_ok 0 s'"
proof -
  have ok: "timers_ok 0 sample_timers"
    by (simp add: timers_ok_def sample_timers_def timeout_of_def ahead_def half_max)
  have late: "rt_tick sample_timers - 0 < RT_TICK_MAX div 2" by (simp add: sample_timers_def half_max)
  have f: "filter (due sample_timers) (timer_list sample_timers) = [User_timer 1, User_timer 2]"
    "{t \<in> set (timer_list sample_timers). due sample_timers t \<longrightarrow> rearms (the (timers sample_timers t))} =
      {User_timer 2, User_timer 3}"
    by (auto simp: sample_timers_def due_def timeout_of_def half_max rearms_flags)
  have t2: "timers sample_timers (User_timer 2) = Some \<lparr> tm_flag = 3, tm_init_tick = 4, tm_timeout_tick = 1, tm_static = True \<rparr>"
    "User_timer 2 \<in> set (timer_list sample_timers)" "due sample_timers (User_timer 2)" "bit (3 :: u8) 1" "bit (3 :: u8) 0"
    "rt_tick sample_timers = 1" "tsys.more sample_timers = []"
    by (simp_all add: sample_timers_def due_def timeout_of_def half_max)
  have p: "tm_init_tick tm \<noteq> 0 \<and> unat (rt_tick sample_timers - 0) + unat (tm_init_tick tm) < 0x7fffffff"
    if "timers sample_timers t = Some tm" for t tm
    using that by (auto simp: sample_timers_def split: if_splits)
  have l: "length (timer_list sample_timers) < 4" by (simp add: sample_timers_def)
  obtain s' where s': "rt_timer_check 4 record_timeout sample_timers = Some (Inr s')"
     "tsys.more s' = [User_timer 1, User_timer 2]" "set (timer_list s') = {User_timer 2, User_timer 3}" "timers_ok 0 s'"
     "timers s' (User_timer 2) = Some \<lparr> tm_flag = 3, tm_init_tick = 4, tm_timeout_tick = 5, tm_static = True \<rparr>"
    using rt_timer_check_fires_due [OF ok late p l, unfolded f t2(6,7)] t2(1-5) by fastforce
  then show ?thesis by (intro exI [of _ s']) (simp add: timeout_of_def)
qed

text \<open>C10: Starting a timer links it once, before every timer whose deadline is later and behind those
  with an earlier or equal one, marks it active, sets its deadline to now plus its period, and keeps the
  list ordered; the other timers keep their deadlines.\<close>

theorem rt_timer_start_orders:
  "timers_ok b s \<Longrightarrow> timers s t = Some tm \<Longrightarrow>
   unat (rt_tick s - b) + unat (tm_init_tick tm) < 0x7fffffff \<Longrightarrow>
   \<exists>s' tm'. rt_timer_start t s = Inr (s', 0) \<and> timers_ok b s' \<and>
     set (timer_list s') = insert t (set (timer_list s)) \<and>
     timers s' = (timers s)(t := Some tm') \<and> bit (tm_flag tm') 0 \<and>
     tm_timeout_tick tm' = rt_tick s + tm_init_tick tm"
proof -
  assume h: "timers_ok b s" "timers s t = Some tm"
    "unat (rt_tick s - b) + unat (tm_init_tick tm) < 0x7fffffff"
  have "distinct (timer_list s)" using h(1) by (simp add: timers_ok_def)
  moreover from timer_start_ok [OF h] obtain s' where s': "rt_timer_start t s = Inr (s', 0)" "timers_ok b s'"
    "timer_list s' = timer_insert (timeout_of s) (rt_tick s + tm_init_tick tm) t (remove1 t (timer_list s))"
    "timers s' = (timers s)(t := Some (tm\<lparr> tm_timeout_tick := rt_tick s + tm_init_tick tm,
       tm_flag := tm_flag tm AND NOT 1 OR 1 \<rparr>))" by blast
  moreover have "bit (tm_flag (tm\<lparr> tm_timeout_tick := rt_tick s + tm_init_tick tm,
       tm_flag := tm_flag tm AND NOT 1 OR 1 \<rparr>)) 0" by (simp add: bit_simps)
  ultimately show ?thesis
    by (intro exI [of _ s'] exI [of _ "tm\<lparr> tm_timeout_tick := rt_tick s + tm_init_tick tm,
       tm_flag := tm_flag tm AND NOT 1 OR 1 \<rparr>"]) (auto simp: set_timer_insert)
qed

theorem rt_timer_start_orders_witness:
  "\<exists>s'. rt_timer_start (User_timer 3) sample_timers = Inr (s', 0) \<and> timers_ok 0 s'"
proof -
  have ok: "timers_ok 0 sample_timers"
    by (simp add: timers_ok_def sample_timers_def timeout_of_def ahead_def half_max)
  have t: "timers sample_timers (User_timer 3) =
    Some \<lparr> tm_flag = 1, tm_init_tick = 9, tm_timeout_tick = 4, tm_static = True \<rparr>"
    by (simp add: sample_timers_def)
  show ?thesis using rt_timer_start_orders [OF ok t] by (auto simp: sample_timers_def)
qed

text \<open>A periodic timer with period zero that comes due keeps \<^verbatim>\<open>rt_timer_check\<close>, which runs in the
  tick interrupt, in its loop for ever.\<close>

theorem rt_timer_check_zero_period:
  "timer_list s = [t] \<Longrightarrow> timers s t = Some tm \<Longrightarrow> tm_flag tm = 3 \<Longrightarrow> tm_init_tick tm = 0 \<Longrightarrow>
   tm_timeout_tick tm = rt_tick s \<Longrightarrow> rt_timer_check n record_timeout s = None"
  unfolding rt_timer_check_def
proof (induction n arbitrary: s tm)
  case (Suc n)
  define s1 where "s1 = tsys.more_update (\<lambda>l. l @ [t]) (rt_timer_remove t s)"
  have s1: "timer_list s1 = []" "timers s1 t = Some tm" "rt_tick s1 = rt_tick s"
    using Suc.prems by (auto simp: s1_def rt_timer_remove_def)
  define s2 where "s2 = set_timer t (tm\<lparr> tm_flag := 2 \<rparr>) s1"
  have f: "tm_flag tm AND 2 = 2" "tm_flag tm AND 1 = 1" "tm_flag tm AND NOT 1 = 2"
    "(2 :: u8) AND NOT 1 OR 1 = 3" using Suc.prems(3) by simp_all
  have start: "rt_timer_start t s2 = Inr (set_timer t (tm\<lparr> tm_timeout_tick := rt_tick s, tm_flag := 3 \<rparr>)
      (s2\<lparr> timer_list := [t] \<rparr>), 0)"
    using s1 Suc.prems(4)
    by (simp add: s2_def rt_timer_start_def with_timer_def set_timer_def rt_timer_remove_def half_max
        Let_def rt_tick_get_def)
  have "timer_check_loop (Suc n) record_timeout (rt_tick s) s =
      timer_check_loop n record_timeout (rt_tick s) (set_timer t (tm\<lparr> tm_timeout_tick := rt_tick s, tm_flag := 3 \<rparr>)
      (s2\<lparr> timer_list := [t] \<rparr>))"
    using Suc.prems f start s1
    by (simp add: timeout_of_def record_timeout_def half_max rt_tick_get_def timer_fired_def Let_def
        flip: s1_def s2_def)
  also have "\<dots> = None"
    using Suc.IH [of "set_timer t (tm\<lparr> tm_timeout_tick := rt_tick s, tm_flag := 3 \<rparr>)
      (s2\<lparr> timer_list := [t] \<rparr>)" "tm\<lparr> tm_timeout_tick := rt_tick s, tm_flag := 3 \<rparr>"] s1 Suc.prems(4)
    by (simp add: set_timer_def s2_def rt_tick_get_def)
  finally show ?case by (simp add: rt_tick_get_def)
qed simp

text \<open>A timeout function that starts its timer again.\<close>

definition restart_timeout ::
    "timer_id \<Rightarrow> ('a) tsys_scheme \<Rightarrow> ('a) tsys_scheme res" where
  "restart_timeout t s = rbind (rt_timer_start t s) (\<lambda>(s, _). Inr s)"

text \<open>A one-shot timer that its own timeout function starts again ends up linked in the timer list
  but marked inactive, so \<^verbatim>\<open>rt_timer_stop\<close> refuses to stop it although it will fire.\<close>

theorem rt_timer_restart_in_callback:
  "timer_list s = [t] \<Longrightarrow> timers s t = Some tm \<Longrightarrow> tm_flag tm = 1 \<Longrightarrow> tm_init_tick tm \<noteq> 0 \<Longrightarrow>
   tm_init_tick tm < 0x7fffffff \<Longrightarrow> tm_timeout_tick tm = rt_tick s \<Longrightarrow> 2 \<le> n \<Longrightarrow>
   \<exists>s'. rt_timer_check n restart_timeout s = Some (Inr s') \<and> timer_list s' = [t] \<and>
     rt_timer_stop t s' = Inr (s', - RT_ERROR)"
proof -
  assume h: "timer_list s = [t]" "timers s t = Some tm" "tm_flag tm = 1" "tm_init_tick tm \<noteq> 0"
    "tm_init_tick tm < 0x7fffffff" "tm_timeout_tick tm = rt_tick s" "2 \<le> n"
  obtain m where n: "n = Suc (Suc m)" using h(7) by (metis add_2_eq_Suc le_Suc_ex)
  have nd: "\<not> - tm_init_tick tm < (0x7fffffff :: u32)"
  proof -
    have "unat (0 - tm_init_tick tm) = 4294967296 - unat (tm_init_tick tm)"
      using h(4) unat_gt_0 [of "tm_init_tick tm"] by (simp only: unat_sub_if') simp
    then show ?thesis using h(5) by (simp add: word_less_nat_alt)
  qed
  show ?thesis
    using h nd unfolding n
    by (simp add: rt_timer_check_def rt_tick_get_def timeout_of_def half_max
        restart_timeout_def timer_fired_def rt_timer_start_def rt_timer_stop_def with_timer_def rt_timer_remove_def set_timer_def Let_def)
qed

text \<open>At 1000 ticks a second, \<^verbatim>\<open>rt_tick_from_millisecond\<close> maps every count of milliseconds that a
  signed 32-bit argument can hold to the same number of ticks, and every negative one to the value that
  means waiting for ever.\<close>

theorem rt_tick_from_millisecond_exact:
  "ms < 2 ^ 31 \<Longrightarrow>
   uint (rt_tick_from_millisecond ms) = (if ms < 0 then 2 ^ 32 - 1 else ms)"
proof -
  assume ms: "ms < 2 ^ 31"
  have r: "(1000 * k + 999) div 1000 = k" for k :: int by simp
  have q: "1000 * (ms div 1000) + ms mod 1000 = ms" by (rule mult_div_mod_eq)
  have "rt_tick_from_millisecond ms = word_of_int ms" if "\<not> ms < 0"
    unfolding rt_tick_from_millisecond_def RT_TICK_PER_SECOND_def if_not_P [OF that] r
      of_int_add [symmetric] q ..
  moreover have "rt_tick_from_millisecond ms = word_of_int (- 1)" if "ms < 0"
    using that by (simp add: rt_tick_from_millisecond_def)
  ultimately show ?thesis
    using ms by (cases "ms < 0") (simp_all add: uint_word_of_int mod_pos_pos_trivial unsigned_minus_1_eq_mask mask_eq_exp_minus_1)
qed

end
