(* ===== verification/Sched.thy ===== *)
theory Sched
  imports Timer
begin

text \<open>
  \<^verbatim>\<open>src/scheduler.c\<close>, single core, 32 priorities: the ready queues with their bitmap, the choice
  of the next thread and the scheduler lock. A thread has one list node (\<^verbatim>\<open>tlist\<close>), which is in a
  ready queue, in the waiting list of a kernel object or in the defunct list; \<open>queues\<close> gives the
  nodes of every list head in order. A context switch is the change of \<open>current_thread\<close>: the code
  after \<^verbatim>\<open>rt_schedule\<close> belongs to the thread that called it and runs when that thread is current
  again. The state record is extended by the kernel objects.
\<close>

section \<open>State\<close>

record thread =
  th_stat :: u8
  th_init_priority :: u8
  th_current_priority :: u8
  th_number_mask :: u32
  th_init_tick :: u32
  th_remaining_tick :: u32
  th_error :: rt_err
  th_event_set :: u32
  th_event_info :: u8
  th_static :: bool
  th_has_cleanup :: bool
  th_object :: bool

text \<open>List heads: the ready queue of a priority, the waiting list of an object, the senders waiting
  for a mailbox, the threads whose memory the idle thread will release.\<close>

datatype queue = Ready nat | Waiting nat | Senders nat | Defunct

record ksys = tsys +
  threads :: "nat \<Rightarrow> thread option"
  queues :: "queue \<Rightarrow> nat list"
  ready_group :: u32
  current_thread :: "nat option"
  current_priority :: u8
  lock_nest :: int
  interrupt_nest :: u8

abbreviation (input) RT_THREAD_INIT :: u8 where "RT_THREAD_INIT \<equiv> 0"
abbreviation (input) RT_THREAD_READY :: u8 where "RT_THREAD_READY \<equiv> 1"
abbreviation (input) RT_THREAD_SUSPEND :: u8 where "RT_THREAD_SUSPEND \<equiv> 2"
abbreviation (input) RT_THREAD_RUNNING :: u8 where "RT_THREAD_RUNNING \<equiv> 3"
abbreviation (input) RT_THREAD_CLOSE :: u8 where "RT_THREAD_CLOSE \<equiv> 4"
abbreviation (input) RT_THREAD_STAT_MASK :: u8 where "RT_THREAD_STAT_MASK \<equiv> 7"
abbreviation (input) RT_THREAD_STAT_YIELD :: u8 where "RT_THREAD_STAT_YIELD \<equiv> 8"

definition RT_THREAD_PRIORITY_MAX :: nat where "RT_THREAD_PRIORITY_MAX = 32"

text \<open>An access through a pointer to a thread; \<open>checked_thread\<close> is one behind the assertions that the
  pointer is not null and the object is a thread, which no longer holds once the object is detached
  (\<open>th_object\<close>), although its memory is still there.\<close>

definition with_thread :: "nat \<Rightarrow> ('a) ksys_scheme \<Rightarrow> (thread \<Rightarrow> 'b res) \<Rightarrow> 'b res" where
  "with_thread t s f = (case threads s t of None \<Rightarrow> Inl Null_pointer | Some th \<Rightarrow> f th)"

definition checked_thread :: "nat \<Rightarrow> ('a) ksys_scheme \<Rightarrow> (thread \<Rightarrow> 'b res) \<Rightarrow> 'b res" where
  "checked_thread t s f = with_thread t s (\<lambda>th. rassert (th_object th) (f th))"

definition set_thread :: "nat \<Rightarrow> thread \<Rightarrow> ('a) ksys_scheme \<Rightarrow> ('a) ksys_scheme" where
  "set_thread t th s = s\<lparr> threads := (threads s)(t := Some th) \<rparr>"

text \<open>\<^verbatim>\<open>thread->stat = X | (thread->stat & ~RT_THREAD_STAT_MASK)\<close>\<close>

definition with_stat :: "u8 \<Rightarrow> thread \<Rightarrow> thread" where
  "with_stat x th = th\<lparr> th_stat := x OR (th_stat th AND NOT RT_THREAD_STAT_MASK) \<rparr>"

definition stat_of :: "thread \<Rightarrow> u8" where
  "stat_of th = th_stat th AND RT_THREAD_STAT_MASK"

section \<open>Lists\<close>

text \<open>\<^verbatim>\<open>rt_list_remove(&thread->tlist)\<close>: out of whatever list the node is in.\<close>

definition unlink :: "nat \<Rightarrow> ('a) ksys_scheme \<Rightarrow> ('a) ksys_scheme" where
  "unlink t s = s\<lparr> queues := (\<lambda>q. remove1 t (queues s q)) \<rparr>"

definition insert_before :: "queue \<Rightarrow> nat \<Rightarrow> ('a) ksys_scheme \<Rightarrow> ('a) ksys_scheme" where
  "insert_before q t s = s\<lparr> queues := (queues s)(q := queues s q @ [t]) \<rparr>"

definition insert_after :: "queue \<Rightarrow> nat \<Rightarrow> ('a) ksys_scheme \<Rightarrow> ('a) ksys_scheme" where
  "insert_after q t s = s\<lparr> queues := (queues s)(q := t # queues s q) \<rparr>"

section \<open>Operations\<close>

text \<open>\<^verbatim>\<open>__rt_ffs\<close>: one more than the index of the lowest bit that is set, 0 if there is none.\<close>

definition rt_ffs :: "u32 \<Rightarrow> nat" where
  "rt_ffs v = (case filter (bit v) [0..<32] of [] \<Rightarrow> 0 | i # _ \<Rightarrow> Suc i)"

text \<open>With an empty queue the list head itself would be taken for a thread.\<close>

definition get_highest_priority_thread :: "('a) ksys_scheme \<Rightarrow> (nat \<times> nat) res" where
  "get_highest_priority_thread s =
     (let highest = rt_ffs (ready_group s) - 1 in
      case queues s (Ready highest) of [] \<Rightarrow> Inl Out_of_bounds | t # _ \<Rightarrow> Inr (t, highest))"

definition rt_schedule_insert_thread :: "nat \<Rightarrow> ('a) ksys_scheme \<Rightarrow> ('a) ksys_scheme res" where
  "rt_schedule_insert_thread t s = with_thread t s (\<lambda>th.
     if current_thread s = Some t then Inr (set_thread t (with_stat RT_THREAD_RUNNING th) s)
     else if unat (th_current_priority th) \<ge> RT_THREAD_PRIORITY_MAX then Inl Out_of_bounds
     else let s = set_thread t (with_stat RT_THREAD_READY th) s;
              s = insert_before (Ready (unat (th_current_priority th))) t s in
          Inr (s\<lparr> ready_group := ready_group s OR th_number_mask th \<rparr>))"

definition rt_schedule_remove_thread :: "nat \<Rightarrow> ('a) ksys_scheme \<Rightarrow> ('a) ksys_scheme res" where
  "rt_schedule_remove_thread t s = with_thread t s (\<lambda>th.
     let s = unlink t s in
     if queues s (Ready (unat (th_current_priority th))) = []
     then Inr (s\<lparr> ready_group := ready_group s AND NOT (th_number_mask th) \<rparr>)
     else Inr s)"

text \<open>The running thread stays when the best queued one has a lower priority, or the same and the
  running one has not been asked to yield.\<close>

definition stays_running :: "thread \<Rightarrow> nat \<Rightarrow> bool" where
  "stays_running th highest \<longleftrightarrow> stat_of th = RT_THREAD_RUNNING \<and>
     (unat (th_current_priority th) < highest \<or>
      unat (th_current_priority th) = highest \<and> th_stat th AND RT_THREAD_STAT_YIELD = 0)"

text \<open>Both ends of \<^verbatim>\<open>rt_schedule\<close>: out of the ready queue, status running.\<close>

definition make_running :: "nat \<Rightarrow> ('a) ksys_scheme \<Rightarrow> ('a) ksys_scheme res" where
  "make_running t s =
     rbind (rt_schedule_remove_thread t s) (\<lambda>s.
     with_thread t s (\<lambda>th. Inr (set_thread t (with_stat RT_THREAD_RUNNING th) s)))"

definition rt_schedule :: "('a) ksys_scheme \<Rightarrow> ('a) ksys_scheme res" where
  "rt_schedule s =
     (if lock_nest s \<noteq> 0 \<or> ready_group s = 0 then Inr s
      else
        rbind (get_highest_priority_thread s) (\<lambda>(to, highest).
        case current_thread s of None \<Rightarrow> Inl Null_pointer | Some from \<Rightarrow>
        with_thread from s (\<lambda>th.
        if stays_running th highest then make_running from s
        else
          let need_insert = (stat_of th = RT_THREAD_RUNNING);
              s = (if need_insert
                   then set_thread from (th\<lparr> th_stat := th_stat th AND NOT RT_THREAD_STAT_YIELD \<rparr>) s else s) in
          if to \<noteq> from
          then let s = s\<lparr> current_priority := of_nat highest, current_thread := Some to \<rparr> in
               rbind (if need_insert then rt_schedule_insert_thread from s else Inr s) (make_running to)
          else make_running from s)))"

definition rt_system_scheduler_init :: "('a) ksys_scheme \<Rightarrow> ('a) ksys_scheme" where
  "rt_system_scheduler_init s =
     s\<lparr> lock_nest := 0, ready_group := 0,
        queues := (\<lambda>q. case q of Ready p \<Rightarrow> if p < RT_THREAD_PRIORITY_MAX then [] else queues s q
                              | Defunct \<Rightarrow> [] | _ \<Rightarrow> queues s q) \<rparr>"

definition rt_system_scheduler_start :: "('a) ksys_scheme \<Rightarrow> ('a) ksys_scheme res" where
  "rt_system_scheduler_start s =
     rbind (get_highest_priority_thread s) (\<lambda>(to, _).
     let s = s\<lparr> current_thread := Some to \<rparr> in
     rbind (rt_schedule_remove_thread to s) (\<lambda>s.
     with_thread to s (\<lambda>th. Inr (set_thread to (th\<lparr> th_stat := RT_THREAD_RUNNING \<rparr>) s))))"

text \<open>\<^verbatim>\<open>rt_scheduler_lock_nest\<close> is a signed 16-bit counter.\<close>

definition int16 :: "int \<Rightarrow> int" where
  "int16 i = (i + 2 ^ 15) mod 2 ^ 16 - 2 ^ 15"

definition rt_enter_critical :: "('a) ksys_scheme \<Rightarrow> ('a) ksys_scheme" where
  "rt_enter_critical s = s\<lparr> lock_nest := int16 (lock_nest s + 1) \<rparr>"

definition rt_exit_critical :: "('a) ksys_scheme \<Rightarrow> ('a) ksys_scheme res" where
  "rt_exit_critical s =
     (let s = s\<lparr> lock_nest := int16 (lock_nest s - 1) \<rparr> in
      if lock_nest s \<le> 0
      then let s = s\<lparr> lock_nest := 0 \<rparr> in
           if current_thread s \<noteq> None then rt_schedule s else Inr s
      else Inr s)"

definition rt_critical_level :: "('a) ksys_scheme \<Rightarrow> nat" where
  "rt_critical_level s = nat (lock_nest s mod 2 ^ 16)"

section \<open>The lowest set bit\<close>

lemma rt_ffs_zero: "rt_ffs v = 0 \<longleftrightarrow> v = 0"
proof -
  have "filter (bit v) [0..<32] = [] \<longleftrightarrow> (\<forall>i < 32. \<not> bit v i)" by (auto simp: filter_empty_conv)
  also have "\<dots> \<longleftrightarrow> v = 0" using bit_imp_le_length [of v] by (auto simp: bit_eq_iff)
  finally show ?thesis by (auto simp: rt_ffs_def split: list.splits)
qed

lemma rt_ffs_least:
  assumes "v \<noteq> 0"
  shows "bit v (rt_ffs v - 1) \<and> rt_ffs v - 1 < 32 \<and> (\<forall>i < rt_ffs v - 1. \<not> bit v i)"
proof -
  obtain i tl where f: "filter (bit v) [0..<32] = i # tl"
    using assms rt_ffs_zero [of v] by (auto simp: rt_ffs_def split: list.splits)
  then obtain us vs where us: "[0..<32] = us @ i # vs" "\<forall>u \<in> set us. \<not> bit v u" "bit v i"
    using filter_eq_ConsD [OF f] by blast
  have i: "i < 32"
    using us(1) by (metis atLeastLessThan_iff in_set_conv_decomp set_upt)
  have "[0..<32] ! length us = i" using us(1) by simp
  moreover have "length us < 32" using arg_cong [OF us(1), of length] by simp
  ultimately have "length us = i" by simp
  then have "set us = {0..<i}"
    using us(1) i by (metis append_eq_conv_conj less_imp_le set_upt take_upt add_0)
  then show ?thesis using us i by (auto simp: rt_ffs_def f)
qed

lemma rt_ffs_eqI: "bit v p \<Longrightarrow> (\<And>i. i < p \<Longrightarrow> \<not> bit v i) \<Longrightarrow> rt_ffs v - 1 = p" for v :: u32
proof -
  assume p: "bit v p" "\<And>i. i < p \<Longrightarrow> \<not> bit v i"
  then have "v \<noteq> 0" by auto
  from rt_ffs_least [OF this] p show "rt_ffs v - 1 = p" by (meson linorder_neqE_nat)
qed

section \<open>The invariant\<close>

text \<open>Every node is in at most one list and belongs to a thread; the bitmap has the bit of exactly
  the priorities whose queue is not empty.\<close>

definition links_ok :: "('a) ksys_scheme \<Rightarrow> bool" where
  "links_ok s \<longleftrightarrow> (\<forall>q. distinct (queues s q)) \<and>
     (\<forall>q q' t. t \<in> set (queues s q) \<longrightarrow> t \<in> set (queues s q') \<longrightarrow> q = q') \<and>
     (\<forall>q t. t \<in> set (queues s q) \<longrightarrow> threads s t \<noteq> None) \<and>
     (\<forall>t. current_thread s = Some t \<longrightarrow> threads s t \<noteq> None) \<and>
     (\<forall>p. queues s (Ready p) \<noteq> [] \<longleftrightarrow> bit (ready_group s) p)"

text \<open>A thread between its start and its end has a priority below 32 and the matching mask; a queued
  one is queued at its priority.\<close>

definition prio_ok :: "thread \<Rightarrow> bool" where
  "prio_ok th \<longleftrightarrow> unat (th_current_priority th) < 32 \<and>
     th_number_mask th = push_bit (unat (th_current_priority th)) 1"

definition prios_ok :: "('a) ksys_scheme \<Rightarrow> bool" where
  "prios_ok s \<longleftrightarrow> (\<forall>t th. threads s t = Some th \<longrightarrow>
     (stat_of th \<noteq> RT_THREAD_INIT \<and> stat_of th \<noteq> RT_THREAD_CLOSE \<longrightarrow> prio_ok th) \<and>
     (\<forall>p. t \<in> set (queues s (Ready p)) \<longrightarrow> p = unat (th_current_priority th)))"

text \<open>Status and list agree for every thread outside of \<open>X\<close>: the threads an operation is moving.\<close>

fun queue_stat :: "queue \<Rightarrow> u8" where
  "queue_stat (Ready _) = RT_THREAD_READY"
| "queue_stat (Waiting _) = RT_THREAD_SUSPEND"
| "queue_stat (Senders _) = RT_THREAD_SUSPEND"
| "queue_stat Defunct = RT_THREAD_CLOSE"

definition stats_ok :: "nat set \<Rightarrow> ('a) ksys_scheme \<Rightarrow> bool" where
  "stats_ok X s \<longleftrightarrow> (\<forall>t th. threads s t = Some th \<longrightarrow> t \<notin> X \<longrightarrow>
     (\<forall>q. t \<in> set (queues s q) \<longrightarrow> stat_of th = queue_stat q) \<and>
     (stat_of th = RT_THREAD_READY \<longrightarrow> (\<exists>p. t \<in> set (queues s (Ready p)))) \<and>
     (stat_of th = RT_THREAD_RUNNING \<longrightarrow> current_thread s = Some t) \<and>
     (current_thread s = Some t \<longrightarrow> stat_of th \<noteq> RT_THREAD_READY \<and> stat_of th \<noteq> RT_THREAD_INIT))"

definition sched_inv :: "nat set \<Rightarrow> ('a) ksys_scheme \<Rightarrow> bool" where
  "sched_inv X s \<longleftrightarrow> links_ok s \<and> prios_ok s \<and> stats_ok X s"

lemma stat_of_with_stat: "x AND 7 = x \<Longrightarrow> stat_of (with_stat x th) = x"
  unfolding stat_of_def with_stat_def
  by (simp add: bit_eq_iff [of "_ :: u8"] bit_simps) blast

lemma with_stat_fields [simp]:
  "th_current_priority (with_stat x th) = th_current_priority th"
  "th_init_priority (with_stat x th) = th_init_priority th"
  "th_number_mask (with_stat x th) = th_number_mask th"
  "th_error (with_stat x th) = th_error th"
  "th_static (with_stat x th) = th_static th"
  "th_has_cleanup (with_stat x th) = th_has_cleanup th"
  "th_event_set (with_stat x th) = th_event_set th"
  "th_event_info (with_stat x th) = th_event_info th"
  by (simp_all add: with_stat_def)

lemma bit_mask_1: "bit (push_bit p (1 :: u32)) i \<longleftrightarrow> i = p \<and> p < 32"
  by (auto simp: bit_simps)

text \<open>Taking a thread out of its list.\<close>

lemma remove_thread_inv:
  assumes inv: "sched_inv X s" and t: "threads s t = Some th" "stat_of th \<noteq> RT_THREAD_INIT"
    "stat_of th \<noteq> RT_THREAD_CLOSE"
  obtains g where "rt_schedule_remove_thread t s =
      Inr (s\<lparr> queues := (\<lambda>q. remove1 t (queues s q)), ready_group := g \<rparr>)"
    and "sched_inv (insert t X) (s\<lparr> queues := (\<lambda>q. remove1 t (queues s q)), ready_group := g \<rparr>)"
    and "\<And>q. t \<notin> set (remove1 t (queues s q))"
proof -
  let ?p = "unat (th_current_priority th)"
  have links: "links_ok s" and prios: "prios_ok s" and stats: "stats_ok X s"
    using inv by (auto simp: sched_inv_def)
  have p: "?p < 32" "th_number_mask th = push_bit ?p 1" using prios t by (auto simp: prios_ok_def prio_ok_def)
  define g where "g = (if remove1 t (queues s (Ready ?p)) = [] then ready_group s AND NOT (push_bit ?p 1) else ready_group s)"
  define s' where "s' = s\<lparr> queues := (\<lambda>q. remove1 t (queues s q)), ready_group := g \<rparr>"
  have run: "rt_schedule_remove_thread t s = Inr s'"
    using t p by (simp add: rt_schedule_remove_thread_def with_thread_def unlink_def s'_def g_def Let_def)
  have dist: "distinct (queues s q)" for q using links by (simp add: links_ok_def)
  then have out: "t \<notin> set (remove1 t (queues s q))" for q by simp
  have other: "remove1 t (queues s (Ready i)) = queues s (Ready i)" if "i \<noteq> ?p" for i
    using that prios t by (intro remove1_idem) (auto simp: prios_ok_def)
  have group: "queues s' (Ready i) \<noteq> [] \<longleftrightarrow> bit (ready_group s') i" for i
  proof (cases "i = ?p")
    case True
    then show ?thesis using links p by (auto simp: s'_def g_def links_ok_def bit_simps remove1_split)
  next
    case False
    then show ?thesis using links other [OF False]
      by (auto simp: s'_def g_def links_ok_def bit_simps bit_mask_1 dest: bit_imp_le_length)
  qed
  have sub: "x \<in> set (remove1 t (queues s q)) \<longleftrightarrow> x \<in> set (queues s q) \<and> x \<noteq> t" for x q
    using dist by auto
  have "links_ok s'"
    using links group unfolding links_ok_def by (auto simp: s'_def sub)
  moreover have "prios_ok s'" using prios unfolding prios_ok_def by (auto simp: s'_def sub)
  moreover have "stats_ok (insert t X) s'"
    using stats unfolding stats_ok_def by (simp add: s'_def sub)
  ultimately have "sched_inv (insert t X) s'" by (simp add: sched_inv_def)
  then show thesis using that [of g] run out by (simp add: s'_def)
qed

text \<open>Giving a thread that is in no list a status other than ready.\<close>

lemma set_stat_inv:
  assumes inv: "sched_inv (insert t X) s" and t: "threads s t = Some th"
    and out: "\<And>q. t \<notin> set (queues s q)"
    and x: "stat_of th' \<noteq> RT_THREAD_READY"
      "stat_of th' = RT_THREAD_RUNNING \<Longrightarrow> current_thread s = Some t"
      "current_thread s = Some t \<Longrightarrow> stat_of th' \<noteq> RT_THREAD_INIT"
    and pr: "stat_of th' \<noteq> RT_THREAD_INIT \<Longrightarrow> stat_of th' \<noteq> RT_THREAD_CLOSE \<Longrightarrow> prio_ok th'"
  shows "sched_inv X (set_thread t th' s)"
proof -
  have "links_ok (set_thread t th' s)"
    using inv by (auto simp: sched_inv_def links_ok_def set_thread_def)
  moreover have "prios_ok (set_thread t th' s)"
    using inv pr out by (auto simp: sched_inv_def prios_ok_def set_thread_def)
  moreover have "stats_ok X (set_thread t th' s)"
    using inv x out unfolding sched_inv_def stats_ok_def set_thread_def by simp
  ultimately show ?thesis by (simp add: sched_inv_def)
qed

text \<open>Queueing a thread that is in no list.\<close>

lemma insert_thread_inv:
  assumes inv: "sched_inv (insert t X) s" and t: "threads s t = Some th"
    and out: "\<And>q. t \<notin> set (queues s q)" and c: "current_thread s \<noteq> Some t"
    and p: "prio_ok th"
  obtains s' where "rt_schedule_insert_thread t s = Inr s'" and "sched_inv X s'"
    and "s' = s\<lparr> threads := (threads s)(t := Some (with_stat RT_THREAD_READY th)),
      queues := (queues s)(Ready (unat (th_current_priority th)) := queues s (Ready (unat (th_current_priority th))) @ [t]),
      ready_group := ready_group s OR th_number_mask th \<rparr>"
proof -
  let ?p = "unat (th_current_priority th)"
  define s' where "s' = s\<lparr> threads := (threads s)(t := Some (with_stat RT_THREAD_READY th)),
      queues := (queues s)(Ready ?p := queues s (Ready ?p) @ [t]),
      ready_group := ready_group s OR th_number_mask th \<rparr>"
  have pp: "?p < 32" "th_number_mask th = push_bit ?p 1" using p by (auto simp: prio_ok_def)
  have run: "rt_schedule_insert_thread t s = Inr s'"
    using t c pp by (simp add: rt_schedule_insert_thread_def with_thread_def RT_THREAD_PRIORITY_MAX_def
        insert_before_def set_thread_def Let_def s'_def)
  have st: "stat_of (with_stat RT_THREAD_READY th) = RT_THREAD_READY" by (rule stat_of_with_stat) simp
  have mem: "x \<in> set (queues s' q) \<longleftrightarrow> x \<in> set (queues s q) \<or> x = t \<and> q = Ready ?p" for x q
    by (auto simp: s'_def)
  have links: "links_ok s" using inv by (simp add: sched_inv_def)
  have group: "queues s' (Ready i) \<noteq> [] \<longleftrightarrow> bit (ready_group s') i" for i
    using links pp by (auto simp: s'_def links_ok_def bit_simps bit_mask_1)
  have dist: "distinct (queues s' q)" for q
    using links out by (auto simp: s'_def links_ok_def)
  have f: "threads s' = (threads s)(t := Some (with_stat RT_THREAD_READY th))"
    "current_thread s' = current_thread s" by (simp_all add: s'_def)
  have "links_ok s'"
    using links out unfolding links_ok_def mem f group [symmetric] by (auto simp: dist)
  moreover have "prios_ok s'"
    using inv out p unfolding sched_inv_def prios_ok_def mem f by (auto simp: prio_ok_def)
  moreover have "stats_ok X s'"
    using inv out st c unfolding sched_inv_def stats_ok_def mem f by (simp split: if_split)
  ultimately have "sched_inv X s'" by (simp add: sched_inv_def)
  then show thesis using that [OF run] by (simp add: s'_def)
qed

lemma sched_inv_mono: "sched_inv X s \<Longrightarrow> X \<subseteq> Y \<Longrightarrow> sched_inv Y s"
  by (auto simp: sched_inv_def stats_ok_def)

section \<open>Scheduling\<close>

text \<open>A thread that may run: queued, or running already.\<close>

definition runnable :: "('a) ksys_scheme \<Rightarrow> nat \<Rightarrow> bool" where
  "runnable s t \<longleftrightarrow> (case threads s t of None \<Rightarrow> False
     | Some th \<Rightarrow> stat_of th = RT_THREAD_READY \<or> stat_of th = RT_THREAD_RUNNING)"

definition prio_of :: "('a) ksys_scheme \<Rightarrow> nat \<Rightarrow> nat" where
  "prio_of s t = (case threads s t of None \<Rightarrow> 0 | Some th \<Rightarrow> unat (th_current_priority th))"

lemma highest_ready:
  assumes inv: "sched_inv X s" and g: "ready_group s \<noteq> 0"
  obtains t p th where "get_highest_priority_thread s = Inr (t, p)" "p < 32"
    "t \<in> set (queues s (Ready p))" "queues s (Ready p) = t # tl (queues s (Ready p))"
    "threads s t = Some th" "unat (th_current_priority th) = p"
    "\<And>i. i < p \<Longrightarrow> queues s (Ready i) = []"
proof -
  let ?p = "rt_ffs (ready_group s) - 1"
  have links: "links_ok s" and prios: "prios_ok s" using inv by (auto simp: sched_inv_def)
  have b: "bit (ready_group s) ?p" "?p < 32" "\<And>i. i < ?p \<Longrightarrow> \<not> bit (ready_group s) i"
    using rt_ffs_least [OF g] by auto
  then obtain t ts where q: "queues s (Ready ?p) = t # ts"
    using links by (metis links_ok_def neq_Nil_conv)
  then have m: "t \<in> set (queues s (Ready ?p))" by simp
  then have "threads s t \<noteq> None" using links unfolding links_ok_def by blast
  then obtain th where th: "threads s t = Some th" by auto
  show thesis
  proof (rule that [of t ?p th])
    show "get_highest_priority_thread s = Inr (t, ?p)"
      unfolding get_highest_priority_thread_def Let_def q by simp
    show "unat (th_current_priority th) = ?p" using prios th m by (auto simp: prios_ok_def)
    show "queues s (Ready i) = []" if "i < ?p" for i using b(3) [OF that] links by (auto simp: links_ok_def)
  qed (use b m q th in auto)
qed

lemma ready_prio_ge:
  assumes inv: "sched_inv {} s" and e: "\<And>i. i < p \<Longrightarrow> queues s (Ready i) = []"
    and t: "threads s t = Some th" "stat_of th = RT_THREAD_READY"
  shows "p \<le> unat (th_current_priority th)"
proof -
  obtain i where i: "t \<in> set (queues s (Ready i))"
    using inv t unfolding sched_inv_def stats_ok_def by blast
  then have "i = unat (th_current_priority th)" using inv t unfolding sched_inv_def prios_ok_def by blast
  then show ?thesis using e [of i] i by (cases "i < p") auto
qed

lemma same_env_fields:
  "ksys.more (s\<lparr> threads := a \<rparr>) = ksys.more s" "ksys.more (s\<lparr> queues := b \<rparr>) = ksys.more s"
  "ksys.more (s\<lparr> ready_group := g \<rparr>) = ksys.more s"
  "ksys.more (s\<lparr> current_thread := c \<rparr>) = ksys.more s" "ksys.more (s\<lparr> current_priority := d \<rparr>) = ksys.more s"
  "ksys.more (s\<lparr> lock_nest := l \<rparr>) = ksys.more s"
  by (cases s; simp)+

text \<open>Making a queued thread, or the current one, the running one.\<close>

lemma run_thread:
  assumes inv: "sched_inv X s" and t: "threads s t = Some th" "stat_of th \<noteq> RT_THREAD_INIT"
      "stat_of th \<noteq> RT_THREAD_CLOSE"
    and c: "current_thread s = Some t" and X: "X \<subseteq> {t}"
  obtains s' where "make_running t s = Inr s'"
    and "sched_inv {} s'" "threads s' = (threads s)(t := Some (with_stat RT_THREAD_RUNNING th))"
    and "current_thread s' = Some t" "lock_nest s' = lock_nest s" "timers s' = timers s"
    and "timer_list s' = timer_list s" "rt_tick s' = rt_tick s"
    and "queues s' = (\<lambda>q. remove1 t (queues s q))" "ksys.more s' = ksys.more s"
    and "interrupt_nest s' = interrupt_nest s"
proof -
  from remove_thread_inv [OF inv t] obtain g where
    r: "rt_schedule_remove_thread t s = Inr (s\<lparr> queues := (\<lambda>q. remove1 t (queues s q)), ready_group := g \<rparr>)"
      "sched_inv (insert t X) (s\<lparr> queues := (\<lambda>q. remove1 t (queues s q)), ready_group := g \<rparr>)"
      "\<And>q. t \<notin> set (remove1 t (queues s q))" by blast
  let ?s1 = "s\<lparr> queues := (\<lambda>q. remove1 t (queues s q)), ready_group := g \<rparr>"
  have ix: "insert t X = insert t {}" using X by auto
  have st: "stat_of (with_stat RT_THREAD_RUNNING th) = RT_THREAD_RUNNING" by (rule stat_of_with_stat) simp
  have pr: "prio_ok (with_stat RT_THREAD_RUNNING th)"
    using inv t by (auto simp: sched_inv_def prios_ok_def prio_ok_def)
  have "sched_inv {} (set_thread t (with_stat RT_THREAD_RUNNING th) ?s1)"
    by (rule set_stat_inv [OF r(2) [unfolded ix], where th = th])
      (use t c r(3) st pr in auto)
  then show thesis
    by (intro that [of "set_thread t (with_stat RT_THREAD_RUNNING th) ?s1"])
      (use r(1) t c in \<open>simp_all add: make_running_def with_thread_def set_thread_def same_env_fields\<close>)
qed

definition same_env :: "('a) ksys_scheme \<Rightarrow> ('a) ksys_scheme \<Rightarrow> bool" where
  "same_env s s' \<longleftrightarrow> timers s' = timers s \<and> timer_list s' = timer_list s \<and> rt_tick s' = rt_tick s \<and>
     lock_nest s' = lock_nest s \<and> interrupt_nest s' = interrupt_nest s \<and> ksys.more s' = ksys.more s"

lemma stat_clear_yield: "stat_of (th\<lparr> th_stat := th_stat th AND NOT 8 \<rparr>) = stat_of th"
  "stat_of (th\<lparr> th_stat := th_stat th AND - 9 \<rparr>) = stat_of th"
  by (simp_all add: stat_of_def and.assoc)

lemma current_facts:
  assumes inv: "sched_inv {} s" and c: "current_thread s = Some c"
  obtains th where "threads s c = Some th" "stat_of th \<noteq> RT_THREAD_READY" "stat_of th \<noteq> RT_THREAD_INIT"
    "stat_of th = RT_THREAD_RUNNING \<Longrightarrow> prio_ok th" "\<And>i. c \<notin> set (queues s (Ready i))"
    "stat_of th = RT_THREAD_RUNNING \<Longrightarrow> c \<notin> set (queues s q)"
proof -
  have "threads s c \<noteq> None" using inv c unfolding sched_inv_def links_ok_def by blast
  then obtain th where th: "threads s c = Some th" by blast
  have st: "stat_of th \<noteq> RT_THREAD_READY" "stat_of th \<noteq> RT_THREAD_INIT"
    "\<And>q. c \<in> set (queues s q) \<Longrightarrow> stat_of th = queue_stat q"
    using inv c th unfolding sched_inv_def stats_ok_def by auto
  have p: "prio_ok th" if "stat_of th = RT_THREAD_RUNNING"
    using inv th st(2) that unfolding sched_inv_def prios_ok_def by auto
  have r: "c \<notin> set (queues s (Ready i))" for i using st(1) st(3) [of "Ready i"] by auto
  have "c \<notin> set (queues s q)" if "stat_of th = RT_THREAD_RUNNING" using st(3) [of q] that by (cases q) auto
  then show thesis using that th st p r by blast
qed

text \<open>What a call of \<^verbatim>\<open>rt_schedule\<close> leaves of every thread, \<open>d\<close> being the one it chose.\<close>

definition after_switch :: "nat \<Rightarrow> thread \<Rightarrow> nat \<Rightarrow> thread \<Rightarrow> bool" where
  "after_switch d th t th' \<longleftrightarrow>
     th_current_priority th' = th_current_priority th \<and> th_error th' = th_error th \<and>
     th_event_set th' = th_event_set th \<and> th_event_info th' = th_event_info th \<and>
     th_object th' = th_object th \<and> th_init_priority th' = th_init_priority th \<and>
     th_static th' = th_static th \<and> th_has_cleanup th' = th_has_cleanup th \<and>
     stat_of th' = (if t = d then RT_THREAD_RUNNING
                    else if stat_of th = RT_THREAD_RUNNING then RT_THREAD_READY else stat_of th)"

lemma stat_rules:
  "stat_of (with_stat 3 th) = 3" "stat_of (with_stat 1 th) = 1"
  "stat_of (with_stat 2 th) = 2" "stat_of (with_stat 4 th) = 4"
  by (rule stat_of_with_stat; simp)+

lemma schedule_stay:
  assumes inv: "sched_inv {} s" and lock: "lock_nest s = 0" and g: "ready_group s \<noteq> 0"
    and c: "current_thread s = Some c" and th: "threads s c = Some th"
    and h: "get_highest_priority_thread s = Inr (to0, p)" and st: "stays_running th p"
  shows "\<exists>s'. rt_schedule s = Inr s' \<and> sched_inv {} s' \<and> current_thread s' = Some c \<and>
    (\<forall>t u. threads s t = Some u \<longrightarrow> (\<exists>u'. threads s' t = Some u' \<and> after_switch c u t u')) \<and>
    queues s' = queues s \<and> same_env s s' \<and> (\<forall>t. threads s t = None \<longrightarrow> threads s' t = None)"
proof -
  have run: "stat_of th = RT_THREAD_RUNNING" using st by (simp add: stays_running_def)
  have "stat_of th \<noteq> RT_THREAD_INIT" "stat_of th \<noteq> RT_THREAD_CLOSE" using run by simp_all
  from run_thread [OF inv th this c] obtain s' where
    r: "make_running c s = Inr s'"
      "sched_inv {} s'" "threads s' = (threads s)(c := Some (with_stat RT_THREAD_RUNNING th))"
      "current_thread s' = Some c" "lock_nest s' = lock_nest s" "timers s' = timers s"
      "timer_list s' = timer_list s" "rt_tick s' = rt_tick s"
      "queues s' = (\<lambda>q. remove1 c (queues s q))" "ksys.more s' = ksys.more s"
      "interrupt_nest s' = interrupt_nest s" by blast
  have sch: "rt_schedule s = Inr s'"
    using lock g c th st r(1) by (simp add: rt_schedule_def h with_thread_def)
  have nq: "c \<notin> set (queues s q)" for q
    using current_facts [OF inv c] th run by (metis option.inject)
  then have q: "queues s' = queues s" by (simp add: r(9) remove1_idem)
  have "\<exists>u'. threads s' t = Some u' \<and> after_switch c u t u'" if "threads s t = Some u" for t u
  proof (cases "t = c")
    case True
    then show ?thesis using that th by (simp add: r(3) after_switch_def stat_rules)
      (simp add: with_stat_def)
  next
    case False
    have "stat_of u \<noteq> RT_THREAD_RUNNING"
      using inv that c False unfolding sched_inv_def stats_ok_def by auto
    then show ?thesis using that False by (simp add: r(3) after_switch_def)
  qed
  moreover have "threads s' t = None" if "threads s t = None" for t using that th by (auto simp: r(3))
  ultimately show ?thesis using sch r(2,4-11) q by (intro exI [of _ s']) (simp add: same_env_def)
qed

text \<open>The current thread's own record may change as long as its status and priority do not, and the
  current-thread pointer may move to a queued thread, while the two are being switched.\<close>

lemma redirect_inv:
  assumes inv: "sched_inv {} s" and c: "current_thread s = Some c" "threads s c = Some th"
    and d: "threads s d = Some dth" "d \<noteq> c"
    and cth: "stat_of cth = stat_of th" "th_current_priority cth = th_current_priority th"
      "th_number_mask cth = th_number_mask th"
    and s1: "threads s1 = (threads s)(c := Some cth)" "queues s1 = queues s" "current_thread s1 = Some d"
      "ready_group s1 = ready_group s"
    and X: "stat_of th = RT_THREAD_RUNNING \<Longrightarrow> c \<in> X" "d \<in> X"
  shows "sched_inv X s1"
proof -
  have links: "links_ok s" and prios: "prios_ok s" and stats: "stats_ok {} s"
    using inv by (simp_all add: sched_inv_def)
  have "links_ok s1"
    using links d unfolding links_ok_def s1 by simp
  moreover have same: "\<exists>v. threads s t = Some v \<and> stat_of u = stat_of v \<and>
      th_current_priority u = th_current_priority v \<and> th_number_mask u = th_number_mask v"
    if "threads s1 t = Some u" for t u
    using that c cth by (cases "t = c") (simp_all add: s1)
  moreover have "prios_ok s1"
    unfolding prios_ok_def
  proof (intro allI impI)
    fix t u assume "threads s1 t = Some u"
    from same [OF this] obtain v where v: "threads s t = Some v" "stat_of u = stat_of v"
      "th_current_priority u = th_current_priority v" "th_number_mask u = th_number_mask v" by blast
    show "(stat_of u \<noteq> RT_THREAD_INIT \<and> stat_of u \<noteq> RT_THREAD_CLOSE \<longrightarrow> prio_ok u) \<and>
        (\<forall>p. t \<in> set (queues s1 (Ready p)) \<longrightarrow> p = unat (th_current_priority u))"
      using prios [unfolded prios_ok_def, rule_format, OF v(1)]
      unfolding prio_ok_def v(2-4) s1(2) by blast
  qed
  moreover have "stats_ok X s1"
    unfolding stats_ok_def
  proof (intro allI impI)
    fix t u assume tu: "threads s1 t = Some u" and t: "t \<notin> X"
    from same [OF tu] obtain v where v: "threads s t = Some v" "stat_of u = stat_of v"
      "th_current_priority u = th_current_priority v" "th_number_mask u = th_number_mask v" by blast
    have st: "(\<forall>q. t \<in> set (queues s q) \<longrightarrow> stat_of v = queue_stat q)"
        "(stat_of v = RT_THREAD_READY \<longrightarrow> (\<exists>p. t \<in> set (queues s (Ready p))))"
        "(stat_of v = RT_THREAD_RUNNING \<longrightarrow> current_thread s = Some t)"
      using stats v(1) unfolding stats_ok_def by blast+
    have "t \<noteq> d" using t X by blast
    moreover have "stat_of v \<noteq> RT_THREAD_RUNNING"
    proof
      assume r: "stat_of v = RT_THREAD_RUNNING"
      then have "t = c" using st(3) c by simp
      then show False using r X(1) c(2) v(1) t by simp
    qed
    ultimately show "(\<forall>q. t \<in> set (queues s1 q) \<longrightarrow> stat_of u = queue_stat q) \<and>
        (stat_of u = RT_THREAD_READY \<longrightarrow> (\<exists>p. t \<in> set (queues s1 (Ready p)))) \<and>
        (stat_of u = RT_THREAD_RUNNING \<longrightarrow> current_thread s1 = Some t) \<and>
        (current_thread s1 = Some t \<longrightarrow> stat_of u \<noteq> RT_THREAD_READY \<and> stat_of u \<noteq> RT_THREAD_INIT)"
      using st(1,2) unfolding v(2) s1(2,3) by blast
  qed
  ultimately show ?thesis unfolding sched_inv_def by blast
qed

lemma schedule_switch:
  assumes inv: "sched_inv {} s" and lock: "lock_nest s = 0" and g: "ready_group s \<noteq> 0"
    and c: "current_thread s = Some c" and th: "threads s c = Some th"
    and h: "get_highest_priority_thread s = Inr (d, p)"
    and d: "d \<in> set (queues s (Ready p))" "threads s d = Some dth"
    and st: "\<not> stays_running th p"
  shows "\<exists>s'. rt_schedule s = Inr s' \<and> sched_inv {} s' \<and> current_thread s' = Some d \<and>
    (\<forall>t u. threads s t = Some u \<longrightarrow> (\<exists>u'. threads s' t = Some u' \<and> after_switch d u t u')) \<and>
    queues s' = (\<lambda>q. remove1 d
      (if q = Ready (unat (th_current_priority th)) \<and> stat_of th = RT_THREAD_RUNNING
       then queues s q @ [c] else queues s q)) \<and> same_env s s' \<and> (\<forall>t. threads s t = None \<longrightarrow> threads s' t = None)"
proof -
  obtain thx where thx: "threads s c = Some thx" "stat_of thx \<noteq> RT_THREAD_READY" "stat_of thx \<noteq> RT_THREAD_INIT"
    "stat_of thx = RT_THREAD_RUNNING \<Longrightarrow> prio_ok thx" "\<And>i. c \<notin> set (queues s (Ready i))"
    "\<And>q. stat_of thx = RT_THREAD_RUNNING \<Longrightarrow> c \<notin> set (queues s q)"
    using current_facts [OF inv c] by (metis option.inject)
  have cf: "stat_of th \<noteq> RT_THREAD_READY" "stat_of th \<noteq> RT_THREAD_INIT"
    "stat_of th = RT_THREAD_RUNNING \<Longrightarrow> prio_ok th"
    "\<And>q. stat_of th = RT_THREAD_RUNNING \<Longrightarrow> c \<notin> set (queues s q)"
    using thx th by auto
  have dst: "stat_of dth = RT_THREAD_READY"
    using inv d unfolding sched_inv_def stats_ok_def by fastforce
  have ne: "d \<noteq> c" using dst cf(1) th d(2) by auto
  define need where "need = (stat_of th = RT_THREAD_RUNNING)"
  define cth where "cth = (if need then th\<lparr> th_stat := th_stat th AND NOT RT_THREAD_STAT_YIELD \<rparr> else th)"
  have cth: "stat_of cth = stat_of th" "th_current_priority cth = th_current_priority th"
    "th_error cth = th_error th" "need \<Longrightarrow> prio_ok cth" "th_event_set cth = th_event_set th"
    "th_event_info cth = th_event_info th" "th_object cth = th_object th"
    "th_init_priority cth = th_init_priority th" "th_static cth = th_static th" "th_has_cleanup cth = th_has_cleanup th"
    "th_number_mask cth = th_number_mask th"
    using cf by (auto simp: cth_def stat_clear_yield prio_ok_def need_def)
  define s0 where "s0 = (if need then set_thread c cth s else s)"
  define s1 where "s1 = s0\<lparr> current_priority := of_nat p, current_thread := Some d \<rparr>"
  have sch: "rt_schedule s = rbind (if need then rt_schedule_insert_thread c s1 else Inr s1) (make_running d)"
    using lock g c th ne st unfolding rt_schedule_def h with_thread_def s1_def s0_def cth_def need_def Let_def
    by simp
  have s1f: "threads s1 = (threads s)(c := Some cth)" "queues s1 = queues s" "current_thread s1 = Some d"
    "ready_group s1 = ready_group s" "lock_nest s1 = lock_nest s" "timers s1 = timers s"
    "timer_list s1 = timer_list s" "rt_tick s1 = rt_tick s" "ksys.more s1 = ksys.more s"
    "interrupt_nest s1 = interrupt_nest s"
    using th by (auto simp: s1_def s0_def set_thread_def cth_def same_env_fields)
  have inv1: "sched_inv (insert c {d}) s1"
    by (rule redirect_inv [OF inv c th d(2) ne cth(1,2,11) s1f(1-4)]) auto
  obtain s2 where s2: "(if need then rt_schedule_insert_thread c s1 else Inr s1) = Inr s2" "sched_inv {d} s2"
    "\<And>t. t \<noteq> c \<Longrightarrow> threads s2 t = threads s1 t"
    "threads s2 c = Some (if need then with_stat RT_THREAD_READY cth else cth)"
    "queues s2 = (\<lambda>q. if q = Ready (unat (th_current_priority th)) \<and> need then queues s q @ [c] else queues s q)"
    "current_thread s2 = Some d" "same_env s s2"
  proof (cases need)
    case False
    have "sched_inv {d} s1"
      by (rule redirect_inv [OF inv c th d(2) ne cth(1,2,11) s1f(1-4)]) (use False need_def in auto)
    then show thesis using that [of s1] False s1f by (simp add: same_env_def)
  next
    case True
    have out: "\<And>q. c \<notin> set (queues s1 q)" using cf(4) True by (simp add: s1f need_def)
    have "current_thread s1 \<noteq> Some c" using ne by (simp add: s1f)
    from insert_thread_inv [OF inv1 _ out this cth(4) [OF True]] obtain s2 where
      i: "rt_schedule_insert_thread c s1 = Inr s2" "sched_inv {d} s2"
      "s2 = s1\<lparr> threads := (threads s1)(c := Some (with_stat RT_THREAD_READY cth)),
        queues := (queues s1)(Ready (unat (th_current_priority cth)) := queues s1 (Ready (unat (th_current_priority cth))) @ [c]),
        ready_group := ready_group s1 OR th_number_mask cth \<rparr>"
      by (auto simp: s1f)
    have "queues s2 = (\<lambda>q. if q = Ready (unat (th_current_priority th)) \<and> need then queues s q @ [c] else queues s q)"
      using True by (auto simp: i(3) s1f cth)
    moreover have "same_env s s2" by (simp add: i(3) same_env_def s1f same_env_fields)
    ultimately show thesis using that [of s2] True i(1,2) by (simp add: i(3) s1f)
  qed
  have d2: "threads s2 d = Some dth" using ne d by (simp add: s2(3) s1f)
  have "stat_of dth \<noteq> RT_THREAD_INIT" "stat_of dth \<noteq> RT_THREAD_CLOSE" using dst by simp_all
  from run_thread [OF s2(2) d2 this s2(6)] obtain s' where
    r: "make_running d s2 = Inr s'" "sched_inv {} s'"
      "threads s' = (threads s2)(d := Some (with_stat RT_THREAD_RUNNING dth))"
      "current_thread s' = Some d" "lock_nest s' = lock_nest s2" "timers s' = timers s2"
      "timer_list s' = timer_list s2" "rt_tick s' = rt_tick s2"
      "queues s' = (\<lambda>q. remove1 d (queues s2 q))" "ksys.more s' = ksys.more s2"
      "interrupt_nest s' = interrupt_nest s2" by blast
  have "\<exists>u'. threads s' t = Some u' \<and> after_switch d u t u'" if u: "threads s t = Some u" for t u
  proof (cases "t = d")
    case True
    then show ?thesis using u d by (simp add: r(3) after_switch_def stat_rules) (simp add: with_stat_def)
  next
    case nd: False
    show ?thesis
    proof (cases "t = c")
      case True
      then show ?thesis using u th nd cth
        by (simp add: r(3) s2(4) after_switch_def stat_rules need_def) (simp add: with_stat_def)
    next
      case False
      have "stat_of u \<noteq> RT_THREAD_RUNNING"
        using inv u c False unfolding sched_inv_def stats_ok_def by auto
      then show ?thesis using u nd False by (simp add: r(3) s2(3) s1f after_switch_def)
    qed
  qed
  moreover have "rt_schedule s = Inr s'" using sch s2(1) r(1) by simp
  moreover have "same_env s s'" using s2(7) r by (simp add: same_env_def)
  moreover have "queues s' = (\<lambda>q. remove1 d
      (if q = Ready (unat (th_current_priority th)) \<and> stat_of th = RT_THREAD_RUNNING
       then queues s q @ [c] else queues s q))" unfolding r(9) s2(5) need_def ..
  moreover have "threads s' t = None" if "threads s t = None" for t
    using that th d by (cases "t = c") (auto simp: r(3) s2(3) s1f)
  ultimately show ?thesis using r(2,4) by blast
qed

section \<open>Every call of the scheduler\<close>

text \<open>What any call leaves alone; \<open>frame\<close> is the relation the kernel services rely on.\<close>

definition kept :: "thread \<Rightarrow> thread \<Rightarrow> bool" where
  "kept u u' \<longleftrightarrow> th_current_priority u' = th_current_priority u \<and> th_error u' = th_error u \<and>
     th_event_set u' = th_event_set u \<and> th_event_info u' = th_event_info u \<and>
     th_object u' = th_object u \<and> th_init_priority u' = th_init_priority u \<and>
     th_static u' = th_static u \<and> th_has_cleanup u' = th_has_cleanup u \<and>
     (stat_of u = RT_THREAD_READY \<or> stat_of u = RT_THREAD_RUNNING \<longleftrightarrow>
      stat_of u' = RT_THREAD_READY \<or> stat_of u' = RT_THREAD_RUNNING) \<and>
     (stat_of u \<noteq> RT_THREAD_READY \<and> stat_of u \<noteq> RT_THREAD_RUNNING \<longrightarrow> stat_of u' = stat_of u)"

definition frame :: "('a) ksys_scheme \<Rightarrow> ('a) ksys_scheme \<Rightarrow> bool" where
  "frame s s' \<longleftrightarrow> (\<forall>t u. threads s t = Some u \<longrightarrow> (\<exists>u'. threads s' t = Some u' \<and> kept u u')) \<and>
     (\<forall>t. threads s t = None \<longrightarrow> threads s' t = None) \<and>
     (\<forall>q. (\<forall>i. q \<noteq> Ready i) \<longrightarrow> queues s' q = queues s q) \<and> same_env s s' \<and>
     current_thread s' \<noteq> None \<and>
     (\<forall>d. current_thread s' = Some d \<longrightarrow> current_thread s = Some d \<or> runnable s d)"

lemma kept_refl: "kept u u"
  by (auto simp: kept_def)

lemma kept_trans: "kept u v \<Longrightarrow> kept v w \<Longrightarrow> kept u w"
  unfolding kept_def by (elim conjE) (intro conjI; simp)

lemma kept_after_switch: "after_switch d u t u' \<Longrightarrow> (t = d \<Longrightarrow> stat_of u = 1 \<or> stat_of u = 3) \<Longrightarrow> kept u u'"
  by (auto simp: after_switch_def kept_def split: if_splits)

lemma frameI:
  assumes "\<And>t u. threads s t = Some u \<Longrightarrow> \<exists>u'. threads s' t = Some u' \<and> kept u u'"
    and "\<And>q. (\<forall>i. q \<noteq> Ready i) \<Longrightarrow> queues s' q = queues s q"
    and "same_env s s'" "current_thread s' = Some d" "\<And>t. threads s t = None \<Longrightarrow> threads s' t = None"
    and "current_thread s = Some d \<or> runnable s d"
  shows "frame s s'"
  unfolding frame_def using assms by (intro conjI allI impI) simp_all

lemma frameD: "frame s s' \<Longrightarrow> threads s t = Some u \<Longrightarrow> \<exists>u'. threads s' t = Some u' \<and> kept u u'"
  unfolding frame_def by blast

lemma current_exists: "sched_inv X s \<Longrightarrow> current_thread s = Some c \<Longrightarrow> \<exists>th. threads s c = Some th"
  unfolding sched_inv_def links_ok_def by (metis option.exhaust)

lemma one_list:
  assumes "sched_inv X s" "t \<in> set (queues s q)" "t \<in> set (queues s q')"
  shows "q = q'"
proof -
  have "links_ok s" using assms(1) by (simp add: sched_inv_def)
  then have "\<forall>q q' t. t \<in> set (queues s q) \<longrightarrow> t \<in> set (queues s q') \<longrightarrow> q = q'"
    unfolding links_ok_def by (elim conjE)
  then show ?thesis using assms(2,3) by blast
qed

lemma runnable_iff: "runnable s t \<longleftrightarrow> (\<exists>u. threads s t = Some u \<and> (stat_of u = 1 \<or> stat_of u = 3))"
  by (simp add: runnable_def split: option.splits)

lemma head_is_ready:
  assumes inv: "sched_inv X s" and d: "d \<in> set (queues s (Ready p))" "threads s d = Some dth" "d \<notin> X"
  shows "stat_of dth = RT_THREAD_READY"
proof -
  have "stats_ok X s" using inv by (simp add: sched_inv_def)
  from this [unfolded stats_ok_def, rule_format, OF d(2,3)] d(1) show ?thesis by auto
qed

lemma switch_kept:
  assumes "\<forall>t u. threads s t = Some u \<longrightarrow> (\<exists>u'. threads s' t = Some u' \<and> after_switch d u t u')"
    and d: "threads s d = Some dth" "stat_of dth = 1 \<or> stat_of dth = 3" and u: "threads s t = Some u"
  shows "\<exists>u'. threads s' t = Some u' \<and> kept u u'"
proof -
  obtain u' where u': "threads s' t = Some u'" "after_switch d u t u'" using assms(1) u by blast
  have "kept u u'" by (rule kept_after_switch [OF u'(2)]) (use d u in simp)
  then show ?thesis using u'(1) by blast
qed

lemma schedule_frame:
  assumes inv: "sched_inv {} s" and c: "current_thread s = Some c"
  obtains s' where "rt_schedule s = Inr s'" "sched_inv {} s'" "frame s s'"
proof (cases "lock_nest s = 0 \<and> ready_group s \<noteq> 0")
  case False
  then have "rt_schedule s = Inr s" by (auto simp: rt_schedule_def)
  moreover have "frame s s" using c by (auto simp: frame_def same_env_def intro: kept_refl)
  ultimately show thesis using inv that by blast
next
  case True
  then have lock: "lock_nest s = 0" and g: "ready_group s \<noteq> 0" by auto
  obtain d p dth where
    h: "get_highest_priority_thread s = Inr (d, p)" "d \<in> set (queues s (Ready p))" "threads s d = Some dth"
    by (rule highest_ready [OF inv g]) (rule that)
  obtain th where th: "threads s c = Some th" using current_exists [OF inv c] by (elim exE)
  have dst: "stat_of dth = RT_THREAD_READY"
    by (rule head_is_ready [OF inv h(2,3)]) simp
  show thesis
  proof (cases "stays_running th p")
    case True
    have run: "stat_of th = RT_THREAD_RUNNING" using True by (simp add: stays_running_def)
    from schedule_stay [OF inv lock g c th h(1) True] obtain s' where s': "rt_schedule s = Inr s'"
      "sched_inv {} s'" "current_thread s' = Some c"
      "\<forall>t u. threads s t = Some u \<longrightarrow> (\<exists>u'. threads s' t = Some u' \<and> after_switch c u t u')"
      "queues s' = queues s" "same_env s s'" "\<And>t. threads s t = None \<Longrightarrow> threads s' t = None" by blast
    have "stat_of th = 1 \<or> stat_of th = 3" using run by blast
    moreover have "queues s' q = queues s q" for q unfolding s'(5) ..
    moreover have "current_thread s = Some c \<or> runnable s c" using c by blast
    ultimately have "frame s s'"
      using frameI [OF switch_kept [OF s'(4) th] _ s'(6,3,7)] by blast
    then show thesis by (rule that [OF s'(1,2)])
  next
    case False
    from schedule_switch [OF inv lock g c th h False] obtain s' where s': "rt_schedule s = Inr s'"
      "sched_inv {} s'" "current_thread s' = Some d"
      "\<forall>t u. threads s t = Some u \<longrightarrow> (\<exists>u'. threads s' t = Some u' \<and> after_switch d u t u')"
      "queues s' = (\<lambda>q. remove1 d (if q = Ready (unat (th_current_priority th)) \<and> stat_of th = RT_THREAD_RUNNING
       then queues s q @ [c] else queues s q))" "same_env s s'"
      "\<And>t. threads s t = None \<Longrightarrow> threads s' t = None" by blast
    have "queues s' q = queues s q" if "\<forall>i. q \<noteq> Ready i" for q
    proof -
      have "d \<notin> set (queues s q)"
        using one_list [OF inv h(2), of q] that by blast
      then show ?thesis using that by (simp add: s'(5) remove1_idem)
    qed
    moreover have "stat_of dth = 1 \<or> stat_of dth = 3" using dst by blast
    moreover have "current_thread s = Some d \<or> runnable s d" using h(3) dst by (simp add: runnable_def)
    ultimately have "frame s s'"
      using frameI [OF switch_kept [OF s'(4) h(3)] _ s'(6,3,7)] by blast
    then show thesis by (rule that [OF s'(1,2)])
  qed
qed

section \<open>Properties\<close>

text \<open>C2: With the scheduler unlocked and some thread queued, \<^verbatim>\<open>rt_schedule\<close> leaves a runnable thread
  of the highest priority running and the whole scheduler state (queues, bitmap, statuses, priorities)
  consistent. It is the calling thread if that is running at a strictly higher priority than every queued
  one, or at the same priority without a pending yield; otherwise it is the first thread of its queue, and
  a preempted caller goes to the end of its own. No thread starts or stops being runnable.\<close>

theorem rt_schedule_picks_highest:
  "sched_inv {} s \<Longrightarrow> lock_nest s = 0 \<Longrightarrow> ready_group s \<noteq> 0 \<Longrightarrow> current_thread s = Some c \<Longrightarrow>
   threads s c = Some th \<Longrightarrow>
   \<exists>s' d p. rt_schedule s = Inr s' \<and> sched_inv {} s' \<and> current_thread s' = Some d \<and>
     runnable s d \<and> (\<forall>t. runnable s t \<longrightarrow> prio_of s d \<le> prio_of s t \<and> runnable s' t) \<and>
     queues s (Ready p) \<noteq> [] \<and> (\<forall>i < p. queues s (Ready i) = []) \<and>
     (if stays_running th p then d = c
      else d = hd (queues s (Ready p)) \<and>
        (stat_of th = RT_THREAD_RUNNING \<longrightarrow> last (queues s' (Ready (prio_of s c))) = c))"
proof -
  assume inv: "sched_inv {} s" and lock: "lock_nest s = 0" and g: "ready_group s \<noteq> 0"
    and c: "current_thread s = Some c" and th: "threads s c = Some th"
  from highest_ready [OF inv g] obtain d p dth where
    h: "get_highest_priority_thread s = Inr (d, p)" "p < 32" "d \<in> set (queues s (Ready p))"
      "queues s (Ready p) = d # tl (queues s (Ready p))" "threads s d = Some dth"
      "unat (th_current_priority dth) = p" "\<And>i. i < p \<Longrightarrow> queues s (Ready i) = []" by blast
  have hdq: "hd (queues s (Ready p)) = d" and neq: "queues s (Ready p) \<noteq> []" by (subst h(4), simp)+
  have dst: "stat_of dth = RT_THREAD_READY" by (rule head_is_ready [OF inv h(3,5)]) simp
  have ready_ge: "p \<le> unat (th_current_priority u)" if "threads s t = Some u" "stat_of u = RT_THREAD_READY" for t u
    by (rule ready_prio_ge [OF inv h(7) that])
  have only: "t = c" if "threads s t = Some u" "stat_of u = RT_THREAD_RUNNING" for t u
    using inv that c unfolding sched_inv_def stats_ok_def by fastforce
  have keep: "runnable s' t" if fr: "frame s s'" and r: "runnable s t" for s' :: "'a ksys_scheme" and t
  proof -
    obtain u where u: "threads s t = Some u" using r unfolding runnable_iff by blast
    from frameD [OF fr u] obtain u' where "threads s' t = Some u'" "kept u u'" by blast
    then show ?thesis using r u by (simp add: runnable_def kept_def)
  qed
  obtain s' where s': "rt_schedule s = Inr s'" "sched_inv {} s'" "frame s s'"
    using schedule_frame [OF inv c] by blast
  show ?thesis
  proof (cases "stays_running th p")
    case True
    then have run: "stat_of th = RT_THREAD_RUNNING" and le: "unat (th_current_priority th) \<le> p"
      by (auto simp: stays_running_def)
    have cur: "current_thread s' = Some c"
      using schedule_stay [OF inv lock g c th h(1) True] s'(1) by auto
    have "prio_of s c \<le> prio_of s t" if rt: "runnable s t" for t
    proof -
      obtain u where u: "threads s t = Some u" "stat_of u = 1 \<or> stat_of u = 3"
        using rt unfolding runnable_iff by blast
      then show ?thesis using ready_ge [OF u(1)] only [OF u(1)] le th by (auto simp: prio_of_def)
    qed
    then show ?thesis
      using s' cur True neq h(7) keep [OF s'(3)] run th
      by (intro exI [of _ s'] exI [of _ c] exI [of _ p]) (simp add: runnable_def)
  next
    case False
    from schedule_switch [OF inv lock g c th h(1,3,5) False] s'(1) have cur: "current_thread s' = Some d"
      and q: "queues s' = (\<lambda>q. remove1 d (if q = Ready (unat (th_current_priority th)) \<and> stat_of th = RT_THREAD_RUNNING
       then queues s q @ [c] else queues s q))" by auto
    have "prio_of s d \<le> prio_of s t" if rt: "runnable s t" for t
    proof -
      obtain u where u: "threads s t = Some u" "stat_of u = 1 \<or> stat_of u = 3"
        using rt unfolding runnable_iff by blast
      show ?thesis
      proof (cases "stat_of u = 1")
        case True
        then show ?thesis using ready_ge [OF u(1)] u h(5,6) by (simp add: prio_of_def)
      next
        case nr: False
        then have "t = c" using only [OF u(1)] u by simp
        then show ?thesis using False u nr th h(5,6) by (auto simp: prio_of_def stays_running_def)
      qed
    qed
    moreover have "last (queues s' (Ready (prio_of s c))) = c" if "stat_of th = RT_THREAD_RUNNING"
    proof -
      have "d \<noteq> c" using dst that th h(5) by auto
      then have "remove1 d (xs @ [c]) = remove1 d xs @ [c]" for xs by (induction xs) auto
      then show ?thesis using that th by (simp add: q prio_of_def)
    qed
    ultimately show ?thesis
      using s' cur False neq h(5,7) keep [OF s'(3)] dst hdq
      by (intro exI [of _ s'] exI [of _ d] exI [of _ p]) (simp add: runnable_def)
  qed
qed

definition sample_thread :: "u8 \<Rightarrow> u8 \<Rightarrow> thread" where
  "sample_thread st pr = \<lparr> th_stat = st, th_init_priority = pr, th_current_priority = pr,
     th_number_mask = push_bit (unat pr) 1, th_init_tick = 20, th_remaining_tick = 20, th_error = 0,
     th_event_set = 0, th_event_info = 0, th_static = False, th_has_cleanup = False, th_object = True \<rparr>"

text \<open>Thread 0 runs at priority 5, thread 1 is ready at priority 3.\<close>

definition sample_sched :: ksys where
  "sample_sched = \<lparr> rt_tick = 100,
     timers = (\<lambda>_. None)(Thread_timer 0 := Some \<lparr> tm_flag = 0, tm_init_tick = 0, tm_timeout_tick = 0, tm_static = True \<rparr>,
                         Thread_timer 1 := Some \<lparr> tm_flag = 0, tm_init_tick = 0, tm_timeout_tick = 0, tm_static = True \<rparr>),
     detached_flag = (\<lambda>_. None), timer_list = [], threads = (\<lambda>_. None)(0 := Some (sample_thread 3 5), 1 := Some (sample_thread 1 3)),
     queues = (\<lambda>_. [])(Ready 3 := [1]), ready_group = 8, current_thread = Some 0,
     current_priority = 5, lock_nest = 0, interrupt_nest = 0 \<rparr>"

lemma sample_sched_inv: "sched_inv {} sample_sched"
proof -
  have "push_bit 3 (1 :: u32) = 8" "push_bit 5 (1 :: u32) = 32" by (simp_all add: push_bit_eq_mult)
  moreover have "bit (8 :: u32) p \<longleftrightarrow> p = 3" for p
    using bit_mask_1 [of 3 p] by (simp add: push_bit_eq_mult)
  ultimately show ?thesis
    by (simp add: sched_inv_def links_ok_def prios_ok_def prio_ok_def stats_ok_def sample_sched_def
        sample_thread_def stat_of_def)
qed

theorem rt_schedule_picks_highest_witness:
  "\<exists>s'. rt_schedule sample_sched = Inr s' \<and> sched_inv {} s' \<and> current_thread s' = Some 1"
proof -
  have h: "lock_nest sample_sched = 0" "ready_group sample_sched \<noteq> 0" "current_thread sample_sched = Some 0"
    "threads sample_sched 0 = Some (sample_thread 3 5)"
    by (simp_all add: sample_sched_def)
  from rt_schedule_picks_highest [OF sample_sched_inv h] obtain s' d p where
    r: "rt_schedule sample_sched = Inr s'" "sched_inv {} s'" "current_thread s' = Some d"
      "queues sample_sched (Ready p) \<noteq> []"
      "if stays_running (sample_thread 3 5) p then d = 0 else d = hd (queues sample_sched (Ready p)) \<and>
        (stat_of (sample_thread 3 5) = RT_THREAD_RUNNING \<longrightarrow> last (queues s' (Ready (prio_of sample_sched 0))) = 0)"
    by blast
  have p: "p = 3" using r(4) by (auto simp: sample_sched_def split: if_splits)
  then have "\<not> stays_running (sample_thread 3 5) p" by (simp add: stays_running_def sample_thread_def)
  with r(5) p have "d = 1" by (simp add: sample_sched_def)
  with r show ?thesis by blast
qed

end
