(* ===== verification/Thread.thy ===== *)
theory Thread
  imports Sched
begin

text \<open>
  \<^verbatim>\<open>src/thread.c\<close>, the tick interrupt of \<^verbatim>\<open>src/clock.c\<close> and the reaping of dead threads by
  \<^verbatim>\<open>src/idle.c\<close>, over the state of the scheduler. A function that blocks is split at its call of
  \<^verbatim>\<open>rt_schedule\<close>: the part before it ends with another thread current, the part after it (suffix
  \<open>_return\<close>) is what the caller does when it runs again. Names, entry points and stacks of threads
  play no part in these functions and are left out, as are the hooks, which this build does not set.
\<close>

section \<open>Operations\<close>

text \<open>\<^verbatim>\<open>rt_object_init\<close> walks the list of registered objects with the scheduler locked, asserting
  that the object is not among them; unlocking schedules.\<close>

definition rt_object_init_walk :: "('a) ksys_scheme \<Rightarrow> ('a) ksys_scheme res" where
  "rt_object_init_walk s = rt_exit_critical (rt_enter_critical s)"

text \<open>The two event fields are not set: a thread that is initialised again has those of its last life. A structure
  from \<^verbatim>\<open>rt_object_allocate\<close>, or static storage never used before (\<open>None\<close>), is zero.\<close>

definition new_thread :: "thread option \<Rightarrow> bool \<Rightarrow> u8 \<Rightarrow> u32 \<Rightarrow> thread" where
  "new_thread old static priority tick = \<lparr> th_stat = RT_THREAD_INIT, th_init_priority = priority,
     th_current_priority = priority, th_number_mask = 0, th_init_tick = tick, th_remaining_tick = tick,
     th_error = RT_EOK, th_event_set = (case old of None \<Rightarrow> 0 | Some th \<Rightarrow> th_event_set th),
     th_event_info = (case old of None \<Rightarrow> 0 | Some th \<Rightarrow> th_event_info th), th_static = static,
     th_has_cleanup = False, th_object = True \<rparr>"

text \<open>The common part of creating a thread; the thread timer is an object of its own.\<close>

definition thread_init :: "bool \<Rightarrow> nat \<Rightarrow> u8 \<Rightarrow> u32 \<Rightarrow> ('a) ksys_scheme \<Rightarrow> (('a) ksys_scheme \<times> rt_err) res" where
  "thread_init static t priority tick s =
     rassert (unat priority < RT_THREAD_PRIORITY_MAX)
       (rbind (rt_object_init_walk (set_thread t (new_thread (if static then threads s t else None) static priority tick) s)) (\<lambda>s.
        rbind (rt_timer_init (Thread_timer t) 0 0 s) (\<lambda>s.
        Inr (s, RT_EOK))))"

definition rt_thread_init :: "nat \<Rightarrow> u8 \<Rightarrow> u32 \<Rightarrow> ('a) ksys_scheme \<Rightarrow> (('a) ksys_scheme \<times> rt_err) res" where
  "rt_thread_init t priority tick s =
     rassert (case threads s t of None \<Rightarrow> True | Some th \<Rightarrow> \<not> th_object th)
       (rbind (rt_object_init_walk s) (thread_init True t priority tick))"

text \<open>\<open>obj\<close> is what the allocator returns for the thread object, \<open>stack\<close> whether it finds a stack.\<close>

definition rt_thread_create ::
    "nat option \<Rightarrow> bool \<Rightarrow> u8 \<Rightarrow> u32 \<Rightarrow> ('a) ksys_scheme \<Rightarrow> (('a) ksys_scheme \<times> nat option) res" where
  "rt_thread_create obj stack priority tick s =
     rassert (interrupt_nest s = 0)
       (case obj of None \<Rightarrow> Inr (s, None)
        | Some t \<Rightarrow>
          if \<not> stack then Inr (s\<lparr> threads := (threads s)(t := None) \<rparr>, None)
          else rbind (thread_init False t priority tick s) (\<lambda>(s, _). Inr (s, Some t)))"

definition rt_thread_self :: "('a) ksys_scheme \<Rightarrow> nat option" where
  "rt_thread_self s = current_thread s"

definition rt_thread_suspend :: "nat \<Rightarrow> ('a) ksys_scheme \<Rightarrow> (('a) ksys_scheme \<times> rt_err) res" where
  "rt_thread_suspend t s = checked_thread t s (\<lambda>th.
     if stat_of th \<noteq> RT_THREAD_READY \<and> stat_of th \<noteq> RT_THREAD_RUNNING then Inr (s, - RT_ERROR)
     else rassert (stat_of th = RT_THREAD_RUNNING \<longrightarrow> rt_thread_self s = Some t)
       (rbind (rt_schedule_remove_thread t s) (\<lambda>s.
        with_thread t s (\<lambda>th.
        rbind (rt_timer_stop (Thread_timer t) (set_thread t (with_stat RT_THREAD_SUSPEND th) s)) (\<lambda>(s, _).
        Inr (s, RT_EOK))))))"

definition rt_thread_resume :: "nat \<Rightarrow> ('a) ksys_scheme \<Rightarrow> (('a) ksys_scheme \<times> rt_err) res" where
  "rt_thread_resume t s = checked_thread t s (\<lambda>th.
     if stat_of th \<noteq> RT_THREAD_SUSPEND then Inr (s, - RT_ERROR)
     else rbind (rt_timer_stop (Thread_timer t) (unlink t s)) (\<lambda>(s, _).
          rbind (rt_schedule_insert_thread t s) (\<lambda>s. Inr (s, RT_EOK))))"

definition rt_thread_startup :: "nat \<Rightarrow> ('a) ksys_scheme \<Rightarrow> (('a) ksys_scheme \<times> rt_err) res" where
  "rt_thread_startup t s = checked_thread t s (\<lambda>th. rassert (stat_of th = RT_THREAD_INIT)
     (let th = th\<lparr> th_current_priority := th_init_priority th,
                   th_number_mask := push_bit (unat (th_init_priority th)) 1,
                   th_stat := RT_THREAD_SUSPEND \<rparr> in
      rbind (rt_thread_resume t (set_thread t th s)) (\<lambda>(s, _).
      rbind (if rt_thread_self s \<noteq> None then rt_schedule s else Inr s) (\<lambda>s.
      Inr (s, RT_EOK)))))"

text \<open>The end of a thread: a static one without a cleanup function is only unregistered (its memory
  stays with its owner), every other one is left to the idle thread.\<close>

definition retire :: "nat \<Rightarrow> ('a) ksys_scheme \<Rightarrow> ('a) ksys_scheme res" where
  "retire t s = with_thread t s (\<lambda>th.
     if th_static th \<and> \<not> th_has_cleanup th then Inr (set_thread t (th\<lparr> th_object := False \<rparr>) s)
     else Inr (insert_after Defunct t s))"

definition close_thread :: "nat \<Rightarrow> ('a) ksys_scheme \<Rightarrow> ('a) ksys_scheme res" where
  "close_thread t s = with_thread t s (\<lambda>th. Inr (set_thread t (th\<lparr> th_stat := RT_THREAD_CLOSE \<rparr>) s))"

definition stop_thread :: "nat \<Rightarrow> thread \<Rightarrow> ('a) ksys_scheme \<Rightarrow> ('a) ksys_scheme res" where
  "stop_thread t th s =
     rbind (if stat_of th \<noteq> RT_THREAD_INIT then rt_schedule_remove_thread t s else Inr s) (\<lambda>s.
     rbind (rt_timer_detach (Thread_timer t) s) (\<lambda>(s, _). close_thread t s))"

definition rt_thread_detach :: "nat \<Rightarrow> ('a) ksys_scheme \<Rightarrow> (('a) ksys_scheme \<times> rt_err) res" where
  "rt_thread_detach t s = checked_thread t s (\<lambda>th. rassert (th_static th)
     (rbind (stop_thread t th s) (\<lambda>s.
      rbind (retire t s) (\<lambda>s. Inr (s, RT_EOK)))))"

definition rt_thread_delete :: "nat \<Rightarrow> ('a) ksys_scheme \<Rightarrow> (('a) ksys_scheme \<times> rt_err) res" where
  "rt_thread_delete t s = checked_thread t s (\<lambda>th. rassert (\<not> th_static th)
     (rbind (stop_thread t th s) (\<lambda>s. Inr (insert_after Defunct t s, RT_EOK))))"

text \<open>A thread's entry function returns to \<^verbatim>\<open>rt_thread_exit\<close>.\<close>

definition rt_thread_exit :: "('a) ksys_scheme \<Rightarrow> ('a) ksys_scheme res" where
  "rt_thread_exit s = (case rt_thread_self s of None \<Rightarrow> Inl Null_pointer | Some t \<Rightarrow>
     rbind (rt_schedule_remove_thread t s) (\<lambda>s.
     rbind (close_thread t s) (\<lambda>s.
     rbind (rt_timer_detach (Thread_timer t) s) (\<lambda>(s, _).
     rbind (retire t s) rt_schedule))))"

definition rt_thread_yield :: "('a) ksys_scheme \<Rightarrow> (('a) ksys_scheme \<times> rt_err) res" where
  "rt_thread_yield s = rbind (rt_schedule s) (\<lambda>s. Inr (s, RT_EOK))"

text \<open>\<^verbatim>\<open>rt_timer_control(.., RT_TIMER_CTRL_SET_TIME, &tick); rt_timer_start(..)\<close>\<close>

definition start_thread_timer :: "nat \<Rightarrow> u32 \<Rightarrow> ('a) ksys_scheme \<Rightarrow> ('a) ksys_scheme res" where
  "start_thread_timer t tick s =
     rbind (rt_timer_control (Thread_timer t) (Timer_set_time tick) s) (\<lambda>(s, _, _).
     rbind (rt_timer_start (Thread_timer t) s) (\<lambda>(s, _). Inr s))"

definition rt_thread_sleep :: "u32 \<Rightarrow> ('a) ksys_scheme \<Rightarrow> ('a) ksys_scheme res" where
  "rt_thread_sleep tick s = (case rt_thread_self s of None \<Rightarrow> Inl Assert_failed | Some t \<Rightarrow>
     checked_thread t s (\<lambda>_.
     rbind (rt_thread_suspend t s) (\<lambda>(s, _).
     rbind (start_thread_timer t tick s) rt_schedule)))"

definition rt_thread_sleep_return :: "nat \<Rightarrow> ('a) ksys_scheme \<Rightarrow> (('a) ksys_scheme \<times> rt_err) res" where
  "rt_thread_sleep_return t s = with_thread t s (\<lambda>th.
     Inr (if th_error th = - RT_ETIMEOUT then set_thread t (th\<lparr> th_error := RT_EOK \<rparr>) s else s, RT_EOK))"

definition rt_thread_delay :: "u32 \<Rightarrow> ('a) ksys_scheme \<Rightarrow> ('a) ksys_scheme res" where
  "rt_thread_delay tick s = rt_thread_sleep tick s"

definition rt_thread_mdelay :: "int \<Rightarrow> ('a) ksys_scheme \<Rightarrow> ('a) ksys_scheme res" where
  "rt_thread_mdelay ms s = rt_thread_sleep (rt_tick_from_millisecond ms) s"

text \<open>The value of \<^verbatim>\<open>*tick\<close> is a result; \<open>True\<close> says that the caller sleeps, and that
  \<open>rt_thread_delay_until_return\<close> is still to come.\<close>

definition rt_thread_delay_until :: "u32 \<Rightarrow> u32 \<Rightarrow> ('a) ksys_scheme \<Rightarrow> (('a) ksys_scheme \<times> u32 \<times> bool) res" where
  "rt_thread_delay_until tick inc s = (case rt_thread_self s of None \<Rightarrow> Inl Assert_failed | Some t \<Rightarrow>
     checked_thread t s (\<lambda>_.
     if rt_tick_get s - tick < inc
     then let tick = rt_tick_get s - tick + inc in
          rbind (rt_thread_suspend t s) (\<lambda>(s, _).
          rbind (start_thread_timer t tick s) (\<lambda>s.
          rbind (rt_schedule s) (\<lambda>s. Inr (s, tick, True))))
     else Inr (s, rt_tick_get s, False)))"

definition rt_thread_delay_until_return :: "nat \<Rightarrow> ('a) ksys_scheme \<Rightarrow> (('a) ksys_scheme \<times> u32 \<times> rt_err) res" where
  "rt_thread_delay_until_return t s =
     rbind (rt_thread_sleep_return t s) (\<lambda>(s, _). Inr (s, rt_tick_get s, RT_EOK))"

datatype thread_cmd = Change_priority u8 | Startup | Close | Other_thread_cmd

text \<open>Shifting 1 by 32 or more is undefined.\<close>

definition set_priority :: "nat \<Rightarrow> u8 \<Rightarrow> ('a) ksys_scheme \<Rightarrow> ('a) ksys_scheme res" where
  "set_priority t p s =
     (if unat p \<ge> 32 then Inl Out_of_bounds
      else with_thread t s (\<lambda>th.
        Inr (set_thread t (th\<lparr> th_current_priority := p, th_number_mask := push_bit (unat p) 1 \<rparr>) s)))"

definition rt_thread_control :: "nat \<Rightarrow> thread_cmd \<Rightarrow> ('a) ksys_scheme \<Rightarrow> (('a) ksys_scheme \<times> rt_err) res" where
  "rt_thread_control t cmd s = checked_thread t s (\<lambda>th.
     case cmd of
       Change_priority p \<Rightarrow>
         rbind (if stat_of th = RT_THREAD_READY
                then rbind (rt_schedule_remove_thread t s) (\<lambda>s.
                     rbind (set_priority t p s) (rt_schedule_insert_thread t))
                else set_priority t p s) (\<lambda>s. Inr (s, RT_EOK))
     | Startup \<Rightarrow> rt_thread_startup t s
     | Close \<Rightarrow> rt_thread_delete t s
     | Other_thread_cmd \<Rightarrow> Inr (s, RT_EOK))"

text \<open>The timeout function of every thread timer.\<close>

definition rt_thread_timeout :: "nat \<Rightarrow> ('a) ksys_scheme \<Rightarrow> ('a) ksys_scheme res" where
  "rt_thread_timeout t s = with_thread t s (\<lambda>th.
     rassert (stat_of th = RT_THREAD_SUSPEND) (rassert (th_object th)
       (rbind (rt_schedule_insert_thread t (unlink t (set_thread t (th\<lparr> th_error := - RT_ETIMEOUT \<rparr>) s)))
          rt_schedule)))"

section \<open>Tick and idle\<close>

text \<open>\<open>user_timeout\<close> is the timeout function of the timers that belong to applications.\<close>

definition timeout_func ::
    "(nat \<Rightarrow> ('a) ksys_scheme \<Rightarrow> ('a) ksys_scheme res) \<Rightarrow> timer_id \<Rightarrow> ('a) ksys_scheme \<Rightarrow> ('a) ksys_scheme res" where
  "timeout_func user_timeout tm s =
     (case tm of Thread_timer t \<Rightarrow> rt_thread_timeout t s | User_timer u \<Rightarrow> user_timeout u s)"

definition rt_tick_increase ::
    "nat \<Rightarrow> (nat \<Rightarrow> ('a) ksys_scheme \<Rightarrow> ('a) ksys_scheme res) \<Rightarrow> ('a) ksys_scheme \<Rightarrow> ('a) ksys_scheme res option" where
  "rt_tick_increase n user_timeout s =
     (let s = s\<lparr> rt_tick := rt_tick s + 1 \<rparr>;
          r = (case rt_thread_self s of None \<Rightarrow> Inl Null_pointer | Some t \<Rightarrow>
               with_thread t s (\<lambda>th.
               let th = th\<lparr> th_remaining_tick := th_remaining_tick th - 1 \<rparr> in
               if th_remaining_tick th = 0
               then let th = th\<lparr> th_remaining_tick := th_init_tick th,
                                 th_stat := th_stat th OR RT_THREAD_STAT_YIELD \<rparr> in
                    rbind (rt_thread_yield (set_thread t th s)) (\<lambda>(s, _). Inr s)
               else Inr (set_thread t th s))) in
      case r of Inl e \<Rightarrow> Some (Inl e) | Inr s \<Rightarrow> rt_timer_check n (timeout_func user_timeout) s)"

text \<open>\<open>cleanup\<close> is the cleanup function of a thread that has one. Freeing the object ends the life of
  the thread's record. \<open>None\<close>: the fuel did not suffice.\<close>

fun rt_thread_idle_excute ::
    "nat \<Rightarrow> (nat \<Rightarrow> ('a) ksys_scheme \<Rightarrow> ('a) ksys_scheme res) \<Rightarrow> ('a) ksys_scheme \<Rightarrow> ('a) ksys_scheme res option" where
  "rt_thread_idle_excute 0 cleanup s = None"
| "rt_thread_idle_excute (Suc n) cleanup s =
     (case queues s Defunct of
        [] \<Rightarrow> Some (Inr s)
      | t # _ \<Rightarrow>
        if interrupt_nest s \<noteq> 0 then Some (Inl Assert_failed)
        else
          case with_thread t s (\<lambda>th.
              let s = rt_enter_critical (unlink t s) in
              rbind (if th_has_cleanup th then cleanup t s else Inr s) (\<lambda>s.
              if th_static th
              then with_thread t s (\<lambda>th.
                   rbind (rt_exit_critical (set_thread t (th\<lparr> th_object := False \<rparr>) s)) (\<lambda>s. Inr (s, True)))
              else rbind (rt_exit_critical s) (\<lambda>s. Inr (s\<lparr> threads := (threads s)(t := None) \<rparr>, False)))) of
            Inl e \<Rightarrow> Some (Inl e)
          | Inr (s, True) \<Rightarrow> Some (Inr s)
          | Inr (s, False) \<Rightarrow> rt_thread_idle_excute n cleanup s)"

section \<open>The invariant of threads and their timers\<close>

definition live :: "thread \<Rightarrow> bool" where
  "live th \<longleftrightarrow> th_object th \<and> stat_of th \<noteq> RT_THREAD_CLOSE"

text \<open>Exactly the live threads have a timer; it is a static one-shot timer, marked active exactly
  when it is linked, and linked only while its thread is suspended: the condition
  \<^verbatim>\<open>rt_thread_timeout\<close> asserts. A thread that is unregistered is closed and waits for nothing.\<close>

definition timer_inv :: "('a) ksys_scheme \<Rightarrow> bool" where
  "timer_inv s \<longleftrightarrow> distinct (timer_list s) \<and>
     (\<forall>t. timers s (Thread_timer t) \<noteq> None \<longleftrightarrow> (\<exists>th. threads s t = Some th \<and> live th)) \<and>
     (\<forall>t tm. timers s (Thread_timer t) = Some tm \<longrightarrow> tm_static tm \<and> tm_flag tm AND 2 = 0 \<and>
       (tm_flag tm AND 1 \<noteq> 0 \<longleftrightarrow> Thread_timer t \<in> set (timer_list s))) \<and>
     (\<forall>t. Thread_timer t \<in> set (timer_list s) \<longrightarrow>
       (\<exists>th. threads s t = Some th \<and> live th \<and> stat_of th = RT_THREAD_SUSPEND)) \<and>
     (\<forall>t th. threads s t = Some th \<longrightarrow> \<not> th_object th \<longrightarrow>
       stat_of th = RT_THREAD_CLOSE \<and> t \<notin> set (queues s Defunct)) \<and>
     (\<forall>t th. threads s t = Some th \<longrightarrow> unat (th_init_priority th) < 32 \<and> stat_of th \<le> 4)"

definition sys_inv :: "('a) ksys_scheme \<Rightarrow> bool" where
  "sys_inv s \<longleftrightarrow> sched_inv {} s \<and> timer_inv s"

lemma started_prio_ok:
  "sched_inv X s \<Longrightarrow> threads s t = Some th \<Longrightarrow> stat_of th \<noteq> RT_THREAD_INIT \<Longrightarrow> stat_of th \<noteq> RT_THREAD_CLOSE \<Longrightarrow> prio_ok th"
  by (simp add: sched_inv_def prios_ok_def)

lemma sched_inv_cong:
  "threads s' = threads s \<Longrightarrow> queues s' = queues s \<Longrightarrow> current_thread s' = current_thread s \<Longrightarrow>
   ready_group s' = ready_group s \<Longrightarrow> sched_inv X s' = sched_inv X s"
  by (simp add: sched_inv_def links_ok_def prios_ok_def stats_ok_def)

lemma timer_inv_cong:
  "threads s' = threads s \<Longrightarrow> queues s' = queues s \<Longrightarrow> timers s' = timers s \<Longrightarrow>
   timer_list s' = timer_list s \<Longrightarrow> timer_inv s' = timer_inv s"
  by (simp add: timer_inv_def)

lemma sched_inv_fields [simp]:
  "sched_inv X (s\<lparr> rt_tick := a \<rparr>) = sched_inv X s"
  "sched_inv X (s\<lparr> timers := b \<rparr>) = sched_inv X s"
  "sched_inv X (s\<lparr> timer_list := c \<rparr>) = sched_inv X s"
  "sched_inv X (s\<lparr> detached_flag := g \<rparr>) = sched_inv X s"
  "sched_inv X (s\<lparr> lock_nest := d \<rparr>) = sched_inv X s"
  "sched_inv X (s\<lparr> current_priority := e \<rparr>) = sched_inv X s"
  "sched_inv X (s\<lparr> interrupt_nest := f \<rparr>) = sched_inv X s"
  by (rule sched_inv_cong; simp)+

lemma timer_inv_fields [simp]:
  "timer_inv (s\<lparr> rt_tick := a \<rparr>) = timer_inv s"
  "timer_inv (s\<lparr> ready_group := b \<rparr>) = timer_inv s"
  "timer_inv (s\<lparr> lock_nest := d \<rparr>) = timer_inv s"
  "timer_inv (s\<lparr> current_priority := e \<rparr>) = timer_inv s"
  "timer_inv (s\<lparr> current_thread := g \<rparr>) = timer_inv s"
  "timer_inv (s\<lparr> interrupt_nest := f \<rparr>) = timer_inv s"
  by (rule timer_inv_cong; simp)+

text \<open>A change of the threads that respects their timers.\<close>

definition same_life :: "('a) ksys_scheme \<Rightarrow> nat \<Rightarrow> thread \<Rightarrow> thread \<Rightarrow> bool" where
  "same_life s t u u' \<longleftrightarrow> th_object u' = th_object u \<and> th_init_priority u' = th_init_priority u \<and> (stat_of u' = 4 \<longleftrightarrow> stat_of u = 4) \<and>
     (stat_of u \<le> 4 \<longrightarrow> stat_of u' \<le> 4) \<and> (Thread_timer t \<in> set (timer_list s) \<longrightarrow> stat_of u = 2 \<longrightarrow> stat_of u' = 2)"

lemma timer_inv_change:
  assumes inv: "timer_inv s"
    and th: "\<And>t u. threads s t = Some u \<Longrightarrow> \<exists>u'. threads s' t = Some u' \<and> same_life s t u u'"
    and none: "\<And>t. threads s t = None \<Longrightarrow> threads s' t = None"
    and tm: "timers s' = timers s" "timer_list s' = timer_list s"
    and q: "set (queues s' Defunct) = set (queues s Defunct)"
  shows "timer_inv s'"
proof -
  have old: "\<exists>u. threads s t = Some u \<and> same_life s t u u'" if "threads s' t = Some u'" for t u'
    using that th [of t] none [of t] by (cases "threads s t") auto
  have lf: "(\<exists>u. threads s t = Some u \<and> live u) \<longleftrightarrow> (\<exists>u'. threads s' t = Some u' \<and> live u')" for t
  proof
    assume "\<exists>u. threads s t = Some u \<and> live u"
    then obtain u where u: "threads s t = Some u" "live u" by blast
    from th [OF u(1)] u(2) show "\<exists>u'. threads s' t = Some u' \<and> live u'"
      by (auto simp: live_def same_life_def)
  next
    assume "\<exists>u. threads s' t = Some u \<and> live u"
    then obtain u where u: "threads s' t = Some u" "live u" by blast
    from old [OF u(1)] u(2) show "\<exists>u'. threads s t = Some u' \<and> live u'"
      by (auto simp: live_def same_life_def)
  qed
  show ?thesis
    unfolding timer_inv_def tm q
  proof (intro conjI allI impI)
    show "distinct (timer_list s)" using inv by (simp add: timer_inv_def)
  next
    fix t show "timers s (Thread_timer t) \<noteq> None \<longleftrightarrow> (\<exists>th. threads s' t = Some th \<and> live th)"
      using inv lf by (simp add: timer_inv_def)
  next
    fix t tm assume "timers s (Thread_timer t) = Some tm"
    then show "tm_static tm" "tm_flag tm AND 2 = 0" "(tm_flag tm AND 1 \<noteq> 0) = (Thread_timer t \<in> set (timer_list s))"
      using inv unfolding timer_inv_def by blast+
  next
    fix t assume t: "Thread_timer t \<in> set (timer_list s)"
    then obtain u where u: "threads s t = Some u" "live u" "stat_of u = 2"
      using inv unfolding timer_inv_def by blast
    then show "\<exists>th. threads s' t = Some th \<and> live th \<and> stat_of th = 2"
      using th [OF u(1)] t by (auto simp: live_def same_life_def)
  next
    fix t u' assume u': "threads s' t = Some u'" and no: "\<not> th_object u'"
    from old [OF u'] obtain u where u: "threads s t = Some u" "same_life s t u u'" by blast
    then have "\<not> th_object u" using no by (simp add: same_life_def)
    with u inv show "stat_of u' = 4" "t \<notin> set (queues s Defunct)"
      by (auto simp: timer_inv_def same_life_def)
  next
    fix t u' assume "threads s' t = Some u'"
    from old [OF this] obtain u where u: "threads s t = Some u" "same_life s t u u'" by blast
    have "unat (th_init_priority u) < 32 \<and> stat_of u \<le> 4" using inv u(1) unfolding timer_inv_def by blast
    then show "unat (th_init_priority u') < 32" "stat_of u' \<le> 4" using u(2) by (simp_all add: same_life_def)
  qed
qed

lemma same_life_kept: "kept u u' \<Longrightarrow> same_life s t u u'"
  by (auto simp: kept_def same_life_def)

lemma frame_timer_inv:
  assumes inv: "timer_inv s" and fr: "frame s s'"
  shows "timer_inv s'"
proof (rule timer_inv_change [OF inv])
  show "\<exists>u'. threads s' t = Some u' \<and> same_life s t u u'" if "threads s t = Some u" for t u
    using frameD [OF fr that] same_life_kept by blast
  show "set (queues s' Defunct) = set (queues s Defunct)"
    using fr unfolding frame_def by (metis queue.distinct(5))
qed (use fr in \<open>simp_all add: frame_def same_env_def\<close>)

lemma schedule_inv:
  assumes "sys_inv s" "current_thread s \<noteq> None"
  obtains s' where "rt_schedule s = Inr s'" "sys_inv s'" "frame s s'"
proof -
  obtain c where c: "current_thread s = Some c" using assms(2) by blast
  obtain s' where "rt_schedule s = Inr s'" "sched_inv {} s'" "frame s s'"
    by (rule schedule_frame [OF _ c]) (use assms(1) in \<open>simp_all add: sys_inv_def\<close>)
  moreover have "timer_inv s'" by (rule frame_timer_inv [OF _ \<open>frame s s'\<close>]) (use assms(1) in \<open>simp add: sys_inv_def\<close>)
  ultimately show thesis using that by (simp add: sys_inv_def)
qed

section \<open>Suspending and resuming\<close>

definition calm :: "('a) ksys_scheme \<Rightarrow> ('a) ksys_scheme \<Rightarrow> bool" where
  "calm s s' \<longleftrightarrow> rt_tick s' = rt_tick s \<and> current_thread s' = current_thread s \<and>
     lock_nest s' = lock_nest s \<and> interrupt_nest s' = interrupt_nest s \<and> ksys.more s' = ksys.more s \<and>
     set (timer_list s') \<subseteq> set (timer_list s) \<and> (\<forall>b. timers_ok b s \<longrightarrow> timers_ok b s')"

lemma calm_trans: "calm s s' \<Longrightarrow> calm s' s'' \<Longrightarrow> calm s s''"
  by (auto simp: calm_def)

lemma more_fields [simp]:
  "ksys.more (s\<lparr> timers := a \<rparr>) = ksys.more s" "ksys.more (s\<lparr> timer_list := b \<rparr>) = ksys.more s"
  "ksys.more (s\<lparr> rt_tick := c \<rparr>) = ksys.more s" "ksys.more (s\<lparr> threads := d \<rparr>) = ksys.more s"
  "ksys.more (s\<lparr> queues := e \<rparr>) = ksys.more s" "ksys.more (s\<lparr> ready_group := f \<rparr>) = ksys.more s"
  by (cases s; simp)+

lemma timers_ok_cong:
  "timers s' = timers s \<Longrightarrow> timer_list s' = timer_list s \<Longrightarrow> timers_ok b s' = timers_ok b s"
  by (simp add: timers_ok_def ahead_def [abs_def] timeout_of_def)

lemma timers_ok_set_flag:
  assumes "timers s i = Some tm" "tm_timeout_tick tm' = tm_timeout_tick tm"
  shows "timers_ok b (set_timer i tm' s) = timers_ok b s"
proof -
  have "timeout_of (set_timer i tm' s) = timeout_of s"
    using assms by (intro ext) (simp add: timeout_of_def set_timer_def)
  then show ?thesis using assms(1) by (auto simp: timers_ok_def ahead_def [abs_def] set_timer_def)
qed

text \<open>Taking a suspended thread out of the list it waits in.\<close>

lemma unlink_inv:
  assumes inv: "sched_inv {} s" and t: "threads s t = Some th" "stat_of th \<noteq> RT_THREAD_READY"
  shows "sched_inv {t} (unlink t s)" and "t \<notin> set (queues (unlink t s) q)"
proof -
  have links: "links_ok s" and prios: "prios_ok s" and stats: "stats_ok {} s"
    using inv by (simp_all add: sched_inv_def)
  have dist: "distinct (queues s q)" for q using links by (simp add: links_ok_def)
  have nr: "t \<notin> set (queues s (Ready i))" for i
    using t head_is_ready [OF inv, of t i th] by auto
  have sub: "x \<in> set (queues (unlink t s) q) \<longleftrightarrow> x \<in> set (queues s q) \<and> x \<noteq> t" for x q
    using dist by (auto simp: unlink_def)
  have rq: "queues (unlink t s) (Ready i) = queues s (Ready i)" for i
    using nr by (simp add: unlink_def remove1_idem)
  have f: "threads (unlink t s) = threads s" "current_thread (unlink t s) = current_thread s"
    "ready_group (unlink t s) = ready_group s" by (simp_all add: unlink_def)
  have "distinct (queues (unlink t s) q)" for q using dist by (simp add: unlink_def)
  then have "links_ok (unlink t s)" using links unfolding links_ok_def sub f rq by blast
  moreover have "prios_ok (unlink t s)" using prios unfolding prios_ok_def rq f .
  moreover have "stats_ok {t} (unlink t s)" using stats unfolding stats_ok_def f sub by blast
  ultimately show "sched_inv {t} (unlink t s)" by (simp add: sched_inv_def)
  show "t \<notin> set (queues (unlink t s) q)" by (simp add: sub)
qed

text \<open>Stopping a thread's timer, whether it runs or not.\<close>

lemma stop_timer_ok:
  assumes inv: "timer_inv s" and t: "timers s (Thread_timer t) = Some tm"
  obtains e m where "rt_timer_stop (Thread_timer t) s =
      Inr (s\<lparr> timers := m, timer_list := remove1 (Thread_timer t) (timer_list s) \<rparr>, e)"
    and "\<And>i. i \<noteq> Thread_timer t \<Longrightarrow> m i = timers s i"
    and "timer_inv (s\<lparr> timers := m, timer_list := remove1 (Thread_timer t) (timer_list s) \<rparr>)"
    and "Thread_timer t \<notin> set (remove1 (Thread_timer t) (timer_list s))"
    and "calm s (s\<lparr> timers := m, timer_list := remove1 (Thread_timer t) (timer_list s) \<rparr>)"
proof -
  let ?i = "Thread_timer t"
  have d: "distinct (timer_list s)" using inv by (simp add: timer_inv_def)
  have out: "?i \<notin> set (remove1 ?i (timer_list s))" using d by simp
  have fl: "tm_static tm" "tm_flag tm AND 2 = 0" "tm_flag tm AND 1 \<noteq> 0 \<longleftrightarrow> ?i \<in> set (timer_list s)"
    using inv t unfolding timer_inv_def by blast+
  show thesis
  proof (cases "tm_flag tm AND 1 = 0")
    case True
    then have "remove1 ?i (timer_list s) = timer_list s" using fl by (simp add: remove1_idem)
    moreover from True have "rt_timer_stop ?i s = Inr (s, - RT_ERROR)"
      using t by (simp add: rt_timer_stop_def with_timer_def)
    moreover have "calm s s" by (simp add: calm_def)
    ultimately show thesis using that [of "timers s" "- RT_ERROR"] inv out by simp
  next
    case False
    define tm' where "tm' = tm\<lparr> tm_flag := tm_flag tm AND NOT 1 \<rparr>"
    define s' where "s' = s\<lparr> timers := (timers s)(?i := Some tm'), timer_list := remove1 ?i (timer_list s) \<rparr>"
    have stop: "rt_timer_stop ?i s = Inr (s', 0)"
      using t False by (simp add: rt_timer_stop_def with_timer_def set_timer_def rt_timer_remove_def s'_def tm'_def)
    have "tm_flag tm' AND 2 = 0"
      using fl(2) by (simp add: tm'_def bit_eq_iff [of "_ :: u8"] bit_simps)
    moreover have "tm_flag tm' AND 1 = 0" by (simp add: tm'_def and.assoc)
    moreover have "x \<in> set (remove1 ?i (timer_list s)) \<longleftrightarrow> x \<in> set (timer_list s) \<and> x \<noteq> ?i" for x
      using d by auto
    moreover have "\<exists>th. threads s t = Some th \<and> live th"
      using inv t unfolding timer_inv_def by (metis option.distinct(1))
    ultimately have "timer_inv s'"
      using inv t fl unfolding timer_inv_def by (simp add: s'_def tm'_def)
    moreover have "timers_ok b s'" if "timers_ok b s" for b
    proof -
      have "timers_ok b (set_timer ?i tm' (rt_timer_remove ?i s))"
        using timers_ok_remove [OF that, of ?i]
        by (subst timers_ok_set_flag [where tm = tm]) (use t in \<open>simp_all add: tm'_def rt_timer_remove_def\<close>)
      then show ?thesis
        by (rule timers_ok_cong [THEN iffD1, rotated 2]) (simp_all add: s'_def set_timer_def rt_timer_remove_def)
    qed
    ultimately show thesis
      using that [of "(timers s)(?i := Some tm')" 0] stop out by (simp add: s'_def calm_def set_remove1_subset)
  qed
qed

lemma live_timer:
  "timer_inv s \<Longrightarrow> threads s t = Some th \<Longrightarrow> live th \<Longrightarrow> \<exists>tm. timers s (Thread_timer t) = Some tm"
  unfolding timer_inv_def by blast

lemma linked_suspended:
  "timer_inv s \<Longrightarrow> Thread_timer t \<in> set (timer_list s) \<Longrightarrow> threads s t = Some th \<Longrightarrow> stat_of th = RT_THREAD_SUSPEND"
  unfolding timer_inv_def by (metis option.inject)

lemma th_object_with_stat [simp]: "th_object (with_stat x th) = th_object th"
  by (simp add: with_stat_def)

lemma suspend_ok:
  assumes inv: "sys_inv s" and t: "threads s t = Some th" "th_object th"
    and st: "stat_of th = RT_THREAD_READY \<or> stat_of th = RT_THREAD_RUNNING"
  obtains s' where "rt_thread_suspend t s = Inr (s', 0)" "sys_inv s'" "calm s s'"
    and "threads s' = (threads s)(t := Some (with_stat RT_THREAD_SUSPEND th))"
    and "queues s' = (\<lambda>q. remove1 t (queues s q))" "\<And>q. t \<notin> set (queues s' q)"
    and "timers s' = timers s" "timer_list s' = timer_list s"
proof -
  have si: "sched_inv {} s" and ti: "timer_inv s" using inv by (simp_all add: sys_inv_def)
  have ni: "stat_of th \<noteq> RT_THREAD_INIT" "stat_of th \<noteq> RT_THREAD_CLOSE" using st by auto
  have run: "stat_of th = RT_THREAD_RUNNING \<longrightarrow> current_thread s = Some t"
    using si t(1) unfolding sched_inv_def stats_ok_def by blast
  from remove_thread_inv [OF si t(1) ni] obtain g where
    r: "rt_schedule_remove_thread t s = Inr (s\<lparr> queues := (\<lambda>q. remove1 t (queues s q)), ready_group := g \<rparr>)"
      "sched_inv {t} (s\<lparr> queues := (\<lambda>q. remove1 t (queues s q)), ready_group := g \<rparr>)"
      "\<And>q. t \<notin> set (remove1 t (queues s q))" by blast
  let ?s1 = "s\<lparr> queues := (\<lambda>q. remove1 t (queues s q)), ready_group := g \<rparr>"
  define s2 where "s2 = set_thread t (with_stat RT_THREAD_SUSPEND th) ?s1"
  have pr: "prio_ok (with_stat RT_THREAD_SUSPEND th)"
    using si t ni by (auto simp: sched_inv_def prios_ok_def prio_ok_def)
  have si2: "sched_inv {} s2"
    unfolding s2_def by (rule set_stat_inv [OF r(2), where th = th]) (use t r(3) pr stat_rules in auto)
  have f2: "threads s2 = (threads s)(t := Some (with_stat RT_THREAD_SUSPEND th))"
    "queues s2 = (\<lambda>q. remove1 t (queues s q))" "timers s2 = timers s" "timer_list s2 = timer_list s"
    by (simp_all add: s2_def set_thread_def)
  have nd: "t \<notin> set (queues s Defunct)"
  proof
    assume "t \<in> set (queues s Defunct)"
    then have "stat_of th = 4" using si t(1) unfolding sched_inv_def stats_ok_def by fastforce
    then show False using st by simp
  qed
  have ti2: "timer_inv s2"
  proof (rule timer_inv_change [OF ti])
    fix i u assume u: "threads s i = Some u"
    show "\<exists>u'. threads s2 i = Some u' \<and> same_life s i u u'"
      using u t st by (cases "i = t") (auto simp: f2 same_life_def stat_rules)
  next
    show "threads s2 i = None" if "threads s i = None" for i using that t by (auto simp: f2)
    show "set (queues s2 Defunct) = set (queues s Defunct)" using nd by (simp add: f2 remove1_idem)
  qed (simp_all add: f2)
  have nl: "Thread_timer t \<notin> set (timer_list s2)"
    using linked_suspended [OF ti _ t(1)] st f2(4) by auto
  have "live th" using t(2) st by (auto simp: live_def)
  then obtain tm where tm: "timers s2 (Thread_timer t) = Some tm"
    using live_timer [OF ti t(1)] f2(3) by auto
  then have "tm_flag tm AND 1 = 0" using ti2 nl unfolding timer_inv_def by blast
  then have stop: "rt_timer_stop (Thread_timer t) s2 = Inr (s2, - 1)"
    using tm by (simp add: rt_timer_stop_def with_timer_def)
  have "rt_thread_suspend t s = Inr (s2, 0)"
    using t st run r(1) stop
    by (auto simp: rt_thread_suspend_def checked_thread_def with_thread_def rt_thread_self_def s2_def)
  moreover have "calm s s2"
    using timers_ok_cong [OF f2(3,4)] by (simp add: calm_def s2_def set_thread_def)
  ultimately show thesis using that [of s2] si2 ti2 f2 r(3) by (simp add: sys_inv_def)
qed

text \<open>The status a resumed thread gets.\<close>

definition resumed :: "('a) ksys_scheme \<Rightarrow> nat \<Rightarrow> thread \<Rightarrow> thread" where
  "resumed s t th = with_stat (if current_thread s = Some t then RT_THREAD_RUNNING else RT_THREAD_READY) th"

lemma resumed_fields [simp]:
  "th_error (resumed s t th) = th_error th" "th_event_set (resumed s t th) = th_event_set th"
  "th_event_info (resumed s t th) = th_event_info th" "th_object (resumed s t th) = th_object th"
  "th_current_priority (resumed s t th) = th_current_priority th"
  "th_init_priority (resumed s t th) = th_init_priority th"
  by (simp_all add: resumed_def)

lemma stat_of_resumed: "stat_of (resumed s t th) = 1 \<or> stat_of (resumed s t th) = 3"
  by (simp add: resumed_def stat_rules)

lemma insert_resumed:
  assumes inv: "sched_inv {t} s" and t: "threads s t = Some th" "prio_ok th"
    and out: "\<And>q. t \<notin> set (queues s q)"
  obtains s' where "rt_schedule_insert_thread t s = Inr s'" "sched_inv {} s'"
    and "threads s' = (threads s)(t := Some (resumed s t th))"
    and "\<And>q. (\<forall>i. q \<noteq> Ready i) \<Longrightarrow> queues s' q = queues s q"
    and "timers s' = timers s" "timer_list s' = timer_list s" "calm s s'"
proof (cases "current_thread s = Some t")
  case True
  define s' where "s' = set_thread t (with_stat RT_THREAD_RUNNING th) s"
  have "sched_inv {} s'"
    unfolding s'_def
    by (rule set_stat_inv [OF inv t(1) out]) (use True t(2) in \<open>simp_all add: stat_rules prio_ok_def\<close>)
  moreover have "rt_schedule_insert_thread t s = Inr s'"
    using True t by (simp add: rt_schedule_insert_thread_def with_thread_def s'_def)
  moreover have "calm s s'"
    using timers_ok_cong [of s' s] by (simp add: calm_def s'_def set_thread_def)
  ultimately show thesis using that [of s'] True by (simp add: s'_def set_thread_def resumed_def)
next
  case False
  from insert_thread_inv [OF inv t(1) out False t(2)] obtain s' where
    s': "rt_schedule_insert_thread t s = Inr s'" "sched_inv {} s'"
      "s' = s\<lparr> threads := (threads s)(t := Some (with_stat RT_THREAD_READY th)),
         queues := (queues s)(Ready (unat (th_current_priority th)) := queues s (Ready (unat (th_current_priority th))) @ [t]),
         ready_group := ready_group s OR th_number_mask th \<rparr>" by blast
  have "timers s' = timers s" "timer_list s' = timer_list s" by (simp_all add: s'(3))
  note timers_ok_cong [OF this]
  then have "calm s s'" by (simp add: calm_def) (simp add: s'(3))
  then show thesis using that [of s'] s'(1,2) False by (simp add: s'(3) resumed_def)
qed

lemma not_defunct:
  assumes "sched_inv X s" "threads s t = Some th" "stat_of th \<noteq> RT_THREAD_CLOSE" "t \<notin> X"
  shows "t \<notin> set (queues s Defunct)"
proof
  assume "t \<in> set (queues s Defunct)"
  moreover have "stats_ok X s" using assms(1) by (simp add: sched_inv_def)
  ultimately show False using assms unfolding stats_ok_def by fastforce
qed

lemma same_life_refl: "same_life s t u u"
  by (simp add: same_life_def)

lemma timer_inv_unlink:
  assumes "timer_inv s" "t \<notin> set (queues s Defunct)"
  shows "timer_inv (unlink t s)"
  by (rule timer_inv_change [OF assms(1)]) (use assms(2) same_life_refl in \<open>auto simp: unlink_def remove1_idem\<close>)

text \<open>A thread without a running timer may leave its waiting state.\<close>

lemma timer_inv_resumed:
  assumes inv: "timer_inv s" and t: "threads s t = Some th" "stat_of th = RT_THREAD_SUSPEND"
    and out: "Thread_timer t \<notin> set (timer_list s)"
    and s': "threads s' = (threads s)(t := Some (resumed s t th))" "timers s' = timers s"
      "timer_list s' = timer_list s" "queues s' Defunct = queues s Defunct"
  shows "timer_inv s'"
proof (rule timer_inv_change [OF inv])
  fix i u assume u: "threads s i = Some u"
  show "\<exists>u'. threads s' i = Some u' \<and> same_life s i u u'"
    using u t out stat_of_resumed [of s t th] by (cases "i = t") (auto simp: s' same_life_def)
next
  show "threads s' i = None" if "threads s i = None" for i using that t by (auto simp: s')
qed (simp_all add: s')

lemma resume_ok:
  assumes inv: "sys_inv s" and t: "threads s t = Some th" "th_object th" "stat_of th = RT_THREAD_SUSPEND"
  obtains s' where "rt_thread_resume t s = Inr (s', 0)" "sys_inv s'" "calm s s'"
    and "threads s' = (threads s)(t := Some (resumed s t th))"
    and "\<And>q. (\<forall>i. q \<noteq> Ready i) \<Longrightarrow> queues s' q = remove1 t (queues s q)"
    and "timer_list s' = remove1 (Thread_timer t) (timer_list s)"
    and "\<And>i. i \<noteq> Thread_timer t \<Longrightarrow> timers s' i = timers s i"
proof -
  have si: "sched_inv {} s" and ti: "timer_inv s" using inv by (simp_all add: sys_inv_def)
  have nr: "stat_of th \<noteq> RT_THREAD_READY" and nc: "stat_of th \<noteq> RT_THREAD_CLOSE"
    and ni: "stat_of th \<noteq> RT_THREAD_INIT" using t(3) by simp_all
  have pr: "prio_ok th" by (rule started_prio_ok [OF si t(1) ni nc])
  define s1 where "s1 = unlink t s"
  have s1: "threads s1 = threads s" "timers s1 = timers s" "timer_list s1 = timer_list s"
    "current_thread s1 = current_thread s" "queues s1 = (\<lambda>q. remove1 t (queues s q))"
    by (simp_all add: s1_def unlink_def)
  have c1: "calm s s1" using timers_ok_cong [OF s1(2,3)] by (simp add: calm_def s1_def unlink_def)
  have nd: "t \<notin> set (queues s Defunct)" by (rule not_defunct [OF si t(1) nc]) simp
  have ti1: "timer_inv s1" unfolding s1_def by (rule timer_inv_unlink [OF ti nd])
  have "live th" using t(2) nc by (simp add: live_def)
  then obtain tm where tm: "timers s1 (Thread_timer t) = Some tm" using live_timer [OF ti t(1)] s1(2) by auto
  from stop_timer_ok [OF ti1 tm] obtain e m where
    stop: "rt_timer_stop (Thread_timer t) s1 =
      Inr (s1\<lparr> timers := m, timer_list := remove1 (Thread_timer t) (timer_list s1) \<rparr>, e)"
      "\<And>i. i \<noteq> Thread_timer t \<Longrightarrow> m i = timers s1 i"
      "timer_inv (s1\<lparr> timers := m, timer_list := remove1 (Thread_timer t) (timer_list s1) \<rparr>)"
      "Thread_timer t \<notin> set (remove1 (Thread_timer t) (timer_list s1))"
      "calm s1 (s1\<lparr> timers := m, timer_list := remove1 (Thread_timer t) (timer_list s1) \<rparr>)" by blast
  define s2 where "s2 = s1\<lparr> timers := m, timer_list := remove1 (Thread_timer t) (timer_list s1) \<rparr>"
  have s2: "threads s2 t = Some th" "current_thread s2 = current_thread s"
    using t(1) by (simp_all add: s2_def s1)
  have si2: "sched_inv {t} s2" using unlink_inv(1) [OF si t(1) nr] by (simp add: s2_def s1_def)
  have out: "t \<notin> set (queues s2 q)" for q using unlink_inv(2) [OF si t(1) nr, of q] by (simp add: s2_def s1_def)
  obtain s' where s': "rt_schedule_insert_thread t s2 = Inr s'" "sched_inv {} s'"
      "threads s' = (threads s2)(t := Some (resumed s2 t th))"
      "\<And>q. (\<forall>i. q \<noteq> Ready i) \<Longrightarrow> queues s' q = queues s2 q"
      "timers s' = timers s2" "timer_list s' = timer_list s2" "calm s2 s'"
    by (rule insert_resumed [OF si2 s2(1) pr out]) (rule that)
  have re: "resumed s2 t th = resumed s t th" by (simp add: resumed_def s2)
  have ti': "timer_inv s'"
    by (rule timer_inv_resumed [OF stop(3) [folded s2_def] s2(1) t(3)])
      (use s' stop(4) in \<open>simp_all add: s2_def\<close>)
  have run: "rt_thread_resume t s = Inr (s', 0)"
    using t stop(1) s'(1) by (simp add: rt_thread_resume_def checked_thread_def with_thread_def s1_def [symmetric] s2_def)
  have ca: "calm s s'" using c1 stop(5) s'(7) by (auto simp: s2_def intro: calm_trans)
  show thesis
    by (rule that [OF run _ ca])
      (use s' ti' stop(2) re in \<open>simp_all add: sys_inv_def s2_def s1\<close>)
qed

text \<open>Arming the timer of a suspended thread.\<close>

lemma start_thread_timer_ok:
  assumes inv: "sys_inv s" and t: "threads s t = Some th" "th_object th" "stat_of th = RT_THREAD_SUSPEND"
    and ok: "timers_ok (rt_tick s) s" and k: "tick < RT_TICK_MAX div 2"
  obtains s' where "start_thread_timer t tick s = Inr s'" "sys_inv s'" "timers_ok (rt_tick s) s'"
    and "threads s' = threads s" "queues s' = queues s" "rt_tick s' = rt_tick s"
    and "current_thread s' = current_thread s" "lock_nest s' = lock_nest s"
    and "interrupt_nest s' = interrupt_nest s" "ksys.more s' = ksys.more s"
    and "timeout_of s' (Thread_timer t) = rt_tick s + tick"
    and "set (timer_list s') = insert (Thread_timer t) (set (timer_list s))"
    and "\<And>i. i \<noteq> Thread_timer t \<Longrightarrow> timers s' i = timers s i"
proof -
  let ?i = "Thread_timer t"
  have si: "sched_inv {} s" and ti: "timer_inv s" using inv by (simp_all add: sys_inv_def)
  have lv: "live th" using t by (simp add: live_def)
  obtain tm where tm: "timers s ?i = Some tm" using live_timer [OF ti t(1) lv] by blast
  define s1 where "s1 = set_timer ?i (tm\<lparr> tm_init_tick := tick \<rparr>) s"
  have s1: "threads s1 = threads s" "queues s1 = queues s" "timer_list s1 = timer_list s" "rt_tick s1 = rt_tick s"
    "timers s1 = (timers s)(?i := Some (tm\<lparr> tm_init_tick := tick \<rparr>))" by (simp_all add: s1_def set_timer_def)
  have ok1: "timers_ok (rt_tick s) s1" unfolding s1_def by (subst timers_ok_set_flag [OF tm]) (simp_all add: ok)
  have room: "unat (rt_tick s1 - rt_tick s) + unat (tm_init_tick (tm\<lparr> tm_init_tick := tick \<rparr>)) < 0x7fffffff"
    using k by (simp add: s1 half_max word_less_nat_alt)
  have t1: "timers s1 ?i = Some (tm\<lparr> tm_init_tick := tick \<rparr>)" by (simp add: s1)
  from timer_start_ok [OF ok1 t1 room] obtain s2 where s2: "rt_timer_start ?i s1 = Inr (s2, 0)"
    "timers_ok (rt_tick s) s2"
    "timer_list s2 = timer_insert (timeout_of s1) (rt_tick s1 + tick) ?i (remove1 ?i (timer_list s1))"
    "timers s2 = (timers s1)(?i := Some (tm\<lparr> tm_init_tick := tick, tm_timeout_tick := rt_tick s1 + tick,
      tm_flag := tm_flag tm AND NOT 1 OR 1 \<rparr>))" "rt_tick s2 = rt_tick s1" "tsys.more s2 = tsys.more s1" by auto
  have run: "start_thread_timer t tick s = Inr s2"
    using tm s2(1) by (simp add: start_thread_timer_def rt_timer_control_def with_timer_def s1_def)
  have m: "threads s2 = threads s" "queues s2 = queues s" "current_thread s2 = current_thread s"
    "lock_nest s2 = lock_nest s" "interrupt_nest s2 = interrupt_nest s" "ready_group s2 = ready_group s"
    "ksys.more s2 = ksys.more s"
    using s2(6) by (cases s; cases s2; simp add: s1_def set_timer_def)+
  have d: "distinct (timer_list s)" using ti by (simp add: timer_inv_def)
  have set2: "set (timer_list s2) = insert ?i (set (timer_list s))"
    using d by (auto simp: s2(3) set_timer_insert s1)
  have dist2: "distinct (timer_list s2)"
    using d by (simp add: s2(3) distinct_timer_insert s1)
  have flags: "tm_static tm" "tm_flag tm AND 2 = 0" using ti tm unfolding timer_inv_def by blast+
  have f2: "(tm_flag tm AND NOT 1 OR 1) AND 2 = 0" "(tm_flag tm AND NOT 1 OR 1) AND 1 \<noteq> 0"
  proof -
    show "(tm_flag tm AND NOT 1 OR 1) AND 2 = 0"
      using flags(2) by (simp add: bit_eq_iff [of "_ :: u8"] bit_simps) blast
    have "bit ((tm_flag tm AND NOT 1 OR 1) AND 1) 0" by (simp add: bit_simps)
    then show "(tm_flag tm AND NOT 1 OR 1) AND 1 \<noteq> 0" by (metis bit_0_eq bot_apply bot_bool_def)
  qed
  have "timer_inv s2"
    unfolding timer_inv_def m(1,2) set2 s2(4) s1(5)
  proof (intro conjI allI impI)
    show "distinct (timer_list s2)" by (rule dist2)
    fix i
    show "((timers s)(?i \<mapsto> tm\<lparr> tm_init_tick := tick \<rparr>, ?i \<mapsto> tm\<lparr> tm_init_tick := tick, tm_timeout_tick := rt_tick s1 + tick,
        tm_flag := tm_flag tm AND NOT 1 OR 1 \<rparr>)) (Thread_timer i) \<noteq> None \<longleftrightarrow> (\<exists>th. threads s i = Some th \<and> live th)"
      using ti t(1) lv unfolding timer_inv_def by (cases "i = t") simp_all
    show "\<exists>th. threads s i = Some th \<and> live th \<and> stat_of th = 2"
      if "Thread_timer i \<in> insert ?i (set (timer_list s))"
      using that ti t lv unfolding timer_inv_def by (cases "i = t") auto
  next
    fix i tm'
    assume a: "((timers s)(?i \<mapsto> tm\<lparr> tm_init_tick := tick \<rparr>, ?i \<mapsto> tm\<lparr> tm_init_tick := tick, tm_timeout_tick := rt_tick s1 + tick,
        tm_flag := tm_flag tm AND NOT 1 OR 1 \<rparr>)) (Thread_timer i) = Some tm'"
    have "tm_static tm' \<and> tm_flag tm' AND 2 = 0 \<and> (tm_flag tm' AND 1 \<noteq> 0) = (Thread_timer i \<in> insert ?i (set (timer_list s)))"
    proof (cases "i = t")
      case True
      then show ?thesis using a flags f2 by auto
    next
      case False
      then have "timers s (Thread_timer i) = Some tm'" using a by simp
      then show ?thesis using ti False unfolding timer_inv_def by simp
    qed
    then show "tm_static tm'" "tm_flag tm' AND 2 = 0"
      "(tm_flag tm' AND 1 \<noteq> 0) = (Thread_timer i \<in> insert ?i (set (timer_list s)))" by blast+
  next
    fix i th' assume "threads s i = Some th'" "\<not> th_object th'"
    then show "stat_of th' = 4" "i \<notin> set (queues s Defunct)" using ti unfolding timer_inv_def by blast+
  next
    fix i th' assume "threads s i = Some th'"
    then show "unat (th_init_priority th') < 32" "stat_of th' \<le> 4" using ti unfolding timer_inv_def by blast+
  qed
  moreover have "sched_inv {} s2" using si sched_inv_cong [OF m(1,2,3,6)] by simp
  ultimately have "sys_inv s2" by (simp add: sys_inv_def)
  then show thesis
    by (rule that [OF run _ s2(2) m(1,2) _ m(3,4,5,7)])
      (use s2 set2 s1 in \<open>simp_all add: timeout_of_def\<close>)
qed

section \<open>The tick interrupt\<close>

lemma frame_env:
  assumes "frame s s'"
  shows "timers s' = timers s" "timer_list s' = timer_list s" "rt_tick s' = rt_tick s"
    "lock_nest s' = lock_nest s" "interrupt_nest s' = interrupt_nest s" "ksys.more s' = ksys.more s"
    "current_thread s' \<noteq> None" "\<And>q. (\<forall>i. q \<noteq> Ready i) \<Longrightarrow> queues s' q = queues s q"
    "\<And>t. threads s t = None \<Longrightarrow> threads s' t = None"
  using assms by (simp_all add: frame_def same_env_def)

lemma sched_inv_data:
  assumes inv: "sched_inv X s" and t: "threads s t = Some th"
    and u: "stat_of u = stat_of th" "th_current_priority u = th_current_priority th"
      "th_number_mask u = th_number_mask th"
  shows "sched_inv X (set_thread t u s)"
proof -
  have st: "stat_of u = stat_of th" and pr: "prio_ok u = prio_ok th" using u by (simp_all add: prio_ok_def)
  have links: "links_ok s" and prios: "prios_ok s" and stats: "stats_ok X s" using inv by (simp_all add: sched_inv_def)
  have "links_ok (set_thread t u s)" using links t unfolding links_ok_def by (simp add: set_thread_def)
  moreover have "prios_ok (set_thread t u s)"
    using prios t u(2) st pr unfolding prios_ok_def by (simp add: set_thread_def)
  moreover have "stats_ok X (set_thread t u s)"
    using stats t st unfolding stats_ok_def by (simp add: set_thread_def)
  ultimately show ?thesis by (simp add: sched_inv_def)
qed

lemma timeout_ok:
  assumes inv: "sched_inv {} s" and t: "threads s t = Some th" "th_object th" "stat_of th = RT_THREAD_SUSPEND"
    and c: "current_thread s \<noteq> None"
  obtains s1 s' where "rt_thread_timeout t s = Inr s'" "sched_inv {} s'" "frame s1 s'" "calm s s1"
    and "threads s1 = (threads s)(t := Some (resumed s t (th\<lparr> th_error := - RT_ETIMEOUT \<rparr>)))"
    and "\<And>q. (\<forall>i. q \<noteq> Ready i) \<Longrightarrow> queues s1 q = remove1 t (queues s q)"
    and "timers s1 = timers s" "timer_list s1 = timer_list s"
proof -
  define u where "u = th\<lparr> th_error := - RT_ETIMEOUT \<rparr>"
  define s0 where "s0 = set_thread t u s"
  have u: "stat_of u = stat_of th" "th_current_priority u = th_current_priority th"
    "th_number_mask u = th_number_mask th" by (simp_all add: u_def stat_of_def)
  have su: "stat_of u = 2" using t(3) u(1) by simp
  have i0: "sched_inv {} s0" unfolding s0_def by (rule sched_inv_data [OF inv t(1) u])
  have t0: "threads s0 t = Some u" by (simp add: s0_def set_thread_def)
  have nr: "stat_of u \<noteq> RT_THREAD_READY" and ni: "stat_of u \<noteq> RT_THREAD_INIT" using su by simp_all
  have pr: "prio_ok u" by (rule started_prio_ok [OF i0 t0 ni]) (simp add: su)
  note ul = unlink_inv [OF i0 t0 nr]
  have tu: "threads (unlink t s0) t = Some u" using t0 by (simp add: unlink_def)
  obtain s1 where s1: "rt_schedule_insert_thread t (unlink t s0) = Inr s1" "sched_inv {} s1"
      "threads s1 = (threads (unlink t s0))(t := Some (resumed (unlink t s0) t u))"
      "\<And>q. (\<forall>i. q \<noteq> Ready i) \<Longrightarrow> queues s1 q = queues (unlink t s0) q"
      "timers s1 = timers (unlink t s0)" "timer_list s1 = timer_list (unlink t s0)" "calm (unlink t s0) s1"
    by (rule insert_resumed [OF ul(1) tu pr ul(2)]) (rule that)
  have env: "timers (unlink t s0) = timers s" "timer_list (unlink t s0) = timer_list s"
    "current_thread (unlink t s0) = current_thread s" "threads (unlink t s0) = (threads s)(t := Some u)"
    by (simp_all add: unlink_def s0_def set_thread_def)
  have "calm s (unlink t s0)"
    using timers_ok_cong [OF env(1,2)] by (simp add: calm_def unlink_def s0_def set_thread_def)
  then have ca: "calm s s1" using s1(7) by (rule calm_trans)
  then obtain c1 where c1: "current_thread s1 = Some c1" using c by (auto simp: calm_def)
  obtain s' where s': "rt_schedule s1 = Inr s'" "sched_inv {} s'" "frame s1 s'"
    by (rule schedule_frame [OF s1(2) c1]) (rule that)
  have re: "resumed (unlink t s0) t u = resumed s t u" by (simp add: resumed_def env)
  have "rt_thread_timeout t s = Inr s'"
    using t s1(1) s'(1) by (simp add: rt_thread_timeout_def with_thread_def s0_def u_def)
  then show thesis
    by (rule that [OF _ s'(2,3) ca])
      (use s1(3,4,5,6) re env in \<open>simp_all add: unlink_def s0_def set_thread_def u_def\<close>)
qed

definition woken :: "('a) ksys_scheme \<Rightarrow> nat \<Rightarrow> bool" where
  "woken s t \<longleftrightarrow> (\<exists>u. threads s t = Some u \<and>
     (stat_of u = RT_THREAD_READY \<or> stat_of u = RT_THREAD_RUNNING) \<and> th_error u = - RT_ETIMEOUT)"

definition kept_at :: "('a) ksys_scheme \<Rightarrow> ('a) ksys_scheme \<Rightarrow> nat \<Rightarrow> bool" where
  "kept_at s s' t \<longleftrightarrow> (\<forall>u. threads s t = Some u \<longrightarrow> (\<exists>u'. threads s' t = Some u' \<and> kept u u'))"

lemma kept_atI: "(\<And>u. threads s t = Some u \<Longrightarrow> \<exists>u'. threads s' t = Some u' \<and> kept u u') \<Longrightarrow> kept_at s s' t"
  by (simp add: kept_at_def)

lemma kept_at_frame: "frame s s' \<Longrightarrow> kept_at s s' t"
  by (rule kept_atI) (rule frameD)

lemma kept_at_trans: "kept_at s s' t \<Longrightarrow> kept_at s' s'' t \<Longrightarrow> kept_at s s'' t"
  unfolding kept_at_def by (meson kept_trans)

lemma woken_kept: "woken s t \<Longrightarrow> kept_at s s' t \<Longrightarrow> woken s' t"
  unfolding woken_def kept_at_def kept_def by fastforce

text \<open>One due thread timer.\<close>

lemma wake_one:
  assumes inv: "sys_inv s" and ok: "timers_ok b s" and d: "due s (Thread_timer t)"
    and l: "timer_list s = Thread_timer t # ts" and c: "current_thread s \<noteq> None"
  obtains s' where "timer_check_loop (Suc n) (timeout_func ut) (rt_tick s) s =
      timer_check_loop n (timeout_func ut) (rt_tick s') s'"
    and "sys_inv s'" "timers_ok b s'" "timer_list s' = ts" "rt_tick s' = rt_tick s"
    and "\<And>i. i \<noteq> Thread_timer t \<Longrightarrow> timers s' i = timers s i"
    and "current_thread s' \<noteq> None" "woken s' t" "\<And>x. x \<noteq> t \<Longrightarrow> kept_at s s' x"
    and "\<And>q. (\<forall>i. q \<noteq> Ready i) \<Longrightarrow> queues s' q = remove1 t (queues s q)"
    and "ksys.more s' = ksys.more s" "lock_nest s' = lock_nest s" "interrupt_nest s' = interrupt_nest s"
proof -
  let ?i = "Thread_timer t"
  have si: "sched_inv {} s" and ti: "timer_inv s" using inv by (simp_all add: sys_inv_def)
  obtain th where t: "threads s t = Some th" "live th" "stat_of th = 2"
    using ti l unfolding timer_inv_def by (metis list.set_intros(1))
  have ob: "th_object th" using t(2) by (simp add: live_def)
  obtain tm where tm: "timers s ?i = Some tm" using live_timer [OF ti t(1,2)] by blast
  have fl: "tm_flag tm AND 2 = 0" "tm_flag tm AND 1 \<noteq> 0"
    using ti tm l unfolding timer_inv_def by (metis list.set_intros(1))+
  define s0 where "s0 = rt_timer_remove ?i s"
  have s0: "threads s0 = threads s" "queues s0 = queues s" "current_thread s0 = current_thread s"
    "ready_group s0 = ready_group s" "timers s0 = timers s" "timer_list s0 = ts" "rt_tick s0 = rt_tick s"
    "ksys.more s0 = ksys.more s" "lock_nest s0 = lock_nest s" "interrupt_nest s0 = interrupt_nest s"
    using l by (simp_all add: s0_def rt_timer_remove_def)
  have i0: "sched_inv {} s0" using si sched_inv_cong [OF s0(1,2,3,4)] by simp
  have t0: "threads s0 t = Some th" and c0: "current_thread s0 \<noteq> None" using t c by (simp_all add: s0)
  obtain s1 s2 where r: "rt_thread_timeout t s0 = Inr s2" "sched_inv {} s2" "frame s1 s2" "calm s0 s1"
      "threads s1 = (threads s0)(t := Some (resumed s0 t (th\<lparr> th_error := - RT_ETIMEOUT \<rparr>)))"
      "\<And>q. (\<forall>i. q \<noteq> Ready i) \<Longrightarrow> queues s1 q = remove1 t (queues s0 q)"
      "timers s1 = timers s0" "timer_list s1 = timer_list s0"
    by (rule timeout_ok [OF i0 t0 ob t(3) c0]) (rule that)
  note fe = frame_env [OF r(3)]
  define tm' where "tm' = tm\<lparr> tm_flag := tm_flag tm AND NOT 1 \<rparr>"
  define s3 where "s3 = set_timer ?i tm' s2"
  have t2: "timers s2 ?i = Some tm" using tm by (simp add: fe(1) r(7) s0)
  have s3: "threads s3 = threads s2" "queues s3 = queues s2" "timer_list s3 = ts" "rt_tick s3 = rt_tick s"
    "timers s3 = (timers s)(?i := Some tm')" "current_thread s3 = current_thread s2" "ready_group s3 = ready_group s2"
    "ksys.more s3 = ksys.more s" "lock_nest s3 = lock_nest s" "interrupt_nest s3 = interrupt_nest s"
    using r(4) by (simp_all add: s3_def set_timer_def fe r(7,8) s0 calm_def)
  have i3: "sched_inv {} s3" using r(2) sched_inv_cong [OF s3(1,2,6,7)] by simp
  have loop: "timer_check_loop (Suc n) (timeout_func ut) (rt_tick s) s =
      timer_check_loop n (timeout_func ut) (rt_tick s3) s3"
    using l d fl r(1) t2 fe(3) r(4)
    by (simp add: due_def timeout_func_def s0_def [symmetric] timer_fired_def rt_tick_get_def Let_def
        s3_def tm'_def calm_def) (simp add: set_timer_def)
  from stop_timer_ok [OF ti tm] obtain e m where
    st: "rt_timer_stop ?i s = Inr (s\<lparr> timers := m, timer_list := remove1 ?i (timer_list s) \<rparr>, e)"
      "timer_inv (s\<lparr> timers := m, timer_list := remove1 ?i (timer_list s) \<rparr>)"
      "?i \<notin> set (remove1 ?i (timer_list s))" by blast
  have "rt_timer_stop ?i s = Inr (set_timer ?i tm' (rt_timer_remove ?i s), 0)"
    using tm fl by (simp add: rt_timer_stop_def with_timer_def tm'_def)
  then have "s\<lparr> timers := m, timer_list := remove1 ?i (timer_list s) \<rparr> = set_timer ?i tm' (rt_timer_remove ?i s)"
    using st(1) by simp
  then have tv: "timer_inv (set_timer ?i tm' s0)" using st(2) by (simp add: s0_def)
  let ?v = "set_timer ?i tm' s0"
  have v: "threads ?v = threads s" "timers ?v = (timers s)(?i := Some tm')" "timer_list ?v = ts"
    "queues ?v = queues s" by (simp_all add: set_timer_def s0)
  have nin: "?i \<notin> set ts" using st(3) l by simp
  have s1t: "threads s1 t = Some (resumed s0 t (th\<lparr> th_error := - RT_ETIMEOUT \<rparr>))" by (simp add: r(5))
  have wk: "woken s1 t"
    using stat_of_resumed [of s0 t "th\<lparr> th_error := - RT_ETIMEOUT \<rparr>"] by (simp add: woken_def s1t)
  have w3: "woken s3 t" using woken_kept [OF wk kept_at_frame [OF r(3)]] by (simp add: woken_def s3(1))
  have k3: "kept_at s s3 x" if "x \<noteq> t" for x
    using kept_at_frame [OF r(3), of x] that by (simp add: kept_at_def r(5) s0 s3(1))
  have nd: "t \<notin> set (queues s Defunct)" by (rule not_defunct [OF si t(1)]) (simp_all add: t(3))
  have "timer_inv s3"
  proof (rule timer_inv_change [OF tv])
    fix x u assume x: "threads ?v x = Some u"
    show "\<exists>u'. threads s3 x = Some u' \<and> same_life ?v x u u'"
    proof (cases "x = t")
      case False
      then show ?thesis using k3 [OF False] x same_life_kept by (simp add: kept_at_def v) blast
    next
      case True
      obtain u' where u': "threads s2 t = Some u'" "kept (resumed s0 t (th\<lparr> th_error := - RT_ETIMEOUT \<rparr>)) u'"
        using frameD [OF r(3) s1t] by blast
      then show ?thesis
        using True x t nin stat_of_resumed [of s0 t "th\<lparr> th_error := - RT_ETIMEOUT \<rparr>"]
        by (auto simp: v s3 same_life_def kept_def)
    qed
  next
    show "threads s3 x = None" if "threads ?v x = None" for x
      using that t(1) fe(9) [of x] by (cases "x = t") (simp_all add: v s3 r(5) s0)
    show "set (queues s3 Defunct) = set (queues ?v Defunct)"
      using nd by (simp add: s3 fe(8) r(6) s0 v remove1_idem)
  qed (simp_all add: v s3)
  moreover have "timers_ok b s3"
  proof -
    have "timers_ok b s0" unfolding s0_def by (rule timers_ok_remove [OF ok])
    then have "timers_ok b ?v"
      by (subst timers_ok_set_flag [where tm = tm]) (use tm in \<open>simp_all add: s0 tm'_def\<close>)
    then show ?thesis by (rule timers_ok_cong [THEN iffD1, rotated 2]) (simp_all add: v s3)
  qed
  ultimately show thesis
    by (intro that [OF loop])
      (use i3 w3 k3 s3 fe(7,8) r(6) in \<open>simp_all add: sys_inv_def s0\<close>)
qed

definition due_threads :: "('a) ksys_scheme \<Rightarrow> nat set" where
  "due_threads s = {t. Thread_timer t \<in> set (timer_list s) \<and> due s (Thread_timer t)}"

text \<open>What the timer part of the tick interrupt does when only thread timers are due; \<open>W\<close> are the
  threads it wakes.\<close>

definition woke :: "nat set \<Rightarrow> ('a) ksys_scheme \<Rightarrow> ('a) ksys_scheme \<Rightarrow> bool" where
  "woke W s s' \<longleftrightarrow> current_thread s' \<noteq> None \<and> rt_tick s' = rt_tick s \<and>
     (\<forall>t \<in> W. woken s' t) \<and> (\<forall>t. t \<notin> W \<longrightarrow> kept_at s s' t) \<and>
     (\<forall>i. i \<notin> Thread_timer ` W \<longrightarrow> timers s' i = timers s i) \<and>
     (\<forall>q. (\<forall>i. q \<noteq> Ready i) \<longrightarrow> set (queues s' q) \<subseteq> set (queues s q)) \<and>
     ksys.more s' = ksys.more s \<and> lock_nest s' = lock_nest s \<and> interrupt_nest s' = interrupt_nest s"

lemma woke_refl: "current_thread s \<noteq> None \<Longrightarrow> woke {} s s"
  by (auto simp: woke_def kept_at_def intro: kept_refl)

lemma woke_insert:
  assumes 1: "current_thread s' \<noteq> None" "woken s' t" "\<And>x. x \<noteq> t \<Longrightarrow> kept_at s s' x" "rt_tick s' = rt_tick s"
    "\<And>i. i \<noteq> Thread_timer t \<Longrightarrow> timers s' i = timers s i"
    "\<And>q. (\<forall>i. q \<noteq> Ready i) \<Longrightarrow> queues s' q = remove1 t (queues s q)"
    "ksys.more s' = ksys.more s" "lock_nest s' = lock_nest s" "interrupt_nest s' = interrupt_nest s"
    and 2: "woke W s' s''" "t \<notin> W"
  shows "woke (insert t W) s s''"
  unfolding woke_def
proof (intro conjI ballI allI impI)
  show "woken s'' x" if "x \<in> insert t W" for x
  proof (cases "x = t")
    case True
    have "kept_at s' s'' t" using 2 by (simp add: woke_def)
    then show ?thesis using True woken_kept [OF 1(2)] by blast
  qed (use that 2(1) in \<open>auto simp: woke_def\<close>)
  show "kept_at s s'' x" if "x \<notin> insert t W" for x
  proof -
    have "kept_at s s' x" using that by (intro 1(3)) auto
    moreover have "kept_at s' s'' x" using that 2(1) by (simp add: woke_def)
    ultimately show ?thesis by (rule kept_at_trans)
  qed
  show "timers s'' i = timers s i" if "i \<notin> Thread_timer ` insert t W" for i
    using that 2(1) 1(5) by (simp add: woke_def)
  show "set (queues s'' q) \<subseteq> set (queues s q)" if "\<forall>i. q \<noteq> Ready i" for q
  proof -
    have "set (queues s'' q) \<subseteq> set (queues s' q)" using 2(1) that by (simp add: woke_def)
    also have "\<dots> \<subseteq> set (queues s q)" using set_remove1_subset [of t "queues s q"] by (simp add: 1(6) [OF that])
    finally show ?thesis .
  qed
qed (use 1 2(1) in \<open>simp_all add: woke_def\<close>)

lemma wake_all:
  assumes "sys_inv s" "timers_ok b s" "rt_tick s - b < RT_TICK_MAX div 2" "current_thread s \<noteq> None"
    and "\<forall>i \<in> set (takeWhile (due s) (timer_list s)). \<exists>t. i = Thread_timer t"
    and "length (takeWhile (due s) (timer_list s)) < n"
  shows "\<exists>s'. timer_check_loop n (timeout_func ut) (rt_tick s) s = Some (Inr s') \<and> sys_inv s' \<and> timers_ok b s' \<and>
    timer_list s' = dropWhile (due s) (timer_list s) \<and>
    woke {t. Thread_timer t \<in> set (takeWhile (due s) (timer_list s))} s s'"
  using assms
proof (induction n arbitrary: s)
  case (Suc n)
  show ?case
  proof (cases "takeWhile (due s) (timer_list s)")
    case Nil
    then have "timer_check_loop (Suc n) (timeout_func ut) (rt_tick s) s = Some (Inr s)"
      by (cases "timer_list s") (auto simp: due_def split: if_splits)
    moreover have "dropWhile (due s) (timer_list s) = timer_list s"
      using Nil by (cases "timer_list s") (auto split: if_splits)
    ultimately show ?thesis using Nil Suc.prems woke_refl [OF Suc.prems(4)] by auto
  next
    case (Cons i us)
    then obtain ts where l: "timer_list s = i # ts" and d: "due s i" and us: "us = takeWhile (due s) ts"
      by (cases "timer_list s") (auto split: if_splits)
    obtain t where i: "i = Thread_timer t" using Suc.prems(5) Cons by auto
    note d' = d [unfolded i] and l' = l [unfolded i]
    obtain s1 where s1: "timer_check_loop (Suc n) (timeout_func ut) (rt_tick s) s =
        timer_check_loop n (timeout_func ut) (rt_tick s1) s1"
      "sys_inv s1" "timers_ok b s1" "timer_list s1 = ts" "rt_tick s1 = rt_tick s"
      "\<And>i. i \<noteq> Thread_timer t \<Longrightarrow> timers s1 i = timers s i"
      "current_thread s1 \<noteq> None" "woken s1 t" "\<And>x. x \<noteq> t \<Longrightarrow> kept_at s s1 x"
      "\<And>q. (\<forall>i. q \<noteq> Ready i) \<Longrightarrow> queues s1 q = remove1 t (queues s q)"
      "ksys.more s1 = ksys.more s" "lock_nest s1 = lock_nest s" "interrupt_nest s1 = interrupt_nest s"
      by (rule wake_one [OF Suc.prems(1,2) d' l' Suc.prems(4), of n ut]) (rule that)
    have nt: "Thread_timer t \<notin> set ts" using Suc.prems(2) l' by (auto simp: timers_ok_def)
    have du: "due s1 x = due s x" if "x \<in> set ts" for x
    proof -
      have "x \<noteq> Thread_timer t" using that nt by blast
      then show ?thesis using s1(5) s1(6) [of x] by (simp add: due_def timeout_of_def)
    qed
    have tw: "takeWhile (due s1) (timer_list s1) = us"
      unfolding s1(4) us by (rule takeWhile_cong) (simp_all add: du)
    have dw: "dropWhile (due s1) (timer_list s1) = dropWhile (due s) (timer_list s)"
      unfolding s1(4) l using d by (simp) (rule dropWhile_cong; simp add: du)
    have "\<exists>s'. timer_check_loop n (timeout_func ut) (rt_tick s1) s1 = Some (Inr s') \<and> sys_inv s' \<and> timers_ok b s' \<and>
      timer_list s' = dropWhile (due s1) (timer_list s1) \<and>
      woke {t. Thread_timer t \<in> set (takeWhile (due s1) (timer_list s1))} s1 s'"
      by (rule Suc.IH [OF s1(2,3) _ s1(7)])
        (use Suc.prems(3,5,6) Cons s1(5) in \<open>simp_all add: tw\<close>)
    then obtain s' where s': "timer_check_loop n (timeout_func ut) (rt_tick s1) s1 = Some (Inr s')"
      "sys_inv s'" "timers_ok b s'" "timer_list s' = dropWhile (due s) (timer_list s)"
      "woke {t. Thread_timer t \<in> set us} s1 s'" unfolding tw dw by blast
    have "t \<notin> {t. Thread_timer t \<in> set us}" using nt set_takeWhileD [of _ "due s" ts] us by auto
    from woke_insert [OF s1(7,8,9) s1(5,6,10-13) s'(5) this]
    have "woke (insert t {t. Thread_timer t \<in> set us}) s s'" .
    moreover have "insert t {t. Thread_timer t \<in> set us} = {x. Thread_timer x \<in> set (takeWhile (due s) (timer_list s))}"
      unfolding Cons i by auto
    ultimately show ?thesis using s' s1(1) by auto
  qed
qed simp

text \<open>A change of a thread's own data under the invariant.\<close>

lemma set_data_ok:
  assumes inv: "sys_inv s" and t: "threads s t = Some th"
    and u: "stat_of u = stat_of th" "th_current_priority u = th_current_priority th"
      "th_number_mask u = th_number_mask th" "th_object u = th_object th" "th_init_priority u = th_init_priority th"
  shows "sys_inv (set_thread t u s)" "calm s (set_thread t u s)"
proof -
  have si: "sched_inv {} s" and ti: "timer_inv s" using inv by (simp_all add: sys_inv_def)
  have "timer_inv (set_thread t u s)"
  proof (rule timer_inv_change [OF ti])
    fix i v assume "threads s i = Some v"
    then show "\<exists>u'. threads (set_thread t u s) i = Some u' \<and> same_life s i v u'"
      using t u by (cases "i = t") (auto simp: set_thread_def same_life_def)
  qed (use t in \<open>auto simp: set_thread_def split: if_splits\<close>)
  then show "sys_inv (set_thread t u s)" using sched_inv_data [OF si t u(1-3)] by (simp add: sys_inv_def)
  show "calm s (set_thread t u s)"
    using timers_ok_cong [of "set_thread t u s" s] by (simp add: calm_def set_thread_def)
qed

lemma stat_of_yield: "stat_of (th\<lparr> th_stat := th_stat th OR 8, th_remaining_tick := r \<rparr>) = stat_of th"
  by (simp add: stat_of_def bit.conj_disj_distrib2)

text \<open>The time-slice part of the tick.\<close>

lemma slice_ok:
  assumes inv: "sys_inv s" and c: "current_thread s = Some c"
  obtains s' where "\<And>n ut. rt_tick_increase n ut s = rt_timer_check n (timeout_func ut) s'"
    and "sys_inv s'" "rt_tick s' = rt_tick s + 1" "timers s' = timers s" "timer_list s' = timer_list s"
    and "current_thread s' \<noteq> None" "\<And>t. kept_at s s' t" "ksys.more s' = ksys.more s"
    and "\<And>q. (\<forall>i. q \<noteq> Ready i) \<Longrightarrow> queues s' q = queues s q"
    and "lock_nest s' = lock_nest s" "interrupt_nest s' = interrupt_nest s"
proof -
  define s1 where "s1 = s\<lparr> rt_tick := rt_tick s + 1 \<rparr>"
  have i1: "sys_inv s1" using inv by (simp add: sys_inv_def s1_def)
  obtain th where th: "threads s c = Some th" using inv current_exists [OF _ c] by (auto simp: sys_inv_def)
  have th1: "threads s1 c = Some th" and c1: "current_thread s1 = Some c" using th c by (simp_all add: s1_def)
  have data: "kept_at s (set_thread c u s1) t"
    if "kept th u" for u t
    using that th kept_refl by (auto simp: kept_at_def s1_def set_thread_def)
  show thesis
  proof (cases "th_remaining_tick th - 1 = 0")
    case False
    define u where "u = th\<lparr> th_remaining_tick := th_remaining_tick th - 1 \<rparr>"
    have ux: "stat_of u = stat_of th" "th_current_priority u = th_current_priority th"
      "th_number_mask u = th_number_mask th" "th_object u = th_object th" "th_init_priority u = th_init_priority th" by (simp_all add: u_def stat_of_def)
    note sd = set_data_ok [OF i1 th1 ux]
    have "rt_tick_increase n ut s = rt_timer_check n (timeout_func ut) (set_thread c u s1)" for n ut
      using c1 th1 False by (simp add: rt_tick_increase_def rt_thread_self_def s1_def [symmetric] with_thread_def u_def Let_def)
    moreover have "kept th u" by (auto simp: kept_def u_def stat_of_def)
    ultimately show thesis
      by (intro that [of "set_thread c u s1"]) (use sd(1) data c in \<open>simp_all add: s1_def set_thread_def\<close>)
  next
    case True
    define u where "u = th\<lparr> th_remaining_tick := th_init_tick th, th_stat := th_stat th OR 8 \<rparr>"
    have su: "stat_of u = stat_of th"
      using stat_of_yield [where th = th and r = "th_init_tick th"] by (simp add: u_def stat_of_def)
    have ux: "th_current_priority u = th_current_priority th"
      "th_number_mask u = th_number_mask th" "th_object u = th_object th" "th_init_priority u = th_init_priority th" by (simp_all add: u_def)
    note sd = set_data_ok [OF i1 th1 su ux]
    have "current_thread (set_thread c u s1) \<noteq> None" by (simp add: set_thread_def c1)
    then obtain s' where s': "rt_schedule (set_thread c u s1) = Inr s'" "sys_inv s'" "frame (set_thread c u s1) s'"
      using schedule_inv [OF sd(1)] by blast
    note fe = frame_env [OF s'(3)]
    have "rt_tick_increase n ut s = rt_timer_check n (timeout_func ut) s'" for n ut
      using c1 th1 True s'(1)
      by (simp add: rt_tick_increase_def rt_thread_self_def s1_def [symmetric] with_thread_def u_def Let_def
          rt_thread_yield_def)
    moreover have "kept th u" using su by (auto simp: kept_def u_def)
    note kept_at_trans [OF data [OF this] kept_at_frame [OF s'(3)]]
    ultimately show thesis
      by (intro that [of s']) (use s'(2) fe in \<open>simp_all add: s1_def set_thread_def\<close>)
  qed
qed

lemma timers_ok_advance:
  assumes ok: "timers_ok b s" and late: "rt_tick s - b < RT_TICK_MAX div 2"
    and nd: "\<And>i. i \<in> set (timer_list s) \<Longrightarrow> \<not> due s i"
  shows "timers_ok (rt_tick s) s"
proof -
  let ?k = "unat (rt_tick s - b)"
  have key: "?k < ahead b s i \<and> ahead (rt_tick s) s i = ahead b s i - ?k \<and> timeout_of s i - rt_tick s < RT_TICK_MAX div 2"
    if i: "i \<in> set (timer_list s)" for i
  proof -
    have h: "timeout_of s i - b < RT_TICK_MAX div 2" using ok i by (auto simp: timers_ok_def)
    then have gt: "?k < ahead b s i" using due_iff [OF h late] nd [OF i] by simp
    have eq: "timeout_of s i - rt_tick s = (timeout_of s i - b) - (rt_tick s - b)" by simp
    have "rt_tick s - b \<le> timeout_of s i - b" using gt by (simp add: ahead_def word_le_nat_alt)
    then have "ahead (rt_tick s) s i = ahead b s i - ?k" unfolding ahead_def eq by (rule unat_sub)
    moreover from this have "timeout_of s i - rt_tick s < RT_TICK_MAX div 2"
      using h by (simp add: ahead_def half_max word_less_nat_alt)
    ultimately show ?thesis using gt by blast
  qed
  have "sorted (map (\<lambda>i. ahead b s i - ?k) (timer_list s))"
    using ok by (auto simp: timers_ok_def sorted_map intro: sorted_wrt_mono_rel [rotated] diff_le_mono)
  moreover have "map (\<lambda>i. ahead b s i - ?k) (timer_list s) = map (ahead (rt_tick s) s) (timer_list s)"
    using key by simp
  ultimately show ?thesis using ok key by (simp add: timers_ok_def)
qed

text \<open>Ticks until the timer of \<open>t\<close> expires.\<close>

definition remaining :: "('a) ksys_scheme \<Rightarrow> nat \<Rightarrow> nat" where
  "remaining s t = ahead (rt_tick s) s (Thread_timer t)"

definition asleep :: "('a) ksys_scheme \<Rightarrow> nat \<Rightarrow> bool" where
  "asleep s t \<longleftrightarrow> Thread_timer t \<in> set (timer_list s) \<and>
     (\<exists>th. threads s t = Some th \<and> stat_of th = RT_THREAD_SUSPEND)"

definition thread_timers_only :: "('a) ksys_scheme \<Rightarrow> bool" where
  "thread_timers_only s \<longleftrightarrow> (\<forall>i \<in> set (timer_list s). \<exists>t. i = Thread_timer t)"

lemma tick_ok:
  assumes inv: "sys_inv s" and ok: "timers_ok (rt_tick s) s" and c: "current_thread s \<noteq> None"
    and only: "thread_timers_only s" and n: "length (timer_list s) < n"
  obtains s' where "rt_tick_increase n ut s = Some (Inr s')" "sys_inv s'" "timers_ok (rt_tick s') s'"
    and "rt_tick s' = rt_tick s + 1" "current_thread s' \<noteq> None" "thread_timers_only s'"
    and "length (timer_list s') \<le> length (timer_list s)"
    and "\<And>t. asleep s t \<Longrightarrow> remaining s t \<le> 1 \<Longrightarrow> woken s' t"
    and "\<And>t. asleep s t \<Longrightarrow> 1 < remaining s t \<Longrightarrow> asleep s' t \<and> remaining s' t = remaining s t - 1"
    and "\<And>t. \<not> asleep s t \<Longrightarrow> kept_at s s' t"
    and "\<And>q. (\<forall>i. q \<noteq> Ready i) \<Longrightarrow> set (queues s' q) \<subseteq> set (queues s q)"
    and "ksys.more s' = ksys.more s" "lock_nest s' = lock_nest s" "interrupt_nest s' = interrupt_nest s"
proof -
  obtain c0 where c0: "current_thread s = Some c0" using c by blast
  obtain s1 where s1: "\<And>n ut. rt_tick_increase n ut s = rt_timer_check n (timeout_func ut) s1"
      "sys_inv s1" "rt_tick s1 = rt_tick s + 1" "timers s1 = timers s" "timer_list s1 = timer_list s"
      "current_thread s1 \<noteq> None" "\<And>t. kept_at s s1 t" "ksys.more s1 = ksys.more s"
      "\<And>q. (\<forall>i. q \<noteq> Ready i) \<Longrightarrow> queues s1 q = queues s q"
      "lock_nest s1 = lock_nest s" "interrupt_nest s1 = interrupt_nest s"
    by (rule slice_ok [OF inv c0]) (rule that)
  let ?b = "rt_tick s"
  have ok1: "timers_ok ?b s1" using ok timers_ok_cong [OF s1(4,5)] by simp
  have late: "rt_tick s1 - ?b < RT_TICK_MAX div 2" by (simp add: s1(3) half_max)
  let ?W = "{t. Thread_timer t \<in> set (takeWhile (due s1) (timer_list s1))}"
  have tl: "\<forall>i \<in> set (takeWhile (due s1) (timer_list s1)). \<exists>t. i = Thread_timer t"
    using only set_takeWhileD [of _ "due s1" "timer_list s1"] by (auto simp: thread_timers_only_def s1(5))
  have ln: "length (takeWhile (due s1) (timer_list s1)) < n"
    using n length_takeWhile_le [of "due s1" "timer_list s1"] by (simp add: s1(5))
  from wake_all [OF s1(2) ok1 late s1(6) tl ln, of ut] obtain s' where
    s': "timer_check_loop n (timeout_func ut) (rt_tick s1) s1 = Some (Inr s')" "sys_inv s'" "timers_ok ?b s'"
      "timer_list s' = dropWhile (due s1) (timer_list s1)" "woke ?W s1 s'" by blast
  have run: "rt_tick_increase n ut s = Some (Inr s')"
    by (simp add: s1(1) rt_timer_check_def rt_tick_get_def s'(1))
  have tk: "rt_tick s' = rt_tick s + 1" using s'(5) s1(3) by (simp add: woke_def)
  have late': "rt_tick s' - ?b < RT_TICK_MAX div 2" by (simp add: tk half_max)
  have split: "timer_list s = takeWhile (due s1) (timer_list s1) @ timer_list s'" by (simp add: s'(4) s1(5))
  have sub: "set (timer_list s') \<subseteq> set (timer_list s)" using split by (metis Un_upper2 set_append)
  have ds: "distinct (timer_list s)" using ok by (simp add: timers_ok_def)
  then have disj: "x \<notin> set (takeWhile (due s1) (timer_list s1))" if "x \<in> set (timer_list s')" for x
    using that split by (metis disjoint_iff distinct_append)
  have to': "timeout_of s' i = timeout_of s i" if "i \<in> set (timer_list s')" for i
  proof -
    have "i \<notin> Thread_timer ` ?W" using disj [OF that] by auto
    then have "timers s' i = timers s1 i" using s'(5) by (simp add: woke_def)
    then show ?thesis by (simp add: timeout_of_def s1(4))
  qed
  have filt: "set (takeWhile (due s1) (timer_list s1)) = {i \<in> set (timer_list s). due s1 i}"
    using due_prefix [OF ok1 late] by (metis s1(5) set_filter)
  have nd: "\<not> due s' i" if i: "i \<in> set (timer_list s')" for i
  proof -
    have "\<not> due s1 i" using disj [OF i] i sub filt by blast
    moreover have "timeout_of s1 i = timeout_of s' i" using to' [OF i] by (simp add: timeout_of_def s1(4))
    ultimately show ?thesis by (simp add: due_def tk s1(3))
  qed
  have ok': "timers_ok (rt_tick s') s'" by (rule timers_ok_advance [OF s'(3) late' nd])
  have rem: "due s1 (Thread_timer t) \<longleftrightarrow> remaining s t \<le> 1" if "Thread_timer t \<in> set (timer_list s)" for t
  proof -
    have "timeout_of s1 (Thread_timer t) - ?b < RT_TICK_MAX div 2"
      using ok1 that by (auto simp: timers_ok_def s1(5))
    from due_iff [OF this late] show ?thesis
      by (simp add: remaining_def ahead_def timeout_of_def s1(3,4))
  qed
  have stays: "asleep s' t \<and> remaining s' t = remaining s t - 1" if a: "asleep s t" "1 < remaining s t" for t
  proof -
    have m: "Thread_timer t \<in> set (timer_list s)" using a(1) by (simp add: asleep_def)
    then have "\<not> due s1 (Thread_timer t)" using rem a(2) by simp
    then have nW: "t \<notin> ?W" and m': "Thread_timer t \<in> set (timer_list s')"
      using filt m split by (auto dest: arg_cong [where f = set])
    obtain th where th: "threads s t = Some th" "stat_of th = 2" using a(1) by (auto simp: asleep_def)
    have "kept_at s s' t" using s'(5) nW s1(7) by (auto simp: woke_def intro: kept_at_trans)
    then have "asleep s' t" using th m' by (auto simp: asleep_def kept_at_def kept_def)
    moreover have "remaining s' t = remaining s t - 1"
    proof -
      have "timeout_of s' (Thread_timer t) - (rt_tick s + 1) = (timeout_of s (Thread_timer t) - rt_tick s) - 1"
        using to' [OF m'] by simp
      moreover have "(1 :: u32) \<le> timeout_of s (Thread_timer t) - rt_tick s"
        using a(2) by (simp add: remaining_def ahead_def word_le_nat_alt)
      ultimately show ?thesis unfolding remaining_def ahead_def tk by (metis unat_1 unat_sub)
    qed
    ultimately show ?thesis by blast
  qed
  have wakes: "woken s' t" if a: "asleep s t" "remaining s t \<le> 1" for t
  proof -
    have "t \<in> ?W" using a rem filt by (auto simp: asleep_def)
    then show ?thesis using s'(5) by (simp add: woke_def)
  qed
  have others: "kept_at s s' t" if "\<not> asleep s t" for t
  proof -
    have "t \<notin> ?W"
    proof
      assume "t \<in> ?W"
      then have "Thread_timer t \<in> set (timer_list s)" using filt by blast
      then have "asleep s t" using inv unfolding sys_inv_def timer_inv_def asleep_def by blast
      then show False using that by blast
    qed
    then show ?thesis using s'(5) s1(7) by (auto simp: woke_def intro: kept_at_trans)
  qed
  show thesis
  proof (rule that [OF run s'(2) ok' tk _ _ _ wakes stays others])
    show "current_thread s' \<noteq> None" "ksys.more s' = ksys.more s" "lock_nest s' = lock_nest s"
      "interrupt_nest s' = interrupt_nest s" using s'(5) s1 by (simp_all add: woke_def)
    show "thread_timers_only s'" using only sub by (auto simp: thread_timers_only_def)
    show "length (timer_list s') \<le> length (timer_list s)" by (simp add: s'(4) s1(5) length_dropWhile_le)
    show "set (queues s' q) \<subseteq> set (queues s q)" if "\<forall>i. q \<noteq> Ready i" for q
    proof -
      have "set (queues s' q) \<subseteq> set (queues s1 q)" using s'(5) that unfolding woke_def by blast
      then show ?thesis by (simp add: s1(9) [OF that])
    qed
  qed
qed

section \<open>Sleeping\<close>

lemma frame_asleep:
  assumes fr: "frame s s'"
  shows "asleep s t \<Longrightarrow> asleep s' t" and "remaining s' t = remaining s t"
    and "timers_ok b s' = timers_ok b s" and "thread_timers_only s' = thread_timers_only s"
proof -
  note fe = frame_env [OF fr]
  show "asleep s' t" if "asleep s t"
    using that frameD [OF fr, of t] by (auto simp: asleep_def fe kept_def)
  show "remaining s' t = remaining s t" by (simp add: remaining_def ahead_def timeout_of_def fe)
  show "timers_ok b s' = timers_ok b s" by (rule timers_ok_cong [OF fe(1,2)])
  show "thread_timers_only s' = thread_timers_only s" by (simp add: thread_timers_only_def fe)
qed

text \<open>The running thread suspends itself with a time limit and gives up the processor; \<open>s0\<close> is the
  state before the rescheduling.\<close>

lemma suspend_current_ok:
  assumes inv: "sys_inv s" and ok: "timers_ok (rt_tick s) s" and c: "current_thread s = Some c"
    and th: "threads s c = Some th" "th_object th" "stat_of th = RT_THREAD_RUNNING"
    and k: "tick < RT_TICK_MAX div 2"
  obtains s1 s2 where "rt_thread_suspend c s = Inr (s1, 0)" "start_thread_timer c tick s1 = Inr s2"
    and "sys_inv s2" "timers_ok (rt_tick s2) s2" "rt_tick s2 = rt_tick s" "current_thread s2 = Some c"
    and "threads s2 = (threads s)(c := Some (with_stat RT_THREAD_SUSPEND th))"
    and "queues s2 = (\<lambda>q. remove1 c (queues s q))" "\<And>q. c \<notin> set (queues s2 q)"
    and "asleep s2 c" "remaining s2 c = unat tick"
    and "set (timer_list s2) = insert (Thread_timer c) (set (timer_list s))"
    and "ksys.more s2 = ksys.more s" "lock_nest s2 = lock_nest s" "interrupt_nest s2 = interrupt_nest s"
proof -
  have st: "stat_of th = RT_THREAD_READY \<or> stat_of th = RT_THREAD_RUNNING" using th(3) by blast
  obtain s1 where s1: "rt_thread_suspend c s = Inr (s1, 0)" "sys_inv s1" "calm s s1"
      "threads s1 = (threads s)(c := Some (with_stat RT_THREAD_SUSPEND th))"
      "queues s1 = (\<lambda>q. remove1 c (queues s q))" "\<And>q. c \<notin> set (queues s1 q)"
      "timers s1 = timers s" "timer_list s1 = timer_list s"
    by (rule suspend_ok [OF inv th(1,2) st]) (rule that)
  have t1: "threads s1 c = Some (with_stat RT_THREAD_SUSPEND th)" "th_object (with_stat RT_THREAD_SUSPEND th)"
    "stat_of (with_stat RT_THREAD_SUSPEND th) = RT_THREAD_SUSPEND" using th(2) stat_rules by (simp_all add: s1(4))
  have ok1: "timers_ok (rt_tick s1) s1" using ok s1(3) by (simp add: calm_def)
  obtain s2 where s2: "start_thread_timer c tick s1 = Inr s2" "sys_inv s2" "timers_ok (rt_tick s1) s2"
      "threads s2 = threads s1" "queues s2 = queues s1" "rt_tick s2 = rt_tick s1"
      "current_thread s2 = current_thread s1" "lock_nest s2 = lock_nest s1"
      "interrupt_nest s2 = interrupt_nest s1" "ksys.more s2 = ksys.more s1"
      "timeout_of s2 (Thread_timer c) = rt_tick s1 + tick"
      "set (timer_list s2) = insert (Thread_timer c) (set (timer_list s1))"
    by (rule start_thread_timer_ok [OF s1(2) t1 ok1 k]) (rule that)
  show thesis
    by (rule that [OF s1(1) s2(1,2)])
      (use s1 s2 t1 c in \<open>simp_all add: calm_def asleep_def remaining_def ahead_def\<close>)
qed

lemma length_le_card_timers: "sys_inv s \<Longrightarrow> length (timer_list s) = card (set (timer_list s))"
  by (simp add: sys_inv_def timer_inv_def distinct_card)

lemma sleep_ok:
  assumes inv: "sys_inv s" and ok: "timers_ok (rt_tick s) s" and c: "current_thread s = Some c"
    and th: "threads s c = Some th" "th_object th" "stat_of th = RT_THREAD_RUNNING"
    and k: "tick < RT_TICK_MAX div 2"
  obtains s' where "rt_thread_sleep tick s = Inr s'" "sys_inv s'" "timers_ok (rt_tick s') s'"
    and "asleep s' c" "remaining s' c = unat tick" "rt_tick s' = rt_tick s" "current_thread s' \<noteq> None"
    and "set (timer_list s') = insert (Thread_timer c) (set (timer_list s))"
    and "\<And>t. t \<noteq> c \<Longrightarrow> kept_at s s' t"
proof -
  obtain s1 s2 where r: "rt_thread_suspend c s = Inr (s1, 0)" "start_thread_timer c tick s1 = Inr s2"
    "sys_inv s2" "timers_ok (rt_tick s2) s2" "rt_tick s2 = rt_tick s" "current_thread s2 = Some c"
    "threads s2 = (threads s)(c := Some (with_stat RT_THREAD_SUSPEND th))"
    "asleep s2 c" "remaining s2 c = unat tick"
    "set (timer_list s2) = insert (Thread_timer c) (set (timer_list s))"
    by (rule suspend_current_ok [OF assms]) (rule that)
  have "current_thread s2 \<noteq> None" by (simp add: r(6))
  then obtain s' where s': "rt_schedule s2 = Inr s'" "sys_inv s'" "frame s2 s'"
    using schedule_inv [OF r(3)] by blast
  note fe = frame_env [OF s'(3)] and fa = frame_asleep [OF s'(3)]
  have "rt_thread_sleep tick s = Inr s'"
    using c th r(1,2) s'(1) by (simp add: rt_thread_sleep_def rt_thread_self_def checked_thread_def with_thread_def)
  moreover have "kept_at s s' t" if "t \<noteq> c" for t
    using that kept_at_frame [OF s'(3), of t] by (simp add: kept_at_def r(7))
  ultimately show thesis
    by (intro that [OF _ s'(2)]) (use r fe fa in simp_all)
qed

text \<open>A number of ticks in a row, with no other activity.\<close>

fun ticks :: "nat \<Rightarrow> (nat \<Rightarrow> ('a) ksys_scheme \<Rightarrow> ('a) ksys_scheme res) \<Rightarrow> nat \<Rightarrow> ('a) ksys_scheme \<Rightarrow>
    ('a) ksys_scheme res option" where
  "ticks n ut 0 s = Some (Inr s)"
| "ticks n ut (Suc k) s = (case rt_tick_increase n ut s of
     Some (Inr s') \<Rightarrow> ticks n ut k s' | Some (Inl e) \<Rightarrow> Some (Inl e) | None \<Rightarrow> None)"

lemma ticks_ok:
  assumes "sys_inv s" "timers_ok (rt_tick s) s" "current_thread s \<noteq> None" "thread_timers_only s"
    "length (timer_list s) < n"
  shows "\<exists>s'. ticks n ut k s = Some (Inr s') \<and> sys_inv s' \<and> timers_ok (rt_tick s') s' \<and>
    (asleep s t \<longrightarrow> (if k < max 1 (remaining s t) then asleep s' t \<and> remaining s' t = remaining s t - k
      else k = max 1 (remaining s t) \<longrightarrow> woken s' t))"
  using assms
proof (induction k arbitrary: s)
  case 0
  then show ?case by auto
next
  case (Suc k)
  obtain s1 where s1: "rt_tick_increase n ut s = Some (Inr s1)" "sys_inv s1" "timers_ok (rt_tick s1) s1"
      "rt_tick s1 = rt_tick s + 1" "current_thread s1 \<noteq> None" "thread_timers_only s1"
      "length (timer_list s1) \<le> length (timer_list s)"
      "asleep s t \<Longrightarrow> remaining s t \<le> 1 \<Longrightarrow> woken s1 t"
      "asleep s t \<Longrightarrow> 1 < remaining s t \<Longrightarrow> asleep s1 t \<and> remaining s1 t = remaining s t - 1"
    by (rule tick_ok [OF Suc.prems, of ut]) (rule that)
  have "length (timer_list s1) < n" using s1(7) Suc.prems(5) by simp
  from Suc.IH [OF s1(2,3,5,6) this] obtain s' where s': "ticks n ut k s1 = Some (Inr s')" "sys_inv s'"
    "timers_ok (rt_tick s') s'"
    "asleep s1 t \<longrightarrow> (if k < max 1 (remaining s1 t) then asleep s' t \<and> remaining s' t = remaining s1 t - k
      else k = max 1 (remaining s1 t) \<longrightarrow> woken s' t)" by blast
  have "if Suc k < max 1 (remaining s t) then asleep s' t \<and> remaining s' t = remaining s t - Suc k
      else Suc k = max 1 (remaining s t) \<longrightarrow> woken s' t" if a: "asleep s t"
  proof (cases "1 < remaining s t")
    case True
    then have "asleep s1 t" "remaining s1 t = remaining s t - 1" using s1(9) [OF a] by auto
    then show ?thesis using s'(4) True by (auto simp: max_def split: if_splits)
  next
    case False
    then have "woken s1 t" using s1(8) [OF a] by simp
    moreover have "s' = s1" if "k = 0" using s'(1) that by simp
    ultimately show ?thesis using False by (auto simp: max_def)
  qed
  then show ?case using s1(1) s'(1-3) by auto
qed

section \<open>Properties\<close>

text \<open>C11: A running thread that sleeps for \<open>tick\<close> ticks (fewer than half the range of the counter, at
  least one) stays suspended for every one of the next \<open>tick - 1\<close> tick interrupts and is runnable again,
  with the timeout error set, at the \<open>tick\<close>-th, across a wrap of the counter; on its return the error
  is cleared and the call succeeds. No assertion of the kernel fails on the way. Only thread timers are
  linked, and \<open>n\<close> bounds the number of timers that fire in one interrupt.\<close>

theorem rt_thread_sleep_wakes_on_time:
  "sys_inv s \<Longrightarrow> timers_ok (rt_tick s) s \<Longrightarrow> thread_timers_only s \<Longrightarrow> length (timer_list s) + 1 < n \<Longrightarrow>
   current_thread s = Some c \<Longrightarrow> threads s c = Some th \<Longrightarrow> th_object th \<Longrightarrow>
   stat_of th = RT_THREAD_RUNNING \<Longrightarrow> 0 < tick \<Longrightarrow> tick < RT_TICK_MAX div 2 \<Longrightarrow>
   \<exists>s0. rt_thread_sleep tick s = Inr s0 \<and>
     (\<forall>k < unat tick. \<exists>sk. ticks n ut k s0 = Some (Inr sk) \<and> sys_inv sk \<and> asleep sk c) \<and>
     (\<exists>sk s' u. ticks n ut (unat tick) s0 = Some (Inr sk) \<and> sys_inv sk \<and> runnable sk c \<and>
        rt_thread_sleep_return c sk = Inr (s', RT_EOK) \<and> threads s' c = Some u \<and> th_error u = RT_EOK)"
proof -
  assume h: "sys_inv s" "timers_ok (rt_tick s) s" "current_thread s = Some c" "threads s c = Some th"
      "th_object th" "stat_of th = RT_THREAD_RUNNING" "tick < RT_TICK_MAX div 2"
    and only: "thread_timers_only s" and n: "length (timer_list s) + 1 < n" and pos: "0 < tick"
  obtain s0 where s0: "rt_thread_sleep tick s = Inr s0" "sys_inv s0" "timers_ok (rt_tick s0) s0"
      "asleep s0 c" "remaining s0 c = unat tick" "current_thread s0 \<noteq> None"
      "set (timer_list s0) = insert (Thread_timer c) (set (timer_list s))"
    by (rule sleep_ok [OF h]) (rule that)
  have on: "thread_timers_only s0" using only s0(7) by (auto simp: thread_timers_only_def)
  have "length (timer_list s0) \<le> length (timer_list s) + 1"
    unfolding length_le_card_timers [OF s0(2)] length_le_card_timers [OF h(1)] s0(7)
    by (simp add: card_insert_if)
  then have ln: "length (timer_list s0) < n" using n by simp
  have m: "max 1 (remaining s0 c) = unat tick" using pos by (simp add: s0(5) unat_gt_0 max_def Suc_le_eq)
  have run: "\<exists>sk. ticks n ut k s0 = Some (Inr sk) \<and> sys_inv sk \<and>
      (k < unat tick \<longrightarrow> asleep sk c) \<and> (k = unat tick \<longrightarrow> woken sk c)" for k
    using ticks_ok [OF s0(2,3,6) on ln, of ut k c] s0(4) unfolding m by (auto split: if_splits)
  obtain sk u where sk: "ticks n ut (unat tick) s0 = Some (Inr sk)" "sys_inv sk" "threads sk c = Some u"
    "stat_of u = RT_THREAD_READY \<or> stat_of u = RT_THREAD_RUNNING" "th_error u = - RT_ETIMEOUT"
    using run [of "unat tick"] by (auto simp: woken_def)
  have "runnable sk c" using sk(3,4) by (auto simp: runnable_def)
  moreover have "rt_thread_sleep_return c sk = Inr (set_thread c (u\<lparr> th_error := RT_EOK \<rparr>) sk, RT_EOK)"
    using sk(3,5) by (simp add: rt_thread_sleep_return_def with_thread_def)
  moreover have "threads (set_thread c (u\<lparr> th_error := RT_EOK \<rparr>) sk) c = Some (u\<lparr> th_error := RT_EOK \<rparr>)"
    by (simp add: set_thread_def)
  ultimately have "\<exists>s' u. ticks n ut (unat tick) s0 = Some (Inr sk) \<and> sys_inv sk \<and> runnable sk c \<and>
      rt_thread_sleep_return c sk = Inr (s', RT_EOK) \<and> threads s' c = Some u \<and> th_error u = RT_EOK"
    using sk(1,2)
    by (intro exI [of _ sk] exI [of _ "set_thread c (u\<lparr> th_error := RT_EOK \<rparr>) sk"] exI [of _ "u\<lparr> th_error := RT_EOK \<rparr>"])
      simp
  then show ?thesis using s0(1) run by blast
qed

lemma sample_sched_sys_inv: "sys_inv sample_sched"
proof -
  have "timer_inv sample_sched"
    by (simp add: timer_inv_def sample_sched_def live_def sample_thread_def stat_of_def)
  then show ?thesis using sample_sched_inv by (simp add: sys_inv_def)
qed

theorem rt_thread_sleep_wakes_on_time_witness:
  "\<exists>s0. rt_thread_sleep 3 sample_sched = Inr s0 \<and>
     (\<exists>sk. ticks 5 (\<lambda>_. Inr) 2 s0 = Some (Inr sk) \<and> asleep sk 0) \<and>
     (\<exists>sk. ticks 5 (\<lambda>_. Inr) 3 s0 = Some (Inr sk) \<and> runnable sk 0)"
proof -
  have h: "timers_ok (rt_tick sample_sched) sample_sched" "thread_timers_only sample_sched"
    "length (timer_list sample_sched) + 1 < 5" "current_thread sample_sched = Some 0"
    "threads sample_sched 0 = Some (sample_thread 3 5)"
    by (simp_all add: sample_sched_def timers_ok_def thread_timers_only_def)
  have t: "th_object (sample_thread 3 5)" "stat_of (sample_thread 3 5) = RT_THREAD_RUNNING" "(0 :: u32) < 3"
    "(3 :: u32) < RT_TICK_MAX div 2"
    by (simp_all add: sample_thread_def stat_of_def half_max)
  from rt_thread_sleep_wakes_on_time [OF sample_sched_sys_inv h t, of "\<lambda>_. Inr"] obtain s0 where
    s0: "rt_thread_sleep 3 sample_sched = Inr s0"
      "\<forall>k < 3. \<exists>sk. ticks 5 (\<lambda>_. Inr) k s0 = Some (Inr sk) \<and> sys_inv sk \<and> asleep sk 0"
      "\<exists>sk. ticks 5 (\<lambda>_. Inr) 3 s0 = Some (Inr sk) \<and> runnable sk 0" by auto
  have "\<exists>sk. ticks 5 (\<lambda>_. Inr) 2 s0 = Some (Inr sk) \<and> asleep sk 0"
    using s0(2) [rule_format, of 2] by auto
  then show ?thesis using s0(1,3) by blast
qed

end
