(* ===== verification/ThreadLife.thy ===== *)
theory ThreadLife
  imports Thread
begin

text \<open>
  The life of threads: starting, changing priority, ending and reaping, and the proof that every
  sequence of kernel calls and tick interrupts keeps the invariant of the scheduler and of the
  thread timers.
\<close>

section \<open>What every call leaves of the clock and the timers\<close>

definition quiet :: "('a) ksys_scheme \<Rightarrow> ('a) ksys_scheme \<Rightarrow> bool" where
  "quiet s s' \<longleftrightarrow> rt_tick s' = rt_tick s \<and> set (timer_list s') \<subseteq> set (timer_list s) \<and>
     (current_thread s \<noteq> None \<longrightarrow> current_thread s' \<noteq> None) \<and> (\<forall>b. timers_ok b s \<longrightarrow> timers_ok b s')"

lemma quiet_refl [simp]: "quiet s s"
  by (simp add: quiet_def)

lemma quiet_trans: "quiet s s' \<Longrightarrow> quiet s' s'' \<Longrightarrow> quiet s s''"
  unfolding quiet_def by auto

lemma calm_quiet: "calm s s' \<Longrightarrow> quiet s s'"
  by (simp add: calm_def quiet_def)

lemma frame_quiet: "frame s s' \<Longrightarrow> quiet s s'"
  by (simp add: quiet_def frame_env frame_asleep(3))

lemma same_timers_quiet:
  "timers s' = timers s \<Longrightarrow> timer_list s' = timer_list s \<Longrightarrow> rt_tick s' = rt_tick s \<Longrightarrow>
   current_thread s' = current_thread s \<Longrightarrow> quiet s s'"
  using timers_ok_cong [of s' s] by (simp add: quiet_def)

section \<open>Starting\<close>

text \<open>A thread in no list may get any status that needs none.\<close>

lemma unqueued_init:
  assumes "sched_inv {} s" "threads s t = Some th" "stat_of th = RT_THREAD_INIT"
  shows "t \<notin> set (queues s q)" and "current_thread s \<noteq> Some t"
proof -
  have "stats_ok {} s" using assms(1) by (simp add: sched_inv_def)
  from this [unfolded stats_ok_def, rule_format, OF assms(2)]
  show "t \<notin> set (queues s q)" "current_thread s \<noteq> Some t"
    using assms(3) by (cases q; auto)+
qed

lemma timer_inv_set_thread:
  assumes inv: "timer_inv s" and t: "threads s t = Some th" and u: "same_life s t th u"
  shows "timer_inv (set_thread t u s)"
proof (rule timer_inv_change [OF inv])
  fix i v assume "threads s i = Some v"
  then show "\<exists>u'. threads (set_thread t u s) i = Some u' \<and> same_life s i v u'"
    using t u same_life_refl by (cases "i = t") (auto simp: set_thread_def)
qed (use t in \<open>auto simp: set_thread_def split: if_splits\<close>)

lemma startup_ok:
  assumes inv: "sys_inv s" and t: "threads s t = Some th" "th_object th" "stat_of th = RT_THREAD_INIT"
  obtains s' where "rt_thread_startup t s = Inr (s', 0)" "sys_inv s'" "runnable s' t"
    and "prio_of s' t = unat (th_init_priority th)" and "\<And>x. x \<noteq> t \<Longrightarrow> kept_at s s' x" "quiet s s'"
proof -
  have si: "sched_inv {} s" and ti: "timer_inv s" using inv by (simp_all add: sys_inv_def)
  define u where "u = th\<lparr> th_current_priority := th_init_priority th,
    th_number_mask := push_bit (unat (th_init_priority th)) 1, th_stat := RT_THREAD_SUSPEND \<rparr>"
  have ip: "unat (th_init_priority th) < 32" using ti t(1) unfolding timer_inv_def by blast
  have u: "stat_of u = 2" "prio_ok u" "th_object u" using ip t(2) by (simp_all add: u_def stat_of_def prio_ok_def)
  note uq = unqueued_init [OF si t(1,3)]
  let ?s1 = "set_thread t u s"
  have "sched_inv {} ?s1"
    by (rule set_stat_inv [OF sched_inv_mono [OF si] t(1) uq(1)]) (use u in auto)
  moreover have "Thread_timer t \<notin> set (timer_list s)" using linked_suspended [OF ti _ t(1)] t(3) by auto
  then have "timer_inv ?s1"
    by (intro timer_inv_set_thread [OF ti t(1)]) (use t u(1) in \<open>simp add: same_life_def u_def\<close>)
  ultimately have i1: "sys_inv ?s1" by (simp add: sys_inv_def)
  have t1: "threads ?s1 t = Some u" by (simp add: set_thread_def)
  obtain s2 where s2: "rt_thread_resume t ?s1 = Inr (s2, 0)" "sys_inv s2" "calm ?s1 s2"
      "threads s2 = (threads ?s1)(t := Some (resumed ?s1 t u))"
    by (rule resume_ok [OF i1 t1 u(3,1)]) (rule that)
  have pr2: "prio_of s2 t = unat (th_init_priority th)" by (simp add: prio_of_def s2(4) u_def)
  have r2: "runnable s2 t" using stat_of_resumed [of ?s1 t u] by (simp add: runnable_def s2(4))
  have k2: "kept_at s s2 x" if "x \<noteq> t" for x
    using that kept_refl by (auto simp: kept_at_def s2(4) set_thread_def)
  have "quiet s ?s1" by (rule same_timers_quiet) (simp_all add: set_thread_def)
  then have ok2: "quiet s s2" by (rule quiet_trans [OF _ calm_quiet [OF s2(3)]])
  have start: "rt_thread_startup t s =
      rbind (if rt_thread_self s2 \<noteq> None then rt_schedule s2 else Inr s2) (\<lambda>s. Inr (s, 0))"
    using t s2(1) by (simp add: rt_thread_startup_def checked_thread_def with_thread_def u_def)
  show thesis
  proof (cases "current_thread s2")
    case None
    then have "rt_thread_startup t s = Inr (s2, 0)" by (simp add: start rt_thread_self_def)
    then show thesis using that s2(2) r2 pr2 k2 ok2 by blast
  next
    case (Some c)
    then obtain s' where s': "rt_schedule s2 = Inr s'" "sys_inv s'" "frame s2 s'"
      using schedule_inv [OF s2(2)] by blast
    have "rt_thread_startup t s = Inr (s', 0)" using Some s'(1) by (simp add: start rt_thread_self_def)
    moreover have "runnable s' t"
      using r2 kept_at_frame [OF s'(3), of t] by (auto simp: runnable_iff kept_at_def kept_def)
    moreover have "prio_of s' t = unat (th_init_priority th)"
      using pr2 r2 kept_at_frame [OF s'(3), of t] by (auto simp: prio_of_def runnable_iff kept_at_def kept_def)
    moreover have "kept_at s s' x" if "x \<noteq> t" for x
      by (rule kept_at_trans [OF k2 [OF that] kept_at_frame [OF s'(3)]])
    moreover have "quiet s s'" by (rule quiet_trans [OF ok2 frame_quiet [OF s'(3)]])
    ultimately show thesis using that s'(2) by blast
  qed
qed

section \<open>Ending\<close>

lemma timers_ok_unlink_timer:
  assumes "timers_ok b s"
  shows "timers_ok b (s\<lparr> timer_list := remove1 i (timer_list s), timers := (timers s)(i := None), detached_flag := f \<rparr>)"
proof -
  let ?r = "rt_timer_remove i s"
  have r: "timers_ok b ?r" by (rule timers_ok_remove [OF assms])
  have d: "distinct (timer_list s)" using assms by (simp add: timers_ok_def)
  have nin: "i \<notin> set (remove1 i (timer_list s))" using d by simp
  have eq: "map (ahead b (s\<lparr> timer_list := remove1 i (timer_list s), timers := (timers s)(i := None), detached_flag := f \<rparr>)) (remove1 i (timer_list s))
     = map (ahead b ?r) (remove1 i (timer_list s))"
    using nin by (auto simp: ahead_def timeout_of_def rt_timer_remove_def)
  have "sorted (map (ahead b ?r) (remove1 i (timer_list s)))"
    using r by (simp add: timers_ok_def rt_timer_remove_def)
  from this [folded eq] show ?thesis
    using r nin unfolding timers_ok_def
    by (auto simp: rt_timer_remove_def timeout_of_def simp del: set_remove1_eq)
qed

text \<open>Out of the scheduler, timer gone, closed: what every end of a thread begins with.\<close>

lemma closed_ok:
  assumes inv: "sys_inv s" and t: "threads s t = Some th" "live th"
  obtains s' where "stop_thread t th s = Inr s'" "sched_inv {} s'"
    and "threads s' = (threads s)(t := Some (th\<lparr> th_stat := RT_THREAD_CLOSE \<rparr>))"
    and "queues s' = (\<lambda>q. remove1 t (queues s q))" "\<And>q. t \<notin> set (queues s' q)"
    and "timers s' = (timers s)(Thread_timer t := None)"
    and "timer_list s' = remove1 (Thread_timer t) (timer_list s)" "calm s s'"
proof -
  have si: "sched_inv {} s" and ti: "timer_inv s" using inv by (simp_all add: sys_inv_def)
  have nc: "stat_of th \<noteq> RT_THREAD_CLOSE" using t(2) by (simp add: live_def)
  obtain s1 where s1: "(if stat_of th \<noteq> RT_THREAD_INIT then rt_schedule_remove_thread t s else Inr s) = Inr s1"
    "sched_inv {t} s1" "\<And>q. t \<notin> set (queues s1 q)" "queues s1 = (\<lambda>q. remove1 t (queues s q))"
    "threads s1 = threads s" "timers s1 = timers s" "timer_list s1 = timer_list s" "calm s s1"
  proof (cases "stat_of th = RT_THREAD_INIT")
    case True
    have "queues s = (\<lambda>q. remove1 t (queues s q))"
      using unqueued_init(1) [OF si t(1) True] by (intro ext) (simp add: remove1_idem)
    moreover have "sched_inv {t} s" by (rule sched_inv_mono [OF si]) simp
    ultimately show thesis using that [of s] True unqueued_init(1) [OF si t(1) True] by (simp add: calm_def)
  next
    case False
    from remove_thread_inv [OF si t(1) False nc] obtain g where
      r: "rt_schedule_remove_thread t s = Inr (s\<lparr> queues := (\<lambda>q. remove1 t (queues s q)), ready_group := g \<rparr>)"
        "sched_inv {t} (s\<lparr> queues := (\<lambda>q. remove1 t (queues s q)), ready_group := g \<rparr>)"
        "\<And>q. t \<notin> set (remove1 t (queues s q))" by blast
    let ?s1 = "s\<lparr> queues := (\<lambda>q. remove1 t (queues s q)), ready_group := g \<rparr>"
    have "calm s ?s1" using timers_ok_cong [of ?s1 s] by (simp add: calm_def)
    then show thesis using that [of ?s1] r False by simp
  qed
  obtain tm where tm: "timers s1 (Thread_timer t) = Some tm" using live_timer [OF ti t] s1(6) by auto
  have st: "tm_static tm" using ti tm s1(6) unfolding timer_inv_def by metis
  define s2 where "s2 = s1\<lparr> timer_list := remove1 (Thread_timer t) (timer_list s1),
    timers := (timers s1)(Thread_timer t := None), detached_flag := (detached_flag s1)(Thread_timer t := Some (tm_flag tm)) \<rparr>"
  have det: "rt_timer_detach (Thread_timer t) s1 = Inr (s2, 0)"
    using tm st by (simp add: rt_timer_detach_def with_timer_def rt_timer_remove_def s2_def)
  define u where "u = th\<lparr> th_stat := RT_THREAD_CLOSE \<rparr>"
  have su: "stat_of u = 4" by (simp add: u_def stat_of_def)
  have t2: "threads s2 t = Some th" and i2: "sched_inv {t} s2" and q2: "\<And>q. t \<notin> set (queues s2 q)"
    using t(1) s1(2,3) by (simp_all add: s2_def s1(5))
  define s3 where "s3 = set_thread t u s2"
  have "close_thread t s2 = Inr s3" using t2 by (simp add: close_thread_def with_thread_def s3_def u_def)
  then have run: "stop_thread t th s = Inr s3" by (simp add: stop_thread_def s1(1) det)
  have i3: "sched_inv {} s3"
    unfolding s3_def by (rule set_stat_inv [OF i2 t2 q2]) (simp_all add: su)
  have "timers_ok b s2" if "timers_ok b s" for b
    using that s1(8) timers_ok_unlink_timer [of b s1 _ "Thread_timer t"] by (simp add: calm_def s2_def)
  moreover have "timers_ok b s3 = timers_ok b s2" for b
    by (rule timers_ok_cong) (simp_all add: s3_def set_thread_def)
  moreover have "set (remove1 (Thread_timer t) (timer_list s1)) \<subseteq> set (timer_list s)"
    using set_remove1_subset s1(7) by (metis subset_trans)
  ultimately have "calm s s3" using s1(8) by (simp add: calm_def s3_def s2_def set_thread_def)
  then show thesis
    by (intro that [OF run i3]) (use q2 s1(4,5,6,7) in \<open>simp_all add: s3_def s2_def set_thread_def u_def\<close>)
qed

text \<open>The two ways of leaving a closed thread.\<close>

lemma timer_inv_closed:
  assumes inv: "timer_inv s" and t: "threads s t = Some th"
    and s': "threads s' = (threads s)(t := Some u)" "timers s' = (timers s)(Thread_timer t := None)"
      "timer_list s' = remove1 (Thread_timer t) (timer_list s)"
    and u: "stat_of u = 4" "th_init_priority u = th_init_priority th"
    and q: "\<And>x. x \<noteq> t \<Longrightarrow> x \<in> set (queues s' Defunct) \<longleftrightarrow> x \<in> set (queues s Defunct)"
    and ob: "\<not> th_object u \<Longrightarrow> t \<notin> set (queues s' Defunct)"
  shows "timer_inv s'"
proof -
  have d: "distinct (timer_list s)" using inv by (simp add: timer_inv_def)
  have mem: "i \<in> set (timer_list s') \<longleftrightarrow> i \<in> set (timer_list s) \<and> i \<noteq> Thread_timer t" for i
    using d by (auto simp: s'(3))
  have nl: "\<not> live u" by (simp add: live_def u)
  show ?thesis
    unfolding timer_inv_def mem
  proof (intro conjI allI impI)
    show "distinct (timer_list s')" using d by (simp add: s'(3))
  next
    fix x show "timers s' (Thread_timer x) \<noteq> None \<longleftrightarrow> (\<exists>th. threads s' x = Some th \<and> live th)"
      using inv nl unfolding timer_inv_def by (cases "x = t") (simp_all add: s')
  next
    fix x tm assume "timers s' (Thread_timer x) = Some tm"
    then have "x \<noteq> t" "timers s (Thread_timer x) = Some tm" by (auto simp: s' split: if_splits)
    then show "tm_static tm" "tm_flag tm AND 2 = 0"
      "(tm_flag tm AND 1 \<noteq> 0) = (Thread_timer x \<in> set (timer_list s) \<and> Thread_timer x \<noteq> Thread_timer t)"
      using inv unfolding timer_inv_def by auto
  next
    fix x assume "Thread_timer x \<in> set (timer_list s) \<and> Thread_timer x \<noteq> Thread_timer t"
    then show "\<exists>th. threads s' x = Some th \<and> live th \<and> stat_of th = 2"
      using inv unfolding timer_inv_def by (simp add: s')
  next
    fix x th' assume "threads s' x = Some th'" "\<not> th_object th'"
    then show "stat_of th' = 4" "x \<notin> set (queues s' Defunct)"
      using inv u(1) ob q [of x] unfolding timer_inv_def by (cases "x = t"; auto simp: s')+
  next
    fix x th' assume "threads s' x = Some th'"
    then show "unat (th_init_priority th') < 32" "stat_of th' \<le> 4"
      using inv u t unfolding timer_inv_def by (cases "x = t"; auto simp: s')+
  qed
qed

lemma defunct_inv:
  assumes inv: "sched_inv {} s" and t: "threads s t = Some th" "stat_of th = RT_THREAD_CLOSE"
    and out: "\<And>q. t \<notin> set (queues s q)"
  shows "sched_inv {} (insert_after Defunct t s)"
proof -
  let ?s = "insert_after Defunct t s"
  have mem: "x \<in> set (queues ?s q) \<longleftrightarrow> x \<in> set (queues s q) \<or> x = t \<and> q = Defunct" for x q
    by (auto simp: insert_after_def)
  have f: "threads ?s = threads s" "current_thread ?s = current_thread s" "ready_group ?s = ready_group s"
    "\<And>i. queues ?s (Ready i) = queues s (Ready i)" by (simp_all add: insert_after_def)
  have dist: "distinct (queues ?s q)" for q
    using inv out by (simp add: insert_after_def sched_inv_def links_ok_def)
  have links: "links_ok s" and prios: "prios_ok s" and stats: "stats_ok {} s"
    using inv by (simp_all add: sched_inv_def)
  have "links_ok ?s" using links out t(1) dist unfolding links_ok_def mem f by auto
  moreover have "prios_ok ?s" using prios unfolding prios_ok_def f by simp
  moreover have "stats_ok {} ?s" using stats t unfolding stats_ok_def mem f by auto
  ultimately show ?thesis by (simp add: sched_inv_def)
qed

lemma insert_after_fields [simp]:
  "threads (insert_after q t s) = threads s" "timers (insert_after q t s) = timers s"
  "timer_list (insert_after q t s) = timer_list s" "current_thread (insert_after q t s) = current_thread s"
  by (simp_all add: insert_after_def)

lemma calm_insert_after: "calm s (insert_after q t s)"
  using timers_ok_cong [of "insert_after q t s" s] by (simp add: calm_def) (simp add: insert_after_def)

definition ended :: "('a) ksys_scheme \<Rightarrow> nat \<Rightarrow> ('a) ksys_scheme \<Rightarrow> bool" where
  "ended s t s' \<longleftrightarrow> sys_inv s' \<and> calm s s' \<and> \<not> runnable s' t \<and>
     (\<forall>x. x \<noteq> t \<longrightarrow> threads s' x = threads s x)"

lemma bury_ok:
  assumes inv: "sys_inv s" and t: "threads s t = Some th" "live th"
  obtains s1 where "stop_thread t th s = Inr s1" "ended s t (insert_after Defunct t s1)"
    "queues (insert_after Defunct t s1) Defunct = t # queues s Defunct"
    "threads s1 t = Some (th\<lparr> th_stat := RT_THREAD_CLOSE \<rparr>)"
proof -
  obtain s1 where s1: "stop_thread t th s = Inr s1" "sched_inv {} s1"
      "threads s1 = (threads s)(t := Some (th\<lparr> th_stat := RT_THREAD_CLOSE \<rparr>))"
      "queues s1 = (\<lambda>q. remove1 t (queues s q))" "\<And>q. t \<notin> set (queues s1 q)"
      "timers s1 = (timers s)(Thread_timer t := None)"
      "timer_list s1 = remove1 (Thread_timer t) (timer_list s)" "calm s s1"
    by (rule closed_ok [OF assms]) (rule that)
  have t1: "threads s1 t = Some (th\<lparr> th_stat := 4 \<rparr>)" "stat_of (th\<lparr> th_stat := 4 \<rparr>) = 4"
    by (simp_all add: s1(3) stat_of_def)
  have "timer_inv (insert_after Defunct t s1)"
    by (rule timer_inv_closed [OF _ t(1), where u = "th\<lparr> th_stat := 4 \<rparr>"])
      (use inv t t1 in \<open>auto simp: s1 sys_inv_def live_def insert_after_def\<close>)
  then have "ended s t (insert_after Defunct t s1)"
    using defunct_inv [OF s1(2) t1 s1(5)] calm_trans [OF s1(8) calm_insert_after]
    by (simp add: ended_def sys_inv_def runnable_def s1(3) t1)
  moreover have "t \<notin> set (queues s Defunct)"
    by (rule not_defunct [OF _ t(1)]) (use inv t(2) in \<open>auto simp: sys_inv_def live_def\<close>)
  ultimately show thesis using that s1(1,3,4) by (simp add: insert_after_def remove1_idem)
qed

lemma retire_ok:
  assumes inv: "sys_inv s" and t: "threads s t = Some th" "live th"
  obtains s1 s2 where "stop_thread t th s = Inr s1" "retire t s1 = Inr s2" "ended s t s2"
proof -
  obtain s1 where s1: "stop_thread t th s = Inr s1" "sched_inv {} s1"
      "threads s1 = (threads s)(t := Some (th\<lparr> th_stat := RT_THREAD_CLOSE \<rparr>))"
      "queues s1 = (\<lambda>q. remove1 t (queues s q))" "\<And>q. t \<notin> set (queues s1 q)"
      "timers s1 = (timers s)(Thread_timer t := None)"
      "timer_list s1 = remove1 (Thread_timer t) (timer_list s)" "calm s s1"
    by (rule closed_ok [OF assms]) (rule that)
  show thesis
  proof (cases "th_static th \<and> \<not> th_has_cleanup th")
    case False
    then have "retire t s1 = Inr (insert_after Defunct t s1)"
      using False by (auto simp: retire_def with_thread_def s1(3))
    then show thesis using that s1(1) bury_ok [OF assms] by (metis sum.inject(2))
  next
    case True
    define u where "u = th\<lparr> th_stat := 4, th_object := False \<rparr>"
    have su: "stat_of u = 4" "th_init_priority u = th_init_priority th" by (simp_all add: u_def stat_of_def)
    have ret: "retire t s1 = Inr (set_thread t u s1)"
      using True by (simp add: retire_def with_thread_def s1(3) u_def)
    have t1: "threads s1 t = Some (th\<lparr> th_stat := 4 \<rparr>)" by (simp add: s1(3))
    have "sched_inv {} (set_thread t u s1)"
      by (rule sched_inv_data [OF s1(2) t1]) (simp_all add: u_def stat_of_def)
    moreover have "timer_inv (set_thread t u s1)"
      by (rule timer_inv_closed [OF _ t(1) _ _ _ su])
        (use inv s1(5) in \<open>auto simp: s1(3,4,6,7) sys_inv_def set_thread_def\<close>)
    moreover have "calm s (set_thread t u s1)"
      using s1(8) timers_ok_cong [of "set_thread t u s1" s1] by (simp add: calm_def set_thread_def)
    ultimately have "ended s t (set_thread t u s1)"
      by (simp add: ended_def sys_inv_def runnable_def set_thread_def su s1(3))
    then show thesis using that s1(1) ret by blast
  qed
qed

lemma dead_no_timer:
  assumes "timer_inv s" "threads s t = Some th" "\<not> live th"
  shows "timers s (Thread_timer t) = None"
proof -
  have "timers s (Thread_timer t) \<noteq> None \<longleftrightarrow> (\<exists>th. threads s t = Some th \<and> live th)"
    using assms(1) by (simp add: timer_inv_def)
  then show ?thesis using assms(2,3) by auto
qed

lemma close_then_detach:
  "s\<lparr> timer_list := a, timers := b, detached_flag := d, threads := c \<rparr> =
   (s :: ('a) ksys_scheme)\<lparr> threads := c, timer_list := a, timers := b, detached_flag := d \<rparr>"
  by (cases s) simp

lemma stop_needs_live:
  assumes inv: "timer_inv s" and t: "threads s t = Some th" "th_object th"
    and r: "stop_thread t th s = Inr s'"
  shows "live th"
proof (rule ccontr)
  assume "\<not> live th"
  with inv t(1) have n: "timers s (Thread_timer t) = None" by (rule dead_no_timer)
  obtain s1 where s1: "(if stat_of th \<noteq> RT_THREAD_INIT then rt_schedule_remove_thread t s else Inr s) = Inr s1"
    using r unfolding stop_thread_def rbind_eq_Inr by blast
  then have "timers s1 = timers s"
    using t(1) by (auto simp: rt_schedule_remove_thread_def with_thread_def unlink_def Let_def split: if_splits)
  then show False using r s1 n by (simp add: stop_thread_def rt_timer_detach_def with_timer_def)
qed

lemma detach_ok:
  assumes "sys_inv s" "threads s t = Some th" "live th" "th_static th"
  obtains s' where "rt_thread_detach t s = Inr (s', 0)" "ended s t s'"
proof -
  obtain s1 s2 where "stop_thread t th s = Inr s1" "retire t s1 = Inr s2" "ended s t s2"
    by (rule retire_ok [OF assms(1-3)]) (rule that)
  then show thesis
    using assms(2,3,4) by (intro that [of s2]) (simp_all add: rt_thread_detach_def checked_thread_def with_thread_def live_def)
qed

lemma delete_ok:
  assumes "sys_inv s" "threads s t = Some th" "live th" "\<not> th_static th"
  obtains s' where "rt_thread_delete t s = Inr (s', 0)" "ended s t s'" "queues s' Defunct = t # queues s Defunct"
    "\<not> th_static (the (threads s' t))"
proof -
  obtain s1 where "stop_thread t th s = Inr s1" "ended s t (insert_after Defunct t s1)"
    "queues (insert_after Defunct t s1) Defunct = t # queues s Defunct"
    "threads s1 t = Some (th\<lparr> th_stat := RT_THREAD_CLOSE \<rparr>)"
    by (rule bury_ok [OF assms(1-3)]) (rule that)
  then show thesis
    using assms(2,3,4)
    by (intro that [of "insert_after Defunct t s1"])
      (simp_all add: rt_thread_delete_def checked_thread_def with_thread_def live_def)
qed

lemma exit_ok:
  assumes inv: "sys_inv s" and c: "current_thread s = Some c" and t: "threads s c = Some th" "live th"
  obtains s' where "rt_thread_exit s = Inr s'" "sys_inv s'" "\<not> runnable s' c"
    "\<And>x. x \<noteq> c \<Longrightarrow> kept_at s s' x" "quiet s s'"
proof -
  obtain s1 s2 where r: "stop_thread c th s = Inr s1" "retire c s1 = Inr s2" "ended s c s2"
    by (rule retire_ok [OF inv t]) (rule that)
  have "sched_inv {} s" using inv by (simp add: sys_inv_def)
  then have ni: "stat_of th \<noteq> RT_THREAD_INIT" using unqueued_init(2) c t(1) by blast
  obtain s0 where s0: "rt_schedule_remove_thread c s = Inr s0"
    using r(1) ni by (auto simp: stop_thread_def rbind_eq_Inr)
  then have t0: "threads s0 c = Some th" "timers s0 = timers s"
    using t(1) by (auto simp: rt_schedule_remove_thread_def with_thread_def unlink_def Let_def split: if_splits)
  obtain tm where tm: "timers s0 (Thread_timer c) = Some tm"
    using live_timer [OF _ t] inv by (auto simp: t0 sys_inv_def)
  have st: "tm_static tm" using inv tm t0(2) unfolding sys_inv_def timer_inv_def by metis
  have "rbind (close_thread c s0) (\<lambda>s. rbind (rt_timer_detach (Thread_timer c) s) (\<lambda>(s, _). Inr s)) = Inr s1"
    using r(1) ni s0 t0 tm st
    by (simp add: stop_thread_def close_thread_def with_thread_def rt_timer_detach_def with_timer_def
        rt_timer_remove_def set_thread_def close_then_detach)
  then obtain s0' where s0': "close_thread c s0 = Inr s0'"
    "rt_timer_detach (Thread_timer c) s0' = Inr (s1, 0)"
    using t0 tm st
    by (auto simp: close_thread_def with_thread_def rt_timer_detach_def with_timer_def rbind_eq_Inr set_thread_def Let_def)
  have "current_thread s2 \<noteq> None" using r(3) c by (simp add: ended_def calm_def)
  then obtain s' where s': "rt_schedule s2 = Inr s'" "sys_inv s'" "frame s2 s'"
    using schedule_inv [of s2] r(3) by (auto simp: ended_def)
  have "rt_thread_exit s = Inr s'"
    using c s0 s0' r(2) s'(1) by (simp add: rt_thread_exit_def rt_thread_self_def)
  moreover have "\<not> runnable s' c"
  proof -
    obtain u where u: "threads s2 c = Some u"
    proof -
      have "threads s1 c \<noteq> None"
        using s0' by (auto simp: close_thread_def with_thread_def t0 rt_timer_detach_def with_timer_def set_thread_def
            rt_timer_remove_def rassert_eq_Inr split: option.splits)
      then have "threads s2 c \<noteq> None"
        using r(2) by (auto simp: retire_def with_thread_def set_thread_def split: option.splits if_splits)
      then show thesis using that by blast
    qed
    then show ?thesis
      using r(3) frameD [OF s'(3) u] by (auto simp: ended_def runnable_iff kept_def)
  qed
  moreover have "kept_at s s' x" if "x \<noteq> c" for x
    using r(3) that kept_at_frame [OF s'(3), of x] by (simp add: ended_def kept_at_def)
  moreover have "quiet s s'"
    using r(3) by (auto simp: ended_def intro: quiet_trans [OF calm_quiet frame_quiet [OF s'(3)]])
  ultimately show thesis using that s'(2) by blast
qed

section \<open>Changing the priority\<close>

lemma sched_inv_priority:
  assumes inv: "sched_inv X s" and t: "threads s t = Some th"
    and u: "stat_of u = stat_of th" "prio_ok u" and out: "\<And>i. t \<notin> set (queues s (Ready i))"
  shows "sched_inv X (set_thread t u s)"
proof -
  have links: "links_ok s" and prios: "prios_ok s" and stats: "stats_ok X s" using inv by (simp_all add: sched_inv_def)
  have "links_ok (set_thread t u s)" using links t unfolding links_ok_def by (simp add: set_thread_def)
  moreover have "prios_ok (set_thread t u s)"
    using prios out u(2) unfolding prios_ok_def by (simp add: set_thread_def)
  moreover have "stats_ok X (set_thread t u s)"
    using stats t u(1) unfolding stats_ok_def by (simp add: set_thread_def)
  ultimately show ?thesis by (simp add: sched_inv_def)
qed

lemma change_priority_ok:
  assumes inv: "sys_inv s" and t: "threads s t = Some th" "th_object th" and p: "unat p < 32"
  obtains s' u where "rt_thread_control t (Change_priority p) s = Inr (s', 0)" "sys_inv s'"
    and "threads s' = (threads s)(t := Some u)" "th_current_priority u = p" "stat_of u = stat_of th"
    and "\<And>q. (\<forall>i. q \<noteq> Ready i) \<Longrightarrow> queues s' q = queues s q" "calm s s'" "timer_list s' = timer_list s"
proof -
  have si: "sched_inv {} s" and ti: "timer_inv s" using inv by (simp_all add: sys_inv_def)
  define u where "u = th\<lparr> th_current_priority := p, th_number_mask := push_bit (unat p) 1 \<rparr>"
  have u: "stat_of u = stat_of th" "prio_ok u" "th_object u = th_object th" "th_init_priority u = th_init_priority th"
    "th_current_priority u = p"
    using p by (simp_all add: u_def stat_of_def prio_ok_def)
  show thesis
  proof (cases "stat_of th = RT_THREAD_READY")
    case False
    have out: "t \<notin> set (queues s (Ready i))" for i using head_is_ready [OF si, of t i th] t(1) False by auto
    have "sched_inv {} (set_thread t u s)" by (rule sched_inv_priority [OF si t(1) u(1,2) out])
    moreover have "timer_inv (set_thread t u s)"
      by (rule timer_inv_set_thread [OF ti t(1)]) (simp add: same_life_def u)
    moreover have "rt_thread_control t (Change_priority p) s = Inr (set_thread t u s, 0)"
      using t False p by (simp add: rt_thread_control_def checked_thread_def with_thread_def set_priority_def u_def)
    moreover have "calm s (set_thread t u s)"
      using timers_ok_cong [of "set_thread t u s" s] by (simp add: calm_def set_thread_def)
    ultimately show thesis using that [of "set_thread t u s" u] u by (simp add: sys_inv_def set_thread_def)
  next
    case True
    then have ni: "stat_of th \<noteq> RT_THREAD_INIT" "stat_of th \<noteq> RT_THREAD_CLOSE" by auto
    from remove_thread_inv [OF si t(1) ni] obtain g where
      r: "rt_schedule_remove_thread t s = Inr (s\<lparr> queues := (\<lambda>q. remove1 t (queues s q)), ready_group := g \<rparr>)"
        "sched_inv {t} (s\<lparr> queues := (\<lambda>q. remove1 t (queues s q)), ready_group := g \<rparr>)"
        "\<And>q. t \<notin> set (remove1 t (queues s q))" by blast
    let ?s1 = "s\<lparr> queues := (\<lambda>q. remove1 t (queues s q)), ready_group := g \<rparr>"
    define s2 where "s2 = set_thread t u ?s1"
    have t1: "threads ?s1 t = Some th" using t(1) by simp
    have i2: "sched_inv {t} s2"
      unfolding s2_def by (rule sched_inv_priority [OF r(2) t1 u(1,2)]) (use r(3) in simp)
    have sp: "set_priority t p ?s1 = Inr s2" using t p by (simp add: set_priority_def with_thread_def s2_def u_def)
    have t2: "threads s2 t = Some u" by (simp add: s2_def set_thread_def)
    have out: "t \<notin> set (queues s2 q)" for q using r(3) by (simp add: s2_def set_thread_def)
    have cur: "current_thread s \<noteq> Some t"
      using si t(1) True unfolding sched_inv_def stats_ok_def by blast
    obtain s3 where s3: "rt_schedule_insert_thread t s2 = Inr s3" "sched_inv {} s3"
        "threads s3 = (threads s2)(t := Some (resumed s2 t u))"
        "\<And>q. (\<forall>i. q \<noteq> Ready i) \<Longrightarrow> queues s3 q = queues s2 q"
        "timers s3 = timers s2" "timer_list s3 = timer_list s2" "calm s2 s3"
      by (rule insert_resumed [OF i2 t2 u(2) out]) (rule that)
    have f2: "threads s2 = (threads s)(t := Some u)" by (simp add: s2_def set_thread_def)
    have re: "resumed s2 t u = with_stat 1 u" using cur by (simp add: resumed_def s2_def set_thread_def)
    have q: "queues s3 q = queues s q" if "\<forall>i. q \<noteq> Ready i" for q
    proof -
      have "t \<notin> set (queues s q)"
      proof
        assume m: "t \<in> set (queues s q)"
        have "stat_of th = queue_stat q" using si t(1) m unfolding sched_inv_def stats_ok_def by blast
        then show False using that True by (cases q) auto
      qed
      then show ?thesis using s3(4) [OF that] by (simp add: s2_def set_thread_def remove1_idem)
    qed
    have nl: "Thread_timer t \<notin> set (timer_list s)" using linked_suspended [OF ti _ t(1)] True by auto
    have ti3: "timer_inv s3"
    proof (rule timer_inv_change [OF ti])
      fix i v assume "threads s i = Some v"
      then show "\<exists>u'. threads s3 i = Some u' \<and> same_life s i v u'"
        using t nl u True same_life_refl
        by (cases "i = t") (auto simp: s3(3) re f2 same_life_def stat_rules)
    qed (use t q [of Defunct] s3 in \<open>auto simp: s2_def set_thread_def split: if_splits\<close>)
    have "calm s s2" using timers_ok_cong [of s2 s] by (simp add: calm_def s2_def set_thread_def)
    then have ca: "calm s s3" using s3(7) by (rule calm_trans)
    have "rt_thread_control t (Change_priority p) s = Inr (s3, 0)"
      using t True r(1) sp s3(1) by (simp add: rt_thread_control_def checked_thread_def with_thread_def)
    then show thesis
      by (rule that [of s3 "with_stat 1 u"])
        (use s3 ti3 q re u True ca in \<open>simp_all add: sys_inv_def s2_def set_thread_def stat_rules\<close>)
  qed
qed

section \<open>Creating\<close>

lemma timers_ok_cong_on:
  assumes "timer_list s' = timer_list s" "\<And>i. i \<in> set (timer_list s) \<Longrightarrow> timers s' i = timers s i"
  shows "timers_ok b s' = timers_ok b s"
proof -
  have to: "timeout_of s' i = timeout_of s i" if "i \<in> set (timer_list s)" for i
    using assms(2) [OF that] by (simp add: timeout_of_def)
  then have eq: "map (ahead b s') (timer_list s) = map (ahead b s) (timer_list s)" by (simp add: ahead_def)
  show ?thesis unfolding timers_ok_def assms(1) eq using assms(2) to by auto
qed

definition lock_room :: "('a) ksys_scheme \<Rightarrow> bool" where
  "lock_room s \<longleftrightarrow> 0 \<le> lock_nest s \<and> lock_nest s < 2 ^ 15 - 1"

lemma int16_small: "- (2 ^ 15) \<le> i \<Longrightarrow> i < 2 ^ 15 \<Longrightarrow> int16 i = i"
  by (simp add: int16_def)

lemma lock_nest_same: "lock_nest s = k \<Longrightarrow> s\<lparr> lock_nest := k \<rparr> = s"
  by (cases s) auto

text \<open>Locking and unlocking around something that leaves the lock alone.\<close>

lemma walk_ok:
  assumes inv: "sched_inv {} s" and l: "lock_room s"
  obtains s' where "rt_object_init_walk s = Inr s'" "sched_inv {} s'" "s' = s \<or> frame s s'"
proof -
  let ?k = "lock_nest s"
  have k: "int16 (?k + 1) = ?k + 1" "int16 ?k = ?k" using l by (simp_all add: lock_room_def int16_small)
  have e: "rt_enter_critical s = s\<lparr> lock_nest := ?k + 1 \<rparr>" by (simp add: rt_enter_critical_def k)
  have w: "rt_object_init_walk s = (if ?k \<le> 0 then if current_thread s \<noteq> None then rt_schedule s else Inr s else Inr s)"
    using l by (auto simp: rt_object_init_walk_def e rt_exit_critical_def k lock_nest_same lock_room_def Let_def)
  show thesis
  proof (cases "?k \<le> 0 \<and> current_thread s \<noteq> None")
    case False
    then have "rt_object_init_walk s = Inr s" by (auto simp: w)
    then show thesis using that inv by blast
  next
    case True
    then obtain c where c: "current_thread s = Some c" by blast
    obtain s' where s': "rt_schedule s = Inr s'" "sched_inv {} s'" "frame s s'"
      by (rule schedule_frame [OF inv c]) (rule that)
    then show thesis using that True by (simp add: w)
  qed
qed

lemma kept_at_walk: "s' = s \<or> frame s s' \<Longrightarrow> kept_at s s' x"
  by (elim disjE) (simp add: kept_at_def kept_refl, rule kept_at_frame)

text \<open>An address that no thread object uses: never used, or the memory of a detached static thread.\<close>

definition unused :: "('a) ksys_scheme \<Rightarrow> nat \<Rightarrow> bool" where
  "unused s t \<longleftrightarrow> (case threads s t of None \<Rightarrow> True | Some th \<Rightarrow> \<not> th_object th) \<and> current_thread s \<noteq> Some t"

lemma unused_facts:
  assumes inv: "sys_inv s" and u: "unused s t"
  shows "t \<notin> set (queues s q)" "timers s (Thread_timer t) = None" "\<not> runnable s t"
    "Thread_timer t \<notin> set (timer_list s)"
proof -
  have si: "sched_inv {} s" and ti: "timer_inv s" using inv by (simp_all add: sys_inv_def)
  have "t \<notin> set (queues s q) \<and> timers s (Thread_timer t) = None \<and> \<not> runnable s t \<and>
      Thread_timer t \<notin> set (timer_list s)"
  proof (cases "threads s t")
    case None
    then have "t \<notin> set (queues s q)" using si unfolding sched_inv_def links_ok_def by blast
    moreover have "timers s (Thread_timer t) = None"
    proof -
      have "timers s (Thread_timer t) \<noteq> None \<longleftrightarrow> (\<exists>th. threads s t = Some th \<and> live th)"
        using ti by (simp add: timer_inv_def)
      then show ?thesis using None by simp
    qed
    moreover have "Thread_timer t \<notin> set (timer_list s)"
      using ti None unfolding timer_inv_def by (metis option.distinct(1))
    ultimately show ?thesis using None by (simp add: runnable_def)
  next
    case (Some th)
    then have no: "\<not> th_object th" using u by (simp add: unused_def)
    then have c: "stat_of th = 4" "t \<notin> set (queues s Defunct)" using ti Some unfolding timer_inv_def by blast+
    have "t \<notin> set (queues s q)"
    proof
      assume m: "t \<in> set (queues s q)"
      have "stat_of th = queue_stat q" using si Some m unfolding sched_inv_def stats_ok_def by blast
      then show False using m c by (cases q) auto
    qed
    moreover have "timers s (Thread_timer t) = None"
      by (rule dead_no_timer [OF ti Some]) (use no in \<open>simp add: live_def\<close>)
    moreover have "Thread_timer t \<notin> set (timer_list s)"
      using linked_suspended [OF ti _ Some] c by auto
    ultimately show ?thesis using Some c by (simp add: runnable_def)
  qed
  then show "t \<notin> set (queues s q)" "timers s (Thread_timer t) = None" "\<not> runnable s t"
    "Thread_timer t \<notin> set (timer_list s)" by blast+
qed

lemma unused_walk:
  assumes "sys_inv s" "unused s t" "s' = s \<or> frame s s'"
  shows "unused s' t"
  using assms(3)
proof
  assume fr: "frame s s'"
  have "\<not> runnable s t" by (rule unused_facts [OF assms(1,2)])
  then have "current_thread s' \<noteq> Some t" using fr assms(2) unfolding frame_def unused_def by blast
  moreover have "case threads s' t of None \<Rightarrow> True | Some th \<Rightarrow> \<not> th_object th"
  proof (cases "threads s t")
    case None
    then show ?thesis using frame_env(9) [OF fr, of t] by simp
  next
    case (Some th)
    then show ?thesis using frameD [OF fr Some] assms(2) by (auto simp: unused_def kept_def)
  qed
  ultimately show ?thesis by (simp add: unused_def)
qed (use assms(2) in simp)

lemma timer_inv_created:
  assumes inv: "timer_inv s" and new: "timers s (Thread_timer t) = None" "Thread_timer t \<notin> set (timer_list s)"
    and u: "live u" "unat (th_init_priority u) < 32" "stat_of u \<le> 4"
    and s': "threads s' = (threads s)(t := Some u)" "timers s' = (timers s)(Thread_timer t := Some tm)"
      "timer_list s' = timer_list s" "queues s' Defunct = queues s Defunct"
    and tm: "tm_static tm" "tm_flag tm = 0"
  shows "timer_inv s'"
  unfolding timer_inv_def s'(3,4)
proof (intro conjI allI impI)
  show "distinct (timer_list s)" using inv by (simp add: timer_inv_def)
next
  fix x show "timers s' (Thread_timer x) \<noteq> None \<longleftrightarrow> (\<exists>th. threads s' x = Some th \<and> live th)"
    using inv u(1) unfolding timer_inv_def by (cases "x = t") (simp_all add: s')
next
  fix x tm' assume "timers s' (Thread_timer x) = Some tm'"
  then show "tm_static tm'" "tm_flag tm' AND 2 = 0" "(tm_flag tm' AND 1 \<noteq> 0) = (Thread_timer x \<in> set (timer_list s))"
    using inv tm new(2) unfolding timer_inv_def by (cases "x = t"; auto simp: s')+
next
  fix x assume x: "Thread_timer x \<in> set (timer_list s)"
  then have "x \<noteq> t" using new(2) by blast
  then show "\<exists>th. threads s' x = Some th \<and> live th \<and> stat_of th = 2"
    using inv x unfolding timer_inv_def by (simp add: s')
next
  fix x th' assume "threads s' x = Some th'" "\<not> th_object th'"
  then show "stat_of th' = 4" "x \<notin> set (queues s Defunct)"
    using inv u(1) unfolding timer_inv_def by (cases "x = t"; auto simp: s' live_def)+
next
  fix x th' assume "threads s' x = Some th'"
  then show "unat (th_init_priority th') < 32" "stat_of th' \<le> 4"
    using inv u(2,3) unfolding timer_inv_def by (cases "x = t"; auto simp: s')+
qed

lemma thread_init_ok:
  assumes inv: "sys_inv s" and u: "unused s t" and l: "lock_room s" and p: "unat p < 32"
  obtains s' th where "thread_init st t p tick s = Inr (s', 0)" "sys_inv s'"
    and "threads s' t = Some th" "th_object th" "stat_of th = RT_THREAD_INIT" "th_init_priority th = p"
    and "\<And>x. x \<noteq> t \<Longrightarrow> kept_at s s' x" "quiet s s'"
proof -
  have si: "sched_inv {} s" and ti: "timer_inv s" using inv by (simp_all add: sys_inv_def)
  note uf = unused_facts [OF inv u]
  define n where "n = new_thread (if st then threads s t else None) st p tick"
  have n: "stat_of n = 0" "th_object n" "th_init_priority n = p" by (simp_all add: n_def new_thread_def stat_of_def)
  define s1 where "s1 = set_thread t n s"
  have cur: "current_thread s \<noteq> Some t" using u by (simp add: unused_def)
  have i1: "sched_inv {} s1"
  proof -
    have links: "links_ok s" and prios: "prios_ok s" and stats: "stats_ok {} s" using si by (simp_all add: sched_inv_def)
    have "links_ok s1" using links unfolding links_ok_def by (simp add: s1_def set_thread_def)
    moreover have "prios_ok s1" using prios uf(1) n(1) unfolding prios_ok_def by (simp add: s1_def set_thread_def)
    moreover have "stats_ok {} s1" using stats uf(1) n(1) cur unfolding stats_ok_def by (simp add: s1_def set_thread_def)
    ultimately show ?thesis by (simp add: sched_inv_def)
  qed
  have l1: "lock_room s1" using l by (simp add: lock_room_def s1_def set_thread_def)
  obtain s2 where s2: "rt_object_init_walk s1 = Inr s2" "sched_inv {} s2" "s2 = s1 \<or> frame s1 s2"
    by (rule walk_ok [OF i1 l1]) (rule that)
  have e2: "timers s2 = timers s" "timer_list s2 = timer_list s" "queues s2 Defunct = queues s Defunct"
    using s2(3) frame_env(1,2,8) [of s1 s2] by (auto simp: s1_def set_thread_def)
  define tm where "tm = \<lparr> tm_flag = 0, tm_init_tick = 0, tm_timeout_tick = 0, tm_static = True \<rparr>"
  define s3 where "s3 = set_timer (Thread_timer t) tm s2"
  have run: "thread_init st t p tick s = Inr (s3, 0)"
    using p s2(1) uf(2) by (simp add: thread_init_def RT_THREAD_PRIORITY_MAX_def n_def [symmetric] s1_def [symmetric]
        rt_timer_init_def e2(1) s3_def tm_def)
  have t1: "threads s1 t = Some n" by (simp add: s1_def set_thread_def)
  obtain th where th: "threads s2 t = Some th" "kept n th"
    using kept_at_walk [OF s2(3), of t] t1 by (auto simp: kept_at_def)
  have th': "th_object th" "stat_of th = 0" "th_init_priority th = p" using th(2) n by (auto simp: kept_def)
  let ?v = "set_timer (Thread_timer t) tm s1"
  have tv: "timer_inv ?v"
    by (rule timer_inv_created [OF ti uf(2,4), where u = n and tm = tm])
      (use n p in \<open>auto simp: live_def s1_def set_thread_def set_timer_def tm_def\<close>)
  have ti3: "timer_inv s3"
  proof (rule timer_inv_change [OF tv])
    fix i w assume "threads ?v i = Some w"
    then show "\<exists>u'. threads s3 i = Some u' \<and> same_life ?v i w u'"
      using kept_at_walk [OF s2(3), of i] same_life_kept by (simp add: kept_at_def s3_def set_timer_def) blast
  next
    show "threads s3 i = None" if "threads ?v i = None" for i
      using that s2(3) frame_env(9) [of s1 s2 i] by (auto simp: s3_def set_timer_def)
  qed (use e2 in \<open>auto simp: s3_def set_timer_def s1_def set_thread_def\<close>)
  have i3: "sched_inv {} s3" using s2(2) sched_inv_cong [of s3 s2 "{}"] by (simp add: s3_def set_timer_def)
  have "timers_ok b s3 = timers_ok b s" for b
    by (rule timers_ok_cong_on) (use uf(4) e2 in \<open>auto simp: s3_def set_timer_def\<close>)
  moreover have "rt_tick s2 = rt_tick s" "current_thread s \<noteq> None \<longrightarrow> current_thread s2 \<noteq> None"
    using s2(3) frame_env(3,7) [of s1 s2] by (auto simp: s1_def set_thread_def)
  ultimately have "quiet s s3" using e2 by (simp add: quiet_def s3_def set_timer_def)
  moreover have "kept_at s s3 x" if "x \<noteq> t" for x
    using kept_at_walk [OF s2(3), of x] that by (simp add: kept_at_def s3_def set_timer_def s1_def set_thread_def)
  moreover have "threads s3 t = Some th" by (simp add: s3_def set_timer_def th)
  ultimately show thesis using that [OF run] i3 ti3 th' by (simp add: sys_inv_def)
qed

section \<open>Reaping\<close>

lemma timer_inv_less_defunct:
  assumes "timer_inv s" "threads s' = threads s" "timers s' = timers s" "timer_list s' = timer_list s"
    "set (queues s' Defunct) \<subseteq> set (queues s Defunct)"
  shows "timer_inv s'"
  using assms(1,5) unfolding timer_inv_def assms(2-4) by blast

lemma set_thread_same: "threads s t = Some th \<Longrightarrow> set_thread t th s = s"
  by (cases s) (auto simp: set_thread_def)

lemma unlink_defunct_ok:
  assumes inv: "sys_inv s" and t: "t \<in> set (queues s Defunct)"
  obtains th where "threads s t = Some th" "stat_of th = RT_THREAD_CLOSE" "th_object th"
    and "sys_inv (unlink t s)" "\<And>q. t \<notin> set (queues (unlink t s) q)"
proof -
  have si: "sched_inv {} s" and ti: "timer_inv s" using inv by (simp_all add: sys_inv_def)
  have "threads s t \<noteq> None" using si t unfolding sched_inv_def links_ok_def by blast
  then obtain th where th: "threads s t = Some th" by blast
  have st: "stat_of th = 4" using si th t unfolding sched_inv_def stats_ok_def by fastforce
  have ob: "th_object th" using ti th t unfolding timer_inv_def by blast
  have nr: "stat_of th \<noteq> RT_THREAD_READY" using st by simp
  note ul = unlink_inv [OF si th nr]
  have t1: "threads (unlink t s) t = Some th" using th by (simp add: unlink_def)
  have "sched_inv {} (set_thread t th (unlink t s))"
    by (rule set_stat_inv [OF ul(1) t1 ul(2)]) (simp_all add: st)
  then have "sched_inv {} (unlink t s)" by (simp add: set_thread_same [OF t1])
  moreover have "timer_inv (unlink t s)"
    by (rule timer_inv_less_defunct [OF ti]) (simp_all add: unlink_def set_remove1_subset)
  ultimately show thesis using that [OF th st ob] ul(2) by (simp add: sys_inv_def)
qed

lemma free_thread_inv:
  assumes inv: "sys_inv s" and t: "threads s t = Some th" "stat_of th = RT_THREAD_CLOSE"
    and out: "\<And>q. t \<notin> set (queues s q)" "current_thread s \<noteq> Some t"
  shows "sys_inv (s\<lparr> threads := (threads s)(t := None) \<rparr>)"
proof -
  let ?s = "s\<lparr> threads := (threads s)(t := None) \<rparr>"
  have si: "sched_inv {} s" and ti: "timer_inv s" using inv by (simp_all add: sys_inv_def)
  have links: "links_ok s" and prios: "prios_ok s" and stats: "stats_ok {} s" using si by (simp_all add: sched_inv_def)
  have ne: "x \<noteq> t" if "x \<in> set (queues s q)" for x q using out(1) that by blast
  have "links_ok ?s" using links out(2) ne unfolding links_ok_def by simp
  moreover have "prios_ok ?s" using prios unfolding prios_ok_def by simp
  moreover have "stats_ok {} ?s" using stats unfolding stats_ok_def by simp
  moreover have nt: "timers s (Thread_timer t) = None"
    by (rule dead_no_timer [OF ti t(1)]) (simp add: live_def t(2))
  have nl: "Thread_timer t \<notin> set (timer_list s)" using linked_suspended [OF ti _ t(1)] t(2) by auto
  have "timer_inv ?s"
    unfolding timer_inv_def
  proof (intro conjI allI impI)
    fix x show "timers ?s (Thread_timer x) \<noteq> None \<longleftrightarrow> (\<exists>th. threads ?s x = Some th \<and> live th)"
      using ti nt unfolding timer_inv_def by (cases "x = t") simp_all
  next
    fix x assume x: "Thread_timer x \<in> set (timer_list ?s)"
    then have "x \<noteq> t" using nl by auto
    then show "\<exists>th. threads ?s x = Some th \<and> live th \<and> stat_of th = 2"
      using ti x unfolding timer_inv_def by simp
  next
    fix x th' assume "threads ?s x = Some th'" "\<not> th_object th'"
    then show "stat_of th' = 4" "x \<notin> set (queues ?s Defunct)"
      using ti unfolding timer_inv_def by (auto split: if_splits)
  next
    fix x th' assume "threads ?s x = Some th'"
    then show "unat (th_init_priority th') < 32" "stat_of th' \<le> 4"
      using ti unfolding timer_inv_def by (auto split: if_splits)
  qed (use ti in \<open>simp_all add: timer_inv_def\<close>)
  ultimately show ?thesis by (simp add: sys_inv_def sched_inv_def)
qed

lemma runnable_frame: "frame s s' \<Longrightarrow> runnable s x \<Longrightarrow> runnable s' x"
  by (auto simp: runnable_iff kept_def dest!: frameD [of s s' x])

lemma walk_unfold: "rt_exit_critical (rt_enter_critical s) = rt_object_init_walk s"
  by (simp add: rt_object_init_walk_def)

lemma defunct_not_runnable:
  assumes "sched_inv {} s" "t \<in> set (queues s Defunct)"
  shows "\<not> runnable s t"
proof
  assume "runnable s t"
  then obtain th where "threads s t = Some th" "stat_of th = 1 \<or> stat_of th = 3" by (auto simp: runnable_iff)
  then show False using not_defunct [OF assms(1), of t th] assms(2) by auto
qed

text \<open>One round of the idle thread's loop: the first dead thread leaves the list, a static one ends
  the call.\<close>

definition idle_ready :: "('a) ksys_scheme \<Rightarrow> bool" where
  "idle_ready s \<longleftrightarrow> lock_room s \<and> interrupt_nest s = 0 \<and>
     (\<exists>c. current_thread s = Some c \<and> c \<notin> set (queues s Defunct))"

definition reaped :: "('a) ksys_scheme \<Rightarrow> ('a) ksys_scheme \<Rightarrow> bool" where
  "reaped s s' \<longleftrightarrow> sys_inv s' \<and> idle_ready s' \<and> (\<forall>x. runnable s x \<longrightarrow> runnable s' x) \<and> quiet s s'"

lemma reap_one:
  assumes inv: "sys_inv s" and idle: "idle_ready s" and q: "queues s Defunct = t # ts"
  obtains s' th where "threads s t = Some th"
    and "rt_thread_idle_excute (Suc n) (\<lambda>_. Inr) s =
      (if th_static th then Some (Inr s') else rt_thread_idle_excute n (\<lambda>_. Inr) s')"
    and "reaped s s'" "queues s' Defunct = ts"
    and "if th_static th then unused s' t else threads s' t = None" "\<And>x. x \<noteq> t \<Longrightarrow> kept_at s s' x"
    and "\<And>x. threads s x = None \<Longrightarrow> threads s' x = None"
proof -
  have mem: "t \<in> set (queues s Defunct)" by (simp add: q)
  obtain th where th: "threads s t = Some th" "stat_of th = RT_THREAD_CLOSE" "th_object th"
    and iu: "sys_inv (unlink t s)" "\<And>q. t \<notin> set (queues (unlink t s) q)"
    by (rule unlink_defunct_ok [OF inv mem]) (rule that)
  have lr: "lock_room s" and inn: "interrupt_nest s = 0" using idle by (simp_all add: idle_ready_def)
  have nr: "\<not> runnable s t" using th by (simp add: runnable_def)
  have un: "threads (unlink t s) = threads s" "queues (unlink t s) Defunct = ts" "lock_nest (unlink t s) = lock_nest s"
    "timers (unlink t s) = timers s" "timer_list (unlink t s) = timer_list s" "interrupt_nest (unlink t s) = 0"
    "current_thread (unlink t s) = current_thread s"
    using inn by (simp_all add: unlink_def q)
  define u where "u = (if th_static th then th\<lparr> th_object := False \<rparr> else th)"
  define s1 where "s1 = set_thread t u (unlink t s)"
  have t0: "threads (unlink t s) t = Some th" by (simp add: un th)
  have su: "stat_of u = 4" "th_static u = th_static th" "th_object u = (\<not> th_static th)"
    using th by (simp_all add: u_def stat_of_def)
  have s1: "threads s1 = (threads s)(t := Some u)" "queues s1 = queues (unlink t s)" "timers s1 = timers s"
    "timer_list s1 = timer_list s" "current_thread s1 = current_thread s" "lock_nest s1 = lock_nest s"
    "interrupt_nest s1 = 0" by (simp_all add: s1_def set_thread_def un)
  have i1: "sys_inv s1"
  proof (cases "th_static th")
    case False
    then show ?thesis using iu(1) by (simp add: s1_def u_def set_thread_same [OF t0])
  next
    case True
    have si: "sched_inv {} (unlink t s)" and ti: "timer_inv (unlink t s)" using iu(1) by (simp_all add: sys_inv_def)
    have nt: "timers s (Thread_timer t) = None"
      using dead_no_timer [OF ti t0] th(2) by (simp add: live_def un)
    have nl: "Thread_timer t \<notin> set (timer_list s)"
      using linked_suspended [OF ti _ t0] th(2) un by auto
    have "sched_inv {} s1" unfolding s1_def
      by (rule sched_inv_data [OF si t0]) (use True in \<open>simp_all add: u_def stat_of_def\<close>)
    moreover have "timer_inv s1"
      by (rule timer_inv_closed [OF ti t0, where u = u])
        (use iu(2) iu(2) [of Defunct, unfolded un] nt nl su True in \<open>auto simp: s1 un u_def remove1_idem fun_upd_idem\<close>)
    ultimately show ?thesis by (simp add: sys_inv_def)
  qed
  have r1: "runnable s1 x" if "runnable s x" for x
    using that nr by (cases "x = t") (auto simp: runnable_def s1)
  obtain s2 where s2: "rt_object_init_walk s1 = Inr s2" "sched_inv {} s2" "s2 = s1 \<or> frame s1 s2"
    by (rule walk_ok [of s1]) (use i1 lr that in \<open>auto simp: sys_inv_def lock_room_def s1\<close>)
  have i2: "sys_inv s2"
    using s2(2,3) i1 frame_timer_inv [of s1 s2] by (auto simp: sys_inv_def)
  have r2: "runnable s2 x" if "runnable s x" for x using s2(3) r1 [OF that] runnable_frame by auto
  have e2: "queues s2 q = queues (unlink t s) q" if "\<forall>i. q \<noteq> Ready i" for q
    using s2(3) frame_env(8) [of s1 s2 q] that by (auto simp: s1)
  have f2: "timers s2 = timers s" "timer_list s2 = timer_list s" "lock_nest s2 = lock_nest s" "interrupt_nest s2 = 0"
    using s2(3) frame_env(1,2,4,5) [of s1 s2] by (auto simp: s1)
  obtain u2 where u2: "threads s2 t = Some u2" "kept u u2"
    using kept_at_walk [OF s2(3), of t] by (auto simp: kept_at_def s1)
  have su2: "stat_of u2 = 4" "th_object u2 = (\<not> th_static th)" using u2(2) su by (auto simp: kept_def)
  have nq: "t \<notin> set (queues s2 q)" for q
  proof
    assume m: "t \<in> set (queues s2 q)"
    have "stat_of u2 = queue_stat q" using s2(2) u2(1) m unfolding sched_inv_def stats_ok_def by blast
    then have "q = Defunct" using su2(1) by (cases q) auto
    then show False using m iu(2) e2 [of Defunct] by simp
  qed
  have dq: "queues s2 Defunct = ts" using e2 [of Defunct] by (simp add: un)
  obtain c where c: "current_thread s = Some c" "c \<notin> set (queues s Defunct)" using idle by (auto simp: idle_ready_def)
  have "\<exists>d. current_thread s2 = Some d \<and> (d = c \<or> runnable s1 d)"
    using s2(3) c unfolding frame_def by (auto simp: s1)
  then obtain d where d: "current_thread s2 = Some d" "d = c \<or> runnable s1 d" by blast
  have dt: "d \<noteq> t" using d(2) c(2) mem su(1) by (auto simp: runnable_def s1)
  have dn: "d \<notin> set (queues s2 Defunct)"
    using d(2)
  proof
    assume "d = c" then show ?thesis using c(2) dq q by simp
  next
    assume "runnable s1 d"
    then have "runnable s2 d" using s2(3) runnable_frame by auto
    then show ?thesis using defunct_not_runnable [OF s2(2)] by blast
  qed
  have id2: "idle_ready s2" using lr d dn f2 by (auto simp: idle_ready_def lock_room_def)
  have "quiet s s1" by (rule same_timers_quiet) (simp_all add: s1 s1_def set_thread_def unlink_def)
  then have ok2: "quiet s s2" using s2(3) frame_quiet quiet_trans by blast
  have n2: "threads s2 x = None" if "threads s x = None" for x
  proof -
    have "threads s1 x = None" using that th by (auto simp: s1)
    then show ?thesis using s2(3) frame_env(9) [of s1 s2 x] by auto
  qed
  have k2: "kept_at s s2 x" if "x \<noteq> t" for x
    using kept_at_walk [OF s2(3), of x] that by (simp add: kept_at_def s1)
  show thesis
  proof (cases "th_static th")
    case True
    have comm: "set_thread t u (rt_enter_critical (unlink t s)) = rt_enter_critical s1"
      by (simp add: s1_def rt_enter_critical_def set_thread_def)
    have "rt_thread_idle_excute (Suc n) (\<lambda>_. Inr) s = Some (Inr s2)"
      using q inn th True s2(1) comm [unfolded u_def]
      by (simp add: with_thread_def un rt_enter_critical_def unlink_def)
        (simp add: walk_unfold [unfolded rt_enter_critical_def] rt_enter_critical_def)
    moreover have "reaped s s2" using i2 id2 r2 ok2 by (simp add: reaped_def)
    moreover have "unused s2 t" using u2(1) su2(2) True d(1) dt by (simp add: unused_def)
    ultimately show thesis using that [of th s2] th dq True k2 n2 by simp
  next
    case False
    define s3 where "s3 = s2\<lparr> threads := (threads s2)(t := None) \<rparr>"
    have s1u: "s1 = unlink t s" using False by (simp add: s1_def u_def set_thread_same [OF t0])
    have "rt_thread_idle_excute (Suc n) (\<lambda>_. Inr) s = rt_thread_idle_excute n (\<lambda>_. Inr) s3"
      using q inn th False s2(1) [unfolded s1u]
      by (simp add: with_thread_def walk_unfold s3_def)
    moreover have "sys_inv s3"
      unfolding s3_def by (rule free_thread_inv [OF i2 u2(1) su2(1) nq]) (use d(1) dt in simp)
    moreover have "runnable s3 x" if "runnable s x" for x
    proof -
      have "x \<noteq> t" using that nr by blast
      then show ?thesis using r2 [OF that] by (simp add: runnable_def s3_def)
    qed
    moreover have "quiet s s3"
      by (rule quiet_trans [OF ok2 same_timers_quiet]) (simp_all add: s3_def)
    moreover have "kept_at s s3 x" if "x \<noteq> t" for x using k2 [OF that] that by (simp add: kept_at_def s3_def)
    moreover have "idle_ready s3" using id2 by (simp add: idle_ready_def lock_room_def s3_def)
    ultimately show thesis using that [of th s3] th dq False n2 by (simp add: reaped_def s3_def)
  qed
qed

lemma idle_ok:
  assumes "sys_inv s" "idle_ready s" "length (queues s Defunct) < n"
  shows "\<exists>s'. rt_thread_idle_excute n (\<lambda>_. Inr) s = Some (Inr s') \<and> reaped s s' \<and>
    ((\<forall>t th. t \<in> set (queues s Defunct) \<longrightarrow> threads s t = Some th \<longrightarrow> \<not> th_static th) \<longrightarrow>
       queues s' Defunct = [] \<and> (\<forall>t \<in> set (queues s Defunct). threads s' t = None)) \<and>
    (\<forall>x. threads s x = None \<longrightarrow> threads s' x = None)"
  using assms
proof (induction n arbitrary: s)
  case (Suc n)
  show ?case
  proof (cases "queues s Defunct")
    case Nil
    then show ?thesis using Suc.prems by (simp add: reaped_def)
  next
    case (Cons t ts)
    obtain s1 th where r: "threads s t = Some th"
        "rt_thread_idle_excute (Suc n) (\<lambda>_. Inr) s =
          (if th_static th then Some (Inr s1) else rt_thread_idle_excute n (\<lambda>_. Inr) s1)"
        "reaped s s1" "queues s1 Defunct = ts" "if th_static th then unused s1 t else threads s1 t = None"
        "\<And>x. x \<noteq> t \<Longrightarrow> kept_at s s1 x" "\<And>x. threads s x = None \<Longrightarrow> threads s1 x = None"
      by (rule reap_one [OF Suc.prems(1,2) Cons, of n]) (rule that)
    show ?thesis
    proof (cases "th_static th")
      case True
      then show ?thesis using r Cons by auto
    next
      case False
      have "sys_inv s1" "idle_ready s1" using r(3) by (simp_all add: reaped_def)
      from Suc.IH [OF this] Suc.prems(3) r(4) Cons obtain s2 where
        s2: "rt_thread_idle_excute n (\<lambda>_. Inr) s1 = Some (Inr s2)" "reaped s1 s2"
          "(\<forall>t th. t \<in> set ts \<longrightarrow> threads s1 t = Some th \<longrightarrow> \<not> th_static th) \<longrightarrow>
            queues s2 Defunct = [] \<and> (\<forall>t \<in> set ts. threads s2 t = None)"
          "\<forall>x. threads s1 x = None \<longrightarrow> threads s2 x = None" by auto
      have "\<not> th_static v" if a: "\<forall>t th. t \<in> set (queues s Defunct) \<longrightarrow> threads s t = Some th \<longrightarrow> \<not> th_static th"
        and x: "x \<in> set ts" "threads s1 x = Some v" for x v
      proof -
        have "x \<noteq> t" using x(2) r(5) False by auto
        have "threads s x \<noteq> None" using r(7) x(2) by fastforce
        then obtain w where w: "threads s x = Some w" by blast
        then have "\<not> th_static w" using a x(1) Cons by simp
        then show ?thesis using r(6) [OF \<open>x \<noteq> t\<close>] w x(2) by (auto simp: kept_at_def kept_def)
      qed
      note dyn = this
      have ru: "rt_thread_idle_excute (Suc n) (\<lambda>_. Inr) s = Some (Inr s2)" using r(2) s2(1) False by simp
      have "quiet s s2" using r(3) s2(2) unfolding reaped_def by (blast intro: quiet_trans)
      then have re: "reaped s s2" using r(3) s2(2) by (simp add: reaped_def)
      have t1: "threads s1 t = None" using r(5) False by simp
      have em: "queues s2 Defunct = [] \<and> (\<forall>t \<in> set (queues s Defunct). threads s2 t = None)"
        if "\<forall>t th. t \<in> set (queues s Defunct) \<longrightarrow> threads s t = Some th \<longrightarrow> \<not> th_static th"
        using s2(3,4) dyn [OF that] t1 unfolding Cons by auto
      show ?thesis using ru re em s2(4) r(7) by blast
    qed
  qed
qed simp

section \<open>Every sequence of calls\<close>

text \<open>One kernel call of the running thread or of an interrupt handler, with the conditions its
  documentation puts on the caller; that the call returns is part of the step. Timers belong to
  threads, and no thread has a cleanup function, as in this system.\<close>

inductive kstep :: "('a) ksys_scheme \<Rightarrow> ('a) ksys_scheme \<Rightarrow> bool" where
  yield: "rt_thread_yield s = Inr (s', e) \<Longrightarrow> kstep s s'"
| suspend: "rt_thread_suspend t s = Inr (s', e) \<Longrightarrow> kstep s s'"
| resume: "rt_thread_resume t s = Inr (s', e) \<Longrightarrow> kstep s s'"
| startup: "rt_thread_startup t s = Inr (s', e) \<Longrightarrow> kstep s s'"
| sleep: "rt_thread_sleep tick s = Inr s' \<Longrightarrow> kstep s s'"
| sleep_return: "rt_thread_sleep_return t s = Inr (s', e) \<Longrightarrow> kstep s s'"
| delay_until: "rt_thread_delay_until tick inc s = Inr (s', tick', b) \<Longrightarrow> kstep s s'"
| priority: "rt_thread_control t (Change_priority p) s = Inr (s', e) \<Longrightarrow> kstep s s'"
| detach: "rt_thread_detach t s = Inr (s', e) \<Longrightarrow> kstep s s'"
| delete: "rt_thread_delete t s = Inr (s', e) \<Longrightarrow> kstep s s'"
| exit: "current_thread s = Some c \<Longrightarrow> threads s c = Some th \<Longrightarrow> live th \<Longrightarrow> rt_thread_exit s = Inr s' \<Longrightarrow> kstep s s'"
| init: "unused s t \<Longrightarrow> lock_room s \<Longrightarrow> rt_thread_init t p tick s = Inr (s', e) \<Longrightarrow> kstep s s'"
| create: "(\<forall>t. obj = Some t \<longrightarrow> unused s t \<and> threads s t = None) \<Longrightarrow> lock_room s \<Longrightarrow>
    rt_thread_create obj stack p tick s = Inr (s', r) \<Longrightarrow> kstep s s'"
| lock: "lock_room s \<Longrightarrow> s' = rt_enter_critical s \<Longrightarrow> kstep s s'"
| unlock: "rt_exit_critical s = Inr s' \<Longrightarrow> kstep s s'"
| tick: "rt_tick_increase n ut s = Some (Inr s') \<Longrightarrow> length (timer_list s) < n \<Longrightarrow> kstep s s'"
| idle: "idle_ready s \<Longrightarrow> rt_thread_idle_excute n (\<lambda>_. Inr) s = Some (Inr s') \<Longrightarrow>
    length (queues s Defunct) < n \<Longrightarrow> kstep s s'"

definition kinv :: "('a) ksys_scheme \<Rightarrow> bool" where
  "kinv s \<longleftrightarrow> sys_inv s \<and> timers_ok (rt_tick s) s \<and> thread_timers_only s \<and> current_thread s \<noteq> None"

lemma kinv_quiet:
  assumes "kinv s" "sys_inv s'" "quiet s s'"
  shows "kinv s'"
  using assms by (auto simp: kinv_def quiet_def thread_timers_only_def)

lemma schedule_kinv: "kinv s \<Longrightarrow> rt_schedule s = Inr s' \<Longrightarrow> kinv s'"
proof -
  assume k: "kinv s" and r: "rt_schedule s = Inr s'"
  obtain s'' where s'': "rt_schedule s = Inr s''" "sys_inv s''" "frame s s''"
    by (rule schedule_inv [of s]) (use k that in \<open>auto simp: kinv_def\<close>)
  show ?thesis using kinv_quiet [OF k s''(2) frame_quiet [OF s''(3)]] s''(1) r by simp
qed

lemma stat_le_4: "(x :: u8) \<le> 4 \<longleftrightarrow> x \<in> {0, 1, 2, 3, 4}"
proof
  assume "x \<le> 4"
  then have "unat x \<le> 4" by (simp add: word_le_nat_alt)
  then have "unat x \<in> {0, 1, 2, 3, 4}" by auto
  then show "x \<in> {0, 1, 2, 3, 4}" by (auto simp: word_unat_eq_iff)
qed auto

lemma checked_thread_Inr:
  "checked_thread t s f = Inr y \<longleftrightarrow> (\<exists>th. threads s t = Some th \<and> th_object th \<and> f th = Inr y)"
  by (auto simp: checked_thread_def with_thread_def rassert_eq_Inr split: option.splits)

lemma suspend_kinv:
  assumes k: "kinv s" and r: "rt_thread_suspend t s = Inr (s', e)"
  shows "kinv s'" and "\<exists>th. threads s' t = Some th \<and> th_object th \<and> stat_of th \<noteq> RT_THREAD_READY \<and> stat_of th \<noteq> RT_THREAD_RUNNING"
    and "current_thread s' = current_thread s"
proof -
  obtain th where th: "threads s t = Some th" "th_object th" using r by (auto simp: rt_thread_suspend_def checked_thread_Inr)
  have inv: "sys_inv s" using k by (simp add: kinv_def)
  have "kinv s' \<and> (\<exists>th. threads s' t = Some th \<and> th_object th \<and> stat_of th \<noteq> 1 \<and> stat_of th \<noteq> 3) \<and>
      current_thread s' = current_thread s"
  proof (cases "stat_of th = 1 \<or> stat_of th = 3")
    case False
    then have "s' = s" using r th by (auto simp: rt_thread_suspend_def checked_thread_def with_thread_def)
    then show ?thesis using k th False by auto
  next
    case True
    obtain s1 where s1: "rt_thread_suspend t s = Inr (s1, 0)" "sys_inv s1" "calm s s1"
        "threads s1 = (threads s)(t := Some (with_stat RT_THREAD_SUSPEND th))"
      by (rule suspend_ok [OF inv th True]) (rule that)
    have "s' = s1" using r s1(1) by simp
    then show ?thesis
      using kinv_quiet [OF k s1(2) calm_quiet [OF s1(3)]] s1(3,4) th stat_rules by (simp add: calm_def)
  qed
  then show "kinv s'" "\<exists>th. threads s' t = Some th \<and> th_object th \<and> stat_of th \<noteq> 1 \<and> stat_of th \<noteq> 3"
    "current_thread s' = current_thread s" by blast+
qed

lemma start_timer_bound:
  assumes "start_thread_timer t tick s = Inr s'"
  shows "tick < RT_TICK_MAX div 2" "timers s (Thread_timer t) \<noteq> None"
  using assms by (auto simp: start_thread_timer_def rt_timer_control_def rt_timer_start_def with_timer_def
      rbind_eq_Inr rassert_eq_Inr set_timer_def Let_def split: option.splits)

text \<open>Suspending the running thread with a time limit.\<close>

lemma timed_wait_kinv:
  assumes k: "kinv s" and c: "current_thread s = Some c"
    and r: "rt_thread_suspend c s = Inr (s1, e)" "start_thread_timer c tick s1 = Inr s2"
  shows "kinv s2"
proof -
  have k1: "kinv s1" and c1: "current_thread s1 = Some c" using suspend_kinv [OF k r(1)] c by simp_all
  obtain th where th: "threads s1 c = Some th" "th_object th" "stat_of th \<noteq> 1" "stat_of th \<noteq> 3"
    using suspend_kinv(2) [OF k r(1)] by blast
  have i1: "sys_inv s1" and ok1: "timers_ok (rt_tick s1) s1" using k1 by (simp_all add: kinv_def)
  have si: "sched_inv {} s1" and ti: "timer_inv s1" using i1 by (simp_all add: sys_inv_def)
  note sb = start_timer_bound [OF r(2)]
  have "live th"
  proof (rule ccontr)
    assume "\<not> live th"
    then show False using dead_no_timer [OF ti th(1)] sb(2) by simp
  qed
  moreover have "stat_of th \<noteq> 0" using unqueued_init(2) [OF si th(1)] c1 by blast
  moreover have "stat_of th \<le> 4" using ti th(1) unfolding timer_inv_def by blast
  then have "stat_of th \<in> {0, 1, 2, 3, 4}" by (simp add: stat_le_4)
  ultimately have "stat_of th = 2" using th(3,4) by (auto simp: live_def)
  then obtain s2' where s2: "start_thread_timer c tick s1 = Inr s2'" "sys_inv s2'" "timers_ok (rt_tick s1) s2'"
      "rt_tick s2' = rt_tick s1" "current_thread s2' = current_thread s1"
      "set (timer_list s2') = insert (Thread_timer c) (set (timer_list s1))"
    by (rule start_thread_timer_ok [OF i1 th(1,2) _ ok1 sb(1)]) (rule that)
  then show ?thesis using r(2) k1 by (auto simp: kinv_def thread_timers_only_def)
qed

lemma resume_kinv:
  assumes k: "kinv s" and r: "rt_thread_resume t s = Inr (s', e)"
  shows "kinv s'"
proof -
  obtain th where th: "threads s t = Some th" "th_object th" using r by (auto simp: rt_thread_resume_def checked_thread_Inr)
  have inv: "sys_inv s" using k by (simp add: kinv_def)
  show ?thesis
  proof (cases "stat_of th = 2")
    case False
    then have "s' = s" using r th by (auto simp: rt_thread_resume_def checked_thread_def with_thread_def)
    then show ?thesis using k by simp
  next
    case True
    obtain s1 where s1: "rt_thread_resume t s = Inr (s1, 0)" "sys_inv s1" "calm s s1"
      by (rule resume_ok [OF inv th True]) (rule that)
    then show ?thesis using kinv_quiet [OF k s1(2) calm_quiet [OF s1(3)]] r by simp
  qed
qed

lemma startup_kinv:
  assumes k: "kinv s" and r: "rt_thread_startup t s = Inr (s', e)"
  shows "kinv s'"
proof -
  obtain th where th: "threads s t = Some th" "th_object th" "stat_of th = 0"
    using r by (auto simp: rt_thread_startup_def checked_thread_Inr rassert_eq_Inr)
  obtain s1 where s1: "rt_thread_startup t s = Inr (s1, 0)" "sys_inv s1" "quiet s s1"
    by (rule startup_ok [OF _ th]) (use k that in \<open>auto simp: kinv_def\<close>)
  then show ?thesis using kinv_quiet [OF k s1(2,3)] r by simp
qed

lemma sleep_kinv:
  assumes k: "kinv s" and r: "rt_thread_sleep tick s = Inr s'"
  shows "kinv s'"
proof -
  obtain c s1 e s2 where a: "current_thread s = Some c" "rt_thread_suspend c s = Inr (s1, e)"
    "start_thread_timer c tick s1 = Inr s2" "rt_schedule s2 = Inr s'"
    using r by (auto simp: rt_thread_sleep_def rt_thread_self_def checked_thread_Inr rbind_eq_Inr split: option.splits)
  show ?thesis by (rule schedule_kinv [OF timed_wait_kinv [OF k a(1-3)] a(4)])
qed

lemma delay_until_kinv:
  assumes k: "kinv s" and r: "rt_thread_delay_until tick inc s = Inr (s', tick', b)"
  shows "kinv s'"
proof -
  obtain c where c: "current_thread s = Some c"
    using r by (auto simp: rt_thread_delay_until_def rt_thread_self_def split: option.splits)
  show ?thesis
  proof (cases "rt_tick_get s - tick < inc")
    case False
    then have "s' = s" using r c by (auto simp: rt_thread_delay_until_def rt_thread_self_def checked_thread_Inr)
    then show ?thesis using k by simp
  next
    case True
    then obtain s1 e s2 where a: "rt_thread_suspend c s = Inr (s1, e)"
      "start_thread_timer c (rt_tick_get s - tick + inc) s1 = Inr s2" "rt_schedule s2 = Inr s'"
      using r c by (auto simp: rt_thread_delay_until_def rt_thread_self_def checked_thread_Inr rbind_eq_Inr Let_def)
    show ?thesis by (rule schedule_kinv [OF timed_wait_kinv [OF k c a(1,2)] a(3)])
  qed
qed

lemma sleep_return_kinv:
  assumes k: "kinv s" and r: "rt_thread_sleep_return t s = Inr (s', e)"
  shows "kinv s'"
proof -
  obtain th where th: "threads s t = Some th"
    and s': "s' = (if th_error th = - 2 then set_thread t (th\<lparr> th_error := 0 \<rparr>) s else s)"
    using r by (auto simp: rt_thread_sleep_return_def with_thread_def split: option.splits)
  have "sys_inv (set_thread t (th\<lparr> th_error := 0 \<rparr>) s)" "calm s (set_thread t (th\<lparr> th_error := 0 \<rparr>) s)"
    by (rule set_data_ok [OF _ th]; use k in \<open>simp add: kinv_def stat_of_def\<close>)+
  then show ?thesis using k s' kinv_quiet [OF k _ calm_quiet] by simp
qed

lemma priority_kinv:
  assumes k: "kinv s" and r: "rt_thread_control t (Change_priority p) s = Inr (s', e)"
  shows "kinv s'"
proof -
  obtain th where th: "threads s t = Some th" "th_object th" using r by (auto simp: rt_thread_control_def checked_thread_Inr)
  have p: "unat p < 32"
  proof (rule ccontr)
    assume "\<not> unat p < 32"
    then have "set_priority t p s1 = Inl Out_of_bounds" for s1 :: "'a ksys_scheme" by (simp add: set_priority_def)
    then show False using r th by (auto simp: rt_thread_control_def checked_thread_def with_thread_def rbind_eq_Inr split: if_splits)
  qed
  obtain s1 where s1: "rt_thread_control t (Change_priority p) s = Inr (s1, 0)" "sys_inv s1" "calm s s1"
    by (rule change_priority_ok [OF _ th p]) (use k that in \<open>auto simp: kinv_def\<close>)
  then show ?thesis using kinv_quiet [OF k s1(2) calm_quiet [OF s1(3)]] r by simp
qed

lemma ended_kinv: "kinv s \<Longrightarrow> ended s t s' \<Longrightarrow> kinv s'"
  unfolding ended_def using kinv_quiet calm_quiet by blast

lemma detach_kinv:
  assumes k: "kinv s" and r: "rt_thread_detach t s = Inr (s', e)"
  shows "kinv s'"
proof -
  obtain th s1 where th: "threads s t = Some th" "th_object th" "th_static th" "stop_thread t th s = Inr s1"
    using r by (auto simp: rt_thread_detach_def checked_thread_Inr rassert_eq_Inr rbind_eq_Inr)
  have inv: "sys_inv s" using k by (simp add: kinv_def)
  have lv: "live th" by (rule stop_needs_live [OF _ th(1,2,4)]) (use inv in \<open>simp add: sys_inv_def\<close>)
  obtain s2 where "rt_thread_detach t s = Inr (s2, 0)" "ended s t s2"
    by (rule detach_ok [OF inv th(1) lv th(3)]) (rule that)
  then show ?thesis using ended_kinv [OF k] r by simp
qed

lemma delete_kinv:
  assumes k: "kinv s" and r: "rt_thread_delete t s = Inr (s', e)"
  shows "kinv s'"
proof -
  obtain th s1 where th: "threads s t = Some th" "th_object th" "\<not> th_static th" "stop_thread t th s = Inr s1"
    using r by (auto simp: rt_thread_delete_def checked_thread_Inr rassert_eq_Inr rbind_eq_Inr)
  have inv: "sys_inv s" using k by (simp add: kinv_def)
  have lv: "live th" by (rule stop_needs_live [OF _ th(1,2,4)]) (use inv in \<open>simp add: sys_inv_def\<close>)
  obtain s2 where "rt_thread_delete t s = Inr (s2, 0)" "ended s t s2"
    by (rule delete_ok [OF inv th(1) lv th(3)]) (rule that)
  then show ?thesis using ended_kinv [OF k] r by simp
qed

lemma exit_kinv:
  assumes k: "kinv s" and c: "current_thread s = Some c" "threads s c = Some th" "live th"
    and r: "rt_thread_exit s = Inr s'"
  shows "kinv s'"
proof -
  obtain s2 where "rt_thread_exit s = Inr s2" "sys_inv s2" "quiet s s2"
    by (rule exit_ok [OF _ c]) (use k that in \<open>auto simp: kinv_def\<close>)
  then show ?thesis using kinv_quiet [OF k] r by simp
qed

lemma thread_init_kinv:
  assumes k: "kinv s" and u: "unused s t" "lock_room s" and r: "thread_init st t p tick s = Inr (s', e)"
  shows "kinv s'"
proof -
  have p: "unat p < 32" using r by (auto simp: thread_init_def rassert_eq_Inr RT_THREAD_PRIORITY_MAX_def)
  obtain s2 where "thread_init st t p tick s = Inr (s2, 0)" "sys_inv s2" "quiet s s2"
    by (rule thread_init_ok [OF _ u p, of st tick]) (use k that in \<open>auto simp: kinv_def\<close>)
  then show ?thesis using kinv_quiet [OF k] r by simp
qed

lemma init_kinv:
  assumes k: "kinv s" and u: "unused s t" and l: "lock_room s" and r: "rt_thread_init t p tick s = Inr (s', e)"
  shows "kinv s'"
proof -
  have inv: "sys_inv s" using k by (simp add: kinv_def)
  obtain s1 where s1: "rt_object_init_walk s = Inr s1" "sched_inv {} s1" "s1 = s \<or> frame s s1"
    by (rule walk_ok [of s]) (use inv l that in \<open>auto simp: sys_inv_def\<close>)
  have "timer_inv s1" using s1(3) inv frame_timer_inv by (auto simp: sys_inv_def)
  then have "sys_inv s1" using s1(2) by (simp add: sys_inv_def)
  moreover have "quiet s s1" using s1(3) frame_quiet by auto
  ultimately have "kinv s1" by (rule kinv_quiet [OF k])
  moreover have "lock_room s1" using s1(3) l frame_env(4) [of s s1] by (auto simp: lock_room_def)
  moreover have "thread_init True t p tick s1 = Inr (s', e)" using r s1(1) by (auto simp: rt_thread_init_def rassert_eq_Inr)
  ultimately show ?thesis using thread_init_kinv unused_walk [OF inv u s1(3)] by blast
qed

lemma create_kinv:
  assumes k: "kinv s" and u: "\<forall>t. obj = Some t \<longrightarrow> unused s t \<and> threads s t = None" and l: "lock_room s"
    and r: "rt_thread_create obj stack p tick s = Inr (s', x)"
  shows "kinv s'"
proof (cases "\<exists>t. obj = Some t \<and> stack")
  case False
  have "s\<lparr> threads := (threads s)(t := None) \<rparr> = s" if "threads s t = None" for t
    using that by (cases s) auto
  then have "s' = s" using False r u by (auto simp: rt_thread_create_def rassert_eq_Inr split: option.splits)
  then show ?thesis using k by simp
next
  case True
  then obtain t where t: "obj = Some t" "stack" by blast
  obtain e where "thread_init False t p tick s = Inr (s', e)"
    using r t by (auto simp: rt_thread_create_def rassert_eq_Inr rbind_eq_Inr)
  then show ?thesis using thread_init_kinv [OF k _ l] u t(1) by blast
qed

lemma lock_kinv: "kinv s \<Longrightarrow> kinv (s\<lparr> lock_nest := l \<rparr>)"
  by (rule kinv_quiet [where s = s]) (simp_all add: kinv_def sys_inv_def same_timers_quiet)

lemma unlock_kinv:
  assumes k: "kinv s" and r: "rt_exit_critical s = Inr s'"
  shows "kinv s'"
  using r schedule_kinv [OF lock_kinv [OF lock_kinv [OF k]]] lock_kinv [OF k]
  by (auto simp: rt_exit_critical_def Let_def split: if_splits)

lemma tick_kinv:
  assumes k: "kinv s" and r: "rt_tick_increase n ut s = Some (Inr s')" "length (timer_list s) < n"
  shows "kinv s'"
proof -
  obtain s1 where "rt_tick_increase n ut s = Some (Inr s1)" "sys_inv s1" "timers_ok (rt_tick s1) s1"
      "current_thread s1 \<noteq> None" "thread_timers_only s1"
    by (rule tick_ok [of s n ut]) (use k r that in \<open>auto simp: kinv_def\<close>)
  then show ?thesis using r(1) by (simp add: kinv_def)
qed

lemma idle_kinv:
  assumes k: "kinv s" and i: "idle_ready s" and r: "rt_thread_idle_excute n (\<lambda>_. Inr) s = Some (Inr s')"
    "length (queues s Defunct) < n"
  shows "kinv s'"
proof -
  have inv: "sys_inv s" using k by (simp add: kinv_def)
  from idle_ok [OF inv i r(2)] obtain s1 where "rt_thread_idle_excute n (\<lambda>_. Inr) s = Some (Inr s1)" "reaped s s1"
    by blast
  then show ?thesis using kinv_quiet [OF k] r(1) by (simp add: reaped_def)
qed

lemma kstep_kinv: "kstep s s' \<Longrightarrow> kinv s \<Longrightarrow> kinv s'"
proof (induction rule: kstep.induct)
  case (yield s s' e)
  from yield(1) have "rt_schedule s = Inr s'" by (auto simp: rt_thread_yield_def rbind_eq_Inr)
  with yield(2) show ?case by (rule schedule_kinv)
next
  case (lock s s')
  show ?case unfolding lock(2) rt_enter_critical_def by (rule lock_kinv [OF lock(3)])
next
  case suspend
  show ?case by (rule suspend_kinv(1) [OF suspend(2,1)])
next
  case resume
  show ?case by (rule resume_kinv [OF resume(2,1)])
next
  case startup
  show ?case by (rule startup_kinv [OF startup(2,1)])
next
  case sleep
  show ?case by (rule sleep_kinv [OF sleep(2,1)])
next
  case sleep_return
  show ?case by (rule sleep_return_kinv [OF sleep_return(2,1)])
next
  case delay_until
  show ?case by (rule delay_until_kinv [OF delay_until(2,1)])
next
  case priority
  show ?case by (rule priority_kinv [OF priority(2,1)])
next
  case detach
  show ?case by (rule detach_kinv [OF detach(2,1)])
next
  case delete
  show ?case by (rule delete_kinv [OF delete(2,1)])
next
  case unlock
  show ?case by (rule unlock_kinv [OF unlock(2,1)])
next
  case exit
  show ?case by (rule exit_kinv [OF exit(5) exit(1-4)])
next
  case init
  show ?case by (rule init_kinv [OF init(4) init(1-3)])
next
  case create
  show ?case by (rule create_kinv [OF create(4) create(1-3)])
next
  case tick
  show ?case by (rule tick_kinv [OF tick(3) tick(1-2)])
next
  case idle
  show ?case by (rule idle_kinv [OF idle(4) idle(1-3)])
qed

lemma ksteps_kinv: "kstep\<^sup>*\<^sup>* s s' \<Longrightarrow> kinv s \<Longrightarrow> kinv s'"
  by (induction rule: rtranclp_induct) (auto intro: kstep_kinv)

section \<open>Properties\<close>

text \<open>C1: Whatever sequence of kernel calls, returns from sleep, tick interrupts and idle rounds runs from a
  consistent state, the state stays consistent: at most the current thread is marked running, every ready
  thread is queued at its priority, a suspended one is in no ready queue, a timer is armed only for a
  suspended thread; and from every such state rescheduling and the next tick interrupt complete without
  a fault, the tick with fuel beyond the number of armed timers.\<close>

theorem kernel_calls_keep_invariant:
  "kstep\<^sup>*\<^sup>* s s' \<Longrightarrow> kinv s \<Longrightarrow>
   kinv s' \<and> (\<exists>s''. rt_schedule s' = Inr s'') \<and>
   (\<forall>n ut. length (timer_list s') < n \<longrightarrow> (\<exists>s''. rt_tick_increase n ut s' = Some (Inr s''))) \<and>
   (\<forall>t th. threads s' t = Some th \<longrightarrow>
      (stat_of th = RT_THREAD_RUNNING \<longrightarrow> current_thread s' = Some t) \<and>
      (stat_of th = RT_THREAD_READY \<longrightarrow> t \<in> set (queues s' (Ready (unat (th_current_priority th))))) \<and>
      (stat_of th = RT_THREAD_SUSPEND \<longrightarrow> (\<forall>p. t \<notin> set (queues s' (Ready p)))) \<and>
      (Thread_timer t \<in> set (timer_list s') \<longrightarrow> stat_of th = RT_THREAD_SUSPEND))"
proof -
  assume run: "kstep\<^sup>*\<^sup>* s s'" and k0: "kinv s"
  have k: "kinv s'" by (rule ksteps_kinv [OF run k0])
  then have inv: "sys_inv s'" and c: "current_thread s' \<noteq> None" by (simp_all add: kinv_def)
  have si: "sched_inv {} s'" and ti: "timer_inv s'" using inv by (simp_all add: sys_inv_def)
  have "\<exists>s''. rt_schedule s' = Inr s''" using schedule_inv [OF inv c] by blast
  moreover have "\<exists>s''. rt_tick_increase n ut s' = Some (Inr s'')" if ln: "length (timer_list s') < n" for n ut
  proof -
    obtain s'' where "rt_tick_increase n ut s' = Some (Inr s'')"
      by (rule tick_ok [OF inv _ c _ ln, of ut]) (use k that in \<open>auto simp: kinv_def\<close>)
    then show ?thesis by blast
  qed
  moreover have "(stat_of th = 3 \<longrightarrow> current_thread s' = Some t) \<and>
      (stat_of th = 1 \<longrightarrow> t \<in> set (queues s' (Ready (unat (th_current_priority th))))) \<and>
      (stat_of th = 2 \<longrightarrow> (\<forall>p. t \<notin> set (queues s' (Ready p)))) \<and>
      (Thread_timer t \<in> set (timer_list s') \<longrightarrow> stat_of th = 2)" if t: "threads s' t = Some th" for t th
  proof (intro conjI impI allI)
    have st: "stats_ok {} s'" and pr: "prios_ok s'" using si by (simp_all add: sched_inv_def)
    note sx = st [unfolded stats_ok_def, rule_format, OF t, simplified]
      and px = pr [unfolded prios_ok_def, rule_format, OF t]
    show "current_thread s' = Some t" if "stat_of th = 3" using sx that by blast
    show "t \<in> set (queues s' (Ready (unat (th_current_priority th))))" if one: "stat_of th = 1"
    proof -
      obtain p where p: "t \<in> set (queues s' (Ready p))" using sx one by blast
      then have "p = unat (th_current_priority th)" using px by blast
      then show ?thesis using p by simp
    qed
    show "t \<notin> set (queues s' (Ready p))" if "stat_of th = 2" for p
      using head_is_ready [OF si, of t p th] t that by auto
    show "stat_of th = 2" if "Thread_timer t \<in> set (timer_list s')" by (rule linked_suspended [OF ti that t])
  qed
  ultimately show ?thesis using k by blast
qed

lemma sample_kinv: "kinv sample_sched"
  using sample_sched_sys_inv
  by (simp add: kinv_def) (simp add: sample_sched_def timers_ok_def thread_timers_only_def)

theorem kernel_calls_keep_invariant_witness:
  "\<exists>s'. kstep sample_sched s' \<and> kinv s' \<and> (\<exists>s''. rt_schedule s' = Inr s'')"
proof -
  have "current_thread sample_sched \<noteq> None" by (simp add: sample_sched_def)
  with sample_sched_sys_inv obtain s' where "rt_schedule sample_sched = Inr s'" using schedule_inv by blast
  then have st: "kstep sample_sched s'" by (intro kstep.yield [where e = 0]) (simp add: rt_thread_yield_def)
  then show ?thesis using kernel_calls_keep_invariant [OF r_into_rtranclp [of kstep, OF st] sample_kinv] by blast
qed

text \<open>C37: A thread created from the heap and started is runnable at the priority it was given, whatever the
  scheduler does in between; the invariant holds and no other runnable thread is lost.\<close>

theorem rt_thread_create_startup_runs:
  "sys_inv s \<Longrightarrow> unused s t \<Longrightarrow> lock_room s \<Longrightarrow> interrupt_nest s = 0 \<Longrightarrow> unat p < 32 \<Longrightarrow>
   \<exists>s1 s2. rt_thread_create (Some t) True p tick s = Inr (s1, Some t) \<and> \<not> runnable s1 t \<and>
     rt_thread_startup t s1 = Inr (s2, RT_EOK) \<and> sys_inv s2 \<and> runnable s2 t \<and> prio_of s2 t = unat p \<and>
     (\<forall>x. runnable s x \<longrightarrow> runnable s2 x)"
proof -
  assume inv: "sys_inv s" and u: "unused s t" and l: "lock_room s" and i: "interrupt_nest s = 0"
    and p: "unat p < 32"
  obtain s1 th where s1: "thread_init False t p tick s = Inr (s1, 0)" "sys_inv s1"
      "threads s1 t = Some th" "th_object th" "stat_of th = 0" "th_init_priority th = p"
      "\<And>x. x \<noteq> t \<Longrightarrow> kept_at s s1 x"
    by (rule thread_init_ok [OF inv u l p, of False tick]) (rule that)
  have cr: "rt_thread_create (Some t) True p tick s = Inr (s1, Some t)"
    using i s1(1) by (simp add: rt_thread_create_def)
  obtain s2 where s2: "rt_thread_startup t s1 = Inr (s2, 0)" "sys_inv s2" "runnable s2 t" "prio_of s2 t = unat p"
      "\<And>x. x \<noteq> t \<Longrightarrow> kept_at s1 s2 x"
    by (rule startup_ok [OF s1(2-5)]) (use s1(6) that in auto)
  have "runnable s2 x" if r: "runnable s x" for x
  proof (cases "x = t")
    case False
    then have "kept_at s s2 x" using s1(7) s2(5) kept_at_trans by blast
    then show ?thesis using r by (auto simp: runnable_iff kept_at_def kept_def)
  qed (use s2(3) in simp)
  then show ?thesis using cr s1 s2 by (auto simp: runnable_def)
qed

theorem rt_thread_create_startup_runs_witness:
  "\<exists>s1 s2. rt_thread_create (Some 7) True 4 10 sample_sched = Inr (s1, Some 7) \<and>
     rt_thread_startup 7 s1 = Inr (s2, RT_EOK) \<and> runnable s2 7 \<and> prio_of s2 7 = 4"
proof -
  have h: "unused sample_sched 7" "lock_room sample_sched" "interrupt_nest sample_sched = 0" "unat (4 :: u8) < 32"
    by (simp_all add: unused_def lock_room_def sample_sched_def)
  have "unat (4 :: u8) = 4" by simp
  then show ?thesis using rt_thread_create_startup_runs [OF sample_sched_sys_inv h, of 10] by (metis (no_types))
qed



end
