(* ===== verification/Ipc.thy ===== *)
theory Ipc
  imports ThreadLife
begin

text \<open>
  The first part of \<^verbatim>\<open>src/ipc.c\<close>: the waiting lists that all kernel objects share, semaphores,
  mutexes and events. An object is found by its address; its type tag, which every function asserts, is
  the constructor of \<open>ipc_object\<close>. A detached or deleted object is \<open>None\<close>. A call that blocks ends at
  its \<^verbatim>\<open>rt_schedule\<close> with \<open>Blocked\<close>; the function with suffix \<open>_return\<close> is the rest of the call.
\<close>

section \<open>State\<close>

record ipc_parent =
  ip_flag :: u8
  ip_static :: bool

record mutex =
  mx_value :: u16
  mx_original_priority :: u8
  mx_hold :: u8
  mx_owner :: "nat option"

record mailbox =
  mb_pool :: "u32 list"
  mb_size :: u16
  mb_entry :: u16
  mb_in_offset :: u16
  mb_out_offset :: u16

text \<open>The messages of a queue are nodes of its pool, numbered from 0; \<open>mq_next\<close> is the link at the head of each
  node and \<open>mq_slots\<close> what is stored behind it.\<close>

record messagequeue =
  mq_slots :: "bytes list"
  mq_next :: "nat \<Rightarrow> nat option"
  mq_msg_size :: u16
  mq_max_msgs :: u16
  mq_entry :: u16
  mq_head :: "nat option"
  mq_tail :: "nat option"
  mq_free :: "nat option"

datatype ipc_object =
    Semaphore ipc_parent u16
  | Mutex ipc_parent mutex
  | Event ipc_parent u32
  | Mailbox ipc_parent mailbox
  | Messagequeue ipc_parent messagequeue

record isys = ksys +
  ipcs :: "nat \<Rightarrow> ipc_object option"

datatype outcome = Returned rt_err | Blocked

definition set_ipc :: "nat \<Rightarrow> ipc_object \<Rightarrow> isys \<Rightarrow> isys" where
  "set_ipc ob x s = s\<lparr> ipcs := (ipcs s)(ob := Some x) \<rparr>"

definition drop_ipc :: "nat \<Rightarrow> isys \<Rightarrow> isys" where
  "drop_ipc ob s = s\<lparr> ipcs := (ipcs s)(ob := None) \<rparr>"

definition with_sem :: "nat \<Rightarrow> isys \<Rightarrow> (ipc_parent \<Rightarrow> u16 \<Rightarrow> 'b res) \<Rightarrow> 'b res" where
  "with_sem ob s f = (case ipcs s ob of Some (Semaphore p v) \<Rightarrow> f p v | _ \<Rightarrow> Inl Assert_failed)"

definition with_mutex :: "nat \<Rightarrow> isys \<Rightarrow> (ipc_parent \<Rightarrow> mutex \<Rightarrow> 'b res) \<Rightarrow> 'b res" where
  "with_mutex ob s f = (case ipcs s ob of Some (Mutex p m) \<Rightarrow> f p m | _ \<Rightarrow> Inl Assert_failed)"

definition with_event :: "nat \<Rightarrow> isys \<Rightarrow> (ipc_parent \<Rightarrow> u32 \<Rightarrow> 'b res) \<Rightarrow> 'b res" where
  "with_event ob s f = (case ipcs s ob of Some (Event p e) \<Rightarrow> f p e | _ \<Rightarrow> Inl Assert_failed)"

text \<open>\<^verbatim>\<open>RT_DEBUG_IN_THREAD_CONTEXT\<close>\<close>

definition in_thread :: "'a ksys_scheme \<Rightarrow> bool" where
  "in_thread s \<longleftrightarrow> rt_thread_self s \<noteq> None \<and> interrupt_nest s = 0"

definition with_self :: "'a ksys_scheme \<Rightarrow> (nat \<Rightarrow> 'b res) \<Rightarrow> 'b res" where
  "with_self s f = (case rt_thread_self s of None \<Rightarrow> Inl Null_pointer | Some t \<Rightarrow> f t)"

definition set_error :: "nat \<Rightarrow> rt_err \<Rightarrow> 'a ksys_scheme \<Rightarrow> 'a ksys_scheme res" where
  "set_error t e s = with_thread t s (\<lambda>th. Inr (set_thread t (th\<lparr> th_error := e \<rparr>) s))"

text \<open>Sequencing for what may also not return.\<close>

definition orbind :: "'a res option \<Rightarrow> ('a \<Rightarrow> 'b res option) \<Rightarrow> 'b res option" where
  "orbind m f = (case m of None \<Rightarrow> None | Some (Inl e) \<Rightarrow> Some (Inl e) | Some (Inr x) \<Rightarrow> f x)"

definition with_mailbox :: "nat \<Rightarrow> isys \<Rightarrow> (ipc_parent \<Rightarrow> mailbox \<Rightarrow> 'b res) \<Rightarrow> 'b res" where
  "with_mailbox ob s f = (case ipcs s ob of Some (Mailbox p m) \<Rightarrow> f p m | _ \<Rightarrow> Inl Assert_failed)"

definition with_mq :: "nat \<Rightarrow> isys \<Rightarrow> (ipc_parent \<Rightarrow> messagequeue \<Rightarrow> 'b res) \<Rightarrow> 'b res" where
  "with_mq ob s f = (case ipcs s ob of Some (Messagequeue p m) \<Rightarrow> f p m | _ \<Rightarrow> Inl Assert_failed)"

section \<open>Waiting lists\<close>

text \<open>\<^verbatim>\<open>rt_ipc_object_init\<close>\<close>

definition rt_ipc_object_init :: "nat \<Rightarrow> isys \<Rightarrow> isys" where
  "rt_ipc_object_init ob s = s\<lparr> queues := (queues s)(Waiting ob := []) \<rparr>"

text \<open>Before the first waiter of lower priority.\<close>

fun prio_insert :: "(nat \<Rightarrow> u8) \<Rightarrow> u8 \<Rightarrow> nat \<Rightarrow> nat list \<Rightarrow> nat list" where
  "prio_insert prio p t [] = [t]"
| "prio_insert prio p t (x # xs) = (if p < prio x then t # x # xs else x # prio_insert prio p t xs)"

definition prio_in :: "'a ksys_scheme \<Rightarrow> nat \<Rightarrow> u8" where
  "prio_in s x = (case threads s x of None \<Rightarrow> 0 | Some th \<Rightarrow> th_current_priority th)"

definition rt_ipc_list_suspend :: "queue \<Rightarrow> nat \<Rightarrow> u8 \<Rightarrow> 'a ksys_scheme \<Rightarrow> 'a ksys_scheme res" where
  "rt_ipc_list_suspend q t flag s =
     rbind (rt_thread_suspend t s) (\<lambda>(s, _).
     if flag = 0 then Inr (insert_before q t s)
     else if flag = 1 then Inr (s\<lparr> queues := (queues s)(q := prio_insert (prio_in s) (prio_in s t) t (queues s q)) \<rparr>)
     else Inr s)"

definition rt_ipc_list_resume :: "queue \<Rightarrow> 'a ksys_scheme \<Rightarrow> 'a ksys_scheme res" where
  "rt_ipc_list_resume q s = (case queues s q of [] \<Rightarrow> Inl Out_of_bounds
     | t # _ \<Rightarrow> rbind (rt_thread_resume t s) (\<lambda>(s, _). Inr s))"

text \<open>The loop ends only if every waiter is suspended: one that is not stays in the list.\<close>

partial_function (option) rt_ipc_list_resume_all :: "queue \<Rightarrow> 'a ksys_scheme \<Rightarrow> 'a ksys_scheme res option" where
  "rt_ipc_list_resume_all q s = (case queues s q of [] \<Rightarrow> Some (Inr s)
     | t # _ \<Rightarrow>
       case rbind (set_error t (- RT_ERROR) s) (rt_thread_resume t) of
         Inl e \<Rightarrow> Some (Inl e)
       | Inr (s', _) \<Rightarrow> rt_ipc_list_resume_all q s')"

text \<open>The sequence at every place where a thread blocks; a negative time waits for ever.\<close>

definition block_on :: "queue \<Rightarrow> nat \<Rightarrow> u8 \<Rightarrow> int \<Rightarrow> 'a ksys_scheme \<Rightarrow> 'a ksys_scheme res" where
  "block_on q t flag time s =
     rbind (rt_ipc_list_suspend q t flag s) (\<lambda>s.
     if time > 0 then start_thread_timer t (word_of_int time) s else Inr s)"

section \<open>Semaphores\<close>

definition rt_sem_init :: "nat \<Rightarrow> u32 \<Rightarrow> u8 \<Rightarrow> isys \<Rightarrow> (isys \<times> rt_err) res" where
  "rt_sem_init ob value flag s = rassert (value < 0x10000) (rassert (ipcs s ob = None)
     (rbind (rt_object_init_walk s) (\<lambda>s.
      Inr (set_ipc ob (Semaphore \<lparr> ip_flag = flag, ip_static = True \<rparr> (ucast value)) (rt_ipc_object_init ob s), RT_EOK))))"

definition rt_sem_create :: "nat option \<Rightarrow> u32 \<Rightarrow> u8 \<Rightarrow> isys \<Rightarrow> (isys \<times> nat option) res" where
  "rt_sem_create alloc value flag s = rassert (interrupt_nest s = 0) (rassert (value < 0x10000)
     (case alloc of None \<Rightarrow> Inr (s, None)
      | Some ob \<Rightarrow> Inr (set_ipc ob (Semaphore \<lparr> ip_flag = flag, ip_static = False \<rparr> (ucast value))
                         (rt_ipc_object_init ob s), Some ob)))"

definition rt_sem_detach :: "nat \<Rightarrow> isys \<Rightarrow> (isys \<times> rt_err) res option" where
  "rt_sem_detach ob s =
     (case with_sem ob s (\<lambda>p v. rassert (ip_static p) (Inr s)) of Inl e \<Rightarrow> Some (Inl e)
      | Inr s \<Rightarrow> orbind (rt_ipc_list_resume_all (Waiting ob) s) (\<lambda>s. Some (Inr (drop_ipc ob s, RT_EOK))))"

definition rt_sem_delete :: "nat \<Rightarrow> isys \<Rightarrow> (isys \<times> rt_err) res option" where
  "rt_sem_delete ob s =
     (case rassert (interrupt_nest s = 0) (with_sem ob s (\<lambda>p v. rassert (\<not> ip_static p) (Inr s))) of
        Inl e \<Rightarrow> Some (Inl e)
      | Inr s \<Rightarrow> orbind (rt_ipc_list_resume_all (Waiting ob) s) (\<lambda>s. Some (Inr (drop_ipc ob s, RT_EOK))))"

definition rt_sem_take :: "nat \<Rightarrow> int \<Rightarrow> isys \<Rightarrow> (isys \<times> outcome) res" where
  "rt_sem_take ob time s = with_sem ob s (\<lambda>p v.
     if v > 0 then Inr (set_ipc ob (Semaphore p (v - 1)) s, Returned RT_EOK)
     else if time = 0 then Inr (s, Returned (- RT_ETIMEOUT))
     else rassert (in_thread s) (with_self s (\<lambda>t.
       rbind (set_error t RT_EOK s) (\<lambda>s.
       rbind (block_on (Waiting ob) t (ip_flag p) time s) (\<lambda>s.
       rbind (rt_schedule s) (\<lambda>s. Inr (s, Blocked)))))))"

definition rt_sem_take_return :: "nat \<Rightarrow> isys \<Rightarrow> (isys \<times> outcome) res" where
  "rt_sem_take_return t s = with_thread t s (\<lambda>th.
     if th_error th \<noteq> RT_EOK then Inr (s, Returned (th_error th)) else Inr (s, Returned RT_EOK))"

definition rt_sem_trytake :: "nat \<Rightarrow> isys \<Rightarrow> (isys \<times> outcome) res" where
  "rt_sem_trytake ob s = rt_sem_take ob 0 s"

definition rt_sem_release :: "nat \<Rightarrow> isys \<Rightarrow> (isys \<times> rt_err) res" where
  "rt_sem_release ob s = with_sem ob s (\<lambda>p v.
     if queues s (Waiting ob) \<noteq> []
     then rbind (rt_ipc_list_resume (Waiting ob) s) (\<lambda>s. rbind (rt_schedule s) (\<lambda>s. Inr (s, RT_EOK)))
     else Inr (set_ipc ob (Semaphore p (v + 1)) s, RT_EOK))"

text \<open>The argument of a reset command; any other command is refused.\<close>

datatype ipc_cmd = Ipc_reset u32 | Ipc_other_cmd

definition rt_sem_control :: "nat \<Rightarrow> ipc_cmd \<Rightarrow> isys \<Rightarrow> (isys \<times> rt_err) res option" where
  "rt_sem_control ob cmd s =
     (case with_sem ob s (\<lambda>p v. Inr p) of Inl e \<Rightarrow> Some (Inl e)
      | Inr p \<Rightarrow> (case cmd of
          Ipc_reset value \<Rightarrow>
            orbind (rt_ipc_list_resume_all (Waiting ob) s) (\<lambda>s.
            Some (rbind (rt_schedule (set_ipc ob (Semaphore p (ucast value)) s)) (\<lambda>s. Inr (s, RT_EOK))))
        | Ipc_other_cmd \<Rightarrow> Some (Inr (s, - RT_ERROR))))"

section \<open>Mutexes\<close>

definition new_mutex :: mutex where
  "new_mutex = \<lparr> mx_value = 1, mx_original_priority = 0xFF, mx_hold = 0, mx_owner = None \<rparr>"

definition rt_mutex_init :: "nat \<Rightarrow> u8 \<Rightarrow> isys \<Rightarrow> (isys \<times> rt_err) res" where
  "rt_mutex_init ob flag s = rassert (ipcs s ob = None)
     (rbind (rt_object_init_walk s) (\<lambda>s.
      Inr (set_ipc ob (Mutex \<lparr> ip_flag = flag, ip_static = True \<rparr> new_mutex) (rt_ipc_object_init ob s), RT_EOK)))"

definition rt_mutex_create :: "nat option \<Rightarrow> u8 \<Rightarrow> isys \<Rightarrow> (isys \<times> nat option) res" where
  "rt_mutex_create alloc flag s = rassert (interrupt_nest s = 0)
     (case alloc of None \<Rightarrow> Inr (s, None)
      | Some ob \<Rightarrow> Inr (set_ipc ob (Mutex \<lparr> ip_flag = flag, ip_static = False \<rparr> new_mutex)
                         (rt_ipc_object_init ob s), Some ob))"

definition rt_mutex_detach :: "nat \<Rightarrow> isys \<Rightarrow> (isys \<times> rt_err) res option" where
  "rt_mutex_detach ob s =
     (case with_mutex ob s (\<lambda>p m. rassert (ip_static p) (Inr s)) of Inl e \<Rightarrow> Some (Inl e)
      | Inr s \<Rightarrow> orbind (rt_ipc_list_resume_all (Waiting ob) s) (\<lambda>s. Some (Inr (drop_ipc ob s, RT_EOK))))"

definition rt_mutex_delete :: "nat \<Rightarrow> isys \<Rightarrow> (isys \<times> rt_err) res option" where
  "rt_mutex_delete ob s =
     (case rassert (interrupt_nest s = 0) (with_mutex ob s (\<lambda>p m. rassert (\<not> ip_static p) (Inr s))) of
        Inl e \<Rightarrow> Some (Inl e)
      | Inr s \<Rightarrow> orbind (rt_ipc_list_resume_all (Waiting ob) s) (\<lambda>s. Some (Inr (drop_ipc ob s, RT_EOK))))"

text \<open>The part of \<^verbatim>\<open>rt_mutex_take\<close> from its label \<^verbatim>\<open>__again\<close> on. A waiter of higher priority lends its
  priority to the owner.\<close>

definition mutex_again :: "nat \<Rightarrow> int \<Rightarrow> nat \<Rightarrow> isys \<Rightarrow> (isys \<times> outcome) res" where
  "mutex_again ob time t s = with_mutex ob s (\<lambda>p m. with_thread t s (\<lambda>th.
     if mx_value m > 0
     then Inr (set_ipc ob (Mutex p (m\<lparr> mx_value := mx_value m - 1, mx_owner := Some t,
                 mx_original_priority := th_current_priority th, mx_hold := mx_hold m + 1 \<rparr>)) s, Returned RT_EOK)
     else if time = 0 then rbind (set_error t (- RT_ETIMEOUT) s) (\<lambda>s. Inr (s, Returned (- RT_ETIMEOUT)))
     else case mx_owner m of None \<Rightarrow> Inl Null_pointer | Some owner \<Rightarrow> with_thread owner s (\<lambda>ow.
       rbind (if th_current_priority th < th_current_priority ow
              then rbind (rt_thread_control owner (Change_priority (th_current_priority th)) s) (\<lambda>(s, _). Inr s)
              else Inr s) (\<lambda>s.
       rbind (block_on (Waiting ob) t (ip_flag p) time s) (\<lambda>s.
       rbind (rt_schedule s) (\<lambda>s. Inr (s, Blocked)))))))"

definition rt_mutex_take :: "nat \<Rightarrow> int \<Rightarrow> isys \<Rightarrow> (isys \<times> outcome) res" where
  "rt_mutex_take ob time s = rassert (in_thread s) (with_mutex ob s (\<lambda>p m. with_self s (\<lambda>t.
     rbind (set_error t RT_EOK s) (\<lambda>s.
     if mx_owner m = Some t
     then Inr (set_ipc ob (Mutex p (m\<lparr> mx_hold := mx_hold m + 1 \<rparr>)) s, Returned RT_EOK)
     else mutex_again ob time t s))))"

definition rt_mutex_take_return :: "nat \<Rightarrow> int \<Rightarrow> nat \<Rightarrow> isys \<Rightarrow> (isys \<times> outcome) res" where
  "rt_mutex_take_return ob time t s = with_thread t s (\<lambda>th.
     if th_error th \<noteq> RT_EOK
     then if th_error th = - RT_EINTR then mutex_again ob time t s else Inr (s, Returned (th_error th))
     else Inr (s, Returned RT_EOK))"

definition rt_mutex_release :: "nat \<Rightarrow> isys \<Rightarrow> (isys \<times> rt_err) res" where
  "rt_mutex_release ob s = with_mutex ob s (\<lambda>p m. rassert (in_thread s) (with_self s (\<lambda>t.
     if mx_owner m \<noteq> Some t
     then rbind (set_error t (- RT_ERROR) s) (\<lambda>s. Inr (s, - RT_ERROR))
     else
       let m = m\<lparr> mx_hold := mx_hold m - 1 \<rparr> in
       if mx_hold m \<noteq> 0 then Inr (set_ipc ob (Mutex p m) s, RT_EOK)
       else with_thread t s (\<lambda>th.
         rbind (if mx_original_priority m \<noteq> th_current_priority th
                then rbind (rt_thread_control t (Change_priority (mx_original_priority m)) s) (\<lambda>(s, _). Inr s)
                else Inr s) (\<lambda>s.
         case queues s (Waiting ob) of
           w # _ \<Rightarrow> with_thread w s (\<lambda>wth.
             let s = set_ipc ob (Mutex p (m\<lparr> mx_owner := Some w, mx_original_priority := th_current_priority wth,
                       mx_hold := mx_hold m + 1 \<rparr>)) s in
             rbind (rt_ipc_list_resume (Waiting ob) s) (\<lambda>s.
             rbind (rt_schedule s) (\<lambda>s. Inr (s, RT_EOK))))
         | [] \<Rightarrow> Inr (set_ipc ob (Mutex p (m\<lparr> mx_value := mx_value m + 1, mx_owner := None,
                   mx_original_priority := 0xFF \<rparr>)) s, RT_EOK))))))"

definition rt_mutex_control :: "nat \<Rightarrow> ipc_cmd \<Rightarrow> isys \<Rightarrow> (isys \<times> rt_err) res" where
  "rt_mutex_control ob cmd s = with_mutex ob s (\<lambda>p m. Inr (s, - RT_ERROR))"

section \<open>Events\<close>

abbreviation (input) RT_EVENT_FLAG_AND :: u8 where "RT_EVENT_FLAG_AND \<equiv> 1"
abbreviation (input) RT_EVENT_FLAG_OR :: u8 where "RT_EVENT_FLAG_OR \<equiv> 2"
abbreviation (input) RT_EVENT_FLAG_CLEAR :: u8 where "RT_EVENT_FLAG_CLEAR \<equiv> 4"

definition rt_event_init :: "nat \<Rightarrow> u8 \<Rightarrow> isys \<Rightarrow> (isys \<times> rt_err) res" where
  "rt_event_init ob flag s = rassert (ipcs s ob = None)
     (rbind (rt_object_init_walk s) (\<lambda>s.
      Inr (set_ipc ob (Event \<lparr> ip_flag = flag, ip_static = True \<rparr> 0) (rt_ipc_object_init ob s), RT_EOK)))"

definition rt_event_create :: "nat option \<Rightarrow> u8 \<Rightarrow> isys \<Rightarrow> (isys \<times> nat option) res" where
  "rt_event_create alloc flag s = rassert (interrupt_nest s = 0)
     (case alloc of None \<Rightarrow> Inr (s, None)
      | Some ob \<Rightarrow> Inr (set_ipc ob (Event \<lparr> ip_flag = flag, ip_static = False \<rparr> 0)
                         (rt_ipc_object_init ob s), Some ob))"

definition rt_event_detach :: "nat \<Rightarrow> isys \<Rightarrow> (isys \<times> rt_err) res option" where
  "rt_event_detach ob s =
     (case with_event ob s (\<lambda>p e. rassert (ip_static p) (Inr s)) of Inl e \<Rightarrow> Some (Inl e)
      | Inr s \<Rightarrow> orbind (rt_ipc_list_resume_all (Waiting ob) s) (\<lambda>s. Some (Inr (drop_ipc ob s, RT_EOK))))"

definition rt_event_delete :: "nat \<Rightarrow> isys \<Rightarrow> (isys \<times> rt_err) res option" where
  "rt_event_delete ob s =
     (case with_event ob s (\<lambda>p e. rassert (\<not> ip_static p) (rassert (interrupt_nest s = 0) (Inr s))) of
        Inl e \<Rightarrow> Some (Inl e)
      | Inr s \<Rightarrow> orbind (rt_ipc_list_resume_all (Waiting ob) s) (\<lambda>s. Some (Inr (drop_ipc ob s, RT_EOK))))"

text \<open>Does the event set satisfy what a thread waits for, and the set it is then given.\<close>

definition event_match :: "u8 \<Rightarrow> u32 \<Rightarrow> u32 \<Rightarrow> u32 option" where
  "event_match info wanted e =
     (if info AND RT_EVENT_FLAG_AND \<noteq> 0 then (if wanted AND e = wanted then Some wanted else None)
      else if info AND RT_EVENT_FLAG_OR \<noteq> 0 then (if wanted AND e \<noteq> 0 then Some (wanted AND e) else None)
      else None)"

text \<open>The walk of \<^verbatim>\<open>rt_event_send\<close> over the waiting list, which takes the next node before it resumes
  a thread; the second result is \<^verbatim>\<open>need_schedule\<close>.\<close>

fun event_wake :: "nat \<Rightarrow> nat list \<Rightarrow> bool \<Rightarrow> isys \<Rightarrow> (isys \<times> bool) res" where
  "event_wake ob [] need s = Inr (s, need)"
| "event_wake ob (t # ts) need s = with_event ob s (\<lambda>p e. with_thread t s (\<lambda>th.
     case event_match (th_event_info th) (th_event_set th) e of
       None \<Rightarrow> event_wake ob ts need s
     | Some got \<Rightarrow>
         let s = set_thread t (th\<lparr> th_event_set := got \<rparr>) s;
             s = (if th_event_info th AND RT_EVENT_FLAG_CLEAR \<noteq> 0 then set_ipc ob (Event p (e AND NOT got)) s else s) in
         rbind (rt_thread_resume t s) (\<lambda>(s, _). event_wake ob ts True s)))"

definition rt_event_send :: "nat \<Rightarrow> u32 \<Rightarrow> isys \<Rightarrow> (isys \<times> rt_err) res" where
  "rt_event_send ob evset s = with_event ob s (\<lambda>p e.
     if evset = 0 then Inr (s, - RT_ERROR)
     else rbind (event_wake ob (queues s (Waiting ob)) False (set_ipc ob (Event p (e OR evset)) s)) (\<lambda>(s, need).
          rbind (if need then rt_schedule s else Inr s) (\<lambda>s. Inr (s, RT_EOK))))"

text \<open>The second component is what is stored through \<^verbatim>\<open>recved\<close>, if anything.\<close>

definition rt_event_recv ::
    "nat \<Rightarrow> u32 \<Rightarrow> u8 \<Rightarrow> int \<Rightarrow> isys \<Rightarrow> (isys \<times> u32 option \<times> outcome) res" where
  "rt_event_recv ob wanted opt timeout s = rassert (in_thread s) (with_event ob s (\<lambda>p e.
     if wanted = 0 then Inr (s, None, Returned (- RT_ERROR))
     else with_self s (\<lambda>t. rbind (set_error t RT_EOK s) (\<lambda>s.
       rassert (opt AND RT_EVENT_FLAG_AND \<noteq> 0 \<or> opt AND RT_EVENT_FLAG_OR \<noteq> 0)
       (if event_match opt wanted e \<noteq> None
        then Inr (if opt AND RT_EVENT_FLAG_CLEAR \<noteq> 0 then set_ipc ob (Event p (e AND NOT wanted)) s else s,
                  Some (e AND wanted), Returned RT_EOK)
        else if timeout = 0
        then rbind (set_error t (- RT_ETIMEOUT) s) (\<lambda>s. Inr (s, None, Returned (- RT_ETIMEOUT)))
        else with_thread t s (\<lambda>th.
          rbind (block_on (Waiting ob) t (ip_flag p) timeout
                   (set_thread t (th\<lparr> th_event_set := wanted, th_event_info := opt \<rparr>) s)) (\<lambda>s.
          rbind (rt_schedule s) (\<lambda>s. Inr (s, None, Blocked)))))))))"

definition rt_event_recv_return :: "nat \<Rightarrow> isys \<Rightarrow> (isys \<times> u32 option \<times> outcome) res" where
  "rt_event_recv_return t s = with_thread t s (\<lambda>th.
     if th_error th \<noteq> RT_EOK then Inr (s, None, Returned (th_error th))
     else Inr (s, Some (th_event_set th), Returned (th_error th)))"

definition rt_event_control :: "nat \<Rightarrow> ipc_cmd \<Rightarrow> isys \<Rightarrow> (isys \<times> rt_err) res option" where
  "rt_event_control ob cmd s =
     (case with_event ob s (\<lambda>p e. Inr p) of Inl e \<Rightarrow> Some (Inl e)
      | Inr p \<Rightarrow> (case cmd of
          Ipc_reset _ \<Rightarrow>
            orbind (rt_ipc_list_resume_all (Waiting ob) s) (\<lambda>s.
            Some (rbind (rt_schedule (set_ipc ob (Event p 0) s)) (\<lambda>s. Inr (s, RT_EOK))))
        | Ipc_other_cmd \<Rightarrow> Some (Inr (s, - RT_ERROR))))"

section \<open>Objects and the kernel invariant\<close>

lemma ipcs_more: "ksys.more s' = ksys.more s \<Longrightarrow> ipcs s' = ipcs (s :: isys)"
  by (cases s; cases s') simp

lemma sys_inv_cong:
  "threads s' = threads s \<Longrightarrow> queues s' = queues s \<Longrightarrow> current_thread s' = current_thread s \<Longrightarrow>
   ready_group s' = ready_group s \<Longrightarrow> timers s' = timers s \<Longrightarrow> timer_list s' = timer_list s \<Longrightarrow>
   sys_inv s' = sys_inv s"
  using sched_inv_cong [of s' s "{}"] timer_inv_cong [of s' s] by (simp add: sys_inv_def)

lemma set_ipc_fields [simp]:
  "threads (set_ipc ob x s) = threads s" "queues (set_ipc ob x s) = queues s"
  "current_thread (set_ipc ob x s) = current_thread s" "ready_group (set_ipc ob x s) = ready_group s"
  "timers (set_ipc ob x s) = timers s" "timer_list (set_ipc ob x s) = timer_list s"
  "rt_tick (set_ipc ob x s) = rt_tick s" "lock_nest (set_ipc ob x s) = lock_nest s"
  "interrupt_nest (set_ipc ob x s) = interrupt_nest s" "ipcs (set_ipc ob x s) = (ipcs s)(ob := Some x)"
  by (simp_all add: set_ipc_def)

lemma drop_ipc_fields [simp]:
  "threads (drop_ipc ob s) = threads s" "queues (drop_ipc ob s) = queues s"
  "current_thread (drop_ipc ob s) = current_thread s" "ready_group (drop_ipc ob s) = ready_group s"
  "timers (drop_ipc ob s) = timers s" "timer_list (drop_ipc ob s) = timer_list s"
  "rt_tick (drop_ipc ob s) = rt_tick s" "lock_nest (drop_ipc ob s) = lock_nest s"
  "interrupt_nest (drop_ipc ob s) = interrupt_nest s" "ipcs (drop_ipc ob s) = (ipcs s)(ob := None)"
  by (simp_all add: drop_ipc_def)

lemma sys_inv_ipc [simp]: "sys_inv (set_ipc ob x s) = sys_inv s" "sys_inv (drop_ipc ob s) = sys_inv s"
  by (rule sys_inv_cong; simp)+

lemma quiet_ipc: "quiet s (set_ipc ob x s)" "quiet s (drop_ipc ob s)"
  by (rule same_timers_quiet; simp)+

section \<open>Waiting\<close>

definition waiting_queue :: "queue \<Rightarrow> bool" where
  "waiting_queue q \<longleftrightarrow> queue_stat q = RT_THREAD_SUSPEND"

lemma waiting_queue_simps [simp]: "waiting_queue (Waiting ob)" "waiting_queue (Senders ob)"
  by (simp_all add: waiting_queue_def)

lemma waiting_queueD: "waiting_queue q \<Longrightarrow> \<forall>i. q \<noteq> Ready i" "waiting_queue q \<Longrightarrow> q \<noteq> Defunct"
  by (auto simp: waiting_queue_def)

lemma set_prio_insert: "set (prio_insert prio p t xs) = insert t (set xs)"
  by (induction xs) auto

lemma distinct_prio_insert: "distinct (prio_insert prio p t xs) \<longleftrightarrow> t \<notin> set xs \<and> distinct xs"
  by (induction xs) (auto simp: set_prio_insert)

text \<open>Putting a suspended thread that is in no list into a waiting list.\<close>

lemma wait_inv:
  assumes inv: "sys_inv s" and t: "threads s t = Some th" "stat_of th = RT_THREAD_SUSPEND"
    and out: "\<And>q. t \<notin> set (queues s q)" and q: "waiting_queue q"
    and xs: "set xs = insert t (set (queues s q))" "distinct xs"
  shows "sys_inv (s\<lparr> queues := (queues s)(q := xs) \<rparr>)"
proof -
  let ?s = "s\<lparr> queues := (queues s)(q := xs) \<rparr>"
  have si: "sched_inv {} s" and ti: "timer_inv s" using inv by (simp_all add: sys_inv_def)
  have links: "links_ok s" and prios: "prios_ok s" and stats: "stats_ok {} s" using si by (simp_all add: sched_inv_def)
  have nr: "Ready i \<noteq> q" "q \<noteq> Defunct" for i using waiting_queueD [OF q] by auto
  have mem: "x \<in> set (queues ?s q') \<longleftrightarrow> x \<in> set (queues s q') \<or> x = t \<and> q' = q" for x q'
    using xs(1) by auto
  have f: "threads ?s = threads s" "current_thread ?s = current_thread s" "ready_group ?s = ready_group s"
    "\<And>i. queues ?s (Ready i) = queues s (Ready i)" using nr by simp_all
  have "distinct (queues ?s q')" for q' using links xs(2) by (simp add: links_ok_def)
  then have "links_ok ?s" using links out t(1) unfolding links_ok_def mem f by auto
  moreover have "prios_ok ?s" using prios unfolding prios_ok_def f .
  moreover have "stats_ok {} ?s"
    unfolding stats_ok_def mem f
  proof (intro allI impI, goal_cases)
    case x: (1 x u)
    have "(\<forall>q'. x \<in> set (queues s q') \<longrightarrow> stat_of u = queue_stat q') \<and>
        (stat_of u = 1 \<longrightarrow> (\<exists>p. x \<in> set (queues s (Ready p)))) \<and> (stat_of u = 3 \<longrightarrow> current_thread s = Some x) \<and>
        (current_thread s = Some x \<longrightarrow> stat_of u \<noteq> 1 \<and> stat_of u \<noteq> 0)"
      using stats [unfolded stats_ok_def, rule_format, OF x] .
    moreover have "stat_of u = queue_stat q" if "x = t" using that x(1) t q by (simp add: waiting_queue_def)
    ultimately show ?case by blast
  qed
  moreover have "timer_inv ?s"
    by (rule timer_inv_change [OF ti]) (use nr(2) same_life_refl in \<open>auto\<close>)
  ultimately show ?thesis by (simp add: sys_inv_def sched_inv_def)
qed

lemma waiter_suspended:
  assumes inv: "sys_inv s" and q: "waiting_queue q" "t \<in> set (queues s q)"
  obtains th where "threads s t = Some th" "stat_of th = RT_THREAD_SUSPEND" "th_object th"
proof -
  have si: "sched_inv {} s" and ti: "timer_inv s" using inv by (simp_all add: sys_inv_def)
  have "threads s t \<noteq> None" using si q(2) unfolding sched_inv_def links_ok_def by blast
  then obtain th where th: "threads s t = Some th" by blast
  have st: "stat_of th = 2"
    using si th q unfolding sched_inv_def stats_ok_def waiting_queue_def by fastforce
  have "th_object th"
  proof (rule ccontr)
    assume "\<not> th_object th"
    then have "stat_of th = 4" using ti th unfolding timer_inv_def by blast
    then show False using st by simp
  qed
  then show thesis using that th st by blast
qed

lemma waiter_in_one_list:
  assumes "sys_inv s" "t \<in> set (queues s q)" "q' \<noteq> q"
  shows "t \<notin> set (queues s q')"
  using one_list [of "{}" s t q q'] assms by (auto simp: sys_inv_def)

lemma running_in_no_list:
  assumes inv: "sys_inv s" and t: "threads s t = Some th" "stat_of th = RT_THREAD_RUNNING"
  shows "t \<notin> set (queues s q)"
proof
  assume m: "t \<in> set (queues s q)"
  have "stat_of th = queue_stat q" using inv t(1) m unfolding sys_inv_def sched_inv_def stats_ok_def by blast
  then show False using t(2) by (cases q) auto
qed

text \<open>Where the list puts a new waiter.\<close>

definition enqueued :: "isys \<Rightarrow> nat \<Rightarrow> u8 \<Rightarrow> nat list \<Rightarrow> nat list" where
  "enqueued s t flag xs = (if flag = 0 then xs @ [t] else prio_insert (prio_in s) (prio_in s t) t xs)"

text \<open>The waiting time of a call that blocks: for ever, or short enough for a timer.\<close>

definition waits :: "int \<Rightarrow> bool" where
  "waits time \<longleftrightarrow> time < 0 \<or> 0 < time \<and> time < 2 ^ 31 - 1"

lemma waits_tick:
  assumes "waits time" "0 < time"
  shows "word_of_int time < RT_TICK_MAX div 2" "unat (word_of_int time :: u32) = nat time"
proof -
  have "unat (word_of_int time :: u32) = nat time"
    using assms by (simp add: waits_def unat_eq_nat_uint uint_word_of_int)
  then show "word_of_int time < RT_TICK_MAX div 2" "unat (word_of_int time :: u32) = nat time"
    using assms by (simp_all add: half_max word_less_nat_alt waits_def)
qed

lemma list_suspend_ok:
  assumes inv: "sys_inv s" and c: "threads s c = Some th" "th_object th" "stat_of th = RT_THREAD_RUNNING"
    and q: "waiting_queue q" and flag: "flag = 0 \<or> flag = 1"
  obtains s' where "rt_ipc_list_suspend q c flag s = Inr s'" "sys_inv s'" "calm s s'"
    and "threads s' = (threads s)(c := Some (with_stat RT_THREAD_SUSPEND th))"
    and "queues s' q = enqueued s c flag (queues s q)" "\<And>q'. q' \<noteq> q \<Longrightarrow> queues s' q' = queues s q'"
    and "timers s' = timers s" "timer_list s' = timer_list s"
proof -
  have st: "stat_of th = 1 \<or> stat_of th = 3" using c(3) by blast
  obtain s1 where s1: "rt_thread_suspend c s = Inr (s1, 0)" "sys_inv s1" "calm s s1"
      "threads s1 = (threads s)(c := Some (with_stat RT_THREAD_SUSPEND th))"
      "queues s1 = (\<lambda>q. remove1 c (queues s q))" "\<And>q. c \<notin> set (queues s1 q)"
      "timers s1 = timers s" "timer_list s1 = timer_list s"
    by (rule suspend_ok [OF inv c(1,2) st]) (rule that)
  have nq: "c \<notin> set (queues s q')" for q' by (rule running_in_no_list [OF inv c(1,3)])
  then have q1: "queues s1 = queues s" by (simp add: s1(5) remove1_idem)
  have pr: "prio_in s1 = prio_in s" using c(1) by (intro ext) (simp add: prio_in_def s1(4))
  define xs where "xs = enqueued s c flag (queues s q)"
  define s2 where "s2 = s1\<lparr> queues := (queues s1)(q := xs) \<rparr>"
  have "distinct (queues s q)" using inv by (simp add: sys_inv_def sched_inv_def links_ok_def)
  then have xs: "set xs = insert c (set (queues s1 q))" "distinct xs"
    using nq by (auto simp: xs_def enqueued_def q1 set_prio_insert distinct_prio_insert)
  have t1: "threads s1 c = Some (with_stat 2 th)" "stat_of (with_stat 2 th) = 2" by (simp_all add: s1(4) stat_rules)
  have i2: "sys_inv s2" unfolding s2_def by (rule wait_inv [OF s1(2) t1 s1(6) q xs])
  have run: "rt_ipc_list_suspend q c flag s = Inr s2"
    using flag s1(1)
    by (auto simp: rt_ipc_list_suspend_def s2_def xs_def enqueued_def insert_before_def q1 pr)
  have "calm s1 s2" using timers_ok_cong [of s2 s1] by (simp add: calm_def s2_def)
  then have "calm s s2" by (rule calm_trans [OF s1(3)])
  then show thesis
    by (intro that [OF run i2]) (use s1 q1 in \<open>simp_all add: s2_def xs_def\<close>)
qed

lemma block_on_ok:
  assumes inv: "sys_inv s" and ok: "timers_ok (rt_tick s) s"
    and c: "threads s c = Some th" "th_object th" "stat_of th = RT_THREAD_RUNNING"
    and q: "waiting_queue q" and flag: "flag = 0 \<or> flag = 1" and w: "waits time"
  obtains s' where "block_on q c flag time s = Inr s'" "sys_inv s'" "timers_ok (rt_tick s') s'"
    and "threads s' = (threads s)(c := Some (with_stat RT_THREAD_SUSPEND th))"
    and "queues s' q = enqueued s c flag (queues s q)" "\<And>q'. q' \<noteq> q \<Longrightarrow> queues s' q' = queues s q'"
    and "ksys.more s' = ksys.more s" "rt_tick s' = rt_tick s" "current_thread s' = current_thread s"
    and "lock_nest s' = lock_nest s" "interrupt_nest s' = interrupt_nest s"
    and "set (timer_list s') \<subseteq> insert (Thread_timer c) (set (timer_list s))"
    and "0 < time \<Longrightarrow> asleep s' c \<and> remaining s' c = nat time"
    and "\<And>i. i \<noteq> Thread_timer c \<Longrightarrow> timers s' i = timers s i"
proof -
  obtain s1 where s1: "rt_ipc_list_suspend q c flag s = Inr s1" "sys_inv s1" "calm s s1"
      "threads s1 = (threads s)(c := Some (with_stat RT_THREAD_SUSPEND th))"
      "queues s1 q = enqueued s c flag (queues s q)" "\<And>q'. q' \<noteq> q \<Longrightarrow> queues s1 q' = queues s q'"
      "timers s1 = timers s" "timer_list s1 = timer_list s"
    by (rule list_suspend_ok [OF inv c q flag]) (rule that)
  have ok1: "timers_ok (rt_tick s1) s1" using ok s1(3) by (simp add: calm_def)
  show thesis
  proof (cases "0 < time")
    case False
    then have "block_on q c flag time s = Inr s1" by (simp add: block_on_def s1(1))
    then show thesis
      by (rule that [OF _ s1(2) ok1 s1(4,5,6)]) (use s1(3,7,8) False in \<open>auto simp: calm_def\<close>)
  next
    case True
    note tk = waits_tick [OF w True]
    have t1: "threads s1 c = Some (with_stat 2 th)" "th_object (with_stat 2 th)" "stat_of (with_stat 2 th) = 2"
      using c(2) by (simp_all add: s1(4) stat_rules)
    obtain s2 where s2: "start_thread_timer c (word_of_int time) s1 = Inr s2" "sys_inv s2" "timers_ok (rt_tick s1) s2"
        "threads s2 = threads s1" "queues s2 = queues s1" "rt_tick s2 = rt_tick s1"
        "current_thread s2 = current_thread s1" "lock_nest s2 = lock_nest s1"
        "interrupt_nest s2 = interrupt_nest s1" "ksys.more s2 = ksys.more s1"
        "timeout_of s2 (Thread_timer c) = rt_tick s1 + word_of_int time"
        "set (timer_list s2) = insert (Thread_timer c) (set (timer_list s1))"
        "\<And>i. i \<noteq> Thread_timer c \<Longrightarrow> timers s2 i = timers s1 i"
      by (rule start_thread_timer_ok [OF s1(2) t1 ok1 tk(1)]) (rule that)
    have "block_on q c flag time s = Inr s2" using True by (simp add: block_on_def s1(1) s2(1))
    then show thesis
      by (rule that [OF _ s2(2)])
        (use s1 s2 t1 tk(2) in \<open>auto simp: calm_def asleep_def remaining_def ahead_def\<close>)
  qed
qed

section \<open>Waking\<close>

lemma set_error_ok:
  assumes inv: "sys_inv s" and t: "threads s t = Some th"
  obtains s' where "set_error t e s = Inr s'" "sys_inv s'" "calm s s'"
    and "s' = set_thread t (th\<lparr> th_error := e \<rparr>) s"
  using set_data_ok [OF inv t, of "th\<lparr> th_error := e \<rparr>"] t that [of "set_thread t (th\<lparr> th_error := e \<rparr>) s"]
  by (simp add: set_error_def with_thread_def stat_of_def)

text \<open>The first waiter is resumed.\<close>

lemma list_resume_ok:
  assumes inv: "sys_inv s" and q: "waiting_queue q" and w: "queues s q = w # ws"
  obtains s' th where "rt_ipc_list_resume q s = Inr s'" "sys_inv s'" "calm s s'"
    and "threads s w = Some th" "th_object th" "stat_of th = RT_THREAD_SUSPEND"
    and "threads s' = (threads s)(w := Some (resumed s w th))"
    and "queues s' q = ws" "\<And>q'. q' \<noteq> q \<Longrightarrow> \<forall>i. q' \<noteq> Ready i \<Longrightarrow> queues s' q' = queues s q'"
    and "timer_list s' = remove1 (Thread_timer w) (timer_list s)"
    and "\<And>i. i \<noteq> Thread_timer w \<Longrightarrow> timers s' i = timers s i"
proof -
  have m: "w \<in> set (queues s q)" by (simp add: w)
  obtain th where th: "threads s w = Some th" "stat_of th = 2" "th_object th"
    by (rule waiter_suspended [OF inv q m]) (rule that)
  obtain s' where s': "rt_thread_resume w s = Inr (s', 0)" "sys_inv s'" "calm s s'"
      "threads s' = (threads s)(w := Some (resumed s w th))"
      "\<And>q. (\<forall>i. q \<noteq> Ready i) \<Longrightarrow> queues s' q = remove1 w (queues s q)"
      "timer_list s' = remove1 (Thread_timer w) (timer_list s)"
      "\<And>i. i \<noteq> Thread_timer w \<Longrightarrow> timers s' i = timers s i"
    by (rule resume_ok [OF inv th(1,3,2)]) (rule that)
  have nq: "queues s' q' = queues s q'" if "q' \<noteq> q" "\<forall>i. q' \<noteq> Ready i" for q'
    using s'(5) [OF that(2)] waiter_in_one_list [OF inv m that(1)] by (simp add: remove1_idem)
  have "rt_ipc_list_resume q s = Inr s'" by (simp add: rt_ipc_list_resume_def w s'(1))
  then show thesis
    by (rule that [OF _ s'(2,3) th(1,3,2) s'(4)])
      (use s'(5) [OF waiting_queueD(1) [OF q]] w nq s'(6,7) in auto)
qed

definition woken_with :: "rt_err \<Rightarrow> 'a ksys_scheme \<Rightarrow> nat \<Rightarrow> bool" where
  "woken_with e s t \<longleftrightarrow> (\<exists>u. threads s t = Some u \<and>
     (stat_of u = RT_THREAD_READY \<or> stat_of u = RT_THREAD_RUNNING) \<and> th_error u = e)"

lemma woken_with_kept: "woken_with e s t \<Longrightarrow> kept_at s s' t \<Longrightarrow> woken_with e s' t"
  unfolding woken_with_def kept_at_def kept_def by fastforce

lemma woken_with_runnable: "woken_with e s t \<Longrightarrow> runnable s t"
  by (auto simp: woken_with_def runnable_iff)

text \<open>Every waiter is resumed with an error; the loop ends.\<close>

lemma resume_all_ok:
  assumes "sys_inv s" and q: "waiting_queue q"
  shows "\<exists>s'. rt_ipc_list_resume_all q s = Some (Inr s') \<and> sys_inv s' \<and> calm s s' \<and>
    queues s' q = [] \<and> (\<forall>q'. q' \<noteq> q \<longrightarrow> (\<forall>i. q' \<noteq> Ready i) \<longrightarrow> queues s' q' = queues s q') \<and>
    (\<forall>t \<in> set (queues s q). woken_with (- RT_ERROR) s' t) \<and>
    (\<forall>t. t \<notin> set (queues s q) \<longrightarrow> threads s' t = threads s t)"
  using assms(1)
proof (induction "queues s q" arbitrary: s)
  case Nil
  then have "rt_ipc_list_resume_all q s = Some (Inr s)" by (subst rt_ipc_list_resume_all.simps) simp
  then show ?case using Nil by (auto simp: calm_def)
next
  case (Cons w ws)
  have m: "w \<in> set (queues s q)" by (simp flip: Cons.hyps(2))
  obtain th where th: "threads s w = Some th" "stat_of th = 2" "th_object th"
    by (rule waiter_suspended [OF Cons.prems q m]) (rule that)
  obtain s1 where s1: "set_error w (- 1) s = Inr s1" "sys_inv s1" "calm s s1"
      "s1 = set_thread w (th\<lparr> th_error := - 1 \<rparr>) s"
    by (rule set_error_ok [OF Cons.prems th(1)]) (rule that)
  have q1: "queues s1 = queues s" by (simp add: s1(4) set_thread_def)
  have w1: "queues s1 q = w # ws" by (simp add: q1 flip: Cons.hyps(2))
  obtain s2 th1 where s2: "rt_ipc_list_resume q s1 = Inr s2" "sys_inv s2" "calm s1 s2" "threads s1 w = Some th1"
      "threads s2 = (threads s1)(w := Some (resumed s1 w th1))" "queues s2 q = ws"
      "\<And>q'. q' \<noteq> q \<Longrightarrow> \<forall>i. q' \<noteq> Ready i \<Longrightarrow> queues s2 q' = queues s1 q'"
    by (rule list_resume_ok [OF s1(2) q w1]) (rule that)
  have th1: "th1 = th\<lparr> th_error := - 1 \<rparr>" using s2(4) by (simp add: s1(4) set_thread_def)
  have step: "rt_ipc_list_resume_all q s = rt_ipc_list_resume_all q s2"
    using s1(1) s2(1) w1
    by (subst rt_ipc_list_resume_all.simps)
      (auto simp: rt_ipc_list_resume_def rbind_eq_Inr simp flip: Cons.hyps(2))
  have "distinct (queues s q)" using Cons.prems by (simp add: sys_inv_def sched_inv_def links_ok_def)
  then have nw: "w \<notin> set ws" by (simp flip: Cons.hyps(2))
  from Cons.hyps(1) [OF s2(6) [symmetric] s2(2)] obtain s3 where
    s3: "rt_ipc_list_resume_all q s2 = Some (Inr s3)" "sys_inv s3" "calm s2 s3" "queues s3 q = []"
      "\<forall>q'. q' \<noteq> q \<longrightarrow> (\<forall>i. q' \<noteq> Ready i) \<longrightarrow> queues s3 q' = queues s2 q'"
      "\<forall>t \<in> set ws. woken_with (- 1) s3 t" "\<forall>t. t \<notin> set ws \<longrightarrow> threads s3 t = threads s2 t"
    unfolding s2(6) by blast
  have "woken_with (- 1) s3 w"
    using s3(7) nw stat_of_resumed [of s1 w th1] by (simp add: woken_with_def s2(5)) (simp add: th1)
  moreover have "threads s3 t = threads s t" if "t \<notin> set (queues s q)" for t
  proof -
    have "t \<noteq> w" "t \<notin> set ws" using that by (auto simp flip: Cons.hyps(2))
    then show ?thesis using s3(7) by (simp add: s2(5) s1(4) set_thread_def)
  qed
  moreover have "calm s s3" using s1(3) s2(3) s3(3) by (blast intro: calm_trans)
  ultimately show ?case
    using s3 step s2(7) q1 by (intro exI [of _ s3]) (auto simp flip: Cons.hyps(2))
qed

lemma calm_more: "calm s s' \<Longrightarrow> ipcs s' = ipcs (s :: isys)"
  by (rule ipcs_more) (simp add: calm_def)

lemma frame_more: "frame s s' \<Longrightarrow> ipcs s' = ipcs (s :: isys)"
  by (rule ipcs_more) (rule frame_env(6))

text \<open>A wake-up followed by the rescheduling.\<close>

lemma kept_at_eq: "threads s' t = threads s t \<Longrightarrow> kept_at s s' t"
  by (simp add: kept_at_def kept_refl)

lemma calm_current: "calm s s' \<Longrightarrow> current_thread s' = current_thread s"
  by (simp add: calm_def)

lemma wake_schedule_more:
  assumes inv: "sys_inv s" and c: "current_thread s \<noteq> None" and q: "waiting_queue q" and w: "queues s q = w # ws"
  obtains s1 s' where "rt_ipc_list_resume q s = Inr s1" "rt_schedule s1 = Inr s'" "sys_inv s'" "quiet s s'"
    and "woken_with (th_error (the (threads s w))) s' w" "queues s' q = ws"
    and "\<And>q'. q' \<noteq> q \<Longrightarrow> \<forall>i. q' \<noteq> Ready i \<Longrightarrow> queues s' q' = queues s q'"
    and "\<And>t. t \<noteq> w \<Longrightarrow> kept_at s s' t" "ksys.more s' = ksys.more s" "Thread_timer w \<notin> set (timer_list s')"
    and "\<And>t. prio_of s' t = prio_of s t \<or> threads s t = None"
proof -
  obtain s1 th where s1: "rt_ipc_list_resume q s = Inr s1" "sys_inv s1" "calm s s1"
      "threads s w = Some th" "threads s1 = (threads s)(w := Some (resumed s w th))" "queues s1 q = ws"
      "\<And>q'. q' \<noteq> q \<Longrightarrow> \<forall>i. q' \<noteq> Ready i \<Longrightarrow> queues s1 q' = queues s q'"
      "timer_list s1 = remove1 (Thread_timer w) (timer_list s)"
    by (rule list_resume_ok [OF inv q w]) (rule that)
  have "current_thread s1 \<noteq> None" using c calm_current [OF s1(3)] by simp
  then obtain s' where s': "rt_schedule s1 = Inr s'" "sys_inv s'" "frame s1 s'" using schedule_inv [OF s1(2)] by blast
  note fe = frame_env [OF s'(3)]
  have "woken_with (th_error th) s1 w"
    using stat_of_resumed [of s w th] by (simp add: woken_with_def s1(5))
  then have wk: "woken_with (th_error (the (threads s w))) s' w"
    using woken_with_kept [OF _ kept_at_frame [OF s'(3)]] s1(4) by simp
  have k: "kept_at s s' t" if "t \<noteq> w" for t
    using kept_at_trans [OF kept_at_eq kept_at_frame [OF s'(3)]] that by (simp add: s1(5))
  have d: "distinct (timer_list s)" using inv by (simp add: sys_inv_def timer_inv_def)
  have pr: "prio_of s' t = prio_of s t \<or> threads s t = None" for t
  proof (cases "t = w")
    case True
    then show ?thesis
      using frameD [OF s'(3), of w "resumed s w th"] s1(4) by (auto simp: prio_of_def kept_def s1(5))
  next
    case False
    then show ?thesis using k [OF False] by (auto simp: prio_of_def kept_at_def kept_def)
  qed
  show thesis
    by (rule that [OF s1(1) s'(1,2) quiet_trans [OF calm_quiet [OF s1(3)] frame_quiet [OF s'(3)]] wk])
      (use s1(6,7,8) fe waiting_queueD(1) [OF q] k d pr frame_env(6) [OF s'(3)] s1(3) in \<open>auto simp: calm_def\<close>)
qed

lemma wake_schedule_ok:
  assumes inv: "sys_inv (s :: isys)" and c: "current_thread s \<noteq> None" and q: "waiting_queue q" and w: "queues s q = w # ws"
  obtains s1 s' where "rt_ipc_list_resume q s = Inr s1" "rt_schedule s1 = Inr s'" "sys_inv s'" "quiet s s'"
    and "woken_with (th_error (the (threads s w))) s' w" "queues s' q = ws"
    and "\<And>q'. q' \<noteq> q \<Longrightarrow> \<forall>i. q' \<noteq> Ready i \<Longrightarrow> queues s' q' = queues s q'"
    and "\<And>t. t \<noteq> w \<Longrightarrow> kept_at s s' t" "ipcs s' = ipcs s" "Thread_timer w \<notin> set (timer_list s')"
    and "\<And>t. prio_of s' t = prio_of s t \<or> threads s t = None"
  by (rule wake_schedule_more [OF assms]) (rule that, (assumption | erule ipcs_more | simp)+)

section \<open>Blocking\<close>

text \<open>What a blocking call leaves behind: \<open>s\<close> before, \<open>s'\<close> when the next thread runs.\<close>

definition parked :: "isys \<Rightarrow> queue \<Rightarrow> nat \<Rightarrow> u8 \<Rightarrow> int \<Rightarrow> isys \<Rightarrow> bool" where
  "parked s q c flag time s' \<longleftrightarrow> kinv s' \<and> rt_tick s' = rt_tick s \<and> ipcs s' = ipcs s \<and>
     queues s' q = enqueued s c flag (queues s q) \<and>
     (\<forall>q'. q' \<noteq> q \<longrightarrow> (\<forall>i. q' \<noteq> Ready i) \<longrightarrow> queues s' q' = queues s q') \<and>
     (\<exists>u. threads s' c = Some u \<and> stat_of u = RT_THREAD_SUSPEND \<and> th_error u = RT_EOK) \<and>
     (\<forall>t. t \<noteq> c \<longrightarrow> kept_at s s' t) \<and>
     set (timer_list s') \<subseteq> insert (Thread_timer c) (set (timer_list s)) \<and>
     (0 < time \<longrightarrow> asleep s' c \<and> remaining s' c = nat time)"

lemma park_ok:
  assumes k: "kinv s" and c: "current_thread s = Some c"
    and th: "threads s c = Some th" "th_object th" "stat_of th = RT_THREAD_RUNNING"
    and q: "waiting_queue q" and flag: "flag = 0 \<or> flag = 1" and w: "waits time"
    and u: "u = th\<lparr> th_error := 0, th_event_set := es, th_event_info := ei \<rparr>"
  obtains s1 s' where "block_on q c flag time (set_thread c u s) = Inr s1" "rt_schedule s1 = Inr s'"
    and "parked s q c flag time s'" "kept_at (set_thread c (with_stat 2 u) s) s' c"
proof -
  have inv: "sys_inv s" using k by (simp add: kinv_def)
  have ux: "stat_of u = stat_of th" "th_current_priority u = th_current_priority th"
    "th_number_mask u = th_number_mask th" "th_object u = th_object th" "th_init_priority u = th_init_priority th"
    by (simp_all add: u stat_of_def)
  let ?s0 = "set_thread c u s"
  note sd = set_data_ok [OF inv th(1) ux]
  have t0: "threads ?s0 c = Some u" "th_object u" "stat_of u = 3" using th ux by (simp_all add: set_thread_def)
  have ok0: "timers_ok (rt_tick ?s0) ?s0" using k sd(2) by (simp add: kinv_def calm_def)
  obtain s1 where s1: "block_on q c flag time ?s0 = Inr s1" "sys_inv s1" "timers_ok (rt_tick s1) s1"
      "threads s1 = (threads ?s0)(c := Some (with_stat RT_THREAD_SUSPEND u))"
      "queues s1 q = enqueued ?s0 c flag (queues ?s0 q)" "\<And>q'. q' \<noteq> q \<Longrightarrow> queues s1 q' = queues ?s0 q'"
      "ksys.more s1 = ksys.more ?s0" "rt_tick s1 = rt_tick ?s0" "current_thread s1 = current_thread ?s0"
      "set (timer_list s1) \<subseteq> insert (Thread_timer c) (set (timer_list ?s0))"
      "0 < time \<Longrightarrow> asleep s1 c \<and> remaining s1 c = nat time"
    by (rule block_on_ok [OF sd(1) ok0 t0 q flag w]) (rule that)
  have eq: "enqueued ?s0 c flag xs = enqueued s c flag xs" for xs
  proof -
    have "prio_in ?s0 = prio_in s" using th(1) ux(2) by (intro ext) (simp add: prio_in_def set_thread_def)
    then show ?thesis by (simp add: enqueued_def)
  qed
  have c1: "current_thread s1 \<noteq> None" using c s1(9) by (simp add: set_thread_def)
  then obtain s' where s': "rt_schedule s1 = Inr s'" "sys_inv s'" "frame s1 s'" using schedule_inv [OF s1(2)] by blast
  note fe = frame_env [OF s'(3)] and fa = frame_asleep [OF s'(3)]
  have sub: "set (timer_list s') \<subseteq> insert (Thread_timer c) (set (timer_list s))"
    using s1(10) by (simp add: fe set_thread_def)
  then have "thread_timers_only s'" using k by (auto simp: kinv_def thread_timers_only_def)
  then have k': "kinv s'" using s'(2) s1(3) fe(3,7) fa(3) by (simp add: kinv_def)
  have m1: "ipcs s1 = ipcs s" using ipcs_more [OF s1(7)] by (simp add: set_thread_def)
  have t1: "threads s1 c = Some (with_stat 2 u)" by (simp add: s1(4))
  have kc: "kept_at (set_thread c (with_stat 2 u) s) s' c"
    using frameD [OF s'(3) t1] by (simp add: kept_at_def set_thread_def)
  then have "\<exists>v. threads s' c = Some v \<and> stat_of v = 2 \<and> th_error v = 0"
    by (auto simp: kept_at_def set_thread_def kept_def stat_rules u)
  moreover have "kept_at s s' t" if "t \<noteq> c" for t
    using that kept_at_frame [OF s'(3), of t] by (simp add: kept_at_def s1(4) set_thread_def)
  moreover have "queues s' q' = queues s q'" if "q' \<noteq> q" "\<forall>i. q' \<noteq> Ready i" for q'
    using fe(8) [OF that(2)] s1(6) [OF that(1)] by (simp add: set_thread_def)
  moreover have "queues s' q = enqueued s c flag (queues s q)"
    using fe(8) [OF waiting_queueD(1) [OF q]] s1(5) eq by (simp add: set_thread_def)
  moreover have "rt_tick s' = rt_tick s" "ipcs s' = ipcs s"
    using fe(3) s1(8) frame_more [OF s'(3)] m1 by (simp_all add: set_thread_def)
  ultimately have "parked s q c flag time s'"
    using k' sub s1(11) fa(1,2) unfolding parked_def by simp
  then show thesis using that s1(1) s'(1) kc by blast
qed

text \<open>A parked thread whose time runs out.\<close>

lemma parked_timers:
  assumes "kinv s" "parked s q c flag time s'"
  shows "length (timer_list s') \<le> length (timer_list s) + 1"
proof -
  have "sys_inv s" "sys_inv s'" using assms by (simp_all add: kinv_def parked_def)
  note l = length_le_card_timers [OF this(1)] length_le_card_timers [OF this(2)]
  have "card (set (timer_list s')) \<le> card (insert (Thread_timer c) (set (timer_list s)))"
    using assms(2) by (intro card_mono) (auto simp: parked_def)
  also have "\<dots> \<le> card (set (timer_list s)) + 1" by (simp add: card_insert_if)
  finally show ?thesis by (simp add: l)
qed

lemma parked_expires:
  assumes p: "parked s q c flag time s0" and t: "0 < time" and n: "length (timer_list s0) < n"
  shows "\<And>k. k < nat time \<Longrightarrow> \<exists>sk. ticks n ut k s0 = Some (Inr sk) \<and> sys_inv sk \<and> asleep sk c"
    and "\<exists>sk. ticks n ut (nat time) s0 = Some (Inr sk) \<and> sys_inv sk \<and> woken_with (- RT_ETIMEOUT) sk c \<and>
      (\<forall>q'. waiting_queue q' \<longrightarrow> c \<notin> set (queues sk q'))"
proof -
  have k0: "kinv s0" and a: "asleep s0 c" "remaining s0 c = nat time"
    using p t by (simp_all add: parked_def)
  have k: "sys_inv s0" "timers_ok (rt_tick s0) s0" "current_thread s0 \<noteq> None" "thread_timers_only s0"
    using k0 by (simp_all add: kinv_def)
  have m: "max 1 (remaining s0 c) = nat time" using a t by auto
  have run: "\<exists>sk. ticks n ut k s0 = Some (Inr sk) \<and> sys_inv sk \<and>
      (k < nat time \<longrightarrow> asleep sk c) \<and> (k = nat time \<longrightarrow> woken sk c)" for k
    using ticks_ok [OF k n, of ut k c] a(1) unfolding m by (auto split: if_splits)
  show "\<exists>sk. ticks n ut k s0 = Some (Inr sk) \<and> sys_inv sk \<and> asleep sk c" if "k < nat time" for k
    using run [of k] that by blast
  obtain sk where sk: "ticks n ut (nat time) s0 = Some (Inr sk)" "sys_inv sk" "woken sk c"
    using run [of "nat time"] by blast
  have wk: "woken_with (- 2) sk c" using sk(3) by (simp add: woken_def woken_with_def)
  have "c \<notin> set (queues sk q')" if q': "waiting_queue q'" for q'
  proof
    assume "c \<in> set (queues sk q')"
    then obtain v where "threads sk c = Some v" "stat_of v = 2"
      by (rule waiter_suspended [OF sk(2) q']) (rule that)
    then show False using wk by (auto simp: woken_with_def)
  qed
  then show "\<exists>sk. ticks n ut (nat time) s0 = Some (Inr sk) \<and> sys_inv sk \<and> woken_with (- RT_ETIMEOUT) sk c \<and>
      (\<forall>q'. waiting_queue q' \<longrightarrow> c \<notin> set (queues sk q'))"
    using sk wk by blast
qed

lemma sem_take_parks:
  assumes k: "kinv s" and i: "interrupt_nest s = 0" and c: "current_thread s = Some c"
    and th: "threads s c = Some th" "th_object th" "stat_of th = RT_THREAD_RUNNING"
    and sem: "ipcs s ob = Some (Semaphore p 0)" and flag: "ip_flag p = 0 \<or> ip_flag p = 1" and w: "waits time"
  obtains s' where "rt_sem_take ob time s = Inr (s', Blocked)" "parked s (Waiting ob) c (ip_flag p) time s'"
proof -
  have u: "th\<lparr> th_error := 0 \<rparr> = th\<lparr> th_error := 0, th_event_set := th_event_set th, th_event_info := th_event_info th \<rparr>"
    by simp
  obtain s1 s' where r: "block_on (Waiting ob) c (ip_flag p) time (set_thread c (th\<lparr> th_error := 0 \<rparr>) s) = Inr s1"
      "rt_schedule s1 = Inr s'" "parked s (Waiting ob) c (ip_flag p) time s'"
    by (rule park_ok [OF k c th waiting_queue_simps(1) flag w u]) (rule that)
  have "time \<noteq> 0" using w by (auto simp: waits_def)
  then have "rt_sem_take ob time s = Inr (s', Blocked)"
    using sem c i th(1) r(1,2)
    by (simp add: rt_sem_take_def with_sem_def in_thread_def rt_thread_self_def with_self_def set_error_def with_thread_def)
  then show thesis using that r(3) by blast
qed

end
