(* ===== verification/IpcSync.thy ===== *)
theory IpcSync
  imports Ipc
begin

text \<open>
  What semaphores, mutexes and events promise: hand-over to the first waiter, waiting times, priority
  inheritance, the waiters an event set satisfies, and the end of an object's life.
\<close>

section \<open>The running thread\<close>

text \<open>The thread that makes a call: the current one, outside interrupts.\<close>

definition caller :: "isys \<Rightarrow> nat \<Rightarrow> bool" where
  "caller s c \<longleftrightarrow> interrupt_nest s = 0 \<and> current_thread s = Some c \<and>
     (\<exists>th. threads s c = Some th \<and> th_object th \<and> stat_of th = RT_THREAD_RUNNING)"

lemma callerE:
  assumes "caller s c"
  obtains th where "interrupt_nest s = 0" "current_thread s = Some c" "threads s c = Some th" "th_object th"
    "stat_of th = RT_THREAD_RUNNING"
  using assms by (auto simp: caller_def)

lemma woken_return:
  "woken_with e s t \<Longrightarrow> rt_sem_take_return t s = Inr (s, Returned e)"
  by (auto simp: woken_with_def rt_sem_take_return_def with_thread_def)

lemma kinv_step: "kinv s \<Longrightarrow> sys_inv s' \<Longrightarrow> quiet s s' \<Longrightarrow> kinv s'"
  by (rule kinv_quiet)

lemma kinv_ipc [simp]: "kinv (set_ipc ob x s) = kinv s" "kinv (drop_ipc ob s) = kinv s"
proof -
  have "timers_ok b (set_ipc ob x s) = timers_ok b s" "timers_ok b (drop_ipc ob s) = timers_ok b s" for b
    by (rule timers_ok_cong; simp)+
  then show "kinv (set_ipc ob x s) = kinv s" "kinv (drop_ipc ob s) = kinv s"
    by (simp_all add: kinv_def thread_timers_only_def)
qed

section \<open>Semaphores\<close>

text \<open>C22: Releasing a semaphore on which threads wait passes the token to the first of them: it becomes
  runnable with the error code it went to sleep with, leaves the list, and the value does not change; no
  other thread is affected but by rescheduling. With no waiter the value is incremented, at 16 bits.\<close>

theorem rt_sem_release_hands_over:
  "kinv s \<Longrightarrow> ipcs s ob = Some (Semaphore p v) \<Longrightarrow>
   \<exists>s'. rt_sem_release ob s = Inr (s', RT_EOK) \<and> kinv s' \<and>
     (case queues s (Waiting ob) of
        [] \<Rightarrow> s' = set_ipc ob (Semaphore p (word_of_nat ((unat v + 1) mod 2 ^ 16))) s
      | w # ws \<Rightarrow> runnable s' w \<and> rt_sem_take_return w s' = Inr (s', Returned (th_error (the (threads s w)))) \<and>
          queues s' (Waiting ob) = ws \<and> ipcs s' = ipcs s \<and> (\<forall>t. t \<noteq> w \<longrightarrow> kept_at s s' t))"
proof -
  assume k: "kinv s" and sem: "ipcs s ob = Some (Semaphore p v)"
  then have inv: "sys_inv s" and c: "current_thread s \<noteq> None" by (simp_all add: kinv_def)
  show ?thesis
  proof (cases "queues s (Waiting ob)")
    case Nil
    have "v + 1 = word_of_nat ((unat v + 1) mod 2 ^ 16)"
      by (rule word_unat_eq_iff [THEN iffD2]) (simp add: unat_word_ariths unat_of_nat)
    then show ?thesis using k sem Nil by (simp add: rt_sem_release_def with_sem_def)
  next
    case (Cons w ws)
    obtain s1 s' where s': "rt_ipc_list_resume (Waiting ob) s = Inr s1" "rt_schedule s1 = Inr s'" "sys_inv s'" "quiet s s'"
        "woken_with (th_error (the (threads s w))) s' w" "queues s' (Waiting ob) = ws"
        "\<And>t. t \<noteq> w \<Longrightarrow> kept_at s s' t" "ipcs s' = ipcs s"
      by (rule wake_schedule_ok [OF inv c waiting_queue_simps(1) Cons]) (rule that)
    have "rt_sem_release ob s = Inr (s', 0)" using sem Cons s'(1,2) by (simp add: rt_sem_release_def with_sem_def)
    then show ?thesis
      using kinv_quiet [OF k s'(3,4)] woken_return [OF s'(5)] woken_with_runnable [OF s'(5)] s'(6-8) Cons by simp
  qed
qed

text \<open>Taking a semaphore with value zero blocks the caller at its place in the waiting list for
  exactly the given number of ticks: before that it is asleep, then it is runnable, in no waiting list,
  and the call returns a timeout.\<close>

theorem rt_sem_take_times_out:
  "kinv s \<Longrightarrow> caller s c \<Longrightarrow> ipcs s ob = Some (Semaphore p 0) \<Longrightarrow> ip_flag p = 0 \<or> ip_flag p = 1 \<Longrightarrow>
   waits time \<Longrightarrow> 0 < time \<Longrightarrow> length (timer_list s) + 1 < n \<Longrightarrow>
   \<exists>s0. rt_sem_take ob time s = Inr (s0, Blocked) \<and> kinv s0 \<and>
     queues s0 (Waiting ob) = enqueued s c (ip_flag p) (queues s (Waiting ob)) \<and>
     (\<forall>k < nat time. \<exists>sk. ticks n ut k s0 = Some (Inr sk) \<and> asleep sk c) \<and>
     (\<exists>sk. ticks n ut (nat time) s0 = Some (Inr sk) \<and> sys_inv sk \<and> runnable sk c \<and>
        (\<forall>q. waiting_queue q \<longrightarrow> c \<notin> set (queues sk q)) \<and>
        rt_sem_take_return c sk = Inr (sk, Returned (- RT_ETIMEOUT)))"
proof -
  assume k: "kinv s" and c: "caller s c" and sem: "ipcs s ob = Some (Semaphore p 0)"
    and flag: "ip_flag p = 0 \<or> ip_flag p = 1" and w: "waits time" and t: "0 < time"
    and n: "length (timer_list s) + 1 < n"
  obtain th where th: "interrupt_nest s = 0" "current_thread s = Some c" "threads s c = Some th" "th_object th"
    "stat_of th = 3" by (rule callerE [OF c])
  obtain s0 where s0: "rt_sem_take ob time s = Inr (s0, Blocked)" "parked s (Waiting ob) c (ip_flag p) time s0"
    by (rule sem_take_parks [OF k th sem flag w]) (rule that)
  have ln: "length (timer_list s0) < n" using parked_timers [OF k s0(2)] n by simp
  note e = parked_expires [OF s0(2) t ln]
  have p0: "kinv s0" "queues s0 (Waiting ob) = enqueued s c (ip_flag p) (queues s (Waiting ob))"
    using s0(2) by (simp_all add: parked_def)
  have a: "\<exists>sk. ticks n ut j s0 = Some (Inr sk) \<and> asleep sk c" if "j < nat time" for j
    using e(1) [OF that] by blast
  obtain sk where sk: "ticks n ut (nat time) s0 = Some (Inr sk)" "sys_inv sk" "woken_with (- 2) sk c"
      "\<forall>q'. waiting_queue q' \<longrightarrow> c \<notin> set (queues sk q')"
    using e(2) by blast
  have b: "\<exists>sk. ticks n ut (nat time) s0 = Some (Inr sk) \<and> sys_inv sk \<and> runnable sk c \<and>
      (\<forall>q. waiting_queue q \<longrightarrow> c \<notin> set (queues sk q)) \<and> rt_sem_take_return c sk = Inr (sk, Returned (- 2))"
    using sk(1,2,4) woken_with_runnable [OF sk(3)] woken_return [OF sk(3)] by blast
  show ?thesis using s0(1) p0 a b by blast
qed

text \<open>C39: Detaching a semaphore returns: every waiter becomes runnable and its call returns an error, no
  other thread changes, the list is empty and the object is gone.\<close>

theorem rt_sem_detach_wakes_all:
  "kinv s \<Longrightarrow> ipcs s ob = Some (Semaphore p v) \<Longrightarrow> ip_static p \<Longrightarrow>
   \<exists>s'. rt_sem_detach ob s = Some (Inr (s', RT_EOK)) \<and> kinv s' \<and> ipcs s' = (ipcs s)(ob := None) \<and>
     queues s' (Waiting ob) = [] \<and>
     (\<forall>t \<in> set (queues s (Waiting ob)). runnable s' t \<and> rt_sem_take_return t s' = Inr (s', Returned (- RT_ERROR))) \<and>
     (\<forall>t. t \<notin> set (queues s (Waiting ob)) \<longrightarrow> threads s' t = threads s t)"
proof -
  assume k: "kinv s" and sem: "ipcs s ob = Some (Semaphore p v)" "ip_static p"
  have inv: "sys_inv s" using k by (simp add: kinv_def)
  obtain s1 where s1: "rt_ipc_list_resume_all (Waiting ob) s = Some (Inr s1)" "sys_inv s1" "calm s s1"
      "queues s1 (Waiting ob) = []" "\<forall>t \<in> set (queues s (Waiting ob)). woken_with (- 1) s1 t"
      "\<forall>t. t \<notin> set (queues s (Waiting ob)) \<longrightarrow> threads s1 t = threads s t"
    using resume_all_ok [OF inv waiting_queue_simps(1), of ob] by blast
  define s' where "s' = drop_ipc ob s1"
  have run: "rt_sem_detach ob s = Some (Inr (s', 0))"
    using sem s1(1) by (simp add: rt_sem_detach_def with_sem_def orbind_def s'_def)
  have k': "kinv s'" using kinv_quiet [OF k s1(2) calm_quiet [OF s1(3)]] by (simp add: s'_def)
  have "woken_with (- 1) s' t" if "t \<in> set (queues s (Waiting ob))" for t
    using s1(5) that by (simp add: woken_with_def s'_def)
  then have "runnable s' t \<and> rt_sem_take_return t s' = Inr (s', Returned (- 1))"
    if "t \<in> set (queues s (Waiting ob))" for t
    using that woken_with_runnable woken_return by blast
  then show ?thesis using run k' s1(4,6) calm_more [OF s1(3)] by (simp add: s'_def)
qed

section \<open>Mutexes\<close>

lemma prio_insert_cong: "(\<And>x. x \<in> set xs \<Longrightarrow> f x = g x) \<Longrightarrow> prio_insert f p t xs = prio_insert g p t xs"
  by (induction xs) auto

lemma enqueued_cong:
  assumes "\<And>x. x \<in> insert t (set xs) \<Longrightarrow> prio_in s' x = prio_in s x"
  shows "enqueued s' t flag xs = enqueued s t flag xs"
  using assms prio_insert_cong [of xs "prio_in s'" "prio_in s"] by (auto simp: enqueued_def)

lemma caller_prio:
  assumes "sys_inv s" "threads s c = Some th" "stat_of th = RT_THREAD_RUNNING"
  shows "unat (th_current_priority th) < 32"
  using started_prio_ok [of "{}" s c th] assms by (auto simp: sys_inv_def prio_ok_def)

text \<open>The priority changes of a mutex, made or not.\<close>

lemma adjust_ok:
  assumes k: "kinv s" and ow: "threads s w = Some ow" "th_object ow" and p: "unat p < 32"
  obtains s' u where "(if b then rbind (rt_thread_control w (Change_priority p) s) (\<lambda>(s, _). Inr s) else Inr s) = Inr s'"
    and "kinv s'" "calm s s'" "threads s' = (threads s)(w := Some u)"
    and "th_current_priority u = (if b then p else th_current_priority ow)" "stat_of u = stat_of ow"
    and "\<And>q. (\<forall>i. q \<noteq> Ready i) \<Longrightarrow> queues s' q = queues s q"
proof (cases b)
  case True
  have inv: "sys_inv s" using k by (simp add: kinv_def)
  obtain s' u where s': "rt_thread_control w (Change_priority p) s = Inr (s', 0)" "sys_inv s'"
      "threads s' = (threads s)(w := Some u)" "th_current_priority u = p" "stat_of u = stat_of ow"
      "\<And>q. (\<forall>i. q \<noteq> Ready i) \<Longrightarrow> queues s' q = queues s q" "calm s s'" "timer_list s' = timer_list s"
    by (rule change_priority_ok [OF inv ow p]) (rule that)
  have "kinv s'" by (rule kinv_quiet [OF k s'(2) calm_quiet [OF s'(7)]])
  then show thesis by (intro that [of s' u]) (use s' True in simp_all)
next
  case False
  have "calm s s" by (simp add: calm_def)
  then show thesis by (intro that [of s ow]) (use k ow False in \<open>simp_all add: fun_upd_idem\<close>)
qed

lemma mutex_again_held:
  assumes "ipcs s ob = Some (Mutex p m)" "mx_value m = 0" "time \<noteq> 0" "mx_owner m = Some w"
    "threads s c = Some th" "threads s w = Some ow"
  shows "mutex_again ob time c s =
    rbind (if th_current_priority th < th_current_priority ow
           then rbind (rt_thread_control w (Change_priority (th_current_priority th)) s) (\<lambda>(s, _). Inr s) else Inr s)
      (\<lambda>s. rbind (block_on (Waiting ob) c (ip_flag p) time s) (\<lambda>s. rbind (rt_schedule s) (\<lambda>s. Inr (s, Blocked))))"
  using assms by (simp add: mutex_again_def with_mutex_def with_thread_def)

text \<open>C13: Taking a mutex that another thread holds lends the caller's priority to the owner where that is
  higher (a smaller number), then blocks the caller at its place in the waiting list; the mutex itself does
  not change, and the kernel invariant holds.\<close>

theorem rt_mutex_take_lends_priority:
  "kinv s \<Longrightarrow> caller s c \<Longrightarrow> ipcs s ob = Some (Mutex p m) \<Longrightarrow> mx_value m = 0 \<Longrightarrow> mx_owner m = Some w \<Longrightarrow>
   w \<noteq> c \<Longrightarrow> threads s w = Some ow \<Longrightarrow> th_object ow \<Longrightarrow> w \<notin> set (queues s (Waiting ob)) \<Longrightarrow>
   ip_flag p = 0 \<or> ip_flag p = 1 \<Longrightarrow> waits time \<Longrightarrow>
   \<exists>s'. rt_mutex_take ob time s = Inr (s', Blocked) \<and> kinv s' \<and> ipcs s' = ipcs s \<and>
     prio_of s' w = min (prio_of s w) (prio_of s c) \<and> (runnable s' w \<longleftrightarrow> runnable s w) \<and> \<not> runnable s' c \<and>
     queues s' (Waiting ob) = enqueued s c (ip_flag p) (queues s (Waiting ob)) \<and>
     (0 < time \<longrightarrow> asleep s' c \<and> remaining s' c = nat time)"
proof -
  assume k: "kinv s" and c: "caller s c" and m: "ipcs s ob = Some (Mutex p m)" "mx_value m = 0" "mx_owner m = Some w"
    and w: "w \<noteq> c" "threads s w = Some ow" "th_object ow" "w \<notin> set (queues s (Waiting ob))"
    and flag: "ip_flag p = 0 \<or> ip_flag p = 1" and t: "waits time"
  obtain th where th: "interrupt_nest s = 0" "current_thread s = Some c" "threads s c = Some th" "th_object th"
    "stat_of th = 3" by (rule callerE [OF c])
  have inv: "sys_inv s" using k by (simp add: kinv_def)
  define u where "u = th\<lparr> th_error := 0 \<rparr>"
  have u: "stat_of u = 3" "th_object u" "th_current_priority u = th_current_priority th"
    using th by (simp_all add: u_def stat_of_def)
  define s0 where "s0 = set_thread c u s"
  have d0: "sys_inv s0" "calm s s0" unfolding s0_def
    by (rule set_data_ok [OF inv th(3)]; simp add: u_def stat_of_def)+
  have k0: "kinv s0" by (rule kinv_quiet [OF k d0(1) calm_quiet [OF d0(2)]])
  have w0: "threads s0 w = Some ow" "threads s0 c = Some u" using w by (simp_all add: s0_def set_thread_def)
  have pc: "unat (th_current_priority th) < 32" by (rule caller_prio [OF inv th(3,5)])
  obtain s1 v where s1: "(if th_current_priority th < th_current_priority ow
      then rbind (rt_thread_control w (Change_priority (th_current_priority th)) s0) (\<lambda>(s, _). Inr s) else Inr s0) = Inr s1"
      "kinv s1" "calm s0 s1" "threads s1 = (threads s0)(w := Some v)"
      "th_current_priority v = (if th_current_priority th < th_current_priority ow then th_current_priority th else th_current_priority ow)"
      "stat_of v = stat_of ow" "\<And>q. (\<forall>i. q \<noteq> Ready i) \<Longrightarrow> queues s1 q = queues s0 q"
    by (rule adjust_ok [OF k0 w0(1) w(3) pc]) (rule that)
  have c1: "current_thread s1 = Some c" "threads s1 c = Some u"
    using th(2) w0(2) w(1) calm_current [OF d0(2)] calm_current [OF s1(3)] by (simp_all add: s1(4))
  have same: "set_thread c u s1 = s1" by (rule set_thread_same [OF c1(2)])
  have ue: "u = u\<lparr> th_error := 0, th_event_set := th_event_set u, th_event_info := th_event_info u \<rparr>"
    by (simp add: u_def)
  obtain s2 s' where s': "block_on (Waiting ob) c (ip_flag p) time s1 = Inr s2" "rt_schedule s2 = Inr s'"
      "parked s1 (Waiting ob) c (ip_flag p) time s'"
    by (rule park_ok [OF s1(2) c1 u(2,1) waiting_queue_simps(1) flag t ue, unfolded same]) (rule that)
  have t0: "time \<noteq> 0" using t by (auto simp: waits_def)
  have m0: "ipcs s0 = ipcs s" by (rule calm_more [OF d0(2)])
  have m1: "ipcs s0 ob = Some (Mutex p m)" using m(1) m0 by simp
  have "set_error c 0 s = Inr s0" using th(3) by (simp add: set_error_def with_thread_def s0_def u_def)
  moreover have "mutex_again ob time c s0 = Inr (s', Blocked)"
    using mutex_again_held [OF m1 m(2) t0 m(3) w0(2,1), unfolded u(3) s1(1)] s'(1,2) by simp
  ultimately have run: "rt_mutex_take ob time s = Inr (s', Blocked)"
    using m w(1) th by (simp add: rt_mutex_take_def in_thread_def rt_thread_self_def with_self_def with_mutex_def)
  have q1: "queues s1 (Waiting ob) = queues s (Waiting ob)" using s1(7) by (simp add: s0_def set_thread_def)
  have "enqueued s1 c (ip_flag p) (queues s (Waiting ob)) = enqueued s c (ip_flag p) (queues s (Waiting ob))"
    by (rule enqueued_cong) (use w(1,4) th(3) u(3) in \<open>auto simp: prio_in_def s1(4) s0_def set_thread_def\<close>)
  then have q': "queues s' (Waiting ob) = enqueued s c (ip_flag p) (queues s (Waiting ob))"
    using s'(3) q1 by (simp add: parked_def)
  have kw: "kept_at s1 s' w" using s'(3) w(1) by (simp add: parked_def)
  have v1: "threads s1 w = Some v" by (simp add: s1(4))
  obtain v' where v': "threads s' w = Some v'" "kept v v'" using kw v1 by (auto simp: kept_at_def)
  have pw: "prio_of s' w = min (prio_of s w) (prio_of s c)"
    using v' w(2) th(3) s1(5) by (auto simp: prio_of_def kept_def min_def word_less_nat_alt)
  have rw: "runnable s' w \<longleftrightarrow> runnable s w" using v' w(2) s1(6) by (auto simp: runnable_def kept_def)
  have nc: "\<not> runnable s' c" using s'(3) by (auto simp: parked_def runnable_def)
  show ?thesis
    using run s'(3) calm_more [OF s1(3)] m0 q' pw rw nc unfolding parked_def by (intro exI [of _ s']) simp
qed

lemma mutex_release_last:
  assumes "ipcs s ob = Some (Mutex p m)" "mx_owner m = Some c" "in_thread s" "rt_thread_self s = Some c"
    "threads s c = Some th" "m0 = m\<lparr> mx_hold := mx_hold m - 1 \<rparr>" "mx_hold m0 = 0"
  shows "rt_mutex_release ob s =
    rbind (if mx_original_priority m \<noteq> th_current_priority th
           then rbind (rt_thread_control c (Change_priority (mx_original_priority m)) s) (\<lambda>(s, _). Inr s) else Inr s)
      (\<lambda>s. case queues s (Waiting ob) of
         w # _ \<Rightarrow> with_thread w s (\<lambda>wth.
           let s = set_ipc ob (Mutex p (m0\<lparr> mx_owner := Some w, mx_original_priority := th_current_priority wth,
                     mx_hold := mx_hold m0 + 1 \<rparr>)) s in
           rbind (rt_ipc_list_resume (Waiting ob) s) (\<lambda>s. rbind (rt_schedule s) (\<lambda>s. Inr (s, RT_EOK))))
       | [] \<Rightarrow> Inr (set_ipc ob (Mutex p (m0\<lparr> mx_value := mx_value m0 + 1, mx_owner := None,
                 mx_original_priority := 0xFF \<rparr>)) s, RT_EOK))"
proof -
  have o: "mx_original_priority m0 = mx_original_priority m" by (simp add: assms(6))
  show ?thesis
    unfolding rt_mutex_release_def with_mutex_def with_self_def assms(1,4) option.case ipc_object.case Let_def
    unfolding assms(2) assms(6) [symmetric] o
    using assms(3,7) by (simp add: with_thread_def [of c] assms(5))
qed

text \<open>The owner with its original priority back: what the last release finds.\<close>

definition restored :: "isys \<Rightarrow> nat \<Rightarrow> mutex \<Rightarrow> isys \<Rightarrow> bool" where
  "restored s c m s1 \<longleftrightarrow> kinv s1 \<and> ipcs s1 = ipcs s \<and> prio_of s1 c = unat (mx_original_priority m) \<and> threads s1 c \<noteq> None \<and>
     (\<forall>t. t \<noteq> c \<longrightarrow> threads s1 t = threads s t) \<and> (\<forall>q. (\<forall>i. q \<noteq> Ready i) \<longrightarrow> queues s1 q = queues s q)"

lemma restore_ok:
  assumes k: "kinv s" and th: "threads s c = Some th" "th_object th" and pr: "unat (mx_original_priority m) < 32"
  obtains s1 where "(if mx_original_priority m \<noteq> th_current_priority th
      then rbind (rt_thread_control c (Change_priority (mx_original_priority m)) s) (\<lambda>(s, _). Inr s) else Inr s) = Inr s1"
    and "restored s c m s1"
proof -
  obtain s1 u where s1: "(if mx_original_priority m \<noteq> th_current_priority th
      then rbind (rt_thread_control c (Change_priority (mx_original_priority m)) s) (\<lambda>(s, _). Inr s) else Inr s) = Inr s1"
      "kinv s1" "calm s s1" "threads s1 = (threads s)(c := Some u)"
      "th_current_priority u = (if mx_original_priority m \<noteq> th_current_priority th then mx_original_priority m
         else th_current_priority th)" "\<And>q. (\<forall>i. q \<noteq> Ready i) \<Longrightarrow> queues s1 q = queues s q"
    by (rule adjust_ok [OF k th pr]) (rule that)
  have "th_current_priority u = mx_original_priority m" using s1(5) by (simp split: if_splits)
  then have "restored s c m s1"
    using s1(2,4,6) calm_more [OF s1(3)] by (simp add: restored_def prio_of_def)
  with s1(1) show thesis by (rule that)
qed

lemma release_free:
  assumes "restored s c m s1"
  shows "kinv (set_ipc ob (Mutex p x) s1)" "prio_of (set_ipc ob (Mutex p x) s1) c = unat (mx_original_priority m)"
    "ipcs (set_ipc ob (Mutex p x) s1) = (ipcs s)(ob \<mapsto> Mutex p x)"
  using assms by (simp_all add: restored_def prio_of_def)

lemma release_passes:
  assumes s1: "restored s c m s1" and w: "threads s w = Some wth" "w \<noteq> c" and q: "queues s (Waiting ob) = w # ws"
  obtains s2 s' where "rt_ipc_list_resume (Waiting ob) (set_ipc ob (Mutex p m1) s1) = Inr s2" "rt_schedule s2 = Inr s'"
    and "kinv s'" "prio_of s' c = unat (mx_original_priority m)" "runnable s' w" "queues s' (Waiting ob) = ws"
    and "ipcs s' = (ipcs s)(ob \<mapsto> Mutex p m1)" "woken_with (th_error wth) s' w"
proof -
  let ?s1 = "set_ipc ob (Mutex p m1) s1"
  have k: "kinv ?s1" using s1 by (simp add: restored_def)
  then have inv: "sys_inv ?s1" and c: "current_thread ?s1 \<noteq> None" unfolding kinv_def by blast+
  have q1: "queues ?s1 (Waiting ob) = w # ws" and w1: "threads ?s1 w = Some wth"
    using s1 w q by (simp_all add: restored_def)
  obtain s2 s' where s': "rt_ipc_list_resume (Waiting ob) ?s1 = Inr s2" "rt_schedule s2 = Inr s'" "sys_inv s'"
      "quiet ?s1 s'" "woken_with (th_error (the (threads ?s1 w))) s' w" "queues s' (Waiting ob) = ws"
      "ipcs s' = ipcs ?s1" "\<And>t. prio_of s' t = prio_of ?s1 t \<or> threads ?s1 t = None"
    by (rule wake_schedule_ok [OF inv c waiting_queue_simps(1) q1]) (rule that)
  have wk: "woken_with (th_error wth) s' w" using s'(5) w1 by simp
  have "prio_of s' c = unat (mx_original_priority m)" "ipcs s' = (ipcs s)(ob \<mapsto> Mutex p m1)"
    using s1 s'(7) s'(8) [of c] by (auto simp: restored_def prio_of_def)
  then show thesis
    using that s'(1,2,6) kinv_quiet [OF k s'(3,4)] woken_with_runnable [OF wk] wk by blast
qed

text \<open>C14: When the owner releases a mutex it holds more than once, only the hold count falls. The last
  release gives the owner its original priority back and passes the mutex to the first waiter, which
  becomes runnable as its only holder and whose call succeeds; without a waiter the mutex is free.\<close>

theorem rt_mutex_release_hands_over:
  "kinv s \<Longrightarrow> caller s c \<Longrightarrow> ipcs s ob = Some (Mutex p m) \<Longrightarrow> mx_owner m = Some c \<Longrightarrow>
   unat (mx_original_priority m) < 32 \<Longrightarrow>
   \<exists>s'. rt_mutex_release ob s = Inr (s', RT_EOK) \<and> kinv s' \<and>
     (if mx_hold m \<noteq> 1 then s' = set_ipc ob (Mutex p (m\<lparr> mx_hold := mx_hold m - 1 \<rparr>)) s
      else prio_of s' c = unat (mx_original_priority m) \<and>
        (case queues s (Waiting ob) of
           [] \<Rightarrow> ipcs s' = (ipcs s)(ob \<mapsto> Mutex p \<lparr> mx_value = mx_value m + 1, mx_original_priority = 0xFF,
                  mx_hold = 0, mx_owner = None \<rparr>)
         | w # ws \<Rightarrow> runnable s' w \<and> queues s' (Waiting ob) = ws \<and>
             ipcs s' = (ipcs s)(ob \<mapsto> Mutex p \<lparr> mx_value = mx_value m,
               mx_original_priority = th_current_priority (the (threads s w)), mx_hold = 1, mx_owner = Some w \<rparr>) \<and>
             (th_error (the (threads s w)) = RT_EOK \<longrightarrow>
                rt_mutex_take_return ob time w s' = Inr (s', Returned RT_EOK))))"
proof -
  assume k: "kinv s" and c: "caller s c" and m: "ipcs s ob = Some (Mutex p m)" "mx_owner m = Some c"
    and pr: "unat (mx_original_priority m) < 32"
  obtain th where th: "interrupt_nest s = 0" "current_thread s = Some c" "threads s c = Some th" "th_object th"
    "stat_of th = 3" by (rule callerE [OF c])
  have ctx: "in_thread s" "rt_thread_self s = Some c" using th by (simp_all add: in_thread_def rt_thread_self_def)
  show ?thesis
  proof (cases "mx_hold m = 1")
    case False
    then have "mx_hold m - 1 \<noteq> 0" by simp
    then show ?thesis
      using False k m ctx by (simp add: rt_mutex_release_def with_mutex_def with_self_def Let_def)
  next
    case True
    obtain s1 where s1: "(if mx_original_priority m \<noteq> th_current_priority th
        then rbind (rt_thread_control c (Change_priority (mx_original_priority m)) s) (\<lambda>(s, _). Inr s) else Inr s) = Inr s1"
        "restored s c m s1"
      by (rule restore_ok [OF k th(3,4) pr]) (rule that)
    define m0 where "m0 = m\<lparr> mx_hold := mx_hold m - 1 \<rparr>"
    have m0: "mx_hold m0 = 0" using True by (simp add: m0_def)
    note run = mutex_release_last [OF m ctx th(3) m0_def m0, unfolded s1(1)]
    have q1: "queues s1 (Waiting ob) = queues s (Waiting ob)" using s1(2) by (simp add: restored_def)
    show ?thesis
    proof (cases "queues s (Waiting ob)")
      case Nil
      have "m0\<lparr> mx_value := mx_value m0 + 1, mx_owner := None, mx_original_priority := 0xFF \<rparr> =
          \<lparr> mx_value = mx_value m + 1, mx_original_priority = 0xFF, mx_hold = 0, mx_owner = None \<rparr>"
        using m0 by (simp add: m0_def)
      then show ?thesis using release_free [OF s1(2), of ob p] True Nil q1 by (simp add: run)
    next
      case (Cons w ws)
      obtain wth where wth: "threads s w = Some wth" "stat_of wth = 2"
        by (rule waiter_suspended [OF _ waiting_queue_simps(1), of s w ob]) (use k Cons that in \<open>auto simp: kinv_def\<close>)
      have wc: "w \<noteq> c" using wth th(3,5) by auto
      define m1 where "m1 = \<lparr> mx_value = mx_value m, mx_original_priority = th_current_priority wth, mx_hold = 1, mx_owner = Some w \<rparr>"
      obtain s2 s' where s': "rt_ipc_list_resume (Waiting ob) (set_ipc ob (Mutex p m1) s1) = Inr s2" "rt_schedule s2 = Inr s'"
          "kinv s'" "prio_of s' c = unat (mx_original_priority m)" "runnable s' w" "queues s' (Waiting ob) = ws"
          "ipcs s' = (ipcs s)(ob \<mapsto> Mutex p m1)" "woken_with (th_error wth) s' w"
        by (rule release_passes [OF s1(2) wth(1) wc Cons]) (rule that)
      have w1: "threads s1 w = Some wth" using s1(2) wth(1) wc by (simp add: restored_def)
      have "m0\<lparr> mx_owner := Some w, mx_original_priority := th_current_priority wth, mx_hold := mx_hold m0 + 1 \<rparr> = m1"
        using m0 by (simp add: m1_def m0_def)
      then have "rt_mutex_release ob s = Inr (s', 0)"
        using Cons q1 w1 s'(1,2) by (simp add: run with_thread_def Let_def)
      moreover have "th_error wth = 0 \<longrightarrow> rt_mutex_take_return ob time w s' = Inr (s', Returned 0)"
        using s'(8) by (auto simp: woken_with_def rt_mutex_take_return_def with_thread_def)
      ultimately show ?thesis using True Cons s'(3-7) wth(1) by (simp add: m1_def)
    qed
  qed
qed

section \<open>Events\<close>

text \<open>What a waiter asks for, over sets of events: all of the events it names when bit 0 of its option is set, one of them
  when bit 1 is; it is given those it asked for, and with bit 2 they are taken out of the set for those behind it.
  \<open>event_serve\<close> goes through the waiters in their order; its results are who is served with which events, and the events that remain.\<close>

definition events :: "u32 \<Rightarrow> nat set" where
  "events e = set (filter (bit e) [0..<32])"

definition event_satisfies :: "nat set \<Rightarrow> nat set \<Rightarrow> u8 \<Rightarrow> bool" where
  "event_satisfies E W info \<longleftrightarrow> (if bit info 0 then W \<subseteq> E else bit info 1 \<and> W \<inter> E \<noteq> {})"

fun event_serve :: "nat set \<Rightarrow> (nat \<times> u32 \<times> u8) list \<Rightarrow> (nat \<times> nat set) list \<times> nat set" where
  "event_serve E [] = ([], E)"
| "event_serve E ((t, wanted, info) # ws) =
     (if event_satisfies E (events wanted) info
      then let (served, E') = event_serve (if bit info 2 then E - events wanted else E) ws
           in ((t, events wanted \<inter> E) # served, E')
      else event_serve E ws)"

text \<open>The same walk on words, as the code has it.\<close>

fun event_walk :: "u32 \<Rightarrow> (nat \<times> u32 \<times> u8) list \<Rightarrow> (nat \<times> u32) list \<times> u32" where
  "event_walk e [] = ([], e)"
| "event_walk e ((t, wanted, info) # ws) = (case event_match info wanted e of
     None \<Rightarrow> event_walk e ws
   | Some got \<Rightarrow> let (served, e') = event_walk (if info AND RT_EVENT_FLAG_CLEAR \<noteq> 0 then e AND NOT got else e) ws
               in ((t, got) # served, e'))"

lemma in_events [simp]: "i \<in> events e \<longleftrightarrow> bit e i"
  using bit_imp_le_length [of e i] by (auto simp: events_def)

lemma events_ops: "events (x AND y) = events x \<inter> events y" "events (x OR y) = events x \<union> events y"
    "events (x AND NOT y) = events x - events y"
proof -
  have l: "bit (x :: u32) i \<Longrightarrow> i < 32" for x i using bit_imp_le_length [of x i] by simp
  show "events (x AND y) = events x \<inter> events y" "events (x OR y) = events x \<union> events y"
    "events (x AND NOT y) = events x - events y"
    using l by (auto simp: bit_simps)
qed

lemma events_eq_iff: "events x = events y \<longleftrightarrow> x = y"
  by (auto simp: set_eq_iff intro: bit_word_eqI)

lemma events_empty_iff: "events x = {} \<longleftrightarrow> x = 0"
  using events_eq_iff [of x 0] by (simp add: events_def)

lemma flag_bits: "(x :: u8) AND 1 \<noteq> 0 \<longleftrightarrow> bit x 0" "x AND 2 \<noteq> 0 \<longleftrightarrow> bit x 1" "x AND 4 \<noteq> 0 \<longleftrightarrow> bit x 2"
  using and_exp_eq_0_iff_not_bit [of x 0] and_exp_eq_0_iff_not_bit [of x 1] and_exp_eq_0_iff_not_bit [of x 2] by simp_all

lemma event_match_satisfies:
  "event_match info wanted e = (if event_satisfies (events e) (events wanted) info then Some (wanted AND e) else None)"
proof -
  have "wanted AND e = wanted \<longleftrightarrow> events wanted \<subseteq> events e"
    unfolding events_eq_iff [of "wanted AND e", symmetric] events_ops by blast
  moreover have "wanted AND e \<noteq> 0 \<longleftrightarrow> events wanted \<inter> events e \<noteq> {}"
    unfolding events_empty_iff [symmetric] events_ops by blast
  ultimately show ?thesis
    unfolding event_match_def event_satisfies_def flag_bits by (cases "bit info 0"; cases "bit info 1") auto
qed

text \<open>The words and the sets agree.\<close>

lemma event_walk_sets:
  "event_serve (events e) ws = (map (\<lambda>(t, got). (t, events got)) (fst (event_walk e ws)), events (snd (event_walk e ws)))"
proof (induction e ws rule: event_walk.induct)
  case (2 e t wanted info ws)
  show ?case
  proof (cases "event_satisfies (events e) (events wanted) info")
    case False
    then show ?thesis using 2(1) by (simp add: event_match_satisfies)
  next
    case True
    then have m: "event_match info wanted e = Some (wanted AND e)" by (simp add: event_match_satisfies)
    define e1 where "e1 = (if info AND RT_EVENT_FLAG_CLEAR \<noteq> 0 then e AND NOT (wanted AND e) else e)"
    have e1: "events e1 = (if bit info 2 then events e - events wanted else events e)"
      unfolding e1_def flag_bits using events_ops(3) [of e "wanted AND e"] by (auto simp: events_ops(1))
    obtain sv l where w: "event_walk e1 ws = (sv, l)" by (cases "event_walk e1 ws")
    have IH: "event_serve (events e1) ws = (map (\<lambda>(t, got). (t, events got)) sv, events l)"
      using 2(2) [OF m] by (simp add: e1_def [symmetric] w)
    have "event_walk e ((t, wanted, info) # ws) = ((t, wanted AND e) # sv, l)" by (simp add: m e1_def [symmetric] w)
    moreover have "event_serve (events e) ((t, wanted, info) # ws) =
        ((t, events wanted \<inter> events e) # map (\<lambda>(t, got). (t, events got)) sv, events l)"
      using True IH by (simp add: e1 [symmetric])
    ultimately show ?thesis by (simp add: events_ops)
  qed
qed simp

definition waiters :: "isys \<Rightarrow> nat list \<Rightarrow> (nat \<times> u32 \<times> u8) list" where
  "waiters s ts = map (\<lambda>t. (t, th_event_set (the (threads s t)), th_event_info (the (threads s t)))) ts"

lemma served_subset: "fst ` set (fst (event_walk e ws)) \<subseteq> fst ` set ws"
proof (induction e ws rule: event_walk.induct)
  case (2 e t wanted info ws)
  show ?case
  proof (cases "event_match info wanted e")
    case None
    then show ?thesis using 2(1) by auto
  next
    case (Some got)
    define es where "es = event_walk (if info AND RT_EVENT_FLAG_CLEAR \<noteq> 0 then e AND NOT got else e) ws"
    have "event_walk e ((t, wanted, info) # ws) = ((t, got) # fst es, snd es)"
      by (simp add: Some es_def [symmetric] split: prod.split)
    then show ?thesis using 2(2) [OF Some] by (auto simp: es_def [symmetric])
  qed
qed simp

lemma served_waiters: "t \<in> fst ` set (fst (event_walk e (waiters s ts))) \<Longrightarrow> t \<in> set ts"
  using served_subset [of e "waiters s ts"] by (force simp: waiters_def)

text \<open>Without the clear flag the event set stays, and the waiters are judged one by one.\<close>

lemma event_serve_no_clear:
  assumes "\<forall>(t, wanted, info) \<in> set ws. \<not> bit info 2"
  shows "event_serve E ws =
    (map (\<lambda>(t, wanted, info). (t, events wanted \<inter> E))
       (filter (\<lambda>(t, wanted, info). event_satisfies E (events wanted) info) ws), E)"
  using assms by (induction E ws rule: event_serve.induct) auto

definition served_in :: "isys \<Rightarrow> isys \<Rightarrow> nat \<Rightarrow> (nat \<times> u32) list \<Rightarrow> bool" where
  "served_in s s' ob served \<longleftrightarrow> sys_inv s' \<and> quiet s s' \<and> current_thread s' = current_thread s \<and>
     queues s' (Waiting ob) = filter (\<lambda>t. t \<notin> fst ` set served) (queues s (Waiting ob)) \<and>
     (\<forall>(t, got) \<in> set served. \<exists>u. threads s' t = Some u \<and> (stat_of u = RT_THREAD_READY \<or> stat_of u = RT_THREAD_RUNNING) \<and>
        th_event_set u = got \<and> th_error u = th_error (the (threads s t))) \<and>
     (\<forall>t. t \<notin> fst ` set served \<longrightarrow> threads s' t = threads s t)"

text \<open>One waiter is given its events and resumed.\<close>

lemma serve_one:
  assumes inv: "sys_inv s" and t: "t \<in> set (queues s (Waiting ob))" and s2: "s2 = set_thread t (th\<lparr> th_event_set := got \<rparr>) s"
    and th: "threads s t = Some th" and s3: "s3 = s2 \<or> s3 = set_ipc ob x s2"
  obtains s' where "rt_thread_resume t s3 = Inr (s', 0)" "served_in s s' ob [(t, got)]" "ipcs s' = ipcs s3"
proof -
  obtain th' where "threads s t = Some th'" "stat_of th' = 2" "th_object th'"
    by (rule waiter_suspended [OF inv waiting_queue_simps(1) t]) (rule that)
  then have st: "stat_of th = 2" "th_object th" using th by simp_all
  let ?u = "th\<lparr> th_event_set := got \<rparr>"
  have i2: "sys_inv s2" "calm s s2" unfolding s2 by (rule set_data_ok [OF inv th]; simp add: stat_of_def)+
  have i3: "sys_inv s3" "quiet s2 s3" "queues s3 = queues s2" "current_thread s3 = current_thread s2" "threads s3 = threads s2"
    using s3 i2(1) quiet_ipc(1) by auto
  have t3: "threads s3 t = Some ?u" "th_object ?u" "stat_of ?u = 2"
    using st by (simp_all add: i3(5) s2 set_thread_def stat_of_def)
  obtain s' where s': "rt_thread_resume t s3 = Inr (s', 0)" "sys_inv s'" "calm s3 s'"
      "threads s' = (threads s3)(t := Some (resumed s3 t ?u))"
      "\<And>q. (\<forall>i. q \<noteq> Ready i) \<Longrightarrow> queues s' q = remove1 t (queues s3 q)"
    by (rule resume_ok [OF i3(1) t3]) (rule that)
  have q: "queues s3 = queues s" by (simp add: i3(3) s2 set_thread_def)
  have d: "distinct (queues s (Waiting ob))" using inv by (simp add: sys_inv_def sched_inv_def links_ok_def)
  have "queues s' (Waiting ob) = filter (\<lambda>x. x \<noteq> t) (queues s (Waiting ob))"
    using s'(5) distinct_remove1_removeAll [OF d] by (simp add: q removeAll_filter_not_eq conj_commute eq_commute)
  moreover have "quiet s s'" using quiet_trans calm_quiet i2(2) i3(2) s'(3) by blast
  moreover have "threads s' x = threads s x" if "x \<noteq> t" for x using that by (simp add: s'(4) i3(5) s2 set_thread_def)
  moreover have "current_thread s' = current_thread s"
    using calm_current [OF s'(3)] calm_current [OF i2(2)] i3(4) by simp
  moreover have "stat_of (resumed s3 t ?u) = 1 \<or> stat_of (resumed s3 t ?u) = 3" by (rule stat_of_resumed)
  ultimately have "served_in s s' ob [(t, got)]"
    using s'(2) th by (simp add: served_in_def) (simp add: s'(4))
  then show thesis by (rule that [OF s'(1)]) (rule calm_more [OF s'(3)])
qed

lemma served_in_trans:
  assumes a: "served_in s s1 ob [(t, got)]" and b: "served_in s1 s2 ob served" and n: "t \<notin> fst ` set served"
  shows "served_in s s2 ob ((t, got) # served)"
proof -
  have "queues s2 (Waiting ob) = filter (\<lambda>x. x \<notin> fst ` set ((t, got) # served)) (queues s (Waiting ob))"
    using a b by (auto simp: served_in_def intro: filter_cong)
  moreover have "\<exists>u. threads s2 t = Some u \<and> (stat_of u = 1 \<or> stat_of u = 3) \<and> th_event_set u = got \<and>
      th_error u = th_error (the (threads s t))"
    using a b n by (simp add: served_in_def)
  moreover have "\<exists>u. threads s2 x = Some u \<and> (stat_of u = 1 \<or> stat_of u = 3) \<and> th_event_set u = g \<and>
      th_error u = th_error (the (threads s x))" if "(x, g) \<in> set served" for x g
  proof -
    have "x \<noteq> t" using that n by force
    then have "threads s1 x = threads s x" using a by (simp add: served_in_def)
    then show ?thesis using b that by (force simp: served_in_def)
  qed
  moreover have "threads s2 x = threads s x" if "x \<notin> fst ` set ((t, got) # served)" for x
    using a b that by (simp add: served_in_def)
  ultimately show ?thesis using a b quiet_trans [of s s1 s2] unfolding served_in_def by auto
qed

lemma event_wake_ok:
  assumes "sys_inv s" "ipcs s ob = Some (Event p e)" "set ts \<subseteq> set (queues s (Waiting ob))" "distinct ts"
  shows "\<exists>s'. event_wake ob ts need s = Inr (s', need \<or> fst (event_walk e (waiters s ts)) \<noteq> []) \<and>
    served_in s s' ob (fst (event_walk e (waiters s ts))) \<and>
    ipcs s' = (ipcs s)(ob \<mapsto> Event p (snd (event_walk e (waiters s ts))))"
  using assms
proof (induction ts arbitrary: s e need)
  case Nil
  then show ?case by (auto simp: waiters_def served_in_def)
next
  case (Cons t ts)
  have m: "t \<in> set (queues s (Waiting ob))" using Cons.prems(3) by simp
  obtain th where th: "threads s t = Some th" by (rule waiter_suspended [OF Cons.prems(1) waiting_queue_simps(1) m]) (rule that)
  have w: "waiters s (t # ts) = (t, th_event_set th, th_event_info th) # waiters s ts" by (simp add: waiters_def th)
  have step: "event_wake ob (t # ts) need s = (case event_match (th_event_info th) (th_event_set th) e of
       None \<Rightarrow> event_wake ob ts need s
     | Some got \<Rightarrow>
         let s = set_thread t (th\<lparr> th_event_set := got \<rparr>) s;
             s = (if th_event_info th AND 4 \<noteq> 0 then set_ipc ob (Event p (e AND NOT got)) s else s) in
         rbind (rt_thread_resume t s) (\<lambda>(s, _). event_wake ob ts True s))"
    using Cons.prems(2) th by (simp add: with_event_def with_thread_def)
  show ?case
  proof (cases "event_match (th_event_info th) (th_event_set th) e")
    case None
    then show ?thesis using Cons.IH [of s e need] Cons.prems step by (simp add: w)
  next
    case (Some got)
    define s2 where "s2 = set_thread t (th\<lparr> th_event_set := got \<rparr>) s"
    define e1 where "e1 = (if th_event_info th AND 4 \<noteq> 0 then e AND NOT got else e)"
    define s3 where "s3 = (if th_event_info th AND 4 \<noteq> 0 then set_ipc ob (Event p (e AND NOT got)) s2 else s2)"
    have s3': "s3 = s2 \<or> s3 = set_ipc ob (Event p (e AND NOT got)) s2" by (simp add: s3_def)
    obtain s4 where s4: "rt_thread_resume t s3 = Inr (s4, 0)" "served_in s s4 ob [(t, got)]" "ipcs s4 = ipcs s3"
      by (rule serve_one [OF Cons.prems(1) m s2_def th s3']) (rule that)
    have i4: "ipcs s4 ob = Some (Event p e1)" "(ipcs s4)(ob := x) = (ipcs s)(ob := x)" for x
      using Cons.prems(2) by (simp_all add: s4(3) s3_def e1_def s2_def set_thread_def)
    have t4: "t \<notin> set ts" "set ts \<subseteq> set (queues s4 (Waiting ob))" "distinct ts" "sys_inv s4"
      using Cons.prems(3,4) s4(2) by (auto simp: served_in_def)
    have w4: "waiters s4 ts = waiters s ts" using s4(2) t4(1) by (auto simp: waiters_def served_in_def)
    obtain s' where s': "event_wake ob ts True s4 = Inr (s', True)"
        "served_in s4 s' ob (fst (event_walk e1 (waiters s ts)))"
        "ipcs s' = (ipcs s4)(ob \<mapsto> Event p (snd (event_walk e1 (waiters s ts))))"
      using Cons.IH [OF t4(4) i4(1) t4(2,3), of True] unfolding w4 by (auto simp del: fun_upd_apply)
    have n: "t \<notin> fst ` set (fst (event_walk e1 (waiters s ts)))" using served_waiters t4(1) by blast
    have run: "event_wake ob (t # ts) need s = Inr (s', True)"
      using s4(1) s'(1) unfolding step by (simp add: Some s2_def [symmetric] s3_def [symmetric] Let_def)
    have serve: "event_walk e (waiters s (t # ts)) =
        ((t, got) # fst (event_walk e1 (waiters s ts)), snd (event_walk e1 (waiters s ts)))"
      by (simp add: w Some e1_def [symmetric] split: prod.split)
    show ?thesis
      using run served_in_trans [OF s4(2) s'(2) n] s'(3) i4(2) unfolding serve by (intro exI [of _ s']) simp
  qed
qed

text \<open>C23: Sending events serves the waiters in their order. A waiter that asks for all of its events is woken when they
  have all been sent, one that asks for any when one of them has; it is given those of its events that are set, and its call
  returns them. With the clear option they are taken out of the set for the waiters behind it. Everybody else keeps
  waiting, in order, and the events that are left stay in the object; where no waiter asked for clearing, every waiter
  whose condition the new set satisfies is woken and no event is lost.\<close>

theorem rt_event_send_serves:
  assumes k: "kinv s" and ev: "ipcs s ob = Some (Event p e)" "evset \<noteq> 0"
    and srv: "event_serve (events e \<union> events evset) (waiters s (queues s (Waiting ob))) = (served, E)"
  shows "\<exists>s' left. rt_event_send ob evset s = Inr (s', RT_EOK) \<and> kinv s' \<and> ipcs s' = (ipcs s)(ob \<mapsto> Event p left) \<and> events left = E \<and>
     queues s' (Waiting ob) = filter (\<lambda>t. t \<notin> fst ` set served) (queues s (Waiting ob)) \<and>
     (\<forall>(t, G) \<in> set served. runnable s' t \<and> (th_error (the (threads s t)) = RT_EOK \<longrightarrow>
        (\<exists>got. rt_event_recv_return t s' = Inr (s', Some got, Returned RT_EOK) \<and> events got = G))) \<and>
     ((\<forall>(t, wanted, info) \<in> set (waiters s (queues s (Waiting ob))). \<not> bit info 2) \<longrightarrow>
        E = events e \<union> events evset \<and> fst ` set served =
          {t. \<exists>wanted info. (t, wanted, info) \<in> set (waiters s (queues s (Waiting ob))) \<and>
             (if bit info 0 then events wanted \<subseteq> events e \<union> events evset
              else bit info 1 \<and> events wanted \<inter> (events e \<union> events evset) \<noteq> {})})"
proof -
  obtain sv left where walk: "event_walk (e OR evset) (waiters s (queues s (Waiting ob))) = (sv, left)"
    by (cases "event_walk (e OR evset) (waiters s (queues s (Waiting ob)))")
  have sets: "served = map (\<lambda>(t, got). (t, events got)) sv" "E = events left"
    using event_walk_sets [of "e OR evset" "waiters s (queues s (Waiting ob))"] srv by (simp_all add: events_ops walk)
  have fsts: "fst ` set served = fst ` set sv" by (force simp: sets)
  define s0 where "s0 = set_ipc ob (Event p (e OR evset)) s"
  have k0: "kinv s0" using k by (simp add: s0_def)
  then have inv0: "sys_inv s0" by (simp add: kinv_def)
  have d: "distinct (queues s0 (Waiting ob))" using inv0 by (simp add: sys_inv_def sched_inv_def links_ok_def)
  have q0: "queues s0 = queues s" "waiters s0 = waiters s" "ipcs s0 ob = Some (Event p (e OR evset))"
    by (simp_all add: s0_def waiters_def fun_eq_iff)
  obtain s1 where s1: "event_wake ob (queues s (Waiting ob)) False s0 = Inr (s1, sv \<noteq> [])"
      "served_in s0 s1 ob sv" "ipcs s1 = (ipcs s0)(ob \<mapsto> Event p left)"
    using event_wake_ok [OF inv0 q0(3) subset_refl d, of False] unfolding q0(1,2) walk by auto
  have k1: "kinv s1" using s1(2) kinv_quiet [OF k0] by (simp add: served_in_def)
  obtain s2 where s2: "(if sv \<noteq> [] then rt_schedule s1 else Inr s1) = Inr s2" "kinv s2" "s2 = s1 \<or> frame s1 s2"
  proof (cases "sv = []")
    case True
    then show thesis using that [of s1] k1 by simp
  next
    case False
    have c1: "sys_inv s1" "current_thread s1 \<noteq> None" using k1 by (simp_all add: kinv_def)
    obtain s2 where "rt_schedule s1 = Inr s2" "frame s1 s2" using schedule_inv [OF c1] by blast
    then show thesis using that [of s2] schedule_kinv [OF k1] False by simp
  qed
  have run: "rt_event_send ob evset s = Inr (s2, 0)"
    using ev s1(1) s2(1) by (simp add: rt_event_send_def with_event_def s0_def [symmetric])
  have f: "ipcs s2 = ipcs s1" "queues s2 (Waiting ob) = queues s1 (Waiting ob)"
    using s2(3) frame_more frame_env(8) [of s1 s2 "Waiting ob"] by auto
  have woken: "runnable s2 t \<and> (th_error (the (threads s t)) = 0 \<longrightarrow> rt_event_recv_return t s2 = Inr (s2, Some got, Returned 0))"
    if g: "(t, got) \<in> set sv" for t got
  proof -
    obtain u where u: "threads s1 t = Some u" "stat_of u = 1 \<or> stat_of u = 3" "th_event_set u = got"
        "th_error u = th_error (the (threads s t))"
      using s1(2) g by (force simp: served_in_def s0_def)
    have "\<exists>u'. threads s2 t = Some u' \<and> kept u u'" using s2(3) u(1) kept_refl frameD by blast
    then obtain u' where u': "threads s2 t = Some u'" "kept u u'" by blast
    then show ?thesis
      using u by (auto simp: kept_def runnable_def rt_event_recv_return_def with_thread_def)
  qed
  have "\<forall>(t, G) \<in> set served. runnable s2 t \<and> (th_error (the (threads s t)) = 0 \<longrightarrow>
      (\<exists>got. rt_event_recv_return t s2 = Inr (s2, Some got, Returned 0) \<and> events got = G))"
    using woken by (fastforce simp: sets)
  moreover have "E = events e \<union> events evset \<and> fst ` set served =
      {t. \<exists>wanted info. (t, wanted, info) \<in> set (waiters s (queues s (Waiting ob))) \<and>
         event_satisfies (events e \<union> events evset) (events wanted) info}"
    if "\<forall>(t, wanted, info) \<in> set (waiters s (queues s (Waiting ob))). \<not> bit info 2"
    using event_serve_no_clear [OF that, of "events e \<union> events evset"] srv by (force simp: image_iff)
  moreover have "queues s2 (Waiting ob) = filter (\<lambda>t. t \<notin> fst ` set served) (queues s (Waiting ob))"
    using s1(2) f(2) by (simp add: served_in_def s0_def fsts)
  moreover have "ipcs s2 = (ipcs s)(ob \<mapsto> Event p left)" using f(1) s1(3) by (simp add: s0_def)
  ultimately show ?thesis
    using run s2(2) sets(2) unfolding event_satisfies_def by (intro exI [of _ s2] exI [of _ left] conjI impI) auto
qed

section \<open>A sample state\<close>

text \<open>Thread 0 runs at priority 5, thread 1 is ready at priority 9, thread 2 of priority 7 waits for object 1.\<close>

definition sample_ipc :: "(nat \<Rightarrow> ipc_object option) \<Rightarrow> isys" where
  "sample_ipc objs = \<lparr> rt_tick = 100,
     timers = (\<lambda>i. if i \<in> {Thread_timer 0, Thread_timer 1, Thread_timer 2}
       then Some \<lparr> tm_flag = 0, tm_init_tick = 0, tm_timeout_tick = 0, tm_static = True \<rparr> else None),
     detached_flag = (\<lambda>_. None), timer_list = [],
     threads = (\<lambda>_. None)(0 := Some (sample_thread 3 5), 1 := Some (sample_thread 1 9),
       2 := Some ((sample_thread 2 7)\<lparr> th_event_set := 6, th_event_info := 1 \<rparr>)),
     queues = (\<lambda>_. [])(Ready 9 := [1], Waiting 1 := [2]), ready_group = 512, current_thread = Some 0,
     current_priority = 5, lock_nest = 0, interrupt_nest = 0, ipcs = objs \<rparr>"

definition sample_parent :: ipc_parent where
  "sample_parent = \<lparr> ip_flag = 1, ip_static = True \<rparr>"

lemma sample_kinv_ipc: "kinv (sample_ipc objs)"
proof -
  have pb: "push_bit 9 (1 :: u32) = 512" "push_bit 5 (1 :: u32) = 32" "push_bit 7 (1 :: u32) = 128"
    by (simp_all add: push_bit_eq_mult)
  have b: "bit (512 :: u32) p \<longleftrightarrow> p = 9" for p
    using bit_mask_1 [of 9 p] by (simp add: push_bit_eq_mult)
  have "sched_inv {} (sample_ipc objs)"
    using pb b
    by (simp add: sched_inv_def links_ok_def prios_ok_def prio_ok_def stats_ok_def sample_ipc_def
        sample_thread_def stat_of_def)
  moreover have "timer_inv (sample_ipc objs)"
    by (simp add: timer_inv_def sample_ipc_def live_def sample_thread_def stat_of_def)
  ultimately show ?thesis
    by (simp add: kinv_def sys_inv_def) (simp add: sample_ipc_def timers_ok_def thread_timers_only_def)
qed

lemma sample_caller: "caller (sample_ipc objs) 0"
  by (simp add: caller_def sample_ipc_def sample_thread_def stat_of_def)

theorem rt_sem_release_hands_over_witness:
  "\<exists>s'. rt_sem_release 1 (sample_ipc [1 \<mapsto> Semaphore sample_parent 0]) = Inr (s', RT_EOK) \<and> runnable s' 2 \<and>
     rt_sem_take_return 2 s' = Inr (s', Returned RT_EOK)"
proof -
  let ?s = "sample_ipc [1 \<mapsto> Semaphore sample_parent 0]"
  have o: "ipcs ?s 1 = Some (Semaphore sample_parent 0)" by (simp add: sample_ipc_def)
  have q: "queues ?s (Waiting 1) = [2]" "th_error (the (threads ?s 2)) = 0"
    by (simp_all add: sample_ipc_def sample_thread_def)
  show ?thesis using rt_sem_release_hands_over [OF sample_kinv_ipc o] unfolding q list.case by blast
qed

theorem rt_sem_detach_wakes_all_witness:
  "\<exists>s'. rt_sem_detach 1 (sample_ipc [1 \<mapsto> Semaphore sample_parent 0]) = Some (Inr (s', RT_EOK)) \<and>
     runnable s' 2 \<and> rt_sem_take_return 2 s' = Inr (s', Returned (- RT_ERROR))"
proof -
  let ?s = "sample_ipc [1 \<mapsto> Semaphore sample_parent 0]"
  have o: "ipcs ?s 1 = Some (Semaphore sample_parent 0)" "ip_static sample_parent"
    by (simp_all add: sample_ipc_def sample_parent_def)
  have q: "2 \<in> set (queues ?s (Waiting 1))" by (simp add: sample_ipc_def)
  show ?thesis using rt_sem_detach_wakes_all [OF sample_kinv_ipc o] q by blast
qed

theorem rt_mutex_take_lends_priority_witness:
  "\<exists>s'. rt_mutex_take 3 (- 1) (sample_ipc [3 \<mapsto> Mutex sample_parent (new_mutex\<lparr> mx_value := 0, mx_hold := 1, mx_owner := Some 1 \<rparr>)])
       = Inr (s', Blocked) \<and> prio_of s' 1 = 5 \<and> queues s' (Waiting 3) = [0]"
proof -
  define m where "m = new_mutex\<lparr> mx_value := 0, mx_hold := 1, mx_owner := Some 1 \<rparr>"
  define s where "s = sample_ipc [3 \<mapsto> Mutex sample_parent m]"
  have k: "kinv s" "caller s 0" unfolding s_def by (rule sample_kinv_ipc sample_caller)+
  have h: "ipcs s 3 = Some (Mutex sample_parent m)" "mx_value m = 0" "mx_owner m = Some 1" "(1 :: nat) \<noteq> 0"
    "threads s 1 = Some (sample_thread 1 9)" "th_object (sample_thread 1 9)" "1 \<notin> set (queues s (Waiting 3))"
    "ip_flag sample_parent = 0 \<or> ip_flag sample_parent = 1" "waits (- 1)"
    by (simp_all add: s_def sample_ipc_def sample_thread_def m_def sample_parent_def waits_def)
  have q: "enqueued s 0 (ip_flag sample_parent) (queues s (Waiting 3)) = [0]" "min (prio_of s 1) (prio_of s 0) = 5"
    by (simp_all add: s_def enqueued_def sample_parent_def sample_ipc_def prio_of_def sample_thread_def)
  show ?thesis
    using rt_mutex_take_lends_priority [OF k h] unfolding q m_def [symmetric] s_def [symmetric] by blast
qed

theorem rt_mutex_release_hands_over_witness:
  "\<exists>s'. rt_mutex_release 1 (sample_ipc [1 \<mapsto> Mutex sample_parent
        \<lparr> mx_value = 0, mx_original_priority = 6, mx_hold = 1, mx_owner = Some 0 \<rparr>]) = Inr (s', RT_EOK) \<and>
     prio_of s' 0 = 6 \<and> runnable s' 2 \<and> rt_mutex_take_return 1 5 2 s' = Inr (s', Returned RT_EOK)"
proof -
  define m where "m = \<lparr> mx_value = 0, mx_original_priority = 6, mx_hold = 1, mx_owner = Some 0 \<rparr>"
  define s where "s = sample_ipc [1 \<mapsto> Mutex sample_parent m]"
  have k: "kinv s" "caller s 0" unfolding s_def by (rule sample_kinv_ipc sample_caller)+
  have h: "ipcs s 1 = Some (Mutex sample_parent m)" "mx_owner m = Some 0" "unat (mx_original_priority m) < 32"
    by (simp_all add: s_def sample_ipc_def m_def)
  have q: "queues s (Waiting 1) = [2]" "th_error (the (threads s 2)) = 0" "mx_hold m = 1"
    "unat (mx_original_priority m) = 6"
    by (simp_all add: s_def sample_ipc_def sample_thread_def m_def)
  obtain s' where "rt_mutex_release 1 s = Inr (s', 0)" "prio_of s' 0 = 6" "runnable s' 2"
    "rt_mutex_take_return 1 5 2 s' = Inr (s', Returned 0)"
    using rt_mutex_release_hands_over [OF k h, of 5] by (auto simp: q simp del: One_nat_def)
  then show ?thesis unfolding s_def m_def by blast
qed

theorem rt_event_send_serves_witness:
  "\<exists>s' got. rt_event_send 1 2 (sample_ipc [1 \<mapsto> Event sample_parent 4]) = Inr (s', RT_EOK) \<and>
     runnable s' 2 \<and> rt_event_recv_return 2 s' = Inr (s', Some got, Returned RT_EOK) \<and> events got = {1, 2}"
proof -
  define s where "s = sample_ipc [1 \<mapsto> Event sample_parent 4]"
  have k: "kinv s" unfolding s_def by (rule sample_kinv_ipc)
  have h: "ipcs s 1 = Some (Event sample_parent 4)" "(2 :: u32) \<noteq> 0" by (simp_all add: s_def sample_ipc_def)
  have w: "waiters s (queues s (Waiting 1)) = [(2, 6, 1)]"
    by (simp add: s_def sample_ipc_def waiters_def sample_thread_def)
  have "events 4 = {2}" "events 2 = {1}" "events 6 = {1, 2}" by (simp_all add: events_def upt_rec) auto
  then have srv: "event_serve (events 4 \<union> events 2) (waiters s (queues s (Waiting 1))) = ([(2, {1, 2})], {1, 2})"
    unfolding w by (auto simp: event_satisfies_def)
  have e: "th_error (the (threads s 2)) = 0" by (simp add: s_def sample_ipc_def sample_thread_def)
  show ?thesis using rt_event_send_serves [OF k h srv] e unfolding s_def [symmetric] by auto
qed

end
