(* ===== verification/Mailbox.thy ===== *)
theory Mailbox
  imports Fifo IpcSync
begin

text \<open>
  The mailboxes of \<^verbatim>\<open>src/ipc.c\<close>: a ring of machine words with a waiting list for receivers and
  one for senders. A call that blocks ends with \<open>Blocked\<close>; its \<open>_return\<close> function is what follows
  the \<^verbatim>\<open>rt_schedule\<close>, up to the next time it blocks. The non-blocking calls make a mailbox a
  bounded first-in first-out queue, whoever waits for it.
\<close>

section \<open>What calls that wait have in common\<close>

definition ipc_wait :: "queue \<Rightarrow> nat \<Rightarrow> u8 \<Rightarrow> int \<Rightarrow> isys \<Rightarrow> isys res" where
  "ipc_wait q t flag timeout s = rassert (in_thread s) (rbind (block_on q t flag timeout s) rt_schedule)"

text \<open>What is left of the waiting time: \<^verbatim>\<open>tick_delta = rt_tick_get() - tick_delta; timeout -= tick_delta\<close>,
  where \<open>start\<close> is the tick at which the thread went to sleep.\<close>

definition time_left :: "u32 \<Rightarrow> u32 \<Rightarrow> int \<Rightarrow> int" where
  "time_left now start timeout =
     (if timeout > 0 then max 0 (sint (word_of_int timeout - (now - start) :: u32)) else timeout)"

definition wake_first :: "queue \<Rightarrow> isys \<Rightarrow> isys res" where
  "wake_first q s = (if queues s q \<noteq> [] then rbind (rt_ipc_list_resume q s) rt_schedule else Inr s)"

definition with_caller :: "nat option \<Rightarrow> (nat \<Rightarrow> 'b res) \<Rightarrow> 'b res" where
  "with_caller self f = (case self of None \<Rightarrow> Inl Null_pointer | Some t \<Rightarrow> f t)"

section \<open>Mailboxes\<close>

definition new_mailbox :: "u32 list \<Rightarrow> u32 \<Rightarrow> mailbox" where
  "new_mailbox pool sz = \<lparr> mb_pool = pool, mb_size = ucast sz, mb_entry = 0, mb_in_offset = 0, mb_out_offset = 0 \<rparr>"

definition init_lists :: "nat \<Rightarrow> isys \<Rightarrow> isys" where
  "init_lists ob s = (rt_ipc_object_init ob s)\<lparr> queues := (queues (rt_ipc_object_init ob s))(Senders ob := []) \<rparr>"

definition rt_mb_init :: "nat \<Rightarrow> u32 list \<Rightarrow> u32 \<Rightarrow> u8 \<Rightarrow> isys \<Rightarrow> (isys \<times> rt_err) res" where
  "rt_mb_init ob msgpool sz flag s = rassert (ipcs s ob = None)
     (rbind (rt_object_init_walk s) (\<lambda>s.
      Inr (set_ipc ob (Mailbox \<lparr> ip_flag = flag, ip_static = True \<rparr> (new_mailbox msgpool sz)) (init_lists ob s), RT_EOK)))"

text \<open>\<open>pool\<close> is what the allocation of the message pool gives.\<close>

definition rt_mb_create :: "nat option \<Rightarrow> u32 list option \<Rightarrow> u32 \<Rightarrow> u8 \<Rightarrow> isys \<Rightarrow> (isys \<times> nat option) res" where
  "rt_mb_create alloc pool sz flag s = rassert (interrupt_nest s = 0)
     (case alloc of None \<Rightarrow> Inr (s, None)
      | Some ob \<Rightarrow> (case pool of None \<Rightarrow> Inr (rt_ipc_object_init ob s, None)
          | Some msgpool \<Rightarrow> Inr (set_ipc ob (Mailbox \<lparr> ip_flag = flag, ip_static = False \<rparr> (new_mailbox msgpool sz))
                              (init_lists ob s), Some ob)))"

definition resume_both :: "nat \<Rightarrow> isys \<Rightarrow> isys res option" where
  "resume_both ob s = orbind (rt_ipc_list_resume_all (Waiting ob) s) (rt_ipc_list_resume_all (Senders ob))"

definition rt_mb_detach :: "nat \<Rightarrow> isys \<Rightarrow> (isys \<times> rt_err) res option" where
  "rt_mb_detach ob s =
     (case with_mailbox ob s (\<lambda>p m. rassert (ip_static p) (Inr s)) of Inl e \<Rightarrow> Some (Inl e)
      | Inr s \<Rightarrow> orbind (resume_both ob s) (\<lambda>s. Some (Inr (drop_ipc ob s, RT_EOK))))"

definition rt_mb_delete :: "nat \<Rightarrow> isys \<Rightarrow> (isys \<times> rt_err) res option" where
  "rt_mb_delete ob s =
     (case rassert (interrupt_nest s = 0) (with_mailbox ob s (\<lambda>p m. rassert (\<not> ip_static p) (Inr s))) of
        Inl e \<Rightarrow> Some (Inl e)
      | Inr s \<Rightarrow> orbind (resume_both ob s) (\<lambda>s. Some (Inr (drop_ipc ob s, RT_EOK))))"

definition mb_next :: "mailbox \<Rightarrow> u16 \<Rightarrow> u16" where
  "mb_next m i = (if i + 1 \<ge> mb_size m then 0 else i + 1)"

definition mb_store :: "u32 \<Rightarrow> mailbox \<Rightarrow> mailbox res" where
  "mb_store v m = (if unat (mb_in_offset m) < length (mb_pool m)
     then Inr (m\<lparr> mb_pool := (mb_pool m)[unat (mb_in_offset m) := v], mb_in_offset := mb_next m (mb_in_offset m),
                  mb_entry := mb_entry m + 1 \<rparr>)
     else Inl Out_of_bounds)"

definition mb_fetch :: "mailbox \<Rightarrow> (u32 \<times> mailbox) res" where
  "mb_fetch m = (if unat (mb_out_offset m) < length (mb_pool m)
     then Inr (mb_pool m ! unat (mb_out_offset m),
               m\<lparr> mb_out_offset := mb_next m (mb_out_offset m), mb_entry := mb_entry m - 1 \<rparr>)
     else Inl Out_of_bounds)"

text \<open>From the test of the loop on.\<close>

definition mb_send_loop :: "nat \<Rightarrow> u32 \<Rightarrow> int \<Rightarrow> nat option \<Rightarrow> isys \<Rightarrow> (isys \<times> outcome) res" where
  "mb_send_loop ob v timeout self s = with_mailbox ob s (\<lambda>p m.
     if mb_entry m = mb_size m
     then with_caller self (\<lambda>t. rbind (set_error t RT_EOK s) (\<lambda>s.
       if timeout = 0 then Inr (s, Returned (- RT_EFULL))
       else rbind (ipc_wait (Senders ob) t (ip_flag p) timeout s) (\<lambda>s. Inr (s, Blocked))))
     else rbind (mb_store v m) (\<lambda>m.
          rbind (wake_first (Waiting ob) (set_ipc ob (Mailbox p m) s)) (\<lambda>s. Inr (s, Returned RT_EOK))))"

definition rt_mb_send_wait :: "nat \<Rightarrow> u32 \<Rightarrow> int \<Rightarrow> isys \<Rightarrow> (isys \<times> outcome) res" where
  "rt_mb_send_wait ob v timeout s = with_mailbox ob s (\<lambda>p m.
     if mb_entry m = mb_size m \<and> timeout = 0 then Inr (s, Returned (- RT_EFULL))
     else mb_send_loop ob v timeout (rt_thread_self s) s)"

definition rt_mb_send_wait_return :: "nat \<Rightarrow> u32 \<Rightarrow> int \<Rightarrow> u32 \<Rightarrow> nat \<Rightarrow> isys \<Rightarrow> (isys \<times> outcome) res" where
  "rt_mb_send_wait_return ob v timeout start t s = with_thread t s (\<lambda>th.
     if th_error th \<noteq> RT_EOK then Inr (s, Returned (th_error th))
     else mb_send_loop ob v (time_left (rt_tick_get s) start timeout) (Some t) s)"

definition rt_mb_send :: "nat \<Rightarrow> u32 \<Rightarrow> isys \<Rightarrow> (isys \<times> outcome) res" where
  "rt_mb_send ob v s = rt_mb_send_wait ob v 0 s"

definition mb_recv_loop :: "nat \<Rightarrow> int \<Rightarrow> nat option \<Rightarrow> isys \<Rightarrow> (isys \<times> u32 option \<times> outcome) res" where
  "mb_recv_loop ob timeout self s = with_mailbox ob s (\<lambda>p m.
     if mb_entry m = 0
     then with_caller self (\<lambda>t. rbind (set_error t RT_EOK s) (\<lambda>s.
       if timeout = 0 then rbind (set_error t (- RT_ETIMEOUT) s) (\<lambda>s. Inr (s, None, Returned (- RT_ETIMEOUT)))
       else rbind (ipc_wait (Waiting ob) t (ip_flag p) timeout s) (\<lambda>s. Inr (s, None, Blocked))))
     else rbind (mb_fetch m) (\<lambda>(v, m).
          rbind (wake_first (Senders ob) (set_ipc ob (Mailbox p m) s)) (\<lambda>s. Inr (s, Some v, Returned RT_EOK))))"

definition rt_mb_recv :: "nat \<Rightarrow> int \<Rightarrow> isys \<Rightarrow> (isys \<times> u32 option \<times> outcome) res" where
  "rt_mb_recv ob timeout s = with_mailbox ob s (\<lambda>p m.
     if mb_entry m = 0 \<and> timeout = 0 then Inr (s, None, Returned (- RT_ETIMEOUT))
     else mb_recv_loop ob timeout (rt_thread_self s) s)"

definition rt_mb_recv_return :: "nat \<Rightarrow> int \<Rightarrow> u32 \<Rightarrow> nat \<Rightarrow> isys \<Rightarrow> (isys \<times> u32 option \<times> outcome) res" where
  "rt_mb_recv_return ob timeout start t s = with_thread t s (\<lambda>th.
     if th_error th \<noteq> RT_EOK then Inr (s, None, Returned (th_error th))
     else mb_recv_loop ob (time_left (rt_tick_get s) start timeout) (Some t) s)"

definition rt_mb_control :: "nat \<Rightarrow> ipc_cmd \<Rightarrow> isys \<Rightarrow> (isys \<times> rt_err) res option" where
  "rt_mb_control ob cmd s =
     (case with_mailbox ob s (\<lambda>p m. Inr (p, m)) of Inl e \<Rightarrow> Some (Inl e)
      | Inr (p, m) \<Rightarrow> (case cmd of
          Ipc_reset _ \<Rightarrow> orbind (resume_both ob s) (\<lambda>s.
            Some (rbind (rt_schedule (set_ipc ob (Mailbox p (m\<lparr> mb_entry := 0, mb_in_offset := 0, mb_out_offset := 0 \<rparr>)) s))
                    (\<lambda>s. Inr (s, RT_EOK))))
        | Ipc_other_cmd \<Rightarrow> Some (Inr (s, - RT_ERROR))))"

section \<open>The ring of a mailbox\<close>

definition mb_ok :: "mailbox \<Rightarrow> bool" where
  "mb_ok m \<longleftrightarrow> length (mb_pool m) = unat (mb_size m) \<and> unat (mb_entry m) \<le> unat (mb_size m) \<and>
     (0 < unat (mb_size m) \<longrightarrow> unat (mb_out_offset m) < unat (mb_size m) \<and>
       unat (mb_in_offset m) = (unat (mb_out_offset m) + unat (mb_entry m)) mod unat (mb_size m))"

definition mb_contents :: "mailbox \<Rightarrow> u32 list" where
  "mb_contents m = map (\<lambda>i. mb_pool m ! ((unat (mb_out_offset m) + i) mod unat (mb_size m))) [0 ..< unat (mb_entry m)]"

lemma length_mb_contents [simp]: "length (mb_contents m) = unat (mb_entry m)"
  by (simp add: mb_contents_def)

lemma unat_mb_next:
  assumes "unat i < unat (mb_size m)"
  shows "unat (mb_next m i) = (unat i + 1) mod unat (mb_size m)"
proof -
  have "unat i + 1 < 2 ^ 16" using assms unat_u16_less [of "mb_size m"] by simp
  then have "unat (i + 1) = unat i + 1" by (simp add: unat_word_ariths)
  then show ?thesis using assms by (auto simp: mb_next_def word_le_nat_alt mod_if)
qed

lemma mb_store_ok:
  assumes ok: "mb_ok m" and room: "mb_entry m \<noteq> mb_size m"
  obtains m' where "mb_store v m = Inr m'" "mb_ok m'" "mb_contents m' = mb_contents m @ [v]"
    "mb_size m' = mb_size m" "unat (mb_entry m') = unat (mb_entry m) + 1"
proof -
  let ?n = "unat (mb_size m)" and ?e = "unat (mb_entry m)" and ?o = "unat (mb_out_offset m)"
  have lt: "?e < ?n" using ok room by (auto simp: mb_ok_def word_unat_eq_iff)
  then have o: "?o < ?n" "unat (mb_in_offset m) = (?o + ?e) mod ?n" "length (mb_pool m) = ?n"
    using ok by (auto simp: mb_ok_def)
  have inn: "unat (mb_in_offset m) < ?n" using lt by (simp add: o(2))
  have e: "unat (mb_entry m + 1) = ?e + 1"
    using lt unat_u16_less [of "mb_size m"] by (simp add: unat_word_ariths)
  define m' where "m' = m\<lparr> mb_pool := (mb_pool m)[unat (mb_in_offset m) := v],
      mb_in_offset := mb_next m (mb_in_offset m), mb_entry := mb_entry m + 1 \<rparr>"
  have run: "mb_store v m = Inr m'" using inn o(3) by (simp add: mb_store_def m'_def)
  have "mb_ok m'" using lt o e unat_mb_next [OF inn] by (simp add: mb_ok_def m'_def mod_Suc_eq)
  moreover have "mb_contents m' = mb_contents m @ [v]"
  proof -
    have "(mb_pool m)[unat (mb_in_offset m) := v] ! ((?o + i) mod ?n) = mb_pool m ! ((?o + i) mod ?n)" if i: "i < ?e" for i
    proof -
      have "(?o + ?e) mod ?n \<noteq> (?o + i) mod ?n"
        using i lt o(1) by (auto simp: mod_if)
      then show ?thesis by (simp add: o(2))
    qed
    moreover have "(mb_pool m)[unat (mb_in_offset m) := v] ! ((?o + ?e) mod ?n) = v" using inn o(3) by (simp add: o(2))
    ultimately show ?thesis by (simp add: mb_contents_def m'_def e)
  qed
  ultimately show thesis by (rule that [OF run]) (simp_all add: m'_def e)
qed

lemma mb_fetch_ok:
  assumes ok: "mb_ok m" and c: "mb_contents m = y # ys"
  obtains m' where "mb_fetch m = Inr (y, m')" "mb_ok m'" "mb_contents m' = ys" "mb_size m' = mb_size m"
    "unat (mb_entry m') = unat (mb_entry m) - 1"
proof -
  let ?n = "unat (mb_size m)" and ?e = "unat (mb_entry m)" and ?o = "unat (mb_out_offset m)"
  have pos: "0 < ?e" using c length_mb_contents [of m] by (simp del: length_mb_contents)
  then have o: "?o < ?n" "unat (mb_in_offset m) = (?o + ?e) mod ?n" "length (mb_pool m) = ?n" "?e \<le> ?n"
    using ok by (auto simp: mb_ok_def)
  have e: "unat (mb_entry m - 1) = ?e - 1"
    using pos by (simp add: unat_sub_if' word_le_nat_alt)
  define m' where "m' = m\<lparr> mb_out_offset := mb_next m (mb_out_offset m), mb_entry := mb_entry m - 1 \<rparr>"
  have run: "mb_fetch m = Inr (mb_pool m ! ?o, m')" using o by (simp add: mb_fetch_def m'_def)
  have up: "[0 ..< ?e] = 0 # map Suc [0 ..< ?e - 1]" using pos by (simp add: map_Suc_upt upt_conv_Cons)
  have y: "y = mb_pool m ! ?o" "ys = map (\<lambda>i. mb_pool m ! ((?o + Suc i) mod ?n)) [0 ..< ?e - 1]"
    using c o(1) unfolding mb_contents_def up by (auto simp: comp_def)
  have out: "unat (mb_out_offset m') = (?o + 1) mod ?n" using unat_mb_next [OF o(1)] by (simp add: m'_def)
  have "mb_contents m' = ys" unfolding y(2) mb_contents_def out by (simp add: m'_def e mod_add_left_eq)
  moreover have "mb_ok m'"
  proof -
    have "((?o + 1) mod ?n + (?e - 1)) mod ?n = (?o + 1 + (?e - 1)) mod ?n" by (rule mod_add_left_eq)
    also have "\<dots> = unat (mb_in_offset m)" using pos o(2) by simp
    finally have md: "unat (mb_in_offset m) = ((?o + 1) mod ?n + (?e - 1)) mod ?n" by simp
    have f: "mb_pool m' = mb_pool m" "mb_size m' = mb_size m" "mb_in_offset m' = mb_in_offset m"
      "unat (mb_entry m') = ?e - 1" using e by (simp_all add: m'_def)
    show ?thesis unfolding mb_ok_def f out using o(1,3,4) md by auto
  qed
  ultimately show thesis using that run y(1) by (simp add: m'_def e)
qed

section \<open>Whoever waits\<close>

lemma wake_first_ok:
  assumes k: "kinv s" and q: "waiting_queue q"
  obtains s' where "wake_first q s = Inr s'" "kinv s'" "ipcs s' = ipcs s" "queues s' q = tl (queues s q)"
    and "\<And>q'. q' \<noteq> q \<Longrightarrow> \<forall>i. q' \<noteq> Ready i \<Longrightarrow> queues s' q' = queues s q'"
    and "queues s q \<noteq> [] \<Longrightarrow> woken_with (th_error (the (threads s (hd (queues s q))))) s' (hd (queues s q))"
proof (cases "queues s q")
  case Nil
  then show thesis by (intro that [of s]) (use k in \<open>simp_all add: wake_first_def\<close>)
next
  case (Cons w ws)
  have inv: "sys_inv s" and c: "current_thread s \<noteq> None" using k by (simp_all add: kinv_def)
  obtain s1 s' where s': "rt_ipc_list_resume q s = Inr s1" "rt_schedule s1 = Inr s'" "sys_inv s'" "quiet s s'"
      "woken_with (th_error (the (threads s w))) s' w" "queues s' q = ws"
      "\<And>q'. q' \<noteq> q \<Longrightarrow> \<forall>i. q' \<noteq> Ready i \<Longrightarrow> queues s' q' = queues s q'" "ipcs s' = ipcs s"
    by (rule wake_schedule_ok [OF inv c q Cons]) (rule that)
  have run: "wake_first q s = Inr s'" using s'(1,2) Cons by (simp add: wake_first_def)
  show thesis
    by (rule that [OF run kinv_quiet [OF k s'(3,4)] s'(8) _ s'(7)]) (use s'(5,6) Cons in simp_all)
qed

text \<open>The state of a mailbox in the kernel.\<close>

definition mailbox_of :: "nat \<Rightarrow> isys \<Rightarrow> mailbox" where
  "mailbox_of ob s = (case ipcs s ob of Some (Mailbox p m) \<Rightarrow> m | _ \<Rightarrow> new_mailbox [] 0)"

definition mb_inv :: "nat \<Rightarrow> ipc_parent \<Rightarrow> isys \<Rightarrow> bool" where
  "mb_inv ob p s \<longleftrightarrow> kinv s \<and> (\<exists>m. ipcs s ob = Some (Mailbox p m) \<and> mb_ok m)"

text \<open>A call that does not wait, with everything it returns.\<close>

definition mb_call :: "nat \<Rightarrow> u32 fifo_op \<Rightarrow> isys \<Rightarrow> ((u32 option \<times> outcome) \<times> isys) res" where
  "mb_call ob a s = (case a of
     Enq v \<Rightarrow> rbind (rt_mb_send ob v s) (\<lambda>(s, out). Inr ((None, out), s))
   | Deq \<Rightarrow> rbind (rt_mb_recv ob 0 s) (\<lambda>(s, v, out). Inr ((v, out), s)))"

text \<open>The mails, the threads that wait for one and the threads that wait for room.\<close>

definition mb_view :: "nat \<Rightarrow> isys \<Rightarrow> u32 list \<times> nat list \<times> nat list" where
  "mb_view ob s = (mb_contents (mailbox_of ob s), queues s (Waiting ob), queues s (Senders ob))"

lemma mb_send_room:
  assumes k: "kinv s" and m: "ipcs s ob = Some (Mailbox p m)" "mb_ok m" "mb_entry m \<noteq> mb_size m"
  obtains s' m' where "rt_mb_send_wait ob v timeout s = Inr (s', Returned RT_EOK)"
    "mb_send_loop ob v timeout self s = Inr (s', Returned RT_EOK)" "kinv s'"
    "ipcs s' = (ipcs s)(ob \<mapsto> Mailbox p m')" "mb_ok m'" "mb_contents m' = mb_contents m @ [v]" "mb_size m' = mb_size m"
    "wake_first (Waiting ob) (set_ipc ob (Mailbox p m') s) = Inr s'"
    "queues s' (Waiting ob) = tl (queues s (Waiting ob))" "queues s' (Senders ob) = queues s (Senders ob)"
proof -
  obtain m' where m': "mb_store v m = Inr m'" "mb_ok m'" "mb_contents m' = mb_contents m @ [v]" "mb_size m' = mb_size m"
    by (rule mb_store_ok [OF m(2,3)]) (rule that)
  have k1: "kinv (set_ipc ob (Mailbox p m') s)" using k by simp
  obtain s' where s': "wake_first (Waiting ob) (set_ipc ob (Mailbox p m') s) = Inr s'" "kinv s'"
      "ipcs s' = ipcs (set_ipc ob (Mailbox p m') s)"
      "queues s' (Waiting ob) = tl (queues (set_ipc ob (Mailbox p m') s) (Waiting ob))"
      "\<And>q'. q' \<noteq> Waiting ob \<Longrightarrow> \<forall>i. q' \<noteq> Ready i \<Longrightarrow> queues s' q' = queues (set_ipc ob (Mailbox p m') s) q'"
    by (rule wake_first_ok [OF k1 waiting_queue_simps(1)]) (rule that)
  show thesis
    by (rule that [of s' m'])
      (use m m' s' in \<open>simp_all add: rt_mb_send_wait_def mb_send_loop_def with_mailbox_def\<close>)
qed

lemma mb_recv_some:
  assumes k: "kinv s" and m: "ipcs s ob = Some (Mailbox p m)" "mb_ok m" "mb_contents m = y # ys"
  obtains s' m' where "rt_mb_recv ob timeout s = Inr (s', Some y, Returned RT_EOK)"
    "mb_recv_loop ob timeout self s = Inr (s', Some y, Returned RT_EOK)" "kinv s'"
    "ipcs s' = (ipcs s)(ob \<mapsto> Mailbox p m')" "mb_ok m'" "mb_contents m' = ys" "mb_size m' = mb_size m"
    "queues s' (Senders ob) = tl (queues s (Senders ob))" "queues s' (Waiting ob) = queues s (Waiting ob)"
proof -
  obtain m' where m': "mb_fetch m = Inr (y, m')" "mb_ok m'" "mb_contents m' = ys" "mb_size m' = mb_size m"
    by (rule mb_fetch_ok [OF m(2,3)]) (rule that)
  have k1: "kinv (set_ipc ob (Mailbox p m') s)" using k by simp
  obtain s' where s': "wake_first (Senders ob) (set_ipc ob (Mailbox p m') s) = Inr s'" "kinv s'"
      "ipcs s' = ipcs (set_ipc ob (Mailbox p m') s)"
      "queues s' (Senders ob) = tl (queues (set_ipc ob (Mailbox p m') s) (Senders ob))"
      "\<And>q'. q' \<noteq> Senders ob \<Longrightarrow> \<forall>i. q' \<noteq> Ready i \<Longrightarrow> queues s' q' = queues (set_ipc ob (Mailbox p m') s) q'"
    by (rule wake_first_ok [OF k1 waiting_queue_simps(2)]) (rule that)
  have "mb_entry m \<noteq> 0" using m(3) length_mb_contents [of m] by (auto simp del: length_mb_contents)
  then show thesis
    by (intro that [of s' m'])
      (use m m' s' in \<open>simp_all add: rt_mb_recv_def mb_recv_loop_def with_mailbox_def\<close>)
qed

interpretation mbq: kernel_queue "\<lambda>n. mb_inv ob p" "mb_view ob" "\<lambda>s. unat (mb_size (mailbox_of ob s))"
    "\<lambda>s. unat (mb_size (mailbox_of ob s))" "Returned RT_EOK" "Returned (- RT_EFULL)" "Returned (- RT_ETIMEOUT)" "mb_call ob" for ob p
proof
  fix n :: nat and s :: isys and a :: "u32 fifo_op"
  assume inv: "mb_inv ob p s"
  then obtain m where k: "kinv s" and m: "ipcs s ob = Some (Mailbox p m)" "mb_ok m" by (auto simp: mb_inv_def)
  have mo: "mailbox_of ob s = m" by (simp add: mailbox_of_def m)
  have len: "length (mb_contents m) \<le> unat (mb_size m)" using m(2) by (simp add: mb_ok_def)
  show "length (fst (mb_view ob s)) \<le> unat (mb_size (mailbox_of ob s))" using len by (simp add: mo mb_view_def)
  let ?step = "queue_step (unat (mb_size m)) (unat (mb_size m)) (Returned 0) (Returned (- 3)) (Returned (- 2)) a
      (mb_contents m, queues s (Waiting ob), queues s (Senders ob))"
  have "\<exists>s'. mb_call ob a s = Inr (fst ?step, s') \<and> mb_inv ob p s' \<and> mb_view ob s' = snd ?step \<and>
      mb_size (mailbox_of ob s') = mb_size m"
  proof (cases a)
    case (Enq v)
    show ?thesis
    proof (cases "length (mb_contents m) < unat (mb_size m)")
      case True
      then have room: "mb_entry m \<noteq> mb_size m" by auto
      obtain s' m' where s': "rt_mb_send_wait ob v 0 s = Inr (s', Returned 0)" "kinv s'"
          "ipcs s' = (ipcs s)(ob \<mapsto> Mailbox p m')" "mb_ok m'" "mb_contents m' = mb_contents m @ [v]" "mb_size m' = mb_size m"
          "queues s' (Waiting ob) = tl (queues s (Waiting ob))" "queues s' (Senders ob) = queues s (Senders ob)"
        by (rule mb_send_room [OF k m room, where v = v and timeout = 0]) (rule that)
      have "mailbox_of ob s' = m'" using s'(3) by (simp add: mailbox_of_def)
      then show ?thesis using s' True Enq by (simp add: mb_call_def rt_mb_send_def mb_inv_def mb_view_def)
    next
      case False
      then have "mb_entry m = mb_size m" using len by (simp add: word_unat_eq_iff)
      then show ?thesis using False Enq m inv
        by (simp add: mb_call_def rt_mb_send_def rt_mb_send_wait_def with_mailbox_def mb_view_def mo)
    qed
  next
    case Deq
    show ?thesis
    proof (cases "mb_contents m")
      case Nil
      then have "mb_entry m = 0" using length_mb_contents [of m] by (simp add: word_unat_eq_iff del: length_mb_contents)
      then show ?thesis using Nil Deq m inv by (simp add: mb_call_def rt_mb_recv_def with_mailbox_def mb_view_def mo)
    next
      case (Cons y ys)
      obtain s' m' where s': "rt_mb_recv ob 0 s = Inr (s', Some y, Returned 0)" "kinv s'"
          "ipcs s' = (ipcs s)(ob \<mapsto> Mailbox p m')" "mb_ok m'" "mb_contents m' = ys" "mb_size m' = mb_size m"
          "queues s' (Senders ob) = tl (queues s (Senders ob))" "queues s' (Waiting ob) = queues s (Waiting ob)"
        by (rule mb_recv_some [OF k m Cons, where timeout = 0]) (rule that)
      have "mailbox_of ob s' = m'" using s'(3) by (simp add: mailbox_of_def)
      then show ?thesis using s' Deq Cons len by (simp add: mb_call_def mb_inv_def mb_view_def)
    qed
  qed
  then show "\<exists>s'. mb_call ob a s = Inr (fst (queue_step (unat (mb_size (mailbox_of ob s))) (unat (mb_size (mailbox_of ob s)))
        (Returned 0) (Returned (- 3)) (Returned (- 2)) a (mb_view ob s)), s') \<and> mb_inv ob p s' \<and>
      mb_view ob s' = snd (queue_step (unat (mb_size (mailbox_of ob s))) (unat (mb_size (mailbox_of ob s)))
        (Returned 0) (Returned (- 3)) (Returned (- 2)) a (mb_view ob s)) \<and>
      unat (mb_size (mailbox_of ob s')) = unat (mb_size (mailbox_of ob s)) \<and>
      unat (mb_size (mailbox_of ob s')) = unat (mb_size (mailbox_of ob s))"
    by (auto simp: mo mb_view_def)
qed

section \<open>Properties\<close>

text \<open>C24: A mailbox is a bounded queue, whoever waits for it. Under any sequence of sends and receives that do not wait
  themselves, every call ends, without a fault, with exactly the result that a queue of the mailbox's size gives: a send is accepted
  when there is room and returns \<^verbatim>\<open>-RT_EFULL\<close> when there is none, a receive returns the oldest mail or \<^verbatim>\<open>-RT_ETIMEOUT\<close>.
  Every accepted mail takes the first of the waiting receivers out of the waiting list, every received one the first of
  the waiting senders, and nothing else does; the mailbox and the kernel stay well formed.\<close>

theorem rt_mb_fifo:
  assumes "kinv s" and "ipcs s ob = Some (Mailbox p m)" and "mb_ok m"
    and "queue_run (unat (mb_size m)) (unat (mb_size m)) (Returned RT_EOK) (Returned (- RT_EFULL)) (Returned (- RT_ETIMEOUT)) ops
      (mb_contents m, queues s (Waiting ob), queues s (Senders ob)) = (results, mails, receivers, senders)"
  shows "\<exists>s' m'. call_run (mb_call ob) ops s = Inr (results, s') \<and> kinv s' \<and> ipcs s' ob = Some (Mailbox p m') \<and> mb_ok m' \<and>
    mb_contents m' = mails \<and> mb_size m' = mb_size m \<and>
    queues s' (Waiting ob) = receivers \<and> queues s' (Senders ob) = senders"
proof -
  have inv: "mb_inv ob p s" and mo: "mailbox_of ob s = m" using assms(1-3) by (auto simp: mb_inv_def mailbox_of_def)
  obtain s' where s': "call_run (mb_call ob) ops s = Inr (results, s')" "mb_inv ob p s'" "mb_view ob s' = (mails, receivers, senders)"
      "unat (mb_size (mailbox_of ob s')) = unat (mb_size m)"
    using mbq.run_refines [OF inv, of ops] assms(4) by (auto simp: mb_view_def mo)
  obtain m' where "kinv s'" "ipcs s' ob = Some (Mailbox p m')" "mb_ok m'" "mailbox_of ob s' = m'"
    using s'(2) by (auto simp: mb_inv_def mailbox_of_def)
  then show ?thesis using s' by (auto simp: mb_view_def word_unat_eq_iff)
qed

theorem rt_mb_fifo_witness:
  "\<exists>s' m'. call_run (mb_call 1) [Enq 5, Enq 6, Enq 7, Deq, Deq, Deq] (sample_ipc [1 \<mapsto> Mailbox sample_parent (new_mailbox [0, 0] 2)]) =
      Inr ([(None, Returned RT_EOK), (None, Returned RT_EOK), (None, Returned (- RT_EFULL)), (Some 5, Returned RT_EOK),
        (Some 6, Returned RT_EOK), (None, Returned (- RT_ETIMEOUT))], s') \<and>
    ipcs s' 1 = Some (Mailbox sample_parent m') \<and> mb_contents m' = [] \<and> queues s' (Waiting 1) = []"
proof -
  let ?m = "new_mailbox [0, 0] 2"
  define s where "s = sample_ipc [1 \<mapsto> Mailbox sample_parent ?m]"
  have k: "kinv s" unfolding s_def by (rule sample_kinv_ipc)
  have h: "ipcs s 1 = Some (Mailbox sample_parent ?m)" "mb_ok ?m" "mb_contents ?m = []" "unat (mb_size ?m) = 2"
      "queues s (Waiting 1) = [2]" "queues s (Senders 1) = []"
    by (simp_all add: s_def sample_ipc_def mb_ok_def new_mailbox_def mb_contents_def)
  have q: "queue_run (unat (mb_size ?m)) (unat (mb_size ?m)) (Returned RT_EOK) (Returned (- RT_EFULL)) (Returned (- RT_ETIMEOUT))
      [Enq 5, Enq 6, Enq 7, Deq, Deq, Deq] (mb_contents ?m, queues s (Waiting 1), queues s (Senders 1)) =
      ([(None, Returned RT_EOK), (None, Returned RT_EOK), (None, Returned (- RT_EFULL)), (Some 5, Returned RT_EOK),
        (Some 6, Returned RT_EOK), (None, Returned (- RT_ETIMEOUT))], [], [], [])"
    unfolding h by simp
  show ?thesis using rt_mb_fifo [OF k h(1,2) q] unfolding s_def by blast
qed

text \<open>A receiver that blocks on an empty mailbox gets exactly the next mail that is sent to it: the send
  returns, wakes it, and its call, continued after any further rescheduling, returns that mail and leaves the
  mailbox empty.\<close>

theorem rt_mb_rendezvous:
  "kinv s \<Longrightarrow> caller s c \<Longrightarrow> ipcs s ob = Some (Mailbox p m) \<Longrightarrow> mb_ok m \<Longrightarrow> mb_entry m = 0 \<Longrightarrow> mb_size m \<noteq> 0 \<Longrightarrow>
   queues s (Waiting ob) = [] \<Longrightarrow> ip_flag p = 0 \<or> ip_flag p = 1 \<Longrightarrow> waits timeout \<Longrightarrow>
   \<exists>s1 s2 s3. rt_mb_recv ob timeout s = Inr (s1, None, Blocked) \<and> \<not> runnable s1 c \<and>
     rt_mb_send ob v s1 = Inr (s2, Returned RT_EOK) \<and> runnable s2 c \<and>
     rt_mb_recv_return ob timeout (rt_tick_get s) c s2 = Inr (s3, Some v, Returned RT_EOK) \<and>
     kinv s3 \<and> mb_contents (mailbox_of ob s3) = []"
proof -
  assume k: "kinv s" and c: "caller s c" and m: "ipcs s ob = Some (Mailbox p m)" "mb_ok m" "mb_entry m = 0" "mb_size m \<noteq> 0"
    and q: "queues s (Waiting ob) = []" and flag: "ip_flag p = 0 \<or> ip_flag p = 1" and w: "waits timeout"
  obtain th where th: "interrupt_nest s = 0" "current_thread s = Some c" "threads s c = Some th" "th_object th"
    "stat_of th = 3" by (rule callerE [OF c])
  define u where "u = th\<lparr> th_error := 0 \<rparr>"
  have ue: "u = th\<lparr> th_error := 0, th_event_set := th_event_set th, th_event_info := th_event_info th \<rparr>"
    by (simp add: u_def)
  obtain s0 s1 where s1: "block_on (Waiting ob) c (ip_flag p) timeout (set_thread c u s) = Inr s0" "rt_schedule s0 = Inr s1"
      "parked s (Waiting ob) c (ip_flag p) timeout s1"
    by (rule park_ok [OF k th(2-5) waiting_queue_simps(1) flag w ue]) (rule that)
  have t0: "timeout \<noteq> 0" using w by (auto simp: waits_def)
  have it: "in_thread (set_thread c u s)" using th by (simp add: in_thread_def rt_thread_self_def set_thread_def)
  have recv: "rt_mb_recv ob timeout s = Inr (s1, None, Blocked)"
    using m th t0 s1(1,2) it
    by (simp add: rt_mb_recv_def mb_recv_loop_def with_mailbox_def with_caller_def rt_thread_self_def set_error_def
        with_thread_def ipc_wait_def u_def)
  have p1: "kinv s1" "ipcs s1 ob = Some (Mailbox p m)" "queues s1 (Waiting ob) = [c]"
      "\<exists>v. threads s1 c = Some v \<and> stat_of v = 2 \<and> th_error v = 0"
    using s1(3) m(1) q by (auto simp: parked_def enqueued_def)
  have c0: "mb_contents m = []" "mb_entry m \<noteq> mb_size m" using m(3,4) by (simp_all add: mb_contents_def)
  obtain s2 m2 where s2: "rt_mb_send_wait ob v 0 s1 = Inr (s2, Returned 0)" "kinv s2"
      "ipcs s2 = (ipcs s1)(ob \<mapsto> Mailbox p m2)" "mb_ok m2" "mb_contents m2 = [v]"
      "wake_first (Waiting ob) (set_ipc ob (Mailbox p m2) s1) = Inr s2"
    by (rule mb_send_room [OF p1(1,2) m(2) c0(2), where v = v and timeout = 0]) (use c0(1) that in simp)
  have kx: "kinv (set_ipc ob (Mailbox p m2) s1)" using p1(1) by simp
  obtain s2' where s2': "wake_first (Waiting ob) (set_ipc ob (Mailbox p m2) s1) = Inr s2'"
      "woken_with (th_error (the (threads s1 c))) s2' c"
    by (rule wake_first_ok [OF kx waiting_queue_simps(1), of ob]) (use p1(3) that in simp)
  have wk: "woken_with 0 s2 c" using s2' s2(6) p1(4) by auto
  have i2: "ipcs s2 ob = Some (Mailbox p m2)" using s2(3) by simp
  obtain s3 m3 where s3: "mb_recv_loop ob (time_left (rt_tick_get s2) (rt_tick_get s) timeout) (Some c) s2 = Inr (s3, Some v, Returned 0)"
      "kinv s3" "ipcs s3 = (ipcs s2)(ob \<mapsto> Mailbox p m3)" "mb_contents m3 = []"
    by (rule mb_recv_some [OF s2(2) i2 s2(4,5)]) (rule that)
  have "rt_mb_recv_return ob timeout (rt_tick_get s) c s2 = Inr (s3, Some v, Returned 0)"
    using wk s3(1) by (auto simp: rt_mb_recv_return_def with_thread_def woken_with_def)
  moreover have "mb_contents (mailbox_of ob s3) = []" using s3(3,4) by (simp add: mailbox_of_def)
  moreover have "\<not> runnable s1 c" using p1(4) by (auto simp: runnable_def)
  ultimately show ?thesis
    using recv s2(1) s3(2) woken_with_runnable [OF wk] unfolding rt_mb_send_def by blast
qed

end
