(* ===== verification/LinkedList.thy ===== *)
theory LinkedList
  imports Prelude
begin

text \<open>
  Singly linked lists as C keeps them: a link field per node and the address of the first node, with
  \<open>None\<close> for \<^verbatim>\<open>RT_NULL\<close>. The message queue and the memory pool keep their nodes on such lists.
\<close>

fun chain :: "('a \<Rightarrow> 'a option) \<Rightarrow> 'a option \<Rightarrow> 'a list \<Rightarrow> bool" where
  "chain nxt p [] \<longleftrightarrow> p = None"
| "chain nxt p (x # xs) \<longleftrightarrow> p = Some x \<and> chain nxt (nxt x) xs"

lemma chain_None [simp]: "chain nxt None xs \<longleftrightarrow> xs = []"
  by (cases xs) auto

lemma chain_Some: "chain nxt (Some x) xs \<longleftrightarrow> (\<exists>ys. xs = x # ys \<and> chain nxt (nxt x) ys)"
  by (cases xs) auto

lemma chain_unique: "chain nxt p xs \<Longrightarrow> chain nxt p ys \<Longrightarrow> xs = ys"
proof (induction xs arbitrary: p ys)
  case (Cons x xs)
  then show ?case by (cases ys) auto
qed auto

lemma chain_upd [simp]: "i \<notin> set xs \<Longrightarrow> chain (nxt(i := v)) p xs = chain nxt p xs"
  by (induction xs arbitrary: p) auto

lemma chain_cong: "(\<And>x. x \<in> set xs \<Longrightarrow> f x = g x) \<Longrightarrow> chain f p xs = chain g p xs"
  by (induction xs arbitrary: p) auto

text \<open>Linking a node behind the last one.\<close>

lemma chain_append:
  "chain nxt p (xs @ [l]) \<Longrightarrow> i \<notin> set (xs @ [l]) \<Longrightarrow> nxt i = None \<Longrightarrow> distinct (xs @ [l]) \<Longrightarrow>
   chain (nxt(l := Some i)) p (xs @ [l, i])"
  by (induction xs arbitrary: p) auto

lemma chain_link:
  assumes "chain nxt p xs" "xs \<noteq> []" "i \<notin> set xs" "nxt i = None" "distinct xs"
  shows "chain (nxt(last xs := Some i)) p (xs @ [i])"
proof -
  obtain ys l where "xs = ys @ [l]" using assms(2) by (cases xs rule: rev_cases) auto
  then show ?thesis using chain_append [of nxt p ys l i] assms by simp
qed

text \<open>The nodes reached in a number of steps.\<close>

fun walk :: "('a \<Rightarrow> 'a option) \<Rightarrow> 'a option \<Rightarrow> nat \<Rightarrow> 'a list" where
  "walk nxt p 0 = []"
| "walk nxt p (Suc n) = (case p of None \<Rightarrow> [] | Some i \<Rightarrow> i # walk nxt (nxt i) n)"

lemma walk_chain: "chain nxt p xs \<Longrightarrow> walk nxt p (length xs) = xs"
  by (induction xs arbitrary: p) auto

text \<open>The initial lists: each node of an array is put in front of those before it.\<close>

definition push_nodes :: "nat \<Rightarrow> (nat \<Rightarrow> nat option) \<Rightarrow> (nat \<Rightarrow> nat option) \<times> nat option" where
  "push_nodes n nxt = fold (\<lambda>i (nxt, free). (nxt(i := free), Some i)) [0 ..< n] (nxt, None)"

lemma push_nodes_chain: "push_nodes n nxt = (nxt', free) \<Longrightarrow> chain nxt' free (rev [0 ..< n])"
proof (induction n arbitrary: nxt' free)
  case 0
  then show ?case by (simp add: push_nodes_def)
next
  case (Suc n)
  obtain nx fr where p: "push_nodes n nxt = (nx, fr)" by (cases "push_nodes n nxt") auto
  then have "nxt' = nx(n := fr)" "free = Some n" using Suc.prems by (auto simp: push_nodes_def)
  then show ?case using Suc.IH [OF p] by (simp del: fun_upd_apply add: fun_upd_same)
qed

end
