(* ===== verification/MsgQueue.thy ===== *)
theory MsgQueue
  imports Mailbox LinkedList
begin

text \<open>
  The message queues of \<^verbatim>\<open>src/ipc.c\<close>, with their links: nodes of the pool move from the free list to
  the tail (or, for an urgent message, the head) of the message list and back. The pieces between
  which the code enables interrupts, while it copies a message, are definitions of their own; each keeps
  the representation \<open>mq_rep\<close>, in which a node may be in neither list.
\<close>

section \<open>The operations\<close>

definition new_mq :: "bytes list \<Rightarrow> u16 \<Rightarrow> u16 \<Rightarrow> messagequeue" where
  "new_mq slots msz n = (case push_nodes (unat n) (\<lambda>_. None) of (nxt, free) \<Rightarrow>
     \<lparr> mq_slots = slots, mq_next = nxt, mq_msg_size = msz, mq_max_msgs = n, mq_entry = 0,
       mq_head = None, mq_tail = None, mq_free = free \<rparr>)"

text \<open>\<open>slots\<close> is what the pool holds behind the links of its nodes.\<close>

definition rt_mq_init :: "nat \<Rightarrow> bytes list \<Rightarrow> u32 \<Rightarrow> u32 \<Rightarrow> u8 \<Rightarrow> isys \<Rightarrow> (isys \<times> rt_err) res" where
  "rt_mq_init ob slots msg_size pool_size flag s = rassert (ipcs s ob = None)
     (rbind (rt_object_init_walk s) (\<lambda>s.
      let msz = ucast (rt_align msg_size 4) :: u16; n = ucast (pool_size div (ucast msz + 4)) :: u16 in
      Inr (set_ipc ob (Messagequeue \<lparr> ip_flag = flag, ip_static = True \<rparr> (new_mq slots msz n)) (init_lists ob s), RT_EOK)))"

definition rt_mq_create ::
    "nat option \<Rightarrow> bytes list option \<Rightarrow> u32 \<Rightarrow> u32 \<Rightarrow> u8 \<Rightarrow> isys \<Rightarrow> (isys \<times> nat option) res" where
  "rt_mq_create alloc pool msg_size max_msgs flag s = rassert (interrupt_nest s = 0)
     (case alloc of None \<Rightarrow> Inr (s, None)
      | Some ob \<Rightarrow> (case pool of None \<Rightarrow> Inr (rt_ipc_object_init ob s, None)
          | Some slots \<Rightarrow>
              Inr (set_ipc ob (Messagequeue \<lparr> ip_flag = flag, ip_static = False \<rparr>
                     (new_mq slots (ucast (rt_align msg_size 4)) (ucast max_msgs))) (init_lists ob s), Some ob)))"

definition rt_mq_detach :: "nat \<Rightarrow> isys \<Rightarrow> (isys \<times> rt_err) res option" where
  "rt_mq_detach ob s =
     (case with_mq ob s (\<lambda>p m. rassert (ip_static p) (Inr s)) of Inl e \<Rightarrow> Some (Inl e)
      | Inr s \<Rightarrow> orbind (resume_both ob s) (\<lambda>s. Some (Inr (drop_ipc ob s, RT_EOK))))"

definition rt_mq_delete :: "nat \<Rightarrow> isys \<Rightarrow> (isys \<times> rt_err) res option" where
  "rt_mq_delete ob s =
     (case rassert (interrupt_nest s = 0) (with_mq ob s (\<lambda>p m. rassert (\<not> ip_static p) (Inr s))) of
        Inl e \<Rightarrow> Some (Inl e)
      | Inr s \<Rightarrow> orbind (resume_both ob s) (\<lambda>s. Some (Inr (drop_ipc ob s, RT_EOK))))"

text \<open>Taking a node from the free list, and putting one back.\<close>

definition mq_grab :: "messagequeue \<Rightarrow> (nat \<times> messagequeue) option" where
  "mq_grab m = (case mq_free m of None \<Rightarrow> None | Some i \<Rightarrow> Some (i, m\<lparr> mq_free := mq_next m i \<rparr>))"

definition mq_release :: "nat \<Rightarrow> messagequeue \<Rightarrow> messagequeue" where
  "mq_release i m = m\<lparr> mq_next := (mq_next m)(i := mq_free m), mq_free := Some i \<rparr>"

text \<open>\<^verbatim>\<open>rt_memcpy(msg + 1, buffer, size)\<close> and back.\<close>

definition mq_write :: "nat \<Rightarrow> bytes \<Rightarrow> u32 \<Rightarrow> messagequeue \<Rightarrow> messagequeue res" where
  "mq_write i buffer sz m = (if i < length (mq_slots m)
     then rbind (memcpy (mq_slots m ! i) 0 buffer 0 (uint sz)) (\<lambda>b. Inr (m\<lparr> mq_slots := (mq_slots m)[i := b] \<rparr>))
     else Inl Out_of_bounds)"

definition mq_read :: "nat \<Rightarrow> u32 \<Rightarrow> messagequeue \<Rightarrow> bytes res" where
  "mq_read i sz m =
     (let n = unat (if sz > ucast (mq_msg_size m) then ucast (mq_msg_size m) else sz) in
      if i < length (mq_slots m) \<and> n \<le> length (mq_slots m ! i) then Inr (take n (mq_slots m ! i)) else Inl Out_of_bounds)"

text \<open>Linking a node to the tail or to the head of the messages, and unlinking the first.\<close>

definition mq_append :: "nat \<Rightarrow> messagequeue \<Rightarrow> messagequeue" where
  "mq_append i m =
     (let m = (case mq_tail m of None \<Rightarrow> m | Some l \<Rightarrow> m\<lparr> mq_next := (mq_next m)(l := Some i) \<rparr>);
          m = m\<lparr> mq_tail := Some i \<rparr>;
          m = (if mq_head m = None then m\<lparr> mq_head := Some i \<rparr> else m) in
      m\<lparr> mq_entry := mq_entry m + 1 \<rparr>)"

definition mq_prepend :: "nat \<Rightarrow> messagequeue \<Rightarrow> messagequeue" where
  "mq_prepend i m =
     (let m = m\<lparr> mq_next := (mq_next m)(i := mq_head m), mq_head := Some i \<rparr>;
          m = (if mq_tail m = None then m\<lparr> mq_tail := Some i \<rparr> else m) in
      m\<lparr> mq_entry := mq_entry m + 1 \<rparr>)"

definition mq_unlink :: "messagequeue \<Rightarrow> (nat \<times> messagequeue) res" where
  "mq_unlink m = (case mq_head m of None \<Rightarrow> Inl Null_pointer
     | Some i \<Rightarrow> Inr (i, m\<lparr> mq_head := mq_next m i, mq_tail := (if mq_tail m = Some i then None else mq_tail m) \<rparr>))"

text \<open>From the test of the loop on.\<close>

definition mq_send_loop :: "nat \<Rightarrow> bytes \<Rightarrow> u32 \<Rightarrow> int \<Rightarrow> nat option \<Rightarrow> isys \<Rightarrow> (isys \<times> outcome) res" where
  "mq_send_loop ob buffer sz timeout self s = with_mq ob s (\<lambda>p m.
     case mq_grab m of
       None \<Rightarrow> with_caller self (\<lambda>t. rbind (set_error t RT_EOK s) (\<lambda>s.
         if timeout = 0 then Inr (s, Returned (- RT_EFULL))
         else rbind (ipc_wait (Senders ob) t (ip_flag p) timeout s) (\<lambda>s. Inr (s, Blocked))))
     | Some (i, m) \<Rightarrow>
         rbind (mq_write i buffer sz (m\<lparr> mq_next := (mq_next m)(i := None) \<rparr>)) (\<lambda>m.
         rbind (wake_first (Waiting ob) (set_ipc ob (Messagequeue p (mq_append i m)) s)) (\<lambda>s.
         Inr (s, Returned RT_EOK))))"

definition rt_mq_send_wait :: "nat \<Rightarrow> bytes \<Rightarrow> u32 \<Rightarrow> int \<Rightarrow> isys \<Rightarrow> (isys \<times> outcome) res" where
  "rt_mq_send_wait ob buffer sz timeout s = with_mq ob s (\<lambda>p m. rassert (sz \<noteq> 0)
     (if sz > ucast (mq_msg_size m) then Inr (s, Returned (- RT_ERROR))
      else if mq_free m = None \<and> timeout = 0 then Inr (s, Returned (- RT_EFULL))
      else mq_send_loop ob buffer sz timeout (rt_thread_self s) s))"

definition rt_mq_send_wait_return ::
    "nat \<Rightarrow> bytes \<Rightarrow> u32 \<Rightarrow> int \<Rightarrow> u32 \<Rightarrow> nat \<Rightarrow> isys \<Rightarrow> (isys \<times> outcome) res" where
  "rt_mq_send_wait_return ob buffer sz timeout start t s = with_thread t s (\<lambda>th.
     if th_error th \<noteq> RT_EOK then Inr (s, Returned (th_error th))
     else mq_send_loop ob buffer sz (time_left (rt_tick_get s) start timeout) (Some t) s)"

definition rt_mq_send :: "nat \<Rightarrow> bytes \<Rightarrow> u32 \<Rightarrow> isys \<Rightarrow> (isys \<times> outcome) res" where
  "rt_mq_send ob buffer sz s = rt_mq_send_wait ob buffer sz 0 s"

definition rt_mq_urgent :: "nat \<Rightarrow> bytes \<Rightarrow> u32 \<Rightarrow> isys \<Rightarrow> (isys \<times> outcome) res" where
  "rt_mq_urgent ob buffer sz s = with_mq ob s (\<lambda>p m. rassert (sz \<noteq> 0)
     (if sz > ucast (mq_msg_size m) then Inr (s, Returned (- RT_ERROR))
      else case mq_grab m of
        None \<Rightarrow> Inr (s, Returned (- RT_EFULL))
      | Some (i, m) \<Rightarrow>
          rbind (mq_write i buffer sz m) (\<lambda>m.
          rbind (wake_first (Waiting ob) (set_ipc ob (Messagequeue p (mq_prepend i m)) s)) (\<lambda>s.
          Inr (s, Returned RT_EOK)))))"

definition mq_recv_loop :: "nat \<Rightarrow> u32 \<Rightarrow> int \<Rightarrow> nat option \<Rightarrow> isys \<Rightarrow> (isys \<times> bytes option \<times> outcome) res" where
  "mq_recv_loop ob sz timeout self s = with_mq ob s (\<lambda>p m.
     if mq_entry m = 0
     then rassert (in_thread s) (with_caller self (\<lambda>t. rbind (set_error t RT_EOK s) (\<lambda>s.
       if timeout = 0 then rbind (set_error t (- RT_ETIMEOUT) s) (\<lambda>s. Inr (s, None, Returned (- RT_ETIMEOUT)))
       else rbind (ipc_wait (Waiting ob) t (ip_flag p) timeout s) (\<lambda>s. Inr (s, None, Blocked)))))
     else rbind (mq_unlink m) (\<lambda>(i, m).
          let m = m\<lparr> mq_entry := mq_entry m - 1 \<rparr> in
          rbind (mq_read i sz m) (\<lambda>b.
          rbind (wake_first (Senders ob) (set_ipc ob (Messagequeue p (mq_release i m)) s)) (\<lambda>s.
          Inr (s, Some b, Returned RT_EOK)))))"

text \<open>The second component is what is written to the buffer, from its beginning.\<close>

definition rt_mq_recv :: "nat \<Rightarrow> u32 \<Rightarrow> int \<Rightarrow> isys \<Rightarrow> (isys \<times> bytes option \<times> outcome) res" where
  "rt_mq_recv ob sz timeout s = with_mq ob s (\<lambda>p m. rassert (sz \<noteq> 0)
     (if mq_entry m = 0 \<and> timeout = 0 then Inr (s, None, Returned (- RT_ETIMEOUT))
      else mq_recv_loop ob sz timeout (rt_thread_self s) s))"

definition rt_mq_recv_return ::
    "nat \<Rightarrow> u32 \<Rightarrow> int \<Rightarrow> u32 \<Rightarrow> nat \<Rightarrow> isys \<Rightarrow> (isys \<times> bytes option \<times> outcome) res" where
  "rt_mq_recv_return ob sz timeout start t s = with_thread t s (\<lambda>th.
     if th_error th \<noteq> RT_EOK then Inr (s, None, Returned (th_error th))
     else mq_recv_loop ob sz (time_left (rt_tick_get s) start timeout) (Some t) s)"

text \<open>The loop that empties a queue ends when its links reach \<^verbatim>\<open>RT_NULL\<close>.\<close>

partial_function (option) mq_clear :: "messagequeue \<Rightarrow> messagequeue option" where
  "mq_clear m = (case mq_unlink m of Inl _ \<Rightarrow> Some m | Inr (i, m) \<Rightarrow> mq_clear (mq_release i m))"

definition rt_mq_control :: "nat \<Rightarrow> ipc_cmd \<Rightarrow> isys \<Rightarrow> (isys \<times> rt_err) res option" where
  "rt_mq_control ob cmd s =
     (case with_mq ob s (\<lambda>p m. Inr (p, m)) of Inl e \<Rightarrow> Some (Inl e)
      | Inr (p, m) \<Rightarrow> (case cmd of
          Ipc_reset _ \<Rightarrow> orbind (resume_both ob s) (\<lambda>s.
            case mq_clear m of None \<Rightarrow> None
            | Some m \<Rightarrow> Some (rbind (rt_schedule (set_ipc ob (Messagequeue p (m\<lparr> mq_entry := 0 \<rparr>)) s))
                               (\<lambda>s. Inr (s, RT_EOK))))
        | Ipc_other_cmd \<Rightarrow> Some (Inr (s, - RT_ERROR))))"

section \<open>The representation\<close>

text \<open>\<open>q\<close> are the nodes that hold messages, in order, \<open>f\<close> the free ones, \<open>fl\<close> those being filled or read.\<close>

definition mq_rep :: "messagequeue \<Rightarrow> nat list \<Rightarrow> nat list \<Rightarrow> nat list \<Rightarrow> bool" where
  "mq_rep m q f fl \<longleftrightarrow> chain (mq_next m) (mq_head m) q \<and> chain (mq_next m) (mq_free m) f \<and>
     distinct (q @ f @ fl) \<and> set (q @ f @ fl) = {..< unat (mq_max_msgs m)} \<and>
     unat (mq_entry m) = length q \<and> mq_tail m = (if q = [] then None else Some (last q)) \<and>
     length (mq_slots m) = unat (mq_max_msgs m) \<and> (\<forall>b \<in> set (mq_slots m). length b = unat (mq_msg_size m))"

lemma mq_rep_length:
  assumes "mq_rep m q f fl"
  shows "length q + length f + length fl = unat (mq_max_msgs m)"
proof -
  have "card (set (q @ f @ fl)) = unat (mq_max_msgs m)" using assms by (simp add: mq_rep_def del: set_append)
  then show ?thesis using assms distinct_card [of "q @ f @ fl"] by (simp add: mq_rep_def del: set_append)
qed

lemma new_mq_rep:
  assumes "length slots = unat n" "\<forall>b \<in> set slots. length b = unat msz"
  shows "mq_rep (new_mq slots msz n) [] (rev [0 ..< unat n]) []"
proof -
  obtain nxt free where p: "push_nodes (unat n) (\<lambda>_. None) = (nxt, free)" by (cases "push_nodes (unat n) (\<lambda>_. None)") auto
  show ?thesis using assms push_nodes_chain [OF p] by (auto simp: mq_rep_def new_mq_def p)
qed

lemma mq_grab_rep:
  assumes "mq_rep m q f fl"
  shows "(f = [] \<and> mq_free m = None \<and> mq_grab m = None) \<or>
    (\<exists>i f'. f = i # f' \<and> mq_free m = Some i \<and> mq_grab m = Some (i, m\<lparr> mq_free := mq_next m i \<rparr>) \<and>
       mq_rep (m\<lparr> mq_free := mq_next m i \<rparr>) q f' (i # fl))"
proof (cases f)
  case Nil
  then show ?thesis using assms by (simp add: mq_rep_def mq_grab_def)
next
  case (Cons i f')
  then have "mq_free m = Some i" "chain (mq_next m) (mq_next m i) f'" using assms by (simp_all add: mq_rep_def)
  then show ?thesis using assms Cons by (auto simp: mq_rep_def mq_grab_def)
qed

lemma mq_release_rep:
  assumes "mq_rep m q f (i # fl)"
  shows "mq_rep (mq_release i m) q (i # f) fl"
  using assms by (auto simp: mq_rep_def mq_release_def simp del: fun_upd_apply simp add: fun_upd_same)

lemma mq_unlink_next_rep:
  assumes "mq_rep m q f (i # fl)"
  shows "mq_rep (m\<lparr> mq_next := (mq_next m)(i := v) \<rparr>) q f (i # fl)"
  using assms by (simp add: mq_rep_def del: fun_upd_apply)

lemma mq_append_rep:
  assumes r: "mq_rep m q f (i # fl)" and n: "mq_next m i = None"
  shows "mq_rep (mq_append i m) (q @ [i]) f fl"
proof -
  have len: "unat (mq_entry m) + 1 \<le> unat (mq_max_msgs m)"
    using mq_rep_length [OF r] r by (simp add: mq_rep_def)
  have e: "unat (mq_entry m + 1) = length q + 1"
    using len r unat_u16_less [of "mq_max_msgs m"] by (simp add: unat_word_ariths mq_rep_def)
  show ?thesis
  proof (cases "q = []")
    case True
    then have h: "mq_head m = None" "mq_tail m = None" using r by (simp_all add: mq_rep_def)
    have "mq_append i m = m\<lparr> mq_tail := Some i, mq_head := Some i, mq_entry := mq_entry m + 1 \<rparr>"
      by (simp add: mq_append_def h)
    then show ?thesis using r n e True by (auto simp: mq_rep_def)
  next
    case False
    then have h: "mq_head m \<noteq> None" "mq_tail m = Some (last q)" using r by (auto simp: mq_rep_def)
    have a: "mq_append i m =
        m\<lparr> mq_next := (mq_next m)(last q := Some i), mq_tail := Some i, mq_entry := mq_entry m + 1 \<rparr>"
      using h by (simp add: mq_append_def Let_def)
    have l: "last q \<in> set q" using False by simp
    have c: "chain ((mq_next m)(last q := Some i)) (mq_head m) (q @ [i])"
      by (rule chain_link) (use r n False in \<open>auto simp: mq_rep_def\<close>)
    have "last q \<notin> set f" using r l by (auto simp: mq_rep_def)
    then have "chain ((mq_next m)(last q := Some i)) (mq_free m) f" using r by (simp add: mq_rep_def)
    then show ?thesis using r c e unfolding a by (auto simp: mq_rep_def simp del: fun_upd_apply)
  qed
qed

lemma mq_prepend_rep:
  assumes r: "mq_rep m q f (i # fl)"
  shows "mq_rep (mq_prepend i m) (i # q) f fl"
proof -
  have len: "unat (mq_entry m) + 1 \<le> unat (mq_max_msgs m)"
    using mq_rep_length [OF r] r by (simp add: mq_rep_def)
  have e: "unat (mq_entry m + 1) = length q + 1"
    using len r unat_u16_less [of "mq_max_msgs m"] by (simp add: unat_word_ariths mq_rep_def)
  define t where "t = (if q = [] then i else last q)"
  have "mq_prepend i m = m\<lparr> mq_next := (mq_next m)(i := mq_head m), mq_head := Some i, mq_tail := Some t, mq_entry := mq_entry m + 1 \<rparr>"
    using r by (auto simp: mq_prepend_def Let_def mq_rep_def t_def)
  then show ?thesis
    using r e by (auto simp: mq_rep_def t_def simp del: fun_upd_apply simp add: fun_upd_same)
qed

lemma mq_unlink_rep:
  assumes r: "mq_rep m (i # q) f fl"
  shows "\<exists>m'. mq_unlink m = Inr (i, m') \<and> mq_rep (m'\<lparr> mq_entry := mq_entry m' - 1 \<rparr>) q f (i # fl) \<and>
    mq_slots m' = mq_slots m \<and> mq_msg_size m' = mq_msg_size m \<and> mq_max_msgs m' = mq_max_msgs m"
proof -
  have h: "mq_head m = Some i" "chain (mq_next m) (mq_next m i) q" "mq_tail m = Some (last (i # q))"
    using r by (simp_all add: mq_rep_def)
  have e: "unat (mq_entry m - 1) = length q" using r by (simp add: mq_rep_def unat_sub_if' word_le_nat_alt)
  have t: "(if mq_tail m = Some i then None else mq_tail m) = (if q = [] then None else Some (last q))"
    using h(3) r by (auto simp: mq_rep_def)
  let ?m = "m\<lparr> mq_head := mq_next m i, mq_tail := (if q = [] then None else Some (last q)) \<rparr>"
  have "mq_unlink m = Inr (i, ?m)" by (simp add: mq_unlink_def h(1) t)
  moreover have "mq_rep (?m\<lparr> mq_entry := mq_entry ?m - 1 \<rparr>) q f (i # fl)"
    using r h(2) e by (auto simp: mq_rep_def)
  ultimately show ?thesis by (intro exI [of _ ?m]) simp
qed

section \<open>What the messages are\<close>

text \<open>Each node begins with the message that was sent.\<close>

definition mq_holds :: "messagequeue \<Rightarrow> nat list \<Rightarrow> bytes list \<Rightarrow> bool" where
  "mq_holds m q A \<longleftrightarrow> list_all2 (\<lambda>i b. length b \<le> unat (mq_msg_size m) \<and> take (length b) (mq_slots m ! i) = b) q A"

lemma mq_holds_length: "mq_holds m q A \<Longrightarrow> length q = length A"
  by (simp add: mq_holds_def list_all2_lengthD)

lemma mq_holds_cong:
  assumes "\<And>i. i \<in> set q \<Longrightarrow> mq_slots m' ! i = mq_slots m ! i" "mq_msg_size m' = mq_msg_size m"
  shows "mq_holds m' q A = mq_holds m q A"
  unfolding mq_holds_def assms(2) by (rule list.rel_cong) (use assms(1) in auto)

lemma mq_write_ok:
  assumes r: "mq_rep m q f (i # fl)" and b: "length b = unat sz" "unat sz \<le> unat (mq_msg_size m)"
  obtains m' where "mq_write i b sz m = Inr m'" "mq_rep m' q f (i # fl)" "take (length b) (mq_slots m' ! i) = b"
    "\<And>j. j \<noteq> i \<Longrightarrow> mq_slots m' ! j = mq_slots m ! j" "mq_msg_size m' = mq_msg_size m" "mq_max_msgs m' = mq_max_msgs m"
    "mq_next m' = mq_next m"
proof -
  have i: "i < length (mq_slots m)" using r by (auto simp: mq_rep_def)
  then have l: "length (mq_slots m ! i) = unat (mq_msg_size m)" using r by (auto simp: mq_rep_def)
  have c: "memcpy (mq_slots m ! i) 0 b 0 (uint sz) = Inr (b @ drop (length b) (mq_slots m ! i))"
    using b l by (simp add: memcpy_def blit_def)
  let ?m = "m\<lparr> mq_slots := (mq_slots m)[i := b @ drop (length b) (mq_slots m ! i)] \<rparr>"
  have run: "mq_write i b sz m = Inr ?m" using i by (simp add: mq_write_def c)
  have "mq_rep ?m q f (i # fl)"
    using r b l by (auto simp: mq_rep_def set_update_memI dest!: set_update_subset_insert [THEN subsetD])
  then show thesis using that [OF run] i by simp
qed

lemma mq_read_ok:
  assumes r: "mq_rep m q f (i # fl)" and b: "length b \<le> unat (mq_msg_size m)" "take (length b) (mq_slots m ! i) = b"
  obtains b' where "mq_read i sz m = Inr b'" "take (length (take (unat sz) b)) b' = take (unat sz) b"
proof -
  have i: "i < length (mq_slots m)" using r by (auto simp: mq_rep_def)
  then have l: "length (mq_slots m ! i) = unat (mq_msg_size m)" using r by (auto simp: mq_rep_def)
  have n: "unat (if sz > ucast (mq_msg_size m) then ucast (mq_msg_size m) else sz) = min (unat sz) (unat (mq_msg_size m))"
    by (auto simp: word_less_nat_alt min_def)
  have run: "mq_read i sz m = Inr (take (min (unat sz) (unat (mq_msg_size m))) (mq_slots m ! i))"
    using i l unfolding mq_read_def n Let_def by simp
  have "take (length (take (unat sz) b)) (take (min (unat sz) (unat (mq_msg_size m))) (mq_slots m ! i)) =
      take (unat sz) (take (length b) (mq_slots m ! i))"
    using b(1) by (simp add: min_def)
  also have "\<dots> = take (unat sz) b" by (simp only: b(2))
  finally show thesis by (rule that [OF run])
qed

section \<open>The abstract queue\<close>

datatype mq_op = Mq_send bytes | Mq_urgent bytes | Mq_recv u32 | Mq_reset

fun mq_spec :: "nat \<Rightarrow> nat \<Rightarrow> mq_op \<Rightarrow> bytes list \<Rightarrow> bytes list \<times> bytes option \<times> rt_err" where
  "mq_spec room msz (Mq_send b) A =
     (if length b > msz then (A, None, - RT_ERROR) else if length A = room then (A, None, - RT_EFULL)
      else (A @ [b], None, RT_EOK))"
| "mq_spec room msz (Mq_urgent b) A =
     (if length b > msz then (A, None, - RT_ERROR) else if length A = room then (A, None, - RT_EFULL)
      else (b # A, None, RT_EOK))"
| "mq_spec room msz (Mq_recv n) A =
     (case A of [] \<Rightarrow> ([], None, - RT_ETIMEOUT) | b # A' \<Rightarrow> (A', Some (take (unat n) b), RT_EOK))"
| "mq_spec room msz Mq_reset A = ([], None, RT_EOK)"

text \<open>The non-blocking calls of the code.\<close>

definition mq_do :: "nat \<Rightarrow> mq_op \<Rightarrow> isys \<Rightarrow> (isys \<times> bytes option \<times> outcome) res option" where
  "mq_do ob c s = (case c of
     Mq_send b \<Rightarrow> Some (rbind (rt_mq_send ob b (word_of_nat (length b)) s) (\<lambda>(s, r). Inr (s, None, r)))
   | Mq_urgent b \<Rightarrow> Some (rbind (rt_mq_urgent ob b (word_of_nat (length b)) s) (\<lambda>(s, r). Inr (s, None, r)))
   | Mq_recv n \<Rightarrow> Some (rt_mq_recv ob n 0 s)
   | Mq_reset \<Rightarrow> orbind (rt_mq_control ob (Ipc_reset 0) s) (\<lambda>(s, e). Some (Inr (s, None, Returned e))))"

fun mq_op_ok :: "mq_op \<Rightarrow> bool" where
  "mq_op_ok (Mq_send b) \<longleftrightarrow> b \<noteq> [] \<and> length b < 2 ^ 32"
| "mq_op_ok (Mq_urgent b) \<longleftrightarrow> b \<noteq> [] \<and> length b < 2 ^ 32"
| "mq_op_ok (Mq_recv n) \<longleftrightarrow> n \<noteq> 0"
| "mq_op_ok Mq_reset \<longleftrightarrow> True"

text \<open>The state of the kernel stands for a list of messages.\<close>

definition mq_sim :: "nat \<Rightarrow> nat \<Rightarrow> nat \<Rightarrow> isys \<Rightarrow> bytes list \<Rightarrow> bool" where
  "mq_sim ob room msz s A \<longleftrightarrow> kinv s \<and> (\<exists>p m q f. ipcs s ob = Some (Messagequeue p m) \<and> mq_rep m q f [] \<and>
     mq_holds m q A \<and> room = unat (mq_max_msgs m) \<and> msz = unat (mq_msg_size m))"

lemma mq_simI:
  "kinv s \<Longrightarrow> ipcs s ob = Some (Messagequeue p m) \<Longrightarrow> mq_rep m q f [] \<Longrightarrow> mq_holds m q A \<Longrightarrow>
   mq_sim ob (unat (mq_max_msgs m)) (unat (mq_msg_size m)) s A"
  unfolding mq_sim_def by blast

lemma mq_commit:
  assumes k: "kinv s" and q: "waiting_queue wq"
  obtains s' where "wake_first wq (set_ipc ob (Messagequeue p m) s) = Inr s'" "kinv s'" "ipcs s' ob = Some (Messagequeue p m)"
proof -
  have k1: "kinv (set_ipc ob (Messagequeue p m) s)" using k by simp
  obtain s' where "wake_first wq (set_ipc ob (Messagequeue p m) s) = Inr s'" "kinv s'"
      "ipcs s' = ipcs (set_ipc ob (Messagequeue p m) s)"
    by (rule wake_first_ok [OF k1 q]) (rule that)
  then show thesis using that by simp
qed

text \<open>A node is taken, filled and linked.\<close>

lemma mq_fill:
  assumes k: "kinv s" and r: "mq_rep m q (i # f) []" and h: "mq_holds m q A"
    and b: "length b = unat sz" "unat sz \<le> unat (mq_msg_size m)"
    and m1: "m1 = m\<lparr> mq_free := mq_next m i \<rparr> \<or> m1 = m\<lparr> mq_free := mq_next m i, mq_next := (mq_next m)(i := None) \<rparr>"
  obtains m2 where "mq_write i b sz m1 = Inr m2" "mq_rep m2 q f [i]" "mq_next m2 = mq_next m1"
    "mq_holds m2 q A" "mq_holds m2 [i] [b]" "mq_msg_size m2 = mq_msg_size m" "mq_max_msgs m2 = mq_max_msgs m"
proof -
  have free: "mq_free m = Some i" using r by (simp add: mq_rep_def)
  have r0: "mq_rep (m\<lparr> mq_free := mq_next m i \<rparr>) q f [i]" using mq_grab_rep [OF r] free by auto
  have r1: "mq_rep m1 q f [i]" using m1 r0 mq_unlink_next_rep [OF r0, of None] by auto
  have sz1: "mq_msg_size m1 = mq_msg_size m" "mq_max_msgs m1 = mq_max_msgs m" "mq_slots m1 = mq_slots m" using m1 by auto
  obtain m2 where m2: "mq_write i b sz m1 = Inr m2" "mq_rep m2 q f [i]" "take (length b) (mq_slots m2 ! i) = b"
      "\<And>j. j \<noteq> i \<Longrightarrow> mq_slots m2 ! j = mq_slots m1 ! j" "mq_msg_size m2 = mq_msg_size m1" "mq_max_msgs m2 = mq_max_msgs m1"
      "mq_next m2 = mq_next m1"
    by (rule mq_write_ok [OF r1 b(1)]) (use b(2) sz1 that in auto)
  have "i \<notin> set q" using r by (auto simp: mq_rep_def)
  then have "mq_holds m2 q A" using h m2(4,5) sz1 mq_holds_cong [of q m2 m A] by force
  moreover have "mq_holds m2 [i] [b]" using m2(3,5) b sz1 by (simp add: mq_holds_def)
  ultimately show thesis using that m2 sz1 by simp
qed

lemma mq_linked_fields [simp]:
  "mq_slots (mq_append i m) = mq_slots m" "mq_msg_size (mq_append i m) = mq_msg_size m"
  "mq_max_msgs (mq_append i m) = mq_max_msgs m" "mq_slots (mq_prepend i m) = mq_slots m"
  "mq_msg_size (mq_prepend i m) = mq_msg_size m" "mq_max_msgs (mq_prepend i m) = mq_max_msgs m"
  "mq_slots (mq_release i m) = mq_slots m" "mq_msg_size (mq_release i m) = mq_msg_size m"
  "mq_max_msgs (mq_release i m) = mq_max_msgs m"
  by (simp_all add: mq_append_def mq_prepend_def mq_release_def Let_def split: option.split)

lemma mq_holds_same: "mq_slots m' = mq_slots m \<Longrightarrow> mq_msg_size m' = mq_msg_size m \<Longrightarrow> mq_holds m' q A = mq_holds m q A"
  by (simp add: mq_holds_def)

lemma mq_full:
  assumes r: "mq_rep m q f []" and h: "mq_holds m q A"
  shows "length A = unat (mq_max_msgs m) \<longleftrightarrow> f = []"
  using mq_rep_length [OF r] mq_holds_length [OF h] by auto

lemma send_size:
  assumes "length b < 2 ^ 32" "b \<noteq> []"
  shows "length b = unat (word_of_nat (length b) :: u32)" "(word_of_nat (length b) :: u32) \<noteq> 0"
proof -
  show u: "length b = unat (word_of_nat (length b) :: u32)" using assms(1) by (simp add: unat_of_nat)
  show "(word_of_nat (length b) :: u32) \<noteq> 0" using u assms(2) by (metis length_0_conv unat_0)
qed

lemma mq_send_sim:
  assumes sim: "mq_sim ob room msz s A" and b: "b \<noteq> []" "length b < 2 ^ 32"
    and spec: "mq_spec room msz (Mq_send b) A = (A', got, e)"
  shows "\<exists>s'. mq_do ob (Mq_send b) s = Some (Inr (s', got, Returned e)) \<and> mq_sim ob room msz s' A'"
proof -
  obtain p m q f where k: "kinv s" and m: "ipcs s ob = Some (Messagequeue p m)" and r: "mq_rep m q f []"
    and h: "mq_holds m q A" and rm: "room = unat (mq_max_msgs m)" "msz = unat (mq_msg_size m)"
    using sim by (auto simp: mq_sim_def)
  define sz where "sz = (word_of_nat (length b) :: u32)"
  note sz = send_size [OF b(2,1), folded sz_def]
  have big: "sz > ucast (mq_msg_size m) \<longleftrightarrow> length b > msz" using sz(1) rm(2) by (simp add: word_less_nat_alt)
  show ?thesis
  proof (cases "length b > msz \<or> f = []")
    case True
    then have "mq_do ob (Mq_send b) s = Some (Inr (s, got, Returned e)) \<and> A' = A"
      using spec sz m big mq_full [OF r h] mq_grab_rep [OF r] rm(1)
      by (auto simp: mq_do_def rt_mq_send_def rt_mq_send_wait_def with_mq_def sz_def [symmetric])
    then show ?thesis using sim by blast
  next
    case False
    then obtain i f' where f: "f = i # f'" by (cases f) auto
    have g: "mq_free m = Some i" "mq_grab m = Some (i, m\<lparr> mq_free := mq_next m i \<rparr>)"
      using mq_grab_rep [OF r] f by auto
    define m1 where "m1 = m\<lparr> mq_free := mq_next m i, mq_next := (mq_next m)(i := None) \<rparr>"
    have n1: "mq_next m1 i = None" by (simp add: m1_def)
    obtain m2 where m2: "mq_write i b sz m1 = Inr m2" "mq_rep m2 q f' [i]" "mq_next m2 = mq_next m1"
        "mq_holds m2 q A" "mq_holds m2 [i] [b]" "mq_msg_size m2 = mq_msg_size m" "mq_max_msgs m2 = mq_max_msgs m"
      by (rule mq_fill [OF k r [unfolded f] h sz(1), of m1]) (use False sz(1) rm(2) m1_def that in auto)
    define m3 where "m3 = mq_append i m2"
    have r3: "mq_rep m3 (q @ [i]) f' []" unfolding m3_def by (rule mq_append_rep [OF m2(2)]) (simp add: m2(3) n1)
    have h3: "mq_holds m3 (q @ [i]) (A @ [b])"
      using m2(4,5) by (simp add: m3_def mq_holds_def list_all2_appendI)
    obtain s' where s': "wake_first (Waiting ob) (set_ipc ob (Messagequeue p m3) s) = Inr s'" "kinv s'"
        "ipcs s' ob = Some (Messagequeue p m3)"
      by (rule mq_commit [OF k waiting_queue_simps(1)]) (rule that)
    have mw: "mq_write i b sz (m\<lparr> mq_free := mq_next m i, mq_next := (mq_next m)(i := None) \<rparr>) = Inr m2"
      using m2(1) by (simp add: m1_def)
    have "mq_do ob (Mq_send b) s = Some (Inr (s', None, Returned 0))"
      using False sz m big g mw s'(1)
      by (simp add: mq_do_def rt_mq_send_def rt_mq_send_wait_def mq_send_loop_def with_mq_def sz_def [symmetric]
          m3_def [symmetric])
    moreover have "A' = A @ [b] \<and> got = None \<and> e = 0" using spec False mq_full [OF r h] rm(1) by auto
    moreover have "mq_sim ob room msz s' (A @ [b])"
      using mq_simI [OF s'(2,3) r3 h3] m2(6,7) rm by (simp add: m3_def)
    ultimately show ?thesis by blast
  qed
qed

lemma mq_urgent_sim:
  assumes sim: "mq_sim ob room msz s A" and b: "b \<noteq> []" "length b < 2 ^ 32"
    and spec: "mq_spec room msz (Mq_urgent b) A = (A', got, e)"
  shows "\<exists>s'. mq_do ob (Mq_urgent b) s = Some (Inr (s', got, Returned e)) \<and> mq_sim ob room msz s' A'"
proof -
  obtain p m q f where k: "kinv s" and m: "ipcs s ob = Some (Messagequeue p m)" and r: "mq_rep m q f []"
    and h: "mq_holds m q A" and rm: "room = unat (mq_max_msgs m)" "msz = unat (mq_msg_size m)"
    using sim by (auto simp: mq_sim_def)
  define sz where "sz = (word_of_nat (length b) :: u32)"
  note sz = send_size [OF b(2,1), folded sz_def]
  have big: "sz > ucast (mq_msg_size m) \<longleftrightarrow> length b > msz" using sz(1) rm(2) by (simp add: word_less_nat_alt)
  show ?thesis
  proof (cases "length b > msz \<or> f = []")
    case True
    then have "mq_do ob (Mq_urgent b) s = Some (Inr (s, got, Returned e)) \<and> A' = A"
      using spec sz m big mq_full [OF r h] mq_grab_rep [OF r] rm(1)
      by (auto simp: mq_do_def rt_mq_urgent_def with_mq_def sz_def [symmetric])
    then show ?thesis using sim by blast
  next
    case False
    then obtain i f' where f: "f = i # f'" by (cases f) auto
    define m1 where "m1 = m\<lparr> mq_free := mq_next m i \<rparr>"
    have g: "mq_grab m = Some (i, m1)" using mq_grab_rep [OF r] f by (auto simp: m1_def)
    obtain m2 where m2: "mq_write i b sz m1 = Inr m2" "mq_rep m2 q f' [i]"
        "mq_holds m2 q A" "mq_holds m2 [i] [b]" "mq_msg_size m2 = mq_msg_size m" "mq_max_msgs m2 = mq_max_msgs m"
      by (rule mq_fill [OF k r [unfolded f] h sz(1), of m1]) (use False sz(1) rm(2) m1_def that in auto)
    define m3 where "m3 = mq_prepend i m2"
    have r3: "mq_rep m3 (i # q) f' []" unfolding m3_def by (rule mq_prepend_rep [OF m2(2)])
    have h3: "mq_holds m3 (i # q) (b # A)" using m2(3,4) by (simp add: m3_def mq_holds_def)
    obtain s' where s': "wake_first (Waiting ob) (set_ipc ob (Messagequeue p m3) s) = Inr s'" "kinv s'"
        "ipcs s' ob = Some (Messagequeue p m3)"
      by (rule mq_commit [OF k waiting_queue_simps(1)]) (rule that)
    have "mq_do ob (Mq_urgent b) s = Some (Inr (s', None, Returned 0))"
      using False sz m big g m2(1) s'(1)
      by (simp add: mq_do_def rt_mq_urgent_def with_mq_def sz_def [symmetric] m3_def [symmetric])
    moreover have "A' = b # A \<and> got = None \<and> e = 0" using spec False mq_full [OF r h] rm(1) by auto
    moreover have "mq_sim ob room msz s' (b # A)"
      using mq_simI [OF s'(2,3) r3 h3] m2(5,6) rm by (simp add: m3_def)
    ultimately show ?thesis by blast
  qed
qed

text \<open>A received buffer begins with the message.\<close>

definition got_ok :: "bytes option \<Rightarrow> bytes option \<Rightarrow> bool" where
  "got_ok got buf \<longleftrightarrow> rel_option (\<lambda>b b'. take (length b) b' = b) got buf"

lemma mq_recv_sim:
  assumes sim: "mq_sim ob room msz s A" and n: "n \<noteq> 0" and spec: "mq_spec room msz (Mq_recv n) A = (A', got, e)"
  shows "\<exists>s' buf. mq_do ob (Mq_recv n) s = Some (Inr (s', buf, Returned e)) \<and> got_ok got buf \<and> mq_sim ob room msz s' A'"
proof -
  obtain p m q f where k: "kinv s" and m: "ipcs s ob = Some (Messagequeue p m)" and r: "mq_rep m q f []"
    and h: "mq_holds m q A" and rm: "room = unat (mq_max_msgs m)" "msz = unat (mq_msg_size m)"
    using sim by (auto simp: mq_sim_def)
  have ent: "unat (mq_entry m) = length A" using r mq_holds_length [OF h] by (simp add: mq_rep_def)
  show ?thesis
  proof (cases A)
    case Nil
    then have "mq_entry m = 0" using ent by (simp add: word_unat_eq_iff)
    then have "mq_do ob (Mq_recv n) s = Some (Inr (s, None, Returned (- 2)))"
      using n m by (simp add: mq_do_def rt_mq_recv_def with_mq_def)
    then show ?thesis using sim spec Nil by (auto simp: got_ok_def)
  next
    case (Cons b B)
    then obtain i q' where q: "q = i # q'" using mq_holds_length [OF h] by (cases q) auto
    have ne: "mq_entry m \<noteq> 0" using ent Cons by auto
    obtain m1 where m1: "mq_unlink m = Inr (i, m1)" "mq_rep (m1\<lparr> mq_entry := mq_entry m1 - 1 \<rparr>) q' f [i]"
        "mq_slots m1 = mq_slots m" "mq_msg_size m1 = mq_msg_size m" "mq_max_msgs m1 = mq_max_msgs m"
      using mq_unlink_rep [OF r [unfolded q]] by auto
    define m2 where "m2 = m1\<lparr> mq_entry := mq_entry m1 - 1 \<rparr>"
    have r2: "mq_rep m2 q' f [i]" using m1(2) by (simp add: m2_def)
    have b: "length b \<le> unat (mq_msg_size m2)" "take (length b) (mq_slots m2 ! i) = b"
      using h m1(3,4) by (simp_all add: m2_def q Cons mq_holds_def)
    obtain b' where b': "mq_read i n m2 = Inr b'" "take (length (take (unat n) b)) b' = take (unat n) b"
      by (rule mq_read_ok [OF r2 b, of n]) (rule that)
    define m3 where "m3 = mq_release i m2"
    have r3: "mq_rep m3 q' (i # f) []" unfolding m3_def by (rule mq_release_rep [OF r2])
    have h3: "mq_holds m3 q' B" using h m1(3,4) by (simp add: m3_def m2_def q Cons mq_holds_def)
    obtain s' where s': "wake_first (Senders ob) (set_ipc ob (Messagequeue p m3) s) = Inr s'" "kinv s'"
        "ipcs s' ob = Some (Messagequeue p m3)"
      by (rule mq_commit [OF k waiting_queue_simps(2)]) (rule that)
    have "mq_do ob (Mq_recv n) s = Some (Inr (s', Some b', Returned 0))"
      using n m ne m1(1) b'(1) s'(1)
      by (simp add: mq_do_def rt_mq_recv_def mq_recv_loop_def with_mq_def m2_def [symmetric] m3_def [symmetric])
    moreover have "A' = B \<and> got = Some (take (unat n) b) \<and> e = 0" using spec Cons by auto
    moreover have "mq_sim ob room msz s' B"
      using mq_simI [OF s'(2,3) r3 h3] m1(4,5) rm by (simp add: m3_def m2_def)
    moreover have "got_ok (Some (take (unat n) b)) (Some b')" using b'(2) by (simp add: got_ok_def)
    ultimately show ?thesis by blast
  qed
qed

section \<open>Resetting\<close>

lemma mq_clear_ok:
  "mq_rep (m\<lparr> mq_entry := e \<rparr>) q f fl \<Longrightarrow>
   \<exists>m' f'. mq_clear m = Some m' \<and> mq_rep (m'\<lparr> mq_entry := 0 \<rparr>) [] f' fl \<and>
     mq_msg_size m' = mq_msg_size m \<and> mq_max_msgs m' = mq_max_msgs m"
proof (induction q arbitrary: m e f)
  case Nil
  then have "mq_head m = None" by (simp add: mq_rep_def)
  then have "mq_clear m = Some m" by (subst mq_clear.simps) (simp add: mq_unlink_def)
  moreover have "mq_rep (m\<lparr> mq_entry := 0 \<rparr>) [] f fl" using Nil by (simp add: mq_rep_def)
  ultimately show ?case by blast
next
  case (Cons i q)
  have h: "mq_head m = Some i" using Cons.prems by (simp add: mq_rep_def)
  define m1 where "m1 = m\<lparr> mq_head := mq_next m i, mq_tail := (if mq_tail m = Some i then None else mq_tail m) \<rparr>"
  have u: "mq_unlink m = Inr (i, m1)" by (simp add: mq_unlink_def h m1_def)
  have "mq_unlink (m\<lparr> mq_entry := e \<rparr>) = Inr (i, m1\<lparr> mq_entry := e \<rparr>)" by (simp add: mq_unlink_def h m1_def)
  then have "mq_rep (m1\<lparr> mq_entry := e - 1 \<rparr>) q f (i # fl)" using mq_unlink_rep [OF Cons.prems] by auto
  moreover have "mq_release i (m1\<lparr> mq_entry := e - 1 \<rparr>) = (mq_release i m1)\<lparr> mq_entry := e - 1 \<rparr>"
    by (cases m1) (simp add: mq_release_def)
  ultimately have "mq_rep ((mq_release i m1)\<lparr> mq_entry := e - 1 \<rparr>) q (i # f) fl"
    using mq_release_rep [of "m1\<lparr> mq_entry := e - 1 \<rparr>" q f i fl] by simp
  then obtain m' f' where m': "mq_clear (mq_release i m1) = Some m'" "mq_rep (m'\<lparr> mq_entry := 0 \<rparr>) [] f' fl"
      "mq_msg_size m' = mq_msg_size (mq_release i m1)" "mq_max_msgs m' = mq_max_msgs (mq_release i m1)"
    using Cons.IH by blast
  have "mq_clear m = Some m'" by (subst mq_clear.simps) (simp add: u m'(1))
  then show ?case using m'(2-4) by (auto simp: m1_def)
qed

lemma resume_both_ok:
  assumes k: "kinv s"
  obtains s' where "resume_both ob s = Some (Inr s')" "kinv s'" "ipcs s' = ipcs s"
    "queues s' (Waiting ob) = []" "queues s' (Senders ob) = []"
proof -
  have inv: "sys_inv s" using k by (simp add: kinv_def)
  obtain s1 where s1: "rt_ipc_list_resume_all (Waiting ob) s = Some (Inr s1)" "sys_inv s1" "calm s s1"
      "queues s1 (Waiting ob) = []"
    using resume_all_ok [OF inv waiting_queue_simps(1), of ob] by blast
  obtain s2 where s2: "rt_ipc_list_resume_all (Senders ob) s1 = Some (Inr s2)" "sys_inv s2" "calm s1 s2"
      "queues s2 (Senders ob) = []" "queues s2 (Waiting ob) = queues s1 (Waiting ob)"
    using resume_all_ok [OF s1(2) waiting_queue_simps(2), of ob] by blast
  have k1: "kinv s1" by (rule kinv_quiet [OF k s1(2) calm_quiet [OF s1(3)]])
  have "kinv s2" by (rule kinv_quiet [OF k1 s2(2) calm_quiet [OF s2(3)]])
  moreover have "resume_both ob s = Some (Inr s2)" by (simp add: resume_both_def orbind_def s1(1) s2(1))
  moreover have "ipcs s2 = ipcs s" using calm_more [OF s1(3)] calm_more [OF s2(3)] by simp
  ultimately show thesis using that s1(4) s2(4,5) by simp
qed

lemma mq_reset_sim:
  assumes sim: "mq_sim ob room msz s A"
  shows "\<exists>s'. mq_do ob Mq_reset s = Some (Inr (s', None, Returned 0)) \<and> mq_sim ob room msz s' []"
proof -
  obtain p m q f where k: "kinv s" and m: "ipcs s ob = Some (Messagequeue p m)" and r: "mq_rep m q f []"
    and rm: "room = unat (mq_max_msgs m)" "msz = unat (mq_msg_size m)"
    using sim by (auto simp: mq_sim_def)
  obtain s1 where s1: "resume_both ob s = Some (Inr s1)" "kinv s1" by (rule resume_both_ok [OF k]) (rule that)
  have "mq_rep (m\<lparr> mq_entry := mq_entry m \<rparr>) q f []" using r by simp
  then obtain m' f' where m': "mq_clear m = Some m'" "mq_rep (m'\<lparr> mq_entry := 0 \<rparr>) [] f' []"
      "mq_msg_size m' = mq_msg_size m" "mq_max_msgs m' = mq_max_msgs m"
    using mq_clear_ok by blast
  define s2 where "s2 = set_ipc ob (Messagequeue p (m'\<lparr> mq_entry := 0 \<rparr>)) s1"
  have k2: "kinv s2" using s1(2) by (simp add: s2_def)
  then obtain s3 where s3: "rt_schedule s2 = Inr s3" "frame s2 s3" using schedule_inv [of s2] by (auto simp: kinv_def)
  have run: "rt_mq_control ob (Ipc_reset 0) s = Some (Inr (s3, 0))"
    using m s1(1) m'(1) s3(1) by (simp add: rt_mq_control_def with_mq_def orbind_def s2_def)
  have i3: "ipcs s3 ob = Some (Messagequeue p (m'\<lparr> mq_entry := 0 \<rparr>))"
    using frame_more [OF s3(2)] by (simp add: s2_def)
  have "mq_sim ob room msz s3 []"
    using mq_simI [OF schedule_kinv [OF k2 s3(1)] i3 m'(2), of "[]"] m'(3,4) rm by (simp add: mq_holds_def)
  then show ?thesis using run by (simp add: mq_do_def orbind_def)
qed

section \<open>Properties\<close>

fun mq_spec_run :: "nat \<Rightarrow> nat \<Rightarrow> mq_op list \<Rightarrow> bytes list \<Rightarrow> bytes list \<times> (bytes option \<times> rt_err) list" where
  "mq_spec_run room msz [] A = (A, [])"
| "mq_spec_run room msz (c # cs) A = (case mq_spec room msz c A of (A', r) \<Rightarrow>
     (case mq_spec_run room msz cs A' of (A'', rs) \<Rightarrow> (A'', r # rs)))"

fun mq_run :: "nat \<Rightarrow> mq_op list \<Rightarrow> isys \<Rightarrow> (isys \<times> (bytes option \<times> outcome) list) res option" where
  "mq_run ob [] s = Some (Inr (s, []))"
| "mq_run ob (c # cs) s = orbind (mq_do ob c s) (\<lambda>(s, r).
     orbind (mq_run ob cs s) (\<lambda>(s, rs). Some (Inr (s, r # rs))))"

definition reply_ok :: "bytes option \<times> rt_err \<Rightarrow> bytes option \<times> outcome \<Rightarrow> bool" where
  "reply_ok r r' \<longleftrightarrow> got_ok (fst r) (fst r') \<and> snd r' = Returned (snd r)"

lemma mq_step_sim:
  assumes "mq_sim ob room msz s A" "mq_op_ok c" "mq_spec room msz c A = (A', r)"
  shows "\<exists>s' r'. mq_do ob c s = Some (Inr (s', r')) \<and> reply_ok r r' \<and> mq_sim ob room msz s' A'"
proof (cases c)
  case (Mq_send b)
  have "fst r = None" using assms(3) by (auto simp: Mq_send split: if_splits)
  then show ?thesis
    using mq_send_sim [of ob room msz s A b A' None "snd r"] assms prod.collapse [of r]
    by (auto simp: Mq_send reply_ok_def got_ok_def simp del: prod.collapse mq_spec.simps)
next
  case (Mq_urgent b)
  have "fst r = None" using assms(3) by (auto simp: Mq_urgent split: if_splits)
  then show ?thesis
    using mq_urgent_sim [of ob room msz s A b A' None "snd r"] assms prod.collapse [of r]
    by (auto simp: Mq_urgent reply_ok_def got_ok_def simp del: prod.collapse mq_spec.simps)
next
  case (Mq_recv n)
  then show ?thesis
    using mq_recv_sim [of ob room msz s A n A' "fst r" "snd r"] assms by (auto simp: reply_ok_def)
next
  case Mq_reset
  then show ?thesis using mq_reset_sim [OF assms(1)] assms(3) by (auto simp: reply_ok_def got_ok_def)
qed

text \<open>C6: The pointer-level message queue refines a list of messages: for every sequence of non-blocking sends,
  urgent sends, receives and resets, each call of the code returns (the reset loop included) with the
  error code of the list operation, a received buffer begins with the message the list gives, and the
  links, counters and slots again stand for the list, whoever waits for the queue.\<close>

theorem rt_mq_refines_list:
  "mq_sim ob room msz s A \<Longrightarrow> \<forall>c \<in> set cs. mq_op_ok c \<Longrightarrow> mq_spec_run room msz cs A = (A', rs) \<Longrightarrow>
   \<exists>s' rs'. mq_run ob cs s = Some (Inr (s', rs')) \<and> list_all2 reply_ok rs rs' \<and> mq_sim ob room msz s' A'"
proof (induction cs arbitrary: s A rs)
  case Nil
  then show ?case by simp
next
  case (Cons c cs)
  obtain A1 r where c: "mq_spec room msz c A = (A1, r)" by (cases "mq_spec room msz c A") auto
  obtain rs1 where rs: "mq_spec_run room msz cs A1 = (A', rs1)" "rs = r # rs1"
    using Cons.prems(3) by (auto simp: c split: prod.splits)
  obtain s1 r1 where s1: "mq_do ob c s = Some (Inr (s1, r1))" "reply_ok r r1" "mq_sim ob room msz s1 A1"
    using mq_step_sim [OF Cons.prems(1) _ c] Cons.prems(2) by auto
  obtain s' rs' where s': "mq_run ob cs s1 = Some (Inr (s', rs'))" "list_all2 reply_ok rs1 rs'" "mq_sim ob room msz s' A'"
    using Cons.IH [OF s1(3) _ rs(1)] Cons.prems(2) by auto
  then show ?case using s1(1,2) rs(2) by (auto simp: orbind_def)
qed

theorem rt_mq_refines_list_witness:
  "\<exists>s' rs'. mq_run 1 [Mq_send [1, 2], Mq_urgent [3], Mq_send [4], Mq_recv 8, Mq_reset]
       (sample_ipc [1 \<mapsto> Messagequeue sample_parent (new_mq [[0, 0, 0, 0], [0, 0, 0, 0]] 4 2)]) = Some (Inr (s', rs')) \<and>
     list_all2 reply_ok [(None, 0), (None, 0), (None, - RT_EFULL), (Some [3], 0), (None, 0)] rs' \<and> mq_sim 1 2 4 s' []"
proof -
  let ?m = "new_mq [[0, 0, 0, 0], [0, 0, 0, 0]] 4 2"
  define s where "s = sample_ipc [1 \<mapsto> Messagequeue sample_parent ?m]"
  have k: "kinv s" "ipcs s 1 = Some (Messagequeue sample_parent ?m)" by (simp_all add: s_def sample_kinv_ipc) (simp add: sample_ipc_def)
  have r: "mq_rep ?m [] (rev [0 ..< unat (2 :: u16)]) []" by (rule new_mq_rep) simp_all
  have "mq_max_msgs ?m = 2" "mq_msg_size ?m = 4" by (simp_all add: new_mq_def split: prod.split)
  then have sim: "mq_sim 1 2 4 s []" using mq_simI [OF k r, of "[]"] by (simp add: mq_holds_def)
  have run: "mq_spec_run 2 4 [Mq_send [1, 2], Mq_urgent [3], Mq_send [4], Mq_recv 8, Mq_reset] [] =
      ([], [(None, 0), (None, 0), (None, - 3), (Some [3], 0), (None, 0)])" by simp
  show ?thesis using rt_mq_refines_list [OF sim _ run] unfolding s_def by simp
qed

end
