(* ===== verification/SmallMem.thy ===== *)
theory SmallMem
  imports Prelude
begin

text \<open>
  The heap of \<^verbatim>\<open>src/mem.c\<close>, the allocator that \<^verbatim>\<open>RT_USING_SMALL_MEM\<close> selects: blocks laid out one behind the
  other, each with a header that links it to its neighbours, a pointer to the lowest free block, and the
  merging of free neighbours. Offsets are relative to \<^verbatim>\<open>heap_ptr\<close>, as in the code; user pointers
  are addresses, 0 is \<^verbatim>\<open>RT_NULL\<close>. The headers are kept apart from the data of the blocks; that the blocks
  do not overlap, so that a program that stays inside its blocks changes no header, is what is proved.
  The semaphore that the code holds during an operation is that of theory \<^verbatim>\<open>Ipc\<close>; here an
  operation is one step. \<open>irq\<close> says whether the caller is an interrupt, where the code's assertion fails.
\<close>

section \<open>State\<close>

record heap_mem =
  hm_magic :: u16
  hm_used :: u16
  hm_next :: u32
  hm_prev :: u32

record heap =
  heap_ptr :: u32
  mem_size_aligned :: u32
  heap_mems :: "u32 \<Rightarrow> heap_mem option"
  lfree :: u32
  used_mem :: u32
  max_mem :: u32
  mem_data :: "u32 \<Rightarrow> u8"

abbreviation (input) HEAP_MAGIC :: u16 where "HEAP_MAGIC \<equiv> 0x1ea0"
abbreviation (input) SIZEOF_STRUCT_MEM :: u32 where "SIZEOF_STRUCT_MEM \<equiv> 12"
abbreviation (input) MIN_SIZE_ALIGNED :: u32 where "MIN_SIZE_ALIGNED \<equiv> 12"

definition heap_end :: "heap \<Rightarrow> u32" where
  "heap_end h = mem_size_aligned h + SIZEOF_STRUCT_MEM"

definition load_mem :: "u32 \<Rightarrow> heap \<Rightarrow> heap_mem res" where
  "load_mem x h = (case heap_mems h x of None \<Rightarrow> Inl Out_of_bounds | Some m \<Rightarrow> Inr m)"

definition set_mem :: "u32 \<Rightarrow> heap_mem \<Rightarrow> heap \<Rightarrow> heap" where
  "set_mem x m h = h\<lparr> heap_mems := (heap_mems h)(x := Some m) \<rparr>"

definition update_mem :: "u32 \<Rightarrow> (heap_mem \<Rightarrow> heap_mem) \<Rightarrow> heap \<Rightarrow> heap res" where
  "update_mem x f h = rbind (load_mem x h) (\<lambda>m. Inr (set_mem x (f m) h))"

text \<open>A new header, which must lie inside the heap.\<close>

definition new_mem :: "u32 \<Rightarrow> heap_mem \<Rightarrow> heap \<Rightarrow> heap res" where
  "new_mem x m h = (if x < heap_end h then Inr (set_mem x m h) else Inl Out_of_bounds)"

section \<open>The operations\<close>

definition rt_system_heap_init :: "u32 \<Rightarrow> u32 \<Rightarrow> heap \<Rightarrow> heap" where
  "rt_system_heap_init begin_addr end_addr h =
     (let begin_align = rt_align begin_addr 4; end_align = rt_align_down end_addr 4 in
      if end_align > 2 * SIZEOF_STRUCT_MEM \<and> end_align - 2 * SIZEOF_STRUCT_MEM \<ge> begin_align
      then let sz = end_align - begin_align - 2 * SIZEOF_STRUCT_MEM; e = sz + SIZEOF_STRUCT_MEM in
        h\<lparr> heap_ptr := begin_align, mem_size_aligned := sz,
           heap_mems := (heap_mems h)(0 := Some \<lparr> hm_magic = HEAP_MAGIC, hm_used = 0, hm_next = e, hm_prev = 0 \<rparr>,
                                      e := Some \<lparr> hm_magic = HEAP_MAGIC, hm_used = 1, hm_next = e, hm_prev = e \<rparr>),
           lfree := 0 \<rparr>
      else h)"

text \<open>What both halves of \<^verbatim>\<open>plug_holes\<close> do: block \<open>a\<close> takes over its right neighbour \<open>b\<close>.\<close>

definition absorb :: "u32 \<Rightarrow> u32 \<Rightarrow> heap \<Rightarrow> heap res" where
  "absorb a b h =
     (let h = (if lfree h = b then h\<lparr> lfree := a \<rparr> else h) in
      rbind (load_mem b h) (\<lambda>mb.
      rbind (update_mem a (\<lambda>m. m\<lparr> hm_next := hm_next mb \<rparr>) h) (\<lambda>h.
      update_mem (hm_next mb) (\<lambda>m. m\<lparr> hm_prev := a \<rparr>) h)))"

definition plug_holes :: "u32 \<Rightarrow> heap \<Rightarrow> heap res" where
  "plug_holes mem h = rassert (mem < heap_end h) (rbind (load_mem mem h) (\<lambda>m. rassert (hm_used m = 0)
     (rbind (load_mem (hm_next m) h) (\<lambda>nm.
      rbind (if mem \<noteq> hm_next m \<and> hm_used nm = 0 \<and> hm_next m \<noteq> heap_end h then absorb mem (hm_next m) h else Inr h) (\<lambda>h.
      rbind (load_mem mem h) (\<lambda>m.
      rbind (load_mem (hm_prev m) h) (\<lambda>pm.
      if hm_prev m \<noteq> mem \<and> hm_used pm = 0 then absorb (hm_prev m) mem h else Inr h)))))))"

text \<open>The first-fit search; it ends because the links grow.\<close>

partial_function (option) malloc_find :: "u32 \<Rightarrow> u32 \<Rightarrow> heap \<Rightarrow> u32 option res option" where
  "malloc_find sz ptr h =
     (if ptr < mem_size_aligned h - sz
      then (case heap_mems h ptr of None \<Rightarrow> Some (Inl Out_of_bounds)
        | Some m \<Rightarrow>
            if hm_used m = 0 \<and> hm_next m - (ptr + SIZEOF_STRUCT_MEM) \<ge> sz then Some (Inr (Some ptr))
            else malloc_find sz (hm_next m) h)
      else Some (Inr None))"

definition add_used :: "u32 \<Rightarrow> heap \<Rightarrow> heap" where
  "add_used n h = h\<lparr> used_mem := used_mem h + n, max_mem := max (max_mem h) (used_mem h + n) \<rparr>"

text \<open>\<^verbatim>\<open>mem\<close> becomes a used block of the given size; the rest of a block that is large enough becomes a block.\<close>

definition malloc_take :: "u32 \<Rightarrow> u32 \<Rightarrow> heap \<Rightarrow> heap res" where
  "malloc_take sz mem h = rbind (load_mem mem h) (\<lambda>m.
     rbind (if hm_next m - (mem + SIZEOF_STRUCT_MEM) \<ge> sz + SIZEOF_STRUCT_MEM + MIN_SIZE_ALIGNED
       then let ptr2 = mem + SIZEOF_STRUCT_MEM + sz in
         rbind (new_mem ptr2 \<lparr> hm_magic = HEAP_MAGIC, hm_used = 0, hm_next = hm_next m, hm_prev = mem \<rparr> h) (\<lambda>h.
         rbind (update_mem mem (\<lambda>m. m\<lparr> hm_next := ptr2, hm_used := 1 \<rparr>) h) (\<lambda>h.
         rbind (if hm_next m \<noteq> mem_size_aligned h + SIZEOF_STRUCT_MEM
                then update_mem (hm_next m) (\<lambda>m. m\<lparr> hm_prev := ptr2 \<rparr>) h else Inr h) (\<lambda>h.
         Inr (add_used (sz + SIZEOF_STRUCT_MEM) h))))
       else rbind (update_mem mem (\<lambda>m. m\<lparr> hm_used := 1 \<rparr>) h) (\<lambda>h. Inr (add_used (hm_next m - mem) h))) (\<lambda>h.
     update_mem mem (\<lambda>m. m\<lparr> hm_magic := HEAP_MAGIC \<rparr>) h))"

partial_function (option) next_free :: "u32 \<Rightarrow> heap \<Rightarrow> u32 res option" where
  "next_free x h =
     (case heap_mems h x of None \<Rightarrow> Some (Inl Out_of_bounds)
      | Some m \<Rightarrow> if hm_used m \<noteq> 0 \<and> x \<noteq> heap_end h then next_free (hm_next m) h else Some (Inr x))"

definition lfree_ok :: "heap \<Rightarrow> bool" where
  "lfree_ok h \<longleftrightarrow> lfree h = heap_end h \<or> (case heap_mems h (lfree h) of None \<Rightarrow> False | Some m \<Rightarrow> hm_used m = 0)"

definition advance_lfree :: "u32 \<Rightarrow> heap \<Rightarrow> heap res option" where
  "advance_lfree mem h =
     (if mem = lfree h
      then (case next_free (lfree h) h of None \<Rightarrow> None | Some r \<Rightarrow>
              Some (rbind r (\<lambda>x. rassert (lfree_ok (h\<lparr> lfree := x \<rparr>)) (Inr (h\<lparr> lfree := x \<rparr>)))))
      else Some (Inr h))"

definition malloc_result :: "u32 \<Rightarrow> u32 \<Rightarrow> heap \<Rightarrow> (heap \<times> u32) res" where
  "malloc_result sz mem h =
     rassert (heap_ptr h + mem + SIZEOF_STRUCT_MEM + sz \<le> heap_ptr h + heap_end h)
     (rassert ((heap_ptr h + mem + SIZEOF_STRUCT_MEM) mod 4 = 0)
     (rassert ((heap_ptr h + mem) AND 3 = 0)
     (Inr (h, heap_ptr h + mem + SIZEOF_STRUCT_MEM))))"

definition rt_malloc :: "bool \<Rightarrow> u32 \<Rightarrow> heap \<Rightarrow> (heap \<times> u32) res option" where
  "rt_malloc irq sz0 h =
     (if sz0 = 0 then Some (Inr (h, 0)) else if irq then Some (Inl Assert_failed)
      else let sz = rt_align sz0 4 in
        if sz > mem_size_aligned h then Some (Inr (h, 0))
        else let sz = (if sz < MIN_SIZE_ALIGNED then MIN_SIZE_ALIGNED else sz) in
          (case malloc_find sz (lfree h) h of
             None \<Rightarrow> None
           | Some (Inl e) \<Rightarrow> Some (Inl e)
           | Some (Inr None) \<Rightarrow> Some (Inr (h, 0))
           | Some (Inr (Some mem)) \<Rightarrow>
               (case malloc_take sz mem h of Inl e \<Rightarrow> Some (Inl e)
                | Inr h \<Rightarrow> (case advance_lfree mem h of None \<Rightarrow> None
                    | Some r \<Rightarrow> Some (rbind r (malloc_result sz mem))))))"

definition rt_free :: "bool \<Rightarrow> u32 \<Rightarrow> heap \<Rightarrow> heap res" where
  "rt_free irq rmem h =
     (if rmem = 0 then Inr h
      else rassert (\<not> irq) (rassert (rmem AND 3 = 0) (rassert (rmem \<ge> heap_ptr h \<and> rmem < heap_ptr h + heap_end h)
        (let mem = rmem - SIZEOF_STRUCT_MEM - heap_ptr h in
         rbind (load_mem mem h) (\<lambda>m. rassert (hm_used m \<noteq> 0) (rassert (hm_magic m = HEAP_MAGIC)
           (let h = set_mem mem (m\<lparr> hm_used := 0, hm_magic := HEAP_MAGIC \<rparr>) h;
                h = (if mem < lfree h then h\<lparr> lfree := mem \<rparr> else h);
                h = h\<lparr> used_mem := used_mem h - (hm_next m - mem) \<rparr> in
            plug_holes mem h)))))))"

text \<open>\<^verbatim>\<open>rt_memcpy\<close> between two blocks.\<close>

definition copy_data :: "u32 \<Rightarrow> u32 \<Rightarrow> u32 \<Rightarrow> heap \<Rightarrow> heap" where
  "copy_data dst src n h = h\<lparr> mem_data := (\<lambda>a. if a - dst < n then mem_data h (src + (a - dst)) else mem_data h a) \<rparr>"

definition realloc_shrink :: "u32 \<Rightarrow> u32 \<Rightarrow> u32 \<Rightarrow> heap_mem \<Rightarrow> heap \<Rightarrow> heap res" where
  "realloc_shrink newsize sz ptr m h =
     (let h = h\<lparr> used_mem := used_mem h - (sz - newsize) \<rparr>; ptr2 = ptr + SIZEOF_STRUCT_MEM + newsize in
      rbind (new_mem ptr2 \<lparr> hm_magic = HEAP_MAGIC, hm_used = 0, hm_next = hm_next m, hm_prev = ptr \<rparr> h) (\<lambda>h.
      rbind (update_mem ptr (\<lambda>m. m\<lparr> hm_next := ptr2 \<rparr>) h) (\<lambda>h.
      rbind (if hm_next m \<noteq> mem_size_aligned h + SIZEOF_STRUCT_MEM
             then update_mem (hm_next m) (\<lambda>m. m\<lparr> hm_prev := ptr2 \<rparr>) h else Inr h) (\<lambda>h.
      plug_holes ptr2 h))))"

definition rt_realloc :: "bool \<Rightarrow> u32 \<Rightarrow> u32 \<Rightarrow> heap \<Rightarrow> (heap \<times> u32) res option" where
  "rt_realloc irq rmem newsize0 h = (if irq then Some (Inl Assert_failed)
     else let newsize = rt_align newsize0 4 in
       if newsize > mem_size_aligned h then Some (Inr (h, 0))
       else if newsize = 0 then Some (rbind (rt_free irq rmem h) (\<lambda>h. Inr (h, 0)))
       else if rmem = 0 then rt_malloc irq newsize h
       else if rmem < heap_ptr h \<or> rmem \<ge> heap_ptr h + heap_end h then Some (Inr (h, rmem))
       else let ptr = rmem - SIZEOF_STRUCT_MEM - heap_ptr h in
         (case heap_mems h ptr of None \<Rightarrow> Some (Inl Out_of_bounds)
          | Some m \<Rightarrow>
              let sz = hm_next m - ptr - SIZEOF_STRUCT_MEM in
              if sz = newsize then Some (Inr (h, rmem))
              else if newsize + SIZEOF_STRUCT_MEM + 12 < sz
              then Some (rbind (realloc_shrink newsize sz ptr m h) (\<lambda>h. Inr (h, rmem)))
              else (case rt_malloc irq newsize h of None \<Rightarrow> None
                | Some r \<Rightarrow> Some (rbind r (\<lambda>(h, nmem).
                    if nmem \<noteq> 0
                    then rbind (rt_free irq rmem (copy_data nmem rmem (if sz < newsize then sz else newsize) h)) (\<lambda>h. Inr (h, nmem))
                    else Inr (h, nmem))))))"

definition rt_calloc :: "bool \<Rightarrow> u32 \<Rightarrow> u32 \<Rightarrow> heap \<Rightarrow> (heap \<times> u32) res option" where
  "rt_calloc irq count sz h =
     (case rt_malloc irq (count * sz) h of None \<Rightarrow> None
      | Some r \<Rightarrow> Some (rbind r (\<lambda>(h, p).
          Inr (if p \<noteq> 0 then h\<lparr> mem_data := (\<lambda>a. if a - p < count * sz then 0 else mem_data h a) \<rparr> else h, p))))"

definition rt_memory_info :: "heap \<Rightarrow> u32 \<times> u32 \<times> u32" where
  "rt_memory_info h = (mem_size_aligned h, used_mem h, max_mem h)"

section \<open>The layout of the heap\<close>

text \<open>A list of blocks: where each ends and whether it is used. The headers from \<open>b\<close>, whose left
  neighbour is \<open>p\<close>, to \<open>b'\<close>, whose left neighbour is \<open>p'\<close>. A block has a header and at least one word.\<close>

fun path :: "(u32 \<Rightarrow> heap_mem option) \<Rightarrow> u32 \<Rightarrow> u32 \<Rightarrow> (u32 \<times> bool) list \<Rightarrow> u32 \<Rightarrow> u32 \<Rightarrow> bool" where
  "path H p b [] p' b' \<longleftrightarrow> p' = p \<and> b' = b"
| "path H p b ((n, u) # xs) p' b' \<longleftrightarrow>
     H b = Some \<lparr> hm_magic = HEAP_MAGIC, hm_used = (if u then 1 else 0), hm_next = n, hm_prev = p \<rparr> \<and>
     unat b + 16 \<le> unat n \<and> 4 dvd unat n \<and> path H b n xs p' b'"

abbreviation (input) header :: "bool \<Rightarrow> u32 \<Rightarrow> u32 \<Rightarrow> heap_mem" where
  "header u n p \<equiv> \<lparr> hm_magic = HEAP_MAGIC, hm_used = (if u then 1 else 0), hm_next = n, hm_prev = p \<rparr>"

lemma path_append: "path H p b (xs @ ys) p' b' \<longleftrightarrow> (\<exists>p1 b1. path H p b xs p1 b1 \<and> path H p1 b1 ys p' b')"
proof (induction xs arbitrary: p b)
  case (Cons x xs)
  then show ?case by (cases x) fastforce
qed simp

lemma path_mono: "path H p b xs p' b' \<Longrightarrow> unat b + 16 * length xs \<le> unat b'"
proof (induction xs arbitrary: p b)
  case (Cons x xs)
  obtain n u where x: "x = (n, u)" by (cases x)
  show ?case using Cons.IH [of b n] Cons.prems by (auto simp: x)
qed simp

lemma path_upd:
  "path H p b xs p' b' \<Longrightarrow> unat x < unat b \<or> unat b' \<le> unat x \<Longrightarrow> path (H(x := v)) p b xs p' b'"
proof (induction xs arbitrary: p b)
  case (Cons y xs)
  obtain n u where y: "y = (n, u)" by (cases y)
  have "unat n \<le> unat b'" using Cons.prems(1) path_mono [of H b n xs p' b'] by (simp add: y)
  then have "x \<noteq> b" "unat x < unat n \<or> unat b' \<le> unat x" using Cons.prems by (auto simp: y)
  then show ?case using Cons.IH [of b n] Cons.prems(1) by (simp add: y)
qed simp

text \<open>Where a list of blocks ends, and the blocks with their starts.\<close>

definition endp :: "u32 \<Rightarrow> (u32 \<times> bool) list \<Rightarrow> u32" where
  "endp b xs = (if xs = [] then b else fst (last xs))"

lemma endp_simps [simp]: "endp b [] = b" "endp b ((n, u) # xs) = endp n xs" "endp b (xs @ [(n, u)]) = n"
  by (auto simp: endp_def)

lemma endp_append [simp]: "endp b (xs @ ys) = endp (endp b xs) ys"
  by (auto simp: endp_def)

lemma path_endp: "path H p b xs p' b' \<Longrightarrow> b' = endp b xs"
  by (induction xs arbitrary: p b) auto

fun blocks :: "u32 \<Rightarrow> (u32 \<times> bool) list \<Rightarrow> (u32 \<times> u32 \<times> bool) list" where
  "blocks b [] = []"
| "blocks b ((n, u) # xs) = (b, n, u) # blocks n xs"

lemma blocks_append [simp]: "blocks b (xs @ ys) = blocks b xs @ blocks (endp b xs) ys"
  by (induction xs arbitrary: b) auto

lemma block_split:
  "(q, n, u) \<in> set (blocks b xs) \<Longrightarrow> \<exists>pre post. xs = pre @ (n, u) # post \<and> q = endp b pre"
proof (induction xs arbitrary: b)
  case (Cons x xs)
  obtain m v where x: "x = (m, v)" by (cases x)
  show ?case
  proof (cases "(q, n, u) = (b, m, v)")
    case True
    then show ?thesis by (intro exI [of _ "[]"] exI [of _ xs]) (simp add: x)
  next
    case False
    then have "(q, n, u) \<in> set (blocks m xs)" using Cons.prems by (auto simp: x)
    from Cons.IH [OF this] obtain pre post where "xs = pre @ (n, u) # post" "q = endp m pre" by blast
    then show ?thesis by (intro exI [of _ "(m, v) # pre"] exI [of _ post]) (simp add: x)
  qed
qed simp

lemma path_block:
  "path H p b xs p' b' \<Longrightarrow> (q, n, u) \<in> set (blocks b xs) \<Longrightarrow>
   unat b \<le> unat q \<and> unat q + 16 \<le> unat n \<and> unat n \<le> unat b' \<and> 4 dvd unat n"
proof (induction xs arbitrary: p b)
  case (Cons x xs)
  obtain m v where x: "x = (m, v)" by (cases x)
  have "unat m \<le> unat b'" using Cons.prems(1) path_mono [of H b m xs p' b'] by (simp add: x)
  then show ?case using Cons.IH [of b m] Cons.prems by (auto simp: x)
qed simp

text \<open>Two blocks are the same or lie apart.\<close>

lemma path_apart:
  "path H p b xs p' b' \<Longrightarrow> (q, n, u) \<in> set (blocks b xs) \<Longrightarrow> (r, m, v) \<in> set (blocks b xs) \<Longrightarrow>
   (q, n, u) = (r, m, v) \<or> unat n \<le> unat r \<or> unat m \<le> unat q"
proof (induction xs arbitrary: p b)
  case (Cons x xs)
  obtain k w where x: "x = (k, w)" by (cases x)
  have pk: "path H b k xs p' b'" using Cons.prems(1) by (simp add: x)
  have "unat k \<le> unat c" if "(c, d, f) \<in> set (blocks k xs)" for c d f using path_block [OF pk that] by simp
  then show ?case using Cons.IH [OF pk] Cons.prems(2,3) by (auto simp: x)
qed simp

text \<open>The local changes of a path: another state of a block, a block divided, two blocks joined.\<close>

definition set_prev :: "u32 \<Rightarrow> u32 \<Rightarrow> (u32 \<Rightarrow> heap_mem option) \<Rightarrow> u32 \<Rightarrow> heap_mem option" where
  "set_prev n q H = H(n := map_option (\<lambda>m. m\<lparr> hm_prev := q \<rparr>) (H n))"

lemma path_set_prev:
  assumes "path H p b xs p' b'"
  shows "\<exists>p''. path (set_prev b q H) q b xs p'' b'"
proof (cases xs)
  case Nil
  then show ?thesis using assms by simp
next
  case (Cons x ys)
  obtain n u where x: "x = (n, u)" by (cases x)
  have y: "path H b n ys p' b'" "unat b < unat n" using assms by (auto simp: Cons x)
  then have "path (set_prev b q H) b n ys p' b'" unfolding set_prev_def by (intro path_upd) auto
  then show ?thesis using assms by (auto simp: Cons x set_prev_def)
qed

lemma path_left:
  assumes "path H 0 0 pre p q" "\<And>x. unat x < unat q \<Longrightarrow> H' x = H x"
  shows "path H' 0 0 pre p q"
proof -
  have "path H' p0 b pre p q" if "path H p0 b pre p q" for p0 b
    using that
  proof (induction pre arbitrary: p0 b)
    case (Cons y pre)
    obtain n u where y: "y = (n, u)" by (cases y)
    have "unat n \<le> unat q" using Cons.prems path_mono [of H b n pre p q] by (simp add: y)
    then show ?case using Cons.IH [of b n] Cons.prems assms(2) [of b] by (simp add: y)
  qed simp
  then show ?thesis using assms(1) .
qed

lemma path_at:
  assumes "path H 0 0 (pre @ (n, u) # post) p' E" "q = endp 0 pre"
  obtains p where "path H 0 0 pre p q" "H q = Some (header u n p)" "unat q + 16 \<le> unat n" "4 dvd unat n"
    "path H q n post p' E"
proof -
  obtain p b where a: "path H 0 0 pre p b" "path H p b ((n, u) # post) p' E" using assms(1) unfolding path_append by blast
  have "b = q" using path_endp [OF a(1)] assms(2) by simp
  then show thesis using that [of p] a by simp
qed

lemma path_build:
  "path H 0 0 pre p q \<Longrightarrow> path H p q ys p' E \<Longrightarrow> path H 0 0 (pre @ ys) p' E"
  unfolding path_append by blast

lemma path_mark:
  assumes p: "path H 0 0 (pre @ (n, u) # post) p' E" and q: "q = endp 0 pre"
  shows "\<exists>p. H q = Some (header u n p) \<and> path (H(q := Some (header v n p))) 0 0 (pre @ (n, v) # post) p' E"
proof -
  obtain p1 where a: "path H 0 0 pre p1 q" "H q = Some (header u n p1)" "unat q + 16 \<le> unat n" "4 dvd unat n"
      "path H q n post p' E" by (rule path_at [OF p q])
  let ?H = "H(q := Some (header v n p1))"
  have l: "path ?H 0 0 pre p1 q" by (rule path_left [OF a(1)]) auto
  have r: "path ?H q n post p' E" by (rule path_upd [OF a(5)]) (use a(3) in auto)
  have "path ?H p1 q ((n, v) # post) p' E" using r a(3,4) by simp
  then show ?thesis using path_build [OF l] a(2) by blast
qed

lemma path_divide:
  assumes p: "path H 0 0 (pre @ (n, u) # post) p' E" and q: "q = endp 0 pre"
    and m: "unat q + 16 \<le> unat m" "unat m + 16 \<le> unat n" "4 dvd unat m"
  shows "\<exists>p p''. H q = Some (header u n p) \<and>
    path (set_prev n m (H(m := Some (header v n q), q := Some (header w m p)))) 0 0 (pre @ (m, w) # (n, v) # post) p'' E"
proof -
  obtain p1 where a: "path H 0 0 pre p1 q" "H q = Some (header u n p1)" "4 dvd unat n" "path H q n post p' E"
    by (rule path_at [OF p q]) (rule that)
  let ?K = "H(m := Some (header v n q), q := Some (header w m p1))"
  let ?H = "set_prev n m ?K"
  have ne: "q \<noteq> m" "q \<noteq> n" "m \<noteq> n" using m by auto
  have l: "path ?H 0 0 pre p1 q" by (rule path_left [OF a(1)]) (use m in \<open>auto simp: set_prev_def\<close>)
  have "path ?K q n post p' E" by (intro path_upd a(4)) (use m in auto)
  then obtain p'' where r: "path ?H m n post p'' E" using path_set_prev by blast
  have "?H q = Some (header w m p1)" "?H m = Some (header v n q)" using ne by (simp_all add: set_prev_def)
  then have "path ?H p1 q ((m, w) # (n, v) # post) p'' E" using r a(3) m by simp
  then show ?thesis using path_build [OF l] a(2) by blast
qed

lemma path_join:
  assumes p: "path H 0 0 (pre @ (m, u) # (n, v) # post) p' E" and q: "q = endp 0 pre"
  shows "\<exists>p p''. H q = Some (header u m p) \<and> H m = Some (header v n q) \<and>
    path (set_prev n q (H(q := Some (header w n p)))) 0 0 (pre @ (n, w) # post) p'' E"
proof -
  obtain p1 where a: "path H 0 0 pre p1 q" "H q = Some (header u m p1)" "unat q + 16 \<le> unat m"
      "path H q m ((n, v) # post) p' E" by (rule path_at [OF p q]) (rule that)
  have b: "H m = Some (header v n q)" "unat m + 16 \<le> unat n" "4 dvd unat n" "path H m n post p' E"
    using a(4) by simp_all
  let ?K = "H(q := Some (header w n p1))"
  let ?H = "set_prev n q ?K"
  have ne: "q \<noteq> n" using a(3) b(2) by auto
  have l: "path ?H 0 0 pre p1 q" by (rule path_left [OF a(1)]) (use a(3) b(2) in \<open>auto simp: set_prev_def\<close>)
  have "path ?K m n post p' E" by (rule path_upd [OF b(4)]) (use a(3) b(2) in auto)
  then obtain p'' where r: "path ?H q n post p'' E" using path_set_prev by blast
  have "?H q = Some (header w n p1)" using ne by (simp add: set_prev_def)
  then have "path ?H p1 q ((n, w) # post) p'' E" using r a(3) b(2,3) by simp
  then show ?thesis using path_build [OF l] a(2) b(1) by blast
qed

section \<open>The invariant\<close>

fun used_from :: "u32 \<Rightarrow> (u32 \<times> bool) list \<Rightarrow> (u32 \<times> u32) list" where
  "used_from b [] = []"
| "used_from b ((n, u) # xs) = (if u then (b, n) # used_from n xs else used_from n xs)"

lemma used_from_append [simp]: "used_from b (xs @ ys) = used_from b xs @ used_from (endp b xs) ys"
  by (induction xs arbitrary: b) auto

lemma used_from_iff: "(q, n) \<in> set (used_from b xs) \<longleftrightarrow> (q, n, True) \<in> set (blocks b xs)"
  by (induction xs arbitrary: b) (auto split: if_splits)

definition usage :: "(u32 \<times> bool) list \<Rightarrow> u32" where
  "usage xs = sum_list (map (\<lambda>(b, n). n - b) (used_from 0 xs))"

text \<open>No two free neighbours.\<close>

definition merged :: "(u32 \<times> bool) list \<Rightarrow> bool" where
  "merged xs \<longleftrightarrow> successively (\<lambda>x y. snd x \<or> snd y) xs"

lemma merged_append:
  "merged (xs @ ys) \<longleftrightarrow> merged xs \<and> merged ys \<and> (xs = [] \<or> ys = [] \<or> snd (last xs) \<or> snd (hd ys))"
  by (simp add: merged_def successively_append_iff)

lemma merged_simps [simp]: "merged []" "merged [x]" "merged (x # y # xs) \<longleftrightarrow> (snd x \<or> snd y) \<and> merged (y # xs)"
  by (simp_all add: merged_def)

definition heap_core :: "heap \<Rightarrow> (u32 \<times> bool) list \<Rightarrow> bool" where
  "heap_core h xs \<longleftrightarrow> (\<exists>p'. path (heap_mems h) 0 0 xs p' (heap_end h)) \<and>
     (\<exists>e. heap_mems h (heap_end h) = Some e \<and> hm_used e = 1 \<and> hm_next e = heap_end h) \<and>
     used_mem h = usage xs \<and> 4 dvd unat (heap_ptr h) \<and> 12 \<le> unat (mem_size_aligned h) \<and>
     unat (heap_ptr h) + unat (mem_size_aligned h) + 24 < 2 ^ 32"

definition lfree_in :: "heap \<Rightarrow> (u32 \<times> bool) list \<Rightarrow> bool" where
  "lfree_in h xs \<longleftrightarrow> lfree h = heap_end h \<or> (\<exists>n. (lfree h, n, False) \<in> set (blocks 0 xs))"

definition heap_ok :: "heap \<Rightarrow> (u32 \<times> bool) list \<Rightarrow> bool" where
  "heap_ok h xs \<longleftrightarrow> heap_core h xs \<and> merged xs \<and> lfree_in h xs"

lemma unat_heap_end:
  assumes "heap_core h xs"
  shows "unat (heap_end h) = unat (mem_size_aligned h) + 12"
  using assms by (simp add: heap_core_def heap_end_def unat_word_ariths)

lemma core_block:
  assumes c: "heap_core h xs" and b: "(q, n, u) \<in> set (blocks 0 xs)"
  obtains p where "heap_mems h q = Some (header u n p)" "unat q + 16 \<le> unat n" "unat n \<le> unat (heap_end h)" "4 dvd unat n"
    "4 dvd unat q"
proof -
  obtain p' where p': "path (heap_mems h) 0 0 xs p' (heap_end h)" using c by (auto simp: heap_core_def)
  obtain pre post where xs: "xs = pre @ (n, u) # post" "q = endp 0 pre" using block_split [OF b] by blast
  obtain p where a: "path (heap_mems h) 0 0 pre p q" "heap_mems h q = Some (header u n p)" "unat q + 16 \<le> unat n" "4 dvd unat n"
      "path (heap_mems h) q n post p' (heap_end h)" by (rule path_at [OF p' [unfolded xs(1)] xs(2)])
  have "4 dvd unat q"
  proof (cases pre rule: rev_cases)
    case Nil
    then show ?thesis using xs(2) by simp
  next
    case (snoc ys y)
    then have "(endp 0 ys, q, snd y) \<in> set (blocks 0 xs)" using xs by (cases y) simp
    then show ?thesis using path_block [OF p'] by simp
  qed
  then show thesis using that [OF a(2,3) _ a(4)] path_mono [OF a(5)] by simp
qed

lemma update_mem_eq: "heap_mems h x = Some m \<Longrightarrow> update_mem x f h = Inr (set_mem x (f m) h)"
  by (simp add: update_mem_def load_mem_def)

lemma set_mem_fields [simp]:
  "heap_ptr (set_mem x m h) = heap_ptr h" "mem_size_aligned (set_mem x m h) = mem_size_aligned h"
  "lfree (set_mem x m h) = lfree h" "used_mem (set_mem x m h) = used_mem h" "max_mem (set_mem x m h) = max_mem h"
  "mem_data (set_mem x m h) = mem_data h" "heap_end (set_mem x m h) = heap_end h"
  "heap_mems (set_mem x m h) = (heap_mems h)(x := Some m)"
  by (simp_all add: set_mem_def heap_end_def)

lemma add_used_fields [simp]:
  "heap_ptr (add_used n h) = heap_ptr h" "mem_size_aligned (add_used n h) = mem_size_aligned h"
  "lfree (add_used n h) = lfree h" "used_mem (add_used n h) = used_mem h + n"
  "mem_data (add_used n h) = mem_data h" "heap_end (add_used n h) = heap_end h" "heap_mems (add_used n h) = heap_mems h"
  by (simp_all add: add_used_def heap_end_def)

lemma lfree_upd_fields [simp]: "heap_end (h\<lparr> lfree := x \<rparr>) = heap_end h"
  by (simp add: heap_end_def)

text \<open>What an operation leaves alone.\<close>

definition same_heap :: "heap \<Rightarrow> heap \<Rightarrow> bool" where
  "same_heap h h' \<longleftrightarrow> heap_ptr h' = heap_ptr h \<and> mem_size_aligned h' = mem_size_aligned h \<and> heap_end h' = heap_end h"

lemma same_heap_refl [simp]: "same_heap h h"
  by (simp add: same_heap_def)

lemma same_heap_trans: "same_heap h h' \<Longrightarrow> same_heap h' h'' \<Longrightarrow> same_heap h h''"
  by (simp add: same_heap_def)

lemma core_lfree [simp]: "heap_core (h\<lparr> lfree := x \<rparr>) xs = heap_core h xs"
  by (simp add: heap_core_def)

text \<open>Changing the headers along a path.\<close>

lemma core_path:
  assumes "heap_core h xs" and "path (heap_mems h') 0 0 ys p' (heap_end h)" and "same_heap h h'"
    and "used_mem h' = usage ys" and "\<exists>e. heap_mems h' (heap_end h) = Some e \<and> hm_used e = 1 \<and> hm_next e = heap_end h"
  shows "heap_core h' ys"
  using assms by (auto simp: heap_core_def same_heap_def)

lemma usage_mark: "usage (pre @ (n, False) # post) = usage (pre @ (n, True) # post) - (n - endp 0 pre)"
  by (simp add: usage_def)

section \<open>Merging\<close>

lemma absorb_ok:
  assumes c: "heap_core h (pre @ (m, False) # (n, False) # post)" and q: "q = endp 0 pre"
    and lf: "lfree_in h (pre @ (m, False) # (n, False) # post)"
  obtains h' where "absorb q m h = Inr h'" "heap_core h' (pre @ (n, False) # post)" "lfree_in h' (pre @ (n, False) # post)"
    "same_heap h h'" "mem_data h' = mem_data h" "max_mem h' = max_mem h"
proof -
  let ?E = "heap_end h" and ?H = "heap_mems h"
  obtain p' where p': "path ?H 0 0 (pre @ (m, False) # (n, False) # post) p' ?E" using c by (auto simp: heap_core_def)
  obtain p p'' where j: "?H q = Some (header False m p)" "?H m = Some (header False n q)"
      "path (set_prev n q (?H(q := Some (header False n p)))) 0 0 (pre @ (n, False) # post) p'' ?E"
    using path_join [OF p' q, of False] by blast
  obtain e where e: "?H ?E = Some e" "hm_used e = 1" "hm_next e = ?E" using c by (auto simp: heap_core_def)
  have nb: "unat q + 16 \<le> unat m" "unat m + 16 \<le> unat n" "unat n \<le> unat ?E"
    using path_block [OF p', of q m False] path_block [OF p', of m n False] by (simp_all add: q)
  then have ne: "q \<noteq> m" "q \<noteq> n" "m \<noteq> n" "q \<noteq> ?E" by auto
  obtain mn where mn: "?H n = Some mn"
  proof (cases post)
    case Nil
    then show thesis using that [of e] p' e(1) path_endp [OF p'] by simp
  next
    case (Cons x ys)
    then have bn: "(n, fst x, snd x) \<in> set (blocks 0 (pre @ (m, False) # (n, False) # post))" by (cases x) simp
    show thesis by (rule core_block [OF c bn]) (rule that)
  qed
  define h1 where "h1 = (if lfree h = m then h\<lparr> lfree := q \<rparr> else h)"
  have h1: "heap_mems h1 = ?H" "same_heap h h1" "used_mem h1 = used_mem h" "mem_data h1 = mem_data h" "max_mem h1 = max_mem h"
    by (auto simp: h1_def same_heap_def)
  define h' where "h' = set_mem n (mn\<lparr> hm_prev := q \<rparr>) (set_mem q (header False n p) h1)"
  have H': "heap_mems h' = set_prev n q (?H(q := Some (header False n p)))"
    using mn ne(2) by (auto simp: h'_def h1(1) set_prev_def)
  have run: "absorb q m h = Inr h'"
    using j(1,2) mn ne h1(1) unfolding absorb_def h1_def [symmetric]
    by (simp add: load_mem_def update_mem_eq h'_def)
  have s': "same_heap h h'" using h1(2) by (simp add: same_heap_def h'_def)
  have "heap_core h' (pre @ (n, False) # post)"
  proof (rule core_path [OF c _ s'])
    show "path (heap_mems h') 0 0 (pre @ (n, False) # post) p'' ?E" using j(3) by (simp add: H')
    show "used_mem h' = usage (pre @ (n, False) # post)" using c by (simp add: h'_def h1(3) heap_core_def usage_def)
    show "\<exists>e. heap_mems h' ?E = Some e \<and> hm_used e = 1 \<and> hm_next e = ?E"
      using e ne(4) mn by (auto simp: h'_def h1(1))
  qed
  moreover have "lfree_in h' (pre @ (n, False) # post)"
    using lf s' h1(2) by (auto simp: lfree_in_def h'_def h1_def q same_heap_def)
  ultimately show thesis using that [OF run] s' by (simp add: h'_def h1(4,5))
qed

lemma plug_eq:
  assumes "q < heap_end h" "heap_mems h q = Some (header False n p)" "heap_mems h n = Some nm"
  shows "plug_holes q h =
    rbind (if q \<noteq> n \<and> hm_used nm = 0 \<and> n \<noteq> heap_end h then absorb q n h else Inr h) (\<lambda>h.
    rbind (load_mem q h) (\<lambda>m. rbind (load_mem (hm_prev m) h) (\<lambda>pm.
      if hm_prev m \<noteq> q \<and> hm_used pm = 0 then absorb (hm_prev m) q h else Inr h)))"
proof -
  have "load_mem q h = Inr (header False n p)" "load_mem n h = Inr nm" using assms by (simp_all add: load_mem_def)
  then show ?thesis using assms(1) unfolding plug_holes_def by simp
qed

lemma plug_ok:
  assumes c: "heap_core h (pre @ (n, False) # post)" and q: "q = endp 0 pre" and m: "merged pre" "merged post"
    and lf: "lfree_in h (pre @ (n, False) # post)"
  obtains h' ys where "plug_holes q h = Inr h'" "heap_ok h' ys" "used_from 0 ys = used_from 0 (pre @ (n, False) # post)"
    "same_heap h h'" "mem_data h' = mem_data h" "max_mem h' = max_mem h"
proof -
  let ?E = "heap_end h" and ?H = "heap_mems h"
  have bq: "(q, n, False) \<in> set (blocks 0 (pre @ (n, False) # post))" by (simp add: q)
  obtain p where hq: "?H q = Some (header False n p)" "unat q + 16 \<le> unat n" "unat n \<le> unat ?E"
    by (rule core_block [OF c bq]) (rule that)
  have qE: "q < ?E" "q \<noteq> n" using hq(2,3) by (auto simp: word_less_nat_alt)
  obtain nm where nm: "?H n = Some nm" "hm_used nm = 0 \<and> n \<noteq> ?E \<longleftrightarrow> (\<exists>k post'. post = (k, False) # post')"
  proof (cases post)
    case Nil
    obtain z where z: "path ?H 0 0 (pre @ (n, False) # post) z ?E" using c by (auto simp: heap_core_def)
    have "n = ?E" using path_endp [OF z] Nil by simp
    then show thesis using that Nil c by (auto simp: heap_core_def)
  next
    case (Cons x ys)
    obtain k v where x: "x = (k, v)" by (cases x)
    have bn: "(n, k, v) \<in> set (blocks 0 (pre @ (n, False) # post))" by (simp add: Cons x)
    obtain p2 where "?H n = Some (header v k p2)" "unat n + 16 \<le> unat k" "unat k \<le> unat ?E"
      by (rule core_block [OF c bn]) (rule that)
    moreover from this have "n \<noteq> ?E" by auto
    ultimately show thesis using that [of "header v k p2"] by (cases v) (simp_all add: Cons x)
  qed
  obtain h1 n1 post1 where h1: "(if q \<noteq> n \<and> hm_used nm = 0 \<and> n \<noteq> ?E then absorb q n h else Inr h) = Inr h1"
      "heap_core h1 (pre @ (n1, False) # post1)" "lfree_in h1 (pre @ (n1, False) # post1)" "same_heap h h1"
      "mem_data h1 = mem_data h" "max_mem h1 = max_mem h" "merged ((n1, False) # post1)"
      "used_from n1 post1 = used_from n post"
  proof (cases "\<exists>k post'. post = (k, False) # post'")
    case True
    then obtain k post' where k: "post = (k, False) # post'" by blast
    obtain h1 where "absorb q n h = Inr h1" "heap_core h1 (pre @ (k, False) # post')" "lfree_in h1 (pre @ (k, False) # post')"
        "same_heap h h1" "mem_data h1 = mem_data h" "max_mem h1 = max_mem h"
      by (rule absorb_ok [OF c [unfolded k] q lf [unfolded k]]) (rule that)
    then show thesis using that [of h1 k post'] nm(2) qE(2) m(2) k by simp
  next
    case False
    then have "\<not> (hm_used nm = 0 \<and> n \<noteq> ?E)" using nm(2) by blast
    moreover have "merged ((n, False) # post)" using m(2) False by (cases post) auto
    ultimately show thesis by (intro that [of h n post]) (use c lf in auto)
  qed
  have run: "plug_holes q h = rbind (load_mem q h1) (\<lambda>m. rbind (load_mem (hm_prev m) h1) (\<lambda>pm.
      if hm_prev m \<noteq> q \<and> hm_used pm = 0 then absorb (hm_prev m) q h1 else Inr h1))"
    using plug_eq [OF qE(1) hq(1) nm(1), unfolded h1(1)] by simp
  have used: "used_from 0 (pre @ (n1, False) # post1) = used_from 0 (pre @ (n, False) # post)" using h1(8) by simp
  obtain p1' where p1': "path (heap_mems h1) 0 0 (pre @ (n1, False) # post1) p1' (heap_end h1)"
    using h1(2) by (auto simp: heap_core_def)
  obtain p1 where a: "path (heap_mems h1) 0 0 pre p1 q" "heap_mems h1 q = Some (header False n1 p1)"
    by (rule path_at [OF p1' q]) (rule that)
  show thesis
  proof (cases pre rule: rev_cases)
    case Nil
    then have "p1 = q" using a(1) by simp
    then have "plug_holes q h = Inr h1" using a(2) by (simp add: run load_mem_def)
    moreover have "heap_ok h1 (pre @ (n1, False) # post1)" using h1(2,3,7) Nil by (simp add: heap_ok_def)
    ultimately show thesis using that used h1(4-6) by blast
  next
    case (snoc pre1 y)
    obtain u where y: "y = (q, u)" using q by (cases y) (simp add: snoc)
    have bp: "(endp 0 pre1, q, u) \<in> set (blocks 0 (pre @ (n1, False) # post1))" by (simp add: snoc y)
    obtain p0 where hp: "heap_mems h1 (endp 0 pre1) = Some (header u q p0)" "unat (endp 0 pre1) + 16 \<le> unat q"
      by (rule core_block [OF h1(2) bp]) (rule that)
    have p1: "p1 = endp 0 pre1"
    proof -
      obtain z b where "path (heap_mems h1) 0 0 pre1 z b" "path (heap_mems h1) z b [(q, u)] p1 q"
        using a(1) unfolding snoc y path_append by blast
      then show ?thesis using path_endp by auto
    qed
    have ne: "p1 \<noteq> q" using hp(2) by (auto simp: p1)
    show thesis
    proof (cases u)
      case True
      then have "plug_holes q h = Inr h1" using a(2) hp(1) by (simp add: run load_mem_def p1)
      moreover have "heap_ok h1 (pre @ (n1, False) # post1)"
        using h1(2,3,7) m(1) True by (simp add: heap_ok_def merged_append snoc y)
      ultimately show thesis using that used h1(4-6) by blast
    next
      case False
      have eq: "pre @ (n1, False) # post1 = pre1 @ (q, False) # (n1, False) # post1" by (simp add: snoc y False)
      obtain h2 where h2: "absorb p1 q h1 = Inr h2" "heap_core h2 (pre1 @ (n1, False) # post1)" "lfree_in h2 (pre1 @ (n1, False) # post1)"
          "same_heap h1 h2" "mem_data h2 = mem_data h1" "max_mem h2 = max_mem h1"
        by (rule absorb_ok [OF h1(2) [unfolded eq] p1 h1(3) [unfolded eq]]) (rule that)
      have "plug_holes q h = Inr h2" using a(2) hp(1) ne h2(1) False by (simp add: run load_mem_def p1)
      moreover have "heap_ok h2 (pre1 @ (n1, False) # post1)"
        using h2(2,3) h1(7) m(1) False by (auto simp: heap_ok_def merged_append snoc y)
      moreover have "used_from 0 (pre1 @ (n1, False) # post1) = used_from 0 (pre @ (n, False) # post)"
        using used unfolding eq by simp
      ultimately show thesis using that same_heap_trans [OF h1(4) h2(4)] h2(5,6) h1(5,6) by simp
    qed
  qed
qed

section \<open>Searching\<close>

lemma fits_iff:
  assumes "unat ptr + 16 \<le> unat n"
  shows "n - (ptr + SIZEOF_STRUCT_MEM) \<ge> sz \<longleftrightarrow> unat ptr + 12 + unat sz \<le> unat n"
proof -
  have lt: "unat ptr + 12 < 2 ^ 32" using assms unat_u32_less [of n] by simp
  have a: "unat (ptr + 12) = unat ptr + 12" using lt by (simp add: unat_word_ariths)
  then have "unat (n - (ptr + 12)) = unat n - (unat ptr + 12)"
    using assms by (simp add: unat_sub_if' word_le_nat_alt)
  then show ?thesis using assms by (simp add: word_le_nat_alt) linarith
qed

lemma malloc_find_ok:
  assumes "path (heap_mems h) p b post p' (heap_end h)" and sz: "sz \<le> mem_size_aligned h"
    and E: "unat (heap_end h) = unat (mem_size_aligned h) + 12"
  shows "\<exists>r. malloc_find sz b h = Some (Inr r) \<and> (case r of
     None \<Rightarrow> \<forall>q n. (q, n, False) \<in> set (blocks b post) \<longrightarrow> unat q + 12 + unat sz \<le> unat n \<longrightarrow>
               unat (mem_size_aligned h) \<le> unat q + unat sz
   | Some q \<Rightarrow> unat q + unat sz < unat (mem_size_aligned h) \<and>
       (\<exists>n. (q, n, False) \<in> set (blocks b post) \<and> unat q + 12 + unat sz \<le> unat n))"
  using assms(1)
proof (induction post arbitrary: p b)
  case Nil
  have "\<not> heap_end h < mem_size_aligned h - sz"
    using sz E by (simp add: word_less_nat_alt unat_sub)
  then show ?case using Nil by (subst malloc_find.simps) simp
next
  case (Cons x post)
  obtain n u where x: "x = (n, u)" by (cases x)
  have b: "heap_mems h b = Some (header u n p)" "unat b + 16 \<le> unat n" "path (heap_mems h) b n post p' (heap_end h)"
    using Cons.prems by (simp_all add: x)
  have lt: "b < mem_size_aligned h - sz \<longleftrightarrow> unat b + unat sz < unat (mem_size_aligned h)"
    using sz by (simp add: word_less_nat_alt unat_sub word_le_nat_alt) linarith
  show ?case
  proof (cases "b < mem_size_aligned h - sz")
    case False
    then have "malloc_find sz b h = Some (Inr None)" by (subst malloc_find.simps) simp
    moreover have "unat (mem_size_aligned h) \<le> unat q + unat sz" if "(q, m, False) \<in> set (blocks b (x # post))" for q m
      using path_block [OF Cons.prems that] False lt by simp
    ultimately show ?thesis by auto
  next
    case True
    note f = fits_iff [OF b(2), of sz]
    show ?thesis
    proof (cases "\<not> u \<and> unat b + 12 + unat sz \<le> unat n")
      case fit: True
      then have "malloc_find sz b h = Some (Inr (Some b))" using True f b(1) by (subst malloc_find.simps) simp
      then show ?thesis using fit True lt by (auto simp: x)
    next
      case no: False
      then have "malloc_find sz b h = malloc_find sz n h" using True f b(1) by (subst malloc_find.simps) auto
      moreover obtain r where r: "malloc_find sz n h = Some (Inr r)" "case r of
          None \<Rightarrow> \<forall>q m. (q, m, False) \<in> set (blocks n post) \<longrightarrow> unat q + 12 + unat sz \<le> unat m \<longrightarrow>
                    unat (mem_size_aligned h) \<le> unat q + unat sz
        | Some q \<Rightarrow> unat q + unat sz < unat (mem_size_aligned h) \<and>
            (\<exists>m. (q, m, False) \<in> set (blocks n post) \<and> unat q + 12 + unat sz \<le> unat m)"
        using Cons.IH [OF b(3)] by blast
      ultimately show ?thesis using no by (intro exI [of _ r]) (cases r; auto simp: x)
    qed
  qed
qed

lemma next_free_ok:
  assumes "path (heap_mems h) p b post p' (heap_end h)" "heap_mems h (heap_end h) \<noteq> None"
  shows "\<exists>x. next_free b h = Some (Inr x) \<and> (x = heap_end h \<or> (\<exists>n. (x, n, False) \<in> set (blocks b post)))"
  using assms(1)
proof (induction post arbitrary: p b)
  case Nil
  then show ?case using assms(2) by (subst next_free.simps) auto
next
  case (Cons y post)
  obtain n u where y: "y = (n, u)" by (cases y)
  have b: "heap_mems h b = Some (header u n p)" "path (heap_mems h) b n post p' (heap_end h)" "b \<noteq> heap_end h"
    using Cons.prems path_mono [of "heap_mems h" b n post p' "heap_end h"] by (auto simp: y)
  show ?case
  proof (cases u)
    case True
    then have "next_free b h = next_free n h" using b(1,3) by (subst next_free.simps) simp
    then show ?thesis using Cons.IH [OF b(2)] by (auto simp: y)
  next
    case False
    then have "next_free b h = Some (Inr b)" using b(1) by (subst next_free.simps) simp
    then show ?thesis using False by (auto simp: y)
  qed
qed

section \<open>Taking a block\<close>

lemma merged_mark: "merged (pre @ (n, u) # post) \<Longrightarrow> merged (pre @ (n, True) # post)"
  by (cases post) (auto simp: merged_append)

lemma merged_divide: "merged (pre @ (n, False) # post) \<Longrightarrow> merged (pre @ (k, True) # (n, False) # post)"
  by (auto simp: merged_append)

text \<open>What taking a free block does to the list of blocks: it becomes used up to \<open>k\<close>.\<close>

definition taken :: "u32 \<Rightarrow> u32 \<Rightarrow> (u32 \<times> bool) list \<Rightarrow> (u32 \<times> bool) list \<Rightarrow> bool" where
  "taken q k xs ys \<longleftrightarrow> merged ys \<and>
     (\<forall>b e. (b, e) \<in> set (used_from 0 ys) \<longleftrightarrow> (b, e) = (q, k) \<or> (b, e) \<in> set (used_from 0 xs)) \<and>
     (\<forall>b e. (b, e, False) \<in> set (blocks 0 xs) \<longrightarrow> b \<noteq> q \<longrightarrow> (b, e, False) \<in> set (blocks 0 ys))"

lemma take_whole:
  assumes c: "heap_core h (pre @ (n, False) # post)" and q: "q = endp 0 pre" and m: "merged (pre @ (n, False) # post)"
    and small: "\<not> n - (q + 12) \<ge> sz + 12 + 12"
  obtains h' ys where "malloc_take sz q h = Inr h'" "heap_core h' ys" "taken q n (pre @ (n, False) # post) ys"
    "same_heap h h'" "mem_data h' = mem_data h" "lfree h' = lfree h"
proof -
  let ?E = "heap_end h" and ?H = "heap_mems h"
  obtain p' where p': "path ?H 0 0 (pre @ (n, False) # post) p' ?E" using c by (auto simp: heap_core_def)
  obtain e where e: "?H ?E = Some e" "hm_used e = 1" "hm_next e = ?E" using c by (auto simp: heap_core_def)
  have nE: "unat n \<le> unat ?E" "unat q + 16 \<le> unat n" using path_block [OF p', of q n False] by (simp_all add: q)
  have uq: "used_mem h = usage (pre @ (n, False) # post)" using c by (simp add: heap_core_def)
  obtain p where p: "?H q = Some (header False n p)"
      "path (?H(q := Some (header True n p))) 0 0 (pre @ (n, True) # post) p' ?E"
    using path_mark [OF p' q, of True] by blast
  define h' where "h' = set_mem q (header True n p) (add_used (n - q) (set_mem q (header True n p) h))"
  have run: "malloc_take sz q h = Inr h'"
    using p(1) small by (simp add: malloc_take_def load_mem_def update_mem_eq h'_def)
  have s': "same_heap h h'" by (simp add: same_heap_def h'_def)
  have core: "heap_core h' (pre @ (n, True) # post)"
  proof (rule core_path [OF c _ s'])
    show "path (heap_mems h') 0 0 (pre @ (n, True) # post) p' ?E" using p(2) by (simp add: h'_def)
    show "used_mem h' = usage (pre @ (n, True) # post)" by (simp add: h'_def uq usage_mark q)
    show "\<exists>e. heap_mems h' ?E = Some e \<and> hm_used e = 1 \<and> hm_next e = ?E" using e nE by (auto simp: h'_def)
  qed
  have "taken q n (pre @ (n, False) # post) (pre @ (n, True) # post)"
    using merged_mark [OF m] by (auto simp: taken_def q)
  then show thesis by (rule that [OF run core _ s']) (simp_all add: h'_def)
qed

text \<open>Dividing a block, as \<^verbatim>\<open>rt_malloc\<close> and \<^verbatim>\<open>rt_realloc\<close> do: the link back from the next block is
  written only where that block is not the end of the heap.\<close>

lemma divide_ok:
  assumes c: "heap_core h (pre @ (n, u) # post)" and q: "q = endp 0 pre"
    and k: "unat q + 16 \<le> unat k" "unat k + 16 \<le> unat n" "4 dvd unat k"
    and H: "\<And>p. heap_mems h q = Some (header u n p) \<Longrightarrow> H = (heap_mems h)(k := Some (header False n q), q := Some (header True k p))"
  shows "\<exists>p p' nm. heap_mems h q = Some (header u n p) \<and> H n = Some nm \<and>
    path (if n = heap_end h then H else H(n := Some (nm\<lparr> hm_prev := k \<rparr>))) 0 0 (pre @ (k, True) # (n, False) # post) p' (heap_end h)"
proof -
  let ?E = "heap_end h" and ?H = "heap_mems h"
  obtain p' where p': "path ?H 0 0 (pre @ (n, u) # post) p' ?E" using c by (auto simp: heap_core_def)
  obtain p p'' where d: "?H q = Some (header u n p)"
      "path (set_prev n k (?H(k := Some (header False n q), q := Some (header True k p)))) 0 0 (pre @ (k, True) # (n, False) # post) p'' ?E"
    using path_divide [OF p' q k, where v = False and w = True] by blast
  have Hd: "H = ?H(k := Some (header False n q), q := Some (header True k p))" by (rule H [OF d(1)])
  have ne: "n \<noteq> k" "n \<noteq> q" using k by auto
  obtain nm where nm: "?H n = Some nm"
  proof (cases post)
    case Nil
    then show thesis using that c path_endp [OF p'] by (auto simp: heap_core_def)
  next
    case (Cons x ys)
    then have bn: "(n, fst x, snd x) \<in> set (blocks 0 (pre @ (n, u) # post))" by (cases x) simp
    show thesis by (rule core_block [OF c bn]) (rule that)
  qed
  have Hn: "H n = Some nm" using nm ne by (simp add: Hd)
  have sp: "set_prev n k H = H(n := Some (nm\<lparr> hm_prev := k \<rparr>))" by (simp add: set_prev_def Hn)
  have "path H 0 0 (pre @ (k, True) # (n, False) # post) p'' ?E" if "n = ?E"
  proof -
    have "(H(n := Some (nm\<lparr> hm_prev := k \<rparr>)))(n := H n) = H" by simp
    moreover have "path ((H(n := Some (nm\<lparr> hm_prev := k \<rparr>)))(n := H n)) 0 0 (pre @ (k, True) # (n, False) # post) p'' ?E"
      by (rule path_upd) (use d(2) sp Hd that in simp_all)
    ultimately show ?thesis by simp
  qed
  then show ?thesis using d Hn sp Hd by auto
qed

lemma take_part:
  assumes c: "heap_core h (pre @ (n, False) # post)" and q: "q = endp 0 pre" and m: "merged (pre @ (n, False) # post)"
    and sz: "12 \<le> unat sz" "4 dvd unat sz" "unat q + 12 + unat sz + 24 \<le> unat n"
    and big: "n - (q + 12) \<ge> sz + 12 + 12"
  obtains h' ys where "malloc_take sz q h = Inr h'" "heap_core h' ys" "taken q (q + 12 + sz) (pre @ (n, False) # post) ys"
    "same_heap h h'" "mem_data h' = mem_data h" "lfree h' = lfree h"
proof -
  let ?E = "heap_end h" and ?H = "heap_mems h"
  define k where "k = q + 12 + sz"
  have bq: "(q, n, False) \<in> set (blocks 0 (pre @ (n, False) # post))" by (simp add: q)
  obtain p where p: "?H q = Some (header False n p)" "unat n \<le> unat ?E" "4 dvd unat q" by (rule core_block [OF c bq]) (rule that)
  have k: "unat k = unat q + 12 + unat sz"
    using sz(3) unat_u32_less [of n] by (simp add: k_def unat_word_ariths)
  have dv: "4 dvd unat k" using p(3) sz(2) unfolding k by presburger
  have kb: "unat q + 16 \<le> unat k" "unat k + 16 \<le> unat n" using k sz by auto
  define H where "H = ?H(k := Some (header False n q), q := Some (header True k p))"
  obtain p' nm where d: "H n = Some nm"
      "path (if n = ?E then H else H(n := Some (nm\<lparr> hm_prev := k \<rparr>))) 0 0 (pre @ (k, True) # (n, False) # post) p' ?E"
    using divide_ok [OF c q kb dv, of H] p(1) by (auto simp: H_def)
  define h1 where "h1 = set_mem q (header True k p) (set_mem k (header False n q) h)"
  define h2 where "h2 = (if n = ?E then h1 else set_mem n (nm\<lparr> hm_prev := k \<rparr>) h1)"
  define h' where "h' = set_mem q (header True k p) (add_used (sz + 12) h2)"
  have h1: "heap_mems h1 = H" "same_heap h h1" by (simp_all add: h1_def H_def same_heap_def)
  have ne: "k \<noteq> q" "n \<noteq> q" "n \<noteq> k" "q \<noteq> ?E" "k \<noteq> ?E" using kb p(2) by auto
  have h2: "heap_mems h2 = (if n = ?E then H else H(n := Some (nm\<lparr> hm_prev := k \<rparr>)))" "same_heap h h2"
    using h1 by (auto simp: h2_def same_heap_def)
  have h2q: "heap_mems h2 q = Some (header True k p)" using ne by (simp add: h2(1) H_def)
  have kE: "k < ?E" using kb p(2) by (simp add: word_less_nat_alt)
  have Em: "mem_size_aligned h + 12 = ?E" by (simp add: heap_end_def)
  have magic: "update_mem q (\<lambda>m. m\<lparr> hm_magic := HEAP_MAGIC \<rparr>) (add_used (sz + 12) h2) = Inr h'"
    using h2q by (simp add: update_mem_eq h'_def)
  have "update_mem q (\<lambda>m. m\<lparr> hm_next := k, hm_used := 1 \<rparr>) (set_mem k (header False n q) h) = Inr h1"
    using p(1) ne(1) by (simp add: update_mem_eq h1_def)
  moreover have "(if n \<noteq> ?E then update_mem n (\<lambda>m. m\<lparr> hm_prev := k \<rparr>) h1 else Inr h1) = Inr h2"
    using d(1) h1(1) by (simp add: update_mem_eq h2_def)
  moreover have "mem_size_aligned h1 + 12 = ?E" using Em h1(2) by (simp add: same_heap_def)
  ultimately have run: "malloc_take sz q h = Inr h'"
    using p(1) big kE magic
    by (cases "n = ?E") (simp_all add: malloc_take_def load_mem_def Let_def k_def [symmetric] new_mem_def)
  have s': "same_heap h h'" using h2(2) by (simp add: same_heap_def h'_def)
  have "(heap_mems h2)(q := Some (header True k p)) = heap_mems h2" using h2q by auto
  then have H': "heap_mems h' = heap_mems h2" by (simp add: h'_def)
  have core: "heap_core h' (pre @ (k, True) # (n, False) # post)"
  proof (rule core_path [OF c _ s'])
    show "path (heap_mems h') 0 0 (pre @ (k, True) # (n, False) # post) p' ?E" using d(2) by (simp add: H' h2(1))
    have "used_mem h = usage (pre @ (n, False) # post)" using c by (simp add: heap_core_def)
    then show "used_mem h' = usage (pre @ (k, True) # (n, False) # post)"
      by (simp add: h'_def h2_def h1_def usage_def k_def q)
    show "\<exists>e. heap_mems h' ?E = Some e \<and> hm_used e = 1 \<and> hm_next e = ?E"
      using c ne by (auto simp: heap_core_def H' h2(1) H_def)
  qed
  have "taken q k (pre @ (n, False) # post) (pre @ (k, True) # (n, False) # post)"
    using merged_divide [OF m] by (auto simp: taken_def q)
  then show thesis using that [OF run core _ s'] by (simp add: h'_def h2_def h1_def k_def)
qed

lemma take_ok:
  assumes c: "heap_core h xs" "merged xs" and b: "(q, n, False) \<in> set (blocks 0 xs)"
    and sz: "12 \<le> unat sz" "4 dvd unat sz" "unat q + 12 + unat sz \<le> unat n" "unat sz + 24 < 2 ^ 32"
  obtains h' ys k where "malloc_take sz q h = Inr h'" "heap_core h' ys" "taken q k xs ys" "unat q + 12 + unat sz \<le> unat k"
    "unat k \<le> unat n" "same_heap h h'" "mem_data h' = mem_data h" "lfree h' = lfree h"
proof -
  obtain pre post where xs: "xs = pre @ (n, False) # post" "q = endp 0 pre" using block_split [OF b] by blast
  obtain p where p: "unat q + 16 \<le> unat n" by (rule core_block [OF c(1) b]) (rule that)
  show thesis
  proof (cases "n - (q + 12) \<ge> sz + 12 + 12")
    case False
    obtain h' ys where "malloc_take sz q h = Inr h'" "heap_core h' ys" "taken q n xs ys"
        "same_heap h h'" "mem_data h' = mem_data h" "lfree h' = lfree h"
      by (rule take_whole [OF c(1) [unfolded xs(1)] xs(2) c(2) [unfolded xs(1)] False]) (use xs(1) that in auto)
    then show thesis using that sz(3) by blast
  next
    case True
    have s24: "unat (sz + 12 + 12) = unat sz + 24" using sz(4) by (simp add: unat_word_ariths)
    have room: "unat q + 12 + unat sz + 24 \<le> unat n" using True fits_iff [OF p, of "sz + 12 + 12"] s24 by simp
    have k: "unat (q + 12 + sz) = unat q + 12 + unat sz"
      using room unat_u32_less [of n] by (simp add: unat_word_ariths)
    obtain h' ys where "malloc_take sz q h = Inr h'" "heap_core h' ys" "taken q (q + 12 + sz) xs ys"
        "same_heap h h'" "mem_data h' = mem_data h" "lfree h' = lfree h"
      by (rule take_part [OF c(1) [unfolded xs(1)] xs(2) c(2) [unfolded xs(1)] sz(1,2) room True]) (use xs(1) that in auto)
    then show thesis using that room by (simp add: k)
  qed
qed

lemma advance_ok:
  assumes c: "heap_core h ys" and lf: "lfree h = heap_end h \<or> (\<exists>n. (lfree h, n, False) \<in> set (blocks 0 ys)) \<or> lfree h = q"
    and q: "(q, k, u) \<in> set (blocks 0 ys)"
  obtains h' where "advance_lfree q h = Some (Inr h')" "heap_core h' ys" "lfree_in h' ys" "same_heap h h'"
    "mem_data h' = mem_data h"
proof (cases "lfree h = q")
  case False
  then have "lfree_in h ys" using lf by (auto simp: lfree_in_def)
  then show thesis using that [of h] c False by (simp add: advance_lfree_def)
next
  case True
  obtain p' where p': "path (heap_mems h) 0 0 ys p' (heap_end h)" using c by (auto simp: heap_core_def)
  obtain pre post where ys: "ys = pre @ (k, u) # post" "q = endp 0 pre" using block_split [OF q] by blast
  obtain p where p: "path (heap_mems h) p q ((k, u) # post) p' (heap_end h)"
    using p' path_endp unfolding ys(1) path_append ys(2) by metis
  have "heap_mems h (heap_end h) \<noteq> None" using c by (auto simp: heap_core_def)
  then obtain x where x: "next_free q h = Some (Inr x)" "x = heap_end h \<or> (\<exists>n. (x, n, False) \<in> set (blocks q ((k, u) # post)))"
    using next_free_ok [OF p] by blast
  define h' where "h' = h\<lparr> lfree := x \<rparr>"
  have "set (blocks q ((k, u) # post)) \<subseteq> set (blocks 0 ys)" unfolding ys by auto
  then have li: "lfree_in h' ys" using x(2) by (auto simp: lfree_in_def h'_def)
  have c': "heap_core h' ys" using c by (simp add: h'_def)
  have "lfree_ok h'"
  proof (cases "x = heap_end h")
    case False
    then obtain n where b: "(x, n, False) \<in> set (blocks 0 ys)" using li by (auto simp: lfree_in_def h'_def)
    obtain p0 where "heap_mems h x = Some (header False n p0)" by (rule core_block [OF c b]) (rule that)
    then show ?thesis by (simp add: lfree_ok_def h'_def)
  qed (simp add: lfree_ok_def h'_def)
  then have "advance_lfree q h = Some (Inr h')" using True x(1) by (simp add: advance_lfree_def h'_def)
  then show thesis by (rule that [OF _ c' li]) (simp_all add: h'_def same_heap_def)
qed

section \<open>Allocated blocks\<close>

text \<open>What the user of the heap owns: addresses and sizes.\<close>

definition allocated :: "heap \<Rightarrow> (u32 \<times> bool) list \<Rightarrow> (u32 \<times> u32) set" where
  "allocated h xs = (\<lambda>(b, n). (heap_ptr h + b + SIZEOF_STRUCT_MEM, n - b - SIZEOF_STRUCT_MEM)) ` set (used_from 0 xs)"

definition apart :: "u32 \<times> u32 \<Rightarrow> u32 \<times> u32 \<Rightarrow> bool" where
  "apart x y \<longleftrightarrow> unat (fst x) + unat (snd x) \<le> unat (fst y) \<or> unat (fst y) + unat (snd y) \<le> unat (fst x)"

text \<open>The request that the code serves.\<close>

definition request :: "u32 \<Rightarrow> u32" where
  "request sz0 = (let sz = rt_align sz0 4 in if sz < MIN_SIZE_ALIGNED then MIN_SIZE_ALIGNED else sz)"

lemma request_ok:
  assumes "unat sz0 + 3 < 2 ^ 32"
  shows "12 \<le> unat (request sz0)" "4 dvd unat (request sz0)" "unat sz0 \<le> unat (request sz0)"
    "unat (rt_align sz0 4) = 4 * ((unat sz0 + 3) div 4)"
proof -
  show a: "unat (rt_align sz0 4) = 4 * ((unat sz0 + 3) div 4)" by (rule unat_align_4 [OF assms])
  show "12 \<le> unat (request sz0)" by (simp add: request_def Let_def word_less_nat_alt)
  show "4 dvd unat (request sz0)" by (simp add: request_def Let_def a)
  have "unat sz0 \<le> 4 * ((unat sz0 + 3) div 4)" by linarith
  then show "unat sz0 \<le> unat (request sz0)" using a by (simp add: request_def Let_def word_less_nat_alt)
qed

text \<open>A block's address and size, in terms of its place.\<close>

lemma block_region:
  assumes c: "heap_core h xs" and b: "(q, n, u) \<in> set (blocks 0 xs)"
  shows "unat (heap_ptr h + q + 12) = unat (heap_ptr h) + unat q + 12" "unat (n - q - 12) = unat n - unat q - 12"
    "unat q + 16 \<le> unat n" "unat (heap_ptr h) + unat n + 12 < 2 ^ 32" "4 dvd unat (heap_ptr h + q + 12)"
proof -
  obtain p where p: "unat q + 16 \<le> unat n" "unat n \<le> unat (heap_end h)" "4 dvd unat q" by (rule core_block [OF c b]) (rule that)
  show "unat q + 16 \<le> unat n" by (rule p(1))
  show l: "unat (heap_ptr h) + unat n + 12 < 2 ^ 32" using c p(2) unat_heap_end [OF c] by (simp add: heap_core_def)
  show a: "unat (heap_ptr h + q + 12) = unat (heap_ptr h) + unat q + 12" using l p(1) by (simp add: unat_word_ariths)
  show "unat (n - q - 12) = unat n - unat q - 12" using p(1) by (simp add: unat_sub_if' word_le_nat_alt)
  have "4 dvd unat (heap_ptr h)" using c by (simp add: heap_core_def)
  then show "4 dvd unat (heap_ptr h + q + 12)" unfolding a using p(3) by presburger
qed

lemma allocated_iff:
  "(a, m) \<in> allocated h xs \<longleftrightarrow> (\<exists>q n. (q, n, True) \<in> set (blocks 0 xs) \<and> a = heap_ptr h + q + 12 \<and> m = n - q - 12)"
  by (force simp: allocated_def used_from_iff [symmetric])

lemma allocated_apart:
  assumes c: "heap_core h xs" and "x \<in> allocated h xs" "y \<in> allocated h xs"
  shows "x = y \<or> apart x y"
proof -
  obtain q n where x: "x = (heap_ptr h + q + 12, n - q - 12)" "(q, n, True) \<in> set (blocks 0 xs)"
    using assms(2) by (cases x) (auto simp: allocated_iff)
  obtain r m where y: "y = (heap_ptr h + r + 12, m - r - 12)" "(r, m, True) \<in> set (blocks 0 xs)"
    using assms(3) by (cases y) (auto simp: allocated_iff)
  obtain p' where p': "path (heap_mems h) 0 0 xs p' (heap_end h)" using c by (auto simp: heap_core_def)
  show ?thesis
    using path_apart [OF p' x(2) y(2)] block_region(1-3) [OF c x(2)] block_region(1-3) [OF c y(2)]
    by (auto simp: x(1) y(1) apart_def)
qed

section \<open>Allocating\<close>

lemma aligned_and_3:
  assumes "4 dvd unat (x :: u32)"
  shows "x AND 3 = 0" "x mod 4 = 0"
proof -
  have "unat (x mod 4) = 0" using assms by (simp add: unat_mod)
  then show m: "x mod 4 = 0" by (simp add: unat_eq_0)
  have "x AND mask 2 = take_bit 2 x" by (simp add: take_bit_eq_mask)
  then show "x AND 3 = 0" using m by (simp add: mask_eq_exp_minus_1 take_bit_eq_mod)
qed

text \<open>The part of the heap that the search looks at.\<close>

lemma from_lfree:
  assumes c: "heap_core h xs" and lf: "lfree_in h xs"
  obtains p post p' where "path (heap_mems h) p (lfree h) post p' (heap_end h)"
    and "set (blocks (lfree h) post) = {(q, n, u). (q, n, u) \<in> set (blocks 0 xs) \<and> unat (lfree h) \<le> unat q}"
proof -
  obtain p' where p': "path (heap_mems h) 0 0 xs p' (heap_end h)" using c by (auto simp: heap_core_def)
  obtain pre post where xs: "xs = pre @ post" "lfree h = endp 0 pre"
  proof (cases "lfree h = heap_end h")
    case True
    then show thesis using that [of xs "[]"] path_endp [OF p'] by simp
  next
    case False
    then obtain n where "(lfree h, n, False) \<in> set (blocks 0 xs)" using lf by (auto simp: lfree_in_def)
    then show thesis using block_split that by blast
  qed
  obtain p b where pb: "path (heap_mems h) 0 0 pre p b" "path (heap_mems h) p b post p' (heap_end h)"
    using p' unfolding xs(1) path_append by blast
  have b: "b = lfree h" using path_endp [OF pb(1)] xs(2) by simp
  have l: "\<not> unat (lfree h) \<le> unat q" if "(q, n, u) \<in> set (blocks 0 pre)" for q n u
    using path_block [OF pb(1) that] by (simp add: b)
  have r: "unat (lfree h) \<le> unat q" if "(q, n, u) \<in> set (blocks (lfree h) post)" for q n u
    using path_block [OF pb(2) that [folded b]] by (simp add: b)
  show thesis by (rule that [OF pb(2) [unfolded b]]) (use l r in \<open>auto simp: xs\<close>)
qed

text \<open>A block that the search comes to and accepts.\<close>

definition search_room :: "heap \<Rightarrow> (u32 \<times> bool) list \<Rightarrow> u32 \<Rightarrow> bool" where
  "search_room h xs sz \<longleftrightarrow> (\<exists>q n. (q, n, False) \<in> set (blocks 0 xs) \<and> unat (lfree h) \<le> unat q \<and>
     unat q + 12 + unat sz \<le> unat n \<and> unat q + unat sz < unat (mem_size_aligned h))"

lemma malloc_ok:
  assumes ok: "heap_ok h xs" and s0: "sz0 \<noteq> 0" "unat sz0 + 3 < 2 ^ 32"
  shows "(\<not> search_room h xs (request sz0) \<and> rt_malloc False sz0 h = Some (Inr (h, 0))) \<or>
    search_room h xs (request sz0) \<and>
    (\<exists>h' ys q k n. rt_malloc False sz0 h = Some (Inr (h', heap_ptr h + q + 12)) \<and> heap_ok h' ys \<and> taken q k xs ys \<and>
       (q, n, False) \<in> set (blocks 0 xs) \<and> unat q + 12 + unat (request sz0) \<le> unat k \<and> unat k \<le> unat n \<and>
       same_heap h h' \<and> mem_data h' = mem_data h)"
proof -
  have c: "heap_core h xs" "merged xs" "lfree_in h xs" using ok by (simp_all add: heap_ok_def)
  define sz where "sz = request sz0"
  note rq = request_ok [OF s0(2), folded sz_def]
  show ?thesis
  proof (cases "rt_align sz0 4 > mem_size_aligned h")
    case True
    have "unat (mem_size_aligned h) \<le> unat sz" using True rq(4) by (simp add: sz_def request_def Let_def word_less_nat_alt)
    then have "\<not> search_room h xs sz" by (auto simp: search_room_def)
    moreover have "rt_malloc False sz0 h = Some (Inr (h, 0))" using True s0(1) by (simp add: rt_malloc_def Let_def)
    ultimately show ?thesis by (simp add: sz_def)
  next
    case False
    have szm: "sz \<le> mem_size_aligned h" "unat sz + 24 < 2 ^ 32"
    proof -
      show l: "sz \<le> mem_size_aligned h"
        using False c(1) by (simp add: sz_def request_def Let_def heap_core_def word_le_nat_alt word_less_nat_alt)
      show "unat sz + 24 < 2 ^ 32" using l c(1) by (simp add: heap_core_def word_le_nat_alt)
    qed
    obtain p post p' where f: "path (heap_mems h) p (lfree h) post p' (heap_end h)"
        "set (blocks (lfree h) post) = {(q, n, u). (q, n, u) \<in> set (blocks 0 xs) \<and> unat (lfree h) \<le> unat q}"
      by (rule from_lfree [OF c(1,3)]) (rule that)
    have run: "rt_malloc False sz0 h = (case malloc_find sz (lfree h) h of
        None \<Rightarrow> None | Some (Inl e) \<Rightarrow> Some (Inl e) | Some (Inr None) \<Rightarrow> Some (Inr (h, 0))
      | Some (Inr (Some mem)) \<Rightarrow> (case malloc_take sz mem h of Inl e \<Rightarrow> Some (Inl e)
          | Inr h \<Rightarrow> (case advance_lfree mem h of None \<Rightarrow> None | Some r \<Rightarrow> Some (rbind r (malloc_result sz mem)))))"
    proof -
      have e: "(if rt_align sz0 4 < 12 then 12 else rt_align sz0 4) = sz" by (simp add: sz_def request_def Let_def)
      show ?thesis unfolding rt_malloc_def Let_def e using False s0(1) by simp
    qed
    obtain r where r: "malloc_find sz (lfree h) h = Some (Inr r)" "case r of
        None \<Rightarrow> \<forall>q n. (q, n, False) \<in> set (blocks (lfree h) post) \<longrightarrow> unat q + 12 + unat sz \<le> unat n \<longrightarrow>
                  unat (mem_size_aligned h) \<le> unat q + unat sz
      | Some q \<Rightarrow> unat q + unat sz < unat (mem_size_aligned h) \<and>
          (\<exists>n. (q, n, False) \<in> set (blocks (lfree h) post) \<and> unat q + 12 + unat sz \<le> unat n)"
      using malloc_find_ok [OF f(1) szm(1) unat_heap_end [OF c(1)]] by blast
    show ?thesis
    proof (cases r)
      case None
      have "rt_malloc False sz0 h = Some (Inr (h, 0))" using run r(1) None by simp
      moreover have "\<not> search_room h xs sz" using r(2) None f(2) by (fastforce simp: search_room_def)
      ultimately show ?thesis by (simp add: sz_def)
    next
      case (Some q)
      then obtain n where n: "(q, n, False) \<in> set (blocks 0 xs)" "unat q + 12 + unat sz \<le> unat n"
          "unat (lfree h) \<le> unat q" "unat q + unat sz < unat (mem_size_aligned h)"
        using r(2) f(2) by auto
      have room: "search_room h xs sz" using n unfolding search_room_def by blast
      obtain h1 ys k where h1: "malloc_take sz q h = Inr h1" "heap_core h1 ys" "taken q k xs ys"
          "unat q + 12 + unat sz \<le> unat k" "unat k \<le> unat n" "same_heap h h1" "mem_data h1 = mem_data h" "lfree h1 = lfree h"
        by (rule take_ok [OF c(1,2) n(1) rq(1,2) n(2) szm(2)]) (rule that)
      have qk: "(q, k, True) \<in> set (blocks 0 ys)" using h1(3) by (simp add: taken_def used_from_iff [symmetric])
      have lf: "lfree h1 = heap_end h1 \<or> (\<exists>n. (lfree h1, n, False) \<in> set (blocks 0 ys)) \<or> lfree h1 = q"
        using c(3) h1(3,6,8) unfolding lfree_in_def taken_def same_heap_def by metis
      obtain h2 where h2: "advance_lfree q h1 = Some (Inr h2)" "heap_core h2 ys" "lfree_in h2 ys" "same_heap h1 h2"
          "mem_data h2 = mem_data h1"
        by (rule advance_ok [OF h1(2) lf qk]) (rule that)
      have s2: "same_heap h h2" by (rule same_heap_trans [OF h1(6) h2(4)])
      note br = block_region [OF h2(2) qk]
      have E: "unat k \<le> unat (heap_end h2)" "4 dvd unat q" by (rule core_block [OF h2(2) qk], simp)+
      have hp: "unat (heap_ptr h2 + heap_end h2) = unat (heap_ptr h2) + unat (heap_end h2)"
        using h2(2) unat_heap_end [OF h2(2)] by (simp add: heap_core_def unat_word_ariths)
      have a4: "4 dvd unat (heap_ptr h2 + q)"
      proof -
        have "unat (heap_ptr h2 + q) = unat (heap_ptr h2) + unat q" using br(1,3,4) by (simp add: unat_word_ariths)
        moreover have "4 dvd unat (heap_ptr h2)" using h2(2) by (simp add: heap_core_def)
        ultimately show ?thesis using E(2) by simp
      qed
      have "unat (heap_ptr h2 + q + 12 + sz) = unat (heap_ptr h2) + unat q + 12 + unat sz"
        using br(1,4) h1(4) by (simp add: unat_word_ariths)
      then have "heap_ptr h2 + q + 12 + sz \<le> heap_ptr h2 + heap_end h2"
        using h1(4) E(1) hp by (simp add: word_le_nat_alt)
      then have "malloc_result sz q h2 = Inr (h2, heap_ptr h2 + q + 12)"
        using aligned_and_3 [OF br(5)] aligned_and_3 [OF a4] by (simp add: malloc_result_def)
      then have "rt_malloc False sz0 h = Some (Inr (h2, heap_ptr h + q + 12))"
        using run r(1) Some h1(1) h2(1) s2 by (simp add: same_heap_def)
      moreover have "heap_ok h2 ys" using h2(2,3) h1(3) by (simp add: heap_ok_def taken_def)
      moreover have "mem_data h2 = mem_data h" using h1(7) h2(5) by simp
      ultimately show ?thesis using room n(1) h1(3-5) s2 unfolding sz_def by blast
    qed
  qed
qed

end
