(* ===== verification/SmallMemOps.thy ===== *)
theory SmallMemOps
  imports SmallMem
begin

text \<open>
  Release and initialisation of the heap of \<^verbatim>\<open>src/mem.c\<close>, and what the allocator promises its callers.
\<close>

section \<open>Releasing\<close>

text \<open>A used block is found once in the list of blocks.\<close>

lemma used_once:
  assumes c: "heap_core h xs" and xs: "xs = pre @ (n, True) # post" "q = endp 0 pre"
  shows "(q, n) \<notin> set (used_from 0 pre) \<union> set (used_from n post)"
proof -
  obtain p' where p': "path (heap_mems h) 0 0 (pre @ (n, True) # post) p' (heap_end h)"
    using c by (auto simp: heap_core_def xs(1))
  then obtain p where a: "path (heap_mems h) 0 0 pre p q" "unat q + 16 \<le> unat n" "path (heap_mems h) q n post p' (heap_end h)"
    by (rule path_at [OF _ xs(2)]) (rule that)
  then show ?thesis using path_block [OF a(1), of q n True] path_block [OF a(3), of q n True] by (auto simp: used_from_iff)
qed

lemma free_ok:
  assumes ok: "heap_ok h xs" and b: "(q, n, True) \<in> set (blocks 0 xs)"
  obtains h' ys where "rt_free False (heap_ptr h + q + 12) h = Inr h'" "heap_ok h' ys"
    "set (used_from 0 ys) = set (used_from 0 xs) - {(q, n)}" "same_heap h h'" "mem_data h' = mem_data h"
proof -
  let ?E = "heap_end h" and ?H = "heap_mems h"
  have c: "heap_core h xs" "merged xs" "lfree_in h xs" using ok by (simp_all add: heap_ok_def)
  obtain pre post where xs: "xs = pre @ (n, True) # post" "q = endp 0 pre" using block_split [OF b] by blast
  obtain p' where p': "path ?H 0 0 xs p' ?E" using c(1) by (auto simp: heap_core_def)
  obtain p where p: "?H q = Some (header True n p)" "path (?H(q := Some (header False n p))) 0 0 (pre @ (n, False) # post) p' ?E"
    using path_mark [OF p' [unfolded xs(1)] xs(2), of False] by blast
  have nb: "unat q + 16 \<le> unat n" "unat n \<le> unat ?E" using path_block [OF p' b] by simp_all
  note br = block_region [OF c(1) b]
  define h1 where "h1 = set_mem q (header False n p) h"
  define h2 where "h2 = (if q < lfree h1 then h1\<lparr> lfree := q \<rparr> else h1)"
  define h3 where "h3 = h2\<lparr> used_mem := used_mem h2 - (n - q) \<rparr>"
  have s3: "same_heap h h3" "mem_data h3 = mem_data h" "heap_mems h3 = ?H(q := Some (header False n p))"
    by (simp_all add: h3_def h2_def h1_def same_heap_def heap_end_def)
  have core: "heap_core h3 (pre @ (n, False) # post)"
  proof (rule core_path [OF c(1) _ s3(1)])
    show "path (heap_mems h3) 0 0 (pre @ (n, False) # post) p' ?E" using p(2) by (simp add: s3(3))
    show "used_mem h3 = usage (pre @ (n, False) # post)"
      using c(1) by (simp add: h3_def h2_def h1_def heap_core_def xs usage_mark)
    have "q \<noteq> ?E" using nb by auto
    then show "\<exists>e. heap_mems h3 ?E = Some e \<and> hm_used e = 1 \<and> hm_next e = ?E" using c(1) by (auto simp: heap_core_def s3(3))
  qed
  have lf: "lfree_in h3 (pre @ (n, False) # post)"
    using c(3) s3(1) by (auto simp: lfree_in_def h3_def h2_def h1_def xs same_heap_def)
  have mp: "merged pre" "merged post" using c(2) by (auto simp: xs merged_append) (cases post; auto)
  obtain h4 ys where h4: "plug_holes q h3 = Inr h4" "heap_ok h4 ys" "used_from 0 ys = used_from 0 (pre @ (n, False) # post)"
      "same_heap h3 h4" "mem_data h4 = mem_data h3"
    by (rule plug_ok [OF core xs(2) mp lf]) (rule that)
  have hp: "unat (heap_ptr h + ?E) = unat (heap_ptr h) + unat ?E"
    using c(1) unat_heap_end [OF c(1)] by (simp add: heap_core_def unat_word_ariths)
  have range: "heap_ptr h + q + 12 \<ge> heap_ptr h" "heap_ptr h + q + 12 < heap_ptr h + ?E"
    using br(1) nb hp by (simp_all add: word_le_nat_alt word_less_nat_alt)
  have z: "heap_ptr h + q + 12 \<noteq> 0" using br(1) by (metis add_is_0 unat_0 zero_neq_numeral)
  have off: "heap_ptr h + q + 12 - 12 - heap_ptr h = q" by simp
  have run: "rt_free False (heap_ptr h + q + 12) h = Inr h4"
    using z range aligned_and_3(1) [OF br(5)] p(1) h4(1)
    unfolding rt_free_def off h3_def h2_def h1_def by (cases "q < lfree h") (simp_all add: load_mem_def Let_def)
  have "(q, n) \<notin> set (used_from 0 pre) \<union> set (used_from n post)" by (rule used_once [OF c(1) xs])
  then have "set (used_from 0 ys) = set (used_from 0 xs) - {(q, n)}" by (auto simp: h4(3) xs)
  then show thesis using that [OF run h4(2)] same_heap_trans [OF s3(1) h4(4)] h4(5) s3(2) by simp
qed

section \<open>Initialisation\<close>

lemma heap_init_ok:
  assumes b: "unat begin_addr + 3 < 2 ^ 32" and room: "4 * ((unat begin_addr + 3) div 4) + 36 \<le> 4 * (unat end_addr div 4)"
    and z: "used_mem h = 0"
  defines "h' \<equiv> rt_system_heap_init begin_addr end_addr h"
  shows "heap_ok h' [(heap_end h', False)]" "mem_data h' = mem_data h"
    "unat (mem_size_aligned h') = 4 * (unat end_addr div 4) - 4 * ((unat begin_addr + 3) div 4) - 24"
proof -
  define ba where "ba = rt_align begin_addr 4"
  define ea where "ea = rt_align_down end_addr 4"
  have u: "unat ba = 4 * ((unat begin_addr + 3) div 4)" "unat ea = 4 * (unat end_addr div 4)"
    using unat_align_4 [OF b] unat_align_down_4 by (simp_all add: ba_def ea_def)
  have ge: "unat ba + 36 \<le> unat ea" using room u by simp
  have e24: "unat (ea - 24) = unat ea - 24" using ge by (simp add: unat_sub_if' word_le_nat_alt)
  have c: "ea > 24" "ea - 24 \<ge> ba" using ge e24 by (simp_all add: word_less_nat_alt word_le_nat_alt)
  define sz where "sz = ea - ba - 24"
  have sz: "unat sz = unat ea - unat ba - 24"
    using ge by (simp add: sz_def unat_sub_if' word_le_nat_alt)
  have h': "h' = h\<lparr> heap_ptr := ba, mem_size_aligned := sz,
      heap_mems := (heap_mems h)(0 := Some (header False (sz + 12) 0),
        sz + 12 := Some \<lparr> hm_magic = HEAP_MAGIC, hm_used = 1, hm_next = sz + 12, hm_prev = sz + 12 \<rparr>), lfree := 0 \<rparr>"
    unfolding h'_def rt_system_heap_init_def Let_def ba_def [symmetric] ea_def [symmetric]
    using c by (simp add: sz_def)
  have e: "unat (sz + 12) = unat sz + 12" using sz ge unat_u32_less [of ea] by (simp add: unat_word_ariths)
  have nz: "sz + 12 \<noteq> 0"
  proof
    assume "sz + 12 = 0"
    then have "unat (sz + 12) = 0" by (simp only: unat_0)
    then show False using e by simp
  qed
  have four: "unat sz = 4 * (unat end_addr div 4 - (unat begin_addr + 3) div 4 - 6)" using sz u by arith
  have d4: "4 dvd unat (sz + 12)" unfolding e four by (intro dvd_add dvd_triv_left) simp
  have he: "heap_end h' = sz + 12" by (simp add: h' heap_end_def)
  have big: "16 \<le> unat (sz + 12)" "12 \<le> unat sz" using ge e sz by simp_all
  have "heap_core h' [(sz + 12, False)]"
    unfolding heap_core_def he
  proof (intro conjI)
    show "\<exists>p'. path (heap_mems h') 0 0 [(sz + 12, False)] p' (sz + 12)" using nz big d4 by (simp add: h' del: unat_eq_zero)
    show "\<exists>e. heap_mems h' (sz + 12) = Some e \<and> hm_used e = 1 \<and> hm_next e = sz + 12" by (simp add: h')
    show "used_mem h' = usage [(sz + 12, False)]" by (simp add: h' z usage_def)
    show "4 dvd unat (heap_ptr h')" by (simp add: h' u)
    show "12 \<le> unat (mem_size_aligned h')" using big by (simp add: h')
    show "unat (heap_ptr h') + unat (mem_size_aligned h') + 24 < 2 ^ 32"
      using sz ge unat_u32_less [of ea] by (simp add: h')
  qed
  then show "heap_ok h' [(heap_end h', False)]" by (simp add: heap_ok_def lfree_in_def he) (simp add: h')
  show "mem_data h' = mem_data h" by (simp add: h')
  show "unat (mem_size_aligned h') = 4 * (unat end_addr div 4) - 4 * ((unat begin_addr + 3) div 4) - 24"
    using sz u by (simp add: h')
qed

section \<open>Shrinking in place\<close>

text \<open>The used block at \<open>q\<close> keeps its first \<open>ns\<close> bytes, the rest becomes free and joins a free right neighbour.\<close>

lemma shrink_ok:
  assumes ok: "heap_ok h xs" and b: "(q, n, True) \<in> set (blocks 0 xs)" and m: "heap_mems h q = Some m"
    and ns: "4 \<le> unat ns" "4 dvd unat ns" "unat q + 12 + unat ns + 24 < unat n"
  obtains h' ys where "realloc_shrink ns (n - q - 12) q m h = Inr h'" "heap_ok h' ys"
    "set (used_from 0 ys) = insert (q, q + 12 + ns) (set (used_from 0 xs) - {(q, n)})" "same_heap h h'" "mem_data h' = mem_data h"
proof -
  let ?E = "heap_end h" and ?H = "heap_mems h"
  have c: "heap_core h xs" "merged xs" "lfree_in h xs" using ok by (simp_all add: heap_ok_def)
  obtain pre post where xs: "xs = pre @ (n, True) # post" "q = endp 0 pre" using block_split [OF b] by blast
  obtain p where p: "?H q = Some (header True n p)" "unat n \<le> unat ?E" "4 dvd unat q" by (rule core_block [OF c(1) b]) (rule that)
  define k where "k = q + 12 + ns"
  have k: "unat k = unat q + 12 + unat ns" using ns(3) unat_u32_less [of n] by (simp add: k_def unat_word_ariths)
  have dv: "4 dvd unat k" using p(3) ns(2) unfolding k by presburger
  have kb: "unat q + 16 \<le> unat k" "unat k + 16 \<le> unat n" using k ns by auto
  define H where "H = ?H(k := Some (header False n q), q := Some (header True k p))"
  obtain p' nm where d: "H n = Some nm"
      "path (if n = ?E then H else H(n := Some (nm\<lparr> hm_prev := k \<rparr>))) 0 0 (pre @ (k, True) # (n, False) # post) p' ?E"
    using divide_ok [OF c(1) [unfolded xs(1)] xs(2) kb dv, of H] p(1) by (auto simp: H_def)
  define h0 where "h0 = h\<lparr> used_mem := used_mem h - (n - q - 12 - ns) \<rparr>"
  define h1 where "h1 = set_mem q (header True k p) (set_mem k (header False n q) h0)"
  define h2 where "h2 = (if n = ?E then h1 else set_mem n (nm\<lparr> hm_prev := k \<rparr>) h1)"
  have h0: "heap_mems h0 = ?H" "heap_end h0 = ?E" "mem_size_aligned h0 = mem_size_aligned h" by (simp_all add: h0_def heap_end_def)
  have h1: "heap_mems h1 = H" "same_heap h h1" by (simp_all add: h1_def H_def same_heap_def h0) (simp add: h0_def)
  have ne: "k \<noteq> q" "n \<noteq> q" "n \<noteq> k" "q \<noteq> ?E" "k \<noteq> ?E" using kb p(2) by auto
  have h2: "heap_mems h2 = (if n = ?E then H else H(n := Some (nm\<lparr> hm_prev := k \<rparr>)))" "same_heap h h2"
    using h1 by (auto simp: h2_def same_heap_def)
  have kE: "k < ?E" using kb p(2) by (simp add: word_less_nat_alt)
  have Em: "mem_size_aligned h1 + 12 = ?E" using h1(2) by (simp add: same_heap_def heap_end_def)
  have "update_mem q (\<lambda>m. m\<lparr> hm_next := k \<rparr>) (set_mem k (header False n q) h0) = Inr h1"
    using p(1) ne(1) by (simp add: update_mem_eq h1_def h0)
  moreover have "(if n \<noteq> ?E then update_mem n (\<lambda>m. m\<lparr> hm_prev := k \<rparr>) h1 else Inr h1) = Inr h2"
    using d(1) h1(1) by (simp add: update_mem_eq h2_def)
  ultimately have run: "realloc_shrink ns (n - q - 12) q m h = plug_holes k h2"
    using p(1) m kE Em unfolding realloc_shrink_def k_def [symmetric] h0_def [symmetric] Let_def
    by (cases "n = ?E") (simp_all add: new_mem_def h0)
  have core: "heap_core h2 ((pre @ [(k, True)]) @ (n, False) # post)"
  proof (rule core_path [OF c(1) _ h2(2)])
    show "path (heap_mems h2) 0 0 ((pre @ [(k, True)]) @ (n, False) # post) p' ?E" using d(2) by (simp add: h2(1))
    have "used_mem h = usage xs" using c(1) by (simp add: heap_core_def)
    then show "used_mem h2 = usage ((pre @ [(k, True)]) @ (n, False) # post)"
      by (simp add: h2_def h1_def h0_def usage_def k_def xs)
    show "\<exists>e. heap_mems h2 ?E = Some e \<and> hm_used e = 1 \<and> hm_next e = ?E"
      using c(1) ne by (auto simp: heap_core_def h2(1) H_def)
  qed
  have mp: "merged (pre @ [(k, True)])" "merged post" using c(2) by (auto simp: xs merged_append) (cases post; auto)
  have "lfree h2 = lfree h" by (simp add: h2_def h1_def h0_def)
  then have lf: "lfree_in h2 ((pre @ [(k, True)]) @ (n, False) # post)"
    using c(3) h2(2) by (auto simp: lfree_in_def xs same_heap_def)
  obtain h3 ys where h3: "plug_holes k h2 = Inr h3" "heap_ok h3 ys"
      "used_from 0 ys = used_from 0 ((pre @ [(k, True)]) @ (n, False) # post)" "same_heap h2 h3" "mem_data h3 = mem_data h2"
    by (rule plug_ok [OF core _ mp lf]) (simp, rule that)
  have "(q, n) \<notin> set (used_from 0 pre) \<union> set (used_from n post)" by (rule used_once [OF c(1) xs])
  then have "set (used_from 0 ys) = insert (q, k) (set (used_from 0 xs) - {(q, n)})" by (auto simp: h3(3) xs)
  moreover have "mem_data h2 = mem_data h" by (simp add: h2_def h1_def h0_def)
  ultimately show thesis using that [OF _ h3(2)] run h3(1,5) same_heap_trans [OF h2(2) h3(4)] by (simp add: k_def)
qed

section \<open>What the callers see\<close>

text \<open>The set of allocated regions, and that each lies inside the heap.\<close>

definition in_heap :: "heap \<Rightarrow> u32 \<times> u32 \<Rightarrow> bool" where
  "in_heap h x \<longleftrightarrow> unat (heap_ptr h) + 12 \<le> unat (fst x) \<and>
     unat (fst x) + unat (snd x) \<le> unat (heap_ptr h) + unat (heap_end h)"

lemma allocated_in_heap:
  assumes c: "heap_core h xs" and "x \<in> allocated h xs"
  shows "in_heap h x" "4 dvd unat (fst x)" "fst x \<noteq> 0"
proof -
  obtain q n where x: "x = (heap_ptr h + q + 12, n - q - 12)" "(q, n, True) \<in> set (blocks 0 xs)"
    using assms(2) by (cases x) (auto simp: allocated_iff)
  note br = block_region [OF c x(2)]
  have "unat n \<le> unat (heap_end h)" by (rule core_block [OF c x(2)])
  then show h: "in_heap h x" using br(1-4) by (simp add: in_heap_def x(1))
  show "4 dvd unat (fst x)" using br(5) by (simp add: x(1))
  show "fst x \<noteq> 0"
  proof
    assume "fst x = 0"
    then show False using h by (simp add: in_heap_def)
  qed
qed

lemma allocated_insert:
  assumes "same_heap h h'" "set (used_from 0 ys) = insert (q, k) (set (used_from 0 xs))"
  shows "allocated h' ys = insert (heap_ptr h + q + 12, k - q - 12) (allocated h xs)"
  using assms(1) by (simp add: allocated_def assms(2) same_heap_def)

lemma allocated_minus:
  assumes "(q, n, True) \<in> set (blocks 0 xs)"
  shows "(\<lambda>(b, n). (heap_ptr h + b + SIZEOF_STRUCT_MEM, n - b - SIZEOF_STRUCT_MEM)) ` (set (used_from 0 xs) - {(q, n)}) =
    allocated h xs - {(heap_ptr h + q + 12, n - q - 12)}"
proof -
  let ?f = "\<lambda>(b, n). (heap_ptr h + b + SIZEOF_STRUCT_MEM, n - b - SIZEOF_STRUCT_MEM)"
  have "inj_on ?f (set (used_from 0 xs))" by (auto intro!: inj_onI)
  moreover have "(q, n) \<in> set (used_from 0 xs)" using assms by (simp add: used_from_iff)
  ultimately have "?f ` (set (used_from 0 xs) - {(q, n)}) = ?f ` set (used_from 0 xs) - ?f ` {(q, n)}"
    by (intro inj_on_image_set_diff [where C = "set (used_from 0 xs)"]) auto
  then show ?thesis by (simp add: allocated_def)
qed

text \<open>The free regions, and whether one of them serves a request. Two kinds of free regions that are long enough
  are not used: those below the lowest free block that the allocator knows of (a block that \<^verbatim>\<open>rt_realloc\<close> cuts off may
  lie there), and the last region of the heap when the request has exactly its length.\<close>

definition vacant :: "heap \<Rightarrow> (u32 \<times> bool) list \<Rightarrow> (u32 \<times> u32) set" where
  "vacant h xs = (\<lambda>(q, n, u). (heap_ptr h + q + SIZEOF_STRUCT_MEM, n - q - SIZEOF_STRUCT_MEM)) ` {(q, n, u) \<in> set (blocks 0 xs). \<not> u}"

definition first_free :: "heap \<Rightarrow> u32" where
  "first_free h = heap_ptr h + lfree h + SIZEOF_STRUCT_MEM"

definition usable :: "heap \<Rightarrow> u32 \<Rightarrow> u32 \<times> u32 \<Rightarrow> bool" where
  "usable h sz x \<longleftrightarrow> sz \<le> snd x \<and> first_free h \<le> fst x \<and> \<not> (snd x = sz \<and> fst x + snd x = heap_ptr h + heap_end h)"

definition room_for :: "heap \<Rightarrow> (u32 \<times> bool) list \<Rightarrow> u32 \<Rightarrow> bool" where
  "room_for h xs sz \<longleftrightarrow> (\<exists>x \<in> vacant h xs. usable h sz x)"

lemma vacant_iff: "x \<in> vacant h xs \<longleftrightarrow> (\<exists>q n. (q, n, False) \<in> set (blocks 0 xs) \<and> x = (heap_ptr h + q + 12, n - q - 12))"
  by (force simp: vacant_def)

lemma usable_block:
  assumes c: "heap_core h xs" and lf: "lfree_in h xs" and b: "(q, n, u) \<in> set (blocks 0 xs)"
  shows "usable h sz (heap_ptr h + q + 12, n - q - 12) \<longleftrightarrow> unat (lfree h) \<le> unat q \<and> unat q + 12 + unat sz \<le> unat n \<and>
    unat q + unat sz < unat (mem_size_aligned h)"
proof -
  note br = block_region [OF c b]
  note he = unat_heap_end [OF c]
  have n: "unat n \<le> unat (heap_end h)" by (rule core_block [OF c b])
  have room: "unat (heap_ptr h) + unat (heap_end h) + 12 < 2 ^ 32" using c he by (simp add: heap_core_def)
  have "unat (lfree h) \<le> unat (heap_end h)"
    using lf by (auto simp: lfree_in_def elim!: core_block [OF c])
  then have "unat (heap_ptr h + lfree h + 12) = unat (heap_ptr h) + unat (lfree h) + 12" using room by (simp add: unat_word_ariths)
  then have low: "first_free h \<le> heap_ptr h + q + 12 \<longleftrightarrow> unat (lfree h) \<le> unat q"
    using br(1) by (simp add: first_free_def word_le_nat_alt)
  have len: "sz \<le> n - q - 12 \<longleftrightarrow> unat q + 12 + unat sz \<le> unat n" "n - q - 12 = sz \<longleftrightarrow> unat q + 12 + unat sz = unat n"
    using br(2,3) by (auto simp: word_le_nat_alt word_unat_eq_iff)
  have "heap_ptr h + q + 12 + (n - q - 12) = heap_ptr h + heap_end h \<longleftrightarrow> unat n = unat (heap_end h)"
    by (simp flip: word_unat_eq_iff)
  then show ?thesis using n he by (auto simp: usable_def low len)
qed

lemma room_search: "heap_ok h xs \<Longrightarrow> room_for h xs sz \<longleftrightarrow> search_room h xs sz"
  using usable_block [of h xs] by (fastforce simp: room_for_def search_room_def vacant_iff heap_ok_def)

text \<open>A request in terms of regions.\<close>

lemma malloc_serves:
  assumes ok: "heap_ok h xs" and s0: "sz0 \<noteq> 0" "unat sz0 + 3 < 2 ^ 32"
  shows "(\<not> room_for h xs (request sz0) \<and> rt_malloc False sz0 h = Some (Inr (h, 0))) \<or>
    room_for h xs (request sz0) \<and>
    (\<exists>h' ys p n. rt_malloc False sz0 h = Some (Inr (h', p)) \<and> heap_ok h' ys \<and> same_heap h h' \<and> mem_data h' = mem_data h \<and>
       request sz0 \<le> n \<and> allocated h' ys = insert (p, n) (allocated h xs) \<and> (\<forall>y \<in> allocated h xs. apart (p, n) y) \<and>
       (\<exists>m. (p, m) \<in> vacant h xs \<and> n \<le> m))"
proof -
  have c: "heap_core h xs" using ok by (simp add: heap_ok_def)
  have "\<exists>h' ys p n. rt_malloc False sz0 h = Some (Inr (h', p)) \<and> heap_ok h' ys \<and> same_heap h h' \<and> mem_data h' = mem_data h \<and>
       request sz0 \<le> n \<and> allocated h' ys = insert (p, n) (allocated h xs) \<and> (\<forall>y \<in> allocated h xs. apart (p, n) y) \<and>
       (\<exists>m. (p, m) \<in> vacant h xs \<and> n \<le> m)"
    if r: "rt_malloc False sz0 h = Some (Inr (h', heap_ptr h + q + 12))" "heap_ok h' ys" "taken q k xs ys"
      "(q, n, False) \<in> set (blocks 0 xs)" "unat q + 12 + unat (request sz0) \<le> unat k" "same_heap h h'" "mem_data h' = mem_data h"
      "unat k \<le> unat n"
    for h' ys q k n
  proof -
    let ?p = "heap_ptr h + q + 12" and ?n = "k - q - 12"
    have u: "set (used_from 0 ys) = insert (q, k) (set (used_from 0 xs))" using r(3) by (auto simp: taken_def)
    note al = allocated_insert [OF r(6) u]
    have c': "heap_core h' ys" using r(2) by (simp add: heap_ok_def)
    have "(q, k, True) \<in> set (blocks 0 ys)" using u by (simp add: used_from_iff [symmetric])
    note br = block_region [OF c' this]
    have le: "request sz0 \<le> ?n" using br(2) r(5) by (simp add: word_le_nat_alt)
    have "apart (?p, ?n) y" if y: "y \<in> allocated h xs" for y
    proof -
      have "(?p, ?n) \<noteq> y"
      proof
        assume "(?p, ?n) = y"
        then obtain r' m where "(r', m, True) \<in> set (blocks 0 xs)" "r' = q" using y by (auto simp: allocated_iff)
        moreover obtain p' where "path (heap_mems h) 0 0 xs p' (heap_end h)" using c by (auto simp: heap_core_def)
        ultimately show False using path_apart [of "heap_mems h" 0 0 xs p' "heap_end h" q n False q m True] r(4)
            path_block [of "heap_mems h" 0 0 xs p' "heap_end h" q n False]
            path_block [of "heap_mems h" 0 0 xs p' "heap_end h" q m True] by auto
      qed
      then show ?thesis using allocated_apart [OF c', of "(?p, ?n)" y] y al by auto
    qed
    moreover have "?n \<le> n - q - 12" "(?p, n - q - 12) \<in> vacant h xs"
      using br(2) block_region(2) [OF c r(4)] r(4,8) by (auto simp: word_le_nat_alt vacant_iff)
    ultimately show ?thesis using r(1,2,6,7) le al by blast
  qed
  then show ?thesis using malloc_ok [OF ok s0] room_search [OF ok] by blast
qed

text \<open>A release in terms of regions; the heap whose last region is released is one free block.\<close>

lemma no_used:
  assumes "heap_ok h xs" "allocated h xs = {}"
  shows "xs = [(heap_end h, False)]"
proof -
  have c: "heap_core h xs" "merged xs" using assms(1) by (simp_all add: heap_ok_def)
  obtain p' where p': "path (heap_mems h) 0 0 xs p' (heap_end h)" using c(1) by (auto simp: heap_core_def)
  have u: "used_from 0 xs = []" using assms(2) by (simp add: allocated_def)
  have E: "heap_end h \<noteq> 0" using unat_heap_end [OF c(1)] by auto
  show ?thesis
  proof (cases xs)
    case Nil
    then show ?thesis using p' E by simp
  next
    case (Cons x ys)
    show ?thesis
    proof (cases ys)
      case Nil
      then show ?thesis using Cons p' u by (cases x) (auto split: if_splits)
    next
      case (Cons y zs)
      then show ?thesis using \<open>xs = x # ys\<close> u c(2) by (cases x; cases y) (auto split: if_splits)
    qed
  qed
qed

lemma free_serves:
  assumes ok: "heap_ok h xs" and a: "(p, n) \<in> allocated h xs"
  obtains h' ys where "rt_free False p h = Inr h'" "heap_ok h' ys" "same_heap h h'" "mem_data h' = mem_data h"
    "allocated h' ys = allocated h xs - {(p, n)}"
proof -
  obtain q m where q: "(q, m, True) \<in> set (blocks 0 xs)" "p = heap_ptr h + q + 12" "n = m - q - 12"
    using a by (auto simp: allocated_iff)
  obtain h' ys where f: "rt_free False (heap_ptr h + q + 12) h = Inr h'" "heap_ok h' ys"
      "set (used_from 0 ys) = set (used_from 0 xs) - {(q, m)}" "same_heap h h'" "mem_data h' = mem_data h"
    by (rule free_ok [OF ok q(1)]) (rule that)
  have "allocated h' ys = allocated h xs - {(p, n)}"
    using f(4) unfolding q(2,3) allocated_minus [OF q(1), of h, symmetric] by (simp add: allocated_def f(3) same_heap_def)
  then show thesis using that f q(2) by simp
qed

text \<open>The data of the blocks is no part of the structure.\<close>

lemma heap_ok_data [simp]: "heap_ok (h\<lparr> mem_data := d \<rparr>) xs = heap_ok h xs"
  by (simp add: heap_ok_def heap_core_def lfree_in_def heap_end_def)

lemma allocated_data [simp]: "allocated (h\<lparr> mem_data := d \<rparr>) xs = allocated h xs"
  by (simp add: allocated_def)

lemma same_heap_data [simp]: "same_heap h (h'\<lparr> mem_data := d \<rparr>) = same_heap h h'"
  by (simp add: same_heap_def heap_end_def)

lemma copy_data_eq: "copy_data dst src n h = h\<lparr> mem_data := mem_data (copy_data dst src n h) \<rparr>"
  by (simp add: copy_data_def)

lemma realloc_serves:
  assumes ok: "heap_ok h xs" and a: "(p, n) \<in> allocated h xs" and s0: "newsize \<noteq> 0" "unat newsize + 3 < 2 ^ 32"
  shows "rt_realloc False p newsize h = Some (Inr (h, 0)) \<or>
    (\<exists>h' ys p' n'. rt_realloc False p newsize h = Some (Inr (h', p')) \<and> heap_ok h' ys \<and> same_heap h h' \<and>
       rt_align newsize 4 \<le> n' \<and> allocated h' ys = insert (p', n') (allocated h xs - {(p, n)}) \<and>
       (p' = p \<and> mem_data h' = mem_data h \<or> (\<forall>y \<in> allocated h xs. apart (p', n') y) \<and>
        mem_data h' = mem_data (copy_data p' p (if n < rt_align newsize 4 then n else rt_align newsize 4) h)))"
proof -
  have c: "heap_core h xs" using ok by (simp add: heap_ok_def)
  obtain q m where q: "(q, m, True) \<in> set (blocks 0 xs)" "p = heap_ptr h + q + 12" "n = m - q - 12"
    using a by (auto simp: allocated_iff)
  obtain pv where mem: "heap_mems h q = Some (header True m pv)" by (rule core_block [OF c q(1)])
  note br = block_region [OF c q(1)]
  have n: "unat n = unat m - unat q - 12" "4 \<le> unat n" using br(2,3) by (simp_all add: q(3))
  define ns where "ns = rt_align newsize 4"
  have ns: "unat ns = 4 * ((unat newsize + 3) div 4)" using unat_align_4 [OF s0(2)] by (simp add: ns_def)
  have "unat newsize \<noteq> 0" using s0(1) by (simp add: unat_eq_0)
  then have ns4: "4 \<le> unat ns" "4 dvd unat ns" unfolding ns by auto
  have ns0: "ns \<noteq> 0" using ns4(1) by auto
  have result: ?thesis
    if "rt_realloc False p newsize h = Some (Inr (h', p'))" "heap_ok h' ys" "same_heap h h'" "ns \<le> n'"
      "allocated h' ys = insert (p', n') (allocated h xs - {(p, n)})"
      "p' = p \<and> mem_data h' = mem_data h \<or> (\<forall>y \<in> allocated h xs. apart (p', n') y) \<and>
        mem_data h' = mem_data (copy_data p' p (if n < ns then n else ns) h)" for h' ys p' n'
    using that unfolding ns_def by blast
  show ?thesis
  proof (cases "ns > mem_size_aligned h")
    case True
    then show ?thesis by (simp add: rt_realloc_def ns_def [symmetric] Let_def)
  next
    case False
    have sz: "unat ns + 24 < 2 ^ 32" using False c by (simp add: heap_core_def word_less_nat_alt)
    have lt: "ns + SIZEOF_STRUCT_MEM + 12 < n \<longleftrightarrow> unat ns + 24 < unat n"
    proof -
      have "unat (ns + SIZEOF_STRUCT_MEM + 12) = unat ns + 24" using sz by (simp add: unat_word_ariths)
      then show ?thesis by (simp only: word_less_nat_alt)
    qed
    have range: "p \<noteq> 0" "\<not> (p < heap_ptr h \<or> p \<ge> heap_ptr h + heap_end h)"
    proof -
      have hp: "unat (heap_ptr h + heap_end h) = unat (heap_ptr h) + unat (heap_end h)"
        using c unat_heap_end [OF c] by (simp add: heap_core_def unat_word_ariths)
      show "p \<noteq> 0" "\<not> (p < heap_ptr h \<or> p \<ge> heap_ptr h + heap_end h)"
        using allocated_in_heap [OF c a] n(2) hp by (simp_all add: in_heap_def word_less_nat_alt word_le_nat_alt)
    qed
    have off: "p - 12 - heap_ptr h = q" using q(2) by simp
    have nm: "m - q - 12 = n" using q(3) by simp
    have run: "rt_realloc False p newsize h =
        (if n = ns then Some (Inr (h, p))
         else if ns + SIZEOF_STRUCT_MEM + 12 < n then Some (rbind (realloc_shrink ns n q (header True m pv) h) (\<lambda>h. Inr (h, p)))
         else (case rt_malloc False ns h of None \<Rightarrow> None
           | Some r \<Rightarrow> Some (rbind r (\<lambda>(h, nmem). if nmem \<noteq> 0
               then rbind (rt_free False p (copy_data nmem p (if n < ns then n else ns) h)) (\<lambda>h. Inr (h, nmem))
               else Inr (h, nmem)))))"
      unfolding rt_realloc_def ns_def [symmetric] Let_def off
      using mem False range ns0 nm by (simp split del: if_split cong: if_cong option.case_cong)
    consider "n = ns" | "n \<noteq> ns" "ns + SIZEOF_STRUCT_MEM + 12 < n" | "n \<noteq> ns" "\<not> ns + SIZEOF_STRUCT_MEM + 12 < n" by blast
    then show ?thesis
    proof cases
      case 1
      have "insert (p, n) (allocated h xs - {(p, n)}) = allocated h xs" using a by auto
      then show ?thesis using run 1 ok by (intro result [of h p xs n]) simp_all
    next
      case 2
      have "unat q + 12 + unat ns + 24 < unat m" using 2 lt n by simp
      from shrink_ok [OF ok q(1) mem ns4(1,2) this]
      obtain h' ys where f: "realloc_shrink ns (m - q - 12) q (header True m pv) h = Inr h'" "heap_ok h' ys"
          "set (used_from 0 ys) = insert (q, q + 12 + ns) (set (used_from 0 xs) - {(q, m)})" "same_heap h h'" "mem_data h' = mem_data h"
        by blast
      have "allocated h' ys = insert (p, ns) (allocated h xs - {(p, n)})"
        using f(4) unfolding q(2,3) allocated_minus [OF q(1), of h, symmetric] by (simp add: allocated_def f(3) same_heap_def)
      then show ?thesis using run 2 f(1,2,4,5) nm by (intro result [of h' p ys ns]) simp_all
    next
      case 3
      have s: "ns \<noteq> 0" "unat ns + 3 < 2 ^ 32" using ns0 sz by simp_all
      have rl: "ns \<le> request ns" using request_ok(3) [OF s(2)] by (simp add: word_le_nat_alt)
      from malloc_serves [OF ok s]
      show ?thesis
      proof (elim disjE conjE exE)
        assume "rt_malloc False ns h = Some (Inr (h, 0))"
        then show ?thesis using run 3 by simp
      next
        fix h1 ys p' n'
        assume m1: "rt_malloc False ns h = Some (Inr (h1, p'))" "heap_ok h1 ys" "same_heap h h1" "mem_data h1 = mem_data h"
          "request ns \<le> n'" "allocated h1 ys = insert (p', n') (allocated h xs)" "\<forall>y \<in> allocated h xs. apart (p', n') y"
        define d where "d = mem_data (copy_data p' p (if n < ns then n else ns) h)"
        have cp: "copy_data p' p (if n < ns then n else ns) h1 = h1\<lparr> mem_data := d \<rparr>"
          unfolding copy_data_def d_def m1(4) by simp
        have al: "(p, n) \<in> allocated (h1\<lparr> mem_data := d \<rparr>) ys" "heap_ok (h1\<lparr> mem_data := d \<rparr>) ys" using a m1(2,6) by simp_all
        obtain h2 zs where f: "rt_free False p (h1\<lparr> mem_data := d \<rparr>) = Inr h2" "heap_ok h2 zs" "same_heap (h1\<lparr> mem_data := d \<rparr>) h2"
            "mem_data h2 = d" "allocated h2 zs = allocated h1 ys - {(p, n)}"
          by (rule free_serves [OF al(2,1)]) (rule that, simp_all)
        have "heap_core h1 ys" "(p', n') \<in> allocated h1 ys" using m1(2,6) by (simp_all add: heap_ok_def)
        from allocated_in_heap(3) [OF this] have p0: "p' \<noteq> 0" by simp
        have "(p', n') \<noteq> (p, n)" using m1(7) a n(2) by (auto simp: apart_def)
        then have "allocated h2 zs = insert (p', n') (allocated h xs - {(p, n)})" using f(5) m1(6) by auto
        moreover have "rt_realloc False p newsize h = Some (Inr (h2, p'))" using run 3 m1(1) cp f(1) p0 by simp
        moreover have "same_heap h h2" using m1(3) f(3) by (simp add: same_heap_def heap_end_def)
        moreover have "ns \<le> n'" using rl m1(5) by simp
        ultimately show ?thesis using f(2,4) m1(7) unfolding d_def by (intro result [of h2 p' zs n']) simp_all
      qed
    qed
  qed
qed

text \<open>The first \<open>n\<close> bytes at \<open>a\<close> in one heap and at \<open>b\<close> in another.\<close>

definition same_bytes :: "heap \<Rightarrow> u32 \<Rightarrow> heap \<Rightarrow> u32 \<Rightarrow> nat \<Rightarrow> bool" where
  "same_bytes h a h' b n \<longleftrightarrow> (\<forall>i < n. mem_data h' (b + of_nat i) = mem_data h (a + of_nat i))"

lemma same_bytes_refl: "mem_data h' = mem_data h \<Longrightarrow> same_bytes h a h' a n"
  by (simp add: same_bytes_def)

lemma copy_same:
  assumes "mem_data h' = mem_data (copy_data dst src n h)" "k \<le> unat n"
  shows "same_bytes h src h' dst k"
proof -
  have "(of_nat i :: u32) < n" if "i < k" for i
  proof -
    have "i < unat n" "i < 2 ^ 32" using that assms(2) unat_u32_less [of n] by simp_all
    then show ?thesis by (simp add: word_less_nat_alt unat_of_nat)
  qed
  then show ?thesis by (simp add: same_bytes_def assms(1) copy_data_def)
qed

lemma copy_apart:
  assumes e: "mem_data h' = mem_data (copy_data dst src w h)" and w: "unat w \<le> unat n'"
    and a: "apart (dst, n') (b, m)" and r: "unat dst + unat n' < 2 ^ 32" "unat b + unat m < 2 ^ 32"
  shows "same_bytes h b h' b (unat m)"
proof -
  have "\<not> b + of_nat i - dst < w" if "i < unat m" for i
  proof -
    have i: "unat (b + of_nat i) = unat b + i" using that r(2) by (simp add: unat_word_ariths unat_of_nat)
    have "unat w \<le> unat (b + of_nat i - dst)"
    proof (cases "dst \<le> b + of_nat i")
      case True
      then have "unat (b + of_nat i - dst) = unat b + i - unat dst" using i by (simp add: unat_sub)
      moreover have "unat dst \<le> unat b + i" using True i by (simp add: word_le_nat_alt)
      ultimately show ?thesis using a w that by (auto simp: apart_def)
    next
      case False
      then have "unat (b + of_nat i - dst) = unat b + i + 2 ^ 32 - unat dst"
        using i unat_u32_less [of dst] by (simp add: unat_sub_if' word_le_nat_alt)
      then show ?thesis using w r(1) by simp
    qed
    then show ?thesis by (simp add: word_less_nat_alt)
  qed
  then show ?thesis by (simp add: same_bytes_def e copy_data_def)
qed

section \<open>Properties\<close>

text \<open>C3: On a well-formed heap \<^verbatim>\<open>rt_malloc\<close> ends without a failed assertion. If some free region is long enough for the
  request (rounded up to words and to at least 12 bytes), does not lie below the lowest free block that the allocator
  knows of, and is not a region of exactly the requested length at the end of the heap, then it returns a 4-aligned region, cut from the
  beginning of a free one, that is inside the heap, at least as long as the request, shares no byte with a region
  allocated before and is added to the allocated ones; no byte of data changes and the heap stays well formed. If there is
  no such free region it returns \<^verbatim>\<open>RT_NULL\<close> and changes nothing, even when one of the two excepted regions would do.\<close>

theorem rt_malloc_serves_request:
  assumes "heap_ok h xs" and "sz0 \<noteq> 0" and "unat sz0 + 3 < 2 ^ 32"
  shows "if \<exists>(q, m) \<in> vacant h xs. request sz0 \<le> m \<and> first_free h \<le> q \<and> \<not> (m = request sz0 \<and> q + m = heap_ptr h + heap_end h)
    then \<exists>h' ys p n m. rt_malloc False sz0 h = Some (Inr (h', p)) \<and> heap_ok h' ys \<and> same_heap h h' \<and> mem_data h' = mem_data h \<and>
      p \<noteq> 0 \<and> unat p mod 4 = 0 \<and> sz0 \<le> n \<and> in_heap h (p, n) \<and> (p, m) \<in> vacant h xs \<and> n \<le> m \<and>
      allocated h' ys = insert (p, n) (allocated h xs) \<and> (\<forall>y \<in> allocated h xs. apart (p, n) y)
    else rt_malloc False sz0 h = Some (Inr (h, 0))"
proof -
  have room: "(\<exists>(q, m) \<in> vacant h xs. request sz0 \<le> m \<and> first_free h \<le> q \<and> \<not> (m = request sz0 \<and> q + m = heap_ptr h + heap_end h)) \<longleftrightarrow>
      room_for h xs (request sz0)"
    by (simp add: room_for_def usable_def split_def)
  show ?thesis
    using malloc_serves [OF assms]
  proof (elim disjE conjE exE)
    fix h' ys p n m
    assume r: "room_for h xs (request sz0)" "rt_malloc False sz0 h = Some (Inr (h', p))" "heap_ok h' ys" "same_heap h h'"
      "mem_data h' = mem_data h" "request sz0 \<le> n" "allocated h' ys = insert (p, n) (allocated h xs)"
      "\<forall>y \<in> allocated h xs. apart (p, n) y" "(p, m) \<in> vacant h xs" "n \<le> m"
    have "heap_core h' ys" "(p, n) \<in> allocated h' ys" using r(3,7) by (simp_all add: heap_ok_def)
    note al = allocated_in_heap [OF this]
    have "in_heap h (p, n)" using al(1) r(4) by (simp add: in_heap_def same_heap_def)
    moreover have "sz0 \<le> n" using request_ok(3) [OF assms(3)] r(6) by (simp add: word_le_nat_alt)
    moreover have "p \<noteq> 0" "unat p mod 4 = 0" using al(2,3) by (simp_all add: dvd_eq_mod_eq_0)
    ultimately show ?thesis
      unfolding room if_P [OF r(1)] using r(2-5,7-10)
      by (intro exI [of _ h'] exI [of _ ys] exI [of _ p] exI [of _ n] exI [of _ m] conjI)
  next
    assume r: "\<not> room_for h xs (request sz0)" "rt_malloc False sz0 h = Some (Inr (h, 0))"
    show ?thesis unfolding room if_not_P [OF r(1)] by (rule r(2))
  qed
qed

text \<open>C4: On a well-formed heap \<^verbatim>\<open>rt_free\<close> of an allocated region ends without a failed assertion and takes exactly that
  region out of the allocated ones; no byte of data changes, the heap stays well formed with no two free
  neighbours, and after the last release it is one free block again.\<close>

theorem rt_free_releases_region:
  assumes "heap_ok h xs" and "(p, n) \<in> allocated h xs"
  shows "\<exists>h' ys. rt_free False p h = Inr h' \<and> heap_ok h' ys \<and> same_heap h h' \<and> mem_data h' = mem_data h \<and>
    allocated h' ys = allocated h xs - {(p, n)} \<and> (allocated h xs = {(p, n)} \<longrightarrow> ys = [(heap_end h, False)])"
proof -
  obtain h' ys where f: "rt_free False p h = Inr h'" "heap_ok h' ys" "same_heap h h'" "mem_data h' = mem_data h"
      "allocated h' ys = allocated h xs - {(p, n)}" by (rule free_serves [OF assms]) (rule that)
  moreover have "ys = [(heap_end h, False)]" if "allocated h xs = {(p, n)}"
    using no_used [OF f(2)] f(3,5) that by (simp add: same_heap_def)
  ultimately show ?thesis by blast
qed

text \<open>C5: On a well-formed heap \<^verbatim>\<open>rt_realloc\<close> of an allocated region ends without a failed assertion. Either it returns
  \<^verbatim>\<open>RT_NULL\<close> and changes nothing, or the returned region, long enough for the new size, takes the place of the
  old one; it holds the bytes of the old one as far as both reach, and every other allocated region keeps its bytes.\<close>

theorem rt_realloc_keeps_contents:
  assumes "heap_ok h xs" and "(p, n) \<in> allocated h xs" and "newsize \<noteq> 0" and "unat newsize + 3 < 2 ^ 32"
  shows "rt_realloc False p newsize h = Some (Inr (h, 0)) \<or>
    (\<exists>h' ys p' n'. rt_realloc False p newsize h = Some (Inr (h', p')) \<and> heap_ok h' ys \<and> same_heap h h' \<and> p' \<noteq> 0 \<and>
       newsize \<le> n' \<and> allocated h' ys = insert (p', n') (allocated h xs - {(p, n)}) \<and>
       same_bytes h p h' p' (min (unat n) (unat newsize)) \<and>
       (\<forall>(b, m) \<in> allocated h xs - {(p, n)}. same_bytes h b h' b (unat m)))"
  using realloc_serves [OF assms]
proof (elim disjE [of "_ = _"] exE conjE)
  fix h' ys p' n'
  define w where "w = (if n < rt_align newsize 4 then n else rt_align newsize 4)"
  assume r: "rt_realloc False p newsize h = Some (Inr (h', p'))" "heap_ok h' ys" "same_heap h h'" "rt_align newsize 4 \<le> n'"
    "allocated h' ys = insert (p', n') (allocated h xs - {(p, n)})"
    "p' = p \<and> mem_data h' = mem_data h \<or> (\<forall>y \<in> allocated h xs. apart (p', n') y) \<and>
        mem_data h' = mem_data (copy_data p' p (if n < rt_align newsize 4 then n else rt_align newsize 4) h)"
  have c: "heap_core h xs" "heap_core h' ys" "(p', n') \<in> allocated h' ys" using assms(1) r(2,5) by (simp_all add: heap_ok_def)
  have ns: "unat newsize \<le> unat (rt_align newsize 4)" unfolding unat_align_4 [OF assms(4)] by simp
  have fits: "newsize \<le> n'" using ns r(4) by (simp add: word_le_nat_alt)
  have bound: "unat b + unat m < 2 ^ 32" if "in_heap h (b, m)" for b m
    using that c(1) unat_heap_end [OF c(1)] by (simp add: in_heap_def heap_core_def)
  note p' = allocated_in_heap [OF c(2,3)]
  have ih: "in_heap h (p', n')" using p'(1) r(3) by (simp add: in_heap_def same_heap_def)
  have "same_bytes h p h' p' (min (unat n) (unat newsize)) \<and>
       (\<forall>(b, m) \<in> allocated h xs - {(p, n)}. same_bytes h b h' b (unat m))"
    using r(6)
  proof (elim disjE conjE)
    assume "p' = p" "mem_data h' = mem_data h"
    then show ?thesis by (simp add: same_bytes_refl split: prod.split)
  next
    assume ap: "\<forall>y \<in> allocated h xs. apart (p', n') y"
      and d: "mem_data h' = mem_data (copy_data p' p (if n < rt_align newsize 4 then n else rt_align newsize 4) h)"
    have d': "mem_data h' = mem_data (copy_data p' p w h)" using d by (simp add: w_def)
    have w: "unat w \<le> unat n'" "min (unat n) (unat newsize) \<le> unat w"
      using r(4) ns by (auto simp: w_def word_le_nat_alt word_less_nat_alt)
    have "same_bytes h b h' b (unat m)" if bm: "(b, m) \<in> allocated h xs" for b m
      by (rule copy_apart [OF d' w(1) _ bound [OF ih] bound [OF allocated_in_heap(1) [OF c(1) bm]]]) (use ap bm in blast)
    then show ?thesis using copy_same [OF d' w(2)] by blast
  qed
  then show ?thesis using r(1-3,5) fits p'(3) by auto
qed simp

section \<open>Witnesses\<close>

definition sample_heap :: heap where
  "sample_heap = rt_system_heap_init 0x20001002 0x20002000
     \<lparr> heap_ptr = 0, mem_size_aligned = 0, heap_mems = (\<lambda>_. None), lfree = 0, used_mem = 0, max_mem = 0, mem_data = (\<lambda>_. 0) \<rparr>"

lemma sample_heap_ok:
  "heap_ok sample_heap [(heap_end sample_heap, False)]" "unat (mem_size_aligned sample_heap) = 4068"
  "lfree sample_heap = 0" "unat (heap_end sample_heap) = 4080"
proof -
  let ?h = "\<lparr> heap_ptr = 0, mem_size_aligned = 0, heap_mems = (\<lambda>_. None), lfree = 0, used_mem = 0, max_mem = 0,
    mem_data = (\<lambda>_. 0) \<rparr> :: heap"
  note i = heap_init_ok [of "0x20001002" "0x20002000" ?h, folded sample_heap_def]
  show ok: "heap_ok sample_heap [(heap_end sample_heap, False)]" by (rule i(1)) simp_all
  show m: "unat (mem_size_aligned sample_heap) = 4068" by (subst i(3)) simp_all
  have "heap_core sample_heap [(heap_end sample_heap, False)]" using ok by (simp only: heap_ok_def)
  from unat_heap_end [OF this] show "unat (heap_end sample_heap) = 4080" by (simp add: m)
  show "lfree sample_heap = 0" by (simp add: sample_heap_def rt_system_heap_init_def Let_def)
qed

lemma sample_room: "room_for sample_heap [(heap_end sample_heap, False)] (request 10)"
proof -
  have "request 10 = 12" by (simp add: request_def rt_align_def Let_def)
  then show ?thesis by (simp add: room_search [OF sample_heap_ok(1)] search_room_def sample_heap_ok)
qed

lemma rt_malloc_serves_request_witness:
  "\<exists>h' ys p n. rt_malloc False 10 sample_heap = Some (Inr (h', p)) \<and> heap_ok h' ys \<and> p \<noteq> 0 \<and> 10 \<le> n \<and> allocated h' ys = {(p, n)}"
proof -
  have "allocated sample_heap [(heap_end sample_heap, False)] = {}" by (simp add: allocated_def)
  moreover have "\<exists>(q, m) \<in> vacant sample_heap [(heap_end sample_heap, False)]. request 10 \<le> m \<and> first_free sample_heap \<le> q \<and>
      \<not> (m = request 10 \<and> q + m = heap_ptr sample_heap + heap_end sample_heap)"
    using sample_room by (simp add: room_for_def usable_def split_def)
  ultimately show ?thesis using rt_malloc_serves_request [OF sample_heap_ok(1), of 10] by auto
qed

lemma sample_allocated:
  obtains h xs p n where "rt_malloc False 10 sample_heap = Some (Inr (h, p))" "heap_ok h xs" "allocated h xs = {(p, n)}"
proof -
  have "allocated sample_heap [(heap_end sample_heap, False)] = {}" by (simp add: allocated_def)
  then show thesis using malloc_serves [OF sample_heap_ok(1), of 10] sample_room that by auto
qed

lemma rt_free_releases_region_witness:
  "\<exists>h p h'. rt_malloc False 10 sample_heap = Some (Inr (h, p)) \<and> rt_free False p h = Inr h' \<and> heap_ok h' [(heap_end h, False)]"
proof -
  obtain h xs p n where s: "rt_malloc False 10 sample_heap = Some (Inr (h, p))" "heap_ok h xs" "allocated h xs = {(p, n)}"
    by (rule sample_allocated)
  show ?thesis using rt_free_releases_region [OF s(2), of p n] s(1,3) by auto
qed

lemma rt_realloc_keeps_contents_witness:
  "\<exists>h p h' p' xs ys. rt_malloc False 10 sample_heap = Some (Inr (h, p)) \<and> heap_ok h xs \<and>
     rt_realloc False p 100 h = Some (Inr (h', p')) \<and> heap_ok h' ys \<and> (p' = 0 \<or> (\<exists>n'. allocated h' ys = {(p', n')} \<and> 100 \<le> n'))"
proof -
  obtain h xs p n where s: "rt_malloc False 10 sample_heap = Some (Inr (h, p))" "heap_ok h xs" "allocated h xs = {(p, n)}"
    by (rule sample_allocated)
  show ?thesis using rt_realloc_keeps_contents [OF s(2), of p n 100] s by fastforce
qed

end
