(* ===== verification/RingHeap.thy ===== *)
theory RingHeap
  imports RingBuffer SmallMemOps
begin

text \<open>
  \<^verbatim>\<open>rt_ringbuffer_create\<close> and \<^verbatim>\<open>rt_ringbuffer_destroy\<close> of \<^verbatim>\<open>components/drivers/src/ringbuffer.c\<close>: a ring
  buffer whose structure and bytes come from the kernel heap. Together with theory \<^verbatim>\<open>SmallMem\<close> this
  gives that a created buffer shares no byte with anything allocated and that destroying it returns what it took.
\<close>

text \<open>The addresses of the structure (12 bytes) and of its bytes, and the structure.\<close>

record heap_ring =
  hr_rb :: u32
  hr_buffer_ptr :: u32
  hr_ring :: ringbuffer

definition heap_bytes :: "heap \<Rightarrow> u32 \<Rightarrow> nat \<Rightarrow> bytes" where
  "heap_bytes h a n = map (\<lambda>i. mem_data h (a + of_nat i)) [0..<n]"

text \<open>The parameter of \<^verbatim>\<open>rt_ringbuffer_init\<close> is a signed 16-bit integer.\<close>

definition rt_ringbuffer_create :: "bool \<Rightarrow> u16 \<Rightarrow> heap \<Rightarrow> (heap \<times> heap_ring option) res option" where
  "rt_ringbuffer_create irq sz h =
     (if sz = 0 then Some (Inl Assert_failed)
      else let sz = sz AND NOT 3 in
        (case rt_malloc irq 12 h of None \<Rightarrow> None | Some (Inl e) \<Rightarrow> Some (Inl e)
         | Some (Inr (h, rb)) \<Rightarrow>
             if rb = 0 then Some (Inr (h, None))
             else (case rt_malloc irq (ucast sz) h of None \<Rightarrow> None | Some (Inl e) \<Rightarrow> Some (Inl e)
               | Some (Inr (h, pool)) \<Rightarrow>
                   if pool = 0 then Some (rbind (rt_free irq rb h) (\<lambda>h. Inr (h, None)))
                   else Some (rbind (rt_ringbuffer_init (heap_bytes h pool (unat sz)) (sint sz)) (\<lambda>r.
                     Inr (h, Some \<lparr> hr_rb = rb, hr_buffer_ptr = pool, hr_ring = r \<rparr>))))))"

definition rt_ringbuffer_destroy :: "bool \<Rightarrow> heap_ring \<Rightarrow> heap \<Rightarrow> heap res" where
  "rt_ringbuffer_destroy irq r h = rbind (rt_free irq (hr_buffer_ptr r) h) (rt_free irq (hr_rb r))"

section \<open>A created buffer\<close>

lemma wrap_15: "n < 65536 \<Longrightarrow> (int n + 2 ^ 15) mod 2 ^ 16 - 2 ^ 15 = (if n < 2 ^ 15 then int n else int n - 2 ^ 16)"
proof (cases "n < 2 ^ 15")
  case True
  then have "(int n + 2 ^ 15) mod 2 ^ 16 = int n + 2 ^ 15" by (intro mod_pos_pos_trivial) simp_all
  then show ?thesis using True by simp
next
  case False
  assume l: "n < 65536"
  have "(int n + 2 ^ 15) mod 2 ^ 16 = (int n - 2 ^ 15 + 2 ^ 16) mod 2 ^ 16" by (simp add: add.commute)
  also have "\<dots> = (int n - 2 ^ 15) mod 2 ^ 16" by (rule mod_add_self2)
  also have "\<dots> = int n - 2 ^ 15" by (rule mod_pos_pos_trivial) (use False l in simp_all)
  finally show ?thesis using False by simp
qed

lemma sint_u16:
  assumes "unat (x :: u16) = n"
  shows "sint x = (if n < 2 ^ 15 then int n else int n - 2 ^ 16)"
proof -
  have "uint x = int n" using assms by auto
  then have "sint x = (int n + 2 ^ 15) mod 2 ^ 16 - 2 ^ 15"
    by (simp add: sint_uint signed_take_bit_eq_take_bit_shift take_bit_eq_mod)
  then show ?thesis using wrap_15 [of n] unat_u16_less [of x] assms by simp
qed

lemma align_size:
  assumes "4 \<le> unat (sz :: u16)" "unat sz < 2 ^ 15"
  shows "unat (sz AND NOT 3) = 4 * (unat sz div 4)" "sint (sz AND NOT 3) = int (4 * (unat sz div 4))" "sz AND NOT 3 \<noteq> 0"
proof -
  have "2 < LENGTH(16)" by simp
  then show u: "unat (sz AND NOT 3) = 4 * (unat sz div 4)" by (rule unat_and_not_3)
  have l: "unat (sz AND NOT 3) < 2 ^ 15" unfolding u using assms(2) by (meson le_less_trans times_div_less_eq_dividend)
  show "sint (sz AND NOT 3) = int (4 * (unat sz div 4))" using l u by (subst sint_u16 [OF u]) simp
  have "0 < unat sz div 4" using assms(1) by (simp add: div_greater_zero_iff)
  then show "sz AND NOT 3 \<noteq> 0" using u by (metis mult_is_0 not_gr0 unsigned_0 zero_neq_numeral)
qed

lemma fresh_ring:
  assumes "4 \<le> unat (sz :: u16)" "unat sz < 2 ^ 15" "length pool = unat (sz AND NOT 3)"
  obtains r where "rt_ringbuffer_init pool (sint (sz AND NOT 3)) = Inr r" "rb_ok r" "rb_contents r = []" "rb_pool r = pool"
proof -
  define k where "k = 4 * (unat sz div 4)"
  have k: "0 < k" "k < 2 ^ 15" "k div 4 * 4 = k" using assms(1,2) by (simp_all add: k_def)
  then have d: "4 * (int k div 4) = int k" by (simp add: k_def)
  have i: "sint (sz AND NOT 3) = int k" unfolding k_def by (rule align_size(2) [OF assms(1,2)])
  have l: "length pool = k" unfolding k_def assms(3) by (rule align_size(1) [OF assms(1,2)])
  define r where "r = \<lparr> rb_pool = pool, read_mirror = False, read_index = 0, write_mirror = False, write_index = 0, buffer_size = int k \<rparr>"
  have "rt_ringbuffer_init pool (sint (sz AND NOT 3)) = Inr r"
    unfolding i rt_ringbuffer_init_def d using k(1) l by (simp add: r_def)
  moreover have "rb_ok r" using k l by (simp add: rb_ok_def r_def)
  moreover have "rb_contents r = []" by (simp add: r_def flip: length_0_conv) (simp add: rb_count_def)
  ultimately show thesis using that by (simp add: r_def)
qed

lemma not_0_insert: "heap_ok h xs \<Longrightarrow> allocated h xs = insert (p, n) A \<Longrightarrow> p \<noteq> 0"
  using allocated_in_heap(3) [of h xs "(p, n)"] by (simp add: heap_ok_def)

text \<open>Apart from themselves no allocated region equals a fresh one, so releasing it gives the old ones back.\<close>

lemma fresh_region:
  assumes "heap_ok h xs" "allocated h xs = insert (p, n) A" "\<forall>y \<in> A. apart (p, n) y" "0 < unat n"
  shows "(p, n) \<notin> A"
  using assms(3,4) by (auto simp: apart_def)

text \<open>\<^verbatim>\<open>rt_ringbuffer_create\<close> on a well-formed heap, for a size from 4 to 32767, either returns \<^verbatim>\<open>RT_NULL\<close> and
  leaves nothing allocated, or returns an empty ring buffer of the size rounded down to 4 bytes whose structure and
  bytes are two new regions of the heap, apart from each other and from all that was allocated; \<^verbatim>\<open>rt_ringbuffer_destroy\<close> of it
  gives exactly these two regions back.\<close>

theorem rt_ringbuffer_create_destroy:
  assumes "heap_ok h xs" and "4 \<le> unat sz" and "unat sz < 2 ^ 15"
  shows "\<exists>h' xs' r. rt_ringbuffer_create False sz h = Some (Inr (h', r)) \<and> heap_ok h' xs' \<and>
    (case r of None \<Rightarrow> allocated h' xs' = allocated h xs
     | Some r \<Rightarrow> rb_ok (hr_ring r) \<and> rb_contents (hr_ring r) = [] \<and> length (rb_pool (hr_ring r)) = 4 * (unat sz div 4) \<and>
         (\<exists>n m. 12 \<le> unat n \<and> 4 * (unat sz div 4) \<le> unat m \<and> apart (hr_buffer_ptr r, m) (hr_rb r, n) \<and>
           (\<forall>y \<in> allocated h xs. apart (hr_rb r, n) y \<and> apart (hr_buffer_ptr r, m) y) \<and>
           allocated h' xs' = {(hr_rb r, n), (hr_buffer_ptr r, m)} \<union> allocated h xs) \<and>
         (\<exists>h2 ys. rt_ringbuffer_destroy False r h' = Inr h2 \<and> heap_ok h2 ys \<and> allocated h2 ys = allocated h xs))"
proof -
  define k where "k = sz AND NOT 3"
  note k = align_size [OF assms(2,3), folded k_def]
  have s0: "sz \<noteq> 0" using assms(2) by auto
  have create: "rt_ringbuffer_create False sz h = (case rt_malloc False 12 h of None \<Rightarrow> None | Some (Inl e) \<Rightarrow> Some (Inl e)
    | Some (Inr (h, rb)) \<Rightarrow> if rb = 0 then Some (Inr (h, None))
       else (case rt_malloc False (ucast k) h of None \<Rightarrow> None | Some (Inl e) \<Rightarrow> Some (Inl e)
         | Some (Inr (h, pool)) \<Rightarrow> if pool = 0 then Some (rbind (rt_free False rb h) (\<lambda>h. Inr (h, None)))
            else Some (rbind (rt_ringbuffer_init (heap_bytes h pool (unat k)) (sint k)) (\<lambda>r.
              Inr (h, Some \<lparr> hr_rb = rb, hr_buffer_ptr = pool, hr_ring = r \<rparr>)))))"
    unfolding rt_ringbuffer_create_def Let_def k_def by (simp only: s0 if_False)
  consider "rt_malloc False 12 h = Some (Inr (h, 0))"
    | h1 ys rb n where "rt_malloc False 12 h = Some (Inr (h1, rb))" "heap_ok h1 ys" "request 12 \<le> n"
        "allocated h1 ys = insert (rb, n) (allocated h xs)" "\<forall>y \<in> allocated h xs. apart (rb, n) y"
    using malloc_serves [OF assms(1), of 12] by auto
  then show ?thesis
  proof cases
    case 1
    then show ?thesis using assms(1) create by auto
  next
    case (2 h1 ys rb n)
    have rb0: "rb \<noteq> 0" by (rule not_0_insert [OF 2(2,4)])
    have "unat (request 12) = 12" by (simp add: request_def rt_align_def Let_def)
    then have n12: "12 \<le> unat n" using 2(3) by (simp add: word_le_nat_alt)
    have nin: "(rb, n) \<notin> allocated h xs" using fresh_region [OF 2(2,4,5)] n12 by simp
    have kk: "(ucast k :: u32) \<noteq> 0" "unat (ucast k :: u32) + 3 < 2 ^ 32"
    proof -
      show "(ucast k :: u32) \<noteq> 0"
      proof
        assume "(ucast k :: u32) = 0"
        then have "unat (ucast k :: u32) = 0" by (simp only: unsigned_0)
        then have "unat k = 0" by (simp only: unat_ucast_16_32)
        then show False using k(3) by (simp only: unat_eq_0)
      qed
      show "unat (ucast k :: u32) + 3 < 2 ^ 32" using unat_u16_less [of k] by simp
    qed
    consider "rt_malloc False (ucast k) h1 = Some (Inr (h1, 0))"
      | h2 zs pool m where "rt_malloc False (ucast k) h1 = Some (Inr (h2, pool))" "heap_ok h2 zs" "request (ucast k) \<le> m"
          "allocated h2 zs = insert (pool, m) (allocated h1 ys)" "\<forall>y \<in> allocated h1 ys. apart (pool, m) y"
      using malloc_serves [OF 2(2) kk] by auto
    then show ?thesis
    proof cases
      case 1
      obtain h2 zs where f: "rt_free False rb h1 = Inr h2" "heap_ok h2 zs" "allocated h2 zs = allocated h1 ys - {(rb, n)}"
        by (rule free_serves [OF 2(2), of rb n]) (use 2(4) in auto)
      have "rt_ringbuffer_create False sz h = Some (Inr (h2, None))" using create 2(1) rb0 1 f(1) by simp
      moreover have "allocated h2 zs = allocated h xs" using f(3) 2(4) nin by auto
      ultimately show ?thesis using f(2) by auto
    next
      case (2 h2 zs pool m)
      note new = \<open>rt_malloc False 12 h = Some (Inr (h1, rb))\<close> \<open>heap_ok h1 ys\<close> \<open>allocated h1 ys = insert (rb, n) (allocated h xs)\<close>
        \<open>\<forall>y \<in> allocated h xs. apart (rb, n) y\<close>
      have p0: "pool \<noteq> 0" by (rule not_0_insert [OF 2(2,4)])
      have km: "unat k \<le> unat m" using request_ok(3) [OF kk(2)] 2(3) by (simp add: word_le_nat_alt)
      have k0: "0 < unat k" using k(3) by (simp add: unat_gt_0)
      have pin: "(pool, m) \<notin> allocated h1 ys" using fresh_region [OF 2(2,4,5)] km k0 by simp
      obtain r where r: "rt_ringbuffer_init (heap_bytes h2 pool (unat k)) (sint k) = Inr r" "rb_ok r" "rb_contents r = []"
          "rb_pool r = heap_bytes h2 pool (unat k)"
        by (rule fresh_ring [OF assms(2,3), of "heap_bytes h2 pool (unat k)", folded k_def]) (simp add: heap_bytes_def)
      define x where "x = \<lparr> hr_rb = rb, hr_buffer_ptr = pool, hr_ring = r \<rparr>"
      have c: "rt_ringbuffer_create False sz h = Some (Inr (h2, Some x))" using create new(1) rb0 p0 2(1) r(1) by (simp add: x_def)
      obtain h3 us where f3: "rt_free False pool h2 = Inr h3" "heap_ok h3 us" "allocated h3 us = allocated h2 zs - {(pool, m)}"
        by (rule free_serves [OF 2(2), of pool m]) (use 2(4) in auto)
      have a3: "allocated h3 us = allocated h1 ys" using f3(3) 2(4) pin by auto
      obtain h4 vs where f4: "rt_free False rb h3 = Inr h4" "heap_ok h4 vs" "allocated h4 vs = allocated h3 us - {(rb, n)}"
        by (rule free_serves [OF f3(2), of rb n]) (use a3 new(3) in auto)
      have "allocated h4 vs = allocated h xs" using f4(3) a3 new(3) nin by auto
      then have d: "\<exists>h2' ys. rt_ringbuffer_destroy False x h2 = Inr h2' \<and> heap_ok h2' ys \<and> allocated h2' ys = allocated h xs"
        using f3(1) f4(1,2) by (auto simp: rt_ringbuffer_destroy_def x_def)
      have "12 \<le> unat n \<and> 4 * (unat sz div 4) \<le> unat m \<and> apart (hr_buffer_ptr x, m) (hr_rb x, n) \<and>
        (\<forall>y \<in> allocated h xs. apart (hr_rb x, n) y \<and> apart (hr_buffer_ptr x, m) y) \<and>
        allocated h2 zs = {(hr_rb x, n), (hr_buffer_ptr x, m)} \<union> allocated h xs"
        using n12 km k(1) new(3,4) 2(4,5) by (auto simp: x_def)
      moreover have "rb_ok (hr_ring x) \<and> rb_contents (hr_ring x) = [] \<and> length (rb_pool (hr_ring x)) = 4 * (unat sz div 4)"
        using r k(1) by (simp add: x_def heap_bytes_def)
      ultimately show ?thesis using c d 2(2) by (intro exI [of _ h2] exI [of _ zs] exI [of _ "Some x"]) auto
    qed
  qed
qed

lemma rt_ringbuffer_create_destroy_witness:
  "\<exists>h r. rt_ringbuffer_create False 64 sample_heap = Some (Inr (h, r)) \<and> (\<exists>xs. heap_ok h xs)"
  using rt_ringbuffer_create_destroy [OF sample_heap_ok(1), of 64] by auto

text \<open>A size that a signed 16-bit integer does not hold stops the system.\<close>

lemma create_large:
  assumes "2 ^ 15 \<le> unat (sz :: u16)" "rt_malloc False 12 h = Some (Inr (h1, rb))" "rb \<noteq> 0"
    "rt_malloc False (ucast (sz AND NOT 3)) h1 = Some (Inr (h2, pool))" "pool \<noteq> 0"
  shows "rt_ringbuffer_create False sz h = Some (Inl Assert_failed)"
proof -
  define k where "k = sz AND NOT 3"
  have "2 < LENGTH(16)" by simp
  then have u: "unat k = 4 * (unat sz div 4)" unfolding k_def by (rule unat_and_not_3)
  have "8192 \<le> unat sz div 4" using assms(1) by (simp add: less_eq_div_iff_mult_less_eq)
  then have "\<not> unat k < 2 ^ 15" unfolding u by simp
  moreover have "4 * (unat sz div 4) < 2 ^ 16" using unat_u16_less [of k] u by simp
  ultimately have "\<not> 0 < sint k" unfolding sint_u16 [OF u] u by simp
  moreover have "sz \<noteq> 0" using assms(1) by auto
  ultimately show ?thesis
    unfolding rt_ringbuffer_create_def Let_def k_def [symmetric]
    using assms(2-5) [folded k_def] by (simp add: rt_ringbuffer_init_def)
qed

end
