(* ===== verification/MemPool.thy ===== *)
theory MemPool
  imports IpcSync LinkedList SmallMemOps
begin

text \<open>
  \<^verbatim>\<open>src/mempool.c\<close>: pools of blocks of one size, handed out from a list that is linked through the
  word in front of each block. While a block is handed out that word holds the address of its pool.
  The words are \<open>mp_words\<close>, by the address of the block; what the users write behind them is not
  modelled. A pool is found by its address; the list of threads that wait for a block is
  \<open>Waiting\<close> of that address. A created pool takes its memory from the heap of \<^verbatim>\<open>src/mem.c\<close>.
\<close>

section \<open>State\<close>

record mempool =
  mp_static :: bool
  mp_start_address :: u32
  mp_size :: u32
  mp_block_size :: u32
  mp_block_list :: u32
  mp_block_total_count :: u32
  mp_block_free_count :: u32

record psys = isys +
  mempools :: "u32 \<Rightarrow> mempool option"
  mp_words :: "u32 \<Rightarrow> u32"
  sys_heap :: heap
  sys_errno :: rt_err

text \<open>\<^verbatim>\<open>sizeof(struct rt_mempool)\<close>\<close>

abbreviation (input) SIZEOF_MEMPOOL :: u32 where "SIZEOF_MEMPOOL \<equiv> 52"

datatype mp_outcome = Mp_block u32 | Mp_blocked u32

definition mp_waiting :: "u32 \<Rightarrow> queue" where
  "mp_waiting mp = Waiting (unat mp)"

definition with_pool :: "u32 \<Rightarrow> psys \<Rightarrow> (mempool \<Rightarrow> 'b res) \<Rightarrow> 'b res" where
  "with_pool mp s f = (case mempools s mp of None \<Rightarrow> Inl Assert_failed | Some m \<Rightarrow> f m)"

definition set_pool :: "u32 \<Rightarrow> mempool \<Rightarrow> psys \<Rightarrow> psys" where
  "set_pool mp m s = s\<lparr> mempools := (mempools s)(mp := Some m) \<rparr>"

definition drop_pool :: "u32 \<Rightarrow> psys \<Rightarrow> psys" where
  "drop_pool mp s = s\<lparr> mempools := (mempools s)(mp := None) \<rparr>"

section \<open>Initialisation\<close>

text \<open>The loop that links the blocks, and the end of the list behind the loop. A divisor of 0 gives the quotient 0
  on the target as it does here; a pool of no block writes its end of list in front of its memory.\<close>

definition link_blocks :: "u32 \<Rightarrow> u32 \<Rightarrow> u32 \<Rightarrow> (u32 \<Rightarrow> u32) \<Rightarrow> u32 \<Rightarrow> u32" where
  "link_blocks start bs n w =
     (fold (\<lambda>i w. w(start + of_nat i * (bs + 4) := start + (of_nat i + 1) * (bs + 4))) [0 ..< unat n] w)
       (start + (n - 1) * (bs + 4) := 0)"

definition install_pool :: "u32 \<Rightarrow> bool \<Rightarrow> u32 \<Rightarrow> u32 \<Rightarrow> u32 \<Rightarrow> u32 \<Rightarrow> psys \<Rightarrow> psys" where
  "install_pool mp static start sz bs n s =
     (let s = s\<lparr> queues := (queues s)(mp_waiting mp := []) \<rparr> in
      set_pool mp \<lparr> mp_static = static, mp_start_address = start, mp_size = sz, mp_block_size = bs, mp_block_list = start,
        mp_block_total_count = n, mp_block_free_count = n \<rparr>
        (s\<lparr> mp_words := link_blocks start bs n (mp_words s) \<rparr>))"

definition rt_mp_init :: "u32 \<Rightarrow> u32 \<Rightarrow> u32 \<Rightarrow> u32 \<Rightarrow> psys \<Rightarrow> (psys \<times> rt_err) res" where
  "rt_mp_init mp start sz block_size s =
     rassert (start \<noteq> 0 \<and> sz > 0 \<and> block_size > 0) (rassert (mempools s mp = None)
     (rbind (rt_object_init_walk s) (\<lambda>s.
      let sz = rt_align_down sz 4; bs = rt_align block_size 4 in
      Inr (install_pool mp True start sz bs (sz div (bs + 4)) s, RT_EOK))))"

definition rt_mp_detach :: "u32 \<Rightarrow> psys \<Rightarrow> (psys \<times> rt_err) res option" where
  "rt_mp_detach mp s =
     (case with_pool mp s (\<lambda>m. rassert (mp_static m) (Inr s)) of Inl e \<Rightarrow> Some (Inl e)
      | Inr s \<Rightarrow> orbind (rt_ipc_list_resume_all (mp_waiting mp) s) (\<lambda>s. Some (Inr (drop_pool mp s, RT_EOK))))"

text \<open>The address of the new pool, 0 if the heap has no room for the object or for its blocks.\<close>

definition rt_mp_create :: "u32 \<Rightarrow> u32 \<Rightarrow> psys \<Rightarrow> (psys \<times> u32) res option" where
  "rt_mp_create count block_size s =
     (if interrupt_nest s \<noteq> 0 \<or> count = 0 \<or> block_size = 0 then Some (Inl Assert_failed)
      else orbind (rt_malloc False SIZEOF_MEMPOOL (sys_heap s)) (\<lambda>(h, mp).
        if mp = 0 then Some (Inr (s\<lparr> sys_heap := h \<rparr>, 0))
        else let bs = rt_align block_size 4; sz = (bs + 4) * count in
          orbind (rt_malloc False sz h) (\<lambda>(h, start).
            if start = 0 then Some (rbind (rt_free False mp h) (\<lambda>h. Inr (s\<lparr> sys_heap := h \<rparr>, 0)))
            else Some (Inr (install_pool mp False start sz bs count (s\<lparr> sys_heap := h \<rparr>), mp)))))"

definition rt_mp_delete :: "u32 \<Rightarrow> psys \<Rightarrow> (psys \<times> rt_err) res option" where
  "rt_mp_delete mp s =
     (case rassert (interrupt_nest s = 0) (with_pool mp s (\<lambda>m. rassert (\<not> mp_static m) (Inr m))) of Inl e \<Rightarrow> Some (Inl e)
      | Inr m \<Rightarrow> orbind (rt_ipc_list_resume_all (mp_waiting mp) s) (\<lambda>s.
          Some (rbind (rt_free False (mp_start_address m) (sys_heap s)) (\<lambda>h.
                rbind (rt_free False mp h) (\<lambda>h. Inr (drop_pool mp (s\<lparr> sys_heap := h \<rparr>), RT_EOK))))))"

section \<open>Taking and returning a block\<close>

text \<open>\<^verbatim>\<open>rt_set_errno\<close> of \<^verbatim>\<open>src/kservice.c\<close>: the calling thread's error code, or the global one.\<close>

definition rt_set_errno :: "rt_err \<Rightarrow> psys \<Rightarrow> psys res" where
  "rt_set_errno e s =
     (if interrupt_nest s \<noteq> 0 then Inr (s\<lparr> sys_errno := e \<rparr>)
      else case rt_thread_self s of None \<Rightarrow> Inr (s\<lparr> sys_errno := e \<rparr>) | Some t \<Rightarrow> set_error t e s)"

text \<open>The first free block leaves the list; its word names its pool.\<close>

definition mp_take :: "u32 \<Rightarrow> mempool \<Rightarrow> psys \<Rightarrow> (psys \<times> mp_outcome) res" where
  "mp_take mp m s = (let b = mp_block_list m in
     rassert (b \<noteq> 0)
       (Inr (set_pool mp (m\<lparr> mp_block_free_count := mp_block_free_count m - 1, mp_block_list := mp_words s b \<rparr>)
          (s\<lparr> mp_words := (mp_words s)(b := mp) \<rparr>), Mp_block (b + 4))))"

text \<open>A thread waits at the head of the list. \<open>Mp_blocked\<close> carries the tick at which it went to sleep.\<close>

definition mp_block_on :: "u32 \<Rightarrow> nat \<Rightarrow> int \<Rightarrow> psys \<Rightarrow> psys res" where
  "mp_block_on mp t time s =
     rbind (set_error t RT_EOK s) (\<lambda>s.
     rbind (rt_thread_suspend t s) (\<lambda>(s, _).
     let s = insert_after (mp_waiting mp) t s in
     if time > 0 then start_thread_timer t (word_of_int time) s else Inr s))"

definition rt_mp_alloc :: "u32 \<Rightarrow> int \<Rightarrow> psys \<Rightarrow> (psys \<times> mp_outcome) res" where
  "rt_mp_alloc mp time s = with_pool mp s (\<lambda>m.
     if mp_block_free_count m = 0
     then if time = 0 then rbind (rt_set_errno (- RT_ETIMEOUT) s) (\<lambda>s. Inr (s, Mp_block 0))
       else rassert (interrupt_nest s = 0) (with_self s (\<lambda>t.
         rbind (mp_block_on mp t time s) (\<lambda>s1. rbind (rt_schedule s1) (\<lambda>s'. Inr (s', Mp_blocked (rt_tick s))))))
     else mp_take mp m s)"

text \<open>The rest of the call when the thread \<open>t\<close> that slept since \<open>start\<close> runs again.\<close>

definition mp_time_left :: "u32 \<Rightarrow> u32 \<Rightarrow> int \<Rightarrow> int" where
  "mp_time_left now start time =
     (if time > 0 then max 0 (sint (word_of_int time - (now - start) :: u32)) else time)"

definition rt_mp_alloc_return :: "u32 \<Rightarrow> int \<Rightarrow> u32 \<Rightarrow> nat \<Rightarrow> psys \<Rightarrow> (psys \<times> mp_outcome) res" where
  "rt_mp_alloc_return mp time start t s = with_thread t s (\<lambda>th.
     if th_error th \<noteq> RT_EOK then Inr (s, Mp_block 0)
     else rt_mp_alloc mp (mp_time_left (rt_tick_get s) start time) s)"

definition rt_mp_free :: "u32 \<Rightarrow> psys \<Rightarrow> psys res" where
  "rt_mp_free block s =
     (if block = 0 then Inr s
      else let b = block - 4; mp = mp_words s b in
        with_pool mp s (\<lambda>m.
          let s = set_pool mp (m\<lparr> mp_block_free_count := mp_block_free_count m + 1, mp_block_list := b \<rparr>)
                    (s\<lparr> mp_words := (mp_words s)(b := mp_block_list m) \<rparr>) in
          case queues s (mp_waiting mp) of
            [] \<Rightarrow> Inr s
          | t # _ \<Rightarrow> rbind (set_error t RT_EOK s) (\<lambda>s. rbind (rt_thread_resume t s) (\<lambda>(s, _). rt_schedule s))))"

section \<open>The blocks of a pool\<close>

definition pool_block :: "mempool \<Rightarrow> nat \<Rightarrow> u32" where
  "pool_block m k = mp_start_address m + of_nat k * (mp_block_size m + 4)"

definition pool_blocks :: "mempool \<Rightarrow> u32 set" where
  "pool_blocks m = pool_block m ` {..< unat (mp_block_total_count m)}"

definition pool_fits :: "mempool \<Rightarrow> bool" where
  "pool_fits m \<longleftrightarrow> mp_start_address m \<noteq> 0 \<and>
     unat (mp_start_address m) + unat (mp_block_total_count m) * (unat (mp_block_size m) + 4) < 2 ^ 32"

lemma unat_stride:
  assumes "pool_fits m" "0 < mp_block_total_count m"
  shows "unat (mp_block_size m + 4) = unat (mp_block_size m) + 4"
proof -
  have "1 \<le> unat (mp_block_total_count m)" using assms(2) by (simp add: word_less_nat_alt)
  then have "1 * (unat (mp_block_size m) + 4) \<le> unat (mp_block_total_count m) * (unat (mp_block_size m) + 4)"
    by (rule mult_le_mono1)
  also have "\<dots> \<le> unat (mp_start_address m) + unat (mp_block_total_count m) * (unat (mp_block_size m) + 4)" by (rule le_add2)
  also have "\<dots> < 2 ^ 32" using assms(1) by (simp only: pool_fits_def)
  finally have "unat (mp_block_size m) + 4 < 2 ^ 32" by simp
  then show ?thesis by (simp add: unat_word_ariths)
qed

lemma unat_pool_block:
  assumes f: "pool_fits m" and k: "k < unat (mp_block_total_count m)"
  shows "unat (pool_block m k) = unat (mp_start_address m) + k * (unat (mp_block_size m) + 4)"
    "unat (pool_block m k) + unat (mp_block_size m) + 4 < 2 ^ 32" "pool_block m k \<noteq> 0"
proof -
  let ?n = "unat (mp_block_total_count m)" and ?b = "unat (mp_block_size m) + 4" and ?s = "unat (mp_start_address m)"
  have st: "unat (mp_block_size m + 4) = ?b" using unat_stride [OF f] k by (simp add: word_less_nat_alt)
  have "(k + 1) * ?b \<le> ?n * ?b" using k by (intro mult_le_mono1) simp
  then have le: "?s + k * ?b + ?b < 2 ^ 32" using f by (simp add: pool_fits_def)
  have "k < 2 ^ 32" using k unat_u32_less [of "mp_block_total_count m"] by simp
  then have "unat (of_nat k :: u32) = k" by (simp add: unat_of_nat)
  then have p: "unat (of_nat k * (mp_block_size m + 4)) = k * ?b" using le st by (simp add: unat_word_ariths)
  then show u: "unat (pool_block m k) = ?s + k * ?b" using le by (simp add: pool_block_def unat_word_ariths)
  show "unat (pool_block m k) + unat (mp_block_size m) + 4 < 2 ^ 32" using le by (simp add: u)
  have "?s \<noteq> 0" using f by (simp add: pool_fits_def unat_eq_0)
  then show "pool_block m k \<noteq> 0" using u by (metis add_is_0 unat_0)
qed

lemma pool_blocks_apart:
  assumes f: "pool_fits m" and "x \<in> pool_blocks m" "y \<in> pool_blocks m" "x \<noteq> y"
  shows "apart (x + 4, mp_block_size m) (y + 4, mp_block_size m)"
proof -
  let ?b = "unat (mp_block_size m) + 4"
  obtain i j where i: "x = pool_block m i" "i < unat (mp_block_total_count m)"
      and j: "y = pool_block m j" "j < unat (mp_block_total_count m)"
    using assms(2,3) by (auto simp: pool_blocks_def)
  note a = unat_pool_block [OF f i(2)] unat_pool_block [OF f j(2)]
  have "unat (x + 4) = unat x + 4" "unat (y + 4) = unat y + 4"
    using a(2,5) by (simp_all add: i(1) j(1) unat_word_ariths)
  moreover have "i < j \<or> j < i" using assms(4) i(1) j(1) by (cases i j rule: linorder_cases) auto
  then have "i + 1 \<le> j \<or> j + 1 \<le> i" by auto
  then have "(i + 1) * ?b \<le> j * ?b \<or> (j + 1) * ?b \<le> i * ?b" using mult_le_mono1 by blast
  ultimately show ?thesis using a(1,4) by (auto simp: apart_def i(1) j(1))
qed

text \<open>A pool whose free blocks are \<open>fs\<close>, in the order of its list, and whose other blocks are \<open>us\<close>.\<close>

definition ptr :: "u32 \<Rightarrow> u32 option" where
  "ptr a = (if a = 0 then None else Some a)"

definition pool_ok :: "u32 \<Rightarrow> psys \<Rightarrow> u32 list \<Rightarrow> u32 list \<Rightarrow> bool" where
  "pool_ok mp s fs us \<longleftrightarrow> (case mempools s mp of None \<Rightarrow> False | Some m \<Rightarrow>
     pool_fits m \<and> chain (\<lambda>a. ptr (mp_words s a)) (ptr (mp_block_list m)) fs \<and>
     distinct (fs @ us) \<and> set (fs @ us) = pool_blocks m \<and> unat (mp_block_free_count m) = length fs \<and>
     (\<forall>u \<in> set us. mp_words s u = mp))"

lemma pool_okD:
  assumes "pool_ok mp s fs us"
  obtains m where "mempools s mp = Some m" "pool_fits m" "chain (\<lambda>a. ptr (mp_words s a)) (ptr (mp_block_list m)) fs"
    "distinct (fs @ us)" "set (fs @ us) = pool_blocks m" "unat (mp_block_free_count m) = length fs"
    "\<forall>u \<in> set us. mp_words s u = mp"
  using assms that unfolding pool_ok_def by (auto split: option.splits)

text \<open>Only the pools and the words count.\<close>

lemma pool_ok_cong:
  "mempools s' = mempools s \<Longrightarrow> mp_words s' = mp_words s \<Longrightarrow> pool_ok mp s' fs us = pool_ok mp s fs us"
  unfolding pool_ok_def by (simp only:)

lemma more_pools:
  "ksys.more s' = ksys.more s \<Longrightarrow> mempools s' = mempools (s :: psys)"
  "ksys.more s' = ksys.more s \<Longrightarrow> mp_words s' = mp_words (s :: psys)"
  by (cases s; cases s'; simp)+

lemma pool_ok_more: "ksys.more s' = ksys.more s \<Longrightarrow> pool_ok mp s' fs us = pool_ok mp s fs us"
  by (rule pool_ok_cong) (erule more_pools)+

lemma set_pool_fields [simp]:
  "threads (set_pool mp m s) = threads s" "queues (set_pool mp m s) = queues s"
  "current_thread (set_pool mp m s) = current_thread s" "ready_group (set_pool mp m s) = ready_group s"
  "timers (set_pool mp m s) = timers s" "timer_list (set_pool mp m s) = timer_list s"
  "rt_tick (set_pool mp m s) = rt_tick s" "lock_nest (set_pool mp m s) = lock_nest s"
  "interrupt_nest (set_pool mp m s) = interrupt_nest s" "mempools (set_pool mp m s) = (mempools s)(mp := Some m)"
  "mp_words (set_pool mp m s) = mp_words s"
  by (simp_all add: set_pool_def)

lemma sys_inv_pool [simp]: "sys_inv (set_pool mp m s) = sys_inv s" "sys_inv (s\<lparr> mp_words := w \<rparr>) = sys_inv s"
  by (rule sys_inv_cong; simp)+

lemma block_not_null: "pool_fits m \<Longrightarrow> b \<in> pool_blocks m \<Longrightarrow> b \<noteq> 0 \<and> b + 4 \<noteq> 0"
proof -
  assume f: "pool_fits m" and "b \<in> pool_blocks m"
  then obtain k where k: "b = pool_block m k" "k < unat (mp_block_total_count m)" by (auto simp: pool_blocks_def)
  note a = unat_pool_block [OF f k(2)]
  have "unat (b + 4) = unat b + 4" using a(2) by (simp add: k(1) unat_word_ariths)
  then have "b + 4 \<noteq> 0" by (metis add_is_0 unat_0 zero_neq_numeral)
  then show ?thesis using a(3) by (simp add: k(1))
qed

lemma mp_take_ok:
  assumes "pool_ok mp s (b # fs) us"
  shows "\<exists>s' m. rt_mp_alloc mp time s = Inr (s', Mp_block (b + 4)) \<and> pool_ok mp s' fs (b # us) \<and> mempools s mp = Some m \<and>
    (\<forall>u \<in> set us. apart (b + 4, mp_block_size m) (u + 4, mp_block_size m)) \<and> threads s' = threads s \<and> queues s' = queues s \<and>
    sys_inv s' = sys_inv s \<and> quiet s s'"
proof -
  obtain m where m: "mempools s mp = Some m" "pool_fits m" "chain (\<lambda>a. ptr (mp_words s a)) (ptr (mp_block_list m)) (b # fs)"
    "distinct ((b # fs) @ us)" "set ((b # fs) @ us) = pool_blocks m" "unat (mp_block_free_count m) = length (b # fs)"
    "\<forall>u \<in> set us. mp_words s u = mp" by (rule pool_okD [OF assms]) (rule that)
  have b: "mp_block_list m = b" "b \<noteq> 0" using m(3) by (auto simp: ptr_def split: if_splits)
  have free: "mp_block_free_count m \<noteq> 0" using m(6) by auto
  define s' where "s' = set_pool mp (m\<lparr> mp_block_free_count := mp_block_free_count m - 1, mp_block_list := mp_words s b \<rparr>)
          (s\<lparr> mp_words := (mp_words s)(b := mp) \<rparr>)"
  have "rt_mp_alloc mp time s = Inr (s', Mp_block (b + 4))"
    using m(1) free b by (simp add: rt_mp_alloc_def with_pool_def mp_take_def s'_def Let_def)
  moreover have "pool_ok mp s' fs (b # us)"
  proof -
    have c: "chain (\<lambda>a. ptr (((mp_words s)(b := mp)) a)) (ptr (mp_words s b)) fs"
    proof -
      have "chain (\<lambda>a. ptr (((mp_words s)(b := mp)) a)) (ptr (mp_words s b)) fs = chain (\<lambda>a. ptr (mp_words s a)) (ptr (mp_words s b)) fs"
        by (rule chain_cong) (use m(4) in auto)
      then show ?thesis using m(3) by simp
    qed
    have n: "unat (mp_block_free_count m - 1) = length fs" using m(6) free by (simp add: unat_minus_one)
    have same: "pool_fits (m\<lparr> mp_block_free_count := x, mp_block_list := y \<rparr>) = pool_fits m"
      "pool_blocks (m\<lparr> mp_block_free_count := x, mp_block_list := y \<rparr>) = pool_blocks m" for x y
      by (simp_all add: pool_fits_def pool_blocks_def pool_block_def)
    show ?thesis using m(2,4,5,7) c n by (auto simp: pool_ok_def s'_def same)
  qed
  moreover have "apart (b + 4, mp_block_size m) (u + 4, mp_block_size m)" if "u \<in> set us" for u
    by (rule pool_blocks_apart [OF m(2)]) (use m(4,5) that in auto)
  moreover have "quiet s s'" by (rule same_timers_quiet) (simp_all add: s'_def)
  ultimately show ?thesis using m(1) by (auto simp: s'_def)
qed

lemma empty_ok:
  assumes p: "pool_ok mp s [] us" and inv: "sys_inv s"
  shows "\<exists>s'. rt_mp_alloc mp 0 s = Inr (s', Mp_block 0) \<and> pool_ok mp s' [] us \<and> sys_inv s'"
proof -
  obtain m where m: "mempools s mp = Some m" "unat (mp_block_free_count m) = 0"
    by (rule pool_okD [OF p]) (use that in simp)
  have "mp_block_free_count m = 0" using m(2) by (simp add: unat_eq_0)
  then have run: "rt_mp_alloc mp 0 s = rbind (rt_set_errno (- RT_ETIMEOUT) s) (\<lambda>s. Inr (s, Mp_block 0))"
    using m(1) by (simp add: rt_mp_alloc_def with_pool_def)
  show ?thesis
  proof (cases "interrupt_nest s = 0 \<and> current_thread s \<noteq> None")
    case False
    then have "rt_set_errno (- RT_ETIMEOUT) s = Inr (s\<lparr> sys_errno := - RT_ETIMEOUT \<rparr>)"
      by (auto simp: rt_set_errno_def rt_thread_self_def)
    moreover have "sys_inv (s\<lparr> sys_errno := - RT_ETIMEOUT \<rparr>) = sys_inv s" by (rule sys_inv_cong) simp_all
    moreover have "pool_ok mp (s\<lparr> sys_errno := - RT_ETIMEOUT \<rparr>) [] us" using p pool_ok_cong [of "s\<lparr> sys_errno := - RT_ETIMEOUT \<rparr>" s] by simp
    ultimately show ?thesis using run inv by simp
  next
    case True
    then obtain c where c: "current_thread s = Some c" by blast
    obtain th where th: "threads s c = Some th" using current_exists [OF _ c] inv by (auto simp: sys_inv_def)
    obtain s' where s': "set_error c (- RT_ETIMEOUT) s = Inr s'" "sys_inv s'" "calm s s'"
      by (rule set_error_ok [OF inv th]) (rule that)
    have "pool_ok mp s' [] us" using p pool_ok_more [of s' s] s'(3) by (simp add: calm_def)
    then show ?thesis using run s' True c by (simp add: rt_set_errno_def rt_thread_self_def)
  qed
qed

lemma give_back:
  assumes p: "pool_ok mp s fs us" and b: "b \<in> set us"
  obtains m where "mempools s mp = Some m" "mp_words s b = mp" "b + 4 \<noteq> 0"
    "pool_ok mp (set_pool mp (m\<lparr> mp_block_free_count := mp_block_free_count m + 1, mp_block_list := b \<rparr>)
       (s\<lparr> mp_words := (mp_words s)(b := mp_block_list m) \<rparr>)) (b # fs) (remove1 b us)"
proof -
  obtain m where m: "mempools s mp = Some m" "pool_fits m" "chain (\<lambda>a. ptr (mp_words s a)) (ptr (mp_block_list m)) fs"
    "distinct (fs @ us)" "set (fs @ us) = pool_blocks m" "unat (mp_block_free_count m) = length fs"
    "\<forall>u \<in> set us. mp_words s u = mp" by (rule pool_okD [OF p]) (rule that)
  have nb: "b \<noteq> 0" "b + 4 \<noteq> 0" using block_not_null [OF m(2)] m(5) b by auto
  have d: "b \<notin> set fs" "b \<notin> set (remove1 b us)" "set (remove1 b us) = set us - {b}" using m(4) b by auto
  have c: "chain (\<lambda>a. ptr (((mp_words s)(b := mp_block_list m)) a)) (ptr (mp_block_list m)) fs"
  proof -
    have "chain (\<lambda>a. ptr (((mp_words s)(b := mp_block_list m)) a)) (ptr (mp_block_list m)) fs =
        chain (\<lambda>a. ptr (mp_words s a)) (ptr (mp_block_list m)) fs"
      by (rule chain_cong) (use d(1) in auto)
    then show ?thesis using m(3) by simp
  qed
  have "length fs + length us = card (pool_blocks m)" using distinct_card [OF m(4)] m(5) by simp
  also have "\<dots> \<le> unat (mp_block_total_count m)" unfolding pool_blocks_def
    using card_image_le [of "{..< unat (mp_block_total_count m)}" "pool_block m"] by simp
  finally have "length fs + length us < 2 ^ 32" using unat_u32_less [of "mp_block_total_count m"] by simp
  moreover have "0 < length us" using b by (cases us) auto
  ultimately have "length fs + 1 < 2 ^ 32" by linarith
  then have n: "unat (mp_block_free_count m + 1) = length (b # fs)" using m(6) by (simp add: unat_word_ariths)
  have same: "pool_fits (m\<lparr> mp_block_free_count := x, mp_block_list := y \<rparr>) = pool_fits m"
    "pool_blocks (m\<lparr> mp_block_free_count := x, mp_block_list := y \<rparr>) = pool_blocks m" for x y
    by (simp_all add: pool_fits_def pool_blocks_def pool_block_def)
  have "set ((b # fs) @ remove1 b us) = pool_blocks m" using m(4,5) b d(3) by auto
  then have "pool_ok mp (set_pool mp (m\<lparr> mp_block_free_count := mp_block_free_count m + 1, mp_block_list := b \<rparr>)
       (s\<lparr> mp_words := (mp_words s)(b := mp_block_list m) \<rparr>)) (b # fs) (remove1 b us)"
    using m(2,4,7) c n d nb by (auto simp: pool_ok_def same ptr_def)
  then show thesis using that m(1,7) nb(2) b by blast
qed

lemma mp_free_ok:
  assumes p: "pool_ok mp s fs us" and b: "b \<in> set us" and k: "kinv s"
  shows "\<exists>s'. rt_mp_free (b + 4) s = Inr s' \<and> pool_ok mp s' (b # fs) (remove1 b us) \<and> kinv s' \<and>
    (case queues s (mp_waiting mp) of [] \<Rightarrow> threads s' = threads s \<and> queues s' = queues s
     | w # ws \<Rightarrow> woken_with RT_EOK s' w \<and> queues s' (mp_waiting mp) = ws \<and> (\<forall>t. t \<noteq> w \<longrightarrow> kept_at s s' t))"
proof -
  obtain m where m: "mempools s mp = Some m" "mp_words s b = mp" "b + 4 \<noteq> 0"
    "pool_ok mp (set_pool mp (m\<lparr> mp_block_free_count := mp_block_free_count m + 1, mp_block_list := b \<rparr>)
       (s\<lparr> mp_words := (mp_words s)(b := mp_block_list m) \<rparr>)) (b # fs) (remove1 b us)"
    by (rule give_back [OF p b]) (rule that)
  define s1 where "s1 = set_pool mp (m\<lparr> mp_block_free_count := mp_block_free_count m + 1, mp_block_list := b \<rparr>)
       (s\<lparr> mp_words := (mp_words s)(b := mp_block_list m) \<rparr>)"
  have f1: "queues s1 = queues s" "threads s1 = threads s" "current_thread s1 = current_thread s" by (simp_all add: s1_def)
  have inv: "sys_inv s" and c: "current_thread s \<noteq> None" using k by (simp_all add: kinv_def)
  have i1: "sys_inv s1" using inv by (simp add: s1_def)
  have q1: "quiet s s1" by (rule same_timers_quiet) (simp_all add: s1_def)
  have run: "rt_mp_free (b + 4) s = (case queues s (mp_waiting mp) of [] \<Rightarrow> Inr s1
      | t # _ \<Rightarrow> rbind (set_error t RT_EOK s1) (\<lambda>s. rbind (rt_thread_resume t s) (\<lambda>(s, _). rt_schedule s)))"
    using m(1,3) f1(1) unfolding rt_mp_free_def Let_def add_diff_cancel_right' m(2) with_pool_def s1_def by simp
  show ?thesis
  proof (cases "queues s (mp_waiting mp)")
    case Nil
    then show ?thesis using run m(4) f1(1,2) kinv_quiet [OF k i1 q1] by (simp add: s1_def)
  next
    case (Cons w ws)
    have q: "waiting_queue (mp_waiting mp)" by (simp add: mp_waiting_def)
    obtain th where th: "threads s1 w = Some th"
      by (rule waiter_suspended [OF i1 q, of w]) (use Cons f1(1) that in auto)
    obtain s2 where s2: "set_error w RT_EOK s1 = Inr s2" "sys_inv s2" "calm s1 s2" "s2 = set_thread w (th\<lparr> th_error := 0 \<rparr>) s1"
      by (rule set_error_ok [OF i1 th]) (rule that)
    have c2: "current_thread s2 \<noteq> None" "queues s2 (mp_waiting mp) = w # ws" "th_error (the (threads s2 w)) = 0"
      using s2(4) f1 c Cons by (simp_all add: set_thread_def)
    obtain s3 s' where s': "rt_ipc_list_resume (mp_waiting mp) s2 = Inr s3" "rt_schedule s3 = Inr s'" "sys_inv s'" "quiet s2 s'"
        "woken_with 0 s' w" "queues s' (mp_waiting mp) = ws" "\<And>t. t \<noteq> w \<Longrightarrow> kept_at s2 s' t" "ksys.more s' = ksys.more s2"
      using wake_schedule_more [OF s2(2) c2(1) q c2(2)] c2(3) by metis
    obtain e where "rt_thread_resume w s2 = Inr (s3, e)"
      using s'(1) c2(2) by (auto simp: rt_ipc_list_resume_def rbind_eq_Inr)
    then have "rt_mp_free (b + 4) s = Inr s'" using run Cons s2(1) s'(2) by simp
    moreover have "kinv s'"
      by (rule kinv_quiet [OF k s'(3)]) (rule quiet_trans [OF q1 quiet_trans [OF calm_quiet [OF s2(3)] s'(4)]])
    moreover have "ksys.more s' = ksys.more s1" using s'(8) s2(3) by (simp add: calm_def)
    then have "pool_ok mp s' (b # fs) (remove1 b us)" using m(4) pool_ok_more unfolding s1_def by blast
    moreover have "kept_at s s' t" if "t \<noteq> w" for t
      using s'(7) [OF that] that f1(2) by (simp add: kept_at_def s2(4) set_thread_def)
    ultimately show ?thesis using Cons s'(5,6) by auto
  qed
qed

section \<open>A new pool\<close>

lemma pool_block_inj:
  assumes f: "pool_fits m" and i: "i < unat (mp_block_total_count m)" and j: "j < unat (mp_block_total_count m)"
    and e: "pool_block m i = pool_block m j"
  shows "i = j"
proof -
  have "i * (unat (mp_block_size m) + 4) = j * (unat (mp_block_size m) + 4)"
    using unat_pool_block(1) [OF f i] unat_pool_block(1) [OF f j] by (simp only: e add_left_cancel)
  then show ?thesis by (simp only: mult_cancel2) simp
qed

lemma fold_links:
  assumes "pool_fits m" "n \<le> unat (mp_block_total_count m)" "i < n"
  shows "fold (\<lambda>i w. w(pool_block m i := g i)) [0 ..< n] w (pool_block m i) = g i"
  using assms(2,3)
proof (induction n)
  case (Suc n)
  then have "pool_block m i = pool_block m n \<Longrightarrow> i = n" by (intro pool_block_inj [OF assms(1)]) simp_all
  then show ?case using Suc by (cases "i = n") auto
qed simp

lemma chain_from:
  assumes f: "pool_fits m" and n: "n = unat (mp_block_total_count m)"
    and w: "\<And>i. i < n \<Longrightarrow> w (pool_block m i) = (if i + 1 < n then pool_block m (i + 1) else 0)"
  shows "i < n \<Longrightarrow> chain (\<lambda>a. ptr (w a)) (ptr (pool_block m i)) (map (pool_block m) [i ..< n])"
proof (induction "n - i" arbitrary: i)
  case (Suc k)
  have nz: "ptr (pool_block m i) = Some (pool_block m i)" if "i < n" for i
    using unat_pool_block(3) [OF f] that n by (simp add: ptr_def)
  show ?case
  proof (cases "i + 1 < n")
    case True
    then have "chain (\<lambda>a. ptr (w a)) (ptr (pool_block m (i + 1))) (map (pool_block m) [i + 1 ..< n])"
      using Suc.hyps by auto
    then show ?thesis using True Suc.prems nz w by (simp add: upt_conv_Cons [of i])
  next
    case False
    then have "n = Suc i" using Suc.prems by simp
    then show ?thesis using w [of i] Suc.prems nz by (simp add: ptr_def)
  qed
qed simp

lemma install_ok:
  fixes s :: psys
  assumes m: "m = \<lparr> mp_static = st, mp_start_address = start, mp_size = sz, mp_block_size = bs, mp_block_list = start,
      mp_block_total_count = n, mp_block_free_count = n \<rparr>" and f: "pool_fits m" and n: "0 < n"
  shows "pool_ok mp (install_pool mp st start sz bs n s) (map (pool_block m) [0 ..< unat n]) []"
    "mempools (install_pool mp st start sz bs n s) mp = Some m"
proof -
  let ?w = "link_blocks start bs n (mp_words s)"
  have tot: "unat (mp_block_total_count m) = unat n" by (simp add: m)
  have pb: "start + of_nat i * (bs + 4) = pool_block m i" "start + (of_nat i + 1) * (bs + 4) = pool_block m (i + 1)" for i
    by (simp_all add: pool_block_def m add.commute)
  have un: "0 < unat n" using n by (simp add: word_less_nat_alt)
  then have "of_nat (unat n - 1) = n - 1" by (simp add: of_nat_diff)
  then have last: "start + (n - 1) * (bs + 4) = pool_block m (unat n - 1)" by (simp add: pool_block_def m)
  have w: "?w (pool_block m i) = (if i + 1 < unat n then pool_block m (i + 1) else 0)" if i: "i < unat n" for i
  proof (cases "i + 1 < unat n")
    case True
    then have "pool_block m i \<noteq> pool_block m (unat n - 1)" using pool_block_inj [OF f, of i "unat n - 1"] i unfolding tot by force
    then show ?thesis using True fold_links [OF f _ i, of "\<lambda>i. pool_block m (i + 1)"] unfolding link_blocks_def pb last by (simp add: tot)
  next
    case False
    then have "i = unat n - 1" using i by simp
    then show ?thesis using un unfolding link_blocks_def pb last by simp
  qed
  have b0: "pool_block m 0 = start" by (simp add: pool_block_def m)
  have c: "chain (\<lambda>a. ptr (?w a)) (ptr start) (map (pool_block m) [0 ..< unat n])"
    using chain_from [OF f tot [symmetric], of ?w 0] w un by (simp add: b0)
  have "inj_on (pool_block m) (set [0 ..< unat n])" by (intro inj_onI pool_block_inj [OF f]) (simp_all add: tot)
  then have d: "distinct (map (pool_block m) [0 ..< unat n])" by (simp add: distinct_map)
  have bl: "pool_block m ` {0 ..< unat n} = pool_blocks m" by (simp add: pool_blocks_def tot lessThan_atLeast0)
  have i: "mempools (install_pool mp st start sz bs n s) = (mempools s)(mp := Some m)"
    "mp_words (install_pool mp st start sz bs n s) = ?w"
    by (simp_all add: install_pool_def Let_def m)
  show "mempools (install_pool mp st start sz bs n s) mp = Some m" by (simp add: i)
  have "mp_block_list m = start" "mp_block_free_count m = n" by (simp_all add: m)
  then show "pool_ok mp (install_pool mp st start sz bs n s) (map (pool_block m) [0 ..< unat n]) []"
    using f c d bl by (simp add: pool_ok_def i)
qed

lemma mp_init_ok:
  assumes inv: "sys_inv s" "lock_room s" and new: "mempools s mp = None" and start: "start \<noteq> 0" "unat start + unat sz < 2 ^ 32"
    and bs: "0 < block_size" "unat block_size + 7 < 2 ^ 32"
    and room: "4 * ((unat block_size + 3) div 4) + 4 \<le> 4 * (unat sz div 4)"
  shows "\<exists>s' m. rt_mp_init mp start sz block_size s = Inr (s', RT_EOK) \<and> mempools s' mp = Some m \<and>
    mp_start_address m = start \<and> unat (mp_block_size m) = 4 * ((unat block_size + 3) div 4) \<and>
    unat (mp_block_total_count m) = (4 * (unat sz div 4)) div (unat (mp_block_size m) + 4) \<and>
    pool_ok mp s' (map (pool_block m) [0 ..< unat (mp_block_total_count m)]) []"
proof -
  define al where "al = rt_align_down sz 4"
  define b where "b = rt_align block_size 4"
  define n where "n = al div (b + 4)"
  have u: "unat al = 4 * (unat sz div 4)" "unat b = 4 * ((unat block_size + 3) div 4)"
    using unat_align_4 [of block_size] unat_align_down_4 [of sz] bs(2) by (simp_all add: al_def b_def)
  have b4: "unat (b + 4) = unat b + 4" using u(2) bs(2) by (simp add: unat_word_ariths)
  have un: "unat n = unat al div (unat b + 4)" by (simp add: n_def unat_div b4)
  then have np: "0 < n" using room u by (simp add: word_less_nat_alt div_greater_zero_iff)
  have "unat n * (unat b + 4) \<le> unat al" unfolding un by (rule div_times_less_eq_dividend)
  also have "\<dots> \<le> unat sz" by (simp add: u)
  finally have fit: "unat start + unat n * (unat b + 4) < 2 ^ 32" using start(2) by simp
  obtain s1 where s1: "rt_object_init_walk s = Inr s1" "s1 = s \<or> frame s s1"
    by (rule walk_ok [of s]) (use inv that in \<open>auto simp: sys_inv_def\<close>)
  define m where "m = \<lparr> mp_static = True, mp_start_address = start, mp_size = al, mp_block_size = b, mp_block_list = start,
      mp_block_total_count = n, mp_block_free_count = n \<rparr>"
  have "pool_fits m" using start(1) fit by (simp add: pool_fits_def m_def)
  note i = install_ok [OF m_def this np, of mp s1]
  have "sz \<noteq> 0" using room by auto
  then have "rt_mp_init mp start sz block_size s = Inr (install_pool mp True start al b n s1, RT_EOK)"
    using start(1) bs(1) new s1(1) by (simp add: rt_mp_init_def Let_def word_gt_0 al_def [symmetric] b_def [symmetric] n_def)
  then show ?thesis using i u un by (auto simp: m_def)
qed

section \<open>Properties\<close>

text \<open>\<^verbatim>\<open>rt_mp_init\<close> divides its memory into as many blocks of the aligned size, each with a word in front, as
  fit; all of them are free, linked in the order of their addresses, and lie inside the memory.\<close>

theorem rt_mp_init_divides_memory:
  assumes "sys_inv s" "lock_room s" and "mempools s mp = None" and "start \<noteq> 0" "unat start + unat sz < 2 ^ 32"
    and "0 < block_size" "unat block_size + 7 < 2 ^ 32" and "4 * ((unat block_size + 3) div 4) + 4 \<le> 4 * (unat sz div 4)"
  shows "\<exists>s' m. rt_mp_init mp start sz block_size s = Inr (s', RT_EOK) \<and> mempools s' mp = Some m \<and>
    unat (mp_block_size m) = 4 * ((unat block_size + 3) div 4) \<and>
    unat (mp_block_total_count m) = (4 * (unat sz div 4)) div (unat (mp_block_size m) + 4) \<and>
    pool_ok mp s' (map (pool_block m) [0 ..< unat (mp_block_total_count m)]) [] \<and>
    (\<forall>b \<in> pool_blocks m. unat start \<le> unat b \<and> unat b + 4 + unat (mp_block_size m) \<le> unat start + unat sz)"
proof -
  obtain s' m where r: "rt_mp_init mp start sz block_size s = Inr (s', RT_EOK)" "mempools s' mp = Some m"
      "mp_start_address m = start" "unat (mp_block_size m) = 4 * ((unat block_size + 3) div 4)"
      "unat (mp_block_total_count m) = (4 * (unat sz div 4)) div (unat (mp_block_size m) + 4)"
      "pool_ok mp s' (map (pool_block m) [0 ..< unat (mp_block_total_count m)]) []"
    using mp_init_ok [OF assms] by blast
  have f: "pool_fits m" by (rule pool_okD [OF r(6)]) (use r(2) in simp)
  have "unat start \<le> unat b \<and> unat b + 4 + unat (mp_block_size m) \<le> unat start + unat sz" if bm: "b \<in> pool_blocks m" for b
  proof -
    obtain k where k: "b = pool_block m k" "k < unat (mp_block_total_count m)" using bm by (auto simp: pool_blocks_def)
    let ?B = "unat (mp_block_size m) + 4"
    have "(k + 1) * ?B \<le> unat (mp_block_total_count m) * ?B" using k(2) by (intro mult_le_mono1) simp
    also have "\<dots> \<le> 4 * (unat sz div 4)" unfolding r(5) by (rule div_times_less_eq_dividend)
    also have "\<dots> \<le> unat sz" by simp
    finally show ?thesis using unat_pool_block(1) [OF f k(2)] by (simp add: k(1) r(3))
  qed
  then show ?thesis using r(1,2,4-6) by blast
qed

text \<open>\<^verbatim>\<open>rt_mp_alloc\<close> takes the first free block of a pool: no block that is out is handed out again, and its bytes
  overlap with none of theirs. Without a free block a call that does not wait returns \<^verbatim>\<open>RT_NULL\<close> and leaves the
  pool as it is.\<close>

theorem rt_mp_alloc_takes_free_block:
  assumes "pool_ok mp s fs us" and "sys_inv s"
  shows "case fs of
      [] \<Rightarrow> \<exists>s'. rt_mp_alloc mp 0 s = Inr (s', Mp_block 0) \<and> pool_ok mp s' [] us \<and> sys_inv s'
    | b # fs' \<Rightarrow> \<exists>s' m. rt_mp_alloc mp time s = Inr (s', Mp_block (b + 4)) \<and> pool_ok mp s' fs' (b # us) \<and>
        mempools s mp = Some m \<and> (\<forall>u \<in> set us. apart (b + 4, mp_block_size m) (u + 4, mp_block_size m)) \<and>
        threads s' = threads s \<and> queues s' = queues s"
proof (cases fs)
  case Nil
  then show ?thesis using empty_ok [of mp s us] assms by simp
next
  case (Cons b fs')
  then show ?thesis using mp_take_ok [of mp s b fs' us time] assms(1) by auto
qed

text \<open>C25: \<^verbatim>\<open>rt_mp_free\<close> puts a block back at the head of the free list of its pool. A thread that waits for a block
  becomes runnable, and when it runs next its \<^verbatim>\<open>rt_mp_alloc\<close> returns that block; no other thread is woken.\<close>

theorem rt_mp_free_serves_waiter:
  assumes "kinv s" and "pool_ok mp s fs us" and "b \<in> set us"
  shows "\<exists>s'. rt_mp_free (b + 4) s = Inr s' \<and> pool_ok mp s' (b # fs) (remove1 b us) \<and> kinv s' \<and>
    (case queues s (mp_waiting mp) of
       [] \<Rightarrow> threads s' = threads s \<and> queues s' = queues s
     | w # ws \<Rightarrow> runnable s' w \<and> queues s' (mp_waiting mp) = ws \<and> (\<forall>t. t \<noteq> w \<longrightarrow> kept_at s s' t) \<and>
         (\<exists>s''. rt_mp_alloc_return mp time start w s' = Inr (s'', Mp_block (b + 4))))"
proof -
  obtain s' where s': "rt_mp_free (b + 4) s = Inr s'" "pool_ok mp s' (b # fs) (remove1 b us)" "kinv s'"
      "case queues s (mp_waiting mp) of [] \<Rightarrow> threads s' = threads s \<and> queues s' = queues s
       | w # ws \<Rightarrow> woken_with RT_EOK s' w \<and> queues s' (mp_waiting mp) = ws \<and> (\<forall>t. t \<noteq> w \<longrightarrow> kept_at s s' t)"
    using mp_free_ok [OF assms(2,3,1)] by blast
  have "\<exists>s''. rt_mp_alloc_return mp time start w s' = Inr (s'', Mp_block (b + 4))" if "woken_with RT_EOK s' w" for w
    using that mp_take_ok [OF s'(2), of "mp_time_left (rt_tick s') start time"]
    by (auto simp: woken_with_def rt_mp_alloc_return_def with_thread_def rt_tick_get_def)
  then show ?thesis using s' woken_with_runnable by (intro exI [of _ s']) (auto split: list.splits)
qed

section \<open>Witnesses\<close>

text \<open>The sample system of theory \<^verbatim>\<open>IpcSync\<close>, where thread 2 waits for object 1, without pools.\<close>

definition sample_psys :: psys where
  "sample_psys = isys.extend (sample_ipc Map.empty)
     \<lparr> mempools = (\<lambda>_. None), mp_words = (\<lambda>_. 0), sys_heap = sample_heap, sys_errno = 0 \<rparr>"

lemma sample_psys_fields [simp]:
  "threads sample_psys = threads (sample_ipc Map.empty)" "queues sample_psys = queues (sample_ipc Map.empty)"
  "current_thread sample_psys = Some 0" "timers sample_psys = timers (sample_ipc Map.empty)"
  "timer_list sample_psys = []" "rt_tick sample_psys = 100" "lock_nest sample_psys = 0"
  "ready_group sample_psys = ready_group (sample_ipc Map.empty)" "mempools sample_psys = (\<lambda>_. None)"
  by (simp_all add: sample_psys_def sample_ipc_def isys.extend_def)

lemma sample_psys_kinv: "kinv sample_psys"
proof -
  have k: "kinv (sample_ipc Map.empty)" by (rule sample_kinv_ipc)
  have "sys_inv sample_psys = sys_inv (sample_ipc Map.empty)"
    by (rule sys_inv_cong) (simp_all add: sample_ipc_def)
  then show ?thesis using k by (simp add: kinv_def timers_ok_def thread_timers_only_def)
qed

text \<open>The sample system with a pool of four blocks at address 1, for which thread 2 waits, and one block taken.\<close>

definition sample_mp :: mempool where
  "sample_mp = \<lparr> mp_static = True, mp_start_address = 0x20004000, mp_size = 68, mp_block_size = 12,
     mp_block_list = 0x20004000, mp_block_total_count = 4, mp_block_free_count = 4 \<rparr>"

definition sample_pool :: psys where
  "sample_pool = sample_psys\<lparr> mempools := (\<lambda>_. None)(1 := Some sample_mp),
     mp_words := link_blocks 0x20004000 12 4 (\<lambda>_. 0) \<rparr>"

lemma sample_blocks: "map (pool_block sample_mp) [0 ..< 4] = [0x20004000, 0x20004010, 0x20004020, 0x20004030]"
  by (simp add: upt_rec pool_block_def sample_mp_def)

lemma sample_pool_ok: "pool_ok 1 sample_pool [0x20004000, 0x20004010, 0x20004020, 0x20004030] []" "kinv sample_pool"
proof -
  have "pool_fits sample_mp" by (simp add: pool_fits_def sample_mp_def)
  from install_ok(1) [OF sample_mp_def this, of 1 sample_psys]
  have "pool_ok 1 (install_pool 1 True 0x20004000 68 12 4 sample_psys) [0x20004000, 0x20004010, 0x20004020, 0x20004030] []"
    using sample_blocks by simp
  moreover have "mempools sample_pool = mempools (install_pool 1 True 0x20004000 68 12 4 sample_psys)"
      "mp_words sample_pool = mp_words (install_pool 1 True 0x20004000 68 12 4 sample_psys)"
    by (simp_all add: sample_pool_def install_pool_def Let_def sample_mp_def) (simp add: sample_psys_def isys.extend_def)
  ultimately show "pool_ok 1 sample_pool [0x20004000, 0x20004010, 0x20004020, 0x20004030] []"
    using pool_ok_cong [of sample_pool "install_pool 1 True 0x20004000 68 12 4 sample_psys"] by simp
  have "sys_inv sample_pool = sys_inv sample_psys" by (rule sys_inv_cong) (simp_all add: sample_pool_def)
  moreover have "quiet sample_psys sample_pool" by (rule same_timers_quiet) (simp_all add: sample_pool_def)
  ultimately show "kinv sample_pool" using sample_psys_kinv kinv_quiet [OF sample_psys_kinv] by (simp add: kinv_def)
qed

theorem rt_mp_free_serves_waiter_witness:
  "\<exists>s s' s''. pool_ok 1 s [0x20004010, 0x20004020, 0x20004030] [0x20004000] \<and> rt_mp_free 0x20004004 s = Inr s' \<and>
     runnable s' 2 \<and> rt_mp_alloc_return 1 50 100 2 s' = Inr (s'', Mp_block 0x20004004)"
proof -
  obtain s where s: "pool_ok 1 s [0x20004010, 0x20004020, 0x20004030] [0x20004000]" "sys_inv s" "quiet sample_pool s"
      "queues s = queues sample_pool"
    using mp_take_ok [OF sample_pool_ok(1), of 0] sample_pool_ok(2) by (auto simp: kinv_def)
  have k: "kinv s" by (rule kinv_quiet [OF sample_pool_ok(2) s(2,3)])
  have q: "queues s (mp_waiting 1) = [2]" by (simp add: s(4) sample_pool_def mp_waiting_def sample_ipc_def)
  show ?thesis using rt_mp_free_serves_waiter [where time = 50 and start = 100 and b = "0x20004000", OF k s(1)] s(1) q by auto
qed

end
