(* ===== verification/KMem.thy ===== *)
theory KMem
  imports Prelude
begin

text \<open>
  The memory routines of \<^verbatim>\<open>src/kservice.c\<close> on a memory of bytes by address: fill, copy, move and
  compare. The first two work on words of four bytes where the addresses allow it; what is shown is that
  they agree with the plain definition of what they are for.
\<close>

type_synonym mem = "u32 \<Rightarrow> u8"

section \<open>Words in memory\<close>

text \<open>A \<^verbatim>\<open>long\<close> of the target: four bytes, the lowest first.\<close>

definition load32 :: "u32 \<Rightarrow> mem \<Rightarrow> u32" where
  "load32 a m = ucast (m a) OR push_bit 8 (ucast (m (a + 1))) OR push_bit 16 (ucast (m (a + 2))) OR push_bit 24 (ucast (m (a + 3)))"

definition store32 :: "u32 \<Rightarrow> u32 \<Rightarrow> mem \<Rightarrow> mem" where
  "store32 a w m = m(a := ucast w, a + 1 := ucast (drop_bit 8 w), a + 2 := ucast (drop_bit 16 w), a + 3 := ucast (drop_bit 24 w))"

section \<open>Filling\<close>

fun set_bytes :: "u8 \<Rightarrow> u32 \<Rightarrow> nat \<Rightarrow> mem \<Rightarrow> mem" where
  "set_bytes d a 0 m = m"
| "set_bytes d a (Suc n) m = set_bytes d (a + 1) n (m(a := d))"

fun set_words :: "u32 \<Rightarrow> u32 \<Rightarrow> nat \<Rightarrow> mem \<Rightarrow> u32 \<times> nat \<times> mem" where
  "set_words w a n m = (if n \<ge> 4 then set_words w (a + 4) (n - 4) (store32 a w m) else (a, n, m))"

declare set_words.simps [simp del]

fun set_quads :: "u32 \<Rightarrow> u32 \<Rightarrow> nat \<Rightarrow> mem \<Rightarrow> u32 \<times> nat \<times> mem" where
  "set_quads w a n m =
     (if n \<ge> 16 then set_quads w (a + 16) (n - 16) (store32 (a + 12) w (store32 (a + 8) w (store32 (a + 4) w (store32 a w m))))
      else (a, n, m))"

declare set_quads.simps [simp del]

definition rt_memset :: "u32 \<Rightarrow> u32 \<Rightarrow> u32 \<Rightarrow> mem \<Rightarrow> mem" where
  "rt_memset s c count m =
     (let d = c AND 0xff in
      if \<not> count < 4 \<and> s AND 3 = 0
      then let b = push_bit 8 d OR d; b = b OR push_bit 16 b;
               (a, n, m) = set_quads b s (unat count) m; (a, n, m) = set_words b a n m in set_bytes (ucast d) a n m
      else set_bytes (ucast d) s (unat count) m)"

section \<open>Copying\<close>

fun copy_bytes :: "u32 \<Rightarrow> u32 \<Rightarrow> nat \<Rightarrow> mem \<Rightarrow> mem" where
  "copy_bytes d s 0 m = m"
| "copy_bytes d s (Suc n) m = copy_bytes (d + 1) (s + 1) n (m(d := m s))"

definition copy_word :: "u32 \<Rightarrow> u32 \<Rightarrow> mem \<Rightarrow> mem" where
  "copy_word d s m = store32 d (load32 s m) m"

fun copy_words :: "u32 \<Rightarrow> u32 \<Rightarrow> nat \<Rightarrow> mem \<Rightarrow> u32 \<times> u32 \<times> nat \<times> mem" where
  "copy_words d s n m = (if n \<ge> 4 then copy_words (d + 4) (s + 4) (n - 4) (copy_word d s m) else (d, s, n, m))"

declare copy_words.simps [simp del]

fun copy_quads :: "u32 \<Rightarrow> u32 \<Rightarrow> nat \<Rightarrow> mem \<Rightarrow> u32 \<times> u32 \<times> nat \<times> mem" where
  "copy_quads d s n m =
     (if n \<ge> 16 then copy_quads (d + 16) (s + 16) (n - 16)
        (copy_word (d + 12) (s + 12) (copy_word (d + 8) (s + 8) (copy_word (d + 4) (s + 4) (copy_word d s m))))
      else (d, s, n, m))"

declare copy_quads.simps [simp del]

definition rt_memcpy :: "u32 \<Rightarrow> u32 \<Rightarrow> u32 \<Rightarrow> mem \<Rightarrow> mem" where
  "rt_memcpy dst src count m =
     (if \<not> count < 16 \<and> (src AND 3) OR (dst AND 3) = 0
      then let (d, s, n, m) = copy_quads dst src (unat count) m; (d, s, n, m) = copy_words d s n m in copy_bytes d s n m
      else copy_bytes dst src (unat count) m)"

fun copy_bytes_down :: "u32 \<Rightarrow> u32 \<Rightarrow> nat \<Rightarrow> mem \<Rightarrow> mem" where
  "copy_bytes_down d s 0 m = m"
| "copy_bytes_down d s (Suc n) m = copy_bytes_down (d - 1) (s - 1) n (m(d - 1 := m (s - 1)))"

definition rt_memmove :: "u32 \<Rightarrow> u32 \<Rightarrow> u32 \<Rightarrow> mem \<Rightarrow> mem" where
  "rt_memmove dst src n m =
     (if src < dst \<and> dst < src + n then copy_bytes_down (dst + n) (src + n) (unat n) m
      else copy_bytes dst src (unat n) m)"

section \<open>Comparing\<close>

fun memcmp_loop :: "u32 \<Rightarrow> u32 \<Rightarrow> nat \<Rightarrow> mem \<Rightarrow> int" where
  "memcmp_loop a b 0 m = 0"
| "memcmp_loop a b (Suc n) m = (let res = uint (m a) - uint (m b) in if res \<noteq> 0 then res else memcmp_loop (a + 1) (b + 1) n m)"

definition rt_memcmp :: "u32 \<Rightarrow> u32 \<Rightarrow> u32 \<Rightarrow> mem \<Rightarrow> int" where
  "rt_memcmp cs ct count m = memcmp_loop cs ct (unat count) m"

section \<open>What they are for\<close>

text \<open>\<open>n\<close> bytes from \<open>s\<close> on, with addresses modulo \<open>2 ^ 32\<close>.\<close>

definition filled :: "u32 \<Rightarrow> u8 \<Rightarrow> nat \<Rightarrow> mem \<Rightarrow> mem" where
  "filled s d n m = (\<lambda>a. if unat (a - s) < n then d else m a)"

definition copied :: "u32 \<Rightarrow> u32 \<Rightarrow> nat \<Rightarrow> mem \<Rightarrow> mem" where
  "copied d s n m = (\<lambda>a. if unat (a - d) < n then m (s + (a - d)) else m a)"

lemma unat_minus_of_nat:
  assumes "k < 2 ^ 32"
  shows "unat (x - of_nat k :: u32) = (if k \<le> unat x then unat x - k else unat x + 2 ^ 32 - k)"
proof -
  have k: "unat (of_nat k :: u32) = k" using assms by (simp add: unat_of_nat)
  show ?thesis by (simp add: unat_sub_if' k)
qed

text \<open>A region is its first part and the rest.\<close>

lemma region_split:
  assumes "k + n \<le> 2 ^ 32" "k < 2 ^ 32"
  shows "unat (x :: u32) < k + n \<longleftrightarrow> unat x < k \<or> unat (x - of_nat k) < n"
  using assms unat_u32_less [of x] by (auto simp: unat_minus_of_nat)

lemma diff_swap: "a - (s + k) = a - s - (k :: u32)"
  by simp

lemma filled_add:
  assumes "k + n \<le> 2 ^ 32" "k < 2 ^ 32"
  shows "filled (s + of_nat k) d n (filled s d k m) = filled s d (k + n) m"
  unfolding filled_def diff_swap by (rule ext) (use region_split [OF assms] in auto)

lemma filled_0 [simp]: "filled s d 0 m = m"
  by (simp add: filled_def)

lemma filled_1: "filled s d 1 m = m(s := d)"
  by (rule ext) (simp add: filled_def unat_eq_0)

lemma set_bytes_filled: "n < 2 ^ 32 \<Longrightarrow> set_bytes d s n m = filled s d n m"
proof (induction n arbitrary: s m)
  case (Suc n)
  then have "set_bytes d s (Suc n) m = filled (s + of_nat 1) d n (filled s d 1 m)" by (simp add: filled_1 del: One_nat_def)
  also have "\<dots> = filled s d (1 + n) m" by (rule filled_add) (use Suc.prems in auto)
  finally show ?case by simp
qed simp

lemma store32_filled:
  assumes "w = ucast d OR push_bit 8 (ucast d) OR push_bit 16 (ucast d) OR push_bit 24 (ucast d)"
  shows "store32 a w m = filled a d 4 m"
proof -
  have b: "ucast w = d" "ucast (drop_bit 8 w) = d" "ucast (drop_bit 16 w) = d" "ucast (drop_bit 24 w) = d"
    unfolding assms by (rule bit_word_eqI; auto simp: bit_simps dest: bit_imp_le_length)+
  have "filled (a + 1) d 1 (filled a d 1 m) = filled a d 2 m" "filled (a + 2) d 1 (filled a d 2 m) = filled a d 3 m"
      "filled (a + 3) d 1 (filled a d 3 m) = filled a d 4 m"
    using filled_add [of 1 1 a d m] filled_add [of 2 1 a d m] filled_add [of 3 1 a d m] by (simp_all del: One_nat_def)
  then have "filled a d 4 m = filled (a + 3) d 1 (filled (a + 2) d 1 (filled (a + 1) d 1 (filled a d 1 m)))" by (simp only:)
  then show ?thesis unfolding filled_1 by (simp add: store32_def b)
qed

definition spread :: "u8 \<Rightarrow> u32" where
  "spread d = ucast d OR push_bit 8 (ucast d) OR push_bit 16 (ucast d) OR push_bit 24 (ucast d)"

lemma store32_spread: "store32 a (spread d) m = filled a d 4 m"
  by (rule store32_filled) (simp add: spread_def)

lemma set_words_filled:
  "n < 2 ^ 32 \<Longrightarrow> set_words (spread d) a n m = (a', n', m') \<Longrightarrow>
   n' < 4 \<and> n' \<le> n \<and> a' = a + of_nat (n - n') \<and> m' = filled a d (n - n') m"
proof (induction "spread d" a n m rule: set_words.induct)
  case (1 a n m)
  show ?case
  proof (cases "n \<ge> 4")
    case False
    then show ?thesis using "1.prems" by (subst (asm) set_words.simps) auto
  next
    case True
    then have "set_words (spread d) (a + 4) (n - 4) (store32 a (spread d) m) = (a', n', m')"
      using "1.prems" by (subst (asm) set_words.simps) simp
    from "1.hyps" [OF True _ this] have r: "n' < 4" "n' \<le> n - 4" "a' = a + 4 + of_nat (n - 4 - n')"
        "m' = filled (a + of_nat 4) d (n - 4 - n') (filled a d 4 m)" using "1.prems"(1) by (auto simp: store32_spread)
    have e: "4 + (n - 4 - n') = n - n'" using r(2) True by simp
    have "m' = filled a d (n - n') m" unfolding r(4) e [symmetric] by (rule filled_add) (use "1.prems"(1) in auto)
    moreover have "a' = a + of_nat (n - n')" unfolding r(3) e [symmetric] by simp
    ultimately show ?thesis using r(1,2) by simp
  qed
qed

lemma set_quads_filled:
  "n < 2 ^ 32 \<Longrightarrow> set_quads (spread d) a n m = (a', n', m') \<Longrightarrow>
   n' \<le> n \<and> a' = a + of_nat (n - n') \<and> m' = filled a d (n - n') m"
proof (induction "spread d" a n m rule: set_quads.induct)
  case (1 a n m)
  show ?case
  proof (cases "n \<ge> 16")
    case False
    then show ?thesis using "1.prems" by (subst (asm) set_quads.simps) auto
  next
    case True
    let ?m = "store32 (a + 12) (spread d) (store32 (a + 8) (spread d) (store32 (a + 4) (spread d) (store32 a (spread d) m)))"
    have m: "?m = filled a d 16 m"
    proof -
      have "?m = filled (a + 12) d 4 (filled (a + 8) d 4 (filled (a + 4) d 4 (filled a d 4 m)))"
        by (simp add: store32_spread)
      then show ?thesis
        using filled_add [of 4 4 a d m] filled_add [of 8 4 a d m] filled_add [of 12 4 a d m] by simp
    qed
    have "set_quads (spread d) (a + 16) (n - 16) ?m = (a', n', m')"
      using "1.prems" True by (subst (asm) set_quads.simps) simp
    from "1.hyps" [OF True _ this] have r: "n' \<le> n - 16" "a' = a + 16 + of_nat (n - 16 - n')"
        "m' = filled (a + of_nat 16) d (n - 16 - n') (filled a d 16 m)" using "1.prems"(1) by (auto simp: m)
    have e: "16 + (n - 16 - n') = n - n'" using r(1) True by simp
    have "m' = filled a d (n - n') m" unfolding r(3) e [symmetric] by (rule filled_add) (use "1.prems"(1) in auto)
    moreover have "a' = a + of_nat (n - n')" unfolding r(2) e [symmetric] by simp
    ultimately show ?thesis using r(1) by simp
  qed
qed

lemma memset_filled: "rt_memset s c count m = filled s (ucast c) (unat count) m"
proof -
  let ?n = "unat count" and ?d = "ucast c :: u8"
  have n: "?n < 2 ^ 32" using unat_u32_less [of count] by simp
  have c8: "c AND 0xff = take_bit 8 c" by (simp add: take_bit_eq_mask mask_eq_exp_minus_1)
  have d: "ucast (c AND 0xff) = ?d" unfolding c8 by (rule bit_word_eqI) (auto simp: bit_simps)
  have b: "(let b = push_bit 8 (c AND 0xff) OR (c AND 0xff) in b OR push_bit 16 b) = spread ?d"
    unfolding spread_def Let_def c8
    by (rule bit_word_eqI) (auto simp: bit_simps)
  have run: "rt_memset s c count m = (if \<not> count < 4 \<and> s AND 3 = 0
      then case set_quads (spread ?d) s ?n m of (a, n, m) \<Rightarrow> case set_words (spread ?d) a n m of (a, n, m) \<Rightarrow> set_bytes ?d a n m
      else set_bytes ?d s ?n m)"
    unfolding rt_memset_def Let_def d b [unfolded Let_def] by (rule refl)
  show ?thesis
  proof (cases "\<not> count < 4 \<and> s AND 3 = 0")
    case False
    then have "rt_memset s c count m = set_bytes ?d s ?n m" unfolding run by (rule if_not_P)
    then show ?thesis using set_bytes_filled [OF n] by simp
  next
    case True
    obtain a1 n1 m1 where q: "set_quads (spread ?d) s ?n m = (a1, n1, m1)" by (metis prod_cases3)
    have q1: "n1 \<le> ?n" "a1 = s + of_nat (?n - n1)" "m1 = filled s ?d (?n - n1) m"
      using set_quads_filled [OF n q] by blast+
    obtain a2 n2 m2 where w: "set_words (spread ?d) a1 n1 m1 = (a2, n2, m2)" by (metis prod_cases3)
    have n1: "n1 < 2 ^ 32" using q1(1) n by (rule le_less_trans)
    have w1: "n2 < 4" "n2 \<le> n1" "a2 = a1 + of_nat (n1 - n2)" "m2 = filled a1 ?d (n1 - n2) m1"
      using set_words_filled [OF n1 w] by blast+
    have n2: "n2 < 2 ^ 32" using w1(2) n1 by (rule le_less_trans)
    have e: "(?n - n1) + (n1 - n2) = ?n - n2" "?n - n2 + n2 = ?n" using q1(1) w1(2) by linarith+
    have le: "(?n - n1) + (n1 - n2) \<le> 2 ^ 32" "?n - n2 + n2 \<le> 2 ^ 32" unfolding e using n by linarith+
    have lt: "?n - n1 < 2 ^ 32" "?n - n2 < 2 ^ 32" using n by linarith+
    have m2: "m2 = filled s ?d (?n - n2) m" unfolding w1(4) q1(2,3) filled_add [OF le(1) lt(1)] e(1) ..
    have a2: "a2 = s + of_nat (?n - n2)" unfolding w1(3) q1(2) e(1) [symmetric] of_nat_add by (rule add.assoc)
    have "rt_memset s c count m = set_bytes ?d a2 n2 m2"
      unfolding run if_P [OF True] q prod.case w ..
    also have "\<dots> = filled a2 ?d n2 m2" by (rule set_bytes_filled [OF n2])
    also have "\<dots> = filled s ?d ?n m" unfolding a2 m2 filled_add [OF le(2) lt(2)] e(2) ..
    finally show ?thesis .
  qed
qed

section \<open>Copies\<close>

text \<open>A copy in ascending order is right if no byte is overwritten before it is read.\<close>

definition forward :: "u32 \<Rightarrow> u32 \<Rightarrow> nat \<Rightarrow> bool" where
  "forward d s n \<longleftrightarrow> d = s \<or> n \<le> unat (d - s)"

lemma forward_shift: "forward d s (k + n) \<Longrightarrow> forward (d + x) (s + x) n"
  by (auto simp: forward_def)

lemma forward_le: "forward d s n \<Longrightarrow> k \<le> n \<Longrightarrow> forward d s k"
  by (auto simp: forward_def)

lemma copied_0 [simp]: "copied d s 0 m = m"
  by (simp add: copied_def)

lemma copied_1: "copied d s 1 m = m(d := m s)"
  by (rule ext) (simp add: copied_def unat_eq_0)

lemma copied_add:
  assumes f: "forward d s (k + n)" and le: "k + n \<le> 2 ^ 32" "k < 2 ^ 32"
  shows "copied (d + of_nat k) (s + of_nat k) n (copied d s k m) = copied d s (k + n) m"
proof (rule ext)
  fix a
  define x where "x = a - d"
  have k: "unat (of_nat k :: u32) = k" using le(2) by (simp add: unat_of_nat)
  have e: "a - (d + of_nat k) = x - of_nat k" "s + of_nat k + (x - of_nat k) = s + x" by (simp_all add: x_def)
  show "copied (d + of_nat k) (s + of_nat k) n (copied d s k m) a = copied d s (k + n) m a"
  proof (cases "unat (x - of_nat k) < n")
    case True
    then have r: "unat x < k + n" using region_split [OF le] by blast
    have kx: "k \<le> unat x" using True unat_minus_of_nat [OF le(2), of x] le(1) by (auto split: if_splits)
    have "copied d s k m (s + x) = m (s + x)"
    proof (cases "d = s")
      case False
      then have dn: "k + n \<le> unat (d - s)" using f by (simp add: forward_def)
      have y: "s + x - d = x - (d - s)" by simp
      have "unat (x - (d - s)) = unat x + 4294967296 - unat (d - s)" using r dn by (simp add: unat_sub_if')
      then have "\<not> unat (x - (d - s)) < k" using kx unat_u32_less [of "d - s"] by linarith
      then show ?thesis unfolding copied_def y by simp
    qed (simp add: copied_def)
    then show ?thesis using True r unfolding copied_def [of "d + of_nat k"] e by (simp add: copied_def [of d s "k + n"] x_def)
  next
    case False
    then have "unat x < k + n \<longleftrightarrow> unat x < k" using region_split [OF le] by blast
    then show ?thesis using False unfolding copied_def [of "d + of_nat k"] e by (simp add: copied_def x_def)
  qed
qed

lemma copy_bytes_copied: "forward d s n \<Longrightarrow> n < 2 ^ 32 \<Longrightarrow> copy_bytes d s n m = copied d s n m"
proof (induction n arbitrary: d s m)
  case (Suc n)
  have f: "forward d s (1 + n)" using Suc.prems(1) by simp
  have "copy_bytes d s (Suc n) m = copied (d + of_nat 1) (s + of_nat 1) n (copied d s 1 m)"
    using Suc.IH [OF forward_shift [OF f, of 1]] Suc.prems(2) by (simp add: copied_1 del: One_nat_def)
  also have "\<dots> = copied d s (1 + n) m" by (rule copied_add [OF f]) (use Suc.prems in auto)
  finally show ?case by simp
qed simp

lemma u8_high: "8 \<le> n \<Longrightarrow> \<not> bit (x :: u8) n"
  by (auto dest: bit_imp_le_length)

lemma four_bytes_0: "ucast ((ucast (a :: u8) :: u32) OR push_bit 8 (ucast (b :: u8)) OR push_bit 16 (ucast (c :: u8)) OR push_bit 24 (ucast (d :: u8))) = a"
  by (rule bit_word_eqI) (simp add: bit_or_iff bit_push_bit_iff bit_unsigned_iff bit_drop_bit_eq u8_high)

lemma four_bytes_1: "ucast (drop_bit 8 ((ucast (a :: u8) :: u32) OR push_bit 8 (ucast (b :: u8)) OR push_bit 16 (ucast (c :: u8)) OR push_bit 24 (ucast (d :: u8)))) = b"
  by (rule bit_word_eqI) (simp add: bit_or_iff bit_push_bit_iff bit_unsigned_iff bit_drop_bit_eq u8_high)

lemma four_bytes_2: "ucast (drop_bit 16 ((ucast (a :: u8) :: u32) OR push_bit 8 (ucast (b :: u8)) OR push_bit 16 (ucast (c :: u8)) OR push_bit 24 (ucast (d :: u8)))) = c"
  by (rule bit_word_eqI) (simp add: bit_or_iff bit_push_bit_iff bit_unsigned_iff bit_drop_bit_eq u8_high)

lemma four_bytes_3: "ucast (drop_bit 24 ((ucast (a :: u8) :: u32) OR push_bit 8 (ucast (b :: u8)) OR push_bit 16 (ucast (c :: u8)) OR push_bit 24 (ucast (d :: u8)))) = d"
  by (rule bit_word_eqI) (simp add: bit_or_iff bit_push_bit_iff bit_unsigned_iff bit_drop_bit_eq u8_high)

lemma load32_bytes:
  "ucast (load32 s m) = m s" "ucast (drop_bit 8 (load32 s m)) = m (s + 1)"
  "ucast (drop_bit 16 (load32 s m)) = m (s + 2)" "ucast (drop_bit 24 (load32 s m)) = m (s + 3)"
  unfolding load32_def by (rule four_bytes_0 four_bytes_1 four_bytes_2 four_bytes_3)+

lemma below_4: "unat (x :: u32) < 4 \<longleftrightarrow> x = 0 \<or> x = 1 \<or> x = 2 \<or> x = 3"
proof
  assume "unat x < 4"
  then have "unat x = 0 \<or> unat x = 1 \<or> unat x = 2 \<or> unat x = 3" by linarith
  moreover have "x = of_nat k" if "unat x = k" for k using that by auto
  ultimately have "x = of_nat 0 \<or> x = of_nat 1 \<or> x = of_nat 2 \<or> x = of_nat 3" by blast
  then show "x = 0 \<or> x = 1 \<or> x = 2 \<or> x = 3" by simp
qed auto

lemma copy_word_copied: "copy_word d s m = copied d s 4 m"
proof (rule ext)
  fix a
  define x where "x = a - d"
  have a: "a = d + x" by (simp add: x_def)
  show "copy_word d s m a = copied d s 4 m a"
    unfolding copy_word_def store32_def load32_bytes copied_def a by (auto simp: below_4)
qed

lemma copy_words_copied:
  "n < 2 ^ 32 \<Longrightarrow> forward d s n \<Longrightarrow> copy_words d s n m = (d', s', n', m') \<Longrightarrow>
   n' \<le> n \<and> d' = d + of_nat (n - n') \<and> s' = s + of_nat (n - n') \<and> m' = copied d s (n - n') m"
proof (induction d s n m rule: copy_words.induct)
  case (1 d s n m)
  show ?case
  proof (cases "n \<ge> 4")
    case False
    then show ?thesis using "1.prems" by (subst (asm) copy_words.simps) auto
  next
    case True
    have n4: "4 + (n - 4) = n" using True by simp
    have f: "forward (d + 4) (s + 4) (n - 4)" by (rule forward_shift [of d s 4]) (use "1.prems"(2) n4 in simp)
    have "copy_words (d + 4) (s + 4) (n - 4) (copy_word d s m) = (d', s', n', m')"
      using "1.prems"(3) True by (subst (asm) copy_words.simps) simp
    from "1.IH" [OF True _ f this] have r: "n' \<le> n - 4" "d' = d + 4 + of_nat (n - 4 - n')" "s' = s + 4 + of_nat (n - 4 - n')"
        "m' = copied (d + of_nat 4) (s + of_nat 4) (n - 4 - n') (copied d s 4 m)"
      using "1.prems"(1) by (auto simp: copy_word_copied)
    have e: "4 + (n - 4 - n') = n - n'" using r(1) True by simp
    have "m' = copied d s (n - n') m" unfolding r(4) e [symmetric]
      by (rule copied_add) (use "1.prems"(1) e in \<open>auto intro: forward_le [OF "1.prems"(2)]\<close>)
    moreover have "d' = d + of_nat (n - n')" "s' = s + of_nat (n - n')" unfolding r(2,3) e [symmetric] by simp_all
    ultimately show ?thesis using r(1) by simp
  qed
qed

lemma copy_words_step: "4 \<le> n \<Longrightarrow> copy_words d s n m = copy_words (d + 4) (s + 4) (n - 4) (copy_word d s m)"
  by (subst copy_words.simps) simp

text \<open>Four words are four steps of the loop over words.\<close>

lemma copy_quads_words:
  "copy_quads d s n m = (d', s', n', m') \<Longrightarrow> copy_words d s n m = copy_words d' s' n' m' \<and> n' \<le> n"
proof (induction d s n m rule: copy_quads.induct)
  case (1 d s n m)
  show ?case
  proof (cases "n \<ge> 16")
    case False
    then show ?thesis using "1.prems" by (subst (asm) copy_quads.simps) auto
  next
    case True
    let ?m = "copy_word (d + 12) (s + 12) (copy_word (d + 8) (s + 8) (copy_word (d + 4) (s + 4) (copy_word d s m)))"
    have "copy_words d s n m = copy_words (d + 4) (s + 4) (n - 4) (copy_word d s m)"
      by (rule copy_words_step) (use True in simp)
    also have "\<dots> = copy_words (d + 8) (s + 8) (n - 8) (copy_word (d + 4) (s + 4) (copy_word d s m))"
      using True by (subst copy_words_step) (simp_all add: add.assoc)
    also have "\<dots> = copy_words (d + 12) (s + 12) (n - 12) (copy_word (d + 8) (s + 8) (copy_word (d + 4) (s + 4) (copy_word d s m)))"
      using True by (subst copy_words_step) (simp_all add: add.assoc)
    also have "\<dots> = copy_words (d + 16) (s + 16) (n - 16) ?m"
      using True by (subst copy_words_step) (simp_all add: add.assoc)
    finally have "copy_words d s n m = copy_words (d + 16) (s + 16) (n - 16) ?m" .
    moreover have "copy_quads (d + 16) (s + 16) (n - 16) ?m = (d', s', n', m')"
      using "1.prems" True by (subst (asm) copy_quads.simps) simp
    ultimately show ?thesis using "1.IH" [OF True] by auto
  qed
qed

lemma memcpy_copied:
  assumes f: "forward dst src (unat count)"
  shows "rt_memcpy dst src count m = copied dst src (unat count) m"
proof -
  let ?n = "unat count"
  have n: "?n < 2 ^ 32" using unat_u32_less [of count] by simp
  show ?thesis
  proof (cases "\<not> count < 16 \<and> (src AND 3) OR (dst AND 3) = 0")
    case False
    then have "rt_memcpy dst src count m = copy_bytes dst src ?n m" unfolding rt_memcpy_def by (rule if_not_P)
    then show ?thesis using copy_bytes_copied [OF f n] by simp
  next
    case True
    obtain d1 s1 n1 m1 where q: "copy_quads dst src ?n m = (d1, s1, n1, m1)" by (metis prod_cases4)
    obtain d2 s2 n2 m2 where w: "copy_words d1 s1 n1 m1 = (d2, s2, n2, m2)" by (metis prod_cases4)
    have "copy_words dst src ?n m = (d2, s2, n2, m2)" using copy_quads_words [OF q] w by simp
    from copy_words_copied [OF n f this]
    have r: "n2 \<le> ?n" "d2 = dst + of_nat (?n - n2)" "s2 = src + of_nat (?n - n2)" "m2 = copied dst src (?n - n2) m" by blast+
    have e: "?n - n2 + n2 = ?n" using r(1) by simp
    have le: "?n - n2 + n2 \<le> 2 ^ 32" "?n - n2 < 2 ^ 32" "n2 < 2 ^ 32" unfolding e using n r(1) by linarith+
    have f2: "forward dst src (?n - n2 + n2)" unfolding e by (rule f)
    have "rt_memcpy dst src count m = copy_bytes d2 s2 n2 m2"
      unfolding rt_memcpy_def if_P [OF True] Let_def q prod.case w ..
    also have "\<dots> = copied d2 s2 n2 m2"
      by (rule copy_bytes_copied [OF _ le(3)]) (unfold r(2,3), rule forward_shift [OF f2])
    also have "\<dots> = copied dst src ?n m" unfolding r(2-4) copied_add [OF f2 le(1,2)] e ..
    finally show ?thesis .
  qed
qed

lemma copy_down_copied:
  "s = d \<or> n \<le> unat (s - d) \<Longrightarrow> n < 2 ^ 32 \<Longrightarrow> copy_bytes_down (d + of_nat n) (s + of_nat n) n m = copied d s n m"
proof (induction n arbitrary: m)
  case (Suc n)
  let ?m = "m(d + of_nat n := m (s + of_nat n))"
  have "copy_bytes_down (d + of_nat (Suc n)) (s + of_nat (Suc n)) (Suc n) m = copied d s n ?m"
  proof -
    have c: "s = d \<or> n \<le> unat (s - d)" "n < 2 ^ 32" using Suc.prems by auto
    have i: "d + of_nat (Suc n) - 1 = d + of_nat n" "s + of_nat (Suc n) - 1 = s + of_nat n" by simp_all
    show ?thesis unfolding copy_bytes_down.simps i by (rule Suc.IH [OF c])
  qed
  also have "\<dots> = copied d s (Suc n) m"
  proof (rule ext)
    fix a
    define x where "x = a - d"
    have n: "unat (of_nat n :: u32) = n" using Suc.prems(2) by (simp add: unat_of_nat)
    have "a = d + of_nat n \<longleftrightarrow> x = of_nat n" by (metis x_def add_diff_cancel_left' diff_add_cancel add.commute)
    then have xn: "a = d + of_nat n \<longleftrightarrow> unat x = n" using n by (metis word_unat_eq_iff)
    have keep: "s + x \<noteq> d + of_nat n" if "unat x < n"
    proof
      assume "s + x = d + of_nat n"
      then have sd: "s - d = of_nat n - x" by (simp add: algebra_simps)
      then have "unat (s - d) = n - unat x" using that n by (simp add: unat_sub_if')
      moreover have "s \<noteq> d" using sd that n by auto
      ultimately show False using Suc.prems(1) by simp
    qed
    show "copied d s n ?m a = copied d s (Suc n) m a"
    proof (cases "unat x < n")
      case True
      then show ?thesis using keep by (simp add: copied_def x_def [symmetric])
    next
      case False
      then show ?thesis using xn by (auto simp: copied_def x_def [symmetric] less_Suc_eq)
    qed
  qed
  finally show ?case .
qed simp

lemma copied_at: "i < n \<Longrightarrow> n \<le> 2 ^ 32 \<Longrightarrow> copied d s n m (d + of_nat i) = m (s + of_nat i)"
  by (simp add: copied_def unat_of_nat)

lemma forward_apart:
  assumes src: "unat src + unat n < 2 ^ 32" and a: "\<not> (src < dst \<and> dst < src + n)"
  shows "forward dst src (unat n)"
proof (cases "src < dst")
  case True
  have "unat (src + n) = unat src + unat n" using src by (simp add: unat_word_ariths)
  then have "unat src + unat n \<le> unat dst" using a True by (simp add: word_less_nat_alt)
  then have "unat n \<le> unat dst - unat src" by linarith
  then show ?thesis using True by (simp add: forward_def unat_sub word_le_nat_alt word_less_nat_alt)
next
  case ge: False
  show ?thesis
  proof (cases "dst = src")
    case False
    then have lt: "unat dst < unat src" using ge by (simp add: word_less_nat_alt word_unat_eq_iff)
    then have "unat (dst - src) = unat dst + 4294967296 - unat src" by (simp add: unat_sub_if')
    moreover have "unat n \<le> unat dst + 4294967296 - unat src" using src lt by simp
    ultimately show ?thesis by (simp only: forward_def) simp
  qed (simp add: forward_def)
qed

lemma memmove_copied:
  assumes src: "unat src + unat n < 2 ^ 32" and dst: "unat dst + unat n < 2 ^ 32"
  shows "rt_memmove dst src n m = copied dst src (unat n) m"
proof -
  have n: "unat n < 2 ^ 32" using src by linarith
  have sn: "unat (src + n) = unat src + unat n" using src by (simp add: unat_word_ariths)
  show ?thesis
  proof (cases "src < dst \<and> dst < src + n")
    case True
    then have lt: "unat src < unat dst" "unat dst < unat src + unat n" by (simp_all add: word_less_nat_alt sn)
    then have "unat (src - dst) = unat src + 4294967296 - unat dst" by (simp add: unat_sub_if')
    then have "unat n \<le> unat (src - dst)" using dst lt by simp
    then have "copy_bytes_down (dst + of_nat (unat n)) (src + of_nat (unat n)) (unat n) m = copied dst src (unat n) m"
      using copy_down_copied [of src dst "unat n" m] n by blast
    then show ?thesis using True by (simp add: rt_memmove_def)
  next
    case False
    have "forward dst src (unat n)" by (rule forward_apart [OF src False])
    then have "copy_bytes dst src (unat n) m = copied dst src (unat n) m" by (rule copy_bytes_copied [OF _ n])
    then show ?thesis using False by (auto simp: rt_memmove_def)
  qed
qed

section \<open>Properties\<close>

text \<open>\<^verbatim>\<open>rt_memset\<close>, which stores four words at a time, then words, then bytes, sets exactly the \<open>count\<close> bytes
  from \<open>s\<close> on to the low byte of \<open>c\<close>, for every address and every count.\<close>

theorem rt_memset_fills: "rt_memset s c count m = filled s (ucast c) (unat count) m"
  by (rule memset_filled)

text \<open>\<^verbatim>\<open>rt_memmove\<close> copies regions that overlap in any way as if it read all bytes before it wrote one, and
  \<^verbatim>\<open>rt_memcpy\<close>, with its loops over words, does so where the destination does not start inside the source.
  No byte outside the destination changes.\<close>

theorem rt_memmove_rt_memcpy_copy:
  assumes "unat src + unat n < 2 ^ 32" and "unat dst + unat n < 2 ^ 32"
  shows "rt_memmove dst src n m = copied dst src (unat n) m \<and>
    (rt_memcpy dst src n m = copied dst src (unat n) m \<or> src < dst \<and> dst < src + n)"
proof -
  have "\<not> (src < dst \<and> dst < src + n) \<Longrightarrow> forward dst src (unat n)" by (rule forward_apart [OF assms(1)])
  then show ?thesis using memcpy_copied memmove_copied [OF assms] by blast
qed

end
