(* ===== verification/KString.thy ===== *)
theory KString
  imports KMem SmallMemOps "HOL-Library.Sublist"
begin

text \<open>
  The string routines of \<^verbatim>\<open>src/kservice.c\<close>. A string is an address in a memory of bytes; a loop that looks
  for the end of a string does not end where there is none, and is \<open>None\<close> then. \<^verbatim>\<open>char\<close> is unsigned on
  the target.
\<close>

section \<open>The routines\<close>

partial_function (option) strlen_loop :: "u32 \<Rightarrow> u32 \<Rightarrow> mem \<Rightarrow> u32 option" where
  "strlen_loop s sc m = (if m sc \<noteq> 0 then strlen_loop s (sc + 1) m else Some (sc - s))"

definition rt_strlen :: "u32 \<Rightarrow> mem \<Rightarrow> u32 option" where
  "rt_strlen s m = strlen_loop s s m"

text \<open>The loop counts \<^verbatim>\<open>sc - s\<close>. It reads the byte before it compares the count with the bound.\<close>

function strnlen_loop :: "u32 \<Rightarrow> nat \<Rightarrow> nat \<Rightarrow> mem \<Rightarrow> nat" where
  "strnlen_loop s k maxlen m = (if m (s + of_nat k) \<noteq> 0 \<and> k < maxlen then strnlen_loop s (k + 1) maxlen m else k)"
  by pat_completeness auto
termination by (relation "measure (\<lambda>(s, k, maxlen, m). maxlen - k)") auto

declare strnlen_loop.simps [simp del]

definition rt_strnlen :: "u32 \<Rightarrow> u32 \<Rightarrow> mem \<Rightarrow> u32" where
  "rt_strnlen s maxlen m = of_nat (strnlen_loop s 0 (unat maxlen) m)"

function strstr_loop :: "u32 \<Rightarrow> u32 \<Rightarrow> int \<Rightarrow> int \<Rightarrow> mem \<Rightarrow> u32" where
  "strstr_loop s1 s2 l1 l2 m =
     (if l1 \<ge> l2 then if rt_memcmp s1 s2 (word_of_int l2) m = 0 then s1 else strstr_loop (s1 + 1) s2 (l1 - 1) l2 m
      else 0)"
  by pat_completeness auto
termination by (relation "measure (\<lambda>(s1, s2, l1, l2, m). nat (l1 - l2 + 1))") auto

declare strstr_loop.simps [simp del]

definition rt_strstr :: "u32 \<Rightarrow> u32 \<Rightarrow> mem \<Rightarrow> u32 option" where
  "rt_strstr s1 s2 m =
     (case rt_strlen s2 m of None \<Rightarrow> None
      | Some l2 \<Rightarrow> if l2 = 0 then Some s1
          else (case rt_strlen s1 m of None \<Rightarrow> None | Some l1 \<Rightarrow> Some (strstr_loop s1 s2 (sint l1) (sint l2) m)))"

definition tolower :: "int \<Rightarrow> int" where
  "tolower c = (if c \<ge> 65 \<and> c \<le> 90 then c + 32 else c)"

partial_function (option) strcasecmp_loop :: "u32 \<Rightarrow> u32 \<Rightarrow> mem \<Rightarrow> int option" where
  "strcasecmp_loop a b m =
     (let ca = tolower (uint (m a)); cb = tolower (uint (m b)) in
      if ca = cb \<and> ca \<noteq> 0 then strcasecmp_loop (a + 1) (b + 1) m else Some (ca - cb))"

definition rt_strcasecmp :: "u32 \<Rightarrow> u32 \<Rightarrow> mem \<Rightarrow> u32 option" where
  "rt_strcasecmp a b m = map_option word_of_int (strcasecmp_loop a b m)"

fun strncpy_loop :: "u32 \<Rightarrow> u32 \<Rightarrow> nat \<Rightarrow> mem \<Rightarrow> mem" where
  "strncpy_loop d s 0 m = m"
| "strncpy_loop d s (Suc n) m =
     (let c = m s; m = m(d := c) in if c = 0 then set_bytes 0 (d + 1) n m else strncpy_loop (d + 1) (s + 1) n m)"

definition rt_strncpy :: "u32 \<Rightarrow> u32 \<Rightarrow> u32 \<Rightarrow> mem \<Rightarrow> mem" where
  "rt_strncpy dst src n m = strncpy_loop dst src (unat n) m"

text \<open>The difference of two bytes is kept in a \<^verbatim>\<open>signed char\<close>.\<close>

definition schar :: "int \<Rightarrow> int" where
  "schar x = sint (word_of_int x :: u8)"

fun strncmp_loop :: "u32 \<Rightarrow> u32 \<Rightarrow> nat \<Rightarrow> mem \<Rightarrow> int \<Rightarrow> int" where
  "strncmp_loop a b 0 m res = res"
| "strncmp_loop a b (Suc n) m res =
     (let res = schar (uint (m a) - uint (m b)) in
      if res \<noteq> 0 \<or> m a = 0 then res else strncmp_loop (a + 1) (b + 1) n m res)"

definition rt_strncmp :: "u32 \<Rightarrow> u32 \<Rightarrow> u32 \<Rightarrow> mem \<Rightarrow> int" where
  "rt_strncmp cs ct count m = strncmp_loop cs ct (unat count) m 0"

partial_function (option) rt_strcmp :: "u32 \<Rightarrow> u32 \<Rightarrow> mem \<Rightarrow> int option" where
  "rt_strcmp cs ct m =
     (if m cs \<noteq> 0 \<and> m cs = m ct then rt_strcmp (cs + 1) (ct + 1) m else Some (uint (m cs) - uint (m ct)))"

text \<open>A copy on the heap of \<^verbatim>\<open>src/mem.c\<close>, whose data are the memory here.\<close>

definition rt_strdup :: "u32 \<Rightarrow> heap \<Rightarrow> (heap \<times> u32) res option" where
  "rt_strdup s h =
     (case rt_strlen s (mem_data h) of None \<Rightarrow> None
      | Some n \<Rightarrow> let len = n + 1 in
          (case rt_malloc False len h of None \<Rightarrow> None
           | Some r \<Rightarrow> Some (rbind r (\<lambda>(h, tmp).
               if tmp = 0 then Inr (h, 0) else Inr (h\<lparr> mem_data := rt_memcpy tmp s len (mem_data h) \<rparr>, tmp)))))"

section \<open>Strings in memory\<close>

fun cstr :: "mem \<Rightarrow> u32 \<Rightarrow> u8 list \<Rightarrow> bool" where
  "cstr m s [] \<longleftrightarrow> m s = 0"
| "cstr m s (x # xs) \<longleftrightarrow> x \<noteq> 0 \<and> m s = x \<and> cstr m (s + 1) xs"

lemma strlen_loop_cstr: "cstr m sc xs \<Longrightarrow> strlen_loop s sc m = Some (sc + of_nat (length xs) - s)"
proof (induction xs arbitrary: sc)
  case Nil
  then show ?case by (subst strlen_loop.simps) simp
next
  case (Cons x xs)
  then show ?case by (subst strlen_loop.simps) (simp add: algebra_simps)
qed

lemma strlen_cstr: "cstr m s xs \<Longrightarrow> rt_strlen s m = Some (of_nat (length xs))"
  using strlen_loop_cstr [of m s xs s] by (simp add: rt_strlen_def)

lemma cstr_nth:
  "cstr m s xs \<Longrightarrow> i < length xs \<Longrightarrow> m (s + of_nat i) = xs ! i"
proof (induction xs arbitrary: s i)
  case (Cons x xs)
  then show ?case by (cases i) (auto simp: add.assoc [symmetric])
qed simp

lemma cstr_end: "cstr m s xs \<Longrightarrow> m (s + of_nat (length xs)) = 0"
  by (induction xs arbitrary: s) (auto simp: add.assoc [symmetric])

lemma cstr_nonzero: "cstr m s xs \<Longrightarrow> 0 \<notin> set xs"
  by (induction xs arbitrary: s) auto

lemma cstr_drop: "cstr m s xs \<Longrightarrow> i \<le> length xs \<Longrightarrow> cstr m (s + of_nat i) (drop i xs)"
proof (induction xs arbitrary: s i)
  case (Cons x xs)
  then show ?case by (cases i) (auto simp: add.assoc [symmetric])
qed simp

text \<open>A string is determined by its memory.\<close>

lemma cstr_unique: "cstr m s xs \<Longrightarrow> cstr m s ys \<Longrightarrow> xs = ys"
proof (induction xs arbitrary: s ys)
  case (Cons x xs)
  then show ?case by (cases ys) auto
qed (auto elim: cstr.elims)

section \<open>Comparisons\<close>

lemma uint_diff_0: "uint (x :: u8) - uint y = 0 \<longleftrightarrow> x = y"
  by (simp add: word_uint_eq_iff)

lemma memcmp_loop_0: "memcmp_loop a b n m = 0 \<longleftrightarrow> (\<forall>i < n. m (a + of_nat i) = m (b + of_nat i))"
proof (induction n arbitrary: a b)
  case (Suc n)
  have "(\<forall>i < Suc n. m (a + of_nat i) = m (b + of_nat i)) \<longleftrightarrow>
      m a = m b \<and> (\<forall>i < n. m (a + 1 + of_nat i) = m (b + 1 + of_nat i))"
    by (auto simp: less_Suc_eq_0_disj add.assoc)
  then show ?case using Suc.IH [of "a + 1" "b + 1"] uint_diff_0 [of "m a" "m b"] by (auto simp: Let_def)
qed simp

lemma strcmp_cstr:
  "cstr m a xs \<Longrightarrow> cstr m b ys \<Longrightarrow> \<exists>r. rt_strcmp a b m = Some r \<and> (r = 0 \<longleftrightarrow> xs = ys)"
proof (induction xs arbitrary: a b ys)
  case Nil
  then show ?case using uint_diff_0 [of "m a" "m b"] by (subst rt_strcmp.simps) (cases ys; auto)
next
  case (Cons x xs)
  show ?case
  proof (cases "m a = m b")
    case True
    then obtain zs where "ys = x # zs" "cstr m (b + 1) zs" using Cons.prems by (cases ys) auto
    then show ?thesis using Cons True by (subst rt_strcmp.simps) auto
  next
    case False
    then show ?thesis using Cons.prems uint_diff_0 [of "m a" "m b"] by (subst rt_strcmp.simps) (cases ys; auto)
  qed
qed

lemma tolower_0: "tolower (uint (x :: u8)) = 0 \<longleftrightarrow> x = 0"
  using uint_diff_0 [of x 0] uint_ge_0 [of x] by (auto simp: tolower_def)

lemma tolower_range: "0 \<le> tolower (uint (x :: u8))" "tolower (uint (x :: u8)) < 256"
  using uint_lt2p [of x] uint_ge_0 [of x] by (auto simp: tolower_def)

text \<open>A string with its letters made small.\<close>

fun lowered :: "u8 list \<Rightarrow> int list" where
  "lowered [] = []"
| "lowered (x # xs) = tolower (uint x) # lowered xs"

lemma strcasecmp_cstr:
  "cstr m a xs \<Longrightarrow> cstr m b ys \<Longrightarrow>
   \<exists>r. strcasecmp_loop a b m = Some r \<and> (r = 0 \<longleftrightarrow> lowered xs = lowered ys) \<and> - 256 < r \<and> r < 256"
proof (induction xs arbitrary: a b ys)
  case Nil
  have z: "tolower 0 = 0" by (simp add: tolower_def)
  then show ?case using Nil tolower_0 [of "m b"] tolower_range [of "m b"]
    by (subst strcasecmp_loop.simps) (cases ys; auto simp: Let_def)
next
  case (Cons x xs)
  have z: "tolower 0 = 0" by (simp add: tolower_def)
  have nz: "tolower (uint x) \<noteq> 0" "m a = x" "cstr m (a + 1) xs" using Cons.prems(1) tolower_0 [of x] by auto
  show ?case
  proof (cases "tolower (uint x) = tolower (uint (m b))")
    case True
    then have "m b \<noteq> 0" using nz(1) z by auto
    then obtain zs where zs: "ys = m b # zs" "cstr m (b + 1) zs" using Cons.prems(2) by (cases ys) auto
    from Cons.IH [OF nz(3) zs(2)] show ?thesis using True nz(1,2) zs(1) by (subst strcasecmp_loop.simps) (auto simp: Let_def)
  next
    case False
    then have "lowered (x # xs) \<noteq> lowered ys" using Cons.prems(2) by (cases ys) auto
    then show ?thesis using False nz tolower_range [of x] tolower_range [of "m b"]
      by (subst strcasecmp_loop.simps) (auto simp: Let_def)
  qed
qed

lemma uint_diff_range: "- 256 < uint (x :: u8) - uint (y :: u8)" "uint (x :: u8) - uint (y :: u8) < 256"
proof -
  have "uint x < 256" "uint y < 256" using uint_lt2p [of x] uint_lt2p [of y] by simp_all
  then show "- 256 < uint x - uint y" "uint x - uint y < 256" using uint_ge_0 [of x] uint_ge_0 [of y] by linarith+
qed

lemma schar_0: "- 256 < d \<Longrightarrow> d < 256 \<Longrightarrow> schar d = 0 \<longleftrightarrow> d = 0"
proof -
  assume d: "- 256 < d" "d < 256"
  have "schar d = 0 \<longleftrightarrow> (word_of_int d :: u8) = 0" by (simp add: schar_def signed_eq_0_iff)
  also have "\<dots> \<longleftrightarrow> d mod 256 = 0" by (simp add: word_of_int_eq_0_iff mod_eq_0_iff_dvd)
  also have "\<dots> \<longleftrightarrow> d = 0" using d by presburger
  finally show ?thesis .
qed

lemma strncmp_cstr:
  "cstr m a xs \<Longrightarrow> cstr m b ys \<Longrightarrow> strncmp_loop a b n m 0 = 0 \<longleftrightarrow> take n xs = take n ys"
proof (induction n arbitrary: a b xs ys)
  case (Suc n)
  have s: "schar (uint (m a) - uint (m b)) = 0 \<longleftrightarrow> m a = m b"
    using schar_0 [OF uint_diff_range, of "m a" "m b"] uint_diff_0 [of "m a" "m b"] by simp
  show ?case
  proof (cases "m a = m b \<and> m a \<noteq> 0")
    case True
    then obtain x xs' ys' where "xs = x # xs'" "ys = x # ys'" "cstr m (a + 1) xs'" "cstr m (b + 1) ys'"
      using Suc.prems by (cases xs; cases ys) auto
    then show ?thesis using Suc.IH [of "a + 1" xs' "b + 1" ys'] True s by (auto simp: Let_def)
  next
    case False
    then have "strncmp_loop a b (Suc n) m 0 = schar (uint (m a) - uint (m b))" using s by (auto simp: Let_def)
    moreover have "take (Suc n) xs = take (Suc n) ys \<longleftrightarrow> m a = m b"
      using False Suc.prems by (cases xs; cases ys) auto
    ultimately show ?thesis using s by simp
  qed
qed simp

section \<open>Copying strings\<close>

lemma cstr_upd: "(\<And>j. j \<le> length xs \<Longrightarrow> a \<noteq> s + of_nat j) \<Longrightarrow> cstr (m(a := v)) s xs = cstr m s xs"
proof (induction xs arbitrary: s)
  case Nil
  then show ?case using Nil [of 0] by simp
next
  case (Cons x xs)
  have "a \<noteq> s" using Cons.prems [of 0] by simp
  moreover have "a \<noteq> s + 1 + of_nat j" if "j \<le> length xs" for j using Cons.prems [of "Suc j"] that by (simp add: add.assoc)
  ultimately show ?case using Cons.IH by simp
qed

text \<open>The first \<open>n\<close> bytes of a string with zeros behind it.\<close>

definition padded :: "u32 \<Rightarrow> u8 list \<Rightarrow> nat \<Rightarrow> mem \<Rightarrow> mem" where
  "padded d xs n m = (\<lambda>a. if unat (a - d) < n then (if unat (a - d) < length xs then xs ! unat (a - d) else 0) else m a)"

lemma unat_shift:
  assumes "a \<noteq> (d :: u32)"
  shows "unat (a - d) = Suc (unat (a - (d + 1)))"
proof -
  have "a - d \<noteq> 0" using assms by simp
  then have "unat (a - d - 1) = unat (a - d) - 1" "unat (a - d) \<noteq> 0" by (simp_all add: unat_minus_one unat_eq_0)
  then show ?thesis unfolding diff_diff_eq by linarith
qed

lemma strncpy_padded:
  "cstr m s xs \<Longrightarrow> (\<And>i j. i < n \<Longrightarrow> j \<le> length xs \<Longrightarrow> d + of_nat i \<noteq> s + of_nat j) \<Longrightarrow> n < 2 ^ 32 \<Longrightarrow>
   strncpy_loop d s n m = padded d xs n m"
proof (induction n arbitrary: d s xs m)
  case (Suc n)
  have apart: "d \<noteq> s + of_nat j" if "j \<le> length xs" for j using Suc.prems(2) [of 0 j] that by simp
  show ?case
  proof (cases xs)
    case Nil
    have "strncpy_loop d s (Suc n) m = filled (d + of_nat 1) 0 n (filled d 0 1 m)"
      using Suc.prems(1,3) set_bytes_filled [of n 0 "d + 1" "m(d := 0)"] filled_1 [of d 0 m] by (simp add: Nil Let_def)
    also have "\<dots> = filled d 0 (1 + n) m" by (rule filled_add) (use Suc.prems(3) in auto)
    also have "\<dots> = padded d xs (Suc n) m" by (rule ext) (simp add: Nil filled_def padded_def)
    finally show ?thesis .
  next
    case (Cons x ys)
    have x: "m s = x" "x \<noteq> 0" "cstr m (s + 1) ys" using Suc.prems(1) by (simp_all add: Cons)
    have ap: "d + 1 + of_nat i \<noteq> s + 1 + of_nat j" if "i < n" "j \<le> length ys" for i j
      using Suc.prems(2) [of "Suc i" "Suc j"] that by (simp add: Cons add.assoc)
    have "d \<noteq> s + 1 + of_nat j" if "j \<le> length ys" for j using apart [of "Suc j"] that by (simp add: Cons add.assoc)
    then have "cstr (m(d := x)) (s + 1) ys" using cstr_upd [of ys d "s + 1" m x] x(3) by blast
    then have "strncpy_loop (d + 1) (s + 1) n (m(d := x)) = padded (d + 1) ys n (m(d := x))"
      by (rule Suc.IH) (use ap Suc.prems(3) in simp_all)
    then have "strncpy_loop d s (Suc n) m = padded (d + 1) ys n (m(d := x))"
      using x(1,2) by (simp add: Let_def del: fun_upd_apply)
    also have "\<dots> = padded d xs (Suc n) m"
    proof (rule ext)
      fix a
      show "padded (d + 1) ys n (m(d := x)) a = padded d xs (Suc n) m a"
      proof (cases "a = d")
        case True
        have "d - (d + 1) = (- 1 :: u32)" by simp
        then have "unat (d - (d + 1)) = 2 ^ 32 - 1" by (simp only: unsigned_minus_1_eq_mask mask_eq_exp_minus_1) simp
        then show ?thesis using True Suc.prems(3) by (simp add: padded_def Cons)
      next
        case False
        then show ?thesis using unat_shift [OF False] by (simp add: padded_def Cons)
      qed
    qed
    finally show ?thesis .
  qed
qed (simp add: padded_def)

section \<open>Searching\<close>

text \<open>The first position from which on \<open>ys\<close> is found in \<open>xs\<close>.\<close>

fun first_at :: "'a list \<Rightarrow> 'a list \<Rightarrow> nat option" where
  "first_at ys [] = (if ys = [] then Some 0 else None)"
| "first_at ys (x # xs) = (if prefix ys (x # xs) then Some 0 else map_option Suc (first_at ys xs))"

lemma first_at_Some: "first_at ys xs = Some i \<longleftrightarrow> i \<le> length xs \<and> prefix ys (drop i xs) \<and> (\<forall>j < i. \<not> prefix ys (drop j xs))"
proof (induction xs arbitrary: i)
  case (Cons x xs)
  then show ?case by (cases i) (auto simp: less_Suc_eq_0_disj)
qed auto

lemma all_le_Suc: "(\<forall>j \<le> Suc n. P j) \<longleftrightarrow> P 0 \<and> (\<forall>j \<le> n. P (Suc j))"
  by (metis Suc_le_mono not0_implies_Suc le0)

lemma first_at_None: "first_at ys xs = None \<longleftrightarrow> (\<forall>j \<le> length xs. \<not> prefix ys (drop j xs))"
proof (induction xs)
  case (Cons x xs)
  then show ?case by (simp only: first_at.simps list.size add_0_right add_Suc_right all_le_Suc drop_0 drop_Suc_Cons) simp
qed simp

lemma first_at_sublist: "first_at ys xs = None \<longleftrightarrow> \<not> sublist ys xs"
  by (induction xs) (auto simp: sublist_Cons_right)

lemma memcmp_prefix:
  assumes "cstr m s xs" "cstr m s2 ys" "length ys \<le> length xs" "length ys < 2 ^ 32"
  shows "rt_memcmp s s2 (of_nat (length ys)) m = 0 \<longleftrightarrow> prefix ys xs"
proof -
  have "rt_memcmp s s2 (of_nat (length ys)) m = 0 \<longleftrightarrow> (\<forall>i < length ys. m (s + of_nat i) = m (s2 + of_nat i))"
    using assms(4) by (simp add: rt_memcmp_def memcmp_loop_0 unat_of_nat)
  also have "\<dots> \<longleftrightarrow> (\<forall>i < length ys. xs ! i = ys ! i)"
    using cstr_nth [OF assms(1)] cstr_nth [OF assms(2)] assms(3) by auto
  also have "\<dots> \<longleftrightarrow> take (length ys) xs = ys" using assms(3) by (auto simp: list_eq_iff_nth_eq)
  also have "\<dots> \<longleftrightarrow> prefix ys xs" by (metis append_eq_conv_conj prefix_def)
  finally show ?thesis .
qed

lemma first_at_short: "length xs < length ys \<Longrightarrow> first_at ys xs = None"
  unfolding first_at_None by (auto dest: prefix_length_le)

lemma strstr_loop_first:
  "cstr m s xs \<Longrightarrow> cstr m s2 ys \<Longrightarrow> ys \<noteq> [] \<Longrightarrow> length ys < 2 ^ 32 \<Longrightarrow>
   strstr_loop s s2 (int (length xs)) (int (length ys)) m = (case first_at ys xs of None \<Rightarrow> 0 | Some i \<Rightarrow> s + of_nat i)"
proof (induction xs arbitrary: s)
  case Nil
  then show ?case by (subst strstr_loop.simps) (cases ys; simp)
next
  case (Cons x xs)
  show ?case
  proof (cases "length ys \<le> length (x # xs)")
    case True
    have "rt_memcmp s s2 (of_nat (length ys)) m = 0 \<longleftrightarrow> prefix ys (x # xs)"
      by (rule memcmp_prefix [OF Cons.prems(1,2) True Cons.prems(4)])
    moreover have "strstr_loop (s + 1) s2 (int (length xs)) (int (length ys)) m =
        (case first_at ys xs of None \<Rightarrow> 0 | Some i \<Rightarrow> s + 1 + of_nat i)"
      by (rule Cons.IH) (use Cons.prems in auto)
    ultimately show ?thesis using True by (subst strstr_loop.simps) (auto split: option.split simp: add.assoc)
  next
    case False
    then show ?thesis using first_at_short [of "x # xs" ys] by (subst strstr_loop.simps) simp
  qed
qed

section \<open>Strings that are moved\<close>

lemma cstr_iff: "cstr m s xs \<longleftrightarrow> (\<forall>i < length xs. xs ! i \<noteq> 0 \<and> m (s + of_nat i) = xs ! i) \<and> m (s + of_nat (length xs)) = 0"
proof (induction xs arbitrary: s)
  case (Cons x xs)
  have "(\<forall>i < Suc (length xs). P i) \<longleftrightarrow> P 0 \<and> (\<forall>i < length xs. P (Suc i))" for P by (auto simp: less_Suc_eq_0_disj)
  then show ?case using Cons.IH [of "s + 1"] by (auto simp: add.assoc)
qed simp

lemma cstr_moved: "cstr m s xs \<Longrightarrow> (\<And>i. i \<le> length xs \<Longrightarrow> m' (d + of_nat i) = m (s + of_nat i)) \<Longrightarrow> cstr m' d xs"
  by (simp add: cstr_iff)

text \<open>On the heap \<^verbatim>\<open>rt_memcpy\<close> is the copy of the model of \<^verbatim>\<open>rt_realloc\<close>.\<close>

lemma memcpy_copy_data:
  "forward dst src (unat n) \<Longrightarrow> rt_memcpy dst src n (mem_data h) = mem_data (copy_data dst src n h)"
  by (rule ext) (simp add: memcpy_copied copied_def copy_data_def word_less_nat_alt)

text \<open>\<open>n\<close> bytes that no new region takes: in an allocated region or outside the heap.\<close>

definition held :: "heap \<Rightarrow> (u32 \<times> bool) list \<Rightarrow> u32 \<Rightarrow> nat \<Rightarrow> bool" where
  "held h xs s n \<longleftrightarrow> (\<exists>(q, k) \<in> allocated h xs. unat q \<le> unat s \<and> unat s + n \<le> unat q + unat k) \<or>
     unat s + n \<le> unat (heap_ptr h) \<or> unat (heap_ptr h) + unat (heap_end h) \<le> unat s \<and> unat s + n < 2 ^ 32"

lemma held_forward:
  assumes "held h xs s (unat (k :: u32))" "in_heap h (p, n)" "\<forall>y \<in> allocated h xs. apart (p, n) y" "unat k \<le> unat n"
    and "unat (heap_ptr h) + unat (heap_end h) < 2 ^ 32"  "\<forall>y \<in> allocated h xs. in_heap h y"
  shows "forward p s (unat k)"
proof (rule forward_apart)
  have a: "unat s + unat k < 2 ^ 32 \<and> (unat s + unat k \<le> unat p \<or> unat p + unat k \<le> unat s)"
    using assms by (auto simp: held_def in_heap_def apart_def)
  then show "unat s + unat k < 2 ^ 32" by blast
  then have "unat (s + k) = unat s + unat k" by (simp add: unat_word_ariths)
  then show "\<not> (s < p \<and> p < s + k)" using a by (auto simp: word_less_nat_alt)
qed

lemma heap_bound: "heap_core h xs \<Longrightarrow> unat (heap_ptr h) + unat (heap_end h) < 2 ^ 32"
  using unat_heap_end [of h xs] by (auto simp: heap_core_def)

lemma strdup_run:
  assumes "cstr (mem_data h) s str"
  shows "rt_strdup s h = (case rt_malloc False (of_nat (length str) + 1) h of None \<Rightarrow> None
    | Some r \<Rightarrow> Some (rbind r (\<lambda>(h, tmp). if tmp = 0 then Inr (h, 0)
        else Inr (h\<lparr> mem_data := rt_memcpy tmp s (of_nat (length str) + 1) (mem_data h) \<rparr>, tmp))))"
  using strlen_cstr [OF assms] by (simp add: rt_strdup_def Let_def)

section \<open>Properties\<close>

text \<open>\<^verbatim>\<open>rt_strstr\<close> ends on two strings and finds the first occurrence: it returns the first address in \<open>s1\<close> from which
  on the bytes of \<open>s2\<close> are found, and \<^verbatim>\<open>RT_NULL\<close> exactly where there is none.\<close>

theorem rt_strstr_finds_first:
  assumes "cstr m s1 xs" and "cstr m s2 ys" and "length xs < 2 ^ 31" and "length ys < 2 ^ 31"
  shows "rt_strstr s1 s2 m = Some (case first_at ys xs of None \<Rightarrow> 0 | Some i \<Rightarrow> s1 + of_nat i) \<and>
    (first_at ys xs = None \<longleftrightarrow> \<not> sublist ys xs)"
proof (cases "ys = []")
  case True
  then show ?thesis using strlen_cstr [OF assms(2)] by (cases xs) (simp_all add: rt_strstr_def)
next
  case False
  have l: "sint (of_nat (length xs) :: u32) = int (length xs)" "sint (of_nat (length ys) :: u32) = int (length ys)"
    using assms(3,4) by (simp_all add: signed_of_nat signed_take_bit_int_eq_self)
  have "(of_nat (length ys) :: u32) \<noteq> 0" using False assms(4) by (simp add: word_unat_eq_iff unat_of_nat)
  then have "rt_strstr s1 s2 m = Some (strstr_loop s1 s2 (int (length xs)) (int (length ys)) m)"
    using strlen_cstr [OF assms(1)] strlen_cstr [OF assms(2)] l by (simp add: rt_strstr_def)
  then show ?thesis using strstr_loop_first [OF assms(1,2) False] assms(4) first_at_sublist by auto
qed

text \<open>\<^verbatim>\<open>rt_strdup\<close> of a string on a well-formed heap ends without a failed assertion. Either there is no room, it returns
  \<^verbatim>\<open>RT_NULL\<close> and changes nothing; or it returns a new region that holds the same string and its end, every region
  allocated before keeps its bytes, and the heap stays well formed.\<close>

theorem rt_strdup_copies:
  assumes "heap_ok h xs" and "cstr (mem_data h) s str" and "held h xs s (length str + 1)" and "length str + 4 < 2 ^ 32"
  shows "\<not> room_for h xs (request (of_nat (length str) + 1)) \<and> rt_strdup s h = Some (Inr (h, 0)) \<or>
    (\<exists>h' ys p n. rt_strdup s h = Some (Inr (h', p)) \<and> heap_ok h' ys \<and> same_heap h h' \<and> p \<noteq> 0 \<and> length str < unat n \<and>
       allocated h' ys = insert (p, n) (allocated h xs) \<and> cstr (mem_data h') p str \<and>
       (\<forall>(b, k) \<in> allocated h xs. same_bytes h b h' b (unat k)))"
proof -
  define len :: u32 where "len = of_nat (length str) + 1"
  have len: "unat len = length str + 1" "len \<noteq> 0" using assms(4) by (simp_all add: len_def unat_word_ariths unat_of_nat word_unat_eq_iff)
  note run = strdup_run [OF assms(2), folded len_def]
  have c: "heap_core h xs" using assms(1) by (simp add: heap_ok_def)
  from malloc_serves [OF assms(1) len(2)] len(1) assms(4)
  consider "\<not> room_for h xs (request len)" "rt_malloc False len h = Some (Inr (h, 0))"
    | h' ys p n where "rt_malloc False len h = Some (Inr (h', p))" "heap_ok h' ys" "same_heap h h'" "mem_data h' = mem_data h"
        "request len \<le> n" "allocated h' ys = insert (p, n) (allocated h xs)" "\<forall>y \<in> allocated h xs. apart (p, n) y" by auto
  then show ?thesis
  proof cases
    case 1
    then show ?thesis by (simp add: run len_def)
  next
    case 2
    have c': "heap_core h' ys" "(p, n) \<in> allocated h' ys" using 2(2,6) by (simp_all add: heap_ok_def)
    note al = allocated_in_heap [OF c']
    have ih: "in_heap h (p, n)" using al(1) 2(3) by (simp add: in_heap_def same_heap_def)
    have p: "p \<noteq> 0" using al(3) by simp
    have "unat len \<le> unat (request len)" by (rule request_ok(3)) (use len(1) assms(4) in simp)
    then have n: "length str + 1 \<le> unat n" using 2(5) len(1) by (simp add: word_le_nat_alt)
    have f: "forward p s (unat len)"
      by (rule held_forward [OF _ ih 2(7) _ heap_bound [OF c]]) (use assms(3) n len(1) allocated_in_heap(1) [OF c] in auto)
    define h2 where "h2 = h'\<lparr> mem_data := rt_memcpy p s len (mem_data h') \<rparr>"
    have d: "mem_data h2 = mem_data (copy_data p s len h)"
      using memcpy_copy_data [OF f, of h] by (simp add: h2_def 2(4))
    have "cstr (mem_data h2) p str"
      by (rule cstr_moved [OF assms(2)]) (use copied_at [of _ "unat len" p s "mem_data h"] len(1) assms(4) in
        \<open>simp add: h2_def 2(4) memcpy_copied [OF f]\<close>)
    moreover have "same_bytes h b h2 b (unat k)" if "(b, k) \<in> allocated h xs" for b k
    proof (rule copy_apart [OF d])
      have b: "in_heap h (b, k)" by (rule allocated_in_heap(1) [OF c that])
      show "unat p + unat n < 2 ^ 32" "unat b + unat k < 2 ^ 32" using ih b heap_bound [OF c] by (simp_all add: in_heap_def)
      show "apart (p, n) (b, k)" using 2(7) that by blast
      show "unat len \<le> unat n" using n len(1) by simp
    qed
    moreover have run2: "rt_strdup s h = Some (Inr (h2, p))" by (simp add: run 2(1) p h2_def)
    moreover have "heap_ok h2 ys" "same_heap h h2" "allocated h2 ys = insert (p, n) (allocated h xs)"
      using 2(2,3,6) by (simp_all add: h2_def)
    ultimately show ?thesis using p n by (intro disjI2 exI [of _ h2] exI [of _ ys] exI [of _ p] exI [of _ n]) auto
  qed
qed

text \<open>\<^verbatim>\<open>rt_strcmp\<close>, \<^verbatim>\<open>rt_strncmp\<close>, \<^verbatim>\<open>rt_strcasecmp\<close> are 0 for the strings that are equal; \<^verbatim>\<open>rt_strncmp\<close> keeps
  the difference in eight bits, and tells a larger string from a smaller one by the wrong sign.\<close>

lemma strcasecmp_zero:
  assumes "cstr m a xs" "cstr m b ys"
  shows "\<exists>r. rt_strcasecmp a b m = Some r \<and> (r = 0 \<longleftrightarrow> lowered xs = lowered ys)"
proof -
  obtain r where r: "strcasecmp_loop a b m = Some r" "r = 0 \<longleftrightarrow> lowered xs = lowered ys" "- 256 < r" "r < 256"
    using strcasecmp_cstr [OF assms] by blast
  have "(word_of_int r :: u32) = 0 \<longleftrightarrow> r mod 2 ^ 32 = 0" by (simp add: word_of_int_eq_0_iff mod_eq_0_iff_dvd)
  also have "\<dots> \<longleftrightarrow> r = 0" using r(3,4) dvd_imp_le_int [of r "2 ^ 32"] by (auto simp: mod_eq_0_iff_dvd)
  finally show ?thesis using r(1,2) by (simp add: rt_strcasecmp_def)
qed

lemma strncmp_wrong_sign:
  "rt_strncmp 0x10 0x20 1 (\<lambda>a. if a = 0x10 then 200 else if a = 0x20 then 50 else 0) = - 106"
proof -
  let ?m = "\<lambda>a :: u32. if a = 0x10 then 200 else if a = 0x20 then 50 else (0 :: u8)"
  have m: "?m 0x10 = 200" "?m 0x20 = 50" by simp_all
  have "unat (1 :: u32) = Suc 0" by simp
  moreover have "schar (uint (200 :: u8) - uint (50 :: u8)) = - 106" by (simp add: schar_def)
  ultimately show ?thesis unfolding rt_strncmp_def by (simp add: Let_def del: schar_def)
qed

end
