(* ===== verification/Object.thy ===== *)
theory Object
  imports ThreadLife SmallMemOps KString
begin

text \<open>
  The object system of \<^verbatim>\<open>src/object.c\<close>: every kernel object has a name of 8 characters and a type and is in the list
  of its class. An object is static, in memory that the caller provides, or allocated from the kernel heap.
  Names and types are bytes of the memory; \<^verbatim>\<open>rt_strncpy\<close>, \<^verbatim>\<open>rt_strncmp\<close>, \<^verbatim>\<open>rt_memset\<close>, the heap and the
  scheduler's lock are those of the theories \<^verbatim>\<open>KString\<close>, \<^verbatim>\<open>KMem\<close>, \<^verbatim>\<open>SmallMem\<close> and \<^verbatim>\<open>Sched\<close>. The list of a class
  is given by the addresses of its objects, the newest first. The hooks are not set.
\<close>

section \<open>State\<close>

text \<open>The heap holds the memory (\<open>mem_data\<close>), also that outside of it. A class is a place in the table below.\<close>

record osys = ksys +
  os_heap :: heap
  object_lists :: "nat \<Rightarrow> u32 list"

abbreviation (input) RT_Object_Class_Thread :: u8 where "RT_Object_Class_Thread \<equiv> 1"
abbreviation (input) RT_Object_Class_Device :: u8 where "RT_Object_Class_Device \<equiv> 9"
abbreviation (input) RT_Object_Class_Unknown :: u8 where "RT_Object_Class_Unknown \<equiv> 12"
abbreviation (input) RT_Object_Class_Static :: u8 where "RT_Object_Class_Static \<equiv> 0x80"
abbreviation (input) RT_NAME_MAX :: u32 where "RT_NAME_MAX \<equiv> 8"

text \<open>The classes of the configuration: threads, semaphores, mutexes, events, mailboxes, message queues, memory pools,
  devices, timers; \<open>sz\<close> gives the sizes of their structures.\<close>

definition rt_object_container :: "(u8 \<Rightarrow> u32) \<Rightarrow> (u8 \<times> u32) list" where
  "rt_object_container sz = map (\<lambda>c. (c, sz c)) [1, 2, 3, 4, 5, 6, 8, 9, 10]"

fun find_class :: "u8 \<Rightarrow> (u8 \<times> u32) list \<Rightarrow> nat option" where
  "find_class ty [] = None"
| "find_class ty (x # xs) = (if fst x = ty then Some 0 else map_option Suc (find_class ty xs))"

definition rt_object_get_information :: "u8 \<Rightarrow> nat option" where
  "rt_object_get_information ty = find_class ty (rt_object_container (\<lambda>_. 0))"

definition object_mem :: "osys \<Rightarrow> mem" where
  "object_mem s = mem_data (os_heap s)"

definition set_mem_data :: "mem \<Rightarrow> osys \<Rightarrow> osys" where
  "set_mem_data m s = s\<lparr> os_heap := (os_heap s)\<lparr> mem_data := m \<rparr> \<rparr>"

definition object_type :: "mem \<Rightarrow> u32 \<Rightarrow> u8" where
  "object_type m obj = m (obj + 8)"

definition set_type :: "u8 \<Rightarrow> u32 \<Rightarrow> mem \<Rightarrow> mem" where
  "set_type ty obj m = m(obj + 8 := ty)"

section \<open>Operations\<close>

definition insert_object :: "nat \<Rightarrow> u32 \<Rightarrow> osys \<Rightarrow> osys" where
  "insert_object k obj s = s\<lparr> object_lists := (object_lists s)(k := obj # object_lists s k) \<rparr>"

text \<open>\<^verbatim>\<open>rt_list_remove\<close> takes an object out of the list it is in.\<close>

definition remove_object :: "u32 \<Rightarrow> osys \<Rightarrow> osys" where
  "remove_object obj s = s\<lparr> object_lists := (\<lambda>k. remove1 obj (object_lists s k)) \<rparr>"

definition rt_object_init :: "u32 \<Rightarrow> u8 \<Rightarrow> u32 \<Rightarrow> osys \<Rightarrow> osys res" where
  "rt_object_init obj ty name s =
     (case rt_object_get_information ty of None \<Rightarrow> Inl Assert_failed
      | Some k \<Rightarrow>
          let s = rt_enter_critical s in
          rassert (obj \<notin> set (object_lists s k)) (rbind (rt_exit_critical s) (\<lambda>s.
          let m = set_type (ty OR RT_Object_Class_Static) obj (object_mem s);
              m = rt_strncpy obj name RT_NAME_MAX m in
          Inr (insert_object k obj (set_mem_data m s)))))"

definition rt_object_detach :: "u32 \<Rightarrow> osys \<Rightarrow> osys res" where
  "rt_object_detach obj s = rassert (obj \<noteq> 0) (Inr (remove_object obj (set_mem_data (set_type 0 obj (object_mem s)) s)))"

definition rt_object_allocate :: "(u8 \<Rightarrow> u32) \<Rightarrow> u8 \<Rightarrow> u32 \<Rightarrow> osys \<Rightarrow> (osys \<times> u32) res option" where
  "rt_object_allocate sz ty name s =
     (if interrupt_nest s \<noteq> 0 then Some (Inl Assert_failed)
      else case rt_object_get_information ty of None \<Rightarrow> Some (Inl Assert_failed)
        | Some k \<Rightarrow>
            (let object_size = snd (rt_object_container sz ! k) in
             case rt_malloc (interrupt_nest s \<noteq> 0) object_size (os_heap s) of None \<Rightarrow> None
             | Some r \<Rightarrow> Some (rbind r (\<lambda>(h, obj).
                 let s = s\<lparr> os_heap := h \<rparr> in
                 if obj = 0 then Inr (s, 0)
                 else let m = rt_memset obj 0 object_size (object_mem s);
                          m = set_type ty obj m; m = m(obj + 9 := 0);
                          m = rt_strncpy obj name RT_NAME_MAX m in
                      Inr (insert_object k obj (set_mem_data m s), obj)))))"

definition rt_object_delete :: "u32 \<Rightarrow> osys \<Rightarrow> osys res" where
  "rt_object_delete obj s = rassert (obj \<noteq> 0) (rassert (object_type (object_mem s) obj AND RT_Object_Class_Static = 0)
     (let s = remove_object obj (set_mem_data (set_type 0 obj (object_mem s)) s) in
      rbind (rt_free (interrupt_nest s \<noteq> 0) obj (os_heap s)) (\<lambda>h. Inr (s\<lparr> os_heap := h \<rparr>))))"

definition rt_object_is_systemobject :: "u32 \<Rightarrow> osys \<Rightarrow> bool res" where
  "rt_object_is_systemobject obj s = rassert (obj \<noteq> 0) (Inr (object_type (object_mem s) obj AND RT_Object_Class_Static \<noteq> 0))"

definition rt_object_get_type :: "u32 \<Rightarrow> osys \<Rightarrow> u8 res" where
  "rt_object_get_type obj s = rassert (obj \<noteq> 0) (Inr (object_type (object_mem s) obj AND NOT RT_Object_Class_Static))"

text \<open>The search of all look-ups: the first object whose name is equal in its first 8 characters.\<close>

fun find_object :: "mem \<Rightarrow> u32 \<Rightarrow> u32 list \<Rightarrow> u32" where
  "find_object m name [] = 0"
| "find_object m name (obj # objs) = (if rt_strncmp obj name RT_NAME_MAX m = 0 then obj else find_object m name objs)"

definition rt_object_find :: "u32 \<Rightarrow> u8 \<Rightarrow> osys \<Rightarrow> (osys \<times> u32) res" where
  "rt_object_find name ty s =
     (if name = 0 \<or> ty > RT_Object_Class_Unknown then Inr (s, 0)
      else rassert (interrupt_nest s = 0)
        (let s = rt_enter_critical s in
         case rt_object_get_information ty of None \<Rightarrow> Inl Assert_failed
         | Some k \<Rightarrow> let obj = find_object (object_mem s) name (object_lists s k) in
             rbind (rt_exit_critical s) (\<lambda>s. Inr (s, obj))))"

text \<open>\<^verbatim>\<open>rt_device_find\<close> and \<^verbatim>\<open>rt_thread_find\<close> lock the scheduler only when a thread runs.\<close>

definition locked_find :: "u8 \<Rightarrow> u32 \<Rightarrow> osys \<Rightarrow> (osys \<times> u32) res" where
  "locked_find ty name s =
     (let s = (if current_thread s \<noteq> None then rt_enter_critical s else s) in
      case rt_object_get_information ty of None \<Rightarrow> Inl Assert_failed
      | Some k \<Rightarrow> let obj = find_object (object_mem s) name (object_lists s k) in
          rbind (if current_thread s \<noteq> None then rt_exit_critical s else Inr s) (\<lambda>s. Inr (s, obj)))"

definition rt_device_find :: "u32 \<Rightarrow> osys \<Rightarrow> (osys \<times> u32) res" where
  "rt_device_find = locked_find RT_Object_Class_Device"

definition rt_thread_find :: "u32 \<Rightarrow> osys \<Rightarrow> (osys \<times> u32) res" where
  "rt_thread_find = locked_find RT_Object_Class_Thread"

section \<open>Names\<close>

text \<open>The characters of a name of at most \<open>n\<close> bytes.\<close>

fun name_at :: "mem \<Rightarrow> u32 \<Rightarrow> nat \<Rightarrow> bytes" where
  "name_at m a 0 = []"
| "name_at m a (Suc n) = (if m a = 0 then [] else m a # name_at m (a + 1) n)"

lemma strncmp_name: "strncmp_loop a b n m 0 = 0 \<longleftrightarrow> name_at m a n = name_at m b n"
proof (induction n arbitrary: a b)
  case (Suc n)
  have s: "schar (uint (m a) - uint (m b)) = 0 \<longleftrightarrow> m a = m b"
    using schar_0 [OF uint_diff_range, of "m a" "m b"] uint_diff_0 [of "m a" "m b"] by simp
  show ?case using Suc.IH [of "a + 1" "b + 1"] s by (auto simp: Let_def)
qed simp

lemma name_at_cstr: "cstr m a xs \<Longrightarrow> name_at m a n = take n xs"
  by (induction n arbitrary: a xs) (case_tac xs; simp)+

lemma name_at_cong: "(\<And>i. i < n \<Longrightarrow> m' (a + of_nat i) = m (a + of_nat i)) \<Longrightarrow> name_at m' a n = name_at m a n"
proof (induction n arbitrary: a)
  case (Suc n)
  have "m' a = m a" using Suc.prems [of 0] by simp
  moreover have "name_at m' (a + 1) n = name_at m (a + 1) n"
    by (rule Suc.IH) (use Suc.prems [of "Suc i" for i] in \<open>simp add: add.assoc\<close>)
  ultimately show ?case by simp
qed simp

definition object_name :: "mem \<Rightarrow> u32 \<Rightarrow> bytes" where
  "object_name m obj = name_at m obj 8"

lemma find_object_first:
  "find_object m name objs = (case filter (\<lambda>obj. object_name m obj = object_name m name) objs of [] \<Rightarrow> 0 | obj # _ \<Rightarrow> obj)"
  by (induction objs) (simp_all add: rt_strncmp_def strncmp_name object_name_def)

section \<open>Where an operation writes\<close>

definition only_in :: "u32 \<Rightarrow> nat \<Rightarrow> mem \<Rightarrow> mem \<Rightarrow> bool" where
  "only_in a n m m' \<longleftrightarrow> (\<forall>x. m' x \<noteq> m x \<longrightarrow> unat (x - a) < n)"

lemma only_in_refl [simp]: "only_in a n m m"
  by (simp add: only_in_def)

lemma only_in_trans: "only_in a n m m' \<Longrightarrow> only_in a n m' m'' \<Longrightarrow> only_in a n m m''"
  unfolding only_in_def by metis

lemma only_in_mono: "only_in a n m m' \<Longrightarrow> n \<le> k \<Longrightarrow> only_in a k m m'"
  by (fastforce simp: only_in_def)

lemma only_in_shift:
  assumes "only_in (a + of_nat i) n m m'" "i + n \<le> k" "k < 2 ^ 32"
  shows "only_in a k m m'"
  unfolding only_in_def
proof (intro allI impI)
  fix x assume "m' x \<noteq> m x"
  define y where "y = x - (a + of_nat i)"
  have l: "unat y < n" using assms(1) \<open>m' x \<noteq> m x\<close> by (simp add: only_in_def y_def)
  have "unat (of_nat i :: u32) = i" using assms(2,3) by (intro unat_small) simp
  then have "unat (of_nat i + y) = i + unat y" using l assms(2,3) by (simp add: unat_word_ariths)
  moreover have "x - a = of_nat i + y" by (simp add: y_def)
  ultimately show "unat (x - a) < k" using l assms(2) by simp
qed

lemma strncpy_only_in: "n < 2 ^ 32 \<Longrightarrow> only_in d n m (strncpy_loop d s n m)"
proof (induction n arbitrary: d s m)
  case (Suc n)
  have 1: "only_in d (Suc n) m (m(d := m s))" by (simp add: only_in_def)
  have f: "only_in (d + of_nat 1) n m' (set_bytes 0 (d + 1) n m')" for m'
    using Suc.prems by (simp add: set_bytes_filled only_in_def filled_def)
  have "only_in (d + of_nat 1) n m' (strncpy_loop (d + 1) (s + 1) n m')" for m' using Suc.IH [of "d + 1"] Suc.prems by simp
  then have "only_in d (Suc n) (m(d := m s)) (strncpy_loop d s (Suc n) m)"
    using only_in_shift [OF f, of "Suc n"] only_in_shift [of d 1 n _ _ "Suc n"] Suc.prems by (simp add: Let_def)
  then show ?case by (rule only_in_trans [OF 1])
qed simp

lemma outside_region:
  assumes o: "only_in a n m m'" and r: "unat a + n \<le> unat b \<or> unat b + k \<le> unat a" "unat a + n < 2 ^ 32" "unat b + k < 2 ^ 32"
    and i: "i < k"
  shows "m' (b + of_nat i) = m (b + of_nat i)"
proof -
  have bi: "unat (b + of_nat i) = unat b + i" using r(3) i by (simp add: unat_word_ariths unat_of_nat)
  have "\<not> unat (b + of_nat i - a) < n"
  proof (cases "unat a \<le> unat b + i")
    case True
    then have "unat (b + of_nat i - a) = unat b + i - unat a" using bi by (simp add: unat_sub word_le_nat_alt)
    then show ?thesis using r i True by linarith
  next
    case False
    then have "unat (b + of_nat i - a) = unat b + i + 2 ^ 32 - unat a"
      using bi unat_u32_less [of a] by (simp add: unat_sub_if' word_le_nat_alt)
    then show ?thesis using r False unat_u32_less [of a] by linarith
  qed
  then show ?thesis using o by (auto simp: only_in_def)
qed

section \<open>The classes\<close>

definition class_type :: "nat \<Rightarrow> u8" where
  "class_type k = fst (rt_object_container (\<lambda>_. 0) ! k)"

lemma information_class:
  assumes "rt_object_get_information ty = Some k"
  shows "k < 9" "class_type k = ty" "snd (rt_object_container sz ! k) = sz ty" "ty AND 0x80 = 0" "ty AND NOT 0x80 = ty"
proof -
  have "ty = 1 \<and> k = 0 \<or> ty = 2 \<and> k = 1 \<or> ty = 3 \<and> k = 2 \<or> ty = 4 \<and> k = 3 \<or> ty = 5 \<and> k = 4 \<or> ty = 6 \<and> k = 5 \<or>
    ty = 8 \<and> k = 6 \<or> ty = 9 \<and> k = 7 \<or> ty = 10 \<and> k = 8"
    using assms by (auto simp: rt_object_get_information_def rt_object_container_def split: if_splits)
  then show "k < 9" "class_type k = ty" "snd (rt_object_container sz ! k) = sz ty" "ty AND 0x80 = 0" "ty AND NOT 0x80 = ty"
    by (elim disjE; simp add: class_type_def rt_object_container_def)+
qed

section \<open>The typing invariant\<close>

text \<open>Every object is in exactly one list, that of the class its type byte names; a static object lies outside of the heap
  and apart from the other static ones, the others are allocated regions large enough for the structure of the class.\<close>

definition is_static :: "mem \<Rightarrow> u32 \<Rightarrow> bool" where
  "is_static m obj \<longleftrightarrow> object_type m obj AND 0x80 \<noteq> 0"

definition outside_heap :: "heap \<Rightarrow> u32 \<Rightarrow> bool" where
  "outside_heap h obj \<longleftrightarrow> obj \<noteq> 0 \<and> unat obj + 20 < 2 ^ 32 \<and>
     (unat obj + 20 \<le> unat (heap_ptr h) \<or> unat (heap_ptr h) + unat (heap_end h) \<le> unat obj)"

definition well_typed :: "(u8 \<Rightarrow> u32) \<Rightarrow> heap \<Rightarrow> (u32 \<times> bool) list \<Rightarrow> nat \<Rightarrow> u32 \<Rightarrow> bool" where
  "well_typed sz h xs k obj \<longleftrightarrow> object_type (mem_data h) obj AND NOT 0x80 = class_type k \<and>
     (if is_static (mem_data h) obj then outside_heap h obj else \<exists>n. (obj, n) \<in> allocated h xs \<and> sz (class_type k) \<le> n)"

definition objects :: "osys \<Rightarrow> u32 set" where
  "objects s = (\<Union>k. set (object_lists s k))"

definition objects_ok :: "(u8 \<Rightarrow> u32) \<Rightarrow> osys \<Rightarrow> (u32 \<times> bool) list \<Rightarrow> bool" where
  "objects_ok sz s xs \<longleftrightarrow> heap_ok (os_heap s) xs \<and> (\<forall>k. 9 \<le> k \<longrightarrow> object_lists s k = []) \<and>
     (\<forall>k. distinct (object_lists s k)) \<and>
     (\<forall>j k. j \<noteq> k \<longrightarrow> set (object_lists s j) \<inter> set (object_lists s k) = {}) \<and>
     (\<forall>k. \<forall>obj \<in> set (object_lists s k). well_typed sz (os_heap s) xs k obj) \<and>
     (\<forall>a \<in> objects s. \<forall>b \<in> objects s. a \<noteq> b \<longrightarrow> is_static (object_mem s) a \<longrightarrow> is_static (object_mem s) b \<longrightarrow> apart (a, 20) (b, 20))"

definition sizes_ok :: "(u8 \<Rightarrow> u32) \<Rightarrow> bool" where
  "sizes_ok sz \<longleftrightarrow> (\<forall>c. 20 \<le> unat (sz c) \<and> unat (sz c) + 3 < 2 ^ 32)"

text \<open>The header of a typed object lies in memory, and two of them lie apart.\<close>

lemma typed_fits:
  assumes "well_typed sz h xs k obj" "heap_ok h xs" "sizes_ok sz"
  shows "obj \<noteq> 0" "unat obj + 20 < 2 ^ 32"
proof -
  have "obj \<noteq> 0 \<and> unat obj + 20 < 2 ^ 32"
  proof (cases "is_static (mem_data h) obj")
    case True
    then show ?thesis using assms(1) by (simp add: well_typed_def outside_heap_def)
  next
    case False
    then obtain n where n: "(obj, n) \<in> allocated h xs" "sz (class_type k) \<le> n" using assms(1) by (auto simp: well_typed_def)
    have c: "heap_core h xs" using assms(2) by (simp add: heap_ok_def)
    have "20 \<le> unat n" using n(2) assms(3) unfolding sizes_ok_def word_le_nat_alt by (meson le_trans)
    moreover have "unat obj + unat n \<le> unat (heap_ptr h) + unat (heap_end h)" using allocated_in_heap(1) [OF c n(1)] by (simp add: in_heap_def)
    moreover have "unat (heap_ptr h) + unat (heap_end h) < 2 ^ 32" using c unat_heap_end [OF c] by (simp add: heap_core_def)
    ultimately show ?thesis using allocated_in_heap(3) [OF c n(1)] by simp
  qed
  then show "obj \<noteq> 0" "unat obj + 20 < 2 ^ 32" by simp_all
qed

lemma static_apart_region:
  assumes "outside_heap h obj" "heap_core h xs" "(p, n) \<in> allocated h xs"
  shows "apart (obj, 20) (p, n)"
  using assms(1) allocated_in_heap(1) [OF assms(2,3)] by (auto simp: outside_heap_def in_heap_def apart_def)

lemma apart_sym: "apart x y \<Longrightarrow> apart y x"
  by (auto simp: apart_def)

lemma apart_mono: "apart (a, n) (b, m) \<Longrightarrow> n' \<le> n \<Longrightarrow> m' \<le> m \<Longrightarrow> apart (a, n') (b, m')"
  by (auto simp: apart_def word_le_nat_alt)

lemma objects_okD:
  assumes "objects_ok sz s xs"
  shows "heap_ok (os_heap s) xs" "\<And>k. 9 \<le> k \<Longrightarrow> object_lists s k = []" "\<And>k. distinct (object_lists s k)"
    "\<And>j k obj. obj \<in> set (object_lists s j) \<Longrightarrow> obj \<in> set (object_lists s k) \<Longrightarrow> j = k"
    "\<And>k obj. obj \<in> set (object_lists s k) \<Longrightarrow> well_typed sz (os_heap s) xs k obj"
    "\<And>a b. a \<in> objects s \<Longrightarrow> b \<in> objects s \<Longrightarrow> a \<noteq> b \<Longrightarrow> is_static (object_mem s) a \<Longrightarrow> is_static (object_mem s) b \<Longrightarrow> apart (a, 20) (b, 20)"
  using assms unfolding objects_ok_def by blast+

lemma in_objects: "obj \<in> objects s \<longleftrightarrow> (\<exists>k. obj \<in> set (object_lists s k))"
  by (auto simp: objects_def)

text \<open>An object lies apart from an allocated region that is not its own.\<close>

lemma object_apart_region:
  assumes ok: "objects_ok sz s xs" and sz: "sizes_ok sz" and a: "a \<in> objects s" and r: "(p, n) \<in> allocated (os_heap s) xs" "p \<noteq> a"
  shows "apart (a, 20) (p, n)"
proof -
  obtain k where "a \<in> set (object_lists s k)" using a by (auto simp: in_objects)
  note ty = objects_okD(5) [OF ok this]
  have c: "heap_core (os_heap s) xs" using objects_okD(1) [OF ok] by (simp add: heap_ok_def)
  show ?thesis
  proof (cases "is_static (mem_data (os_heap s)) a")
    case True
    then show ?thesis using ty static_apart_region [OF _ c r(1)] by (simp add: well_typed_def)
  next
    case False
    then obtain m where m: "(a, m) \<in> allocated (os_heap s) xs" "sz (class_type k) \<le> m" using ty by (auto simp: well_typed_def)
    have "20 \<le> m" using m(2) sz unfolding sizes_ok_def word_le_nat_alt by (simp, meson le_trans)
    moreover have "apart (a, m) (p, n)" using allocated_apart [OF c m(1) r(1)] r(2) by simp
    ultimately show ?thesis by (auto intro: apart_mono)
  qed
qed

lemma objects_apart:
  assumes ok: "objects_ok sz s xs" and sz: "sizes_ok sz" and a: "a \<in> objects s" and b: "b \<in> objects s" "a \<noteq> b"
  shows "apart (a, 20) (b, 20)"
proof -
  have region: "apart (x, 20) (y, 20)" if x: "x \<in> objects s" and y: "y \<in> objects s" "x \<noteq> y" "\<not> is_static (object_mem s) y" for x y
  proof -
    obtain k where "y \<in> set (object_lists s k)" using y by (auto simp: in_objects)
    note objects_okD(5) [OF ok this]
    then obtain m where m: "(y, m) \<in> allocated (os_heap s) xs" "sz (class_type k) \<le> m"
      using y(3) by (auto simp: well_typed_def object_mem_def)
    have "20 \<le> m" using m(2) sz unfolding sizes_ok_def word_le_nat_alt by (simp, meson le_trans)
    then show ?thesis using object_apart_region [OF ok sz x m(1)] y(2) by (auto intro: apart_mono)
  qed
  show ?thesis using region [OF a b] region [OF b(1) a] b(2) objects_okD(6) [OF ok a b] by (metis apart_sym)
qed

text \<open>A write inside of one region leaves the header of an object apart from it alone.\<close>

definition same_header :: "mem \<Rightarrow> mem \<Rightarrow> u32 \<Rightarrow> bool" where
  "same_header m m' obj \<longleftrightarrow> (\<forall>i < 20. m' (obj + of_nat i) = m (obj + of_nat i))"

lemma same_headerD:
  assumes "same_header m m' obj"
  shows "object_type m' obj = object_type m obj" "object_name m' obj = object_name m obj" "is_static m' obj = is_static m obj"
proof -
  show t: "object_type m' obj = object_type m obj" using assms [unfolded same_header_def, rule_format, of 8] by (simp add: object_type_def)
  then show "is_static m' obj = is_static m obj" by (simp add: is_static_def)
  show "object_name m' obj = object_name m obj"
    unfolding object_name_def by (rule name_at_cong) (use assms in \<open>simp add: same_header_def\<close>)
qed

lemma header_kept:
  assumes "only_in p (unat n) m m'" "apart (obj, 20) (p, n)" "unat p + unat n < 2 ^ 32" "unat obj + 20 < 2 ^ 32"
  shows "same_header m m' obj"
  unfolding same_header_def
  using outside_region [OF assms(1) _ assms(3,4)] assms(2) by (auto simp: apart_def)

lemma typed_kept:
  assumes "well_typed sz h xs k obj" "same_heap h h'" "same_header (mem_data h) (mem_data h') obj"
    "\<And>n. (obj, n) \<in> allocated h xs \<Longrightarrow> (obj, n) \<in> allocated h' ys"
  shows "well_typed sz h' ys k obj"
proof (cases "is_static (mem_data h) obj")
  case True
  then show ?thesis using assms(1,2) same_headerD [OF assms(3)] by (simp add: well_typed_def outside_heap_def same_heap_def)
next
  case False
  then obtain n where "(obj, n) \<in> allocated h xs" "sz (class_type k) \<le> n" using assms(1) by (auto simp: well_typed_def)
  then have "\<exists>n. (obj, n) \<in> allocated h' ys \<and> sz (class_type k) \<le> n" using assms(4) by blast
  then show ?thesis using False assms(1) same_headerD [OF assms(3)] by (simp add: well_typed_def)
qed

section \<open>The kernel around the operations\<close>

definition kernel_ready :: "('a) ksys_scheme \<Rightarrow> bool" where
  "kernel_ready s \<longleftrightarrow> sched_inv {} s \<and> lock_room s \<and> interrupt_nest s = 0"

lemma more_objects:
  "ksys.more s' = ksys.more s \<Longrightarrow> os_heap s' = os_heap (s :: osys)"
  "ksys.more s' = ksys.more s \<Longrightarrow> object_lists s' = object_lists (s :: osys)"
  by (cases s; cases s'; simp)+

lemma walk_ready:
  assumes "kernel_ready (s :: osys)"
  obtains s' where "rt_exit_critical (rt_enter_critical s) = Inr s'" "kernel_ready s'" "os_heap s' = os_heap s"
    "object_lists s' = object_lists s"
proof -
  have r: "sched_inv {} s" "lock_room s" "interrupt_nest s = 0" using assms by (simp_all add: kernel_ready_def)
  obtain s' where w: "rt_object_init_walk s = Inr s'" "sched_inv {} s'" "s' = s \<or> frame s s'"
    by (rule walk_ok [OF r(1,2)]) (rule that)
  have "lock_nest s' = lock_nest s" "interrupt_nest s' = interrupt_nest s" "ksys.more s' = ksys.more s"
    using w(3) by (auto dest: frame_env(4-6))
  then have "kernel_ready s'" "os_heap s' = os_heap s" "object_lists s' = object_lists s"
    using w(2) r more_objects [of s' s] by (simp_all add: kernel_ready_def lock_room_def)
  then show thesis using that w(1) unfolding walk_unfold by blast
qed

lemma ready_cong:
  "threads s' = threads s \<Longrightarrow> queues s' = queues s \<Longrightarrow> current_thread s' = current_thread s \<Longrightarrow>
   ready_group s' = ready_group s \<Longrightarrow> lock_nest s' = lock_nest s \<Longrightarrow> interrupt_nest s' = interrupt_nest s \<Longrightarrow>
   kernel_ready s' = kernel_ready s"
  using sched_inv_cong [of s' s "{}"] by (simp add: kernel_ready_def lock_room_def)

lemma update_fields [simp]:
  "kernel_ready (insert_object k obj s) = kernel_ready s" "kernel_ready (set_mem_data m s) = kernel_ready s"
  "kernel_ready (remove_object obj s) = kernel_ready s" "kernel_ready (s\<lparr> os_heap := h \<rparr>) = kernel_ready s"
  "os_heap (insert_object k obj s) = os_heap s" "os_heap (remove_object obj s) = os_heap s"
  "object_lists (set_mem_data m s) = object_lists s" "os_heap (set_mem_data m s) = (os_heap s)\<lparr> mem_data := m \<rparr>"
  "object_lists (insert_object k obj s) = (object_lists s)(k := obj # object_lists s k)"
  "object_lists (remove_object obj s) = (\<lambda>k. remove1 obj (object_lists s k))"
  "interrupt_nest (remove_object obj s) = interrupt_nest s" "interrupt_nest (set_mem_data m s) = interrupt_nest s"
  by (rule ready_cong; simp add: insert_object_def set_mem_data_def remove_object_def)+
    (simp_all add: insert_object_def set_mem_data_def remove_object_def)

section \<open>Storing a name\<close>

lemma name_at_list: "name_at m a n = takeWhile (\<lambda>c. c \<noteq> 0) (map (\<lambda>i. m (a + of_nat i)) [0..<n])"
proof (induction n arbitrary: a)
  case (Suc n)
  have "map (\<lambda>i. m (a + of_nat i)) [0..<Suc n] = m a # map (\<lambda>i. m (a + 1 + of_nat i)) [0..<n]"
    by (simp add: map_upt_Suc add.assoc del: upt_Suc)
  then show ?case using Suc.IH [of "a + 1"] by (simp del: upt_Suc)
qed simp

lemma cstr_no_zero: "cstr m a xs \<Longrightarrow> 0 \<notin> set xs"
  by (induction xs arbitrary: a) auto

lemma name_at_padded:
  assumes "0 \<notin> set xs" "n < 2 ^ 32"
  shows "name_at (padded d xs n m) d n = take n xs"
proof -
  have "padded d xs n m (d + of_nat i) = (if i < length xs then xs ! i else 0)" if "i < n" for i
    using that assms(2) by (simp add: padded_def unat_of_nat)
  then have "map (\<lambda>i. padded d xs n m (d + of_nat i)) [0..<n] = take n xs @ replicate (n - length xs) 0"
    by (intro nth_equalityI) (auto simp: nth_append)
  moreover have "takeWhile (\<lambda>c. c \<noteq> 0) (take n xs @ replicate k 0) = take n xs" for k
  proof -
    have "\<forall>x \<in> set (take n xs). x \<noteq> 0" using assms(1) by (auto dest: in_set_takeD)
    then have "takeWhile (\<lambda>c. c \<noteq> 0) (take n xs @ replicate k 0) = take n xs @ takeWhile (\<lambda>c. c \<noteq> 0) (replicate k 0)"
      by (intro takeWhile_append2) auto
    then show ?thesis by simp
  qed
  ultimately show ?thesis by (simp add: name_at_list)
qed

text \<open>A string of the caller that shares no byte with a region.\<close>

definition string_apart :: "u32 \<Rightarrow> bytes \<Rightarrow> u32 \<Rightarrow> nat \<Rightarrow> bool" where
  "string_apart name xs a n \<longleftrightarrow> (\<forall>j \<le> length xs. n \<le> unat (name + of_nat j - a))"

lemma cstr_only_in:
  assumes "cstr m name xs" "only_in a n m m'" "string_apart name xs a n"
  shows "cstr m' name xs"
proof -
  have "m' (name + of_nat j) = m (name + of_nat j)" if "j \<le> length xs" for j
    using assms(2,3) that unfolding only_in_def string_apart_def by (meson leD)
  then have "\<And>j. j \<le> length xs \<Longrightarrow> m' (name + of_nat j) = m (name + of_nat j)" by blast
  then show ?thesis using assms(1)
  proof (induction xs arbitrary: name)
    case Nil
    then show ?case using Nil(1) [of 0] by simp
  next
    case (Cons x xs)
    have "m' name = m name" using Cons.prems(1) [of 0] by simp
    moreover have "cstr m' (name + 1) xs"
      by (rule Cons.IH) (use Cons.prems(1) [of "Suc j" for j] Cons.prems(2) in \<open>simp_all add: add.assoc\<close>)
    ultimately show ?case using Cons.prems(2) by simp
  qed
qed

lemma strncpy_name:
  assumes "cstr m name xs" "string_apart name xs obj n" "8 \<le> n"
  shows "object_name (rt_strncpy obj name 8 m) obj = take 8 xs"
proof -
  have "obj + of_nat i \<noteq> name + of_nat j" if "i < 8" "j \<le> length xs" for i j
  proof
    assume e: "obj + of_nat i = name + of_nat j"
    have "name + of_nat j - obj = of_nat i" unfolding e [symmetric] by simp
    then have "unat (name + of_nat j - obj) = i" using that(1) by (simp add: unat_of_nat)
    then show False using assms(2,3) that unfolding string_apart_def by fastforce
  qed
  then have "strncpy_loop obj name 8 m = padded obj xs 8 m" by (intro strncpy_padded [OF assms(1)]) simp_all
  then show ?thesis using name_at_padded [OF cstr_no_zero [OF assms(1)], of 8 obj m] by (simp add: rt_strncpy_def object_name_def)
qed

lemma strncpy_type: "object_type (rt_strncpy obj name 8 m) obj = object_type m obj"
proof -
  have "only_in obj 8 m (strncpy_loop obj name 8 m)" by (rule strncpy_only_in) simp
  moreover have "\<not> unat (obj + 8 - obj) < 8" by simp
  ultimately show ?thesis unfolding only_in_def object_type_def rt_strncpy_def by fastforce
qed

lemma strncpy_in: "8 \<le> n \<Longrightarrow> only_in obj n m (rt_strncpy obj name 8 m)"
  using only_in_mono [OF strncpy_only_in [of 8 obj m name]] by (simp add: rt_strncpy_def)

lemma update_in: "i < n \<Longrightarrow> n < 2 ^ 32 \<Longrightarrow> only_in obj n m (m(obj + of_nat i := v))"
  by (simp add: only_in_def unat_of_nat)

section \<open>What the operations do\<close>

lemma init_effect:
  assumes r: "kernel_ready s" and i: "rt_object_get_information ty = Some k" and n: "obj \<notin> set (object_lists s k)"
  obtains s' m where "rt_object_init obj ty name s = Inr s'" "kernel_ready s'"
    "object_lists s' = (object_lists s)(k := obj # object_lists s k)" "os_heap s' = (os_heap s)\<lparr> mem_data := m \<rparr>"
    "only_in obj 20 (object_mem s) m" "object_type m obj = ty OR 0x80"
    "\<And>xs. cstr (object_mem s) name xs \<Longrightarrow> string_apart name xs obj 20 \<Longrightarrow> object_name m obj = take 8 xs"
proof -
  obtain s1 where w: "rt_exit_critical (rt_enter_critical s) = Inr s1" "kernel_ready s1" "os_heap s1 = os_heap s"
      "object_lists s1 = object_lists s" by (rule walk_ready [OF r])
  define m1 where "m1 = set_type (ty OR 0x80) obj (object_mem s)"
  define m where "m = rt_strncpy obj name 8 m1"
  have m1: "only_in obj 20 (object_mem s) m1" using update_in [of 8 20 obj] by (simp add: m1_def set_type_def)
  have "rt_object_init obj ty name s = Inr (insert_object k obj (set_mem_data m s1))"
    using i n w(1,3) by (simp add: rt_object_init_def rt_enter_critical_def Let_def object_mem_def m_def m1_def)
  moreover have "only_in obj 20 (object_mem s) m" unfolding m_def by (rule only_in_trans [OF m1 strncpy_in]) simp
  moreover have "object_type m obj = ty OR 0x80" unfolding m_def strncpy_type by (simp add: m1_def object_type_def set_type_def)
  moreover have "object_name m obj = take 8 xs" if "cstr (object_mem s) name xs" "string_apart name xs obj 20" for xs
    unfolding m_def using cstr_only_in [OF that(1) m1 that(2)] that(2) by (rule strncpy_name) simp
  ultimately show thesis using that w by simp
qed

lemma detach_effect:
  assumes "kernel_ready s" "obj \<noteq> 0"
  obtains s' m where "rt_object_detach obj s = Inr s'" "kernel_ready s'"
    "object_lists s' = (\<lambda>k. remove1 obj (object_lists s k))" "os_heap s' = (os_heap s)\<lparr> mem_data := m \<rparr>"
    "only_in obj 20 (object_mem s) m"
  by (rule that [of "remove_object obj (set_mem_data (set_type 0 obj (object_mem s)) s)"])
    (use assms update_in [of 8 20 obj "object_mem s" 0] in \<open>simp_all add: rt_object_detach_def set_type_def\<close>)

text \<open>Allocation: no room, or a new region for the structure, cleared up to type and name.\<close>

lemma malloc_cases:
  assumes ok: "heap_ok h xs" and s0: "20 \<le> unat sz0" "unat sz0 + 3 < 2 ^ 32"
  obtains "\<not> room_for h xs (request sz0)" "rt_malloc False sz0 h = Some (Inr (h, 0))"
    | h' ys p n where "room_for h xs (request sz0)" "rt_malloc False sz0 h = Some (Inr (h', p))" "heap_ok h' ys" "same_heap h h'"
      "mem_data h' = mem_data h" "sz0 \<le> n" "p \<noteq> 0" "unat p + unat n < 2 ^ 32"
      "allocated h' ys = insert (p, n) (allocated h xs)" "\<forall>y \<in> allocated h xs. apart (p, n) y"
proof -
  have s: "sz0 \<noteq> 0" using s0(1) by auto
  consider "\<not> room_for h xs (request sz0)" "rt_malloc False sz0 h = Some (Inr (h, 0))"
    | h' ys p n where "room_for h xs (request sz0)" "rt_malloc False sz0 h = Some (Inr (h', p))" "heap_ok h' ys" "same_heap h h'"
      "mem_data h' = mem_data h" "request sz0 \<le> n" "allocated h' ys = insert (p, n) (allocated h xs)" "\<forall>y \<in> allocated h xs. apart (p, n) y"
    using malloc_serves [OF ok s s0(2)] by blast
  then show thesis
  proof cases
    case 1
    then show thesis using that(1) by blast
  next
    case (2 h' ys p n)
    have c: "heap_core h' ys" "(p, n) \<in> allocated h' ys" using 2(3,7) by (simp_all add: heap_ok_def)
    have "unat (heap_ptr h') + unat (heap_end h') < 2 ^ 32" using c(1) unat_heap_end [OF c(1)] by (simp add: heap_core_def)
    then have "unat p + unat n < 2 ^ 32" using allocated_in_heap(1) [OF c] by (simp add: in_heap_def)
    moreover have "sz0 \<le> n" using request_ok(3) [OF s0(2)] 2(6) unfolding word_le_nat_alt by linarith
    ultimately show thesis using that(2) 2 allocated_in_heap(3) [OF c] by simp
  qed
qed

lemma allocate_unfold:
  assumes r: "interrupt_nest s = 0" and i: "rt_object_get_information ty = Some k"
    and m: "rt_malloc False (sz ty) (os_heap s) = Some (Inr (h, p))"
  shows "rt_object_allocate sz ty name s = Some (Inr (if p = 0 then (s\<lparr> os_heap := h \<rparr>, 0) else
    (insert_object k p (set_mem_data (rt_strncpy p name 8 ((set_type ty p (rt_memset p 0 (sz ty) (mem_data h)))(p + 9 := 0)))
      (s\<lparr> os_heap := h \<rparr>)), p)))"
  by (simp add: rt_object_allocate_def r i information_class(3) [OF i] m Let_def object_mem_def)

lemma allocate_effect:
  assumes r: "kernel_ready s" and i: "rt_object_get_information ty = Some k" and sz: "sizes_ok sz" and ok: "heap_ok (os_heap s) xs"
  obtains "\<not> room_for (os_heap s) xs (request (sz ty))" "rt_object_allocate sz ty name s = Some (Inr (s, 0))"
    | s' ys p n where "room_for (os_heap s) xs (request (sz ty))" "rt_object_allocate sz ty name s = Some (Inr (s', p))" "kernel_ready s'"
        "object_lists s' = (object_lists s)(k := p # object_lists s k)" "p \<noteq> 0" "unat p + unat n < 2 ^ 32" "sz ty \<le> n"
        "heap_ok (os_heap s') ys" "same_heap (os_heap s) (os_heap s')" "allocated (os_heap s') ys = insert (p, n) (allocated (os_heap s) xs)"
        "\<forall>y \<in> allocated (os_heap s) xs. apart (p, n) y"
        "only_in p (unat (sz ty)) (object_mem s) (object_mem s')" "object_type (object_mem s') p = ty"
        "\<forall>j. 9 \<le> j \<longrightarrow> j < unat (sz ty) \<longrightarrow> object_mem s' (p + of_nat j) = 0"
        "\<And>cs. cstr (object_mem s) name cs \<Longrightarrow> string_apart name cs p (unat (sz ty)) \<Longrightarrow> object_name (object_mem s') p = take 8 cs"
proof -
  have nest: "interrupt_nest s = 0" using r by (simp add: kernel_ready_def)
  have s0: "20 \<le> unat (sz ty)" "unat (sz ty) + 3 < 2 ^ 32" using sz by (simp_all add: sizes_ok_def)
  show thesis
  proof (cases rule: malloc_cases [OF ok s0])
    case 1
    have "s\<lparr> os_heap := os_heap s \<rparr> = s" by (cases s) simp
    then show thesis using that(1) 1 allocate_unfold [where sz = sz and ty = ty and name = name, OF nest i 1(2)] by simp
  next
    case (2 h ys p n)
    define m1 where "m1 = (set_type ty p (rt_memset p 0 (sz ty) (mem_data h)))(p + 9 := 0)"
    define m where "m = rt_strncpy p name 8 m1"
    define s' where "s' = insert_object k p (set_mem_data m (s\<lparr> os_heap := h \<rparr>))"
    have f: "rt_memset p 0 (sz ty) (mem_data h) = filled p 0 (unat (sz ty)) (mem_data h)" by (simp add: memset_filled)
    have o1: "only_in p (unat (sz ty)) (mem_data h) m1"
    proof -
      have "only_in p (unat (sz ty)) (mem_data h) (filled p 0 (unat (sz ty)) (mem_data h))" by (simp add: only_in_def filled_def)
      then have "only_in p (unat (sz ty)) (mem_data h) (set_type ty p (rt_memset p 0 (sz ty) (mem_data h)))"
        unfolding f set_type_def using update_in [of 8 "unat (sz ty)" p] s0 by (auto intro: only_in_trans)
      then show ?thesis unfolding m1_def using update_in [of 9 "unat (sz ty)" p] s0 by (auto intro: only_in_trans)
    qed
    have o2: "only_in p (unat (sz ty)) (mem_data h) m" unfolding m_def by (rule only_in_trans [OF o1 strncpy_in]) (use s0 in simp)
    have t: "object_type m p = ty" unfolding m_def strncpy_type by (simp add: m1_def object_type_def set_type_def)
    have z: "m (p + of_nat j) = 0" if "9 \<le> j" "j < unat (sz ty)" for j
    proof -
      have u: "unat (of_nat j :: u32) = j" using that(2) s0(2) by (intro unat_small) simp
      then have "m (p + of_nat j) = m1 (p + of_nat j)"
        using strncpy_only_in [of 8 p m1 name] that(1) unfolding only_in_def m_def rt_strncpy_def by fastforce
      moreover have "(of_nat j :: u32) \<noteq> 8" using u that(1) by auto
      ultimately show ?thesis using u that by (simp add: m1_def set_type_def f filled_def)
    qed
    have nm: "object_name m p = take 8 cs" if "cstr (object_mem s) name cs" "string_apart name cs p (unat (sz ty))" for cs
    proof -
      have c: "cstr (mem_data h) name cs" using that(1) 2(5) by (simp add: object_mem_def)
      show ?thesis unfolding m_def using cstr_only_in [OF c o1 that(2)] that(2) by (rule strncpy_name) (use s0 in simp)
    qed
    have "rt_object_allocate sz ty name s = Some (Inr (s', p))"
      using allocate_unfold [where sz = sz and ty = ty and name = name, OF nest i 2(2)] 2(7) by (simp add: s'_def m_def m1_def)
    moreover have "kernel_ready s'" "object_lists s' = (object_lists s)(k := p # object_lists s k)"
      "os_heap s' = h\<lparr> mem_data := m \<rparr>" "object_mem s' = m"
      using r by (simp_all add: s'_def object_mem_def)
    ultimately show thesis using that(2) [of s' p n ys] 2 o2 t z nm by (simp add: object_mem_def)
  qed
qed

lemma delete_effect:
  assumes r: "kernel_ready s" and o: "obj \<noteq> 0" "\<not> is_static (object_mem s) obj" and ok: "heap_ok (os_heap s) xs"
    and a: "(obj, n) \<in> allocated (os_heap s) xs"
  obtains s' ys where "rt_object_delete obj s = Inr s'" "kernel_ready s'" "object_lists s' = (\<lambda>k. remove1 obj (object_lists s k))"
    "heap_ok (os_heap s') ys" "same_heap (os_heap s) (os_heap s')" "allocated (os_heap s') ys = allocated (os_heap s) xs - {(obj, n)}"
    "only_in obj 20 (object_mem s) (object_mem s')"
proof -
  define m where "m = set_type 0 obj (object_mem s)"
  define h where "h = (os_heap s)\<lparr> mem_data := m \<rparr>"
  have ok': "heap_ok h xs" "(obj, n) \<in> allocated h xs" using ok a by (simp_all add: h_def)
  obtain h' ys where f: "rt_free False obj h = Inr h'" "heap_ok h' ys" "same_heap h h'" "mem_data h' = mem_data h"
      "allocated h' ys = allocated h xs - {(obj, n)}" by (rule free_serves [OF ok']) (rule that)
  define s' where "s' = (remove_object obj (set_mem_data m s))\<lparr> os_heap := h' \<rparr>"
  have "rt_object_delete obj s = Inr s'"
    using o f(1) r by (simp add: rt_object_delete_def is_static_def Let_def s'_def h_def m_def kernel_ready_def)
  moreover have "kernel_ready s'" "object_lists s' = (\<lambda>k. remove1 obj (object_lists s k))" "os_heap s' = h'"
    using r by (simp_all add: s'_def)
  moreover have "same_heap (os_heap s) h'" using f(3) by (simp add: h_def same_heap_def heap_end_def)
  moreover have "only_in obj 20 (object_mem s) (object_mem s')"
    using update_in [of 8 20 obj "object_mem s" 0] f(4) \<open>os_heap s' = h'\<close> by (simp add: object_mem_def h_def m_def set_type_def)
  ultimately show thesis using that f(2,5) by (simp add: h_def)
qed

end
