(* ===== verification/ObjectSystem.thy ===== *)
theory ObjectSystem
  imports Object
begin

text \<open>
  The properties of the object system: every sequence of its calls keeps the objects typed, a name is found again,
  and creation and deletion are inverse. The calls are the steps of a relation (\<open>object_step\<close>), with what the callers
  of the kernel must obey as conditions.
\<close>

section \<open>Each operation keeps the objects typed\<close>

lemma objects_insert: "object_lists s' = (object_lists s)(k := a # object_lists s k) \<Longrightarrow> objects s' = insert a (objects s)"
  by (auto simp: in_objects split: if_splits)

lemma object_init_ok:
  assumes ok: "objects_ok sz s xs" and sz: "sizes_ok sz" and i: "rt_object_get_information ty = Some k"
    and new: "obj \<notin> objects s" "outside_heap (os_heap s) obj" "\<forall>a \<in> objects s. is_static (object_mem s) a \<longrightarrow> apart (obj, 20) (a, 20)"
    and r: "object_lists s' = (object_lists s)(k := obj # object_lists s k)" "os_heap s' = (os_heap s)\<lparr> mem_data := m \<rparr>"
      "only_in obj 20 (object_mem s) m" "object_type m obj = ty OR 0x80"
  shows "objects_ok sz s' xs"
proof -
  note D = objects_okD [OF ok]
  have c: "heap_core (os_heap s) xs" using D(1) by (simp add: heap_ok_def)
  note ob = objects_insert [OF r(1)]
  have m': "object_mem s' = m" by (simp add: object_mem_def r(2))
  have o20: "unat obj + 20 < 2 ^ 32" using new(2) by (simp add: outside_heap_def)
  have keep: "same_header (object_mem s) m a" if a: "a \<in> objects s" for a
  proof -
    obtain j where j: "a \<in> set (object_lists s j)" using a by (auto simp: in_objects)
    have "apart (a, 20) (obj, 20)"
    proof (cases "is_static (object_mem s) a")
      case True
      then show ?thesis using new(3) a by (blast intro: apart_sym)
    next
      case False
      then obtain n where n: "(a, n) \<in> allocated (os_heap s) xs" "sz (class_type j) \<le> n"
        using D(5) [OF j] by (auto simp: well_typed_def object_mem_def)
      have "20 \<le> n" using n(2) sz unfolding sizes_ok_def word_le_nat_alt by (simp, meson le_trans)
      then show ?thesis using static_apart_region [OF new(2) c n(1)] by (auto intro: apart_mono apart_sym)
    qed
    then show ?thesis using header_kept [of obj 20 "object_mem s" m a] r(3) o20 typed_fits(2) [OF D(5) [OF j] D(1) sz] by simp
  qed
  have st: "is_static m obj" "object_type m obj AND NOT 0x80 = class_type k"
    using information_class(2,4,5) [OF i] by (simp_all add: is_static_def r(4) bit.conj_disj_distrib2 word_bw_lcs word_ao_dist)
  have "well_typed sz (os_heap s') xs j a" if a: "a \<in> set (object_lists s' j)" for j a
  proof (cases "a = obj")
    case True
    then have "j = k" using a new(1) by (auto simp: r(1) in_objects split: if_splits)
    then show ?thesis using True st new(2) by (simp add: well_typed_def r(2) outside_heap_def heap_end_def)
  next
    case False
    then have "a \<in> set (object_lists s j)" using a by (auto simp: r(1) split: if_splits)
    then show ?thesis using typed_kept [OF D(5), of a j "os_heap s'"] keep
      by (auto simp: in_objects object_mem_def r(2) same_heap_def heap_end_def)
  qed
  moreover have "apart (a, 20) (b, 20)" if "a \<in> objects s'" "b \<in> objects s'" "a \<noteq> b" "is_static m a" "is_static m b" for a b
    using that new(3) D(6) keep [THEN same_headerD(3)] unfolding ob by (metis apart_sym insertE)
  moreover have "distinct (object_lists s' j)" for j using D(3) new(1) by (auto simp: r(1) in_objects)
  moreover have "set (object_lists s' i) \<inter> set (object_lists s' j) = {}" if "i \<noteq> j" for i j
    using that D(4) new(1) by (auto simp: r(1) in_objects)
  ultimately show ?thesis using D(1,2) information_class(1) [OF i] unfolding objects_ok_def m' by (auto simp: r(1,2))
qed

text \<open>An object that leaves its list; its region may be released with it.\<close>

lemma remove_ok:
  assumes ok: "objects_ok sz s xs" and sz: "sizes_ok sz" and o: "obj \<in> objects s"
    and r: "object_lists s' = (\<lambda>k. remove1 obj (object_lists s k))" "heap_ok (os_heap s') ys" "same_heap (os_heap s) (os_heap s')"
      "\<And>a n. (a, n) \<in> allocated (os_heap s) xs \<Longrightarrow> a \<noteq> obj \<Longrightarrow> (a, n) \<in> allocated (os_heap s') ys"
      "only_in obj 20 (object_mem s) (object_mem s')"
  shows "objects_ok sz s' ys"
proof -
  note D = objects_okD [OF ok]
  have rem: "set (object_lists s' j) = set (object_lists s j) - {obj}" for j using D(3) by (simp add: r(1) set_remove1_eq)
  have ob: "objects s' = objects s - {obj}" by (auto simp: in_objects rem)
  obtain i where i: "obj \<in> set (object_lists s i)" using o by (auto simp: in_objects)
  have keep: "same_header (object_mem s) (object_mem s') a" if a: "a \<in> objects s" "a \<noteq> obj" for a
  proof -
    obtain j where j: "a \<in> set (object_lists s j)" using a by (auto simp: in_objects)
    show ?thesis using header_kept [of obj 20 "object_mem s" "object_mem s'" a] r(5) objects_apart [OF ok sz a(1) o a(2)]
        typed_fits(2) [OF D(5) [OF j] D(1) sz] typed_fits(2) [OF D(5) [OF i] D(1) sz] by simp
  qed
  have "well_typed sz (os_heap s') ys j a" if a: "a \<in> set (object_lists s' j)" for j a
    by (rule typed_kept [OF D(5) r(3)]) (use a keep [of a] r(4) in \<open>auto simp: rem in_objects object_mem_def\<close>)
  moreover have "apart (a, 20) (b, 20)" if "a \<in> objects s'" "b \<in> objects s'" "a \<noteq> b" "is_static (object_mem s') a" "is_static (object_mem s') b" for a b
    using that D(6) keep [THEN same_headerD(3)] unfolding ob by blast
  moreover have "distinct (object_lists s' j)" for j using D(3) by (simp add: r(1))
  moreover have "set (object_lists s' i) \<inter> set (object_lists s' j) = {}" if "i \<noteq> j" for i j
    using that D(4) by (auto simp: rem)
  ultimately show ?thesis using D(2) r(2) unfolding objects_ok_def by (auto simp: r(1))
qed

lemma allocated_new:
  assumes ok: "objects_ok sz s xs" and sz: "sizes_ok sz" and a: "a \<in> objects s"
    and p: "heap_ok h ys" "same_heap (os_heap s) h" "allocated h ys = insert (p, n) (allocated (os_heap s) xs)"
      "\<forall>y \<in> allocated (os_heap s) xs. apart (p, n) y" "20 \<le> unat n"
  shows "a \<noteq> p" "apart (a, 20) (p, n)"
proof -
  obtain j where j: "a \<in> set (object_lists s j)" using a by (auto simp: in_objects)
  note D = objects_okD [OF ok]
  have c: "heap_core h ys" using p(1) by (simp add: heap_ok_def)
  have "apart (a, 20) (p, n)"
  proof (cases "is_static (object_mem s) a")
    case True
    then have "outside_heap h a" using D(5) [OF j] p(2) by (simp add: well_typed_def object_mem_def outside_heap_def same_heap_def)
    then show ?thesis using static_apart_region [OF _ c] p(3) by blast
  next
    case False
    then obtain n' where n: "(a, n') \<in> allocated (os_heap s) xs" "sz (class_type j) \<le> n'"
      using D(5) [OF j] by (auto simp: well_typed_def object_mem_def)
    have "20 \<le> n'" using n(2) sz unfolding sizes_ok_def word_le_nat_alt by (simp, meson le_trans)
    moreover have "apart (a, n') (p, n)" using p(4) n(1) by (blast intro: apart_sym)
    ultimately show ?thesis by (auto intro: apart_mono)
  qed
  then show "apart (a, 20) (p, n)" "a \<noteq> p" using p(5) by (auto simp: apart_def)
qed

lemma allocate_ok:
  assumes ok: "objects_ok sz s xs" and sz: "sizes_ok sz" and i: "rt_object_get_information ty = Some k"
    and r: "object_lists s' = (object_lists s)(k := p # object_lists s k)" "unat p + unat n < 2 ^ 32" "sz ty \<le> n"
      "heap_ok (os_heap s') ys" "same_heap (os_heap s) (os_heap s')" "allocated (os_heap s') ys = insert (p, n) (allocated (os_heap s) xs)"
      "\<forall>y \<in> allocated (os_heap s) xs. apart (p, n) y"
      "only_in p (unat (sz ty)) (object_mem s) (object_mem s')" "object_type (object_mem s') p = ty"
  shows "objects_ok sz s' ys" "p \<notin> objects s" "\<And>a. a \<in> objects s \<Longrightarrow> same_header (object_mem s) (object_mem s') a"
proof -
  note D = objects_okD [OF ok]
  have n20: "20 \<le> unat n" using r(3) sz unfolding sizes_ok_def word_le_nat_alt by (meson le_trans)
  note new = allocated_new [OF ok sz _ r(4-7) n20]
  show pn: "p \<notin> objects s" using new(1) by blast
  note ob = objects_insert [OF r(1)]
  show keep: "same_header (object_mem s) (object_mem s') a" if a: "a \<in> objects s" for a
  proof -
    obtain j where j: "a \<in> set (object_lists s j)" using a by (auto simp: in_objects)
    have "only_in p (unat n) (object_mem s) (object_mem s')" using r(8,3) by (auto intro: only_in_mono simp: word_le_nat_alt)
    then show ?thesis using header_kept new(2) [OF a] r(2) typed_fits(2) [OF D(5) [OF j] D(1) sz] by blast
  qed
  have st: "\<not> is_static (object_mem s') p" "object_type (object_mem s') p AND NOT 0x80 = class_type k"
    using information_class(2,4,5) [OF i] by (simp_all add: is_static_def r(9))
  have "well_typed sz (os_heap s') ys j a" if a: "a \<in> set (object_lists s' j)" for j a
  proof (cases "a = p")
    case True
    then have "j = k" using a pn by (auto simp: r(1) in_objects split: if_splits)
    then show ?thesis using True st r(3,6) information_class(2) [OF i] by (auto simp: well_typed_def object_mem_def)
  next
    case False
    then have "a \<in> set (object_lists s j)" using a by (auto simp: r(1) split: if_splits)
    then show ?thesis using typed_kept [OF D(5) r(5), of a j] keep r(6) by (auto simp: in_objects object_mem_def)
  qed
  moreover have "apart (a, 20) (b, 20)"
    if "a \<in> objects s'" "b \<in> objects s'" "a \<noteq> b" "is_static (object_mem s') a" "is_static (object_mem s') b" for a b
    using that st(1) D(6) keep [THEN same_headerD(3)] unfolding ob by (metis insertE)
  moreover have "distinct (object_lists s' j)" for j using D(3) pn by (auto simp: r(1) in_objects)
  moreover have "set (object_lists s' i) \<inter> set (object_lists s' j) = {}" if "i \<noteq> j" for i j
    using that D(4) pn by (auto simp: r(1) in_objects)
  ultimately show "objects_ok sz s' ys" using D(2) r(4) information_class(1) [OF i] unfolding objects_ok_def by (auto simp: r(1))
qed

section \<open>The calls as steps\<close>

text \<open>A static object must be new, outside of the heap and apart from the other static objects; an object that is detached
  or deleted must be in its list. Other parts of the system may allocate memory and write where no object is.\<close>

inductive object_step :: "(u8 \<Rightarrow> u32) \<Rightarrow> osys \<Rightarrow> osys \<Rightarrow> bool" for sz where
  Init: "obj \<notin> objects s \<Longrightarrow> outside_heap (os_heap s) obj \<Longrightarrow>
    \<forall>a \<in> objects s. is_static (object_mem s) a \<longrightarrow> apart (obj, 20) (a, 20) \<Longrightarrow>
    rt_object_init obj ty name s = Inr s' \<Longrightarrow> object_step sz s s'"
| Detach: "obj \<in> objects s \<Longrightarrow> rt_object_detach obj s = Inr s' \<Longrightarrow> object_step sz s s'"
| Allocate: "rt_object_allocate sz ty name s = Some (Inr (s', obj)) \<Longrightarrow> object_step sz s s'"
| Delete: "obj \<in> objects s \<Longrightarrow> rt_object_delete obj s = Inr s' \<Longrightarrow> object_step sz s s'"
| Find: "rt_object_find name ty s = Inr (s', obj) \<Longrightarrow> object_step sz s s'"
| Malloc: "20 \<le> unat n \<Longrightarrow> unat n + 3 < 2 ^ 32 \<Longrightarrow> rt_malloc False n (os_heap s) = Some (Inr (h, p)) \<Longrightarrow>
    object_step sz s (s\<lparr> os_heap := h \<rparr>)"
| Write: "\<forall>a \<in> objects s. same_header (object_mem s) m a \<Longrightarrow> object_step sz s (set_mem_data m s)"

lemma find_effect:
  assumes r: "kernel_ready s" and i: "rt_object_get_information ty = Some k"
  obtains s' where "rt_object_find name ty s = Inr (s', if name = 0 then 0 else find_object (object_mem s) name (object_lists s k))"
    "kernel_ready s'" "os_heap s' = os_heap s" "object_lists s' = object_lists s"
proof (cases "name = 0")
  case True
  then show thesis using that [of s] r by (simp add: rt_object_find_def)
next
  case False
  obtain s' where w: "rt_exit_critical (rt_enter_critical s) = Inr s'" "kernel_ready s'" "os_heap s' = os_heap s" "object_lists s' = object_lists s"
    by (rule walk_ready [OF r])
  have "ty = 1 \<or> ty = 2 \<or> ty = 3 \<or> ty = 4 \<or> ty = 5 \<or> ty = 6 \<or> ty = 8 \<or> ty = 9 \<or> ty = 10"
    using i by (auto simp: rt_object_get_information_def rt_object_container_def split: if_splits)
  then have "\<not> ty > 12" by auto
  moreover have "interrupt_nest s = 0" using r by (simp add: kernel_ready_def)
  ultimately show thesis using that [of s'] w i False
    by (simp add: rt_object_find_def Let_def rt_enter_critical_def object_mem_def)
qed

lemma step_kept:
  assumes "objects_ok sz s xs" "kernel_ready s" "sizes_ok sz" "object_step sz s s'"
  shows "kernel_ready s' \<and> (\<exists>ys. objects_ok sz s' ys)"
  using assms(4)
proof cases
  case (Init obj ty name)
  obtain k where k: "rt_object_get_information ty = Some k" using Init(4) by (auto simp: rt_object_init_def split: option.splits)
  have n: "obj \<notin> set (object_lists s k)" using Init(1) by (auto simp: in_objects)
  obtain s1 m where e: "rt_object_init obj ty name s = Inr s1" "kernel_ready s1"
      "object_lists s1 = (object_lists s)(k := obj # object_lists s k)" "os_heap s1 = (os_heap s)\<lparr> mem_data := m \<rparr>"
      "only_in obj 20 (object_mem s) m" "object_type m obj = ty OR 0x80"
    by (rule init_effect [OF assms(2) k n, of name])
  then show ?thesis using Init(4) object_init_ok [OF assms(1,3) k Init(1-3) e(3-6)] by auto
next
  case (Detach obj)
  obtain k where "obj \<in> set (object_lists s k)" using Detach(1) by (auto simp: in_objects)
  note ty = objects_okD(5) [OF assms(1) this]
  obtain s1 m where e: "rt_object_detach obj s = Inr s1" "kernel_ready s1"
      "object_lists s1 = (\<lambda>k. remove1 obj (object_lists s k))" "os_heap s1 = (os_heap s)\<lparr> mem_data := m \<rparr>"
      "only_in obj 20 (object_mem s) m"
    by (rule detach_effect [OF assms(2) typed_fits(1) [OF ty objects_okD(1) [OF assms(1)] assms(3)]])
  have "objects_ok sz s1 xs"
    by (rule remove_ok [OF assms(1,3) Detach(1) e(3)])
      (use e(4,5) objects_okD(1) [OF assms(1)] in \<open>simp_all add: same_heap_def heap_end_def object_mem_def\<close>)
  then show ?thesis using Detach(2) e(1,2) by auto
next
  case (Allocate ty name obj)
  obtain k where k: "rt_object_get_information ty = Some k"
    using Allocate assms(2) by (auto simp: rt_object_allocate_def kernel_ready_def split: option.splits if_splits)
  show ?thesis
  proof (cases rule: allocate_effect [OF assms(2) k assms(3) objects_okD(1) [OF assms(1)], of name])
    case 1
    then show ?thesis using Allocate assms(1,2) by auto
  next
    case (2 s1 ys p n)
    have "objects_ok sz s1 ys" by (rule allocate_ok(1) [OF assms(1,3) k 2(4,6-13)])
    then show ?thesis using Allocate 2(2,3) by auto
  qed
next
  case (Delete obj)
  obtain k where k: "obj \<in> set (object_lists s k)" using Delete(1) by (auto simp: in_objects)
  note ty = objects_okD(5) [OF assms(1) k]
  have ns: "\<not> is_static (object_mem s) obj"
    using Delete(2) by (auto simp: rt_object_delete_def is_static_def rassert_eq_Inr)
  then obtain n where n: "(obj, n) \<in> allocated (os_heap s) xs" using ty by (auto simp: well_typed_def object_mem_def)
  obtain s1 ys where e: "rt_object_delete obj s = Inr s1" "kernel_ready s1" "object_lists s1 = (\<lambda>k. remove1 obj (object_lists s k))"
      "heap_ok (os_heap s1) ys" "same_heap (os_heap s) (os_heap s1)" "allocated (os_heap s1) ys = allocated (os_heap s) xs - {(obj, n)}"
      "only_in obj 20 (object_mem s) (object_mem s1)"
    by (rule delete_effect [OF assms(2) typed_fits(1) [OF ty objects_okD(1) [OF assms(1)] assms(3)] ns objects_okD(1) [OF assms(1)] n])
  have "objects_ok sz s1 ys" by (rule remove_ok [OF assms(1,3) Delete(1) e(3-5) _ e(7)]) (simp add: e(6))
  then show ?thesis using Delete(2) e(1,2) by auto
next
  case (Find name ty obj)
  have "rt_object_get_information ty \<noteq> None \<or> s' = s"
    using Find by (auto simp: rt_object_find_def rassert_eq_Inr Let_def split: option.splits if_splits)
  then consider "s' = s" | k where "rt_object_get_information ty = Some k" by auto
  then show ?thesis
  proof cases
    case 2
    show ?thesis by (rule find_effect [OF assms(2) 2, of name]) (use Find assms(1) in \<open>auto simp: objects_ok_def objects_def object_mem_def\<close>)
  qed (use assms in auto)
next
  case (Malloc n h p)
  note D = objects_okD [OF assms(1)]
  have kept: "objects_ok sz (s\<lparr> os_heap := h \<rparr>) ys"
    if h: "heap_ok h ys" "same_heap (os_heap s) h" "mem_data h = mem_data (os_heap s)" "allocated (os_heap s) xs \<subseteq> allocated h ys" for ys
  proof -
    have "well_typed sz h ys k a" if "a \<in> set (object_lists s k)" for k a
      by (rule typed_kept [OF D(5) [OF that] h(2)]) (use h in \<open>auto simp: same_header_def\<close>)
    then show ?thesis using assms(1) h(1,3) by (auto simp: objects_ok_def objects_def object_mem_def)
  qed
  have "\<exists>ys. objects_ok sz (s\<lparr> os_heap := h \<rparr>) ys"
  proof (cases rule: malloc_cases [OF D(1) Malloc(2,3)])
    case 1
    then have "h = os_heap s" using Malloc(4) by simp
    then show ?thesis using kept [of xs] D(1) by auto
  next
    case (2 h' ys q m)
    then have "h' = h" using Malloc(4) by simp
    then have "objects_ok sz (s\<lparr> os_heap := h \<rparr>) ys" using kept [of ys] 2(3-5,9) by auto
    then show ?thesis by blast
  qed
  then show ?thesis using Malloc(1) assms(2) by simp
next
  case (Write m)
  note D = objects_okD [OF assms(1)]
  have "well_typed sz ((os_heap s)\<lparr> mem_data := m \<rparr>) xs k a" if "a \<in> set (object_lists s k)" for k a
    by (rule typed_kept [OF D(5) [OF that]]) (use Write(2) that in \<open>auto simp: in_objects object_mem_def same_heap_def heap_end_def\<close>)
  moreover have "is_static m a = is_static (object_mem s) a" if "a \<in> objects s" for a
    by (rule same_headerD(3) [OF bspec [OF Write(2) that]])
  ultimately have "objects_ok sz (set_mem_data m s) xs"
    using assms(1) by (simp add: objects_ok_def objects_def object_mem_def)
  then show ?thesis using Write(1) assms(2) by auto
qed

section \<open>Properties\<close>

text \<open>C15: Whatever sequence of calls of the object system, allocations and writes to other memory happens, as long as the callers obey
  the conditions of \<open>object_step\<close>: every object is in one list, the type read from its memory is that of the list, an object
  that is not static is an allocated region that holds the structure of its class, and no call on an object of a list stops at an
  assertion: its type can be read, it can be detached, and if it is not static it can be deleted.\<close>

theorem objects_stay_typed:
  assumes "objects_ok sz s xs" and "kernel_ready s" and "sizes_ok sz" and "(object_step sz)\<^sup>*\<^sup>* s s'"
  shows "\<exists>ys. \<forall>k obj. obj \<in> set (object_lists s' k) \<longrightarrow> (\<forall>j. j \<noteq> k \<longrightarrow> obj \<notin> set (object_lists s' j)) \<and>
    rt_object_get_type obj s' = Inr (class_type k) \<and> (\<exists>s2. rt_object_detach obj s' = Inr s2) \<and>
    (\<exists>b. rt_object_is_systemobject obj s' = Inr b \<and>
       (\<not> b \<longrightarrow> (\<exists>n. (obj, n) \<in> allocated (os_heap s') ys \<and> sz (class_type k) \<le> n) \<and> (\<exists>s2. rt_object_delete obj s' = Inr s2)))"
proof -
  have "kernel_ready s' \<and> (\<exists>ys. objects_ok sz s' ys)"
    using assms(4) by (induction rule: rtranclp_induct) (use assms(1,2) step_kept [OF _ _ assms(3)] in blast)+
  then obtain ys where ok: "objects_ok sz s' ys" and r: "kernel_ready s'" by blast
  note D = objects_okD [OF ok]
  have "rt_object_get_type obj s' = Inr (class_type k) \<and> (\<exists>s2. rt_object_detach obj s' = Inr s2) \<and>
    (\<exists>b. rt_object_is_systemobject obj s' = Inr b \<and>
       (\<not> b \<longrightarrow> (\<exists>n. (obj, n) \<in> allocated (os_heap s') ys \<and> sz (class_type k) \<le> n) \<and> (\<exists>s2. rt_object_delete obj s' = Inr s2)))"
    if o: "obj \<in> set (object_lists s' k)" for k obj
  proof -
    note ty = D(5) [OF o]
    have nz: "obj \<noteq> 0" by (rule typed_fits(1) [OF ty D(1) assms(3)])
    have del: "\<exists>s2. rt_object_delete obj s' = Inr s2"
      if "\<not> is_static (object_mem s') obj" "(obj, n) \<in> allocated (os_heap s') ys" for n
      by (rule delete_effect [OF r nz that(1) D(1) that(2)]) blast
    show ?thesis using nz ty del
      by (auto simp: rt_object_get_type_def rt_object_detach_def rt_object_is_systemobject_def well_typed_def object_mem_def is_static_def)
  qed
  then show ?thesis using D(4) by blast
qed

text \<open>C36: \<^verbatim>\<open>rt_object_find\<close> for a class of the configuration returns the newest object of the class whose name agrees with the given one in the first
  8 characters, \<^verbatim>\<open>RT_NULL\<close> if there is none, and changes no object; \<^verbatim>\<open>rt_device_find\<close> and \<^verbatim>\<open>rt_thread_find\<close> do the same in their lists.\<close>

theorem rt_object_find_newest:
  assumes "kernel_ready s" and "rt_object_get_information ty = Some k" and "name \<noteq> 0"
  shows "\<exists>s'. rt_object_find name ty s = Inr (s',
      case filter (\<lambda>obj. object_name (object_mem s) obj = object_name (object_mem s) name) (object_lists s k) of [] \<Rightarrow> 0 | obj # _ \<Rightarrow> obj) \<and>
    os_heap s' = os_heap s \<and> object_lists s' = object_lists s \<and>
    (\<exists>s2. locked_find ty name s = Inr (s2, find_object (object_mem s) name (object_lists s k)) \<and>
       os_heap s2 = os_heap s \<and> object_lists s2 = object_lists s)"
proof -
  obtain s' where f: "rt_object_find name ty s = Inr (s', if name = 0 then 0 else find_object (object_mem s) name (object_lists s k))"
      "os_heap s' = os_heap s" "object_lists s' = object_lists s" by (rule find_effect [OF assms(1,2)])
  have "\<exists>s2. locked_find ty name s = Inr (s2, find_object (object_mem s) name (object_lists s k)) \<and>
       os_heap s2 = os_heap s \<and> object_lists s2 = object_lists s"
  proof (cases "current_thread s = None")
    case True
    then show ?thesis using assms(2) by (simp add: locked_find_def Let_def)
  next
    case False
    obtain s2 where w: "rt_exit_critical (rt_enter_critical s) = Inr s2" "os_heap s2 = os_heap s" "object_lists s2 = object_lists s"
      by (rule walk_ready [OF assms(1)])
    then show ?thesis using False assms(2) by (simp add: locked_find_def Let_def rt_enter_critical_def object_mem_def)
  qed
  then show ?thesis using f assms(3) unfolding find_object_first by auto
qed

text \<open>The directory of a class: its objects with their names.\<close>

definition directory :: "osys \<Rightarrow> nat \<Rightarrow> (u32 \<times> bytes) list" where
  "directory s k = map (\<lambda>obj. (obj, object_name (object_mem s) obj)) (object_lists s k)"

lemma directory_kept:
  assumes "\<And>a. a \<in> set objs \<Longrightarrow> same_header m m' a"
  shows "map (\<lambda>obj. (obj, object_name m' obj)) objs = map (\<lambda>obj. (obj, object_name m obj)) objs"
  using assms same_headerD(2) by auto

text \<open>A string outside of the heap, such as a literal.\<close>

definition string_outside :: "heap \<Rightarrow> u32 \<Rightarrow> bytes \<Rightarrow> bool" where
  "string_outside h name cs \<longleftrightarrow> unat name + length cs < 2 ^ 32 \<and>
     (unat name + length cs < unat (heap_ptr h) \<or> unat (heap_ptr h) + unat (heap_end h) \<le> unat name)"

lemma string_outside_apart:
  assumes s: "string_outside h name cs" and i: "in_heap h (p, n)" "unat p + unat n < 2 ^ 32" and k: "k \<le> unat n"
  shows "string_apart name cs p k"
  unfolding string_apart_def
proof (intro allI impI)
  fix j assume j: "j \<le> length cs"
  have u: "unat (name + of_nat j) = unat name + j" using s j by (simp add: string_outside_def unat_word_ariths unat_of_nat)
  show "k \<le> unat (name + of_nat j - p)"
  proof (cases "unat p \<le> unat name + j")
    case True
    then have "unat (name + of_nat j - p) = unat name + j - unat p" using u by (simp add: unat_sub word_le_nat_alt)
    then show ?thesis using s i k j True by (auto simp: string_outside_def in_heap_def)
  next
    case False
    then have "unat (name + of_nat j - p) = unat name + j + 2 ^ 32 - unat p"
      using u unat_u32_less [of p] by (simp add: unat_sub_if' word_le_nat_alt)
    then show ?thesis using i(2) k by simp
  qed
qed

text \<open>C21: \<^verbatim>\<open>rt_object_allocate\<close> either returns \<^verbatim>\<open>RT_NULL\<close>, when the heap has no room for the structure of the class, and changes
  nothing; or it puts one new entry, with the first 8 characters of the given name, in front of the directory of the class, leaves the other
  directories and every other object alone, and clears the rest of the structure. \<^verbatim>\<open>rt_object_find\<close> with that name then returns the new
  object, and \<^verbatim>\<open>rt_object_delete\<close> of it restores all directories and the set of allocated regions.\<close>

theorem rt_object_create_find_delete:
  assumes "objects_ok sz s xs" and "kernel_ready s" and "sizes_ok sz" and "rt_object_get_information ty = Some k"
    and "cstr (object_mem s) name cs" and "string_outside (os_heap s) name cs" and "name \<noteq> 0"
  shows "if room_for (os_heap s) xs (request (sz ty))
    then \<exists>s' ys p. rt_object_allocate sz ty name s = Some (Inr (s', p)) \<and> objects_ok sz s' ys \<and> p \<notin> objects s \<and>
      directory s' = (directory s)(k := (p, take 8 cs) # directory s k) \<and> rt_object_get_type p s' = Inr ty \<and>
      (\<forall>i. 9 \<le> i \<longrightarrow> i < unat (sz ty) \<longrightarrow> object_mem s' (p + of_nat i) = 0) \<and>
      (\<exists>s2. rt_object_find name ty s' = Inr (s2, p)) \<and>
      (\<exists>s3 zs. rt_object_delete p s' = Inr s3 \<and> directory s3 = directory s \<and> objects_ok sz s3 zs \<and>
         allocated (os_heap s3) zs = allocated (os_heap s) xs)
    else rt_object_allocate sz ty name s = Some (Inr (s, 0))"
proof (cases rule: allocate_effect [OF assms(2,4,3) objects_okD(1) [OF assms(1)], of name])
  case 1
  then show ?thesis by simp
next
  case (2 s' ys p n)
  note A = allocate_ok [OF assms(1,3,4) 2(4,6-13)]
  note D' = objects_okD [OF A(1)]
  have c: "heap_core (os_heap s') ys" using 2(8) by (simp add: heap_ok_def)
  have inp: "(p, n) \<in> allocated (os_heap s') ys" using 2(10) by simp
  have kn: "unat (sz ty) \<le> unat n" using 2(7) by (simp add: word_le_nat_alt)
  have ih: "in_heap (os_heap s) (p, n)" using allocated_in_heap(1) [OF c inp] 2(9) by (simp add: in_heap_def same_heap_def)
  have p20: "unat p + 20 < 2 ^ 32" "0 < unat n"
  proof -
    have "20 \<le> unat (sz ty)" using assms(3) by (simp add: sizes_ok_def)
    then show "unat p + 20 < 2 ^ 32" "0 < unat n" using kn 2(6) by linarith+
  qed
  have sa: "string_apart name cs p (unat (sz ty))" by (rule string_outside_apart [OF assms(6) ih 2(6) kn])
  have nm: "object_name (object_mem s') p = take 8 cs" by (rule 2(15) [OF assms(5) sa])
  have dir: "directory s' = (directory s)(k := (p, take 8 cs) # directory s k)"
  proof
    fix j
    have "map (\<lambda>obj. (obj, object_name (object_mem s') obj)) (object_lists s j) = directory s j"
      unfolding directory_def by (rule directory_kept, rule A(3)) (auto simp: in_objects)
    then show "directory s' j = ((directory s)(k := (p, take 8 cs) # directory s k)) j" by (simp add: directory_def 2(4) nm)
  qed
  have ty: "rt_object_get_type p s' = Inr ty"
    using 2(5,13) information_class(5) [OF assms(4)] by (simp add: rt_object_get_type_def)
  have cs': "object_name (object_mem s') name = take 8 cs"
    using name_at_cstr [OF cstr_only_in [OF assms(5) 2(12) sa], of 8] by (simp add: object_name_def)
  have "find_object (object_mem s') name (object_lists s' k) = p" by (simp add: find_object_first 2(4) nm cs')
  moreover obtain s2 where "rt_object_find name ty s' = Inr (s2, if name = 0 then 0 else find_object (object_mem s') name (object_lists s' k))"
    by (rule find_effect [OF 2(3) assms(4)])
  ultimately have found: "\<exists>s2. rt_object_find name ty s' = Inr (s2, p)" using assms(7) by auto
  have ns: "\<not> is_static (object_mem s') p" using information_class(4) [OF assms(4)] by (simp add: is_static_def 2(13))
  have po: "p \<in> objects s'" by (auto simp: in_objects 2(4))
  obtain s3 zs where d: "rt_object_delete p s' = Inr s3" "kernel_ready s3" "object_lists s3 = (\<lambda>k. remove1 p (object_lists s' k))"
      "heap_ok (os_heap s3) zs" "same_heap (os_heap s') (os_heap s3)" "allocated (os_heap s3) zs = allocated (os_heap s') ys - {(p, n)}"
      "only_in p 20 (object_mem s') (object_mem s3)"
    by (rule delete_effect [OF 2(3,5) ns 2(8) inp])
  have ok3: "objects_ok sz s3 zs" by (rule remove_ok [OF A(1) assms(3) po d(3-5) _ d(7)]) (simp add: d(6))
  have l3: "object_lists s3 = object_lists s"
    using A(2) by (auto simp: d(3) 2(4) in_objects remove1_idem)
  have "directory s3 j = directory s j" for j
  proof -
    have "same_header (object_mem s) (object_mem s3) a" if a: "a \<in> set (object_lists s j)" for a
    proof -
      have ao: "a \<in> objects s" using a by (auto simp: in_objects)
      have ap: "a \<in> objects s'" "a \<noteq> p" using ao A(2) by (auto simp: in_objects 2(4) split: if_splits)
      obtain i where i: "a \<in> set (object_lists s' i)" using ap(1) by (auto simp: in_objects)
      have "same_header (object_mem s') (object_mem s3) a"
        by (rule header_kept [of p 20]) (use d(7) objects_apart [OF A(1) assms(3) ap(1) po ap(2)]
          typed_fits(2) [OF D'(5) [OF i] D'(1) assms(3)] p20 in simp_all)
      then show ?thesis using A(3) [OF ao] by (simp add: same_header_def)
    qed
    then show ?thesis unfolding directory_def l3 by (rule directory_kept)
  qed
  moreover have "allocated (os_heap s3) zs = allocated (os_heap s) xs"
  proof -
    have "(p, n) \<notin> allocated (os_heap s) xs" using 2(11) p20(2) by (auto simp: apart_def dest!: bspec)
    then show ?thesis by (simp add: d(6) 2(10))
  qed
  ultimately have "\<exists>s3 zs. rt_object_delete p s' = Inr s3 \<and> directory s3 = directory s \<and> objects_ok sz s3 zs \<and>
      allocated (os_heap s3) zs = allocated (os_heap s) xs" using d(1) ok3 by (auto simp: fun_eq_iff)
  with 2(2,14) A(1,2) dir ty found show ?thesis unfolding if_P [OF 2(1)] by (intro exI [of _ s'] exI [of _ ys] exI [of _ p]) blast
qed

section \<open>Witnesses\<close>

text \<open>The scheduler of theory \<^verbatim>\<open>Sched\<close> with an empty heap, the literal "led" at address 0x100 and the named headers of
  two devices, "led" at 0x300 and "key" at 0x200.\<close>

definition sample_mem :: mem where
  "sample_mem = (\<lambda>_. 0)(0x100 := 108, 0x101 := 101, 0x102 := 100, 0x200 := 107, 0x201 := 101, 0x202 := 121,
     0x300 := 108, 0x301 := 101, 0x302 := 100)"

definition sample_osys :: "(nat \<Rightarrow> u32 list) \<Rightarrow> osys" where
  "sample_osys ls = ksys.extend sample_sched \<lparr> os_heap = sample_heap\<lparr> mem_data := sample_mem \<rparr>, object_lists = ls \<rparr>"

lemma sample_ready: "kernel_ready (sample_osys ls)"
proof -
  have "sched_inv {} (sample_osys ls) = sched_inv {} sample_sched"
    by (rule sched_inv_cong) (simp_all add: sample_osys_def ksys.extend_def)
  then show ?thesis using sample_sched_inv
    by (simp add: kernel_ready_def lock_room_def) (simp add: sample_osys_def ksys.extend_def sample_sched_def)
qed

lemma sample_osys_fields [simp]:
  "os_heap (sample_osys ls) = sample_heap\<lparr> mem_data := sample_mem \<rparr>" "object_lists (sample_osys ls) = ls" "object_mem (sample_osys ls) = sample_mem"
  by (simp_all add: object_mem_def) (simp_all add: sample_osys_def ksys.extend_def)

definition sample_sizes :: "u8 \<Rightarrow> u32" where
  "sample_sizes c = 32"

lemma sample_objects:
  "objects_ok sample_sizes (sample_osys (\<lambda>_. [])) [(heap_end sample_heap, False)]" "sizes_ok sample_sizes"
  "rt_object_get_information 2 = Some 1" "cstr sample_mem 0x100 [108, 101, 100]"
  by (simp_all add: objects_ok_def objects_def sample_heap_ok(1) sizes_ok_def sample_sizes_def rt_object_get_information_def
      rt_object_container_def sample_mem_def)

lemma sample_heap_room: "room_for (sample_heap\<lparr> mem_data := sample_mem \<rparr>) [(heap_end sample_heap, False)] (request 32)"
proof -
  have "request 32 = 32" by (simp add: request_def rt_align_def Let_def)
  then show ?thesis using sample_heap_ok by (simp add: room_search search_room_def)
qed

theorem objects_stay_typed_witness:
  "\<exists>s p. rt_object_allocate sample_sizes 2 0x100 (sample_osys (\<lambda>_. [])) = Some (Inr (s, p)) \<and> rt_object_get_type p s = Inr 2"
proof -
  note S = sample_objects
  obtain s p where s: "rt_object_allocate sample_sizes 2 0x100 (sample_osys (\<lambda>_. [])) = Some (Inr (s, p))" "p \<in> set (object_lists s 1)"
    by (cases rule: allocate_effect [OF sample_ready S(3,2) objects_okD(1) [OF S(1)], of "0x100"])
      (use sample_heap_room in \<open>auto simp: sample_sizes_def\<close>)
  have "(object_step sample_sizes)\<^sup>*\<^sup>* (sample_osys (\<lambda>_. [])) s" using object_step.Allocate [OF s(1)] by (rule r_into_rtranclp)
  from objects_stay_typed [OF S(1) sample_ready S(2) this] s(2) have "rt_object_get_type p s = Inr (class_type 1)" by blast
  then show ?thesis using s(1) by (auto simp: class_type_def rt_object_container_def)
qed

lemma name_four: "name_at m a (Suc (Suc (Suc (Suc n)))) = (if m a = 0 then [] else m a # (if m (a + 1) = 0 then [] else m (a + 1) #
  (if m (a + 2) = 0 then [] else m (a + 2) # (if m (a + 3) = 0 then [] else m (a + 3) # name_at m (a + 4) n))))"
  by (simp add: add.commute [of a])

lemma name_8: "name_at m a 8 = (if m a = 0 then [] else m a # (if m (a + 1) = 0 then [] else m (a + 1) #
  (if m (a + 2) = 0 then [] else m (a + 2) # (if m (a + 3) = 0 then [] else m (a + 3) # name_at m (a + 4) 4))))"
proof -
  have "8 = Suc (Suc (Suc (Suc 4)))" by simp
  then show ?thesis using name_four [of m a 4] by (simp only:)
qed

theorem rt_object_find_newest_witness:
  "\<exists>s. rt_object_find 0x100 9 (sample_osys (\<lambda>k. if k = 7 then [0x200, 0x300] else [])) = Inr (s, 0x300)"
proof -
  let ?s = "sample_osys (\<lambda>k. if k = 7 then [0x200, 0x300] else [])"
  have i: "rt_object_get_information 9 = Some 7" by (simp add: rt_object_get_information_def rt_object_container_def)
  have n: "object_name sample_mem 0x100 = [108, 101, 100]" "object_name sample_mem 0x200 = [107, 101, 121]"
    "object_name sample_mem 0x300 = [108, 101, 100]"
    by (simp_all add: object_name_def name_8 sample_mem_def)
  have f: "filter (\<lambda>obj. object_name (object_mem ?s) obj = object_name (object_mem ?s) 0x100) (object_lists ?s 7) = [0x300]"
    by (simp add: n)
  have "(0x100 :: u32) \<noteq> 0" by simp
  from rt_object_find_newest [OF sample_ready i this, of "\<lambda>k. if k = 7 then [0x200, 0x300] else []"] show ?thesis
    unfolding f by auto
qed

theorem rt_object_create_find_delete_witness:
  "\<exists>s p s2 s3. rt_object_allocate sample_sizes 2 0x100 (sample_osys (\<lambda>_. [])) = Some (Inr (s, p)) \<and>
     directory s 1 = [(p, [108, 101, 100])] \<and> rt_object_find 0x100 2 s = Inr (s2, p) \<and> rt_object_delete p s = Inr s3 \<and> directory s3 1 = []"
proof -
  note S = sample_objects
  have "unat (heap_ptr sample_heap) = 0x20001004"
    by (simp add: sample_heap_def rt_system_heap_init_def Let_def rt_align_def rt_align_down_def)
  then have o: "string_outside (sample_heap\<lparr> mem_data := sample_mem \<rparr>) 0x100 [108, 101, 100]" by (simp add: string_outside_def)
  have d: "directory (sample_osys (\<lambda>_. [])) 1 = []" by (simp add: directory_def)
  have r: "room_for (os_heap (sample_osys (\<lambda>_. []))) [(heap_end sample_heap, False)] (request (sample_sizes 2))"
    using sample_heap_room by (simp add: sample_sizes_def)
  have c: "cstr (object_mem (sample_osys (\<lambda>_. []))) 0x100 [108, 101, 100]" "string_outside (os_heap (sample_osys (\<lambda>_. []))) 0x100 [108, 101, 100]"
    using S(4) o by simp_all
  from rt_object_create_find_delete [OF S(1) sample_ready S(2,3) c] have
    "\<exists>s p s2 s3. rt_object_allocate sample_sizes 2 0x100 (sample_osys (\<lambda>_. [])) = Some (Inr (s, p)) \<and>
      directory s = (directory (sample_osys (\<lambda>_. [])))(1 := (p, take 8 [108, 101, 100]) # directory (sample_osys (\<lambda>_. [])) 1) \<and>
      rt_object_find 0x100 2 s = Inr (s2, p) \<and> rt_object_delete p s = Inr s3 \<and> directory s3 = directory (sample_osys (\<lambda>_. []))"
    unfolding if_P [OF r] by auto
  then show ?thesis using d by auto
qed

end
