(* ===== verification/Device.thy ===== *)
theory Device
  imports Prelude
begin

text \<open>
  The device layer, \<^verbatim>\<open>src/device.c\<close>: activation, reference counts and open flags in front of a driver. The
  driver's operations are optional functions on the state of its device, which extends the record here. A driver
  that keeps the contract \<open>counting_driver\<close> has reference counts that count.
\<close>

section \<open>State\<close>

text \<open>Device flags and open flags of \<^verbatim>\<open>include/rtdef.h\<close>.\<close>

definition RT_DEVICE_FLAG_STANDALONE :: u16 where "RT_DEVICE_FLAG_STANDALONE = 0x008"
definition RT_DEVICE_FLAG_ACTIVATED :: u16 where "RT_DEVICE_FLAG_ACTIVATED = 0x010"
definition RT_DEVICE_FLAG_STREAM :: u16 where "RT_DEVICE_FLAG_STREAM = 0x040"
definition RT_DEVICE_OFLAG_OPEN :: u16 where "RT_DEVICE_OFLAG_OPEN = 0x008"
definition RT_DEVICE_OFLAG_MASK :: u16 where "RT_DEVICE_OFLAG_MASK = 0xf0f"

text \<open>Callbacks are known by their address.\<close>

record device =
  dev_flag :: u16
  dev_open_flag :: u16
  dev_ref_count :: u8
  rx_indicate :: "u32 option"
  tx_complete :: "u32 option"

text \<open>\<open>'d\<close> is the state of the device, \<open>'c\<close> the argument and \<open>'r\<close> the result of a control call. A read gives the
  number of bytes and the bytes. A write that does not return is \<open>None\<close>.\<close>

record ('d, 'c, 'r) driver =
  device_init :: "('d \<Rightarrow> (rt_err \<times> 'd) res) option"
  device_open :: "(u16 \<Rightarrow> 'd \<Rightarrow> (rt_err \<times> 'd) res) option"
  device_close :: "('d \<Rightarrow> (rt_err \<times> 'd) res) option"
  device_read :: "(nat \<Rightarrow> 'd \<Rightarrow> (bytes \<times> 'd) res) option"
  device_write :: "(bytes \<Rightarrow> 'd \<Rightarrow> (nat \<times> 'd) res option) option"
  device_control :: "('c \<Rightarrow> 'd \<Rightarrow> (rt_err \<times> 'r \<times> 'd) res) option"

section \<open>Operations\<close>

definition rt_device_register :: "u16 \<Rightarrow> bool \<Rightarrow> 'a device_scheme \<Rightarrow> 'a device_scheme \<times> rt_err" where
  "rt_device_register flags name_taken dev =
     (if name_taken then (dev, - RT_ERROR)
      else (dev\<lparr> dev_flag := flags, dev_ref_count := 0, dev_open_flag := 0 \<rparr>, RT_EOK))"

definition rt_device_init ::
  "('a device_scheme, 'c, 'r) driver \<Rightarrow> 'a device_scheme \<Rightarrow> (rt_err \<times> 'a device_scheme) res" where
  "rt_device_init drv dev =
     (case device_init drv of None \<Rightarrow> Inr (RT_EOK, dev)
      | Some init \<Rightarrow>
          if dev_flag dev AND RT_DEVICE_FLAG_ACTIVATED = 0
          then rbind (init dev) (\<lambda>(result, dev).
            Inr (result, if result \<noteq> RT_EOK then dev else dev\<lparr> dev_flag := dev_flag dev OR RT_DEVICE_FLAG_ACTIVATED \<rparr>))
          else Inr (RT_EOK, dev))"

text \<open>The first part of \<^verbatim>\<open>rt_device_open\<close>: the initialisation of a device that is not active.\<close>

definition open_activate ::
  "('a device_scheme, 'c, 'r) driver \<Rightarrow> 'a device_scheme \<Rightarrow> (rt_err \<times> 'a device_scheme) res" where
  "open_activate drv dev =
     (if dev_flag dev AND RT_DEVICE_FLAG_ACTIVATED = 0
      then rbind (case device_init drv of None \<Rightarrow> Inr (RT_EOK, dev) | Some init \<Rightarrow> init dev) (\<lambda>(result, dev).
        Inr (result, if result \<noteq> RT_EOK then dev else dev\<lparr> dev_flag := dev_flag dev OR RT_DEVICE_FLAG_ACTIVATED \<rparr>))
      else Inr (RT_EOK, dev))"

definition rt_device_open ::
  "('a device_scheme, 'c, 'r) driver \<Rightarrow> u16 \<Rightarrow> 'a device_scheme \<Rightarrow> (rt_err \<times> 'a device_scheme) res" where
  "rt_device_open drv oflag dev = rbind (open_activate drv dev) (\<lambda>(result, dev).
     if result \<noteq> RT_EOK then Inr (result, dev)
     else if dev_flag dev AND RT_DEVICE_FLAG_STANDALONE \<noteq> 0 \<and> dev_open_flag dev AND RT_DEVICE_OFLAG_OPEN \<noteq> 0
     then Inr (- RT_EBUSY, dev)
     else rbind (case device_open drv of Some op \<Rightarrow> op oflag dev
         | None \<Rightarrow> Inr (RT_EOK, dev\<lparr> dev_open_flag := oflag AND RT_DEVICE_OFLAG_MASK \<rparr>)) (\<lambda>(result, dev).
       if result = RT_EOK \<or> result = - RT_ENOSYS
       then let dev = dev\<lparr> dev_open_flag := dev_open_flag dev OR RT_DEVICE_OFLAG_OPEN, dev_ref_count := dev_ref_count dev + 1 \<rparr>
         in rassert (dev_ref_count dev \<noteq> 0) (Inr (result, dev))
       else Inr (result, dev)))"

definition rt_device_close ::
  "('a device_scheme, 'c, 'r) driver \<Rightarrow> 'a device_scheme \<Rightarrow> (rt_err \<times> 'a device_scheme) res" where
  "rt_device_close drv dev =
     (if dev_ref_count dev = 0 then Inr (- RT_ERROR, dev)
      else let dev = dev\<lparr> dev_ref_count := dev_ref_count dev - 1 \<rparr> in
        if dev_ref_count dev \<noteq> 0 then Inr (RT_EOK, dev)
        else rbind (case device_close drv of None \<Rightarrow> Inr (RT_EOK, dev) | Some cl \<Rightarrow> cl dev) (\<lambda>(result, dev).
          Inr (result, if result = RT_EOK \<or> result = - RT_ENOSYS then dev\<lparr> dev_open_flag := 0 \<rparr> else dev)))"

text \<open>The error number that \<^verbatim>\<open>rt_device_read\<close> and \<^verbatim>\<open>rt_device_write\<close> set, if any, is the first result.\<close>

definition rt_device_read ::
  "('a device_scheme, 'c, 'r) driver \<Rightarrow> nat \<Rightarrow> 'a device_scheme \<Rightarrow> (rt_err option \<times> bytes \<times> 'a device_scheme) res" where
  "rt_device_read drv n dev =
     (if dev_ref_count dev = 0 then Inr (Some (- RT_ERROR), [], dev)
      else (case device_read drv of None \<Rightarrow> Inr (Some (- RT_ENOSYS), [], dev)
        | Some rd \<Rightarrow> rbind (rd n dev) (\<lambda>(bs, dev). Inr (None, bs, dev))))"

definition rt_device_write ::
  "('a device_scheme, 'c, 'r) driver \<Rightarrow> bytes \<Rightarrow> 'a device_scheme \<Rightarrow> (rt_err option \<times> nat \<times> 'a device_scheme) res option" where
  "rt_device_write drv bs dev =
     (if dev_ref_count dev = 0 then Some (Inr (Some (- RT_ERROR), 0, dev))
      else (case device_write drv of None \<Rightarrow> Some (Inr (Some (- RT_ENOSYS), 0, dev))
        | Some wr \<Rightarrow> map_option (\<lambda>r. rbind r (\<lambda>(k, dev). Inr (None, k, dev))) (wr bs dev)))"

definition rt_device_control ::
  "('a device_scheme, 'c, 'r) driver \<Rightarrow> 'r \<Rightarrow> 'c \<Rightarrow> 'a device_scheme \<Rightarrow> (rt_err \<times> 'r \<times> 'a device_scheme) res" where
  "rt_device_control drv nothing cmd dev =
     (case device_control drv of None \<Rightarrow> Inr (- RT_ENOSYS, nothing, dev) | Some ctl \<Rightarrow> ctl cmd dev)"

definition rt_device_set_rx_indicate :: "u32 option \<Rightarrow> 'a device_scheme \<Rightarrow> 'a device_scheme \<times> rt_err" where
  "rt_device_set_rx_indicate f dev = (dev\<lparr> rx_indicate := f \<rparr>, RT_EOK)"

definition rt_device_set_tx_complete :: "u32 option \<Rightarrow> 'a device_scheme \<Rightarrow> 'a device_scheme \<times> rt_err" where
  "rt_device_set_tx_complete f dev = (dev\<lparr> tx_complete := f \<rparr>, RT_EOK)"

section \<open>Reference counts\<close>

text \<open>A history of opening and closing, and the results of its calls.\<close>

datatype device_call = Open u16 | Close

fun run_calls :: "('a device_scheme, 'c, 'r) driver \<Rightarrow> device_call list \<Rightarrow> 'a device_scheme \<Rightarrow> (rt_err list \<times> 'a device_scheme) res" where
  "run_calls drv [] dev = Inr ([], dev)"
| "run_calls drv (c # cs) dev =
     rbind (case c of Open oflag \<Rightarrow> rt_device_open drv oflag dev | Close \<Rightarrow> rt_device_close drv dev) (\<lambda>(r, dev).
     rbind (run_calls drv cs dev) (\<lambda>(rs, dev). Inr (r # rs, dev)))"

text \<open>The opens and the closes that succeeded.\<close>

definition opened :: "device_call list \<Rightarrow> rt_err list \<Rightarrow> nat" where
  "opened cs rs = length (filter (\<lambda>(c, r). c \<noteq> Close \<and> r = RT_EOK) (zip cs rs))"

definition closed :: "device_call list \<Rightarrow> rt_err list \<Rightarrow> nat" where
  "closed cs rs = length (filter (\<lambda>(c, r). c = Close \<and> r = RT_EOK) (zip cs rs))"

lemma opened_simps [simp]:
  "opened [] rs = 0"
  "opened (Open oflag # cs) (r # rs) = (if r = RT_EOK then 1 else 0) + opened cs rs"
  "opened (Close # cs) (r # rs) = opened cs rs"
  by (auto simp: opened_def)

lemma closed_simps [simp]:
  "closed [] rs = 0"
  "closed (Open oflag # cs) (r # rs) = closed cs rs"
  "closed (Close # cs) (r # rs) = (if r = RT_EOK then 1 else 0) + closed cs rs"
  by (auto simp: closed_def)

definition flag_matches_count :: "'a device_scheme \<Rightarrow> bool" where
  "flag_matches_count dev \<longleftrightarrow> (dev_open_flag dev AND RT_DEVICE_OFLAG_OPEN \<noteq> 0 \<longleftrightarrow> dev_ref_count dev \<noteq> 0)"

lemma unat_plus_one: "x + 1 \<noteq> 0 \<Longrightarrow> unat (x + 1) = unat x + 1" for x :: "'a::len word"
proof -
  assume ne: "x + 1 \<noteq> 0"
  have e: "unat (x + 1) = (unat x + 1) mod 2 ^ LENGTH('a)" by (simp add: unat_word_ariths mod_simps)
  have "unat x < 2 ^ LENGTH('a)" by (rule unsigned_less)
  moreover have "unat x + 1 \<noteq> 2 ^ LENGTH('a)" using ne e by (metis mod_self unsigned_eq_0_iff)
  ultimately show ?thesis unfolding e by (intro mod_less) linarith
qed

text \<open>What the device layer asks of a driver: its operations leave the reference count alone, an open that fails
  leaves the open flag as it was, no operation is missing, and a close succeeds.\<close>

locale counting_driver =
  fixes drv :: "('a device_scheme, 'c, 'r) driver"
  assumes init_law: "device_init drv = Some f \<Longrightarrow> f dev = Inr (r, dev') \<Longrightarrow>
      dev_ref_count dev' = dev_ref_count dev \<and> dev_open_flag dev' = dev_open_flag dev"
    and open_law: "device_open drv = Some g \<Longrightarrow> g oflag dev = Inr (r, dev') \<Longrightarrow>
      dev_ref_count dev' = dev_ref_count dev \<and> r \<noteq> - RT_ENOSYS \<and> (r \<noteq> RT_EOK \<longrightarrow> dev_open_flag dev' = dev_open_flag dev)"
    and close_law: "device_close drv = Some h \<Longrightarrow> h dev = Inr (r, dev') \<Longrightarrow> dev_ref_count dev' = dev_ref_count dev \<and> r = RT_EOK"
begin

lemma activate:
  "open_activate drv dev = Inr (r, dev') \<Longrightarrow> dev_ref_count dev' = dev_ref_count dev \<and> dev_open_flag dev' = dev_open_flag dev"
  using init_law by (auto simp: open_activate_def rbind_eq_Inr split: if_splits option.splits)

lemma open_bit: "(x OR RT_DEVICE_OFLAG_OPEN) AND RT_DEVICE_OFLAG_OPEN \<noteq> 0"
proof -
  have "(x OR RT_DEVICE_OFLAG_OPEN) AND RT_DEVICE_OFLAG_OPEN = RT_DEVICE_OFLAG_OPEN" by (rule bit_word_eqI) (auto simp: bit_simps)
  then show ?thesis by (simp add: RT_DEVICE_OFLAG_OPEN_def)
qed

lemma counted_open:
  assumes run: "rt_device_open drv oflag dev = Inr (r, dev')" and ok: "flag_matches_count dev"
  shows "flag_matches_count dev' \<and> unat (dev_ref_count dev') = unat (dev_ref_count dev) + (if r = RT_EOK then 1 else 0)"
proof -
  obtain r1 d1 where act: "open_activate drv dev = Inr (r1, d1)" using run by (auto simp: rt_device_open_def rbind_eq_Inr)
  have d1: "dev_ref_count d1 = dev_ref_count dev" "dev_open_flag d1 = dev_open_flag dev" using activate [OF act] by auto
  show ?thesis
  proof (cases "r1 \<noteq> RT_EOK \<or> dev_flag d1 AND RT_DEVICE_FLAG_STANDALONE \<noteq> 0 \<and> dev_open_flag d1 AND RT_DEVICE_OFLAG_OPEN \<noteq> 0")
    case True
    then have "r \<noteq> RT_EOK \<and> dev' = d1" using run act by (auto simp: rt_device_open_def split: if_splits)
    then show ?thesis using ok d1 by (simp add: flag_matches_count_def)
  next
    case False
    let ?op = "case device_open drv of Some op \<Rightarrow> op oflag d1
         | None \<Rightarrow> Inr (RT_EOK, d1\<lparr> dev_open_flag := oflag AND RT_DEVICE_OFLAG_MASK \<rparr>)"
    obtain r2 d2 where op: "?op = Inr (r2, d2)" using run act False by (auto simp: rt_device_open_def rbind_eq_Inr)
    have d2: "dev_ref_count d2 = dev_ref_count d1" "r2 \<noteq> - RT_ENOSYS" "r2 \<noteq> RT_EOK \<Longrightarrow> dev_open_flag d2 = dev_open_flag d1"
      using op open_law by (auto split: option.splits)
    define d3 where "d3 = d2\<lparr> dev_open_flag := dev_open_flag d2 OR RT_DEVICE_OFLAG_OPEN, dev_ref_count := dev_ref_count d2 + 1 \<rparr>"
    have c: "\<not> r1 \<noteq> RT_EOK" "\<not> (dev_flag d1 AND RT_DEVICE_FLAG_STANDALONE \<noteq> 0 \<and> dev_open_flag d1 AND RT_DEVICE_OFLAG_OPEN \<noteq> 0)"
      using False by auto
    have e: "rt_device_open drv oflag dev = (if r2 = RT_EOK then rassert (dev_ref_count d3 \<noteq> 0) (Inr (r2, d3)) else Inr (r2, d2))"
      unfolding rt_device_open_def act rbind_simps prod.case if_not_P [OF c(1)] if_not_P [OF c(2)] op Let_def d3_def [symmetric]
      using d2(2) by simp
    show ?thesis
    proof (cases "r2 = RT_EOK")
      case True
      then have "dev_ref_count d2 + 1 \<noteq> 0" "dev' = d3" "r = RT_EOK"
        using run unfolding e by (auto simp: rassert_eq_Inr d3_def)
      then show ?thesis using d1 d2(1) open_bit by (simp add: flag_matches_count_def d3_def unat_plus_one)
    next
      case False
      then show ?thesis using run e d1 d2 ok by (simp add: flag_matches_count_def)
    qed
  qed
qed

lemma counted_close:
  assumes run: "rt_device_close drv dev = Inr (r, dev')" and ok: "flag_matches_count dev"
  shows "flag_matches_count dev' \<and> unat (dev_ref_count dev') + (if r = RT_EOK then 1 else 0) = unat (dev_ref_count dev)"
proof (cases "dev_ref_count dev = 0")
  case True
  then show ?thesis using run ok by (auto simp: rt_device_close_def)
next
  case False
  define dd where "dd = dev\<lparr> dev_ref_count := dev_ref_count dev - 1 \<rparr>"
  have c: "unat (dev_ref_count dev - 1) + 1 = unat (dev_ref_count dev)" using False by (simp add: unat_minus_one unat_gt_0)
  show ?thesis
  proof (cases "dev_ref_count dev - 1 = 0")
    case False
    then show ?thesis using run ok c \<open>dev_ref_count dev \<noteq> 0\<close> by (auto simp: rt_device_close_def flag_matches_count_def)
  next
    case True
    have e: "rt_device_close drv dev = rbind (case device_close drv of None \<Rightarrow> Inr (RT_EOK, dd) | Some cl \<Rightarrow> cl dd) (\<lambda>(result, dev).
        Inr (result, if result = RT_EOK \<or> result = - RT_ENOSYS then dev\<lparr> dev_open_flag := 0 \<rparr> else dev))"
      unfolding rt_device_close_def if_not_P [OF False] Let_def dd_def [symmetric] using True by (simp add: dd_def)
    have "rbind (case device_close drv of None \<Rightarrow> Inr (RT_EOK, dd) | Some cl \<Rightarrow> cl dd) (\<lambda>(result, dev).
        Inr (result, if result = RT_EOK \<or> result = - RT_ENOSYS then dev\<lparr> dev_open_flag := 0 \<rparr> else dev)) = Inr (r, dev')"
      using run unfolding e .
    then obtain r2 d2 where cl: "(case device_close drv of None \<Rightarrow> Inr (RT_EOK, dd) | Some cl \<Rightarrow> cl dd) = Inr (r2, d2)"
      unfolding rbind_eq_Inr by auto
    have "dev_ref_count d2 = dev_ref_count dd \<and> r2 = RT_EOK" using cl close_law [of _ dd] by (auto split: option.splits)
    then have d2: "dev_ref_count d2 = 0" "r2 = RT_EOK" using True by (simp_all add: dd_def)
    have "rt_device_close drv dev = Inr (RT_EOK, d2\<lparr> dev_open_flag := 0 \<rparr>)" unfolding e cl using d2 by simp
    then show ?thesis using run c True d2 by (simp add: flag_matches_count_def)
  qed
qed

lemma counted_calls:
  "run_calls drv cs dev = Inr (rs, dev') \<Longrightarrow> flag_matches_count dev \<Longrightarrow>
   flag_matches_count dev' \<and> unat (dev_ref_count dev') + closed cs rs = unat (dev_ref_count dev) + opened cs rs"
proof (induction cs arbitrary: dev rs)
  case (Cons c cs)
  obtain r d1 rs' where step: "(case c of Open oflag \<Rightarrow> rt_device_open drv oflag dev | Close \<Rightarrow> rt_device_close drv dev) = Inr (r, d1)"
    and rest: "run_calls drv cs d1 = Inr (rs', dev')" and rs: "rs = r # rs'"
    using Cons.prems(1) by (auto simp: rbind_eq_Inr)
  show ?case
  proof (cases c)
    case (Open oflag)
    then have "flag_matches_count d1 \<and> unat (dev_ref_count d1) = unat (dev_ref_count dev) + (if r = RT_EOK then 1 else 0)"
      using counted_open [of oflag dev r d1] step Cons.prems(2) by simp
    then show ?thesis using Cons.IH [OF rest] by (simp add: Open rs)
  next
    case Close
    then have "flag_matches_count d1 \<and> unat (dev_ref_count d1) + (if r = RT_EOK then 1 else 0) = unat (dev_ref_count dev)"
      using counted_close [of dev r d1] step Cons.prems(2) by simp
    then show ?thesis using Cons.IH [OF rest] by (simp add: Close rs split: if_splits)
  qed
qed simp

end

end
