(* ===== verification/KPrintf.thy ===== *)
theory KPrintf
  imports KString Device "HOL-Library.Monad_Syntax"
begin

text \<open>
  The formatted output of \<^verbatim>\<open>src/kservice.c\<close> (with \<^verbatim>\<open>RT_PRINTF_PRECISION\<close>, as the file itself defines). A format
  is the list of its bytes up to the NUL, the arguments are a list of words and strings; both are read only
  and not in the buffer that is written. \<open>None\<close> is what C leaves undefined: an argument that is missing or of
  the wrong kind, and the overflow of an \<^verbatim>\<open>int\<close> in a width. Widths and counts are integers of the model.
\<close>

section \<open>Output\<close>

type_synonym out = "u32 \<times> mem"

text \<open>\<^verbatim>\<open>if (str < end) *str = c; ++ str;\<close>\<close>

definition put :: "u32 \<Rightarrow> u8 \<Rightarrow> out \<Rightarrow> out" where
  "put e c = (\<lambda>(str, m). (str + 1, if str < e then m(str := c) else m))"

section \<open>Numbers\<close>

definition ZEROPAD :: u8 where "ZEROPAD = 1"
definition SIGN :: u8 where "SIGN = 2"
definition PLUS :: u8 where "PLUS = 4"
definition SPACE :: u8 where "SPACE = 8"
definition LEFT :: u8 where "LEFT = 16"
definition SPECIAL :: u8 where "SPECIAL = 32"
definition LARGE :: u8 where "LARGE = 64"

text \<open>\<^verbatim>\<open>"0123456789abcdef"\<close> and \<^verbatim>\<open>"0123456789ABCDEF"\<close>.\<close>

definition small_digits :: "u8 list" where
  "small_digits = [48, 49, 50, 51, 52, 53, 54, 55, 56, 57, 97, 98, 99, 100, 101, 102]"

definition large_digits :: "u8 list" where
  "large_digits = [48, 49, 50, 51, 52, 53, 54, 55, 56, 57, 65, 66, 67, 68, 69, 70]"

definition kdivide :: "u32 \<Rightarrow> int \<Rightarrow> u32 \<times> u32" where
  "kdivide n base = (if base = 10 then (n mod 10, n div 10) else (n mod 16, n div 16))"

lemma unat_div_less: "n \<noteq> (0 :: u32) \<Longrightarrow> unat (snd (kdivide n base)) < unat n"
  using unat_gt_0 [of n] by (simp add: kdivide_def unat_div)

function tmp_digits :: "u8 list \<Rightarrow> int \<Rightarrow> u32 \<Rightarrow> u8 list" where
  "tmp_digits digits base num =
     (if num = 0 then [] else digits ! unat (fst (kdivide num base)) # tmp_digits digits base (snd (kdivide num base)))"
  by pat_completeness auto
termination by (relation "measure (\<lambda>(digits, base, num). unat num)") (auto simp: unat_div_less)

declare tmp_digits.simps [simp del]

text \<open>\<^verbatim>\<open>while (size-- > 0)\<close>, \<^verbatim>\<open>while (i < precision--)\<close> and \<^verbatim>\<open>while (i-- > 0 && (precision_bak != 0))\<close>.\<close>

function pad_loop :: "u32 \<Rightarrow> u8 \<Rightarrow> int \<Rightarrow> out \<Rightarrow> int \<times> out" where
  "pad_loop e c sz out = (if sz > 0 then pad_loop e c (sz - 1) (put e c out) else (sz - 1, out))"
  by pat_completeness auto
termination by (relation "measure (\<lambda>(e, c, sz, out). nat sz)") auto

function zero_loop :: "u32 \<Rightarrow> int \<Rightarrow> int \<Rightarrow> out \<Rightarrow> out" where
  "zero_loop e i precision out = (if i < precision then zero_loop e i (precision - 1) (put e 48 out) else out)"
  by pat_completeness auto
termination by (relation "measure (\<lambda>(e, i, precision, out). nat (precision - i))") auto

declare pad_loop.simps [simp del] zero_loop.simps [simp del]

fun digit_loop :: "u32 \<Rightarrow> u8 list \<Rightarrow> int \<Rightarrow> nat \<Rightarrow> out \<Rightarrow> out" where
  "digit_loop e tmp precision_bak 0 out = out"
| "digit_loop e tmp precision_bak (Suc i) out =
     (if precision_bak \<noteq> 0 then digit_loop e tmp precision_bak i (put e (tmp ! i) out) else out)"

definition print_number :: "u32 \<Rightarrow> u32 \<Rightarrow> int \<Rightarrow> int \<Rightarrow> int \<Rightarrow> u8 \<Rightarrow> out \<Rightarrow> out" where
  "print_number e num base s precision typ out =
     (let precision_bak = precision;
          digits = (if typ AND LARGE \<noteq> 0 then large_digits else small_digits);
          typ = (if typ AND LEFT \<noteq> 0 then typ AND NOT ZEROPAD else typ);
          c = (if typ AND ZEROPAD \<noteq> 0 then 48 else 32);
          (sign, num) = (if typ AND SIGN \<noteq> 0
            then if num <s 0 then (45, - num)
                 else if typ AND PLUS \<noteq> 0 then (43, num)
                 else if typ AND SPACE \<noteq> 0 then (32, num) else (0, num)
            else (0, num));
          tmp = (if num = 0 then [48] else tmp_digits digits base num);
          i = length tmp;
          precision = (if int i > precision then int i else precision);
          sz = s - precision;
          (sz, out) = (if typ AND (ZEROPAD OR LEFT) = 0
            then pad_loop e 32 (if sign \<noteq> 0 \<and> sz > 0 then sz - 1 else sz) out else (sz, out));
          (sz, out) = (if sign \<noteq> 0 then (sz - 1, put e sign out) else (sz, out));
          (sz, out) = (if typ AND LEFT = 0 then pad_loop e c sz out else (sz, out));
          out = zero_loop e (int i) precision out;
          out = digit_loop e tmp precision_bak i out;
          (sz, out) = pad_loop e 32 sz out
      in out)"

section \<open>Directives\<close>

datatype va_arg = Va_word u32 | Va_string "u8 list option"

fun va_word :: "va_arg list \<Rightarrow> (u32 \<times> va_arg list) option" where
  "va_word (Va_word w # args) = Some (w, args)"
| "va_word _ = None"

fun va_string :: "va_arg list \<Rightarrow> (u8 list option \<times> va_arg list) option" where
  "va_string (Va_string s # args) = Some (s, args)"
| "va_string _ = None"

definition isdigit :: "u8 \<Rightarrow> bool" where
  "isdigit c \<longleftrightarrow> ucast c - (48 :: u32) < 10"

fun skip_atoi :: "int \<Rightarrow> u8 list \<Rightarrow> (int \<times> u8 list) option" where
  "skip_atoi i [] = Some (i, [])"
| "skip_atoi i (c # fmt) =
     (if isdigit c then if i * 10 + uint c < 2 ^ 31 then skip_atoi (i * 10 + uint c - 48) fmt else None
      else Some (i, c # fmt))"

text \<open>The flags \<^verbatim>\<open>- + # 0\<close> and the space.\<close>

fun flags_loop :: "u8 \<Rightarrow> u8 list \<Rightarrow> u8 \<times> u8 list" where
  "flags_loop flags [] = (flags, [])"
| "flags_loop flags (c # fmt) =
     (if c = 45 then flags_loop (flags OR LEFT) fmt
      else if c = 43 then flags_loop (flags OR PLUS) fmt
      else if c = 32 then flags_loop (flags OR SPACE) fmt
      else if c = 35 then flags_loop (flags OR SPECIAL) fmt
      else if c = 48 then flags_loop (flags OR ZEROPAD) fmt
      else (flags, c # fmt))"

definition get_field_width :: "u8 \<Rightarrow> u8 list \<Rightarrow> va_arg list \<Rightarrow> (int \<times> u8 \<times> u8 list \<times> va_arg list) option" where
  "get_field_width flags fmt args =
     (case fmt of [] \<Rightarrow> Some (- 1, flags, [], args)
      | c # rest \<Rightarrow>
          if isdigit c then do { (w, fmt) \<leftarrow> skip_atoi 0 fmt; Some (w, flags, fmt, args) }
          else if c = 42 then do { (w, args) \<leftarrow> va_word args;
            if w <s 0 then if sint w = - (2 ^ 31) then None else Some (- sint w, flags OR LEFT, rest, args)
            else Some (sint w, flags, rest, args) }
          else Some (- 1, flags, fmt, args))"

definition get_precision :: "u8 list \<Rightarrow> va_arg list \<Rightarrow> (int \<times> u8 list \<times> va_arg list) option" where
  "get_precision fmt args =
     (case fmt of [] \<Rightarrow> Some (- 1, [], args)
      | c # fmt' \<Rightarrow> if c \<noteq> 46 then Some (- 1, fmt, args)
          else do { (p, fmt, args) \<leftarrow>
              (case fmt' of [] \<Rightarrow> Some (- 1, [], args)
               | d # rest \<Rightarrow> if isdigit d then do { (p, fmt) \<leftarrow> skip_atoi 0 fmt'; Some (p, fmt, args) }
                   else if d = 42 then do { (w, args) \<leftarrow> va_word args; Some (sint w, rest, args) }
                   else Some (- 1, fmt', args));
            Some (if p < 0 then 0 else p, fmt, args) })"

text \<open>The qualifiers \<^verbatim>\<open>h\<close> and \<^verbatim>\<open>l\<close>.\<close>

definition get_qualifier :: "u8 list \<Rightarrow> u8 \<times> u8 list" where
  "get_qualifier fmt = (case fmt of [] \<Rightarrow> (0, []) | c # rest \<Rightarrow> if c = 104 \<or> c = 108 then (c, rest) else (0, fmt))"

text \<open>\<^verbatim>\<open>while (--field_width > 0)\<close> and \<^verbatim>\<open>while (len < field_width--)\<close>.\<close>

function char_pad :: "u32 \<Rightarrow> int \<Rightarrow> out \<Rightarrow> int \<times> out" where
  "char_pad e w out = (if w - 1 > 0 then char_pad e (w - 1) (put e 32 out) else (w - 1, out))"
  by pat_completeness auto
termination by (relation "measure (\<lambda>(e, w, out). nat w)") auto

function string_pad :: "u32 \<Rightarrow> int \<Rightarrow> int \<Rightarrow> out \<Rightarrow> int \<times> out" where
  "string_pad e len w out = (if len < w then string_pad e len (w - 1) (put e 32 out) else (w - 1, out))"
  by pat_completeness auto
termination by (relation "measure (\<lambda>(e, len, w, out). nat (w - len))") auto

declare char_pad.simps [simp del] string_pad.simps [simp del]

definition print_char :: "u32 \<Rightarrow> u8 \<Rightarrow> int \<Rightarrow> u8 \<Rightarrow> out \<Rightarrow> out" where
  "print_char e flags w c out =
     (let (w, out) = (if flags AND LEFT = 0 then char_pad e w out else (w, out));
          out = put e c out;
          (w, out) = char_pad e w out in out)"

definition print_string :: "u32 \<Rightarrow> u8 \<Rightarrow> int \<Rightarrow> int \<Rightarrow> u8 list \<Rightarrow> out \<Rightarrow> out" where
  "print_string e flags w precision s out =
     (let len = int (length s);
          len = (if precision > 0 \<and> len > precision then precision else len);
          (w, out) = (if flags AND LEFT = 0 then string_pad e len w out else (w, out));
          out = fold (put e) (take (nat len) s) out;
          (w, out) = string_pad e len w out in out)"

text \<open>\<^verbatim>\<open>"(NULL)"\<close>\<close>

definition null_string :: "u8 list" where
  "null_string = [40, 78, 85, 76, 76, 41]"

definition get_number :: "u8 \<Rightarrow> u8 \<Rightarrow> va_arg list \<Rightarrow> (u32 \<times> va_arg list) option" where
  "get_number qualifier flags args = do { (w, args) \<leftarrow> va_word args;
     if qualifier = 104 then let h = ucast w :: u16 in Some (if flags AND SIGN \<noteq> 0 then scast h else ucast h, args)
     else Some (w, args) }"

text \<open>Base and flags of \<^verbatim>\<open>o X x d i u\<close>.\<close>

definition integer_format :: "u8 \<Rightarrow> u8 \<Rightarrow> (int \<times> u8) option" where
  "integer_format c flags =
     (if c = 111 then Some (8, flags)
      else if c = 88 then Some (16, flags OR LARGE)
      else if c = 120 then Some (16, flags)
      else if c = 100 \<or> c = 105 then Some (10, flags OR SIGN)
      else if c = 117 then Some (10, flags)
      else None)"

text \<open>The \<^verbatim>\<open>switch\<close> on the conversion: \<^verbatim>\<open>c\<close>, \<^verbatim>\<open>s\<close>, \<^verbatim>\<open>p\<close>, \<^verbatim>\<open>%\<close>, the integers, anything else.\<close>

definition convert :: "u32 \<Rightarrow> u8 \<Rightarrow> int \<Rightarrow> int \<Rightarrow> u8 \<Rightarrow> u8 \<Rightarrow> va_arg list \<Rightarrow> out \<Rightarrow> (va_arg list \<times> out) option" where
  "convert e flags w precision qualifier c args out =
     (if c = 99 then do { (a, args) \<leftarrow> va_word args; Some (args, print_char e flags w (ucast a) out) }
      else if c = 115 then do { (s, args) \<leftarrow> va_string args;
        Some (args, print_string e flags w precision (case s of None \<Rightarrow> null_string | Some s \<Rightarrow> s) out) }
      else if c = 112 then do { (a, args) \<leftarrow> va_word args;
        Some (args, print_number e a 16 (if w = - 1 then 8 else w) precision (if w = - 1 then flags OR ZEROPAD else flags) out) }
      else if c = 37 then Some (args, put e 37 out)
      else (case integer_format c flags of None \<Rightarrow> Some (args, put e c (put e 37 out))
        | Some (base, flags) \<Rightarrow> do { (num, args) \<leftarrow> get_number qualifier flags args;
            Some (args, print_number e num base w precision flags out) }))"

definition conversion :: "u32 \<Rightarrow> u8 \<Rightarrow> int \<Rightarrow> int \<Rightarrow> u8 \<Rightarrow> u8 list \<Rightarrow> va_arg list \<Rightarrow> out \<Rightarrow> (u8 list \<times> va_arg list \<times> out) option" where
  "conversion e flags w precision qualifier fmt args out =
     (case fmt of [] \<Rightarrow> Some ([], args, put e 37 out)
      | c # rest \<Rightarrow> do { (args, out) \<leftarrow> convert e flags w precision qualifier c args out; Some (rest, args, out) })"

text \<open>What follows a \<^verbatim>\<open>%\<close>.\<close>

definition directive :: "u32 \<Rightarrow> u8 list \<Rightarrow> va_arg list \<Rightarrow> out \<Rightarrow> (u8 list \<times> va_arg list \<times> out) option" where
  "directive e fmt args out = do {
     let (flags, fmt) = flags_loop 0 fmt;
     (w, flags, fmt, args) \<leftarrow> get_field_width flags fmt args;
     (precision, fmt, args) \<leftarrow> get_precision fmt args;
     let (qualifier, fmt) = get_qualifier fmt;
     conversion e flags w precision qualifier fmt args out }"

section \<open>The loop\<close>

text \<open>A directive reads on in the format.\<close>

lemma flags_loop_length: "length (snd (flags_loop flags fmt)) \<le> length fmt"
  by (induction flags fmt rule: flags_loop.induct) auto

lemma skip_atoi_length: "skip_atoi i fmt = Some (w, fmt') \<Longrightarrow> length fmt' \<le> length fmt"
  by (induction i fmt rule: skip_atoi.induct) (auto split: if_splits)

lemma field_width_length: "get_field_width flags fmt args = Some (w, flags', fmt', args') \<Longrightarrow> length fmt' \<le> length fmt"
  by (auto simp: get_field_width_def bind_eq_Some_conv dest!: skip_atoi_length split: list.splits if_splits)

lemma precision_length: "get_precision fmt args = Some (p, fmt', args') \<Longrightarrow> length fmt' \<le> length fmt"
  by (auto simp: get_precision_def bind_eq_Some_conv dest!: skip_atoi_length split: list.splits if_splits)

lemma qualifier_length: "length (snd (get_qualifier fmt)) \<le> length fmt"
  by (auto simp: get_qualifier_def split: list.splits)

lemma conversion_length: "conversion e flags w p q fmt args out = Some (fmt', args', out') \<Longrightarrow> length fmt' \<le> length fmt"
  by (auto simp: conversion_def bind_eq_Some_conv split: list.splits)

lemma directive_cases:
  assumes "directive e fmt args out = Some res"
  obtains f1 fmt1 w f2 fmt2 args2 p fmt3 args3 q fmt4 where "flags_loop 0 fmt = (f1, fmt1)"
    "get_field_width f1 fmt1 args = Some (w, f2, fmt2, args2)" "get_precision fmt2 args2 = Some (p, fmt3, args3)"
    "get_qualifier fmt3 = (q, fmt4)" "conversion e f2 w p q fmt4 args3 out = Some res"
proof -
  obtain f1 fmt1 where f: "flags_loop 0 fmt = (f1, fmt1)" by (cases "flags_loop 0 fmt")
  with assms obtain w f2 fmt2 args2 where w: "get_field_width f1 fmt1 args = Some (w, f2, fmt2, args2)"
    by (cases "get_field_width f1 fmt1 args"; cases "the (get_field_width f1 fmt1 args)" rule: prod_cases4)
      (simp_all add: directive_def)
  with assms f obtain p fmt3 args3 where p: "get_precision fmt2 args2 = Some (p, fmt3, args3)"
    by (cases "get_precision fmt2 args2"; cases "the (get_precision fmt2 args2)" rule: prod_cases3) (simp_all add: directive_def)
  obtain q fmt4 where q: "get_qualifier fmt3 = (q, fmt4)" by (cases "get_qualifier fmt3")
  from f w p q assms have "conversion e f2 w p q fmt4 args3 out = Some res" by (simp add: directive_def)
  with f w p q show thesis by (rule that)
qed

lemma directive_length:
  assumes "directive e fmt args out = Some (fmt', args', out')"
  shows "length fmt' \<le> length fmt"
proof -
  from assms obtain f1 fmt1 w f2 fmt2 args2 p fmt3 args3 q fmt4 where d: "flags_loop 0 fmt = (f1, fmt1)"
    "get_field_width f1 fmt1 args = Some (w, f2, fmt2, args2)" "get_precision fmt2 args2 = Some (p, fmt3, args3)"
    "get_qualifier fmt3 = (q, fmt4)" "conversion e f2 w p q fmt4 args3 out = Some (fmt', args', out')" by (rule directive_cases)
  have "length fmt1 \<le> length fmt" "length fmt4 \<le> length fmt3"
    using flags_loop_length [of 0 fmt] qualifier_length [of fmt3] d(1,4) by simp_all
  then show ?thesis using field_width_length [OF d(2)] precision_length [OF d(3)] conversion_length [OF d(5)] by linarith
qed

function vsnprintf_loop :: "u32 \<Rightarrow> u8 list \<Rightarrow> va_arg list \<Rightarrow> out \<Rightarrow> out option" where
  "vsnprintf_loop e [] args out = Some out"
| "vsnprintf_loop e (c # fmt) args out =
     (if c \<noteq> 37 then vsnprintf_loop e fmt args (put e c out)
      else (case directive e fmt args out of None \<Rightarrow> None | Some (fmt, args, out) \<Rightarrow> vsnprintf_loop e fmt args out))"
  by pat_completeness auto
termination by (relation "measure (\<lambda>(e, fmt, args, out). length fmt)") (auto dest!: directive_length)

definition rt_vsnprintf :: "u32 \<Rightarrow> u32 \<Rightarrow> u8 list \<Rightarrow> va_arg list \<Rightarrow> mem \<Rightarrow> (u32 \<times> mem) option" where
  "rt_vsnprintf buf sz fmt args m =
     (let e = buf + sz; (e, sz) = (if e < buf then (- 1, - 1 - buf) else (e, sz)) in
      do { (str, m) \<leftarrow> vsnprintf_loop e fmt args (buf, m);
        Some (str - buf, if sz > 0 then if str < e then m(str := 0) else m(e - 1 := 0) else m) })"

definition rt_snprintf :: "u32 \<Rightarrow> u32 \<Rightarrow> u8 list \<Rightarrow> va_arg list \<Rightarrow> mem \<Rightarrow> (u32 \<times> mem) option" where
  "rt_snprintf buf sz fmt args m = rt_vsnprintf buf sz fmt args m"

definition rt_vsprintf :: "u32 \<Rightarrow> u8 list \<Rightarrow> va_arg list \<Rightarrow> mem \<Rightarrow> (u32 \<times> mem) option" where
  "rt_vsprintf buf fmt args m = rt_vsnprintf buf (- 1) fmt args m"

definition rt_sprintf :: "u32 \<Rightarrow> u8 list \<Rightarrow> va_arg list \<Rightarrow> mem \<Rightarrow> (u32 \<times> mem) option" where
  "rt_sprintf buf fmt args m = rt_vsprintf buf fmt args m"

section \<open>The console\<close>

text \<open>
  The console device is \<open>None\<close> or its \<^verbatim>\<open>open_flag\<close>; \<open>write\<close>, the driver behind \<^verbatim>\<open>rt_device_write\<close>, takes the
  flag, the bytes and the state \<open>d\<close> of the device. Without a device the output goes to
  \<^verbatim>\<open>rt_hw_console_output\<close>, which is empty. \<open>log\<close> is the address of the static buffer.
\<close>

definition RT_CONSOLEBUF_SIZE :: u32 where "RT_CONSOLEBUF_SIZE = 128"

definition bytes_at :: "mem \<Rightarrow> u32 \<Rightarrow> nat \<Rightarrow> u8 list" where
  "bytes_at m a n = map (\<lambda>i. m (a + of_nat i)) [0..<n]"

definition console_write :: "(u16 \<Rightarrow> u8 list \<Rightarrow> 'd \<Rightarrow> 'd) \<Rightarrow> u32 \<Rightarrow> u32 \<Rightarrow> mem \<Rightarrow> u16 option \<Rightarrow> 'd \<Rightarrow> u16 option \<times> 'd" where
  "console_write write s n m con d =
     (case con of None \<Rightarrow> (None, d)
      | Some old_flag \<Rightarrow> (Some old_flag, write (old_flag OR RT_DEVICE_FLAG_STREAM) (bytes_at m s (unat n)) d))"

definition rt_kputs :: "(u16 \<Rightarrow> u8 list \<Rightarrow> 'd \<Rightarrow> 'd) \<Rightarrow> u32 \<Rightarrow> mem \<Rightarrow> u16 option \<Rightarrow> 'd \<Rightarrow> (u16 option \<times> 'd) option" where
  "rt_kputs write str m con d =
     (if str = 0 then Some (con, d) else if con = None then Some (con, d)
      else do { n \<leftarrow> rt_strlen str m; Some (console_write write str n m con d) })"

definition rt_kprintf ::
  "(u16 \<Rightarrow> u8 list \<Rightarrow> 'd \<Rightarrow> 'd) \<Rightarrow> u32 \<Rightarrow> u8 list \<Rightarrow> va_arg list \<Rightarrow> mem \<Rightarrow> u16 option \<Rightarrow> 'd \<Rightarrow> (mem \<times> u16 option \<times> 'd) option" where
  "rt_kprintf write log fmt args m con d = do {
     (len, m) \<leftarrow> rt_vsnprintf log (RT_CONSOLEBUF_SIZE - 1) fmt args m;
     let len = (if len > RT_CONSOLEBUF_SIZE - 1 then RT_CONSOLEBUF_SIZE - 1 else len);
     Some (m, console_write write log len m con d) }"

section \<open>The text of a format\<close>

text \<open>What is written, without a buffer: the text of a number, of a directive and of a format.\<close>

definition emit :: "u32 \<Rightarrow> u8 list \<Rightarrow> out \<Rightarrow> out" where
  "emit e bs out = fold (put e) bs out"

lemma emit_simps [simp]:
  "emit e [] out = out"
  "emit e (c # bs) out = emit e bs (put e c out)"
  by (simp_all add: emit_def)

lemma emit_append: "emit e (as @ bs) out = emit e bs (emit e as out)"
  by (simp add: emit_def)

lemma replicate_nat: "0 < k \<Longrightarrow> replicate (nat k) c = c # replicate (nat (k - 1)) c"
proof -
  assume "0 < k"
  then have "nat k = Suc (nat (k - 1))" by simp
  then show ?thesis by simp
qed

lemma pad_loop_emit: "pad_loop e c k out = (min k 0 - 1, emit e (replicate (nat k) c) out)"
proof (induction e c k out rule: pad_loop.induct)
  case (1 e c k out)
  then show ?case by (subst pad_loop.simps) (auto simp: replicate_nat)
qed

lemma zero_loop_emit: "zero_loop e i p out = emit e (replicate (nat (p - i)) 48) out"
proof (induction e i p out rule: zero_loop.induct)
  case (1 e i p out)
  then show ?case by (subst zero_loop.simps) (auto simp: replicate_nat algebra_simps)
qed

lemma digit_loop_emit: "i \<le> length tmp \<Longrightarrow> digit_loop e tmp b i out = emit e (if b = 0 then [] else rev (take i tmp)) out"
  by (induction i arbitrary: out) (auto simp: take_Suc_conv_app_nth)

lemma char_pad_emit: "char_pad e w out = (min w 1 - 1, emit e (replicate (nat (w - 1)) 32) out)"
proof (induction e w out rule: char_pad.induct)
  case (1 e w out)
  then show ?case by (subst char_pad.simps) (auto simp: replicate_nat)
qed

lemma string_pad_emit: "string_pad e len w out = (min w len - 1, emit e (replicate (nat (w - len)) 32) out)"
proof (induction e len w out rule: string_pad.induct)
  case (1 e len w out)
  then show ?case by (subst string_pad.simps) (auto simp: replicate_nat algebra_simps)
qed

text \<open>The sign, the digits and the text of a number.\<close>

definition is_neg :: "u32 \<Rightarrow> u8 \<Rightarrow> bool" where
  "is_neg num typ \<longleftrightarrow> typ AND SIGN \<noteq> 0 \<and> num <s 0"

definition sign_text :: "u32 \<Rightarrow> u8 \<Rightarrow> u8 list" where
  "sign_text num typ =
     (if typ AND SIGN = 0 then [] else if num <s 0 then [45]
      else if typ AND PLUS \<noteq> 0 then [43] else if typ AND SPACE \<noteq> 0 then [32] else [])"

definition digits_text :: "u32 \<Rightarrow> int \<Rightarrow> u8 \<Rightarrow> u8 list" where
  "digits_text num base typ =
     (let n = (if is_neg num typ then - num else num) in
      if n = 0 then [48] else rev (tmp_digits (if typ AND LARGE \<noteq> 0 then large_digits else small_digits) base n))"

definition number_text :: "u32 \<Rightarrow> int \<Rightarrow> int \<Rightarrow> int \<Rightarrow> u8 \<Rightarrow> u8 list" where
  "number_text num base w precision typ =
     (let sign = sign_text num typ; ds = digits_text num base typ;
          zs = replicate (nat (precision - int (length ds))) 48;
          body = zs @ (if precision = 0 then [] else ds);
          pad = nat (w - max precision (int (length ds)) - int (length sign)) in
      if typ AND LEFT \<noteq> 0 then sign @ body @ replicate pad 32
      else if typ AND ZEROPAD \<noteq> 0 then sign @ replicate pad 48 @ body
      else replicate pad 32 @ sign @ body)"

lemma typ_bits:
  "(typ AND NOT ZEROPAD) AND ZEROPAD = 0" "(typ AND NOT ZEROPAD) AND SIGN = typ AND SIGN"
  "(typ AND NOT ZEROPAD) AND PLUS = typ AND PLUS" "(typ AND NOT ZEROPAD) AND SPACE = typ AND SPACE"
  "(typ AND NOT ZEROPAD) AND LEFT = typ AND LEFT"
  by (simp_all add: ZEROPAD_def SIGN_def PLUS_def SPACE_def LEFT_def and.assoc)

lemma typ_both: "typ AND (ZEROPAD OR LEFT) = 0 \<longleftrightarrow> typ AND ZEROPAD = 0 \<and> typ AND LEFT = 0"
  by (simp add: bit.conj_disj_distrib or_eq_0_iff)

text \<open>The steps of \<open>print_number\<close> behind the sign and the digits.\<close>

lemma number_steps:
  fixes out :: out and tmp :: "u8 list" and sign :: u8
  assumes "sg = (if sign = 0 then [] else [sign])"
  shows "(let c = (if z then 48 else 32); i = length tmp; p = (if int i > precision then int i else precision); k = s - p;
       (k, out) = (if \<not> z \<and> \<not> l then pad_loop e 32 (if sign \<noteq> 0 \<and> k > 0 then k - 1 else k) out else (k, out));
       (k, out) = (if sign \<noteq> 0 then (k - 1, put e sign out) else (k, out));
       (k, out) = (if \<not> l then pad_loop e c k out else (k, out));
       out = zero_loop e (int i) p out;
       out = digit_loop e tmp precision i out;
       (k, out) = pad_loop e 32 k out in out) =
    emit e (let zs = replicate (nat (precision - int (length tmp))) 48;
        body = zs @ (if precision = 0 then [] else rev tmp);
        pad = nat (s - max precision (int (length tmp)) - int (length sg)) in
      if l then sg @ body @ replicate pad 32
      else if z then sg @ replicate pad 48 @ body else replicate pad 32 @ sg @ body) out"
proof -
  have m: "(if int (length tmp) > precision then int (length tmp) else precision) = max precision (int (length tmp))" by simp
  have z: "nat (max precision (int (length tmp)) - int (length tmp)) = nat (precision - int (length tmp))" by simp
  show ?thesis
    unfolding Let_def m
    by (cases "sign = 0"; cases l; cases z)
      (simp_all add: assms pad_loop_emit zero_loop_emit digit_loop_emit emit_append z)
qed

lemma print_number_emit: "print_number e num base w precision typ out = emit e (number_text num base w precision typ) out"
proof -
  define t where "t = (if typ AND LEFT \<noteq> 0 then typ AND NOT ZEROPAD else typ)"
  define n where "n = (if is_neg num typ then - num else num)"
  define sign :: u8 where "sign = (if typ AND SIGN = 0 then 0 else if num <s 0 then 45
      else if typ AND PLUS \<noteq> 0 then 43 else if typ AND SPACE \<noteq> 0 then 32 else 0)"
  define tmp where "tmp = (if n = 0 then [48] else
      tmp_digits (if typ AND LARGE \<noteq> 0 then large_digits else small_digits) base n)"
  have t: "t AND SIGN = typ AND SIGN" "t AND PLUS = typ AND PLUS" "t AND SPACE = typ AND SPACE" "t AND LEFT = typ AND LEFT"
    by (simp_all add: t_def typ_bits)
  have z: "t AND (ZEROPAD OR LEFT) = 0 \<longleftrightarrow> \<not> t AND ZEROPAD \<noteq> 0 \<and> \<not> typ AND LEFT \<noteq> 0"
    by (simp add: typ_both t)
  have sg: "sign_text num typ = (if sign = 0 then [] else [sign])" by (simp add: sign_text_def sign_def)
  have pair: "(if t AND SIGN \<noteq> 0 then if num <s 0 then (45, - num)
        else if t AND PLUS \<noteq> 0 then (43, num) else if t AND SPACE \<noteq> 0 then (32, num) else (0, num) else (0, num)) = (sign, n)"
    by (simp add: t sign_def n_def is_neg_def)
  have nl: "t AND LEFT = 0 \<longleftrightarrow> \<not> typ AND LEFT \<noteq> 0" by (simp add: t)
  have "print_number e num base w precision typ out =
      emit e (let zs = replicate (nat (precision - int (length tmp))) 48;
        body = zs @ (if precision = 0 then [] else rev tmp);
        pad = nat (w - max precision (int (length tmp)) - int (length (sign_text num typ))) in
      if typ AND LEFT \<noteq> 0 then sign_text num typ @ body @ replicate pad 32
      else if t AND ZEROPAD \<noteq> 0 then sign_text num typ @ replicate pad 48 @ body
      else replicate pad 32 @ sign_text num typ @ body) out"
    unfolding number_steps [OF sg, where z = "t AND ZEROPAD \<noteq> 0", symmetric]
    unfolding print_number_def Let_def t_def [symmetric] pair prod.case tmp_def [symmetric] z nl ..
  moreover have "rev tmp = digits_text num base typ" by (simp add: tmp_def digits_text_def n_def Let_def)
  moreover have "length tmp = length (digits_text num base typ)" using calculation(2) by (metis length_rev)
  moreover have "t AND ZEROPAD = typ AND ZEROPAD" if "typ AND LEFT = 0" using that by (simp add: t_def)
  ultimately show ?thesis by (simp add: number_text_def Let_def)
qed

definition char_text :: "u8 \<Rightarrow> int \<Rightarrow> u8 \<Rightarrow> u8 list" where
  "char_text flags w c = (if flags AND LEFT = 0 then replicate (nat (w - 1)) 32 @ [c] else [c] @ replicate (nat (w - 1)) 32)"

lemma print_char_emit: "print_char e flags w c out = emit e (char_text flags w c) out"
  by (simp add: print_char_def char_text_def char_pad_emit emit_append Let_def split: prod.split)

definition string_text :: "u8 \<Rightarrow> int \<Rightarrow> int \<Rightarrow> u8 list \<Rightarrow> u8 list" where
  "string_text flags w precision s =
     (let s = (if precision > 0 then take (nat precision) s else s); pad = replicate (nat (w - int (length s))) 32 in
      if flags AND LEFT = 0 then pad @ s else s @ pad)"

lemma print_string_emit: "print_string e flags w precision s out = emit e (string_text flags w precision s) out"
proof -
  define len where "len = (if precision > 0 \<and> int (length s) > precision then precision else int (length s))"
  define s' where "s' = (if precision > 0 then take (nat precision) s else s)"
  have "take (nat len) s = s'" "int (length s') = len" by (auto simp: len_def s'_def)
  then show ?thesis
    unfolding print_string_def string_text_def Let_def len_def [symmetric] s'_def [symmetric]
    by (simp add: string_pad_emit emit_append emit_def [of e s', symmetric] split: prod.split)
qed

definition convert_text :: "u8 \<Rightarrow> int \<Rightarrow> int \<Rightarrow> u8 \<Rightarrow> u8 \<Rightarrow> va_arg list \<Rightarrow> (va_arg list \<times> u8 list) option" where
  "convert_text flags w precision qualifier c args =
     (if c = 99 then do { (a, args) \<leftarrow> va_word args; Some (args, char_text flags w (ucast a)) }
      else if c = 115 then do { (s, args) \<leftarrow> va_string args;
        Some (args, string_text flags w precision (case s of None \<Rightarrow> null_string | Some s \<Rightarrow> s)) }
      else if c = 112 then do { (a, args) \<leftarrow> va_word args;
        Some (args, number_text a 16 (if w = - 1 then 8 else w) precision (if w = - 1 then flags OR ZEROPAD else flags)) }
      else if c = 37 then Some (args, [37])
      else (case integer_format c flags of None \<Rightarrow> Some (args, [37, c])
        | Some (base, flags) \<Rightarrow> do { (num, args) \<leftarrow> get_number qualifier flags args;
            Some (args, number_text num base w precision flags) }))"

definition emitting :: "u32 \<Rightarrow> out \<Rightarrow> 'a \<times> u8 list \<Rightarrow> 'a \<times> out" where
  "emitting e out = (\<lambda>(a, bs). (a, emit e bs out))"

lemma emitting_simp [simp]: "emitting e out (a, bs) = (a, emit e bs out)"
  by (simp add: emitting_def)

lemma bind_emitting:
  "x \<bind> (\<lambda>(a, args). Some (args, emit e (f a) out)) = map_option (emitting e out) (x \<bind> (\<lambda>(a, args). Some (args, f a)))"
  by (cases x) auto

lemma convert_emit: "convert e flags w p q c args out = map_option (emitting e out) (convert_text flags w p q c args)"
  unfolding convert_def convert_text_def print_char_emit print_string_emit print_number_emit bind_emitting
  by (simp split: option.split)

definition conversion_text :: "u8 \<Rightarrow> int \<Rightarrow> int \<Rightarrow> u8 \<Rightarrow> u8 list \<Rightarrow> va_arg list \<Rightarrow> (u8 list \<times> va_arg list \<times> u8 list) option" where
  "conversion_text flags w precision qualifier fmt args =
     (case fmt of [] \<Rightarrow> Some ([], args, [37])
      | c # rest \<Rightarrow> do { (args, bs) \<leftarrow> convert_text flags w precision qualifier c args; Some (rest, args, bs) })"

definition directive_text :: "u8 list \<Rightarrow> va_arg list \<Rightarrow> (u8 list \<times> va_arg list \<times> u8 list) option" where
  "directive_text fmt args = do {
     let (flags, fmt) = flags_loop 0 fmt;
     (w, flags, fmt, args) \<leftarrow> get_field_width flags fmt args;
     (precision, fmt, args) \<leftarrow> get_precision fmt args;
     let (qualifier, fmt) = get_qualifier fmt;
     conversion_text flags w precision qualifier fmt args }"

lemma conversion_emit:
  "conversion e flags w p q fmt args out =
     map_option (\<lambda>(fmt, args, bs). (fmt, args, emit e bs out)) (conversion_text flags w p q fmt args)"
proof (cases fmt)
  case (Cons c rest)
  then show ?thesis
    by (cases "convert_text flags w p q c args") (auto simp: conversion_def conversion_text_def convert_emit)
qed (simp add: conversion_def conversion_text_def)

lemma map_option_bind: "map_option f (x \<bind> g) = x \<bind> (\<lambda>y. map_option f (g y))"
  by (cases x) auto

lemma directive_emit:
  "directive e fmt args out = map_option (\<lambda>(fmt, args, bs). (fmt, args, emit e bs out)) (directive_text fmt args)"
  unfolding directive_def directive_text_def conversion_emit
  by (simp add: map_option_bind case_prod_beta' Let_def)

lemma directive_text_length:
  assumes "directive_text fmt args = Some (fmt', args', bs)"
  shows "length fmt' \<le> length fmt"
proof -
  have "directive 0 fmt args (0, \<lambda>_. 0) = Some (fmt', args', emit 0 bs (0, \<lambda>_. 0))" using assms by (simp add: directive_emit)
  then show ?thesis by (rule directive_length)
qed

function format_text :: "u8 list \<Rightarrow> va_arg list \<Rightarrow> u8 list option" where
  "format_text [] args = Some []"
| "format_text (c # fmt) args =
     (if c \<noteq> 37 then map_option ((#) c) (format_text fmt args)
      else (case directive_text fmt args of None \<Rightarrow> None
        | Some (fmt, args, bs) \<Rightarrow> map_option ((@) bs) (format_text fmt args)))"
  by pat_completeness auto
termination by (relation "measure (\<lambda>(fmt, args). length fmt)") (auto dest!: directive_text_length)

lemma vsnprintf_loop_emit: "vsnprintf_loop e fmt args out = map_option (\<lambda>bs. emit e bs out) (format_text fmt args)"
proof (induction fmt args arbitrary: out rule: format_text.induct)
  case (2 c fmt args)
  show ?case
  proof (cases "c = 37")
    case False
    then show ?thesis using "2.IH"(1) by (simp add: option.map_comp comp_def)
  next
    case True
    show ?thesis
    proof (cases "directive_text fmt args")
      case None
      then show ?thesis using True by (simp add: directive_emit)
    next
      case (Some r)
      obtain fmt' args' bs where r: "r = (fmt', args', bs)" by (cases r)
      have "vsnprintf_loop e fmt' args' o' = map_option (\<lambda>bs. emit e bs o') (format_text fmt' args')" for o'
        by (rule "2.IH"(2)) (use True Some r in auto)
      then show ?thesis using True Some r by (simp add: directive_emit option.map_comp comp_def emit_append)
    qed
  qed
qed simp

section \<open>What is in the buffer\<close>

text \<open>The bytes \<open>bs\<close> in memory from \<open>d\<close> on.\<close>

definition stored :: "u32 \<Rightarrow> u8 list \<Rightarrow> mem \<Rightarrow> mem" where
  "stored d bs m = (\<lambda>a. if unat (a - d) < length bs then bs ! unat (a - d) else m a)"

lemma stored_Nil [simp]: "stored d [] m = m"
  by (simp add: stored_def)

lemma offset_eq: "k < 2 ^ 32 \<Longrightarrow> a = d + of_nat k \<longleftrightarrow> unat (a - d) = k" for a d :: u32
proof
  assume "k < 2 ^ 32" "unat (a - d) = k"
  then have "a - d = of_nat k" by (auto simp: word_unat_eq_iff unat_of_nat)
  then show "a = d + of_nat k" by (metis diff_add_cancel add.commute)
qed (simp add: unat_of_nat)

lemma stored_snoc: "length bs < 2 ^ 32 \<Longrightarrow> (stored d bs m)(d + of_nat (length bs) := c) = stored d (bs @ [c]) m"
  by (rule ext) (auto simp: stored_def offset_eq nth_append)

lemma stored_update: "i < length bs \<Longrightarrow> i < 2 ^ 32 \<Longrightarrow> (stored d bs m)(d + of_nat i := c) = stored d (bs[i := c]) m"
  by (rule ext) (auto simp: stored_def offset_eq)

lemma emit_stored:
  assumes "unat buf + k < 2 ^ 32" "unat buf + length bs < 2 ^ 32"
  shows "emit (buf + of_nat k) bs (buf, m) = (buf + of_nat (length bs), stored buf (take k bs) m)"
  using assms(2)
proof (induction bs rule: rev_induct)
  case (snoc c bs)
  have ih: "emit (buf + of_nat k) bs (buf, m) = (buf + of_nat (length bs), stored buf (take k bs) m)"
    using snoc by simp
  have u: "unat (buf + of_nat k) = unat buf + k" "unat (buf + of_nat (length bs)) = unat buf + length bs"
    using assms(1) snoc.prems by (simp_all add: unat_word_ariths unat_of_nat)
  have lt: "buf + of_nat (length bs) < buf + of_nat k \<longleftrightarrow> length bs < k" by (simp add: word_less_nat_alt u)
  show ?case
  proof (cases "length bs < k")
    case True
    then have "(stored buf (take k bs) m)(buf + of_nat (length bs) := c) = stored buf (take k (bs @ [c])) m"
      using stored_snoc [of bs buf m c] snoc.prems by simp
    then show ?thesis using True ih lt by (simp add: emit_append put_def add_ac)
  next
    case False
    then show ?thesis using ih lt by (simp add: emit_append put_def add_ac)
  qed
qed simp

lemma vsnprintf_stored:
  assumes b: "unat buf + unat sz < 2 ^ 32" and len: "\<And>bs. format_text fmt args = Some bs \<Longrightarrow> unat buf + length bs < 2 ^ 32"
  shows "rt_vsnprintf buf sz fmt args m = map_option (\<lambda>bs. (of_nat (length bs),
    if sz = 0 then m else stored buf (take (unat sz - 1) bs @ [0]) m)) (format_text fmt args)"
proof (cases "format_text fmt args")
  case None
  then show ?thesis by (simp add: rt_vsnprintf_def vsnprintf_loop_emit Let_def split: prod.split)
next
  case (Some bs)
  note l = len [OF Some]
  have u: "unat (buf + sz) = unat buf + unat sz" using b by (simp add: unat_word_ariths)
  have nw: "\<not> buf + sz < buf" by (simp add: word_less_nat_alt u)
  have run: "rt_vsnprintf buf sz fmt args m = Some (of_nat (length bs), let m = stored buf (take (unat sz) bs) m in
      if sz > 0 then if buf + of_nat (length bs) < buf + sz then m(buf + of_nat (length bs) := 0) else m(buf + sz - 1 := 0) else m)"
    using emit_stored [of buf "unat sz" bs m] b l by (simp add: rt_vsnprintf_def vsnprintf_loop_emit Some nw Let_def)
  have "unat (buf + of_nat (length bs)) = unat buf + length bs" using l by (simp add: unat_word_ariths unat_of_nat)
  then have lt: "buf + of_nat (length bs) < buf + sz \<longleftrightarrow> length bs < unat sz" by (simp add: word_less_nat_alt u)
  show ?thesis
  proof (cases "sz = 0")
    case True
    with run Some show ?thesis by simp
  next
    case nz: False
    then have pos: "0 < sz" "0 < unat sz" by (simp_all add: word_neq_0_conv unat_gt_0)
    show ?thesis
    proof (cases "length bs < unat sz")
      case True
      then have "stored buf (take (unat sz) bs) m = stored buf bs m" "take (unat sz - 1) bs = bs" by simp_all
      moreover have "(stored buf bs m)(buf + of_nat (length bs) := 0) = stored buf (bs @ [0]) m"
        by (rule stored_snoc) (use l in simp)
      ultimately show ?thesis using True nz pos lt by (simp add: run Some)
    next
      case False
      have last: "buf + sz - 1 = buf + of_nat (unat sz - 1)" using pos(2) by (simp add: of_nat_diff)
      have "rt_vsnprintf buf sz fmt args m = Some (of_nat (length bs), (stored buf (take (unat sz) bs) m)(buf + sz - 1 := 0))"
        using False pos(1) lt run unfolding Let_def by simp
      then have "rt_vsnprintf buf sz fmt args m =
          Some (of_nat (length bs), (stored buf (take (unat sz) bs) m)(buf + of_nat (unat sz - 1) := 0))"
        unfolding last .
      also have "(stored buf (take (unat sz) bs) m)(buf + of_nat (unat sz - 1) := 0) =
          stored buf ((take (unat sz) bs)[unat sz - 1 := 0]) m"
        by (rule stored_update) (use False pos(2) b in auto)
      also have "(take (unat sz) bs)[unat sz - 1 := 0] = take (unat sz - 1) bs @ [0]"
        using False pos(2) by (simp add: list_eq_iff_nth_eq nth_list_update nth_append) (auto simp: min_def)
      finally show ?thesis using nz by (simp add: Some)
    qed
  qed
qed

lemma bytes_at_stored: "n \<le> length bs \<Longrightarrow> length bs < 2 ^ 32 \<Longrightarrow> bytes_at (stored d bs m) d n = take n bs"
  by (rule nth_equalityI) (simp_all add: bytes_at_def stored_def unat_of_nat)

section \<open>Reading numbers back\<close>

definition digit_value :: "u8 \<Rightarrow> nat option" where
  "digit_value c =
     (if 48 \<le> c \<and> c \<le> 57 then Some (unat c - 48) else if 97 \<le> c \<and> c \<le> 102 then Some (unat c - 87)
      else if 65 \<le> c \<and> c \<le> 70 then Some (unat c - 55) else None)"

fun read_digits :: "nat \<Rightarrow> nat \<Rightarrow> u8 list \<Rightarrow> nat" where
  "read_digits b v [] = v"
| "read_digits b v (c # cs) = (case digit_value c of None \<Rightarrow> v | Some d \<Rightarrow> read_digits b (b * v + d) cs)"

text \<open>Leading spaces, a sign, the digits up to the first byte that is none.\<close>

definition read_number :: "nat \<Rightarrow> u8 list \<Rightarrow> int" where
  "read_number b cs =
     (case dropWhile (\<lambda>c. c = 32) cs of [] \<Rightarrow> 0
      | c # rest \<Rightarrow> if c = 45 then - int (read_digits b 0 rest)
          else if c = 43 then int (read_digits b 0 rest) else int (read_digits b 0 (c # rest)))"

definition print_base :: "int \<Rightarrow> nat" where
  "print_base base = (if base = 10 then 10 else 16)"

lemma digit_value_table:
  assumes "D = small_digits \<or> D = large_digits" and "k < 16"
  shows "digit_value (D ! k) = Some k"
proof -
  have "\<forall>k \<in> set [0..<16]. digit_value (small_digits ! k) = Some k \<and> digit_value (large_digits ! k) = Some k"
    by code_simp
  then show ?thesis using assms by auto
qed

lemma divide_unat:
  "unat n = print_base base * unat (snd (kdivide n base)) + unat (fst (kdivide n base))"
  "unat (fst (kdivide n base)) < print_base base"
  by (simp_all add: kdivide_def print_base_def unat_div unat_mod)

lemma read_tmp_digits:
  "D = small_digits \<or> D = large_digits \<Longrightarrow> read_digits (print_base base) v (rev (tmp_digits D base n) @ tail) =
    read_digits (print_base base) (v * print_base base ^ length (tmp_digits D base n) + unat n) tail"
proof (induction D base n arbitrary: tail rule: tmp_digits.induct)
  case (1 D base n)
  show ?case
  proof (cases "n = 0")
    case True
    then show ?thesis by (simp add: tmp_digits.simps)
  next
    case False
    let ?r = "fst (kdivide n base)" and ?q = "snd (kdivide n base)" and ?B = "print_base base"
    have "unat ?r < 16" using divide_unat(2) [of n base] by (auto simp: print_base_def split: if_splits)
    then have v: "digit_value (D ! unat ?r) = Some (unat ?r)" by (rule digit_value_table [OF "1.prems"])
    have t: "tmp_digits D base n = D ! unat ?r # tmp_digits D base ?q" using False by (simp add: tmp_digits.simps [of D base n])
    have "unat n = ?B * unat ?q + unat ?r" by (rule divide_unat(1))
    then show ?thesis using "1.IH" [OF False "1.prems", of "D ! unat ?r # tail"] v by (simp add: t algebra_simps)
  qed
qed

lemma tmp_digits_length: "n \<noteq> 0 \<Longrightarrow> tmp_digits D base n \<noteq> []"
  by (simp add: tmp_digits.simps)

lemma digit_value_zero [simp]: "digit_value 48 = Some 0"
  by (simp add: digit_value_def)

lemma read_zeros: "read_digits b 0 (replicate k 48 @ cs) = read_digits b 0 cs"
  by (induction k) (simp_all add: digit_value_def)

lemma read_spaces: "read_digits b v (replicate k 32) = v"
  by (cases k) (simp_all add: digit_value_def)

text \<open>The digits of a number, after zeros and before spaces.\<close>

lemma read_digits_text:
  "read_digits (print_base base) 0 (replicate z 48 @ digits_text num base typ @ replicate q 32) =
   unat (if is_neg num typ then - num else num)"
proof -
  have "digit_value 48 = Some 0" by (simp add: digit_value_def)
  then show ?thesis
    unfolding read_zeros digits_text_def Let_def by (simp add: read_tmp_digits read_spaces)
qed

lemma tmp_digits_valid:
  "D = small_digits \<or> D = large_digits \<Longrightarrow> c \<in> set (tmp_digits D base n) \<Longrightarrow> digit_value c \<noteq> None"
proof (induction D base n rule: tmp_digits.induct)
  case (1 D base n)
  then have n: "n \<noteq> 0" by (auto simp: tmp_digits.simps)
  have "unat (fst (kdivide n base)) < 16" using divide_unat(2) [of n base] by (auto simp: print_base_def split: if_splits)
  from digit_value_table [OF "1.prems"(1) this] show ?case
    using "1.IH" [OF n "1.prems"(1)] "1.prems"(2) n by (auto simp: tmp_digits.simps [of D base n])
qed

text \<open>The digits fit the 16 bytes of \<^verbatim>\<open>tmp\<close>.\<close>

lemma tmp_digits_bound: "n \<noteq> 0 \<Longrightarrow> 10 ^ (length (tmp_digits D base n) - 1) \<le> unat n"
proof (induction D base n rule: tmp_digits.induct)
  case (1 D base n)
  let ?q = "snd (kdivide n base)"
  have t: "length (tmp_digits D base n) = Suc (length (tmp_digits D base ?q))" using "1.prems" by (subst tmp_digits.simps) simp
  have n: "10 * unat ?q \<le> unat n" using divide_unat(1) [of n base] by (simp add: print_base_def split: if_splits)
  show ?case
  proof (cases "?q = 0")
    case True
    then have "length (tmp_digits D base n) = 1" using t by (simp add: tmp_digits.simps)
    then show ?thesis using "1.prems" by (simp add: unat_gt_0 Suc_leI)
  next
    case False
    have e: "length (tmp_digits D base n) - 1 = Suc (length (tmp_digits D base ?q) - 1)"
      using t tmp_digits_length [OF False, of D base] by simp
    show ?thesis unfolding e using "1.IH" [OF "1.prems" False] n by simp
  qed
qed

lemma tmp_digits_fit: "length (tmp_digits D base n) \<le> 10"
proof (cases "n = 0")
  case False
  have "\<not> 10 \<le> length (tmp_digits D base n) - 1"
  proof
    assume "10 \<le> length (tmp_digits D base n) - 1"
    then have "(10 :: nat) ^ 10 \<le> 10 ^ (length (tmp_digits D base n) - 1)" by (rule power_increasing) simp
    then show False using tmp_digits_bound [OF False, of D base] unat_u32_less [of n] by simp
  qed
  then show ?thesis by simp
qed (simp add: tmp_digits.simps)

lemma digits_text_first:
  obtains c cs where "replicate z 48 @ digits_text num base typ = c # cs" "digit_value c \<noteq> None"
proof -
  let ?ds = "replicate z 48 @ digits_text num base typ"
  have ne: "?ds \<noteq> []" by (simp add: digits_text_def Let_def tmp_digits_length)
  have "digit_value c \<noteq> None" if "c \<in> set (digits_text num base typ)" for c
    using that tmp_digits_valid [of "if typ AND LARGE \<noteq> 0 then large_digits else small_digits" c]
    by (auto simp: digits_text_def Let_def split: if_split_asm)
  then have "digit_value (hd ?ds) \<noteq> None" using hd_in_set [OF ne] by auto
  then show thesis using that [of "hd ?ds" "tl ?ds"] ne by simp
qed

lemma read_shape:
  assumes "sg = [] \<or> sg = [45] \<or> sg = [43] \<or> sg = [32]"
  shows "read_number (print_base base) (replicate p 32 @ sg @ replicate z 48 @ digits_text num base typ @ replicate q 32) =
    (if sg = [45] then - 1 else 1) * int (unat (if is_neg num typ then - num else num))"
proof -
  obtain c cs where c: "replicate z 48 @ digits_text num base typ = c # cs" "digit_value c \<noteq> None" by (rule digits_text_first)
  have r: "read_digits (print_base base) 0 (c # cs @ replicate q 32) = unat (if is_neg num typ then - num else num)"
    using read_digits_text [of base z num "typ" q] c(1) by (metis append.assoc append_Cons)
  have nc: "c \<noteq> 32" "c \<noteq> 45" "c \<noteq> 43" using c(2) by (auto simp: digit_value_def)
  have e: "replicate p 32 @ sg @ replicate z 48 @ digits_text num base typ @ replicate q 32 = replicate p 32 @ sg @ c # cs @ replicate q 32"
    using c(1) by (metis append.assoc append_Cons)
  have "dropWhile (\<lambda>c. c = 32) (replicate p 32 @ ys) = dropWhile (\<lambda>c. c = 32) ys" for ys :: "u8 list"
    by (induction p) simp_all
  then show ?thesis unfolding e read_number_def using assms nc r by (elim disjE) (simp_all del: read_digits.simps)
qed

lemma number_shape:
  assumes "precision \<noteq> 0"
  obtains p z q where "number_text num base w precision typ =
      replicate p 32 @ sign_text num typ @ replicate z 48 @ digits_text num base typ @ replicate q 32"
    "w \<le> int (length (number_text num base w precision typ))"
proof -
  define ds where "ds = digits_text num base typ"
  define sg where "sg = sign_text num typ"
  define k where "k = nat (precision - int (length ds))"
  define pad where "pad = nat (w - max precision (int (length ds)) - int (length sg))"
  have t: "number_text num base w precision typ =
      (if typ AND LEFT \<noteq> 0 then sg @ (replicate k 48 @ ds) @ replicate pad 32
       else if typ AND ZEROPAD \<noteq> 0 then sg @ replicate pad 48 @ replicate k 48 @ ds
       else replicate pad 32 @ sg @ replicate k 48 @ ds)"
    using assms by (simp add: number_text_def Let_def ds_def sg_def k_def pad_def)
  have "w \<le> int (length (number_text num base w precision typ))" unfolding t k_def pad_def by auto
  moreover have "number_text num base w precision typ = replicate 0 32 @ sg @ replicate k 48 @ ds @ replicate pad 32"
    if "typ AND LEFT \<noteq> 0" using that by (simp add: t)
  moreover have "number_text num base w precision typ = replicate 0 32 @ sg @ replicate (pad + k) 48 @ ds @ replicate 0 32"
    if "typ AND LEFT = 0" "typ AND ZEROPAD \<noteq> 0" using that by (simp add: t replicate_add)
  moreover have "number_text num base w precision typ = replicate pad 32 @ sg @ replicate k 48 @ ds @ replicate 0 32"
    if "typ AND LEFT = 0" "typ AND ZEROPAD = 0" using that by (simp add: t)
  ultimately show thesis using that unfolding ds_def sg_def by metis
qed

lemma sint_u32: "sint (x :: u32) = (if uint x < 2 ^ 31 then uint x else uint x - 2 ^ 32)"
proof -
  have "sint x = (uint x + 2 ^ 31) mod 2 ^ 32 - 2 ^ 31"
    by (simp add: sint_uint signed_take_bit_eq_take_bit_shift take_bit_eq_mod)
  moreover have lt: "uint x < 4294967296" using uint_lt2p [of x] by simp
  moreover have "(uint x + 2 ^ 31) mod 2 ^ 32 = uint x - 2 ^ 31" if "\<not> uint x < 2 ^ 31"
  proof -
    have "(uint x + 2 ^ 31) mod 2 ^ 32 = (uint x - 2 ^ 31 + 2 ^ 32) mod 2 ^ 32" by (simp add: add.commute)
    also have "\<dots> = (uint x - 2 ^ 31) mod 2 ^ 32" by (rule mod_add_self2)
    finally show ?thesis using that lt by simp
  qed
  ultimately show ?thesis by simp
qed

lemma number_value:
  "(if sign_text num typ = [45] then - 1 else 1) * int (unat (if is_neg num typ then - num else num)) =
   (if typ AND SIGN \<noteq> 0 then sint num else uint num)"
proof (cases "is_neg num typ")
  case True
  then have neg: "sint num < 0" "typ AND SIGN \<noteq> 0" by (simp_all add: is_neg_def word_sless_alt)
  have "num \<noteq> 0" using neg(1) by auto
  then have "unat (0 - num) = 2 ^ 32 - unat num" unfolding unat_sub_if' by (simp add: unat_eq_0)
  then have "int (unat (- num)) = 2 ^ 32 - uint num" using unat_u32_less [of num] by (simp add: of_nat_diff)
  moreover have "sint num = uint num - 2 ^ 32"
    using neg(1) by (simp add: sint_u32 split: if_splits)
  ultimately show ?thesis using True neg(2) by (simp add: sign_text_def is_neg_def)
next
  case False
  have "sint num = uint num" if "typ AND SIGN \<noteq> 0"
    using False that using uint_lt2p [of num] by (simp add: is_neg_def word_sless_alt sint_u32 split: if_splits)
  then show ?thesis using False by (auto simp: sign_text_def is_neg_def)
qed

section \<open>Properties\<close>

text \<open>C26: \<^verbatim>\<open>rt_vsnprintf\<close> returns for every format whose arguments are there. It returns the length of the whole text of
  the format, and writes the first \<open>sz - 1\<close> bytes of it and a NUL: no byte outside of the \<open>sz\<close> bytes at
  \<open>buf\<close> changes, whatever the widths and strings. With size 0 nothing is written.\<close>

theorem rt_vsnprintf_writes_text:
  assumes "unat buf + unat sz < 2 ^ 32" and "format_text fmt args = Some bs" and "unat buf + length bs < 2 ^ 32"
  shows "\<exists>m'. rt_vsnprintf buf sz fmt args m = Some (of_nat (length bs), m') \<and>
    (if sz = 0 then m' = m else bytes_at m' buf (min (length bs) (unat sz - 1) + 1) = take (unat sz - 1) bs @ [0] \<and>
      (\<forall>a. unat sz \<le> unat (a - buf) \<longrightarrow> m' a = m a))"
proof -
  have r: "rt_vsnprintf buf sz fmt args m = Some (of_nat (length bs), if sz = 0 then m else stored buf (take (unat sz - 1) bs @ [0]) m)"
    using vsnprintf_stored [OF assms(1), of fmt args m] assms(2,3) by simp
  let ?t = "take (unat sz - 1) bs @ [0]"
  have "length ?t < 2 ^ 32" using unat_u32_less [of sz] by auto
  then have "bytes_at (stored buf ?t m) buf (length ?t) = take (length ?t) ?t" by (rule bytes_at_stored [OF le_refl])
  also have "\<dots> = ?t" by (rule take_all [OF le_refl])
  also have "length ?t = min (length bs) (unat sz - 1) + 1" by simp
  finally have "bytes_at (stored buf ?t m) buf (min (length bs) (unat sz - 1) + 1) = ?t" .
  moreover have "stored buf ?t m a = m a" if "sz \<noteq> 0" "unat sz \<le> unat (a - buf)" for a
    using that unat_gt_0 [of sz] by (auto simp: stored_def)
  ultimately show ?thesis using r by (cases "sz = 0") auto
qed

text \<open>C27: \<^verbatim>\<open>print_number\<close>, with any width, flags and precision but 0, writes a text at least as wide as asked that reads
  back as the number: as the signed one with \<^verbatim>\<open>SIGN\<close>, also for the least \<^verbatim>\<open>int\<close>, else as the unsigned one, in base
  10 or, for every other base and so for \<^verbatim>\<open>%o\<close> as well, in base 16.\<close>

theorem print_number_reads_back:
  assumes "precision \<noteq> 0"
  shows "\<exists>bs. print_number e num base w precision typ out = emit e bs out \<and> w \<le> int (length bs) \<and>
    read_number (if base = 10 then 10 else 16) bs = (if typ AND SIGN \<noteq> 0 then sint num else uint num)"
proof -
  obtain p z q where s: "number_text num base w precision typ =
      replicate p 32 @ sign_text num typ @ replicate z 48 @ digits_text num base typ @ replicate q 32"
    "w \<le> int (length (number_text num base w precision typ))" by (rule number_shape [OF assms]) (rule that)
  have "sign_text num typ = [] \<or> sign_text num typ = [45] \<or> sign_text num typ = [43] \<or> sign_text num typ = [32]"
    by (simp add: sign_text_def)
  from read_shape [OF this, of base p z num "typ" q]
  have "read_number (print_base base) (number_text num base w precision typ) = (if typ AND SIGN \<noteq> 0 then sint num else uint num)"
    unfolding s(1) number_value .
  then show ?thesis using s(2) print_number_emit by (auto simp: print_base_def split: if_splits)
qed

text \<open>\<^verbatim>\<open>rt_kprintf\<close> sends the text of the format to the console in one write, with the stream flag set for the time
  of the write. A text of more than 126 bytes is cut to 126, and then a NUL byte is sent as well.\<close>

theorem rt_kprintf_sends_text:
  assumes "unat log + 128 < 2 ^ 32" and "format_text fmt args = Some bs" and "unat log + length bs < 2 ^ 32"
  shows "\<exists>m'. rt_kprintf write log fmt args m (Some flag) d =
    Some (m', Some flag, write (flag OR 0x40) (if length bs \<le> 126 then bs else take 126 bs @ [0]) d)"
proof -
  have r: "rt_vsnprintf log 127 fmt args m = Some (of_nat (length bs), stored log (take 126 bs @ [0]) m)"
    using vsnprintf_stored [of log 127 fmt args m] assms by simp
  have u: "unat (of_nat (length bs) :: u32) = length bs" using assms(3) by (simp add: unat_of_nat)
  define k where "k = min (length bs) 127"
  define n :: u32 where "n = (if of_nat (length bs) > (127 :: u32) then 127 else of_nat (length bs))"
  have n: "unat n = k" using u by (simp add: word_less_nat_alt k_def n_def)
  have run: "rt_kprintf write log fmt args m (Some flag) d = Some (stored log (take 126 bs @ [0]) m, Some flag,
      write (flag OR 0x40) (bytes_at (stored log (take 126 bs @ [0]) m) log (unat n)) d)"
    using r by (simp add: rt_kprintf_def RT_CONSOLEBUF_SIZE_def console_write_def RT_DEVICE_FLAG_STREAM_def n_def)
  have "bytes_at (stored log (take 126 bs @ [0]) m) log k = take k (take 126 bs @ [0])"
    by (rule bytes_at_stored) (auto simp: k_def)
  also have "\<dots> = (if length bs \<le> 126 then bs else take 126 bs @ [0])" by (simp add: k_def)
  finally have e: "bytes_at (stored log (take 126 bs @ [0]) m) log k = (if length bs \<le> 126 then bs else take 126 bs @ [0])" .
  show ?thesis unfolding run n e by (rule exI) (rule refl)
qed

section \<open>Witnesses\<close>

text \<open>\<^verbatim>\<open>rt_snprintf(buf, 8, "n=%d", -5)\<close>\<close>

lemmas number_eval = number_text_def sign_text_def digits_text_def is_neg_def SIGN_def LEFT_def PLUS_def SPACE_def
    ZEROPAD_def LARGE_def tmp_digits.simps kdivide_def small_digits_def word_sless_alt

lemma sample_number: "number_text (- 5) 10 (- 1) (- 1) 2 = [45, 53]"
  by (simp add: number_eval)

lemma sample_text: "format_text [110, 61, 37, 100] [Va_word (- 5)] = Some [110, 61, 45, 53]"
proof -
  have f: "flags_loop 0 [100] = (0, [100])" by simp
  have w: "get_field_width 0 [100] args = Some (- 1, 0, [100], args)" for args by (simp add: get_field_width_def isdigit_def)
  have p: "get_precision [100] args = Some (- 1, [100], args)" for args by (simp add: get_precision_def)
  have q: "get_qualifier [100] = (0, [100])" by (simp add: get_qualifier_def)
  have "integer_format 100 0 = Some (10, 2)" by (simp add: integer_format_def SIGN_def)
  then have "convert_text 0 (- 1) (- 1) 0 100 [Va_word (- 5)] = Some ([], [45, 53])"
    by (simp add: convert_text_def get_number_def sample_number)
  then have "conversion_text 0 (- 1) (- 1) 0 [100] [Va_word (- 5)] = Some ([], [], [45, 53])"
    by (simp add: conversion_text_def)
  then have "directive_text [100] [Va_word (- 5)] = Some ([], [], [45, 53])"
    by (simp add: directive_text_def f w p q del: flags_loop.simps)
  then have "format_text [37, 100] [Va_word (- 5)] = Some [45, 53]" by (subst format_text.simps) simp
  then show ?thesis by simp
qed

lemma rt_vsnprintf_writes_text_witness:
  "\<exists>m'. rt_vsnprintf 0x100 8 [110, 61, 37, 100] [Va_word (- 5)] (\<lambda>_. 9) = Some (4, m') \<and>
     bytes_at m' 0x100 5 = [110, 61, 45, 53, 0]"
proof -
  have l: "min (length [110, 61, 45, 53 :: u8]) (unat (8 :: u32) - 1) + 1 = 5" by simp
  then show ?thesis using rt_vsnprintf_writes_text [of "0x100" 8 "[110, 61, 37, 100]" "[Va_word (- 5)]" "[110, 61, 45, 53]" "\<lambda>_. 9"]
    sample_text unfolding l by auto
qed

lemma print_number_reads_back_witness:
  "\<exists>bs. print_number 0x200 (- 5) 10 6 3 (SIGN OR LEFT) (0x100, \<lambda>_. 9) = emit 0x200 bs (0x100, \<lambda>_. 9) \<and> 6 \<le> int (length bs) \<and>
     read_number 10 bs = - 5"
  using print_number_reads_back [of 3 "0x200" "- 5" 10 6 "SIGN OR LEFT" "(0x100, \<lambda>_. 9)"] by (simp add: SIGN_def LEFT_def)

text \<open>With precision 0 no digit of a number is written, and a string is not cut.\<close>

lemma precision_zero: "number_text 5 10 w 0 2 = replicate (nat (w - 1)) 32" "string_text 0 w 0 [65, 66] = replicate (nat (w - 2)) 32 @ [65, 66]"
  by (simp_all add: number_eval string_text_def)

text \<open>\<^verbatim>\<open>%o\<close> writes 8 as 8.\<close>

lemma octal_is_hex: "number_text 8 8 (- 1) (- 1) 0 = [56]"
  by (simp add: number_eval)

text \<open>A format without \<^verbatim>\<open>%\<close> is its own text.\<close>

lemma plain_text: "37 \<notin> set fmt \<Longrightarrow> format_text fmt args = Some fmt"
  by (induction fmt) auto

end
