(* ===== verification/DeviceName.thy ===== *)
theory DeviceName
  imports ObjectSystem Device
begin

text \<open>
  The part of \<^verbatim>\<open>src/device.c\<close> that uses the object system: registering a device under a name, removing it, and devices
  in the heap. The state is that of theory \<^verbatim>\<open>Object\<close>; the fields of a device behind its object header are a record of theory
  \<^verbatim>\<open>Device\<close>.
\<close>

section \<open>Operations\<close>

text \<open>\<^verbatim>\<open>rt_device_register\<close>; the fields are set by \<open>rt_device_register\<close> of theory \<^verbatim>\<open>Device\<close>, which takes whether the name is in use.\<close>

definition register_device :: "u32 \<Rightarrow> u32 \<Rightarrow> u16 \<Rightarrow> 'a device_scheme \<Rightarrow> osys \<Rightarrow> (rt_err \<times> 'a device_scheme \<times> osys) res" where
  "register_device dev name flags d s =
     (if dev = 0 then Inr (- RT_ERROR, d, s)
      else rbind (rt_device_find name s) (\<lambda>(s, found).
        if found \<noteq> 0 then Inr (- RT_ERROR, fst (rt_device_register flags True d), s)
        else rbind (rt_object_init dev RT_Object_Class_Device name s) (\<lambda>s.
          Inr (RT_EOK, fst (rt_device_register flags False d), s))))"

definition checked_device :: "bool \<Rightarrow> u32 \<Rightarrow> osys \<Rightarrow> osys res \<Rightarrow> osys res" where
  "checked_device static dev s k = rassert (dev \<noteq> 0) (rbind (rt_object_get_type dev s) (\<lambda>ty. rassert (ty = RT_Object_Class_Device)
     (rbind (rt_object_is_systemobject dev s) (\<lambda>b. rassert (b = static) k))))"

definition rt_device_unregister :: "u32 \<Rightarrow> osys \<Rightarrow> osys res" where
  "rt_device_unregister dev s = checked_device True dev s (rt_object_detach dev s)"

text \<open>\<open>sz\<close> is \<^verbatim>\<open>sizeof(struct rt_device)\<close>; the fields of the new device are all zero.\<close>

definition rt_device_create :: "u32 \<Rightarrow> u32 \<Rightarrow> osys \<Rightarrow> (osys \<times> u32) res option" where
  "rt_device_create sz attach_size s =
     (case rt_malloc (interrupt_nest s \<noteq> 0) (rt_align sz 4 + rt_align attach_size 4) (os_heap s) of None \<Rightarrow> None
      | Some r \<Rightarrow> Some (rbind r (\<lambda>(h, dev).
          let s = s\<lparr> os_heap := h \<rparr> in
          Inr (if dev \<noteq> 0 then set_mem_data (rt_memset dev 0 sz (object_mem s)) s else s, dev))))"

definition rt_device_destroy :: "u32 \<Rightarrow> osys \<Rightarrow> osys res" where
  "rt_device_destroy dev s = checked_device False dev s (rbind (rt_object_detach dev s) (\<lambda>s.
     rbind (rt_free (interrupt_nest s \<noteq> 0) dev (os_heap s)) (\<lambda>h. Inr (s\<lparr> os_heap := h \<rparr>))))"

section \<open>Names are unique\<close>

lemma device_class: "rt_object_get_information 9 = Some 7"
  by (simp add: rt_object_get_information_def rt_object_container_def)

lemma locked_find_effect:
  assumes r: "kernel_ready s" and i: "rt_object_get_information ty = Some k"
  obtains s' where "locked_find ty name s = Inr (s', find_object (object_mem s) name (object_lists s k))"
    "kernel_ready s'" "os_heap s' = os_heap s" "object_lists s' = object_lists s"
proof (cases "current_thread s = None")
  case True
  then show thesis using that [of s] r i by (simp add: locked_find_def Let_def)
next
  case False
  obtain s2 where w: "rt_exit_critical (rt_enter_critical s) = Inr s2" "kernel_ready s2" "os_heap s2 = os_heap s" "object_lists s2 = object_lists s"
    by (rule walk_ready [OF r])
  then show thesis using that [of s2] False i by (simp add: locked_find_def Let_def rt_enter_critical_def object_mem_def)
qed

lemma find_object_0:
  assumes "0 \<notin> set objs"
  shows "find_object m name objs = 0 \<longleftrightarrow> (\<forall>obj \<in> set objs. object_name m obj \<noteq> object_name m name)"
  unfolding find_object_first using assms by (auto simp: filter_empty_conv split: list.splits dest!: filter_eq_ConsD)

text \<open>C33: A device is registered under a name that no device has in its first 8 characters, or not at all: \<^verbatim>\<open>rt_device_register\<close> of a new
  static device whose name is in use returns an error and changes no object; otherwise it returns success with the counters at zero, the device is
  the one that \<^verbatim>\<open>rt_device_find\<close> returns for the name, the objects stay typed and no other look-up changes.\<close>

theorem register_device_unique:
  assumes "objects_ok sz s xs" and "kernel_ready s" and "sizes_ok sz" and "cstr (object_mem s) name cs"
    and "dev \<notin> objects s" and "outside_heap (os_heap s) dev"
    and "\<forall>a \<in> objects s. is_static (object_mem s) a \<longrightarrow> apart (dev, 20) (a, 20)" and "string_apart name cs dev 20"
  shows "if \<exists>obj \<in> set (object_lists s 7). object_name (object_mem s) obj = take 8 cs
    then \<exists>s'. register_device dev name flags d s = Inr (- RT_ERROR, d, s') \<and> os_heap s' = os_heap s \<and> object_lists s' = object_lists s
    else \<exists>s' d'. register_device dev name flags d s = Inr (RT_EOK, d', s') \<and> dev_flag d' = flags \<and> dev_ref_count d' = 0 \<and>
      objects_ok sz s' xs \<and> directory s' = (directory s)(7 := (dev, take 8 cs) # directory s 7) \<and>
      (\<exists>s2. rt_device_find name s' = Inr (s2, dev))"
proof -
  note D = objects_okD [OF assms(1)]
  have nz: "dev \<noteq> 0" using assms(6) by (simp add: outside_heap_def)
  have nm: "object_name (object_mem s) name = take 8 cs" using name_at_cstr [OF assms(4)] by (simp add: object_name_def)
  obtain s1 where f: "rt_device_find name s = Inr (s1, find_object (object_mem s) name (object_lists s 7))" "kernel_ready s1"
      "os_heap s1 = os_heap s" "object_lists s1 = object_lists s"
    unfolding rt_device_find_def by (rule locked_find_effect [OF assms(2) device_class])
  have z: "0 \<notin> set (object_lists s 7)" using typed_fits(1) [OF D(5) D(1) assms(3)] by blast
  have found: "find_object (object_mem s) name (object_lists s 7) \<noteq> 0 \<longleftrightarrow>
      (\<exists>obj \<in> set (object_lists s 7). object_name (object_mem s) obj = take 8 cs)"
    unfolding find_object_0 [OF z] nm by blast
  show ?thesis
  proof (cases "\<exists>obj \<in> set (object_lists s 7). object_name (object_mem s) obj = take 8 cs")
    case True
    then have "register_device dev name flags d s = Inr (- RT_ERROR, d, s1)"
      using nz f(1) found by (simp add: register_device_def rt_device_register_def)
    then show ?thesis using f(3,4) True by auto
  next
    case False
    have m1: "object_mem s1 = object_mem s" "objects s1 = objects s" by (simp_all add: object_mem_def objects_def f(3,4))
    have ok1: "objects_ok sz s1 xs" using assms(1) by (simp add: objects_ok_def m1 f(3,4))
    have new: "dev \<notin> set (object_lists s1 7)" using assms(5) by (auto simp: in_objects f(4))
    obtain s2 m where i: "rt_object_init dev 9 name s1 = Inr s2" "kernel_ready s2"
        "object_lists s2 = (object_lists s1)(7 := dev # object_lists s1 7)" "os_heap s2 = (os_heap s1)\<lparr> mem_data := m \<rparr>"
        "only_in dev 20 (object_mem s1) m" "object_type m dev = 9 OR 0x80"
        "\<And>xs. cstr (object_mem s1) name xs \<Longrightarrow> string_apart name xs dev 20 \<Longrightarrow> object_name m dev = take 8 xs"
      by (rule init_effect [OF f(2) device_class new, of name]) (rule that, assumption+)
    have m2: "object_mem s2 = m" by (simp add: object_mem_def i(4))
    have new1: "dev \<notin> objects s1" "outside_heap (os_heap s1) dev"
        "\<forall>a \<in> objects s1. is_static (object_mem s1) a \<longrightarrow> apart (dev, 20) (a, 20)" using assms(5-7) by (simp_all add: m1 f(3))
    note I = object_init_ok [OF ok1 assms(3) device_class new1 i(3-6)]
    have name2: "object_name m dev = take 8 cs" by (rule i(7)) (use assms(4,8) m1 in simp_all)
    have ob2: "objects s2 = insert dev (objects s)" using objects_insert [OF i(3)] m1 by simp
    have dv: "dev \<in> objects s2" by (simp add: ob2)
    have keep: "same_header (object_mem s) m a" if a: "a \<in> objects s" for a
    proof -
      have a2: "a \<in> objects s2" "a \<noteq> dev" using a assms(5) by (auto simp: ob2)
      obtain j where j: "a \<in> set (object_lists s j)" using a by (auto simp: in_objects)
      show ?thesis by (rule header_kept [of dev 20]) (use i(5) m1 objects_apart [OF I assms(3) a2(1) dv a2(2)]
          typed_fits(2) [OF D(5) [OF j] D(1) assms(3)] assms(6) in \<open>simp_all add: outside_heap_def\<close>)
    qed
    have "directory s2 j = ((directory s)(7 := (dev, take 8 cs) # directory s 7)) j" for j
    proof -
      have "map (\<lambda>obj. (obj, object_name m obj)) (object_lists s j) = directory s j"
        unfolding directory_def by (rule directory_kept, rule keep) (auto simp: in_objects)
      then show ?thesis by (simp add: directory_def m2 i(3) f(4) name2)
    qed
    then have dir: "directory s2 = (directory s)(7 := (dev, take 8 cs) # directory s 7)" by (rule ext)
    have "cstr m name cs" by (rule cstr_only_in [OF _ i(5) assms(8)]) (use assms(4) m1 in simp)
    then have "object_name m name = take 8 cs" using name_at_cstr by (simp add: object_name_def)
    then have "find_object (object_mem s2) name (object_lists s2 7) = dev" by (simp add: find_object_first m2 i(3) name2)
    then have fnd: "\<exists>s3. rt_device_find name s2 = Inr (s3, dev)"
      using locked_find_effect [OF i(2) device_class, of name] unfolding rt_device_find_def by metis
    have "register_device dev name flags d s = Inr (RT_EOK, fst (rt_device_register flags False d), s2)"
      using nz f(1) found False i(1) by (simp add: register_device_def)
    then show ?thesis unfolding if_not_P [OF False] using I dir fnd
      by (intro exI [of _ s2] exI [of _ "fst (rt_device_register flags False d)"]) (simp add: rt_device_register_def)
  qed
qed

definition sample_device :: device where
  "sample_device = \<lparr> dev_flag = 0, dev_open_flag = 5, dev_ref_count = 7, rx_indicate = None, tx_complete = None \<rparr>"

theorem register_device_unique_witness:
  "\<exists>d s. register_device 0x80 0x100 3 sample_device (sample_osys (\<lambda>_. [])) = Inr (RT_EOK, d, s) \<and> dev_ref_count d = 0 \<and>
     directory s 7 = [(0x80, [108, 101, 100])]"
proof -
  have h: "unat (heap_ptr sample_heap) = 0x20001004"
    by (simp add: sample_heap_def rt_system_heap_init_def Let_def rt_align_def rt_align_down_def)
  have a: "cstr (object_mem (sample_osys (\<lambda>_. []))) 0x100 [108, 101, 100]" "0x80 \<notin> objects (sample_osys (\<lambda>_. []))"
    "outside_heap (os_heap (sample_osys (\<lambda>_. []))) 0x80"
    "\<forall>a \<in> objects (sample_osys (\<lambda>_. [])). is_static (object_mem (sample_osys (\<lambda>_. []))) a \<longrightarrow> apart (0x80, 20) (a, 20)"
    using h sample_objects(4) by (simp_all add: objects_def outside_heap_def heap_end_def)
  have "string_apart 0x100 [108, 101, 100] 0x80 20"
    unfolding string_apart_def by (auto simp: le_Suc_eq)
  from register_device_unique [OF sample_objects(1) sample_ready sample_objects(2) a this, of 3 sample_device]
  have "\<exists>d s. register_device 0x80 0x100 3 sample_device (sample_osys (\<lambda>_. [])) = Inr (RT_EOK, d, s) \<and> dev_ref_count d = 0 \<and>
     directory s = (directory (sample_osys (\<lambda>_. [])))(7 := (0x80, take 8 [108, 101, 100]) # directory (sample_osys (\<lambda>_. [])) 7)" by auto
  moreover have "directory (sample_osys (\<lambda>_. [])) 7 = []" by (simp add: directory_def)
  ultimately show ?thesis by auto
qed

section \<open>Removing devices\<close>

lemma unregister_effect:
  assumes "objects_ok sz s xs" "kernel_ready s" "sizes_ok sz" "dev \<in> set (object_lists s 7)" "is_static (object_mem s) dev"
  obtains s' where "rt_device_unregister dev s = Inr s'" "object_lists s' 7 = remove1 dev (object_lists s 7)"
proof -
  note D = objects_okD [OF assms(1)]
  have ty: "object_type (object_mem s) dev AND NOT 0x80 = 9" using D(5) [OF assms(4)]
    by (simp add: well_typed_def object_mem_def class_type_def rt_object_container_def)
  have nz: "dev \<noteq> 0" by (rule typed_fits(1) [OF D(5) [OF assms(4)] D(1) assms(3)])
  obtain s' m where d: "rt_object_detach dev s = Inr s'" "object_lists s' = (\<lambda>k. remove1 dev (object_lists s k))"
    by (rule detach_effect [OF assms(2) nz])
  have "rt_device_unregister dev s = Inr s'" using nz ty assms(5) d(1)
    by (simp add: rt_device_unregister_def checked_device_def rt_object_get_type_def rt_object_is_systemobject_def is_static_def)
  then show thesis using that d(2) by simp
qed

text \<open>\<^verbatim>\<open>rt_device_destroy\<close> wants a device object that is not static. A device of \<^verbatim>\<open>rt_device_create\<close> is not an object yet (its
  type is 0) and registering it makes it static, so that it cannot be destroyed either way.\<close>

lemma created_device_stays:
  assumes ok: "heap_ok (os_heap s) xs" and r: "interrupt_nest s = 0" and sz: "20 \<le> unat sz" "unat (rt_align sz 4 + rt_align attach_size 4) + 3 < 2 ^ 32"
    "unat sz \<le> unat (rt_align sz 4 + rt_align attach_size 4)"
    and c: "rt_device_create sz attach_size s = Some (Inr (s', dev))" "dev \<noteq> 0"
  shows "rt_device_destroy dev s' = Inl Assert_failed"
proof -
  obtain h where "s' = set_mem_data (rt_memset dev 0 sz (mem_data h)) (s\<lparr> os_heap := h \<rparr>)"
    using c r by (auto simp: rt_device_create_def rbind_eq_Inr object_mem_def Let_def split: option.splits sum.splits if_splits)
  then have "object_mem s' = filled dev 0 (unat sz) (mem_data h)" by (simp add: object_mem_def memset_filled)
  then have "object_type (object_mem s') dev = 0" using sz(1) by (simp add: object_type_def filled_def)
  then show ?thesis using c(2) by (simp add: rt_device_destroy_def checked_device_def rt_object_get_type_def)
qed

lemma registered_device_stays:
  assumes "is_static (object_mem s) dev"
  shows "rt_device_destroy dev s = Inl Assert_failed"
  using assms by (simp add: rt_device_destroy_def checked_device_def rt_object_get_type_def rt_object_is_systemobject_def is_static_def rassert_def)

end
