(* ===== verification/Serial.thy ===== *)
theory Serial
  imports Device
begin

text \<open>
  The serial driver, \<^verbatim>\<open>components/drivers/serial/serial.c\<close>: what stands between the interrupts of a UART and the
  threads that read and write. The operations of the UART itself (\<^verbatim>\<open>struct rt_uart_ops\<close>) belong to the chip's
  library and are parameters on a state \<open>'h\<close> of the hardware.
\<close>

section \<open>State\<close>

definition RT_DEVICE_FLAG_SUSPENDED :: u16 where "RT_DEVICE_FLAG_SUSPENDED = 0x020"
definition RT_DEVICE_FLAG_INT_RX :: u16 where "RT_DEVICE_FLAG_INT_RX = 0x100"
definition RT_DEVICE_FLAG_DMA_RX :: u16 where "RT_DEVICE_FLAG_DMA_RX = 0x200"
definition RT_DEVICE_FLAG_INT_TX :: u16 where "RT_DEVICE_FLAG_INT_TX = 0x400"
definition RT_DEVICE_FLAG_DMA_TX :: u16 where "RT_DEVICE_FLAG_DMA_TX = 0x800"

record serial_configure =
  baud_rate :: u32
  data_bits :: "4 word"
  stop_bits :: "2 word"
  parity :: "2 word"
  bit_order :: "1 word"
  invert :: "1 word"
  bufsz :: u16

record rx_fifo =
  buffer :: bytes
  put_index :: u16
  get_index :: u16
  is_full :: bool

datatype serial_rx = Rx_fifo rx_fifo | Rx_dma bool

text \<open>The flag of the completion object, and whether a transfer is active.\<close>

datatype serial_tx = Tx_fifo bool | Tx_dma bool

record 'h serial = device +
  config :: serial_configure
  serial_rx :: "serial_rx option"
  serial_tx :: "serial_tx option"
  hw :: 'h

datatype int_cmd = Set_int | Clr_int | Config_dma

text \<open>\<open>uart_putc\<close> gives \<open>False\<close> for -1. \<open>uart_wait\<close> is the time up to the completion that
  \<^verbatim>\<open>_serial_int_tx\<close> waits for. The control of the hardware gives a result for the commands that the driver does not know.\<close>

record 'h uart_ops =
  uart_configure :: "serial_configure \<Rightarrow> 'h \<Rightarrow> rt_err \<times> 'h"
  uart_int :: "int_cmd \<Rightarrow> u16 \<Rightarrow> 'h \<Rightarrow> 'h"
  uart_control :: "u32 \<Rightarrow> u32 \<Rightarrow> 'h \<Rightarrow> rt_err \<times> 'h"
  uart_putc :: "u8 \<Rightarrow> 'h \<Rightarrow> bool \<times> 'h"
  uart_getc :: "'h \<Rightarrow> u8 option \<times> 'h"
  uart_wait :: "'h \<Rightarrow> 'h"
  uart_dma_transmit :: "nat \<Rightarrow> 'h \<Rightarrow> 'h"

section \<open>The receive FIFO\<close>

text \<open>One byte of the receive interrupt.\<close>

definition fifo_put :: "u16 \<Rightarrow> u8 \<Rightarrow> rx_fifo \<Rightarrow> rx_fifo res" where
  "fifo_put n ch f = rbind (store8 (buffer f) (unat (put_index f)) ch) (\<lambda>b.
     let f = f\<lparr> buffer := b, put_index := put_index f + 1 \<rparr>;
         f = (if put_index f \<ge> n then f\<lparr> put_index := 0 \<rparr> else f) in
     if put_index f = get_index f
     then let f = f\<lparr> get_index := get_index f + 1, is_full := True \<rparr> in
          Inr (if get_index f \<ge> n then f\<lparr> get_index := 0 \<rparr> else f)
     else Inr f)"

text \<open>\<^verbatim>\<open>_serial_int_rx\<close>\<close>

fun serial_int_rx :: "u16 \<Rightarrow> nat \<Rightarrow> rx_fifo \<Rightarrow> (bytes \<times> rx_fifo) res" where
  "serial_int_rx n 0 f = Inr ([], f)"
| "serial_int_rx n (Suc k) f =
     (if get_index f = put_index f \<and> \<not> is_full f then Inr ([], f)
      else rbind (load8 (buffer f) (unat (get_index f))) (\<lambda>ch.
        let f = f\<lparr> get_index := get_index f + 1 \<rparr>;
            f = (if get_index f \<ge> n then f\<lparr> get_index := 0 \<rparr> else f);
            f = (if is_full f then f\<lparr> is_full := False \<rparr> else f) in
        rbind (serial_int_rx n k f) (\<lambda>(bs, f). Inr (ch # bs, f))))"

definition rx_length :: "u16 \<Rightarrow> rx_fifo \<Rightarrow> u32" where
  "rx_length n f =
     (if put_index f \<ge> get_index f then ucast (put_index f) - ucast (get_index f)
      else ucast n - (ucast (get_index f) - ucast (put_index f)))"

definition serial_fifo_calc_recved_len :: "u16 \<Rightarrow> rx_fifo \<Rightarrow> u32" where
  "serial_fifo_calc_recved_len n f =
     (if put_index f = get_index f then (if is_full f then ucast n else 0)
      else if put_index f > get_index f then ucast (put_index f) - ucast (get_index f)
      else ucast n - (ucast (get_index f) - ucast (put_index f)))"

definition rt_dma_recv_update_get_index :: "u16 \<Rightarrow> u32 \<Rightarrow> rx_fifo \<Rightarrow> rx_fifo res" where
  "rt_dma_recv_update_get_index n len f = rassert (len \<le> serial_fifo_calc_recved_len n f)
     (let f = (if is_full f \<and> len \<noteq> 0 then f\<lparr> is_full := False \<rparr> else f);
          f = f\<lparr> get_index := get_index f + ucast len \<rparr> in
      Inr (if get_index f \<ge> n then f\<lparr> get_index := get_index f mod n \<rparr> else f))"

definition rt_dma_recv_update_put_index :: "u16 \<Rightarrow> u32 \<Rightarrow> rx_fifo \<Rightarrow> rx_fifo" where
  "rt_dma_recv_update_put_index n len f =
     (let f = (if get_index f \<le> put_index f
        then let f = f\<lparr> put_index := put_index f + ucast len \<rparr> in
          if put_index f \<ge> n
          then let f = f\<lparr> put_index := put_index f mod n \<rparr> in
            if put_index f \<ge> get_index f then f\<lparr> is_full := True \<rparr> else f
          else f
        else let f = f\<lparr> put_index := put_index f + ucast len \<rparr> in
          if put_index f \<ge> get_index f
          then let f = (if put_index f \<ge> n then f\<lparr> put_index := put_index f mod n \<rparr> else f) in f\<lparr> is_full := True \<rparr>
          else f) in
      if is_full f then f\<lparr> get_index := put_index f \<rparr> else f)"

text \<open>The bytes that \<^verbatim>\<open>rt_memcpy\<close> takes out of the buffer.\<close>

definition take_bytes :: "bytes \<Rightarrow> nat \<Rightarrow> nat \<Rightarrow> bytes res" where
  "take_bytes b off k = (if off + k \<le> length b then Inr (take k (drop off b)) else Inl Out_of_bounds)"

definition dma_rx_fifo :: "u16 \<Rightarrow> nat \<Rightarrow> rx_fifo \<Rightarrow> (bytes \<times> rx_fifo) res" where
  "dma_rx_fifo n len f =
     (let recved = unat (serial_fifo_calc_recved_len n f); k = (if len < recved then len else recved); g = unat (get_index f) in
      rbind (if g + k < unat n then take_bytes (buffer f) g k
             else rbind (take_bytes (buffer f) g (unat n - g)) (\<lambda>as.
               rbind (take_bytes (buffer f) 0 (k + g - unat n)) (\<lambda>bs. Inr (as @ bs)))) (\<lambda>bs.
      rbind (rt_dma_recv_update_get_index n (of_nat k) f) (\<lambda>f. Inr (bs, f))))"

section \<open>Reading\<close>

definition get_fifo :: "'h serial \<Rightarrow> rx_fifo res" where
  "get_fifo s = (case serial_rx s of None \<Rightarrow> Inl Assert_failed | Some (Rx_fifo f) \<Rightarrow> Inr f | Some (Rx_dma _) \<Rightarrow> Inl Out_of_bounds)"

fun serial_poll_rx :: "'h uart_ops \<Rightarrow> nat \<Rightarrow> 'h \<Rightarrow> bytes \<times> 'h" where
  "serial_poll_rx ops 0 h = ([], h)"
| "serial_poll_rx ops (Suc k) h =
     (case uart_getc ops h of (None, h) \<Rightarrow> ([], h)
      | (Some ch, h) \<Rightarrow> if ch = 10 then ([ch], h) else (case serial_poll_rx ops k h of (bs, h) \<Rightarrow> (ch # bs, h)))"

text \<open>Without a FIFO (\<^verbatim>\<open>bufsz == 0\<close>) the hardware is told to write to the caller's buffer, and the result is
  the length asked for; the bytes are then not there yet, and are \<open>unknown\<close>.\<close>

definition serial_dma_rx :: "'h uart_ops \<Rightarrow> bytes \<Rightarrow> nat \<Rightarrow> 'h serial \<Rightarrow> (bytes \<times> 'h serial) res" where
  "serial_dma_rx ops unknown len s =
     (if bufsz (config s) = 0
      then (case serial_rx s of None \<Rightarrow> Inl Assert_failed
        | Some (Rx_dma active) \<Rightarrow>
            if \<not> active then Inr (unknown, s\<lparr> serial_rx := Some (Rx_dma True), hw := uart_dma_transmit ops len (hw s) \<rparr>)
            else Inr ([], s)
        | Some (Rx_fifo _) \<Rightarrow> Inl Out_of_bounds)
      else rbind (get_fifo s) (\<lambda>f. rbind (dma_rx_fifo (bufsz (config s)) len f) (\<lambda>(bs, f).
        Inr (bs, s\<lparr> serial_rx := Some (Rx_fifo f) \<rparr>))))"

definition rt_serial_read :: "'h uart_ops \<Rightarrow> (nat \<Rightarrow> bytes) \<Rightarrow> nat \<Rightarrow> 'h serial \<Rightarrow> (bytes \<times> 'h serial) res" where
  "rt_serial_read ops unknown len s =
     (if len = 0 then Inr ([], s)
      else if dev_open_flag s AND RT_DEVICE_FLAG_INT_RX \<noteq> 0
      then rbind (get_fifo s) (\<lambda>f. rbind (serial_int_rx (bufsz (config s)) len f) (\<lambda>(bs, f).
        Inr (bs, s\<lparr> serial_rx := Some (Rx_fifo f) \<rparr>)))
      else if dev_open_flag s AND RT_DEVICE_FLAG_DMA_RX \<noteq> 0 then serial_dma_rx ops (unknown len) len s
      else (case serial_poll_rx ops len (hw s) of (bs, h) \<Rightarrow> Inr (bs, s\<lparr> hw := h \<rparr>)))"

section \<open>Writing\<close>

text \<open>\<^verbatim>\<open>_serial_poll_tx\<close>: the result of \<^verbatim>\<open>putc\<close> is not looked at.\<close>

fun serial_poll_tx :: "'h uart_ops \<Rightarrow> u16 \<Rightarrow> bytes \<Rightarrow> 'h \<Rightarrow> 'h" where
  "serial_poll_tx ops open_flag [] h = h"
| "serial_poll_tx ops open_flag (c # cs) h =
     (let h = (if c = 10 \<and> open_flag AND RT_DEVICE_FLAG_STREAM \<noteq> 0 then snd (uart_putc ops 13 h) else h) in
      serial_poll_tx ops open_flag cs (snd (uart_putc ops c h)))"

partial_function (option) serial_int_tx :: "'h uart_ops \<Rightarrow> bytes \<Rightarrow> 'h \<Rightarrow> 'h option" where
  "serial_int_tx ops cs h =
     (case cs of [] \<Rightarrow> Some h
      | c # rest \<Rightarrow> if fst (uart_putc ops c h) then serial_int_tx ops rest (snd (uart_putc ops c h))
          else serial_int_tx ops cs (uart_wait ops (snd (uart_putc ops c h))))"

text \<open>A transmission by DMA goes through the data queue of \<^verbatim>\<open>dataqueue.c\<close> and the kernel (theory \<open>SerialTx\<close>): \<open>dma_tx\<close> stands
  for \<^verbatim>\<open>_serial_dma_tx\<close> here. \<open>None\<close> is a write that does not return.\<close>

definition rt_serial_write ::
  "'h uart_ops \<Rightarrow> (bytes \<Rightarrow> 'h serial \<Rightarrow> nat \<times> 'h serial) \<Rightarrow> bytes \<Rightarrow> 'h serial \<Rightarrow> (nat \<times> 'h serial) res option" where
  "rt_serial_write ops dma_tx cs s =
     (if cs = [] then Some (Inr (0, s))
      else if dev_open_flag s AND RT_DEVICE_FLAG_INT_TX \<noteq> 0
      then if serial_tx s = None then Some (Inl Assert_failed)
        else map_option (\<lambda>h. Inr (length cs, s\<lparr> hw := h \<rparr>)) (serial_int_tx ops cs (hw s))
      else if dev_open_flag s AND RT_DEVICE_FLAG_DMA_TX \<noteq> 0 then Some (Inr (dma_tx cs s))
      else Some (Inr (length cs, s\<lparr> hw := serial_poll_tx ops (dev_open_flag s) cs (hw s) \<rparr>)))"

section \<open>Opening and closing\<close>

definition rt_serial_init :: "'h uart_ops \<Rightarrow> 'h serial \<Rightarrow> (rt_err \<times> 'h serial) res" where
  "rt_serial_init ops s =
     (let s = s\<lparr> serial_rx := None, serial_tx := None \<rparr>; (result, h) = uart_configure ops (config s) (hw s) in
      Inr (result, s\<lparr> hw := h \<rparr>))"

definition empty_fifo :: "u16 \<Rightarrow> rx_fifo" where
  "empty_fifo n = \<lparr> buffer = replicate (unat n) 0, put_index = 0, get_index = 0, is_full = False \<rparr>"

text \<open>\<open>mem\<close> tells whether \<^verbatim>\<open>rt_malloc\<close> returns memory; where it does not, an assertion fails.\<close>

definition open_rx :: "'h uart_ops \<Rightarrow> bool \<Rightarrow> u16 \<Rightarrow> 'h serial \<Rightarrow> 'h serial res" where
  "open_rx ops mem oflag s =
     (if serial_rx s = None
      then if oflag AND RT_DEVICE_FLAG_INT_RX \<noteq> 0
        then rassert mem (Inr (s\<lparr> serial_rx := Some (Rx_fifo (empty_fifo (bufsz (config s)))),
          dev_open_flag := dev_open_flag s OR RT_DEVICE_FLAG_INT_RX, hw := uart_int ops Set_int RT_DEVICE_FLAG_INT_RX (hw s) \<rparr>))
        else if oflag AND RT_DEVICE_FLAG_DMA_RX \<noteq> 0
        then rassert mem (let s = (if bufsz (config s) = 0 then s\<lparr> serial_rx := Some (Rx_dma False) \<rparr>
            else s\<lparr> serial_rx := Some (Rx_fifo (empty_fifo (bufsz (config s)))), hw := uart_int ops Config_dma RT_DEVICE_FLAG_DMA_RX (hw s) \<rparr>) in
          Inr (s\<lparr> dev_open_flag := dev_open_flag s OR RT_DEVICE_FLAG_DMA_RX \<rparr>))
        else Inr s
      else if oflag AND RT_DEVICE_FLAG_INT_RX \<noteq> 0 then Inr (s\<lparr> dev_open_flag := dev_open_flag s OR RT_DEVICE_FLAG_INT_RX \<rparr>)
      else if oflag AND RT_DEVICE_FLAG_DMA_RX \<noteq> 0 then Inr (s\<lparr> dev_open_flag := dev_open_flag s OR RT_DEVICE_FLAG_DMA_RX \<rparr>)
      else Inr s)"

definition open_tx :: "'h uart_ops \<Rightarrow> bool \<Rightarrow> u16 \<Rightarrow> 'h serial \<Rightarrow> 'h serial res" where
  "open_tx ops mem oflag s =
     (if serial_tx s = None
      then if oflag AND RT_DEVICE_FLAG_INT_TX \<noteq> 0
        then rassert mem (Inr (s\<lparr> serial_tx := Some (Tx_fifo False),
          dev_open_flag := dev_open_flag s OR RT_DEVICE_FLAG_INT_TX, hw := uart_int ops Set_int RT_DEVICE_FLAG_INT_TX (hw s) \<rparr>))
        else if oflag AND RT_DEVICE_FLAG_DMA_TX \<noteq> 0
        then rassert mem (Inr (s\<lparr> serial_tx := Some (Tx_dma False),
          dev_open_flag := dev_open_flag s OR RT_DEVICE_FLAG_DMA_TX, hw := uart_int ops Config_dma RT_DEVICE_FLAG_DMA_TX (hw s) \<rparr>))
        else Inr s
      else if oflag AND RT_DEVICE_FLAG_INT_TX \<noteq> 0 then Inr (s\<lparr> dev_open_flag := dev_open_flag s OR RT_DEVICE_FLAG_INT_TX \<rparr>)
      else if oflag AND RT_DEVICE_FLAG_DMA_TX \<noteq> 0 then Inr (s\<lparr> dev_open_flag := dev_open_flag s OR RT_DEVICE_FLAG_DMA_TX \<rparr>)
      else Inr s)"

text \<open>An open flag that the device does not offer.\<close>

definition not_offered :: "u16 \<Rightarrow> 'h serial \<Rightarrow> bool" where
  "not_offered oflag s \<longleftrightarrow> (\<exists>x \<in> {RT_DEVICE_FLAG_DMA_RX, RT_DEVICE_FLAG_DMA_TX, RT_DEVICE_FLAG_INT_RX, RT_DEVICE_FLAG_INT_TX}.
     oflag AND x \<noteq> 0 \<and> dev_flag s AND x = 0)"

definition rt_serial_open :: "'h uart_ops \<Rightarrow> bool \<Rightarrow> bool \<Rightarrow> u16 \<Rightarrow> 'h serial \<Rightarrow> (rt_err \<times> 'h serial) res" where
  "rt_serial_open ops mem_rx mem_tx oflag s =
     (if not_offered oflag s then Inr (- RT_EIO, s)
      else let stream_flag = (if oflag AND RT_DEVICE_FLAG_STREAM \<noteq> 0 \<or> dev_open_flag s AND RT_DEVICE_FLAG_STREAM \<noteq> 0
             then RT_DEVICE_FLAG_STREAM else 0) in
        rbind (open_rx ops mem_rx oflag (s\<lparr> dev_open_flag := oflag AND 0xff \<rparr>)) (\<lambda>s.
        rbind (open_tx ops mem_tx oflag s) (\<lambda>s.
        Inr (RT_EOK, s\<lparr> dev_open_flag := dev_open_flag s OR stream_flag \<rparr>))))"

definition close_rx :: "'h uart_ops \<Rightarrow> 'h serial \<Rightarrow> 'h serial res" where
  "close_rx ops s =
     (if dev_open_flag s AND RT_DEVICE_FLAG_INT_RX \<noteq> 0
      then rassert (serial_rx s \<noteq> None) (Inr (s\<lparr> serial_rx := None,
        dev_open_flag := dev_open_flag s AND NOT RT_DEVICE_FLAG_INT_RX, hw := uart_int ops Clr_int RT_DEVICE_FLAG_INT_RX (hw s) \<rparr>))
      else if dev_open_flag s AND RT_DEVICE_FLAG_DMA_RX \<noteq> 0
      then rassert (serial_rx s \<noteq> None) (Inr (s\<lparr> serial_rx := None,
        dev_open_flag := dev_open_flag s AND NOT RT_DEVICE_FLAG_DMA_RX, hw := uart_int ops Clr_int RT_DEVICE_FLAG_DMA_RX (hw s) \<rparr>))
      else Inr s)"

definition close_tx :: "'h uart_ops \<Rightarrow> 'h serial \<Rightarrow> 'h serial res" where
  "close_tx ops s =
     (if dev_open_flag s AND RT_DEVICE_FLAG_INT_TX \<noteq> 0
      then rassert (serial_tx s \<noteq> None) (Inr (s\<lparr> serial_tx := None,
        dev_open_flag := dev_open_flag s AND NOT RT_DEVICE_FLAG_INT_TX, hw := uart_int ops Clr_int RT_DEVICE_FLAG_INT_TX (hw s) \<rparr>))
      else if dev_open_flag s AND RT_DEVICE_FLAG_DMA_TX \<noteq> 0
      then rassert (serial_tx s \<noteq> None) (Inr (s\<lparr> serial_tx := None, dev_open_flag := dev_open_flag s AND NOT RT_DEVICE_FLAG_DMA_TX \<rparr>))
      else Inr s)"

definition rt_serial_close :: "'h uart_ops \<Rightarrow> 'h serial \<Rightarrow> (rt_err \<times> 'h serial) res" where
  "rt_serial_close ops s =
     (if dev_ref_count s > 1 then Inr (RT_EOK, s)
      else rbind (close_rx ops s) (\<lambda>s. rbind (close_tx ops s) (\<lambda>s. Inr (RT_EOK, s))))"

section \<open>Control\<close>

text \<open>The commands that the driver knows; \<^verbatim>\<open>FIONREAD\<close> gives a length. Any other goes to the hardware.\<close>

datatype serial_cmd = Ctrl_suspend | Ctrl_resume | Ctrl_config "serial_configure option" | Fionread | Ctrl_other u32 u32

definition rt_serial_control :: "'h uart_ops \<Rightarrow> serial_cmd \<Rightarrow> 'h serial \<Rightarrow> (rt_err \<times> u32 option \<times> 'h serial) res" where
  "rt_serial_control ops cmd s =
     (case cmd of
        Ctrl_suspend \<Rightarrow> Inr (RT_EOK, None, s\<lparr> dev_flag := dev_flag s OR RT_DEVICE_FLAG_SUSPENDED \<rparr>)
      | Ctrl_resume \<Rightarrow> Inr (RT_EOK, None, s\<lparr> dev_flag := dev_flag s AND NOT RT_DEVICE_FLAG_SUSPENDED \<rparr>)
      | Ctrl_config None \<Rightarrow> Inr (RT_EOK, None, s)
      | Ctrl_config (Some cfg) \<Rightarrow>
          if bufsz cfg \<noteq> bufsz (config s) \<and> dev_ref_count s \<noteq> 0 then Inr (RT_EBUSY, None, s)
          else let s = s\<lparr> config := cfg \<rparr> in
            Inr (RT_EOK, None, if dev_ref_count s \<noteq> 0 then s\<lparr> hw := snd (uart_configure ops cfg (hw s)) \<rparr> else s)
      | Fionread \<Rightarrow> rbind (get_fifo s) (\<lambda>f. Inr (RT_EOK, Some (serial_fifo_calc_recved_len (bufsz (config s)) f), s))
      | Ctrl_other c a \<Rightarrow> (case uart_control ops c a (hw s) of (r, h) \<Rightarrow> Inr (r, None, s\<lparr> hw := h \<rparr>)))"

definition rt_hw_serial_register :: "u16 \<Rightarrow> bool \<Rightarrow> 'h serial \<Rightarrow> 'h serial \<times> rt_err" where
  "rt_hw_serial_register flag name_taken s =
     rt_device_register flag name_taken (s\<lparr> rx_indicate := None, tx_complete := None \<rparr>)"

text \<open>The driver behind the device layer.\<close>

definition serial_driver ::
  "'h uart_ops \<Rightarrow> bool \<Rightarrow> bool \<Rightarrow> (nat \<Rightarrow> bytes) \<Rightarrow> (bytes \<Rightarrow> 'h serial \<Rightarrow> nat \<times> 'h serial) \<Rightarrow>
     ('h serial, serial_cmd, u32 option) driver" where
  "serial_driver ops mem_rx mem_tx unknown dma_tx = \<lparr> device_init = Some (rt_serial_init ops),
     device_open = Some (rt_serial_open ops mem_rx mem_tx), device_close = Some (rt_serial_close ops),
     device_read = Some (rt_serial_read ops unknown), device_write = Some (rt_serial_write ops dma_tx), device_control = Some (rt_serial_control ops) \<rparr>"

section \<open>Interrupts\<close>

text \<open>The loop of the receive interrupt ends when the hardware has no byte left.\<close>

partial_function (option) isr_rx_loop :: "'h uart_ops \<Rightarrow> u16 \<Rightarrow> 'h \<Rightarrow> rx_fifo \<Rightarrow> ('h \<times> rx_fifo) res option" where
  "isr_rx_loop ops n h f =
     (case fst (uart_getc ops h) of None \<Rightarrow> Some (Inr (snd (uart_getc ops h), f))
      | Some ch \<Rightarrow> (case fifo_put n ch f of Inl e \<Rightarrow> Some (Inl e)
          | Inr f \<Rightarrow> isr_rx_loop ops n (snd (uart_getc ops h)) f))"

text \<open>The events of \<^verbatim>\<open>rt_hw_serial_isr\<close>. A result is the length with which \<^verbatim>\<open>rx_indicate\<close> is called, if it is. The end
  of a transmission by DMA, \<open>tx_dmadone\<close>, is in \<open>SerialTx\<close>.\<close>

datatype serial_event = Event_rx_ind | Event_tx_done | Event_tx_dmadone | Event_rx_dmadone u32 | Event_other

definition rt_hw_serial_isr ::
  "'h uart_ops \<Rightarrow> ('h serial \<Rightarrow> 'h serial) \<Rightarrow> serial_event \<Rightarrow> 'h serial \<Rightarrow> (u32 option \<times> 'h serial) res option" where
  "rt_hw_serial_isr ops tx_dmadone event s =
     (case event of
        Event_rx_ind \<Rightarrow>
          (case get_fifo s of Inl e \<Rightarrow> Some (Inl e)
           | Inr f \<Rightarrow> map_option (\<lambda>r. rbind r (\<lambda>(h, f). let k = rx_length (bufsz (config s)) f in
               Inr (if rx_indicate s \<noteq> None \<and> k \<noteq> 0 then Some k else None, s\<lparr> serial_rx := Some (Rx_fifo f), hw := h \<rparr>)))
               (isr_rx_loop ops (bufsz (config s)) (hw s) f))
      | Event_tx_done \<Rightarrow>
          (case serial_tx s of Some (Tx_fifo _) \<Rightarrow> Some (Inr (None, s\<lparr> serial_tx := Some (Tx_fifo True) \<rparr>))
           | _ \<Rightarrow> Some (Inl Null_pointer))
      | Event_tx_dmadone \<Rightarrow> Some (Inr (None, tx_dmadone s))
      | Event_rx_dmadone len \<Rightarrow>
          if bufsz (config s) = 0
          then (case serial_rx s of Some (Rx_dma _) \<Rightarrow> Some (rassert (rx_indicate s \<noteq> None)
                (Inr (Some len, s\<lparr> serial_rx := Some (Rx_dma False) \<rparr>)))
             | _ \<Rightarrow> Some (Inl Assert_failed))
          else Some (rbind (get_fifo s) (\<lambda>f. let f = rt_dma_recv_update_put_index (bufsz (config s)) len f in
            Inr (if rx_indicate s \<noteq> None then Some (serial_fifo_calc_recved_len (bufsz (config s)) f) else None,
              s\<lparr> serial_rx := Some (Rx_fifo f) \<rparr>)))
      | Event_other \<Rightarrow> Some (Inr (None, s)))"

section \<open>The contract with the device layer\<close>

interpretation serial_counts: counting_driver "serial_driver ops mem_rx mem_tx unknown dma_tx" for ops :: "'h uart_ops" and mem_rx mem_tx unknown dma_tx
proof
  fix f g h oflag r and dev dev' :: "'h serial"
  let ?drv = "serial_driver ops mem_rx mem_tx unknown dma_tx :: ('h serial, serial_cmd, u32 option) driver"
  show "dev_ref_count dev' = dev_ref_count dev \<and> dev_open_flag dev' = dev_open_flag dev"
    if "device_init ?drv = Some f" "f dev = Inr (r, dev')"
    using that by (auto simp: serial_driver_def rt_serial_init_def split: prod.splits)
  have rx: "open_rx ops mem_rx oflag s = Inr s' \<Longrightarrow> dev_ref_count s' = dev_ref_count s" for s s' :: "'h serial"
    by (auto simp: open_rx_def rassert_eq_Inr Let_def split: if_splits)
  have tx: "open_tx ops mem_tx oflag s = Inr s' \<Longrightarrow> dev_ref_count s' = dev_ref_count s" for s s' :: "'h serial"
    by (auto simp: open_tx_def rassert_eq_Inr Let_def split: if_splits)
  show "dev_ref_count dev' = dev_ref_count dev \<and> r \<noteq> - RT_ENOSYS \<and> (r \<noteq> RT_EOK \<longrightarrow> dev_open_flag dev' = dev_open_flag dev)"
    if "device_open ?drv = Some g" "g oflag dev = Inr (r, dev')"
    using that by (auto simp: serial_driver_def rt_serial_open_def Let_def rbind_eq_Inr dest!: rx tx split: if_splits)
  have crx: "close_rx ops s = Inr s' \<Longrightarrow> dev_ref_count s' = dev_ref_count s" for s s' :: "'h serial"
    by (auto simp: close_rx_def rassert_eq_Inr split: if_splits)
  have ctx: "close_tx ops s = Inr s' \<Longrightarrow> dev_ref_count s' = dev_ref_count s" for s s' :: "'h serial"
    by (auto simp: close_tx_def rassert_eq_Inr split: if_splits)
  show "dev_ref_count dev' = dev_ref_count dev \<and> r = RT_EOK"
    if "device_close ?drv = Some h" "h dev = Inr (r, dev')"
    using that by (auto simp: serial_driver_def rt_serial_close_def rbind_eq_Inr dest!: crx ctx split: if_splits)
qed

end
