(* ===== verification/SerialRx.thy ===== *)
theory SerialRx
  imports Serial Ring "HOL-Library.Sublist"
begin

text \<open>
  The receive path of the serial driver: the contract of a receive buffer as a locale, the FIFO that the receive
  interrupt fills and the FIFO that the DMA fills as its two instances, and what a reader of the device gets.
\<close>

section \<open>What a receive buffer promises\<close>

text \<open>The last \<open>n\<close> elements of a list.\<close>

definition latest :: "nat \<Rightarrow> 'a list \<Rightarrow> 'a list" where
  "latest n xs = drop (length xs - n) xs"

lemma latest_all [simp]: "length xs \<le> n \<Longrightarrow> latest n xs = xs"
  by (simp add: latest_def)

lemma length_latest [simp]: "length (latest n xs) = min n (length xs)"
  by (auto simp: latest_def)

lemma latest_latest: "latest n (latest n xs @ ys) = latest n (xs @ ys)"
  by (cases "length xs \<le> n") (auto simp: latest_def not_le intro: arg_cong [where f = "\<lambda>k. drop k xs"])

text \<open>
  The contract of a receive buffer: what arrives is appended and the oldest elements give way, what is read is
  taken from the front. The FIFO that the receive interrupt fills and the one that the DMA fills both keep it.
\<close>

datatype 'a rx_op = Arrive "'a list" | Read nat

locale receive_buffer =
  fixes inv :: "'s \<Rightarrow> bool"
    and contents :: "'s \<Rightarrow> 'a list"
    and capacity :: nat
    and admissible :: "'a list \<Rightarrow> bool"
    and arrive :: "'a list \<Rightarrow> 's \<Rightarrow> 's res"
    and take_out :: "nat \<Rightarrow> 's \<Rightarrow> ('a list \<times> 's) res"
  assumes within: "inv s \<Longrightarrow> length (contents s) \<le> capacity"
    and arrive_ok: "inv s \<Longrightarrow> admissible xs \<Longrightarrow>
      \<exists>s'. arrive xs s = Inr s' \<and> inv s' \<and> contents s' = latest capacity (contents s @ xs)"
    and take_ok: "inv s \<Longrightarrow> \<exists>s'. take_out k s = Inr (take k (contents s), s') \<and> inv s' \<and> contents s' = drop k (contents s)"
begin

fun run :: "'a rx_op list \<Rightarrow> 's \<Rightarrow> ('a list \<times> 's) res" where
  "run [] s = Inr ([], s)"
| "run (Arrive xs # ops) s = rbind (arrive xs s) (run ops)"
| "run (Read k # ops) s = rbind (take_out k s) (\<lambda>(as, s). rbind (run ops s) (\<lambda>(bs, s). Inr (as @ bs, s)))"

end

text \<open>The same on lists.\<close>

fun queue_run :: "nat \<Rightarrow> 'a rx_op list \<Rightarrow> 'a list \<Rightarrow> 'a list \<times> 'a list" where
  "queue_run c [] q = ([], q)"
| "queue_run c (Arrive xs # ops) q = queue_run c ops (latest c (q @ xs))"
| "queue_run c (Read k # ops) q = (case queue_run c ops (drop k q) of (bs, q') \<Rightarrow> (take k q @ bs, q'))"

fun arrivals :: "'a rx_op list \<Rightarrow> 'a list list" where
  "arrivals [] = []"
| "arrivals (Arrive xs # ops) = xs # arrivals ops"
| "arrivals (Read k # ops) = arrivals ops"

text \<open>The buffer never holds more than \<open>c\<close> elements: the reader is fast enough.\<close>

fun keeps_up :: "nat \<Rightarrow> 'a rx_op list \<Rightarrow> nat \<Rightarrow> bool" where
  "keeps_up c [] n \<longleftrightarrow> True"
| "keeps_up c (Arrive xs # ops) n \<longleftrightarrow> n + length xs \<le> c \<and> keeps_up c ops (n + length xs)"
| "keeps_up c (Read k # ops) n \<longleftrightarrow> keeps_up c ops (n - k)"

lemma queue_run_keeps_up: "keeps_up c ops (length q) \<Longrightarrow> queue_run c ops q = (bs, q') \<Longrightarrow> bs @ q' = q @ concat (arrivals ops)"
proof (induction c ops q arbitrary: bs q' rule: queue_run.induct)
  case (2 c xs ops q)
  have l: "latest c (q @ xs) = q @ xs" by (rule latest_all) (use "2.prems"(1) in simp)
  have "bs @ q' = latest c (q @ xs) @ concat (arrivals ops)" by (rule "2.IH") (use "2.prems" in \<open>simp_all add: l\<close>)
  then show ?case unfolding l by simp
next
  case (3 c k ops q)
  obtain bs1 q1 where r: "queue_run c ops (drop k q) = (bs1, q1)" by (cases "queue_run c ops (drop k q)")
  have "bs1 @ q1 = drop k q @ concat (arrivals ops)" by (rule "3.IH" [OF _ r]) (use "3.prems"(1) in simp)
  then have "take k q @ bs1 @ q1 = q @ concat (arrivals ops)" by (metis append.assoc append_take_drop_id)
  moreover have "bs = take k q @ bs1" "q' = q1" using "3.prems"(2) r by simp_all
  ultimately show ?case by simp
qed simp

text \<open>In any case what is read is in order and nothing is read twice.\<close>

lemma subseq_latest: "subseq (latest c xs) xs"
  unfolding latest_def by (metis append_take_drop_id subseq_drop_many subseq_order.order_refl)

lemma queue_run_subseq: "queue_run c ops q = (bs, q') \<Longrightarrow> subseq (bs @ q') (q @ concat (arrivals ops))"
proof (induction c ops q arbitrary: bs q' rule: queue_run.induct)
  case (2 c xs ops q)
  have "subseq (latest c (q @ xs) @ concat (arrivals ops)) ((q @ xs) @ concat (arrivals ops))"
    by (rule list_emb_append_mono [OF subseq_latest]) simp
  moreover have "subseq (bs @ q') (latest c (q @ xs) @ concat (arrivals ops))" by (rule "2.IH") (use "2.prems" in simp)
  ultimately show ?case by (auto intro: subseq_order.trans)
next
  case (3 c k ops q)
  obtain bs1 q1 where r: "queue_run c ops (drop k q) = (bs1, q1)" by (cases "queue_run c ops (drop k q)")
  have "subseq (bs1 @ q1) (drop k q @ concat (arrivals ops))" by (rule "3.IH" [OF r])
  then have "subseq (take k q @ bs1 @ q1) (take k q @ drop k q @ concat (arrivals ops))"
    by (rule list_emb_append_mono [OF subseq_order.order_refl])
  then have "subseq (take k q @ bs1 @ q1) (q @ concat (arrivals ops))" by (metis append.assoc append_take_drop_id)
  moreover have "bs = take k q @ bs1" "q' = q1" using "3.prems" r by simp_all
  ultimately show ?case by simp
qed simp

context receive_buffer begin

lemma run_queue:
  "inv s \<Longrightarrow> \<forall>xs \<in> set (arrivals ops). admissible xs \<Longrightarrow>
   \<exists>s'. run ops s = Inr (fst (queue_run capacity ops (contents s)), s') \<and> inv s' \<and>
     contents s' = snd (queue_run capacity ops (contents s))"
proof (induction ops arbitrary: s)
  case (Cons op ops)
  show ?case
  proof (cases op)
    case (Arrive xs)
    obtain s1 where s1: "arrive xs s = Inr s1" "inv s1" "contents s1 = latest capacity (contents s @ xs)"
      using arrive_ok [of s xs] Cons.prems Arrive by auto
    then show ?thesis using Cons.IH [of s1] Cons.prems Arrive by simp
  next
    case (Read k)
    obtain s1 where s1: "take_out k s = Inr (take k (contents s), s1)" "inv s1" "contents s1 = drop k (contents s)"
      using take_ok [of s k] Cons.prems by auto
    then show ?thesis using Cons.IH [of s1] Cons.prems Read by (auto split: prod.split)
  qed
qed simp

end

section \<open>The FIFO filled by the receive interrupt\<close>

text \<open>A FIFO of \<open>n\<close> bytes holds at most \<open>n - 1\<close>.\<close>

definition fifo_count :: "u16 \<Rightarrow> rx_fifo \<Rightarrow> nat" where
  "fifo_count n f = (if get_index f \<le> put_index f then unat (put_index f) - unat (get_index f)
     else unat n - (unat (get_index f) - unat (put_index f)))"

definition fifo_ok :: "u16 \<Rightarrow> rx_fifo \<Rightarrow> bool" where
  "fifo_ok n f \<longleftrightarrow> length (buffer f) = unat n \<and> 2 \<le> unat n \<and> put_index f < n \<and> get_index f < n \<and>
     (is_full f \<longrightarrow> put_index f \<noteq> get_index f)"

definition fifo_contents :: "u16 \<Rightarrow> rx_fifo \<Rightarrow> bytes" where
  "fifo_contents n f = ring_view (buffer f) (unat (get_index f)) (fifo_count n f)"

lemma next_index:
  assumes "x < (n :: u16)"
  shows "unat (if x + 1 \<ge> n then 0 else x + 1) = (unat x + 1) mod unat n" "(if x + 1 \<ge> n then 0 else x + 1) < n"
proof -
  have "unat x < unat n" "unat n < 65536" using assms unat_u16_less [of n] by (simp_all add: word_less_nat_alt)
  moreover from this have u: "unat (x + 1) = unat x + 1" by (simp add: unat_word_ariths)
  ultimately show "unat (if x + 1 \<ge> n then 0 else x + 1) = (unat x + 1) mod unat n" "(if x + 1 \<ge> n then 0 else x + 1) < n"
    by (auto simp: word_le_nat_alt word_less_nat_alt mod_if)
qed

lemma fifo_count_less: "fifo_ok n f \<Longrightarrow> fifo_count n f < unat n"
  by (auto simp: fifo_ok_def fifo_count_def word_less_nat_alt word_le_nat_alt)

lemma fifo_put_pos: "fifo_ok n f \<Longrightarrow> unat (put_index f) = (unat (get_index f) + fifo_count n f) mod length (buffer f)"
  by (auto simp: fifo_ok_def fifo_count_def word_less_nat_alt word_le_nat_alt mod_once)

lemma count_unique:
  assumes "length (buffer f) = unat n" "put_index f < n" "get_index f < n" "c < unat n"
    "unat (put_index f) = (unat (get_index f) + c) mod unat n"
  shows "fifo_count n f = c"
  using assms by (auto simp: fifo_count_def word_less_nat_alt word_le_nat_alt mod_once split: if_splits)

lemma length_fifo_contents [simp]: "length (fifo_contents n f) = fifo_count n f"
  by (simp add: fifo_contents_def)

lemma fifo_put_ok:
  assumes ok: "fifo_ok n f"
  shows "\<exists>f'. fifo_put n ch f = Inr f' \<and> fifo_ok n f' \<and> fifo_contents n f' = latest (unat n - 1) (fifo_contents n f @ [ch])"
proof -
  let ?L = "unat n" and ?p = "unat (put_index f)" and ?g = "unat (get_index f)" and ?c = "fifo_count n f"
  have L: "length (buffer f) = ?L" "2 \<le> ?L" and lt: "put_index f < n" "get_index f < n" using ok by (simp_all add: fifo_ok_def)
  have pg: "?p < ?L" "?g < ?L" using lt by (simp_all add: word_less_nat_alt)
  have c: "?c < ?L" by (rule fifo_count_less [OF ok])
  have p: "?p = (?g + ?c) mod ?L" using fifo_put_pos [OF ok] L(1) by simp
  define b where "b = (buffer f)[?p := ch]"
  define p' where "p' = (if put_index f + 1 \<ge> n then 0 else put_index f + 1)"
  define g' where "g' = (if get_index f + 1 \<ge> n then 0 else get_index f + 1)"
  have p': "unat p' = (?p + 1) mod ?L" "p' < n" using next_index [OF lt(1)] by (simp_all add: p'_def)
  have g': "unat g' = (?g + 1) mod ?L" "g' < n" using next_index [OF lt(2)] by (simp_all add: g'_def)
  have run: "fifo_put n ch f = Inr (if p' = get_index f then f\<lparr> buffer := b, put_index := p', get_index := g', is_full := True \<rparr>
      else f\<lparr> buffer := b, put_index := p' \<rparr>)"
    using pg L(1) by (simp add: fifo_put_def Let_def b_def p'_def g'_def)
  have view: "ring_view b ?g (?c + 1) = fifo_contents n f @ [ch]"
    using ring_view_write [of ?g "buffer f" ?c "[ch]" ?p] pg c p L(1)
    by (simp add: b_def update_ring_write fifo_contents_def)
  have pos: "unat p' = (?g + (?c + 1)) mod ?L" by (simp add: p'(1) p mod_simps)
  show ?thesis
  proof (cases "?c + 1 < ?L")
    case True
    then have ne: "p' \<noteq> get_index f" using pos pg by (auto simp: mod_once split: if_splits)
    let ?f = "f\<lparr> buffer := b, put_index := p' \<rparr>"
    have cnt: "fifo_count n ?f = ?c + 1" by (rule count_unique) (use L p' lt pos True in \<open>simp_all add: b_def\<close>)
    have "fifo_ok n ?f" using ok ne p'(2) by (simp add: fifo_ok_def b_def)
    moreover have "fifo_contents n ?f = fifo_contents n f @ [ch]" unfolding fifo_contents_def [of n ?f] cnt using view by simp
    ultimately show ?thesis using run ne True by simp
  next
    case False
    then have full: "?c + 1 = ?L" using c by simp
    then have "unat p' = ?g" using pos pg by simp
    then have eq: "p' = get_index f" by (simp add: word_unat_eq_iff)
    let ?f = "f\<lparr> buffer := b, put_index := p', get_index := g', is_full := True \<rparr>"
    have gpos: "unat p' = (unat g' + ?c) mod ?L" by (simp add: pos g'(1) mod_simps)
    have cnt: "fifo_count n ?f = ?c" by (rule count_unique) (use L p' g' gpos c in \<open>simp_all add: b_def\<close>)
    have ne: "p' \<noteq> g'" using g'(1) pg L(2) unfolding eq by (auto simp: mod_once split: if_splits)
    have "fifo_ok n ?f" using ok ne p'(2) g'(2) by (simp add: fifo_ok_def b_def)
    moreover have "fifo_contents n ?f = drop 1 (fifo_contents n f @ [ch])"
      unfolding fifo_contents_def [of n ?f] cnt using ring_view_drop [of b ?g 1 ?c] L(1) view by (simp add: g'(1) b_def)
    ultimately show ?thesis using run eq full by (simp add: latest_def)
  qed
qed

lemma fifo_read_ok:
  "fifo_ok n f \<Longrightarrow> \<exists>f'. serial_int_rx n k f = Inr (take k (fifo_contents n f), f') \<and> fifo_ok n f' \<and>
     fifo_contents n f' = drop k (fifo_contents n f)"
proof (induction k arbitrary: f)
  case (Suc k)
  let ?L = "unat n" and ?g = "unat (get_index f)" and ?c = "fifo_count n f"
  note ok = Suc.prems
  have L: "length (buffer f) = ?L" and lt: "put_index f < n" "get_index f < n" using ok by (simp_all add: fifo_ok_def)
  have pg: "unat (put_index f) < ?L" "?g < ?L" using lt by (simp_all add: word_less_nat_alt)
  have p: "unat (put_index f) = (?g + ?c) mod ?L" using fifo_put_pos [OF ok] L by simp
  have c: "?c < ?L" by (rule fifo_count_less [OF ok])
  have empty: "get_index f = put_index f \<longleftrightarrow> ?c = 0"
    using p pg c by (auto simp: word_unat_eq_iff mod_once split: if_splits)
  show ?case
  proof (cases "?c = 0")
    case True
    then have "\<not> is_full f" using ok empty by (auto simp: fifo_ok_def)
    then show ?thesis using True ok empty by (simp add: fifo_contents_def ring_view_def)
  next
    case False
    define g' where "g' = (if get_index f + 1 \<ge> n then 0 else get_index f + 1)"
    have g': "unat g' = (?g + 1) mod ?L" "g' < n" using next_index [OF lt(2)] by (simp_all add: g'_def)
    let ?f = "f\<lparr> get_index := g', is_full := False \<rparr>"
    have "(unat g' + (?c - 1)) mod ?L = (?g + 1 + (?c - 1)) mod ?L" by (simp add: g'(1) mod_simps)
    then have "unat (put_index f) = (unat g' + (?c - 1)) mod ?L" using p False by simp
    then have cnt: "fifo_count n ?f = ?c - 1" by (intro count_unique) (use L lt g' c in simp_all)
    have okf: "fifo_ok n ?f" using ok g'(2) by (simp add: fifo_ok_def)
    have con: "fifo_contents n ?f = drop 1 (fifo_contents n f)"
      unfolding fifo_contents_def cnt using ring_view_drop [of "buffer f" ?g 1 "?c - 1"] L False by (simp add: g'(1))
    obtain xs where xs: "fifo_contents n f = buffer f ! ?g # xs"
    proof (cases "fifo_contents n f")
      case (Cons y ys)
      have "y = fifo_contents n f ! 0" by (simp add: Cons)
      also have "\<dots> = buffer f ! ?g" unfolding fifo_contents_def by (subst nth_ring_view) (use False pg L in simp_all)
      finally show thesis using that Cons by simp
    qed (use False length_fifo_contents [of n f] in simp)
    obtain f' where f': "serial_int_rx n k ?f = Inr (take k (fifo_contents n ?f), f')" "fifo_ok n f'"
        "fifo_contents n f' = drop k (fifo_contents n ?f)" using Suc.IH [OF okf] by blast
    have e: "(if is_full f then f\<lparr> get_index := g', is_full := False \<rparr> else f\<lparr> get_index := g' \<rparr>) = ?f" by (cases f) simp
    define ch where "ch = buffer f ! ?g"
    have "serial_int_rx n (Suc k) f = rbind (serial_int_rx n k
        (if is_full f then f\<lparr> get_index := g', is_full := False \<rparr> else f\<lparr> get_index := g' \<rparr>)) (\<lambda>(bs, f). Inr (ch # bs, f))"
      using False empty pg L by (simp add: Let_def g'_def ch_def)
    then have "serial_int_rx n (Suc k) f = rbind (serial_int_rx n k ?f) (\<lambda>(bs, f). Inr (ch # bs, f))" unfolding e .
    then show ?thesis using f' con xs by (simp add: ch_def)
  qed
qed (simp add: fifo_contents_def)

text \<open>The bytes that the hardware gives before it has none left.\<close>

fun uart_gives :: "'h uart_ops \<Rightarrow> 'h \<Rightarrow> bytes \<Rightarrow> 'h \<Rightarrow> bool" where
  "uart_gives ops h [] h' \<longleftrightarrow> uart_getc ops h = (None, h')"
| "uart_gives ops h (c # cs) h' \<longleftrightarrow> (\<exists>h1. uart_getc ops h = (Some c, h1) \<and> uart_gives ops h1 cs h')"

fun fifo_put_all :: "u16 \<Rightarrow> bytes \<Rightarrow> rx_fifo \<Rightarrow> rx_fifo res" where
  "fifo_put_all n [] f = Inr f"
| "fifo_put_all n (c # cs) f = rbind (fifo_put n c f) (fifo_put_all n cs)"

lemma isr_rx_loop_put_all:
  "uart_gives ops h cs h' \<Longrightarrow> isr_rx_loop ops n h f = Some (rbind (fifo_put_all n cs f) (\<lambda>f. Inr (h', f)))"
proof (induction cs arbitrary: h f)
  case Nil
  then show ?case by (subst isr_rx_loop.simps) simp
next
  case (Cons c cs)
  then show ?case by (subst isr_rx_loop.simps) (cases "fifo_put n c f"; auto)
qed

lemma fifo_put_all_ok:
  "fifo_ok n f \<Longrightarrow> \<exists>f'. fifo_put_all n cs f = Inr f' \<and> fifo_ok n f' \<and> fifo_contents n f' = latest (unat n - 1) (fifo_contents n f @ cs)"
proof (induction cs arbitrary: f)
  case Nil
  then show ?case using fifo_count_less [of n f] by simp
next
  case (Cons c cs)
  obtain f1 where f1: "fifo_put n c f = Inr f1" "fifo_ok n f1" "fifo_contents n f1 = latest (unat n - 1) (fifo_contents n f @ [c])"
    using fifo_put_ok [OF Cons.prems] by blast
  then show ?case using Cons.IH [OF f1(2)] latest_latest [of "unat n - 1" "fifo_contents n f @ [c]" cs] by auto
qed

interpretation int_fifo: receive_buffer "fifo_ok n" "fifo_contents n" "unat n - 1" "\<lambda>_. True" "fifo_put_all n" "serial_int_rx n" for n
proof
  fix f :: rx_fifo and xs k
  assume ok: "fifo_ok n f"
  show "length (fifo_contents n f) \<le> unat n - 1" using fifo_count_less [OF ok] by simp
  show "\<exists>f'. fifo_put_all n xs f = Inr f' \<and> fifo_ok n f' \<and> fifo_contents n f' = latest (unat n - 1) (fifo_contents n f @ xs)"
    by (rule fifo_put_all_ok [OF ok])
  show "\<exists>f'. serial_int_rx n k f = Inr (take k (fifo_contents n f), f') \<and> fifo_ok n f' \<and> fifo_contents n f' = drop k (fifo_contents n f)"
    by (rule fifo_read_ok [OF ok])
qed

section \<open>The FIFO filled by the DMA\<close>

text \<open>The DMA writes to the buffer from \<open>put_index\<close> on, around its end, and reports the length.\<close>

definition dma_arrive :: "u16 \<Rightarrow> bytes \<Rightarrow> rx_fifo \<Rightarrow> rx_fifo res" where
  "dma_arrive n cs f = Inr (rt_dma_recv_update_put_index n (of_nat (length cs))
     (f\<lparr> buffer := ring_write (buffer f) (unat (put_index f)) cs \<rparr>))"

definition dma_ok :: "u16 \<Rightarrow> rx_fifo \<Rightarrow> bool" where
  "dma_ok n f \<longleftrightarrow> length (buffer f) = unat n \<and> 0 < unat n \<and> unat n \<le> 2 ^ 15 \<and> put_index f < n \<and> get_index f < n \<and>
     (is_full f \<longrightarrow> put_index f = get_index f)"

definition dma_count :: "u16 \<Rightarrow> rx_fifo \<Rightarrow> nat" where
  "dma_count n f = (if is_full f then unat n else fifo_count n f)"

definition dma_contents :: "u16 \<Rightarrow> rx_fifo \<Rightarrow> bytes" where
  "dma_contents n f = ring_view (buffer f) (unat (get_index f)) (dma_count n f)"

lemma recved_len_count: "dma_ok n f \<Longrightarrow> unat (serial_fifo_calc_recved_len n f) = dma_count n f"
  by (auto simp: serial_fifo_calc_recved_len_def dma_count_def fifo_count_def dma_ok_def word_less_nat_alt word_le_nat_alt
      unat_sub word_unat_eq_iff)

lemma dma_put_pos: "dma_ok n f \<Longrightarrow> unat (put_index f) = (unat (get_index f) + dma_count n f) mod unat n"
  by (auto simp: dma_ok_def dma_count_def fifo_count_def word_less_nat_alt word_le_nat_alt mod_once)

lemma dma_count_le: "dma_ok n f \<Longrightarrow> dma_count n f \<le> unat n" "dma_ok n f \<Longrightarrow> \<not> is_full f \<Longrightarrow> dma_count n f < unat n"
  by (auto simp: dma_ok_def dma_count_def fifo_count_def word_less_nat_alt word_le_nat_alt)

lemma add_len_16:
  assumes "unat x < unat n" "k \<le> unat n" "unat n \<le> 2 ^ 15"
  shows "unat (x + ucast (of_nat k :: u32) :: u16) = unat x + k"
proof -
  have "unat (ucast (of_nat k :: u32) :: u16) = k"
    using assms(2,3) by (simp add: unsigned_ucast_eq unsigned_of_nat take_bit_nat_eq_self)
  then show ?thesis using assms by (simp add: unat_word_ariths)
qed

lemma update_put_index:
  assumes ok: "dma_ok n f" and k: "k \<le> unat n"
  defines "f' \<equiv> rt_dma_recv_update_put_index n (of_nat k) f" and "full \<equiv> unat n \<le> dma_count n f + k"
  shows "buffer f' = buffer f" "unat (put_index f') = (unat (put_index f) + k) mod unat n" "is_full f' \<longleftrightarrow> full"
    "get_index f' = (if full then put_index f' else get_index f)"
proof -
  let ?L = "unat n" and ?p = "unat (put_index f)" and ?g = "unat (get_index f)"
  have pg: "?p < ?L" "?g < ?L" "?L \<le> 2 ^ 15" and fl: "is_full f \<Longrightarrow> ?p = ?g"
    using ok by (auto simp: dma_ok_def word_less_nat_alt)
  define q where "q = put_index f + ucast (of_nat k :: u32)"
  have q: "unat q = ?p + k" unfolding q_def by (rule add_len_16 [OF pg(1) k pg(3)])
  have qm: "unat (q mod n) = (?p + k) mod ?L" by (simp add: unat_mod q)
  have f': "f' = (let f = (if get_index f \<le> put_index f
        then if q \<ge> n then if q mod n \<ge> get_index f then f\<lparr> put_index := q mod n, is_full := True \<rparr> else f\<lparr> put_index := q mod n \<rparr>
          else f\<lparr> put_index := q \<rparr>
        else if q \<ge> get_index f
          then if q \<ge> n then f\<lparr> put_index := q mod n, is_full := True \<rparr> else f\<lparr> put_index := q, is_full := True \<rparr>
          else f\<lparr> put_index := q \<rparr>) in
      if is_full f then f\<lparr> get_index := put_index f \<rparr> else f)"
    unfolding f'_def rt_dma_recv_update_put_index_def Let_def q_def by simp
  have full: "full \<longleftrightarrow> is_full f \<or> (if ?g \<le> ?p then ?L \<le> ?p - ?g + k else ?g \<le> ?p + k)"
    using pg by (auto simp: full_def dma_count_def fifo_count_def word_le_nat_alt)
  have m: "(?p + k) mod ?L = (if ?p + k < ?L then ?p + k else ?p + k - ?L)" using pg k by (simp add: mod_once)
  show "buffer f' = buffer f" by (simp add: f' Let_def)
  show "unat (put_index f') = (unat (put_index f) + k) mod unat n"
    using pg by (auto simp: f' Let_def word_le_nat_alt q qm m)
  show "is_full f' \<longleftrightarrow> full"
    using pg fl by (auto simp: f' Let_def word_le_nat_alt q qm m full)
  show "get_index f' = (if full then put_index f' else get_index f)"
    using pg fl by (auto simp: f' Let_def word_le_nat_alt q qm m full)
qed

lemma dma_arrive_ok:
  assumes ok: "dma_ok n f" and k: "length cs \<le> unat n"
  shows "\<exists>f'. dma_arrive n cs f = Inr f' \<and> dma_ok n f' \<and> dma_contents n f' = latest (unat n) (dma_contents n f @ cs)"
proof -
  let ?L = "unat n" and ?p = "unat (put_index f)" and ?g = "unat (get_index f)" and ?c = "dma_count n f"
  define b where "b = ring_write (buffer f) ?p cs"
  define f1 where "f1 = f\<lparr> buffer := b \<rparr>"
  have L: "length (buffer f) = ?L" "0 < ?L" and pg: "?p < ?L" "?g < ?L" using ok by (auto simp: dma_ok_def word_less_nat_alt)
  have lb: "length b = ?L" using pg k L by (simp add: b_def)
  have ok1: "dma_ok n f1" using ok lb by (simp add: dma_ok_def f1_def)
  have c1: "dma_count n f1 = ?c" by (simp add: dma_count_def fifo_count_def f1_def)
  define f' where "f' = rt_dma_recv_update_put_index n (of_nat (length cs)) f1"
  note u = update_put_index [OF ok1 k, folded f'_def]
  have p: "?p = (?g + ?c) mod ?L" by (rule dma_put_pos [OF ok])
  have put': "unat (put_index f') = (?p + length cs) mod ?L" using u(2) by (simp add: f1_def)
  have lt: "put_index f' < n" "get_index f' < n"
    using put' u(4) L ok by (auto simp: word_less_nat_alt f1_def dma_ok_def)
  have run: "dma_arrive n cs f = Inr f'" by (simp add: dma_arrive_def f'_def f1_def b_def)
  have con: "length (dma_contents n f) = ?c" by (simp add: dma_contents_def)
  have ok': "dma_ok n f'" using ok u lt lb by (auto simp: dma_ok_def f1_def)
  show ?thesis
  proof (cases "?L \<le> ?c + length cs")
    case True
    have "dma_contents n f' = ring_view b ((?p + length cs) mod ?L) ?L"
      using u True put' c1 by (simp add: dma_contents_def dma_count_def f1_def)
    also have "\<dots> = drop (?c + length cs - ?L) (ring_view (buffer f) ?g ?c @ cs)"
      using ring_view_force [of ?g "buffer f" ?c cs ?p "(?p + length cs) mod ?L"] L pg dma_count_le(1) [OF ok] k True p
      by (simp add: b_def)
    finally show ?thesis using run ok' con by (simp add: latest_def dma_contents_def)
  next
    case False
    then have nf: "\<not> is_full f'" "get_index f' = get_index f" "buffer f' = b" using u c1 by (simp_all add: f1_def)
    have "unat (put_index f') = (?g + (?c + length cs)) mod ?L" unfolding put' by (simp add: p mod_simps add.assoc)
    then have "fifo_count n f' = ?c + length cs"
      by (intro count_unique) (use nf lb lt False in simp_all)
    then have "dma_contents n f' = ring_view b ?g (?c + length cs)" using nf by (simp add: dma_contents_def dma_count_def)
    also have "\<dots> = ring_view (buffer f) ?g ?c @ cs"
      unfolding b_def by (rule ring_view_write) (use L pg False p in simp_all)
    finally show ?thesis using run ok' con False by (simp add: dma_contents_def)
  qed
qed

lemma dma_read_ok:
  assumes ok: "dma_ok n f"
  shows "\<exists>f'. dma_rx_fifo n k f = Inr (take k (dma_contents n f), f') \<and> dma_ok n f' \<and> dma_contents n f' = drop k (dma_contents n f)"
proof -
  let ?L = "unat n" and ?p = "unat (put_index f)" and ?g = "unat (get_index f)" and ?c = "dma_count n f"
  define j where "j = (if k < ?c then k else ?c)"
  have L: "length (buffer f) = ?L" "0 < ?L" "?L \<le> 2 ^ 15" and pg: "?p < ?L" "?g < ?L"
    using ok by (auto simp: dma_ok_def word_less_nat_alt)
  have c: "?c \<le> ?L" and j: "j \<le> ?c" "j \<le> ?L" using dma_count_le(1) [OF ok] by (auto simp: j_def)
  have td: "take k (dma_contents n f) = ring_view (buffer f) ?g j" "drop k (dma_contents n f) = drop j (dma_contents n f)"
    using ring_view_take [OF j(1), where pool = "buffer f" and r = ?g] by (auto simp: dma_contents_def j_def)
  define q where "q = get_index f + ucast (of_nat j :: u32)"
  have q: "unat q = ?g + j" unfolding q_def by (rule add_len_16 [OF pg(2) j(2) L(3)])
  define g' where "g' = (if q \<ge> n then q mod n else q)"
  have g': "unat g' = (?g + j) mod ?L" using pg j by (simp add: g'_def unat_mod q word_le_nat_alt mod_if)
  define f' where "f' = f\<lparr> get_index := g', is_full := is_full f \<and> j = 0 \<rparr>"
  have bytes: "(if ?g + j < ?L then take_bytes (buffer f) ?g j
      else rbind (take_bytes (buffer f) ?g (?L - ?g)) (\<lambda>as.
        rbind (take_bytes (buffer f) 0 (j + ?g - ?L)) (\<lambda>bs. Inr (as @ bs)))) = Inr (ring_view (buffer f) ?g j)"
  proof (cases "?g + j < ?L")
    case True
    then show ?thesis using ring_view_slice(1) [where r = ?g and n = j and pool = "buffer f"] L(1) by (simp add: take_bytes_def)
  next
    case False
    then show ?thesis using ring_view_slice(2) [where r = ?g and n = j and pool = "buffer f"] L(1) pg j(2)
      by (simp add: take_bytes_def add.commute)
  qed
  have uj: "unat (of_nat j :: u32) = j" using j(2) L(3) by (simp add: unsigned_of_nat take_bit_nat_eq_self)
  have "(of_nat j :: u32) \<le> serial_fifo_calc_recved_len n f" unfolding word_le_nat_alt uj recved_len_count [OF ok] by (rule j(1))
  moreover have "(of_nat j :: u32) \<noteq> 0 \<longleftrightarrow> j \<noteq> 0" by (simp only: word_unat_eq_iff uj unat_0)
  ultimately have "rt_dma_recv_update_get_index n (of_nat j) f =
      (let f = (if is_full f \<and> j \<noteq> 0 then f\<lparr> is_full := False \<rparr> else f); f = f\<lparr> get_index := q \<rparr> in
       Inr (if q \<ge> n then f\<lparr> get_index := q mod n \<rparr> else f))"
    by (simp add: rt_dma_recv_update_get_index_def q_def Let_def)
  also have "\<dots> = Inr f'" by (cases f; cases "is_full f"; cases "j = 0"; cases "q \<ge> n"; simp add: f'_def g'_def)
  finally have upd: "rt_dma_recv_update_get_index n (of_nat j) f = Inr f'" .
  have k: "unat (serial_fifo_calc_recved_len n f) = ?c" by (rule recved_len_count [OF ok])
  have run: "dma_rx_fifo n k f = Inr (ring_view (buffer f) ?g j, f')"
    unfolding dma_rx_fifo_def Let_def k j_def [symmetric] bytes by (simp add: upd)
  have lt: "g' < n" using g' L by (simp add: word_less_nat_alt)
  have cnt: "dma_count n f' = ?c - j"
  proof (cases "is_full f \<and> j = 0")
    case False
    have "(unat g' + (?c - j)) mod ?L = (?g + j + (?c - j)) mod ?L" by (simp only: g' mod_add_left_eq)
    then have "?p = (unat g' + (?c - j)) mod ?L" using dma_put_pos [OF ok] j(1) by simp
    moreover have "?c - j < ?L" using False dma_count_le [OF ok] j L by (cases "is_full f") auto
    ultimately have "fifo_count n f' = ?c - j"
      by (intro count_unique) (use L lt ok in \<open>simp_all add: f'_def dma_ok_def\<close>)
    then show ?thesis using False by (cases "is_full f") (simp_all add: dma_count_def f'_def)
  qed (simp add: dma_count_def f'_def)
  have okf: "dma_ok n f'"
    using ok lt g' by (auto simp: dma_ok_def f'_def word_unat_eq_iff word_less_nat_alt)
  have "dma_contents n f' = drop j (dma_contents n f)"
    unfolding dma_contents_def cnt using ring_view_drop [of "buffer f" ?g j "?c - j"] L j by (simp add: f'_def g')
  then show ?thesis using run okf td by simp
qed

interpretation dma_fifo: receive_buffer "dma_ok n" "dma_contents n" "unat n" "\<lambda>cs. length cs \<le> unat n" "dma_arrive n" "\<lambda>k. dma_rx_fifo n k" for n
proof
  fix f :: rx_fifo and xs k
  assume ok: "dma_ok n f"
  show "length (dma_contents n f) \<le> unat n" using dma_count_le(1) [OF ok] by (simp add: dma_contents_def)
  show "\<exists>f'. dma_rx_fifo n k f = Inr (take k (dma_contents n f), f') \<and> dma_ok n f' \<and> dma_contents n f' = drop k (dma_contents n f)"
    by (rule dma_read_ok [OF ok])
  show "\<exists>f'. dma_arrive n xs f = Inr f' \<and> dma_ok n f' \<and> dma_contents n f' = latest (unat n) (dma_contents n f @ xs)"
    if "length xs \<le> unat n" using dma_arrive_ok [OF ok that] .
qed

end
