(* ===== verification/SerialDev.thy ===== *)
theory SerialDev
  imports SerialRx
begin

text \<open>
  A uart behind the device layer: opening and closing by several users, and the two ways of receiving as instances
  of one contract, so that interrupts and reads in any order make a queue.
\<close>

section \<open>A uart that is open for receiving\<close>

text \<open>The two modes of receiving: by interrupt, and by a DMA that fills a FIFO.\<close>

definition rx_mode :: "u16 \<Rightarrow> bool" where
  "rx_mode m \<longleftrightarrow> m = RT_DEVICE_FLAG_INT_RX \<or> m = RT_DEVICE_FLAG_DMA_RX"

lemma rx_modeE:
  assumes "rx_mode m" obtains "m = RT_DEVICE_FLAG_INT_RX" | "m = RT_DEVICE_FLAG_DMA_RX"
  using assms by (auto simp: rx_mode_def)

text \<open>A device that \<open>k\<close> users have open for receiving in mode \<open>m\<close>, with a FIFO of \<open>n\<close> bytes.\<close>

definition receiving :: "u16 \<Rightarrow> u16 \<Rightarrow> nat \<Rightarrow> rx_fifo \<Rightarrow> 'h serial \<Rightarrow> bool" where
  "receiving m n k f s \<longleftrightarrow> unat (dev_ref_count s) = k \<and> 0 < k \<and> bufsz (config s) = n \<and> n \<noteq> 0 \<and>
     dev_open_flag s = m OR RT_DEVICE_OFLAG_OPEN \<and>
     dev_flag s AND RT_DEVICE_FLAG_ACTIVATED \<noteq> 0 \<and> dev_flag s AND RT_DEVICE_FLAG_STANDALONE = 0 \<and>
     dev_flag s AND m \<noteq> 0 \<and>
     serial_rx s = Some (Rx_fifo f) \<and> serial_tx s = None"

text \<open>A registered device before its first opening, whose hardware accepts its configuration.\<close>

definition closed_uart :: "'h uart_ops \<Rightarrow> u16 \<Rightarrow> 'h serial \<Rightarrow> bool" where
  "closed_uart ops m s \<longleftrightarrow> dev_ref_count s = 0 \<and> dev_open_flag s = 0 \<and> serial_rx s = None \<and> serial_tx s = None \<and>
     dev_flag s AND RT_DEVICE_FLAG_STANDALONE = 0 \<and> dev_flag s AND m \<noteq> 0 \<and>
     (\<forall>h. fst (uart_configure ops (config s) h) = RT_EOK)"

lemmas serial_flags = RT_DEVICE_FLAG_INT_RX_def RT_DEVICE_FLAG_INT_TX_def RT_DEVICE_FLAG_DMA_RX_def RT_DEVICE_FLAG_DMA_TX_def
  RT_DEVICE_FLAG_STREAM_def RT_DEVICE_OFLAG_OPEN_def

definition set_up :: "'h uart_ops \<Rightarrow> u16 \<Rightarrow> 'h \<Rightarrow> 'h" where
  "set_up ops m = uart_int ops (if m = RT_DEVICE_FLAG_INT_RX then Set_int else Config_dma) m"

lemma serial_open_first:
  assumes "rx_mode m" "serial_rx s = None" "serial_tx s = None" "dev_flag s AND m \<noteq> 0" "dev_open_flag s AND RT_DEVICE_FLAG_STREAM = 0"
    "bufsz (config s) \<noteq> 0"
  shows "rt_serial_open ops True mem_tx m s = Inr (RT_EOK, s\<lparr> dev_open_flag := m,
    serial_rx := Some (Rx_fifo (empty_fifo (bufsz (config s)))), hw := set_up ops m (hw s) \<rparr>)"
  by (rule rx_modeE [OF assms(1)])
    (use assms(2-) in \<open>simp_all add: rt_serial_open_def open_rx_def open_tx_def not_offered_def serial_flags set_up_def Let_def\<close>)

lemma serial_open_again:
  assumes "rx_mode m" "serial_rx s \<noteq> None" "serial_tx s = None" "dev_flag s AND m \<noteq> 0" "dev_open_flag s AND RT_DEVICE_FLAG_STREAM = 0"
  shows "rt_serial_open ops mem_rx mem_tx m s = Inr (RT_EOK, s\<lparr> dev_open_flag := m \<rparr>)"
  by (rule rx_modeE [OF assms(1)]; cases "serial_rx s")
    (use assms(2-) in \<open>simp_all add: rt_serial_open_def open_rx_def open_tx_def not_offered_def serial_flags Let_def\<close>)

lemma device_open_active:
  assumes "dev_flag s AND RT_DEVICE_FLAG_ACTIVATED \<noteq> 0" "dev_flag s AND RT_DEVICE_FLAG_STANDALONE = 0"
    "rt_serial_open ops mem_rx mem_tx oflag s = Inr (RT_EOK, s1)" "dev_ref_count s1 + 1 \<noteq> 0"
  shows "rt_device_open (serial_driver ops mem_rx mem_tx unknown dma_tx) oflag s =
    Inr (RT_EOK, s1\<lparr> dev_open_flag := dev_open_flag s1 OR RT_DEVICE_OFLAG_OPEN, dev_ref_count := dev_ref_count s1 + 1 \<rparr>)"
  using assms by (simp add: rt_device_open_def open_activate_def serial_driver_def Let_def)

lemma or_flag_nonzero: "(x OR y :: u16) AND y = y"
  by (rule bit_word_eqI) (auto simp: bit_simps)

lemma first_open:
  assumes m: "rx_mode m" and c: "closed_uart ops m s" and n: "bufsz (config s) \<noteq> 0"
  shows "\<exists>s'. rt_device_open (serial_driver ops True mem_tx unknown dma_tx) m s = Inr (RT_EOK, s') \<and>
    receiving m (bufsz (config s)) 1 (empty_fifo (bufsz (config s))) s'"
proof -
  let ?drv = "serial_driver ops True mem_tx unknown dma_tx"
  obtain s1 where s1: "open_activate ?drv s = Inr (RT_EOK, s1)" "config s1 = config s" "dev_ref_count s1 = 0" "dev_open_flag s1 = 0"
      "serial_rx s1 = None" "serial_tx s1 = None" "dev_flag s1 AND RT_DEVICE_FLAG_ACTIVATED \<noteq> 0"
      "dev_flag s1 AND RT_DEVICE_FLAG_STANDALONE = 0" "dev_flag s1 AND m \<noteq> 0"
  proof (cases "dev_flag s AND RT_DEVICE_FLAG_ACTIVATED = 0")
    case True
    obtain h where h: "uart_configure ops (config s) (hw s) = (RT_EOK, h)"
      using c by (cases "uart_configure ops (config s) (hw s)") (auto simp: closed_uart_def dest: spec [of _ "hw s"])
    let ?s = "s\<lparr> dev_flag := dev_flag s OR RT_DEVICE_FLAG_ACTIVATED, serial_rx := None, serial_tx := None, hw := h \<rparr>"
    have "open_activate ?drv s = Inr (RT_EOK, ?s)"
      using True h by (simp add: open_activate_def serial_driver_def rt_serial_init_def Let_def)
    then show thesis
      by (rule that) (use c m in \<open>auto simp: closed_uart_def or_flag_nonzero bit.conj_disj_distrib2 rx_mode_def
          RT_DEVICE_FLAG_ACTIVATED_def RT_DEVICE_FLAG_STANDALONE_def RT_DEVICE_FLAG_INT_RX_def RT_DEVICE_FLAG_DMA_RX_def\<close>)
  next
    case False
    then show thesis by (intro that [of s]) (use c in \<open>simp_all add: open_activate_def closed_uart_def\<close>)
  qed
  have "rt_device_open ?drv m s = rt_device_open ?drv m s1"
    using s1(1,7) by (simp add: rt_device_open_def open_activate_def)
  also have "\<dots> = Inr (RT_EOK, s1\<lparr> dev_open_flag := m OR RT_DEVICE_OFLAG_OPEN, dev_ref_count := 1,
      serial_rx := Some (Rx_fifo (empty_fifo (bufsz (config s1)))), hw := set_up ops m (hw s1) \<rparr>)"
    by (subst device_open_active [OF s1(7,8) serial_open_first [OF m]]) (use s1 n in simp_all)
  finally show ?thesis using s1 n by (simp add: receiving_def)
qed

lemma next_open:
  assumes m: "rx_mode m" and r: "receiving m n k f s" and k: "k < 255"
  shows "\<exists>s'. rt_device_open (serial_driver ops mem_rx mem_tx unknown dma_tx) m s = Inr (RT_EOK, s') \<and>
    receiving m n (k + 1) f s' \<and> hw s' = hw s"
proof -
  have u: "unat (dev_ref_count s + 1) = k + 1" using r k by (simp add: receiving_def unat_word_ariths)
  then have ne: "dev_ref_count s + 1 \<noteq> 0" by (metis unat_0 add_is_0 one_neq_zero)
  have st: "dev_open_flag s AND RT_DEVICE_FLAG_STREAM = 0"
    by (rule rx_modeE [OF m]) (use r in \<open>simp_all add: receiving_def serial_flags\<close>)
  let ?s = "s\<lparr> dev_open_flag := m OR RT_DEVICE_OFLAG_OPEN, dev_ref_count := dev_ref_count s + 1 \<rparr>"
  have "rt_device_open (serial_driver ops mem_rx mem_tx unknown dma_tx) m s = Inr (RT_EOK, ?s)"
    by (subst device_open_active [OF _ _ serial_open_again [OF m]]) (use r ne st in \<open>simp_all add: receiving_def\<close>)
  moreover have "receiving m n (k + 1) f ?s" using r u by (simp add: receiving_def)
  ultimately show ?thesis by simp
qed

lemma close_not_last:
  assumes r: "receiving m n (k + 1) f s" "0 < k"
  shows "\<exists>s'. rt_device_close (serial_driver ops mem_rx mem_tx unknown dma_tx) s = Inr (RT_EOK, s') \<and>
    receiving m n k f s' \<and> hw s' = hw s"
proof -
  have nz: "dev_ref_count s \<noteq> 0" using r by (auto simp: receiving_def)
  then have u: "unat (dev_ref_count s - 1) = k" using r by (simp add: receiving_def unat_minus_one)
  then have ne: "dev_ref_count s - 1 \<noteq> 0" using r(2) by (metis unat_0 less_irrefl)
  have "rt_device_close (serial_driver ops mem_rx mem_tx unknown dma_tx) s = Inr (RT_EOK, s\<lparr> dev_ref_count := dev_ref_count s - 1 \<rparr>)"
    using nz ne by (simp add: rt_device_close_def)
  then show ?thesis using r u by (simp add: receiving_def)
qed

lemma close_last:
  assumes m: "rx_mode m" and r: "receiving m n 1 f s"
  shows "\<exists>s'. rt_device_close (serial_driver ops mem_rx mem_tx unknown dma_tx) s = Inr (RT_EOK, s') \<and>
    dev_ref_count s' = 0 \<and> dev_open_flag s' = 0 \<and> serial_rx s' = None \<and> serial_tx s' = None \<and>
    hw s' = uart_int ops Clr_int m (hw s)"
proof -
  have one: "dev_ref_count s = 1" using r by (simp add: receiving_def word_unat_eq_iff)
  let ?s = "s\<lparr> dev_ref_count := 0, dev_open_flag := RT_DEVICE_OFLAG_OPEN, serial_rx := None, hw := uart_int ops Clr_int m (hw s) \<rparr>"
  have "rt_serial_close ops (s\<lparr> dev_ref_count := 0 \<rparr>) = Inr (RT_EOK, ?s)"
    by (rule rx_modeE [OF m]) (use r in \<open>simp_all add: rt_serial_close_def close_rx_def close_tx_def receiving_def serial_flags\<close>)
  then have "rt_device_close (serial_driver ops mem_rx mem_tx unknown dma_tx) s = Inr (RT_EOK, ?s\<lparr> dev_open_flag := 0 \<rparr>)"
    by (simp add: rt_device_close_def one serial_driver_def)
  then show ?thesis using r by (simp add: receiving_def)
qed

section \<open>Deliveries and reads in any order\<close>

text \<open>Something is delivered to the device, or a reader asks for some bytes.\<close>

datatype 'e rx_event = Deliver 'e | Read_some nat

fun device_run :: "('e \<Rightarrow> 'd \<Rightarrow> 'd res option) \<Rightarrow> (nat \<Rightarrow> 'd \<Rightarrow> ('a list \<times> 'd) res) \<Rightarrow> 'e rx_event list \<Rightarrow> 'd \<Rightarrow>
    ('a list \<times> 'd) res option" where
  "device_run deliver rd [] d = Some (Inr ([], d))"
| "device_run deliver rd (Deliver e # es) d =
     (case deliver e d of None \<Rightarrow> None | Some (Inl x) \<Rightarrow> Some (Inl x) | Some (Inr d) \<Rightarrow> device_run deliver rd es d)"
| "device_run deliver rd (Read_some k # es) d =
     (case rd k d of Inl x \<Rightarrow> Some (Inl x)
      | Inr (bs, d) \<Rightarrow> map_option (\<lambda>r. rbind r (\<lambda>(bs', d). Inr (bs @ bs', d))) (device_run deliver rd es d))"

text \<open>What such an event means for a queue.\<close>

fun event_means :: "('e \<Rightarrow> 'a list \<Rightarrow> bool) \<Rightarrow> 'e rx_event \<Rightarrow> 'a rx_op \<Rightarrow> bool" where
  "event_means gives (Deliver e) (Arrive xs) \<longleftrightarrow> gives e xs"
| "event_means gives (Read_some k) (Read k') \<longleftrightarrow> k = k'"
| "event_means gives _ _ \<longleftrightarrow> False"

text \<open>A device around a receive buffer: a delivery puts into its buffer what it gives, a read takes out of it.\<close>

locale buffered_device = receive_buffer inv contents capacity admissible arrive take_out
  for inv :: "'s \<Rightarrow> bool" and contents :: "'s \<Rightarrow> 'a list" and capacity :: nat and admissible :: "'a list \<Rightarrow> bool"
    and arrive :: "'a list \<Rightarrow> 's \<Rightarrow> 's res" and take_out :: "nat \<Rightarrow> 's \<Rightarrow> ('a list \<times> 's) res" +
  fixes holds :: "'s \<Rightarrow> 'd \<Rightarrow> bool"
    and deliver :: "'e \<Rightarrow> 'd \<Rightarrow> 'd res option"
    and gives :: "'e \<Rightarrow> 'a list \<Rightarrow> bool"
    and rd :: "nat \<Rightarrow> 'd \<Rightarrow> ('a list \<times> 'd) res"
  assumes deliver_law: "holds f d \<Longrightarrow> gives e xs \<Longrightarrow> arrive xs f = Inr f' \<Longrightarrow> \<exists>d'. deliver e d = Some (Inr d') \<and> holds f' d'"
    and read_law: "holds f d \<Longrightarrow> take_out k f = Inr (bs, f') \<Longrightarrow> \<exists>d'. rd k d = Inr (bs, d') \<and> holds f' d'"
    and gives_admissible: "gives e xs \<Longrightarrow> admissible xs"
begin

lemma device_run_buffer:
  "list_all2 (event_means gives) es xs \<Longrightarrow> holds f d \<Longrightarrow> run xs f = Inr (bs, f') \<Longrightarrow>
   \<exists>d'. device_run deliver rd es d = Some (Inr (bs, d')) \<and> holds f' d'"
proof (induction es xs arbitrary: d f bs rule: list_all2_induct)
  case (Cons e es x xs)
  show ?case
  proof (cases e)
    case (Deliver c)
    then obtain cs where x: "x = Arrive cs" "gives c cs" using Cons.hyps(1) by (cases x) auto
    obtain f1 where f1: "arrive cs f = Inr f1" "run xs f1 = Inr (bs, f')" using Cons.prems(2) by (auto simp: x rbind_eq_Inr)
    obtain d1 where "deliver c d = Some (Inr d1)" "holds f1 d1" using deliver_law [OF Cons.prems(1) x(2) f1(1)] by blast
    then show ?thesis using Cons.IH [of f1 d1 bs] f1(2) by (simp add: Deliver)
  next
    case (Read_some k)
    then have x: "x = Read k" using Cons.hyps(1) by (cases x) auto
    obtain f1 as bs1 where f1: "take_out k f = Inr (as, f1)" "run xs f1 = Inr (bs1, f')" "bs = as @ bs1"
      using Cons.prems(2) by (auto simp: x rbind_eq_Inr)
    obtain d1 where "rd k d = Inr (as, d1)" "holds f1 d1" using read_law [OF Cons.prems(1) f1(1)] by blast
    then show ?thesis using Cons.IH [of f1 d1 bs1] f1(2,3) by (auto simp: Read_some)
  qed
qed simp

lemma device_queue:
  assumes "inv f" "holds f d" and ev: "list_all2 (event_means gives) es xs"
  shows "\<exists>bs d' f'. device_run deliver rd es d = Some (Inr (bs, d')) \<and> holds f' d' \<and> inv f' \<and>
    (bs, contents f') = queue_run capacity xs (contents f)"
proof -
  have "\<forall>as \<in> set (arrivals xs). admissible as"
    using ev by (induction rule: list_all2_induct) (auto elim!: event_means.elims simp: gives_admissible)
  then obtain f' where f': "run xs f = Inr (fst (queue_run capacity xs (contents f)), f')" "inv f'"
      "contents f' = snd (queue_run capacity xs (contents f))"
    using run_queue [OF assms(1)] by blast
  then show ?thesis using device_run_buffer [OF ev assms(2) f'(1)] by fastforce
qed

end

section \<open>The two instances\<close>

text \<open>A receive interrupt that finds the hardware in a state; a transfer of the DMA, which wrote the bytes from
  \<open>put_index\<close> on, and its completion interrupt.\<close>

definition rx_interrupt :: "'h uart_ops \<Rightarrow> 'h \<Rightarrow> 'h serial \<Rightarrow> 'h serial res option" where
  "rx_interrupt ops h s = map_option (\<lambda>r. rbind r (\<lambda>(k, s). Inr s)) (rt_hw_serial_isr ops (\<lambda>s. s) Event_rx_ind (s\<lparr> hw := h \<rparr>))"

definition dma_writes :: "bytes \<Rightarrow> 'h serial \<Rightarrow> 'h serial" where
  "dma_writes cs s = (case serial_rx s of
     Some (Rx_fifo f) \<Rightarrow> s\<lparr> serial_rx := Some (Rx_fifo (f\<lparr> buffer := ring_write (buffer f) (unat (put_index f)) cs \<rparr>)) \<rparr> | _ \<Rightarrow> s)"

definition dma_interrupt :: "'h uart_ops \<Rightarrow> bytes \<Rightarrow> 'h serial \<Rightarrow> 'h serial res option" where
  "dma_interrupt ops cs s = map_option (\<lambda>r. rbind r (\<lambda>(k, s). Inr s))
     (rt_hw_serial_isr ops (\<lambda>s. s) (Event_rx_dmadone (of_nat (length cs))) (dma_writes cs s))"

text \<open>A read by a user, and the bytes that it gives.\<close>

definition serial_read :: "'h uart_ops \<Rightarrow> nat \<Rightarrow> 'h serial \<Rightarrow> (bytes \<times> 'h serial) res" where
  "serial_read ops k s = rbind (rt_device_read (serial_driver ops True True (\<lambda>n. []) (\<lambda>bs s. (0, s))) k s) (\<lambda>(e, bs, s). Inr (bs, s))"

lemma receiving_update [simp]:
  "receiving m n k f s \<Longrightarrow> receiving m n k f' (s\<lparr> serial_rx := Some (Rx_fifo f'), hw := h \<rparr>)"
  "receiving m n k f s \<Longrightarrow> receiving m n k f' (s\<lparr> serial_rx := Some (Rx_fifo f') \<rparr>)"
  by (simp_all add: receiving_def)

lemma isr_receives:
  assumes "serial_rx s = Some (Rx_fifo f)" "uart_gives ops h cs h'" "fifo_put_all (bufsz (config s)) cs f = Inr f'"
  shows "rt_hw_serial_isr ops dn Event_rx_ind (s\<lparr> hw := h \<rparr>) =
    Some (Inr (if rx_indicate s \<noteq> None \<and> rx_length (bufsz (config s)) f' \<noteq> 0 then Some (rx_length (bufsz (config s)) f') else None,
      s\<lparr> serial_rx := Some (Rx_fifo f'), hw := h' \<rparr>))"
  using assms by (simp add: rt_hw_serial_isr_def get_fifo_def isr_rx_loop_put_all Let_def)

lemma dma_receives:
  assumes r: "receiving m n k f s" and a: "dma_arrive n cs f = Inr f'"
  shows "rt_hw_serial_isr ops dn (Event_rx_dmadone (of_nat (length cs))) (dma_writes cs s) =
    Some (Inr (if rx_indicate s \<noteq> None then Some (serial_fifo_calc_recved_len n f') else None, s\<lparr> serial_rx := Some (Rx_fifo f') \<rparr>))"
  using r a by (simp add: rt_hw_serial_isr_def get_fifo_def dma_writes_def receiving_def dma_arrive_def Let_def)

lemma device_read_serial:
  assumes r: "receiving m n k f s" and rd: "rt_serial_read ops unknown len s = Inr (bs, s')"
  shows "rt_device_read (serial_driver ops mem_rx mem_tx unknown dma_tx) len s = Inr (None, bs, s')"
proof -
  have "dev_ref_count s \<noteq> 0" using r by (auto simp: receiving_def)
  then show ?thesis using rd by (simp add: rt_device_read_def serial_driver_def)
qed

lemma int_read:
  assumes r: "receiving RT_DEVICE_FLAG_INT_RX n k f s" and t: "serial_int_rx n len f = Inr (bs, f')"
  shows "rt_serial_read ops unknown len s = Inr (bs, s\<lparr> serial_rx := Some (Rx_fifo f') \<rparr>)"
proof -
  have flag: "(RT_DEVICE_FLAG_INT_RX OR RT_DEVICE_OFLAG_OPEN) AND RT_DEVICE_FLAG_INT_RX \<noteq> 0" by (simp add: serial_flags)
  show ?thesis
  proof (cases "len = 0")
    case True
    then show ?thesis using r t by (auto simp: rt_serial_read_def receiving_def)
  next
    case False
    then show ?thesis using r t flag by (simp add: rt_serial_read_def receiving_def get_fifo_def)
  qed
qed

lemma dma_read_len_0:
  assumes "dma_ok n f" shows "dma_rx_fifo n 0 f = Inr ([], f)"
proof -
  have "dma_rx_fifo n 0 f = rbind (rt_dma_recv_update_get_index n 0 f) (\<lambda>f. Inr ([], f))"
    using assms by (auto simp: dma_rx_fifo_def dma_ok_def Let_def take_bytes_def word_less_nat_alt)
  moreover have "rt_dma_recv_update_get_index n 0 f = Inr f"
    using assms by (auto simp: rt_dma_recv_update_get_index_def dma_ok_def Let_def)
  ultimately show ?thesis by simp
qed

lemma dma_read:
  assumes r: "receiving RT_DEVICE_FLAG_DMA_RX n k f s" and ok: "dma_ok n f" and t: "dma_rx_fifo n len f = Inr (bs, f')"
  shows "rt_serial_read ops unknown len s = Inr (bs, s\<lparr> serial_rx := Some (Rx_fifo f') \<rparr>)"
proof -
  have flag: "(RT_DEVICE_FLAG_DMA_RX OR RT_DEVICE_OFLAG_OPEN) AND RT_DEVICE_FLAG_DMA_RX \<noteq> 0"
    "(RT_DEVICE_FLAG_DMA_RX OR RT_DEVICE_OFLAG_OPEN) AND RT_DEVICE_FLAG_INT_RX = 0" by (simp_all add: serial_flags)
  show ?thesis
  proof (cases "len = 0")
    case True
    then show ?thesis using r t dma_read_len_0 [OF ok] by (auto simp: rt_serial_read_def receiving_def)
  next
    case False
    then show ?thesis using r t flag by (simp add: rt_serial_read_def receiving_def get_fifo_def serial_dma_rx_def)
  qed
qed

interpretation int_uart: buffered_device "fifo_ok n" "fifo_contents n" "unat n - 1" "\<lambda>_. True" "fifo_put_all n" "serial_int_rx n"
    "receiving RT_DEVICE_FLAG_INT_RX n k" "rx_interrupt ops" "\<lambda>h cs. \<exists>h'. uart_gives ops h cs h'" "serial_read ops" for n k and ops :: "'h uart_ops"
proof
  fix f f' and d :: "'h serial" and e cs len bs
  assume r: "receiving RT_DEVICE_FLAG_INT_RX n k f d"
  show "\<exists>d'. rx_interrupt ops e d = Some (Inr d') \<and> receiving RT_DEVICE_FLAG_INT_RX n k f' d'"
    if "\<exists>h'. uart_gives ops e cs h'" "fifo_put_all n cs f = Inr f'"
    using that r isr_receives [of d f ops e cs _ f'] receiving_update(1) [OF r]
    by (auto simp: rx_interrupt_def receiving_def)
  show "\<exists>d'. serial_read ops len d = Inr (bs, d') \<and> receiving RT_DEVICE_FLAG_INT_RX n k f' d'"
    if "serial_int_rx n len f = Inr (bs, f')"
    using device_read_serial [OF r int_read [OF r that]] r by (simp add: serial_read_def)
qed simp

interpretation dma_uart: buffered_device "dma_ok n" "dma_contents n" "unat n" "\<lambda>cs. length cs \<le> unat n" "dma_arrive n" "\<lambda>j. dma_rx_fifo n j"
    "\<lambda>f s. dma_ok n f \<and> receiving RT_DEVICE_FLAG_DMA_RX n k f s" "dma_interrupt ops" "\<lambda>as cs. as = cs \<and> length cs \<le> unat n" "serial_read ops"
    for n k and ops :: "'h uart_ops"
proof
  fix f f' and d :: "'h serial" and e cs len bs
  assume h: "dma_ok n f \<and> receiving RT_DEVICE_FLAG_DMA_RX n k f d"
  then have ok: "dma_ok n f" and r: "receiving RT_DEVICE_FLAG_DMA_RX n k f d" by auto
  show "\<exists>d'. dma_interrupt ops e d = Some (Inr d') \<and> dma_ok n f' \<and> receiving RT_DEVICE_FLAG_DMA_RX n k f' d'"
    if "e = cs \<and> length cs \<le> unat n" "dma_arrive n cs f = Inr f'"
    using that dma_arrive_ok [OF ok, of cs] dma_receives [OF r that(2)] r by (auto simp: dma_interrupt_def)
  show "\<exists>d'. serial_read ops len d = Inr (bs, d') \<and> dma_ok n f' \<and> receiving RT_DEVICE_FLAG_DMA_RX n k f' d'"
    if "dma_rx_fifo n len f = Inr (bs, f')"
    using device_read_serial [OF r dma_read [OF r ok that]] dma_read_ok [OF ok, of len] that r by (auto simp: serial_read_def)
qed simp

lemma empty_fifo_ok: "2 \<le> unat n \<Longrightarrow> fifo_ok n (empty_fifo n) \<and> fifo_contents n (empty_fifo n) = []"
proof -
  assume n: "2 \<le> unat n"
  then have "0 < n" by (auto simp: word_less_nat_alt)
  then show ?thesis using n by (simp add: fifo_ok_def empty_fifo_def fifo_contents_def fifo_count_def ring_view_def)
qed

lemma empty_dma_ok: "0 < unat n \<Longrightarrow> unat n \<le> 2 ^ 15 \<Longrightarrow> dma_ok n (empty_fifo n) \<and> dma_contents n (empty_fifo n) = []"
proof -
  assume n: "0 < unat n" "unat n \<le> 2 ^ 15"
  then have "0 < n" by (auto simp: word_less_nat_alt)
  then show ?thesis using n by (simp add: dma_ok_def empty_fifo_def dma_contents_def dma_count_def fifo_count_def ring_view_def)
qed

lemma rx_length_count: "fifo_ok n f \<Longrightarrow> unat (rx_length n f) = length (fifo_contents n f)"
  by (auto simp: rx_length_def fifo_count_def fifo_ok_def word_less_nat_alt word_le_nat_alt unat_sub)

section \<open>Several users\<close>

lemma run_calls_append:
  "run_calls drv (cs @ ds) d = rbind (run_calls drv cs d) (\<lambda>(rs, d). rbind (run_calls drv ds d) (\<lambda>(rs', d). Inr (rs @ rs', d)))"
proof (induction cs arbitrary: d)
  case Nil
  then show ?case by (cases "run_calls drv ds d") auto
next
  case (Cons c cs)
  show ?case
  proof (cases "case c of Open oflag \<Rightarrow> rt_device_open drv oflag d | Close \<Rightarrow> rt_device_close drv d")
    case (Inr x)
    obtain r d1 where x: "x = (r, d1)" by (cases x)
    show ?thesis
    proof (cases "run_calls drv cs d1")
      case i: (Inr y)
      obtain rs d2 where y: "y = (rs, d2)" by (cases y)
      show ?thesis using Inr i by (cases "run_calls drv ds d2") (auto simp: x y Cons.IH)
    qed (simp add: Inr x Cons.IH)
  qed simp
qed

lemma opens_ok:
  "rx_mode m \<Longrightarrow> receiving m n i f s \<Longrightarrow> i + k \<le> 255 \<Longrightarrow>
   \<exists>s'. run_calls (serial_driver ops mem_rx mem_tx unknown dma_tx) (replicate k (Open m)) s = Inr (replicate k RT_EOK, s') \<and>
     receiving m n (i + k) f s' \<and> hw s' = hw s"
proof (induction k arbitrary: i s)
  case (Suc k)
  obtain s1 where s1: "rt_device_open (serial_driver ops mem_rx mem_tx unknown dma_tx) m s = Inr (RT_EOK, s1)"
      "receiving m n (i + 1) f s1" "hw s1 = hw s"
    using next_open [OF Suc.prems(1,2), where ops = ops and mem_rx = mem_rx and mem_tx = mem_tx and unknown = unknown and dma_tx = dma_tx] Suc.prems(3) by auto
  then show ?case using Suc.IH [OF Suc.prems(1) s1(2)] Suc.prems(3) by fastforce
qed simp

lemma closes_ok:
  "receiving m n (i + j) f s \<Longrightarrow> 0 < i \<Longrightarrow>
   \<exists>s'. run_calls (serial_driver ops mem_rx mem_tx unknown dma_tx) (replicate j Close) s = Inr (replicate j RT_EOK, s') \<and>
     receiving m n i f s' \<and> hw s' = hw s"
proof (induction j arbitrary: s)
  case (Suc j)
  obtain s1 where s1: "rt_device_close (serial_driver ops mem_rx mem_tx unknown dma_tx) s = Inr (RT_EOK, s1)"
      "receiving m n (i + j) f s1" "hw s1 = hw s"
    using close_not_last [of m n "i + j" f s, where ops = ops and mem_rx = mem_rx and mem_tx = mem_tx and unknown = unknown and dma_tx = dma_tx] Suc.prems by auto
  then show ?case using Suc.IH [OF s1(2) Suc.prems(2)] by auto
qed simp

lemma users_ok:
  assumes m: "rx_mode m" and r: "receiving m n i f s" and k: "i + k \<le> 255" and j: "j < i + k"
  shows "\<exists>s'. run_calls (serial_driver ops mem_rx mem_tx unknown dma_tx) (replicate k (Open m) @ replicate j Close) s =
      Inr (replicate (k + j) RT_EOK, s') \<and> receiving m n (i + k - j) f s' \<and> hw s' = hw s"
proof -
  obtain s1 where s1: "run_calls (serial_driver ops mem_rx mem_tx unknown dma_tx) (replicate k (Open m)) s = Inr (replicate k RT_EOK, s1)"
      "receiving m n (i + k) f s1" "hw s1 = hw s" using opens_ok [OF m r k] by blast
  have "receiving m n (i + k - j + j) f s1" "0 < i + k - j" using s1(2) j by simp_all
  then show ?thesis using closes_ok [of m n "i + k - j" j f s1, where ops = ops and mem_rx = mem_rx and mem_tx = mem_tx and unknown = unknown and dma_tx = dma_tx] s1
    by (auto simp: run_calls_append replicate_add)
qed

section \<open>Sending\<close>

text \<open>What is relied on of the hardware: \<open>sent\<close> is what went out; \<^verbatim>\<open>putc\<close> sends a byte or refuses it, and after a
  completion it does not refuse.\<close>

definition uart_sends :: "'h uart_ops \<Rightarrow> ('h \<Rightarrow> bytes) \<Rightarrow> bool" where
  "uart_sends ops sent \<longleftrightarrow>
     (\<forall>c h. sent (snd (uart_putc ops c h)) = (if fst (uart_putc ops c h) then sent h @ [c] else sent h)) \<and>
     (\<forall>h. sent (uart_wait ops h) = sent h) \<and>
     (\<forall>c h. \<not> fst (uart_putc ops c h) \<longrightarrow> fst (uart_putc ops c (uart_wait ops (snd (uart_putc ops c h)))))"

text \<open>A line feed on a stream is preceded by a carriage return.\<close>

definition on_the_line :: "u16 \<Rightarrow> bytes \<Rightarrow> bytes" where
  "on_the_line open_flag cs = concat (map (\<lambda>c. if c = 10 \<and> open_flag AND RT_DEVICE_FLAG_STREAM \<noteq> 0 then [13, c] else [c]) cs)"

lemma poll_tx_sends:
  "uart_sends ops sent \<Longrightarrow> \<forall>c h. fst (uart_putc ops c h) \<Longrightarrow> sent (serial_poll_tx ops fl cs h) = sent h @ on_the_line fl cs"
  by (induction cs arbitrary: h) (simp_all add: on_the_line_def uart_sends_def Let_def)

lemma int_tx_sends:
  assumes u: "uart_sends ops sent"
  shows "\<exists>h'. serial_int_tx ops cs h = Some h' \<and> sent h' = sent h @ cs"
proof (induction cs arbitrary: h)
  case Nil
  then show ?case by (subst serial_int_tx.simps) simp
next
  case (Cons c cs)
  have accepted: "\<exists>h'. serial_int_tx ops (c # cs) h = Some h' \<and> sent h' = sent h @ c # cs" if f: "fst (uart_putc ops c h)" for h
  proof -
    obtain h' where "serial_int_tx ops cs (snd (uart_putc ops c h)) = Some h'" "sent h' = sent (snd (uart_putc ops c h)) @ cs"
      using Cons.IH by blast
    then show ?thesis using f u by (subst serial_int_tx.simps) (auto simp: uart_sends_def)
  qed
  show ?case
  proof (cases "fst (uart_putc ops c h)")
    case False
    let ?h = "uart_wait ops (snd (uart_putc ops c h))"
    have "fst (uart_putc ops c ?h)" "sent ?h = sent h" using False u by (auto simp: uart_sends_def)
    moreover have "serial_int_tx ops (c # cs) h = serial_int_tx ops (c # cs) ?h"
      using False by (subst serial_int_tx.simps) simp
    ultimately show ?thesis using accepted [of ?h] by simp
  qed (rule accepted)
qed

section \<open>A sample uart\<close>

text \<open>Its hardware state is the bytes it has received and the bytes it has sent.\<close>

definition sample_uart :: "(bytes \<times> bytes) uart_ops" where
  "sample_uart = \<lparr> uart_configure = (\<lambda>c h. (RT_EOK, h)), uart_int = (\<lambda>c m h. h), uart_control = (\<lambda>c a h. (RT_EOK, h)),
     uart_putc = (\<lambda>c (i, out). (True, (i, out @ [c]))),
     uart_getc = (\<lambda>(i, out). case i of [] \<Rightarrow> (None, ([], out)) | c # cs \<Rightarrow> (Some c, (cs, out))),
     uart_wait = (\<lambda>h. h), uart_dma_transmit = (\<lambda>k h. h) \<rparr>"

definition sample_serial :: "u16 \<Rightarrow> u8 \<Rightarrow> u16 \<Rightarrow> serial_rx option \<Rightarrow> (bytes \<times> bytes) serial" where
  "sample_serial flag count oflag rx = \<lparr> dev_flag = flag, dev_open_flag = oflag, dev_ref_count = count, rx_indicate = None, tx_complete = None,
     config = \<lparr> baud_rate = 9600, data_bits = 8, stop_bits = 0, parity = 0, bit_order = 0, invert = 0, bufsz = 4 \<rparr>,
     serial_rx = rx, serial_tx = None, hw = ([], []) \<rparr>"

lemma sample_gives: "uart_gives sample_uart (cs, out) cs ([], out)"
  by (induction cs) (simp_all add: sample_uart_def)

section \<open>Properties\<close>

text \<open>C12: A uart opened for receiving by interrupt is a queue between its interrupts and its readers. In whatever order
  receive interrupts and reads happen, what the readers got and what is left is a subsequence of the bytes that
  arrived; as long as never more than \<open>bufsz - 1\<close> bytes are waiting, it is all of them.\<close>

theorem serial_receive_is_queue:
  "closed_uart ops RT_DEVICE_FLAG_INT_RX s \<Longrightarrow> 2 \<le> unat (bufsz (config s)) \<Longrightarrow>
   list_all2 (event_means (\<lambda>h cs. \<exists>h'. uart_gives ops h cs h')) es xs \<Longrightarrow>
   \<exists>s1 bs s2 f. rt_device_open (serial_driver ops True mem_tx unknown dma_tx) RT_DEVICE_FLAG_INT_RX s = Inr (RT_EOK, s1) \<and>
     device_run (rx_interrupt ops) (serial_read ops) es s1 = Some (Inr (bs, s2)) \<and> serial_rx s2 = Some (Rx_fifo f) \<and>
     subseq (bs @ fifo_contents (bufsz (config s)) f) (concat (arrivals xs)) \<and>
     (keeps_up (unat (bufsz (config s)) - 1) xs 0 \<longrightarrow> bs @ fifo_contents (bufsz (config s)) f = concat (arrivals xs))"
proof -
  assume c: "closed_uart ops RT_DEVICE_FLAG_INT_RX s" and n: "2 \<le> unat (bufsz (config s))"
    and ev: "list_all2 (event_means (\<lambda>h cs. \<exists>h'. uart_gives ops h cs h')) es xs"
  let ?n = "bufsz (config s)"
  have nz: "?n \<noteq> 0" using n by auto
  obtain s1 where s1: "rt_device_open (serial_driver ops True mem_tx unknown dma_tx) RT_DEVICE_FLAG_INT_RX s = Inr (RT_EOK, s1)"
      "receiving RT_DEVICE_FLAG_INT_RX ?n 1 (empty_fifo ?n) s1"
    using first_open [OF _ c nz, where mem_tx = mem_tx and unknown = unknown and dma_tx = dma_tx] by (auto simp: rx_mode_def)
  obtain bs s2 f where run: "device_run (rx_interrupt ops) (serial_read ops) es s1 = Some (Inr (bs, s2))"
      "receiving RT_DEVICE_FLAG_INT_RX ?n 1 f s2" "(bs, fifo_contents ?n f) = queue_run (unat ?n - 1) xs []"
    using int_uart.device_queue [OF _ s1(2) ev] empty_fifo_ok [OF n] by auto
  show ?thesis
    using s1(1) run queue_run_subseq [OF run(3) [symmetric]] queue_run_keeps_up [OF _ run(3) [symmetric]]
    by (intro exI conjI) (auto simp: receiving_def)
qed

theorem serial_receive_is_queue_witness:
  "\<exists>s1 bs s2 f. rt_device_open (serial_driver sample_uart True True (\<lambda>n. []) (\<lambda>cs s. (0, s))) RT_DEVICE_FLAG_INT_RX
       (sample_serial RT_DEVICE_FLAG_INT_RX 0 0 None) = Inr (RT_EOK, s1) \<and>
     device_run (rx_interrupt sample_uart) (serial_read sample_uart)
       [Deliver ([1, 2], []), Read_some 1, Deliver ([3], []), Read_some 5] s1 = Some (Inr (bs, s2)) \<and>
     serial_rx s2 = Some (Rx_fifo f) \<and> bs @ fifo_contents 4 f = [1, 2, 3]"
proof -
  let ?s = "sample_serial RT_DEVICE_FLAG_INT_RX 0 0 None" and ?xs = "[Arrive [1, 2], Read 1, Arrive [3], Read 5] :: u8 rx_op list"
  have c: "closed_uart sample_uart RT_DEVICE_FLAG_INT_RX ?s"
    by (simp add: closed_uart_def sample_serial_def sample_uart_def RT_DEVICE_FLAG_STANDALONE_def RT_DEVICE_FLAG_INT_RX_def)
  have n: "bufsz (config ?s) = 4" by (simp add: sample_serial_def)
  have ev: "list_all2 (event_means (\<lambda>h cs. \<exists>h'. uart_gives sample_uart h cs h'))
      [Deliver ([1, 2], []), Read_some 1, Deliver ([3], []), Read_some 5] ?xs"
    using sample_gives [of "[1, 2]" "[]"] sample_gives [of "[3]" "[]"] by auto
  show ?thesis
    using serial_receive_is_queue [OF c _ ev, where mem_tx = True and unknown = "\<lambda>n. []" and dma_tx = "\<lambda>cs s. (0, s)"]
    unfolding n by fastforce
qed

text \<open>A uart that receives through its DMA is a queue as well, and one that uses all of its \<open>bufsz\<close> bytes: what the
  readers got and what is left is a subsequence of the bytes that the DMA transferred, and all of them as long as never
  more than \<open>bufsz\<close> bytes are waiting.\<close>

theorem serial_dma_receive_is_queue:
  "closed_uart ops RT_DEVICE_FLAG_DMA_RX s \<Longrightarrow> 0 < unat (bufsz (config s)) \<Longrightarrow> unat (bufsz (config s)) \<le> 2 ^ 15 \<Longrightarrow>
   list_all2 (event_means (\<lambda>as cs. as = cs \<and> length cs \<le> unat (bufsz (config s)))) es xs \<Longrightarrow>
   \<exists>s1 bs s2 f. rt_device_open (serial_driver ops True mem_tx unknown dma_tx) RT_DEVICE_FLAG_DMA_RX s = Inr (RT_EOK, s1) \<and>
     device_run (dma_interrupt ops) (serial_read ops) es s1 = Some (Inr (bs, s2)) \<and> serial_rx s2 = Some (Rx_fifo f) \<and>
     subseq (bs @ dma_contents (bufsz (config s)) f) (concat (arrivals xs)) \<and>
     (keeps_up (unat (bufsz (config s))) xs 0 \<longrightarrow> bs @ dma_contents (bufsz (config s)) f = concat (arrivals xs))"
proof -
  assume c: "closed_uart ops RT_DEVICE_FLAG_DMA_RX s" and n: "0 < unat (bufsz (config s))" "unat (bufsz (config s)) \<le> 2 ^ 15"
    and ev: "list_all2 (event_means (\<lambda>as cs. as = cs \<and> length cs \<le> unat (bufsz (config s)))) es xs"
  let ?n = "bufsz (config s)"
  have nz: "?n \<noteq> 0" using n by auto
  obtain s1 where s1: "rt_device_open (serial_driver ops True mem_tx unknown dma_tx) RT_DEVICE_FLAG_DMA_RX s = Inr (RT_EOK, s1)"
      "receiving RT_DEVICE_FLAG_DMA_RX ?n 1 (empty_fifo ?n) s1"
    using first_open [OF _ c nz, where mem_tx = mem_tx and unknown = unknown and dma_tx = dma_tx] by (auto simp: rx_mode_def)
  obtain bs s2 f where run: "device_run (dma_interrupt ops) (serial_read ops) es s1 = Some (Inr (bs, s2))"
      "receiving RT_DEVICE_FLAG_DMA_RX ?n 1 f s2" "(bs, dma_contents ?n f) = queue_run (unat ?n) xs []"
    using dma_uart.device_queue [OF _ _ ev] s1(2) empty_dma_ok [OF n] by (metis (no_types, lifting))
  show ?thesis
    using s1(1) run queue_run_subseq [OF run(3) [symmetric]] queue_run_keeps_up [OF _ run(3) [symmetric]]
    by (intro exI conjI) (auto simp: receiving_def)
qed

text \<open>Users that open a receiving uart again share its buffer: after \<open>k\<close> more opens (255 users at most) and
  \<open>j\<close> closes, every call has succeeded and the buffer with its contents and the hardware are untouched while a user is
  left; the close of the last one frees the buffer and turns the receive interrupt off.\<close>

theorem serial_users_share_buffer:
  "rx_mode m \<Longrightarrow> receiving m n i f s \<Longrightarrow> i + k \<le> 255 \<Longrightarrow> j < i + k \<Longrightarrow>
   \<exists>s1 s2 s3. run_calls (serial_driver ops mem_rx mem_tx unknown dma_tx) (replicate k (Open m) @ replicate j Close) s =
       Inr (replicate (k + j) RT_EOK, s1) \<and> receiving m n (i + k - j) f s1 \<and> hw s1 = hw s \<and>
     run_calls (serial_driver ops mem_rx mem_tx unknown dma_tx) (replicate (i + k - j - 1) Close) s1 = Inr (replicate (i + k - j - 1) RT_EOK, s2) \<and>
     rt_device_close (serial_driver ops mem_rx mem_tx unknown dma_tx) s2 = Inr (RT_EOK, s3) \<and>
     dev_ref_count s3 = 0 \<and> dev_open_flag s3 = 0 \<and> serial_rx s3 = None \<and> hw s3 = uart_int ops Clr_int m (hw s)"
proof -
  assume m: "rx_mode m" and r: "receiving m n i f s" and k: "i + k \<le> 255" and j: "j < i + k"
  let ?drv = "serial_driver ops mem_rx mem_tx unknown dma_tx"
  obtain s1 where s1: "run_calls ?drv (replicate k (Open m) @ replicate j Close) s = Inr (replicate (k + j) RT_EOK, s1)"
      "receiving m n (i + k - j) f s1" "hw s1 = hw s" using users_ok [OF m r k j] by blast
  have "1 + (i + k - j - 1) = i + k - j" using j by simp
  then have "receiving m n (1 + (i + k - j - 1)) f s1" using s1(2) by simp
  then obtain s2 where s2: "run_calls ?drv (replicate (i + k - j - 1) Close) s1 = Inr (replicate (i + k - j - 1) RT_EOK, s2)"
      "receiving m n 1 f s2" "hw s2 = hw s1" using closes_ok [of m n 1] by (metis zero_less_one)
  show ?thesis using s1 s2(1,3) close_last [OF m s2(2), of ops mem_rx mem_tx unknown dma_tx] by auto
qed

text \<open>The reference count of a serial device counts: after any calls that open and close it, it is the number of
  opens that succeeded less the number of closes that did, and the open flag is set exactly when it is not 0.\<close>

theorem serial_reference_count:
  "run_calls (serial_driver ops mem_rx mem_tx unknown dma_tx) cs s = Inr (rs, s') \<Longrightarrow>
   (dev_open_flag s AND RT_DEVICE_OFLAG_OPEN \<noteq> 0) = (dev_ref_count s \<noteq> 0) \<Longrightarrow>
   (dev_open_flag s' AND RT_DEVICE_OFLAG_OPEN \<noteq> 0) = (dev_ref_count s' \<noteq> 0) \<and>
   unat (dev_ref_count s') + closed cs rs = unat (dev_ref_count s) + opened cs rs"
  using serial_counts.counted_calls [of ops mem_rx mem_tx unknown dma_tx cs s rs s'] by (simp add: flag_matches_count_def)

text \<open>A write to an open uart that does not send by DMA returns, reports every byte, and the bytes went out in order,
  waiting for the transmit interrupt where it is used; only when the driver polls, on a stream, is a carriage return put
  before each line feed.\<close>

theorem serial_write_sends:
  "uart_sends ops sent \<Longrightarrow> dev_ref_count s \<noteq> 0 \<Longrightarrow> dev_open_flag s AND RT_DEVICE_FLAG_DMA_TX = 0 \<Longrightarrow>
   (if dev_open_flag s AND RT_DEVICE_FLAG_INT_TX \<noteq> 0 then serial_tx s \<noteq> None else \<forall>c h. fst (uart_putc ops c h)) \<Longrightarrow>
   \<exists>s'. rt_device_write (serial_driver ops mem_rx mem_tx unknown dma_tx) cs s = Some (Inr (None, length cs, s')) \<and>
     sent (hw s') = sent (hw s) @ (if dev_open_flag s AND RT_DEVICE_FLAG_INT_TX \<noteq> 0 then cs else on_the_line (dev_open_flag s) cs)"
proof -
  assume u: "uart_sends ops sent" and n: "dev_ref_count s \<noteq> 0" and d: "dev_open_flag s AND RT_DEVICE_FLAG_DMA_TX = 0"
    and t: "if dev_open_flag s AND RT_DEVICE_FLAG_INT_TX \<noteq> 0 then serial_tx s \<noteq> None else \<forall>c h. fst (uart_putc ops c h)"
  have w: "\<exists>h'. rt_serial_write ops dma_tx cs s = Some (Inr (length cs, s\<lparr> hw := h' \<rparr>)) \<and>
      sent h' = sent (hw s) @ (if dev_open_flag s AND RT_DEVICE_FLAG_INT_TX \<noteq> 0 then cs else on_the_line (dev_open_flag s) cs)"
  proof (cases "cs = []")
    case True
    then show ?thesis by (intro exI [of _ "hw s"]) (simp add: rt_serial_write_def on_the_line_def)
  next
    case False
    then show ?thesis
      using int_tx_sends [OF u, of cs "hw s"] poll_tx_sends [OF u] t d
      by (cases "dev_open_flag s AND RT_DEVICE_FLAG_INT_TX \<noteq> 0") (auto simp: rt_serial_write_def)
  qed
  then show ?thesis using n by (auto simp: rt_device_write_def serial_driver_def)
qed

end
