(* ===== verification/DataQueue.thy ===== *)
theory DataQueue
  imports Mailbox Ring
begin

text \<open>
  The data queue of \<^verbatim>\<open>src/components/drivers/src/dataqueue.c\<close>: a ring of pointers with sizes, read and written
  through two 16-bit counters that only go up, with a list of threads that wait to push and one of those that
  wait to pop. The lists are the queues \<open>Senders ob\<close> and \<open>Waiting ob\<close> of the kernel, where \<open>ob\<close> stands for the
  address of the queue. As for mailboxes, a call that blocks ends with \<open>Blocked\<close> and its \<open>_return\<close> function is what
  follows its \<^verbatim>\<open>rt_schedule\<close>. A result has the event with which \<^verbatim>\<open>evt_notify\<close> is called, if it is.
\<close>

section \<open>State\<close>

type_synonym data_item = "u32 \<times> u32"

record data_queue =
  dq_size :: u16
  dq_lwm :: u16
  dq_get :: u16
  dq_put :: u16
  dq_items :: "data_item list"
  dq_notify :: bool

abbreviation (input) RT_DATAQUEUE_EVENT_POP :: u32 where "RT_DATAQUEUE_EVENT_POP \<equiv> 1"
abbreviation (input) RT_DATAQUEUE_EVENT_PUSH :: u32 where "RT_DATAQUEUE_EVENT_PUSH \<equiv> 2"
abbreviation (input) RT_DATAQUEUE_EVENT_LWM :: u32 where "RT_DATAQUEUE_EVENT_LWM \<equiv> 3"

text \<open>\<open>mem\<close> is the array that \<^verbatim>\<open>rt_malloc\<close> gives; without it the queue has none.\<close>

definition rt_data_queue_init :: "nat \<Rightarrow> data_item list option \<Rightarrow> u16 \<Rightarrow> u16 \<Rightarrow> bool \<Rightarrow> isys \<Rightarrow> data_queue \<times> isys \<times> rt_err" where
  "rt_data_queue_init ob mem sz lwm notify s =
     (let s = s\<lparr> queues := (queues s)(Waiting ob := [], Senders ob := []) \<rparr>;
          q = \<lparr> dq_size = sz, dq_lwm = lwm, dq_get = 0, dq_put = 0, dq_items = [], dq_notify = notify \<rparr>
      in case mem of None \<Rightarrow> (q, s, - RT_ENOMEM) | Some items \<Rightarrow> (q\<lparr> dq_items := items \<rparr>, s, RT_EOK))"

text \<open>\<^verbatim>\<open>put_index - get_index\<close> is computed as an \<^verbatim>\<open>int\<close>: negative once the one counter has wrapped and the other not.\<close>

definition dq_distance :: "data_queue \<Rightarrow> int" where
  "dq_distance q = uint (dq_put q) - uint (dq_get q)"

definition dq_notified :: "data_queue \<Rightarrow> u32 \<Rightarrow> u32 option" where
  "dq_notified q event = (if dq_notify q then Some event else None)"

definition dq_load :: "data_queue \<Rightarrow> u16 \<Rightarrow> data_item res" where
  "dq_load q i =
     (let k = unat (i mod dq_size q) in
      if dq_items q = [] then Inl Null_pointer
      else if k < length (dq_items q) then Inr (dq_items q ! k) else Inl Out_of_bounds)"

definition dq_store :: "data_item \<Rightarrow> data_queue \<Rightarrow> data_queue res" where
  "dq_store item q =
     (let k = unat (dq_put q mod dq_size q) in
      if dq_items q = [] then Inl Null_pointer
      else if k < length (dq_items q) then Inr (q\<lparr> dq_items := (dq_items q)[k := item], dq_put := dq_put q + 1 \<rparr>)
      else Inl Out_of_bounds)"

section \<open>Operations\<close>

text \<open>From the test of the loop on.\<close>

definition dq_push_loop ::
  "nat \<Rightarrow> data_item \<Rightarrow> int \<Rightarrow> nat option \<Rightarrow> data_queue \<Rightarrow> isys \<Rightarrow> (data_queue \<times> isys \<times> u32 option \<times> outcome) res" where
  "dq_push_loop ob item timeout self q s =
     (if dq_distance q = uint (dq_size q) then
        if timeout = 0 then Inr (q, s, None, Returned (- RT_ETIMEOUT))
        else rassert (interrupt_nest s = 0) (with_caller self (\<lambda>t. rbind (set_error t RT_EOK s) (\<lambda>s.
          rbind (ipc_wait (Senders ob) t 0 timeout s) (\<lambda>s. Inr (q, s, None, Blocked)))))
      else rbind (dq_store item q) (\<lambda>q.
        if queues s (Waiting ob) \<noteq> []
        then rbind (wake_first (Waiting ob) s) (\<lambda>s. Inr (q, s, None, Returned RT_EOK))
        else Inr (q, s, dq_notified q RT_DATAQUEUE_EVENT_PUSH, Returned RT_EOK)))"

definition rt_data_queue_push ::
  "nat \<Rightarrow> data_item \<Rightarrow> int \<Rightarrow> data_queue \<Rightarrow> isys \<Rightarrow> (data_queue \<times> isys \<times> u32 option \<times> outcome) res" where
  "rt_data_queue_push ob item timeout q s = dq_push_loop ob item timeout (rt_thread_self s) q s"

definition rt_data_queue_push_return ::
  "nat \<Rightarrow> data_item \<Rightarrow> int \<Rightarrow> nat \<Rightarrow> data_queue \<Rightarrow> isys \<Rightarrow> (data_queue \<times> isys \<times> u32 option \<times> outcome) res" where
  "rt_data_queue_push_return ob item timeout t q s = with_thread t s (\<lambda>th.
     if th_error th \<noteq> RT_EOK then Inr (q, s, None, Returned (th_error th))
     else dq_push_loop ob item timeout (Some t) q s)"

definition dq_pop_loop ::
  "nat \<Rightarrow> int \<Rightarrow> nat option \<Rightarrow> data_queue \<Rightarrow> isys \<Rightarrow> (data_queue \<times> isys \<times> u32 option \<times> data_item option \<times> outcome) res" where
  "dq_pop_loop ob timeout self q s =
     (if dq_get q = dq_put q then
        if timeout = 0 then Inr (q, s, None, None, Returned (- RT_ETIMEOUT))
        else rassert (interrupt_nest s = 0) (with_caller self (\<lambda>t. rbind (set_error t RT_EOK s) (\<lambda>s.
          rbind (ipc_wait (Waiting ob) t 0 timeout s) (\<lambda>s. Inr (q, s, None, None, Blocked)))))
      else rbind (dq_load q (dq_get q)) (\<lambda>item.
        let q = q\<lparr> dq_get := dq_get q + 1 \<rparr> in
        if dq_distance q \<le> uint (dq_lwm q)
        then rbind (wake_first (Senders ob) s) (\<lambda>s.
          Inr (q, s, dq_notified q RT_DATAQUEUE_EVENT_LWM, Some item, Returned RT_EOK))
        else Inr (q, s, dq_notified q RT_DATAQUEUE_EVENT_POP, Some item, Returned RT_EOK)))"

definition rt_data_queue_pop ::
  "nat \<Rightarrow> int \<Rightarrow> data_queue \<Rightarrow> isys \<Rightarrow> (data_queue \<times> isys \<times> u32 option \<times> data_item option \<times> outcome) res" where
  "rt_data_queue_pop ob timeout q s = dq_pop_loop ob timeout (rt_thread_self s) q s"

definition rt_data_queue_pop_return ::
  "nat \<Rightarrow> int \<Rightarrow> nat \<Rightarrow> data_queue \<Rightarrow> isys \<Rightarrow> (data_queue \<times> isys \<times> u32 option \<times> data_item option \<times> outcome) res" where
  "rt_data_queue_pop_return ob timeout t q s = with_thread t s (\<lambda>th.
     if th_error th \<noteq> RT_EOK then Inr (q, s, None, None, Returned (th_error th))
     else dq_pop_loop ob timeout (Some t) q s)"

definition rt_data_queue_peak :: "data_queue \<Rightarrow> (data_item option \<times> rt_err) res" where
  "rt_data_queue_peak q =
     (if dq_get q = dq_put q then Inr (None, - RT_EEMPTY)
      else rbind (dq_load q (dq_get q)) (\<lambda>item. Inr (Some item, RT_EOK)))"

text \<open>The counters are not touched: what was in the queue stays in it.\<close>

definition rt_data_queue_reset :: "nat \<Rightarrow> isys \<Rightarrow> isys res option" where
  "rt_data_queue_reset ob s =
     orbind (rt_ipc_list_resume_all (Waiting ob) (rt_enter_critical s)) (\<lambda>s.
     orbind (rt_ipc_list_resume_all (Senders ob) s) (\<lambda>s.
     Some (rbind (rt_exit_critical s) rt_schedule)))"

section \<open>The ring\<close>

definition dq_count :: "data_queue \<Rightarrow> nat" where
  "dq_count q = unat (dq_put q) - unat (dq_get q)"

definition dq_contents :: "data_queue \<Rightarrow> data_item list" where
  "dq_contents q = ring_view (dq_items q) (unat (dq_get q) mod unat (dq_size q)) (dq_count q)"

definition dq_ok :: "data_queue \<Rightarrow> bool" where
  "dq_ok q \<longleftrightarrow> length (dq_items q) = unat (dq_size q) \<and> 0 < unat (dq_size q) \<and> unat (dq_get q) \<le> unat (dq_put q) \<and>
     dq_count q \<le> unat (dq_size q)"

lemma dq_full_iff: "dq_ok q \<Longrightarrow> dq_distance q = uint (dq_size q) \<longleftrightarrow> length (dq_contents q) = unat (dq_size q)"
proof -
  assume "dq_ok q"
  then have "dq_distance q = int (dq_count q)" by (simp add: dq_ok_def dq_distance_def dq_count_def of_nat_diff)
  moreover have "uint (dq_size q) = int (unat (dq_size q))" by simp
  ultimately show ?thesis by (simp only: of_nat_eq_iff dq_contents_def length_ring_view)
qed

lemma dq_empty_iff: "dq_ok q \<Longrightarrow> dq_get q = dq_put q \<longleftrightarrow> dq_contents q = []"
  using length_ring_view [of "dq_items q" "unat (dq_get q) mod unat (dq_size q)" "dq_count q"]
  by (auto simp: dq_ok_def dq_contents_def dq_count_def word_unat_eq_iff simp flip: length_0_conv)

lemma dq_store_ok:
  assumes "dq_ok q" "length (dq_contents q) < unat (dq_size q)" "unat (dq_put q) + 1 < 2 ^ 16"
  obtains q' where "dq_store item q = Inr q'" "dq_ok q'" "dq_contents q' = dq_contents q @ [item]" "dq_size q' = dq_size q"
    "unat (dq_put q') = unat (dq_put q) + 1" "dq_notify q' = dq_notify q" "dq_lwm q' = dq_lwm q"
proof -
  let ?n = "unat (dq_size q)"
  let ?k = "unat (dq_put q) mod ?n"
  have q: "length (dq_items q) = ?n" "0 < ?n" "unat (dq_get q) \<le> unat (dq_put q)" "dq_count q < ?n"
    using assms(1,2) by (simp_all add: dq_ok_def dq_contents_def)
  have k: "?k < ?n" using q(2) by simp
  have put: "unat (dq_put q + 1) = unat (dq_put q) + 1" using assms(3) by (simp add: unat_add_small)
  define q' where "q' = q\<lparr> dq_items := (dq_items q)[?k := item], dq_put := dq_put q + 1 \<rparr>"
  have run: "dq_store item q = Inr q'"
    using q k by (auto simp: dq_store_def q'_def unat_mod Let_def)
  have cnt: "dq_count q' = dq_count q + 1" using put q(3) by (simp add: dq_count_def q'_def)
  have ok: "dq_ok q'" using q put cnt by (auto simp: dq_ok_def q'_def)
  have pos: "?k = (unat (dq_get q) mod ?n + dq_count q) mod ?n"
  proof -
    have "unat (dq_put q) = unat (dq_get q) + dq_count q" using q(3) by (simp add: dq_count_def)
    then show ?thesis by (simp only: mod_add_left_eq)
  qed
  have "ring_view (ring_write (dq_items q) ?k [item]) (unat (dq_get q) mod ?n) (dq_count q + length [item]) =
      ring_view (dq_items q) (unat (dq_get q) mod ?n) (dq_count q) @ [item]"
    by (rule ring_view_write) (use q pos in simp_all)
  then have "dq_contents q' = dq_contents q @ [item]"
    using k q(1) cnt update_ring_write [of ?k "dq_items q" item]
    by (simp add: dq_contents_def q'_def dq_count_def put)
  then show thesis using that run ok put by (simp add: q'_def)
qed

lemma dq_load_ok:
  assumes "dq_ok q" "dq_contents q = y # ys"
  defines "q' \<equiv> q\<lparr> dq_get := dq_get q + 1 \<rparr>"
  shows "dq_load q (dq_get q) = Inr y" "dq_ok q'" "dq_contents q' = ys"
proof -
  let ?n = "unat (dq_size q)"
  let ?k = "unat (dq_get q) mod ?n"
  have c: "dq_count q = Suc (length ys)" using arg_cong [OF assms(2), of length] by (simp add: dq_contents_def)
  have q: "length (dq_items q) = ?n" "0 < ?n" "unat (dq_get q) < unat (dq_put q)" "dq_count q \<le> ?n"
    using assms(1) c by (auto simp: dq_ok_def dq_count_def)
  have get: "unat (dq_get q + 1) = unat (dq_get q) + 1"
    using q(3) unat_u16_less [of "dq_put q"] by (simp add: unat_add_small)
  have cnt: "dq_count q = dq_count q' + 1" using get q(3) by (simp add: dq_count_def q'_def)
  have "dq_items q ! ?k = dq_contents q ! 0" using c q(1) by (simp add: dq_contents_def)
  then show "dq_load q (dq_get q) = Inr y" using q assms(2) by (auto simp: dq_load_def unat_mod Let_def)
  show "dq_ok q'" using q get cnt by (auto simp: dq_ok_def q'_def dq_count_def)
  have "(unat (dq_get q) + 1) mod ?n = (?k + 1) mod length (dq_items q)" using q(1) by (simp add: mod_Suc_eq)
  then have "dq_contents q' = drop 1 (ring_view (dq_items q) ?k (1 + dq_count q'))"
    using ring_view_drop [of "dq_items q" ?k 1 "dq_count q'"] by (simp add: dq_contents_def q'_def get)
  also have "\<dots> = ys" using assms(2) cnt by (simp add: dq_contents_def add.commute)
  finally show "dq_contents q' = ys" .
qed


section \<open>Calls that do not block\<close>

text \<open>With everything a call returns but the event of which the owner is notified.\<close>

definition dq_call :: "nat \<Rightarrow> data_item fifo_op \<Rightarrow> data_queue \<times> isys \<Rightarrow> ((data_item option \<times> outcome) \<times> data_queue \<times> isys) res" where
  "dq_call ob a = (\<lambda>(q, s). case a of
     Enq item \<Rightarrow> rbind (rt_data_queue_push ob item 0 q s) (\<lambda>(q, s, ev, out). Inr ((None, out), (q, s)))
   | Deq \<Rightarrow> rbind (rt_data_queue_pop ob 0 q s) (\<lambda>(q, s, ev, item, out). Inr ((item, out), (q, s))))"

text \<open>The items, the threads that wait for one and the threads that wait for room.\<close>

definition dq_view :: "nat \<Rightarrow> data_queue \<times> isys \<Rightarrow> data_item list \<times> nat list \<times> nat list" where
  "dq_view ob = (\<lambda>(q, s). (dq_contents q, queues s (Waiting ob), queues s (Senders ob)))"

text \<open>The push counter still holds \<open>n\<close> pushes.\<close>

definition dq_inv :: "nat \<Rightarrow> data_queue \<times> isys \<Rightarrow> bool" where
  "dq_inv n = (\<lambda>(q, s). kinv s \<and> dq_ok q \<and> unat (dq_put q) + n < 2 ^ 16)"

lemma dq_push_room:
  assumes "kinv s" "dq_ok q" "length (dq_contents q) < unat (dq_size q)" "unat (dq_put q) + 1 < 2 ^ 16"
  obtains q' s' ev where "rt_data_queue_push ob item timeout q s = Inr (q', s', ev, Returned RT_EOK)"
    "dq_push_loop ob item timeout self q s = Inr (q', s', ev, Returned RT_EOK)" "kinv s'" "dq_ok q'"
    "dq_contents q' = dq_contents q @ [item]" "dq_size q' = dq_size q" "dq_lwm q' = dq_lwm q"
    "unat (dq_put q') = unat (dq_put q) + 1"
    "ev = (if queues s (Waiting ob) = [] then dq_notified q RT_DATAQUEUE_EVENT_PUSH else None)"
    "wake_first (Waiting ob) s = Inr s'" "queues s' (Waiting ob) = tl (queues s (Waiting ob))"
    "queues s' (Senders ob) = queues s (Senders ob)"
proof -
  obtain q' where q': "dq_store item q = Inr q'" "dq_ok q'" "dq_contents q' = dq_contents q @ [item]" "dq_size q' = dq_size q"
      "unat (dq_put q') = unat (dq_put q) + 1" "dq_notify q' = dq_notify q" "dq_lwm q' = dq_lwm q"
    by (rule dq_store_ok [OF assms(2-4)]) (rule that)
  obtain s' where s': "wake_first (Waiting ob) s = Inr s'" "kinv s'" "queues s' (Waiting ob) = tl (queues s (Waiting ob))"
      "\<And>q'. q' \<noteq> Waiting ob \<Longrightarrow> \<forall>i. q' \<noteq> Ready i \<Longrightarrow> queues s' q' = queues s q'"
    by (rule wake_first_ok [OF assms(1) waiting_queue_simps(1), of ob]) (rule that)
  have sn: "queues s' (Senders ob) = queues s (Senders ob)" by (rule s'(4)) simp_all
  have "dq_distance q \<noteq> uint (dq_size q)" using assms(2,3) dq_full_iff by auto
  moreover have "queues s (Waiting ob) = [] \<Longrightarrow> s' = s" using s'(1) by (simp add: wake_first_def)
  ultimately show thesis
    by (intro that [OF _ _ s'(2) q'(2-4,7,5) refl s'(1,3) sn])
      (use q' s' in \<open>auto simp: rt_data_queue_push_def dq_push_loop_def dq_notified_def\<close>)
qed

lemma dq_distance_count: "dq_ok q \<Longrightarrow> dq_distance q = int (length (dq_contents q))"
  by (simp add: dq_ok_def dq_distance_def dq_contents_def dq_count_def of_nat_diff)

lemma dq_pop_some:
  assumes "kinv s" "dq_ok q" "dq_contents q = y # ys"
  obtains q' s' ev where "rt_data_queue_pop ob timeout q s = Inr (q', s', ev, Some y, Returned RT_EOK)"
    "kinv s'" "dq_ok q'" "dq_contents q' = ys" "dq_size q' = dq_size q" "dq_put q' = dq_put q" "dq_lwm q' = dq_lwm q"
    "queues s' (Waiting ob) = queues s (Waiting ob)"
    "queues s' (Senders ob) = (if length ys \<le> unat (dq_lwm q) then tl (queues s (Senders ob)) else queues s (Senders ob))"
proof -
  note q = dq_load_ok [OF assms(2,3)]
  obtain s' where s': "wake_first (Senders ob) s = Inr s'" "kinv s'" "queues s' (Senders ob) = tl (queues s (Senders ob))"
      "\<And>q'. q' \<noteq> Senders ob \<Longrightarrow> \<forall>i. q' \<noteq> Ready i \<Longrightarrow> queues s' q' = queues s q'"
    by (rule wake_first_ok [OF assms(1) waiting_queue_simps(2), of ob]) (rule that)
  have wt: "queues s' (Waiting ob) = queues s (Waiting ob)" by (rule s'(4)) simp_all
  have ne: "dq_get q \<noteq> dq_put q" using dq_empty_iff [OF assms(2)] assms(3) by simp
  have "uint (dq_lwm q) = int (unat (dq_lwm q))" by simp
  then have low: "dq_distance (q\<lparr> dq_get := dq_get q + 1 \<rparr>) \<le> uint (dq_lwm q) \<longleftrightarrow> length ys \<le> unat (dq_lwm q)"
    unfolding dq_distance_count [OF q(2)] q(3) by (simp only: of_nat_le_iff)
  show thesis
  proof (cases "dq_distance (q\<lparr> dq_get := dq_get q + 1 \<rparr>) \<le> uint (dq_lwm q)")
    case True
    then show ?thesis
      using ne q s' wt low by (intro that [OF _ s'(2) q(2,3)]) (simp_all add: rt_data_queue_pop_def dq_pop_loop_def Let_def)
  next
    case False
    then show ?thesis
      using ne q low by (intro that [OF _ assms(1) q(2,3)]) (simp_all add: rt_data_queue_pop_def dq_pop_loop_def Let_def)
  qed
qed

interpretation dqq: kernel_queue dq_inv "dq_view ob" "\<lambda>(q, s). unat (dq_size q)" "\<lambda>(q, s). unat (dq_lwm q)"
    "Returned RT_EOK" "Returned (- RT_ETIMEOUT)" "Returned (- RT_ETIMEOUT)" "dq_call ob" for ob
proof
  fix n and qs :: "data_queue \<times> isys"
  assume "dq_inv n qs"
  then show "length (fst (dq_view ob qs)) \<le> (case qs of (q, s) \<Rightarrow> unat (dq_size q))"
    by (auto simp: dq_inv_def dq_view_def dq_ok_def dq_contents_def split: prod.splits)
next
  fix n and qs :: "data_queue \<times> isys" and a :: "data_item fifo_op"
  obtain q s where qs: "qs = (q, s)" by (cases qs)
  assume "dq_inv (Suc n) qs"
  then have inv: "kinv s" "dq_ok q" "unat (dq_put q) + Suc n < 2 ^ 16" by (simp_all add: dq_inv_def qs)
  have put: "unat (dq_put q) + 1 < 2 ^ 16" using inv(3) by simp
  have len: "length (dq_contents q) \<le> unat (dq_size q)" using inv(2) by (simp add: dq_ok_def dq_contents_def)
  let ?step = "queue_step (unat (dq_size q)) (unat (dq_lwm q)) (Returned 0) (Returned (- 2)) (Returned (- 2)) a
      (dq_contents q, queues s (Waiting ob), queues s (Senders ob))"
  have "\<exists>q' s'. dq_call ob a (q, s) = Inr (fst ?step, q', s') \<and> dq_inv n (q', s') \<and> dq_view ob (q', s') = snd ?step \<and>
      dq_size q' = dq_size q \<and> dq_lwm q' = dq_lwm q"
  proof (cases a)
    case (Enq item)
    show ?thesis
    proof (cases "length (dq_contents q) < unat (dq_size q)")
      case True
      obtain q' s' ev where "rt_data_queue_push ob item 0 q s = Inr (q', s', ev, Returned RT_EOK)" "kinv s'" "dq_ok q'"
          "dq_contents q' = dq_contents q @ [item]" "dq_size q' = dq_size q" "dq_lwm q' = dq_lwm q"
          "unat (dq_put q') = unat (dq_put q) + 1" "queues s' (Waiting ob) = tl (queues s (Waiting ob))"
          "queues s' (Senders ob) = queues s (Senders ob)"
        by (rule dq_push_room [OF inv(1,2) True put]) (rule that)
      then show ?thesis using True Enq inv(3) by (simp add: dq_call_def dq_inv_def dq_view_def)
    next
      case False
      then have "dq_distance q = uint (dq_size q)" using dq_full_iff [OF inv(2)] len by simp
      then show ?thesis
        using False Enq inv by (simp add: dq_call_def rt_data_queue_push_def dq_push_loop_def dq_inv_def dq_view_def)
    qed
  next
    case Deq
    show ?thesis
    proof (cases "dq_contents q")
      case Nil
      then have "dq_get q = dq_put q" using dq_empty_iff [OF inv(2)] by simp
      then show ?thesis
        using Nil Deq inv by (simp add: dq_call_def rt_data_queue_pop_def dq_pop_loop_def dq_inv_def dq_view_def)
    next
      case (Cons y ys)
      obtain q' s' ev where "rt_data_queue_pop ob 0 q s = Inr (q', s', ev, Some y, Returned RT_EOK)"
        "kinv s'" "dq_ok q'" "dq_contents q' = ys" "dq_size q' = dq_size q" "dq_put q' = dq_put q" "dq_lwm q' = dq_lwm q"
        "queues s' (Waiting ob) = queues s (Waiting ob)"
        "queues s' (Senders ob) = (if length ys \<le> unat (dq_lwm q) then tl (queues s (Senders ob)) else queues s (Senders ob))"
        by (rule dq_pop_some [OF inv(1,2) Cons]) (rule that)
      then show ?thesis using Cons Deq inv(3) by (simp add: dq_call_def dq_inv_def dq_view_def)
    qed
  qed
  then show "\<exists>t. dq_call ob a qs = Inr (fst (queue_step (case qs of (q, s) \<Rightarrow> unat (dq_size q)) (case qs of (q, s) \<Rightarrow> unat (dq_lwm q))
        (Returned 0) (Returned (- 2)) (Returned (- 2)) a (dq_view ob qs)), t) \<and> dq_inv n t \<and>
      dq_view ob t = snd (queue_step (case qs of (q, s) \<Rightarrow> unat (dq_size q)) (case qs of (q, s) \<Rightarrow> unat (dq_lwm q))
        (Returned 0) (Returned (- 2)) (Returned (- 2)) a (dq_view ob qs)) \<and>
      (case t of (q, s) \<Rightarrow> unat (dq_size q)) = (case qs of (q, s) \<Rightarrow> unat (dq_size q)) \<and>
      (case t of (q, s) \<Rightarrow> unat (dq_lwm q)) = (case qs of (q, s) \<Rightarrow> unat (dq_lwm q))"
    by (auto simp: qs dq_view_def)
qed

section \<open>Properties\<close>

text \<open>C29: A data queue is a bounded queue, whoever waits for it, until its counters wrap. Under any sequence of pushes and
  pops that do not wait themselves, of at most as many as the 16 bits of the push counter still hold, every call ends, without a
  fault, with exactly the result that a queue of its size gives: a push is accepted when there is room, a pop returns the
  oldest item, and either returns \<^verbatim>\<open>-RT_ETIMEOUT\<close> when it would have to wait. Every accepted item takes the first
  of the waiting poppers out of the waiting list; a pop does so with the first of the waiting pushers once no more items than the low-water
  mark are left; the queue and the kernel stay well formed.\<close>

theorem rt_data_queue_fifo:
  assumes "kinv s" and "dq_ok q" and "unat (dq_put q) + length ops < 2 ^ 16"
    and "queue_run (unat (dq_size q)) (unat (dq_lwm q)) (Returned RT_EOK) (Returned (- RT_ETIMEOUT)) (Returned (- RT_ETIMEOUT)) ops
      (dq_contents q, queues s (Waiting ob), queues s (Senders ob)) = (results, items, poppers, pushers)"
  shows "\<exists>q' s'. call_run (dq_call ob) ops (q, s) = Inr (results, q', s') \<and> kinv s' \<and> dq_ok q' \<and> dq_contents q' = items \<and>
    dq_size q' = dq_size q \<and> queues s' (Waiting ob) = poppers \<and> queues s' (Senders ob) = pushers"
proof -
  have inv: "dq_inv (length ops) (q, s)" using assms(1-3) by (simp add: dq_inv_def)
  show ?thesis
    using dqq.run_refines [OF inv, of ob] assms(4) by (auto simp: dq_inv_def dq_view_def word_unat_eq_iff)
qed

text \<open>Once the push counter has wrapped and the pop counter has not, a full queue accepts another item, which
  takes the place of the oldest: eight items are in the queue, and the ninth is accepted.\<close>

lemma rt_data_queue_push_wrapped:
  "queues s (Waiting ob) = [] \<Longrightarrow>
   rt_data_queue_push ob (99, 1) 0
     \<lparr> dq_size = 8, dq_lwm = 4, dq_get = 65530, dq_put = 2, dq_items = map (\<lambda>i. (i, 1)) [2, 3, 4, 5, 6, 7, 0, 1], dq_notify = False \<rparr> s =
   Inr (\<lparr> dq_size = 8, dq_lwm = 4, dq_get = 65530, dq_put = 3, dq_items = map (\<lambda>i. (i, 1)) [2, 3, 99, 5, 6, 7, 0, 1], dq_notify = False \<rparr>,
     s, None, Returned RT_EOK)"
  by (simp add: rt_data_queue_push_def dq_push_loop_def dq_distance_def dq_store_def dq_notified_def unat_mod Let_def)


lemma rt_data_queue_fifo_witness:
  "\<exists>q' s'. call_run (dq_call 1) [Enq (5, 1), Enq (6, 1), Enq (7, 1), Deq]
       (\<lparr> dq_size = 2, dq_lwm = 1, dq_get = 0, dq_put = 0, dq_items = [(0, 0), (0, 0)], dq_notify = False \<rparr>, sample_ipc (\<lambda>_. None)) =
     Inr ([(None, Returned RT_EOK), (None, Returned RT_EOK), (None, Returned (- RT_ETIMEOUT)), (Some (5, 1), Returned RT_EOK)], q', s') \<and>
     dq_contents q' = [(6, 1)] \<and> queues s' (Waiting 1) = []"
proof -
  let ?q = "\<lparr> dq_size = 2, dq_lwm = 1, dq_get = 0, dq_put = 0, dq_items = [(0, 0), (0, 0)], dq_notify = False \<rparr> :: data_queue"
  have q: "dq_ok ?q" "dq_contents ?q = []" "unat (dq_size ?q) = 2" "unat (dq_lwm ?q) = 1"
    by (simp_all add: dq_ok_def dq_count_def dq_contents_def ring_view_def)
  have w: "queues (sample_ipc (\<lambda>_. None)) (Waiting 1) = [2]" "queues (sample_ipc (\<lambda>_. None)) (Senders 1) = []"
    by (simp_all add: sample_ipc_def)
  have r: "queue_run (unat (dq_size ?q)) (unat (dq_lwm ?q)) (Returned RT_EOK) (Returned (- RT_ETIMEOUT)) (Returned (- RT_ETIMEOUT))
      [Enq (5, 1), Enq (6, 1), Enq (7, 1), Deq] (dq_contents ?q, queues (sample_ipc (\<lambda>_. None)) (Waiting 1), queues (sample_ipc (\<lambda>_. None)) (Senders 1)) =
      ([(None, Returned RT_EOK), (None, Returned RT_EOK), (None, Returned (- RT_ETIMEOUT)), (Some (5, 1), Returned RT_EOK)], [(6, 1)], [], [])"
    unfolding q w by simp
  have n: "unat (dq_put ?q) + length [Enq (5, 1), Enq (6, 1), Enq (7, 1), Deq :: data_item fifo_op] < 2 ^ 16" by simp
  show ?thesis using rt_data_queue_fifo [OF sample_kinv_ipc q(1) n r] by blast
qed

end
