(* ===== verification/SerialTx.thy ===== *)
theory SerialTx
  imports SerialDev DataQueue
begin

text \<open>
  Sending by DMA in \<^verbatim>\<open>components/drivers/serial/serial.c\<close>: the writer puts its buffer into the data queue of the
  device and starts a transfer if none is active, the interrupt at the end of a transfer takes its buffer out
  and starts the next. What \<^verbatim>\<open>Serial\<close> leaves to a parameter is here over the data queue and the kernel; the
  uart's operation that starts a transfer is \<open>send\<close>. A write has two pieces, the push and what follows it, and
  interrupts are enabled between them.
\<close>

section \<open>The driver\<close>

type_synonym 'h dma_state = "'h serial \<times> data_queue \<times> isys"

text \<open>\<^verbatim>\<open>rt_data_queue_init(&(tx_dma->data_queue), 8, 4, RT_NULL)\<close>, whose result is not looked at.\<close>

definition open_dma_tx :: "nat \<Rightarrow> data_item list option \<Rightarrow> isys \<Rightarrow> data_queue \<times> isys" where
  "open_dma_tx ob mem k = (case rt_data_queue_init ob mem 8 4 False k of (q, k, _) \<Rightarrow> (q, k))"

text \<open>What follows the push: the start of a transfer and the result of \<^verbatim>\<open>_serial_dma_tx\<close>, the length or 0; none while
  the writer waits for room.\<close>

definition dma_tx_pushed ::
  "(data_item \<Rightarrow> 'h \<Rightarrow> 'h) \<Rightarrow> data_item \<Rightarrow> outcome \<Rightarrow> 'h dma_state \<Rightarrow> ('h dma_state \<times> u32 option) res" where
  "dma_tx_pushed send item out = (\<lambda>(s, q, k).
     case out of Blocked \<Rightarrow> Inr ((s, q, k), None)
     | Returned e \<Rightarrow>
         if e \<noteq> RT_EOK then Inr ((s, q, k), Some 0)
         else (case serial_tx s of
             Some (Tx_dma active) \<Rightarrow>
               Inr (((if active then s else s\<lparr> serial_tx := Some (Tx_dma True), hw := send item (hw s) \<rparr>), q, k), Some (snd item))
           | _ \<Rightarrow> Inl Null_pointer))"

text \<open>A write that nothing comes between.\<close>

definition serial_dma_tx ::
  "(data_item \<Rightarrow> 'h \<Rightarrow> 'h) \<Rightarrow> nat \<Rightarrow> data_item \<Rightarrow> 'h dma_state \<Rightarrow> ('h dma_state \<times> u32 option) res" where
  "serial_dma_tx send ob item = (\<lambda>(s, q, k).
     if serial_tx s = None then Inl Null_pointer
     else rbind (rt_data_queue_push ob item (- 1) q k) (\<lambda>(q, k, ev, out). dma_tx_pushed send item out (s, q, k)))"

text \<open>The writer \<open>t\<close> has been woken.\<close>

definition serial_dma_tx_return ::
  "(data_item \<Rightarrow> 'h \<Rightarrow> 'h) \<Rightarrow> nat \<Rightarrow> data_item \<Rightarrow> nat \<Rightarrow> 'h dma_state \<Rightarrow> ('h dma_state \<times> u32 option) res" where
  "serial_dma_tx_return send ob item t = (\<lambda>(s, q, k).
     rbind (rt_data_queue_push_return ob item (- 1) t q k) (\<lambda>(q, k, ev, out). dma_tx_pushed send item out (s, q, k)))"

text \<open>\<^verbatim>\<open>RT_SERIAL_EVENT_TX_DMADONE\<close>; the result is the buffer for which \<^verbatim>\<open>tx_complete\<close> is called, if it is.\<close>

definition serial_tx_dmadone :: "(data_item \<Rightarrow> 'h \<Rightarrow> 'h) \<Rightarrow> nat \<Rightarrow> 'h dma_state \<Rightarrow> ('h dma_state \<times> data_item option) res" where
  "serial_tx_dmadone send ob = (\<lambda>(s, q, k).
     if serial_tx s = None then Inl Null_pointer
     else rbind (rt_data_queue_pop ob 0 q k) (\<lambda>(q, k, ev, last_item, out).
       rbind (rt_data_queue_peak q) (\<lambda>(next_item, e).
         let s = (case next_item of
               Some item \<Rightarrow> s\<lparr> serial_tx := Some (Tx_dma True), hw := send item (hw s) \<rparr>
             | None \<Rightarrow> s\<lparr> serial_tx := Some (Tx_dma False) \<rparr>)
         in Inr ((s, q, k), if tx_complete s \<noteq> None then last_item else None))))"

section \<open>Writers and transfers\<close>

text \<open>What writers, the ends of transfers and everything else in the kernel reach from an idle driver: the state, the
  buffers whose writers have pushed them and have not yet looked whether a transfer is active, and the buffers accepted so far. The
  hardware ends a transfer only while one is active. A writer that finds the queue full leaves it alone (lemma \<open>push_blocked\<close>) and is
  part of the rest of the kernel until it has been woken. With \<open>timely\<close>, writes come one at a time,
  and a writer looks before the transfer of its own buffer, the last of the queue, has ended.\<close>

inductive dma_reach ::
  "bool \<Rightarrow> (data_item \<Rightarrow> 'h \<Rightarrow> 'h) \<Rightarrow> nat \<Rightarrow> 'h \<Rightarrow> 'h dma_state \<Rightarrow> data_item list \<Rightarrow> data_item list \<Rightarrow> bool"
  for timely send ob h where
  Dma_start: "serial_tx s = Some (Tx_dma False) \<Longrightarrow> hw s = h \<Longrightarrow> open_dma_tx ob (Some items) k0 = (q, k) \<Longrightarrow>
     length items = 8 \<Longrightarrow> kinv k \<Longrightarrow> dma_reach timely send ob h (s, q, k) [] []"
| Dma_push: "dma_reach timely send ob h (s, q, k) pend acc \<Longrightarrow> timely \<longrightarrow> pend = [] \<Longrightarrow>
     rt_data_queue_push ob item (- 1) q k = Inr (q', k', ev, Returned RT_EOK) \<Longrightarrow>
     dma_reach timely send ob h (s, q', k') (pend @ [item]) (acc @ [item])"
| Dma_push_return: "dma_reach timely send ob h (s, q, k) pend acc \<Longrightarrow> timely \<longrightarrow> pend = [] \<Longrightarrow>
     rt_data_queue_push_return ob item (- 1) t q k = Inr (q', k', ev, Returned RT_EOK) \<Longrightarrow>
     dma_reach timely send ob h (s, q', k') (pend @ [item]) (acc @ [item])"
| Dma_look: "dma_reach timely send ob h (s, q, k) pend acc \<Longrightarrow> item \<in> set pend \<Longrightarrow>
     dma_tx_pushed send item (Returned RT_EOK) (s, q, k) = Inr (st', n) \<Longrightarrow>
     dma_reach timely send ob h st' (remove1 item pend) acc"
| Dma_done: "dma_reach timely send ob h (s, q, k) pend acc \<Longrightarrow> serial_tx s = Some (Tx_dma True) \<Longrightarrow>
     timely \<longrightarrow> pend = [] \<or> 2 \<le> length (dq_contents q) \<Longrightarrow>
     serial_tx_dmadone send ob (s, q, k) = Inr (st', c) \<Longrightarrow> dma_reach timely send ob h st' pend acc"
| Dma_kernel: "dma_reach timely send ob h (s, q, k) pend acc \<Longrightarrow> kinv k' \<Longrightarrow> dma_reach timely send ob h (s, q, k') pend acc"

lemma push_blocked: "rt_data_queue_push ob item timeout q k = Inr (q', k', ev, Blocked) \<Longrightarrow> q' = q \<and> ev = None"
  by (auto simp: rt_data_queue_push_def dq_push_loop_def rbind_eq_Inr rassert_eq_Inr with_caller_def split: if_splits option.splits)

text \<open>The first buffer of the queue is the one in transfer; while none is, only a buffer just pushed is in the queue.\<close>

definition dma_ok :: "(data_item \<Rightarrow> 'h \<Rightarrow> 'h) \<Rightarrow> 'h \<Rightarrow> 'h dma_state \<Rightarrow> data_item list \<Rightarrow> data_item list \<Rightarrow> bool" where
  "dma_ok send h st pend acc = (case st of (s, q, k) \<Rightarrow>
     kinv k \<and> dq_ok q \<and> dq_size q = 8 \<and> unat (dq_put q) = length acc \<and>
     (pend = [] \<or> (\<exists>x. pend = [x] \<and> dq_contents q \<noteq> [] \<and> last (dq_contents q) = x)) \<and>
     (\<exists>active sent. serial_tx s = Some (Tx_dma active) \<and> hw s = fold send sent h \<and>
        acc = sent @ (if active then tl (dq_contents q) else dq_contents q) \<and>
        (active \<longrightarrow> dq_contents q \<noteq> []) \<and> (\<not> active \<longrightarrow> dq_contents q = pend)))"

lemma dma_push_ok:
  assumes ok: "dma_ok send h (s, q, k) [] acc" and n: "length acc + 1 < 2 ^ 16"
    and r: "dq_push_loop ob item (- 1) self q k = Inr (q', k', ev, Returned RT_EOK)"
  shows "dma_ok send h (s, q', k') [item] (acc @ [item])"
proof -
  have k: "kinv k" "dq_ok q" "dq_size q = 8" and put: "unat (dq_put q) + 1 < 2 ^ 16" "unat (dq_put q) = length acc"
    using ok n by (simp_all add: dma_ok_def)
  have room: "length (dq_contents q) < unat (dq_size q)"
  proof (rule ccontr)
    assume "\<not> length (dq_contents q) < unat (dq_size q)"
    then have "dq_distance q = uint (dq_size q)" using k(2) dq_full_iff by (auto simp: dq_ok_def dq_contents_def)
    then show False using r by (auto simp: dq_push_loop_def rbind_eq_Inr rassert_eq_Inr with_caller_def split: option.splits)
  qed
  obtain q1 k1 ev1 where p: "dq_push_loop ob item (- 1) self q k = Inr (q1, k1, ev1, Returned RT_EOK)" "kinv k1" "dq_ok q1"
      "dq_contents q1 = dq_contents q @ [item]" "dq_size q1 = dq_size q" "unat (dq_put q1) = unat (dq_put q) + 1"
    by (rule dq_push_room [OF k(1,2) room put(1), where item = item and timeout = "- 1" and self = self]) (rule that)
  obtain active sent where s: "serial_tx s = Some (Tx_dma active)" "hw s = fold send sent h"
      "acc = sent @ (if active then tl (dq_contents q) else dq_contents q)" "active \<longrightarrow> dq_contents q \<noteq> []"
      "\<not> active \<longrightarrow> dq_contents q = []"
    using ok by (auto simp: dma_ok_def)
  have "q' = q1" "k' = k1" using r p(1) by simp_all
  then show ?thesis
    using p(2-6) k(3) put(2) s by (auto simp: dma_ok_def intro!: exI [of _ active] exI [of _ sent])
qed

lemma dma_look_ok:
  assumes ok: "dma_ok send h (s, q, k) pend acc" and i: "item \<in> set pend"
    and r: "dma_tx_pushed send item (Returned RT_EOK) (s, q, k) = Inr (st', n)"
  shows "dma_ok send h st' (remove1 item pend) acc"
proof -
  obtain active sent where s: "serial_tx s = Some (Tx_dma active)" "hw s = fold send sent h"
      "acc = sent @ (if active then tl (dq_contents q) else dq_contents q)" "active \<longrightarrow> dq_contents q \<noteq> []"
      "\<not> active \<longrightarrow> dq_contents q = pend"
    using ok by (auto simp: dma_ok_def)
  have p: "pend = [item]" "dq_contents q \<noteq> []" using ok i by (auto simp: dma_ok_def)
  show ?thesis
  proof (cases active)
    case True
    then have "st' = (s, q, k)" using r s(1) by (simp add: dma_tx_pushed_def)
    then show ?thesis using ok s p True by (auto simp: dma_ok_def)
  next
    case False
    then have "st' = (s\<lparr> serial_tx := Some (Tx_dma True), hw := send item (hw s) \<rparr>, q, k)"
      using r s(1) by (simp add: dma_tx_pushed_def)
    then show ?thesis using ok s p False by (auto simp: dma_ok_def intro!: exI [of _ "sent @ [item]"])
  qed
qed

text \<open>The end of a transfer does not fail, and starts the next one if there is one.\<close>

lemma dma_done_ok:
  assumes ok: "dma_ok send h (s, q, k) pend acc" and act: "serial_tx s = Some (Tx_dma True)"
  obtains st' c where "serial_tx_dmadone send ob (s, q, k) = Inr (st', c)"
    "pend = [] \<or> 2 \<le> length (dq_contents q) \<Longrightarrow> dma_ok send h st' pend acc"
proof -
  obtain sent where s: "kinv k" "dq_ok q" "dq_size q = 8" "unat (dq_put q) = length acc" "hw s = fold send sent h"
      "acc = sent @ tl (dq_contents q)" "dq_contents q \<noteq> []"
      "pend = [] \<or> (\<exists>x. pend = [x] \<and> last (dq_contents q) = x)"
    using ok act by (auto simp: dma_ok_def)
  then obtain y ys where y: "dq_contents q = y # ys" by (cases "dq_contents q") auto
  obtain q' k' ev where p: "rt_data_queue_pop ob 0 q k = Inr (q', k', ev, Some y, Returned RT_EOK)" "kinv k'" "dq_ok q'"
      "dq_contents q' = ys" "dq_size q' = dq_size q" "dq_put q' = dq_put q"
    by (rule dq_pop_some [OF s(1,2) y]) (rule that)
  show thesis
  proof (cases ys)
    case Nil
    then have "rt_data_queue_peak q' = Inr (None, - RT_EEMPTY)"
      using dq_empty_iff [OF p(3)] p(4) by (simp add: rt_data_queue_peak_def)
    then have "\<exists>c. serial_tx_dmadone send ob (s, q, k) = Inr ((s\<lparr> serial_tx := Some (Tx_dma False) \<rparr>, q', k'), c)"
      using act p(1) by (simp add: serial_tx_dmadone_def)
    then show ?thesis
    proof (elim exE)
      fix c assume r: "serial_tx_dmadone send ob (s, q, k) = Inr ((s\<lparr> serial_tx := Some (Tx_dma False) \<rparr>, q', k'), c)"
      show ?thesis by (rule that [OF r]) (use p s y Nil in \<open>auto simp: dma_ok_def intro!: exI [of _ sent]\<close>)
    qed
  next
    case (Cons z zs)
    then have "rt_data_queue_peak q' = Inr (Some z, RT_EOK)"
      using dq_empty_iff [OF p(3)] dq_load_ok(1) [OF p(3), of z zs] p(4) by (simp add: rt_data_queue_peak_def)
    then have "\<exists>c. serial_tx_dmadone send ob (s, q, k) = Inr ((s\<lparr> serial_tx := Some (Tx_dma True), hw := send z (hw s) \<rparr>, q', k'), c)"
      using act p(1) by (simp add: serial_tx_dmadone_def)
    then show ?thesis
    proof (elim exE)
      fix c assume r: "serial_tx_dmadone send ob (s, q, k) = Inr ((s\<lparr> serial_tx := Some (Tx_dma True), hw := send z (hw s) \<rparr>, q', k'), c)"
      show ?thesis by (rule that [OF r]) (use p s y Cons in \<open>auto simp: dma_ok_def intro!: exI [of _ "sent @ [z]"]\<close>)
    qed
  qed
qed

lemma dma_reach_ok: "dma_reach True send ob h st pend acc \<Longrightarrow> length acc < 2 ^ 16 \<Longrightarrow> dma_ok send h st pend acc"
proof (induction rule: dma_reach.induct)
  case (Dma_start s items k0 q k)
  then have "dq_ok q" "dq_contents q = []" "dq_size q = 8" "unat (dq_put q) = 0"
    by (auto simp: open_dma_tx_def rt_data_queue_init_def dq_ok_def dq_count_def dq_contents_def ring_view_def Let_def)
  then show ?case using Dma_start by (simp add: dma_ok_def exI [of _ False])
next
  case (Dma_push s q k pend acc item q' k' ev)
  then have "pend = []" "length acc < 2 ^ 16" "length acc + 1 < 2 ^ 16" by simp_all
  then show ?case using dma_push_ok [of send h s q k acc] Dma_push.IH Dma_push.hyps(3) by (simp add: rt_data_queue_push_def)
next
  case (Dma_push_return s q k pend acc item t q' k' ev)
  then have "pend = []" "length acc < 2 ^ 16" "length acc + 1 < 2 ^ 16" by simp_all
  then show ?case
    using dma_push_ok [of send h s q k acc] Dma_push_return.IH Dma_push_return.hyps(3)
    by (auto simp: rt_data_queue_push_return_def with_thread_def split: option.splits if_splits)
next
  case (Dma_look s q k pend acc item st' n)
  show ?case by (rule dma_look_ok [OF Dma_look.IH [OF Dma_look.prems] Dma_look.hyps(2,3)])
next
  case (Dma_done s q k pend acc st' c)
  obtain st1 c1 where "serial_tx_dmadone send ob (s, q, k) = Inr (st1, c1)"
      "pend = [] \<or> 2 \<le> length (dq_contents q) \<Longrightarrow> dma_ok send h st1 pend acc"
    using dma_done_ok [OF Dma_done.IH Dma_done.hyps(2)] Dma_done.prems by metis
  then show ?case using Dma_done.hyps(3,4) by simp
next
  case (Dma_kernel s q k pend acc k')
  then show ?case by (simp add: dma_ok_def)
qed

text \<open>A write that nothing comes between is a push and a look, at once or after the writer has waited.\<close>

lemma serial_dma_tx_steps:
  assumes "dma_reach timely send ob h (s, q, k) [] acc" and "rt_data_queue_push ob item (- 1) q k = Inr (q', k', ev, Returned RT_EOK)"
    and "serial_dma_tx send ob item (s, q, k) = Inr (st', n)"
  shows "dma_reach timely send ob h st' [] (acc @ [item])"
proof -
  have "dma_reach timely send ob h (s, q', k') [item] (acc @ [item])" using Dma_push [OF assms(1) _ assms(2)] by simp
  moreover have "dma_tx_pushed send item (Returned RT_EOK) (s, q', k') = Inr (st', n)"
    using assms(2,3) by (simp add: serial_dma_tx_def split: if_splits)
  ultimately show ?thesis using Dma_look [of timely send ob h s q' k' "[item]" "acc @ [item]" item] by simp
qed

lemma serial_dma_tx_return_steps:
  assumes "dma_reach timely send ob h (s, q, k) [] acc"
    and "rt_data_queue_push_return ob item (- 1) t q k = Inr (q', k', ev, Returned RT_EOK)"
    and "serial_dma_tx_return send ob item t (s, q, k) = Inr (st', n)"
  shows "dma_reach timely send ob h st' [] (acc @ [item])"
proof -
  have "dma_reach timely send ob h (s, q', k') [item] (acc @ [item])" using Dma_push_return [OF assms(1) _ assms(2)] by simp
  moreover have "dma_tx_pushed send item (Returned RT_EOK) (s, q', k') = Inr (st', n)"
    using assms(2,3) by (simp add: serial_dma_tx_return_def)
  ultimately show ?thesis using Dma_look [of timely send ob h s q' k' "[item]" "acc @ [item]" item] by simp
qed

section \<open>Property\<close>

text \<open>C28: Sending by DMA transmits every buffer once, in the order of the writes, as long as writes come one at a time, a writer
  looks whether a transfer is active before the transfer of its own buffer has ended, and fewer than 65536 buffers have
  been written. In every state that is reached that way from an idle driver, what the hardware was given to transmit is the sequence of the
  buffers accepted so far without those that still wait; between writes a transfer is active exactly when the queue is not
  empty, so that none is left waiting while the hardware is idle; when the queue is empty everything accepted has been
  transmitted; the end of a transfer is handled without a fault; and while fewer than 8 buffers are in the queue a whole write
  returns the length of its buffer, which has then been accepted, in such a state again.\<close>

theorem serial_dma_sends_in_order:
  assumes "dma_reach True send ob h (s, q, k) pend acc" and "length acc < 2 ^ 16"
  shows "\<exists>active sent. serial_tx s = Some (Tx_dma active) \<and> hw s = fold send sent h \<and>
    acc = sent @ (if active then tl (dq_contents q) else dq_contents q) \<and>
    (pend = [] \<longrightarrow> active = (dq_contents q \<noteq> [])) \<and> (dq_contents q = [] \<longrightarrow> hw s = fold send acc h) \<and>
    (active \<longrightarrow> (\<exists>st' c. serial_tx_dmadone send ob (s, q, k) = Inr (st', c))) \<and>
    (pend = [] \<longrightarrow> length (dq_contents q) < 8 \<longrightarrow> length acc + 1 < 2 ^ 16 \<longrightarrow>
       (\<exists>st'. serial_dma_tx send ob item (s, q, k) = Inr (st', Some (snd item)) \<and>
         dma_reach True send ob h st' [] (acc @ [item])))"
proof -
  have ok: "dma_ok send h (s, q, k) pend acc" by (rule dma_reach_ok [OF assms])
  then obtain active sent where a: "kinv k" "dq_ok q" "dq_size q = 8" "unat (dq_put q) = length acc"
      "serial_tx s = Some (Tx_dma active)" "hw s = fold send sent h"
      "acc = sent @ (if active then tl (dq_contents q) else dq_contents q)" "active \<longrightarrow> dq_contents q \<noteq> []"
      "\<not> active \<longrightarrow> dq_contents q = pend"
    by (auto simp: dma_ok_def)
  have "\<exists>st' c. serial_tx_dmadone send ob (s, q, k) = Inr (st', c)" if active
    using dma_done_ok [OF ok, of ob] a(5) that by metis
  moreover have "\<exists>st'. serial_dma_tx send ob item (s, q, k) = Inr (st', Some (snd item)) \<and> dma_reach True send ob h st' [] (acc @ [item])"
    if "pend = []" "length (dq_contents q) < 8" "length acc + 1 < 2 ^ 16"
  proof -
    have "length (dq_contents q) < unat (dq_size q)" "unat (dq_put q) + 1 < 2 ^ 16" using a(3,4) that by simp_all
    then obtain q' k' ev where "rt_data_queue_push ob item (- 1) q k = Inr (q', k', ev, Returned RT_EOK)"
      by (rule dq_push_room [OF a(1,2)]) (rule that)
    note push = this
    then obtain st' where st': "serial_dma_tx send ob item (s, q, k) = Inr (st', Some (snd item))"
      using a(5) by (auto simp: serial_dma_tx_def dma_tx_pushed_def)
    show ?thesis using st' serial_dma_tx_steps [OF assms(1) [unfolded that(1)] push st'] by blast
  qed
  ultimately show ?thesis using a(5-9) by (intro exI [of _ active] exI [of _ sent]) auto
qed

definition sample_dma :: "bool \<Rightarrow> data_item list \<Rightarrow> data_item list serial" where
  "sample_dma active h = \<lparr> dev_flag = 0, dev_open_flag = RT_DEVICE_FLAG_DMA_TX, dev_ref_count = 1, rx_indicate = None, tx_complete = None,
     config = \<lparr> baud_rate = 9600, data_bits = 8, stop_bits = 0, parity = 0, bit_order = 0, invert = 0, bufsz = 4 \<rparr>,
     serial_rx = None, serial_tx = Some (Tx_dma active), hw = h \<rparr>"

definition sample_queue :: "u16 \<Rightarrow> u16 \<Rightarrow> data_item list \<Rightarrow> data_queue" where
  "sample_queue get put items = \<lparr> dq_size = 8, dq_lwm = 4, dq_get = get, dq_put = put, dq_items = items @ replicate (8 - length items) (0, 0),
     dq_notify = False \<rparr>"

text \<open>A kernel in which nobody waits for the queue.\<close>

definition sample_kernel :: isys where
  "sample_kernel = sample_ipc (\<lambda>_. None)"

lemma sample_kernel_ok: "kinv sample_kernel" "queues sample_kernel (Waiting 7) = []" "queues sample_kernel (Senders 7) = []"
  unfolding sample_kernel_def by (rule sample_kinv_ipc) (simp_all add: sample_ipc_def)

lemma sample_start: "dma_reach timely (\<lambda>i h. h @ [i]) 7 [] (sample_dma False [], sample_queue 0 0 [], sample_kernel) [] []"
proof (rule Dma_start [OF _ _ _ _ sample_kernel_ok(1)])
  have "(queues sample_kernel)(Waiting 7 := [], Senders 7 := []) = queues sample_kernel" using sample_kernel_ok(2,3) by auto
  then show "open_dma_tx 7 (Some (replicate 8 (0, 0))) sample_kernel = (sample_queue 0 0 [], sample_kernel)"
    by (simp add: open_dma_tx_def rt_data_queue_init_def sample_queue_def Let_def)
qed (simp_all add: sample_dma_def)

lemma sample_push:
  "rt_data_queue_push 7 a (- 1) (sample_queue 0 0 []) sample_kernel = Inr (sample_queue 0 1 [a], sample_kernel, None, Returned RT_EOK)"
  "rt_data_queue_push 7 b (- 1) (sample_queue 0 1 [a]) sample_kernel = Inr (sample_queue 0 2 [a, b], sample_kernel, None, Returned RT_EOK)"
proof -
  have r: "replicate 8 (0 :: u32, 0 :: u32) = (0, 0) # replicate 7 (0, 0)" "replicate 7 (0 :: u32, 0 :: u32) = (0, 0) # replicate 6 (0, 0)"
    by (simp_all add: eval_nat_numeral)
  show "rt_data_queue_push 7 a (- 1) (sample_queue 0 0 []) sample_kernel = Inr (sample_queue 0 1 [a], sample_kernel, None, Returned RT_EOK)"
    by (simp add: rt_data_queue_push_def dq_push_loop_def dq_distance_def dq_store_def sample_queue_def sample_kernel_ok dq_notified_def r(1) Let_def)
  show "rt_data_queue_push 7 b (- 1) (sample_queue 0 1 [a]) sample_kernel = Inr (sample_queue 0 2 [a, b], sample_kernel, None, Returned RT_EOK)"
    by (simp add: rt_data_queue_push_def dq_push_loop_def dq_distance_def dq_store_def sample_queue_def sample_kernel_ok dq_notified_def r(2) Let_def)
qed

lemma sample_contents: "dq_contents (sample_queue 0 1 [a]) = [a]" "dq_contents (sample_queue 0 2 [a, b]) = [a, b]" "dq_contents (sample_queue 2 2 l) = []"
  by (simp_all add: dq_contents_def sample_queue_def dq_count_def ring_view_def upt_rec)

lemma serial_dma_sends_in_order_witness:
  "dma_reach True (\<lambda>i h. h @ [i]) 7 [] (sample_dma True [(5, 3)], sample_queue 0 2 [(5, 3), (6, 2)], sample_kernel) [(6, 2)] [(5, 3), (6, 2)] \<and>
   (\<exists>sent. hw (sample_dma True [(5, 3)]) = fold (\<lambda>i h. h @ [i]) sent [] \<and> [(5, 3), (6, 2)] = sent @ [(6, 2)])"
proof -
  have 1: "dma_reach True (\<lambda>i h. h @ [i]) 7 [] (sample_dma False [], sample_queue 0 1 [(5, 3)], sample_kernel) [(5, 3)] [(5, 3)]"
    using Dma_push [OF sample_start [of True] _ sample_push(1) [of "(5, 3)"]] by simp
  have 2: "dma_reach True (\<lambda>i h. h @ [i]) 7 [] (sample_dma True [(5, 3)], sample_queue 0 1 [(5, 3)], sample_kernel) [] [(5, 3)]"
    using Dma_look [OF 1, of "(5, 3)" "(sample_dma True [(5, 3)], sample_queue 0 1 [(5, 3)], sample_kernel)" "Some 3"]
    by (simp add: dma_tx_pushed_def sample_dma_def)
  have 3: "dma_reach True (\<lambda>i h. h @ [i]) 7 [] (sample_dma True [(5, 3)], sample_queue 0 2 [(5, 3), (6, 2)], sample_kernel) [(6, 2)] [(5, 3), (6, 2)]"
    using Dma_push [OF 2 _ sample_push(2) [of "(6, 2)" "(5, 3)"]] by simp
  show ?thesis
    using serial_dma_sends_in_order [OF 3] 3 unfolding sample_contents by (auto simp: sample_dma_def)
qed

text \<open>Two writers at the same time: the second finds the driver idle before the first has looked and starts its own buffer, although the
  buffer of the first is in front of it in the queue. In the end both buffers were accepted and nothing waits, but the
  hardware was given the second buffer twice and the first never.\<close>

lemma serial_dma_race:
  "\<exists>q. dma_reach False (\<lambda>i h. h @ [i]) 7 [] (sample_dma False [b, b], q, sample_kernel) [] [a, b] \<and> dq_contents q = []"
proof -
  let ?r = "dma_reach False (\<lambda>i h. h @ [i]) 7 ([] :: data_item list)"
  have 1: "?r (sample_dma False [], sample_queue 0 1 [a], sample_kernel) [a] [a]"
    using Dma_push [OF sample_start [of False] _ sample_push(1) [of a]] by simp
  have 2: "?r (sample_dma False [], sample_queue 0 2 [a, b], sample_kernel) [a, b] [a, b]"
    using Dma_push [OF 1 _ sample_push(2) [of b a]] by simp
  have look: "dma_tx_pushed (\<lambda>i h. h @ [i]) b (Returned RT_EOK) (sample_dma False [], q, k) = Inr ((sample_dma True [b], q, k), Some (snd b))"
    "dma_tx_pushed (\<lambda>i h. h @ [i]) i (Returned RT_EOK) (sample_dma True l, q, k) = Inr ((sample_dma True l, q, k), Some (snd i))"
    for i l q k by (simp_all add: dma_tx_pushed_def sample_dma_def)
  have 3: "?r (sample_dma True [b], sample_queue 0 2 [a, b], sample_kernel) (remove1 b [a, b]) [a, b]"
    by (rule Dma_look [OF 2 _ look(1)]) simp
  have 4: "?r (sample_dma True [b], sample_queue 0 2 [a, b], sample_kernel) [] [a, b]"
  proof (cases "a = b")
    case True
    then show ?thesis using Dma_look [OF 3 _ look(2), of b] by simp
  next
    case False
    then show ?thesis using Dma_look [OF 3 _ look(2), of a] by simp
  qed
  have pop: "rt_data_queue_pop 7 0 (sample_queue 0 2 [a, b]) sample_kernel = Inr (sample_queue 1 2 [a, b], sample_kernel, None, Some a, Returned RT_EOK)"
    "rt_data_queue_pop 7 0 (sample_queue 1 2 [a, b]) sample_kernel = Inr (sample_queue 2 2 [a, b], sample_kernel, None, Some b, Returned RT_EOK)"
    "rt_data_queue_peak (sample_queue 1 2 [a, b]) = Inr (Some b, RT_EOK)" "rt_data_queue_peak (sample_queue 2 2 [a, b]) = Inr (None, - RT_EEMPTY)"
    by (simp_all add: rt_data_queue_pop_def dq_pop_loop_def rt_data_queue_peak_def dq_load_def sample_queue_def dq_distance_def wake_first_def
        sample_kernel_ok dq_notified_def Let_def)
  have fin: "serial_tx_dmadone (\<lambda>i h. h @ [i]) 7 (sample_dma True [b], sample_queue 0 2 [a, b], sample_kernel) =
      Inr ((sample_dma True [b, b], sample_queue 1 2 [a, b], sample_kernel), None)"
    "serial_tx_dmadone (\<lambda>i h. h @ [i]) 7 (sample_dma True [b, b], sample_queue 1 2 [a, b], sample_kernel) =
      Inr ((sample_dma False [b, b], sample_queue 2 2 [a, b], sample_kernel), None)"
    by (simp_all add: serial_tx_dmadone_def pop) (simp_all add: sample_dma_def)
  have active: "serial_tx (sample_dma True l) = Some (Tx_dma True)" for l by (simp add: sample_dma_def)
  have 5: "?r (sample_dma True [b, b], sample_queue 1 2 [a, b], sample_kernel) [] [a, b]"
    by (rule Dma_done [OF 4 active _ fin(1)]) simp
  have "?r (sample_dma False [b, b], sample_queue 2 2 [a, b], sample_kernel) [] [a, b]"
    by (rule Dma_done [OF 5 active _ fin(2)]) simp
  then show ?thesis using sample_contents(3) by blast
qed

end
