(* ===== verification/AlphaLink.thy ===== *)
theory AlphaLink
  imports AlphaFramer SerialDev MsgQueue
begin

text \<open>
  The receive path of the alpha module as a whole: the interrupt of uart3, its FIFO, the semaphore that the interrupt
  releases, the receive thread of \<^verbatim>\<open>alpha_handler.c\<close>, and the message queue from which the parser takes the payloads.
  The parts are the models of the other theories; here they run interleaved with the rest of the system.
\<close>

section \<open>Initialisation\<close>

definition uart3_config :: serial_configure where
  "uart3_config = \<lparr> baud_rate = 9600, data_bits = 8, stop_bits = 0, parity = 0, bit_order = 0, invert = 0, bufsz = 64 \<rparr>"

text \<open>\<^verbatim>\<open>dev_uart3_init\<close>: the device is what \<^verbatim>\<open>rt_device_find\<close> gives; \<open>asem\<close>, \<open>amq\<close> and \<open>pool\<close> what the allocations give,
  \<open>input\<close> is the address of \<^verbatim>\<open>uart_input\<close>. The results of the calls are not looked at.\<close>

definition dev_uart3_init ::
  "('h serial, serial_cmd, u32 option) driver \<Rightarrow> u32 \<Rightarrow> nat option \<Rightarrow> nat option \<Rightarrow> bytes list option \<Rightarrow> 'h serial option \<Rightarrow> isys \<Rightarrow>
     ('h serial \<times> isys \<times> nat option \<times> nat option) res" where
  "dev_uart3_init drv input asem amq pool dev k =
     rbind (rt_sem_create asem 0 0 k) (\<lambda>(k, sem).
     rbind (rt_mq_create amq pool 128 20 0 k) (\<lambda>(k, mq).
     case dev of None \<Rightarrow> Inl Assert_failed
     | Some d \<Rightarrow>
         rbind (rt_device_control drv None (Ctrl_config (Some uart3_config)) d) (\<lambda>(_, _, d).
         rbind (rt_device_open drv RT_DEVICE_FLAG_INT_RX d) (\<lambda>(_, d).
         Inr (fst (rt_device_set_rx_indicate (Some input) d), k, sem, mq)))))"

text \<open>\<^verbatim>\<open>uart_input\<close>, the callback of the receive interrupt.\<close>

definition uart_input :: "nat \<Rightarrow> u32 \<Rightarrow> isys \<Rightarrow> (isys \<times> rt_err) res" where
  "uart_input sem len k = rbind (rt_sem_release sem k) (\<lambda>(k, _). Inr (k, RT_EOK))"

text \<open>What \<^verbatim>\<open>parsing_rx_alpha_data\<close> does with a received buffer: whether it reports that the chip is alive. It looks at the
  second byte, which a payload of one byte does not have: it is then what the slot of the queue held before.\<close>

definition parsing_rx_alpha_data :: "bytes \<Rightarrow> bool res" where
  "parsing_rx_alpha_data buff = rbind (load8 buff 1) (\<lambda>b. Inr (b = ALPHA_ALIVE_ACCESS))"

section \<open>The command shell\<close>

text \<open>\<^verbatim>\<open>alpha_cmd_test\<close>: the arguments are joined in an array on the stack, each with its terminating zero, and a line end.\<close>

fun cmd_copy :: "bytes \<Rightarrow> bytes \<Rightarrow> u8 \<Rightarrow> (bytes \<times> u8) res" where
  "cmd_copy [] buf i = rbind (store8 buf (unat i) 0) (\<lambda>buf. Inr (buf, i + 1))"
| "cmd_copy (c # cs) buf i = rbind (store8 buf (unat i) c) (\<lambda>buf. cmd_copy cs buf (i + 1))"

fun cmd_args :: "bytes list \<Rightarrow> bytes \<Rightarrow> u8 \<Rightarrow> (bytes \<times> u8) res" where
  "cmd_args [] buf i = Inr (buf, i)"
| "cmd_args (a # as) buf i = rbind (cmd_copy a buf i) (\<lambda>(buf, i). cmd_args as buf i)"

definition alpha_cmd_test ::
  "('h serial, serial_cmd, u32 option) driver \<Rightarrow> bytes list \<Rightarrow> bytes \<Rightarrow> 'h serial \<Rightarrow> (rt_err option \<times> nat \<times> 'h serial) res option" where
  "alpha_cmd_test drv args junk d =
     (case rbind (cmd_args args junk 0) (\<lambda>(buf, i). rbind (store8 buf (unat i) 13) (\<lambda>buf.
        rbind (store8 buf (unat (i + 1)) 10) (\<lambda>buf. Inr (take (unat (i + 2)) buf)))) of
        Inl e \<Rightarrow> Some (Inl e)
      | Inr bs \<Rightarrow> rt_device_write drv bs d)"

lemma cmd_copy_ok:
  "length buf = 128 \<Longrightarrow> unat i + length cs < 128 \<Longrightarrow>
   \<exists>buf'. cmd_copy cs buf i = Inr (buf', i + of_nat (length cs) + 1) \<and> length buf' = 128 \<and>
     take (unat i + length cs + 1) buf' = take (unat i) buf @ cs @ [0]"
proof (induction cs arbitrary: buf i)
  case Nil
  then show ?case by (simp add: take_Suc_conv_app_nth)
next
  case (Cons c cs)
  have i: "unat (i + 1) = unat i + 1" using Cons.prems by (simp add: unat_word_ariths)
  obtain buf' where b: "cmd_copy cs (buf[unat i := c]) (i + 1) = Inr (buf', i + 1 + of_nat (length cs) + 1)" "length buf' = 128"
      "take (unat (i + 1) + length cs + 1) buf' = take (unat (i + 1)) (buf[unat i := c]) @ cs @ [0]"
    using Cons.IH [of "buf[unat i := c]" "i + 1"] Cons.prems i by auto
  have "take (unat i + 1) (buf[unat i := c]) = take (unat i) buf @ [c]"
    using Cons.prems by (simp add: take_Suc_conv_app_nth)
  then show ?case using b Cons.prems i by (simp add: algebra_simps)
qed

lemma cmd_args_ok:
  "length buf = 128 \<Longrightarrow> unat i + length (concat (map (\<lambda>a. a @ [0 :: u8]) as)) \<le> 128 \<Longrightarrow>
   \<exists>buf' j. cmd_args as buf i = Inr (buf', j) \<and> length buf' = 128 \<and> unat j = unat i + length (concat (map (\<lambda>a. a @ [0 :: u8]) as)) \<and>
     take (unat j) buf' = take (unat i) buf @ concat (map (\<lambda>a. a @ [0]) as)"
proof (induction as arbitrary: buf i)
  case (Cons a as)
  obtain b1 where b1: "cmd_copy a buf i = Inr (b1, i + of_nat (length a) + 1)" "length b1 = 128"
      "take (unat i + length a + 1) b1 = take (unat i) buf @ a @ [0]"
    using cmd_copy_ok [of buf i a] Cons.prems by auto
  have n: "unat i + length a + 1 \<le> 128" using Cons.prems(2) by simp
  have j: "unat (i + of_nat (length a) + 1) = unat i + length a + 1" using n by (simp add: unat_word_ariths unat_of_nat)
  show ?case using Cons.IH [of b1 "i + of_nat (length a) + 1"] b1 Cons.prems(2) j by (auto simp: add.assoc)
qed simp

text \<open>The zeros between the arguments are sent, too.\<close>

lemma alpha_cmd_test_sends:
  assumes b: "length junk = 128" and n: "length (concat (map (\<lambda>a. a @ [0 :: u8]) args)) \<le> 126"
  shows "alpha_cmd_test drv args junk d = rt_device_write drv (concat (map (\<lambda>a. a @ [0]) args) @ [13, 10]) d"
proof -
  define t where "t = concat (map (\<lambda>a. a @ [0 :: u8]) args)"
  obtain buf i where r: "cmd_args args junk 0 = Inr (buf, i)" "length buf = 128" "unat i = length t" "take (unat i) buf = t"
    using cmd_args_ok [of junk 0 args] b n by (auto simp: t_def)
  have i: "unat (i + 1) = length t + 1" "unat (i + 2) = length t + 2" using r(3) n by (simp_all add: unat_word_ariths t_def)
  let ?b = "(buf[length t := 13])[length t + 1 := 10]"
  have "take (length t + 2) ?b = take (length t) ?b @ [?b ! length t, ?b ! (length t + 1)]"
    using r(2) n by (simp add: take_Suc_conv_app_nth t_def)
  also have "\<dots> = t @ [13, 10]" using r n by (simp add: t_def)
  finally have "take (length t + 2) ?b = t @ [13, 10]" .
  then show ?thesis using r i n by (simp add: alpha_cmd_test_def t_def)
qed

section \<open>Steps\<close>

text \<open>Where the receive thread is: about to read a byte, about to take the semaphore after a read that gave nothing,
  or inside \<^verbatim>\<open>rt_sem_take\<close>.\<close>

datatype rx_pc = Reading | Taking | Sleeping

text \<open>The last six fields are a history: the bytes that the interrupts took from the hardware, whether the FIFO ever
  overflowed, the bytes the thread has read, the payloads it gave to \<^verbatim>\<open>rt_mq_send\<close>, those that were accepted, and the
  buffers that the parser received.\<close>

record 'h link =
  uart :: "'h serial"
  kern :: isys
  rx_state :: framer
  rx_pc :: rx_pc
  arrived :: bytes
  overrun :: bool
  taken :: bytes
  posted :: "bytes list"
  accepted :: "bytes list"
  consumed :: "bytes list"

text \<open>What is assumed of a step of the rest of the system, of another thread, a tick or another interrupt: it keeps the
  kernel's invariant, leaves the semaphore and the message queue of the receive path alone, and neither stops the
  receive thread nor sets its error.\<close>

definition elsewhere :: "nat \<Rightarrow> nat \<Rightarrow> nat \<Rightarrow> isys \<Rightarrow> isys \<Rightarrow> bool" where
  "elsewhere sem mq rd k k' \<longleftrightarrow> kinv k' \<and> ipcs k' sem = ipcs k sem \<and> ipcs k' mq = ipcs k mq \<and>
     queues k' (Waiting sem) = queues k (Waiting sem) \<and> kept_at k k' rd"

definition waiting_bytes :: "'h serial \<Rightarrow> bytes" where
  "waiting_bytes d = (case serial_rx d of Some (Rx_fifo f) \<Rightarrow> fifo_contents (bufsz (config d)) f | _ \<Rightarrow> [])"

definition sem_value :: "nat \<Rightarrow> isys \<Rightarrow> u16" where
  "sem_value sem k = (case ipcs k sem of Some (Semaphore p v) \<Rightarrow> v | _ \<Rightarrow> 0)"

text \<open>The receive thread takes a step only while it is the running thread and no interrupt is served. The interrupt may
  come between any two of its steps. The premise on the semaphore excludes that its 16-bit value wraps to 0.\<close>

inductive link_step :: "'h uart_ops \<Rightarrow> nat \<Rightarrow> nat \<Rightarrow> nat \<Rightarrow> 'h link \<Rightarrow> 'h link \<Rightarrow> bool"
  for ops sem mq rd where
  interrupt: "uart_gives ops h cs h' \<Longrightarrow> sem_value sem (kern l) \<noteq> - 1 \<Longrightarrow>
    rt_hw_serial_isr ops (\<lambda>s. s) Event_rx_ind ((uart l)\<lparr> hw := h \<rparr>) = Some (Inr (note, d)) \<Longrightarrow>
    (case note of None \<Rightarrow> Inr (kern l, RT_EOK) | Some len \<Rightarrow> uart_input sem len (kern l)) = Inr (k, e) \<Longrightarrow>
    link_step ops sem mq rd l (l\<lparr> uart := d, kern := k, arrived := arrived l @ cs,
      overrun := overrun l \<or> unat (bufsz (config (uart l))) - 1 < length (waiting_bytes (uart l)) + length cs \<rparr>)"
| read: "rx_pc l = Reading \<Longrightarrow> caller (kern l) rd \<Longrightarrow> serial_read ops 1 (uart l) = Inr ([ch], d) \<Longrightarrow>
    framer_byte ch (rx_state l) = Inr (r, None) \<Longrightarrow>
    link_step ops sem mq rd l (l\<lparr> uart := d, rx_state := r, taken := taken l @ [ch] \<rparr>)"
| post: "rx_pc l = Reading \<Longrightarrow> caller (kern l) rd \<Longrightarrow> serial_read ops 1 (uart l) = Inr ([ch], d) \<Longrightarrow>
    framer_byte ch (rx_state l) = Inr (r, Some p) \<Longrightarrow>
    rt_mq_send mq p (of_nat (length p)) (kern l) = Inr (k, Returned e) \<Longrightarrow>
    link_step ops sem mq rd l (l\<lparr> uart := d, kern := k, rx_state := r, taken := taken l @ [ch], posted := posted l @ [p],
      accepted := accepted l @ (if e = RT_EOK then [p] else []) \<rparr>)"
| empty: "rx_pc l = Reading \<Longrightarrow> caller (kern l) rd \<Longrightarrow> serial_read ops 1 (uart l) = Inr ([], d) \<Longrightarrow>
    link_step ops sem mq rd l (l\<lparr> uart := d, rx_pc := Taking \<rparr>)"
| take: "rx_pc l = Taking \<Longrightarrow> caller (kern l) rd \<Longrightarrow> rt_sem_take sem (- 1) (kern l) = Inr (k, out) \<Longrightarrow>
    link_step ops sem mq rd l (l\<lparr> kern := k, rx_pc := (if out = Blocked then Sleeping else Reading) \<rparr>)"
| wake: "rx_pc l = Sleeping \<Longrightarrow> caller (kern l) rd \<Longrightarrow> rt_sem_take_return rd (kern l) = Inr (k, Returned e) \<Longrightarrow>
    link_step ops sem mq rd l (l\<lparr> kern := k, rx_pc := Reading \<rparr>)"
| parse: "mq_recv_loop mq 128 timeout self (kern l) = Inr (k, Some b, Returned RT_EOK) \<Longrightarrow>
    link_step ops sem mq rd l (l\<lparr> kern := k, consumed := consumed l @ [b] \<rparr>)"
| other: "elsewhere sem mq rd (kern l) k \<Longrightarrow> link_step ops sem mq rd l (l\<lparr> kern := k \<rparr>)"

section \<open>What the kernel operations leave alone\<close>

lemma wake_first_kept:
  assumes k: "kinv s" and q: "waiting_queue q" and r: "wake_first q s = Inr s'"
  shows "kinv s' \<and> ipcs s' = ipcs s \<and> (\<forall>q'. q' \<noteq> q \<longrightarrow> (\<forall>i. q' \<noteq> Ready i) \<longrightarrow> queues s' q' = queues s q') \<and>
    (\<forall>t. t \<notin> set (queues s q) \<longrightarrow> kept_at s s' t)"
proof (cases "queues s q")
  case Nil
  then show ?thesis using k r by (auto simp: wake_first_def kept_at_eq)
next
  case (Cons w ws)
  have inv: "sys_inv s" and c: "current_thread s \<noteq> None" using k by (simp_all add: kinv_def)
  obtain s1 s2 where s2: "rt_ipc_list_resume q s = Inr s1" "rt_schedule s1 = Inr s2" "sys_inv s2" "quiet s s2"
      "\<And>q'. q' \<noteq> q \<Longrightarrow> \<forall>i. q' \<noteq> Ready i \<Longrightarrow> queues s2 q' = queues s q'" "\<And>t. t \<noteq> w \<Longrightarrow> kept_at s s2 t" "ipcs s2 = ipcs s"
    by (rule wake_schedule_ok [OF inv c q Cons]) (rule that)
  have "s' = s2" using r Cons s2(1,2) by (simp add: wake_first_def)
  then show ?thesis using kinv_quiet [OF k s2(3,4)] s2(5-7) Cons by auto
qed

text \<open>An operation on object \<open>ob\<close> that wakes at most threads that wait for it.\<close>

definition only_touches :: "nat \<Rightarrow> isys \<Rightarrow> isys \<Rightarrow> bool" where
  "only_touches ob s s' \<longleftrightarrow> (\<forall>ob'. ob' \<noteq> ob \<longrightarrow> ipcs s' ob' = ipcs s ob' \<and> queues s' (Waiting ob') = queues s (Waiting ob')) \<and>
     (\<forall>t. t \<notin> set (queues s (Waiting ob)) \<and> t \<notin> set (queues s (Senders ob)) \<longrightarrow> kept_at s s' t)"

lemma only_touches_refl [simp]: "only_touches ob s s"
  by (simp add: only_touches_def kept_at_eq)

lemma set_wake_touches:
  assumes k: "kinv s" and q: "q = Waiting ob \<or> q = Senders ob" and r: "wake_first q (set_ipc ob x s) = Inr s'"
  shows "only_touches ob s s'"
proof -
  have k1: "kinv (set_ipc ob x s)" using k by simp
  have wq: "waiting_queue q" using q by auto
  note w = wake_first_kept [OF k1 wq r]
  have "kept_at s s' t" if "t \<notin> set (queues s q)" for t
    using w that by (auto simp: kept_at_def)
  then show ?thesis using w q by (auto simp: only_touches_def)
qed

lemma mq_send_touches:
  assumes k: "kinv s" and r: "rt_mq_send mq b sz s = Inr (s', out)"
  shows "only_touches mq s s'"
proof -
  obtain p m where m: "ipcs s mq = Some (Messagequeue p m)" using r
    by (auto simp: rt_mq_send_def rt_mq_send_wait_def with_mq_def split: option.splits ipc_object.splits)
  show ?thesis
  proof (cases "mq_free m")
    case None
    then show ?thesis using r m by (auto simp: rt_mq_send_def rt_mq_send_wait_def with_mq_def rassert_eq_Inr split: if_splits)
  next
    case (Some i)
    then have "s' = s \<or> (\<exists>x. wake_first (Waiting mq) (set_ipc mq x s) = Inr s')"
      using r m by (auto simp: rt_mq_send_def rt_mq_send_wait_def mq_send_loop_def with_mq_def rassert_eq_Inr rbind_eq_Inr
          mq_grab_def split: if_splits)
    then show ?thesis using set_wake_touches [OF k] by auto
  qed
qed

lemma mq_recv_touches:
  assumes k: "kinv s" and r: "mq_recv_loop mq sz timeout self s = Inr (s', Some b, out)"
  shows "only_touches mq s s'"
proof -
  have "\<exists>x. wake_first (Senders mq) (set_ipc mq x s) = Inr s'"
    using r by (auto simp: mq_recv_loop_def with_mq_def with_caller_def rassert_eq_Inr rbind_eq_Inr Let_def
        split: if_splits option.splits ipc_object.splits)
  then show ?thesis using set_wake_touches [OF k] by auto
qed

lemma kept_at_runnable: "runnable s t \<Longrightarrow> kept_at s s' t \<Longrightarrow> runnable s' t"
  unfolding kept_at_def kept_def runnable_def by (fastforce split: option.splits)

lemma kept_at_error:
  "threads s t = Some u \<Longrightarrow> kept_at s s' t \<Longrightarrow> \<exists>u'. threads s' t = Some u' \<and> th_error u' = th_error u"
  unfolding kept_at_def kept_def by blast

lemma runnable_waits_nowhere:
  assumes k: "kinv s" and r: "runnable s t" and q: "waiting_queue q"
  shows "t \<notin> set (queues s q)"
proof
  assume t: "t \<in> set (queues s q)"
  have inv: "sys_inv s" using k by (simp add: kinv_def)
  obtain th where "threads s t = Some th" "stat_of th = RT_THREAD_SUSPEND" by (rule waiter_suspended [OF inv q t]) (rule that)
  then show False using r by (simp add: runnable_def)
qed

lemma caller_runnable: "caller s c \<Longrightarrow> runnable s c"
  by (auto simp: caller_def runnable_def)

section \<open>The invariant of the reader\<close>

text \<open>The thread sleeps only while the FIFO is empty; before it takes the semaphore, either the FIFO is empty or the
  semaphore has a token.\<close>

definition reader_ok :: "nat \<Rightarrow> nat \<Rightarrow> rx_pc \<Rightarrow> bytes \<Rightarrow> isys \<Rightarrow> bool" where
  "reader_ok sem rd pc cs k \<longleftrightarrow> kinv k \<and> (\<exists>p v. ipcs k sem = Some (Semaphore p v) \<and> ip_flag p = 0) \<and>
     (case pc of
        Reading \<Rightarrow> queues k (Waiting sem) = [] \<and> runnable k rd
      | Taking \<Rightarrow> queues k (Waiting sem) = [] \<and> runnable k rd \<and> (cs = [] \<or> sem_value sem k \<noteq> 0)
      | Sleeping \<Rightarrow> (queues k (Waiting sem) = [rd] \<and> cs = [] \<and> (\<exists>u. threads k rd = Some u \<and> th_error u = 0)) \<or>
          (queues k (Waiting sem) = [] \<and> woken_with 0 k rd))"

lemma reader_awake: "reader_ok sem rd pc cs k \<Longrightarrow> cs \<noteq> [] \<Longrightarrow> runnable k rd"
  by (auto simp: reader_ok_def woken_with_runnable split: rx_pc.splits)

lemma reader_read: "reader_ok sem rd Reading cs k \<Longrightarrow> reader_ok sem rd Reading cs' k"
  by (simp add: reader_ok_def)

lemma reader_empty: "reader_ok sem rd Reading [] k \<Longrightarrow> reader_ok sem rd Taking [] k"
  by (simp add: reader_ok_def)

lemma reader_kept:
  assumes r: "reader_ok sem rd pc cs k" and k': "kinv k'" and i: "ipcs k' sem = ipcs k sem"
    and q: "queues k' (Waiting sem) = queues k (Waiting sem)" and t: "kept_at k k' rd"
  shows "reader_ok sem rd pc cs k'"
proof -
  have v: "sem_value sem k' = sem_value sem k" using i by (simp add: sem_value_def)
  show ?thesis
    using r k' i q v kept_at_runnable [OF _ t] woken_with_kept [OF _ t] kept_at_error [OF _ t]
    by (cases pc) (auto simp: reader_ok_def)
qed

lemma reader_waits_elsewhere:
  assumes r: "reader_ok sem rd pc cs k" and ob: "ob \<noteq> sem"
  shows "rd \<notin> set (queues k (Waiting ob))" "rd \<notin> set (queues k (Senders ob))"
proof -
  have k: "kinv k" and inv: "sys_inv k" using r by (simp_all add: reader_ok_def kinv_def)
  have w: "runnable k rd \<or> rd \<in> set (queues k (Waiting sem))"
    using r by (auto simp: reader_ok_def woken_with_runnable split: rx_pc.splits)
  have a: "rd \<notin> set (queues k q)" if "waiting_queue q" "q \<noteq> Waiting sem" for q
    using w runnable_waits_nowhere [OF k _ that(1)] waiter_in_one_list [OF inv _ that(2)] by blast
  show "rd \<notin> set (queues k (Waiting ob))" "rd \<notin> set (queues k (Senders ob))" using a ob by auto
qed

lemma reader_touched:
  assumes r: "reader_ok sem rd pc cs k" and ob: "ob \<noteq> sem" and t: "only_touches ob k k'" and k': "kinv k'"
  shows "reader_ok sem rd pc cs k'"
  by (rule reader_kept [OF r k']) (use t ob reader_waits_elsewhere [OF r ob] in \<open>auto simp: only_touches_def\<close>)

lemma reader_takes:
  assumes r: "reader_ok sem rd Taking cs k" and c: "caller k rd"
  shows "\<exists>k' out. rt_sem_take sem (- 1) k = Inr (k', out) \<and> reader_ok sem rd (if out = Blocked then Sleeping else Reading) cs k' \<and>
    (\<forall>ob. ob \<noteq> sem \<longrightarrow> ipcs k' ob = ipcs k ob)"
proof -
  obtain p v where k: "kinv k" and sem: "ipcs k sem = Some (Semaphore p v)" and flag: "ip_flag p = 0"
    and q: "queues k (Waiting sem) = []" and e: "cs = [] \<or> v \<noteq> 0" and run: "runnable k rd"
    using r by (auto simp: reader_ok_def sem_value_def)
  show ?thesis
  proof (cases "v = 0")
    case False
    then have "rt_sem_take sem (- 1) k = Inr (set_ipc sem (Semaphore p (v - 1)) k, Returned RT_EOK)"
      using sem by (simp add: rt_sem_take_def with_sem_def word_gt_0)
    then show ?thesis using k flag q run by (simp add: reader_ok_def runnable_def)
  next
    case True
    obtain th where th: "interrupt_nest k = 0" "current_thread k = Some rd" "threads k rd = Some th" "th_object th" "stat_of th = 3"
      by (rule callerE [OF c])
    have sem0: "ipcs k sem = Some (Semaphore p 0)" and w: "waits (- 1)" and fl: "ip_flag p = 0 \<or> ip_flag p = 1"
      using sem True flag by (simp_all add: waits_def)
    obtain k' where k': "rt_sem_take sem (- 1) k = Inr (k', Blocked)" "parked k (Waiting sem) rd (ip_flag p) (- 1) k'"
      by (rule sem_take_parks [OF k th sem0 fl w]) (rule that)
    have "reader_ok sem rd Sleeping cs k'"
      using k'(2) sem0 flag q e True by (auto simp: reader_ok_def parked_def enqueued_def)
    then show ?thesis using k' by (auto simp: parked_def)
  qed
qed

lemma reader_wakes:
  assumes r: "reader_ok sem rd Sleeping cs k" and c: "caller k rd"
  shows "rt_sem_take_return rd k = Inr (k, Returned RT_EOK) \<and> reader_ok sem rd Reading cs k"
proof -
  have k: "kinv k" using r by (simp add: reader_ok_def)
  have "rd \<notin> set (queues k (Waiting sem))" using runnable_waits_nowhere [OF k caller_runnable [OF c]] by simp
  then have "woken_with 0 k rd" "queues k (Waiting sem) = []" using r by (auto simp: reader_ok_def)
  then show ?thesis using woken_return [of 0 k rd] r caller_runnable [OF c] by (simp add: reader_ok_def)
qed

lemma reader_signalled:
  assumes r: "reader_ok sem rd pc cs k" and v: "sem_value sem k \<noteq> - 1"
  shows "\<exists>k'. uart_input sem len k = Inr (k', RT_EOK) \<and> reader_ok sem rd pc cs' k' \<and> (\<forall>ob. ob \<noteq> sem \<longrightarrow> ipcs k' ob = ipcs k ob)"
proof -
  obtain p v where k: "kinv k" and sem: "ipcs k sem = Some (Semaphore p v)" and flag: "ip_flag p = 0" and nv: "v \<noteq> - 1"
    using r v by (auto simp: reader_ok_def sem_value_def)
  show ?thesis
  proof (cases "queues k (Waiting sem)")
    case Nil
    let ?k = "set_ipc sem (Semaphore p (v + 1)) k"
    have "v + 1 \<noteq> 0" using nv by (metis add_eq_0_iff2)
    then have "reader_ok sem rd pc cs' ?k"
      using r Nil sem flag by (cases pc) (auto simp: reader_ok_def sem_value_def runnable_def woken_with_def)
    moreover have "uart_input sem len k = Inr (?k, 0)" using sem Nil by (simp add: uart_input_def rt_sem_release_def with_sem_def)
    ultimately show ?thesis by auto
  next
    case (Cons w ws)
    then have w: "w = rd" "ws = []" "pc = Sleeping" and u: "\<exists>u. threads k rd = Some u \<and> th_error u = 0"
      using r by (auto simp: reader_ok_def split: rx_pc.splits)
    have inv: "sys_inv k" and c: "current_thread k \<noteq> None" using k by (simp_all add: kinv_def)
    obtain k1 k' where k': "rt_ipc_list_resume (Waiting sem) k = Inr k1" "rt_schedule k1 = Inr k'" "sys_inv k'" "quiet k k'"
        "woken_with (th_error (the (threads k w))) k' w" "queues k' (Waiting sem) = ws" "ipcs k' = ipcs k"
      by (rule wake_schedule_ok [OF inv c waiting_queue_simps(1) Cons]) (rule that)
    have "uart_input sem len k = Inr (k', 0)" using sem Cons k'(1,2) by (simp add: uart_input_def rt_sem_release_def with_sem_def)
    moreover have "woken_with 0 k' rd" using k'(5) u w(1) by auto
    ultimately show ?thesis using kinv_quiet [OF k k'(3,4)] k'(6,7) w sem flag by (simp add: reader_ok_def)
  qed
qed

section \<open>What the receive thread posts\<close>

lemma framer_byte_facts:
  assumes r: "framer_byte ch s = Inr (s', m)"
  shows "length (fr_buf s') = length (fr_buf s)"
    "m = Some p \<Longrightarrow> 3 \<le> length (fr_buf s) \<Longrightarrow> p \<noteq> [] \<and> length p \<le> length (fr_buf s)"
  using r by (auto simp: framer_byte_def Let_def rbind_eq_Inr store8_def unsigned_eq_0_iff split: if_splits)

lemma uart3_rx_buf: "uart3_rx cs s = Inr (s', ms) \<Longrightarrow> length (fr_buf s') = length (fr_buf s)"
proof (induction cs arbitrary: s ms)
  case (Cons c cs)
  then obtain s1 m ms1 where "framer_byte c s = Inr (s1, m)" "uart3_rx cs s1 = Inr (s', ms1)" by (auto simp: rbind_eq_Inr)
  then show ?case using Cons.IH [of s1 ms1] framer_byte_facts(1) by force
qed simp

lemma uart3_rx_snoc:
  "uart3_rx cs s = Inr (s1, ms) \<Longrightarrow> framer_byte ch s1 = Inr (s2, m) \<Longrightarrow>
   uart3_rx (cs @ [ch]) s = Inr (s2, ms @ (case m of None \<Rightarrow> [] | Some p \<Rightarrow> [p]))"
  by (auto simp: uart3_rx_append split: option.split)

lemma uart3_rx_prefix:
  assumes "uart3_rx (xs @ ys) s = Inr (s', ms)" "uart3_rx xs s = Inr (s1, ms1)"
  shows "\<exists>k. ms1 = take k ms"
proof -
  obtain ms2 where "ms = ms1 @ ms2" using assms by (auto simp: uart3_rx_append rbind_eq_Inr)
  then show ?thesis by (intro exI [of _ "length ms1"]) simp
qed

section \<open>The invariant of the path\<close>

definition path_ok :: "bytes \<Rightarrow> rx_fifo \<Rightarrow> 'h link \<Rightarrow> bool" where
  "path_ok junk f l \<longleftrightarrow> receiving RT_DEVICE_FLAG_INT_RX 64 1 f (uart l) \<and> fifo_ok 64 f \<and> rx_indicate (uart l) \<noteq> None \<and>
     uart3_rx (taken l) (framer_start junk) = Inr (rx_state l, posted l) \<and>
     subseq (taken l @ fifo_contents 64 f) (arrived l) \<and> (\<not> overrun l \<longrightarrow> taken l @ fifo_contents 64 f = arrived l)"

text \<open>A buffer that the parser received begins with the payload.\<close>

definition begins :: "bytes \<Rightarrow> bytes \<Rightarrow> bool" where
  "begins p b \<longleftrightarrow> take (length p) b = p"

definition queue_ok :: "nat \<Rightarrow> bytes list \<Rightarrow> 'h link \<Rightarrow> bool" where
  "queue_ok mq A l \<longleftrightarrow> mq_sim mq 20 128 (kern l) A \<and> subseq (accepted l) (posted l) \<and> (\<forall>p \<in> set (accepted l). length p \<le> 128) \<and>
     (\<exists>ds. accepted l = ds @ A \<and> list_all2 begins ds (consumed l))"

definition link_ok :: "nat \<Rightarrow> nat \<Rightarrow> nat \<Rightarrow> bytes \<Rightarrow> 'h link \<Rightarrow> bool" where
  "link_ok sem mq rd junk l \<longleftrightarrow> sem \<noteq> mq \<and> length junk = 128 \<and>
     (\<exists>f A. path_ok junk f l \<and> queue_ok mq A l \<and> reader_ok sem rd (rx_pc l) (fifo_contents 64 f) (kern l))"

lemma path_waiting: "path_ok junk f l \<Longrightarrow> waiting_bytes (uart l) = fifo_contents 64 f"
  by (auto simp: path_ok_def receiving_def waiting_bytes_def)

lemma path_room: "path_ok junk f l \<Longrightarrow> bufsz (config (uart l)) = 64"
  by (auto simp: path_ok_def receiving_def)

lemma mq_sim_cong: "mq_sim ob room msz s A \<Longrightarrow> kinv s' \<Longrightarrow> ipcs s' ob = ipcs s ob \<Longrightarrow> mq_sim ob room msz s' A"
  by (auto simp: mq_sim_def)

lemma queue_same:
  "queue_ok mq A l \<Longrightarrow> kinv (kern l') \<Longrightarrow> ipcs (kern l') mq = ipcs (kern l) mq \<Longrightarrow> accepted l' = accepted l \<Longrightarrow>
   posted l' = posted l \<Longrightarrow> consumed l' = consumed l \<Longrightarrow> queue_ok mq A l'"
  using mq_sim_cong [of mq 20 128 "kern l" A "kern l'"] by (simp add: queue_ok_def)

lemma path_same:
  "path_ok junk f l \<Longrightarrow> uart l' = uart l \<Longrightarrow> taken l' = taken l \<Longrightarrow> rx_state l' = rx_state l \<Longrightarrow> posted l' = posted l \<Longrightarrow>
   arrived l' = arrived l \<Longrightarrow> overrun l' = overrun l \<Longrightarrow> path_ok junk f l'"
  by (simp add: path_ok_def)

lemma subseq_keeps_front: "subseq (xs @ ys) zs \<Longrightarrow> subseq ys' (ys @ cs) \<Longrightarrow> subseq (xs @ ys') (zs @ cs)"
proof -
  assume a: "subseq (xs @ ys) zs" and b: "subseq ys' (ys @ cs)"
  have 1: "subseq (xs @ ys') ((xs @ ys) @ cs)" using list_emb_append_mono [OF subseq_order.order_refl b] by simp
  have 2: "subseq ((xs @ ys) @ cs) (zs @ cs)" by (rule list_emb_append_mono [OF a subseq_order.order_refl])
  show ?thesis by (rule subseq_order.order_trans [OF 1 2])
qed

lemma interrupt_path:
  assumes p: "path_ok junk f l" and g: "uart_gives ops h cs h'"
  shows "\<exists>f' note d. rt_hw_serial_isr ops dn Event_rx_ind ((uart l)\<lparr> hw := h \<rparr>) = Some (Inr (note, d)) \<and>
    (note = None \<longleftrightarrow> fifo_contents 64 f' = []) \<and> (fifo_contents 64 f' = [] \<longrightarrow> fifo_contents 64 f = []) \<and>
    (\<forall>k. path_ok junk f' (l\<lparr> uart := d, kern := k, arrived := arrived l @ cs,
      overrun := overrun l \<or> 63 < length (fifo_contents 64 f) + length cs \<rparr>))"
proof -
  have r: "receiving RT_DEVICE_FLAG_INT_RX 64 1 f (uart l)" and ok: "fifo_ok 64 f" and ind: "rx_indicate (uart l) \<noteq> None"
    using p by (simp_all add: path_ok_def)
  obtain f' where f': "fifo_put_all 64 cs f = Inr f'" "fifo_ok 64 f'" "fifo_contents 64 f' = latest 63 (fifo_contents 64 f @ cs)"
    using fifo_put_all_ok [OF ok, of cs] by auto
  have n: "bufsz (config (uart l)) = 64" "serial_rx (uart l) = Some (Rx_fifo f)" using r by (simp_all add: receiving_def)
  have l0: "rx_length 64 f' = 0 \<longleftrightarrow> fifo_contents 64 f' = []"
    using rx_length_count [OF f'(2)] by (metis length_0_conv unsigned_eq_0_iff)
  let ?d = "(uart l)\<lparr> serial_rx := Some (Rx_fifo f'), hw := h' \<rparr>"
  have run: "rt_hw_serial_isr ops dn Event_rx_ind ((uart l)\<lparr> hw := h \<rparr>) =
      Some (Inr (if rx_length 64 f' \<noteq> 0 then Some (rx_length 64 f') else None, ?d))"
    using isr_receives [OF n(2) g, of f' dn] f'(1) n(1) ind by simp
  have sub: "subseq (taken l @ fifo_contents 64 f') (arrived l @ cs)"
    using p subseq_keeps_front subseq_latest unfolding f'(3) path_ok_def by blast
  have "path_ok junk f' (l\<lparr> uart := ?d, kern := k, arrived := arrived l @ cs,
      overrun := overrun l \<or> 63 < length (fifo_contents 64 f) + length cs \<rparr>)" for k
    using p sub receiving_update(1) [OF r] f'(2,3) by (auto simp: path_ok_def)
  moreover have "fifo_contents 64 f' = [] \<longrightarrow> fifo_contents 64 f = []"
  proof
    assume "fifo_contents 64 f' = []"
    then have "length (latest 63 (fifo_contents 64 f @ cs)) = 0" unfolding f'(3) by simp
    then show "fifo_contents 64 f = []" by (metis length_latest length_append length_0_conv add_is_0 min_def zero_neq_numeral)
  qed
  ultimately show ?thesis using run l0 by auto
qed

lemma read_path:
  assumes p: "path_ok junk f l"
  shows "\<exists>f' d. serial_read ops 1 (uart l) = Inr (take 1 (fifo_contents 64 f), d) \<and> fifo_contents 64 f' = drop 1 (fifo_contents 64 f) \<and>
    receiving RT_DEVICE_FLAG_INT_RX 64 1 f' d \<and> fifo_ok 64 f' \<and> rx_indicate d = rx_indicate (uart l)"
proof -
  have r: "receiving RT_DEVICE_FLAG_INT_RX 64 1 f (uart l)" and ok: "fifo_ok 64 f" using p by (simp_all add: path_ok_def)
  obtain f' where f': "serial_int_rx 64 1 f = Inr (take 1 (fifo_contents 64 f), f')" "fifo_ok 64 f'"
      "fifo_contents 64 f' = drop 1 (fifo_contents 64 f)" using fifo_read_ok [OF ok, of 1] by blast
  have "serial_read ops 1 (uart l) = Inr (take 1 (fifo_contents 64 f), (uart l)\<lparr> serial_rx := Some (Rx_fifo f') \<rparr>)"
    using device_read_serial [OF r int_read [OF r f'(1)]] by (simp add: serial_read_def)
  then show ?thesis using f' r by auto
qed

lemma parse_queue:
  assumes q: "queue_ok mq A l" and r: "mq_recv_loop mq 128 timeout self (kern l) = Inr (k, Some b, Returned e)"
  shows "\<exists>A'. queue_ok mq A' (l\<lparr> kern := k, consumed := consumed l @ [b] \<rparr>)"
proof -
  have sim: "mq_sim mq 20 128 (kern l) A" using q by (simp add: queue_ok_def)
  have same: "rt_mq_recv mq 128 0 (kern l) = Inr (k, Some b, Returned e)"
    using r by (auto simp: rt_mq_recv_def mq_recv_loop_def with_mq_def with_caller_def rassert_eq_Inr rbind_eq_Inr Let_def
        split: if_splits option.splits ipc_object.splits)
  obtain A' got e' where spec: "mq_spec 20 128 (Mq_recv 128) A = (A', got, e')" by (cases "mq_spec 20 128 (Mq_recv 128) A") auto
  obtain s' buf where s': "mq_do mq (Mq_recv 128) (kern l) = Some (Inr (s', buf, Returned e'))" "got_ok got buf" "mq_sim mq 20 128 s' A'"
    using mq_recv_sim [OF sim _ spec] by auto
  then have eq: "s' = k" "buf = Some b" using same by (simp_all add: mq_do_def)
  obtain d where d: "A = d # A'" "take (length (take 128 d)) b = take 128 d"
    using spec s'(2) eq(2) by (cases A) (auto simp: got_ok_def)
  have "length d \<le> 128" using q d(1) by (auto simp: queue_ok_def)
  then have "begins d b" using d(2) by (simp add: begins_def)
  moreover obtain ds where "accepted l = ds @ A" "list_all2 begins ds (consumed l)" using q by (auto simp: queue_ok_def)
  ultimately have "accepted l = (ds @ [d]) @ A' \<and> list_all2 begins (ds @ [d]) (consumed l @ [b])"
    using d(1) by (simp add: list_all2_appendI)
  then have "\<exists>ds. accepted l = ds @ A' \<and> list_all2 begins ds (consumed l @ [b])" by blast
  then show ?thesis using q s'(3) eq(1) unfolding queue_ok_def by (intro exI [of _ A']) simp
qed

lemma post_queue:
  assumes q: "queue_ok mq A l" and b: "b \<noteq> []" "length b \<le> 128"
    and r: "rt_mq_send mq b (of_nat (length b)) (kern l) = Inr (k, Returned e)"
  shows "\<exists>A'. queue_ok mq A' (l\<lparr> uart := d, kern := k, rx_state := st, taken := tk, posted := posted l @ [b],
    accepted := accepted l @ (if e = RT_EOK then [b] else []) \<rparr>)"
proof -
  have sim: "mq_sim mq 20 128 (kern l) A" using q by (simp add: queue_ok_def)
  obtain A' got e' where spec: "mq_spec 20 128 (Mq_send b) A = (A', got, e')" by (cases "mq_spec 20 128 (Mq_send b) A") auto
  obtain s' where s': "mq_do mq (Mq_send b) (kern l) = Some (Inr (s', got, Returned e'))" "mq_sim mq 20 128 s' A'"
    using mq_send_sim [OF sim b(1) _ spec] b(2) by auto
  then have eq: "s' = k" "e' = e" using r by (simp_all add: mq_do_def)
  have A': "A' = A @ (if e = RT_EOK then [b] else [])" using spec eq(2) by (auto split: if_splits)
  have "subseq (accepted l @ (if e = RT_EOK then [b] else [])) (posted l @ [b])"
    using q by (auto simp: queue_ok_def intro: list_emb_append_mono)
  then show ?thesis using q s'(2) eq(1) A' b(2) by (auto simp: queue_ok_def)
qed

section \<open>Every step keeps it\<close>

lemma link_step_ok:
  assumes step: "link_step ops sem mq rd l l'" and ok: "link_ok sem mq rd junk l"
  shows "link_ok sem mq rd junk l'"
proof -
  obtain f A where ne: "sem \<noteq> mq" and junk: "length junk = 128" and p: "path_ok junk f l" and q: "queue_ok mq A l"
    and r: "reader_ok sem rd (rx_pc l) (fifo_contents 64 f) (kern l)"
    using ok by (auto simp: link_ok_def)
  have k: "kinv (kern l)" using r by (simp add: reader_ok_def)
  have keep: "link_ok sem mq rd junk l'"
    if "path_ok junk f' l'" "queue_ok mq A' l'" "reader_ok sem rd (rx_pc l') (fifo_contents 64 f') (kern l')" for f' A'
    using ne junk that by (auto simp: link_ok_def)
  obtain f1 d1 where rd: "serial_read ops 1 (uart l) = Inr (take 1 (fifo_contents 64 f), d1)"
      "fifo_contents 64 f1 = drop 1 (fifo_contents 64 f)" "receiving RT_DEVICE_FLAG_INT_RX 64 1 f1 d1" "fifo_ok 64 f1"
      "rx_indicate d1 = rx_indicate (uart l)"
    using read_path [OF p] by blast
  have buf: "length (fr_buf (rx_state l)) = 128"
    using p uart3_rx_buf [of "taken l"] junk by (auto simp: path_ok_def framer_start_def)
  have one: "taken l @ ch # drop 1 (fifo_contents 64 f) = taken l @ fifo_contents 64 f" if "take 1 (fifo_contents 64 f) = [ch]" for ch
    using that by (cases "fifo_contents 64 f") auto
  show ?thesis
    using step
  proof cases
    case (interrupt h cs h' nt d k' e)
    obtain f' note' d' where i: "rt_hw_serial_isr ops (\<lambda>s. s) Event_rx_ind ((uart l)\<lparr> hw := h \<rparr>) = Some (Inr (note', d'))"
        "note' = None \<longleftrightarrow> fifo_contents 64 f' = []" "fifo_contents 64 f' = [] \<longrightarrow> fifo_contents 64 f = []"
        "\<And>k. path_ok junk f' (l\<lparr> uart := d', kern := k, arrived := arrived l @ cs,
          overrun := overrun l \<or> 63 < length (fifo_contents 64 f) + length cs \<rparr>)"
      using interrupt_path [OF p interrupt(2)] by blast
    have eq: "nt = note'" "d = d'" using interrupt(4) i(1) by simp_all
    have k': "reader_ok sem rd (rx_pc l) (fifo_contents 64 f') k' \<and> ipcs k' mq = ipcs (kern l) mq"
    proof (cases nt)
      case None
      then have "fifo_contents 64 f' = fifo_contents 64 f" using i(2,3) eq by simp
      then show ?thesis using interrupt(5) None r by simp
    next
      case (Some len)
      then show ?thesis using reader_signalled [OF r interrupt(3), of len "fifo_contents 64 f'"] interrupt(5) ne by auto
    qed
    have pth: "path_ok junk f' l'"
      using i(4) [of k'] unfolding interrupt(1) eq path_waiting [OF p] path_room [OF p] by simp
    have kk: "kinv k'" using k' by (simp add: reader_ok_def)
    show ?thesis by (rule keep [OF pth queue_same [OF q]]) (use k' kk interrupt(1) in simp_all)
  next
    case (read ch d st)
    have eq: "take 1 (fifo_contents 64 f) = [ch]" "d = d1" using read(4) rd(1) by simp_all
    have pth: "path_ok junk f1 l'"
      using p rd(2-5) eq uart3_rx_snoc [OF _ read(5)] one [OF eq(1)] by (auto simp: path_ok_def read(1))
    show ?thesis by (rule keep [OF pth queue_same [OF q]]) (use r k read(1,2) in \<open>simp_all add: reader_ok_def\<close>)
  next
    case (post ch d st b k' e)
    have eq: "take 1 (fifo_contents 64 f) = [ch]" "d = d1" using post(4) rd(1) by simp_all
    have b: "b \<noteq> []" "length b \<le> 128" using framer_byte_facts(2) [OF post(5) refl] buf by auto
    have pth: "path_ok junk f1 l'"
      using p rd(2-5) eq uart3_rx_snoc [OF _ post(5)] one [OF eq(1)] by (auto simp: path_ok_def post(1))
    obtain A' where A': "queue_ok mq A' l'" using post_queue [OF q b post(6)] unfolding post(1) by blast
    have kk: "kinv k'" using A' by (simp add: queue_ok_def mq_sim_def post(1))
    have "reader_ok sem rd Reading (fifo_contents 64 f) k'"
      using reader_touched [OF _ ne [symmetric] mq_send_touches [OF k post(6)] kk] r post(2) by simp
    then show ?thesis by (intro keep [OF pth A']) (simp add: post(1,2) reader_read)
  next
    case (empty d)
    have eq: "fifo_contents 64 f = []" "d = d1" using empty(4) rd(1) by (auto simp: take_eq_Nil)
    have pth: "path_ok junk f1 l'" using p rd(2-5) eq by (auto simp: path_ok_def empty(1))
    show ?thesis
      by (rule keep [OF pth queue_same [OF q]]) (use r k empty(1,2) eq rd(2) in \<open>auto simp: reader_ok_def\<close>)
  next
    case (take k' out)
    obtain k'' out' where t: "rt_sem_take sem (- 1) (kern l) = Inr (k'', out')"
        "reader_ok sem rd (if out' = Blocked then Sleeping else Reading) (fifo_contents 64 f) k''"
        "\<forall>ob. ob \<noteq> sem \<longrightarrow> ipcs k'' ob = ipcs (kern l) ob"
      using reader_takes [of sem rd "fifo_contents 64 f" "kern l"] r take(2,3) by auto
    have eq: "k' = k''" "out = out'" using take(4) t(1) by simp_all
    have pth: "path_ok junk f l'" by (rule path_same [OF p]) (simp_all add: take(1))
    have kk: "kinv k'" using t(2) eq by (simp add: reader_ok_def)
    show ?thesis by (rule keep [OF pth queue_same [OF q]]) (use t kk ne eq in \<open>auto simp: take(1)\<close>)
  next
    case (wake k' e)
    have w: "k' = kern l" "reader_ok sem rd Reading (fifo_contents 64 f) (kern l)"
      using reader_wakes [of sem rd "fifo_contents 64 f" "kern l"] r wake by auto
    have pth: "path_ok junk f l'" by (rule path_same [OF p]) (simp_all add: wake(1))
    show ?thesis by (rule keep [OF pth queue_same [OF q]]) (use w k in \<open>simp_all add: wake(1)\<close>)
  next
    case (parse timeout self k' b)
    obtain A' where A': "queue_ok mq A' l'" using parse_queue [OF q parse(2)] unfolding parse(1) by blast
    have kk: "kinv k'" using A' by (simp add: queue_ok_def mq_sim_def parse(1))
    have pth: "path_ok junk f l'" by (rule path_same [OF p]) (simp_all add: parse(1))
    show ?thesis
      by (rule keep [OF pth A'])
        (use reader_touched [OF r ne [symmetric] mq_recv_touches [OF k parse(2)] kk] in \<open>simp add: parse(1)\<close>)
  next
    case (other k')
    have pth: "path_ok junk f l'" by (rule path_same [OF p]) (simp_all add: other(1))
    have "reader_ok sem rd (rx_pc l) (fifo_contents 64 f) k'"
      by (rule reader_kept [OF r]) (use other(2) in \<open>simp_all add: elsewhere_def\<close>)
    then show ?thesis by (intro keep [OF pth queue_same [OF q]]) (use other in \<open>simp_all add: elsewhere_def\<close>)
  qed
qed

section \<open>From the start\<close>

text \<open>The system after \<^verbatim>\<open>dev_uart3_init\<close> found its device, not yet open, and got its memory, when the receive thread has
  been started.\<close>

definition link_start :: "'h uart_ops \<Rightarrow> nat \<Rightarrow> nat \<Rightarrow> nat \<Rightarrow> bytes \<Rightarrow> 'h serial \<Rightarrow> isys \<Rightarrow> 'h link \<Rightarrow> bool" where
  "link_start ops sem mq rd junk d k l \<longleftrightarrow>
     (\<exists>input pool. dev_uart3_init (serial_driver ops True True (\<lambda>n. []) (\<lambda>bs s. (0, s))) input (Some sem) (Some mq) (Some pool) (Some d) k =
        Inr (uart l, kern l, Some sem, Some mq) \<and> length pool = 20 \<and> (\<forall>b \<in> set pool. length b = 128)) \<and>
     closed_uart ops RT_DEVICE_FLAG_INT_RX (d\<lparr> config := uart3_config \<rparr>) \<and> sem \<noteq> mq \<and> length junk = 128 \<and>
     kinv k \<and> queues k (Waiting sem) = [] \<and> queues k (Waiting mq) = [] \<and> queues k (Senders mq) = [] \<and> runnable k rd \<and>
     rx_state l = framer_start junk \<and> rx_pc l = Reading \<and> arrived l = [] \<and> \<not> overrun l \<and> taken l = [] \<and> posted l = [] \<and>
     accepted l = [] \<and> consumed l = []"

inductive link_reach :: "'h uart_ops \<Rightarrow> nat \<Rightarrow> nat \<Rightarrow> nat \<Rightarrow> bytes \<Rightarrow> 'h serial \<Rightarrow> isys \<Rightarrow> 'h link \<Rightarrow> bool"
  for ops sem mq rd junk d k where
  start: "link_start ops sem mq rd junk d k l \<Longrightarrow> link_reach ops sem mq rd junk d k l"
| step: "link_reach ops sem mq rd junk d k l \<Longrightarrow> link_step ops sem mq rd l l' \<Longrightarrow> link_reach ops sem mq rd junk d k l'"

lemma rt_align_128: "rt_align 128 4 = 128"
  by (simp add: rt_align_def)

lemma link_start_ok:
  assumes s: "link_start ops sem mq rd junk d k l"
  shows "link_ok sem mq rd junk l"
proof -
  let ?drv = "serial_driver ops True True (\<lambda>n. []) (\<lambda>bs s. (0, s))"
  obtain input pool where init: "dev_uart3_init ?drv input (Some sem) (Some mq) (Some pool) (Some d) k = Inr (uart l, kern l, Some sem, Some mq)"
    and pool: "length pool = 20" "\<forall>b \<in> set pool. length b = 128"
    and c: "closed_uart ops RT_DEVICE_FLAG_INT_RX (d\<lparr> config := uart3_config \<rparr>)" and ne: "sem \<noteq> mq" "length junk = 128"
    and k: "kinv k" "queues k (Waiting sem) = []" "queues k (Waiting mq) = []" "queues k (Senders mq) = []" "runnable k rd"
    and l: "rx_state l = framer_start junk" "rx_pc l = Reading" "arrived l = []" "\<not> overrun l" "taken l = []" "posted l = []"
      "accepted l = []" "consumed l = []"
    using s by (auto simp: link_start_def)
  define ps :: ipc_parent where "ps = \<lparr> ip_flag = 0, ip_static = False \<rparr>"
  define m where "m = new_mq pool 128 20"
  define k1 where "k1 = set_ipc mq (Messagequeue ps m) (set_ipc sem (Semaphore ps 0) k)"
  have same: "rt_ipc_object_init sem k = k" using k(2) by (simp add: rt_ipc_object_init_def fun_upd_idem)
  have inn: "interrupt_nest k = 0" using init by (auto simp: dev_uart3_init_def rt_sem_create_def rbind_eq_Inr rassert_eq_Inr)
  let ?k = "set_ipc sem (Semaphore ps 0) k"
  have same2: "init_lists mq ?k = ?k"
    using k(3,4) by (simp add: init_lists_def rt_ipc_object_init_def fun_upd_idem)
  have kern: "rt_sem_create (Some sem) 0 0 k = Inr (?k, Some sem)" "rt_mq_create (Some mq) (Some pool) 128 20 0 ?k = Inr (k1, Some mq)"
    using inn same same2 by (simp_all add: rt_sem_create_def rt_mq_create_def ps_def [symmetric] k1_def m_def rt_align_128)
  have ref: "dev_ref_count d = 0" using c by (simp add: closed_uart_def)
  let ?d = "d\<lparr> config := uart3_config \<rparr>"
  have ctl: "rt_device_control ?drv None (Ctrl_config (Some uart3_config)) d = Inr (RT_EOK, None, ?d)"
    using ref by (simp add: rt_device_control_def serial_driver_def rt_serial_control_def)
  have n: "bufsz (config ?d) = 64" by (simp add: uart3_config_def)
  obtain d1 where d1: "rt_device_open ?drv RT_DEVICE_FLAG_INT_RX ?d = Inr (RT_EOK, d1)"
      "receiving RT_DEVICE_FLAG_INT_RX 64 1 (empty_fifo 64) d1"
    using first_open [OF _ c, where mem_tx = True and unknown = "\<lambda>n. []" and dma_tx = "\<lambda>bs s. (0, s)"] n by (auto simp: rx_mode_def)
  have fin: "uart l = d1\<lparr> rx_indicate := Some input \<rparr>" "kern l = k1"
    using init by (simp_all add: dev_uart3_init_def kern ctl d1(1) rt_device_set_rx_indicate_def)
  have e: "fifo_ok 64 (empty_fifo 64)" "fifo_contents 64 (empty_fifo 64) = []" using empty_fifo_ok [of 64] by simp_all
  have "path_ok junk (empty_fifo 64) l" using d1(2) e l fin by (simp add: path_ok_def receiving_def)
  moreover have "queue_ok mq [] l"
  proof -
    have kk: "kinv k1" using k(1) by (simp add: k1_def)
    have r: "mq_rep m [] (rev [0 ..< unat (20 :: u16)]) []"
      unfolding m_def by (rule new_mq_rep) (use pool in simp_all)
    obtain nxt free where pn: "push_nodes (unat (20 :: u16)) (\<lambda>_. None) = (nxt, free)"
      by (cases "push_nodes (unat (20 :: u16)) (\<lambda>_. None)") auto
    have sz: "mq_max_msgs m = 20" "mq_msg_size m = 128" unfolding m_def new_mq_def pn by simp_all
    have "ipcs k1 mq = Some (Messagequeue ps m)" by (simp add: k1_def)
    from mq_simI [OF kk this r] have "mq_sim mq 20 128 k1 []" using sz by (simp add: mq_holds_def)
    then show ?thesis using l fin by (simp add: queue_ok_def)
  qed
  moreover have "reader_ok sem rd (rx_pc l) (fifo_contents 64 (empty_fifo 64)) (kern l)"
    using k ne l fin by (auto simp: reader_ok_def k1_def ps_def runnable_def)
  ultimately show ?thesis using ne by (auto simp: link_ok_def)
qed

lemma link_reach_ok: "link_reach ops sem mq rd junk d k l \<Longrightarrow> link_ok sem mq rd junk l"
  by (induction rule: link_reach.induct) (auto intro: link_start_ok link_step_ok)

section \<open>Steps that can be taken\<close>

lemma caller_set_ipc [simp]: "caller (set_ipc ob x s) c = caller s c"
  by (simp add: caller_def)

lemma can_interrupt:
  assumes ok: "link_ok sem mq rd junk l" and g: "uart_gives ops h cs h'" and v: "sem_value sem (kern l) \<noteq> - 1"
  shows "\<exists>l'. link_step ops sem mq rd l l' \<and> arrived l' = arrived l @ cs \<and>
    overrun l' = (overrun l \<or> 63 < length (waiting_bytes (uart l)) + length cs) \<and>
    taken l' = taken l \<and> rx_state l' = rx_state l \<and> rx_pc l' = rx_pc l \<and> posted l' = posted l \<and>
    (caller (kern l) rd \<longrightarrow> caller (kern l') rd)"
proof -
  obtain f where p: "path_ok junk f l" and r: "reader_ok sem rd (rx_pc l) (fifo_contents 64 f) (kern l)"
    using ok by (auto simp: link_ok_def)
  obtain f' nt d where i: "rt_hw_serial_isr ops (\<lambda>s. s) Event_rx_ind ((uart l)\<lparr> hw := h \<rparr>) = Some (Inr (nt, d))"
    using interrupt_path [OF p g] by blast
  obtain k e where k: "(case nt of None \<Rightarrow> Inr (kern l, RT_EOK) | Some len \<Rightarrow> uart_input sem len (kern l)) = Inr (k, e)"
    using reader_signalled [OF r v, of "the nt" "[]"] by (cases nt) auto
  have "caller k rd" if c: "caller (kern l) rd"
  proof (cases nt)
    case (Some len)
    have kk: "kinv (kern l)" using r by (simp add: reader_ok_def)
    have "rd \<notin> set (queues (kern l) (Waiting sem))" using runnable_waits_nowhere [OF kk caller_runnable [OF c]] by simp
    then have "queues (kern l) (Waiting sem) = []" using r by (auto simp: reader_ok_def split: rx_pc.splits)
    then have "\<exists>x. k = set_ipc sem x (kern l)"
      using k Some r by (auto simp: uart_input_def rt_sem_release_def with_sem_def reader_ok_def)
    then show ?thesis using c by auto
  qed (use k c in simp)
  moreover define l' where "l' = l\<lparr> uart := d, kern := k, arrived := arrived l @ cs,
      overrun := overrun l \<or> unat (bufsz (config (uart l))) - 1 < length (waiting_bytes (uart l)) + length cs \<rparr>"
  moreover have "link_step ops sem mq rd l l'" unfolding l'_def by (rule link_step.interrupt [OF g v i k])
  ultimately show ?thesis using path_room [OF p] by (intro exI [of _ l']) simp
qed

lemma can_read:
  assumes ok: "link_ok sem mq rd junk l" and pc: "rx_pc l = Reading" and c: "caller (kern l) rd"
    and w: "waiting_bytes (uart l) = ch # cs" and fb: "framer_byte ch (rx_state l) = Inr (st, m)"
  shows "\<exists>l'. link_step ops sem mq rd l l' \<and> arrived l' = arrived l \<and> overrun l' = overrun l \<and> taken l' = taken l @ [ch] \<and>
    rx_state l' = st \<and> rx_pc l' = Reading \<and> posted l' = posted l @ (case m of None \<Rightarrow> [] | Some b \<Rightarrow> [b]) \<and>
    waiting_bytes (uart l') = cs \<and> (m = None \<longrightarrow> caller (kern l') rd)"
proof -
  obtain f A where p: "path_ok junk f l" and q: "queue_ok mq A l" and j: "length junk = 128" using ok by (auto simp: link_ok_def)
  have f: "fifo_contents 64 f = ch # cs" using w path_waiting [OF p] by simp
  obtain f1 d where rd: "serial_read ops 1 (uart l) = Inr ([ch], d)" "fifo_contents 64 f1 = cs"
      "receiving RT_DEVICE_FLAG_INT_RX 64 1 f1 d"
    using read_path [OF p, of ops] f by auto
  have wd: "waiting_bytes d = cs" using rd(2,3) by (simp add: waiting_bytes_def receiving_def)
  show ?thesis
  proof (cases m)
    case None
    let ?l = "l\<lparr> uart := d, rx_state := st, taken := taken l @ [ch] \<rparr>"
    have "link_step ops sem mq rd l ?l" by (rule link_step.read [OF pc c rd(1)]) (use fb None in simp)
    then show ?thesis using None wd c pc by (intro exI [of _ ?l]) simp
  next
    case (Some b)
    have buf: "length (fr_buf (rx_state l)) = 128"
      using p uart3_rx_buf [of "taken l"] j by (auto simp: path_ok_def framer_start_def)
    have b: "b \<noteq> []" "length b < 2 ^ 32" using framer_byte_facts(2) [OF fb Some] buf by auto
    obtain A' got e where spec: "mq_spec 20 128 (Mq_send b) A = (A', got, e)" by (cases "mq_spec 20 128 (Mq_send b) A") auto
    have sim: "mq_sim mq 20 128 (kern l) A" using q by (simp add: queue_ok_def)
    obtain k where "rt_mq_send mq b (of_nat (length b)) (kern l) = Inr (k, Returned e)"
      using mq_send_sim [OF sim b spec] by (auto simp: mq_do_def rbind_eq_Inr)
    from link_step.post [OF pc c rd(1) fb [unfolded Some] this]
    have "link_step ops sem mq rd l (l\<lparr> uart := d, kern := k, rx_state := st, taken := taken l @ [ch], posted := posted l @ [b],
      accepted := accepted l @ (if e = RT_EOK then [b] else []) \<rparr>)" .
    then show ?thesis using Some wd pc by (intro exI conjI) (assumption | simp)+
  qed
qed

lemma can_post_one:
  assumes s: "link_start sample_uart sem mq rd (replicate 128 0) d k l" and c: "caller (kern l) rd"
    and v: "sem_value sem (kern l) = 0"
  shows "\<exists>l1 l2. link_reach sample_uart sem mq rd (replicate 128 0) d k l1 \<and> link_reach sample_uart sem mq rd (replicate 128 0) d k l2 \<and>
    arrived l1 = [1, 0, 9] \<and> \<not> overrun l1 \<and> waiting_bytes (uart l1) = [1, 0, 9] \<and> posted l1 = [] \<and>
    arrived l2 = [1, 0, 9] \<and> \<not> overrun l2 \<and> waiting_bytes (uart l2) = [] \<and> posted l2 = [[9]]"
proof -
  let ?junk = "replicate 128 (0 :: u8)"
  let ?reach = "link_reach sample_uart sem mq rd ?junk d k"
  have ok: "link_ok sem mq rd ?junk l" by (rule link_start_ok [OF s])
  have l: "rx_state l = framer_start ?junk" "rx_pc l = Reading" "arrived l = []" "\<not> overrun l" "taken l = []" "posted l = []"
    using s by (simp_all add: link_start_def)
  obtain f where f: "path_ok ?junk f l" using ok by (auto simp: link_ok_def)
  have e: "waiting_bytes (uart l) = []" using f l path_waiting [OF f] by (auto simp: path_ok_def)
  have v1: "sem_value sem (kern l) \<noteq> - 1" using v by simp
  obtain l1 where l1: "link_step sample_uart sem mq rd l l1" "arrived l1 = [1, 0, 9]" "\<not> overrun l1" "taken l1 = []"
      "rx_state l1 = framer_start ?junk" "rx_pc l1 = Reading" "posted l1 = []" "caller (kern l1) rd"
    using can_interrupt [OF ok sample_gives [of "[1, 0, 9]" "[]"] v1] l e c by auto
  have r1: "?reach l1" by (rule link_reach.step [OF link_reach.start [OF s] l1(1)])
  note ok1 = link_reach_ok [OF r1]
  obtain f1 where f1: "path_ok ?junk f1 l1" using ok1 by (auto simp: link_ok_def)
  have w1: "waiting_bytes (uart l1) = [1, 0, 9]" using f1 l1 path_waiting [OF f1] by (simp add: path_ok_def)
  have b1: "framer_byte 1 (framer_start ?junk) = Inr (mid_frame ?junk [1], None)"
    using first_byte [of "framer_start ?junk" 1] by (simp add: framer_start_def)
  obtain l2 where l2: "link_step sample_uart sem mq rd l1 l2" "arrived l2 = [1, 0, 9]" "\<not> overrun l2" "rx_state l2 = mid_frame ?junk [1]"
      "rx_pc l2 = Reading" "posted l2 = []" "waiting_bytes (uart l2) = [0, 9]" "caller (kern l2) rd"
    using can_read [OF ok1 l1(6,8) w1, of "mid_frame ?junk [1]" None] b1 l1 by auto
  have r2: "?reach l2" by (rule link_reach.step [OF r1 l2(1)])
  have b2: "framer_byte 0 (mid_frame ?junk [1]) = Inr (mid_frame ?junk [1, 0], None)"
    using next_byte [of "[1]" ?junk 0] by simp
  obtain l3 where l3: "link_step sample_uart sem mq rd l2 l3" "arrived l3 = [1, 0, 9]" "\<not> overrun l3" "rx_state l3 = mid_frame ?junk [1, 0]"
      "rx_pc l3 = Reading" "posted l3 = []" "waiting_bytes (uart l3) = [9]" "caller (kern l3) rd"
    using can_read [OF link_reach_ok [OF r2] l2(5,8,7), of "mid_frame ?junk [1, 0]" None] b2 l2 by auto
  have r3: "?reach l3" by (rule link_reach.step [OF r2 l3(1)])
  have dl: "declared_len [1, 0] = 1" by (simp add: declared_len_def)
  have b3: "framer_byte 9 (mid_frame ?junk [1, 0]) = Inr ((mid_frame ?junk [1, 0, 9])\<lparr> fr_done := True \<rparr>, Some [9])"
    using next_byte [of "[1, 0]" ?junk 9] by (simp add: dl)
  obtain l4 where l4: "link_step sample_uart sem mq rd l3 l4" "arrived l4 = [1, 0, 9]" "\<not> overrun l4" "posted l4 = [[9]]"
      "waiting_bytes (uart l4) = []"
    using can_read [OF link_reach_ok [OF r3] l3(5,8,7), of "(mid_frame ?junk [1, 0, 9])\<lparr> fr_done := True \<rparr>" "Some [9]"] b3 l3 by auto
  have r4: "?reach l4" by (rule link_reach.step [OF r3 l4(1)])
  show ?thesis using r1 w1 l1 r4 l4 by blast
qed

text \<open>A start of the system.\<close>

lemma sample_link_start:
  "\<exists>l. link_start sample_uart 3 4 0 (replicate 128 0) (sample_serial RT_DEVICE_FLAG_INT_RX 0 0 None) (sample_ipc Map.empty) l \<and>
     caller (kern l) 0 \<and> sem_value 3 (kern l) = 0"
proof -
  let ?drv = "serial_driver sample_uart True True (\<lambda>n. []) (\<lambda>bs s. (0, s))" and ?d = "sample_serial RT_DEVICE_FLAG_INT_RX 0 0 None"
  let ?k = "sample_ipc Map.empty" and ?pool = "replicate 20 (replicate 128 (0 :: u8))"
  define ps :: ipc_parent where "ps = \<lparr> ip_flag = 0, ip_static = False \<rparr>"
  define k1 where "k1 = set_ipc 4 (Messagequeue ps (new_mq ?pool 128 20)) (set_ipc 3 (Semaphore ps 0) ?k)"
  have q: "queues ?k (Waiting 3) = []" "queues ?k (Waiting 4) = []" "queues ?k (Senders 4) = []" "interrupt_nest ?k = 0"
    "rt_ipc_object_init 3 ?k = ?k" by (simp_all add: sample_ipc_def rt_ipc_object_init_def fun_upd_idem)
  have q4: "init_lists 4 (set_ipc 3 (Semaphore ps 0) ?k) = set_ipc 3 (Semaphore ps 0) ?k"
    using q by (simp add: init_lists_def rt_ipc_object_init_def fun_upd_idem)
  have kern: "rt_sem_create (Some 3) 0 0 ?k = Inr (set_ipc 3 (Semaphore ps 0) ?k, Some 3)"
    "rt_mq_create (Some 4) (Some ?pool) 128 20 0 (set_ipc 3 (Semaphore ps 0) ?k) = Inr (k1, Some 4)"
    using q q4 by (simp_all add: rt_sem_create_def rt_mq_create_def ps_def [symmetric] k1_def rt_align_128)
  have c: "closed_uart sample_uart RT_DEVICE_FLAG_INT_RX (?d\<lparr> config := uart3_config \<rparr>)"
    by (simp add: closed_uart_def sample_serial_def sample_uart_def RT_DEVICE_FLAG_STANDALONE_def RT_DEVICE_FLAG_INT_RX_def)
  have ctl: "rt_device_control ?drv None (Ctrl_config (Some uart3_config)) ?d = Inr (RT_EOK, None, ?d\<lparr> config := uart3_config \<rparr>)"
    by (simp add: rt_device_control_def serial_driver_def rt_serial_control_def sample_serial_def)
  obtain d1 where d1: "rt_device_open ?drv RT_DEVICE_FLAG_INT_RX (?d\<lparr> config := uart3_config \<rparr>) = Inr (RT_EOK, d1)"
    using first_open [OF _ c, where mem_tx = True and unknown = "\<lambda>n. []" and dma_tx = "\<lambda>bs s. (0, s)"]
    by (auto simp: rx_mode_def uart3_config_def)
  have run: "dev_uart3_init ?drv 1 (Some 3) (Some 4) (Some ?pool) (Some ?d) ?k = Inr (d1\<lparr> rx_indicate := Some 1 \<rparr>, k1, Some 3, Some 4)"
    by (simp add: dev_uart3_init_def kern ctl d1 rt_device_set_rx_indicate_def)
  let ?l = "\<lparr> uart = d1\<lparr> rx_indicate := Some 1 \<rparr>, kern = k1, rx_state = framer_start (replicate 128 0), rx_pc = Reading, arrived = [],
      overrun = False, taken = [], posted = [], accepted = [], consumed = [] \<rparr>"
  have r: "runnable ?k 0" using caller_runnable [OF sample_caller] .
  have "link_start sample_uart 3 4 0 (replicate 128 0) ?d ?k ?l"
    unfolding link_start_def
    by (intro conjI exI [of _ "1 :: u32"] exI [of _ ?pool]) (use run c q r sample_kinv_ipc in \<open>simp_all\<close>)
  moreover have "caller k1 0" using sample_caller by (simp add: k1_def)
  moreover have "sem_value 3 k1 = 0" by (simp add: sem_value_def k1_def)
  ultimately show ?thesis by (intro exI [of _ ?l]) simp
qed

section \<open>Properties\<close>

text \<open>C7: No wake-up is lost on the way from the interrupt of uart3 to its receive thread: in every reachable state of the
  system, however interrupts, the thread's own steps and other threads interleave, the receive thread is ready or
  running whenever a received byte waits in the FIFO (the semaphore's counter not having wrapped).\<close>

theorem alpha_rx_no_lost_wakeup:
  "link_reach ops sem mq rd junk d k l \<Longrightarrow> waiting_bytes (uart l) \<noteq> [] \<Longrightarrow> runnable (kern l) rd"
proof -
  assume "link_reach ops sem mq rd junk d k l" and w: "waiting_bytes (uart l) \<noteq> []"
  then obtain f where f: "path_ok junk f l" "reader_ok sem rd (rx_pc l) (fifo_contents 64 f) (kern l)"
    using link_reach_ok unfolding link_ok_def by blast
  show ?thesis using reader_awake [OF f(2)] w path_waiting [OF f(1)] by simp
qed

text \<open>C8: End to end, from the wire to the parser: in every reachable state in which the FIFO has not overflowed, if the bytes
  that arrived are the frames of the payloads \<open>ps\<close>, what the receive thread has given to \<^verbatim>\<open>rt_mq_send\<close> is an initial
  part of \<open>ps\<close>, and all of it once the FIFO is empty; and the buffers that the parser received begin with the payloads
  that the queue accepted, in order, nothing twice.\<close>

theorem alpha_payloads_delivered:
  "link_reach ops sem mq rd junk d k l \<Longrightarrow> \<not> overrun l \<Longrightarrow> arrived l = concat (map alpha_frame ps) \<Longrightarrow>
   (\<forall>p \<in> set ps. 1 \<le> length p \<and> length p \<le> 126) \<Longrightarrow>
   (\<exists>n. posted l = take n ps) \<and> (waiting_bytes (uart l) = [] \<longrightarrow> posted l = ps) \<and> subseq (accepted l) (posted l) \<and>
   length (consumed l) \<le> length (accepted l) \<and> list_all2 begins (take (length (consumed l)) (accepted l)) (consumed l)"
proof -
  assume reach: "link_reach ops sem mq rd junk d k l" and no: "\<not> overrun l" and arr: "arrived l = concat (map alpha_frame ps)"
    and ps: "\<forall>p \<in> set ps. 1 \<le> length p \<and> length p \<le> 126"
  obtain f A where p: "path_ok junk f l" and q: "queue_ok mq A l" and j: "length junk = 128"
    using link_reach_ok [OF reach] unfolding link_ok_def by blast
  have rx: "uart3_rx (taken l) (framer_start junk) = Inr (rx_state l, posted l)" "taken l @ fifo_contents 64 f = concat (map alpha_frame ps)"
    using p no arr by (simp_all add: path_ok_def)
  obtain s' where s': "uart3_rx (taken l @ fifo_contents 64 f) (framer_start junk) = Inr (s', ps)"
    using alpha_rx.run_stream [of "framer_start junk" ps] ps j rx(2) by (auto simp: idle_rx_def framer_start_def)
  obtain ds where ds: "accepted l = ds @ A" "list_all2 begins ds (consumed l)" "subseq (accepted l) (posted l)"
    using q by (auto simp: queue_ok_def)
  have "length (consumed l) = length ds" using ds(2) by (simp add: list_all2_lengthD)
  then show ?thesis
    using uart3_rx_prefix [OF s' rx(1)] rx(1) s' ds path_waiting [OF p] by auto
qed

theorem alpha_rx_no_lost_wakeup_witness:
  "\<exists>l. link_reach sample_uart 3 4 0 (replicate 128 0) (sample_serial RT_DEVICE_FLAG_INT_RX 0 0 None) (sample_ipc Map.empty) l \<and>
     waiting_bytes (uart l) = [1, 0, 9] \<and> runnable (kern l) 0"
proof -
  obtain l where l: "link_start sample_uart 3 4 0 (replicate 128 0) (sample_serial RT_DEVICE_FLAG_INT_RX 0 0 None) (sample_ipc Map.empty) l"
      "caller (kern l) 0" "sem_value 3 (kern l) = 0" using sample_link_start by blast
  obtain l1 where l1: "link_reach sample_uart 3 4 0 (replicate 128 0) (sample_serial RT_DEVICE_FLAG_INT_RX 0 0 None) (sample_ipc Map.empty) l1"
      "waiting_bytes (uart l1) = [1, 0, 9]" using can_post_one [OF l] by blast
  have "runnable (kern l1) 0" by (rule alpha_rx_no_lost_wakeup [OF l1(1)]) (simp add: l1(2))
  then show ?thesis using l1 by blast
qed

theorem alpha_payloads_delivered_witness:
  "\<exists>l. link_reach sample_uart 3 4 0 (replicate 128 0) (sample_serial RT_DEVICE_FLAG_INT_RX 0 0 None) (sample_ipc Map.empty) l \<and>
     arrived l = [1, 0, 9] \<and> waiting_bytes (uart l) = [] \<and> posted l = [[9]] \<and> subseq (accepted l) [[9]]"
proof -
  obtain l where l: "link_start sample_uart 3 4 0 (replicate 128 0) (sample_serial RT_DEVICE_FLAG_INT_RX 0 0 None) (sample_ipc Map.empty) l"
      "caller (kern l) 0" "sem_value 3 (kern l) = 0" using sample_link_start by blast
  obtain l2 where l2: "link_reach sample_uart 3 4 0 (replicate 128 0) (sample_serial RT_DEVICE_FLAG_INT_RX 0 0 None) (sample_ipc Map.empty) l2"
      "arrived l2 = [1, 0, 9]" "\<not> overrun l2" "waiting_bytes (uart l2) = []" using can_post_one [OF l] by blast
  have "arrived l2 = concat (map alpha_frame [[9]])" using l2(2) by (simp add: alpha_frame_def octet_def)
  from alpha_payloads_delivered [OF l2(1,3) this] show ?thesis using l2 by auto
qed

end
