(* ===== verification/Msh.thy ===== *)
theory Msh
  imports Prelude
begin

text \<open>
  The command interpreter of \<^verbatim>\<open>src/components/finsh/msh.c\<close> in the configuration of the board
  (\<^verbatim>\<open>FINSH_USING_MSH_ONLY\<close>, \<^verbatim>\<open>FINSH_USING_DESCRIPTION\<close>, the file system with working directories, no modules):
  splitting a line into arguments, finding a command, executing a line or a script, completing names. A
  buffer is a list of bytes and an argument an offset in it; an access past the end of a buffer is
  \<open>Out_of_bounds\<close>. The commands, the files and the heap are the fields of an environment over a state
  \<open>'w\<close> of the rest of the system.
\<close>

section \<open>Characters and strings\<close>

definition ascii :: "string \<Rightarrow> bytes" where
  "ascii s = map of_char s"

abbreviation (input) tab_key :: u8 where "tab_key \<equiv> 9"
abbreviation (input) newline :: u8 where "newline \<equiv> 10"
abbreviation (input) return_key :: u8 where "return_key \<equiv> 13"
abbreviation (input) space :: u8 where "space \<equiv> 32"
abbreviation (input) quote :: u8 where "quote \<equiv> 34"
abbreviation (input) slash :: u8 where "slash \<equiv> 47"
abbreviation (input) backslash :: u8 where "backslash \<equiv> 92"

definition blank :: "u8 \<Rightarrow> bool" where
  "blank c \<longleftrightarrow> c = space \<or> c = tab_key"

text \<open>The string at an offset of a buffer, for \<^verbatim>\<open>strlen\<close>, \<^verbatim>\<open>%s\<close> and the arguments of a command.\<close>

definition c_string :: "bytes \<Rightarrow> nat \<Rightarrow> bytes res" where
  "c_string buf i = (if 0 \<in> set (drop i buf) then Inr (takeWhile (\<lambda>c. c \<noteq> 0) (drop i buf)) else Inl Out_of_bounds)"

text \<open>\<^verbatim>\<open>strncmp(s, t, n) == 0\<close> on two arrays; one that ends before the comparison does is not compared further.\<close>

fun strncmp_eq :: "bytes \<Rightarrow> bytes \<Rightarrow> nat \<Rightarrow> bool" where
  "strncmp_eq s t 0 = True"
| "strncmp_eq (a # s) (b # t) (Suc n) \<longleftrightarrow> a = b \<and> (a = 0 \<or> strncmp_eq s t n)"
| "strncmp_eq s t (Suc n) = False"

section \<open>Splitting a line\<close>

abbreviation (input) FINSH_ARG_MAX :: nat where "FINSH_ARG_MAX \<equiv> 10"

text \<open>In \<open>msh_split\<close> \<^verbatim>\<open>ptr\<close> is always \<^verbatim>\<open>cmd + position\<close>, so one number stands for both.\<close>

function strip_blanks :: "nat \<Rightarrow> bytes \<Rightarrow> nat \<Rightarrow> (bytes \<times> nat) res" where
  "strip_blanks len cmd position =
     rbind (load8 cmd position) (\<lambda>c.
       if blank c \<and> position < len then strip_blanks len (cmd[position := 0]) (position + 1)
       else Inr (cmd, position))"
  by pat_completeness auto
termination by (relation "measure (\<lambda>(len, cmd, position). len - position)") auto

function skip_string :: "nat \<Rightarrow> bytes \<Rightarrow> nat \<Rightarrow> nat res" where
  "skip_string len cmd position =
     rbind (load8 cmd position) (\<lambda>c.
       if c \<noteq> quote \<and> position < len then
         if c = backslash then
           rbind (load8 cmd (position + 1)) (\<lambda>d.
             skip_string len cmd (if d = quote then position + 2 else position + 1))
         else skip_string len cmd (position + 1)
       else Inr position)"
  by pat_completeness auto
termination by (relation "measure (\<lambda>(len, cmd, position). len - position)") auto

function skip_word :: "nat \<Rightarrow> bytes \<Rightarrow> nat \<Rightarrow> nat res" where
  "skip_word len cmd position =
     rbind (load8 cmd position) (\<lambda>c.
       if \<not> blank c \<and> position < len then skip_word len cmd (position + 1) else Inr position)"
  by pat_completeness auto
termination by (relation "measure (\<lambda>(len, cmd, position). len - position)") auto

declare strip_blanks.simps [simp del] skip_string.simps [simp del] skip_word.simps [simp del]

text \<open>What the interpreter does that is seen outside: the text given to \<^verbatim>\<open>rt_kprintf\<close> (\<open>Print_format\<close>
  when the text is itself the format) and the call of a command with its arguments.\<close>

datatype 'f shell_event = Print bytes | Print_format bytes | Call 'f "bytes list"

fun c_strings :: "bytes \<Rightarrow> nat list \<Rightarrow> bytes list res" where
  "c_strings buf [] = Inr []"
| "c_strings buf (i # is) = rbind (c_string buf i) (\<lambda>s. rbind (c_strings buf is) (\<lambda>ss. Inr (s # ss)))"

definition too_many_args :: "bytes list \<Rightarrow> 'f shell_event list" where
  "too_many_args args =
     Print (ascii ''Too many args ! We only Use:'' @ [newline]) # map (\<lambda>s. Print (s @ [space])) args @ [Print [newline]]"

text \<open>The outer loop; \<open>argv\<close> holds the first \<^verbatim>\<open>argc\<close> entries of the array.\<close>


lemma rbind_cong [fundef_cong]:
  "m = m' \<Longrightarrow> (\<And>x. m' = Inr x \<Longrightarrow> f x = f' x) \<Longrightarrow> rbind m f = rbind m' f'"
  by (cases m') (auto simp: rbind_def)

lemma strip_blanks_stops:
  "strip_blanks len cmd p = Inr (cmd', p') \<Longrightarrow>
   p \<le> p' \<and> length cmd' = length cmd \<and> p' < length cmd \<and> (len \<le> p' \<or> \<not> blank (cmd' ! p'))"
proof (induction len cmd p rule: strip_blanks.induct)
  case (1 len cmd p)
  then show ?case
    by (subst (asm) (2) strip_blanks.simps)
      (fastforce simp: rbind_eq_Inr load8_def split: if_splits)
qed

lemma skip_string_mono: "skip_string len cmd p = Inr p' \<Longrightarrow> p \<le> p'"
proof (induction len cmd p rule: skip_string.induct)
  case (1 len cmd p)
  then show ?case
    by (subst (asm) (3) skip_string.simps) (fastforce simp: rbind_eq_Inr split: if_splits)
qed

lemma skip_word_mono: "skip_word len cmd p = Inr p' \<Longrightarrow> p \<le> p'"
proof (induction len cmd p rule: skip_word.induct)
  case (1 len cmd p)
  then show ?case
    by (subst (asm) (2) skip_word.simps) (fastforce simp: rbind_eq_Inr split: if_splits)
qed

lemma skip_word_less:
  "skip_word len cmd p = Inr p' \<Longrightarrow> p < len \<Longrightarrow> p < length cmd \<Longrightarrow> \<not> blank (cmd ! p) \<Longrightarrow> p < p'"
  by (subst (asm) skip_word.simps) (auto dest: skip_word_mono)

function split_loop :: "nat \<Rightarrow> bytes \<Rightarrow> nat \<Rightarrow> nat list \<Rightarrow> (bytes \<times> nat list \<times> 'f shell_event list) res" where
  "split_loop len cmd position argv =
     (if position < len then
        rbind (strip_blanks len cmd position) (\<lambda>(cmd, position).
          if FINSH_ARG_MAX \<le> length argv then
            rbind (c_strings cmd argv) (\<lambda>args. Inr (cmd, argv, too_many_args args))
          else if len \<le> position then Inr (cmd, argv, [])
          else rbind (load8 cmd position) (\<lambda>c.
            if c = quote then
              rbind (skip_string len cmd (position + 1)) (\<lambda>p.
                if len \<le> p then Inr (cmd, argv @ [position + 1], [])
                else rbind (store8 cmd p 0) (\<lambda>cmd. split_loop len cmd (p + 1) (argv @ [position + 1])))
            else
              rbind (skip_word len cmd position) (\<lambda>p.
                if len \<le> p then Inr (cmd, argv @ [position], [])
                else split_loop len cmd p (argv @ [position]))))
      else Inr (cmd, argv, []))"
  by pat_completeness auto
termination
  by (relation "measure (\<lambda>(len, cmd, position, argv). len - position)")
    (auto dest!: strip_blanks_stops skip_string_mono skip_word_less)

declare split_loop.simps [simp del]

definition msh_split :: "bytes \<Rightarrow> nat \<Rightarrow> (bytes \<times> nat list \<times> 'f shell_event list) res" where
  "msh_split cmd len = split_loop len cmd 0 []"

section \<open>Finding a command\<close>

record 'f finsh_syscall =
  name :: bytes
  desc :: bytes
  func :: 'f

definition cmd_prefix :: bytes where
  "cmd_prefix = ascii ''__cmd_''"

fun msh_get_cmd :: "'f finsh_syscall list \<Rightarrow> bytes \<Rightarrow> nat \<Rightarrow> 'f option res" where
  "msh_get_cmd [] cmd sz = Inr None"
| "msh_get_cmd (index # rest) cmd sz =
     (if \<not> strncmp_eq (name index @ [0]) (cmd_prefix @ [0]) 6 then msh_get_cmd rest cmd sz
      else if strncmp_eq (drop 6 (name index) @ [0]) cmd sz then
        rbind (load8 (name index @ [0]) (6 + sz)) (\<lambda>c.
          if c = 0 then Inr (Some (func index)) else msh_get_cmd rest cmd sz)
      else msh_get_cmd rest cmd sz)"

fun first_word_size :: "bytes \<Rightarrow> nat \<Rightarrow> nat res" where
  "first_word_size [] len = Inl Out_of_bounds"
| "first_word_size (c # cmd) len =
     (if \<not> blank c \<and> 0 < len then rbind (first_word_size cmd (len - 1)) (\<lambda>n. Inr (n + 1)) else Inr 0)"

section \<open>Executing a line\<close>

text \<open>The surroundings: the table of the exported functions, what a command does and returns, the content of
  a file (\<open>None\<close> when it cannot be opened), the names in a directory, the working directory, and whether the
  heap serves a request.\<close>

record ('f, 'w) shell_env =
  syscall_table :: "'f finsh_syscall list"
  run_command :: "'f \<Rightarrow> bytes list \<Rightarrow> 'w \<Rightarrow> int \<times> 'w"
  open_file :: "'w \<Rightarrow> bytes \<Rightarrow> bytes option"
  open_dir :: "'w \<Rightarrow> bytes \<Rightarrow> bytes list option"
  getcwd :: "'w \<Rightarrow> bytes"
  malloc_serves :: "'w \<Rightarrow> nat \<Rightarrow> bool"

text \<open>The result of \<^verbatim>\<open>_msh_exec_cmd\<close> is \<open>None\<close> for \<^verbatim>\<open>-RT_ERROR\<close>, in which case the buffer is as it was.\<close>

definition msh_exec_cmd ::
  "('f, 'w) shell_env \<Rightarrow> bytes \<Rightarrow> nat \<Rightarrow> 'w \<Rightarrow> (int \<times> 'f shell_event list \<times> 'w) option res" where
  "msh_exec_cmd env cmd len w =
     rbind (first_word_size cmd len) (\<lambda>cmd0_size.
       if cmd0_size = 0 then Inr None
       else rbind (msh_get_cmd (syscall_table env) cmd cmd0_size) (\<lambda>cmd_func.
         case cmd_func of None \<Rightarrow> Inr None
         | Some f \<Rightarrow>
             rbind (msh_split cmd len) (\<lambda>(cmd, argv, evs).
               if argv = [] then Inr None
               else rbind (c_strings cmd argv) (\<lambda>args.
                 case run_command env f args w of (ret, w) \<Rightarrow> Inr (Some (ret, evs @ [Call f args], w))))))"

text \<open>\<^verbatim>\<open>msh_readline\<close>: the line with the terminator the code writes (none when the line fills the buffer) and
  the rest of the file.\<close>

abbreviation (input) line_end :: "u8 \<Rightarrow> bool" where "line_end c \<equiv> c = newline \<or> c = return_key"

fun readline_loop :: "nat \<Rightarrow> bytes \<Rightarrow> bytes \<Rightarrow> bytes \<times> nat \<times> bytes" where
  "readline_loop sz line_buf content =
     (if length line_buf < sz then
        case content of [] \<Rightarrow> (line_buf @ [0], length line_buf, [])
        | c # content \<Rightarrow> if line_end c then (line_buf @ [0], length line_buf, content)
                     else readline_loop sz (line_buf @ [c]) content
      else (line_buf, length line_buf, content))"

declare readline_loop.simps [simp del]

definition msh_readline :: "bytes \<Rightarrow> nat \<Rightarrow> bytes \<times> nat \<times> bytes" where
  "msh_readline content sz =
     (case dropWhile (\<lambda>c. line_end c) content of [] \<Rightarrow> ([], 0, []) | c # content \<Rightarrow> readline_loop sz [c] content)"

lemma readline_loop_shrinks: "readline_loop sz l content = (b, n, content') \<Longrightarrow> length content' \<le> length content"
  by (induction sz l content rule: readline_loop.induct)
    (subst (asm) (2) readline_loop.simps, fastforce split: if_splits list.splits)

lemma msh_readline_shrinks: "msh_readline content sz = (b, n, content') \<Longrightarrow> 0 < n \<Longrightarrow> length content' < length content"
  using length_dropWhile_le [of "\<lambda>c. line_end c" content]
  by (auto simp: msh_readline_def dest!: readline_loop_shrinks split: list.splits)


text \<open>The last byte the loop over a line looked at: the first that is not blank, or the last of all.\<close>

fun script_char :: "u8 \<Rightarrow> bytes \<Rightarrow> u8" where
  "script_char ch [] = ch"
| "script_char ch (c # cs) = (if blank c then script_char c cs else c)"

abbreviation (input) RT_CONSOLEBUF_SIZE :: nat where "RT_CONSOLEBUF_SIZE \<equiv> 128"

function script_loop ::
  "(bytes \<Rightarrow> u32 \<Rightarrow> 'w \<Rightarrow> (int \<times> 'f shell_event list \<times> 'w) res) \<Rightarrow> bytes \<Rightarrow> 'w \<Rightarrow>
   ('f shell_event list \<times> 'w) res" where
  "script_loop exec content w =
     (case msh_readline content RT_CONSOLEBUF_SIZE of (line_buf, n, content') \<Rightarrow>
        if 0 < n then
          rbind (if script_char 0 (take n line_buf) \<noteq> of_char CHR ''#'' then exec line_buf (of_nat n) w
                 else Inr (0, [], w)) (\<lambda>(ret, evs, w).
            rbind (script_loop exec content' w) (\<lambda>(evs', w). Inr (evs @ evs', w)))
        else Inr ([], w))"
  by pat_completeness auto
termination
  by (relation "measure (\<lambda>(exec, content, w). length content)") (auto dest!: msh_readline_shrinks [OF sym])

declare script_loop.simps [simp del]

text \<open>\<^verbatim>\<open>strstr(s, t) != RT_NULL\<close>.\<close>

fun contains :: "bytes \<Rightarrow> bytes \<Rightarrow> bool" where
  "contains [] t \<longleftrightarrow> t = []"
| "contains (c # s) t \<longleftrightarrow> take (length t) (c # s) = t \<or> contains s t"

text \<open>\<open>None\<close> is a return value that is not 0: the line is not a script.\<close>

definition msh_exec_script ::
  "(bytes \<Rightarrow> u32 \<Rightarrow> 'w \<Rightarrow> (int \<times> 'f shell_event list \<times> 'w) res) \<Rightarrow> ('f, 'w) shell_env \<Rightarrow>
   bytes \<Rightarrow> int \<Rightarrow> 'w \<Rightarrow> ('f shell_event list \<times> 'w) option res" where
  "msh_exec_script exec env cmd_line sz w =
     (if sz = 0 then Inr None
      else rbind (first_word_size cmd_line (nat sz)) (\<lambda>cmd_length.
        if \<not> malloc_serves env w (cmd_length + 32) then Inr None
        else
          let pg_name = takeWhile (\<lambda>c. c \<noteq> 0) (take cmd_length cmd_line);
              fd = (if contains pg_name (ascii ''.sh'') \<or> contains pg_name (ascii ''.SH'')
                    then case open_file env w pg_name of Some content \<Rightarrow> Some content
                         | None \<Rightarrow> open_file env w (ascii ''/bin/'' @ pg_name)
                    else None)
          in case fd of None \<Rightarrow> Inr None
             | Some content \<Rightarrow>
                 if \<not> malloc_serves env w RT_CONSOLEBUF_SIZE \<and> dropWhile (\<lambda>c. line_end c) content \<noteq> []
                 then Inl Null_pointer
                 else rbind (script_loop exec content w) (\<lambda>r. Inr (Some r))))"

fun trim_blanks :: "bytes \<Rightarrow> u32 \<Rightarrow> (bytes \<times> u32) res" where
  "trim_blanks [] len = Inl Out_of_bounds"
| "trim_blanks (c # cmd) len = (if blank c then trim_blanks cmd (len - 1) else Inr (c # cmd, len))"

fun command_word :: "bytes \<Rightarrow> bytes res" where
  "command_word [] = Inl Out_of_bounds"
| "command_word (c # cmd) =
     (if c \<noteq> space \<and> c \<noteq> 0 then rbind (command_word cmd) (\<lambda>s. Inr (c # s)) else Inr [])"

definition exec_line ::
  "(bytes \<Rightarrow> u32 \<Rightarrow> 'w \<Rightarrow> (int \<times> 'f shell_event list \<times> 'w) res) \<Rightarrow> ('f, 'w) shell_env \<Rightarrow>
   bytes \<Rightarrow> u32 \<Rightarrow> 'w \<Rightarrow> (int \<times> 'f shell_event list \<times> 'w) res" where
  "exec_line exec env cmd len w =
     rbind (trim_blanks cmd len) (\<lambda>(cmd, len).
       if len = 0 then Inr (0, [], w)
       else rbind (msh_exec_cmd env cmd (unat len) w) (\<lambda>done.
         case done of Some r \<Rightarrow> Inr r
         | None \<Rightarrow> rbind (msh_exec_script exec env cmd (sint len) w) (\<lambda>script.
             case script of Some (evs, w) \<Rightarrow> Inr (0, evs, w)
             | None \<Rightarrow> rbind (command_word cmd) (\<lambda>s.
                 Inr (- 1, [Print (s @ ascii '': command not found.'' @ [newline])], w)))))"

text \<open>\<^verbatim>\<open>msh_exec\<close> calls itself on the lines of a script; the first argument is the number of scripts that the
  stack of the thread can hold within one another.\<close>

fun msh_exec ::
  "nat \<Rightarrow> ('f, 'w) shell_env \<Rightarrow> bytes \<Rightarrow> u32 \<Rightarrow> 'w \<Rightarrow> (int \<times> 'f shell_event list \<times> 'w) res" where
  "msh_exec 0 env = exec_line (\<lambda>cmd len w. Inl Stack_overflow) env"
| "msh_exec (Suc depth) env = exec_line (msh_exec depth env) env"

section \<open>Completing names\<close>

fun str_common :: "bytes \<Rightarrow> bytes \<Rightarrow> nat" where
  "str_common (a # s) (b # t) = (if a = b then str_common s t + 1 else 0)"
| "str_common s t = 0"

text \<open>One candidate in the loops of both completions: the first one is remembered, \<^verbatim>\<open>min_length\<close> shrinks to
  what all share.\<close>

definition common_step :: "bytes \<Rightarrow> nat \<times> bytes \<Rightarrow> nat \<times> bytes" where
  "common_step cand = (\<lambda>(min_length, first).
     let (min_length, first) = (if min_length = 0 then (length cand, cand) else (min_length, first));
         len = str_common first cand
     in (if len < min_length then len else min_length, first))"

text \<open>\<^verbatim>\<open>"%-16s - %s\n"\<close>.\<close>

definition help_line :: "'f finsh_syscall \<Rightarrow> bytes" where
  "help_line index = drop 6 (name index) @ replicate (16 - length (drop 6 (name index))) space @ ascii '' - '' @
     desc index @ [newline]"

definition is_cmd :: "'f finsh_syscall \<Rightarrow> bool" where
  "is_cmd index \<longleftrightarrow> strncmp_eq (name index @ [0]) (cmd_prefix @ [0]) 6"

definition msh_help :: "'f finsh_syscall list \<Rightarrow> 'f shell_event list" where
  "msh_help table =
     Print (ascii ''RT-Thread shell commands:'' @ [newline]) #
     map (\<lambda>index. Print (help_line index)) (filter is_cmd table) @ [Print [newline]]"

text \<open>The part of a path after its last slash, as the offset of its first byte.\<close>

fun last_slash :: "nat \<Rightarrow> nat \<Rightarrow> bytes \<Rightarrow> nat" where
  "last_slash i found [] = found"
| "last_slash i found (c # path) = last_slash (i + 1) (if c = slash then i + 1 else found) path"

text \<open>\<^verbatim>\<open>msh_auto_complete_path\<close> on the path at offset \<open>off\<close> of the buffer.\<close>

definition msh_auto_complete_path ::
  "('f, 'w) shell_env \<Rightarrow> 'w \<Rightarrow> bytes \<Rightarrow> nat \<Rightarrow> (bytes \<times> 'f shell_event list) res" where
  "msh_auto_complete_path env w buf off =
     (if \<not> malloc_serves env w 256 then Inr (buf, [])
      else rbind (c_string buf off) (\<lambda>path.
        let cwd = getcwd env w;
            start = (if path \<noteq> [] \<and> hd path = slash then Inr []
                     else if cwd = [] \<or> 256 \<le> length cwd then Inl Out_of_bounds
                     else Inr (if last cwd \<noteq> slash then cwd @ [slash] else cwd));
            dest = last_slash 0 0 path
        in rbind start (\<lambda>start.
          if 256 \<le> length start + dest then Inl Out_of_bounds
          else case open_dir env w (start @ take dest path) of None \<Rightarrow> Inr (buf, [])
          | Some entries \<Rightarrow>
              let index = drop dest path;
                  matching = filter (\<lambda>d. strncmp_eq (index @ [0]) (d @ [0]) (length index)) entries;
                  (min_length, full_path) = foldl (\<lambda>r d. common_step d r) (0, []) matching
              in if index = [] then Inr (buf, map (\<lambda>d. Print (d @ [newline])) entries)
                 else if min_length = 0 then Inr (buf, [])
                 else if 256 \<le> length full_path then Inl Out_of_bounds
                 else rbind (memcpy buf (off + dest) full_path 0 (int min_length)) (\<lambda>buf.
                   rbind (store8 buf (off + dest + min_length) 0) (\<lambda>buf.
                     Inr (buf, if min_length < length full_path then map (\<lambda>d. Print (d @ [newline])) matching
                               else []))))))"

text \<open>The offset of the last space that is not the first byte: where \<^verbatim>\<open>ptr\<close> stops on its way back.\<close>

fun last_space :: "bytes \<Rightarrow> nat \<Rightarrow> nat option" where
  "last_space prefix 0 = None"
| "last_space prefix (Suc i) =
     (if (prefix @ [0]) ! (Suc i) = space then Some (Suc i) else last_space prefix i)"

definition complete_command ::
  "'f finsh_syscall list \<Rightarrow> bytes \<Rightarrow> bytes \<Rightarrow> (bytes \<times> 'f shell_event list) res" where
  "complete_command table buf prefix =
     (let matching = filter (\<lambda>c. strncmp_eq (prefix @ [0]) (c @ [0]) (length prefix))
            (map (\<lambda>index. drop 6 (name index)) (filter is_cmd table));
          (min_length, name_ptr) = foldl (\<lambda>r c. common_step c r) (0, []) matching;
          evs = map (\<lambda>c. Print (c @ [newline])) matching
      in if matching = [] then Inr (buf, [])
         else rbind (memcpy buf 0 name_ptr 0 (int min_length)) (\<lambda>buf. Inr (buf, evs)))"

definition msh_auto_complete ::
  "('f, 'w) shell_env \<Rightarrow> 'w \<Rightarrow> bytes \<Rightarrow> (bytes \<times> 'f shell_event list) res" where
  "msh_auto_complete env w buf =
     rbind (c_string buf 0) (\<lambda>prefix.
       if prefix = [] then Inr (buf, msh_help (syscall_table env))
       else rbind (case last_space prefix (length prefix) of None \<Rightarrow> Inr (buf, [])
                   | Some i \<Rightarrow> msh_auto_complete_path env w buf (i + 1)) (\<lambda>(buf, evs).
         rbind (c_string buf 0) (\<lambda>prefix.
           rbind (complete_command (syscall_table env) buf prefix) (\<lambda>(buf, evs').
             Inr (buf, evs @ evs')))))"

end
