(* ===== verification/MshSplit.thy ===== *)
theory MshSplit
  imports Msh
begin

text \<open>
  What \<open>msh_split\<close> computes, stated on the text of the line alone: the arguments are its words, and the
  offsets the code stores point at them.
\<close>

section \<open>The words of a line\<close>

text \<open>A quoted word goes to the next quote that no backslash precedes (the backslash stays in it), or to the
  end of the line (\<open>None\<close>).\<close>

fun quoted :: "bytes \<Rightarrow> bytes \<times> bytes option" where
  "quoted [] = ([], None)"
| "quoted [c] = (if c = quote then ([], Some []) else ([c], None))"
| "quoted (c # d # s) =
     (if c = quote then ([], Some (d # s))
      else if c = backslash \<and> d = quote then (case quoted s of (t, r) \<Rightarrow> (c # d # t, r))
      else (case quoted (d # s) of (t, r) \<Rightarrow> (c # t, r)))"

lemma quoted_length: "quoted s = (t, Some r) \<Longrightarrow> length r < length s"
  by (induction s arbitrary: t rule: quoted.induct) (fastforce split: if_splits prod.splits)+

lemma dropWhile_Cons_length: "dropWhile P s = c # r \<Longrightarrow> length r < length s"
  using length_dropWhile_le [of P s] by simp

function line_words :: "bytes \<Rightarrow> bytes list" where
  "line_words s =
     (case dropWhile blank s of [] \<Rightarrow> []
      | c # r \<Rightarrow>
          if c = quote then (case quoted r of (t, None) \<Rightarrow> [t] | (t, Some r) \<Rightarrow> t # line_words r)
          else takeWhile (\<lambda>c. \<not> blank c) (c # r) # line_words (dropWhile (\<lambda>c. \<not> blank c) r))"
  by pat_completeness auto
termination
  by (relation "measure length")
    (auto dest!: quoted_length [OF sym] dropWhile_Cons_length
      intro: le_less_trans [OF length_dropWhile_le] less_trans)

declare line_words.simps [simp del]

section \<open>The inner loops\<close>

lemma strip_blanks_text:
  "0 \<notin> set rest \<Longrightarrow>
   strip_blanks (length pre + length rest) (pre @ rest @ 0 # post) (length pre) =
     Inr (pre @ replicate (length (takeWhile blank rest)) 0 @ dropWhile blank rest @ 0 # post,
          length pre + length (takeWhile blank rest))"
proof (induction rest arbitrary: pre)
  case Nil
  show ?case by (subst strip_blanks.simps) (simp add: blank_def)
next
  case (Cons c rest)
  have 0: "0 \<notin> set rest" using Cons.prems by simp
  show ?case
    using Cons.IH [OF 0, of "pre @ [0]"]
    by (subst strip_blanks.simps) (simp add: list_update_append)
qed

lemma skip_word_text:
  "0 \<notin> set rest \<Longrightarrow>
   skip_word (length pre + length rest) (pre @ rest @ 0 # post) (length pre) =
     Inr (length pre + length (takeWhile (\<lambda>c. \<not> blank c) rest))"
proof (induction rest arbitrary: pre)
  case Nil
  show ?case by (subst skip_word.simps) simp
next
  case (Cons c rest)
  have 0: "0 \<notin> set rest" using Cons.prems by simp
  show ?case
    using Cons.IH [OF 0, of "pre @ [c]"] by (subst skip_word.simps) simp
qed

lemma skip_string_text:
  "skip_string (length pre + length rest) (pre @ rest @ 0 # post) (length pre) =
     Inr (length pre + (case quoted rest of (t, _) \<Rightarrow> length t))"
proof (induction rest arbitrary: pre rule: quoted.induct)
  case 1
  show ?case by (subst skip_string.simps) simp
next
  case (2 c)
  show ?case
    by (subst skip_string.simps)
      (simp add: nth_append skip_string.simps [of "Suc (length pre)" _ "Suc (length pre)"])
next
  case (3 c d s)
  show ?case
    using 3(1) [of "pre @ [c, d]"] 3(2) [of "pre @ [c]"]
    by (subst skip_string.simps) (auto simp: nth_append split: prod.splits)
qed

lemma quoted_text:
  "quoted s = (t, None) \<Longrightarrow> t = s"
  "quoted s = (t, Some r) \<Longrightarrow> s = t @ quote # r"
  by (induction s arbitrary: t rule: quoted.induct) (auto split: if_splits prod.splits)

section \<open>Strings in a buffer\<close>

lemma c_string_append: "c_string xs i = Inr s \<Longrightarrow> c_string (xs @ ys) i = Inr s"
  by (auto simp: c_string_def takeWhile_append1 split: if_splits)

lemma c_strings_append: "c_strings xs is = Inr ss \<Longrightarrow> c_strings (xs @ ys) is = Inr ss"
  by (induction "is" arbitrary: ss) (auto simp: rbind_eq_Inr c_string_append)

lemma c_strings_snoc:
  "c_strings buf is = Inr ss \<Longrightarrow> c_string buf i = Inr s \<Longrightarrow> c_strings buf (is @ [i]) = Inr (ss @ [s])"
  by (induction "is" arbitrary: ss) (auto simp: rbind_eq_Inr)

lemma takeWhile_nul: "0 \<notin> set s \<Longrightarrow> takeWhile (\<lambda>c. c \<noteq> 0) (s @ 0 # post) = (s :: bytes)"
  by (induction s) auto

lemma c_string_at: "0 \<notin> set s \<Longrightarrow> i = length pre \<Longrightarrow> c_string (pre @ s @ 0 # post) i = Inr s"
  by (simp add: c_string_def takeWhile_nul)


section \<open>The loop\<close>

text \<open>At the head of the loop the words found so far end before the position, or at it when a blank is there.\<close>

definition words_found :: "bytes \<Rightarrow> bytes \<Rightarrow> nat list \<Rightarrow> bytes list \<Rightarrow> bool" where
  "words_found pre rest argv found \<longleftrightarrow>
     c_strings (pre @ [0]) argv = Inr found \<and>
     (rest = [] \<or> blank (hd rest) \<or> c_strings pre argv = Inr found)"

lemma words_found_stripped:
  assumes "words_found pre rest argv found" "dropWhile blank rest \<noteq> []"
  shows "c_strings (pre @ replicate (length (takeWhile blank rest)) 0) argv = Inr found"
proof (cases rest)
  case (Cons c r)
  then show ?thesis
    using assms c_strings_append [of "pre @ [0]" argv found]
    by (auto simp: words_found_def intro: c_strings_append split: if_splits)
qed (use assms in simp)

lemma words_found_end:
  assumes "words_found pre rest argv found" "dropWhile blank rest = []"
  shows "c_strings (pre @ replicate (length (takeWhile blank rest)) 0 @ 0 # post) argv = Inr found"
proof -
  have "c_strings (pre @ [0]) argv = Inr found" using assms by (simp add: words_found_def)
  then show ?thesis
    using c_strings_append [of "pre @ [0]" argv found]
    by (cases rest) (auto simp: replicate_app_Cons_same)
qed

lemma c_strings_length: "c_strings buf is = Inr ss \<Longrightarrow> length ss = length is"
  by (induction "is" arbitrary: ss) (auto simp: rbind_eq_Inr)

lemma takeWhile_not_in: "0 \<notin> set s \<Longrightarrow> 0 \<notin> set (takeWhile P s)"
  using set_takeWhileD by metis

lemma line_words_eq:
  "dropWhile blank s = [] \<Longrightarrow> line_words s = []"
  "dropWhile blank s = quote # r \<Longrightarrow> quoted r = (t, None) \<Longrightarrow> line_words s = [t]"
  "dropWhile blank s = quote # r \<Longrightarrow> quoted r = (t, Some r') \<Longrightarrow> line_words s = t # line_words r'"
  "dropWhile blank s = c # r \<Longrightarrow> c \<noteq> quote \<Longrightarrow>
   line_words s = (c # takeWhile (\<lambda>c. \<not> blank c) r) # line_words (dropWhile (\<lambda>c. \<not> blank c) r)"
proof -
  assume "dropWhile blank s = c # r" "c \<noteq> quote"
  moreover from this have "\<not> blank c" by (metis dropWhile_eq_Cons_conv)
  ultimately show "line_words s = (c # takeWhile (\<lambda>c. \<not> blank c) r) # line_words (dropWhile (\<lambda>c. \<not> blank c) r)"
    by (subst line_words.simps) simp
qed (subst line_words.simps, simp del: dropWhile_eq_Nil_conv)+

lemma length_takeWhile_dropWhile: "length (takeWhile P xs) + length (dropWhile P xs) = length xs"
  by (induction xs) auto

lemma split_word:
  assumes "strip_blanks len cmd p = Inr (P @ c # r @ 0 # post, length P)" "len = length P + Suc (length r)" "p < len"
    "length argv < FINSH_ARG_MAX"
  shows "(split_loop len cmd p argv :: (bytes \<times> nat list \<times> 'f shell_event list) res) =
    (if c = quote then
       case quoted r of
         (t, None) \<Rightarrow> Inr (P @ c # r @ 0 # post, argv @ [length P + 1], [])
       | (t, Some r') \<Rightarrow>
           split_loop len ((P @ c # t @ [0]) @ r' @ 0 # post) (length (P @ c # t @ [0])) (argv @ [length P + 1])
     else if blank c \<or> 0 \<in> set (c # r) then split_loop len cmd p argv
     else let w = takeWhile (\<lambda>c. \<not> blank c) (c # r); r' = dropWhile (\<lambda>c. \<not> blank c) r
       in if r' = [] then Inr (P @ c # r @ 0 # post, argv @ [length P], [])
          else split_loop len ((P @ w) @ r' @ 0 # post) (length (P @ w)) (argv @ [length P]))"
proof -
  have nle: "\<not> len \<le> length P" using assms(2) by simp
  have step: "(split_loop len cmd p argv :: (bytes \<times> nat list \<times> 'f shell_event list) res) =
    (if c = quote then
       rbind (skip_string len (P @ c # r @ 0 # post) (length P + 1)) (\<lambda>p.
         if len \<le> p then Inr (P @ c # r @ 0 # post, argv @ [length P + 1], [])
         else rbind (store8 (P @ c # r @ 0 # post) p 0) (\<lambda>cmd. split_loop len cmd (p + 1) (argv @ [length P + 1])))
     else
       rbind (skip_word len (P @ c # r @ 0 # post) (length P)) (\<lambda>p.
         if len \<le> p then Inr (P @ c # r @ 0 # post, argv @ [length P], [])
         else split_loop len (P @ c # r @ 0 # post) p (argv @ [length P])))"
    using nle assms(4)
    by (subst split_loop.simps, subst if_P [OF assms(3)], subst assms(1)) simp
  show ?thesis
  proof (cases "c = quote")
    case True
    have "skip_string len (P @ c # r @ 0 # post) (length P + 1) = Inr (length P + 1 + (case quoted r of (t, _) \<Rightarrow> length t))"
      using skip_string_text [of "P @ [c]" r post] assms(2) by simp
    then show ?thesis
      using True assms(2) step by (auto simp: list_update_append dest!: quoted_text split: prod.splits option.splits)
  next
    case False
    have le: "length r \<le> length (takeWhile (\<lambda>c. \<not> blank c) r) \<longleftrightarrow> dropWhile (\<lambda>c. \<not> blank c) r = []"
      using length_takeWhile_dropWhile [of "\<lambda>c. \<not> blank c" r]
      by (metis add_le_same_cancel1 le_zero_eq length_0_conv)
    have tw: "takeWhile (\<lambda>c. \<not> blank c) r @ dropWhile (\<lambda>c. \<not> blank c) r @ ys = r @ ys" for ys
      by (metis append.assoc takeWhile_dropWhile_id)
    show ?thesis
    proof (cases "blank c \<or> 0 \<in> set (c # r)")
      case nonblank: False
      then have "skip_word len (P @ c # r @ 0 # post) (length P) =
          Inr (length P + Suc (length (takeWhile (\<lambda>c. \<not> blank c) r)))"
        using skip_word_text [of "c # r" P post] assms(2) by simp
      then show ?thesis
        using False nonblank le assms(2) step by (simp add: Let_def tw del: dropWhile_eq_Nil_conv)
    qed (simp add: False)
  qed
qed

lemma split_loop_words:
  assumes "0 \<notin> set rest" "words_found pre rest argv found" "length found \<le> FINSH_ARG_MAX"
  shows "\<exists>buf argv' (evs :: 'f shell_event list). split_loop (length pre + length rest) (pre @ rest @ 0 # post) (length pre) argv =
           Inr (buf, argv', evs) \<and>
           c_strings buf argv' = Inr (take FINSH_ARG_MAX (found @ line_words rest)) \<and>
           (length (found @ line_words rest) < FINSH_ARG_MAX \<longrightarrow> evs = [])"
  using assms
proof (induction rest arbitrary: pre argv found rule: line_words.induct)
  case (1 rest)
  let ?k = "length (takeWhile blank rest)"
  let ?pre = "pre @ replicate ?k 0"
  note len = c_strings_length [of "pre @ [0]" argv found]
  have found: "length argv = length found" using 1(4) len by (simp add: words_found_def)
  have total: "length pre + length rest = length ?pre + length (dropWhile blank rest)"
    using length_takeWhile_dropWhile [of blank rest] by simp
  note strip = strip_blanks_text [OF 1(3), of pre post]
  show ?case
  proof (cases "rest = []")
    case True
    then show ?thesis
      using 1(4,5) c_strings_append [of "pre @ [0]" argv found post]
      by (subst split_loop.simps) (simp add: line_words_eq words_found_def)
  next
    case False
    then have go: "length pre < length pre + length rest" by simp
    let ?cmd = "?pre @ dropWhile blank rest @ 0 # post"
    have le: "length rest \<le> ?k \<longleftrightarrow> dropWhile blank rest = []" using total by (simp del: dropWhile_eq_Nil_conv)
    show ?thesis
    proof (cases "FINSH_ARG_MAX \<le> length argv \<or> dropWhile blank rest = []")
      case True
      have "c_strings ?cmd argv = Inr found"
        using c_strings_append [OF words_found_stripped [OF 1(4)], of "dropWhile blank rest @ 0 # post"]
          words_found_end [OF 1(4), of post]
        by (cases "dropWhile blank rest = []") (simp_all del: dropWhile_eq_Nil_conv)
      then show ?thesis
        using True 1(5) found le
        by (subst split_loop.simps, subst if_P [OF go], subst strip)
          (auto simp: line_words_eq simp del: dropWhile_eq_Nil_conv)
    next
      case False
      then obtain c r where cr: "dropWhile blank rest = c # r" and few: "length found < FINSH_ARG_MAX"
        using found by (cases "dropWhile blank rest") auto
      have start: "c_strings ?pre argv = Inr found" using words_found_stripped [OF 1(4)] cr by simp
      have r0: "0 \<notin> set r" "c \<noteq> 0" using 1(3) cr set_dropWhileD [of _ blank rest]
        by (metis list.set_intros)+
      define P where "P = ?pre"
      have L: "length pre + length rest = length P + Suc (length r)" using total cr by (simp add: P_def)
      have "strip_blanks (length pre + length rest) (pre @ rest @ 0 # post) (length pre) =
          Inr (P @ c # r @ 0 # post, length P)"
        using strip cr by (simp add: P_def)
      note step = split_word [where 'f = 'f, OF this L go, of argv, unfolded found, OF few]
      note startP = start [folded P_def]
      show ?thesis
      proof (cases "c = quote")
        case True
        obtain t q where q: "quoted r = (t, q)" by fastforce
        show ?thesis
        proof (cases q)
          case None
          have "c_strings (P @ c # r @ 0 # post) (argv @ [length P + 1]) = Inr (found @ [r])"
            using r0 c_string_at [of r "length P + 1" "P @ [c]" post]
            by (intro c_strings_snoc c_strings_append [OF startP]) simp_all
          then show ?thesis
            using step True few None q quoted_text(1) [of r t] line_words_eq(2) [of rest r t] cr
            by (simp del: dropWhile_eq_Nil_conv)
        next
          case (Some r')
          have r: "r = t @ quote # r'" using q Some quoted_text(2) by simp
          have "c_strings (P @ c # t @ [0]) (argv @ [length P + 1]) = Inr (found @ [t])"
            using r0 r c_string_at [of t "length P + 1" "P @ [c]" "[]"]
            by (intro c_strings_snoc c_strings_append [OF startP]) simp_all
          then have wf: "words_found (P @ c # t @ [0]) r' (argv @ [length P + 1]) (found @ [t])"
            using c_strings_append [of "P @ c # t @ [0]" _ _ "[0]"] by (simp add: words_found_def)
          have len: "length (P @ c # t @ [0]) + length r' = length pre + length rest" using L r by simp
          show ?thesis
            using 1(1) [OF cr True q [symmetric] Some _ wf] r0 r few step True q Some len line_words_eq(3) [of rest r t r'] cr
            by (simp del: dropWhile_eq_Nil_conv)
        qed
      next
        case False
        let ?w = "takeWhile (\<lambda>c. \<not> blank c) r" and ?r = "dropWhile (\<lambda>c. \<not> blank c) r"
        have nb: "\<not> blank c" using cr by (metis dropWhile_eq_Cons_conv)
        have rr: "r = ?w @ ?r" by simp
        have w0: "0 \<notin> set (c # ?w)" using r0 takeWhile_not_in [of r] by simp
        have wstr: "c_string (P @ (c # ?w) @ 0 # ys) (length P) = Inr (c # ?w)" for ys
          using w0 by (intro c_string_at) auto
        have found': "c_strings (P @ (c # ?w) @ 0 # ys) (argv @ [length P]) = Inr (found @ [c # ?w])" for ys
          by (intro c_strings_snoc c_strings_append [OF startP] wstr)
        show ?thesis
        proof (cases "?r = []")
          case True
          then have w: "?w = r" by (metis rr append_Nil2)
          show ?thesis
            using step False nb r0 few True found' [of post, unfolded w] line_words_eq(1) [of "[]"]
              line_words_eq(4) [OF cr False, unfolded w]
            by (simp del: dropWhile_eq_Nil_conv)
        next
          case nonempty: False
          have wf: "words_found (P @ c # ?w) ?r (argv @ [length P]) (found @ [c # ?w])"
            unfolding words_found_def using found' [of "[]"] hd_dropWhile [OF nonempty] by simp
          have len: "length (P @ c # ?w) + length ?r = length pre + length rest"
            using L length_takeWhile_dropWhile [of "\<lambda>c. \<not> blank c" r] by simp
          have r0': "0 \<notin> set ?r" using r0 set_dropWhileD by metis
          show ?thesis
            using 1(2) [OF cr False r0' wf] few step False nb r0 nonempty len line_words_eq(4) [OF cr False]
            by (simp add: Let_def del: dropWhile_eq_Nil_conv)
        qed
      qed
    qed
  qed
qed


text \<open>\<open>msh_split\<close> on a line that ends with its NUL.\<close>

lemma msh_split_text:
  assumes "0 \<notin> set text"
  shows "\<exists>buf argv (evs :: 'f shell_event list). msh_split (text @ 0 # post) (length text) = Inr (buf, argv, evs) \<and>
           c_strings buf argv = Inr (take FINSH_ARG_MAX (line_words text)) \<and>
           (length (line_words text) < FINSH_ARG_MAX \<longrightarrow> evs = [])"
  using split_loop_words [where 'f = 'f, OF assms, of "[]" "[]" "[]" post] assms
  by (simp add: msh_split_def words_found_def)

text \<open>Words that hold no blank, no quote and no NUL, each after one space, are split again.\<close>

definition plain_word :: "bytes \<Rightarrow> bool" where
  "plain_word w \<longleftrightarrow> w \<noteq> [] \<and> (\<forall>c \<in> set w. c \<noteq> 0 \<and> c \<noteq> quote \<and> \<not> blank c)"

fun typed_words :: "bytes list \<Rightarrow> bytes" where
  "typed_words [] = []"
| "typed_words [w] = w"
| "typed_words (w # ws) = w @ space # typed_words ws"

lemma line_words_word:
  assumes "plain_word w"
  shows "line_words w = [w]" "line_words (w @ space # s) = w # line_words (space # s)"
proof -
  obtain c r where w: "w = c # r" "\<not> blank c" "c \<noteq> quote" "\<forall>c \<in> set r. \<not> blank c"
    using assms by (cases w) (auto simp: plain_word_def)
  have "dropWhile blank w = c # r" "dropWhile blank (w @ space # s) = c # r @ space # s"
    using w by simp_all
  moreover have "dropWhile (\<lambda>c. \<not> blank c) r = []" "takeWhile (\<lambda>c. \<not> blank c) r = r" using w by simp_all
  ultimately
  show "line_words w = [w]" "line_words (w @ space # s) = w # line_words (space # s)"
    using w line_words_eq(1) [of "[]"] line_words_eq(4) [of w c r] line_words_eq(4) [of "w @ space # s" c]
    by (simp_all add: takeWhile_append2 dropWhile_append2 blank_def [of 32] del: dropWhile_eq_Nil_conv takeWhile_eq_all_conv)
qed

lemma line_words_space: "line_words (space # s) = line_words s"
  by (subst line_words.simps, subst (2) line_words.simps) (simp add: blank_def [of 32])

lemma line_words_typed: "list_all plain_word ws \<Longrightarrow> line_words (typed_words ws) = ws"
  by (induction ws rule: typed_words.induct) (simp_all add: line_words_eq(1) line_words_word line_words_space)


section \<open>Property\<close>

text \<open>C19: \<open>msh_split\<close> finds the words of a line. On a line without a NUL inside it, that ends with its NUL and whose
  length is given, the loop returns, makes no access outside of the array, and the strings at the offsets in
  \<^verbatim>\<open>argv\<close> in the buffer it leaves are the first \<^verbatim>\<open>FINSH_ARG_MAX\<close> words of the line: runs without blanks, or what
  stands between quotes. In particular every argument has been ended by a NUL that is no part of another one.
  Nothing is printed when there are fewer words than that.
\<close>

theorem msh_split_finds_words:
  assumes "0 \<notin> set ln"
  shows "\<exists>buf argv (evs :: 'f shell_event list). msh_split (ln @ 0 # post) (length ln) = Inr (buf, argv, evs) \<and>
           c_strings buf argv = Inr (take FINSH_ARG_MAX (line_words ln)) \<and>
           (length (line_words ln) < FINSH_ARG_MAX \<longrightarrow> evs = [])"
  by (rule msh_split_text [OF assms])

lemma msh_split_finds_words_witness:
  "\<exists>buf argv (evs :: nat shell_event list). msh_split (ascii ''echo hi'' @ 0 # [7]) 7 = Inr (buf, argv, evs) \<and>
     c_strings buf argv = Inr [ascii ''echo'', ascii ''hi''] \<and> evs = []"
proof -
  have "line_words (ascii ''echo hi'') = [ascii ''echo'', ascii ''hi'']"
    using line_words_typed [of "[ascii ''echo'', ascii ''hi'']"] by (simp add: ascii_def plain_word_def blank_def)
  moreover have "0 \<notin> set (ascii ''echo hi'')" "length (ascii ''echo hi'') = 7" by (simp_all add: ascii_def)
  ultimately show ?thesis using msh_split_finds_words [of "ascii ''echo hi''" "[7]"] by simp
qed

end
