(* ===== verification/MshRun.thy ===== *)
theory MshRun
  imports MshSplit "HOL-Library.Sublist"
begin

text \<open>
  What \<open>msh_exec\<close> and the completions compute on the text of a line: the command that is found, the call it
  gets, and the longest prefix that the candidates share.
\<close>

section \<open>Comparing strings\<close>

lemma strncmp_eq_prefix:
  assumes "0 \<notin> set p"
  shows "strncmp_eq (s @ [0]) (p @ ys) (length p) \<longleftrightarrow> prefix p s"
    and "strncmp_eq (p @ ys) (s @ [0]) (length p) \<longleftrightarrow> prefix p s"
  using assms
proof (induction p arbitrary: s)
  case (Cons a p)
  { case 1 then show ?case using Cons.IH(1) by (cases s) auto }
  { case 2 then show ?case using Cons.IH(2) by (cases s) auto }
qed auto

lemma cmd_prefix_eq: "cmd_prefix = [95, 95, 99, 109, 100, 95]"
  by (simp add: cmd_prefix_def ascii_def)

lemma is_cmd_prefix: "is_cmd index \<longleftrightarrow> prefix cmd_prefix (name index)"
proof -
  have "length cmd_prefix = 6" "0 \<notin> set cmd_prefix" by (simp_all add: cmd_prefix_eq)
  then show ?thesis using strncmp_eq_prefix(1) [of cmd_prefix "name index" "[0]"] unfolding is_cmd_def by metis
qed

section \<open>Finding a command\<close>

definition find_cmd :: "'f finsh_syscall list \<Rightarrow> bytes \<Rightarrow> 'f option" where
  "find_cmd table cmd = map_option func (find (\<lambda>index. name index = cmd_prefix @ cmd) table)"

lemma msh_get_cmd_finds:
  assumes "0 \<notin> set cmd" "\<forall>index \<in> set table. 0 \<notin> set (name index)"
  shows "msh_get_cmd table (cmd @ ys) (length cmd) = Inr (find_cmd table cmd)"
  using assms(2)
proof (induction table)
  case Nil
  show ?case by (simp add: find_cmd_def)
next
  case (Cons index table)
  have IH: "msh_get_cmd table (cmd @ ys) (length cmd) = Inr (find_cmd table cmd)" using Cons by simp
  show ?case
  proof (cases "prefix (cmd_prefix @ cmd) (name index)")
    case True
    then obtain r where r: "name index = cmd_prefix @ cmd @ r" by (auto simp: prefix_def)
    have "load8 (name index @ [0]) (6 + length cmd) = Inr (if r = [] then 0 else hd r)"
      using r by (cases r) (simp_all add: cmd_prefix_eq nth_append)
    moreover have "r \<noteq> [] \<Longrightarrow> hd r \<noteq> 0" using Cons.prems r by (cases r) auto
    ultimately show ?thesis
      using r IH is_cmd_prefix [of index] strncmp_eq_prefix(1) [OF assms(1), of "drop 6 (name index)" ys]
      by (auto simp: find_cmd_def is_cmd_def cmd_prefix_eq)
  next
    case False
    have ne: "name index \<noteq> cmd_prefix @ cmd" using False by auto
    have "\<not> (is_cmd index \<and> prefix cmd (drop 6 (name index)))"
    proof
      assume "is_cmd index \<and> prefix cmd (drop 6 (name index))"
      then obtain q r where "name index = cmd_prefix @ q" "drop 6 (name index) = cmd @ r"
        by (auto simp: is_cmd_prefix prefix_def)
      then have "name index = cmd_prefix @ cmd @ r" by (simp add: cmd_prefix_eq)
      then show False using False by (simp add: prefix_def)
    qed
    then show ?thesis
      using IH ne strncmp_eq_prefix(1) [OF assms(1), of "drop 6 (name index)" ys]
      by (auto simp: find_cmd_def is_cmd_def)
  qed
qed

section \<open>Executing a line\<close>

lemma first_word_size_text:
  "first_word_size (ln @ 0 # post) (length ln) = Inr (length (takeWhile (\<lambda>c. \<not> blank c) ln))"
  by (induction ln) (auto simp: blank_def)

lemma trim_blanks_text:
  "length ln < 2 ^ 32 \<Longrightarrow>
   trim_blanks (ln @ 0 # post) (of_nat (length ln)) =
     Inr (dropWhile blank ln @ 0 # post, of_nat (length (dropWhile blank ln)))"
  by (induction ln) (auto simp: blank_def)

lemma line_words_trim: "line_words (dropWhile blank ln) = line_words ln"
proof -
  have "dropWhile blank (dropWhile blank ln) = dropWhile blank ln"
    using hd_dropWhile [of blank ln] by (cases "dropWhile blank ln") auto
  then show ?thesis by (subst (1 2) line_words.simps) simp
qed

text \<open>The first word of a line that starts with a command is its first argument.\<close>

lemma first_word:
  assumes "find_cmd table (takeWhile (\<lambda>c. \<not> blank c) ln) \<noteq> None"
    "\<forall>index \<in> set table. quote \<notin> set (name index)" "ln \<noteq> []" "\<not> blank (hd ln)"
  shows "line_words ln \<noteq> []" "hd (line_words ln) = takeWhile (\<lambda>c. \<not> blank c) ln"
proof -
  obtain index where "index \<in> set table" "name index = cmd_prefix @ takeWhile (\<lambda>c. \<not> blank c) ln"
    using assms(1) by (auto simp: find_cmd_def find_Some_iff intro: that [OF nth_mem])
  then have "quote \<notin> set (takeWhile (\<lambda>c. \<not> blank c) ln)" using assms(2) by (metis Un_iff set_append)
  moreover obtain c r where "ln = c # r" "\<not> blank c" using assms(3,4) by (cases ln) auto
  ultimately have "dropWhile blank ln = c # r" "c \<noteq> quote" "takeWhile (\<lambda>c. \<not> blank c) ln = c # takeWhile (\<lambda>c. \<not> blank c) r"
    by auto
  from line_words_eq(4) [OF this(1,2)] this(3)
  show "line_words ln \<noteq> []" "hd (line_words ln) = takeWhile (\<lambda>c. \<not> blank c) ln" by simp_all
qed

lemma exec_line_runs:
  fixes env :: "('f, 'w) shell_env"
  defines "cmd0 \<equiv> \<lambda>ln. takeWhile (\<lambda>c. \<not> blank c) (dropWhile blank ln)"
  assumes "0 \<notin> set ln" "length ln < 2 ^ 31"
    "\<forall>index \<in> set (syscall_table env). 0 \<notin> set (name index) \<and> quote \<notin> set (name index)"
    "dropWhile blank ln \<noteq> []" "find_cmd (syscall_table env) (cmd0 ln) = Some f"
    "length (line_words ln) < FINSH_ARG_MAX" "run_command env f (line_words ln) w = (ret, w')"
  shows "exec_line exec env (ln @ 0 # post) (of_nat (length ln)) w = Inr (ret, [Call f (line_words ln)], w')"
proof -
  define s where "s = dropWhile blank ln"
  have s: "s \<noteq> []" "\<not> blank (hd s)" "0 \<notin> set s" "length s \<le> length ln"
    using assms(2,5) hd_dropWhile [of blank ln] set_dropWhileD [of 0 blank ln] length_dropWhile_le [of blank ln]
    by (auto simp: s_def)
  have len: "unat (of_nat (length s) :: u32) = length s" using s(4) assms(3) by (intro unat_small) simp
  have nz: "(of_nat (length s) :: u32) \<noteq> 0" using len s(1) by (metis length_0_conv unat_0)
  let ?c = "takeWhile (\<lambda>c. \<not> blank c) s"
  have split: "s = ?c @ dropWhile (\<lambda>c. \<not> blank c) s" by simp
  have c: "?c \<noteq> []" "0 \<notin> set ?c" using s takeWhile_not_in [of s] by (cases s; simp)+
  have get: "msh_get_cmd (syscall_table env) (s @ 0 # post) (length ?c) = Inr (Some f)"
    using msh_get_cmd_finds [OF c(2), of "syscall_table env" "dropWhile (\<lambda>c. \<not> blank c) s @ 0 # post"] assms(4,6)
    by (metis append.assoc cmd0_def s_def takeWhile_dropWhile_id)
  have words: "line_words s = line_words ln" by (simp add: s_def line_words_trim)
  have ne: "line_words s \<noteq> []" using first_word(1) [of "syscall_table env" s] s assms(4,6) by (simp add: cmd0_def s_def)
  obtain buf argv where sp: "msh_split (s @ 0 # post) (length s) = Inr (buf, argv, [] :: 'f shell_event list)"
      "c_strings buf argv = Inr (line_words s)"
    using msh_split_text [where 'f = 'f, OF s(3), of post] assms(7) words by auto
  have argv: "argv \<noteq> []" using sp(2) ne by (cases argv) auto
  have "msh_exec_cmd env (s @ 0 # post) (length s) w = Inr (Some (ret, [Call f (line_words ln)], w'))"
    using get sp argv c(1) assms(8) words by (simp add: msh_exec_cmd_def first_word_size_text)
  then show ?thesis
    using trim_blanks_text [of ln post] assms(3) len nz by (simp add: exec_line_def s_def)
qed

end
