(* ===== verification/Shell.thy ===== *)
theory Shell
  imports Msh
begin

text \<open>
  The shell thread of \<^verbatim>\<open>src/components/finsh/shell.c\<close> in the configuration of the board: the line editor with
  its cursor keys, the history of five lines, the prompt, completion and the execution of a line. A step
  takes one character of \<^verbatim>\<open>getchar\<close>; its result is the state, the state of the rest of the system and what
  was printed and called. The numbers of characters and lines are natural numbers: they stay below 81
  (\<open>shell_ok\<close>), far below the 16 bits of their fields.
\<close>

abbreviation (input) FINSH_CMD_SIZE :: nat where "FINSH_CMD_SIZE \<equiv> 80"
abbreviation (input) FINSH_HISTORY_LINES :: nat where "FINSH_HISTORY_LINES \<equiv> 5"

datatype input_stat = WAIT_NORMAL | WAIT_SPEC_KEY | WAIT_FUNC_KEY

record finsh_shell =
  stat :: input_stat
  echo_mode :: bool
  prompt_mode :: bool
  current_history :: nat
  history_count :: nat
  cmd_history :: "bytes list"
  line :: bytes
  line_position :: nat
  line_curpos :: nat

text \<open>\<^verbatim>\<open>rt_calloc\<close> in \<^verbatim>\<open>finsh_system_init\<close>, and \<^verbatim>\<open>finsh_set_prompt_mode(1)\<close>.\<close>

definition finsh_system_init :: "('w \<Rightarrow> nat \<Rightarrow> bool) \<Rightarrow> 'w \<Rightarrow> nat \<Rightarrow> finsh_shell option" where
  "finsh_system_init serves w shell_size =
     (if serves w shell_size
      then Some \<lparr> stat = WAIT_NORMAL, echo_mode = False, prompt_mode = True, current_history = 0, history_count = 0,
                 cmd_history = replicate FINSH_HISTORY_LINES (replicate FINSH_CMD_SIZE 0),
                 line = replicate FINSH_CMD_SIZE 0, line_position = 0, line_curpos = 0 \<rparr>
      else None)"

text \<open>The modes are fields of one bit: an even number switches off.\<close>

definition finsh_set_echo :: "u32 \<Rightarrow> finsh_shell \<Rightarrow> finsh_shell" where
  "finsh_set_echo echo s = s\<lparr>echo_mode := bit echo 0\<rparr>"

definition finsh_get_echo :: "finsh_shell \<Rightarrow> u32" where
  "finsh_get_echo s = of_bool (echo_mode s)"

definition finsh_set_prompt_mode :: "u32 \<Rightarrow> finsh_shell \<Rightarrow> finsh_shell" where
  "finsh_set_prompt_mode mode s = s\<lparr>prompt_mode := bit mode 0\<rparr>"

definition finsh_get_prompt_mode :: "finsh_shell \<Rightarrow> u32" where
  "finsh_get_prompt_mode s = of_bool (prompt_mode s)"

text \<open>\<^verbatim>\<open>finsh_prompt_custom\<close>, \<^verbatim>\<open>RT_NULL\<close> when there is none or no memory for the copy.\<close>

definition finsh_set_prompt :: "('w \<Rightarrow> nat \<Rightarrow> bool) \<Rightarrow> 'w \<Rightarrow> bytes option \<Rightarrow> bytes option" where
  "finsh_set_prompt serves w prompt =
     (case prompt of None \<Rightarrow> None | Some p \<Rightarrow> if serves w (length p + 1) then Some p else None)"

text \<open>\<open>cwd\<close> is the working directory, of which \<^verbatim>\<open>getcwd\<close> copies what fits behind \<^verbatim>\<open>"msh "\<close>. The array of the
  prompt has \<^verbatim>\<open>RT_CONSOLEBUF_SIZE + 1\<close> bytes, the last of them 0: a directory that fills the rest leaves no
  room for \<^verbatim>\<open>">"\<close>.\<close>

definition finsh_get_prompt :: "bytes option \<Rightarrow> bytes \<Rightarrow> finsh_shell \<Rightarrow> bytes res" where
  "finsh_get_prompt custom cwd s =
     (if \<not> prompt_mode s then Inr []
      else case custom of Some p \<Rightarrow> Inr (take RT_CONSOLEBUF_SIZE p)
      | None \<Rightarrow>
          if length cwd < RT_CONSOLEBUF_SIZE - 4 then Inr (ascii ''msh '' @ cwd @ ascii ''>'') else Inl Out_of_bounds)"

section \<open>History\<close>

text \<open>\<^verbatim>\<open>"\033[2K\r"\<close>, then the prompt and the line.\<close>

definition shell_handle_history :: "bytes res \<Rightarrow> finsh_shell \<Rightarrow> 'f shell_event list res" where
  "shell_handle_history prompt s =
     rbind (c_string (line s) 0) (\<lambda>text. rbind prompt (\<lambda>prompt.
       Inr [Print ([27] @ ascii ''[2K'' @ [return_key]), Print (prompt @ text)]))"

definition history_line :: "finsh_shell \<Rightarrow> bytes" where
  "history_line s = take (line_position s) (line s) @ replicate (FINSH_CMD_SIZE - line_position s) 0"

definition shell_push_history :: "finsh_shell \<Rightarrow> finsh_shell" where
  "shell_push_history s =
     (let s = (if line_position s \<noteq> 0 then
           if FINSH_HISTORY_LINES \<le> history_count s then
             if cmd_history s ! (FINSH_HISTORY_LINES - 1) \<noteq> line s then
               s\<lparr>cmd_history := tl (cmd_history s) @ [history_line s], history_count := FINSH_HISTORY_LINES\<rparr>
             else s
           else
             if history_count s = 0 \<or> cmd_history s ! (history_count s - 1) \<noteq> line s then
               s\<lparr>current_history := history_count s,
                 cmd_history := (cmd_history s)[history_count s := history_line s],
                 history_count := history_count s + 1\<rparr>
             else s
         else s)
      in s\<lparr>current_history := history_count s\<rparr>)"

definition recall_line :: "bytes res \<Rightarrow> finsh_shell \<Rightarrow> (finsh_shell \<times> 'f shell_event list) res" where
  "recall_line prompt s =
     (let s = s\<lparr>line := cmd_history s ! current_history s\<rparr>
      in rbind (c_string (line s) 0) (\<lambda>text.
           let s = s\<lparr>line_position := length text, line_curpos := length text\<rparr>
           in rbind (shell_handle_history prompt s) (\<lambda>evs. Inr (s, evs))))"

definition up_key :: "bytes res \<Rightarrow> finsh_shell \<Rightarrow> (finsh_shell \<times> 'f shell_event list) res" where
  "up_key prompt s =
     (if 0 < current_history s then recall_line prompt (s\<lparr>current_history := current_history s - 1\<rparr>)
      else Inr (s\<lparr>current_history := 0\<rparr>, []))"

text \<open>\<^verbatim>\<open>history_count - 1\<close> is an \<^verbatim>\<open>int\<close>: with an empty history it is negative.\<close>

definition down_key :: "bytes res \<Rightarrow> finsh_shell \<Rightarrow> (finsh_shell \<times> 'f shell_event list) res" where
  "down_key prompt s =
     (if int (current_history s) < int (history_count s) - 1
      then recall_line prompt (s\<lparr>current_history := current_history s + 1\<rparr>)
      else if history_count s \<noteq> 0 then recall_line prompt (s\<lparr>current_history := history_count s - 1\<rparr>)
      else Inr (s, []))"

section \<open>Editing\<close>

abbreviation (input) backspace :: u8 where "backspace \<equiv> 8"

definition left_key :: "finsh_shell \<Rightarrow> finsh_shell \<times> 'f shell_event list" where
  "left_key s =
     (if line_curpos s \<noteq> 0 then (s\<lparr>line_curpos := line_curpos s - 1\<rparr>, [Print [backspace]]) else (s, []))"

definition right_key :: "finsh_shell \<Rightarrow> (finsh_shell \<times> 'f shell_event list) res" where
  "right_key s =
     (if line_curpos s < line_position s
      then rbind (load8 (line s) (line_curpos s)) (\<lambda>c. Inr (s\<lparr>line_curpos := line_curpos s + 1\<rparr>, [Print [c]]))
      else Inr (s, []))"

definition erase_key :: "finsh_shell \<Rightarrow> (finsh_shell \<times> 'f shell_event list) res" where
  "erase_key s =
     (if line_curpos s = 0 then Inr (s, [])
      else
        let position = line_position s - 1; curpos = line_curpos s - 1 in
        if curpos < position then
          rbind (memcpy (line s) curpos (line s) (curpos + 1) (int (position - curpos))) (\<lambda>l.
            rbind (store8 l position 0) (\<lambda>l.
              rbind (c_string l curpos) (\<lambda>rest.
                Inr (s\<lparr>line := l, line_position := position, line_curpos := curpos\<rparr>,
                     Print ([backspace] @ rest @ [space, space, backspace]) #
                     replicate (position + 1 - curpos) (Print [backspace])))))
        else
          rbind (store8 (line s) position 0) (\<lambda>l.
            Inr (s\<lparr>line := l, line_position := position, line_curpos := curpos\<rparr>,
                 [Print [backspace, space, backspace]])))"

definition insert_key :: "u8 \<Rightarrow> finsh_shell \<Rightarrow> (finsh_shell \<times> 'f shell_event list) res" where
  "insert_key ch s =
     (let position = (if FINSH_CMD_SIZE \<le> line_position s then 0 else line_position s);
          curpos = line_curpos s
      in rbind (if curpos < position then
                  rbind (memcpy (line s) (curpos + 1) (line s) curpos (int (position - curpos))) (\<lambda>l.
                    rbind (store8 l curpos ch) (\<lambda>l.
                      rbind (if echo_mode s then rbind (c_string l curpos) (\<lambda>rest. Inr [Print rest]) else Inr [])
                        (\<lambda>evs. Inr (l, evs @ replicate (position - curpos) (Print [backspace])))))
                else
                  rbind (store8 (line s) position ch) (\<lambda>l. Inr (l, if echo_mode s then [Print [ch]] else [])))
           (\<lambda>(l, evs).
             let s = s\<lparr>line := l, line_position := position + 1, line_curpos := curpos + 1\<rparr>
             in Inr (if FINSH_CMD_SIZE \<le> line_position s then s\<lparr>line_position := 0, line_curpos := 0\<rparr> else s, evs)))"

definition shell_auto_complete ::
  "('f, 'w) shell_env \<Rightarrow> 'w \<Rightarrow> bytes res \<Rightarrow> bytes \<Rightarrow> (bytes \<times> 'f shell_event list) res" where
  "shell_auto_complete env w prompt buf =
     rbind (msh_auto_complete env w buf) (\<lambda>(buf, evs).
       rbind (c_string buf 0) (\<lambda>text.
         rbind prompt (\<lambda>prompt. Inr (buf, Print [newline] # evs @ [Print (prompt @ text)]))))"

definition complete_key ::
  "('f, 'w) shell_env \<Rightarrow> 'w \<Rightarrow> bytes res \<Rightarrow> finsh_shell \<Rightarrow> (finsh_shell \<times> 'f shell_event list) res" where
  "complete_key env w prompt s =
     rbind (shell_auto_complete env w prompt (line s)) (\<lambda>(l, evs).
       rbind (c_string l 0) (\<lambda>text.
         Inr (s\<lparr>line := l, line_position := length text, line_curpos := length text\<rparr>,
              replicate (line_curpos s) (Print [backspace]) @ evs)))"

text \<open>The prompt is printed anew in the working directory that the command leaves, as a format.\<close>

definition enter_key ::
  "nat \<Rightarrow> ('f, 'w) shell_env \<Rightarrow> bytes option \<Rightarrow> finsh_shell \<Rightarrow> 'w \<Rightarrow>
   (finsh_shell \<times> 'w \<times> 'f shell_event list) res" where
  "enter_key depth env custom s w =
     (let s = shell_push_history s;
          echo = (if echo_mode s then [Print [newline]] else [])
      in rbind (msh_exec depth env (line s) (of_nat (line_position s)) w) (\<lambda>(ret, evs, w).
           rbind (finsh_get_prompt custom (getcwd env w) s) (\<lambda>prompt.
             Inr (s\<lparr>line := replicate FINSH_CMD_SIZE 0, line_position := 0, line_curpos := 0\<rparr>, w,
                  echo @ evs @ [Print_format prompt]))))"

section \<open>One character\<close>

text \<open>The rest of the loop body, for the characters that are not part of the code of a cursor key.\<close>

definition plain_key ::
  "nat \<Rightarrow> ('f, 'w) shell_env \<Rightarrow> bytes option \<Rightarrow> u8 \<Rightarrow> finsh_shell \<Rightarrow> 'w \<Rightarrow>
   (finsh_shell \<times> 'w \<times> 'f shell_event list) res" where
  "plain_key depth env custom ch s w =
     (let stay = (\<lambda>r. rbind r (\<lambda>(s, evs). Inr (s, w, evs)))
      in if ch = 0 \<or> ch = 255 then Inr (s, w, [])
         else if ch = tab_key then stay (complete_key env w (finsh_get_prompt custom (getcwd env w) s) s)
         else if ch = 127 \<or> ch = backspace then stay (erase_key s)
         else if ch = return_key \<or> ch = newline then enter_key depth env custom s w
         else stay (insert_key ch s))"

definition finsh_key ::
  "nat \<Rightarrow> ('f, 'w) shell_env \<Rightarrow> bytes option \<Rightarrow> u8 \<Rightarrow> finsh_shell \<Rightarrow> 'w \<Rightarrow>
   (finsh_shell \<times> 'w \<times> 'f shell_event list) res" where
  "finsh_key depth env custom ch s w =
     (let prompt = finsh_get_prompt custom (getcwd env w) s;
          stay = (\<lambda>r. rbind r (\<lambda>(s, evs). Inr (s, w, evs)))
      in if ch = 27 then Inr (s\<lparr>stat := WAIT_SPEC_KEY\<rparr>, w, [])
         else case stat s of
           WAIT_SPEC_KEY \<Rightarrow>
             if ch = 91 then Inr (s\<lparr>stat := WAIT_FUNC_KEY\<rparr>, w, [])
             else plain_key depth env custom ch (s\<lparr>stat := WAIT_NORMAL\<rparr>) w
         | WAIT_FUNC_KEY \<Rightarrow>
             let s = s\<lparr>stat := WAIT_NORMAL\<rparr> in
             if ch = 65 then stay (up_key prompt s)
             else if ch = 66 then stay (down_key prompt s)
             else if ch = 68 then stay (Inr (left_key s))
             else if ch = 67 then stay (right_key s)
             else plain_key depth env custom ch s w
         | WAIT_NORMAL \<Rightarrow> plain_key depth env custom ch s w)"

text \<open>The thread: echo is switched on, the prompt is printed, then one step for each result of \<^verbatim>\<open>getchar\<close>, the
  negative ones (no character) left out.\<close>

fun finsh_loop ::
  "nat \<Rightarrow> ('f, 'w) shell_env \<Rightarrow> bytes option \<Rightarrow> int list \<Rightarrow> finsh_shell \<Rightarrow> 'w \<Rightarrow>
   (finsh_shell \<times> 'w \<times> 'f shell_event list) res" where
  "finsh_loop depth env custom [] s w = Inr (s, w, [])"
| "finsh_loop depth env custom (ch # chs) s w =
     (if ch < 0 then finsh_loop depth env custom chs s w
      else rbind (finsh_key depth env custom (word_of_int ch) s w) (\<lambda>(s, w, evs).
        rbind (finsh_loop depth env custom chs s w) (\<lambda>(s, w, evs'). Inr (s, w, evs @ evs'))))"

definition finsh_thread_entry ::
  "nat \<Rightarrow> ('f, 'w) shell_env \<Rightarrow> bytes option \<Rightarrow> int list \<Rightarrow> finsh_shell \<Rightarrow> 'w \<Rightarrow>
   (finsh_shell \<times> 'w \<times> 'f shell_event list) res" where
  "finsh_thread_entry depth env custom chs s w =
     (let s = s\<lparr>echo_mode := True\<rparr>
      in rbind (finsh_get_prompt custom (getcwd env w) s) (\<lambda>prompt.
           rbind (finsh_loop depth env custom chs s w) (\<lambda>(s, w, evs). Inr (s, w, Print_format prompt # evs))))"

end
