(* ===== verification/ShellEdit.thy ===== *)
theory ShellEdit
  imports Shell MshRun
begin

text \<open>
  What the line editor of the shell promises: a text as the characters before and after the cursor, with the
  lines entered before, and the proof that the array, the positions and the history of \<^verbatim>\<open>struct finsh_shell\<close>
  implement it as long as a line stays below \<^verbatim>\<open>FINSH_CMD_SIZE\<close>; and what a terminal shows of it.
\<close>

section \<open>The editor\<close>

record editor =
  before :: bytes
  after :: bytes
  past :: "bytes list"
  recall :: nat
  mode :: input_stat

abbreviation edited :: "editor \<Rightarrow> bytes" where
  "edited e \<equiv> before e @ after e"

definition ed_left :: "editor \<Rightarrow> editor" where
  "ed_left e = (if before e = [] then e else e\<lparr>before := butlast (before e), after := last (before e) # after e\<rparr>)"

definition ed_right :: "editor \<Rightarrow> editor" where
  "ed_right e = (if after e = [] then e else e\<lparr>before := before e @ [hd (after e)], after := tl (after e)\<rparr>)"

definition ed_erase :: "editor \<Rightarrow> editor" where
  "ed_erase e = e\<lparr>before := butlast (before e)\<rparr>"

definition ed_insert :: "u8 \<Rightarrow> editor \<Rightarrow> editor" where
  "ed_insert c e = e\<lparr>before := before e @ [c]\<rparr>"

definition ed_text :: "bytes \<Rightarrow> editor \<Rightarrow> editor" where
  "ed_text t e = e\<lparr>before := t, after := []\<rparr>"

definition ed_recall :: "nat \<Rightarrow> editor \<Rightarrow> editor" where
  "ed_recall i e = ed_text (past e ! i) (e\<lparr>recall := i\<rparr>)"

definition ed_up :: "editor \<Rightarrow> editor" where
  "ed_up e = (if recall e = 0 then e else ed_recall (recall e - 1) e)"

definition ed_down :: "editor \<Rightarrow> editor" where
  "ed_down e = (if past e = [] then e else ed_recall (min (recall e + 1) (length (past e) - 1)) e)"

text \<open>A line that is entered is remembered unless it is empty or the same as the one before; the last five stay.\<close>

definition remember :: "bytes \<Rightarrow> bytes list \<Rightarrow> bytes list" where
  "remember t h = (if t = [] \<or> h \<noteq> [] \<and> last h = t then h else drop (length h - (FINSH_HISTORY_LINES - 1)) h @ [t])"

definition ed_enter :: "editor \<Rightarrow> editor" where
  "ed_enter e = (let h = remember (edited e) (past e) in e\<lparr>past := h, recall := length h, before := [], after := []\<rparr>)"

section \<open>What the shell's state stands for\<close>

definition pad :: "bytes \<Rightarrow> bytes" where
  "pad t = t @ replicate (FINSH_CMD_SIZE - length t) 0"

definition is_line :: "bytes \<Rightarrow> bool" where
  "is_line t \<longleftrightarrow> 0 \<notin> set t \<and> length t < FINSH_CMD_SIZE"

definition shell_shows :: "finsh_shell \<Rightarrow> editor \<Rightarrow> bool" where
  "shell_shows s e \<longleftrightarrow>
     line s = pad (edited e) \<and> is_line (edited e) \<and> line_position s = length (edited e) \<and>
     line_curpos s = length (before e) \<and>
     length (cmd_history s) = FINSH_HISTORY_LINES \<and> history_count s = length (past e) \<and>
     length (past e) \<le> FINSH_HISTORY_LINES \<and> recall e \<le> length (past e) \<and> list_all is_line (past e) \<and>
     take (length (past e)) (cmd_history s) = map pad (past e) \<and> current_history s = recall e \<and> stat s = mode e"

lemma length_pad: "is_line t \<Longrightarrow> length (pad t) = FINSH_CMD_SIZE"
  by (simp add: pad_def is_line_def)

lemma c_string_pad:
  assumes "is_line t" "i \<le> length t"
  shows "c_string (pad t) i = Inr (drop i t)"
proof -
  obtain n where n: "FINSH_CMD_SIZE - length t = Suc n"
    using assms by (cases "FINSH_CMD_SIZE - length t") (auto simp: is_line_def)
  have "0 \<notin> set (drop i t)" using assms set_drop_subset [of i t] by (auto simp: is_line_def)
  then show ?thesis using assms n takeWhile_nul [of "drop i t"] by (simp add: c_string_def pad_def)
qed

lemma pad_update: "is_line (t @ [c]) \<Longrightarrow> (pad t)[length t := c] = pad (t @ [c])"
proof -
  assume "is_line (t @ [c])"
  then obtain n where "FINSH_CMD_SIZE - length t = Suc n" "FINSH_CMD_SIZE - Suc (length t) = n"
    by (cases "FINSH_CMD_SIZE - length t") (auto simp: is_line_def)
  then show ?thesis by (simp add: pad_def list_update_append)
qed

lemma pad_erase:
  assumes "is_line (t @ [c])"
  shows "(pad (t @ [c]))[length t := 0] = pad t"
proof -
  obtain n where "FINSH_CMD_SIZE - length t = Suc n" "FINSH_CMD_SIZE - Suc (length t) = n"
    using assms by (cases "FINSH_CMD_SIZE - length t") (auto simp: is_line_def)
  then show ?thesis by (simp add: pad_def list_update_append)
qed

lemma pad_insert:
  assumes "is_line (b @ c # a)"
  shows "(blit (pad (b @ a)) (length b + 1) a)[length b := c] = pad (b @ c # a)"
proof -
  obtain n where "FINSH_CMD_SIZE - (length b + length a) = Suc n" "FINSH_CMD_SIZE - Suc (length b + length a) = n"
    using assms by (cases "FINSH_CMD_SIZE - (length b + length a)") (auto simp: is_line_def)
  then show ?thesis by (cases a) (simp_all add: pad_def blit_def list_update_append take_Cons')
qed

lemma pad_remove:
  assumes "is_line (b @ c # a)" "a \<noteq> []"
  shows "(blit (pad (b @ c # a)) (length b) a)[length b + length a := 0] = pad (b @ a)"
proof -
  obtain n where n: "FINSH_CMD_SIZE - (length b + length a) = Suc n" "FINSH_CMD_SIZE - Suc (length b + length a) = n"
    using assms by (cases "FINSH_CMD_SIZE - (length b + length a)") (auto simp: is_line_def)
  have "drop (length a) (c # a @ xs) = last a # xs" for xs using assms(2) by (induction a arbitrary: c) auto
  then show ?thesis using n by (simp add: pad_def blit_def list_update_append)
qed

section \<open>The keys\<close>

abbreviation modes :: "finsh_shell \<Rightarrow> bool \<times> bool" where
  "modes s \<equiv> (echo_mode s, prompt_mode s)"

text \<open>What each key prints, in terms of the editor.\<close>

definition print_left :: "editor \<Rightarrow> 'f shell_event list" where
  "print_left e = (if before e = [] then [] else [Print [backspace]])"

definition print_right :: "editor \<Rightarrow> 'f shell_event list" where
  "print_right e = (if after e = [] then [] else [Print [hd (after e)]])"

definition print_erase :: "editor \<Rightarrow> 'f shell_event list" where
  "print_erase e =
     (if before e = [] then []
      else if after e = [] then [Print [backspace, space, backspace]]
      else Print ([backspace] @ after e @ [space, space, backspace]) # replicate (length (after e) + 1) (Print [backspace]))"

definition print_insert :: "bool \<Rightarrow> u8 \<Rightarrow> editor \<Rightarrow> 'f shell_event list" where
  "print_insert echo c e =
     (if after e = [] then if echo then [Print [c]] else []
      else (if echo then [Print (c # after e)] else []) @ replicate (length (after e)) (Print [backspace]))"

definition print_line :: "bytes \<Rightarrow> bytes \<Rightarrow> 'f shell_event list" where
  "print_line prompt t = [Print ([27] @ ascii ''[2K'' @ [return_key]), Print (prompt @ t)]"

lemma butlast_last_append: "b \<noteq> [] \<Longrightarrow> butlast b @ last b # a = b @ a"
  by (metis append_butlast_last_id append.assoc append_Cons append_Nil)

lemma left_key_edits:
  assumes "shell_shows s e"
  shows "\<exists>s'. left_key s = (s', print_left e :: 'f shell_event list) \<and> shell_shows s' (ed_left e) \<and> modes s' = modes s"
  using assms by (auto simp: butlast_last_append left_key_def print_left_def ed_left_def shell_shows_def)

lemma right_key_edits:
  assumes "shell_shows s e"
  shows "\<exists>s'. right_key s = Inr (s', print_right e :: 'f shell_event list) \<and> shell_shows s' (ed_right e) \<and> modes s' = modes s"
proof (cases "after e")
  case Nil
  then show ?thesis using assms by (auto simp: right_key_def print_right_def ed_right_def shell_shows_def)
next
  case (Cons c a)
  then have "load8 (line s) (line_curpos s) = Inr c" using assms by (auto simp: shell_shows_def pad_def nth_append)
  then show ?thesis
    using assms Cons by (auto simp: right_key_def print_right_def ed_right_def shell_shows_def)
qed

lemma erase_key_edits:
  assumes "shell_shows s e"
  shows "\<exists>s'. erase_key s = Inr (s', print_erase e :: 'f shell_event list) \<and> shell_shows s' (ed_erase e) \<and> modes s' = modes s"
proof (cases "before e" rule: rev_cases)
  case Nil
  then show ?thesis using assms by (auto simp: erase_key_def print_erase_def ed_erase_def shell_shows_def)
next
  case (snoc b c)
  have line: "is_line (b @ c # after e)" "line s = pad (b @ c # after e)" "line_curpos s = length b + 1"
      "line_position s = length b + length (after e) + 1"
    using assms snoc by (auto simp: shell_shows_def)
  have rest: "is_line (b @ after e)" using line(1) by (auto simp: is_line_def)
  show ?thesis
  proof (cases "after e = []")
    case True
    have "store8 (pad (b @ [c])) (length b) 0 = Inr (pad b)"
      using line(1) True length_pad [OF line(1)] pad_erase [of b c] by (simp add: is_line_def)
    then show ?thesis
      using assms snoc line rest True by (auto simp: erase_key_def print_erase_def ed_erase_def shell_shows_def Let_def)
  next
    case False
    have "memcpy (pad (b @ c # after e)) (length b) (pad (b @ c # after e)) (length b + 1) (int (length (after e))) =
        Inr (blit (pad (b @ c # after e)) (length b) (after e))"
      using line(1) length_pad [OF line(1)] by (subst memcpy_ok) (auto simp: is_line_def pad_def)
    moreover have "store8 (blit (pad (b @ c # after e)) (length b) (after e)) (length b + length (after e)) 0 =
        Inr (pad (b @ after e))"
      using pad_remove [OF line(1) False] length_pad [OF line(1)] line(1) by (subst store8_simps) (auto simp: is_line_def)
    moreover have "c_string (pad (b @ after e)) (length b) = Inr (after e)" using rest by (simp add: c_string_pad)
    ultimately show ?thesis
      using assms snoc line rest False by (auto simp: erase_key_def print_erase_def ed_erase_def shell_shows_def Let_def)
  qed
qed

lemma insert_key_edits:
  assumes "shell_shows s e" "c \<noteq> 0" "length (edited e) + 1 < FINSH_CMD_SIZE"
  shows "\<exists>s'. insert_key c s = Inr (s', print_insert (echo_mode s) c e :: 'f shell_event list) \<and>
           shell_shows s' (ed_insert c e) \<and> modes s' = modes s"
proof -
  have line: "line s = pad (before e @ after e)" "line_position s = length (before e) + length (after e)"
      "line_curpos s = length (before e)" "is_line (before e @ after e)"
    using assms by (auto simp: shell_shows_def)
  have new: "is_line (before e @ c # after e)" using line(4) assms(2,3) by (auto simp: is_line_def)
  show ?thesis
  proof (cases "after e = []")
    case True
    have "store8 (pad (before e)) (length (before e)) c = Inr (pad (before e @ [c]))"
      using pad_update [of "before e" c] new line(4) True length_pad [of "before e"] by (simp add: is_line_def)
    then show ?thesis
      using assms line new True by (auto simp: insert_key_def print_insert_def ed_insert_def shell_shows_def Let_def)
  next
    case False
    have "memcpy (pad (edited e)) (length (before e) + 1) (pad (edited e)) (length (before e)) (int (length (after e))) =
        Inr (blit (pad (edited e)) (length (before e) + 1) (after e))"
      using new length_pad [OF line(4)] by (subst memcpy_ok) (auto simp: is_line_def pad_def)
    moreover have "store8 (blit (pad (edited e)) (length (before e) + 1) (after e)) (length (before e)) c =
        Inr (pad (before e @ c # after e))"
      using pad_insert [OF new] length_pad [OF line(4)] new by (subst store8_simps) (auto simp: is_line_def)
    moreover have "c_string (pad (before e @ c # after e)) (length (before e)) = Inr (c # after e)"
      using new by (simp add: c_string_pad)
    ultimately show ?thesis
      using assms line new False by (auto simp: insert_key_def print_insert_def ed_insert_def shell_shows_def Let_def)
  qed
qed


section \<open>The history\<close>

lemma recall_line_edits:
  assumes "shell_shows s e" "i < length (past e)" "prompt = Inr p"
  shows "\<exists>s'. recall_line prompt (s\<lparr>current_history := i\<rparr>) = Inr (s', print_line p (past e ! i) :: 'f shell_event list) \<and>
           shell_shows s' (ed_recall i e) \<and> modes s' = modes s"
proof -
  have "take (length (past e)) (cmd_history s) ! i = map pad (past e) ! i"
    using assms(1) by (simp only: shell_shows_def)
  then have "cmd_history s ! i = pad (past e ! i)" "is_line (past e ! i)"
    using assms by (auto simp: shell_shows_def list_all_length)
  then show ?thesis
    using assms c_string_pad [of "past e ! i" 0]
    by (auto simp: recall_line_def shell_handle_history_def ed_recall_def ed_text_def print_line_def shell_shows_def Let_def)
qed

lemma up_key_edits:
  assumes "shell_shows s e" "prompt = Inr p"
  shows "\<exists>s'. up_key prompt s = Inr (s', (if recall e = 0 then [] else print_line p (edited (ed_up e))) :: 'f shell_event list) \<and>
           shell_shows s' (ed_up e) \<and> modes s' = modes s"
proof (cases "recall e = 0")
  case True
  then show ?thesis using assms by (auto simp: up_key_def ed_up_def shell_shows_def)
next
  case False
  then have "recall e - 1 < length (past e)" "current_history s = recall e" using assms by (auto simp: shell_shows_def)
  then show ?thesis
    using False recall_line_edits [where 'f = 'f, OF assms(1) _ assms(2), of "recall e - 1"]
    by (auto simp: up_key_def ed_up_def ed_recall_def ed_text_def)
qed

lemma down_key_edits:
  assumes "shell_shows s e" "prompt = Inr p"
  shows "\<exists>s'. down_key prompt s = Inr (s', (if past e = [] then [] else print_line p (edited (ed_down e))) :: 'f shell_event list) \<and>
           shell_shows s' (ed_down e) \<and> modes s' = modes s"
proof (cases "past e = []")
  case True
  then show ?thesis using assms by (auto simp: down_key_def ed_down_def shell_shows_def)
next
  case False
  let ?i = "min (recall e + 1) (length (past e) - 1)"
  have "?i < length (past e)" using False by (cases "past e") auto
  moreover have "current_history s = recall e" "history_count s = length (past e)"
    using assms by (auto simp: shell_shows_def)
  moreover have "down_key prompt s = (recall_line prompt (s\<lparr>current_history := ?i\<rparr>) :: (_ \<times> 'f shell_event list) res)"
    using False calculation by (auto simp: down_key_def min_def)
  ultimately show ?thesis
    using False recall_line_edits [where 'f = 'f, OF assms(1) _ assms(2), of ?i]
    by (auto simp: ed_down_def ed_recall_def ed_text_def)
qed

lemma pad_inj: "is_line t \<Longrightarrow> is_line u \<Longrightarrow> pad t = pad u \<longleftrightarrow> t = u"
  by (metis c_string_pad drop0 le0 sum.inject(2))

lemma push_history_edits:
  assumes "shell_shows s e"
  shows "shell_shows (shell_push_history s)
           (e\<lparr>past := remember (edited e) (past e), recall := length (remember (edited e) (past e))\<rparr>)"
    and "line (shell_push_history s) = line s" "line_position (shell_push_history s) = line_position s"
    and "echo_mode (shell_push_history s) = echo_mode s" "prompt_mode (shell_push_history s) = prompt_mode s"
proof -
  show "line (shell_push_history s) = line s" "line_position (shell_push_history s) = line_position s"
    "echo_mode (shell_push_history s) = echo_mode s" "prompt_mode (shell_push_history s) = prompt_mode s"
    by (auto simp: shell_push_history_def Let_def)
  have sh: "line s = pad (edited e)" "is_line (edited e)" "line_position s = length (edited e)"
    "length (cmd_history s) = FINSH_HISTORY_LINES" "history_count s = length (past e)"
    "length (past e) \<le> FINSH_HISTORY_LINES" "list_all is_line (past e)"
    "take (length (past e)) (cmd_history s) = map pad (past e)" "stat s = mode e" "line_curpos s = length (before e)"
    using assms by (auto simp: shell_shows_def)
  have hl: "history_line s = pad (edited e)" using sh by (simp add: history_line_def pad_def)
  have last: "cmd_history s ! (length (past e) - 1) = pad (last (past e))" "is_line (last (past e))" if "past e \<noteq> []"
  proof -
    have "cmd_history s ! (length (past e) - 1) = take (length (past e)) (cmd_history s) ! (length (past e) - 1)"
      using that by simp
    then show "cmd_history s ! (length (past e) - 1) = pad (last (past e))" using that sh by (simp add: last_conv_nth)
    show "is_line (last (past e))" using that sh(7) by (simp add: list_all_iff)
  qed
  show "shell_shows (shell_push_history s)
      (e\<lparr>past := remember (edited e) (past e), recall := length (remember (edited e) (past e))\<rparr>)"
  proof (cases "edited e = [] \<or> past e \<noteq> [] \<and> last (past e) = edited e")
    case True
    then show ?thesis
      using sh last by (auto simp: shell_push_history_def remember_def shell_shows_def Let_def pad_inj)
  next
    case False
    show ?thesis
    proof (cases "length (past e) = FINSH_HISTORY_LINES")
      case full: True
      then have "cmd_history s = map pad (past e)" using sh by simp
      then show ?thesis
        using False full sh last hl
        by (cases "past e") (auto simp: shell_push_history_def remember_def shell_shows_def Let_def pad_inj)
    next
      case room: False
      then have "take (Suc (length (past e))) ((cmd_history s)[length (past e) := pad (edited e)]) = map pad (past e @ [edited e])"
        using sh by (simp add: take_Suc_conv_app_nth)
      then show ?thesis
        using False room sh last hl
        by (auto simp: shell_push_history_def remember_def shell_shows_def Let_def pad_inj)
    qed
  qed
qed


section \<open>Typing\<close>

text \<open>One character, for as long as the line is edited: \<open>None\<close> when it is completed or entered, or gets too long.\<close>

definition ed_plain :: "u8 \<Rightarrow> editor \<Rightarrow> editor option" where
  "ed_plain c e =
     (if c = 0 \<or> c = 255 then Some e
      else if c = tab_key \<or> c = return_key \<or> c = newline then None
      else if c = 127 \<or> c = backspace then Some (ed_erase e)
      else if length (edited e) + 1 < FINSH_CMD_SIZE then Some (ed_insert c e) else None)"

definition ed_key :: "u8 \<Rightarrow> editor \<Rightarrow> editor option" where
  "ed_key c e =
     (if c = 27 then Some (e\<lparr>mode := WAIT_SPEC_KEY\<rparr>)
      else case mode e of
        WAIT_SPEC_KEY \<Rightarrow>
          if c = 91 then Some (e\<lparr>mode := WAIT_FUNC_KEY\<rparr>) else ed_plain c (e\<lparr>mode := WAIT_NORMAL\<rparr>)
      | WAIT_FUNC_KEY \<Rightarrow>
          let e = e\<lparr>mode := WAIT_NORMAL\<rparr> in
          if c = 65 then Some (ed_up e) else if c = 66 then Some (ed_down e)
          else if c = 68 then Some (ed_left e) else if c = 67 then Some (ed_right e)
          else ed_plain c e
      | WAIT_NORMAL \<Rightarrow> ed_plain c e)"

fun ed_keys :: "u8 list \<Rightarrow> editor \<Rightarrow> editor option" where
  "ed_keys [] e = Some e"
| "ed_keys (c # cs) e = (case ed_key c e of None \<Rightarrow> None | Some e \<Rightarrow> ed_keys cs e)"

definition print_plain :: "bool \<Rightarrow> u8 \<Rightarrow> editor \<Rightarrow> 'f shell_event list" where
  "print_plain echo c e =
     (if c = 0 \<or> c = 255 then [] else if c = 127 \<or> c = backspace then print_erase e else print_insert echo c e)"

definition print_key :: "bool \<Rightarrow> bytes \<Rightarrow> u8 \<Rightarrow> editor \<Rightarrow> 'f shell_event list" where
  "print_key echo p c e =
     (if c = 27 then []
      else case mode e of
        WAIT_SPEC_KEY \<Rightarrow> if c = 91 then [] else print_plain echo c e
      | WAIT_FUNC_KEY \<Rightarrow>
          if c = 65 then if recall e = 0 then [] else print_line p (edited (ed_up e))
          else if c = 66 then if past e = [] then [] else print_line p (edited (ed_down e))
          else if c = 68 then print_left e else if c = 67 then print_right e
          else print_plain echo c e
      | WAIT_NORMAL \<Rightarrow> print_plain echo c e)"

lemma shows_mode: "shell_shows s e \<Longrightarrow> shell_shows (s\<lparr>stat := m\<rparr>) (e\<lparr>mode := m\<rparr>)"
  by (simp add: shell_shows_def)

lemma print_mode [simp]:
  "print_left (e\<lparr>mode := m\<rparr>) = print_left e" "print_right (e\<lparr>mode := m\<rparr>) = print_right e"
  "print_plain b c (e\<lparr>mode := m\<rparr>) = print_plain b c e"
  "edited (ed_up (e\<lparr>mode := m\<rparr>)) = edited (ed_up e)" "edited (ed_down (e\<lparr>mode := m\<rparr>)) = edited (ed_down e)"
  by (simp_all add: print_left_def print_right_def print_plain_def print_erase_def print_insert_def ed_up_def ed_down_def
      ed_recall_def ed_text_def)

lemma plain_key_edits:
  assumes "shell_shows s e" "ed_plain c e = Some e'"
  shows "\<exists>s'. plain_key depth env custom c s w = Inr (s', w, print_plain (echo_mode s) c e :: 'f shell_event list) \<and>
           shell_shows s' e' \<and> modes s' = modes s"
  using assms(2) erase_key_edits [where 'f = 'f, OF assms(1)] insert_key_edits [where 'f = 'f, OF assms(1), of c]
    assms(1)
  by (auto simp: ed_plain_def plain_key_def print_plain_def Let_def split: if_splits)

lemma finsh_key_edits:
  assumes "shell_shows s e" "ed_key c e = Some e'" "finsh_get_prompt custom (getcwd env w) s = Inr p"
  shows "\<exists>s'. finsh_key depth env custom c s w = Inr (s', w, print_key (echo_mode s) p c e :: 'f shell_event list) \<and>
           shell_shows s' e' \<and> modes s' = modes s"
proof -
  have m: "stat s = mode e" using assms(1) by (simp add: shell_shows_def)
  note n = shows_mode [OF assms(1), of WAIT_NORMAL]
  note edits = up_key_edits [where 'f = 'f, OF n assms(3)] down_key_edits [where 'f = 'f, OF n assms(3)]
    left_key_edits [where 'f = 'f, OF n] right_key_edits [where 'f = 'f, OF n]
    plain_key_edits [where 'f = 'f, OF n, of c e' depth env custom w]
    plain_key_edits [where 'f = 'f, OF assms(1), of c e' depth env custom w]
  show ?thesis
    using assms(1,2) m edits shows_mode [OF assms(1), of WAIT_SPEC_KEY] shows_mode [OF assms(1), of WAIT_FUNC_KEY]
    by (cases "mode e") (auto simp: ed_key_def finsh_key_def print_key_def Let_def split: if_splits)
qed


fun print_keys :: "bool \<Rightarrow> bytes \<Rightarrow> u8 list \<Rightarrow> editor \<Rightarrow> 'f shell_event list" where
  "print_keys echo p [] e = []"
| "print_keys echo p (c # cs) e =
     print_key echo p c e @ (case ed_key c e of None \<Rightarrow> [] | Some e \<Rightarrow> print_keys echo p cs e)"

lemma finsh_get_prompt_modes: "modes s' = modes s \<Longrightarrow> finsh_get_prompt custom cwd s' = finsh_get_prompt custom cwd s"
  by (simp add: finsh_get_prompt_def)

lemma finsh_loop_append:
  "finsh_loop depth env custom cs s w = Inr (s1, w1, evs1) \<Longrightarrow> finsh_loop depth env custom ds s1 w1 = Inr (s2, w2, evs2) \<Longrightarrow>
   finsh_loop depth env custom (cs @ ds) s w = Inr (s2, w2, evs1 @ evs2)"
proof (induction cs arbitrary: s w evs1)
  case (Cons c cs)
  then show ?case
    by (cases "c < 0") (force simp: rbind_eq_Inr)+
qed simp

lemma finsh_loop_edits:
  assumes "shell_shows s e" "ed_keys cs e = Some e'" "finsh_get_prompt custom (getcwd env w) s = Inr p"
  shows "\<exists>s'. finsh_loop depth env custom (map uint cs) s w = Inr (s', w, print_keys (echo_mode s) p cs e :: 'f shell_event list) \<and>
           shell_shows s' e' \<and> modes s' = modes s"
  using assms
proof (induction cs arbitrary: s e)
  case (Cons c cs)
  then obtain e1 where e1: "ed_key c e = Some e1" "ed_keys cs e1 = Some e'" by (auto split: option.splits)
  obtain s1 where s1: "finsh_key depth env custom c s w = Inr (s1, w, print_key (echo_mode s) p c e :: 'f shell_event list)"
      "shell_shows s1 e1" "modes s1 = modes s"
    using finsh_key_edits [where 'f = 'f, OF Cons.prems(1) e1(1) Cons.prems(3), of depth] by blast
  obtain s2 where "finsh_loop depth env custom (map uint cs) s1 w = Inr (s2, w, print_keys (echo_mode s1) p cs e1 :: 'f shell_event list)"
      "shell_shows s2 e'" "modes s2 = modes s1"
    using Cons.IH [OF s1(2) e1(2)] finsh_get_prompt_modes [OF s1(3)] Cons.prems(3) by auto
  then show ?case using s1 e1 by simp
qed simp

section \<open>Entering a line\<close>

fun calls :: "'f shell_event list \<Rightarrow> ('f \<times> bytes list) list" where
  "calls [] = []"
| "calls (Call f args # evs) = (f, args) # calls evs"
| "calls (_ # evs) = calls evs"

lemma calls_append [simp]: "calls (xs @ ys) = calls xs @ calls ys"
  by (induction xs rule: calls.induct) auto

lemma calls_print [simp]:
  "calls (replicate n (Print p)) = []" "calls (print_key echo q c e) = []" "calls (print_keys echo q cs e) = []"
proof -
  show rep: "calls (replicate n (Print p)) = []" for n p by (induction n) auto
  have pl: "calls (print_plain echo c e) = []" for c e
    by (auto simp: print_plain_def print_erase_def print_insert_def rep)
  show key: "calls (print_key echo q c e) = []" for c e
    by (auto simp: print_key_def print_line_def print_left_def print_right_def pl split: input_stat.splits)
  show "calls (print_keys echo q cs e) = []"
    by (induction cs arbitrary: e) (auto simp: key split: option.splits)
qed

text \<open>The surroundings in which a line of text runs a command.\<close>

definition runs_as :: "('f, 'w) shell_env \<Rightarrow> bytes \<Rightarrow> 'f \<Rightarrow> bool" where
  "runs_as env t f \<longleftrightarrow>
     (\<forall>index \<in> set (syscall_table env). 0 \<notin> set (name index) \<and> quote \<notin> set (name index)) \<and>
     find_cmd (syscall_table env) (takeWhile (\<lambda>c. \<not> blank c) (dropWhile blank t)) = Some f \<and>
     dropWhile blank t \<noteq> [] \<and> length (line_words t) < FINSH_ARG_MAX"

lemma msh_exec_runs:
  assumes "runs_as env t f" "is_line t" "run_command env f (line_words t) w = (ret, w')"
  shows "msh_exec depth env (pad t) (of_nat (length t)) w = Inr (ret, [Call f (line_words t)], w')"
proof -
  obtain n where n: "pad t = t @ 0 # replicate n 0"
    using assms(2) by (cases "FINSH_CMD_SIZE - length t") (auto simp: is_line_def pad_def)
  show ?thesis
    using assms exec_line_runs [of t env f w ret w' _ "replicate n 0"]
    by (cases depth) (simp_all add: n runs_as_def is_line_def)
qed

lemma enter_key_runs:
  fixes env :: "('f, 'w) shell_env"
  assumes "shell_shows s e" "runs_as env (edited e) f" "run_command env f (line_words (edited e)) w = (ret, w')"
    "finsh_get_prompt custom (getcwd env w') s = Inr p"
  shows "\<exists>s' evs. enter_key depth env custom s w = Inr (s', w', evs) \<and> calls evs = [(f, line_words (edited e))] \<and>
           shell_shows s' (ed_enter e) \<and> modes s' = modes s"
proof -
  note push = push_history_edits [OF assms(1)]
  have sh: "is_line (edited e)" "line s = pad (edited e)" "line_position s = length (edited e)"
    using assms(1) by (auto simp: shell_shows_def)
  have prompt: "finsh_get_prompt custom (getcwd env w') (shell_push_history s) = Inr p"
    using assms(4) finsh_get_prompt_modes [of "shell_push_history s" s] push(4,5) by simp
  have empty: "replicate FINSH_CMD_SIZE 0 = pad []" by (simp add: pad_def)
  have "enter_key depth env custom s w =
      Inr ((shell_push_history s)\<lparr>line := pad [], line_position := 0, line_curpos := 0\<rparr>, w',
           (if echo_mode s then [Print [newline]] else []) @ [Call f (line_words (edited e)), Print_format p])"
    using msh_exec_runs [OF assms(2) sh(1) assms(3), of depth] push(2-4) sh(2,3) prompt
    unfolding enter_key_def Let_def empty by simp
  moreover have "shell_shows ((shell_push_history s)\<lparr>line := pad [], line_position := 0, line_curpos := 0\<rparr>) (ed_enter e)"
    using push(1) by (simp add: shell_shows_def ed_enter_def Let_def is_line_def)
  ultimately show ?thesis using push(4,5) by simp
qed


section \<open>The start\<close>

definition ed_empty :: editor where
  "ed_empty = \<lparr> before = [], after = [], past = [], recall = 0, mode = WAIT_NORMAL \<rparr>"

lemma finsh_system_init_shows: "finsh_system_init serves w n = Some s \<Longrightarrow> shell_shows s ed_empty"
  by (auto simp: finsh_system_init_def shell_shows_def ed_empty_def pad_def is_line_def split: if_splits)

text \<open>A shell with two commands on a counter, for the witnesses.\<close>

definition sample_table :: "nat finsh_syscall list" where
  "sample_table =
     [\<lparr>name = ascii ''__cmd_ps'', desc = ascii ''List threads'', func = 0\<rparr>,
      \<lparr>name = ascii ''version'', desc = ascii ''Show version'', func = 1\<rparr>,
      \<lparr>name = ascii ''__cmd_date'', desc = ascii ''Show date'', func = 2\<rparr>]"

definition sample_env :: "(nat, nat) shell_env" where
  "sample_env = \<lparr> syscall_table = sample_table, run_command = (\<lambda>f args w. (int f, w + length args)),
     open_file = (\<lambda>w path. None), open_dir = (\<lambda>w path. None), getcwd = (\<lambda>w. ascii ''/''),
     malloc_serves = (\<lambda>w n. True) \<rparr>"

definition sample_shell :: finsh_shell where
  "sample_shell = \<lparr> stat = WAIT_NORMAL, echo_mode = True, prompt_mode = True, current_history = 0, history_count = 0,
     cmd_history = replicate FINSH_HISTORY_LINES (replicate FINSH_CMD_SIZE 0),
     line = replicate FINSH_CMD_SIZE 0, line_position = 0, line_curpos = 0 \<rparr>"

lemma sample_shell_shows: "shell_shows sample_shell ed_empty"
  by (simp add: sample_shell_def shell_shows_def ed_empty_def pad_def is_line_def)

lemma sample_prompt: "finsh_get_prompt None (getcwd sample_env w) sample_shell = Inr (ascii ''msh />'')"
  by (simp add: finsh_get_prompt_def sample_env_def sample_shell_def ascii_def)

section \<open>Properties\<close>

text \<open>C17: The line editor implements an editor on the text before and after the cursor. From any state that stands
  for such a text, every sequence of characters, typed text, cursor keys, history keys and erasing mixed in
  any way, as long as no line reaches \<^verbatim>\<open>FINSH_CMD_SIZE\<close>, is handled without an access outside of the array
  and ends in the state that stands for the text the editor gives: arrow keys move over one character,
  typing inserts before the cursor, backspace removes the character before it, up and down replace the text
  by the lines entered before, and the bytes after the text are 0.
\<close>

theorem shell_keys_edit_line:
  assumes "shell_shows s e" "ed_keys cs e = Some e'" "finsh_get_prompt custom (getcwd env w) s = Inr p"
  shows "\<exists>s'. finsh_loop depth env custom (map uint cs) s w = Inr (s', w, print_keys (echo_mode s) p cs e) \<and>
           shell_shows s' e' \<and> echo_mode s' = echo_mode s \<and> prompt_mode s' = prompt_mode s"
  using finsh_loop_edits [OF assms, of depth] by auto

lemma shell_keys_edit_line_witness:
  "\<exists>s'. finsh_loop 1 sample_env None (map uint (ascii ''pq'' @ [27, 91, 68, 127] @ ascii ''s'')) sample_shell 7 =
          Inr (s', 7, print_keys True (ascii ''msh />'') (ascii ''pq'' @ [27, 91, 68, 127] @ ascii ''s'') ed_empty) \<and>
        shell_shows s' (ed_empty\<lparr>before := ascii ''s'', after := ascii ''q''\<rparr>)"
proof -
  have "ed_keys (ascii ''pq'' @ [27, 91, 68, 127] @ ascii ''s'') ed_empty =
      Some (ed_empty\<lparr>before := ascii ''s'', after := ascii ''q''\<rparr>)"
    by (simp add: ascii_def ed_key_def ed_plain_def ed_insert_def ed_left_def ed_erase_def ed_empty_def)
  from shell_keys_edit_line [OF sample_shell_shows this sample_prompt, of 1 7] show ?thesis
    by (auto simp: sample_shell_def)
qed

text \<open>C16: A line that was edited runs the command it names. After any editing keys and the return key, if the
  first word of the text is the name of an exported command (\<^verbatim>\<open>__cmd_\<close> before it in the table) and the text has
  fewer than ten words, exactly one command is called, that one, and it gets the words of the text, quotes
  respected, as its arguments; the line is empty again and the text is the newest of the history unless it
  was so already.
\<close>

theorem shell_runs_entered_line:
  assumes "shell_shows s e" "ed_keys cs e = Some e'" "runs_as env (edited e') f"
    "run_command env f (line_words (edited e')) w = (ret, w')"
    "finsh_get_prompt custom (getcwd env w) s = Inr p" "finsh_get_prompt custom (getcwd env w') s = Inr p'"
  shows "\<exists>s' evs. finsh_loop depth env custom (map uint (cs @ [return_key])) s w = Inr (s', w', evs) \<and>
           calls evs = [(f, line_words (edited e'))] \<and> shell_shows s' (ed_enter (e'\<lparr>mode := WAIT_NORMAL\<rparr>))"
proof -
  obtain s1 where s1: "finsh_loop depth env custom (map uint cs) s w = Inr (s1, w, print_keys (echo_mode s) p cs e)"
      "shell_shows s1 e'" "modes s1 = modes s"
    using finsh_loop_edits [OF assms(1,2,5), of depth] by blast
  let ?s = "s1\<lparr>stat := WAIT_NORMAL\<rparr>"
  have "finsh_get_prompt custom (getcwd env w') ?s = Inr p'"
    using finsh_get_prompt_modes [of ?s s] s1(3) assms(6) by simp
  then obtain s2 evs where s2: "enter_key depth env custom ?s w = Inr (s2, w', evs)" "calls evs = [(f, line_words (edited e'))]"
      "shell_shows s2 (ed_enter (e'\<lparr>mode := WAIT_NORMAL\<rparr>))"
    using enter_key_runs [OF shows_mode [OF s1(2), of WAIT_NORMAL], of env f w ret w' custom p' depth] assms(3,4) by auto
  have "finsh_key depth env custom return_key s1 w = enter_key depth env custom ?s w"
    by (cases s1, cases "stat s1") (simp_all add: finsh_key_def plain_key_def Let_def)
  then have "finsh_loop depth env custom [uint return_key] s1 w = Inr (s2, w', evs)" using s2(1) by simp
  from finsh_loop_append [OF s1(1) this] s2(2,3) show ?thesis by simp
qed

lemma shell_runs_entered_line_witness:
  "\<exists>s' evs. finsh_loop 1 sample_env None (map uint (ascii ''px -m'' @ [27, 91, 68, 27, 91, 68, 27, 91, 68, 8] @ ascii ''s'' @ [13]))
      sample_shell 7 = Inr (s', 9, evs) \<and> calls evs = [(0, [ascii ''ps'', ascii ''-m''])]"
proof -
  let ?e = "ed_empty\<lparr>before := ascii ''ps'', after := ascii '' -m''\<rparr>"
  have e: "ed_keys (ascii ''px -m'' @ [27, 91, 68, 27, 91, 68, 27, 91, 68, 8] @ ascii ''s'') ed_empty = Some ?e"
    by (simp add: ascii_def ed_key_def ed_plain_def ed_insert_def ed_left_def ed_erase_def ed_empty_def)
  have words: "line_words (edited ?e) = [ascii ''ps'', ascii ''-m'']"
    using line_words_typed [of "[ascii ''ps'', ascii ''-m'']"] by (simp add: ascii_def plain_word_def blank_def)
  have "runs_as sample_env (edited ?e) 0"
    unfolding runs_as_def words
    by (simp add: sample_env_def sample_table_def ascii_def blank_def find_cmd_def cmd_prefix_def)
  moreover have "run_command sample_env 0 (line_words (edited ?e)) 7 = (0, 9)"
    unfolding words by (simp add: sample_env_def)
  ultimately show ?thesis
    using shell_runs_entered_line [OF sample_shell_shows e _ _ sample_prompt sample_prompt, of 0 7 0 9 1]
    unfolding words append_assoc by blast
qed

end
