(* ===== verification/ShellScreen.thy ===== *)
theory ShellScreen
  imports ShellEdit
begin

text \<open>
  The line a terminal shows while the shell edits it: the row is the prompt and the text, the cursor stands
  where the next character goes in. The terminal is a row of characters and a column; it knows backspace,
  carriage return, line feed (which the console turns into a new line) and the sequence that erases the row.
\<close>

section \<open>A terminal\<close>

record terminal =
  row :: bytes
  col :: nat

definition show_char :: "u8 \<Rightarrow> terminal \<Rightarrow> terminal" where
  "show_char c t =
     (if c = backspace then t\<lparr>col := col t - 1\<rparr>
      else if c = return_key then t\<lparr>col := 0\<rparr>
      else if c = newline then \<lparr> row = [], col = 0 \<rparr>
      else \<lparr> row = take (col t) (row t @ replicate (col t - length (row t)) space) @ [c] @ drop (col t + 1) (row t),
             col = col t + 1 \<rparr>)"

function show_text :: "bytes \<Rightarrow> terminal \<Rightarrow> terminal" where
  "show_text [] t = t"
| "show_text (c # cs) t =
     (if c = 27 \<and> take 3 cs = ascii ''[2K'' then show_text (drop 3 cs) (t\<lparr>row := []\<rparr>)
      else show_text cs (show_char c t))"
  by pat_completeness auto
termination by (relation "measure (\<lambda>(cs, t). length cs)") auto

text \<open>A format without a directive is printed as it is; what a command prints is not part of this.\<close>

fun show_events :: "'f shell_event list \<Rightarrow> terminal \<Rightarrow> terminal" where
  "show_events [] t = t"
| "show_events (Print p # evs) t = show_events evs (show_text p t)"
| "show_events (Print_format p # evs) t = show_events evs (show_text p t)"
| "show_events (Call f args # evs) t = show_events evs t"

definition printable :: "u8 \<Rightarrow> bool" where
  "printable c \<longleftrightarrow> 32 \<le> c \<and> c < 127"

text \<open>The row may end with spaces that an erased character left.\<close>

definition on_screen :: "bytes \<Rightarrow> editor \<Rightarrow> terminal \<Rightarrow> bool" where
  "on_screen p e t \<longleftrightarrow> (\<exists>n. row t = p @ edited e @ replicate n space) \<and> col t = length p + length (before e)"

lemma show_events_append [simp]: "show_events (xs @ ys) t = show_events ys (show_events xs t)"
  by (induction xs t rule: show_events.induct) auto



lemma show_backspaces [simp]: "show_events (replicate n (Print [backspace])) t = t\<lparr>col := col t - n\<rparr>"
  by (induction n arbitrary: t) (simp_all add: show_char_def)

section \<open>The keys on the screen\<close>

definition all_printable :: "bytes \<Rightarrow> editor \<Rightarrow> bool" where
  "all_printable p e \<longleftrightarrow> list_all printable p \<and> list_all printable (edited e) \<and> list_all (list_all printable) (past e)"








section \<open>Every key\<close>


lemma on_screen_mode [simp]: "on_screen p (e\<lparr>mode := m\<rparr>) t = on_screen p e t"
  "all_printable p (e\<lparr>mode := m\<rparr>) = all_printable p e"
  by (simp_all add: on_screen_def all_printable_def)










end
