(* ===== verification/ShellTab.thy ===== *)
theory ShellTab
  imports ShellEdit
begin

text \<open>
  Completion: the tab key replaces a first word by the longest prefix that the matching commands share; and
  what happens to a line, or a path, that outgrows the line buffer.
\<close>

section \<open>The common prefix\<close>

lemma take_str_common: "take (str_common s t) s = longest_common_prefix s t" "str_common s t \<le> length s"
  by (induction s t rule: str_common.induct) auto

lemma str_common_self [simp]: "str_common s s = length s"
  by (induction s) auto

lemma common_step_extends:
  assumes "take k m = Longest_common_prefix L" "L \<noteq> {}" "0 < k" "k \<le> length m" "p \<noteq> []" "prefix p m" "prefix p c"
  shows "\<exists>k'. common_step c (k, m) = (k', m) \<and> take k' m = Longest_common_prefix (insert c L) \<and> 0 < k' \<and> k' \<le> length m"
proof -
  let ?l = "str_common m c"
  have step: "common_step c (k, m) = (min ?l k, m)" using assms(3) by (simp add: common_step_def min_def Let_def)
  have lcp: "take ?l m = longest_common_prefix m c" by (rule take_str_common)
  have "prefix p (take ?l m)" unfolding lcp by (rule longest_common_prefix_max_prefix [OF assms(6,7)])
  then have "0 < ?l" using assms(5) prefix_length_le [of p "take ?l m"] by (cases ?l) auto
  moreover have "Longest_common_prefix (insert c L) = take (min ?l k) m"
  proof (intro Longest_common_prefix_eq ballI allI impI)
    fix xs assume "xs \<in> insert c L"
    then consider "xs = c" | "xs \<in> L" by auto
    then show "prefix (take (min ?l k) m) xs"
    proof cases
      case 1
      have "prefix (take (min ?l k) m) (take ?l m)" using take_is_prefix [of k "take ?l m"] by (simp add: min.commute)
      then show ?thesis using 1 longest_common_prefix_prefix2 [of m c] lcp by (metis prefix_order.trans)
    next
      case 2
      have "prefix (take (min ?l k) m) (take k m)" using take_is_prefix [of ?l "take k m"] by simp
      then show ?thesis using 2 Longest_common_prefix_prefix [of xs L] assms(1) by (metis prefix_order.trans)
    qed
  next
    fix qs assume qs: "\<forall>xs \<in> insert c L. prefix qs xs"
    then have L: "prefix qs (take k m)" using Longest_common_prefix_max_prefix [OF assms(2)] assms(1) by simp
    then have "prefix qs m" using take_is_prefix prefix_order.trans by blast
    then have "prefix qs (take ?l m)" unfolding lcp using qs by (intro longest_common_prefix_max_prefix) simp_all
    then show "length qs \<le> length (take (min ?l k) m)" using L by (auto dest!: prefix_length_le)
  qed simp
  ultimately show ?thesis using step assms(3,4) by simp
qed

lemma common_fold:
  assumes "p \<noteq> []" "\<forall>c \<in> set (m # ms). prefix p c"
  shows "\<exists>k. foldl (\<lambda>r c. common_step c r) (0, []) (m # ms) = (k, m) \<and>
           take k m = Longest_common_prefix (set (m # ms)) \<and> 0 < k \<and> k \<le> length m"
  using assms(2)
proof (induction ms rule: rev_induct)
  case Nil
  then have "m \<noteq> []" using assms(1) by auto
  moreover have "Longest_common_prefix {m} = m" by (intro Longest_common_prefix_eq) (auto dest: prefix_length_le)
  ultimately show ?case by (simp add: common_step_def Let_def)
next
  case (snoc c ms)
  then obtain k where k: "foldl (\<lambda>r c. common_step c r) (0, []) (m # ms) = (k, m)"
      "take k m = Longest_common_prefix (set (m # ms))" "0 < k" "k \<le> length m" by auto
  from common_step_extends [OF k(2) _ k(3,4) assms(1), of c] snoc.prems k(1) show ?case
    by (auto simp: insert_commute)
qed

section \<open>Completing a command\<close>

definition command_names :: "'f finsh_syscall list \<Rightarrow> bytes list" where
  "command_names table = map (\<lambda>index. drop 6 (name index)) (filter is_cmd table)"

definition matching_commands :: "'f finsh_syscall list \<Rightarrow> bytes \<Rightarrow> bytes list" where
  "matching_commands table p = filter (prefix p) (command_names table)"

lemma pad_complete:
  assumes "is_line t" "length t \<le> k" "k < FINSH_CMD_SIZE" "k \<le> length m" "0 \<notin> set m"
  shows "memcpy (pad t) 0 m 0 (int k) = Inr (pad (take k m))" "is_line (take k m)"
proof -
  have "drop k (pad t) = replicate (FINSH_CMD_SIZE - k) 0" using assms(1-3) by (simp add: pad_def is_line_def)
  then show "memcpy (pad t) 0 m 0 (int k) = Inr (pad (take k m))"
    using assms(3,4) length_pad [OF assms(1)] by (subst memcpy_ok) (simp_all add: blit_def pad_def)
  show "is_line (take k m)" using assms(3-5) set_take_subset [of k m] by (auto simp: is_line_def)
qed

definition names_ok :: "'f finsh_syscall list \<Rightarrow> bool" where
  "names_ok table \<longleftrightarrow> (\<forall>c \<in> set (command_names table). is_line c)"

lemma complete_command_text:
  fixes table :: "'f finsh_syscall list"
  assumes "is_line t" "t \<noteq> []" "names_ok table"
  shows "matching_commands table t = [] \<Longrightarrow> complete_command table (pad t) t = Inr (pad t, [] :: 'f shell_event list)"
    and "matching_commands table t \<noteq> [] \<Longrightarrow>
      is_line (Longest_common_prefix (set (matching_commands table t))) \<and>
      complete_command table (pad t) t = Inr (pad (Longest_common_prefix (set (matching_commands table t))),
        map (\<lambda>c. Print (c @ [newline])) (matching_commands table t) :: 'f shell_event list)"
proof -
  have t0: "0 \<notin> set t" using assms(1) by (simp add: is_line_def)
  have m: "filter (\<lambda>c. strncmp_eq (t @ [0]) (c @ [0]) (length t)) (map (\<lambda>index. drop 6 (name index)) (filter is_cmd table)) =
      matching_commands table t"
    by (simp add: matching_commands_def command_names_def strncmp_eq_prefix(2) [OF t0])
  show "matching_commands table t = [] \<Longrightarrow> complete_command table (pad t) t = Inr (pad t, [] :: 'f shell_event list)"
    using m by (simp add: complete_command_def Let_def)
  assume ne: "matching_commands table t \<noteq> []"
  then obtain c cs where c: "matching_commands table t = c # cs" by (cases "matching_commands table t") auto
  have pre: "\<forall>d \<in> set (c # cs). prefix t d" unfolding c [symmetric] by (auto simp: matching_commands_def)
  obtain k where k: "foldl (\<lambda>r c. common_step c r) (0, []) (c # cs) = (k, c)"
      "take k c = Longest_common_prefix (set (c # cs))" "k \<le> length c"
    using common_fold [OF assms(2) pre] by blast
  have "c \<in> set (command_names table)" 
    using arg_cong [OF c, of set] by (auto simp: matching_commands_def)
  then have line: "is_line c" using assms(3) by (simp add: names_ok_def)
  have "prefix t (take k c)" unfolding k(2) using pre by (intro Longest_common_prefix_max_prefix) auto
  then have "length t \<le> k" using prefix_length_le [of t "take k c"] k(3) by simp
  from pad_complete [OF assms(1) this, of c] k line c m
  show "is_line (Longest_common_prefix (set (matching_commands table t))) \<and>
      complete_command table (pad t) t = Inr (pad (Longest_common_prefix (set (matching_commands table t))),
        map (\<lambda>c. Print (c @ [newline])) (matching_commands table t) :: 'f shell_event list)"
    by (simp add: complete_command_def is_line_def del: foldl_Cons)
qed

lemma last_space_none: "space \<notin> set t \<Longrightarrow> i \<le> length t \<Longrightarrow> last_space t i = None"
proof (induction i)
  case (Suc i)
  have "(t @ [0]) ! Suc i \<noteq> space"
    using Suc.prems by (cases "Suc i < length t") (auto simp: nth_append dest: nth_mem)
  then show ?case using Suc by simp
qed simp

lemma msh_auto_complete_text:
  assumes "is_line t" "t \<noteq> []" "space \<notin> set t" "names_ok (syscall_table env)"
  shows "msh_auto_complete env w (pad t) = complete_command (syscall_table env) (pad t) t"
  using assms c_string_pad [OF assms(1), of 0] last_space_none [OF assms(3) order_refl]
  by (cases "complete_command (syscall_table env) (pad t) t ")
    (auto simp: msh_auto_complete_def)

text \<open>The text of the line once the tab key has been handled.\<close>

definition completed :: "'f finsh_syscall list \<Rightarrow> bytes \<Rightarrow> bytes" where
  "completed table t =
     (if matching_commands table t = [] then t else Longest_common_prefix (set (matching_commands table t)))"

text \<open>C20: The tab key completes a command. On a line that is one word, of a state that stands for a text, it
  replaces the text by the longest prefix that all the exported commands with the text at their front
  share, or leaves it when there is none, lists those commands on the terminal in the order of the table
  followed by the prompt and the new text, and leaves the cursor at the end of the line.
\<close>

theorem shell_tab_completes:
  assumes "shell_shows s e" "mode e = WAIT_NORMAL" "edited e \<noteq> []" "space \<notin> set (edited e)" "names_ok (syscall_table env)"
    "finsh_get_prompt custom (getcwd env w) s = Inr p"
  shows "\<exists>s'. finsh_key depth env custom tab_key s w = Inr (s', w,
             replicate (length (before e)) (Print [backspace]) @ [Print [newline]] @
             map (\<lambda>c. Print (c @ [newline])) (matching_commands (syscall_table env) (edited e)) @
             [Print (p @ completed (syscall_table env) (edited e))]) \<and>
           shell_shows s' (ed_text (completed (syscall_table env) (edited e)) e)"
proof -
  have sh: "line s = pad (edited e)" "is_line (edited e)" "line_curpos s = length (before e)" "stat s = WAIT_NORMAL"
    using assms(1,2) by (auto simp: shell_shows_def)
  let ?t = "completed (syscall_table env) (edited e)"
  have "msh_auto_complete env w (pad (edited e)) = Inr (pad ?t, map (\<lambda>c. Print (c @ [newline]))
      (matching_commands (syscall_table env) (edited e)))" and t: "is_line ?t"
    using msh_auto_complete_text [OF sh(2) assms(3-5), of w] complete_command_text [OF sh(2) assms(3,5)] sh(2)
    by (auto simp: completed_def)
  then have "finsh_key depth env custom tab_key s w = Inr (s\<lparr>line := pad ?t, line_position := length ?t, line_curpos := length ?t\<rparr>, w,
             replicate (length (before e)) (Print [backspace]) @ [Print [newline]] @
             map (\<lambda>c. Print (c @ [newline])) (matching_commands (syscall_table env) (edited e)) @ [Print (p @ ?t)])"
    using sh assms(6) c_string_pad [OF t, of 0]
    by (simp add: finsh_key_def plain_key_def complete_key_def shell_auto_complete_def Let_def)
  moreover have "shell_shows (s\<lparr>line := pad ?t, line_position := length ?t, line_curpos := length ?t\<rparr>) (ed_text ?t e)"
    using assms(1) t by (simp add: shell_shows_def ed_text_def)
  ultimately show ?thesis by blast
qed


lemma shell_tab_completes_witness:
  "\<exists>s'. finsh_key 1 sample_env None tab_key (sample_shell\<lparr>line := pad (ascii ''d''), line_position := 1, line_curpos := 1\<rparr>) 7 =
          Inr (s', 7, [Print [backspace], Print [newline], Print (ascii ''date'' @ [newline]), Print (ascii ''msh />date'')]) \<and>
        shell_shows s' (ed_empty\<lparr>before := ascii ''date''\<rparr>)"
proof -
  let ?s = "sample_shell\<lparr>line := pad (ascii ''d''), line_position := 1, line_curpos := 1\<rparr>" and ?e = "ed_empty\<lparr>before := ascii ''d''\<rparr>"
  have m: "matching_commands (syscall_table sample_env) (edited ?e) = [ascii ''date'']"
    by (simp add: matching_commands_def command_names_def sample_env_def sample_table_def is_cmd_prefix cmd_prefix_eq ascii_def ed_empty_def)
  have "Longest_common_prefix {ascii ''date''} = ascii ''date''"
    by (intro Longest_common_prefix_eq) (auto dest: prefix_length_le)
  then have c: "completed (syscall_table sample_env) (edited ?e) = ascii ''date''"
    unfolding completed_def m by simp
  have "shell_shows ?s ?e"
    using sample_shell_shows by (simp add: shell_shows_def ed_empty_def is_line_def ascii_def)
  moreover have "names_ok (syscall_table sample_env)"
    by (simp add: names_ok_def command_names_def sample_env_def sample_table_def is_cmd_prefix cmd_prefix_eq ascii_def is_line_def)
  moreover have "finsh_get_prompt None (getcwd sample_env 7) ?s = Inr (ascii ''msh />'')"
    using sample_prompt [of 7] finsh_get_prompt_modes [of ?s sample_shell] by simp
  ultimately show ?thesis
    using shell_tab_completes [of ?s ?e sample_env None 7 "ascii ''msh />''" 1]
    unfolding m c by (simp add: ed_empty_def ascii_def ed_text_def)
qed

section \<open>Lines that are too long\<close>

text \<open>The character that fills the line resets the positions and leaves the bytes, without a NUL: completing
  the line reads on behind the array, and so does the last argument of the next command.\<close>

lemma insert_key_full:
  assumes "shell_shows s e" "after e = []" "length (before e) = FINSH_CMD_SIZE - 1"
  shows "\<exists>s'. insert_key c s = Inr (s', if echo_mode s then [Print [c]] else []) \<and>
           line s' = before e @ [c] \<and> line_position s' = 0 \<and> line_curpos s' = 0 \<and> modes s' = modes s \<and> stat s' = stat s"
proof -
  have "line s = before e @ [0]" "line_position s = FINSH_CMD_SIZE - 1" "line_curpos s = FINSH_CMD_SIZE - 1"
    using assms by (auto simp: shell_shows_def pad_def)
  then show ?thesis using assms(3) by (auto simp: insert_key_def Let_def list_update_append)
qed

definition plain_char :: "u8 \<Rightarrow> bool" where
  "plain_char c \<longleftrightarrow> c \<notin> {0, 255, 27, 127, backspace, tab_key, return_key, newline}"

lemma ed_keys_plain:
  "list_all plain_char cs \<Longrightarrow> length (edited e) + length cs < FINSH_CMD_SIZE \<Longrightarrow> mode e = WAIT_NORMAL \<Longrightarrow>
   ed_keys cs e = Some (e\<lparr>before := before e @ cs\<rparr>)"
proof (induction cs arbitrary: e)
  case (Cons c cs)
  then have "ed_key c e = Some (ed_insert c e)" by (auto simp: ed_key_def ed_plain_def plain_char_def)
  moreover have "ed_keys cs (ed_insert c e) = Some (ed_insert c e\<lparr>before := before (ed_insert c e) @ cs\<rparr>)"
    using Cons.prems by (intro Cons.IH) (auto simp: ed_insert_def)
  ultimately show ?case by (simp add: ed_insert_def)
qed simp

theorem shell_long_line_overruns:
  fixes env :: "('f, 'w) shell_env"
  assumes "shell_shows s e" "edited e = []" "mode e = WAIT_NORMAL" "length cs = FINSH_CMD_SIZE" "list_all plain_char cs"
    "finsh_get_prompt custom (getcwd env w) s = Inr p"
  shows "\<exists>s' (evs :: 'f shell_event list). finsh_loop depth env custom (map uint cs) s w = Inr (s', w, evs) \<and> line s' = cs \<and> line_position s' = 0 \<and>
           finsh_key depth env custom tab_key s' w = Inl Out_of_bounds"
proof -
  obtain ds c where cs: "cs = ds @ [c]" using assms(4) by (cases cs rule: rev_cases) auto
  have ds: "ed_keys ds e = Some (e\<lparr>before := ds\<rparr>)" and c: "plain_char c"
    using ed_keys_plain [of ds e] assms(2-5) cs by auto
  obtain s1 where s1: "finsh_loop depth env custom (map uint ds) s w = Inr (s1, w, print_keys (echo_mode s) p ds e :: 'f shell_event list)"
      "shell_shows s1 (e\<lparr>before := ds\<rparr>)"
    using finsh_loop_edits [OF assms(1) ds assms(6), of depth] by blast
  have n: "stat s1 = WAIT_NORMAL" using s1(2) assms(3) by (simp add: shell_shows_def)
  obtain s2 and evs :: "'f shell_event list" where s2: "insert_key c s1 = Inr (s2, evs)" "line s2 = cs" "line_position s2 = 0" "stat s2 = WAIT_NORMAL"
    using insert_key_full [OF s1(2), of c] assms(2,4) cs n by auto
  have "finsh_key depth env custom c s1 w = Inr (s2, w, evs)"
    using s2(1) c n by (simp add: finsh_key_def plain_key_def plain_char_def)
  then have "finsh_loop depth env custom [uint c] s1 w = Inr (s2, w, evs)" by simp
  from finsh_loop_append [OF s1(1) this] have "finsh_loop depth env custom (map uint cs) s w = Inr (s2, w, print_keys (echo_mode s) p ds e @ evs)"
    by (simp add: cs)
  moreover have "0 \<notin> set cs" using assms(5) by (auto simp: list_all_iff plain_char_def)
  then have "finsh_key depth env custom tab_key s2 w = Inl Out_of_bounds"
    using s2 by (simp add: finsh_key_def plain_key_def complete_key_def shell_auto_complete_def msh_auto_complete_def c_string_def Let_def)
  ultimately show ?thesis using s2 by blast
qed

text \<open>A file name is copied into the line whatever its length.\<close>

lemma shell_path_overruns:
  "msh_auto_complete (sample_env\<lparr>open_dir := (\<lambda>w path. Some [replicate 90 97])\<rparr>) w (pad (ascii ''ls a'')) = Inl Out_of_bounds"
proof -
  have pre: "c_string (pad [108, 115, 32, 97]) 0 = Inr [108, 115, 32, 97]" "c_string (pad [108, 115, 32, 97]) (Suc (Suc (Suc 0))) = Inr [97]"
    "length (pad [108, 115, 32, 97]) = 80" "ascii ''ls a'' = [108, 115, 32, 97]"
    by (simp_all add: c_string_pad is_line_def length_pad ascii_def)
  have "replicate 90 (97 :: u8) = 97 # replicate 89 97" by (simp flip: replicate_Suc)
  then have "strncmp_eq [97, 0] (replicate 90 97 @ [0]) (Suc 0)" by simp
  then show ?thesis
    by (simp add: pre msh_auto_complete_def ascii_def msh_auto_complete_path_def sample_env_def common_step_def Let_def
        memcpy_def is_line_def)
qed

end
