(* ===== verification/Spec2Isabelle.thy ===== *)
theory Spec2Isabelle
  imports Prelude ByteCodec AlphaPacket AlphaFramer AlphaShell Fifo Ring RingBuffer Voice Tas2505 I2sClock VoiceInit Timer Sched Thread ThreadLife Ipc IpcSync Mailbox LinkedList MsgQueue SmallMem SmallMemOps RingHeap MemPool KMem KString Object ObjectSystem KPrintf Device DeviceName Serial SerialRx SerialDev DataQueue SerialTx AlphaLink Msh MshSplit MshRun Shell ShellEdit ShellScreen ShellTab
begin

text \<open>
  A model of the firmware of an alarm host and of the real-time kernel it runs on, with the properties that
  make its parts correct. The program is RT-Thread (\<^verbatim>\<open>src/src\<close>, \<^verbatim>\<open>src/include\<close>) and the
  application of the board \<^verbatim>\<open>stm32f407-sensoro\<close> (\<^verbatim>\<open>src/stm32/stm32f407-sensoro/applications\<close>): threads of
  fixed priority receive and send the packets of a radio module (alpha) over a serial port, play voice clips
  from flash through an audio codec, and wait for each other by the kernel's objects. The processor has one
  core, 32-bit words and the low byte first; \<^verbatim>\<open>char\<close> is unsigned. The configuration is the board's
  \<^verbatim>\<open>rtconfig.h\<close>: 32 priorities, the small memory heap, no soft timers, no signals, no hooks.

  \<^bold>\<open>How code becomes definitions.\<close> A C structure is a record, a C function is a function from the state to the
  state and its result, under the name it has in the code. Words keep their width (\<^verbatim>\<open>Prelude\<close>: \<open>u8\<close>, \<open>u16\<close>,
  \<open>u32\<close>). A failed \<^verbatim>\<open>RT_ASSERT\<close>, an access outside of an array and a null pointer are values of \<open>fault\<close>, the
  left side of \<open>res\<close>. A loop that may not end is a \<open>partial_function\<close> or has fuel, and \<open>None\<close> is then not
  returning; the theorems about such a loop state that it returns. A call that blocks is two definitions: up to its
  \<^verbatim>\<open>rt_schedule\<close>, and from where the thread runs again. Interrupts occur between operations: code that runs with
  interrupts disabled is one step.

  \<^bold>\<open>Application.\<close>
  \<^item> \<^verbatim>\<open>ByteCodec\<close>: the inline functions of \<^verbatim>\<open>usr_util.h\<close>, encoders and decoders of integers in byte arrays and
    the charge of the battery; round trips and frames of the writes.
  \<^item> \<^verbatim>\<open>AlphaPacket\<close>: \<^verbatim>\<open>ser_alpha_data_handler.c\<close> and the senders of \<^verbatim>\<open>alpha_tasks.c\<close>; a sender emits one frame that
    holds its parameters. Its loop does not end for 236 or more bytes of data.
  \<^item> \<^verbatim>\<open>AlphaFramer\<close>: the receive thread of \<^verbatim>\<open>alpha_handler.c\<close>, a state machine over the bytes of the serial port; it
    delivers the payloads of a stream of frames in order, what a sender sends is received, and a bad length field
    leads to a write outside of its array.
  \<^item> \<^verbatim>\<open>Voice\<close>: \<^verbatim>\<open>voice_handler.c\<close> and the DMA interrupt of \<^verbatim>\<open>i2s_dma.c\<close>: the two buffers of a clip, filled in turn, and what a DMA
    controller in double-buffer mode (\<open>dma_play\<close>, after its manual) then sends.
  \<^item> \<^verbatim>\<open>Tas2505\<close>: the register scripts of \<^verbatim>\<open>tas2505.c\<close> over a bus that may refuse any transfer.
  \<^item> \<^verbatim>\<open>I2sClock\<close>: the divider table of \<^verbatim>\<open>i2s_dma.c\<close> and its error.
  \<^item> \<^verbatim>\<open>VoiceInit\<close>: \<^verbatim>\<open>voice_handler_init\<close>, the header of the voice area and the set-up of the peripherals; with \<^verbatim>\<open>Voice\<close>
    it gives the way from the flash image to the bytes that the DMA sends. A write through the unset DMA handle is a fault
    unless the platform is said to ignore it.
  \<^item> \<^verbatim>\<open>AlphaShell\<close>: the shell commands of \<^verbatim>\<open>alpha_handler.c\<close>, what they put on the serial port and where they overrun.

  \<^bold>\<open>Drivers.\<close>
  \<^item> \<^verbatim>\<open>Fifo\<close> is the contract of a bounded queue as a locale, and that of a queue of the kernel with its waiting threads
    (\<open>kernel_queue\<close>), of which the mailbox and the data queue are instances: exact results of every call, no faults; \<^verbatim>\<open>RingBuffer\<close> (\<^verbatim>\<open>ringbuffer.c\<close>), a byte array with
    two indices and mirror bits (\<^verbatim>\<open>Ring\<close>: circular arrays), interprets it and refines the list of the buffered bytes. \<^verbatim>\<open>RingHeap\<close>: such a
    buffer in the kernel heap.
  \<^item> \<^verbatim>\<open>Device\<close> (\<^verbatim>\<open>device.c\<close>): opening, closing, reading and writing through a record of optional operations; the
    locale \<open>counting_driver\<close> is what it asks of a driver, and its reference count then counts.
  \<^item> \<^verbatim>\<open>Serial\<close> (\<^verbatim>\<open>serial.c\<close>): the driver between a uart and its users, over the operations of the uart; it interprets
    \<open>counting_driver\<close>. \<^verbatim>\<open>SerialRx\<close>: the contract of a receive buffer (locale \<open>receive_buffer\<close>) with the FIFO of the receive
    interrupt and that of the DMA as instances. \<^verbatim>\<open>SerialDev\<close>: devices around such a buffer (locale \<open>buffered_device\<close>), so that
    interrupts and reads in any order make a queue; several users; sending.
  \<^item> \<^verbatim>\<open>DataQueue\<close> (\<^verbatim>\<open>dataqueue.c\<close>): the queue of pointers behind sending by DMA, a bounded queue until its counters wrap.
    \<^verbatim>\<open>SerialTx\<close>: sending by DMA over it, with the push and the look at the active flag as separate steps: every buffer is
    transmitted once and in order as long as writers do not overlap, and what happens when they do.
  \<^item> \<^verbatim>\<open>AlphaLink\<close>: the receive path as a whole, one step relation over the interrupt of uart3, its FIFO, the kernel with the
    semaphore and the message queue, the receive thread and the parser, interleaved with the rest of the system; no
    wake-up is lost and payloads are delivered in order.
  \<^item> \<^verbatim>\<open>Msh\<close> (\<^verbatim>\<open>src/components/finsh/msh.c\<close>, \<^verbatim>\<open>msh_file.c\<close>): splitting, finding and executing a line, scripts, completion; the
    commands and files are fields of an environment, and \<open>msh_exec\<close> has the number of nested scripts that the stack holds
    as its fuel (a line that names a command needs none). \<^verbatim>\<open>MshSplit\<close>: the pointer loop of \<open>msh_split\<close> computes the words of
    the line. \<^verbatim>\<open>MshRun\<close>: which command a line runs.
  \<^item> \<^verbatim>\<open>Shell\<close> (\<^verbatim>\<open>shell.c\<close>): the line editor, one character at a time. \<^verbatim>\<open>ShellEdit\<close>: it implements an editor on the text before and
    after the cursor, with the last five lines as its history, and the return key runs the text. \<^verbatim>\<open>ShellScreen\<close>: a terminal
    shows that text and cursor. \<^verbatim>\<open>ShellTab\<close>: completion, and what happens to lines that are too long.

  \<^bold>\<open>Kernel.\<close>
  \<^item> \<^verbatim>\<open>Timer\<close> (\<^verbatim>\<open>timer.c\<close>, \<^verbatim>\<open>clock.c\<close>): the list of the timers sorted by the ticks that remain, for every phase of the
    32-bit tick; what a tick fires and rearms, with the timeout functions as a parameter that may change the whole system and may detach
    or delete the timer they belong to.
  \<^item> \<^verbatim>\<open>Sched\<close> (\<^verbatim>\<open>scheduler.c\<close>): ready queues, the bitmap of priorities, the lock; the invariant \<open>sched_ok\<close> and what
    \<^verbatim>\<open>rt_schedule\<close> does. \<^verbatim>\<open>Thread\<close> and \<^verbatim>\<open>ThreadLife\<close> (\<^verbatim>\<open>thread.c\<close>, \<^verbatim>\<open>idle.c\<close>, \<^verbatim>\<open>clock.c\<close>): the life of a thread
    from creation to the reaping by the idle thread, sleeping, the time slice; every sequence of calls, ticks and idle
    rounds keeps the invariant.
  \<^item> \<^verbatim>\<open>Ipc\<close> (\<^verbatim>\<open>ipc.c\<close>): what the objects share, the lists of waiting threads; its operations work on any record that
    extends the kernel's. \<^verbatim>\<open>IpcSync\<close>: semaphores, mutexes with priority inheritance, events (specified by sets of event numbers). \<^verbatim>\<open>Mailbox\<close> and, over the
    links of \<^verbatim>\<open>LinkedList\<close>, \<^verbatim>\<open>MsgQueue\<close>: refinements of lists of mails and messages.
  \<^item> \<^verbatim>\<open>SmallMem\<close> and \<^verbatim>\<open>SmallMemOps\<close> (\<^verbatim>\<open>mem.c\<close>): the heap as a chain of block headers; \<open>heap_ok\<close> describes its
    layout by a list of blocks, and allocation, release and resizing are shown to act on the sets of allocated and of free regions.
    \<^verbatim>\<open>MemPool\<close> (\<^verbatim>\<open>mempool.c\<close>): pools of equal blocks, with waiting threads.
  \<^item> \<^verbatim>\<open>KMem\<close>, \<^verbatim>\<open>KString\<close>, \<^verbatim>\<open>KPrintf\<close> (\<^verbatim>\<open>kservice.c\<close>): filling, copying, comparing and searching in memory, strings, and
    formatted output, shown equal to the plain meaning of each.
  \<^item> \<^verbatim>\<open>Object\<close> (\<^verbatim>\<open>object.c\<close>): the objects as bytes of the memory with their names, types and lists, over the heap, the string
    routines and the scheduler's lock. \<^verbatim>\<open>ObjectSystem\<close>: every sequence of calls keeps the objects typed, names are found, creation and
    deletion are inverse. \<^verbatim>\<open>DeviceName\<close>: the operations of \<^verbatim>\<open>device.c\<close> that use names.

  \<^bold>\<open>How the parts meet.\<close> The records extend each other: the timers (\<open>tsys\<close>) are the base of the scheduler's state, that of
  the kernel's (\<open>ksys\<close>), that of the objects (\<open>isys\<close>) and of the pools; a lemma about a part is stated for every extension and
  so holds for the whole system. A thread that waits with a timeout is on the list of an object and has a running timer;
  \<open>block_on\<close> and \<open>woken_with\<close> in \<^verbatim>\<open>Ipc\<close> say what that means once for all objects. \<^verbatim>\<open>rt_strdup\<close> and the pools use the
  heap; the senders and the receiver share the packet format.

  \<^bold>\<open>Bounds and fuel.\<close> The tick is taken modulo \<open>2 ^ 32\<close> and a time is ahead of another if it is less than \<open>2 ^ 31\<close> later, as the
  code has it. The fuel of \<open>timer_check_loop\<close> bounds the timers that one tick fires: one more than the number of the
  timers that are due is enough unless a periodic timer has period 0. Other loops carry a measure. The theorems on addresses assume
  that a region does not wrap around the end of memory, as no region of the hardware does.

  \<^bold>\<open>Not modelled.\<close> The vendor's hardware library and the processor ports (\<^verbatim>\<open>src/stm32/libraries\<close>, \<^verbatim>\<open>src/libcpu\<close>) are
  vendored code below the interfaces used here; the file systems, network stacks and further components under
  \<^verbatim>\<open>src/components\<close> are third-party packages or are not used by the application. Threads that only pass calls to libraries outside
  the repository (button, sockets, the NB-IoT and 4G modules) and the set-up of pins, clocks and DMA have no logic of
  their own. Of the kernel, soft timers, signals, hooks, the other allocators (\<^verbatim>\<open>memheap.c\<close>, \<^verbatim>\<open>slab.c\<close>) and the multi-core
  paths are switched off in this configuration; \<^verbatim>\<open>_rt_scheduler_stack_check\<close> is left out, since the contents of stacks are not in the
  model. The theories of the kernel's own objects (threads, timers, IPC) use the object system only through its effect on the scheduler's lock; names are in \<^verbatim>\<open>Object\<close>.
\<close>

end
